(* ===== verification/XPrelude.thy ===== *)
theory XPrelude
  imports Main "HOL-Library.Word" "HOL-Library.Multiset"
begin

text \<open>
  Shared vocabulary of the XCore model: the machine types of the engine's sources, the
  result type that carries the outcomes a C++ call has beside returning (a failed
  \<open>XPACT_CHECK\<close>, an \<open>AbortWithMessage\<close>, an access outside the committed range, a caller
  parked by the hot-reload gate, a loop that does not end), the generic lemmas on words, sums and lists that the
  component theories share, and the collections their proofs extend.
\<close>

section \<open>Machine types\<close>

unbundle bit_operations_syntax

type_synonym u8 = "8 word"
type_synonym u32 = "32 word"
type_synonym u64 = "64 word"

text \<open>A pointer is the 64-bit address the engine's platforms use; the null pointer is 0.\<close>

type_synonym ptr = "64 word"

abbreviation nullptr :: ptr where
  "nullptr \<equiv> 0"

section \<open>Outcomes of a call\<close>

text \<open>
  \<open>XPACT_CHECK\<close> aborts in the Debug and Development configurations and is empty in the
  Shipping and Test configurations (\<open>Macros/XPactMacros.h\<close>), so every operation that
  contains one takes the configuration as an argument.
\<close>

datatype build = Checked | Shipping

datatype xerror =
    CheckFailed         \<comment> \<open>\<open>XPACT_CHECK\<close> fired: the process aborts\<close>
  | Aborted             \<comment> \<open>\<open>AbortWithMessage\<close> / \<open>MallocOrAbort\<close>\<close>
  | OutOfRange          \<comment> \<open>an access outside the committed storage, or a signed sum that overflows: undefined behaviour\<close>
  | HotReloadWait       \<comment> \<open>the caller is parked in \<open>WaitWhileHotReloadInProgress\<close>\<close>
  | NeverReturns        \<comment> \<open>a loop that does not end\<close>

definition xcheck :: "build \<Rightarrow> bool \<Rightarrow> xerror + 'a \<Rightarrow> xerror + 'a" where
  "xcheck b c k = (if b = Checked \<and> \<not> c then Inl CheckFailed else k)"

definition in_range :: "bool \<Rightarrow> xerror + 'a \<Rightarrow> xerror + 'a" where
  "in_range c k = (if c then k else Inl OutOfRange)"

definition rbind :: "'e + 'a \<Rightarrow> ('a \<Rightarrow> 'e + 'b) \<Rightarrow> 'e + 'b" where
  "rbind m f = (case m of Inl e \<Rightarrow> Inl e | Inr x \<Rightarrow> f x)"

named_theorems xres_simps \<open>evaluation of the outcome combinators\<close>

lemma rbind_Inr [simp, xres_simps]: "rbind (Inr x) f = f x"
  by (simp add: rbind_def)

lemma rbind_Inl [simp, xres_simps]: "rbind (Inl e) f = Inl e"
  by (simp add: rbind_def)

lemma rbind_eq_Inr: "rbind m f = Inr y \<longleftrightarrow> (\<exists>x. m = Inr x \<and> f x = Inr y)"
  by (cases m) auto

lemma xcheck_eq_Inr: "xcheck b c k = Inr y \<longleftrightarrow> (b = Checked \<longrightarrow> c) \<and> k = Inr y"
  by (auto simp: xcheck_def)

lemma xcheck_True [simp, xres_simps]: "xcheck b True k = k"
  by (simp add: xcheck_def)

lemma xcheck_Shipping [simp, xres_simps]: "xcheck Shipping c k = k"
  by (simp add: xcheck_def)

lemma in_range_eq_Inr: "in_range c k = Inr y \<longleftrightarrow> c \<and> k = Inr y"
  by (auto simp: in_range_def)

lemma in_range_True [simp, xres_simps]: "in_range True k = k"
  by (simp add: in_range_def)

lemmas res_eq_Inr = rbind_eq_Inr xcheck_eq_Inr in_range_eq_Inr

section \<open>Runs of a step function\<close>

text \<open>A sequence of operations stops at the first one that does not return.\<close>

fun run_steps :: "('op \<Rightarrow> 's \<Rightarrow> 'e + 's) \<Rightarrow> 'op list \<Rightarrow> 's \<Rightarrow> 'e + 's" where
  "run_steps step [] s = Inr s"
| "run_steps step (x # xs) s = rbind (step x s) (run_steps step xs)"

text \<open>The same run, where every operation meets its caller's obligation.\<close>

fun run_guarded ::
  "('op \<Rightarrow> 's \<Rightarrow> bool) \<Rightarrow> ('op \<Rightarrow> 's \<Rightarrow> xerror + 's) \<Rightarrow> 'op list \<Rightarrow> 's \<Rightarrow> xerror + 's" where
  "run_guarded ok step [] s = Inr s"
| "run_guarded ok step (x # xs) s =
     (if ok x s then rbind (step x s) (run_guarded ok step xs) else Inl OutOfRange)"

text \<open>A visitor that may not return, applied to every element of a list in order.\<close>

fun fold_res :: "('a \<Rightarrow> 's \<Rightarrow> 'e + 's) \<Rightarrow> 'a list \<Rightarrow> 's \<Rightarrow> 'e + 's" where
  "fold_res f [] s = Inr s"
| "fold_res f (x # xs) s = rbind (f x s) (fold_res f xs)"

lemma fold_res_inv:
  assumes "fold_res f xs s = Inr s'" "P s"
    and "\<And>x t t'. x \<in> set xs \<Longrightarrow> P t \<Longrightarrow> f x t = Inr t' \<Longrightarrow> P t'"
  shows "P s'"
  using assms by (induction xs arbitrary: s) (auto simp: rbind_eq_Inr)

lemma fold_res_append:
  "fold_res f (xs @ ys) s = rbind (fold_res f xs s) (fold_res f ys)"
  by (induction xs arbitrary: s) (auto simp: rbind_def split: sum.splits)

lemma fold_res_snoc: "fold_res f (xs @ [x]) s = rbind (fold_res f xs s) (f x)"
  by (induction xs arbitrary: s) (auto simp: rbind_def split: sum.splits)

section \<open>Geometric growth of a buffer\<close>

text \<open>
  Every growable buffer of the collector (\<open>GrowIfNeededUnderLock\<close> of the gray overflow
  list, the SATB log, the sweep-candidate queue and the deferred-destruction queue) runs
  the same loop \<open>while (NewCapacity < Needed) NewCapacity *= 2;\<close>.
\<close>

function grow_pow2 :: "nat \<Rightarrow> nat \<Rightarrow> nat" where
  "grow_pow2 cap needed =
     (if 0 < cap \<and> cap < needed then grow_pow2 (2 * cap) needed else cap)"
  by pat_completeness auto
termination
  by (relation "measure (\<lambda>(cap, needed). needed - cap)") auto

declare grow_pow2.simps [simp del]

lemma grow_pow2_ge: "0 < cap \<Longrightarrow> needed \<le> grow_pow2 cap needed"
proof (induction cap needed rule: grow_pow2.induct)
  case (1 cap needed)
  then show ?case by (simp add: grow_pow2.simps [of cap needed])
qed

lemma grow_pow2_id: "needed \<le> cap \<Longrightarrow> grow_pow2 cap needed = cap"
  by (simp add: grow_pow2.simps)

lemma grow_pow2_mono: "cap \<le> grow_pow2 cap needed"
proof (induction cap needed rule: grow_pow2.induct)
  case (1 cap needed)
  then show ?case by (auto simp add: grow_pow2.simps [of cap needed])
qed

lemma grow_pow2_less: "0 < cap \<Longrightarrow> cap < needed \<Longrightarrow> grow_pow2 cap needed < 2 * needed"
proof (induction cap needed rule: grow_pow2.induct)
  case (1 cap needed)
  show ?case
  proof (cases "2 * cap < needed")
    case True
    with 1 show ?thesis by (simp add: grow_pow2.simps [of cap needed])
  next
    case False
    with "1.prems" show ?thesis
      by (simp add: grow_pow2.simps [of cap needed] grow_pow2_id)
  qed
qed

text \<open>\<open>GrowIfNeededUnderLock\<close> as a function of the count, the capacity and the request.\<close>

definition GrowCapacity :: "nat \<Rightarrow> nat \<Rightarrow> nat \<Rightarrow> nat \<Rightarrow> nat" where
  "GrowCapacity initial cnt cap req =
     (let needed = cnt + req in
      if needed \<le> cap then cap
      else grow_pow2 (if cap = 0 then initial else cap) needed)"

lemma GrowCapacity_fits: "0 < initial \<Longrightarrow> cnt + req \<le> GrowCapacity initial cnt cap req"
  by (simp add: GrowCapacity_def Let_def grow_pow2_ge)

lemma GrowCapacity_mono: "cap \<le> GrowCapacity initial cnt cap req"
  by (simp add: GrowCapacity_def Let_def grow_pow2_mono)

lemma GrowCapacity_bound:
  assumes "0 < initial"
  shows "GrowCapacity initial cnt cap req \<le> max (max initial cap) (2 * (cnt + req))"
proof (cases "(if cap = 0 then initial else cap) < cnt + req")
  case True
  with assms have "grow_pow2 (if cap = 0 then initial else cap) (cnt + req) < 2 * (cnt + req)"
    by (intro grow_pow2_less) auto
  with True show ?thesis by (auto simp: GrowCapacity_def Let_def split: if_splits)
next
  case False
  then show ?thesis by (auto simp: GrowCapacity_def Let_def grow_pow2_id not_less)
qed

section \<open>Words\<close>

lemma unat_less_2p64: "unat (x :: u64) < 2 ^ 64"
  using unsigned_less [of x, where 'a = nat] by simp

lemma unat_less_2p32: "unat (x :: u32) < 2 ^ 32"
  using unsigned_less [of x, where 'a = nat] by simp

lemma of_nat_unat64 [simp]: "word_of_nat (unat (x :: u64)) = x"
  by simp

lemma unat64_inject: "unat (x :: u64) = unat y \<longleftrightarrow> x = y"
  by (metis of_nat_unat64)

section \<open>Lists\<close>

lemma sum_list_map_filter_le:
  "(\<And>x. x \<in> set xs \<Longrightarrow> P x \<Longrightarrow> Q x) \<Longrightarrow> length (filter P xs) \<le> length (filter Q xs)"
  by (induction xs) (auto intro: le_SucI)

end
