(* ===== verification/ObjectArray.thy ===== *)
theory ObjectArray
  imports XPrelude
begin

text \<open>
  The global object table: \<open>Public/XObject/FXObjectArrayEntry.h\<close>,
  \<open>Public/XObject/FXObjectArray.h\<close> and \<open>Private/XObject/FXObjectArray.cpp\<close>.  The slot
  table is a function of the index together with the committed count, so that a fresh
  chunk is 32768 constructed entries without 32768 list cells; the free list is the list of
  its first \<open>m_freeListCount\<close> elements, the last element being the top of the stack.
  Operations that take the exclusive lock are atomic here; the compare-exchange loops on
  \<open>StateBits\<close> are their linearised read-modify-write.  The two calls of the platform layer
  (\<open>ReserveVirtual\<close>, \<open>CommitVirtual\<close>) are the parameters \<open>reserve_ok\<close> and \<open>commit_ok\<close>.
\<close>

section \<open>The entry and the constants\<close>

record FXObjectArrayEntry =
  EntryObject :: ptr
  EntrySerialNumber :: u32
  ClusterRootIndex :: u32
  StateBits :: u64

definition FXObjectArrayEntry_default :: FXObjectArrayEntry where
  "FXObjectArrayEntry_default =
     \<lparr>EntryObject = nullptr, EntrySerialNumber = 0, ClusterRootIndex = 0, StateBits = 0\<rparr>"

definition kFXObjectArrayCommitBytes :: int where
  "kFXObjectArrayCommitBytes = 2 ^ 20"

definition kFXObjectArrayEntriesPerCommit :: int where
  "kFXObjectArrayEntriesPerCommit = kFXObjectArrayCommitBytes div 32"

definition kFXObjectArrayReservedBytes :: int where
  "kFXObjectArrayReservedBytes = 256 * 2 ^ 20"

definition kFXObjectArrayMaxEntries :: int where
  "kFXObjectArrayMaxEntries = kFXObjectArrayReservedBytes div 32"

definition kFXObjectArrayRefCountShift :: nat where
  "kFXObjectArrayRefCountShift = 32"

definition kFXObjectArrayRefCountBits :: nat where
  "kFXObjectArrayRefCountBits = 24"

definition kFXObjectArrayRefCountMask :: u64 where
  "kFXObjectArrayRefCountMask =
     push_bit kFXObjectArrayRefCountShift (push_bit kFXObjectArrayRefCountBits 1 - 1)"

definition kFXObjectArrayRefCountUnit :: u64 where
  "kFXObjectArrayRefCountUnit = push_bit kFXObjectArrayRefCountShift 1"

definition kFXObjectArrayRefCountMax :: u64 where
  "kFXObjectArrayRefCountMax = push_bit kFXObjectArrayRefCountBits 1 - 1"

definition kFXObjectArrayPendingDestroyBit :: u64 where
  "kFXObjectArrayPendingDestroyBit = push_bit 1 1"

definition kFXObjectArrayRootPinnedBit :: u64 where
  "kFXObjectArrayRootPinnedBit = push_bit 2 1"

definition kFXObjectArrayHotReloadInProgress :: u64 where
  "kFXObjectArrayHotReloadInProgress = push_bit 3 1"

definition kFXObjectArrayGarbageBit :: u64 where
  "kFXObjectArrayGarbageBit = push_bit 7 1"

named_theorems array_consts \<open>the numeric values of the table's constants\<close>

lemma kEntriesPerCommit_val [array_consts]: "kFXObjectArrayEntriesPerCommit = 32768"
  by (simp add: kFXObjectArrayEntriesPerCommit_def kFXObjectArrayCommitBytes_def)

lemma kMaxEntries_val [array_consts]: "kFXObjectArrayMaxEntries = 8388608"
  by (simp add: kFXObjectArrayMaxEntries_def kFXObjectArrayReservedBytes_def)

lemma kRefCountMask_val [array_consts]: "kFXObjectArrayRefCountMask = 0x00FFFFFF00000000"
  by (simp add: kFXObjectArrayRefCountMask_def kFXObjectArrayRefCountShift_def
      kFXObjectArrayRefCountBits_def push_bit_eq_mult)

lemma kRefCountUnit_val [array_consts]: "kFXObjectArrayRefCountUnit = 0x100000000"
  by (simp add: kFXObjectArrayRefCountUnit_def kFXObjectArrayRefCountShift_def push_bit_eq_mult)

lemma kRefCountMax_val [array_consts]: "kFXObjectArrayRefCountMax = 0xFFFFFF"
  by (simp add: kFXObjectArrayRefCountMax_def kFXObjectArrayRefCountBits_def push_bit_eq_mult)

lemma kPendingDestroyBit_val [array_consts]: "kFXObjectArrayPendingDestroyBit = 2"
  by (simp add: kFXObjectArrayPendingDestroyBit_def push_bit_eq_mult)

lemma kRootPinnedBit_val [array_consts]: "kFXObjectArrayRootPinnedBit = 4"
  by (simp add: kFXObjectArrayRootPinnedBit_def push_bit_eq_mult)

lemma kHotReloadBit_val [array_consts]: "kFXObjectArrayHotReloadInProgress = 8"
  by (simp add: kFXObjectArrayHotReloadInProgress_def push_bit_eq_mult)

lemma kGarbageBit_val [array_consts]: "kFXObjectArrayGarbageBit = 128"
  by (simp add: kFXObjectArrayGarbageBit_def push_bit_eq_mult)

section \<open>The table\<close>

record FXObjectArray =
  m_entries :: "int \<Rightarrow> FXObjectArrayEntry"
  m_committedCount :: int
  m_bumpHead :: int
  m_numLive :: int
  m_freeList :: "int list"
  m_freeListCapacity :: int

definition upd_entry ::
  "int \<Rightarrow> (FXObjectArrayEntry \<Rightarrow> FXObjectArrayEntry) \<Rightarrow> FXObjectArray \<Rightarrow> FXObjectArray" where
  "upd_entry i f a = a\<lparr>m_entries := (m_entries a)(i := f (m_entries a i))\<rparr>"

lemma upd_entry_sel [simp]:
  "m_entries (upd_entry i f a) = (m_entries a)(i := f (m_entries a i))"
  "m_committedCount (upd_entry i f a) = m_committedCount a"
  "m_bumpHead (upd_entry i f a) = m_bumpHead a"
  "m_numLive (upd_entry i f a) = m_numLive a"
  "m_freeList (upd_entry i f a) = m_freeList a"
  "m_freeListCapacity (upd_entry i f a) = m_freeListCapacity a"
  by (simp_all add: upd_entry_def)

text \<open>The constructor: reserve the range, commit and construct the first chunk, skip index 0.\<close>

definition FXObjectArray_ctor :: "bool \<Rightarrow> (int \<Rightarrow> bool) \<Rightarrow> xerror + FXObjectArray" where
  "FXObjectArray_ctor reserve_ok commit_ok =
     (if \<not> reserve_ok then Inl Aborted
      else if \<not> commit_ok 0 then Inl Aborted
      else Inr \<lparr>m_entries = (\<lambda>_. FXObjectArrayEntry_default),
                m_committedCount = kFXObjectArrayEntriesPerCommit,
                m_bumpHead = 1, m_numLive = 0,
                m_freeList = [], m_freeListCapacity = 0\<rparr>)"

definition ResetForTests :: "FXObjectArray \<Rightarrow> FXObjectArray" where
  "ResetForTests a =
     a\<lparr>m_entries := (\<lambda>i. if 0 \<le> i \<and> i < m_committedCount a then FXObjectArrayEntry_default
                        else m_entries a i),
       m_bumpHead := 1, m_numLive := 0, m_freeList := []\<rparr>"

text \<open>Growth: one more 1 MB chunk of entries, or the abort paths.\<close>

definition CommitNextChunkUnderLock ::
  "(int \<Rightarrow> bool) \<Rightarrow> FXObjectArray \<Rightarrow> xerror + FXObjectArray" where
  "CommitNextChunkUnderLock commit_ok a =
     (let OldCapacity = m_committedCount a in
      if OldCapacity \<ge> kFXObjectArrayMaxEntries then Inl Aborted
      else if \<not> commit_ok (OldCapacity * 32) then Inl Aborted
      else Inr (a\<lparr>m_entries :=
                    (\<lambda>i. if OldCapacity \<le> i \<and> i < OldCapacity + kFXObjectArrayEntriesPerCommit
                         then FXObjectArrayEntry_default else m_entries a i),
                  m_committedCount := OldCapacity + kFXObjectArrayEntriesPerCommit\<rparr>))"

definition GrowFreeListUnderLock :: "FXObjectArray \<Rightarrow> FXObjectArray" where
  "GrowFreeListUnderLock a =
     a\<lparr>m_freeListCapacity :=
         (if m_freeListCapacity a = 0 then 64 else m_freeListCapacity a * 2)\<rparr>"

definition hot_reload_gate :: "bool \<Rightarrow> xerror + 'a \<Rightarrow> xerror + 'a" where
  "hot_reload_gate InProgress k = (if InProgress then Inl HotReloadWait else k)"

lemma hot_reload_gate_False [simp, xres_simps]: "hot_reload_gate False k = k"
  by (simp add: hot_reload_gate_def)

lemma hot_reload_gate_eq_Inr: "hot_reload_gate h k = Inr y \<longleftrightarrow> \<not> h \<and> k = Inr y"
  by (auto simp: hot_reload_gate_def)

section \<open>Allocation\<close>

definition ReserveSlot ::
  "(int \<Rightarrow> bool) \<Rightarrow> bool \<Rightarrow> FXObjectArray \<Rightarrow> xerror + int \<times> u32 \<times> FXObjectArray" where
  "ReserveSlot commit_ok hot a = hot_reload_gate hot (
     if m_freeList a \<noteq> [] then
       let Index = last (m_freeList a);
           a1 = a\<lparr>m_freeList := butlast (m_freeList a)\<rparr>;
           OutSerialNumber = EntrySerialNumber (m_entries a1 Index)
       in Inr (Index, OutSerialNumber, upd_entry Index (EntryObject_update (\<lambda>_. nullptr)) a1)
     else
       let Index = m_bumpHead a in
       rbind (if Index \<ge> m_committedCount a then CommitNextChunkUnderLock commit_ok a else Inr a)
         (\<lambda>a1. let a2 = upd_entry Index (EntrySerialNumber_update (\<lambda>_. 1))
                          (a1\<lparr>m_bumpHead := m_bumpHead a1 + 1\<rparr>)
               in Inr (Index, 1, upd_entry Index (EntryObject_update (\<lambda>_. nullptr)) a2)))"

definition BindObject :: "build \<Rightarrow> int \<Rightarrow> ptr \<Rightarrow> FXObjectArray \<Rightarrow> xerror + FXObjectArray" where
  "BindObject b InternalIndex Obj a =
     xcheck b (InternalIndex > 0) (xcheck b (Obj \<noteq> nullptr) (
     xcheck b (InternalIndex < m_committedCount a) (
     in_range (0 \<le> InternalIndex \<and> InternalIndex < m_committedCount a) (
     Inr ((upd_entry InternalIndex (EntryObject_update (\<lambda>_. Obj)) a)
            \<lparr>m_numLive := m_numLive a + 1\<rparr>)))))"

definition AllocateEntry ::
  "(int \<Rightarrow> bool) \<Rightarrow> bool \<Rightarrow> ptr \<Rightarrow> FXObjectArray \<Rightarrow> xerror + int \<times> FXObjectArray" where
  "AllocateEntry commit_ok hot ForObject a = hot_reload_gate hot (
     rbind
       (if m_freeList a \<noteq> [] then
          Inr (last (m_freeList a), a\<lparr>m_freeList := butlast (m_freeList a)\<rparr>)
        else
          let Index = m_bumpHead a in
          rbind (if Index \<ge> m_committedCount a then CommitNextChunkUnderLock commit_ok a else Inr a)
            (\<lambda>a1. Inr (Index, upd_entry Index (EntrySerialNumber_update (\<lambda>_. 1))
                               (a1\<lparr>m_bumpHead := m_bumpHead a1 + 1\<rparr>))))
       (\<lambda>(Index, a2).
          let a3 = upd_entry Index (EntryObject_update (\<lambda>_. ForObject)) a2 in
          Inr (Index, if ForObject \<noteq> nullptr then a3\<lparr>m_numLive := m_numLive a3 + 1\<rparr> else a3)))"

section \<open>Release\<close>

text \<open>The serial bump of a freed slot; 0 stays reserved for the null handle.\<close>

definition BumpSerialNumber :: "u32 \<Rightarrow> u32" where
  "BumpSerialNumber s = (let s' = s + 1 in if s' = 0 then 1 else s')"

definition PushFree :: "int \<Rightarrow> FXObjectArray \<Rightarrow> FXObjectArray" where
  "PushFree InternalIndex a =
     (let a1 = (if int (length (m_freeList a)) \<ge> m_freeListCapacity a
                then GrowFreeListUnderLock a else a)
      in a1\<lparr>m_freeList := m_freeList a1 @ [InternalIndex]\<rparr>)"

definition FreeEntry :: "build \<Rightarrow> bool \<Rightarrow> int \<Rightarrow> FXObjectArray \<Rightarrow> xerror + FXObjectArray" where
  "FreeEntry b hot InternalIndex a =
     xcheck b (InternalIndex > 0) (hot_reload_gate hot (
     xcheck b (InternalIndex < m_committedCount a) (
     in_range (0 \<le> InternalIndex \<and> InternalIndex < m_committedCount a) (
     let bWasLive = (EntryObject (m_entries a InternalIndex) \<noteq> nullptr);
         a1 = upd_entry InternalIndex
                (\<lambda>e. e\<lparr>EntrySerialNumber := BumpSerialNumber (EntrySerialNumber e),
                      EntryObject := nullptr\<rparr>) a;
         a2 = (if bWasLive then a1\<lparr>m_numLive := m_numLive a1 - 1\<rparr> else a1)
     in Inr (PushFree InternalIndex a2)))))"

definition kEntryStateClearMask :: u64 where
  "kEntryStateClearMask = kFXObjectArrayPendingDestroyBit OR kFXObjectArrayGarbageBit
     OR kFXObjectArrayRootPinnedBit OR kFXObjectArrayHotReloadInProgress"

definition ReleaseSlot :: "build \<Rightarrow> bool \<Rightarrow> int \<Rightarrow> FXObjectArray \<Rightarrow> xerror + FXObjectArray" where
  "ReleaseSlot b hot InternalIndex a =
     xcheck b (InternalIndex > 0) (hot_reload_gate hot (
     xcheck b (InternalIndex < m_committedCount a) (
     in_range (0 \<le> InternalIndex \<and> InternalIndex < m_committedCount a) (
     let bWasLive = (EntryObject (m_entries a InternalIndex) \<noteq> nullptr);
         a1 = upd_entry InternalIndex
                (\<lambda>e. e\<lparr>EntrySerialNumber := BumpSerialNumber (EntrySerialNumber e),
                      EntryObject := nullptr,
                      StateBits := StateBits e AND NOT kEntryStateClearMask\<rparr>) a;
         a2 = (if bWasLive then a1\<lparr>m_numLive := m_numLive a1 - 1\<rparr> else a1)
     in Inr (PushFree InternalIndex a2)))))"

section \<open>Lookup\<close>

definition GetObjectAtIndex :: "FXObjectArray \<Rightarrow> int \<Rightarrow> u32 \<Rightarrow> ptr" where
  "GetObjectAtIndex a InternalIndex ExpectedSerialNumber =
     (if InternalIndex \<le> 0 then nullptr
      else if InternalIndex \<ge> m_committedCount a then nullptr
      else if EntrySerialNumber (m_entries a InternalIndex) \<noteq> ExpectedSerialNumber then nullptr
      else EntryObject (m_entries a InternalIndex))"

definition GetObjectAtIndexUnchecked :: "build \<Rightarrow> FXObjectArray \<Rightarrow> int \<Rightarrow> xerror + ptr" where
  "GetObjectAtIndexUnchecked b a InternalIndex =
     xcheck b (InternalIndex > 0) (xcheck b (InternalIndex < m_committedCount a) (
     in_range (0 \<le> InternalIndex \<and> InternalIndex < m_committedCount a) (
     Inr (EntryObject (m_entries a InternalIndex)))))"

text \<open>The shared-lock walk over the live entries, in index order.\<close>

definition ForEachObject :: "FXObjectArray \<Rightarrow> (int \<times> ptr) list" where
  "ForEachObject a =
     filter (\<lambda>(i, p). p \<noteq> nullptr)
       (map (\<lambda>i. (i, EntryObject (m_entries a i))) [1..m_committedCount a - 1])"

section \<open>The state word: reference count and state bits\<close>

definition RefCountOf :: "u64 \<Rightarrow> u64" where
  "RefCountOf w = drop_bit kFXObjectArrayRefCountShift (w AND kFXObjectArrayRefCountMask)"

definition AddRef :: "build \<Rightarrow> int \<Rightarrow> FXObjectArray \<Rightarrow> xerror + FXObjectArray" where
  "AddRef b InternalIndex a =
     (if InternalIndex = 0 then Inr a
      else xcheck b (InternalIndex > 0) (xcheck b (InternalIndex < m_committedCount a) (
        in_range (0 \<le> InternalIndex \<and> InternalIndex < m_committedCount a) (
        let Old = StateBits (m_entries a InternalIndex) in
        xcheck b (RefCountOf Old < kFXObjectArrayRefCountMax) (
        if RefCountOf Old \<ge> kFXObjectArrayRefCountMax then Inr a
        else Inr (upd_entry InternalIndex
                    (StateBits_update (\<lambda>_. Old + kFXObjectArrayRefCountUnit)) a))))))"

definition ReleaseRef :: "build \<Rightarrow> int \<Rightarrow> FXObjectArray \<Rightarrow> xerror + FXObjectArray" where
  "ReleaseRef b InternalIndex a =
     (if InternalIndex = 0 then Inr a
      else xcheck b (InternalIndex > 0) (xcheck b (InternalIndex < m_committedCount a) (
        in_range (0 \<le> InternalIndex \<and> InternalIndex < m_committedCount a) (
        let Old = StateBits (m_entries a InternalIndex) in
        xcheck b (RefCountOf Old > 0) (
        if RefCountOf Old = 0 then Inr a
        else Inr (upd_entry InternalIndex
                    (StateBits_update (\<lambda>_. Old - kFXObjectArrayRefCountUnit)) a))))))"

definition GetRefCount :: "FXObjectArray \<Rightarrow> int \<Rightarrow> u32" where
  "GetRefCount a InternalIndex =
     (if InternalIndex \<le> 0 then 0
      else if InternalIndex \<ge> m_committedCount a then 0
      else ucast (RefCountOf (StateBits (m_entries a InternalIndex))))"

text \<open>The compare-exchange bodies shared by the bit setters and clearers.\<close>

definition set_state_bit :: "u64 \<Rightarrow> FXObjectArray \<Rightarrow> int \<Rightarrow> bool \<times> FXObjectArray" where
  "set_state_bit msk a InternalIndex =
     (if InternalIndex \<le> 0 then (False, a)
      else if InternalIndex \<ge> m_committedCount a then (False, a)
      else let Old = StateBits (m_entries a InternalIndex) in
           if Old AND msk \<noteq> 0 then (False, a)
           else (True, upd_entry InternalIndex (StateBits_update (\<lambda>_. Old OR msk)) a))"

definition clear_state_bit :: "u64 \<Rightarrow> FXObjectArray \<Rightarrow> int \<Rightarrow> bool \<times> FXObjectArray" where
  "clear_state_bit msk a InternalIndex =
     (if InternalIndex \<le> 0 then (False, a)
      else if InternalIndex \<ge> m_committedCount a then (False, a)
      else let Old = StateBits (m_entries a InternalIndex) in
           if Old AND msk = 0 then (False, a)
           else (True, upd_entry InternalIndex (StateBits_update (\<lambda>_. Old AND NOT msk)) a))"

definition SetRootPin :: "FXObjectArray \<Rightarrow> int \<Rightarrow> bool \<times> FXObjectArray" where
  "SetRootPin = set_state_bit kFXObjectArrayRootPinnedBit"

definition ClearRootPin :: "FXObjectArray \<Rightarrow> int \<Rightarrow> bool \<times> FXObjectArray" where
  "ClearRootPin = clear_state_bit kFXObjectArrayRootPinnedBit"

definition SetPendingDestroyBit :: "FXObjectArray \<Rightarrow> int \<Rightarrow> bool \<times> FXObjectArray" where
  "SetPendingDestroyBit = set_state_bit kFXObjectArrayPendingDestroyBit"

definition ClearPendingDestroyBit :: "FXObjectArray \<Rightarrow> int \<Rightarrow> bool \<times> FXObjectArray" where
  "ClearPendingDestroyBit = clear_state_bit kFXObjectArrayPendingDestroyBit"

definition SetGarbageBit :: "FXObjectArray \<Rightarrow> int \<Rightarrow> bool \<times> FXObjectArray" where
  "SetGarbageBit = set_state_bit kFXObjectArrayGarbageBit"

definition IsRootPinned :: "FXObjectArray \<Rightarrow> int \<Rightarrow> bool" where
  "IsRootPinned a InternalIndex =
     (if InternalIndex \<le> 0 then False
      else if InternalIndex \<ge> m_committedCount a then False
      else StateBits (m_entries a InternalIndex) AND kFXObjectArrayRootPinnedBit \<noteq> 0)"

definition IsRootPinnedUnchecked :: "FXObjectArray \<Rightarrow> int \<Rightarrow> bool" where
  "IsRootPinnedUnchecked a InternalIndex =
     (StateBits (m_entries a InternalIndex) AND kFXObjectArrayRootPinnedBit \<noteq> 0)"

definition IsPendingDestroyUnchecked :: "FXObjectArray \<Rightarrow> int \<Rightarrow> bool" where
  "IsPendingDestroyUnchecked a InternalIndex =
     (StateBits (m_entries a InternalIndex) AND kFXObjectArrayPendingDestroyBit \<noteq> 0)"

definition IsGarbageUnchecked :: "FXObjectArray \<Rightarrow> int \<Rightarrow> bool" where
  "IsGarbageUnchecked a InternalIndex =
     (StateBits (m_entries a InternalIndex) AND kFXObjectArrayGarbageBit \<noteq> 0)"

definition GetStateBits :: "FXObjectArray \<Rightarrow> int \<Rightarrow> u64" where
  "GetStateBits a InternalIndex =
     (if InternalIndex \<le> 0 then 0
      else if InternalIndex \<ge> m_committedCount a then 0
      else StateBits (m_entries a InternalIndex))"

end
