(* ===== verification/ObjectArrayProps.thy ===== *)
theory ObjectArrayProps
  imports ObjectArray
begin

text \<open>
  What the global object table promises: the layout of the state word (a 24-bit reference
  count between two bit regions that its updates leave alone), the table invariant and the
  operations that keep it, and the generation counter that makes a stale weak handle
  resolve to null.
\<close>

section \<open>The state word\<close>

lemma kRefCountMask_mask: "kFXObjectArrayRefCountMask = push_bit 32 (mask 24)"
  by (simp add: array_consts mask_eq_exp_minus_1 push_bit_eq_mult)

lemma RefCountOf_eq: "RefCountOf w = take_bit 24 (drop_bit 32 w)"
  unfolding RefCountOf_def kRefCountMask_mask kFXObjectArrayRefCountShift_def
  by (rule bit_eqI) (auto simp: bit_simps)

lemma unat_RefCountOf: "unat (RefCountOf w) = (unat w div 2 ^ 32) mod 2 ^ 24"
  unfolding RefCountOf_eq
  by (simp only: unsigned_take_bit_eq unat_drop_bit_eq) (simp only: take_bit_eq_mod drop_bit_eq_div)

lemma RefCountOf_le: "unat (RefCountOf w) \<le> 16777215"
  using mod_less_divisor [of "2 ^ 24" "unat w div 2 ^ 32"] by (simp add: unat_RefCountOf)

lemma unat_add_unit:
  assumes "RefCountOf w < kFXObjectArrayRefCountMax"
  shows "unat (w + kFXObjectArrayRefCountUnit) = unat w + 2 ^ 32"
proof -
  from assms have r: "(unat w div 2 ^ 32) mod 2 ^ 24 < 16777215"
    by (simp add: word_less_nat_alt array_consts unat_RefCountOf)
  have w: "unat w < 2 ^ 64" by (rule unat_less_2p64)
  have "unat w div 2 ^ 32 \<noteq> 4294967295"
    using r by (rule contrapos_pn) simp
  with w have "unat w + 2 ^ 32 < 2 ^ 64" by simp
  then show ?thesis by (simp add: array_consts unat_word_ariths)
qed

lemma RefCountOf_add:
  assumes "RefCountOf w < kFXObjectArrayRefCountMax"
  shows "unat (RefCountOf (w + kFXObjectArrayRefCountUnit)) = unat (RefCountOf w) + 1"
proof -
  from assms have r: "(unat w div 2 ^ 32) mod 2 ^ 24 < 16777215"
    by (simp add: word_less_nat_alt array_consts unat_RefCountOf)
  have "(unat w + 2 ^ 32) div 2 ^ 32 = Suc (unat w div 2 ^ 32)" by simp
  moreover have "Suc q mod 2 ^ 24 = Suc (q mod 2 ^ 24)" if "q mod 2 ^ 24 < 16777215" for q :: nat
    using that by (simp add: mod_Suc)
  ultimately show ?thesis
    using r by (simp only: unat_RefCountOf unat_add_unit [OF assms] Suc_eq_plus1 [symmetric])
qed

lemma RefCountOf_sub:
  assumes "RefCountOf w > 0"
  shows "unat (RefCountOf (w - kFXObjectArrayRefCountUnit)) = unat (RefCountOf w) - 1"
    and "RefCountOf (w - kFXObjectArrayRefCountUnit) < kFXObjectArrayRefCountMax"
proof -
  from assms have r: "0 < (unat w div 2 ^ 32) mod 2 ^ 24"
    by (simp add: word_less_nat_alt unat_RefCountOf)
  then have q: "0 < unat w div 2 ^ 32" by (metis mod_0 not_gr_zero)
  then have ge: "2 ^ 32 \<le> unat w" by (simp add: div_greater_zero_iff)
  have u: "unat (w - kFXObjectArrayRefCountUnit) = unat w - 2 ^ 32"
    using ge by (simp add: array_consts unat_sub word_le_nat_alt)
  have d: "(unat w - 2 ^ 32) div 2 ^ 32 = unat w div 2 ^ 32 - 1"
    using le_div_geq [OF _ ge] by simp
  have m: "(q - 1) mod 2 ^ 24 = q mod 2 ^ 24 - 1" if "0 < q mod 2 ^ 24" for q :: nat
  proof (cases q)
    case 0
    with that show ?thesis by simp
  next
    case (Suc p)
    with that show ?thesis by (simp only: mod_Suc split: if_splits) simp_all
  qed
  have e: "unat (RefCountOf (w - kFXObjectArrayRefCountUnit)) = (unat w div 2 ^ 32) mod 2 ^ 24 - 1"
    using m [OF r] by (simp only: unat_RefCountOf u d)
  then show "unat (RefCountOf (w - kFXObjectArrayRefCountUnit)) = unat (RefCountOf w) - 1"
    by (simp add: unat_RefCountOf)
  have "(unat w div 2 ^ 32) mod 2 ^ 24 < 2 ^ 24" by simp
  with r e show "RefCountOf (w - kFXObjectArrayRefCountUnit) < kFXObjectArrayRefCountMax"
    by (simp add: word_less_nat_alt array_consts)
qed

lemma take32_unit: "take_bit 32 (w + kFXObjectArrayRefCountUnit) = take_bit 32 w"
proof (rule word_unat_eq_iff [THEN iffD2])
  have "unat (w + kFXObjectArrayRefCountUnit) = (unat w + 2 ^ 32) mod 2 ^ 64"
    by (simp add: array_consts unat_word_ariths)
  moreover have "(n + 2 ^ 32) mod 2 ^ 64 mod 2 ^ 32 = n mod 2 ^ 32" for n :: nat
    by (simp add: mod_mod_cancel)
  ultimately show "unat (take_bit 32 (w + kFXObjectArrayRefCountUnit)) = unat (take_bit 32 w)"
    by (simp only: unsigned_take_bit_eq) (simp only: take_bit_eq_mod)
qed

lemma low_bits_add:
  assumes "m = take_bit 32 m"
  shows "(w + kFXObjectArrayRefCountUnit) AND m = w AND m"
proof (rule bit_eqI)
  fix n
  have "n < 32" if "bit m n"
    using that assms by (metis bit_take_bit_iff)
  moreover have "bit (w + kFXObjectArrayRefCountUnit) n = bit w n" if "n < 32"
    using take32_unit that by (metis bit_take_bit_iff)
  ultimately show "bit ((w + kFXObjectArrayRefCountUnit) AND m) n = bit (w AND m) n"
    by (auto simp: bit_and_iff)
qed

lemma high_bits_add:
  assumes "RefCountOf w < kFXObjectArrayRefCountMax"
  shows "drop_bit 56 (w + kFXObjectArrayRefCountUnit) = drop_bit 56 w"
proof -
  from assms have r: "(unat w div 2 ^ 32) mod 2 ^ 24 < 16777215"
    by (simp add: word_less_nat_alt array_consts unat_RefCountOf)
  have h: "Suc q div 2 ^ 24 = q div 2 ^ 24" if "q mod 2 ^ 24 < 16777215" for q :: nat
    using that by (simp add: div_Suc mod_Suc)
  have "(unat w + 2 ^ 32) div 2 ^ 56 = ((unat w + 2 ^ 32) div 2 ^ 32) div 2 ^ 24"
    by (simp only: div_mult2_eq [symmetric]) simp
  also have "\<dots> = Suc (unat w div 2 ^ 32) div 2 ^ 24" by simp
  also have "\<dots> = (unat w div 2 ^ 32) div 2 ^ 24" by (rule h [OF r])
  also have "\<dots> = unat w div 2 ^ 56" by (simp only: div_mult2_eq [symmetric]) simp
  finally have "unat (drop_bit 56 (w + kFXObjectArrayRefCountUnit)) = unat (drop_bit 56 w)"
    by (simp only: unat_drop_bit_eq unat_add_unit [OF assms]) (simp only: drop_bit_eq_div)
  then show ?thesis by (rule word_unat_eq_iff [THEN iffD2])
qed

lemma low_bits_sub:
  assumes "m = take_bit 32 m"
  shows "(w - kFXObjectArrayRefCountUnit) AND m = w AND m"
  using low_bits_add [OF assms, of "w - kFXObjectArrayRefCountUnit"] by simp

lemma high_bits_sub:
  assumes "RefCountOf w > 0"
  shows "drop_bit 56 (w - kFXObjectArrayRefCountUnit) = drop_bit 56 w"
  using high_bits_add [OF RefCountOf_sub(2) [OF assms]] by simp

lemma RefCountOf_or_low:
  assumes "m = take_bit 32 m"
  shows "RefCountOf (w OR m) = RefCountOf w" and "RefCountOf (w AND NOT m) = RefCountOf w"
proof -
  have m: "bit m n \<Longrightarrow> n < 32" for n using assms by (metis bit_take_bit_iff)
  show "RefCountOf (w OR m) = RefCountOf w"
    unfolding RefCountOf_eq by (rule bit_eqI) (auto simp: bit_simps dest: m)
  show "RefCountOf (w AND NOT m) = RefCountOf w"
    unfolding RefCountOf_eq by (rule bit_eqI) (auto simp: bit_simps dest: m)
qed

text \<open>The state bits all lie below the count field.\<close>

lemma state_bits_low:
  "kFXObjectArrayPendingDestroyBit = take_bit 32 kFXObjectArrayPendingDestroyBit"
  "kFXObjectArrayRootPinnedBit = take_bit 32 kFXObjectArrayRootPinnedBit"
  "kFXObjectArrayHotReloadInProgress = take_bit 32 kFXObjectArrayHotReloadInProgress"
  "kFXObjectArrayGarbageBit = take_bit 32 kFXObjectArrayGarbageBit"
  "kEntryStateClearMask = take_bit 32 kEntryStateClearMask"
  by (simp_all add: array_consts kEntryStateClearMask_def)


section \<open>The table invariant\<close>

definition live_slots :: "FXObjectArray \<Rightarrow> int set" where
  "live_slots a = {i \<in> {1..<m_bumpHead a}. EntryObject (m_entries a i) \<noteq> nullptr}"

definition allocated :: "FXObjectArray \<Rightarrow> int set" where
  "allocated a = {1..<m_bumpHead a} - set (m_freeList a)"

definition range_inv :: "FXObjectArray \<Rightarrow> bool" where
  "range_inv a \<longleftrightarrow> 1 \<le> m_bumpHead a \<and> m_bumpHead a \<le> m_committedCount a"

definition ArrayInv :: "FXObjectArray \<Rightarrow> bool" where
  "ArrayInv a \<longleftrightarrow>
     range_inv a \<and>
     m_committedCount a \<le> kFXObjectArrayMaxEntries \<and>
     kFXObjectArrayEntriesPerCommit dvd m_committedCount a \<and>
     distinct (m_freeList a) \<and>
     set (m_freeList a) \<subseteq> {1..<m_bumpHead a} \<and>
     (\<forall>i \<in> set (m_freeList a). EntryObject (m_entries a i) = nullptr) \<and>
     (\<forall>i \<in> {1..<m_bumpHead a}. EntrySerialNumber (m_entries a i) \<noteq> 0) \<and>
     (\<forall>i \<in> {m_bumpHead a..<m_committedCount a}. EntryObject (m_entries a i) = nullptr) \<and>
     EntryObject (m_entries a 0) = nullptr \<and>
     m_numLive a = int (card (live_slots a)) \<and>
     int (length (m_freeList a)) \<le> m_freeListCapacity a \<and>
     m_freeListCapacity a \<le> 2 * kFXObjectArrayMaxEntries"

named_theorems array_intros \<open>operations of the table that keep its invariant\<close>

lemma live_slots_finite [simp]: "finite (live_slots a)"
  by (rule finite_subset [of _ "{1..<m_bumpHead a}"]) (auto simp: live_slots_def)

lemma live_subset_allocated: "ArrayInv a \<Longrightarrow> live_slots a \<subseteq> allocated a"
  by (auto simp: ArrayInv_def live_slots_def allocated_def)

lemma ArrayInv_range [simp]: "ArrayInv a \<Longrightarrow> range_inv a"
  by (simp add: ArrayInv_def)

lemma allocated_bounds:
  "ArrayInv a \<Longrightarrow> i \<in> allocated a \<Longrightarrow> 0 < i \<and> i < m_committedCount a"
  by (auto simp: ArrayInv_def range_inv_def allocated_def)

lemma ctor_inv: "FXObjectArray_ctor r c = Inr a \<Longrightarrow> ArrayInv a"
  by (auto simp: FXObjectArray_ctor_def ArrayInv_def range_inv_def live_slots_def array_consts
      FXObjectArrayEntry_default_def split: if_splits)

lemma ResetForTests_inv: "ArrayInv a \<Longrightarrow> ArrayInv (ResetForTests a)"
  by (auto simp: ResetForTests_def ArrayInv_def range_inv_def live_slots_def
      FXObjectArrayEntry_default_def)

section \<open>Growth\<close>

lemma commit_props:
  assumes "CommitNextChunkUnderLock c a = Inr a'"
  shows "m_committedCount a' = m_committedCount a + kFXObjectArrayEntriesPerCommit"
    and "m_bumpHead a' = m_bumpHead a" and "m_freeList a' = m_freeList a"
    and "m_numLive a' = m_numLive a" and "m_freeListCapacity a' = m_freeListCapacity a"
    and "i < m_committedCount a \<Longrightarrow> m_entries a' i = m_entries a i"
    and "m_committedCount a \<le> j \<Longrightarrow> j < m_committedCount a' \<Longrightarrow>
           m_entries a' j = FXObjectArrayEntry_default"
    and "m_committedCount a < kFXObjectArrayMaxEntries"
  using assms by (auto simp: CommitNextChunkUnderLock_def Let_def split: if_splits)

lemma commit_inv [array_intros]:
  assumes "ArrayInv a" and c: "CommitNextChunkUnderLock c a = Inr a'"
  shows "ArrayInv a'"
proof -
  note cp = commit_props [OF c]
  have live: "live_slots a' = live_slots a"
    using assms(1) by (auto simp: live_slots_def cp(2) ArrayInv_def range_inv_def cp(6))
  have le: "m_committedCount a' \<le> kFXObjectArrayMaxEntries"
  proof -
    obtain k where "m_committedCount a = 32768 * k"
      using assms(1) by (auto simp: ArrayInv_def array_consts elim: dvdE)
    with cp(8) show ?thesis by (simp add: cp(1) array_consts)
  qed
  have rest: "EntryObject (m_entries a' i) = nullptr"
    if "m_bumpHead a \<le> i" "i < m_committedCount a'" for i
    using assms(1) that
    by (cases "i < m_committedCount a") (auto simp: ArrayInv_def cp(6,7) FXObjectArrayEntry_default_def)
  have "0 < m_committedCount a" using assms(1) by (auto simp: ArrayInv_def range_inv_def)
  then have e0: "m_entries a' 0 = m_entries a 0" by (rule cp(6))
  have ents: "m_entries a' i = m_entries a i" if "i < m_bumpHead a" for i
    using assms(1) that by (intro cp(6)) (auto simp: ArrayInv_def range_inv_def)
  show ?thesis
    using assms(1) live le rest e0 ents unfolding ArrayInv_def range_inv_def
    by (auto simp: cp(1-5) array_consts)
qed

section \<open>Allocation\<close>

text \<open>The two ways to take an index: pop the free list, or advance the bump head.\<close>

lemma pop_free_inv:
  assumes "ArrayInv a" and ne: "m_freeList a \<noteq> []"
  defines "a1 \<equiv> a\<lparr>m_freeList := butlast (m_freeList a)\<rparr>"
  shows "ArrayInv a1" and "allocated a1 = insert (last (m_freeList a)) (allocated a)"
    and "last (m_freeList a) \<notin> allocated a" and "live_slots a1 = live_slots a"
    and "EntryObject (m_entries a (last (m_freeList a))) = nullptr"
    and "EntrySerialNumber (m_entries a (last (m_freeList a))) \<noteq> 0"
proof -
  have last: "last (m_freeList a) \<in> set (m_freeList a)" using ne by simp
  have split: "m_freeList a = butlast (m_freeList a) @ [last (m_freeList a)]" using ne by simp
  have dist: "distinct (butlast (m_freeList a) @ [last (m_freeList a)])"
    using assms(1) split by (simp add: ArrayInv_def)
  have setf: "set (m_freeList a) = insert (last (m_freeList a)) (set (butlast (m_freeList a)))"
    using split by (metis list.simps(15) rotate1.simps(2) set_rotate1)
  have live: "live_slots a1 = live_slots a" by (simp add: live_slots_def a1_def)
  then show "live_slots a1 = live_slots a" .
  show "ArrayInv a1"
    using assms(1) live dist unfolding ArrayInv_def range_inv_def
    by (auto simp: a1_def dest: in_set_butlastD)
  show "allocated a1 = insert (last (m_freeList a)) (allocated a)"
    using assms(1) last dist setf by (auto simp: ArrayInv_def allocated_def a1_def)
  show "last (m_freeList a) \<notin> allocated a" using last by (simp add: allocated_def)
  show "EntryObject (m_entries a (last (m_freeList a))) = nullptr"
    using assms(1) last by (auto simp: ArrayInv_def)
  show "EntrySerialNumber (m_entries a (last (m_freeList a))) \<noteq> 0"
    using assms(1) last by (auto simp: ArrayInv_def)
qed

lemma bump_head_inv:
  assumes "ArrayInv a" and lt: "m_bumpHead a < m_committedCount a"
  defines "a2 \<equiv> upd_entry (m_bumpHead a) (EntrySerialNumber_update (\<lambda>_. 1))
                 (a\<lparr>m_bumpHead := m_bumpHead a + 1\<rparr>)"
  shows "ArrayInv a2" and "allocated a2 = insert (m_bumpHead a) (allocated a)"
    and "m_bumpHead a \<notin> allocated a" and "live_slots a2 = live_slots a"
    and "EntryObject (m_entries a2 (m_bumpHead a)) = nullptr"
proof -
  have dflt: "EntryObject (m_entries a (m_bumpHead a)) = nullptr"
    using assms(1) lt by (auto simp: ArrayInv_def)
  have live: "live_slots a2 = live_slots a"
    using dflt by (auto simp: live_slots_def a2_def split: if_splits)
  then show "live_slots a2 = live_slots a" .
  show "ArrayInv a2"
    using assms(1) live lt unfolding ArrayInv_def range_inv_def
    by (auto simp: a2_def)
  show "allocated a2 = insert (m_bumpHead a) (allocated a)"
    using assms(1) by (auto simp: ArrayInv_def range_inv_def allocated_def a2_def)
  show "m_bumpHead a \<notin> allocated a" by (simp add: allocated_def)
  show "EntryObject (m_entries a2 (m_bumpHead a)) = nullptr"
    using dflt by (simp add: a2_def)
qed

lemma upd_object_id:
  "EntryObject (m_entries a i) = p \<Longrightarrow> upd_entry i (EntryObject_update (\<lambda>_. p)) a = a"
  by (simp add: upd_entry_def fun_upd_idem)

text \<open>Room for the next index: the table grows when the bump head meets the commit boundary.\<close>

lemma ensure_room_inv:
  assumes "ArrayInv a"
    and "(if m_bumpHead a \<ge> m_committedCount a then CommitNextChunkUnderLock c a else Inr a) = Inr a1"
  shows "ArrayInv a1" and "m_bumpHead a1 = m_bumpHead a" and "m_freeList a1 = m_freeList a"
    and "m_bumpHead a1 < m_committedCount a1" and "live_slots a1 = live_slots a"
    and "allocated a1 = allocated a"
proof -
  have "ArrayInv a1 \<and> m_bumpHead a1 = m_bumpHead a \<and> m_freeList a1 = m_freeList a \<and>
    m_bumpHead a1 < m_committedCount a1 \<and> live_slots a1 = live_slots a"
  proof (cases "m_bumpHead a \<ge> m_committedCount a")
    case True
    then have c: "CommitNextChunkUnderLock c a = Inr a1" using assms(2) by simp
    note cp = commit_props [OF c]
    have "live_slots a1 = live_slots a"
      using assms(1) by (auto simp: live_slots_def cp(2) ArrayInv_def range_inv_def cp(6))
    moreover have "m_bumpHead a = m_committedCount a"
      using True assms(1) by (simp add: ArrayInv_def range_inv_def)
    ultimately show ?thesis
      using commit_inv [OF assms(1) c] by (simp add: cp(1-3) array_consts)
  next
    case False
    with assms show ?thesis by auto
  qed
  then show "ArrayInv a1" "m_bumpHead a1 = m_bumpHead a" "m_freeList a1 = m_freeList a"
    "m_bumpHead a1 < m_committedCount a1" "live_slots a1 = live_slots a"
    "allocated a1 = allocated a" by (auto simp: allocated_def)
qed

lemma ReserveSlot_spec:
  assumes inv: "ArrayInv a" and r: "ReserveSlot c hot a = Inr (i, sn, a')"
  shows "ArrayInv a'" and "allocated a' = insert i (allocated a)" and "i \<notin> allocated a"
    and "live_slots a' = live_slots a" and "EntryObject (m_entries a' i) = nullptr"
    and "sn = EntrySerialNumber (m_entries a' i)" and "sn \<noteq> 0"
proof -
  have "ArrayInv a' \<and> allocated a' = insert i (allocated a) \<and> i \<notin> allocated a \<and>
    live_slots a' = live_slots a \<and> EntryObject (m_entries a' i) = nullptr \<and>
    sn = EntrySerialNumber (m_entries a' i) \<and> sn \<noteq> 0"
  proof (cases "m_freeList a = []")
    case False
    note pop = pop_free_inv [OF inv False]
    from r False pop(5) have "i = last (m_freeList a)"
      and "a' = a\<lparr>m_freeList := butlast (m_freeList a)\<rparr>"
      and "sn = EntrySerialNumber (m_entries a i)"
      by (auto simp: ReserveSlot_def hot_reload_gate_eq_Inr Let_def upd_object_id)
    with pop show ?thesis by simp
  next
    case True
    from r True obtain a1 where
      g: "(if m_bumpHead a \<ge> m_committedCount a then CommitNextChunkUnderLock c a else Inr a) = Inr a1"
      and i: "i = m_bumpHead a" and sn: "sn = 1"
      and a': "a' = upd_entry (m_bumpHead a) (EntryObject_update (\<lambda>_. nullptr))
             (upd_entry (m_bumpHead a) (EntrySerialNumber_update (\<lambda>_. 1))
                (a1\<lparr>m_bumpHead := m_bumpHead a1 + 1\<rparr>))"
      by (auto simp: ReserveSlot_def hot_reload_gate_eq_Inr Let_def rbind_eq_Inr)
    note room = ensure_room_inv [OF inv g]
    note bump = bump_head_inv [OF room(1,4), unfolded room(2)]
    from a' bump(5) have "a' = upd_entry (m_bumpHead a) (EntrySerialNumber_update (\<lambda>_. 1))
                (a1\<lparr>m_bumpHead := m_bumpHead a + 1\<rparr>)"
      by (simp add: upd_object_id room(2))
    with bump i sn room show ?thesis by simp
  qed
  then show "ArrayInv a'" "allocated a' = insert i (allocated a)" "i \<notin> allocated a"
    "live_slots a' = live_slots a" "EntryObject (m_entries a' i) = nullptr"
    "sn = EntrySerialNumber (m_entries a' i)" "sn \<noteq> 0" by auto
qed

section \<open>Binding\<close>

lemma bind_inv:
  assumes "ArrayInv a" and i: "i \<in> allocated a" and "EntryObject (m_entries a i) = nullptr"
    and "p \<noteq> nullptr"
  defines "a' \<equiv> (upd_entry i (EntryObject_update (\<lambda>_. p)) a)\<lparr>m_numLive := m_numLive a + 1\<rparr>"
  shows "ArrayInv a'" and "allocated a' = allocated a" and "live_slots a' = insert i (live_slots a)"
proof -
  have ib: "1 \<le> i" "i < m_bumpHead a" "i \<notin> set (m_freeList a)"
    using i by (auto simp: allocated_def)
  have live: "live_slots a' = insert i (live_slots a)"
    using assms(3,4) ib by (auto simp: live_slots_def a'_def)
  then show "live_slots a' = insert i (live_slots a)" .
  have "i \<notin> live_slots a" using assms(3) by (simp add: live_slots_def)
  then have card: "int (card (live_slots a')) = int (card (live_slots a)) + 1"
    by (simp add: live)
  show "ArrayInv a'"
    using assms(1) ib card unfolding ArrayInv_def range_inv_def by (auto simp: a'_def)
  show "allocated a' = allocated a" by (simp add: allocated_def a'_def)
qed

lemma BindObject_spec:
  assumes "ArrayInv a" and "i \<in> allocated a" and "EntryObject (m_entries a i) = nullptr"
    and "BindObject b i p a = Inr a'" and "p \<noteq> nullptr"
  shows "ArrayInv a'" and "allocated a' = allocated a" and "live_slots a' = insert i (live_slots a)"
    and "EntryObject (m_entries a' i) = p"
proof -
  from assms(4) have a': "a' = (upd_entry i (EntryObject_update (\<lambda>_. p)) a)\<lparr>m_numLive := m_numLive a + 1\<rparr>"
    by (auto simp: BindObject_def res_eq_Inr)
  show "ArrayInv a'" and "allocated a' = allocated a" and "live_slots a' = insert i (live_slots a)"
    unfolding a' by (rule bind_inv [OF assms(1,2,3,5)])+
  show "EntryObject (m_entries a' i) = p" by (simp add: a')
qed

lemma take_index_spec:
  assumes inv: "ArrayInv a"
    and "(if m_freeList a \<noteq> [] then
          Inr (last (m_freeList a), a\<lparr>m_freeList := butlast (m_freeList a)\<rparr>)
        else
          let Index = m_bumpHead a in
          rbind (if Index \<ge> m_committedCount a then CommitNextChunkUnderLock c a else Inr a)
            (\<lambda>a1. Inr (Index, upd_entry Index (EntrySerialNumber_update (\<lambda>_. 1))
                               (a1\<lparr>m_bumpHead := m_bumpHead a1 + 1\<rparr>)))) = Inr (i, a2)"
  shows "ArrayInv a2" and "allocated a2 = insert i (allocated a)" and "i \<notin> allocated a"
    and "live_slots a2 = live_slots a" and "EntryObject (m_entries a2 i) = nullptr"
proof -
  have "ArrayInv a2 \<and> allocated a2 = insert i (allocated a) \<and> i \<notin> allocated a \<and>
    live_slots a2 = live_slots a \<and> EntryObject (m_entries a2 i) = nullptr"
  proof (cases "m_freeList a = []")
    case False
    note pop = pop_free_inv [OF inv False]
    from assms(2) False pop show ?thesis by auto
  next
    case True
    with assms(2) obtain a1 where
      g: "(if m_bumpHead a \<ge> m_committedCount a then CommitNextChunkUnderLock c a else Inr a) = Inr a1"
      and i: "i = m_bumpHead a"
      and a2: "a2 = upd_entry (m_bumpHead a) (EntrySerialNumber_update (\<lambda>_. 1))
                      (a1\<lparr>m_bumpHead := m_bumpHead a1 + 1\<rparr>)"
      by (auto simp: Let_def rbind_eq_Inr)
    note room = ensure_room_inv [OF inv g]
    note bump = bump_head_inv [OF room(1,4), unfolded room(2)]
    from bump i a2 room show ?thesis by simp
  qed
  then show "ArrayInv a2" "allocated a2 = insert i (allocated a)" "i \<notin> allocated a"
    "live_slots a2 = live_slots a" "EntryObject (m_entries a2 i) = nullptr" by auto
qed

lemma AllocateEntry_spec:
  assumes inv: "ArrayInv a" and r: "AllocateEntry c hot p a = Inr (i, a')"
  shows "ArrayInv a'" and "allocated a' = insert i (allocated a)" and "i \<notin> allocated a"
    and "live_slots a' = (if p = nullptr then live_slots a else insert i (live_slots a))"
    and "EntryObject (m_entries a' i) = p"
proof -
  from r obtain a2 where
    t: "(if m_freeList a \<noteq> [] then
          Inr (last (m_freeList a), a\<lparr>m_freeList := butlast (m_freeList a)\<rparr>)
        else
          let Index = m_bumpHead a in
          rbind (if Index \<ge> m_committedCount a then CommitNextChunkUnderLock c a else Inr a)
            (\<lambda>a1. Inr (Index, upd_entry Index (EntrySerialNumber_update (\<lambda>_. 1))
                               (a1\<lparr>m_bumpHead := m_bumpHead a1 + 1\<rparr>)))) = Inr (i, a2)"
    and a': "a' = (let a3 = upd_entry i (EntryObject_update (\<lambda>_. p)) a2 in
                   if p \<noteq> nullptr then a3\<lparr>m_numLive := m_numLive a3 + 1\<rparr> else a3)"
    unfolding AllocateEntry_def hot_reload_gate_eq_Inr rbind_eq_Inr by (auto simp: Let_def)
  note ti = take_index_spec [OF inv t]
  have "ArrayInv a' \<and> allocated a' = insert i (allocated a) \<and>
    live_slots a' = (if p = nullptr then live_slots a else insert i (live_slots a)) \<and>
    EntryObject (m_entries a' i) = p"
  proof (cases "p = nullptr")
    case True
    with a' ti show ?thesis by (simp add: upd_object_id)
  next
    case False
    with a' have a'': "a' = (upd_entry i (EntryObject_update (\<lambda>_. p)) a2)\<lparr>m_numLive := m_numLive a2 + 1\<rparr>"
      by (simp add: Let_def)
    have "i \<in> allocated a2" using ti(2) by simp
    from bind_inv [OF ti(1) this ti(5) False] False ti(2,4) show ?thesis
      by (simp add: a'')
  qed
  with ti(3) show "ArrayInv a'" "allocated a' = insert i (allocated a)" "i \<notin> allocated a"
    "live_slots a' = (if p = nullptr then live_slots a else insert i (live_slots a))"
    "EntryObject (m_entries a' i) = p" by auto
qed

section \<open>Release\<close>

lemma BumpSerialNumber_nonzero [simp]: "BumpSerialNumber s \<noteq> 0"
  by (simp add: BumpSerialNumber_def Let_def)

lemma PushFree_sel [simp]:
  "m_entries (PushFree i a) = m_entries a" "m_committedCount (PushFree i a) = m_committedCount a"
  "m_bumpHead (PushFree i a) = m_bumpHead a" "m_numLive (PushFree i a) = m_numLive a"
  "m_freeList (PushFree i a) = m_freeList a @ [i]"
  by (simp_all add: PushFree_def GrowFreeListUnderLock_def Let_def)

lemma PushFree_capacity:
  assumes "int (length (m_freeList a)) \<le> m_freeListCapacity a"
    and "m_freeListCapacity a \<le> 2 * kFXObjectArrayMaxEntries"
    and "int (length (m_freeList a)) < kFXObjectArrayMaxEntries"
  shows "int (length (m_freeList (PushFree i a))) \<le> m_freeListCapacity (PushFree i a)"
    and "m_freeListCapacity (PushFree i a) \<le> 2 * kFXObjectArrayMaxEntries"
  using assms by (cases "m_freeList a"; auto simp: PushFree_def GrowFreeListUnderLock_def Let_def array_consts)+

lemma free_list_length:
  assumes "ArrayInv a"
  shows "int (length (m_freeList a)) < m_bumpHead a"
proof -
  have "length (m_freeList a) = card (set (m_freeList a))"
    using assms by (simp add: ArrayInv_def distinct_card)
  also have "\<dots> \<le> card {1..<m_bumpHead a}"
    using assms by (intro card_mono) (auto simp: ArrayInv_def)
  finally show ?thesis using assms by (auto simp: ArrayInv_def range_inv_def)
qed

text \<open>Both release operations clear the object, install a nonzero serial and push the index.\<close>

lemma release_inv:
  assumes inv: "ArrayInv a" and i: "i \<in> allocated a"
    and f: "EntryObject (f (m_entries a i)) = nullptr" "EntrySerialNumber (f (m_entries a i)) \<noteq> 0"
  defines "a1 \<equiv> upd_entry i f a"
  defines "a2 \<equiv> (if EntryObject (m_entries a i) \<noteq> nullptr
                 then a1\<lparr>m_numLive := m_numLive a1 - 1\<rparr> else a1)"
  shows "ArrayInv (PushFree i a2)" and "allocated (PushFree i a2) = allocated a - {i}"
    and "live_slots (PushFree i a2) = live_slots a - {i}"
proof -
  have ib: "1 \<le> i" "i < m_bumpHead a" "i \<notin> set (m_freeList a)"
    using i by (auto simp: allocated_def)
  have a2: "m_entries a2 = (m_entries a)(i := f (m_entries a i))"
    "m_committedCount a2 = m_committedCount a" "m_bumpHead a2 = m_bumpHead a"
    "m_freeList a2 = m_freeList a" "m_freeListCapacity a2 = m_freeListCapacity a"
    by (simp_all add: a2_def a1_def)
  have live: "live_slots (PushFree i a2) = live_slots a - {i}"
    using f by (auto simp: live_slots_def a2)
  then show "live_slots (PushFree i a2) = live_slots a - {i}" .
  have num: "m_numLive a2 = int (card (live_slots a - {i}))"
  proof (cases "EntryObject (m_entries a i) = nullptr")
    case True
    then have "live_slots a - {i} = live_slots a" by (auto simp: live_slots_def)
    with True inv show ?thesis by (simp add: a2_def a1_def ArrayInv_def)
  next
    case False
    then have "i \<in> live_slots a" using ib by (simp add: live_slots_def)
    then have "card (live_slots a - {i}) = card (live_slots a) - 1" "card (live_slots a) > 0"
      by (auto simp: card_gt_0_iff)
    with False inv show ?thesis by (simp add: a2_def a1_def ArrayInv_def)
  qed
  have "int (length (m_freeList a2)) < kFXObjectArrayMaxEntries"
    using free_list_length [OF inv] inv by (simp add: a2 ArrayInv_def range_inv_def)
  then have cap: "int (length (m_freeList (PushFree i a2))) \<le> m_freeListCapacity (PushFree i a2)"
    "m_freeListCapacity (PushFree i a2) \<le> 2 * kFXObjectArrayMaxEntries"
    using inv PushFree_capacity [of a2 i] by (simp_all add: ArrayInv_def a2)
  show "ArrayInv (PushFree i a2)"
    using inv ib live num cap f unfolding ArrayInv_def range_inv_def by (auto simp: a2)
  show "allocated (PushFree i a2) = allocated a - {i}" by (auto simp: allocated_def a2)
qed

lemma FreeEntry_spec:
  assumes inv: "ArrayInv a" and i: "i \<in> allocated a" and r: "FreeEntry b hot i a = Inr a'"
  shows "ArrayInv a'" and "allocated a' = allocated a - {i}" and "live_slots a' = live_slots a - {i}"
    and "EntrySerialNumber (m_entries a' i) = BumpSerialNumber (EntrySerialNumber (m_entries a i))"
    and "StateBits (m_entries a' i) = StateBits (m_entries a i)"
proof -
  let ?f = "\<lambda>e. e\<lparr>EntrySerialNumber := BumpSerialNumber (EntrySerialNumber e),
                   EntryObject := nullptr\<rparr>"
  from r have a': "a' = PushFree i (if EntryObject (m_entries a i) \<noteq> nullptr
      then (upd_entry i ?f a)\<lparr>m_numLive := m_numLive (upd_entry i ?f a) - 1\<rparr> else upd_entry i ?f a)"
    by (auto simp: FreeEntry_def res_eq_Inr hot_reload_gate_eq_Inr Let_def)
  show "ArrayInv a'" "allocated a' = allocated a - {i}" "live_slots a' = live_slots a - {i}"
    unfolding a' by (rule release_inv [OF inv i]; simp)+
  show "EntrySerialNumber (m_entries a' i) = BumpSerialNumber (EntrySerialNumber (m_entries a i))"
    "StateBits (m_entries a' i) = StateBits (m_entries a i)"
    by (simp_all add: a')
qed

lemma ReleaseSlot_spec:
  assumes inv: "ArrayInv a" and i: "i \<in> allocated a" and r: "ReleaseSlot b hot i a = Inr a'"
  shows "ArrayInv a'" and "allocated a' = allocated a - {i}" and "live_slots a' = live_slots a - {i}"
    and "EntrySerialNumber (m_entries a' i) = BumpSerialNumber (EntrySerialNumber (m_entries a i))"
    and "StateBits (m_entries a' i) = StateBits (m_entries a i) AND NOT kEntryStateClearMask"
proof -
  let ?f = "\<lambda>e. e\<lparr>EntrySerialNumber := BumpSerialNumber (EntrySerialNumber e),
                   EntryObject := nullptr,
                   StateBits := StateBits e AND NOT kEntryStateClearMask\<rparr>"
  from r have a': "a' = PushFree i (if EntryObject (m_entries a i) \<noteq> nullptr
      then (upd_entry i ?f a)\<lparr>m_numLive := m_numLive (upd_entry i ?f a) - 1\<rparr> else upd_entry i ?f a)"
    by (auto simp: ReleaseSlot_def res_eq_Inr hot_reload_gate_eq_Inr Let_def)
  show "ArrayInv a'" "allocated a' = allocated a - {i}" "live_slots a' = live_slots a - {i}"
    unfolding a' by (rule release_inv [OF inv i]; simp)+
  show "EntrySerialNumber (m_entries a' i) = BumpSerialNumber (EntrySerialNumber (m_entries a i))"
    "StateBits (m_entries a' i) = StateBits (m_entries a i) AND NOT kEntryStateClearMask"
    by (simp_all add: a')
qed

section \<open>Sequences of operations\<close>

text \<open>
  Every mutating entry point as a step; a caller is disciplined when it binds a reserved
  slot once and releases a slot only while it holds it, which is what the engine's own
  callers (\<open>NewObject\<close>, the deferred-destruction pass) do.
\<close>

datatype array_op =
    OpReserve | OpBind int ptr | OpAllocate ptr | OpFree int | OpRelease int
  | OpAddRef int | OpReleaseRef int | OpSetRootPin int | OpClearRootPin int
  | OpSetPending int | OpClearPending int | OpSetGarbage int

fun array_step ::
  "build \<Rightarrow> (int \<Rightarrow> bool) \<Rightarrow> array_op \<Rightarrow> FXObjectArray \<Rightarrow> xerror + FXObjectArray" where
  "array_step b c OpReserve a = rbind (ReserveSlot c False a) (\<lambda>(i, sn, a'). Inr a')"
| "array_step b c (OpBind i p) a = BindObject b i p a"
| "array_step b c (OpAllocate p) a = rbind (AllocateEntry c False p a) (\<lambda>(i, a'). Inr a')"
| "array_step b c (OpFree i) a = FreeEntry b False i a"
| "array_step b c (OpRelease i) a = ReleaseSlot b False i a"
| "array_step b c (OpAddRef i) a = AddRef b i a"
| "array_step b c (OpReleaseRef i) a = ReleaseRef b i a"
| "array_step b c (OpSetRootPin i) a = Inr (snd (SetRootPin a i))"
| "array_step b c (OpClearRootPin i) a = Inr (snd (ClearRootPin a i))"
| "array_step b c (OpSetPending i) a = Inr (snd (SetPendingDestroyBit a i))"
| "array_step b c (OpClearPending i) a = Inr (snd (ClearPendingDestroyBit a i))"
| "array_step b c (OpSetGarbage i) a = Inr (snd (SetGarbageBit a i))"

fun disciplined :: "array_op \<Rightarrow> FXObjectArray \<Rightarrow> bool" where
  "disciplined (OpBind i p) a =
     (i \<in> allocated a \<and> EntryObject (m_entries a i) = nullptr \<and> p \<noteq> nullptr)"
| "disciplined (OpFree i) a = (i \<in> allocated a)"
| "disciplined (OpRelease i) a = (i \<in> allocated a)"
| "disciplined _ a = True"

text \<open>Operations that only write one state word keep the invariant and the serials.\<close>

lemma state_only_live [simp]: "live_slots (upd_entry i (StateBits_update f) a) = live_slots a"
  by (auto simp: live_slots_def)

lemma state_only_inv:
  "ArrayInv a \<Longrightarrow> ArrayInv (upd_entry i (StateBits_update f) a)"
  unfolding ArrayInv_def range_inv_def by auto

lemma state_only_sel [simp]:
  "EntrySerialNumber (m_entries (upd_entry i (StateBits_update f) a) j) = EntrySerialNumber (m_entries a j)"
  "EntryObject (m_entries (upd_entry i (StateBits_update f) a) j) = EntryObject (m_entries a j)"
  by simp_all

text \<open>Every one of them either leaves the table alone or rewrites one state word.\<close>

definition rewrites_state :: "FXObjectArray \<Rightarrow> FXObjectArray \<Rightarrow> bool" where
  "rewrites_state a a' \<longleftrightarrow> a' = a \<or> (\<exists>i f. a' = upd_entry i (StateBits_update f) a)"

lemma rewrites_state_set: "rewrites_state a (snd (set_state_bit m a i))"
  by (auto simp: rewrites_state_def set_state_bit_def Let_def)

lemma rewrites_state_clear: "rewrites_state a (snd (clear_state_bit m a i))"
  by (auto simp: rewrites_state_def clear_state_bit_def Let_def)

lemma rewrites_state_AddRef: "AddRef b i a = Inr a' \<Longrightarrow> rewrites_state a a'"
  by (auto simp: rewrites_state_def AddRef_def res_eq_Inr Let_def split: if_splits)

lemma rewrites_state_ReleaseRef: "ReleaseRef b i a = Inr a' \<Longrightarrow> rewrites_state a a'"
  by (auto simp: rewrites_state_def ReleaseRef_def res_eq_Inr Let_def split: if_splits)

lemma rewrites_state_inv: "rewrites_state a a' \<Longrightarrow> ArrayInv a \<Longrightarrow> ArrayInv a'"
  by (auto simp: rewrites_state_def state_only_inv)

lemma rewrites_state_sel:
  assumes "rewrites_state a a'"
  shows "EntrySerialNumber (m_entries a' j) = EntrySerialNumber (m_entries a j)"
    and "EntryObject (m_entries a' j) = EntryObject (m_entries a j)"
    and "m_bumpHead a' = m_bumpHead a" and "m_committedCount a' = m_committedCount a"
    and "m_freeList a' = m_freeList a" and "ForEachObject a' = ForEachObject a"
  using assms by (auto simp: rewrites_state_def ForEachObject_def
      intro!: arg_cong [where f = "filter (\<lambda>(i, p). p \<noteq> nullptr)"])

lemmas state_op_defs = SetRootPin_def ClearRootPin_def SetPendingDestroyBit_def
  ClearPendingDestroyBit_def SetGarbageBit_def

fun state_op :: "array_op \<Rightarrow> bool" where
  "state_op OpReserve = False" | "state_op (OpBind i p) = False" | "state_op (OpAllocate p) = False"
| "state_op (OpFree i) = False" | "state_op (OpRelease i) = False"
| "state_op _ = True"

lemma state_op_step:
  "array_step b c op a = Inr a' \<Longrightarrow> state_op op \<Longrightarrow> rewrites_state a a'"
  by (cases op)
    (auto simp: state_op_defs rewrites_state_set rewrites_state_clear
      intro: rewrites_state_AddRef rewrites_state_ReleaseRef)

theorem array_step_inv:
  assumes "ArrayInv a" and "disciplined op a" and "array_step b c op a = Inr a'"
  shows "ArrayInv a'"
proof (cases "state_op op")
  case True
  with assms(1,3) show ?thesis by (blast intro: rewrites_state_inv state_op_step)
next
  case False
  with assms show ?thesis
    by (cases op)
      (auto simp: rbind_eq_Inr dest: ReserveSlot_spec(1) AllocateEntry_spec(1) BindObject_spec(1)
        FreeEntry_spec(1) ReleaseSlot_spec(1))
qed

lemma run_steps_inv:
  assumes "ArrayInv a"
    and "run_guarded disciplined (array_step b c) ops a = Inr a'"
  shows "ArrayInv a'"
  using assms
proof (induction ops arbitrary: a)
  case (Cons op ops)
  then show ?case
    by (auto simp: rbind_eq_Inr split: if_splits intro: array_step_inv)
qed simp

section \<open>The walk over the live entries\<close>

lemma ForEachObject_set:
  "(i, p) \<in> set (ForEachObject a) \<longleftrightarrow>
     1 \<le> i \<and> i < m_committedCount a \<and> EntryObject (m_entries a i) = p \<and> p \<noteq> nullptr"
  by (auto simp: ForEachObject_def)

lemma map_fst_filter_pairs:
  "map fst (filter Q (map (\<lambda>i. (i, f i)) xs)) = filter (\<lambda>i. Q (i, f i)) xs"
  by (induction xs) auto

lemma ForEachObject_distinct: "distinct (map fst (ForEachObject a))"
  unfolding ForEachObject_def map_fst_filter_pairs by simp

text \<open>Only the slots below the bump head can be live, so the walk may stop there.\<close>

lemma ForEachObject_bump:
  assumes "ArrayInv a"
  shows "ForEachObject a =
     filter (\<lambda>(i, p). p \<noteq> nullptr)
       (map (\<lambda>i. (i, EntryObject (m_entries a i))) [1..m_bumpHead a - 1])"
proof -
  let ?h = "\<lambda>i. (i, EntryObject (m_entries a i))"
  have split: "[1..m_committedCount a - 1] =
      [1..m_bumpHead a - 1] @ [m_bumpHead a..m_committedCount a - 1]"
    using assms upto_split1 [of 1 "m_bumpHead a" "m_committedCount a - 1"]
    by (cases "m_bumpHead a = m_committedCount a")
      (auto simp: ArrayInv_def range_inv_def upto_split2 [of 1 "m_bumpHead a - 1" "m_committedCount a - 1"])
  have "filter (\<lambda>(i, p). p \<noteq> nullptr) (map ?h [m_bumpHead a..m_committedCount a - 1]) = []"
    using assms by (auto simp: filter_empty_conv ArrayInv_def)
  then show ?thesis by (simp add: ForEachObject_def split)
qed

lemma ForEachObject_live:
  assumes "ArrayInv a"
  shows "set (map fst (ForEachObject a)) = live_slots a"
    and "int (length (ForEachObject a)) = m_numLive a"
proof -
  show s: "set (map fst (ForEachObject a)) = live_slots a"
    unfolding ForEachObject_bump [OF assms] by (force simp: live_slots_def)
  have "length (ForEachObject a) = card (live_slots a)"
    using distinct_card [OF ForEachObject_distinct [of a]] s by simp
  then show "int (length (ForEachObject a)) = m_numLive a"
    using assms by (simp add: ArrayInv_def)
qed

section \<open>Generations: the contract behind the weak handles\<close>

text \<open>
  A weak handle is a pair of an index and the serial the slot had when it was captured.
  The interface: every step either keeps the serial of a slot in use or, when it releases
  the slot, advances it to the next nonzero value.
\<close>

locale generational_slots =
  fixes inv :: "'s \<Rightarrow> bool"
    and in_use :: "'s \<Rightarrow> int \<Rightarrow> bool"
    and serial_of :: "'s \<Rightarrow> int \<Rightarrow> u32"
    and step :: "'op \<Rightarrow> 's \<Rightarrow> xerror + 's"
    and releases :: "'op \<Rightarrow> int \<Rightarrow> bool"
    and resolve :: "'s \<Rightarrow> int \<Rightarrow> u32 \<Rightarrow> ptr"
  assumes step_inv: "inv s \<Longrightarrow> step x s = Inr s' \<Longrightarrow> inv s'"
    and step_in_use: "inv s \<Longrightarrow> in_use s i \<Longrightarrow> step x s = Inr s' \<Longrightarrow> in_use s' i"
    and step_serial: "inv s \<Longrightarrow> in_use s i \<Longrightarrow> step x s = Inr s' \<Longrightarrow>
      serial_of s' i = (if releases x i then BumpSerialNumber (serial_of s i) else serial_of s i)"
    and resolve_mismatch: "serial_of s i \<noteq> sn \<Longrightarrow> resolve s i sn = nullptr"
begin

lemma run_serial:
  assumes "inv s" and "in_use s i" and "run_steps step ops s = Inr s'"
  shows "inv s' \<and> in_use s' i \<and>
    serial_of s' i = (BumpSerialNumber ^^ length (filter (\<lambda>x. releases x i) ops)) (serial_of s i)"
  using assms
proof (induction ops arbitrary: s)
  case (Cons x ops)
  then obtain s1 where s1: "step x s = Inr s1" and r: "run_steps step ops s1 = Inr s'"
    by (auto simp: rbind_eq_Inr)
  have "inv s1" "in_use s1 i" using Cons.prems s1 by (blast intro: step_inv step_in_use)+
  with Cons.IH r step_serial [OF Cons.prems(1,2) s1] show ?case
    by (simp add: funpow_Suc_right del: funpow.simps)
qed simp

end

text \<open>The counter runs through the nonzero values, so it returns only after \<open>2 ^ 32 - 1\<close> bumps.\<close>

lemma unat_Bump:
  assumes "s \<noteq> 0"
  shows "unat (BumpSerialNumber s) = unat s mod 4294967295 + 1"
proof (cases "s = - 1")
  case True
  then show ?thesis
    by (simp add: BumpSerialNumber_def Let_def unsigned_minus_1_eq_mask mask_eq_exp_minus_1)
next
  case False
  have "unat s \<noteq> 4294967295"
  proof
    assume "unat s = 4294967295"
    then have "unat s = unat (- 1 :: u32)"
      by (simp add: unsigned_minus_1_eq_mask mask_eq_exp_minus_1)
    with False show False by (metis word_unat_eq_iff)
  qed
  with unat_less_2p32 [of s] have lt: "unat s < 4294967295" by simp
  then have "unat (s + 1) = unat s + 1" by (simp add: unat_word_ariths)
  moreover from this have "s + 1 \<noteq> 0" by (metis add_is_0 unat_0 zero_neq_one)
  ultimately show ?thesis using lt by (simp add: BumpSerialNumber_def)
qed

lemma unat_Bump_pow:
  assumes "s \<noteq> 0"
  shows "(BumpSerialNumber ^^ k) s \<noteq> 0 \<and>
    unat ((BumpSerialNumber ^^ k) s) = (unat s - 1 + k) mod 4294967295 + 1"
proof (induction k)
  case 0
  have "0 < unat s" using assms by (simp add: unat_gt_0)
  then show ?case using assms unat_less_2p32 [of s] by simp
next
  case (Suc k)
  then have "unat ((BumpSerialNumber ^^ Suc k) s)
      = ((unat s - 1 + k) mod 4294967295 + 1) mod 4294967295 + 1"
    by (simp add: unat_Bump)
  also have "\<dots> = (unat s - 1 + Suc k) mod 4294967295 + 1"
    by (simp add: mod_simps)
  finally show ?case by simp
qed

lemma Bump_pow_differs:
  assumes "s \<noteq> 0" and "0 < k" and "k < 4294967295"
  shows "(BumpSerialNumber ^^ k) s \<noteq> s"
proof
  assume eq: "(BumpSerialNumber ^^ k) s = s"
  have "0 < unat s" using assms(1) by (simp add: unat_gt_0)
  have "unat s = (unat s - 1 + k) mod 4294967295 + 1"
    using unat_Bump_pow [OF assms(1), of k] by (simp only: eq)
  then have "(unat s - 1 + k) mod 4294967295 = unat s - 1" by (metis add_diff_cancel_right')
  moreover have "unat s - 1 < 4294967295" using unat_less_2p32 [of s] by simp
  ultimately have "(unat s - 1 + k) mod 4294967295 = (unat s - 1) mod 4294967295" by simp
  then have "4294967295 dvd (unat s - 1 + k) - (unat s - 1)" by (metis le_add1 mod_eq_dvd_iff_nat)
  then show False using assms(2,3) by (simp add: nat_dvd_not_less)
qed

context generational_slots begin

lemma stale_handle:
  assumes "inv s" and "in_use s i" and "serial_of s i \<noteq> 0"
    and "run_steps step ops s = Inr s'"
    and "0 < length (filter (\<lambda>x. releases x i) ops)"
    and "length (filter (\<lambda>x. releases x i) ops) < 4294967295"
  shows "resolve s' i (serial_of s i) = nullptr"
  using run_serial [OF assms(1,2,4)] Bump_pow_differs [OF assms(3,5,6)] resolve_mismatch by metis

lemma fresh_handle:
  assumes "inv s" and "in_use s i" and "run_steps step ops s = Inr s'"
    and "\<forall>x \<in> set ops. \<not> releases x i"
  shows "serial_of s' i = serial_of s i"
proof -
  have "filter (\<lambda>x. releases x i) ops = []" using assms(4) by (simp add: filter_empty_conv)
  with run_serial [OF assms(1-3)] show ?thesis by simp
qed

end

fun op_releases :: "array_op \<Rightarrow> int \<Rightarrow> bool" where
  "op_releases (OpFree j) i = (i = j)"
| "op_releases (OpRelease j) i = (i = j)"
| "op_releases _ i = False"

definition slot_in_use :: "FXObjectArray \<Rightarrow> int \<Rightarrow> bool" where
  "slot_in_use a i \<longleftrightarrow> 1 \<le> i \<and> i < m_bumpHead a"

lemma commit_serial:
  assumes "range_inv a"
    and "(if m_bumpHead a \<ge> m_committedCount a then CommitNextChunkUnderLock c a else Inr a) = Inr a1"
  shows "m_bumpHead a1 = m_bumpHead a" and "m_bumpHead a < m_committedCount a1"
    and "i < m_bumpHead a \<Longrightarrow> m_entries a1 i = m_entries a i"
proof -
  have "m_bumpHead a1 = m_bumpHead a \<and> m_bumpHead a < m_committedCount a1 \<and>
    (i < m_bumpHead a \<longrightarrow> m_entries a1 i = m_entries a i)"
  proof (cases "m_bumpHead a \<ge> m_committedCount a")
    case True
    then have cm: "CommitNextChunkUnderLock c a = Inr a1" using assms(2) by simp
    note cp = commit_props [OF cm]
    show ?thesis using assms(1) by (auto simp: cp(1,2) cp(6) range_inv_def array_consts)
  next
    case False
    with assms show ?thesis by auto
  qed
  then show "m_bumpHead a1 = m_bumpHead a" "m_bumpHead a < m_committedCount a1"
    "i < m_bumpHead a \<Longrightarrow> m_entries a1 i = m_entries a i" by auto
qed

text \<open>What one step does to the serial of a slot in use, whatever the caller's discipline.\<close>

definition serial_step :: "array_op \<Rightarrow> FXObjectArray \<Rightarrow> FXObjectArray \<Rightarrow> bool" where
  "serial_step op a a' \<longleftrightarrow> range_inv a' \<and> m_bumpHead a \<le> m_bumpHead a' \<and>
     (\<forall>i. slot_in_use a i \<longrightarrow> EntrySerialNumber (m_entries a' i) =
        (if op_releases op i then BumpSerialNumber (EntrySerialNumber (m_entries a i))
         else EntrySerialNumber (m_entries a i)))"

lemma ReserveSlot_serial:
  assumes "range_inv a" and "ReserveSlot c False a = Inr (i, sn, a')"
  shows "serial_step OpReserve a a'"
proof (cases "m_freeList a = []")
  case False
  with assms show ?thesis
    by (auto simp: ReserveSlot_def Let_def serial_step_def range_inv_def)
next
  case True
  with assms(2) obtain a1 where
    g: "(if m_bumpHead a \<ge> m_committedCount a then CommitNextChunkUnderLock c a else Inr a) = Inr a1"
    and a': "a' = upd_entry (m_bumpHead a) (EntryObject_update (\<lambda>_. nullptr))
           (upd_entry (m_bumpHead a) (EntrySerialNumber_update (\<lambda>_. 1))
              (a1\<lparr>m_bumpHead := m_bumpHead a1 + 1\<rparr>))"
    by (auto simp: ReserveSlot_def Let_def rbind_eq_Inr)
  show ?thesis
    using commit_serial [OF assms(1) g] assms(1)
    by (auto simp: a' serial_step_def range_inv_def slot_in_use_def)
qed

lemma AllocateEntry_serial:
  assumes "range_inv a" and "AllocateEntry c False p a = Inr (i, a')"
  shows "serial_step (OpAllocate p) a a'"
proof (cases "m_freeList a = []")
  case False
  with assms show ?thesis
    by (auto simp: AllocateEntry_def Let_def serial_step_def range_inv_def)
next
  case True
  with assms(2) obtain a1 where
    g: "(if m_bumpHead a \<ge> m_committedCount a then CommitNextChunkUnderLock c a else Inr a) = Inr a1"
    and a': "a' = (let a3 = upd_entry (m_bumpHead a) (EntryObject_update (\<lambda>_. p))
           (upd_entry (m_bumpHead a) (EntrySerialNumber_update (\<lambda>_. 1))
              (a1\<lparr>m_bumpHead := m_bumpHead a1 + 1\<rparr>)) in
        if p \<noteq> nullptr then a3\<lparr>m_numLive := m_numLive a3 + 1\<rparr> else a3)"
    by (auto simp: AllocateEntry_def Let_def rbind_eq_Inr)
  show ?thesis
    using commit_serial [OF assms(1) g] assms(1)
    by (auto simp: a' serial_step_def range_inv_def slot_in_use_def Let_def)
qed

lemma array_step_serial:
  assumes "range_inv a" and "array_step b c op a = Inr a'"
  shows "serial_step op a a'"
proof (cases "state_op op")
  case True
  note r = state_op_step [OF assms(2) True]
  have "\<not> op_releases op i" for i using True by (cases op) auto
  with rewrites_state_sel [OF r] assms(1) show ?thesis
    by (simp add: serial_step_def range_inv_def)
next
  case False
  then show ?thesis
  proof (cases op)
    case OpReserve
    with assms show ?thesis by (auto simp: rbind_eq_Inr dest: ReserveSlot_serial)
  next
    case (OpAllocate p)
    with assms show ?thesis by (auto simp: rbind_eq_Inr dest: AllocateEntry_serial)
  qed (use assms in \<open>auto simp: BindObject_def FreeEntry_def ReleaseSlot_def Let_def res_eq_Inr
        serial_step_def range_inv_def\<close>)
qed

interpretation slots: generational_slots
    range_inv slot_in_use "\<lambda>a i. EntrySerialNumber (m_entries a i)"
    "array_step b c" op_releases GetObjectAtIndex
  for b c
proof
  fix a a' :: FXObjectArray and op i and sn :: u32
  show "range_inv a \<Longrightarrow> array_step b c op a = Inr a' \<Longrightarrow> range_inv a'"
    by (drule (1) array_step_serial) (simp add: serial_step_def)
  show "range_inv a \<Longrightarrow> slot_in_use a i \<Longrightarrow> array_step b c op a = Inr a' \<Longrightarrow> slot_in_use a' i"
    by (drule (1) array_step_serial) (auto simp: serial_step_def slot_in_use_def)
  show "range_inv a \<Longrightarrow> slot_in_use a i \<Longrightarrow> array_step b c op a = Inr a' \<Longrightarrow>
    EntrySerialNumber (m_entries a' i) = (if op_releases op i
      then BumpSerialNumber (EntrySerialNumber (m_entries a i)) else EntrySerialNumber (m_entries a i))"
    by (drule (1) array_step_serial) (simp add: serial_step_def)
  show "EntrySerialNumber (m_entries a i) \<noteq> sn \<Longrightarrow> GetObjectAtIndex a i sn = nullptr"
    by (simp add: GetObjectAtIndex_def)
qed

end
