(* ===== verification/XObjectModel.thy ===== *)
theory XObjectModel
  imports ObjectArrayProps
begin

text \<open>
  The object header (\<open>Public/XObject/XObject.h\<close>, \<open>Private/XObject/XObject.cpp\<close>), its flag word
  (\<open>Public/XObject/EObjectFlags.h\<close>) and the memory the collector works on.  A header is a
  record found at the object's address; the instance bytes behind it are a byte-addressed
  memory, read by the schema walker.  Addresses are 64-bit words, so every pointer value
  that the code can load denotes some header, live or not, as in the C++ program.
\<close>

section \<open>Object flags\<close>

type_synonym EObjectFlags = u32

definition NeedInitialization :: EObjectFlags where "NeedInitialization = push_bit 0 1"
definition NeedLoad :: EObjectFlags where "NeedLoad = push_bit 4 1"
definition BeginDestroyed :: EObjectFlags where "BeginDestroyed = push_bit 7 1"
definition FinishDestroyed :: EObjectFlags where "FinishDestroyed = push_bit 8 1"
definition MarkedAsGarbage :: EObjectFlags where "MarkedAsGarbage = push_bit 12 1"
definition HotReloadReplaced :: EObjectFlags where "HotReloadReplaced = push_bit 14 1"

lemma flag_vals:
  "NeedInitialization = 1" "NeedLoad = 16" "BeginDestroyed = 128" "FinishDestroyed = 256"
  "MarkedAsGarbage = 4096" "HotReloadReplaced = 16384"
  by (simp_all add: NeedInitialization_def NeedLoad_def BeginDestroyed_def FinishDestroyed_def
      MarkedAsGarbage_def HotReloadReplaced_def push_bit_eq_mult)

definition HasAnyObjectFlags :: "EObjectFlags \<Rightarrow> EObjectFlags \<Rightarrow> bool" where
  "HasAnyObjectFlags Bits Mask = (Bits AND Mask \<noteq> 0)"

definition HasAllObjectFlags :: "EObjectFlags \<Rightarrow> EObjectFlags \<Rightarrow> bool" where
  "HasAllObjectFlags Bits Mask = (Bits AND Mask = Mask)"

section \<open>The header and the heap\<close>

record XObject =
  ClassPrivate :: ptr
  InternalIndex :: int
  SerialNumber :: u32
  Outer :: ptr
  NamePrivate :: u64
  ObjectFlags :: u32
  ReachabilityFlag :: u32

definition XObject_ctor :: XObject where
  "XObject_ctor = \<lparr>ClassPrivate = nullptr, InternalIndex = - 1, SerialNumber = 0, Outer = nullptr,
     NamePrivate = 0, ObjectFlags = 0, ReachabilityFlag = 0\<rparr>"

record XHeap =
  hdr :: "ptr \<Rightarrow> XObject"
  mem :: "ptr \<Rightarrow> u8"

definition upd_hdr :: "ptr \<Rightarrow> (XObject \<Rightarrow> XObject) \<Rightarrow> XHeap \<Rightarrow> XHeap" where
  "upd_hdr p f h = h\<lparr>hdr := (hdr h)(p := f (hdr h p))\<rparr>"

lemma upd_hdr_sel [simp]:
  "hdr (upd_hdr p f h) = (hdr h)(p := f (hdr h p))" "mem (upd_hdr p f h) = mem h"
  by (simp_all add: upd_hdr_def)

text \<open>\<open>SchemaWalkerByteCopy\<close> of one pointer: eight bytes, least significant first.\<close>

definition load_ptr :: "(ptr \<Rightarrow> u8) \<Rightarrow> ptr \<Rightarrow> ptr" where
  "load_ptr m a = word_of_nat (\<Sum>k<8. unat (m (a + word_of_nat k)) * 256 ^ k)"

lemma load_ptr_bytes:
  "load_ptr m a = word_of_nat (unat (m a) + unat (m (a + 1)) * 256 + unat (m (a + 2)) * 65536
     + unat (m (a + 3)) * 16777216 + unat (m (a + 4)) * 4294967296 + unat (m (a + 5)) * 1099511627776
     + unat (m (a + 6)) * 281474976710656 + unat (m (a + 7)) * 72057594037927936)"
proof -
  have "{..< 8 :: nat} = {0, 1, 2, 3, 4, 5, 6, 7}" by auto
  then show ?thesis by (simp only: load_ptr_def) (simp add: add.assoc)
qed

definition load_int32 :: "(ptr \<Rightarrow> u8) \<Rightarrow> ptr \<Rightarrow> int" where
  "load_int32 m a = sint (word_of_nat (\<Sum>k<4. unat (m (a + word_of_nat k)) * 256 ^ k) :: u32)"

definition store_null :: "(ptr \<Rightarrow> u8) \<Rightarrow> ptr \<Rightarrow> (ptr \<Rightarrow> u8)" where
  "store_null m a = (\<lambda>x. if x - a < 8 then 0 else m x)"

lemma load_store_null: "load_ptr (store_null m a) a = nullptr"
proof -
  have "store_null m a (a + word_of_nat k) = 0" if "k < 8" for k
  proof -
    have "(word_of_nat k :: ptr) < 8" using that by (simp add: word_less_nat_alt unat_of_nat)
    then show ?thesis by (simp add: store_null_def)
  qed
  then show ?thesis by (simp add: load_ptr_def)
qed

lemma load_ptr_cong:
  assumes "\<And>k. k < 8 \<Longrightarrow> m (a + word_of_nat k) = m' (a + word_of_nat k)"
  shows "load_ptr m a = load_ptr m' a"
  using assms by (simp add: load_ptr_def)

section \<open>Flag operations\<close>

definition GetObjectFlags :: "XHeap \<Rightarrow> ptr \<Rightarrow> EObjectFlags" where
  "GetObjectFlags h p = ObjectFlags (hdr h p)"

definition HasAnyFlags :: "XHeap \<Rightarrow> ptr \<Rightarrow> EObjectFlags \<Rightarrow> bool" where
  "HasAnyFlags h p Mask = HasAnyObjectFlags (GetObjectFlags h p) Mask"

definition SetFlags :: "ptr \<Rightarrow> EObjectFlags \<Rightarrow> XHeap \<Rightarrow> XHeap" where
  "SetFlags p Bits h = upd_hdr p (\<lambda>o'. o'\<lparr>ObjectFlags := ObjectFlags o' OR Bits\<rparr>) h"

definition ClearFlags :: "ptr \<Rightarrow> EObjectFlags \<Rightarrow> XHeap \<Rightarrow> XHeap" where
  "ClearFlags p Bits h = upd_hdr p (\<lambda>o'. o'\<lparr>ObjectFlags := ObjectFlags o' AND NOT Bits\<rparr>) h"

definition MarkAsGarbage :: "ptr \<Rightarrow> XHeap \<Rightarrow> XHeap" where
  "MarkAsGarbage p h = SetFlags p MarkedAsGarbage h"

definition IsMarkedAsGarbage :: "XHeap \<Rightarrow> ptr \<Rightarrow> bool" where
  "IsMarkedAsGarbage h p = HasAnyFlags h p MarkedAsGarbage"

lemma SetFlags_HasAny:
  "Bits AND Mask \<noteq> 0 \<Longrightarrow> HasAnyFlags (SetFlags p Bits h) p Mask"
proof -
  assume "Bits AND Mask \<noteq> 0"
  then obtain n where "bit (Bits AND Mask) n" by (metis bit_0_eq bit_eqI bot_apply bot_bool_def)
  then have "bit ((ObjectFlags (hdr h p) OR Bits) AND Mask) n" by (simp add: bit_simps)
  then have "(ObjectFlags (hdr h p) OR Bits) AND Mask \<noteq> 0" by (metis bit_0_eq bot_apply bot_bool_def)
  then show ?thesis
    by (simp add: HasAnyFlags_def HasAnyObjectFlags_def GetObjectFlags_def SetFlags_def)
qed

lemma SetFlags_other [simp]: "p \<noteq> q \<Longrightarrow> hdr (SetFlags p Bits h) q = hdr h q"
  by (simp add: SetFlags_def)

lemma SetFlags_sel [simp]:
  "ClassPrivate (hdr (SetFlags p Bits h) q) = ClassPrivate (hdr h q)"
  "InternalIndex (hdr (SetFlags p Bits h) q) = InternalIndex (hdr h q)"
  "SerialNumber (hdr (SetFlags p Bits h) q) = SerialNumber (hdr h q)"
  "Outer (hdr (SetFlags p Bits h) q) = Outer (hdr h q)"
  "ReachabilityFlag (hdr (SetFlags p Bits h) q) = ReachabilityFlag (hdr h q)"
  "mem (SetFlags p Bits h) = mem h"
  by (simp_all add: SetFlags_def)

definition IsValidLowLevel :: "XHeap \<Rightarrow> ptr \<Rightarrow> bool" where
  "IsValidLowLevel h p =
     (if p = nullptr then False
      else if ClassPrivate (hdr h p) = nullptr then False
      else if InternalIndex (hdr h p) < - 1 then False
      else True)"

section \<open>The outer chain and the full name\<close>

text \<open>
  \<open>GetFullName\<close> walks at most 64 links of the \<open>Outer\<close> chain, so a cyclic chain ends too;
  the names are joined from the outermost one inwards, and a chain that was cut gets a
  leading ellipsis.  \<open>FName::ToString\<close> is the parameter \<open>to_string\<close>.
\<close>

definition kMaxOuterDepth :: nat where
  "kMaxOuterDepth = 64"

fun outer_walk :: "XHeap \<Rightarrow> nat \<Rightarrow> ptr \<Rightarrow> ptr list" where
  "outer_walk h 0 p = []"
| "outer_walk h (Suc d) p = (if p = nullptr then [] else p # outer_walk h d (Outer (hdr h p)))"

fun join_dot :: "string list \<Rightarrow> string" where
  "join_dot [] = ''''"
| "join_dot [s] = s"
| "join_dot (s # ss) = s @ ''.'' @ join_dot ss"

definition GetFullName :: "(u64 \<Rightarrow> string) \<Rightarrow> XHeap \<Rightarrow> ptr \<Rightarrow> string" where
  "GetFullName to_string h this =
     (let WalkStack = outer_walk h kMaxOuterDepth this;
          Depth = length WalkStack;
          cut = (Depth = kMaxOuterDepth \<and> Outer (hdr h this) \<noteq> nullptr
                 \<and> Outer (hdr h (WalkStack ! (Depth - 1))) \<noteq> nullptr)
      in (if cut then ''....'' else '''')
         @ join_dot (map (\<lambda>p. to_string (NamePrivate (hdr h p))) (rev WalkStack)))"

lemma outer_walk_length: "length (outer_walk h d p) \<le> d"
  by (induction d arbitrary: p) auto

lemma outer_walk_nonnull: "p \<in> set (outer_walk h d q) \<Longrightarrow> p \<noteq> nullptr"
  by (induction d arbitrary: q) (auto split: if_splits)

lemma outer_walk_link:
  "Suc k < length (outer_walk h d p) \<Longrightarrow>
     outer_walk h d p ! Suc k = Outer (hdr h (outer_walk h d p ! k))"
proof (induction d arbitrary: p k)
  case (Suc d)
  show ?case
  proof (cases k)
    case 0
    with Suc.prems show ?thesis by (cases d) (auto split: if_splits)
  next
    case (Suc k')
    with Suc.prems Suc.IH [of k' "Outer (hdr h p)"] show ?thesis by (auto split: if_splits)
  qed
qed simp

text \<open>The walk is complete when it stopped before the bound: its last object has no outer.\<close>

lemma outer_walk_complete:
  "p \<noteq> nullptr \<Longrightarrow> length (outer_walk h d p) < d \<Longrightarrow> Outer (hdr h (last (outer_walk h d p))) = nullptr"
proof (induction d arbitrary: p)
  case (Suc d)
  show ?case
  proof (cases "Outer (hdr h p) = nullptr")
    case True
    with Suc.prems show ?thesis by (cases d) auto
  next
    case False
    with Suc.prems Suc.IH [of "Outer (hdr h p)"] show ?thesis by (cases d) auto
  qed
qed simp

end
