(* ===== verification/GCQueues.thy ===== *)
theory GCQueues
  imports XObjectModel
begin

text \<open>
  The queues of the collector: the per-thread gray queue with its overflow list
  (\<open>FXGrayQueue\<close>, \<open>FXGrayOverflowList\<close>), the per-thread SATB queue with the global log
  (\<open>FXObjectSatbQueue\<close>, \<open>FXObjectGlobalSatbLog\<close>) and the sweep-candidate queue
  (\<open>FXSweepCandidateQueue\<close>).  A buffer is the list of its first \<open>m_count\<close> elements with its
  capacity; allocation aborts the process instead of failing, so it always succeeds here.
\<close>

section \<open>The interface of a work list\<close>

text \<open>
  What marking needs of its gray set: a bag with a push that ignores the null element and a
  pop that returns null exactly when the bag is empty.
\<close>

locale worklist =
  fixes push :: "'a \<Rightarrow> 's \<Rightarrow> 's"
    and pop :: "'s \<Rightarrow> 'a \<times> 's"
    and nil :: 'a
    and bag :: "'s \<Rightarrow> 'a multiset"
    and winv :: "'s \<Rightarrow> bool"
  assumes push_inv: "winv s \<Longrightarrow> winv (push x s)"
    and pop_inv: "winv s \<Longrightarrow> winv (snd (pop s))"
    and push_bag: "winv s \<Longrightarrow> bag (push x s) = (if x = nil then bag s else add_mset x (bag s))"
    and pop_empty: "winv s \<Longrightarrow> fst (pop s) = nil \<longleftrightarrow> bag s = {#}"
    and pop_bag: "winv s \<Longrightarrow> bag s \<noteq> {#} \<Longrightarrow> bag s = add_mset (fst (pop s)) (bag (snd (pop s)))"
    and bag_nil: "winv s \<Longrightarrow> nil \<notin># bag s"
begin

lemma push_list_inv: "winv s \<Longrightarrow> winv (fold push xs s)"
  by (induction xs arbitrary: s) (auto intro: push_inv)

lemma push_list_bag:
  "winv s \<Longrightarrow> bag (fold push xs s) = mset (filter (\<lambda>x. x \<noteq> nil) xs) + bag s"
  by (induction xs arbitrary: s) (auto simp: push_inv push_bag)

lemma pop_size: "winv s \<Longrightarrow> fst (pop s) \<noteq> nil \<Longrightarrow> size (bag (snd (pop s))) < size (bag s)"
  using pop_bag [of s] pop_empty [of s] by (metis lessI size_add_mset)

lemma pop_member: "winv s \<Longrightarrow> fst (pop s) \<noteq> nil \<Longrightarrow> fst (pop s) \<in># bag s"
  using pop_bag [of s] pop_empty [of s] by (metis union_single_eq_member)

lemma pop_set:
  "winv s \<Longrightarrow> fst (pop s) \<noteq> nil \<Longrightarrow>
     set_mset (bag s) = insert (fst (pop s)) (set_mset (bag (snd (pop s))))"
  using pop_bag [of s] pop_empty [of s] by (metis set_mset_add_mset_insert)

end

section \<open>The overflow list\<close>

definition kOverflowInitialCapacity :: nat where
  "kOverflowInitialCapacity = 256"

record FXGrayOverflowList =
  ov_entries :: "ptr list"
  ov_capacity :: nat

definition Overflow_Grow :: "nat \<Rightarrow> FXGrayOverflowList \<Rightarrow> FXGrayOverflowList" where
  "Overflow_Grow RequiredSlots v =
     v\<lparr>ov_capacity := GrowCapacity kOverflowInitialCapacity (length (ov_entries v))
                        (ov_capacity v) RequiredSlots\<rparr>"

definition Overflow_AppendBatch :: "ptr list \<Rightarrow> FXGrayOverflowList \<Rightarrow> FXGrayOverflowList" where
  "Overflow_AppendBatch Entries v =
     (if length Entries = 0 then v
      else let v1 = Overflow_Grow (length Entries) v in
           v1\<lparr>ov_entries := ov_entries v1 @ Entries\<rparr>)"

definition Overflow_PullBatch :: "nat \<Rightarrow> FXGrayOverflowList \<Rightarrow> ptr list \<times> FXGrayOverflowList" where
  "Overflow_PullBatch MaxCount v =
     (let m_count = length (ov_entries v) in
      if MaxCount = 0 then ([], v)
      else if m_count = 0 then ([], v)
      else let ToPull = (if m_count < MaxCount then m_count else MaxCount);
               SrcStart = m_count - ToPull
           in (drop SrcStart (ov_entries v), v\<lparr>ov_entries := take SrcStart (ov_entries v)\<rparr>))"

lemma PullBatch_append:
  "ov_entries v = ov_entries (snd (Overflow_PullBatch k v)) @ fst (Overflow_PullBatch k v)"
  by (auto simp: Overflow_PullBatch_def Let_def)

lemma PullBatch_length: "length (fst (Overflow_PullBatch k v)) = min k (length (ov_entries v))"
  by (auto simp: Overflow_PullBatch_def Let_def)

lemma PullBatch_empty: "ov_entries v = [] \<Longrightarrow> Overflow_PullBatch k v = ([], v)"
  by (simp add: Overflow_PullBatch_def)

section \<open>The gray queue\<close>

definition gray_kCapacity :: nat where
  "gray_kCapacity = 256"

record FXGrayQueue =
  gq_entries :: "ptr list"
  gq_peakCount :: nat
  gq_overflow :: FXGrayOverflowList

definition FXGrayQueue_ctor :: FXGrayQueue where
  "FXGrayQueue_ctor = \<lparr>gq_entries = [], gq_peakCount = 0,
     gq_overflow = \<lparr>ov_entries = [], ov_capacity = 0\<rparr>\<rparr>"

definition Gray_Push :: "ptr \<Rightarrow> FXGrayQueue \<Rightarrow> FXGrayQueue" where
  "Gray_Push Obj q =
     (if Obj = nullptr then q
      else let LocalCount = length (gq_entries q) in
        if LocalCount < gray_kCapacity then
          let NewCount = LocalCount + 1 in
          q\<lparr>gq_entries := gq_entries q @ [Obj],
            gq_peakCount := (if NewCount > gq_peakCount q then NewCount else gq_peakCount q)\<rparr>
        else
          q\<lparr>gq_overflow := Overflow_AppendBatch (gq_entries q) (gq_overflow q),
            gq_entries := [Obj],
            gq_peakCount := (if gray_kCapacity > gq_peakCount q then gray_kCapacity
                             else gq_peakCount q)\<rparr>)"

definition Gray_Pop :: "FXGrayQueue \<Rightarrow> ptr \<times> FXGrayQueue" where
  "Gray_Pop q =
     (if length (gq_entries q) > 0 then
        (last (gq_entries q), q\<lparr>gq_entries := butlast (gq_entries q)\<rparr>)
      else
        let (Pulled, v) = Overflow_PullBatch gray_kCapacity (gq_overflow q) in
        if Pulled = [] then (nullptr, q\<lparr>gq_overflow := v\<rparr>)
        else (last Pulled, q\<lparr>gq_overflow := v, gq_entries := butlast Pulled\<rparr>))"

definition Gray_IsEmpty :: "FXGrayQueue \<Rightarrow> bool" where
  "Gray_IsEmpty q =
     (if length (gq_entries q) \<noteq> 0 then False else length (ov_entries (gq_overflow q)) = 0)"

definition Gray_ResetForCycle :: "FXGrayQueue \<Rightarrow> FXGrayQueue" where
  "Gray_ResetForCycle q = q\<lparr>gq_entries := [], gq_peakCount := 0\<rparr>"

definition gray_bag :: "FXGrayQueue \<Rightarrow> ptr multiset" where
  "gray_bag q = mset (ov_entries (gq_overflow q)) + mset (gq_entries q)"

definition gray_inv :: "FXGrayQueue \<Rightarrow> bool" where
  "gray_inv q \<longleftrightarrow> length (gq_entries q) \<le> gray_kCapacity \<and>
     length (ov_entries (gq_overflow q)) \<le> ov_capacity (gq_overflow q) \<and>
     nullptr \<notin># gray_bag q"

lemma AppendBatch_fits:
  "length (ov_entries v) \<le> ov_capacity v \<Longrightarrow>
     length (ov_entries (Overflow_AppendBatch xs v)) \<le> ov_capacity (Overflow_AppendBatch xs v)"
  using GrowCapacity_fits [of kOverflowInitialCapacity "length (ov_entries v)" "length xs"]
  by (auto simp: Overflow_AppendBatch_def Overflow_Grow_def Let_def kOverflowInitialCapacity_def)

lemma AppendBatch_entries [simp]:
  "ov_entries (Overflow_AppendBatch xs v) = ov_entries v @ xs"
  by (auto simp: Overflow_AppendBatch_def Overflow_Grow_def Let_def)

lemma PullBatch_capacity [simp]: "ov_capacity (snd (Overflow_PullBatch k v)) = ov_capacity v"
  by (auto simp: Overflow_PullBatch_def Let_def)

lemma Gray_Push_inv: "gray_inv q \<Longrightarrow> gray_inv (Gray_Push x q)"
  using AppendBatch_fits [of "gq_overflow q" "gq_entries q"]
  by (auto simp: gray_inv_def Gray_Push_def Let_def gray_bag_def gray_kCapacity_def)

lemma Gray_Push_bag:
  "gray_bag (Gray_Push x q) = (if x = nullptr then gray_bag q else add_mset x (gray_bag q))"
  by (auto simp: gray_bag_def Gray_Push_def Let_def)

lemma mset_butlast_last: "xs \<noteq> [] \<Longrightarrow> add_mset (last xs) (mset (butlast xs)) = mset xs"
proof -
  assume "xs \<noteq> []"
  then have "mset xs = mset (butlast xs @ [last xs])" by simp
  then show ?thesis by (simp only: mset_append) simp
qed

lemma Gray_Pop_pulled:
  assumes "gq_entries q = []"
  defines "P \<equiv> Overflow_PullBatch gray_kCapacity (gq_overflow q)"
  shows "Gray_Pop q = (if fst P = [] then (nullptr, q\<lparr>gq_overflow := snd P\<rparr>)
     else (last (fst P), q\<lparr>gq_overflow := snd P, gq_entries := butlast (fst P)\<rparr>))"
  using assms by (simp add: Gray_Pop_def case_prod_beta)

lemma Gray_Pop_bag:
  assumes "gray_bag q \<noteq> {#}"
  shows "gray_bag q = add_mset (fst (Gray_Pop q)) (gray_bag (snd (Gray_Pop q)))"
proof (cases "gq_entries q = []")
  case False
  then show ?thesis
    using mset_butlast_last [of "gq_entries q"] by (simp add: Gray_Pop_def gray_bag_def)
next
  case True
  let ?P = "Overflow_PullBatch gray_kCapacity (gq_overflow q)"
  have ne: "fst ?P \<noteq> []"
  proof
    assume "fst ?P = []"
    then have "min gray_kCapacity (length (ov_entries (gq_overflow q))) = 0"
      using PullBatch_length [of gray_kCapacity "gq_overflow q"] by simp
    with True assms show False
      by (simp add: gray_kCapacity_def gray_bag_def min_def split: if_splits)
  qed
  have "mset (ov_entries (gq_overflow q)) = mset (ov_entries (snd ?P)) + mset (fst ?P)"
    by (subst PullBatch_append [of _ gray_kCapacity]) simp
  with ne True mset_butlast_last [OF ne] show ?thesis
    by (simp add: Gray_Pop_pulled gray_bag_def)
qed

lemma Gray_Pop_empty:
  assumes "gray_inv q" shows "fst (Gray_Pop q) = nullptr \<longleftrightarrow> gray_bag q = {#}"
proof
  assume "gray_bag q = {#}"
  then have "gq_entries q = []" "ov_entries (gq_overflow q) = []" by (auto simp: gray_bag_def)
  then show "fst (Gray_Pop q) = nullptr"
    by (simp add: Gray_Pop_def Overflow_PullBatch_def)
next
  assume n: "fst (Gray_Pop q) = nullptr"
  show "gray_bag q = {#}"
  proof (rule ccontr)
    assume "gray_bag q \<noteq> {#}"
    from Gray_Pop_bag [OF this] n have "nullptr \<in># gray_bag q" by (metis union_single_eq_member)
    with assms show False by (simp add: gray_inv_def)
  qed
qed

lemma Gray_Pop_inv:
  assumes "gray_inv q" shows "gray_inv (snd (Gray_Pop q))"
proof (cases "gray_bag q = {#}")
  case True
  then have "gq_entries q = []" "ov_entries (gq_overflow q) = []" by (auto simp: gray_bag_def)
  with assms show ?thesis
    by (simp add: Gray_Pop_def Overflow_PullBatch_def gray_inv_def gray_bag_def)
next
  case False
  have "nullptr \<notin># gray_bag (snd (Gray_Pop q))"
    using Gray_Pop_bag [OF False] assms by (metis gray_inv_def insert_iff set_mset_add_mset_insert)
  moreover have "length (gq_entries (snd (Gray_Pop q))) \<le> gray_kCapacity"
  proof (cases "gq_entries q = []")
    case True
    with PullBatch_length [of gray_kCapacity "gq_overflow q"] show ?thesis
      by (auto simp: Gray_Pop_pulled min_def split: if_splits)
  next
    case False
    with assms show ?thesis by (auto simp: Gray_Pop_def gray_inv_def)
  qed
  moreover have "length (ov_entries (gq_overflow (snd (Gray_Pop q))))
      \<le> ov_capacity (gq_overflow (snd (Gray_Pop q)))"
  proof (cases "gq_entries q = []")
    case True
    have "length (ov_entries (snd (Overflow_PullBatch gray_kCapacity (gq_overflow q))))
        \<le> length (ov_entries (gq_overflow q))"
      by (subst (2) PullBatch_append [of _ gray_kCapacity]) simp
    with assms True show ?thesis by (simp add: Gray_Pop_pulled gray_inv_def)
  next
    case False
    with assms show ?thesis by (simp add: Gray_Pop_def gray_inv_def)
  qed
  ultimately show ?thesis by (simp add: gray_inv_def)
qed

interpretation gray: worklist Gray_Push Gray_Pop nullptr gray_bag gray_inv
proof
  fix q :: FXGrayQueue and x
  show "gray_inv q \<Longrightarrow> gray_inv (Gray_Push x q)" by (rule Gray_Push_inv)
  show "gray_inv q \<Longrightarrow> gray_inv (snd (Gray_Pop q))" by (rule Gray_Pop_inv)
  show "gray_bag (Gray_Push x q) = (if x = nullptr then gray_bag q else add_mset x (gray_bag q))"
    by (rule Gray_Push_bag)
  show "gray_inv q \<Longrightarrow> (fst (Gray_Pop q) = nullptr) = (gray_bag q = {#})" by (rule Gray_Pop_empty)
  show "gray_bag q \<noteq> {#} \<Longrightarrow> gray_bag q = add_mset (fst (Gray_Pop q)) (gray_bag (snd (Gray_Pop q)))"
    by (rule Gray_Pop_bag)
  show "gray_inv q \<Longrightarrow> nullptr \<notin># gray_bag q" by (simp add: gray_inv_def)
qed

lemma Gray_IsEmpty_bag: "Gray_IsEmpty q \<longleftrightarrow> gray_bag q = {#}"
  by (auto simp: Gray_IsEmpty_def gray_bag_def)

lemma Gray_ResetForCycle_inv: "gray_inv q \<Longrightarrow> gray_inv (Gray_ResetForCycle q)"
  by (auto simp: gray_inv_def Gray_ResetForCycle_def gray_bag_def)

lemma Gray_ResetForCycle_bag:
  "gray_bag (Gray_ResetForCycle q) = mset (ov_entries (gq_overflow q))"
  by (simp add: Gray_ResetForCycle_def gray_bag_def)

section \<open>The global SATB log\<close>

definition kSatbLogInitialCapacity :: nat where
  "kSatbLogInitialCapacity = 256"

record FXObjectGlobalSatbLog =
  log_entries :: "ptr list"
  log_capacity :: nat

definition FXObjectGlobalSatbLog_ctor :: FXObjectGlobalSatbLog where
  "FXObjectGlobalSatbLog_ctor = \<lparr>log_entries = [], log_capacity = 0\<rparr>"

definition Log_GrowIfNeededUnderLock :: "nat \<Rightarrow> FXObjectGlobalSatbLog \<Rightarrow> FXObjectGlobalSatbLog" where
  "Log_GrowIfNeededUnderLock RequiredSlots l =
     l\<lparr>log_capacity := GrowCapacity kSatbLogInitialCapacity (length (log_entries l))
                        (log_capacity l) RequiredSlots\<rparr>"

definition Log_AppendBatch :: "ptr list \<Rightarrow> FXObjectGlobalSatbLog \<Rightarrow> FXObjectGlobalSatbLog" where
  "Log_AppendBatch Entries l =
     (if length Entries = 0 then l
      else let l1 = Log_GrowIfNeededUnderLock (length Entries) l in
           l1\<lparr>log_entries := log_entries l1 @ Entries\<rparr>)"

text \<open>\<open>DrainAll\<close> visits every entry in order and empties the log, keeping its storage.\<close>

definition Log_DrainAll :: "(ptr \<Rightarrow> 's \<Rightarrow> 's) \<Rightarrow> FXObjectGlobalSatbLog \<Rightarrow> 's \<Rightarrow> nat \<times> FXObjectGlobalSatbLog \<times> 's" where
  "Log_DrainAll V l s = (length (log_entries l), l\<lparr>log_entries := []\<rparr>, fold V (log_entries l) s)"

definition Log_Size :: "FXObjectGlobalSatbLog \<Rightarrow> nat" where
  "Log_Size l = length (log_entries l)"

definition Log_ResetForTests :: "FXObjectGlobalSatbLog \<Rightarrow> FXObjectGlobalSatbLog" where
  "Log_ResetForTests l = \<lparr>log_entries = [], log_capacity = 0\<rparr>"

section \<open>The per-thread SATB queue\<close>

text \<open>
  A full queue is published to the global log before the new value is stored.  While the
  collector runs a hot reload \<open>g_XGCAcceptDrains\<close> is false and the pushing thread is parked in
  \<open>XGCWaitForDrainsAccepted\<close>; only another thread can release it, so the call does not
  return from this state.
\<close>

definition satb_kCapacity :: nat where
  "satb_kCapacity = 256"

record FXObjectSatbQueue =
  sq_entries :: "ptr list"

definition FXObjectSatbQueue_ctor :: FXObjectSatbQueue where
  "FXObjectSatbQueue_ctor = \<lparr>sq_entries = []\<rparr>"

definition XGCWaitForDrainsAccepted :: "bool \<Rightarrow> xerror + 'a \<Rightarrow> xerror + 'a" where
  "XGCWaitForDrainsAccepted g_XGCAcceptDrains k =
     (if g_XGCAcceptDrains then k else Inl HotReloadWait)"

definition Satb_DrainToGlobalLog ::
  "FXObjectSatbQueue \<Rightarrow> FXObjectGlobalSatbLog \<Rightarrow> FXObjectSatbQueue \<times> FXObjectGlobalSatbLog" where
  "Satb_DrainToGlobalLog q l =
     (let LocalCount = length (sq_entries q) in
      if LocalCount = 0 then (q, l)
      else (q\<lparr>sq_entries := []\<rparr>, Log_AppendBatch (sq_entries q) l))"

definition Satb_Push ::
  "bool \<Rightarrow> ptr \<Rightarrow> FXObjectSatbQueue \<Rightarrow> FXObjectGlobalSatbLog
     \<Rightarrow> xerror + (FXObjectSatbQueue \<times> FXObjectGlobalSatbLog)" where
  "Satb_Push g_XGCAcceptDrains OldValue q l =
     (let LocalCount = length (sq_entries q) in
      if LocalCount < satb_kCapacity then
        Inr (q\<lparr>sq_entries := sq_entries q @ [OldValue]\<rparr>, l)
      else
        XGCWaitForDrainsAccepted g_XGCAcceptDrains
          (let (q1, l1) = Satb_DrainToGlobalLog q l in
           Inr (q1\<lparr>sq_entries := [OldValue]\<rparr>, l1)))"

definition Satb_DrainTo :: "(ptr \<Rightarrow> 's \<Rightarrow> 's) \<Rightarrow> FXObjectSatbQueue \<Rightarrow> 's \<Rightarrow> FXObjectSatbQueue \<times> 's" where
  "Satb_DrainTo V q s = (q\<lparr>sq_entries := []\<rparr>, fold V (sq_entries q) s)"

definition Satb_Size :: "FXObjectSatbQueue \<Rightarrow> nat" where
  "Satb_Size q = length (sq_entries q)"

definition Satb_IsFull :: "FXObjectSatbQueue \<Rightarrow> bool" where
  "Satb_IsFull q \<longleftrightarrow> length (sq_entries q) \<ge> satb_kCapacity"

text \<open>What has been captured and not yet drained, oldest first.\<close>

definition captured :: "FXObjectSatbQueue \<Rightarrow> FXObjectGlobalSatbLog \<Rightarrow> ptr list" where
  "captured q l = log_entries l @ sq_entries q"

definition satb_inv :: "FXObjectSatbQueue \<Rightarrow> FXObjectGlobalSatbLog \<Rightarrow> bool" where
  "satb_inv q l \<longleftrightarrow> length (sq_entries q) \<le> satb_kCapacity \<and> length (log_entries l) \<le> log_capacity l"

lemma Log_AppendBatch_entries [simp]:
  "log_entries (Log_AppendBatch xs l) = log_entries l @ xs"
  by (auto simp: Log_AppendBatch_def Log_GrowIfNeededUnderLock_def Let_def)

lemma Log_AppendBatch_fits:
  "length (log_entries l) \<le> log_capacity l \<Longrightarrow>
     length (log_entries l) + length xs \<le> log_capacity (Log_AppendBatch xs l)"
  using GrowCapacity_fits [of kSatbLogInitialCapacity "length (log_entries l)" "length xs"]
  by (auto simp: Log_AppendBatch_def Log_GrowIfNeededUnderLock_def Let_def
      kSatbLogInitialCapacity_def)

lemma Satb_Push_step:
  assumes "satb_inv q l" "Satb_Push g v q l = Inr (q', l')"
  shows "satb_inv q' l'" "captured q' l' = captured q l @ [v]"
  using assms Log_AppendBatch_fits [of l "sq_entries q"]
  by (auto simp: Satb_Push_def Satb_DrainToGlobalLog_def XGCWaitForDrainsAccepted_def Let_def
      satb_inv_def captured_def satb_kCapacity_def split: if_splits)

lemma Satb_Push_returns:
  "(g \<or> length (sq_entries q) < satb_kCapacity) \<longleftrightarrow> (\<exists>r. Satb_Push g v q l = Inr r)"
  by (auto simp: Satb_Push_def XGCWaitForDrainsAccepted_def Let_def split: prod.splits)

lemma Satb_Drain_captured:
  "captured (fst (Satb_DrainToGlobalLog q l)) (snd (Satb_DrainToGlobalLog q l)) = captured q l"
  by (auto simp: Satb_DrainToGlobalLog_def captured_def Let_def)

text \<open>A run of pushes, as a thread makes them while marking is active.\<close>

fun Satb_PushAll ::
  "bool \<Rightarrow> ptr list \<Rightarrow> FXObjectSatbQueue \<Rightarrow> FXObjectGlobalSatbLog
     \<Rightarrow> xerror + (FXObjectSatbQueue \<times> FXObjectGlobalSatbLog)" where
  "Satb_PushAll g [] q l = Inr (q, l)"
| "Satb_PushAll g (v # vs) q l = rbind (Satb_Push g v q l) (\<lambda>(q', l'). Satb_PushAll g vs q' l')"

lemma Satb_PushAll_captured:
  "satb_inv q l \<Longrightarrow> \<exists>q' l'. Satb_PushAll True vs q l = Inr (q', l') \<and> satb_inv q' l'
     \<and> captured q' l' = captured q l @ vs"
proof (induction vs arbitrary: q l)
  case (Cons v vs)
  obtain q1 l1 where p: "Satb_Push True v q l = Inr (q1, l1)"
    using Satb_Push_returns [of True q v l] by auto
  from Satb_Push_step [OF Cons.prems p] Cons.IH [of q1 l1] p show ?case by auto
qed simp

section \<open>The sweep-candidate queue\<close>

definition kSweepCandidateInitialCapacity :: nat where
  "kSweepCandidateInitialCapacity = 256"

record FXSweepCandidateQueue =
  sc_entries :: "int list"
  sc_capacity :: nat

definition FXSweepCandidateQueue_ctor :: FXSweepCandidateQueue where
  "FXSweepCandidateQueue_ctor = \<lparr>sc_entries = [], sc_capacity = 0\<rparr>"

definition Sweep_GrowIfNeededUnderLock :: "nat \<Rightarrow> FXSweepCandidateQueue \<Rightarrow> FXSweepCandidateQueue" where
  "Sweep_GrowIfNeededUnderLock RequiredSlots q =
     q\<lparr>sc_capacity := GrowCapacity kSweepCandidateInitialCapacity (length (sc_entries q))
                       (sc_capacity q) RequiredSlots\<rparr>"

definition Sweep_Append :: "int \<Rightarrow> FXSweepCandidateQueue \<Rightarrow> FXSweepCandidateQueue" where
  "Sweep_Append Idx q =
     (let q1 = Sweep_GrowIfNeededUnderLock 1 q in q1\<lparr>sc_entries := sc_entries q1 @ [Idx]\<rparr>)"

definition Sweep_AppendBatch :: "int list \<Rightarrow> FXSweepCandidateQueue \<Rightarrow> FXSweepCandidateQueue" where
  "Sweep_AppendBatch Entries q =
     (if length Entries = 0 then q
      else let q1 = Sweep_GrowIfNeededUnderLock (length Entries) q in
           q1\<lparr>sc_entries := sc_entries q1 @ Entries\<rparr>)"

definition Sweep_DrainAll :: "(int \<Rightarrow> 's \<Rightarrow> 's) \<Rightarrow> FXSweepCandidateQueue \<Rightarrow> 's \<Rightarrow> nat \<times> FXSweepCandidateQueue \<times> 's" where
  "Sweep_DrainAll V q s = (length (sc_entries q), q\<lparr>sc_entries := []\<rparr>, fold V (sc_entries q) s)"

definition Sweep_Size :: "FXSweepCandidateQueue \<Rightarrow> nat" where
  "Sweep_Size q = length (sc_entries q)"

definition Sweep_IsEmpty :: "FXSweepCandidateQueue \<Rightarrow> bool" where
  "Sweep_IsEmpty q \<longleftrightarrow> length (sc_entries q) = 0"

lemma Sweep_Append_entries [simp]: "sc_entries (Sweep_Append i q) = sc_entries q @ [i]"
  by (simp add: Sweep_Append_def Sweep_GrowIfNeededUnderLock_def Let_def)

lemma Sweep_AppendBatch_entries [simp]:
  "sc_entries (Sweep_AppendBatch xs q) = sc_entries q @ xs"
  by (auto simp: Sweep_AppendBatch_def Sweep_GrowIfNeededUnderLock_def Let_def)

lemma Sweep_Append_fits:
  "length (sc_entries (Sweep_Append i q)) \<le> sc_capacity (Sweep_Append i q)"
  using GrowCapacity_fits [of kSweepCandidateInitialCapacity "length (sc_entries q)" 1]
  by (simp add: Sweep_Append_def Sweep_GrowIfNeededUnderLock_def Let_def
      kSweepCandidateInitialCapacity_def)

end
