(* ===== verification/CardTable.thy ===== *)
theory CardTable
  imports XPrelude
begin

text \<open>
  The remembered set of the collector, \<open>FXObjectGCCardTable\<close>: one byte per 512 bytes of heap,
  set by the write barrier and drained at the final mark.  Addresses, sizes and the dirty
  counter are the 64-bit words of the code, with its wrapping arithmetic.  The invariant is
  that the counter is the number of dirty cards; the operations are characterised by the set
  of dirty cards.
\<close>

section \<open>The card table\<close>

definition kCardSize :: u64 where "kCardSize = 512"
definition kCardShift :: nat where "kCardShift = 9"
definition kCardClean :: u8 where "kCardClean = 0"
definition kCardDirty :: u8 where "kCardDirty = 1"
definition kSaturationThresholdPercent :: u64 where "kSaturationThresholdPercent = 50"

lemmas card_consts = kCardSize_def kCardShift_def kCardClean_def kCardDirty_def
  kSaturationThresholdPercent_def

record FXObjectGCCardTable =
  m_heapBaseAddr :: u64
  m_heapByteSize :: u64
  m_totalCards :: u64
  m_cards :: "u8 list option"
  m_dirtyCount :: u64
  m_saturationLatched :: bool

definition FXObjectGCCardTable_ctor :: FXObjectGCCardTable where
  "FXObjectGCCardTable_ctor = \<lparr>m_heapBaseAddr = 0, m_heapByteSize = 0, m_totalCards = 0,
     m_cards = None, m_dirtyCount = 0, m_saturationLatched = False\<rparr>"

definition Card_Initialize ::
  "build \<Rightarrow> u64 \<Rightarrow> u64 \<Rightarrow> FXObjectGCCardTable \<Rightarrow> xerror + FXObjectGCCardTable" where
  "Card_Initialize b HeapBase HeapByteSize t =
     xcheck b (HeapBase \<noteq> 0) (
     xcheck b (HeapByteSize > 0) (
       let TotalCards = drop_bit kCardShift (HeapByteSize + kCardSize - 1);
           NewCards = replicate (unat TotalCards) kCardClean
       in Inr
         (if m_cards t \<noteq> None \<and> m_heapBaseAddr t = HeapBase \<and> m_heapByteSize t = HeapByteSize
          then t\<lparr>m_cards := Some (replicate (unat (m_totalCards t)) kCardClean),
                 m_dirtyCount := 0, m_saturationLatched := False\<rparr>
          else t\<lparr>m_cards := Some NewCards, m_heapBaseAddr := HeapBase,
                 m_heapByteSize := HeapByteSize, m_totalCards := TotalCards,
                 m_dirtyCount := 0, m_saturationLatched := False\<rparr>)))"

definition Card_ResetForTests :: "FXObjectGCCardTable \<Rightarrow> FXObjectGCCardTable" where
  "Card_ResetForTests t = t\<lparr>m_cards := None, m_heapBaseAddr := 0, m_heapByteSize := 0,
     m_totalCards := 0, m_dirtyCount := 0, m_saturationLatched := False\<rparr>"

text \<open>
  The fast path of the barrier: one unsigned subtraction tests both ends of the heap range,
  since an address below the base wraps to an offset above the size.
\<close>

definition MarkCardDirty :: "u64 \<Rightarrow> FXObjectGCCardTable \<Rightarrow> xerror + FXObjectGCCardTable" where
  "MarkCardDirty Addr t =
     (let Offset = Addr - m_heapBaseAddr t in
      if Offset \<ge> m_heapByteSize t then Inr t
      else
        let CardIndex = unat (drop_bit kCardShift Offset) in
        case m_cards t of
          None \<Rightarrow> Inl OutOfRange
        | Some Cards \<Rightarrow>
            in_range (CardIndex < length Cards)
              (if Cards ! CardIndex = kCardDirty then Inr t
               else Inr (t\<lparr>m_cards := Some (Cards[CardIndex := kCardDirty]),
                           m_dirtyCount := m_dirtyCount t + 1\<rparr>)))"

definition IsSaturated :: "FXObjectGCCardTable \<Rightarrow> bool" where
  "IsSaturated t =
     (let Dirty = m_dirtyCount t; Total = m_totalCards t in
      if Total = 0 then False
      else Dirty * 100 \<ge> Total * kSaturationThresholdPercent)"

text \<open>The result is whether the telemetry event was emitted.\<close>

definition CheckAndEmitSaturationTransition :: "FXObjectGCCardTable \<Rightarrow> bool \<times> FXObjectGCCardTable" where
  "CheckAndEmitSaturationTransition t =
     (if \<not> IsSaturated t then (False, t)
      else if m_saturationLatched t then (False, t)
      else (True, t\<lparr>m_saturationLatched := True\<rparr>))"

definition dirty_one :: "nat \<Rightarrow> u8 list \<times> u64 \<Rightarrow> u8 list \<times> u64" where
  "dirty_one I = (\<lambda>(Cards, NewlyDirtied).
     if Cards ! I = kCardClean then (Cards[I := kCardDirty], NewlyDirtied + 1)
     else (Cards, NewlyDirtied))"

definition MarkCardRangeDirty ::
  "u64 \<Rightarrow> u64 \<Rightarrow> FXObjectGCCardTable \<Rightarrow> xerror + (bool \<times> FXObjectGCCardTable)" where
  "MarkCardRangeDirty StartAddr ByteLength t =
     (if ByteLength = 0 then Inr (False, t)
      else
        let EndAddr = StartAddr + ByteLength;
            Base = m_heapBaseAddr t; HeapSize = m_heapByteSize t; Total = m_totalCards t in
        case m_cards t of
          None \<Rightarrow> Inr (False, t)
        | Some Cards \<Rightarrow>
          if Total = 0 then Inr (False, t)
          else if EndAddr \<le> Base then Inr (False, t)
          else
            let ClampedStart = (if StartAddr < Base then Base else StartAddr);
                HeapEnd = Base + HeapSize in
            if ClampedStart \<ge> HeapEnd then Inr (False, t)
            else
              let ClampedEnd = (if EndAddr > HeapEnd then HeapEnd else EndAddr);
                  FirstCard = drop_bit kCardShift (ClampedStart - Base);
                  LastCard = drop_bit kCardShift (ClampedEnd - 1 - Base);
                  HighCard = (if LastCard < Total then LastCard else Total - 1) in
              in_range (HighCard < FirstCard \<or> unat HighCard < length Cards)
                (let (Cards', NewlyDirtied) =
                       fold dirty_one [unat FirstCard ..< Suc (unat HighCard)] (Cards, 0) in
                 if NewlyDirtied \<noteq> 0 then
                   Inr (CheckAndEmitSaturationTransition
                     (t\<lparr>m_cards := Some Cards', m_dirtyCount := m_dirtyCount t + NewlyDirtied\<rparr>))
                 else Inr (False, t\<lparr>m_cards := Some Cards'\<rparr>)))"

text \<open>
  The drain: the visitor runs under the write lock, in ascending order of the cards, and each
  visited card is cleaned after its visit.
\<close>

definition clear_one :: "(nat \<Rightarrow> 's \<Rightarrow> 's) \<Rightarrow> nat \<Rightarrow> u8 list \<times> u64 \<times> 's \<Rightarrow> u8 list \<times> u64 \<times> 's" where
  "clear_one V I = (\<lambda>(Cards, Cleared, s).
     if Cards ! I \<noteq> kCardClean then (Cards[I := kCardClean], Cleared + 1, V I s)
     else (Cards, Cleared, s))"

definition ForEachDirtyCardAndClear ::
  "(nat \<Rightarrow> 's \<Rightarrow> 's) \<Rightarrow> FXObjectGCCardTable \<Rightarrow> 's \<Rightarrow> u64 \<times> FXObjectGCCardTable \<times> 's" where
  "ForEachDirtyCardAndClear V t s =
     (case m_cards t of
        None \<Rightarrow> (0, t\<lparr>m_saturationLatched := False\<rparr>, s)
      | Some Cards \<Rightarrow>
          let (Cards', Cleared, s') = fold (clear_one V) [0 ..< unat (m_totalCards t)] (Cards, 0, s) in
          (Cleared, t\<lparr>m_cards := Some Cards', m_dirtyCount := m_dirtyCount t - Cleared,
                      m_saturationLatched := False\<rparr>, s'))"

section \<open>The invariant\<close>

definition dirty_cards :: "FXObjectGCCardTable \<Rightarrow> nat set" where
  "dirty_cards t = (case m_cards t of None \<Rightarrow> {} | Some cs \<Rightarrow> {i. i < length cs \<and> cs ! i \<noteq> kCardClean})"

definition card_inv :: "FXObjectGCCardTable \<Rightarrow> bool" where
  "card_inv t \<longleftrightarrow>
     (case m_cards t of
        None \<Rightarrow> m_heapByteSize t = 0 \<and> m_totalCards t = 0 \<and> m_dirtyCount t = 0
      | Some cs \<Rightarrow>
          unat (m_heapByteSize t) + 512 \<le> 2 ^ 64
          \<and> unat (m_heapBaseAddr t) + unat (m_heapByteSize t) < 2 ^ 64
          \<and> unat (m_totalCards t) = (unat (m_heapByteSize t) + 511) div 512
          \<and> length cs = unat (m_totalCards t)
          \<and> set cs \<subseteq> {kCardClean, kCardDirty}
          \<and> unat (m_dirtyCount t) = length (filter (\<lambda>c. c \<noteq> kCardClean) cs))"

lemma finite_dirty_cards [simp]: "finite (dirty_cards t)"
  by (auto simp: dirty_cards_def split: option.splits)

lemma card_inv_count:
  "card_inv t \<Longrightarrow> unat (m_dirtyCount t) = card (dirty_cards t)"
  by (auto simp: card_inv_def dirty_cards_def length_filter_conv_card split: option.splits)

lemma ctor_card_inv: "card_inv FXObjectGCCardTable_ctor"
  by (simp add: card_inv_def FXObjectGCCardTable_ctor_def)

lemma TotalCards_unat:
  assumes "unat (sz :: u64) + 512 \<le> 2 ^ 64" "sz > 0"
  shows "unat (drop_bit kCardShift (sz + kCardSize - 1)) = (unat sz + 511) div 512"
proof -
  have "sz + kCardSize - 1 = sz + 511" by (simp add: kCardSize_def)
  moreover have "unat (sz + 511) = unat sz + 511"
    using assms(1) by (subst unat_add_lem [THEN iffD1]) simp_all
  ultimately have "unat (drop_bit kCardShift (sz + kCardSize - 1)) = drop_bit 9 (unat sz + 511)"
    by (simp only: unat_drop_bit_eq kCardShift_def)
  then show ?thesis by (simp add: drop_bit_eq_div)
qed

abbreviation n_dirty :: "u8 list \<Rightarrow> nat" where
  "n_dirty cs \<equiv> length (filter (\<lambda>c. c \<noteq> kCardClean) cs)"

lemma dirty_ne_clean [simp]: "kCardDirty \<noteq> kCardClean"
  by (simp add: kCardDirty_def kCardClean_def)

lemma n_dirty_split:
  "i < length cs \<Longrightarrow> n_dirty (cs[i := c]) + (if cs ! i \<noteq> kCardClean then 1 else 0)
     = n_dirty cs + (if c \<noteq> kCardClean then 1 else 0)"
proof -
  assume i: "i < length cs"
  have "cs = take i cs @ cs ! i # drop (Suc i) cs" using i by (simp add: id_take_nth_drop)
  then have "n_dirty cs = n_dirty (take i cs @ cs ! i # drop (Suc i) cs)" by simp
  moreover have "cs[i := c] = take i cs @ c # drop (Suc i) cs" using i by (simp add: upd_conv_take_nth_drop)
  ultimately show ?thesis by (simp del: append_take_drop_id)
qed

lemma n_dirty_le: "n_dirty cs \<le> length cs"
  by simp

definition dirty_of :: "u8 list \<Rightarrow> nat set" where
  "dirty_of cs = {i. i < length cs \<and> cs ! i \<noteq> kCardClean}"

lemma dirty_of_update:
  "i < length cs \<Longrightarrow> dirty_of (cs[i := c]) = (if c = kCardClean then dirty_of cs - {i} else insert i (dirty_of cs))"
  by (auto simp: dirty_of_def nth_list_update split: if_splits)

lemma dirty_cards_Some: "m_cards t = Some cs \<Longrightarrow> dirty_cards t = dirty_of cs"
  by (simp add: dirty_cards_def dirty_of_def)

lemma dirty_one_simp:
  "dirty_one i (cs, n) = (if cs ! i = kCardClean then (cs[i := kCardDirty], n + 1) else (cs, n))"
  by (simp add: dirty_one_def)

lemma fold_dirty_one:
  assumes "\<And>i. i \<in> set is \<Longrightarrow> i < length cs" "fold dirty_one is (cs, n) = (cs', n')"
    "set cs \<subseteq> {kCardClean, kCardDirty}"
  shows "length cs' = length cs \<and> dirty_of cs' = dirty_of cs \<union> set is
     \<and> set cs' \<subseteq> {kCardClean, kCardDirty}
     \<and> (\<exists>k. n' = n + word_of_nat k \<and> n_dirty cs' = n_dirty cs + k)"
  using assms
proof (induction "is" arbitrary: cs n)
  case (Cons i "is")
  have i: "i < length cs" using Cons.prems by simp
  show ?case
  proof (cases "cs ! i = kCardClean")
    case True
    let ?cs = "cs[i := kCardDirty]"
    have s: "set ?cs \<subseteq> {kCardClean, kCardDirty}"
      using Cons.prems(3) set_update_subset_insert [of cs i kCardDirty] by auto
    have "fold dirty_one is (?cs, n + 1) = (cs', n')"
      using Cons.prems(2) True by (simp add: dirty_one_simp)
    from Cons.IH [OF _ this s] Cons.prems(1) obtain k where
      r: "length cs' = length cs" "dirty_of cs' = dirty_of ?cs \<union> set is"
         "set cs' \<subseteq> {kCardClean, kCardDirty}" "n' = n + 1 + word_of_nat k" "n_dirty cs' = n_dirty ?cs + k"
      by auto
    have "n_dirty ?cs = n_dirty cs + 1" using n_dirty_split [OF i, of kCardDirty] True by simp
    with r have "n' = n + word_of_nat (Suc k) \<and> n_dirty cs' = n_dirty cs + Suc k" by simp
    with r i show ?thesis by (auto simp: dirty_of_update)
  next
    case False
    then have "i \<in> dirty_of cs" using i by (simp add: dirty_of_def)
    moreover have "fold dirty_one is (cs, n) = (cs', n')"
      using Cons.prems(2) False by (simp add: dirty_one_simp)
    ultimately show ?thesis using Cons.IH [of cs n] Cons.prems(1,3) by auto
  qed
qed (auto intro: exI [of _ 0])

lemma fold_clear_one:
  assumes "\<And>i. i \<in> set is \<Longrightarrow> i < length cs" "distinct is"
    "fold (clear_one V) is (cs, n, s) = (cs', n', s')" "set cs \<subseteq> {kCardClean, kCardDirty}"
  shows "length cs' = length cs \<and> dirty_of cs' = dirty_of cs - set is
     \<and> set cs' \<subseteq> {kCardClean, kCardDirty}
     \<and> s' = fold V (filter (\<lambda>i. cs ! i \<noteq> kCardClean) is) s
     \<and> n' = n + word_of_nat (length (filter (\<lambda>i. cs ! i \<noteq> kCardClean) is))"
  using assms
proof (induction "is" arbitrary: cs n s)
  case (Cons i "is")
  show ?case
  proof (cases "cs ! i = kCardClean")
    case True
    with Cons.IH [of cs n s] Cons.prems show ?thesis
      by (auto simp: clear_one_def dirty_of_def)
  next
    case False
    let ?cs = "cs[i := kCardClean]"
    have s: "set ?cs \<subseteq> {kCardClean, kCardDirty}"
      using Cons.prems(4) set_update_subset_insert [of cs i kCardClean] by auto
    have f: "filter (\<lambda>j. ?cs ! j \<noteq> kCardClean) is = filter (\<lambda>j. cs ! j \<noteq> kCardClean) is"
      using Cons.prems(2) by (intro filter_cong refl) (metis distinct.simps(2) nth_list_update_neq)
    from Cons.IH [of ?cs "n + 1" "V i s"] Cons.prems s False f show ?thesis
      by (auto simp: clear_one_def dirty_of_update)
  qed
qed auto

section \<open>What the operations do to the remembered set\<close>

lemma card_invD:
  assumes "card_inv t" "m_cards t = Some cs"
  shows "unat (m_heapByteSize t) + 512 \<le> 2 ^ 64"
    "unat (m_heapBaseAddr t) + unat (m_heapByteSize t) < 2 ^ 64"
    "unat (m_totalCards t) = (unat (m_heapByteSize t) + 511) div 512"
    "length cs = unat (m_totalCards t)" "set cs \<subseteq> {kCardClean, kCardDirty}"
    "unat (m_dirtyCount t) = n_dirty cs"
  using assms by (simp_all add: card_inv_def)

lemma card_lt_total:
  assumes "card_inv t" "m_cards t = Some cs" "x < unat (m_heapByteSize t)"
  shows "x div 512 < length cs"
  using card_invD [OF assms(1,2)] assms(3) by (simp add: less_eq_div_iff_mult_less_eq Suc_le_eq [symmetric] div_le_mono)

lemma unat_count_add:
  assumes "unat (d :: u64) = n" "n + k \<le> M" "M < 2 ^ 64"
  shows "unat (d + word_of_nat k) = n + k"
  using assms by (simp add: unat_word_ariths unat_of_nat take_bit_eq_mod)

lemma total_lt: "card_inv t \<Longrightarrow> m_cards t = Some cs \<Longrightarrow> length cs < 2 ^ 64"
  using unat_less_2p64 [of "m_totalCards t"] card_invD(4) [of t cs] by simp

lemma Card_Initialize_inv:
  assumes "card_inv t" "HeapBase \<noteq> 0" "HeapByteSize > 0"
    "unat HeapByteSize + 512 \<le> 2 ^ 64" "unat HeapBase + unat HeapByteSize < 2 ^ 64"
  obtains t' where "Card_Initialize b HeapBase HeapByteSize t = Inr t'" "card_inv t'"
    "dirty_cards t' = {}" "m_heapBaseAddr t' = HeapBase" "m_heapByteSize t' = HeapByteSize"
    "\<not> m_saturationLatched t'"
proof -
  from assms have "\<exists>t'. Card_Initialize b HeapBase HeapByteSize t = Inr t' \<and> card_inv t'
    \<and> dirty_cards t' = {} \<and> m_heapBaseAddr t' = HeapBase \<and> m_heapByteSize t' = HeapByteSize
    \<and> \<not> m_saturationLatched t'"
    by (auto simp: Card_Initialize_def Let_def xcheck_def card_inv_def dirty_cards_def
        TotalCards_unat split: option.splits)
  then show ?thesis using that by blast
qed

text \<open>The card of an address inside the heap.\<close>

definition card_index :: "FXObjectGCCardTable \<Rightarrow> u64 \<Rightarrow> nat" where
  "card_index t a = unat (a - m_heapBaseAddr t) div 512"

definition in_heap :: "FXObjectGCCardTable \<Rightarrow> u64 \<Rightarrow> bool" where
  "in_heap t a \<longleftrightarrow> unat (m_heapBaseAddr t) \<le> unat a \<and> unat a < unat (m_heapBaseAddr t) + unat (m_heapByteSize t)"

lemma in_heap_offset:
  assumes "card_inv t"
  shows "in_heap t a \<longleftrightarrow> a - m_heapBaseAddr t < m_heapByteSize t"
proof (cases "m_cards t")
  case None
  with assms show ?thesis by (simp add: card_inv_def in_heap_def)
next
  case (Some cs)
  note b = card_invD(1,2) [OF assms Some]
  show ?thesis
  proof (cases "m_heapBaseAddr t \<le> a")
    case True
    then show ?thesis by (auto simp: in_heap_def word_less_nat_alt unat_sub_if_size word_le_nat_alt)
  next
    case False
    then have "unat (a - m_heapBaseAddr t) = 2 ^ 64 + unat a - unat (m_heapBaseAddr t)"
      by (simp add: unat_sub_if_size word_le_nat_alt wsst_TYs)
    with b False show ?thesis
      by (auto simp: in_heap_def word_less_nat_alt word_le_nat_alt)
  qed
qed

lemma card_shift_nat: "unat (drop_bit kCardShift (x :: u64)) = unat x div 512"
  by (simp add: unat_drop_bit_eq kCardShift_def) (simp add: drop_bit_eq_div)

lemma MarkCardDirty_spec:
  assumes "card_inv t"
  obtains t' where "MarkCardDirty a t = Inr t'" "card_inv t'"
    "dirty_cards t' = (if in_heap t a then insert (card_index t a) (dirty_cards t) else dirty_cards t)"
proof (cases "in_heap t a")
  case False
  with assms have "MarkCardDirty a t = Inr t"
    by (simp add: MarkCardDirty_def in_heap_offset not_less)
  with that assms False show ?thesis by simp
next
  case True
  with assms obtain cs where cs: "m_cards t = Some cs"
    by (cases "m_cards t") (auto simp: in_heap_offset card_inv_def)
  note inv = card_invD [OF assms cs]
  let ?o = "a - m_heapBaseAddr t"
  let ?i = "unat ?o div 512"
  have lt: "?i < length cs"
    using True assms by (intro card_lt_total [OF assms cs]) (simp add: in_heap_offset word_less_nat_alt)
  have off: "\<not> ?o \<ge> m_heapByteSize t" using True assms by (simp add: in_heap_offset)
  show ?thesis
  proof (cases "cs ! ?i = kCardDirty")
    case d: True
    then have "MarkCardDirty a t = Inr t"
      using off lt cs by (simp add: MarkCardDirty_def Let_def card_shift_nat)
    moreover have "card_index t a \<in> dirty_cards t"
      using lt d cs by (simp add: card_index_def dirty_cards_Some dirty_of_def)
    ultimately show ?thesis using that assms True by (metis insert_absorb)
  next
    case False
    let ?t = "t\<lparr>m_cards := Some (cs[?i := kCardDirty]), m_dirtyCount := m_dirtyCount t + 1\<rparr>"
    have clean: "cs ! ?i = kCardClean" using inv(5) lt False by (auto dest!: nth_mem)
    have n: "n_dirty (cs[?i := kCardDirty]) = n_dirty cs + 1"
      using n_dirty_split [OF lt, of kCardDirty] clean by simp
    moreover have "n_dirty (cs[?i := kCardDirty]) \<le> length cs"
      using n_dirty_le [of "cs[?i := kCardDirty]"] by simp
    ultimately have "unat (m_dirtyCount t + 1) = n_dirty cs + 1"
      using unat_count_add [OF inv(6), of 1 "length cs"] total_lt [OF assms cs] by simp
    then have "card_inv ?t"
      using inv n set_update_subset_insert [of cs ?i kCardDirty] by (auto simp: card_inv_def)
    moreover have "MarkCardDirty a t = Inr ?t"
      using off lt cs False by (simp add: MarkCardDirty_def Let_def card_shift_nat)
    moreover have "dirty_cards ?t = insert (card_index t a) (dirty_cards t)"
      using lt cs by (simp add: dirty_cards_Some dirty_of_update card_index_def)
    ultimately show ?thesis using that True by metis
  qed
qed

lemma div_interval:
  assumes "p < (q :: nat)" "0 < d"
  shows "(\<lambda>x. x div d) ` {p ..< q} = {p div d .. (q - 1) div d}"
proof (intro equalityI subsetI)
  fix c assume "c \<in> {p div d .. (q - 1) div d}"
  then have c: "p div d \<le> c" "c \<le> (q - 1) div d" by auto
  let ?x = "max p (c * d)"
  have "c * d \<le> q - 1" using c(2) assms by (metis div_times_less_eq_dividend le_trans mult_le_mono1)
  then have "?x \<in> {p ..< q}" using assms by auto
  moreover have "?x div d = c"
  proof (cases "p \<le> c * d")
    case True then show ?thesis using assms by (simp add: max_def)
  next
    case False
    then have "c \<le> p div d" using assms(2) by (simp add: less_eq_div_iff_mult_less_eq)
    with c(1) False show ?thesis by (simp add: max_def)
  qed
  ultimately show "c \<in> (\<lambda>x. x div d) ` {p ..< q}" by (metis image_eqI)
next
  fix c assume "c \<in> (\<lambda>x. x div d) ` {p ..< q}"
  then obtain x where "c = x div d" "p \<le> x" "x \<le> q - 1" by auto
  then show "c \<in> {p div d .. (q - 1) div d}" by (simp add: div_le_mono)
qed

definition range_cards :: "FXObjectGCCardTable \<Rightarrow> u64 \<Rightarrow> u64 \<Rightarrow> nat set" where
  "range_cards t a n =
     card_index t ` {x. in_heap t x \<and> unat a \<le> unat x \<and> unat x < unat a + unat n}"

lemma range_cards_interval:
  fixes t a n
  defines "B \<equiv> unat (m_heapBaseAddr t)" and "S \<equiv> unat (m_heapByteSize t)"
  defines "lo \<equiv> max B (unat a)" and "hi \<equiv> min (B + S) (unat a + unat n)"
  assumes "B + S < 2 ^ 64"
  shows "range_cards t a n = (\<lambda>x. x div 512) ` {lo - B ..< hi - B}"
proof -
  have "{x. in_heap t x \<and> unat a \<le> unat x \<and> unat x < unat a + unat n}
      = word_of_nat ` {lo ..< hi}" (is "?L = ?R")
  proof (intro equalityI subsetI)
    fix x assume "x \<in> ?L"
    then have "unat x \<in> {lo ..< hi}" by (auto simp: in_heap_def lo_def hi_def B_def S_def)
    then show "x \<in> ?R" by (metis image_eqI of_nat_unat64)
  next
    fix x assume "x \<in> ?R"
    then obtain k where "k \<in> {lo ..< hi}" "x = word_of_nat k" by blast
    moreover from this assms have "unat x = k" by (simp add: unat_of_nat hi_def take_bit_eq_mod)
    ultimately show "x \<in> ?L" by (auto simp: in_heap_def lo_def hi_def B_def S_def)
  qed
  moreover have "card_index t (word_of_nat k) = (k - B) div 512" if "k \<in> {lo ..< hi}" for k
  proof -
    from that assms(5) have k: "unat (word_of_nat k :: u64) = k"
      by (simp add: unat_of_nat hi_def take_bit_eq_mod)
    moreover have "B \<le> k" using that by (simp add: lo_def)
    ultimately have "unat (word_of_nat k - m_heapBaseAddr t) = k - B"
      by (subst unat_sub) (simp_all add: B_def word_le_nat_alt)
    then show ?thesis by (simp add: card_index_def)
  qed
  ultimately have "range_cards t a n = (\<lambda>k. (k - B) div 512) ` {lo ..< hi}"
    by (simp only: range_cards_def image_image) (rule image_cong [OF refl])
  also have "\<dots> = (\<lambda>x. x div 512) ` ((\<lambda>k. k - B) ` {lo ..< hi})" by (simp add: image_image)
  also have "(\<lambda>k. k - B) ` {lo ..< hi} = {lo - B ..< hi - B}"
    by (rule image_minus_const_atLeastLessThan_nat [where c = B and x = lo and y = hi, THEN trans])
      (auto simp: lo_def)
  finally show ?thesis .
qed

lemma MarkCardRangeDirty_spec:
  assumes "card_inv t" "unat a + unat n < 2 ^ 64"
  obtains e t' where "MarkCardRangeDirty a n t = Inr (e, t')" "card_inv t'"
    "dirty_cards t' = dirty_cards t \<union> range_cards t a n"
proof (cases "m_cards t")
  case None
  with assms have "MarkCardRangeDirty a n t = Inr (False, t)" by (simp add: MarkCardRangeDirty_def Let_def)
  moreover have "range_cards t a n = {}" using None assms by (auto simp: range_cards_def in_heap_def card_inv_def)
  ultimately show ?thesis using that [of False t] assms by simp
next
  case (Some cs)
  note inv = card_invD [OF assms(1) Some]
  let ?B = "unat (m_heapBaseAddr t)" and ?S = "unat (m_heapByteSize t)"
  let ?lo = "max ?B (unat a)" and ?hi = "min (?B + ?S) (unat a + unat n)"
  note rc = range_cards_interval [OF inv(2), of a n]
  have ea: "unat (a + n) = unat a + unat n" using assms(2) by (simp add: unat_word_ariths)
  have he: "unat (m_heapBaseAddr t + m_heapByteSize t) = ?B + ?S"
    using inv(2) by (simp add: unat_word_ariths)
  show ?thesis
  proof (cases "?lo < ?hi")
    case False
    then have "range_cards t a n = {}" 
      by (simp only: rc image_is_empty atLeastLessThan_empty_iff not_less diff_le_mono)
    moreover have "MarkCardRangeDirty a n t = Inr (False, t)"
    proof (cases "n = 0 \<or> m_totalCards t = 0 \<or> a + n \<le> m_heapBaseAddr t")
      case True
      then show ?thesis using Some by (auto simp: MarkCardRangeDirty_def Let_def)
    next
      case F: False
      then have "0 < unat n" "?B < unat a + unat n"
        using ea by (auto simp: word_le_nat_alt unat_gt_0)
      with False have "(if a < m_heapBaseAddr t then m_heapBaseAddr t else a)
          \<ge> m_heapBaseAddr t + m_heapByteSize t"
        by (auto simp: word_le_nat_alt word_less_nat_alt he)
      with Some F show ?thesis by (simp add: MarkCardRangeDirty_def Let_def)
    qed
    ultimately show ?thesis using that [of False t] assms by simp
  next
    case lt: True
    let ?cs = "if a < m_heapBaseAddr t then m_heapBaseAddr t else a"
    let ?ce = "if a + n > m_heapBaseAddr t + m_heapByteSize t
               then m_heapBaseAddr t + m_heapByteSize t else a + n"
    have ucs: "unat ?cs = ?lo" by (auto simp: word_less_nat_alt max_def)
    have uce: "unat ?ce = ?hi" by (auto simp: word_less_nat_alt min_def ea he)
    have first: "unat (drop_bit kCardShift (?cs - m_heapBaseAddr t)) = (?lo - ?B) div 512"
      using ucs by (simp only: card_shift_nat) (subst unat_sub, auto simp: word_le_nat_alt)
    have ce1: "unat (?ce - 1) = ?hi - 1" 
      using lt uce by (subst unat_sub) (auto simp: word_le_nat_alt)
    have last: "unat (drop_bit kCardShift (?ce - 1 - m_heapBaseAddr t)) = (?hi - 1 - ?B) div 512"
      using ce1 lt by (simp only: card_shift_nat) (subst unat_sub, auto simp: word_le_nat_alt)
    have lastlt: "(?hi - 1 - ?B) div 512 < length cs"
      using lt by (intro card_lt_total [OF assms(1) Some]) auto
    let ?is = "[(?lo - ?B) div 512 ..< Suc ((?hi - 1 - ?B) div 512)]"
    obtain cs' k where f: "fold dirty_one ?is (cs, 0) = (cs', k)" by fastforce
    from fold_dirty_one [OF _ f inv(5)] lastlt obtain m where r: "length cs' = length cs"
      "dirty_of cs' = dirty_of cs \<union> set ?is" "set cs' \<subseteq> {kCardClean, kCardDirty}"
      "k = word_of_nat m" "n_dirty cs' = n_dirty cs + m"
      by fastforce
    have "?lo - ?B < ?hi - ?B" using lt by (intro diff_less_mono) auto
    then have set: "set ?is = range_cards t a n"
      using div_interval [of "?lo - ?B" "?hi - ?B" 512]
      by (simp only: rc set_upt atLeastLessThanSuc_atLeastAtMost diff_commute [of ?hi 1 ?B]
          zero_less_numeral)
    have "unat (m_dirtyCount t + k) = n_dirty cs'"
      using unat_count_add [OF inv(6), of m "length cs"] total_lt [OF assms(1) Some] r
        n_dirty_le [of cs'] by simp
    then have i1: "card_inv (t\<lparr>m_cards := Some cs', m_dirtyCount := m_dirtyCount t + k\<rparr>)"
      using inv r by (simp add: card_inv_def)
    let ?t = "t\<lparr>m_cards := Some cs', m_dirtyCount := m_dirtyCount t + k\<rparr>"
    have guards: "n \<noteq> 0" "m_totalCards t \<noteq> 0" "\<not> a + n \<le> m_heapBaseAddr t"
      "\<not> ?cs \<ge> m_heapBaseAddr t + m_heapByteSize t"
      using lt lastlt inv(4) ucs by (auto simp: word_le_nat_alt ea he)
    have high: "drop_bit kCardShift (?ce - 1 - m_heapBaseAddr t) < m_totalCards t"
      using lastlt inv(4) last by (simp add: word_less_nat_alt)
    have run: "MarkCardRangeDirty a n t =
        (if k \<noteq> 0 then Inr (CheckAndEmitSaturationTransition ?t)
         else Inr (False, t\<lparr>m_cards := Some cs'\<rparr>))"
      using guards high lastlt
      by (simp only: MarkCardRangeDirty_def Let_def Some option.case if_False if_True
          first last f prod.case in_range_def simp_thms)
    have "?t = t\<lparr>m_cards := Some cs'\<rparr>" if "k = 0" using that by simp
    moreover have "card_inv (snd (CheckAndEmitSaturationTransition ?t))
      \<and> dirty_cards (snd (CheckAndEmitSaturationTransition ?t)) = dirty_cards ?t"
      using i1 by (simp add: CheckAndEmitSaturationTransition_def card_inv_def dirty_cards_def)
    moreover have "dirty_cards ?t = dirty_cards t \<union> range_cards t a n"
      using r(2) set Some by (simp add: dirty_cards_Some)
    ultimately show ?thesis
      using that run i1 by (cases "k = 0"; cases "CheckAndEmitSaturationTransition ?t") auto
  qed
qed

lemma ForEachDirtyCardAndClear_spec:
  fixes V :: "nat \<Rightarrow> 's \<Rightarrow> 's" and s :: 's and t :: FXObjectGCCardTable
  assumes "card_inv t"
  defines "r \<equiv> ForEachDirtyCardAndClear V t s"
  shows "card_inv (fst (snd r))" "dirty_cards (fst (snd r)) = {}"
    "snd (snd r) = fold V (sorted_list_of_set (dirty_cards t)) s"
    "unat (fst r) = card (dirty_cards t)" "m_dirtyCount (fst (snd r)) = 0"
    "\<not> m_saturationLatched (fst (snd r))"
proof -
  have "card_inv (fst (snd r)) \<and> dirty_cards (fst (snd r)) = {}
    \<and> snd (snd r) = fold V (sorted_list_of_set (dirty_cards t)) s
    \<and> unat (fst r) = card (dirty_cards t) \<and> m_dirtyCount (fst (snd r)) = 0
    \<and> \<not> m_saturationLatched (fst (snd r))"
  proof (cases "m_cards t")
    case None
    with assms(1) show ?thesis
      by (simp add: r_def ForEachDirtyCardAndClear_def dirty_cards_def card_inv_def)
  next
    case (Some cs)
    note inv = card_invD [OF assms(1) Some]
    let ?is = "[0 ..< unat (m_totalCards t)]"
    obtain cs' k s' where f: "fold (clear_one V) ?is (cs, 0, s) = (cs', k, s')" by (metis prod_cases3)
    let ?d = "filter (\<lambda>i. cs ! i \<noteq> kCardClean) ?is"
    from fold_clear_one [OF _ _ f inv(5)] inv(4)
    have q: "length cs' = length cs" "dirty_of cs' = dirty_of cs - set ?is"
      "set cs' \<subseteq> {kCardClean, kCardDirty}" "s' = fold V ?d s" "k = word_of_nat (length ?d)"
      by auto
    have set: "set ?d = dirty_cards t" using Some inv(4) by (auto simp: dirty_cards_Some dirty_of_def)
    have "sorted ?d" "distinct ?d" by (simp_all add: sorted_wrt_filter)
    then have srt: "?d = sorted_list_of_set (dirty_cards t)"
      using sorted_list_of_set.idem_if_sorted_distinct [of ?d] set by simp
    have len: "length ?d = card (dirty_cards t)" using set by (metis distinct_card distinct_filter distinct_upt)
    have "length ?d \<le> length cs" using inv(4) length_filter_le [of _ ?is] by (metis diff_zero length_upt)
    with total_lt [OF assms(1) Some] have k: "unat k = card (dirty_cards t)"
      using q(5) len by (simp add: unat_of_nat take_bit_eq_mod)
    have "unat (m_dirtyCount t) = unat k" using k card_inv_count [OF assms(1)] by simp
    then have d0: "m_dirtyCount t - k = 0" by (simp only: unat64_inject diff_self)
    have "dirty_of cs \<subseteq> set ?is" using inv(4) by (auto simp: dirty_of_def)
    with q(2) have none: "dirty_of cs' = {}" by blast
    then have "\<forall>c \<in> set cs'. c = kCardClean"
      unfolding dirty_of_def by (metis (mono_tags, lifting) empty_Collect_eq in_set_conv_nth)
    then have "n_dirty cs' = 0" by simp
    have r: "r = (k, t\<lparr>m_cards := Some cs', m_dirtyCount := 0, m_saturationLatched := False\<rparr>, s')"
      by (simp only: r_def ForEachDirtyCardAndClear_def Some option.case f Let_def prod.case d0)
    have "card_inv (fst (snd r))"
      using inv(1-4) q(1,3) \<open>n_dirty cs' = 0\<close> by (simp add: r card_inv_def)
    moreover have "dirty_cards (fst (snd r)) = {}" using none by (simp add: r dirty_cards_Some)
    moreover have "snd (snd r) = fold V (sorted_list_of_set (dirty_cards t)) s"
      using q(4) by (simp only: r snd_conv srt)
    ultimately show ?thesis using k by (simp add: r)
  qed
  then show "card_inv (fst (snd r))" "dirty_cards (fst (snd r)) = {}"
    "snd (snd r) = fold V (sorted_list_of_set (dirty_cards t)) s"
    "unat (fst r) = card (dirty_cards t)" "m_dirtyCount (fst (snd r)) = 0"
    "\<not> m_saturationLatched (fst (snd r))" by blast+
qed

text \<open>Between two drains the saturation event is emitted at most once.\<close>

lemma saturation_latch:
  "CheckAndEmitSaturationTransition t = (True, t') \<Longrightarrow>
     m_saturationLatched t' \<and> fst (CheckAndEmitSaturationTransition t') = False"
  by (auto simp: CheckAndEmitSaturationTransition_def split: if_splits)

end
