(* ===== verification/SchemaWalker.thy ===== *)
theory SchemaWalker
  imports XObjectModel
begin

text \<open>
  The reference schemas (\<open>Public/Reflection/FXObjectRefSchema.h\<close>) and the walker that
  enumerates the object references of an instance (\<open>Public/XObject/FXObjectSchemaWalker.h\<close>).
  A schema is a vector of opcodes; the nested-schema pointers of the code are the subterms
  of the datatype, so a schema here is a finite nesting.  The walker reads array headers from
  the byte memory, computes the address of every slot and hands the eight bytes found there
  to the visitor; it never writes, so a walk is the list of the slot addresses in visiting
  order and a visit of the loaded values is a fold over that list.
\<close>

section \<open>Schemas\<close>

datatype EXObjectRefSchemaOp =
    Op_Terminator | Op_Object | Op_WeakObject | Op_SoftObject | Op_ArrayOfObject
  | Op_ArrayOfStruct | Op_StridedArrayOfObject | Op_MapOfObject_KeyValue | Op_SetOfObject
  | Op_Struct | Op_FieldPath | Op_FieldPathArray | Op_OptionalObject | Op_DynamicallyTypedValue
  | Op_ARO | Op_SlowARO | Op_MemberARO | Op_Interface | Op_ClassProperty | Op_SoftClass
  | Op_Delegate | Op_MulticastInlineDelegate | Op_MulticastSparseDelegate | Op_Reserved255

datatype FXObjectRefSchemaOp =
    SchemaOp (Op: EXObjectRefSchemaOp) (ArrayDim: nat) (Offset: int) (StrideBytes: int)
             (NestedSchema: "FXObjectRefSchema option")
and FXObjectRefSchema =
    Schema (NumOps: u32) (Version: u32) (Ops: "FXObjectRefSchemaOp list option")

definition kFXObjectRefSchemaCurrentVersion :: u32 where
  "kFXObjectRefSchemaCurrentVersion = 1"

section \<open>The slots of an instance\<close>

text \<open>The prefix of a \<open>TArrayCore\<close>: data pointer at 0, element count at 8.\<close>

definition view_DataPtr :: "(ptr \<Rightarrow> u8) \<Rightarrow> ptr \<Rightarrow> ptr" where
  "view_DataPtr m Slot = load_ptr m Slot"

definition view_Num :: "(ptr \<Rightarrow> u8) \<Rightarrow> ptr \<Rightarrow> int" where
  "view_Num m Slot = load_int32 m (Slot + 8)"

definition ElementAddr :: "ptr \<Rightarrow> int \<Rightarrow> nat \<Rightarrow> ptr" where
  "ElementAddr DataPtr Stride I = DataPtr + word_of_int (int I * Stride)"

definition VisitObjectSlot :: "ptr \<Rightarrow> int \<Rightarrow> ptr list" where
  "VisitObjectSlot InstanceBytes Off = [InstanceBytes + word_of_int Off]"

definition VisitObjectArraySlot :: "(ptr \<Rightarrow> u8) \<Rightarrow> ptr \<Rightarrow> int \<Rightarrow> ptr list" where
  "VisitObjectArraySlot m InstanceBytes Off =
     (let Slot = InstanceBytes + word_of_int Off;
          DataPtr = view_DataPtr m Slot; Count = view_Num m Slot in
      if Count \<le> 0 \<or> DataPtr = nullptr then []
      else map (ElementAddr DataPtr 8) [0 ..< nat Count])"

definition VisitStridedObjectArraySlot :: "(ptr \<Rightarrow> u8) \<Rightarrow> ptr \<Rightarrow> int \<Rightarrow> int \<Rightarrow> ptr list" where
  "VisitStridedObjectArraySlot m InstanceBytes Off Stride =
     (let Slot = InstanceBytes + word_of_int Off;
          DataPtr = view_DataPtr m Slot; Count = view_Num m Slot in
      if Count \<le> 0 \<or> DataPtr = nullptr \<or> Stride \<le> 0 then []
      else map (ElementAddr DataPtr Stride) [0 ..< nat Count])"

text \<open>The elements of an array of structs, each walked with the nested schema.\<close>

definition StructArrayElements :: "(ptr \<Rightarrow> u8) \<Rightarrow> ptr \<Rightarrow> int \<Rightarrow> int \<Rightarrow> ptr list" where
  "StructArrayElements m InstanceBytes Off Stride =
     (if Stride \<le> 0 then []
      else let Slot = InstanceBytes + word_of_int Off;
               DataPtr = view_DataPtr m Slot; Count = view_Num m Slot in
        if Count \<le> 0 \<or> DataPtr = nullptr then []
        else map (ElementAddr DataPtr Stride) [0 ..< nat Count])"

fun WalkSchemaRefsImpl :: "(ptr \<Rightarrow> u8) \<Rightarrow> FXObjectRefSchema \<Rightarrow> ptr \<Rightarrow> ptr list"
  and WalkOps :: "(ptr \<Rightarrow> u8) \<Rightarrow> nat \<Rightarrow> FXObjectRefSchemaOp list \<Rightarrow> ptr \<Rightarrow> ptr list"
  and WalkOp :: "(ptr \<Rightarrow> u8) \<Rightarrow> FXObjectRefSchemaOp \<Rightarrow> ptr \<Rightarrow> ptr list" where
  "WalkSchemaRefsImpl m (Schema n v os) InstanceBytes =
     (if v \<noteq> kFXObjectRefSchemaCurrentVersion then []
      else case os of
        None \<Rightarrow> []
      | Some os' \<Rightarrow> WalkOps m (unat n) os' InstanceBytes)"
| "WalkOps m k [] InstanceBytes = []"
| "WalkOps m k (p # ps) InstanceBytes =
     (if k = 0 then []
      else if Op p = Op_Terminator then []
      else WalkOp m p InstanceBytes @ WalkOps m (k - 1) ps InstanceBytes)"
| "WalkOp m (SchemaOp K dim Off Stride Nested) InstanceBytes =
     (if K \<in> {Op_Object, Op_Interface, Op_ClassProperty} then VisitObjectSlot InstanceBytes Off
      else if K \<in> {Op_WeakObject, Op_SoftObject, Op_SoftClass} then VisitObjectSlot InstanceBytes Off
      else if K \<in> {Op_Delegate, Op_MulticastInlineDelegate, Op_MulticastSparseDelegate}
        then VisitObjectSlot InstanceBytes Off
      else if K = Op_ArrayOfObject then VisitObjectArraySlot m InstanceBytes Off
      else if K = Op_StridedArrayOfObject then VisitStridedObjectArraySlot m InstanceBytes Off Stride
      else if K = Op_ArrayOfStruct then
        (case Nested of
           None \<Rightarrow> []
         | Some N \<Rightarrow> concat (map (WalkSchemaRefsImpl m N) (StructArrayElements m InstanceBytes Off Stride)))
      else if K = Op_Struct then
        (case Nested of
           None \<Rightarrow> []
         | Some N \<Rightarrow> WalkSchemaRefsImpl m N (InstanceBytes + word_of_int Off))
      else if K \<in> {Op_SetOfObject, Op_MapOfObject_KeyValue} then
        (case Nested of
           None \<Rightarrow> VisitStridedObjectArraySlot m InstanceBytes Off Stride
         | Some N \<Rightarrow> concat (map (WalkSchemaRefsImpl m N) (StructArrayElements m InstanceBytes Off Stride)))
      else if K = Op_OptionalObject then VisitObjectSlot InstanceBytes (Off + 8)
      else [])"

text \<open>The walk with a visitor, and its null-schema and null-instance checks.\<close>

definition WalkSchemaRefsWithSchema ::
  "build \<Rightarrow> (ptr \<Rightarrow> 's \<Rightarrow> 's) \<Rightarrow> (ptr \<Rightarrow> u8) \<Rightarrow> FXObjectRefSchema option \<Rightarrow> ptr \<Rightarrow> 's \<Rightarrow> xerror + 's" where
  "WalkSchemaRefsWithSchema b V m Sch Instance s =
     xcheck b (Sch \<noteq> None) (
     xcheck b (Instance \<noteq> nullptr) (
       case Sch of
         None \<Rightarrow> Inl OutOfRange
       | Some S \<Rightarrow> Inr (fold (\<lambda>a. V (load_ptr m a)) (WalkSchemaRefsImpl m S Instance) s)))"

section \<open>The slots, declaratively\<close>

inductive ref_slot :: "(ptr \<Rightarrow> u8) \<Rightarrow> FXObjectRefSchema \<Rightarrow> ptr \<Rightarrow> ptr \<Rightarrow> bool"
  and op_slot :: "(ptr \<Rightarrow> u8) \<Rightarrow> FXObjectRefSchemaOp \<Rightarrow> ptr \<Rightarrow> ptr \<Rightarrow> bool"
  for m :: "ptr \<Rightarrow> u8" where
  in_schema:
    "\<lbrakk> v = kFXObjectRefSchemaCurrentVersion; i < unat n; i < length os;
       \<forall>j \<le> i. Op (os ! j) \<noteq> Op_Terminator; op_slot m (os ! i) I a \<rbrakk>
       \<Longrightarrow> ref_slot m (Schema n v (Some os)) I a"
| direct:
    "K \<in> {Op_Object, Op_Interface, Op_ClassProperty, Op_WeakObject, Op_SoftObject, Op_SoftClass,
          Op_Delegate, Op_MulticastInlineDelegate, Op_MulticastSparseDelegate}
       \<Longrightarrow> op_slot m (SchemaOp K d off st N) I (I + word_of_int off)"
| optional: "op_slot m (SchemaOp Op_OptionalObject d off st N) I (I + word_of_int (off + 8))"
| element:
    "\<lbrakk> int i < view_Num m (I + word_of_int off); view_DataPtr m (I + word_of_int off) \<noteq> nullptr \<rbrakk>
       \<Longrightarrow> op_slot m (SchemaOp Op_ArrayOfObject d off st N) I
             (ElementAddr (view_DataPtr m (I + word_of_int off)) 8 i)"
| strided:
    "\<lbrakk> K = Op_StridedArrayOfObject \<or> K \<in> {Op_SetOfObject, Op_MapOfObject_KeyValue} \<and> N = None;
       int i < view_Num m (I + word_of_int off); view_DataPtr m (I + word_of_int off) \<noteq> nullptr; 0 < st \<rbrakk>
       \<Longrightarrow> op_slot m (SchemaOp K d off st N) I
             (ElementAddr (view_DataPtr m (I + word_of_int off)) st i)"
| nested:
    "ref_slot m N (I + word_of_int off) a \<Longrightarrow> op_slot m (SchemaOp Op_Struct d off st (Some N)) I a"
| struct_element:
    "\<lbrakk> K \<in> {Op_ArrayOfStruct, Op_SetOfObject, Op_MapOfObject_KeyValue};
       int i < view_Num m (I + word_of_int off); view_DataPtr m (I + word_of_int off) \<noteq> nullptr; 0 < st;
       ref_slot m N (ElementAddr (view_DataPtr m (I + word_of_int off)) st i) a \<rbrakk>
       \<Longrightarrow> op_slot m (SchemaOp K d off st (Some N)) I a"

inductive_simps ref_slot_simps: "ref_slot m (Schema n v os) I a"
inductive_simps op_slot_simps: "op_slot m (SchemaOp K d off st N) I a"

lemma ex_nat_bound: "(\<exists>i \<in> {0 ..< nat n}. P i) \<longleftrightarrow> (\<exists>i. int i < n \<and> P i)"
  by (auto simp: zless_nat_eq_int_zless)

abbreviation elem_at :: "(ptr \<Rightarrow> u8) \<Rightarrow> ptr \<Rightarrow> int \<Rightarrow> ptr \<Rightarrow> bool" where
  "elem_at m Slot st x \<equiv>
     view_DataPtr m Slot \<noteq> nullptr
     \<and> (\<exists>i. int i < view_Num m Slot \<and> x = ElementAddr (view_DataPtr m Slot) st i)"

lemma elements_set:
  "x \<in> set (if view_Num m Slot \<le> 0 \<or> view_DataPtr m Slot = nullptr then []
            else map (ElementAddr (view_DataPtr m Slot) st) [0 ..< nat (view_Num m Slot)])
     \<longleftrightarrow> elem_at m Slot st x"
  using ex_nat_bound [of "view_Num m Slot" "\<lambda>i. x = ElementAddr (view_DataPtr m Slot) st i"]
  by (auto simp: image_iff)

lemma slots_set:
  "x \<in> set (StructArrayElements m I off st) \<longleftrightarrow> 0 < st \<and> elem_at m (I + word_of_int off) st x"
  "x \<in> set (VisitStridedObjectArraySlot m I off st) \<longleftrightarrow> 0 < st \<and> elem_at m (I + word_of_int off) st x"
  "x \<in> set (VisitObjectArraySlot m I off) \<longleftrightarrow> elem_at m (I + word_of_int off) 8 x"
  using elements_set [of x m "I + word_of_int off" st] elements_set [of x m "I + word_of_int off" 8]
  by (auto simp: StructArrayElements_def VisitStridedObjectArraySlot_def VisitObjectArraySlot_def Let_def
      split: if_splits)

definition scan_ops :: "nat \<Rightarrow> FXObjectRefSchemaOp list \<Rightarrow> (FXObjectRefSchemaOp \<Rightarrow> bool) \<Rightarrow> bool" where
  "scan_ops k ps Q \<longleftrightarrow>
     (\<exists>i < length ps. i < k \<and> (\<forall>j \<le> i. Op (ps ! j) \<noteq> Op_Terminator) \<and> Q (ps ! i))"

lemma scan_ops_simps:
  "scan_ops k [] Q \<longleftrightarrow> False"
  "scan_ops k (p # ps) Q \<longleftrightarrow> 0 < k \<and> Op p \<noteq> Op_Terminator \<and> (Q p \<or> scan_ops (k - 1) ps Q)"
proof -
  have all: "(\<forall>j \<le> Suc i. Op ((p # ps) ! j) \<noteq> Op_Terminator) \<longleftrightarrow>
      Op p \<noteq> Op_Terminator \<and> (\<forall>j \<le> i. Op (ps ! j) \<noteq> Op_Terminator)" for i
    by (auto simp: less_Suc_eq_le [symmetric] All_less_Suc2)
  have "scan_ops k (p # ps) Q \<longleftrightarrow>
     (0 < k \<and> Op p \<noteq> Op_Terminator \<and> Q p) \<or>
     (\<exists>i < length ps. Suc i < k \<and> (\<forall>j \<le> Suc i. Op ((p # ps) ! j) \<noteq> Op_Terminator) \<and> Q (ps ! i))"
    unfolding scan_ops_def by (simp only: length_Cons Ex_less_Suc2) simp
  then show "scan_ops k (p # ps) Q \<longleftrightarrow> 0 < k \<and> Op p \<noteq> Op_Terminator \<and> (Q p \<or> scan_ops (k - 1) ps Q)"
    unfolding all scan_ops_def less_diff_conv by auto
qed (simp add: scan_ops_def)

lemma op_slot_struct: "op_slot m (SchemaOp Op_Struct d off st (Some S)) I a \<longleftrightarrow> ref_slot m S (I + word_of_int off) a"
  by (simp add: op_slot_simps)

lemma op_slot_structs:
  "K \<in> {Op_ArrayOfStruct, Op_SetOfObject, Op_MapOfObject_KeyValue} \<Longrightarrow>
     op_slot m (SchemaOp K d off st (Some S)) I a \<longleftrightarrow>
       0 < st \<and> (\<exists>x. elem_at m (I + word_of_int off) st x \<and> ref_slot m S x a)"
  by (subst op_slot_simps) auto

lemma op_slot_plain:
  "K \<notin> {Op_ArrayOfStruct, Op_SetOfObject, Op_MapOfObject_KeyValue, Op_Struct} \<Longrightarrow>
     a \<in> set (WalkOp m (SchemaOp K d off st N) I) \<longleftrightarrow> op_slot m (SchemaOp K d off st N) I a"
  by (cases K) (simp_all add: op_slot_simps VisitObjectSlot_def slots_set, blast+)

lemma op_slot_bare:
  "K \<in> {Op_ArrayOfStruct, Op_SetOfObject, Op_MapOfObject_KeyValue, Op_Struct} \<Longrightarrow>
     a \<in> set (WalkOp m (SchemaOp K d off st None) I) \<longleftrightarrow> op_slot m (SchemaOp K d off st None) I a"
  by (cases K) (simp_all add: op_slot_simps slots_set, blast+)

lemma walk_exact_all:
  "a \<in> set (WalkSchemaRefsImpl m S I) \<longleftrightarrow> ref_slot m S I a"
  "a \<in> set (WalkOps m k ps I) \<longleftrightarrow> scan_ops k ps (\<lambda>p. op_slot m p I a)"
  "a \<in> set (WalkOp m p I) \<longleftrightarrow> op_slot m p I a"
proof (induction m S I and m k ps I and m p I rule: WalkSchemaRefsImpl_WalkOps_WalkOp.induct)
  case (1 m n v os I)
  then show ?case by (cases os) (auto simp: ref_slot_simps scan_ops_def)
next
  case (2 m k I)
  then show ?case by (simp add: scan_ops_simps)
next
  case (3 m k p ps I)
  then show ?case by (simp add: scan_ops_simps)
next
  case (4 m K d off st N I)
  consider (plain) "K \<notin> {Op_ArrayOfStruct, Op_SetOfObject, Op_MapOfObject_KeyValue, Op_Struct}"
    | (bare) "K \<in> {Op_ArrayOfStruct, Op_SetOfObject, Op_MapOfObject_KeyValue, Op_Struct}" "N = None"
    | (nest) S where "K = Op_Struct" "N = Some S"
    | (arr) S where "K \<in> {Op_ArrayOfStruct, Op_SetOfObject, Op_MapOfObject_KeyValue}" "N = Some S"
    by (cases N) auto
  then show ?case
  proof cases
    case plain then show ?thesis by (rule op_slot_plain)
  next
    case bare then show ?thesis using op_slot_bare by simp
  next
    case nest
    with "4.IH"(2) [of S] show ?thesis by (simp add: op_slot_struct)
  next
    case arr
    have "a \<in> set (WalkSchemaRefsImpl m S x) \<longleftrightarrow> ref_slot m S x a"
      if x: "x \<in> set (StructArrayElements m I off st)" for x
    proof (cases "K = Op_ArrayOfStruct")
      case True
      show ?thesis by (rule "4.IH"(1) [OF _ _ _ _ _ True arr(2) x]) (simp_all add: True)
    next
      case False
      with arr(1) have K: "K \<in> {Op_SetOfObject, Op_MapOfObject_KeyValue}" by simp
      show ?thesis by (rule "4.IH"(3) [OF _ _ _ _ _ False _ K arr(2) x]) (use K in auto)
    qed
    moreover have "a \<in> set (WalkOp m (SchemaOp K d off st N) I) \<longleftrightarrow>
        (\<exists>x \<in> set (StructArrayElements m I off st). a \<in> set (WalkSchemaRefsImpl m S x))"
      using arr by (elim insertE) simp_all
    ultimately show ?thesis
      using arr op_slot_structs [OF arr(1), of m d off st S I a] slots_set(1) [of _ m I off st]
      by (simp del: WalkOp.simps) blast
  qed
qed

end
