(* ===== verification/Handles.thy ===== *)
theory Handles
  imports XObjectModel
begin

text \<open>
  The handle types over the object table: \<open>XWeakPtr\<close> and \<open>XObjectKey\<close> (an index and the
  serial captured with it), \<open>XStrongPtr\<close> (a pointer that owns one reference count) and
  \<open>XGCRoot\<close> (the pin bit).  Sources: \<open>Public/XObject/XWeakPtr.h\<close>, \<open>XObjectKey.h\<close>,
  \<open>XStrongPtr.h\<close>, \<open>XGCRoot.h\<close>, \<open>Private/XObject/XObjectHandles.cpp\<close>, \<open>XGCRoot.cpp\<close>.
\<close>

section \<open>XWeakPtr and XObjectKey\<close>

record XWeakPtr =
  WeakIndex :: int
  WeakSerial :: u32

definition XWeakPtr_of :: "XHeap \<Rightarrow> ptr \<Rightarrow> XWeakPtr" where
  "XWeakPtr_of h InPtr =
     \<lparr>WeakIndex = (if InPtr \<noteq> nullptr then InternalIndex (hdr h InPtr) else 0),
      WeakSerial = (if InPtr \<noteq> nullptr then SerialNumber (hdr h InPtr) else 0)\<rparr>"

definition XWeakPtr_IsNull :: "XWeakPtr \<Rightarrow> bool" where
  "XWeakPtr_IsNull w = (WeakIndex w = 0)"

definition XWeakPtr_IsValid :: "FXObjectArray \<Rightarrow> XWeakPtr \<Rightarrow> bool" where
  "XWeakPtr_IsValid a w =
     (if WeakIndex w = 0 then False
      else GetObjectAtIndex a (WeakIndex w) (WeakSerial w) \<noteq> nullptr)"

definition XWeakPtr_Get :: "XHeap \<Rightarrow> FXObjectArray \<Rightarrow> XWeakPtr \<Rightarrow> ptr" where
  "XWeakPtr_Get h a w =
     (if WeakIndex w = 0 then nullptr
      else let Resolved = GetObjectAtIndex a (WeakIndex w) (WeakSerial w) in
           if Resolved = nullptr then nullptr
           else if HasAnyFlags h Resolved BeginDestroyed then nullptr
           else Resolved)"

definition XObjectKey_of :: "XHeap \<Rightarrow> ptr \<Rightarrow> XWeakPtr" where
  "XObjectKey_of h Obj =
     \<lparr>WeakIndex = (if Obj \<noteq> nullptr then InternalIndex (hdr h Obj) else 0),
      WeakSerial = (if Obj \<noteq> nullptr then SerialNumber (hdr h Obj) else 0)\<rparr>"

definition XObjectKey_Resolve :: "FXObjectArray \<Rightarrow> XWeakPtr \<Rightarrow> ptr" where
  "XObjectKey_Resolve a k = GetObjectAtIndex a (WeakIndex k) (WeakSerial k)"

definition XObjectKey_IsValid :: "FXObjectArray \<Rightarrow> XWeakPtr \<Rightarrow> bool" where
  "XObjectKey_IsValid a k = (XObjectKey_Resolve a k \<noteq> nullptr)"

text \<open>An object bound to the table: its header names its slot and the slot's serial.\<close>

definition bound_object :: "XHeap \<Rightarrow> FXObjectArray \<Rightarrow> ptr \<Rightarrow> bool" where
  "bound_object h a p \<longleftrightarrow> p \<noteq> nullptr \<and>
     0 < InternalIndex (hdr h p) \<and> InternalIndex (hdr h p) < m_committedCount a \<and>
     EntryObject (m_entries a (InternalIndex (hdr h p))) = p \<and>
     EntrySerialNumber (m_entries a (InternalIndex (hdr h p))) = SerialNumber (hdr h p)"

lemma weak_resolves:
  "bound_object h a p \<Longrightarrow> XObjectKey_Resolve a (XObjectKey_of h p) = p"
  by (simp add: bound_object_def XObjectKey_Resolve_def XObjectKey_of_def GetObjectAtIndex_def)

lemma weak_get_bound:
  "bound_object h a p \<Longrightarrow>
     XWeakPtr_Get h a (XWeakPtr_of h p) = (if HasAnyFlags h p BeginDestroyed then nullptr else p)"
  by (simp add: bound_object_def XWeakPtr_Get_def XWeakPtr_of_def GetObjectAtIndex_def)

lemma weak_get_sound:
  assumes "XWeakPtr_Get h a w = p" and "p \<noteq> nullptr"
  shows "EntryObject (m_entries a (WeakIndex w)) = p"
    and "EntrySerialNumber (m_entries a (WeakIndex w)) = WeakSerial w"
    and "\<not> HasAnyFlags h p BeginDestroyed"
  using assms by (auto simp: XWeakPtr_Get_def GetObjectAtIndex_def Let_def split: if_splits)

section \<open>XGCRoot\<close>

definition AddRoot :: "XHeap \<Rightarrow> ptr \<Rightarrow> FXObjectArray \<Rightarrow> bool \<times> FXObjectArray" where
  "AddRoot h Obj a =
     (if Obj = nullptr then (False, a) else SetRootPin a (InternalIndex (hdr h Obj)))"

definition RemoveRoot :: "XHeap \<Rightarrow> ptr \<Rightarrow> FXObjectArray \<Rightarrow> bool \<times> FXObjectArray" where
  "RemoveRoot h Obj a =
     (if Obj = nullptr then (False, a) else ClearRootPin a (InternalIndex (hdr h Obj)))"

definition IsRooted :: "XHeap \<Rightarrow> FXObjectArray \<Rightarrow> ptr \<Rightarrow> bool" where
  "IsRooted h a Obj =
     (if Obj = nullptr then False else IsRootPinned a (InternalIndex (hdr h Obj)))"

definition ForEachRoot :: "FXObjectArray \<Rightarrow> (int \<times> ptr) list" where
  "ForEachRoot a = filter (\<lambda>(i, p). IsRootPinnedUnchecked a i) (ForEachObject a)"

definition GetRootedCount :: "FXObjectArray \<Rightarrow> nat" where
  "GetRootedCount a = length (filter (\<lambda>(i, p). IsRootPinnedUnchecked a i) (ForEachObject a))"

lemma word_or_and_nonzero: "(w OR m) AND m = m" for m :: "'a::len word"
  by (rule bit_eqI) (auto simp: bit_simps)

lemma word_andnot_and: "(w AND NOT m) AND m = 0" for m :: "'a::len word"
  by (rule bit_eqI) (auto simp: bit_simps)

lemma AddRoot_roots:
  assumes "bound_object h a p"
  shows "IsRooted h (snd (AddRoot h p a)) p"
    and "fst (AddRoot h p a) \<longleftrightarrow> \<not> IsRooted h a p"
  using assms
  by (auto simp: bound_object_def AddRoot_def IsRooted_def SetRootPin_def set_state_bit_def
      IsRootPinned_def Let_def word_or_and_nonzero kRootPinnedBit_val)

lemma RemoveRoot_unroots:
  assumes "bound_object h a p"
  shows "\<not> IsRooted h (snd (RemoveRoot h p a)) p"
    and "fst (RemoveRoot h p a) \<longleftrightarrow> IsRooted h a p"
  using assms
  by (auto simp: bound_object_def RemoveRoot_def IsRooted_def ClearRootPin_def clear_state_bit_def
      IsRootPinned_def Let_def word_andnot_and)

lemma ForEachRoot_set:
  "(i, p) \<in> set (ForEachRoot a) \<longleftrightarrow>
     1 \<le> i \<and> i < m_committedCount a \<and> EntryObject (m_entries a i) = p \<and> p \<noteq> nullptr \<and> IsRootPinned a i"
  by (auto simp: ForEachRoot_def ForEachObject_set IsRootPinned_def IsRootPinnedUnchecked_def)

section \<open>XStrongPtr\<close>

text \<open>
  A strong pointer is the raw pointer it holds; its lifetime operations update the count of
  the pointee's slot.  The handles of a program are a store from handle names to pointers.
\<close>

definition IndexOf :: "XHeap \<Rightarrow> ptr \<Rightarrow> int" where
  "IndexOf h p = InternalIndex (hdr h p)"

definition addref_if :: "build \<Rightarrow> XHeap \<Rightarrow> ptr \<Rightarrow> FXObjectArray \<Rightarrow> xerror + FXObjectArray" where
  "addref_if b h p a = (if p \<noteq> nullptr then AddRef b (IndexOf h p) a else Inr a)"

definition release_if :: "build \<Rightarrow> XHeap \<Rightarrow> ptr \<Rightarrow> FXObjectArray \<Rightarrow> xerror + FXObjectArray" where
  "release_if b h p a = (if p \<noteq> nullptr then ReleaseRef b (IndexOf h p) a else Inr a)"

type_synonym strong_state = "(nat \<Rightarrow> ptr) \<times> FXObjectArray"

definition XStrongPtr_ctor :: "build \<Rightarrow> XHeap \<Rightarrow> nat \<Rightarrow> ptr \<Rightarrow> strong_state \<Rightarrow> xerror + strong_state" where
  "XStrongPtr_ctor b h x InPtr = (\<lambda>(S, a).
     xcheck b (InPtr = nullptr \<or> IsValidLowLevel h InPtr) (
     rbind (addref_if b h InPtr a) (\<lambda>a'. Inr (S(x := InPtr), a'))))"

definition XStrongPtr_copy_ctor :: "build \<Rightarrow> XHeap \<Rightarrow> nat \<Rightarrow> nat \<Rightarrow> strong_state \<Rightarrow> xerror + strong_state" where
  "XStrongPtr_copy_ctor b h x Other = (\<lambda>(S, a).
     rbind (addref_if b h (S Other) a) (\<lambda>a'. Inr (S(x := S Other), a')))"

definition XStrongPtr_copy_assign :: "build \<Rightarrow> XHeap \<Rightarrow> nat \<Rightarrow> nat \<Rightarrow> strong_state \<Rightarrow> xerror + strong_state" where
  "XStrongPtr_copy_assign b h this Other = (\<lambda>(S, a).
     if this = Other then Inr (S, a)
     else let NewPtr = S Other in
       rbind (addref_if b h NewPtr a) (\<lambda>a1.
       let OldPtr = S this; S1 = S(this := NewPtr) in
       rbind (release_if b h OldPtr a1) (\<lambda>a2. Inr (S1, a2))))"

definition XStrongPtr_move_ctor :: "nat \<Rightarrow> nat \<Rightarrow> strong_state \<Rightarrow> xerror + strong_state" where
  "XStrongPtr_move_ctor x Other = (\<lambda>(S, a).
     let S1 = S(x := S Other) in Inr (S1(Other := nullptr), a))"

definition XStrongPtr_move_assign :: "build \<Rightarrow> XHeap \<Rightarrow> nat \<Rightarrow> nat \<Rightarrow> strong_state \<Rightarrow> xerror + strong_state" where
  "XStrongPtr_move_assign b h this Other = (\<lambda>(S, a).
     if this = Other then Inr (S, a)
     else let OldPtr = S this; S1 = S(this := S Other); S2 = S1(Other := nullptr) in
       rbind (release_if b h OldPtr a) (\<lambda>a1. Inr (S2, a1)))"

text \<open>The destructor ends the handle's lifetime: its name may be constructed again.\<close>

definition XStrongPtr_dtor :: "build \<Rightarrow> XHeap \<Rightarrow> nat \<Rightarrow> strong_state \<Rightarrow> xerror + strong_state" where
  "XStrongPtr_dtor b h this = (\<lambda>(S, a).
     rbind (release_if b h (S this) a) (\<lambda>a1. Inr (S(this := nullptr), a1)))"

definition XStrongPtr_Reset :: "build \<Rightarrow> XHeap \<Rightarrow> nat \<Rightarrow> ptr \<Rightarrow> strong_state \<Rightarrow> xerror + strong_state" where
  "XStrongPtr_Reset b h this InPtr = (\<lambda>(S, a).
     xcheck b (InPtr = nullptr \<or> IsValidLowLevel h InPtr) (
     rbind (addref_if b h InPtr a) (\<lambda>a1.
     let OldPtr = S this; S1 = S(this := InPtr) in
     rbind (release_if b h OldPtr a1) (\<lambda>a2. Inr (S1, a2)))))"

datatype strong_op =
    SCtor nat ptr | SCopyCtor nat nat | SCopyAssign nat nat
  | SMoveCtor nat nat | SMoveAssign nat nat | SDtor nat | SReset nat ptr

fun strong_step :: "build \<Rightarrow> XHeap \<Rightarrow> strong_op \<Rightarrow> strong_state \<Rightarrow> xerror + strong_state" where
  "strong_step b h (SCtor x p) s = XStrongPtr_ctor b h x p s"
| "strong_step b h (SCopyCtor x y) s = XStrongPtr_copy_ctor b h x y s"
| "strong_step b h (SCopyAssign x y) s = XStrongPtr_copy_assign b h x y s"
| "strong_step b h (SMoveCtor x y) s = XStrongPtr_move_ctor x y s"
| "strong_step b h (SMoveAssign x y) s = XStrongPtr_move_assign b h x y s"
| "strong_step b h (SDtor x) s = XStrongPtr_dtor b h x s"
| "strong_step b h (SReset x p) s = XStrongPtr_Reset b h x p s"

text \<open>
  A constructor runs on a name without a live handle, a moved handle is another one, and a
  pointer handed in is null or an object with a slot.
\<close>

definition strong_target :: "XHeap \<Rightarrow> ptr \<Rightarrow> strong_state \<Rightarrow> bool" where
  "strong_target h p s \<longleftrightarrow> p = nullptr \<or>
     IsValidLowLevel h p \<and> 0 < IndexOf h p \<and> IndexOf h p < m_committedCount (snd s)"

fun strong_ok :: "nat \<Rightarrow> XHeap \<Rightarrow> strong_op \<Rightarrow> strong_state \<Rightarrow> bool" where
  "strong_ok n h (SCtor x p) s = (x < n \<and> fst s x = nullptr \<and> strong_target h p s)"
| "strong_ok n h (SCopyCtor x y) s = (x < n \<and> y < n \<and> x \<noteq> y \<and> fst s x = nullptr)"
| "strong_ok n h (SCopyAssign x y) s = (x < n \<and> y < n)"
| "strong_ok n h (SMoveCtor x y) s = (x < n \<and> y < n \<and> x \<noteq> y \<and> fst s x = nullptr)"
| "strong_ok n h (SMoveAssign x y) s = (x < n \<and> y < n)"
| "strong_ok n h (SDtor x) s = (x < n)"
| "strong_ok n h (SReset x p) s = (x < n \<and> strong_target h p s)"

definition holders :: "nat \<Rightarrow> XHeap \<Rightarrow> (nat \<Rightarrow> ptr) \<Rightarrow> int \<Rightarrow> nat set" where
  "holders n h S i = {x. x < n \<and> S x \<noteq> nullptr \<and> IndexOf h (S x) = i}"

definition points_to :: "XHeap \<Rightarrow> ptr \<Rightarrow> int \<Rightarrow> nat" where
  "points_to h p i = (if p \<noteq> nullptr \<and> IndexOf h p = i then 1 else 0)"

definition slot_count :: "FXObjectArray \<Rightarrow> int \<Rightarrow> nat" where
  "slot_count a i = unat (RefCountOf (StateBits (m_entries a i)))"

text \<open>The balance: the count field of every slot is the number of handles to its object.\<close>

definition strong_balanced :: "nat \<Rightarrow> XHeap \<Rightarrow> strong_state \<Rightarrow> bool" where
  "strong_balanced n h s \<longleftrightarrow>
     (\<forall>x < n. fst s x \<noteq> nullptr \<longrightarrow>
        0 < IndexOf h (fst s x) \<and> IndexOf h (fst s x) < m_committedCount (snd s)) \<and>
     (\<forall>i \<in> {1..<m_committedCount (snd s)}. slot_count (snd s) i = card (holders n h (fst s) i))"

lemma holders_finite [simp]: "finite (holders n h S i)"
  by (simp add: holders_def)

lemma holders_le: "card (holders n h S i) \<le> n"
proof -
  have "card (holders n h S i) \<le> card {x. x < n}" by (intro card_mono) (auto simp: holders_def)
  then show ?thesis by simp
qed

lemma holders_upd:
  assumes "x < n"
  shows "card (holders n h (S(x := p)) i) + points_to h (S x) i
       = card (holders n h S i) + points_to h p i"
proof -
  let ?R = "holders n h S i - {x}"
  have old: "card (holders n h S i) = card ?R + points_to h (S x) i"
  proof (cases "x \<in> holders n h S i")
    case True
    then have "points_to h (S x) i = 1" by (auto simp: holders_def points_to_def)
    with card_Suc_Diff1 [OF holders_finite True] show ?thesis by simp
  next
    case False
    with assms have "points_to h (S x) i = 0" by (auto simp: holders_def points_to_def)
    with False show ?thesis by simp
  qed
  have R': "holders n h (S(x := p)) i - {x} = ?R" by (auto simp: holders_def)
  have new: "card (holders n h (S(x := p)) i) = card ?R + points_to h p i"
  proof (cases "x \<in> holders n h (S(x := p)) i")
    case True
    then have "points_to h p i = 1" by (auto simp: holders_def points_to_def)
    with card_Suc_Diff1 [OF holders_finite True] R' show ?thesis by simp
  next
    case False
    with assms have "points_to h p i = 0" by (auto simp: holders_def points_to_def)
    with False R' show ?thesis by simp
  qed
  from old new show ?thesis by simp
qed

lemma addref_if_count:
  assumes "p \<noteq> nullptr \<Longrightarrow> 0 < IndexOf h p \<and> IndexOf h p < m_committedCount a"
    and "p \<noteq> nullptr \<Longrightarrow> slot_count a (IndexOf h p) < 16777215"
  shows "\<exists>a'. addref_if b h p a = Inr a' \<and> m_committedCount a' = m_committedCount a \<and>
     (\<forall>i. slot_count a' i = slot_count a i + points_to h p i)"
proof (cases "p = nullptr")
  case True
  then show ?thesis by (simp add: addref_if_def points_to_def)
next
  case False
  have "slot_count a (IndexOf h p) < 16777215" using assms(2) False by simp
  then have lt: "RefCountOf (StateBits (m_entries a (IndexOf h p))) < kFXObjectArrayRefCountMax"
    by (simp add: slot_count_def word_less_nat_alt kRefCountMax_val)
  then have nle: "\<not> kFXObjectArrayRefCountMax \<le> RefCountOf (StateBits (m_entries a (IndexOf h p)))"
    by (simp add: not_le)
  from False assms(1) lt RefCountOf_add [OF lt] show ?thesis
    by (simp add: nle addref_if_def AddRef_def Let_def points_to_def slot_count_def xcheck_def
        in_range_def)
qed

lemma release_if_count:
  assumes "p \<noteq> nullptr \<Longrightarrow> 0 < IndexOf h p \<and> IndexOf h p < m_committedCount a"
    and "p \<noteq> nullptr \<Longrightarrow> 0 < slot_count a (IndexOf h p)"
  shows "\<exists>a'. release_if b h p a = Inr a' \<and> m_committedCount a' = m_committedCount a \<and>
     (\<forall>i. slot_count a' i + points_to h p i = slot_count a i)"
proof (cases "p = nullptr")
  case True
  then show ?thesis by (simp add: release_if_def points_to_def)
next
  case False
  have c: "0 < slot_count a (IndexOf h p)" using assms(2) False by simp
  then have gt: "RefCountOf (StateBits (m_entries a (IndexOf h p))) > 0"
    by (simp add: slot_count_def word_less_nat_alt)
  from False assms(1) gt c RefCountOf_sub(1) [OF gt] show ?thesis
    by (simp add: release_if_def ReleaseRef_def Let_def points_to_def slot_count_def xcheck_def
        in_range_def word_gt_0)
qed

lemma balanced_holder:
  assumes "strong_balanced n h (S, a)" and "x < n" and "S x \<noteq> nullptr"
  shows "0 < IndexOf h (S x) \<and> IndexOf h (S x) < m_committedCount a"
    and "slot_count a (IndexOf h (S x)) = card (holders n h S (IndexOf h (S x)))"
    and "0 < card (holders n h S (IndexOf h (S x)))"
proof -
  show b: "0 < IndexOf h (S x) \<and> IndexOf h (S x) < m_committedCount a"
    using assms by (simp add: strong_balanced_def)
  with assms(1) show "slot_count a (IndexOf h (S x)) = card (holders n h S (IndexOf h (S x)))"
    by (simp add: strong_balanced_def)
  have "x \<in> holders n h S (IndexOf h (S x))" using assms(2,3) by (simp add: holders_def)
  then show "0 < card (holders n h S (IndexOf h (S x)))" by (auto simp: card_gt_0_iff)
qed

text \<open>
  Every operation replaces what one handle holds: it takes a reference to the new pointee,
  then gives back the reference to the old one.
\<close>

lemma retarget:
  assumes bal: "strong_balanced n h (S, a)" and n: "n < 16777215" and x: "x < n"
    and p: "p \<noteq> nullptr \<Longrightarrow> 0 < IndexOf h p \<and> IndexOf h p < m_committedCount a"
  shows "\<exists>a1 a2. addref_if b h p a = Inr a1 \<and> release_if b h (S x) a1 = Inr a2 \<and>
     strong_balanced n h (S(x := p), a2)"
proof -
  have "slot_count a (IndexOf h p) < 16777215" if "p \<noteq> nullptr"
    using bal p [OF that] holders_le [of n h S "IndexOf h p"] n by (auto simp: strong_balanced_def)
  then obtain a1 where a1: "addref_if b h p a = Inr a1" "m_committedCount a1 = m_committedCount a"
    "\<And>i. slot_count a1 i = slot_count a i + points_to h p i"
    using addref_if_count [of p h a b] p by blast
  have "0 < IndexOf h (S x) \<and> IndexOf h (S x) < m_committedCount a1 \<and>
      0 < slot_count a1 (IndexOf h (S x))" if "S x \<noteq> nullptr"
    using balanced_holder [OF bal x that] by (simp add: a1(2,3))
  then obtain a2 where a2: "release_if b h (S x) a1 = Inr a2"
    "m_committedCount a2 = m_committedCount a1"
    "\<And>i. slot_count a2 i + points_to h (S x) i = slot_count a1 i"
    using release_if_count [of "S x" h a1 b] by blast
  have cnt: "slot_count a2 i = card (holders n h (S(x := p)) i)" if "i \<in> {1..<m_committedCount a}" for i
  proof -
    have "slot_count a i = card (holders n h S i)" using bal that by (simp add: strong_balanced_def)
    with a1(3) [of i] a2(3) [of i] holders_upd [OF x, of h S p i] show ?thesis by simp
  qed
  have "strong_balanced n h (S(x := p), a2)"
    using bal p cnt by (simp add: strong_balanced_def a1(2) a2(2))
  with a1(1) a2(1) show ?thesis by blast
qed

lemma holders_move:
  assumes "x < n" "y < n" "x \<noteq> y"
  shows "card (holders n h (S(x := S y, y := nullptr)) i) + points_to h (S x) i = card (holders n h S i)"
proof -
  have "card (holders n h (S(x := S y, y := nullptr)) i) + points_to h (S y) i
      = card (holders n h (S(x := S y)) i) + points_to h nullptr i"
    using holders_upd [OF assms(2), of h "S(x := S y)" nullptr i] assms(3) by simp
  with holders_upd [OF assms(1), of h S "S y" i] show ?thesis by (simp add: points_to_def)
qed

lemma move_balanced:
  assumes bal: "strong_balanced n h (S, a)" and xy: "x < n" "y < n" "x \<noteq> y"
  shows "\<exists>a1. release_if b h (S x) a = Inr a1 \<and> strong_balanced n h (S(x := S y, y := nullptr), a1)"
proof -
  have "0 < IndexOf h (S x) \<and> IndexOf h (S x) < m_committedCount a \<and>
      0 < slot_count a (IndexOf h (S x))" if "S x \<noteq> nullptr"
    using balanced_holder [OF bal xy(1) that] by simp
  then obtain a1 where a1: "release_if b h (S x) a = Inr a1" "m_committedCount a1 = m_committedCount a"
    "\<And>i. slot_count a1 i + points_to h (S x) i = slot_count a i"
    using release_if_count [of "S x" h a b] by blast
  have "slot_count a1 i = card (holders n h (S(x := S y, y := nullptr)) i)"
    if "i \<in> {1..<m_committedCount a}" for i
  proof -
    have "slot_count a i = card (holders n h S i)" using bal that by (simp add: strong_balanced_def)
    with a1(3) [of i] holders_move [OF xy, of h S i] show ?thesis by simp
  qed
  with bal xy have "strong_balanced n h (S(x := S y, y := nullptr), a1)"
    by (auto simp: strong_balanced_def a1(2))
  with a1(1) show ?thesis by blast
qed

theorem strong_step_balanced:
  assumes "strong_balanced n h s" and "n < 16777215" and "strong_ok n h op s"
  shows "\<exists>s'. strong_step b h op s = Inr s' \<and> strong_balanced n h s'"
proof -
  obtain S a where s: "s = (S, a)" by (cases s)
  note bal = assms(1) [unfolded s]
  have held: "S y \<noteq> nullptr \<Longrightarrow> 0 < IndexOf h (S y) \<and> IndexOf h (S y) < m_committedCount a"
    if "y < n" for y using balanced_holder(1) [OF bal that] .
  have tgt: "0 < IndexOf h p \<and> IndexOf h p < m_committedCount a" "IsValidLowLevel h p"
    if "strong_target h p s" "p \<noteq> nullptr" for p using that by (auto simp: strong_target_def s)
  show ?thesis
  proof (cases op)
    case (SCtor x p)
    with assms(3) have x: "x < n" "S x = nullptr" "strong_target h p s" by (auto simp: s)
    from retarget [OF bal assms(2) x(1) tgt(1) [OF x(3)], of b] x(2) tgt(2) [OF x(3)] show ?thesis
      by (auto simp: SCtor s XStrongPtr_ctor_def release_if_def xcheck_def)
  next
    case (SCopyCtor x y)
    with assms(3) have x: "x < n" "y < n" "S x = nullptr" by (auto simp: s)
    from retarget [OF bal assms(2) x(1) held [OF x(2)], of b] x(3) show ?thesis
      by (auto simp: SCopyCtor s XStrongPtr_copy_ctor_def release_if_def)
  next
    case (SCopyAssign x y)
    with assms(3) have x: "x < n" "y < n" by (auto simp: s)
    from retarget [OF bal assms(2) x(1) held [OF x(2)], of b] bal show ?thesis
      by (auto simp: SCopyAssign s XStrongPtr_copy_assign_def Let_def)
  next
    case (SMoveCtor x y)
    with assms(3) have x: "x < n" "y < n" "x \<noteq> y" "S x = nullptr" by (auto simp: s)
    from move_balanced [OF bal x(1-3), of b] x(4) show ?thesis
      by (auto simp: SMoveCtor s XStrongPtr_move_ctor_def release_if_def)
  next
    case (SMoveAssign x y)
    with assms(3) have x: "x < n" "y < n" by (auto simp: s)
    show ?thesis
    proof (cases "x = y")
      case True
      with bal show ?thesis by (simp add: SMoveAssign s XStrongPtr_move_assign_def)
    next
      case False
      from move_balanced [OF bal x False, of b] False show ?thesis
        by (auto simp: SMoveAssign s XStrongPtr_move_assign_def Let_def)
    qed
  next
    case (SDtor x)
    with assms(3) have x: "x < n" by (simp add: s)
    from retarget [OF bal assms(2) x, of nullptr b] show ?thesis
      by (auto simp: SDtor s XStrongPtr_dtor_def addref_if_def)
  next
    case (SReset x p)
    with assms(3) have x: "x < n" "strong_target h p s" by (auto simp: s)
    from retarget [OF bal assms(2) x(1) tgt(1) [OF x(2)], of b] tgt(2) [OF x(2)] show ?thesis
      by (auto simp: SReset s XStrongPtr_Reset_def Let_def xcheck_def)
  qed
qed

end
