(* ===== verification/RootSpans.thy ===== *)
theory RootSpans
  imports Handles
begin

text \<open>
  The registry of root spans (\<open>Public/XObject/XGCRootSpan.h\<close>,
  \<open>Private/XObject/XGCRootSpan.cpp\<close>): arrays of pointers outside the object heap that the
  collector treats as roots.  The slots form a growable table with an intrusive free list
  threaded through \<open>m_freeListNext\<close>.  A conservative span holds words that may or may not be
  object pointers; the validator accepts a word only when the table agrees with it.  The
  allocator's range test \<open>FXObjectAllocator::IsHeapAddress\<close> is a parameter of this theory.
\<close>

section \<open>The registry\<close>

datatype EXGCRootSpanKind = kObject | kConservative

record XGCRootSpan =
  BaseAddress :: ptr
  ByteLength :: u64
  ElementStride :: u64
  Kind :: EXGCRootSpanKind

definition XGCRootSpan_default :: XGCRootSpan where
  "XGCRootSpan_default = \<lparr>BaseAddress = nullptr, ByteLength = 0, ElementStride = 0, Kind = kObject\<rparr>"

definition XGCRootSpan_of :: "ptr \<Rightarrow> u64 \<Rightarrow> EXGCRootSpanKind \<Rightarrow> XGCRootSpan" where
  "XGCRootSpan_of InBase InCount InKind =
     \<lparr>BaseAddress = InBase, ByteLength = InCount * 8, ElementStride = 8, Kind = InKind\<rparr>"

definition kXGCRootSpanInvalidHandle :: int where "kXGCRootSpanInvalidHandle = - 1"
definition kXGCRootSpanInitialCapacity :: int where "kXGCRootSpanInitialCapacity = 64"

record FSlot =
  Span :: XGCRootSpan
  Active :: bool

record XGCRootSpanRegistry =
  rs_slots :: "int \<Rightarrow> FSlot"
  rs_freeListNext :: "int \<Rightarrow> int"
  rs_slotCapacity :: int
  rs_bumpHead :: int
  rs_freeListHead :: int
  rs_activeCount :: int

definition FSlot_default :: FSlot where
  "FSlot_default = \<lparr>Span = XGCRootSpan_default, Active = False\<rparr>"

definition XGCRootSpanRegistry_ctor :: XGCRootSpanRegistry where
  "XGCRootSpanRegistry_ctor =
     \<lparr>rs_slots = (\<lambda>_. FSlot_default), rs_freeListNext = (\<lambda>_. - 1),
      rs_slotCapacity = kXGCRootSpanInitialCapacity, rs_bumpHead = 0, rs_freeListHead = - 1,
      rs_activeCount = 0\<rparr>"

definition Span_ResetForTests :: "XGCRootSpanRegistry \<Rightarrow> XGCRootSpanRegistry" where
  "Span_ResetForTests r =
     r\<lparr>rs_slots := (\<lambda>i. if 0 \<le> i \<and> i < rs_bumpHead r then FSlot_default else rs_slots r i),
       rs_freeListNext := (\<lambda>i. if 0 \<le> i \<and> i < rs_bumpHead r then - 1 else rs_freeListNext r i),
       rs_bumpHead := 0, rs_freeListHead := - 1, rs_activeCount := 0\<rparr>"

definition EnsureCapacityUnderLock :: "XGCRootSpanRegistry \<Rightarrow> XGCRootSpanRegistry" where
  "EnsureCapacityUnderLock r =
     (let OldCapacity = rs_slotCapacity r;
          NewCapacity = (if OldCapacity = 0 then kXGCRootSpanInitialCapacity else OldCapacity * 2) in
      r\<lparr>rs_slots := (\<lambda>i. if OldCapacity \<le> i \<and> i < NewCapacity then FSlot_default else rs_slots r i),
        rs_freeListNext := (\<lambda>i. if OldCapacity \<le> i \<and> i < NewCapacity then - 1
                                else rs_freeListNext r i),
        rs_slotCapacity := NewCapacity\<rparr>)"

definition AddSpan :: "XGCRootSpan \<Rightarrow> XGCRootSpanRegistry \<Rightarrow> int \<times> XGCRootSpanRegistry" where
  "AddSpan sp r =
     (if ElementStride sp \<noteq> 8 then (kXGCRootSpanInvalidHandle, r)
      else if ByteLength sp \<noteq> 0 \<and> BaseAddress sp = nullptr then (kXGCRootSpanInvalidHandle, r)
      else if ByteLength sp mod ElementStride sp \<noteq> 0 then (kXGCRootSpanInvalidHandle, r)
      else
        let (Handle, r1) =
          (if rs_freeListHead r \<noteq> - 1 then
             let H = rs_freeListHead r in
             (H, r\<lparr>rs_freeListHead := rs_freeListNext r H,
                   rs_freeListNext := (rs_freeListNext r)(H := - 1)\<rparr>)
           else
             let r0 = (if rs_bumpHead r \<ge> rs_slotCapacity r then EnsureCapacityUnderLock r else r) in
             (rs_bumpHead r0, r0\<lparr>rs_bumpHead := rs_bumpHead r0 + 1\<rparr>))
        in (Handle,
            r1\<lparr>rs_slots := (rs_slots r1)(Handle := \<lparr>Span = sp, Active = True\<rparr>),
               rs_activeCount := rs_activeCount r1 + 1\<rparr>))"

definition RemoveSpan :: "int \<Rightarrow> XGCRootSpanRegistry \<Rightarrow> XGCRootSpanRegistry" where
  "RemoveSpan Handle r =
     (if Handle < 0 then r
      else if Handle \<ge> rs_bumpHead r then r
      else if \<not> Active (rs_slots r Handle) then r
      else r\<lparr>rs_slots := (rs_slots r)(Handle := FSlot_default),
             rs_freeListNext := (rs_freeListNext r)(Handle := rs_freeListHead r),
             rs_freeListHead := Handle,
             rs_activeCount := rs_activeCount r - 1\<rparr>)"

definition GetSpanCount :: "XGCRootSpanRegistry \<Rightarrow> nat" where
  "GetSpanCount r = (let N = rs_activeCount r in if N < 0 then 0 else nat N)"

definition GetConservativeSpanCount :: "XGCRootSpanRegistry \<Rightarrow> nat" where
  "GetConservativeSpanCount r =
     length (filter (\<lambda>I. Active (rs_slots r I) \<and> Kind (Span (rs_slots r I)) = kConservative)
               [0 .. rs_bumpHead r - 1])"

section \<open>Conservative validation and the walk\<close>

definition ValidateConservativeCandidate ::
  "build \<Rightarrow> (ptr \<Rightarrow> bool) \<Rightarrow> XHeap \<Rightarrow> FXObjectArray \<Rightarrow> ptr \<Rightarrow> xerror + ptr" where
  "ValidateConservativeCandidate b IsHeapAddress h a Candidate =
     (if Candidate = nullptr then Inr nullptr
      else if \<not> IsHeapAddress Candidate then Inr nullptr
      else
        let Idx = InternalIndex (hdr h Candidate);
            Capacity = m_committedCount a in
        if Idx \<le> 0 \<or> Idx \<ge> Capacity then Inr nullptr
        else rbind (GetObjectAtIndexUnchecked b a Idx) (\<lambda>BoundObject.
          if BoundObject = nullptr then Inr nullptr
          else if BoundObject \<noteq> Candidate then Inr nullptr
          else
            let CandidateSerial = SerialNumber (hdr h Candidate);
                SerialChecked = GetObjectAtIndex a Idx CandidateSerial in
            if SerialChecked \<noteq> Candidate then Inr nullptr
            else Inr Candidate))"

definition span_words :: "(ptr \<Rightarrow> u8) \<Rightarrow> XGCRootSpan \<Rightarrow> ptr list" where
  "span_words m sp =
     (let NumSlots = unat (ByteLength sp div ElementStride sp) in
      map (\<lambda>I. load_ptr m (BaseAddress sp + word_of_nat I * ElementStride sp)) [0 ..< NumSlots])"

definition valid_or_null ::
  "build \<Rightarrow> (ptr \<Rightarrow> bool) \<Rightarrow> XHeap \<Rightarrow> FXObjectArray \<Rightarrow> ptr \<Rightarrow> ptr" where
  "valid_or_null b IsHeapAddress h a c =
     (case ValidateConservativeCandidate b IsHeapAddress h a c of Inl e \<Rightarrow> nullptr | Inr p \<Rightarrow> p)"

definition span_objects ::
  "build \<Rightarrow> (ptr \<Rightarrow> bool) \<Rightarrow> XHeap \<Rightarrow> FXObjectArray \<Rightarrow> FSlot \<Rightarrow> ptr list" where
  "span_objects b IsHeapAddress h a slt =
     (if \<not> Active slt then []
      else let sp = Span slt in
        if ByteLength sp = 0 \<or> BaseAddress sp = nullptr then []
        else if Kind sp = kObject then filter (\<lambda>p. p \<noteq> nullptr) (span_words (mem h) sp)
        else filter (\<lambda>p. p \<noteq> nullptr)
               (map (valid_or_null b IsHeapAddress h a)
                  (filter (\<lambda>p. p \<noteq> nullptr) (span_words (mem h) sp))))"

definition ForEachValidObjectInSpans ::
  "build \<Rightarrow> (ptr \<Rightarrow> bool) \<Rightarrow> XHeap \<Rightarrow> FXObjectArray \<Rightarrow> XGCRootSpanRegistry \<Rightarrow> ptr list" where
  "ForEachValidObjectInSpans b IsHeapAddress h a r =
     concat (map (\<lambda>I. span_objects b IsHeapAddress h a (rs_slots r I)) [0 .. rs_bumpHead r - 1])"

section \<open>What the validator accepts\<close>

lemma Validate_exact:
  "ValidateConservativeCandidate b IsHeapAddress h a c =
     Inr (if IsHeapAddress c \<and> bound_object h a c then c else nullptr)"
  by (auto simp: ValidateConservativeCandidate_def bound_object_def GetObjectAtIndexUnchecked_def
      GetObjectAtIndex_def Let_def)

lemma valid_or_null_exact:
  "valid_or_null b IsHeapAddress h a c = (if IsHeapAddress c \<and> bound_object h a c then c else nullptr)"
  by (simp add: valid_or_null_def Validate_exact)

section \<open>The free list\<close>

inductive free_chain :: "(int \<Rightarrow> int) \<Rightarrow> int \<Rightarrow> int list \<Rightarrow> bool" for nxt where
  "free_chain nxt (- 1) []"
| "0 \<le> x \<Longrightarrow> free_chain nxt (nxt x) xs \<Longrightarrow> free_chain nxt x (x # xs)"

inductive_cases free_chainE: "free_chain nxt x xs"

lemma free_chain_cong:
  "free_chain nxt x xs \<Longrightarrow> (\<And>i. i \<in> set xs \<Longrightarrow> nxt' i = nxt i) \<Longrightarrow> free_chain nxt' x xs"
  by (induction rule: free_chain.induct) (auto intro: free_chain.intros)

definition span_inv :: "XGCRootSpanRegistry \<Rightarrow> bool" where
  "span_inv r \<longleftrightarrow> 0 \<le> rs_bumpHead r \<and> rs_bumpHead r \<le> rs_slotCapacity r
     \<and> rs_activeCount r = int (card {i \<in> {0 ..< rs_bumpHead r}. Active (rs_slots r i)})
     \<and> (\<exists>xs. free_chain (rs_freeListNext r) (rs_freeListHead r) xs \<and> distinct xs
             \<and> set xs = {i \<in> {0 ..< rs_bumpHead r}. \<not> Active (rs_slots r i)})"

definition active_spans :: "XGCRootSpanRegistry \<Rightarrow> int \<rightharpoonup> XGCRootSpan" where
  "active_spans r = (\<lambda>i. if 0 \<le> i \<and> i < rs_bumpHead r \<and> Active (rs_slots r i)
                        then Some (Span (rs_slots r i)) else None)"

lemma ctor_span_inv: "span_inv XGCRootSpanRegistry_ctor"
  by (auto simp: span_inv_def XGCRootSpanRegistry_ctor_def kXGCRootSpanInitialCapacity_def
      intro: free_chain.intros)

definition span_ok :: "XGCRootSpan \<Rightarrow> bool" where
  "span_ok sp \<longleftrightarrow> ElementStride sp = 8 \<and> (ByteLength sp = 0 \<or> BaseAddress sp \<noteq> nullptr)
     \<and> ByteLength sp mod 8 = 0"

lemma AddSpan_rejects: "\<not> span_ok sp \<Longrightarrow> AddSpan sp r = (kXGCRootSpanInvalidHandle, r)"
  by (auto simp: AddSpan_def span_ok_def)

lemma free_chain_head: "free_chain nxt x xs \<Longrightarrow> x = - 1 \<longleftrightarrow> xs = []"
  by (erule free_chain.cases) auto

lemma card_activate:
  assumes "finite A" "H \<in> A" "\<not> P H"
  shows "int (card {i \<in> A. i = H \<or> P i}) = int (card {i \<in> A. P i}) + 1"
proof -
  have "{i \<in> A. i = H \<or> P i} = insert H {i \<in> A. P i}" using assms by auto
  then show ?thesis using assms by simp
qed

lemma AddSpan_ok:
  "span_ok sp \<Longrightarrow> AddSpan sp r =
     (let (Handle, r1) =
          (if rs_freeListHead r \<noteq> - 1 then
             let H = rs_freeListHead r in
             (H, r\<lparr>rs_freeListHead := rs_freeListNext r H,
                   rs_freeListNext := (rs_freeListNext r)(H := - 1)\<rparr>)
           else
             let r0 = (if rs_bumpHead r \<ge> rs_slotCapacity r then EnsureCapacityUnderLock r else r) in
             (rs_bumpHead r0, r0\<lparr>rs_bumpHead := rs_bumpHead r0 + 1\<rparr>))
        in (Handle,
            r1\<lparr>rs_slots := (rs_slots r1)(Handle := \<lparr>Span = sp, Active = True\<rparr>),
               rs_activeCount := rs_activeCount r1 + 1\<rparr>))"
  unfolding AddSpan_def span_ok_def by (elim conjE) (simp only: if_False simp_thms de_Morgan_conj; auto)

lemma AddSpan_reuse:
  assumes inv: "span_inv r" and ok: "span_ok sp" and ne: "rs_freeListHead r \<noteq> - 1"
  defines "H \<equiv> rs_freeListHead r"
  obtains r' where "AddSpan sp r = (H, r')" "0 \<le> H" "H < rs_bumpHead r" "\<not> Active (rs_slots r H)"
    "rs_bumpHead r' = rs_bumpHead r" "rs_slots r' = (rs_slots r)(H := \<lparr>Span = sp, Active = True\<rparr>)"
    "span_inv r'"
proof -
  from inv obtain xs where xs: "free_chain (rs_freeListNext r) H xs" "distinct xs"
    "set xs = {i \<in> {0 ..< rs_bumpHead r}. \<not> Active (rs_slots r i)}"
    by (auto simp: span_inv_def H_def)
  from xs(1) ne obtain ys where ys: "xs = H # ys" "free_chain (rs_freeListNext r) (rs_freeListNext r H) ys"
    by (auto simp: H_def elim: free_chainE)
  let ?r = "r\<lparr>rs_freeListHead := rs_freeListNext r H, rs_freeListNext := (rs_freeListNext r)(H := - 1),
     rs_slots := (rs_slots r)(H := \<lparr>Span = sp, Active = True\<rparr>), rs_activeCount := rs_activeCount r + 1\<rparr>"
  have add: "AddSpan sp r = (H, ?r)" using ne by (simp add: AddSpan_ok [OF ok] H_def Let_def)
  have H: "0 \<le> H" "H < rs_bumpHead r" "\<not> Active (rs_slots r H)" using xs(3) ys(1) by auto
  have "free_chain (rs_freeListNext ?r) (rs_freeListNext r H) ys"
    using ys xs(2) by (auto intro: free_chain_cong)
  moreover have "set ys = {i \<in> {0 ..< rs_bumpHead r}. \<not> Active (rs_slots ?r i)}"
    using xs(2,3) ys(1) by auto
  moreover have "{i \<in> {0 ..< rs_bumpHead r}. Active (rs_slots ?r i)}
      = {i \<in> {0 ..< rs_bumpHead r}. i = H \<or> Active (rs_slots r i)}" by auto
  moreover have "H \<in> {0 ..< rs_bumpHead r}" using H by simp
  ultimately have "span_inv ?r"
    using inv xs(2) ys(1) card_activate [of "{0 ..< rs_bumpHead r}" H "\<lambda>i. Active (rs_slots r i)"] H(3)
    by (auto simp: span_inv_def)
  then show ?thesis using that [OF add] H by simp
qed

lemma AddSpan_bump:
  assumes inv: "span_inv r" and ok: "span_ok sp" and e: "rs_freeListHead r = - 1"
  defines "H \<equiv> rs_bumpHead r"
  obtains r' where "AddSpan sp r = (H, r')" "0 \<le> H" "rs_bumpHead r' = H + 1"
    "\<And>i. i < H \<Longrightarrow> rs_slots r' i = rs_slots r i" "rs_slots r' H = \<lparr>Span = sp, Active = True\<rparr>"
    "span_inv r'"
proof -
  define r0 where "r0 = (if rs_bumpHead r \<ge> rs_slotCapacity r then EnsureCapacityUnderLock r else r)"
  let ?r = "r0\<lparr>rs_bumpHead := H + 1, rs_slots := (rs_slots r0)(H := \<lparr>Span = sp, Active = True\<rparr>),
     rs_activeCount := rs_activeCount r + 1\<rparr>"
  from inv obtain xs where "free_chain (rs_freeListNext r) (rs_freeListHead r) xs"
    "set xs = {i \<in> {0 ..< H}. \<not> Active (rs_slots r i)}"
    by (auto simp: span_inv_def H_def)
  with e have none: "{i \<in> {0 ..< H}. \<not> Active (rs_slots r i)} = {}"
    using free_chain_head by fastforce
  have r0: "rs_bumpHead r0 = H" "rs_activeCount r0 = rs_activeCount r"
    "rs_freeListHead r0 = - 1" "\<And>i. i < H \<Longrightarrow> rs_slots r0 i = rs_slots r i"
    "H < rs_slotCapacity r0" "0 \<le> H"
    using inv e by (auto simp: r0_def EnsureCapacityUnderLock_def Let_def H_def span_inv_def
        kXGCRootSpanInitialCapacity_def)
  have add: "AddSpan sp r = (H, ?r)"
    using e r0(1,2) by (simp add: AddSpan_ok [OF ok] Let_def r0_def [symmetric])
  have act: "{i \<in> {0 ..< H + 1}. Active (rs_slots ?r i)}
      = {i \<in> {0 ..< H + 1}. i = H \<or> i < H \<and> Active (rs_slots r i)}"
    using r0(4) by auto
  have "{i \<in> {0 ..< H + 1}. i < H \<and> Active (rs_slots r i)} = {i \<in> {0 ..< H}. Active (rs_slots r i)}"
    by auto
  then have "int (card {i \<in> {0 ..< H + 1}. Active (rs_slots ?r i)}) = rs_activeCount r + 1"
    unfolding act using card_activate [of "{0 ..< H + 1}" H "\<lambda>i. i < H \<and> Active (rs_slots r i)"]
      r0(6) inv by (simp add: span_inv_def H_def)
  moreover have "{i \<in> {0 ..< H + 1}. \<not> Active (rs_slots ?r i)} = {}"
    using none r0(4) by auto
  ultimately have "span_inv ?r" unfolding span_inv_def using r0
    by (auto intro!: exI [of _ "[]"] intro: free_chain.intros)
  then show ?thesis using that [OF add] r0 by simp
qed

lemma AddSpan_spec:
  assumes inv: "span_inv r" and ok: "span_ok sp"
  obtains H r' where "AddSpan sp r = (H, r')" "0 \<le> H" "active_spans r H = None"
    "active_spans r' = (active_spans r)(H \<mapsto> sp)" "span_inv r'"
proof (cases "rs_freeListHead r = - 1")
  case True
  from AddSpan_bump [OF inv ok True] obtain r' where
    r: "AddSpan sp r = (rs_bumpHead r, r')" "0 \<le> rs_bumpHead r" "rs_bumpHead r' = rs_bumpHead r + 1"
    "\<And>i. i < rs_bumpHead r \<Longrightarrow> rs_slots r' i = rs_slots r i"
    "rs_slots r' (rs_bumpHead r) = \<lparr>Span = sp, Active = True\<rparr>" "span_inv r'" by metis
  show ?thesis
  proof (rule that [OF r(1,2) _ _ r(6)])
    show "active_spans r (rs_bumpHead r) = None" by (simp add: active_spans_def)
    show "active_spans r' = (active_spans r)(rs_bumpHead r \<mapsto> sp)"
    proof
      fix x show "active_spans r' x = ((active_spans r)(rs_bumpHead r \<mapsto> sp)) x"
        by (cases x "rs_bumpHead r" rule: linorder_cases)
          (use r(2-5) in \<open>auto simp: active_spans_def\<close>)
    qed
  qed
next
  case False
  from AddSpan_reuse [OF inv ok False] obtain r' where
    r: "AddSpan sp r = (rs_freeListHead r, r')" "0 \<le> rs_freeListHead r"
    "rs_freeListHead r < rs_bumpHead r" "\<not> Active (rs_slots r (rs_freeListHead r))"
    "rs_bumpHead r' = rs_bumpHead r"
    "rs_slots r' = (rs_slots r)(rs_freeListHead r := \<lparr>Span = sp, Active = True\<rparr>)" "span_inv r'" by metis
  show ?thesis
    by (rule that [OF r(1,2) _ _ r(7)]) (use r in \<open>auto simp: active_spans_def fun_eq_iff\<close>)
qed

lemma RemoveSpan_spec:
  assumes inv: "span_inv r"
  shows "active_spans (RemoveSpan H r) = (active_spans r)(H := None)" "span_inv (RemoveSpan H r)"
proof -
  show "active_spans (RemoveSpan H r) = (active_spans r)(H := None)"
    by (auto simp: RemoveSpan_def active_spans_def fun_eq_iff FSlot_default_def)
  show "span_inv (RemoveSpan H r)"
  proof (cases "0 \<le> H \<and> H < rs_bumpHead r \<and> Active (rs_slots r H)")
    case False
    with inv show ?thesis by (auto simp: RemoveSpan_def)
  next
    case True
    let ?r = "r\<lparr>rs_slots := (rs_slots r)(H := FSlot_default),
      rs_freeListNext := (rs_freeListNext r)(H := rs_freeListHead r),
      rs_freeListHead := H, rs_activeCount := rs_activeCount r - 1\<rparr>"
    from inv obtain xs where xs: "free_chain (rs_freeListNext r) (rs_freeListHead r) xs" "distinct xs"
      "set xs = {i \<in> {0 ..< rs_bumpHead r}. \<not> Active (rs_slots r i)}"
      by (auto simp: span_inv_def)
    have new: "H \<notin> set xs" using True xs(3) by simp
    then have "free_chain (rs_freeListNext ?r) H (H # xs)"
      using True xs(1) by (auto intro!: free_chain.intros intro: free_chain_cong)
    moreover have "set (H # xs) = {i \<in> {0 ..< rs_bumpHead r}. \<not> Active (rs_slots ?r i)}"
      using True xs(3) by (auto simp: FSlot_default_def)
    moreover have "{i \<in> {0 ..< rs_bumpHead r}. Active (rs_slots r i)}
        = {i \<in> {0 ..< rs_bumpHead r}. i = H \<or> Active (rs_slots ?r i)}"
      using True by (auto simp: FSlot_default_def)
    then have "int (card {i \<in> {0 ..< rs_bumpHead r}. Active (rs_slots ?r i)}) = rs_activeCount r - 1"
      using card_activate [of "{0 ..< rs_bumpHead r}" H "\<lambda>i. Active (rs_slots ?r i)"] True inv
      by (simp add: span_inv_def FSlot_default_def)
    moreover have "distinct (H # xs)" using xs(2) new by simp
    ultimately have "span_inv ?r" using inv
      unfolding span_inv_def by (intro conjI exI [of _ "H # xs"]) simp_all
    then show ?thesis using True by (simp add: RemoveSpan_def)
  qed
qed

lemma GetSpanCount_active:
  "span_inv r \<Longrightarrow> GetSpanCount r = card (dom (active_spans r))"
proof -
  assume "span_inv r"
  moreover have "dom (active_spans r) = {i \<in> {0 ..< rs_bumpHead r}. Active (rs_slots r i)}"
    by (auto simp: active_spans_def split: if_splits)
  ultimately show ?thesis by (simp add: GetSpanCount_def span_inv_def Let_def)
qed

text \<open>Every word of a pointer span, and every validated word of a conservative span, is visited.\<close>

lemma span_objects_set:
  "p \<in> set (span_objects b IsHeap h a slt) \<longleftrightarrow>
     p \<noteq> nullptr \<and> Active slt \<and> ByteLength (Span slt) \<noteq> 0 \<and> BaseAddress (Span slt) \<noteq> nullptr
     \<and> p \<in> set (span_words (mem h) (Span slt))
     \<and> (Kind (Span slt) = kObject \<or> IsHeap p \<and> bound_object h a p)"
  by (cases "Kind (Span slt)") (auto simp: span_objects_def Let_def valid_or_null_exact)

lemma ForEachValid_set:
  "p \<in> set (ForEachValidObjectInSpans b IsHeap h a r) \<longleftrightarrow>
     p \<noteq> nullptr \<and> (\<exists>H sp. active_spans r H = Some sp \<and> ByteLength sp \<noteq> 0 \<and> BaseAddress sp \<noteq> nullptr
       \<and> p \<in> set (span_words (mem h) sp)
       \<and> (Kind sp = kObject \<or> IsHeap p \<and> bound_object h a p))"
proof -
  have "p \<in> set (ForEachValidObjectInSpans b IsHeap h a r) \<longleftrightarrow>
      (\<exists>H. 0 \<le> H \<and> H < rs_bumpHead r \<and> p \<in> set (span_objects b IsHeap h a (rs_slots r H)))"
    by (auto simp: ForEachValidObjectInSpans_def)
  then show ?thesis unfolding span_objects_set active_spans_def by auto
qed

end
