(* ===== verification/GCState.thy ===== *)
theory GCState
  imports GCQueues CardTable SchemaWalker RootSpans
begin

text \<open>
  The state the collector and the destruction queue share, and what they see of an object's
  class.  The singletons of the code (\<open>FXObjectArray::Get()\<close>, \<open>FXSweepCandidateQueue::Get()\<close>, the
  thread-local queues, the collector's atomics) are the fields of one record that the
  operations pass along.  The functions a lifecycle table points to are the program's own
  code; they are the fields of the record \<open>env\<close>, together with the class objects, the
  allocator's range test, the clock and the build configuration.  A callback may rewrite the
  heap; it does not touch the collector's queues or the object table.  The calls made through
  the lifecycle tables and the cells handed back to the allocator are recorded in order.
\<close>

section \<open>Classes and lifecycle tables\<close>

datatype EXObjectLifecycleSlot =
    Slot_PostInitProperties | Slot_BeginDestroy | Slot_IsReadyForFinishDestroy | Slot_FinishDestroy
  | Slot_AddReferencedObjects | Slot_Serialize | Slot_PostLoad | Slot_ConvertFromType

fun slot_index :: "EXObjectLifecycleSlot \<Rightarrow> nat" where
  "slot_index Slot_PostInitProperties = 0"
| "slot_index Slot_BeginDestroy = 1"
| "slot_index Slot_IsReadyForFinishDestroy = 2"
| "slot_index Slot_FinishDestroy = 3"
| "slot_index Slot_AddReferencedObjects = 4"
| "slot_index Slot_Serialize = 5"
| "slot_index Slot_PostLoad = 6"
| "slot_index Slot_ConvertFromType = 7"

record FXObjectLifecycleTable =
  Capabilities :: u32
  Slots :: "nat \<Rightarrow> ptr"

definition HasSlot :: "FXObjectLifecycleTable \<Rightarrow> EXObjectLifecycleSlot \<Rightarrow> bool" where
  "HasSlot T s \<longleftrightarrow> Capabilities T AND push_bit (slot_index s) 1 \<noteq> 0"

definition GetSlot :: "FXObjectLifecycleTable \<Rightarrow> EXObjectLifecycleSlot \<Rightarrow> ptr" where
  "GetSlot T s = Slots T (slot_index s)"

record FClass =
  RefSchema :: "FXObjectRefSchema option"
  LifecycleTable :: "FXObjectLifecycleTable option"

text \<open>What an \<open>AddReferencedObjects\<close> callback does with the gray queue it is given.\<close>

datatype aro_call =
    PushOnly ptr        \<comment> \<open>\<open>Queue.Push(Ref)\<close>\<close>
  | MarkAndPush ptr     \<comment> \<open>\<open>if (Coll.MarkObject(Ref)) Queue.Push(Ref)\<close>\<close>

record env =
  bld :: build
  ClassAt :: "ptr \<Rightarrow> FClass"
  IsHeapAddress :: "ptr \<Rightarrow> bool"
  Clock :: "nat \<Rightarrow> int"
  run_BeginDestroy :: "ptr \<Rightarrow> ptr \<Rightarrow> XHeap \<Rightarrow> XHeap"
  run_IsReady :: "ptr \<Rightarrow> ptr \<Rightarrow> XHeap \<Rightarrow> bool"
  run_FinishDestroy :: "ptr \<Rightarrow> ptr \<Rightarrow> XHeap \<Rightarrow> XHeap"
  run_AddReferencedObjects :: "ptr \<Rightarrow> ptr \<Rightarrow> XHeap \<Rightarrow> aro_call list"

text \<open>
  The lookup every dispatch site spells out: the object's class, its table, the capability
  bit, the function pointer; the null function stands for every way it can be missing.
\<close>

definition lifecycle_fn :: "env \<Rightarrow> XHeap \<Rightarrow> ptr \<Rightarrow> EXObjectLifecycleSlot \<Rightarrow> ptr" where
  "lifecycle_fn E h Obj s =
     (let Class = ClassPrivate (hdr h Obj) in
      if Class = nullptr then nullptr
      else case LifecycleTable (ClassAt E Class) of
        None \<Rightarrow> nullptr
      | Some Table \<Rightarrow> if \<not> HasSlot Table s then nullptr else GetSlot Table s)"

section \<open>The deferred-destruction queue's data\<close>

text \<open>Clock readings and durations are whole microseconds.\<close>

record FEntry =
  DQ_InternalIndex :: int
  FirstSeen :: int

record FXDeferredDestructionQueue =
  dq_entries :: "FEntry list"
  dq_capacity :: nat
  m_lastPassFinishDestroyCount :: nat
  m_lastPassTimeoutForcedCount :: nat
  m_lastPassDurationUs :: int

definition FXDeferredDestructionQueue_ctor :: FXDeferredDestructionQueue where
  "FXDeferredDestructionQueue_ctor =
     \<lparr>dq_entries = [], dq_capacity = 0, m_lastPassFinishDestroyCount = 0,
      m_lastPassTimeoutForcedCount = 0, m_lastPassDurationUs = 0\<rparr>"

section \<open>The collector's state\<close>

datatype EXGCPhase =
    kIdle | kTriggering | kSafePointHandshake | kRootEnumeration | kConcurrentMark
  | kFinalMarkDrain | kSweepHandoff | kSweep | kDeferredDestruction

record GC =
  heap :: XHeap
  arr :: FXObjectArray
  gray :: FXGrayQueue
  satb :: FXObjectSatbQueue
  slog :: FXObjectGlobalSatbLog
  cards :: FXObjectGCCardTable
  spans :: XGCRootSpanRegistry
  candidates :: FXSweepCandidateQueue
  deferred :: FXDeferredDestructionQueue
  m_phase :: EXGCPhase
  m_cycleCounter :: u32
  m_markedThisCycle :: nat
  m_lastCycleSaturationFallback :: bool
  m_lastReclaimedCount :: nat
  m_lastGarbageRefsClearedCount :: nat
  g_CurrentReachabilityIndex :: u8
  g_XGCIsConcurrentMarkActive :: bool
  g_XGCSafePointRequested :: bool
  ticks :: nat
  begin_calls :: "(ptr \<times> ptr) list"
  finish_calls :: "(ptr \<times> ptr) list"
  freed_cells :: "ptr list"

text \<open>\<open>FPlatformTime::Seconds()\<close>: the next reading of the clock.\<close>

definition ReadClock :: "env \<Rightarrow> GC \<Rightarrow> int \<times> GC" where
  "ReadClock E g = (Clock E (ticks g), g\<lparr>ticks := ticks g + 1\<rparr>)"

end
