(* ===== verification/DeferredDestruction.thy ===== *)
theory DeferredDestruction
  imports GCState
begin

text \<open>
  The queue of objects between \<open>BeginDestroy\<close> and \<open>FinishDestroy\<close>
  (\<open>FXDeferredDestructionQueue\<close>).  A pass takes the buffer, walks it with a time budget,
  finalises the entries that are ready or have waited a second, and puts the others back in
  front of whatever was enqueued meanwhile.  The walk here is run to its end before anything
  else touches the queue, so the buffer is spliced back into an empty queue.
\<close>

definition kFXDeferredDestructionTimeout :: int where
  "kFXDeferredDestructionTimeout = 1000000"

definition kFXDeferredDestructionDefaultBudgetUs :: int where
  "kFXDeferredDestructionDefaultBudgetUs = 1000"

definition kFXDeferredDestructionInitialCapacity :: nat where
  "kFXDeferredDestructionInitialCapacity = 256"

definition Deferred_GrowIfNeededUnderLock ::
  "nat \<Rightarrow> FXDeferredDestructionQueue \<Rightarrow> FXDeferredDestructionQueue" where
  "Deferred_GrowIfNeededUnderLock RequiredSlots q =
     q\<lparr>dq_capacity := GrowCapacity kFXDeferredDestructionInitialCapacity (length (dq_entries q))
                        (dq_capacity q) RequiredSlots\<rparr>"

definition EnqueueAfterBeginDestroy :: "env \<Rightarrow> int \<Rightarrow> GC \<Rightarrow> GC" where
  "EnqueueAfterBeginDestroy E Idx g =
     (if Idx \<le> 0 then g
      else let (Now, g1) = ReadClock E g;
               q = Deferred_GrowIfNeededUnderLock 1 (deferred g1) in
        g1\<lparr>deferred := q\<lparr>dq_entries := dq_entries q @ [\<lparr>DQ_InternalIndex = Idx, FirstSeen = Now\<rparr>]\<rparr>\<rparr>)"

text \<open>One object is finalised: the callback, the flag, the cell, the slot.\<close>

definition FinaliseEntry :: "env \<Rightarrow> bool \<Rightarrow> int \<Rightarrow> ptr \<Rightarrow> GC \<Rightarrow> xerror + GC" where
  "FinaliseEntry E hot Idx Obj g =
     (let Fn = lifecycle_fn E (heap g) Obj Slot_FinishDestroy;
          g1 = (if Fn \<noteq> nullptr
                then g\<lparr>heap := run_FinishDestroy E Fn Obj (heap g),
                       finish_calls := finish_calls g @ [(Fn, Obj)]\<rparr>
                else g);
          g2 = g1\<lparr>heap := SetFlags Obj FinishDestroyed (heap g1)\<rparr>;
          g3 = g2\<lparr>freed_cells := freed_cells g2 @ [Obj]\<rparr>
      in rbind (ReleaseSlot (bld E) hot Idx (arr g3)) (\<lambda>a. Inr (g3\<lparr>arr := a\<rparr>)))"

definition IsReadyToFinalise :: "env \<Rightarrow> XHeap \<Rightarrow> ptr \<Rightarrow> bool" where
  "IsReadyToFinalise E h Obj =
     (let Fn = lifecycle_fn E h Obj Slot_IsReadyForFinishDestroy in
      if Fn \<noteq> nullptr then run_IsReady E Fn Obj h else True)"

text \<open>
  The walk.  \<open>Kept\<close> is the compacted prefix of the buffer; the result carries it with the
  unvisited tail, the two counters and the state.
\<close>

fun DrainWalk ::
  "env \<Rightarrow> bool \<Rightarrow> int \<Rightarrow> int \<Rightarrow> FEntry list \<Rightarrow> FEntry list \<Rightarrow> nat \<Rightarrow> nat \<Rightarrow> GC
     \<Rightarrow> xerror + (FEntry list \<times> nat \<times> nat \<times> GC)" where
  "DrainWalk E hot PassStart BudgetUs [] Kept Finalised Forced g = Inr (Kept, Finalised, Forced, g)"
| "DrainWalk E hot PassStart BudgetUs (en # rest) Kept Finalised Forced g =
     rbind (GetObjectAtIndexUnchecked (bld E) (arr g) (DQ_InternalIndex en)) (\<lambda>Obj.
     if Obj = nullptr then DrainWalk E hot PassStart BudgetUs rest Kept Finalised Forced g
     else
       let Ready0 = IsReadyToFinalise E (heap g) Obj;
           (Now, g1) = ReadClock E g;
           TimedOut = (Now - FirstSeen en \<ge> kFXDeferredDestructionTimeout);
           Ready = (Ready0 \<or> TimedOut);
           Forced' = (if \<not> Ready0 \<and> TimedOut then Forced + 1 else Forced)
       in rbind (if \<not> Ready then Inr (Kept @ [en], Finalised, g1)
                 else rbind (FinaliseEntry E hot (DQ_InternalIndex en) Obj g1)
                        (\<lambda>g2. Inr (Kept, Finalised + 1, g2)))
            (\<lambda>(Kept', Finalised', g2).
               let (NowAfter, g3) = ReadClock E g2 in
               if NowAfter - PassStart \<ge> BudgetUs
               then Inr (Kept' @ rest, Finalised', Forced', g3)
               else DrainWalk E hot PassStart BudgetUs rest Kept' Finalised' Forced' g3))"

definition DrainOnePassWithBudget :: "env \<Rightarrow> bool \<Rightarrow> int \<Rightarrow> GC \<Rightarrow> xerror + (nat \<times> GC)" where
  "DrainOnePassWithBudget E hot BudgetUs g0 =
     (let (PassStart, g) = ReadClock E g0;
          q = deferred g;
          Snapshot = dq_entries q;
          SnapshotCapacity = dq_capacity q;
          g1 = g\<lparr>deferred := q\<lparr>dq_entries := [], dq_capacity := 0\<rparr>\<rparr>
      in if length Snapshot = 0 then
           Inr (0, g\<lparr>deferred := q\<lparr>m_lastPassFinishDestroyCount := 0, m_lastPassTimeoutForcedCount := 0,
                                   m_lastPassDurationUs := 0\<rparr>\<rparr>)
         else
           rbind (DrainWalk E hot PassStart BudgetUs Snapshot [] 0 0 g1)
             (\<lambda>(Remaining, Finalised, Forced, g2).
                let (PassEnd, g3) = ReadClock E g2 in
                Inr (Finalised,
                     g3\<lparr>deferred := \<lparr>dq_entries = Remaining, dq_capacity = SnapshotCapacity,
                          m_lastPassFinishDestroyCount = Finalised,
                          m_lastPassTimeoutForcedCount = Forced,
                          m_lastPassDurationUs = PassEnd - PassStart\<rparr>\<rparr>)))"

definition Deferred_Size :: "GC \<Rightarrow> nat" where
  "Deferred_Size g = length (dq_entries (deferred g))"

definition Deferred_ResetForTests :: "GC \<Rightarrow> GC" where
  "Deferred_ResetForTests g = g\<lparr>deferred := FXDeferredDestructionQueue_ctor\<rparr>"

end
