(* ===== verification/Collector.thy ===== *)
theory Collector
  imports DeferredDestruction
begin

text \<open>
  The collector, \<open>FXObjectCollector\<close>: marking (\<open>MarkObject\<close>, \<open>EnumerateRoots\<close>,
  \<open>DrainGrayQueue\<close>, \<open>DrainSatbLog\<close>, \<open>DrainDirtyCards\<close>, \<open>FullHeapScanFallback\<close>), sweeping
  (\<open>EnumerateSweepCandidates\<close>, \<open>EliminateGarbageRefsPass\<close>, \<open>DrainSweepCandidates\<close>) and the
  phases of a cycle (\<open>RunCycle\<close>), with the write barrier of \<open>XGCWriteBarrier.h\<close>.  Each
  function is one definition that runs to its end; the interleaving with mutators is the
  subject of \<open>SatbConcurrent\<close>.  Telemetry and durations are left out.
\<close>

section \<open>Options\<close>

type_synonym EXGCOptions = u32

definition kEliminateGarbageRefs :: EXGCOptions where "kEliminateGarbageRefs = push_bit 0 1"
definition kForceFullScan :: EXGCOptions where "kForceFullScan = push_bit 2 1"
definition kEmitInsightsTelemetry :: EXGCOptions where "kEmitInsightsTelemetry = push_bit 5 1"
definition kDefault :: EXGCOptions where "kDefault = kEliminateGarbageRefs OR kEmitInsightsTelemetry"

definition HasGCFlag :: "EXGCOptions \<Rightarrow> EXGCOptions \<Rightarrow> bool" where
  "HasGCFlag Opts Flag \<longleftrightarrow> Opts AND Flag \<noteq> 0"

section \<open>Marking an object\<close>

text \<open>
  \<open>1u << index\<close>.  The index is 0, 1 or 2; for an index beyond 31 the C++ shift is undefined and
  the target's shift instruction, which takes the count modulo 32, is used.
\<close>

definition CurrentCycleReachabilityMask :: "GC \<Rightarrow> u32" where
  "CurrentCycleReachabilityMask g = push_bit (unat (g_CurrentReachabilityIndex g) mod 32) 1"

definition MarkObject :: "ptr \<Rightarrow> GC \<Rightarrow> bool \<times> GC" where
  "MarkObject Obj g =
     (if Obj = nullptr then (False, g)
      else
        let Mask = CurrentCycleReachabilityMask g;
            Old = ReachabilityFlag (hdr (heap g) Obj);
            g1 = g\<lparr>heap := upd_hdr Obj (\<lambda>x. x\<lparr>ReachabilityFlag := Old OR Mask\<rparr>) (heap g)\<rparr>;
            FirstMark = (Old AND Mask = 0)
        in (FirstMark, if FirstMark then g1\<lparr>m_markedThisCycle := m_markedThisCycle g1 + 1\<rparr> else g1))"

definition IsMarked :: "GC \<Rightarrow> ptr \<Rightarrow> bool" where
  "IsMarked g Obj =
     (if Obj = nullptr then False
      else ReachabilityFlag (hdr (heap g) Obj) AND CurrentCycleReachabilityMask g \<noteq> 0)"

text \<open>The visitor every marking site uses: \<open>if (Ref != nullptr && Coll.MarkObject(Ref)) Queue.Push(Ref)\<close>.\<close>

definition MarkAndPushRef :: "ptr \<Rightarrow> GC \<Rightarrow> bool \<times> GC" where
  "MarkAndPushRef Ref g =
     (if Ref = nullptr then (False, g)
      else let (First, g1) = MarkObject Ref g in
        (First, if First then g1\<lparr>gray := Gray_Push Ref (gray g1)\<rparr> else g1))"

definition PushRef :: "ptr \<Rightarrow> GC \<Rightarrow> GC" where
  "PushRef Ref g = snd (MarkAndPushRef Ref g)"

definition PushRefCounting :: "ptr \<Rightarrow> nat \<times> GC \<Rightarrow> nat \<times> GC" where
  "PushRefCounting Ref = (\<lambda>(n, g). let (First, g1) = MarkAndPushRef Ref g in
     (if First then n + 1 else n, g1))"

text \<open>The slots of an object, by its class's schema.\<close>

definition ObjectSlots :: "env \<Rightarrow> XHeap \<Rightarrow> ptr \<Rightarrow> ptr list" where
  "ObjectSlots E h Obj =
     (let Class = ClassPrivate (hdr h Obj) in
      if Class = nullptr then []
      else case RefSchema (ClassAt E Class) of
        None \<Rightarrow> []
      | Some Sch \<Rightarrow> WalkSchemaRefsImpl (mem h) Sch Obj)"

text \<open>The references out of an object: its slots in schema order, then its outer.\<close>

definition ScanRefs :: "env \<Rightarrow> XHeap \<Rightarrow> ptr \<Rightarrow> ptr list" where
  "ScanRefs E h Obj = map (load_ptr (mem h)) (ObjectSlots E h Obj) @ [Outer (hdr h Obj)]"

section \<open>Draining the gray queue\<close>

lemma mark_nonzero: "(w OR (m :: u32)) AND m = m"
  by (rule bit_eqI) (auto simp: bit_simps)

definition unmarked :: "GC \<Rightarrow> ptr set" where
  "unmarked g = {p. ReachabilityFlag (hdr (heap g) p) AND CurrentCycleReachabilityMask g = 0}"

definition gray_work :: "GC \<Rightarrow> nat" where
  "gray_work g = 2 * card (unmarked g) + size (gray_bag (gray g))"

lemma finite_unmarked [simp]: "finite (unmarked g)"
  by (rule finite_subset [OF subset_UNIV]) simp

lemma mask_nonzero [simp]: "CurrentCycleReachabilityMask g \<noteq> 0"
proof -
  have "unat (g_CurrentReachabilityIndex g) mod 32 < 32" by simp
  then have "bit (CurrentCycleReachabilityMask g) (unat (g_CurrentReachabilityIndex g) mod 32)"
    unfolding CurrentCycleReachabilityMask_def bit_push_bit_iff by (simp add: bit_1_iff)
  then show ?thesis by (metis bit_0_eq bot_apply bot_bool_def)
qed

lemma mask_bit: "CurrentCycleReachabilityMask g = push_bit (unat (g_CurrentReachabilityIndex g) mod 32) 1"
  by (simp add: CurrentCycleReachabilityMask_def)

lemma single_bit_or: "w AND push_bit n 1 \<noteq> 0 \<Longrightarrow> w OR push_bit n 1 = w" for w :: u32
proof (rule bit_eqI)
  fix k assume a: "w AND push_bit n 1 \<noteq> 0"
  then obtain j where "bit (w AND push_bit n 1) j" by (metis bit_0_eq bit_eqI bot_apply bot_bool_def)
  then have "bit w n" by (auto simp: bit_simps)
  then show "bit (w OR push_bit n 1) k = bit w k" by (auto simp: bit_simps)
qed

lemma mask_sel [simp]:
  "CurrentCycleReachabilityMask (g\<lparr>heap := hp\<rparr>) = CurrentCycleReachabilityMask g"
  "CurrentCycleReachabilityMask (g\<lparr>gray := q\<rparr>) = CurrentCycleReachabilityMask g"
  "CurrentCycleReachabilityMask (g\<lparr>m_markedThisCycle := k\<rparr>) = CurrentCycleReachabilityMask g"
  by (simp_all add: CurrentCycleReachabilityMask_def)

lemma unmarked_sel [simp]:
  "unmarked (g\<lparr>gray := q\<rparr>) = unmarked g" "unmarked (g\<lparr>m_markedThisCycle := k\<rparr>) = unmarked g"
  by (simp_all add: unmarked_def)

text \<open>The header update of a mark.\<close>

definition mark_hdr :: "u32 \<Rightarrow> ptr \<Rightarrow> XHeap \<Rightarrow> XHeap" where
  "mark_hdr m p h = upd_hdr p (\<lambda>x. x\<lparr>ReachabilityFlag := ReachabilityFlag (hdr h p) OR m\<rparr>) h"

lemma mark_hdr_sel [simp]:
  "mem (mark_hdr m p h) = mem h"
  "ClassPrivate (hdr (mark_hdr m p h) q) = ClassPrivate (hdr h q)"
  "InternalIndex (hdr (mark_hdr m p h) q) = InternalIndex (hdr h q)"
  "SerialNumber (hdr (mark_hdr m p h) q) = SerialNumber (hdr h q)"
  "Outer (hdr (mark_hdr m p h) q) = Outer (hdr h q)"
  "ObjectFlags (hdr (mark_hdr m p h) q) = ObjectFlags (hdr h q)"
  by (simp_all add: mark_hdr_def)

lemma mark_hdr_flag:
  "ReachabilityFlag (hdr (mark_hdr m p h) q) =
     (if q = p then ReachabilityFlag (hdr h p) OR m else ReachabilityFlag (hdr h q))"
  by (simp add: mark_hdr_def)

lemma mark_hdr_id: "ReachabilityFlag (hdr h p) OR m = ReachabilityFlag (hdr h p) \<Longrightarrow> mark_hdr m p h = h"
  by (simp add: mark_hdr_def upd_hdr_def)

lemma unmarked_mark:
  "unmarked (g\<lparr>heap := mark_hdr (CurrentCycleReachabilityMask g) p (heap g)\<rparr>) = unmarked g - {p}"
  by (auto simp: unmarked_def mark_hdr_flag mark_nonzero)

lemma MarkObject_eq:
  "MarkObject p g =
     (if p \<noteq> nullptr \<and> p \<in> unmarked g
      then (True, g\<lparr>heap := mark_hdr (CurrentCycleReachabilityMask g) p (heap g),
                    m_markedThisCycle := m_markedThisCycle g + 1\<rparr>)
      else (False, g))"
proof (cases "p \<noteq> nullptr \<and> p \<notin> unmarked g")
  case True
  then have "ReachabilityFlag (hdr (heap g) p) OR CurrentCycleReachabilityMask g = ReachabilityFlag (hdr (heap g) p)"
    unfolding mask_bit by (intro single_bit_or) (simp add: unmarked_def mask_bit)
  then have "mark_hdr (CurrentCycleReachabilityMask g) p (heap g) = heap g" by (rule mark_hdr_id)
  with True show ?thesis
    by (simp add: MarkObject_def Let_def mark_hdr_def [symmetric] unmarked_def)
next
  case False
  then show ?thesis
    by (auto simp: MarkObject_def Let_def mark_hdr_def [symmetric] unmarked_def)
qed

lemma MarkAndPushRef_eq:
  "MarkAndPushRef p g =
     (if p \<noteq> nullptr \<and> p \<in> unmarked g
      then (True, g\<lparr>heap := mark_hdr (CurrentCycleReachabilityMask g) p (heap g),
                    m_markedThisCycle := m_markedThisCycle g + 1, gray := Gray_Push p (gray g)\<rparr>)
      else (False, g))"
  by (simp add: MarkAndPushRef_def MarkObject_eq)

lemma PushRef_eq:
  "PushRef p g =
     (if p \<noteq> nullptr \<and> p \<in> unmarked g
      then g\<lparr>heap := mark_hdr (CurrentCycleReachabilityMask g) p (heap g),
             m_markedThisCycle := m_markedThisCycle g + 1, gray := Gray_Push p (gray g)\<rparr>
      else g)"
  by (simp add: PushRef_def MarkAndPushRef_eq)

lemma unmarked_PushRef:
  "unmarked (PushRef p g) = (if p = nullptr then unmarked g else unmarked g - {p})"
  using unmarked_mark [of g p] by (auto simp: PushRef_eq)

lemma PushRef_work: "gray_work (PushRef p g) \<le> gray_work g"
proof (cases "p \<noteq> nullptr \<and> p \<in> unmarked g")
  case False
  then show ?thesis by (auto simp: PushRef_eq)
next
  case True
  then have "card (unmarked g - {p}) = card (unmarked g) - 1" "0 < card (unmarked g)"
    by (auto simp: card_gt_0_iff)
  with True unmarked_PushRef [of p g] show ?thesis
    by (simp add: gray_work_def PushRef_eq Gray_Push_bag)
qed

lemma fold_PushRef_work: "gray_work (fold PushRef ps g) \<le> gray_work g"
  by (induction ps arbitrary: g) (auto intro: PushRef_work order_trans)

definition ScanObject :: "env \<Rightarrow> ptr \<Rightarrow> GC \<Rightarrow> GC" where
  "ScanObject E Obj g = fold PushRef (ScanRefs E (heap g) Obj) g"

lemma Gray_Pop_nonnull: "fst (Gray_Pop q) \<noteq> nullptr \<Longrightarrow> gray_bag q \<noteq> {#}"
  by (auto simp: gray_bag_def Gray_Pop_def PullBatch_empty split: if_splits)

lemma pop_work:
  fixes g :: GC
  assumes "Gray_Pop (gray g) = (p, q)" "p \<noteq> nullptr"
  shows "gray_work (g\<lparr>gray := q\<rparr>) < gray_work g"
proof -
  have "gray_bag (gray g) \<noteq> {#}" using assms by (intro Gray_Pop_nonnull) simp
  from Gray_Pop_bag [OF this] assms(1) show ?thesis
    by (simp add: gray_work_def)
qed

text \<open>
  The trace loop returns: marking an object takes it out of the finite set of unmarked
  headers before it enters the queue, and every turn takes one object out of the queue.
\<close>

function DrainGrayQueue :: "env \<Rightarrow> GC \<Rightarrow> nat \<times> GC" where
  "DrainGrayQueue E g =
     (let (Gray, q) = Gray_Pop (gray g) in
      if Gray = nullptr then (0, g\<lparr>gray := q\<rparr>)
      else let (VisitedCount, g') = DrainGrayQueue E (ScanObject E Gray (g\<lparr>gray := q\<rparr>)) in
        (VisitedCount + 1, g'))"
  by pat_completeness auto
termination
proof (relation "measure (\<lambda>(E, g). gray_work g)", simp)
  fix E :: env and g :: GC and x p q
  assume "x = Gray_Pop (gray g)" "(p, q) = x" "p \<noteq> nullptr"
  then have "gray_work (g\<lparr>gray := q\<rparr>) < gray_work g" by (intro pop_work [of g p q]) auto
  then show "((E, ScanObject E p (g\<lparr>gray := q\<rparr>)), (E, g)) \<in> measure (\<lambda>(E, g). gray_work g)"
    using fold_PushRef_work [of "ScanRefs E (heap (g\<lparr>gray := q\<rparr>)) p" "g\<lparr>gray := q\<rparr>"]
    by (simp add: ScanObject_def)
qed

declare DrainGrayQueue.simps [simp del]

section \<open>Roots\<close>

text \<open>
  Pinned objects, objects with strong references, the root spans, and the class callbacks;
  the result is the count the telemetry reports.
\<close>

definition run_aro_call :: "aro_call \<Rightarrow> GC \<Rightarrow> GC" where
  "run_aro_call c g = (case c of
     PushOnly Ref \<Rightarrow> g\<lparr>gray := Gray_Push Ref (gray g)\<rparr>
   | MarkAndPush Ref \<Rightarrow> PushRef Ref g)"

definition DispatchAddReferencedObjects :: "env \<Rightarrow> ptr \<Rightarrow> nat \<times> GC \<Rightarrow> nat \<times> GC" where
  "DispatchAddReferencedObjects E Obj = (\<lambda>(Count, g).
     let Fn = lifecycle_fn E (heap g) Obj Slot_AddReferencedObjects in
     if Fn = nullptr then (Count, g)
     else (Count + 1, fold run_aro_call (run_AddReferencedObjects E Fn Obj (heap g)) g))"

definition EnumerateRoots :: "env \<Rightarrow> GC \<Rightarrow> nat \<times> GC" where
  "EnumerateRoots E g =
     (let s1 = fold (\<lambda>(i, Obj). PushRefCounting Obj) (ForEachRoot (arr g)) (0, g);
          s2 = fold (\<lambda>(i, Obj) s. if GetRefCount (arr (snd s)) i = 0 then s else PushRefCounting Obj s)
                 (ForEachObject (arr g)) s1;
          s3 = fold PushRefCounting
                 (ForEachValidObjectInSpans (bld E) (IsHeapAddress E) (heap (snd s2)) (arr (snd s2))
                    (spans (snd s2))) s2
      in fold (\<lambda>(i, Obj). DispatchAddReferencedObjects E Obj) (ForEachObject (arr g)) s3)"

section \<open>The SATB log and the dirty cards\<close>

definition DrainSatbLog :: "GC \<Rightarrow> nat \<times> GC" where
  "DrainSatbLog g =
     (let (LogDrained, l, g1) = Log_DrainAll PushRef (slog g) g;
          g2 = g1\<lparr>slog := l\<rparr>;
          TlsDrained = Satb_Size (satb g2);
          (q, g3) = Satb_DrainTo PushRef (satb g2) g2
      in (LogDrained + TlsDrained, g3\<lparr>satb := q\<rparr>))"

definition ScanObjectCounting :: "env \<Rightarrow> ptr \<Rightarrow> nat \<times> GC \<Rightarrow> nat \<times> GC" where
  "ScanObjectCounting E Obj s = fold PushRefCounting (ScanRefs E (heap (snd s)) Obj) s"

definition kStackBufferSize :: nat where "kStackBufferSize = 256"

definition DrainDirtyCards :: "env \<Rightarrow> GC \<Rightarrow> nat \<times> GC" where
  "DrainDirtyCards E g =
     (if m_totalCards (cards g) = 0 then (0, g)
      else
        let HeapBase = m_heapBaseAddr (cards g);
            SnapshotDirtyCount = unat (m_dirtyCount (cards g));
            Cap = (if SnapshotDirtyCount > kStackBufferSize then SnapshotDirtyCount else kStackBufferSize);
            (Snapshotted, t, DirtyIndices) =
              ForEachDirtyCardAndClear (\<lambda>i xs. if length xs < Cap then xs @ [i] else xs) (cards g) [];
            g1 = g\<lparr>cards := t\<rparr>
        in if length DirtyIndices > 0 then
             let (NewlyMarked, g2) =
               fold (\<lambda>(i, Obj) s.
                   let OffsetFromBase = Obj - HeapBase in
                   if Obj < HeapBase \<or> OffsetFromBase \<ge> m_heapByteSize (cards (snd s)) then s
                   else if unat (drop_bit kCardShift OffsetFromBase) \<in> set DirtyIndices
                   then ScanObjectCounting E Obj s else s)
                 (ForEachObject (arr g1)) (0, g1)
             in (NewlyMarked, snd (DrainGrayQueue E g2))
           else (0, g1))"

definition FullHeapScanFallback :: "env \<Rightarrow> GC \<Rightarrow> nat \<times> GC" where
  "FullHeapScanFallback E g =
     (let (Visited, g1) = DrainGrayQueue E g;
          (n, t, u) = ForEachDirtyCardAndClear (\<lambda>i (u :: unit). u) (cards g1) ()
      in (Visited, g1\<lparr>cards := t\<rparr>))"

section \<open>The sweep\<close>

definition EnumerateSweepCandidates :: "GC \<Rightarrow> nat \<times> GC" where
  "EnumerateSweepCandidates g =
     (let Mask = CurrentCycleReachabilityMask g in
      fold (\<lambda>(i, Obj) (Count, s).
          let Reach = ReachabilityFlag (hdr (heap s) Obj) in
          if Reach AND Mask \<noteq> 0 then (Count, s)
          else if IsRootPinnedUnchecked (arr s) i then (Count, s)
          else if GetRefCount (arr s) i \<noteq> 0 then (Count, s)
          else if IsPendingDestroyUnchecked (arr s) i then (Count, s)
          else (Count + 1, s\<lparr>candidates := Sweep_Append i (candidates s)\<rparr>))
        (ForEachObject (arr g)) (0, g))"

definition SweepOne :: "env \<Rightarrow> int \<Rightarrow> nat \<times> GC \<Rightarrow> xerror + (nat \<times> GC)" where
  "SweepOne E i = (\<lambda>(BeginDestroyN, g).
     rbind (GetObjectAtIndexUnchecked (bld E) (arr g) i) (\<lambda>Obj.
       if Obj = nullptr then Inr (BeginDestroyN, g)
       else if HasAnyObjectFlags (GetObjectFlags (heap g) Obj) BeginDestroyed then Inr (BeginDestroyN, g)
       else
         let g1 = g\<lparr>heap := SetFlags Obj BeginDestroyed (heap g)\<rparr>;
             g2 = g1\<lparr>arr := snd (SetPendingDestroyBit (arr g1) i)\<rparr>;
             Fn = lifecycle_fn E (heap g2) Obj Slot_BeginDestroy;
             g3 = (if Fn \<noteq> nullptr
                   then g2\<lparr>heap := run_BeginDestroy E Fn Obj (heap g2),
                           begin_calls := begin_calls g2 @ [(Fn, Obj)]\<rparr>
                   else g2)
         in Inr (BeginDestroyN + 1, EnqueueAfterBeginDestroy E i g3)))"

definition DrainSweepCandidates :: "env \<Rightarrow> GC \<Rightarrow> xerror + (nat \<times> GC)" where
  "DrainSweepCandidates E g =
     (let Entries = sc_entries (candidates g) in
      rbind (fold_res (SweepOne E) Entries (0, g)) (\<lambda>(n, g').
        Inr (n, g'\<lparr>candidates := (candidates g')\<lparr>sc_entries := []\<rparr>\<rparr>)))"

text \<open>
  The pass that nulls direct references to objects marked as garbage: only the top-level
  single-slot opcodes of a live holder are looked at.
\<close>

fun EliminateSlots :: "nat \<Rightarrow> FXObjectRefSchemaOp list \<Rightarrow> ptr \<Rightarrow> nat \<times> GC \<Rightarrow> nat \<times> GC" where
  "EliminateSlots k [] InstanceBytes s = s"
| "EliminateSlots k (p # ps) InstanceBytes (RefsCleared, g) =
     (if k = 0 then (RefsCleared, g)
      else if Op p = Op_Terminator then (RefsCleared, g)
      else if Op p \<noteq> Op_Object \<and> Op p \<noteq> Op_Interface \<and> Op p \<noteq> Op_ClassProperty
        then EliminateSlots (k - 1) ps InstanceBytes (RefsCleared, g)
      else
        let SlotBytes = InstanceBytes + word_of_int (Offset p);
            SlotValue = load_ptr (mem (heap g)) SlotBytes in
        if SlotValue = nullptr then EliminateSlots (k - 1) ps InstanceBytes (RefsCleared, g)
        else if \<not> IsMarkedAsGarbage (heap g) SlotValue
          then EliminateSlots (k - 1) ps InstanceBytes (RefsCleared, g)
        else
          let TargetIndex = InternalIndex (hdr (heap g) SlotValue);
              g1 = (if TargetIndex > 0 then g\<lparr>arr := snd (SetGarbageBit (arr g) TargetIndex)\<rparr> else g);
              g2 = g1\<lparr>heap := (heap g1)\<lparr>mem := store_null (mem (heap g1)) SlotBytes\<rparr>\<rparr>
          in EliminateSlots (k - 1) ps InstanceBytes (RefsCleared + 1, g2))"

definition EliminateObject :: "env \<Rightarrow> ptr \<Rightarrow> nat \<times> GC \<Rightarrow> nat \<times> GC" where
  "EliminateObject E Obj s =
     (let h = heap (snd s); Class = ClassPrivate (hdr h Obj) in
      if IsMarkedAsGarbage h Obj then s
      else if Class = nullptr then s
      else case RefSchema (ClassAt E Class) of
        None \<Rightarrow> s
      | Some (Schema n v os) \<Rightarrow>
          if v \<noteq> kFXObjectRefSchemaCurrentVersion then s
          else case os of None \<Rightarrow> s | Some ps \<Rightarrow> EliminateSlots (unat n) ps Obj s)"

definition EliminateGarbageRefsPass :: "env \<Rightarrow> GC \<Rightarrow> nat \<times> GC" where
  "EliminateGarbageRefsPass E g =
     fold (\<lambda>(i, Obj). EliminateObject E Obj) (ForEachObject (arr g)) (0, g)"

section \<open>The phases of a cycle\<close>

definition EnterIdle :: "GC \<Rightarrow> GC" where
  "EnterIdle g = g\<lparr>m_phase := kIdle, g_XGCIsConcurrentMarkActive := False\<rparr>"

definition EnterTriggering :: "GC \<Rightarrow> GC" where
  "EnterTriggering g = g\<lparr>m_phase := kTriggering\<rparr>"

definition EnterSafePointHandshake :: "GC \<Rightarrow> GC" where
  "EnterSafePointHandshake g = g\<lparr>m_phase := kSafePointHandshake, g_XGCSafePointRequested := True\<rparr>"

definition EnterRootEnumeration :: "GC \<Rightarrow> GC" where
  "EnterRootEnumeration g = g\<lparr>m_phase := kRootEnumeration\<rparr>"

definition EnterConcurrentMark :: "GC \<Rightarrow> GC" where
  "EnterConcurrentMark g = g\<lparr>m_phase := kConcurrentMark, g_XGCIsConcurrentMarkActive := True\<rparr>"

definition EnterSweepHandoff :: "GC \<Rightarrow> GC" where
  "EnterSweepHandoff g = snd (EnumerateSweepCandidates (g\<lparr>m_phase := kSweepHandoff\<rparr>))"

definition IsMarking :: "GC \<Rightarrow> bool" where
  "IsMarking g \<longleftrightarrow> m_phase g = kConcurrentMark \<or> m_phase g = kFinalMarkDrain"

text \<open>
  The final drain repeats its three drains until a turn finds nothing.  Nothing bounds the
  turns in the code, so the loop is a partial function; \<open>CollectorProps\<close> shows that it
  returns.
\<close>

partial_function (option) FinalDrainLoop :: "env \<Rightarrow> GC \<Rightarrow> GC option" where
  "FinalDrainLoop E g =
     (let (v, g1) = DrainGrayQueue E g;
          (SatbDrained, g2) = DrainSatbLog g1;
          (CardsDrained, g3) = DrainDirtyCards E g2
      in if \<not> Gray_IsEmpty (gray g3) then FinalDrainLoop E g3
         else if SatbDrained = 0 \<and> CardsDrained = 0 \<and> Log_Size (slog g3) = 0
                 \<and> m_dirtyCount (cards g3) = 0 then Some g3
         else FinalDrainLoop E g3)"

definition EnterFinalMarkDrain :: "env \<Rightarrow> GC \<Rightarrow> GC option" where
  "EnterFinalMarkDrain E g =
     (case FinalDrainLoop E (g\<lparr>m_phase := kFinalMarkDrain\<rparr>) of
        None \<Rightarrow> None
      | Some g' \<Rightarrow> Some (g'\<lparr>g_XGCIsConcurrentMarkActive := False\<rparr>))"

definition EnterSweep :: "env \<Rightarrow> EXGCOptions \<Rightarrow> GC \<Rightarrow> xerror + GC" where
  "EnterSweep E Opts g =
     (let g1 = g\<lparr>m_phase := kSweep\<rparr>;
          (GarbageRefsCleared, g2) =
            (if HasGCFlag Opts kEliminateGarbageRefs then EliminateGarbageRefsPass E g1 else (0, g1));
          g3 = g2\<lparr>m_lastGarbageRefsClearedCount := GarbageRefsCleared\<rparr>
      in rbind (DrainSweepCandidates E g3) (\<lambda>(BeginDestroyCount, g4).
           Inr (g4\<lparr>m_lastReclaimedCount := BeginDestroyCount\<rparr>)))"

definition BeginCycle :: "env \<Rightarrow> GC \<Rightarrow> GC" where
  "BeginCycle E g =
     (let g1 = g\<lparr>m_markedThisCycle := 0, m_lastCycleSaturationFallback := False,
                gray := Gray_ResetForCycle (gray g)\<rparr>;
          g2 = EnterRootEnumeration (EnterSafePointHandshake (EnterTriggering g1));
          (RootCount, g3) = EnumerateRoots E g2
      in EnterConcurrentMark (g3\<lparr>g_XGCSafePointRequested := False\<rparr>))"

definition ConcurrentMark :: "env \<Rightarrow> EXGCOptions \<Rightarrow> GC \<Rightarrow> GC" where
  "ConcurrentMark E Opts g =
     (let SaturatedAtMarkStart = IsSaturated (cards g);
          ForceFullScan = HasGCFlag Opts kForceFullScan in
      if SaturatedAtMarkStart \<or> ForceFullScan
      then snd (FullHeapScanFallback E (g\<lparr>m_lastCycleSaturationFallback := True\<rparr>))
      else snd (DrainGrayQueue E g))"

text \<open>The mark phase of \<open>RunCycle\<close>, from the roots to the end of the final drain.\<close>

definition MarkPhase :: "env \<Rightarrow> EXGCOptions \<Rightarrow> GC \<Rightarrow> GC option" where
  "MarkPhase E Opts g = EnterFinalMarkDrain E (ConcurrentMark E Opts (BeginCycle E g))"

definition EndCycle :: "u32 \<Rightarrow> GC \<Rightarrow> GC" where
  "EndCycle CycleId g =
     (let NewCycle = CycleId + 1 in
      (EnterIdle g)\<lparr>m_cycleCounter := NewCycle, g_CurrentReachabilityIndex := ucast (NewCycle mod 3)\<rparr>)"

definition RunCycle :: "env \<Rightarrow> EXGCOptions \<Rightarrow> GC \<Rightarrow> (xerror + GC) option" where
  "RunCycle E Opts g =
     (let CycleId = m_cycleCounter g in
      case MarkPhase E Opts g of
        None \<Rightarrow> None
      | Some g1 \<Rightarrow> Some (rbind (EnterSweep E Opts (EnterSweepHandoff g1))
                            (\<lambda>g2. Inr (EndCycle CycleId g2))))"

definition CollectGarbage :: "env \<Rightarrow> bool \<Rightarrow> EXGCOptions \<Rightarrow> GC \<Rightarrow> (xerror + GC) option" where
  "CollectGarbage E HotReloadInProgress Opts g =
     (if HotReloadInProgress then Some (Inr g) else RunCycle E Opts g)"

section \<open>The write barrier\<close>

definition store_ptr :: "(ptr \<Rightarrow> u8) \<Rightarrow> ptr \<Rightarrow> ptr \<Rightarrow> (ptr \<Rightarrow> u8)" where
  "store_ptr m a v = (\<lambda>x. if x - a < 8 then ucast (drop_bit (8 * unat (x - a)) v) else m x)"

definition XGCWriteBarrierImpl :: "bool \<Rightarrow> ptr \<Rightarrow> GC \<Rightarrow> xerror + GC" where
  "XGCWriteBarrierImpl g_XGCAcceptDrains Slot g =
     rbind (if g_XGCIsConcurrentMarkActive g then
              let OldValue = load_ptr (mem (heap g)) Slot in
              if OldValue \<noteq> nullptr then
                rbind (Satb_Push g_XGCAcceptDrains OldValue (satb g) (slog g))
                  (\<lambda>(q, l). Inr (g\<lparr>satb := q, slog := l\<rparr>))
              else Inr g
            else Inr g)
       (\<lambda>g1. rbind (MarkCardDirty Slot (cards g1)) (\<lambda>t. Inr (g1\<lparr>cards := t\<rparr>)))"

definition XPACT_GC_STORE :: "bool \<Rightarrow> ptr \<Rightarrow> ptr \<Rightarrow> GC \<Rightarrow> xerror + GC" where
  "XPACT_GC_STORE g_XGCAcceptDrains Slot NewValue g =
     rbind (XGCWriteBarrierImpl g_XGCAcceptDrains Slot g) (\<lambda>g1.
       Inr (g1\<lparr>heap := (heap g1)\<lparr>mem := store_ptr (mem (heap g1)) Slot NewValue\<rparr>\<rparr>))"

definition XGCWriteBarrierImplBytes :: "ptr \<Rightarrow> u64 \<Rightarrow> GC \<Rightarrow> xerror + GC" where
  "XGCWriteBarrierImplBytes Address NumBytes g =
     rbind (MarkCardRangeDirty Address NumBytes (cards g)) (\<lambda>(e, t). Inr (g\<lparr>cards := t\<rparr>))"

end
