(* ===== verification/CollectorProps.thy ===== *)
theory CollectorProps
  imports Collector
begin

text \<open>
  What marking and sweeping compute.  The references of an object do not depend on mark bits,
  so a mark phase works on a fixed graph; the lemmas say which objects end up marked, that
  the loops return, and which slots become sweep candidates.
\<close>

section \<open>Heaps that differ in their mark bits\<close>

definition same_but_marks :: "XHeap \<Rightarrow> XHeap \<Rightarrow> bool" where
  "same_but_marks h h' \<longleftrightarrow> mem h' = mem h \<and>
     (\<forall>p. hdr h' p = (hdr h p)\<lparr>ReachabilityFlag := ReachabilityFlag (hdr h' p)\<rparr>
        \<and> ReachabilityFlag (hdr h p) OR ReachabilityFlag (hdr h' p) = ReachabilityFlag (hdr h' p))"

lemma same_but_marks_refl [simp]: "same_but_marks h h"
  by (simp add: same_but_marks_def)

lemma same_but_marks_bits:
  "same_but_marks h h' \<Longrightarrow> ReachabilityFlag (hdr h p) OR ReachabilityFlag (hdr h' p) = ReachabilityFlag (hdr h' p)"
  by (simp add: same_but_marks_def)

lemma same_but_marks_trans:
  assumes a: "same_but_marks h h'" and b: "same_but_marks h' h''"
  shows "same_but_marks h h''"
proof -
  have "hdr h'' p = (hdr h p)\<lparr>ReachabilityFlag := ReachabilityFlag (hdr h'' p)\<rparr>" for p
  proof -
    have "hdr h'' p = (hdr h' p)\<lparr>ReachabilityFlag := ReachabilityFlag (hdr h'' p)\<rparr>"
      using b by (simp add: same_but_marks_def)
    also have "hdr h' p = (hdr h p)\<lparr>ReachabilityFlag := ReachabilityFlag (hdr h' p)\<rparr>"
      using a by (simp add: same_but_marks_def)
    finally show ?thesis by simp
  qed
  moreover have "ReachabilityFlag (hdr h p) OR ReachabilityFlag (hdr h'' p) = ReachabilityFlag (hdr h'' p)" for p
    using same_but_marks_bits [OF a, of p] same_but_marks_bits [OF b, of p] by (metis or.assoc)
  ultimately show ?thesis using a b by (simp add: same_but_marks_def)
qed

lemma same_but_marks_sel:
  assumes "same_but_marks h h'"
  shows "mem h' = mem h" "ClassPrivate (hdr h' p) = ClassPrivate (hdr h p)"
    "InternalIndex (hdr h' p) = InternalIndex (hdr h p)"
    "SerialNumber (hdr h' p) = SerialNumber (hdr h p)"
    "Outer (hdr h' p) = Outer (hdr h p)" "ObjectFlags (hdr h' p) = ObjectFlags (hdr h p)"
proof -
  have "hdr h' p = (hdr h p)\<lparr>ReachabilityFlag := ReachabilityFlag (hdr h' p)\<rparr>"
    using assms by (simp add: same_but_marks_def)
  then show "ClassPrivate (hdr h' p) = ClassPrivate (hdr h p)"
    "InternalIndex (hdr h' p) = InternalIndex (hdr h p)"
    "SerialNumber (hdr h' p) = SerialNumber (hdr h p)"
    "Outer (hdr h' p) = Outer (hdr h p)" "ObjectFlags (hdr h' p) = ObjectFlags (hdr h p)"
    by (metis XObject.select_convs XObject.surjective XObject.update_convs(7))+
  show "mem h' = mem h" using assms by (simp add: same_but_marks_def)
qed

lemma same_but_marks_mark: "same_but_marks h (mark_hdr m p h)"
  by (auto simp: same_but_marks_def mark_hdr_def upd_hdr_def or.assoc [symmetric])

lemma ScanRefs_cong: "same_but_marks h h' \<Longrightarrow> ScanRefs E h' p = ScanRefs E h p"
  by (simp add: ScanRefs_def ObjectSlots_def same_but_marks_sel Let_def split: option.splits)

section \<open>What a marking step may change\<close>

definition marking :: "GC \<Rightarrow> GC \<Rightarrow> bool" where
  "marking g g' \<longleftrightarrow> same_but_marks (heap g) (heap g') \<and>
     (\<exists>h n q. g' = g\<lparr>heap := h, m_markedThisCycle := n, gray := q\<rparr>) \<and>
     unmarked g' \<subseteq> unmarked g \<and>
     m_markedThisCycle g' + card (unmarked g') = m_markedThisCycle g + card (unmarked g)"

lemma marking_refl [simp]: "marking g g"
  unfolding marking_def
  by (intro conjI exI [of _ "heap g"] exI [of _ "m_markedThisCycle g"] exI [of _ "gray g"]) simp_all

lemma marking_frame:
  assumes "marking g g'"
  obtains h n q where "g' = g\<lparr>heap := h, m_markedThisCycle := n, gray := q\<rparr>"
  using assms by (auto simp: marking_def)

lemma marking_sel:
  assumes "marking g g'"
  shows "arr g' = arr g" "satb g' = satb g" "slog g' = slog g" "cards g' = cards g"
    "spans g' = spans g" "candidates g' = candidates g" "deferred g' = deferred g"
    "m_phase g' = m_phase g" "m_cycleCounter g' = m_cycleCounter g"
    "g_CurrentReachabilityIndex g' = g_CurrentReachabilityIndex g"
    "g_XGCIsConcurrentMarkActive g' = g_XGCIsConcurrentMarkActive g" "ticks g' = ticks g"
    "begin_calls g' = begin_calls g" "finish_calls g' = finish_calls g"
  by (rule marking_frame [OF assms], simp)+

lemma marking_heap: "marking g g' \<Longrightarrow> same_but_marks (heap g) (heap g')"
  by (simp add: marking_def)

lemma marking_trans:
  assumes a: "marking g g'" and b: "marking g' g''"
  shows "marking g g''"
proof -
  obtain h n q where "g' = g\<lparr>heap := h, m_markedThisCycle := n, gray := q\<rparr>"
    by (rule marking_frame [OF a])
  moreover obtain h' n' q' where "g'' = g'\<lparr>heap := h', m_markedThisCycle := n', gray := q'\<rparr>"
    by (rule marking_frame [OF b])
  ultimately have "\<exists>h n q. g'' = g\<lparr>heap := h, m_markedThisCycle := n, gray := q\<rparr>"
    by (intro exI [of _ h'] exI [of _ n'] exI [of _ q']) simp
  with a b show ?thesis
    unfolding marking_def by (auto intro: same_but_marks_trans)
qed

lemma marking_gray: "marking g (g\<lparr>gray := q\<rparr>)"
  unfolding marking_def
  by (intro conjI exI [of _ "heap g"] exI [of _ "m_markedThisCycle g"] exI [of _ q]) simp_all

text \<open>
  The marked objects, the references of an object and what they reach.  The references are
  stated without the collector's scan: an object refers to its outer and to what the eight
  bytes of each slot its class's schema describes hold, null apart.
\<close>

definition marked :: "GC \<Rightarrow> ptr set" where
  "marked g = {p. p \<noteq> nullptr \<and> p \<notin> unmarked g}"

definition refs :: "env \<Rightarrow> XHeap \<Rightarrow> ptr \<Rightarrow> ptr set" where
  "refs E h p = {q. q \<noteq> nullptr \<and> (q = Outer (hdr h p) \<or>
     ClassPrivate (hdr h p) \<noteq> nullptr \<and>
     (\<exists>Sch a. RefSchema (ClassAt E (ClassPrivate (hdr h p))) = Some Sch
        \<and> ref_slot (mem h) Sch p a \<and> q = load_ptr (mem h) a))}"

definition edges :: "env \<Rightarrow> XHeap \<Rightarrow> (ptr \<times> ptr) set" where
  "edges E h = {(p, q). q \<in> refs E h p}"

definition reach :: "env \<Rightarrow> XHeap \<Rightarrow> ptr set \<Rightarrow> ptr set" where
  "reach E h S = (edges E h)\<^sup>* `` S"

abbreviation gray_set :: "GC \<Rightarrow> ptr set" where
  "gray_set g \<equiv> set_mset (gray_bag (gray g))"

lemma marked_IsMarked: "p \<in> marked g \<longleftrightarrow> IsMarked g p"
  by (auto simp: marked_def IsMarked_def unmarked_def)

lemma refs_ScanRefs: "refs E h p = {q \<in> set (ScanRefs E h p). q \<noteq> nullptr}"
proof (cases "ClassPrivate (hdr h p) = nullptr \<or> RefSchema (ClassAt E (ClassPrivate (hdr h p))) = None")
  case True
  then show ?thesis by (auto simp: refs_def ScanRefs_def ObjectSlots_def Let_def)
next
  case False
  then obtain Sch where "ClassPrivate (hdr h p) \<noteq> nullptr"
    "RefSchema (ClassAt E (ClassPrivate (hdr h p))) = Some Sch" by auto
  then show ?thesis
    using walk_exact_all(1) [of _ "mem h" Sch p]
    by (auto simp: refs_def ScanRefs_def ObjectSlots_def Let_def)
qed

lemma refs_cong: "marking g g' \<Longrightarrow> refs E (heap g') p = refs E (heap g) p"
  by (simp add: refs_ScanRefs ScanRefs_cong [OF marking_heap])

lemma edges_cong: "marking g g' \<Longrightarrow> edges E (heap g') = edges E (heap g)"
  by (simp add: edges_def refs_cong)

lemma reach_cong: "marking g g' \<Longrightarrow> reach E (heap g') S = reach E (heap g) S"
  by (simp add: reach_def edges_cong)

lemma reach_mono: "S \<subseteq> T \<Longrightarrow> reach E h S \<subseteq> reach E h T"
  by (auto simp: reach_def)

lemma reach_Un: "reach E h (S \<union> T) = reach E h S \<union> reach E h T"
  by (auto simp: reach_def)

lemma reach_refl: "S \<subseteq> reach E h S"
  by (auto simp: reach_def)

lemma reach_idem: "reach E h (reach E h S) = reach E h S"
  by (auto simp: reach_def intro: rtrancl_trans)

lemma refs_reach: "p \<in> S \<Longrightarrow> refs E h p \<subseteq> reach E h S"
  by (auto simp: reach_def edges_def)

lemma reach_closed:
  assumes "\<And>p. p \<in> C \<Longrightarrow> refs E h p \<subseteq> C" "S \<subseteq> C"
  shows "reach E h S \<subseteq> C"
proof
  fix q assume "q \<in> reach E h S"
  then obtain p where "p \<in> S" "(p, q) \<in> (edges E h)\<^sup>*" by (auto simp: reach_def)
  from this(2,1) assms show "q \<in> C"
    by (induction rule: rtrancl_induct) (auto simp: edges_def)
qed

section \<open>Marking a list of references\<close>

lemma marking_PushRef: "marking g (PushRef p g)"
proof (cases "p \<noteq> nullptr \<and> p \<in> unmarked g")
  case False
  then show ?thesis by (simp only: PushRef_eq if_False marking_refl)
next
  case True
  let ?h = "mark_hdr (CurrentCycleReachabilityMask g) p (heap g)"
  have eq: "PushRef p g = g\<lparr>heap := ?h, m_markedThisCycle := m_markedThisCycle g + 1, gray := Gray_Push p (gray g)\<rparr>"
    using True by (simp add: PushRef_eq)
  have u: "unmarked (PushRef p g) = unmarked g - {p}" using True by (simp add: unmarked_PushRef)
  have "card (unmarked g - {p}) + 1 = card (unmarked g)"
    using True card_Suc_Diff1 [of "unmarked g" p] by simp
  with u show ?thesis unfolding marking_def
    by (intro conjI exI [of _ ?h] exI [of _ "m_markedThisCycle g + 1"] exI [of _ "Gray_Push p (gray g)"])
      (auto simp: eq same_but_marks_mark)
qed

lemma marked_PushRef: "marked (PushRef p g) = (if p = nullptr then marked g else insert p (marked g))"
  by (auto simp: marked_def unmarked_PushRef)

lemma gray_PushRef:
  "gray_inv (gray g) \<Longrightarrow> gray_inv (gray (PushRef p g))"
  "gray_set (PushRef p g) = gray_set g \<union> ({p} - {nullptr} - marked g)"
  by (auto simp: PushRef_eq Gray_Push_inv Gray_Push_bag marked_def)

lemma marking_fold: "marking g (fold PushRef ps g)"
  by (induction ps arbitrary: g) (auto intro: marking_PushRef marking_trans)

lemma fold_PushRef:
  "marked (fold PushRef ps g) = marked g \<union> (set ps - {nullptr})"
  "gray_inv (gray g) \<Longrightarrow> gray_inv (gray (fold PushRef ps g))"
  "gray_set (fold PushRef ps g) = gray_set g \<union> (set ps - {nullptr} - marked g)"
  by (induction ps arbitrary: g) (auto simp: marked_PushRef gray_PushRef)

lemma snd_fold_counting: "snd (fold PushRefCounting ps s) = fold PushRef ps (snd s)"
  by (induction ps arbitrary: s) (auto simp: PushRefCounting_def PushRef_def case_prod_beta)

section \<open>The trace\<close>

definition black_closed :: "env \<Rightarrow> GC \<Rightarrow> bool" where
  "black_closed E g \<longleftrightarrow> (\<forall>p \<in> marked g. p \<notin> gray_set g \<longrightarrow> refs E (heap g) p \<subseteq> marked g)"

lemma Gray_Pop_null:
  assumes "gray_inv q" "fst (Gray_Pop q) = nullptr"
  shows "gray_bag q = {#}" "gray_bag (snd (Gray_Pop q)) = {#}"
proof -
  show "gray_bag q = {#}" using assms by (simp add: Gray_Pop_empty)
  then have "gq_entries q = []" "ov_entries (gq_overflow q) = []" by (auto simp: gray_bag_def)
  then show "gray_bag (snd (Gray_Pop q)) = {#}"
    by (simp add: Gray_Pop_def PullBatch_empty gray_bag_def)
qed

lemma ScanObject_eq:
  "ScanObject E p (g\<lparr>gray := q\<rparr>) = fold PushRef (ScanRefs E (heap g) p) (g\<lparr>gray := q\<rparr>)"
  by (simp add: ScanObject_def)

lemma refs_list: "set (ScanRefs E h p) - {nullptr} = refs E h p"
  by (auto simp: refs_ScanRefs)

lemma marked_sel [simp]: "marked (g\<lparr>gray := q\<rparr>) = marked g"
  by (simp add: marked_def)

lemma ScanObject_props:
  fixes E :: env and g :: GC
  assumes "gray_inv (gray g)" and pq: "Gray_Pop (gray g) = (p, q)" and "p \<noteq> nullptr"
  defines "g1 \<equiv> ScanObject E p (g\<lparr>gray := q\<rparr>)"
  shows "marking g g1" "gray_inv (gray g1)" "gray_set g = insert p (set_mset (gray_bag q))"
    "marked g1 = marked g \<union> refs E (heap g) p"
    "gray_set g1 = set_mset (gray_bag q) \<union> (refs E (heap g) p - marked g)"
    "black_closed E g \<Longrightarrow> black_closed E g1"
proof -
  have inv: "gray_inv q" using Gray_Pop_inv [OF assms(1)] pq by simp
  show s: "gray_set g = insert p (set_mset (gray_bag q))"
    using gray.pop_set [OF assms(1)] pq assms(3) by simp
  show m: "marking g g1"
    unfolding g1_def ScanObject_eq by (rule marking_trans [OF marking_gray marking_fold])
  show "gray_inv (gray g1)"
    unfolding g1_def ScanObject_eq using inv by (intro fold_PushRef(2)) simp
  show mk: "marked g1 = marked g \<union> refs E (heap g) p"
    unfolding g1_def ScanObject_eq by (simp add: fold_PushRef(1) refs_list)
  show gr: "gray_set g1 = set_mset (gray_bag q) \<union> (refs E (heap g) p - marked g)"
    unfolding g1_def ScanObject_eq by (simp add: fold_PushRef(3) refs_list)
  show "black_closed E g \<Longrightarrow> black_closed E g1"
    unfolding black_closed_def using s mk gr refs_cong [OF m] by auto
qed

lemma scanned_step:
  assumes "G = insert p Q" "G' = Q \<union> (refs E h p - M)"
  shows "refs E h p \<union> reach E h (\<Union>q \<in> G'. refs E h q) \<subseteq> reach E h (\<Union>q \<in> G. refs E h q)"
proof -
  let ?R = "reach E h (\<Union>q \<in> G. refs E h q)"
  have p: "refs E h p \<subseteq> ?R" using reach_refl [of "\<Union>q \<in> G. refs E h q" E h] assms(1) by blast
  have "refs E h q \<subseteq> ?R" if "q \<in> G'" for q
  proof (cases "q \<in> Q")
    case True
    then show ?thesis using reach_refl [of "\<Union>q \<in> G. refs E h q" E h] assms(1) by blast
  next
    case False
    with that assms(2) p have "q \<in> ?R" by blast
    from refs_reach [OF this, of E h] show ?thesis by (simp only: reach_idem)
  qed
  then have "(\<Union>q \<in> G'. refs E h q) \<subseteq> ?R" by blast
  from reach_mono [OF this, of E h] p show ?thesis by (simp only: reach_idem) blast
qed

lemma DrainGrayQueue_trace:
  fixes E :: env and g :: GC
  assumes "gray_inv (gray g)"
  defines "g' \<equiv> snd (DrainGrayQueue E g)"
  shows "marking g g'" "gray_inv (gray g')" "gray_set g' = {}" "marked g \<subseteq> marked g'"
    "marked g' \<subseteq> marked g \<union> reach E (heap g) (gray_set g)"
    "(\<Union>p \<in> gray_set g. refs E (heap g) p) \<subseteq> marked g'"
    "black_closed E g \<Longrightarrow> black_closed E g'"
    "marked g' \<subseteq> marked g \<union> reach E (heap g) (\<Union>p \<in> gray_set g. refs E (heap g) p)"
proof -
  have "marking g g' \<and> gray_inv (gray g') \<and> gray_set g' = {} \<and> marked g \<subseteq> marked g'
    \<and> marked g' \<subseteq> marked g \<union> reach E (heap g) (gray_set g)
    \<and> (\<Union>p \<in> gray_set g. refs E (heap g) p) \<subseteq> marked g'
    \<and> (black_closed E g \<longrightarrow> black_closed E g')
    \<and> marked g' \<subseteq> marked g \<union> reach E (heap g) (\<Union>p \<in> gray_set g. refs E (heap g) p)"
    using assms(1) unfolding g'_def
  proof (induction E g rule: DrainGrayQueue.induct)
    case (1 E g)
    obtain p q where pq: "Gray_Pop (gray g) = (p, q)" by fastforce
    show ?case
    proof (cases "p = nullptr")
      case True
      with pq Gray_Pop_null [OF "1.prems"] Gray_Pop_inv [OF "1.prems"]
      show ?thesis
        by (simp add: DrainGrayQueue.simps [of E g] marking_gray black_closed_def)
    next
      case False
      let ?g1 = "ScanObject E p (g\<lparr>gray := q\<rparr>)"
      note sp = ScanObject_props [OF "1.prems" pq False]
      have step: "snd (DrainGrayQueue E g) = snd (DrainGrayQueue E ?g1)"
        using pq False by (simp add: DrainGrayQueue.simps [of E g] case_prod_beta)
      let ?g' = "snd (DrainGrayQueue E ?g1)"
      from "1.IH" [OF pq [symmetric] refl False sp(2)]
      have ih: "marking ?g1 ?g'" "gray_inv (gray ?g')" "gray_set ?g' = {}" "marked ?g1 \<subseteq> marked ?g'"
        "marked ?g' \<subseteq> marked ?g1 \<union> reach E (heap ?g1) (gray_set ?g1)"
        "(\<Union>p \<in> gray_set ?g1. refs E (heap ?g1) p) \<subseteq> marked ?g'"
        "black_closed E ?g1 \<Longrightarrow> black_closed E ?g'"
        "marked ?g' \<subseteq> marked ?g1 \<union> reach E (heap ?g1) (\<Union>p \<in> gray_set ?g1. refs E (heap ?g1) p)"
        by blast+
      have "reach E (heap g) (gray_set ?g1) \<subseteq> reach E (heap g) (gray_set g)"
      proof -
        have "gray_set ?g1 \<subseteq> reach E (heap g) (gray_set g)"
          using sp(3,5) refs_reach [of p "gray_set g" E "heap g"] reach_refl [of "gray_set g" E "heap g"]
          by auto
        from reach_mono [OF this, of E "heap g"] show ?thesis by (simp add: reach_idem)
      qed
      moreover have "refs E (heap g) p \<subseteq> reach E (heap g) (gray_set g)"
        using sp(3) by (intro refs_reach) simp
      ultimately have "marked ?g' \<subseteq> marked g \<union> reach E (heap g) (gray_set g)"
        using ih(5) unfolding sp(4) reach_cong [OF sp(1)] by blast
      moreover have "(\<Union>p \<in> gray_set g. refs E (heap g) p) \<subseteq> marked ?g'"
        using ih(4,6) sp(3,4,5) unfolding refs_cong [OF sp(1)] by auto
      moreover have "marked ?g' \<subseteq> marked g \<union> reach E (heap g) (\<Union>p \<in> gray_set g. refs E (heap g) p)"
        using ih(8) scanned_step [OF sp(3,5)]
        unfolding sp(4) refs_cong [OF sp(1)] reach_cong [OF sp(1)] by blast
      moreover have "marked g \<subseteq> marked ?g'" using ih(4) sp(4) by auto
      ultimately show ?thesis
        using ih(2,3,7) sp(6) marking_trans [OF sp(1) ih(1)] unfolding step by blast
    qed
  qed
  then show "marking g g'" "gray_inv (gray g')" "gray_set g' = {}" "marked g \<subseteq> marked g'"
    "marked g' \<subseteq> marked g \<union> reach E (heap g) (gray_set g)"
    "(\<Union>p \<in> gray_set g. refs E (heap g) p) \<subseteq> marked g'"
    "black_closed E g \<Longrightarrow> black_closed E g'"
    "marked g' \<subseteq> marked g \<union> reach E (heap g) (\<Union>p \<in> gray_set g. refs E (heap g) p)" by blast+
qed

section \<open>The frame of a mark phase\<close>

definition marks :: "GC \<Rightarrow> GC \<Rightarrow> bool" where
  "marks g g' \<longleftrightarrow> same_but_marks (heap g) (heap g') \<and>
     (\<exists>h n q l s t. g' = g\<lparr>heap := h, m_markedThisCycle := n, gray := q, slog := l, satb := s, cards := t\<rparr>) \<and>
     unmarked g' \<subseteq> unmarked g \<and>
     m_markedThisCycle g' + card (unmarked g') = m_markedThisCycle g + card (unmarked g)"

lemma marks_frame:
  assumes "marks g g'"
  obtains h n q l s t where
    "g' = g\<lparr>heap := h, m_markedThisCycle := n, gray := q, slog := l, satb := s, cards := t\<rparr>"
  using assms by (auto simp: marks_def)

lemma marks_sel:
  assumes "marks g g'"
  shows "arr g' = arr g" "spans g' = spans g" "candidates g' = candidates g" "deferred g' = deferred g"
    "m_phase g' = m_phase g" "m_cycleCounter g' = m_cycleCounter g"
    "g_CurrentReachabilityIndex g' = g_CurrentReachabilityIndex g"
    "g_XGCIsConcurrentMarkActive g' = g_XGCIsConcurrentMarkActive g" "ticks g' = ticks g"
    "begin_calls g' = begin_calls g" "finish_calls g' = finish_calls g"
  by (rule marks_frame [OF assms], simp)+

lemma marks_heap: "marks g g' \<Longrightarrow> same_but_marks (heap g) (heap g')"
  by (simp add: marks_def)

lemma marks_trans:
  assumes a: "marks g g'" and b: "marks g' g''"
  shows "marks g g''"
proof -
  obtain h n q l s t where "g' = g\<lparr>heap := h, m_markedThisCycle := n, gray := q, slog := l, satb := s, cards := t\<rparr>"
    by (rule marks_frame [OF a])
  moreover obtain h' n' q' l' s' t' where
    "g'' = g'\<lparr>heap := h', m_markedThisCycle := n', gray := q', slog := l', satb := s', cards := t'\<rparr>"
    by (rule marks_frame [OF b])
  ultimately have "\<exists>h n q l s t. g'' = g\<lparr>heap := h, m_markedThisCycle := n, gray := q, slog := l, satb := s, cards := t\<rparr>"
    by (intro exI [of _ h'] exI [of _ n'] exI [of _ q'] exI [of _ l'] exI [of _ s'] exI [of _ t']) simp
  with a b show ?thesis
    unfolding marks_def by (auto intro: same_but_marks_trans)
qed

lemma marking_marks:
  assumes "marking g g'" shows "marks g g'"
proof -
  obtain h n q where "g' = g\<lparr>heap := h, m_markedThisCycle := n, gray := q\<rparr>"
    by (rule marking_frame [OF assms])
  then have "\<exists>h n q l s t. g' = g\<lparr>heap := h, m_markedThisCycle := n, gray := q, slog := l, satb := s, cards := t\<rparr>"
    by (intro exI [of _ h] exI [of _ n] exI [of _ q] exI [of _ "slog g"] exI [of _ "satb g"] exI [of _ "cards g"]) simp
  with assms show ?thesis by (simp add: marks_def marking_def)
qed

lemma unmarked_queues [simp]:
  "unmarked (g\<lparr>slog := l\<rparr>) = unmarked g" "unmarked (g\<lparr>satb := s\<rparr>) = unmarked g"
  "unmarked (g\<lparr>cards := t\<rparr>) = unmarked g"
  by (simp_all add: unmarked_def CurrentCycleReachabilityMask_def)

lemma marked_queues [simp]:
  "marked (g\<lparr>slog := l\<rparr>) = marked g" "marked (g\<lparr>satb := s\<rparr>) = marked g"
  "marked (g\<lparr>cards := t\<rparr>) = marked g"
  by (simp_all add: marked_def)

lemma marks_queues:
  "marks g (g\<lparr>slog := l\<rparr>)" "marks g (g\<lparr>satb := s\<rparr>)" "marks g (g\<lparr>cards := t\<rparr>)"
proof -
  have *: "marks g (g\<lparr>heap := heap g, m_markedThisCycle := m_markedThisCycle g, gray := gray g,
      slog := l, satb := s, cards := t\<rparr>)" for l s t
    unfolding marks_def by (intro conjI exI) (rule refl | simp)+
  show "marks g (g\<lparr>slog := l\<rparr>)" using * [where l = l and s = "satb g" and t = "cards g"] by simp
  show "marks g (g\<lparr>satb := s\<rparr>)" using * [where l = "slog g" and s = s and t = "cards g"] by simp
  show "marks g (g\<lparr>cards := t\<rparr>)" using * [where l = "slog g" and s = "satb g" and t = t] by simp
qed

lemma marks_refs:
  assumes "marks g g'"
  shows "refs E (heap g') p = refs E (heap g) p" "reach E (heap g') S = reach E (heap g) S"
  by (simp_all add: reach_def edges_def refs_ScanRefs ScanRefs_cong [OF marks_heap [OF assms]])

section \<open>Draining the captured values\<close>

lemma DrainSatbLog_spec:
  fixes E :: env and g :: GC
  defines "g' \<equiv> snd (DrainSatbLog g)"
  shows "marks g g'" "captured (satb g') (slog g') = []" "cards g' = cards g"
    "marked g' = marked g \<union> (set (captured (satb g) (slog g)) - {nullptr})"
    "gray_set g' = gray_set g \<union> (set (captured (satb g) (slog g)) - {nullptr} - marked g)"
    "gray_inv (gray g) \<Longrightarrow> gray_inv (gray g')"
    "fst (DrainSatbLog g) = length (captured (satb g) (slog g))"
    "black_closed E g \<Longrightarrow> black_closed E g'"
proof -
  let ?g1 = "fold PushRef (log_entries (slog g)) g"
  let ?g2 = "?g1\<lparr>slog := (slog g)\<lparr>log_entries := []\<rparr>\<rparr>"
  let ?g3 = "fold PushRef (sq_entries (satb g)) ?g2"
  have s1: "satb ?g2 = satb g" using marking_sel(2) [OF marking_fold [of g]] by simp
  have g': "g' = ?g3\<lparr>satb := (satb g)\<lparr>sq_entries := []\<rparr>\<rparr>"
    using s1 by (simp add: g'_def DrainSatbLog_def Log_DrainAll_def Satb_DrainTo_def Let_def)
  have f: "slog ?g3 = (slog g)\<lparr>log_entries := []\<rparr>" "cards ?g3 = cards g"
    using marking_sel [OF marking_fold [of ?g2]] marking_sel [OF marking_fold [of g]] by simp_all
  show m: "marks g g'"
    unfolding g' by (rule marks_trans [OF marks_trans [OF marks_trans [OF marking_marks [OF marking_fold] marks_queues(1)]
            marking_marks [OF marking_fold]] marks_queues(2)])
  show "captured (satb g') (slog g') = []" "cards g' = cards g" by (simp_all add: g' captured_def f)
  show mk: "marked g' = marked g \<union> (set (captured (satb g) (slog g)) - {nullptr})"
    unfolding g' by (auto simp: fold_PushRef captured_def)
  show gr: "gray_set g' = gray_set g \<union> (set (captured (satb g) (slog g)) - {nullptr} - marked g)"
    unfolding g' by (auto simp: fold_PushRef captured_def)
  show "gray_inv (gray g) \<Longrightarrow> gray_inv (gray g')" unfolding g' by (simp add: fold_PushRef)
  show "fst (DrainSatbLog g) = length (captured (satb g) (slog g))"
    using s1 by (simp add: DrainSatbLog_def Log_DrainAll_def Satb_DrainTo_def Let_def Satb_Size_def captured_def)
  show "black_closed E g \<Longrightarrow> black_closed E g'"
    unfolding black_closed_def using mk gr marks_refs(1) [OF m] by auto
qed

section \<open>Draining the dirty cards\<close>

text \<open>The objects the drain looks at: those whose first byte lies on a dirty card.\<close>

definition on_dirty_card :: "FXObjectGCCardTable \<Rightarrow> ptr \<Rightarrow> bool" where
  "on_dirty_card t p \<longleftrightarrow> \<not> p < m_heapBaseAddr t \<and> \<not> p - m_heapBaseAddr t \<ge> m_heapByteSize t
     \<and> card_index t p \<in> dirty_cards t"

definition dirty_objects :: "GC \<Rightarrow> ptr list" where
  "dirty_objects g = filter (on_dirty_card (cards g)) (map snd (ForEachObject (arr g)))"

lemma fold_capped:
  "length xs + length ys \<le> Cap \<Longrightarrow>
     fold (\<lambda>i xs. if length xs < Cap then xs @ [i] else xs) ys xs = xs @ ys"
  by (induction ys arbitrary: xs) auto

lemma ScanObjectCounting_snd:
  "snd (ScanObjectCounting E p s) = fold PushRef (ScanRefs E (heap (snd s)) p) (snd s)"
  by (simp add: ScanObjectCounting_def snd_fold_counting)

lemma fold_scan_some:
  assumes "marking g0 (snd s)"
    and "\<And>s p. marking g0 (snd s) \<Longrightarrow> F p s = (if P p then ScanObjectCounting E p s else s)"
  shows "snd (fold (\<lambda>(i, p). F p) xs s)
     = fold PushRef (concat (map (ScanRefs E (heap g0)) (filter P (map snd xs)))) (snd s)"
  using assms(1)
proof (induction xs arbitrary: s)
  case (Cons x xs)
  obtain i p where x: "x = (i, p)" by fastforce
  show ?case
  proof (cases "P p")
    case False
    with Cons x assms(2) [OF Cons.prems] show ?thesis by simp
  next
    case True
    have "snd (F p s) = fold PushRef (ScanRefs E (heap g0) p) (snd s)"
      using assms(2) [OF Cons.prems] True
      by (simp add: ScanObjectCounting_snd ScanRefs_cong [OF marking_heap [OF Cons.prems]])
    moreover from this have "marking g0 (snd (F p s))"
      using marking_trans [OF Cons.prems marking_fold] by simp
    ultimately show ?thesis using Cons.IH [of "F p s"] x True by simp
  qed
qed simp

lemma DrainDirtyCards_clean:
  assumes "card_inv (cards g)" "dirty_cards (cards g) = {}"
  shows "fst (DrainDirtyCards E g) = 0" "marks g (snd (DrainDirtyCards E g))"
    "gray (snd (DrainDirtyCards E g)) = gray g" "marked (snd (DrainDirtyCards E g)) = marked g"
    "card_inv (cards (snd (DrainDirtyCards E g)))" "dirty_cards (cards (snd (DrainDirtyCards E g))) = {}"
    "m_dirtyCount (cards (snd (DrainDirtyCards E g))) = 0"
    "satb (snd (DrainDirtyCards E g)) = satb g" "slog (snd (DrainDirtyCards E g)) = slog g"
    "heap (snd (DrainDirtyCards E g)) = heap g"
proof -
  have z: "m_dirtyCount (cards g) = 0"
    using card_inv_count [OF assms(1)] assms(2) by (simp add: unat_eq_0)
  let ?C = "max (unat (m_dirtyCount (cards g))) kStackBufferSize"
  have "\<exists>t. DrainDirtyCards E g = (0, g\<lparr>cards := t\<rparr>)
      \<and> card_inv t \<and> dirty_cards t = {} \<and> m_dirtyCount t = 0"
  proof (cases "m_totalCards (cards g) = 0")
    case True
    with assms z show ?thesis by (intro exI [of _ "cards g"]) (simp add: DrainDirtyCards_def)
  next
    case False
    let ?V = "\<lambda>i xs. if length xs < (if unat (m_dirtyCount (cards g)) > kStackBufferSize
                 then unat (m_dirtyCount (cards g)) else kStackBufferSize) then xs @ [i] else xs"
    obtain k t ds where f: "ForEachDirtyCardAndClear ?V (cards g) [] = (k, t, ds)" by (rule prod_cases3)
    have "ds = []" "card_inv t" "dirty_cards t = {}" "m_dirtyCount t = 0"
      using ForEachDirtyCardAndClear_spec [OF assms(1), of ?V "[]"] f assms(2) by simp_all
    with f False show ?thesis by (intro exI [of _ t]) (simp add: DrainDirtyCards_def Let_def)
  qed
  then obtain t where "DrainDirtyCards E g = (0, g\<lparr>cards := t\<rparr>)"
      "card_inv t" "dirty_cards t = {}" "m_dirtyCount t = 0" by blast
  then show "fst (DrainDirtyCards E g) = 0" "marks g (snd (DrainDirtyCards E g))"
    "gray (snd (DrainDirtyCards E g)) = gray g" "marked (snd (DrainDirtyCards E g)) = marked g"
    "card_inv (cards (snd (DrainDirtyCards E g)))" "dirty_cards (cards (snd (DrainDirtyCards E g))) = {}"
    "m_dirtyCount (cards (snd (DrainDirtyCards E g))) = 0"
    "satb (snd (DrainDirtyCards E g)) = satb g" "slog (snd (DrainDirtyCards E g)) = slog g"
    "heap (snd (DrainDirtyCards E g)) = heap g"
    by (simp_all add: marks_queues)
qed

lemma DrainDirtyCards_dirty:
  assumes ci: "card_inv (cards g)" and ne: "dirty_cards (cards g) \<noteq> {}"
  obtains t where "card_inv t" "dirty_cards t = {}" "m_dirtyCount t = 0"
    "snd (DrainDirtyCards E g) = snd (DrainGrayQueue E
       (fold PushRef (concat (map (ScanRefs E (heap g)) (dirty_objects g))) (g\<lparr>cards := t\<rparr>)))"
proof -
  let ?n = "unat (m_dirtyCount (cards g))"
  let ?Cap = "if ?n > kStackBufferSize then ?n else kStackBufferSize"
  let ?V = "\<lambda>i xs. if length xs < ?Cap then xs @ [i] else xs"
  obtain k t ds where f: "ForEachDirtyCardAndClear ?V (cards g) [] = (k, t, ds)" by (rule prod_cases3)
  note sp = ForEachDirtyCardAndClear_spec [OF ci, of ?V "[]"]
  have t: "card_inv t" "dirty_cards t = {}" "m_dirtyCount t = 0" using sp f by simp_all
  have "length (sorted_list_of_set (dirty_cards (cards g))) = ?n"
    using card_inv_count [OF ci] by simp
  then have "ds = sorted_list_of_set (dirty_cards (cards g))"
    using sp(3) f fold_capped [of "[]" "sorted_list_of_set (dirty_cards (cards g))" ?Cap] by simp
  then have ds: "set ds = dirty_cards (cards g)" "ds \<noteq> []" using ne by auto
  have tot: "m_totalCards (cards g) \<noteq> 0"
  proof
    assume z: "m_totalCards (cards g) = 0"
    show False
    proof (cases "m_cards (cards g)")
      case None
      with ne show False by (simp add: dirty_cards_def)
    next
      case (Some cs)
      with card_invD(4) [OF ci Some] z have "cs = []" by simp
      with Some ne show False by (simp add: dirty_cards_def)
    qed
  qed
  have base: "m_heapBaseAddr t = m_heapBaseAddr (cards g)" "m_heapByteSize t = m_heapByteSize (cards g)"
    using f by (auto simp: ForEachDirtyCardAndClear_def Let_def split: option.splits prod.splits)
  let ?F = "\<lambda>Obj s. let Off = Obj - m_heapBaseAddr (cards g) in
              if Obj < m_heapBaseAddr (cards g) \<or> Off \<ge> m_heapByteSize (cards (snd s)) then s
              else if unat (drop_bit kCardShift Off) \<in> set ds then ScanObjectCounting E Obj s else s"
  let ?g1 = "g\<lparr>cards := t\<rparr>"
  have F: "?F p s = (if on_dirty_card (cards g) p then ScanObjectCounting E p s else s)"
    if "marking ?g1 (snd s)" for s p
  proof -
    have "cards (snd s) = t" using marking_sel(4) [OF that] by simp
    then show ?thesis
      by (auto simp: on_dirty_card_def Let_def base card_shift_nat card_index_def ds(1))
  qed
  have "snd (fold (\<lambda>(i, p). ?F p) (ForEachObject (arr g)) (0, ?g1))
      = fold PushRef (concat (map (ScanRefs E (heap g)) (dirty_objects g))) ?g1"
    using fold_scan_some [of ?g1 "(0, ?g1)" ?F "on_dirty_card (cards g)" E "ForEachObject (arr g)"] F
    by (simp add: dirty_objects_def)
  moreover have "snd (DrainDirtyCards E g) = snd (DrainGrayQueue E
      (snd (fold (\<lambda>(i, p). ?F p) (ForEachObject (arr g)) (0, ?g1))))"
  proof -
    have "(0 < length ds) = True" "arr (g\<lparr>cards := t\<rparr>) = arr g" using ds(2) by simp_all
    with tot show ?thesis
      by (simp only: DrainDirtyCards_def Let_def if_False if_True f prod.case case_prod_beta
          snd_conv fst_conv)
  qed
  ultimately show ?thesis using that [OF t] by simp
qed

lemma DrainDirtyCards_all:
  fixes E :: env and g :: GC
  assumes ci: "card_inv (cards g)" and gi: "gray_inv (gray g)"
  defines "g' \<equiv> snd (DrainDirtyCards E g)"
  defines "R \<equiv> (if dirty_cards (cards g) = {} then {} else (\<Union>p \<in> set (dirty_objects g). refs E (heap g) p))"
  shows "marks g g' \<and> gray_inv (gray g') \<and> card_inv (cards g') \<and> dirty_cards (cards g') = {}
    \<and> m_dirtyCount (cards g') = 0 \<and> satb g' = satb g \<and> slog g' = slog g
    \<and> gray_set g' \<subseteq> gray_set g \<and> marked g \<subseteq> marked g' \<and> R \<subseteq> marked g'
    \<and> marked g' \<subseteq> marked g \<union> reach E (heap g) (gray_set g \<union> R)
    \<and> (\<forall>p \<in> gray_set g. p \<in> gray_set g' \<or> refs E (heap g) p \<subseteq> marked g')
    \<and> (black_closed E g \<longrightarrow> black_closed E g')"
proof (cases "dirty_cards (cards g) = {}")
  case True
  note c = DrainDirtyCards_clean [OF ci True, of E]
  have "black_closed E g \<longrightarrow> black_closed E g'" by (simp add: g'_def black_closed_def c)
  with c gi show ?thesis by (simp add: g'_def R_def True)
next
  case False
  from DrainDirtyCards_dirty [OF ci False, of E] obtain t where
    t: "card_inv t" "dirty_cards t = {}" "m_dirtyCount t = 0"
    and g': "g' = snd (DrainGrayQueue E
       (fold PushRef (concat (map (ScanRefs E (heap g)) (dirty_objects g))) (g\<lparr>cards := t\<rparr>)))"
    unfolding g'_def by metis
  let ?rs = "concat (map (ScanRefs E (heap g)) (dirty_objects g))"
  let ?g1 = "g\<lparr>cards := t\<rparr>" let ?g2 = "fold PushRef ?rs ?g1"
  have m2: "marking ?g1 ?g2" by (rule marking_fold)
  have rs: "set ?rs - {nullptr} = R" using False by (auto simp: R_def refs_ScanRefs)
  have mk: "marked ?g2 = marked g \<union> R" and gr: "gray_set ?g2 = gray_set g \<union> (R - marked g)"
    using fold_PushRef(1,3) [of ?rs ?g1] rs by auto
  have gi2: "gray_inv (gray ?g2)" using gi by (intro fold_PushRef(2)) simp
  note tr = DrainGrayQueue_trace [OF gi2, of E, folded g']
  have mm: "marks g g'"
    by (rule marks_trans [OF marks_trans [OF marks_queues(3) marking_marks [OF m2]] marking_marks [OF tr(1)]])
  have r2: "refs E (heap ?g2) p = refs E (heap g) p" "reach E (heap ?g2) S = reach E (heap g) S" for p S
    using refs_cong [OF m2] reach_cong [OF m2] by simp_all
  have "gray_set ?g2 \<subseteq> gray_set g \<union> R" using gr by auto
  then have "reach E (heap g) (gray_set ?g2) \<subseteq> reach E (heap g) (gray_set g \<union> R)" by (rule reach_mono)
  moreover have "R \<subseteq> reach E (heap g) (gray_set g \<union> R)" using reach_refl by blast
  ultimately have up: "marked g' \<subseteq> marked g \<union> reach E (heap g) (gray_set g \<union> R)"
    using tr(5) mk unfolding r2 by blast
  have bc: "black_closed E g \<longrightarrow> black_closed E g'"
  proof
    assume "black_closed E g"
    then have "black_closed E ?g2" unfolding black_closed_def r2 using mk gr by auto
    then show "black_closed E g'" by (rule tr(7))
  qed
  have down: "marked g \<subseteq> marked g'" "R \<subseteq> marked g'" using tr(4) mk by auto
  have sc: "\<forall>p \<in> gray_set g. p \<in> gray_set g' \<or> refs E (heap g) p \<subseteq> marked g'"
    using tr(6) gr unfolding r2 by blast
  have fr: "cards g' = t" "satb g' = satb g" "slog g' = slog g"
    using marking_sel [OF tr(1)] marking_sel [OF m2] by simp_all
  show ?thesis using mm tr(2,3) t fr down up bc sc by simp
qed

lemmas DrainDirtyCards_spec =
  DrainDirtyCards_all [THEN conjunct1]
  DrainDirtyCards_all [THEN conjunct2, THEN conjunct1]
  DrainDirtyCards_all [THEN conjunct2, THEN conjunct2, THEN conjunct1]
  DrainDirtyCards_all [THEN conjunct2, THEN conjunct2, THEN conjunct2, THEN conjunct1]
  DrainDirtyCards_all [THEN conjunct2, THEN conjunct2, THEN conjunct2, THEN conjunct2, THEN conjunct1]
  DrainDirtyCards_all [THEN conjunct2, THEN conjunct2, THEN conjunct2, THEN conjunct2, THEN conjunct2, THEN conjunct1]
  DrainDirtyCards_all [THEN conjunct2, THEN conjunct2, THEN conjunct2, THEN conjunct2, THEN conjunct2, THEN conjunct2, THEN conjunct1]
  DrainDirtyCards_all [THEN conjunct2, THEN conjunct2, THEN conjunct2, THEN conjunct2, THEN conjunct2, THEN conjunct2, THEN conjunct2, THEN conjunct1]
  DrainDirtyCards_all [THEN conjunct2, THEN conjunct2, THEN conjunct2, THEN conjunct2, THEN conjunct2, THEN conjunct2, THEN conjunct2, THEN conjunct2, THEN conjunct1]
  DrainDirtyCards_all [THEN conjunct2, THEN conjunct2, THEN conjunct2, THEN conjunct2, THEN conjunct2, THEN conjunct2, THEN conjunct2, THEN conjunct2, THEN conjunct2, THEN conjunct1]
  DrainDirtyCards_all [THEN conjunct2, THEN conjunct2, THEN conjunct2, THEN conjunct2, THEN conjunct2, THEN conjunct2, THEN conjunct2, THEN conjunct2, THEN conjunct2, THEN conjunct2, THEN conjunct1]
  DrainDirtyCards_all [THEN conjunct2, THEN conjunct2, THEN conjunct2, THEN conjunct2, THEN conjunct2, THEN conjunct2, THEN conjunct2, THEN conjunct2, THEN conjunct2, THEN conjunct2, THEN conjunct2, THEN conjunct1]
  DrainDirtyCards_all [THEN conjunct2, THEN conjunct2, THEN conjunct2, THEN conjunct2, THEN conjunct2, THEN conjunct2, THEN conjunct2, THEN conjunct2, THEN conjunct2, THEN conjunct2, THEN conjunct2, THEN conjunct2]

end
