(* ===== verification/MarkCycle.thy ===== *)
theory MarkCycle
  imports CollectorProps
begin

text \<open>
  The mark phase as a whole: the final drain returns, the roots, and the set of objects a
  cycle marks when no mutator interferes; then the sweep: which slots become candidates and
  what the destruction pass does to them.
\<close>

section \<open>The final drain\<close>

definition captured_set :: "GC \<Rightarrow> ptr set" where
  "captured_set g = set (captured (satb g) (slog g)) - {nullptr}"

definition dirty_refs :: "env \<Rightarrow> GC \<Rightarrow> ptr set" where
  "dirty_refs E g = (\<Union>p \<in> set (dirty_objects g). refs E (heap g) p)"

definition drain_turn :: "env \<Rightarrow> GC \<Rightarrow> GC" where
  "drain_turn E g = snd (DrainDirtyCards E (snd (DrainSatbLog (snd (DrainGrayQueue E g)))))"

lemma no_dirty_objects: "dirty_cards (cards g) = {} \<Longrightarrow> dirty_objects g = []"
  by (simp add: dirty_objects_def on_dirty_card_def filter_empty_conv)

lemma FinalDrainLoop_turn:
  "FinalDrainLoop E g =
     (let g1 = snd (DrainGrayQueue E g); SatbDrained = fst (DrainSatbLog g1);
          g2 = snd (DrainSatbLog g1); CardsDrained = fst (DrainDirtyCards E g2); g3 = drain_turn E g in
      if \<not> Gray_IsEmpty (gray g3) then FinalDrainLoop E g3
      else if SatbDrained = 0 \<and> CardsDrained = 0 \<and> Log_Size (slog g3) = 0 \<and> m_dirtyCount (cards g3) = 0
      then Some g3 else FinalDrainLoop E g3)"
  by (subst FinalDrainLoop.simps) (simp only: Let_def case_prod_beta drain_turn_def)

lemma drain_turn_spec:
  fixes E :: env and g :: GC
  assumes gi: "gray_inv (gray g)" and ci: "card_inv (cards g)"
  defines "g' \<equiv> drain_turn E g"
  shows "marks g g'" "gray_inv (gray g')" "card_inv (cards g')" "captured (satb g') (slog g') = []"
    "dirty_cards (cards g') = {}" "m_dirtyCount (cards g') = 0" "marked g \<subseteq> marked g'"
    "captured_set g \<union> dirty_refs E g \<subseteq> marked g'" "(\<Union>p \<in> gray_set g. refs E (heap g) p) \<subseteq> marked g'"
    "gray_set g' \<subseteq> captured_set g"
    "marked g' \<subseteq> marked g \<union> reach E (heap g) (gray_set g \<union> captured_set g \<union> dirty_refs E g)"
    "black_closed E g \<Longrightarrow> black_closed E g'"
proof -
  let ?g1 = "snd (DrainGrayQueue E g)" let ?g2 = "snd (DrainSatbLog ?g1)"
  let ?S = "gray_set g \<union> captured_set g \<union> dirty_refs E g"
  have g': "g' = snd (DrainDirtyCards E ?g2)" by (simp add: g'_def drain_turn_def)
  note a = DrainGrayQueue_trace [OF gi, of E]
  note ma = marking_marks [OF a(1)]
  have cap: "captured (satb ?g1) (slog ?g1) = captured (satb g) (slog g)" and cd: "cards ?g1 = cards g"
    using marking_sel [OF a(1)] by simp_all
  note b = DrainSatbLog_spec(1-6) [of ?g1] and bb = DrainSatbLog_spec(8) [of E ?g1]
  have gi2: "gray_inv (gray ?g2)" and ci2: "card_inv (cards ?g2)"
    using b(6) [OF a(2)] b(3) cd ci by simp_all
  have m2: "marks g ?g2" by (rule marks_trans [OF ma b(1)])
  note c = DrainDirtyCards_spec [OF ci2 gi2, of E, folded g']
  have dobj: "dirty_objects ?g2 = dirty_objects g"
    using b(3) cd marks_sel(1) [OF m2] by (simp add: dirty_objects_def)
  have R: "(if dirty_cards (cards ?g2) = {} then {} else (\<Union>p \<in> set (dirty_objects ?g2). refs E (heap ?g2) p))
      = dirty_refs E g"
    using no_dirty_objects [of ?g2] dobj by (auto simp: dirty_refs_def marks_refs [OF m2])
  note c = c [unfolded R, unfolded marks_refs [OF m2]]
  have mk2: "marked ?g2 = marked ?g1 \<union> captured_set g" and
    gr2: "gray_set ?g2 = captured_set g - marked ?g1"
    using b(4,5) cap a(3) by (simp_all add: captured_set_def)
  show "marks g g'" by (rule marks_trans [OF m2 c(1)])
  show "gray_inv (gray g')" "card_inv (cards g')" "dirty_cards (cards g') = {}" "m_dirtyCount (cards g') = 0"
    by (rule c(2-5))+
  show "captured (satb g') (slog g') = []" using c(6,7) b(2) by simp
  show "marked g \<subseteq> marked g'" using a(4) mk2 c(9) by blast
  show "captured_set g \<union> dirty_refs E g \<subseteq> marked g'" using mk2 c(9,10) by blast
  show "(\<Union>p \<in> gray_set g. refs E (heap g) p) \<subseteq> marked g'" using a(6) mk2 c(9) by blast
  show "gray_set g' \<subseteq> captured_set g" using c(8) gr2 by blast
  have "marked ?g1 \<subseteq> marked g \<union> reach E (heap g) ?S"
    using a(5) reach_mono [of "gray_set g" ?S E "heap g"] by auto
  moreover have "captured_set g \<subseteq> reach E (heap g) ?S" using reach_refl [of ?S E "heap g"] by blast
  moreover have "reach E (heap g) (gray_set ?g2 \<union> dirty_refs E g) \<subseteq> reach E (heap g) ?S"
    using gr2 by (intro reach_mono) blast
  ultimately show "marked g' \<subseteq> marked g \<union> reach E (heap g) ?S" using c(11) mk2 by blast
  show "black_closed E g \<Longrightarrow> black_closed E g'" using a(7) bb c(13) by blast
qed

lemma drain_turn_quiet:
  fixes E :: env and g :: GC
  assumes gi: "gray_inv (gray g)" and ci: "card_inv (cards g)"
    and "captured (satb g) (slog g) = []" "dirty_cards (cards g) = {}"
  shows "FinalDrainLoop E g = Some (drain_turn E g)" "gray_set (drain_turn E g) = {}"
proof -
  let ?g1 = "snd (DrainGrayQueue E g)" let ?g2 = "snd (DrainSatbLog ?g1)"
  note a = DrainGrayQueue_trace [OF gi, of E]
  have g1: "captured (satb ?g1) (slog ?g1) = []" "cards ?g1 = cards g"
    using marking_sel [OF a(1)] assms(3) by simp_all
  note b = DrainSatbLog_spec(1-7) [of ?g1]
  have c2: "card_inv (cards ?g2)" "dirty_cards (cards ?g2) = {}" using b(3) g1(2) assms(2,4) by simp_all
  note c = DrainDirtyCards_clean [OF c2, of E]
  have e: "gray_set ?g2 = {}" using b(5) g1(1) a(3) by simp
  then have "gray_bag (gray (drain_turn E g)) = {#}" using c(3) by (simp add: drain_turn_def)
  moreover have "Log_Size (slog (drain_turn E g)) = 0"
    using drain_turn_spec(4) [OF gi ci, of E] by (simp add: Log_Size_def captured_def)
  moreover have "fst (DrainSatbLog ?g1) = 0" using b(7) g1(1) by simp
  moreover have "m_dirtyCount (cards (drain_turn E g)) = 0" using c(7) by (simp add: drain_turn_def)
  ultimately show "FinalDrainLoop E g = Some (drain_turn E g)"
    using c(1) by (subst FinalDrainLoop_turn) (simp add: Let_def Gray_IsEmpty_bag)
  show "gray_set (drain_turn E g) = {}" using c(3) e by (simp add: drain_turn_def)
qed

text \<open>The loop exits after at most two turns, and leaves nothing gray, captured or dirty.\<close>

lemma FinalDrainLoop_spec:
  fixes E :: env and g :: GC
  assumes gi: "gray_inv (gray g)" and ci: "card_inv (cards g)"
  obtains g' where "FinalDrainLoop E g = Some g'" "marks g g'" "gray_inv (gray g')" "card_inv (cards g')"
    "captured (satb g') (slog g') = []" "dirty_cards (cards g') = {}" "gray_set g' = {}"
    "marked g \<subseteq> marked g'" "captured_set g \<union> dirty_refs E g \<subseteq> marked g'"
    "(\<Union>p \<in> gray_set g. refs E (heap g) p) \<subseteq> marked g'"
    "marked g' \<subseteq> marked g \<union> reach E (heap g) (gray_set g \<union> captured_set g \<union> dirty_refs E g)"
    "black_closed E g \<Longrightarrow> black_closed E g'"
proof -
  let ?a = "drain_turn E g" let ?b = "drain_turn E ?a"
  let ?S = "gray_set g \<union> captured_set g \<union> dirty_refs E g"
  note a = drain_turn_spec [OF gi ci, of E]
  note q = drain_turn_quiet [OF a(2,3,4,5), of E]
  note b = drain_turn_spec [OF a(2,3), of E]
  show ?thesis
  proof (cases "FinalDrainLoop E g = Some ?a \<and> gray_set ?a = {}")
    case True
    with a show ?thesis using that [of ?a] by blast
  next
    case False
    have "FinalDrainLoop E g = Some ?a \<and> gray_set ?a = {} \<or> FinalDrainLoop E g = FinalDrainLoop E ?a"
      using FinalDrainLoop_turn [of E g, unfolded Let_def Gray_IsEmpty_bag]
      by (simp only: set_mset_eq_empty_iff split: if_splits) blast+
    with False have "FinalDrainLoop E g = FinalDrainLoop E ?a" by (elim disjE) (rule notE)
    from this q(1) have run: "FinalDrainLoop E g = Some ?b" by (rule trans)
    have "captured_set ?a = {}" "dirty_refs E ?a = {}"
      using a(4,5) no_dirty_objects [of ?a] by (simp_all add: captured_set_def dirty_refs_def)
    with b(11) have "marked ?b \<subseteq> marked ?a \<union> reach E (heap g) (gray_set ?a)"
      by (simp add: marks_refs [OF a(1)])
    moreover have "reach E (heap g) (gray_set ?a) \<subseteq> reach E (heap g) ?S"
      using a(10) by (intro reach_mono) blast
    ultimately have "marked ?b \<subseteq> marked g \<union> reach E (heap g) ?S" using a(11) by blast
    then show ?thesis
      using that [OF run marks_trans [OF a(1) b(1)] b(2,3,4,5) q(2)] a(7,8,9,12) b(7,12) by blast
  qed
qed

section \<open>The roots\<close>

definition root_ptrs :: "env \<Rightarrow> GC \<Rightarrow> ptr list" where
  "root_ptrs E g =
     map snd (ForEachRoot (arr g))
     @ map snd (filter (\<lambda>(i, p). GetRefCount (arr g) i \<noteq> 0) (ForEachObject (arr g)))
     @ ForEachValidObjectInSpans (bld E) (IsHeapAddress E) (heap g) (arr g) (spans g)"

definition aro_calls :: "env \<Rightarrow> GC \<Rightarrow> aro_call list" where
  "aro_calls E g = concat (map (\<lambda>(i, p).
     let Fn = lifecycle_fn E (heap g) p Slot_AddReferencedObjects in
     if Fn = nullptr then [] else run_AddReferencedObjects E Fn p (heap g)) (ForEachObject (arr g)))"

text \<open>The callbacks do not look at the mark bits.\<close>

definition aro_stable :: "env \<Rightarrow> bool" where
  "aro_stable E \<longleftrightarrow> (\<forall>Fn p h h'. same_but_marks h h' \<longrightarrow>
     run_AddReferencedObjects E Fn p h' = run_AddReferencedObjects E Fn p h)"

definition aro_marked :: "env \<Rightarrow> GC \<Rightarrow> ptr set" where
  "aro_marked E g = {p. MarkAndPush p \<in> set (aro_calls E g) \<and> p \<noteq> nullptr}"

definition aro_pushed :: "env \<Rightarrow> GC \<Rightarrow> ptr set" where
  "aro_pushed E g = {p. PushOnly p \<in> set (aro_calls E g) \<and> p \<noteq> nullptr}"

text \<open>
  The roots, without the walks that enumerate them: the objects of the table that are pinned or
  counted, the words of the typed spans, the words of the other spans that are the address of an
  object bound to its slot, and what the callbacks mark.
\<close>

definition rooted :: "env \<Rightarrow> GC \<Rightarrow> ptr \<Rightarrow> bool" where
  "rooted E g p \<longleftrightarrow> p \<noteq> nullptr \<and>
     ((\<exists>i. 1 \<le> i \<and> i < m_committedCount (arr g) \<and> EntryObject (m_entries (arr g) i) = p
         \<and> (IsRootPinned (arr g) i \<or> GetRefCount (arr g) i \<noteq> 0))
      \<or> (\<exists>H sp. active_spans (spans g) H = Some sp \<and> ByteLength sp \<noteq> 0 \<and> BaseAddress sp \<noteq> nullptr
         \<and> p \<in> set (span_words (mem (heap g)) sp)
         \<and> (Kind sp = kObject \<or> IsHeapAddress E p \<and> bound_object (heap g) (arr g) p)))"

definition root_set :: "env \<Rightarrow> GC \<Rightarrow> ptr set" where
  "root_set E g = {p. rooted E g p} \<union> aro_marked E g"

lemma root_set_ptrs: "root_set E g = (set (root_ptrs E g) - {nullptr}) \<union> aro_marked E g"
proof -
  have snd: "p \<in> set (map snd xs) \<longleftrightarrow> (\<exists>i. (i, p) \<in> set xs)" for p :: ptr and xs :: "(int \<times> ptr) list"
    by force
  have "p \<in> set (root_ptrs E g) \<and> p \<noteq> nullptr \<longleftrightarrow> rooted E g p" for p
    unfolding root_ptrs_def rooted_def set_append Un_iff ForEachValid_set snd
    by (auto simp: ForEachRoot_set ForEachObject_set)
  then show ?thesis by (auto simp: root_set_def)
qed

lemma fold_push_some:
  assumes "marking g0 (snd s)"
    and "\<And>s x. marking g0 (snd s) \<Longrightarrow> F x s = (if P x then PushRefCounting (snd x) s else s)"
  shows "snd (fold F xs s) = fold PushRef (map snd (filter P xs)) (snd s)"
  using assms(1)
proof (induction xs arbitrary: s)
  case (Cons x xs)
  have "snd (PushRefCounting (snd x) s) = PushRef (snd x) (snd s)"
    using snd_fold_counting [of "[snd x]" s] by simp
  with Cons.IH [of "F x s"] assms(2) [OF Cons.prems, of x] Cons.prems
    marking_trans [OF Cons.prems marking_PushRef]
  show ?case by (cases "P x") auto
qed simp

lemma bound_object_cong: "same_but_marks h h' \<Longrightarrow> bound_object h' a p = bound_object h a p"
  by (simp add: bound_object_def same_but_marks_sel)

lemma ForEachValid_cong:
  assumes "same_but_marks h h'"
  shows "ForEachValidObjectInSpans b IsHeap h' a r = ForEachValidObjectInSpans b IsHeap h a r"
proof -
  have "valid_or_null b IsHeap h' a = valid_or_null b IsHeap h a"
    by (intro ext) (simp add: valid_or_null_exact bound_object_cong [OF assms])
  then show ?thesis
    unfolding ForEachValidObjectInSpans_def span_objects_def same_but_marks_sel(1) [OF assms]
    by (simp only:)
qed

lemma lifecycle_fn_cong: "same_but_marks h h' \<Longrightarrow> lifecycle_fn E h' p sl = lifecycle_fn E h p sl"
  by (simp add: lifecycle_fn_def same_but_marks_sel)

lemma marking_aro: "marking g (run_aro_call c g)"
  by (cases c) (simp_all add: run_aro_call_def marking_gray marking_PushRef)

lemma marking_fold_aro: "marking g (fold run_aro_call cs g)"
  by (induction cs arbitrary: g) (auto intro: marking_aro marking_trans)

lemma fold_dispatch:
  assumes "aro_stable E" "marking g0 (snd s)"
  shows "snd (fold (\<lambda>(i, p). DispatchAddReferencedObjects E p) xs s)
     = fold run_aro_call (concat (map (\<lambda>(i, p).
         let Fn = lifecycle_fn E (heap g0) p Slot_AddReferencedObjects in
         if Fn = nullptr then [] else run_AddReferencedObjects E Fn p (heap g0)) xs)) (snd s)"
  using assms(2)
proof (induction xs arbitrary: s)
  case (Cons x xs)
  obtain i p where x: "x = (i, p)" by fastforce
  note sb = marking_heap [OF Cons.prems]
  let ?cs = "let Fn = lifecycle_fn E (heap g0) p Slot_AddReferencedObjects in
         if Fn = nullptr then [] else run_AddReferencedObjects E Fn p (heap g0)"
  have stable: "run_AddReferencedObjects E fn p (heap (snd s)) = run_AddReferencedObjects E fn p (heap g0)" for fn
    using assms(1) sb by (auto simp: aro_stable_def)
  have step: "snd (DispatchAddReferencedObjects E p s) = fold run_aro_call ?cs (snd s)"
    by (simp add: DispatchAddReferencedObjects_def case_prod_beta lifecycle_fn_cong [OF sb] stable Let_def)
  then have "marking g0 (snd (DispatchAddReferencedObjects E p s))"
    using marking_trans [OF Cons.prems marking_fold_aro] by simp
  from Cons.IH [OF this] step show ?case by (simp add: x)
qed simp

lemma EnumerateRoots_eq:
  assumes "aro_stable E"
  shows "snd (EnumerateRoots E g) = fold run_aro_call (aro_calls E g) (fold PushRef (root_ptrs E g) g)"
proof -
  let ?s1 = "fold (\<lambda>(i, Obj). PushRefCounting Obj) (ForEachRoot (arr g)) (0, g)"
  let ?F2 = "\<lambda>(i, Obj) s. if GetRefCount (arr (snd s)) i = 0 then s else PushRefCounting Obj s"
  let ?s2 = "fold ?F2 (ForEachObject (arr g)) ?s1"
  let ?sp = "ForEachValidObjectInSpans (bld E) (IsHeapAddress E) (heap (snd ?s2)) (arr (snd ?s2)) (spans (snd ?s2))"
  let ?s3 = "fold PushRefCounting ?sp ?s2"
  let ?r1 = "map snd (ForEachRoot (arr g))"
  let ?r2 = "map snd (filter (\<lambda>(i, p). GetRefCount (arr g) i \<noteq> 0) (ForEachObject (arr g)))"
  have e1: "snd ?s1 = fold PushRef ?r1 g"
    using fold_push_some [of g "(0, g)" "\<lambda>(i, Obj). PushRefCounting Obj" "\<lambda>_. True" "ForEachRoot (arr g)"]
    by (simp add: case_prod_beta)
  then have m1: "marking g (snd ?s1)" by (simp add: marking_fold)
  have "?F2 x s = (if (\<lambda>(i, p). GetRefCount (arr g) i \<noteq> 0) x then PushRefCounting (snd x) s else s)"
    if "marking g (snd s)" for s x
    using marking_sel(1) [OF that] by (simp add: case_prod_beta)
  from fold_push_some [OF m1 this] have e2: "snd ?s2 = fold PushRef ?r2 (snd ?s1)" .
  have m2: "marking g (snd ?s2)" unfolding e2 by (rule marking_trans [OF m1 marking_fold])
  have sp: "?sp = ForEachValidObjectInSpans (bld E) (IsHeapAddress E) (heap g) (arr g) (spans g)"
    using marking_sel(1,5) [OF m2] by (simp add: ForEachValid_cong [OF marking_heap [OF m2]])
  have "snd ?s3 = fold PushRef ?sp (snd ?s2)" by (rule snd_fold_counting)
  also have "\<dots> = fold PushRef (ForEachValidObjectInSpans (bld E) (IsHeapAddress E) (heap g) (arr g) (spans g))
      (snd ?s2)" by (simp only: sp)
  also have "\<dots> = fold PushRef (root_ptrs E g) g"
    by (simp only: e2 e1 root_ptrs_def fold_append comp_def)
  finally have e3: "snd ?s3 = fold PushRef (root_ptrs E g) g" .
  then have m3: "marking g (snd ?s3)" by (simp add: marking_fold)
  have "snd (EnumerateRoots E g) = snd (fold (\<lambda>(i, Obj). DispatchAddReferencedObjects E Obj) (ForEachObject (arr g)) ?s3)"
    by (simp only: EnumerateRoots_def Let_def)
  also have "\<dots> = fold run_aro_call (aro_calls E g) (snd ?s3)"
    unfolding aro_calls_def by (rule fold_dispatch [OF assms m3])
  finally show ?thesis using e3 by simp
qed

lemma fold_aro:
  defines "M \<equiv> \<lambda>cs. {p. MarkAndPush p \<in> set cs \<and> p \<noteq> nullptr}"
    and "Q \<equiv> \<lambda>cs. {p. PushOnly p \<in> set cs \<and> p \<noteq> nullptr}"
  shows "marked (fold run_aro_call cs g) = marked g \<union> M cs"
    "gray_inv (gray g) \<Longrightarrow> gray_inv (gray (fold run_aro_call cs g))"
    "gray_set (fold run_aro_call cs g) = gray_set g \<union> (M cs - marked g) \<union> Q cs"
proof (induction cs arbitrary: g)
  case (Cons c cs)
  { case 1 show ?case using Cons(1) by (cases c) (auto simp: run_aro_call_def marked_PushRef M_def) }
  { case 2 then show ?case using Cons(2)
      by (cases c) (simp_all add: run_aro_call_def gray_PushRef Gray_Push_inv) }
  { case 3 show ?case using Cons(3)
      by (cases c) (auto simp: run_aro_call_def gray_PushRef marked_PushRef Gray_Push_bag M_def Q_def) }
qed (simp_all add: M_def Q_def)

lemma EnumerateRoots_spec:
  fixes E :: env and g :: GC
  assumes "aro_stable E" "gray_inv (gray g)"
  defines "g' \<equiv> snd (EnumerateRoots E g)"
  shows "marking g g'" "gray_inv (gray g')" "marked g' = marked g \<union> root_set E g"
    "gray_set g' = gray_set g \<union> (root_set E g - marked g) \<union> aro_pushed E g"
proof -
  let ?g1 = "fold PushRef (root_ptrs E g) g"
  have g': "g' = fold run_aro_call (aro_calls E g) ?g1"
    unfolding g'_def by (rule EnumerateRoots_eq [OF assms(1)])
  show "marking g g'" unfolding g' by (rule marking_trans [OF marking_fold marking_fold_aro])
  show "gray_inv (gray g')" unfolding g' by (intro fold_aro(2) fold_PushRef(2) assms(2))
  show "marked g' = marked g \<union> root_set E g"
    unfolding g' fold_aro(1) fold_PushRef(1) by (auto simp: root_set_ptrs aro_marked_def)
  show "gray_set g' = gray_set g \<union> (root_set E g - marked g) \<union> aro_pushed E g"
    unfolding g' fold_aro(3) fold_PushRef(1,3) by (auto simp: root_set_ptrs aro_marked_def aro_pushed_def)
qed

end
