(* ===== verification/CycleProps.thy ===== *)
theory CycleProps
  imports MarkCycle
begin

text \<open>
  A whole cycle: the mark phase started from the roots, the sweep candidates it leaves, the
  destruction pass over them, and the state the next cycle starts from.
\<close>

section \<open>Congruence of the mark vocabulary\<close>

lemma unmarked_cong:
  "heap g' = heap g \<Longrightarrow> g_CurrentReachabilityIndex g' = g_CurrentReachabilityIndex g \<Longrightarrow> unmarked g' = unmarked g"
  by (simp add: unmarked_def CurrentCycleReachabilityMask_def)

lemma marked_cong:
  "heap g' = heap g \<Longrightarrow> g_CurrentReachabilityIndex g' = g_CurrentReachabilityIndex g \<Longrightarrow> marked g' = marked g"
  using unmarked_cong [of g' g] by (simp add: marked_def)

lemma root_set_cong:
  assumes "heap g' = heap g" "arr g' = arr g" "spans g' = spans g"
  shows "root_set E g' = root_set E g" "aro_pushed E g' = aro_pushed E g"
  unfolding root_set_ptrs root_ptrs_def aro_marked_def aro_pushed_def aro_calls_def assms
  by (rule refl)+

text \<open>What no part of a mark phase touches.\<close>

definition mark_frame :: "GC \<Rightarrow> GC \<Rightarrow> bool" where
  "mark_frame g g' \<longleftrightarrow> same_but_marks (heap g) (heap g') \<and> arr g' = arr g \<and> spans g' = spans g
     \<and> candidates g' = candidates g \<and> deferred g' = deferred g \<and> m_cycleCounter g' = m_cycleCounter g
     \<and> g_CurrentReachabilityIndex g' = g_CurrentReachabilityIndex g \<and> ticks g' = ticks g
     \<and> begin_calls g' = begin_calls g \<and> finish_calls g' = finish_calls g"

lemma mark_frame_refl [simp]: "mark_frame g g"
  by (simp add: mark_frame_def)

lemma mark_frame_trans: "mark_frame g g' \<Longrightarrow> mark_frame g' g'' \<Longrightarrow> mark_frame g g''"
  by (auto simp: mark_frame_def intro: same_but_marks_trans)

lemma marks_mark_frame: "marks g g' \<Longrightarrow> mark_frame g g'"
  by (simp add: mark_frame_def marks_sel marks_heap)

lemma mark_frame_heap: "mark_frame g g' \<Longrightarrow> same_but_marks (heap g) (heap g')"
  by (simp add: mark_frame_def)

lemma mark_frame_refs:
  assumes "mark_frame g g'"
  shows "refs E (heap g') p = refs E (heap g) p" "reach E (heap g') S = reach E (heap g) S"
  by (simp_all add: reach_def edges_def refs_ScanRefs ScanRefs_cong [OF mark_frame_heap [OF assms]])

section \<open>The mark phase\<close>

lemma BeginCycle_spec:
  fixes E :: env and g :: GC
  assumes aro: "aro_stable E" and gi: "gray_inv (gray g)" and ge: "gray_set g = {}"
  defines "g' \<equiv> BeginCycle E g"
  shows "mark_frame g g'" "gray_inv (gray g')" "marked g' = marked g \<union> root_set E g"
    "gray_set g' = (root_set E g - marked g) \<union> aro_pushed E g"
    "cards g' = cards g" "satb g' = satb g" "slog g' = slog g"
    "m_phase g' = kConcurrentMark" "g_XGCIsConcurrentMarkActive g'"
proof -
  let ?g2 = "EnterRootEnumeration (EnterSafePointHandshake (EnterTriggering
    (g\<lparr>m_markedThisCycle := 0, m_lastCycleSaturationFallback := False, gray := Gray_ResetForCycle (gray g)\<rparr>)))"
  let ?g3 = "snd (EnumerateRoots E ?g2)"
  have g': "g' = EnterConcurrentMark (?g3\<lparr>g_XGCSafePointRequested := False\<rparr>)"
    by (simp add: g'_def BeginCycle_def Let_def case_prod_beta)
  have s2: "heap ?g2 = heap g" "arr ?g2 = arr g" "spans ?g2 = spans g" "gray ?g2 = Gray_ResetForCycle (gray g)"
    "candidates ?g2 = candidates g" "deferred ?g2 = deferred g" "m_cycleCounter ?g2 = m_cycleCounter g"
    "g_CurrentReachabilityIndex ?g2 = g_CurrentReachabilityIndex g" "ticks ?g2 = ticks g"
    "begin_calls ?g2 = begin_calls g" "finish_calls ?g2 = finish_calls g"
    "cards ?g2 = cards g" "satb ?g2 = satb g" "slog ?g2 = slog g"
    by (simp_all add: EnterRootEnumeration_def EnterSafePointHandshake_def EnterTriggering_def)
  have gi2: "gray_inv (gray ?g2)" by (simp only: s2 Gray_ResetForCycle_inv [OF gi])
  have ge2: "gray_set ?g2 = {}"
    using ge by (simp add: s2 Gray_ResetForCycle_bag) (simp add: gray_bag_def)
  note r = EnumerateRoots_spec [OF aro gi2]
  have fr: "mark_frame g ?g2" unfolding mark_frame_def s2 by simp
  have f3: "mark_frame g ?g3" by (rule mark_frame_trans [OF fr marks_mark_frame [OF marking_marks [OF r(1)]]])
  show "mark_frame g g'" using f3 by (simp add: g' mark_frame_def EnterConcurrentMark_def)
  have mk: "marked ?g2 = marked g" "root_set E ?g2 = root_set E g" "aro_pushed E ?g2 = aro_pushed E g"
    using s2(1-3,8) marked_cong [of ?g2 g] root_set_cong [of ?g2 g E] by blast+
  have m': "marked g' = marked ?g3" by (rule marked_cong) (simp_all add: g' EnterConcurrentMark_def)
  show "marked g' = marked g \<union> root_set E g" unfolding m' r(3) mk ..
  show "gray_inv (gray g')" using r(2) by (simp add: g' EnterConcurrentMark_def)
  have "gray_set g' = gray_set ?g3" by (simp add: g' EnterConcurrentMark_def)
  then show "gray_set g' = (root_set E g - marked g) \<union> aro_pushed E g"
    unfolding r(4) ge2 mk by simp
  show "cards g' = cards g" "satb g' = satb g" "slog g' = slog g"
    using marking_sel [OF r(1)] by (simp_all add: g' EnterConcurrentMark_def s2)
  show "m_phase g' = kConcurrentMark" "g_XGCIsConcurrentMarkActive g'"
    by (simp_all add: g' EnterConcurrentMark_def)
qed

definition full_scan :: "EXGCOptions \<Rightarrow> GC \<Rightarrow> bool" where
  "full_scan Opts g \<longleftrightarrow> IsSaturated (cards g) \<or> HasGCFlag Opts kForceFullScan"

lemma ConcurrentMark_spec:
  fixes E :: env and g :: GC and Opts :: EXGCOptions
  assumes gi: "gray_inv (gray g)" and ci: "card_inv (cards g)"
  defines "g' \<equiv> ConcurrentMark E Opts g"
  shows "mark_frame g g'" "gray_inv (gray g')" "card_inv (cards g')" "gray_set g' = {}"
    "marked g \<subseteq> marked g'" "marked g' \<subseteq> marked g \<union> reach E (heap g) (gray_set g)"
    "(\<Union>p \<in> gray_set g. refs E (heap g) p) \<subseteq> marked g'"
    "black_closed E g \<Longrightarrow> black_closed E g'"
    "captured (satb g') (slog g') = captured (satb g) (slog g)"
    "dirty_cards (cards g') \<subseteq> dirty_cards (cards g)"
    "m_heapBaseAddr (cards g') = m_heapBaseAddr (cards g)"
    "m_heapByteSize (cards g') = m_heapByteSize (cards g)"
    "marked g' \<subseteq> marked g \<union> reach E (heap g) (\<Union>p \<in> gray_set g. refs E (heap g) p)"
    "full_scan Opts g \<Longrightarrow> dirty_cards (cards g') = {}" "\<not> full_scan Opts g \<Longrightarrow> cards g' = cards g"
proof -
  let ?full = "full_scan Opts g"
  let ?g0 = "if ?full then g\<lparr>m_lastCycleSaturationFallback := True\<rparr> else g"
  let ?g1 = "snd (DrainGrayQueue E ?g0)"
  have s0: "heap ?g0 = heap g" "gray ?g0 = gray g" "cards ?g0 = cards g" "satb ?g0 = satb g"
    "slog ?g0 = slog g" "mark_frame g ?g0" "marked ?g0 = marked g"
    using marked_cong [of "g\<lparr>m_lastCycleSaturationFallback := True\<rparr>" g]
    by (simp_all add: mark_frame_def)
  have gi0: "gray_inv (gray ?g0)" using gi by (simp only: s0)
  note a = DrainGrayQueue_trace [OF gi0, of E, unfolded s0]
  have bc0: "black_closed E ?g0 = black_closed E g" by (simp only: black_closed_def s0)
  obtain t where t: "g' = ?g1\<lparr>cards := t\<rparr>" "card_inv t" "dirty_cards t \<subseteq> dirty_cards (cards g)"
    "m_heapBaseAddr t = m_heapBaseAddr (cards g)" "m_heapByteSize t = m_heapByteSize (cards g)"
    "?full \<longrightarrow> dirty_cards t = {}" "\<not> ?full \<longrightarrow> t = cards g"
  proof (cases ?full)
    case False
    have "g' = ?g1\<lparr>cards := cards g\<rparr>" using False marking_sel(4) [OF a(1)] by (simp add: g'_def ConcurrentMark_def full_scan_def)
    with ci that False show ?thesis by simp
  next
    case True
    let ?r = "ForEachDirtyCardAndClear (\<lambda>i (u :: unit). u) (cards g) ()"
    have "cards ?g1 = cards g" using marking_sel(4) [OF a(1)] by (simp only: s0)
    then have "g' = ?g1\<lparr>cards := fst (snd ?r)\<rparr>"
      using True by (simp add: g'_def ConcurrentMark_def full_scan_def FullHeapScanFallback_def Let_def case_prod_beta)
    moreover have "m_heapBaseAddr (fst (snd ?r)) = m_heapBaseAddr (cards g)"
      "m_heapByteSize (fst (snd ?r)) = m_heapByteSize (cards g)"
      by (simp_all add: ForEachDirtyCardAndClear_def Let_def split: option.splits prod.splits)
    ultimately show ?thesis
      using that True ForEachDirtyCardAndClear_spec(1,2) [OF ci, of "\<lambda>i (u :: unit). u" "()"] by simp
  qed
  have f1: "mark_frame ?g0 ?g1" by (rule marks_mark_frame [OF marking_marks [OF a(1)]])
  show "mark_frame g g'"
    using mark_frame_trans [OF s0(6) f1] by (simp add: t(1) mark_frame_def)
  have m: "marked g' = marked ?g1" by (simp add: t(1))
  show "gray_inv (gray g')" "gray_set g' = {}" using a(2,3) by (simp_all add: t(1))
  show "card_inv (cards g')" "dirty_cards (cards g') \<subseteq> dirty_cards (cards g)"
    "m_heapBaseAddr (cards g') = m_heapBaseAddr (cards g)"
    "m_heapByteSize (cards g') = m_heapByteSize (cards g)" using t by simp_all
  show "marked g \<subseteq> marked g'" "marked g' \<subseteq> marked g \<union> reach E (heap g) (gray_set g)"
    "(\<Union>p \<in> gray_set g. refs E (heap g) p) \<subseteq> marked g'"
    "marked g' \<subseteq> marked g \<union> reach E (heap g) (\<Union>p \<in> gray_set g. refs E (heap g) p)"
    unfolding m by (rule a(4-6,8))+
  show "captured (satb g') (slog g') = captured (satb g) (slog g)"
    using marking_sel(2,3) [OF a(1)] by (simp add: t(1) s0)
  show "full_scan Opts g \<Longrightarrow> dirty_cards (cards g') = {}" "\<not> full_scan Opts g \<Longrightarrow> cards g' = cards g"
    using t(1,6,7) by simp_all
  show "black_closed E g'" if "black_closed E g"
    using a(7) that bc0 by (simp add: t(1) black_closed_def)
qed

text \<open>
  The state a cycle may start from: nothing is gray and the card counter is right.  The marks
  earlier cycles left are closed when every object that carries the current mark bit refers
  only to objects that carry it too, as when no object carries it.
\<close>

definition cycle_ready :: "GC \<Rightarrow> bool" where
  "cycle_ready g \<longleftrightarrow> gray_inv (gray g) \<and> gray_bag (gray g) = {#} \<and> card_inv (cards g)"

definition marks_closed :: "env \<Rightarrow> GC \<Rightarrow> bool" where
  "marks_closed E g \<longleftrightarrow> (\<forall>p \<in> marked g. refs E (heap g) p \<subseteq> marked g)"

lemma marks_closed_none [simp]: "marked g = {} \<Longrightarrow> marks_closed E g"
  by (simp add: marks_closed_def)

text \<open>What the objects that callbacks push without marking them refer to.\<close>

definition aro_scanned :: "env \<Rightarrow> GC \<Rightarrow> ptr set" where
  "aro_scanned E g = (\<Union>p \<in> aro_pushed E g. refs E (heap g) p)"

text \<open>
  What the objects on dirty cards refer to.  A full scan drops the dirty cards without looking
  at the objects on them; otherwise the final drain rescans those objects.
\<close>

definition dirty_scanned :: "env \<Rightarrow> EXGCOptions \<Rightarrow> GC \<Rightarrow> ptr set" where
  "dirty_scanned E Opts g = (if full_scan Opts g then {} else dirty_refs E g)"

lemma dirty_scanned_none [simp]: "dirty_cards (cards g) = {} \<Longrightarrow> dirty_scanned E Opts g = {}"
  by (simp add: dirty_scanned_def dirty_refs_def no_dirty_objects)

lemma dirty_scanned_refs: "dirty_scanned E Opts g \<subseteq> dirty_refs E g"
  by (simp add: dirty_scanned_def)

lemma dirty_refs_cong:
  assumes "mark_frame g g'" "cards g' = cards g"
  shows "dirty_refs E g' = dirty_refs E g"
proof -
  have "arr g' = arr g" using assms(1) by (simp add: mark_frame_def)
  then have "dirty_objects g' = dirty_objects g"
    using assms(2) by (simp add: dirty_objects_def on_dirty_card_def card_index_def)
  then show ?thesis by (simp add: dirty_refs_def mark_frame_refs [OF assms(1)])
qed

lemma MarkPhase_spec:
  fixes E :: env and g :: GC and Opts :: EXGCOptions
  assumes aro: "aro_stable E" and ready: "cycle_ready g"
  obtains g' where "MarkPhase E Opts g = Some g'" "mark_frame g g'" "cycle_ready g'"
    "captured (satb g') (slog g') = []" "dirty_cards (cards g') = {}"
    "marked g \<union> root_set E g \<union> captured_set g \<subseteq> marked g'"
    "marked g' \<subseteq> marked g \<union> reach E (heap g)
       ((root_set E g - marked g) \<union> aro_scanned E g \<union> captured_set g \<union> dirty_scanned E Opts g)"
    "aro_scanned E g \<union> dirty_scanned E Opts g \<subseteq> marked g'"
    "marks_closed E g \<Longrightarrow> \<forall>p \<in> marked g'. refs E (heap g) p \<subseteq> marked g'"
    "m_phase g' = kFinalMarkDrain" "\<not> g_XGCIsConcurrentMarkActive g'"
proof -
  from ready have gi: "gray_inv (gray g)" and ge: "gray_set g = {}" and ci: "card_inv (cards g)"
    by (simp_all add: cycle_ready_def)
  let ?g1 = "BeginCycle E g"
  note a = BeginCycle_spec [OF aro gi ge]
  have ci1: "card_inv (cards ?g1)" by (simp only: a(5) ci)
  let ?g2 = "ConcurrentMark E Opts ?g1"
  note b = ConcurrentMark_spec [OF a(2) ci1, where E = E and Opts = Opts, unfolded a(5-7) mark_frame_refs [OF a(1)]]
  let ?g3 = "?g2\<lparr>m_phase := kFinalMarkDrain\<rparr>"
  have s3: "heap ?g3 = heap ?g2" "gray ?g3 = gray ?g2" "cards ?g3 = cards ?g2" "satb ?g3 = satb ?g2"
    "slog ?g3 = slog ?g2" by simp_all
  have f3: "mark_frame g ?g3"
    using mark_frame_trans [OF a(1) b(1)] by (simp add: mark_frame_def)
  have mk3: "marked ?g3 = marked ?g2" by (rule marked_cong) simp_all
  have gi3: "gray_inv (gray ?g3)" and ci3: "card_inv (cards ?g3)" and ge3: "gray_set ?g3 = {}"
    using b(2,3,4) by simp_all
  have bc3: "black_closed E ?g3 = black_closed E ?g2" by (simp add: black_closed_def mk3)
  obtain g4 where c: "FinalDrainLoop E ?g3 = Some g4" "marks ?g3 g4" "gray_inv (gray g4)"
    "card_inv (cards g4)" "captured (satb g4) (slog g4) = []" "dirty_cards (cards g4) = {}"
    "gray_set g4 = {}" "marked ?g3 \<subseteq> marked g4" "captured_set ?g3 \<union> dirty_refs E ?g3 \<subseteq> marked g4"
    "marked g4 \<subseteq> marked ?g3 \<union> reach E (heap ?g3) (gray_set ?g3 \<union> captured_set ?g3 \<union> dirty_refs E ?g3)"
    "black_closed E ?g3 \<Longrightarrow> black_closed E g4"
    using FinalDrainLoop_spec [OF gi3 ci3, of E] by metis
  let ?g5 = "g4\<lparr>g_XGCIsConcurrentMarkActive := False\<rparr>"
  have run: "MarkPhase E Opts g = Some ?g5" by (simp add: MarkPhase_def EnterFinalMarkDrain_def c(1))
  have mk5: "marked ?g5 = marked g4" by (rule marked_cong) simp_all
  have f4: "mark_frame g g4" by (rule mark_frame_trans [OF f3 marks_mark_frame [OF c(2)]])
  have f5: "mark_frame g ?g5" using f4 by (simp add: mark_frame_def)
  have cap3: "captured_set ?g3 = captured_set g"
    using b(9) by (simp add: captured_set_def)
  have fs: "full_scan Opts ?g1 = full_scan Opts g" by (simp only: full_scan_def a(5))
  have df3: "dirty_refs E ?g3 = dirty_scanned E Opts g"
  proof (cases "full_scan Opts g")
    case True
    then have "dirty_cards (cards ?g3) = {}" using b(14) fs by simp
    with True show ?thesis by (simp add: dirty_scanned_def dirty_refs_def no_dirty_objects)
  next
    case False
    then have "cards ?g3 = cards g" using b(15) fs by simp
    with False dirty_refs_cong [OF f3] show ?thesis by (simp add: dirty_scanned_def)
  qed
  have scanned: "aro_scanned E g \<union> dirty_scanned E Opts g \<subseteq> marked ?g5"
    using b(7) c(8,9) df3 unfolding a(4) mk3 mk5 aro_scanned_def by blast
  have lower: "marked g \<union> root_set E g \<union> captured_set g \<subseteq> marked ?g5"
    using a(3) b(5) mk3 c(8,9) cap3 mk5 by blast
  let ?S = "(root_set E g - marked g) \<union> aro_scanned E g \<union> captured_set g \<union> dirty_scanned E Opts g"
  let ?G = "(root_set E g - marked g) \<union> aro_pushed E g"
  have "marked ?g2 \<subseteq> marked g \<union> root_set E g \<union> reach E (heap g) (\<Union>p \<in> ?G. refs E (heap g) p)"
    using b(13) unfolding a(3,4) .
  moreover have "reach E (heap g) (\<Union>p \<in> ?G. refs E (heap g) p) \<subseteq> reach E (heap g) ?S"
  proof -
    have "refs E (heap g) p \<subseteq> reach E (heap g) ?S" if "p \<in> ?G" for p
    proof (cases "p \<in> aro_pushed E g")
      case True
      then show ?thesis using reach_refl [of ?S E "heap g"] unfolding aro_scanned_def by blast
    next
      case False
      with that show ?thesis by (intro refs_reach) blast
    qed
    then have "(\<Union>p \<in> ?G. refs E (heap g) p) \<subseteq> reach E (heap g) ?S" by blast
    from reach_mono [OF this, of E "heap g"] show ?thesis by (simp only: reach_idem)
  qed
  moreover have "root_set E g \<subseteq> marked g \<union> reach E (heap g) ?S"
    using reach_refl [of ?S E "heap g"] by blast
  moreover have "reach E (heap ?g3) (gray_set ?g3 \<union> captured_set ?g3 \<union> dirty_refs E ?g3) \<subseteq> reach E (heap g) ?S"
    unfolding mark_frame_refs [OF f3] ge3 cap3 df3 by (intro reach_mono) blast
  ultimately have upper: "marked ?g5 \<subseteq> marked g \<union> reach E (heap g) ?S"
    using c(10) mk3 mk5 by blast
  have closed: "\<forall>p \<in> marked ?g5. refs E (heap g) p \<subseteq> marked ?g5" if "marks_closed E g"
  proof -
    have "black_closed E ?g1"
      using that unfolding black_closed_def a(3,4) mark_frame_refs [OF a(1)] marks_closed_def by blast
    with b(8) bc3 c(11) have "black_closed E g4" by blast
    then show ?thesis
      unfolding black_closed_def mk5 c(7) mark_frame_refs [OF f4] by blast
  qed
  have "cycle_ready ?g5" using c(3,4,7) by (simp add: cycle_ready_def)
  moreover have "m_phase ?g5 = kFinalMarkDrain" using marks_sel(5) [OF c(2)] by simp
  ultimately show ?thesis
    using that [OF run f5 _ _ _ lower upper scanned closed] c(5,6) by simp
qed

text \<open>
  From closed marks a mark phase marks what the roots, the captured values, the objects that
  callbacks had scanned and those rescanned on dirty cards reach, beside the marks it started
  with; from any marks it marks nothing more.
\<close>

abbreviation mark_seeds :: "env \<Rightarrow> EXGCOptions \<Rightarrow> GC \<Rightarrow> ptr set" where
  "mark_seeds E Opts g \<equiv> root_set E g \<union> captured_set g \<union> aro_scanned E g \<union> dirty_scanned E Opts g"

lemma MarkPhase_reach:
  assumes "aro_stable E" "cycle_ready g" "MarkPhase E Opts g = Some g'"
  shows "marks_closed E g \<Longrightarrow> reach E (heap g) (mark_seeds E Opts g) \<subseteq> marked g'"
    "marked g' \<subseteq> marked g \<union> reach E (heap g) (mark_seeds E Opts g)"
    "marked g \<subseteq> marked g'"
proof -
  let ?S = "(root_set E g - marked g) \<union> aro_scanned E g \<union> captured_set g \<union> dirty_scanned E Opts g"
  obtain g'' where r: "MarkPhase E Opts g = Some g''"
    "marked g \<union> root_set E g \<union> captured_set g \<subseteq> marked g''"
    "marked g'' \<subseteq> marked g \<union> reach E (heap g) ?S"
    "aro_scanned E g \<union> dirty_scanned E Opts g \<subseteq> marked g''"
    "marks_closed E g \<Longrightarrow> \<forall>p \<in> marked g''. refs E (heap g) p \<subseteq> marked g''"
    using MarkPhase_spec [OF assms(1,2)] by metis
  from r(1) assms(3) have [simp]: "g'' = g'" by simp
  show "marked g \<subseteq> marked g'" using r(2) by simp
  show "reach E (heap g) (mark_seeds E Opts g) \<subseteq> marked g'"
    if "marks_closed E g" using r(2,4) r(5) [OF that] by (intro reach_closed) auto
  have "reach E (heap g) ?S \<subseteq> reach E (heap g) (mark_seeds E Opts g)" by (intro reach_mono) blast
  with r(3) show "marked g' \<subseteq> marked g \<union> reach E (heap g) (mark_seeds E Opts g)" by auto
qed

end
