(* ===== verification/SweepProps.thy ===== *)
theory SweepProps
  imports CycleProps
begin

text \<open>
  The sweep: the candidates the mark phase leaves, the pass that nulls references to garbage,
  the begin-destroy pass, and the cycle put together.
\<close>

section \<open>Candidates\<close>

definition sweep_test :: "GC \<Rightarrow> int \<times> ptr \<Rightarrow> bool" where
  "sweep_test g = (\<lambda>(i, p). p \<in> unmarked g \<and> \<not> IsRootPinnedUnchecked (arr g) i
     \<and> GetRefCount (arr g) i = 0 \<and> \<not> IsPendingDestroyUnchecked (arr g) i)"

definition sweepable :: "GC \<Rightarrow> int list" where
  "sweepable g = map fst (filter (sweep_test g) (ForEachObject (arr g)))"

lemma EnumerateSweepCandidates_spec:
  obtains c where "EnumerateSweepCandidates g = (length (sweepable g), g\<lparr>candidates := c\<rparr>)"
    "sc_entries c = sc_entries (candidates g) @ sweepable g"
proof -
  let ?F = "\<lambda>(i, Obj) (Count, s).
          let Reach = ReachabilityFlag (hdr (heap s) Obj) in
          if Reach AND CurrentCycleReachabilityMask g \<noteq> 0 then (Count, s)
          else if IsRootPinnedUnchecked (arr s) i then (Count, s)
          else if GetRefCount (arr s) i \<noteq> 0 then (Count, s)
          else if IsPendingDestroyUnchecked (arr s) i then (Count, s)
          else (Count + 1, s\<lparr>candidates := Sweep_Append i (candidates s)\<rparr>)"
  have "\<exists>c. fold ?F xs (n, g\<lparr>candidates := c0\<rparr>) = (n + length (filter (sweep_test g) xs), g\<lparr>candidates := c\<rparr>)
      \<and> sc_entries c = sc_entries c0 @ map fst (filter (sweep_test g) xs)" for xs n c0
  proof (induction xs arbitrary: n c0)
    case Nil
    show ?case by (intro exI [of _ c0]) simp
  next
    case (Cons x xs)
    obtain i p where x: "x = (i, p)" by fastforce
    show ?case
    proof (cases "sweep_test g x")
      case True
      have "?F x (n, g\<lparr>candidates := c0\<rparr>) = (n + 1, g\<lparr>candidates := Sweep_Append i c0\<rparr>)"
        using True by (simp add: x sweep_test_def unmarked_def Let_def)
      with Cons.IH [of "n + 1" "Sweep_Append i c0"] True x show ?thesis by auto
    next
      case False
      then have "?F x (n, g\<lparr>candidates := c0\<rparr>) = (n, g\<lparr>candidates := c0\<rparr>)"
        by (auto simp: x sweep_test_def unmarked_def Let_def)
      with Cons.IH [of n c0] False show ?thesis by auto
    qed
  qed
  from this [of "ForEachObject (arr g)" 0 "candidates g"] obtain c where
    "fold ?F (ForEachObject (arr g)) (0, g) = (length (sweepable g), g\<lparr>candidates := c\<rparr>)"
    "sc_entries c = sc_entries (candidates g) @ sweepable g"
    by (auto simp: sweepable_def)
  then show ?thesis using that [of c] by (simp add: EnumerateSweepCandidates_def Let_def)
qed

section \<open>The begin-destroy pass\<close>

text \<open>The begin-destroy callbacks leave the object headers alone.\<close>

definition tame_begin :: "env \<Rightarrow> bool" where
  "tame_begin E \<longleftrightarrow> (\<forall>Fn p h. hdr (run_BeginDestroy E Fn p h) = hdr h)"

abbreviation entry_obj :: "FXObjectArray \<Rightarrow> int \<Rightarrow> ptr" where
  "entry_obj a i \<equiv> EntryObject (m_entries a i)"

abbreviation destroyed :: "XHeap \<Rightarrow> ptr \<Rightarrow> bool" where
  "destroyed h p \<equiv> HasAnyFlags h p BeginDestroyed"

definition begin_call :: "env \<Rightarrow> XHeap \<Rightarrow> ptr \<Rightarrow> (ptr \<times> ptr) list" where
  "begin_call E h p = (let Fn = lifecycle_fn E h p Slot_BeginDestroy in
     if Fn \<noteq> nullptr then [(Fn, p)] else [])"

definition dq_indices :: "GC \<Rightarrow> int list" where
  "dq_indices g = map DQ_InternalIndex (dq_entries (deferred g))"

lemma SetFlags_destroyed: "destroyed (SetFlags p BeginDestroyed h) q \<longleftrightarrow> q = p \<or> destroyed h q"
proof (cases "q = p")
  case True
  then show ?thesis by (simp add: SetFlags_HasAny flag_vals)
next
  case False
  then show ?thesis by (simp add: HasAnyFlags_def GetObjectFlags_def)
qed

lemma set_state_bit_sel:
  "EntryObject (m_entries (snd (set_state_bit m a i)) j) = EntryObject (m_entries a j)"
  "EntrySerialNumber (m_entries (snd (set_state_bit m a i)) j) = EntrySerialNumber (m_entries a j)"
  "m_committedCount (snd (set_state_bit m a i)) = m_committedCount a"
  "m_bumpHead (snd (set_state_bit m a i)) = m_bumpHead a"
  using rewrites_state_sel [OF rewrites_state_set [of a m i]] by simp_all

text \<open>One candidate: nothing happens when it is already being destroyed.\<close>

lemma SweepOne_skip:
  assumes "1 \<le> i" "i < m_committedCount (arr g)" "destroyed (heap g) (entry_obj (arr g) i)"
    "entry_obj (arr g) i \<noteq> nullptr"
  shows "SweepOne E i (n, g) = Inr (n, g)"
  using assms by (simp add: SweepOne_def GetObjectAtIndexUnchecked_def HasAnyFlags_def)

lemma SweepOne_new:
  assumes "1 \<le> i" "i < m_committedCount (arr g)" "\<not> destroyed (heap g) (entry_obj (arr g) i)"
    "entry_obj (arr g) i \<noteq> nullptr" "tame_begin E"
  obtains g' where "SweepOne E i (n, g) = Inr (n + 1, g')"
    "arr g' = snd (SetPendingDestroyBit (arr g) i)" "candidates g' = candidates g"
    "hdr (heap g') = hdr (SetFlags (entry_obj (arr g) i) BeginDestroyed (heap g))"
    "begin_calls g' = begin_calls g @ begin_call E (heap g) (entry_obj (arr g) i)"
    "dq_indices g' = dq_indices g @ [i]"
    "gray g' = gray g" "cards g' = cards g" "satb g' = satb g" "slog g' = slog g" "spans g' = spans g"
    "m_phase g' = m_phase g" "m_cycleCounter g' = m_cycleCounter g"
proof -
  let ?p = "entry_obj (arr g) i"
  let ?g2 = "g\<lparr>heap := SetFlags ?p BeginDestroyed (heap g), arr := snd (SetPendingDestroyBit (arr g) i)\<rparr>"
  let ?Fn = "lifecycle_fn E (heap ?g2) ?p Slot_BeginDestroy"
  let ?g3 = "if ?Fn \<noteq> nullptr
     then ?g2\<lparr>heap := run_BeginDestroy E ?Fn ?p (heap ?g2), begin_calls := begin_calls ?g2 @ [(?Fn, ?p)]\<rparr>
     else ?g2"
  have fn: "?Fn = lifecycle_fn E (heap g) ?p Slot_BeginDestroy" by (simp add: lifecycle_fn_def)
  have run: "SweepOne E i (n, g) = Inr (n + 1, EnqueueAfterBeginDestroy E i ?g3)"
    using assms by (simp add: SweepOne_def GetObjectAtIndexUnchecked_def HasAnyFlags_def Let_def)
  show ?thesis
    by (rule that [OF run])
      (use assms(1,5) fn in \<open>simp_all add: EnqueueAfterBeginDestroy_def ReadClock_def Let_def dq_indices_def
          begin_call_def tame_begin_def Deferred_GrowIfNeededUnderLock_def\<close>)
qed

definition pend :: "int list \<Rightarrow> FXObjectArray \<Rightarrow> FXObjectArray" where
  "pend is a = fold (\<lambda>i a. snd (SetPendingDestroyBit a i)) is a"

lemma pend_sel [simp]:
  "entry_obj (pend is a) j = entry_obj a j" "m_committedCount (pend is a) = m_committedCount a"
  "EntrySerialNumber (m_entries (pend is a) j) = EntrySerialNumber (m_entries a j)"
  by (induction "is" arbitrary: a) (simp_all add: pend_def SetPendingDestroyBit_def set_state_bit_sel)

lemma pend_sets:
  assumes "i \<in> set is" "1 \<le> i \<and> i < m_committedCount a"
  shows "IsPendingDestroyUnchecked (pend is a) i"
proof -
  have keep: "IsPendingDestroyUnchecked a i \<Longrightarrow> IsPendingDestroyUnchecked (snd (SetPendingDestroyBit a j)) i" for a j
    by (auto simp: IsPendingDestroyUnchecked_def SetPendingDestroyBit_def set_state_bit_def Let_def
        word_or_and_nonzero)
  have set: "1 \<le> i \<and> i < m_committedCount a \<Longrightarrow> IsPendingDestroyUnchecked (snd (SetPendingDestroyBit a i)) i" for a
    by (auto simp: IsPendingDestroyUnchecked_def SetPendingDestroyBit_def set_state_bit_def Let_def
        word_or_and_nonzero kPendingDestroyBit_val)
  have keeps: "IsPendingDestroyUnchecked a i \<Longrightarrow> IsPendingDestroyUnchecked (pend js a) i" for a js
    by (induction js arbitrary: a) (simp_all add: pend_def keep)
  from assms show ?thesis
  proof (induction "is" arbitrary: a)
    case (Cons j js)
    let ?a = "snd (SetPendingDestroyBit a j)"
    have "pend (j # js) a = pend js ?a" by (simp add: pend_def)
    moreover have "m_committedCount ?a = m_committedCount a"
      by (simp add: SetPendingDestroyBit_def set_state_bit_sel)
    ultimately show ?case using Cons keeps [of ?a js] set [of a] by (cases "i = j") auto
  qed simp
qed

definition sweep_frame :: "GC \<Rightarrow> GC \<Rightarrow> bool" where
  "sweep_frame g g' \<longleftrightarrow> candidates g' = candidates g \<and> gray g' = gray g \<and> cards g' = cards g
     \<and> satb g' = satb g \<and> slog g' = slog g \<and> spans g' = spans g \<and> m_phase g' = m_phase g
     \<and> m_cycleCounter g' = m_cycleCounter g"

lemma SweepAll:
  assumes "tame_begin E" "distinct (map (entry_obj (arr g)) is)"
    "\<forall>i \<in> set is. 1 \<le> i \<and> i < m_committedCount (arr g) \<and> entry_obj (arr g) i \<noteq> nullptr"
  defines "sw \<equiv> filter (\<lambda>i. \<not> destroyed (heap g) (entry_obj (arr g) i)) is"
  shows "\<exists>g'. fold_res (SweepOne E) is (n, g) = Inr (n + length sw, g') \<and> sweep_frame g g'
     \<and> arr g' = pend sw (arr g)
     \<and> (\<forall>q. destroyed (heap g') q \<longleftrightarrow> destroyed (heap g) q \<or> q \<in> entry_obj (arr g) ` set is)
     \<and> begin_calls g' = begin_calls g @ concat (map (\<lambda>i. begin_call E (heap g) (entry_obj (arr g) i)) sw)
     \<and> dq_indices g' = dq_indices g @ sw
     \<and> (\<forall>q. ReachabilityFlag (hdr (heap g') q) = ReachabilityFlag (hdr (heap g) q))"
  using assms(2,3) unfolding sw_def
proof (induction "is" arbitrary: n g)
  case Nil
  then show ?case by (simp add: sweep_frame_def pend_def)
next
  case (Cons i "is")
  let ?p = "entry_obj (arr g) i"
  have i: "1 \<le> i" "i < m_committedCount (arr g)" "?p \<noteq> nullptr" using Cons.prems by simp_all
  show ?case
  proof (cases "destroyed (heap g) ?p")
    case True
    with SweepOne_skip [OF i(1,2) True i(3), of E n] Cons.IH [of g n] Cons.prems show ?thesis by auto
  next
    case False
    obtain g1 where s: "SweepOne E i (n, g) = Inr (n + 1, g1)"
      "arr g1 = snd (SetPendingDestroyBit (arr g) i)"
      "hdr (heap g1) = hdr (SetFlags ?p BeginDestroyed (heap g))"
      "begin_calls g1 = begin_calls g @ begin_call E (heap g) ?p"
      "dq_indices g1 = dq_indices g @ [i]" "sweep_frame g g1"
      using SweepOne_new [OF i(1,2) False i(3) assms(1), of n] unfolding sweep_frame_def by metis
    have a1: "entry_obj (arr g1) j = entry_obj (arr g) j" "m_committedCount (arr g1) = m_committedCount (arr g)" for j
      by (simp_all add: s(2) SetPendingDestroyBit_def set_state_bit_sel)
    have d1: "destroyed (heap g1) q \<longleftrightarrow> q = ?p \<or> destroyed (heap g) q" for q
      using SetFlags_destroyed [of ?p "heap g" q] s(3) by (simp add: HasAnyFlags_def GetObjectFlags_def)
    have r1: "ReachabilityFlag (hdr (heap g1) q) = ReachabilityFlag (hdr (heap g) q)" for q
      by (simp add: s(3))
    have b1: "begin_call E (heap g1) q = begin_call E (heap g) q" for q
      by (simp add: begin_call_def lifecycle_fn_def s(3))
    have sw: "filter (\<lambda>j. \<not> destroyed (heap g1) (entry_obj (arr g1) j)) is
        = filter (\<lambda>j. \<not> destroyed (heap g) (entry_obj (arr g) j)) is"
    proof (intro filter_cong refl)
      fix x assume "x \<in> set is"
      then have "entry_obj (arr g) x \<in> set (map (entry_obj (arr g)) is)" by simp
      with Cons.prems(1) have "entry_obj (arr g) x \<noteq> ?p" by (metis distinct.simps(2) list.map(2))
      then show "(\<not> destroyed (heap g1) (entry_obj (arr g1) x)) = (\<not> destroyed (heap g) (entry_obj (arr g) x))"
        by (simp add: a1 d1)
    qed
    from Cons.IH [of g1 "n + 1"] Cons.prems obtain g' where
      "fold_res (SweepOne E) is (n + 1, g1) =
         Inr (n + 1 + length (filter (\<lambda>j. \<not> destroyed (heap g) (entry_obj (arr g) j)) is), g')"
      "sweep_frame g1 g'" "arr g' = pend (filter (\<lambda>j. \<not> destroyed (heap g) (entry_obj (arr g) j)) is) (arr g1)"
      "\<forall>q. destroyed (heap g') q \<longleftrightarrow> destroyed (heap g1) q \<or> q \<in> entry_obj (arr g) ` set is"
      "begin_calls g' = begin_calls g1 @ concat (map (\<lambda>i. begin_call E (heap g) (entry_obj (arr g) i))
         (filter (\<lambda>j. \<not> destroyed (heap g) (entry_obj (arr g) j)) is))"
      "dq_indices g' = dq_indices g1 @ filter (\<lambda>j. \<not> destroyed (heap g) (entry_obj (arr g) j)) is"
      "\<forall>q. ReachabilityFlag (hdr (heap g') q) = ReachabilityFlag (hdr (heap g1) q)"
      by (auto simp: a1 sw [unfolded a1] b1)
    with s False d1 r1 show ?thesis by (auto simp: sweep_frame_def pend_def)
  qed
qed

section \<open>The garbage-reference pass\<close>

definition elim_frame :: "GC \<Rightarrow> GC \<Rightarrow> bool" where
  "elim_frame g g' \<longleftrightarrow> hdr (heap g') = hdr (heap g) \<and> (\<forall>i. entry_obj (arr g') i = entry_obj (arr g) i)
     \<and> m_committedCount (arr g') = m_committedCount (arr g) \<and> sweep_frame g g'
     \<and> begin_calls g' = begin_calls g \<and> deferred g' = deferred g"

lemma elim_frame_refl [simp]: "elim_frame g g"
  by (simp add: elim_frame_def sweep_frame_def)

lemma elim_frame_trans: "elim_frame g g' \<Longrightarrow> elim_frame g' g'' \<Longrightarrow> elim_frame g g''"
  by (simp add: elim_frame_def sweep_frame_def)

lemma elim_frame_step:
  "elim_frame g (g\<lparr>heap := (heap g)\<lparr>mem := m\<rparr>\<rparr>)"
  "elim_frame g (g\<lparr>arr := snd (SetGarbageBit (arr g) i)\<rparr>)"
  by (simp_all add: elim_frame_def sweep_frame_def SetGarbageBit_def set_state_bit_sel)

lemma EliminateSlots_frame: "elim_frame (snd s) (snd (EliminateSlots k ps I s))"
proof (induction k ps I s rule: EliminateSlots.induct)
  case (2 k p ps I n g)
  let ?a = "I + word_of_int (Offset p)"
  let ?v = "load_ptr (mem (heap g)) ?a"
  let ?t = "InternalIndex (hdr (heap g) ?v)"
  let ?g1 = "if ?t > 0 then g\<lparr>arr := snd (SetGarbageBit (arr g) ?t)\<rparr> else g"
  let ?g2 = "?g1\<lparr>heap := (heap ?g1)\<lparr>mem := store_null (mem (heap ?g1)) ?a\<rparr>\<rparr>"
  have "elim_frame g ?g1" by (simp add: elim_frame_step)
  then have f2: "elim_frame g ?g2" by (rule elim_frame_trans [OF _ elim_frame_step(1)])
  have step: "EliminateSlots k (p # ps) I (n, g) =
      (if k = 0 \<or> Op p = Op_Terminator then (n, g)
       else if (Op p = Op_Object \<or> Op p = Op_Interface \<or> Op p = Op_ClassProperty)
           \<and> ?v \<noteq> nullptr \<and> IsMarkedAsGarbage (heap g) ?v
         then EliminateSlots (k - 1) ps I (n + 1, ?g2)
       else EliminateSlots (k - 1) ps I (n, g))"
    by (simp add: Let_def)
  show ?case
  proof (cases "k = 0 \<or> Op p = Op_Terminator")
    case True
    then show ?thesis unfolding step by simp
  next
    case F: False
    show ?thesis
    proof (cases "(Op p = Op_Object \<or> Op p = Op_Interface \<or> Op p = Op_ClassProperty)
        \<and> ?v \<noteq> nullptr \<and> IsMarkedAsGarbage (heap g) ?v")
      case True
      then have "elim_frame ?g2 (snd (EliminateSlots (k - 1) ps I (n + 1, ?g2)))"
        using "2.IH" F by (simp add: Let_def)
      with elim_frame_trans [OF f2 this] F True show ?thesis unfolding step by simp
    next
      case False
      then have "elim_frame g (snd (EliminateSlots (k - 1) ps I (n, g)))"
        using "2.IH" F by (auto simp: Let_def)
      with F False show ?thesis unfolding step by auto
    qed
  qed
qed simp

lemma EliminateObject_frame: "elim_frame (snd s) (snd (EliminateObject E p s))"
  by (auto simp: EliminateObject_def Let_def EliminateSlots_frame
      split: option.splits FXObjectRefSchema.splits)

lemma EliminateGarbageRefsPass_frame: "elim_frame g (snd (EliminateGarbageRefsPass E g))"
proof -
  have "elim_frame g (snd (fold (\<lambda>(i, p). EliminateObject E p) xs s))" if "elim_frame g (snd s)" for xs s
    using that
  proof (induction xs arbitrary: s)
    case (Cons x xs)
    with elim_frame_trans [OF Cons.prems EliminateObject_frame] show ?case
      by (cases x) simp
  qed simp
  from this [of "(0, g)" "ForEachObject (arr g)"] show ?thesis
    by (simp add: EliminateGarbageRefsPass_def)
qed

section \<open>The cycle\<close>

text \<open>Distinct live slots hold distinct objects.\<close>

definition entries_inj :: "FXObjectArray \<Rightarrow> bool" where
  "entries_inj a \<longleftrightarrow> (\<forall>i j p. (i, p) \<in> set (ForEachObject a) \<longrightarrow> (j, p) \<in> set (ForEachObject a) \<longrightarrow> i = j)"

lemma sweepable_set:
  "i \<in> set (sweepable g) \<longleftrightarrow> (\<exists>p. (i, p) \<in> set (ForEachObject (arr g)) \<and> sweep_test g (i, p))"
  by (force simp: sweepable_def)

lemma sweepable_ok:
  assumes "entries_inj (arr g)"
  shows "distinct (map (entry_obj (arr g)) (sweepable g))"
    "\<forall>i \<in> set (sweepable g). 1 \<le> i \<and> i < m_committedCount (arr g) \<and> entry_obj (arr g) i \<noteq> nullptr"
proof -
  show "\<forall>i \<in> set (sweepable g). 1 \<le> i \<and> i < m_committedCount (arr g) \<and> entry_obj (arr g) i \<noteq> nullptr"
    by (auto simp: sweepable_set ForEachObject_set)
  have "distinct (sweepable g)"
    using ForEachObject_distinct [of "arr g"] by (simp add: sweepable_def distinct_map_filter)
  moreover have "inj_on (entry_obj (arr g)) (set (sweepable g))"
    using assms by (auto simp: inj_on_def sweepable_set entries_inj_def ForEachObject_set)
  ultimately show "distinct (map (entry_obj (arr g)) (sweepable g))" by (simp add: distinct_map)
qed

lemma hdr_only_cong:
  assumes "hdr h' = hdr h"
  shows "destroyed h' q = destroyed h q" "begin_call E h' q = begin_call E h q"
  unfolding HasAnyFlags_def GetObjectFlags_def begin_call_def lifecycle_fn_def assms by (rule refl)+

lemma sweep_phase:
  fixes E :: env and g :: GC and Opts :: EXGCOptions
  assumes tame: "tame_begin E" and inj: "entries_inj (arr g)" and e: "sc_entries (candidates g) = []"
  defines "sw \<equiv> filter (\<lambda>i. \<not> destroyed (heap g) (entry_obj (arr g) i)) (sweepable g)"
  obtains g' where "EnterSweep E Opts (EnterSweepHandoff g) = Inr g'"
    "\<forall>q. destroyed (heap g') q \<longleftrightarrow> destroyed (heap g) q \<or> q \<in> entry_obj (arr g) ` set (sweepable g)"
    "begin_calls g' = begin_calls g @ concat (map (\<lambda>i. begin_call E (heap g) (entry_obj (arr g) i)) sw)"
    "dq_indices g' = dq_indices g @ sw" "m_lastReclaimedCount g' = length sw"
    "\<forall>q. ReachabilityFlag (hdr (heap g') q) = ReachabilityFlag (hdr (heap g) q)"
    "gray g' = gray g" "cards g' = cards g" "satb g' = satb g" "slog g' = slog g"
    "sc_entries (candidates g') = []" "\<forall>i. entry_obj (arr g') i = entry_obj (arr g) i"
    "m_committedCount (arr g') = m_committedCount (arr g)"
    "\<forall>i \<in> set sw. IsPendingDestroyUnchecked (arr g') i"
proof -
  let ?g0 = "g\<lparr>m_phase := kSweepHandoff\<rparr>"
  have sw0: "sweepable ?g0 = sweepable g"
    by (simp add: sweepable_def sweep_test_def unmarked_cong [of ?g0 g])
  obtain c where "EnumerateSweepCandidates ?g0 = (length (sweepable ?g0), ?g0\<lparr>candidates := c\<rparr>)"
    "sc_entries c = sc_entries (candidates ?g0) @ sweepable ?g0"
    by (rule EnumerateSweepCandidates_spec)
  then have c: "EnumerateSweepCandidates ?g0 = (length (sweepable g), ?g0\<lparr>candidates := c\<rparr>)"
    "sc_entries c = sweepable g"
    using e by (simp_all add: sw0)
  let ?g1 = "?g0\<lparr>candidates := c\<rparr>"
  have h: "EnterSweepHandoff g = ?g1" by (simp add: EnterSweepHandoff_def c(1))
  let ?g2 = "?g1\<lparr>m_phase := kSweep\<rparr>"
  let ?e = "if HasGCFlag Opts kEliminateGarbageRefs then EliminateGarbageRefsPass E ?g2 else (0, ?g2)"
  define g3 where "g3 = (snd ?e)\<lparr>m_lastGarbageRefsClearedCount := fst ?e\<rparr>"
  have "elim_frame ?g2 (snd ?e)" by (simp add: EliminateGarbageRefsPass_frame)
  then have f3: "hdr (heap g3) = hdr (heap g)" "\<forall>i. entry_obj (arr g3) i = entry_obj (arr g) i"
    "m_committedCount (arr g3) = m_committedCount (arr g)" "candidates g3 = c" "gray g3 = gray g"
    "cards g3 = cards g" "satb g3 = satb g" "slog g3 = slog g" "begin_calls g3 = begin_calls g"
    "dq_indices g3 = dq_indices g"
    by (simp_all add: g3_def elim_frame_def sweep_frame_def dq_indices_def)
  have d3: "destroyed (heap g3) q = destroyed (heap g) q" "begin_call E (heap g3) q = begin_call E (heap g) q" for q
    by (rule hdr_only_cong [OF f3(1)])+
  note ok = sweepable_ok [OF inj]
  have ok3: "distinct (map (entry_obj (arr g3)) (sweepable g))"
    "\<forall>i \<in> set (sweepable g). 1 \<le> i \<and> i < m_committedCount (arr g3) \<and> entry_obj (arr g3) i \<noteq> nullptr"
    using ok f3(2,3) by simp_all
  from SweepAll [OF tame ok3, of 0] f3(2) obtain g4 where
    s: "fold_res (SweepOne E) (sweepable g) (0, g3) = Inr (length sw, g4)" "sweep_frame g3 g4"
    "arr g4 = pend sw (arr g3)"
    "\<forall>q. destroyed (heap g4) q \<longleftrightarrow> destroyed (heap g) q \<or> q \<in> entry_obj (arr g) ` set (sweepable g)"
    "begin_calls g4 = begin_calls g @ concat (map (\<lambda>i. begin_call E (heap g) (entry_obj (arr g) i)) sw)"
    "dq_indices g4 = dq_indices g @ sw"
    "\<forall>q. ReachabilityFlag (hdr (heap g4) q) = ReachabilityFlag (hdr (heap g) q)"
    by (auto simp: d3 f3 sw_def)
  let ?g' = "g4\<lparr>candidates := (candidates g4)\<lparr>sc_entries := []\<rparr>, m_lastReclaimedCount := length sw\<rparr>"
  have cand: "sc_entries (candidates g3) = sweepable g" using f3(4) c(2) by simp
  have run: "EnterSweep E Opts (EnterSweepHandoff g) = Inr ?g'"
    unfolding h EnterSweep_def DrainSweepCandidates_def Let_def case_prod_beta g3_def [symmetric] cand s(1)
    by simp
  have fr: "gray g4 = gray g" "cards g4 = cards g" "satb g4 = satb g" "slog g4 = slog g"
    using s(2) f3(5-8) by (simp_all only: sweep_frame_def)
  have a4: "\<forall>i. entry_obj (arr g4) i = entry_obj (arr g) i" "m_committedCount (arr g4) = m_committedCount (arr g)"
    using f3(2,3) by (simp_all add: s(3))
  have p4: "\<forall>i \<in> set sw. IsPendingDestroyUnchecked (arr g4) i"
    unfolding s(3) using ok3(2) by (intro ballI pend_sets) (auto simp: sw_def)
  show ?thesis
    by (rule that [OF run])
      (use s(4-7) fr a4 p4 in \<open>simp_all add: dq_indices_def\<close>)
qed

text \<open>
  A cycle returns; what is destroyed in it was destroyed before or is sweepable after its mark
  phase, and the objects it newly destroys are enqueued and pending.
\<close>

lemma same_but_marks_flags:
  "same_but_marks h h' \<Longrightarrow> destroyed h' q = destroyed h q"
  "same_but_marks h h' \<Longrightarrow> begin_call E h' q = begin_call E h q"
  by (simp_all add: HasAnyFlags_def GetObjectFlags_def same_but_marks_sel begin_call_def lifecycle_fn_cong)

lemma RunCycle_phases:
  fixes E :: env and g :: GC and Opts :: EXGCOptions
  assumes "aro_stable E" "tame_begin E" "cycle_ready g" "sc_entries (candidates g) = []" "entries_inj (arr g)"
  obtains g1 g' where "MarkPhase E Opts g = Some g1" "mark_frame g g1"
    "RunCycle E Opts g = Some (Inr g')"
    "\<forall>q. destroyed (heap g') q \<longleftrightarrow> destroyed (heap g) q \<or> q \<in> entry_obj (arr g) ` set (sweepable g1)"
    "dq_indices g' = dq_indices g @ filter (\<lambda>i. \<not> destroyed (heap g) (entry_obj (arr g) i)) (sweepable g1)"
    "begin_calls g' = begin_calls g @ concat (map (\<lambda>i. begin_call E (heap g) (entry_obj (arr g) i))
       (filter (\<lambda>i. \<not> destroyed (heap g) (entry_obj (arr g) i)) (sweepable g1)))"
    "\<forall>q. ReachabilityFlag (hdr (heap g') q) = ReachabilityFlag (hdr (heap g1) q)"
    "cycle_ready g'" "captured (satb g') (slog g') = []" "dirty_cards (cards g') = {}"
    "sc_entries (candidates g') = []" "m_phase g' = kIdle" "\<not> g_XGCIsConcurrentMarkActive g'"
    "m_cycleCounter g' = m_cycleCounter g + 1"
    "g_CurrentReachabilityIndex g' = ucast ((m_cycleCounter g + 1) mod 3)"
    "\<forall>i \<in> set (filter (\<lambda>i. \<not> destroyed (heap g) (entry_obj (arr g) i)) (sweepable g1)).
        IsPendingDestroyUnchecked (arr g') i"
    "\<forall>i. entry_obj (arr g') i = entry_obj (arr g) i"
    "m_committedCount (arr g') = m_committedCount (arr g)"
proof -
  obtain g1 where m: "MarkPhase E Opts g = Some g1" "mark_frame g g1" "cycle_ready g1"
    "captured (satb g1) (slog g1) = []" "dirty_cards (cards g1) = {}"
    by (rule MarkPhase_spec [OF assms(1,3), of Opts]) blast
  have f1: "arr g1 = arr g" "sc_entries (candidates g1) = []" "begin_calls g1 = begin_calls g"
    "dq_indices g1 = dq_indices g" "same_but_marks (heap g) (heap g1)"
    using m(2) assms(4) by (simp_all add: mark_frame_def dq_indices_def)
  have inj1: "entries_inj (arr g1)" using assms(5) f1(1) by simp
  obtain g2 where s: "EnterSweep E Opts (EnterSweepHandoff g1) = Inr g2"
    "\<forall>q. destroyed (heap g2) q \<longleftrightarrow> destroyed (heap g1) q \<or> q \<in> entry_obj (arr g1) ` set (sweepable g1)"
    "begin_calls g2 = begin_calls g1 @ concat (map (\<lambda>i. begin_call E (heap g1) (entry_obj (arr g1) i))
        (filter (\<lambda>i. \<not> destroyed (heap g1) (entry_obj (arr g1) i)) (sweepable g1)))"
    "dq_indices g2 = dq_indices g1 @ filter (\<lambda>i. \<not> destroyed (heap g1) (entry_obj (arr g1) i)) (sweepable g1)"
    "\<forall>q. ReachabilityFlag (hdr (heap g2) q) = ReachabilityFlag (hdr (heap g1) q)"
    "gray g2 = gray g1" "cards g2 = cards g1" "satb g2 = satb g1" "slog g2 = slog g1"
    "sc_entries (candidates g2) = []" "\<forall>i. entry_obj (arr g2) i = entry_obj (arr g1) i"
    "m_committedCount (arr g2) = m_committedCount (arr g1)"
    "\<forall>i \<in> set (filter (\<lambda>i. \<not> destroyed (heap g1) (entry_obj (arr g1) i)) (sweepable g1)).
        IsPendingDestroyUnchecked (arr g2) i"
    by (rule sweep_phase [OF assms(2) inj1 f1(2), of Opts]) blast
  note fl = same_but_marks_flags [OF f1(5)]
  note s = s [unfolded f1 fl]
  let ?g' = "EndCycle (m_cycleCounter g) g2"
  have run: "RunCycle E Opts g = Some (Inr ?g')"
    using m(1) s(1) by (simp add: RunCycle_def MarkPhase_def)
  have e: "heap ?g' = heap g2" "arr ?g' = arr g2" "gray ?g' = gray g2" "cards ?g' = cards g2"
    "satb ?g' = satb g2" "slog ?g' = slog g2" "candidates ?g' = candidates g2"
    "begin_calls ?g' = begin_calls g2" "dq_indices ?g' = dq_indices g2" "m_phase ?g' = kIdle"
    "\<not> g_XGCIsConcurrentMarkActive ?g'" "m_cycleCounter ?g' = m_cycleCounter g + 1"
    "g_CurrentReachabilityIndex ?g' = ucast ((m_cycleCounter g + 1) mod 3)"
    by (simp_all add: EndCycle_def EnterIdle_def dq_indices_def Let_def)
  show ?thesis
    by (rule that [OF m(1,2) run, unfolded e])
      (use s m(3-5) e in \<open>simp_all add: cycle_ready_def\<close>)
qed

lemma not_rooted:
  assumes "(i, p) \<in> set (ForEachObject (arr g))" "p \<notin> root_set E g"
  shows "\<not> IsRootPinnedUnchecked (arr g) i" "GetRefCount (arr g) i = 0"
proof -
  have "p \<noteq> nullptr" using assms(1) by (simp add: ForEachObject_set)
  moreover have "IsRootPinnedUnchecked (arr g) i \<Longrightarrow> p \<in> set (map snd (ForEachRoot (arr g)))"
    using assms(1) by (force simp: ForEachRoot_def)
  moreover have "GetRefCount (arr g) i \<noteq> 0 \<Longrightarrow>
      p \<in> set (map snd (filter (\<lambda>(i, p). GetRefCount (arr g) i \<noteq> 0) (ForEachObject (arr g))))"
    using assms(1) by force
  ultimately show "\<not> IsRootPinnedUnchecked (arr g) i" "GetRefCount (arr g) i = 0"
    using assms(2) by (auto simp: root_set_ptrs root_ptrs_def)
qed

end
