(* ===== verification/Examples.thy ===== *)
theory Examples
  imports SweepProps
begin

text \<open>
  A small program state on which the theorems are instantiated: three live objects of one
  class with a single reference slot.  Object 1 is pinned and refers to object 2; nothing
  refers to object 3.
\<close>

definition demo_class :: FClass where
  "demo_class = \<lparr>RefSchema = Some (Schema 2 1 (Some [SchemaOp Op_Object 0 56 0 None,
                                                    SchemaOp Op_Terminator 0 0 0 None])),
                 LifecycleTable = None\<rparr>"

definition demo_env :: env where
  "demo_env = \<lparr>bld = Checked, ClassAt = (\<lambda>_. demo_class), IsHeapAddress = (\<lambda>_. False),
     Clock = (\<lambda>n. 0), run_BeginDestroy = (\<lambda>f p h. h), run_IsReady = (\<lambda>f p h. True),
     run_FinishDestroy = (\<lambda>f p h. h), run_AddReferencedObjects = (\<lambda>f p h. [])\<rparr>"

definition demo_hdr :: "u32 \<Rightarrow> ptr \<Rightarrow> XObject" where
  "demo_hdr fl p = \<lparr>ClassPrivate = 0x10,
     InternalIndex = (if p = 0x1000 then 1 else if p = 0x2000 then 2 else if p = 0x3000 then 3 else - 1),
     SerialNumber = 1, Outer = nullptr, NamePrivate = 0, ObjectFlags = 0,
     ReachabilityFlag = (if p = 0x1000 then fl else 0)\<rparr>"

definition demo_mem :: "ptr \<Rightarrow> u8" where
  "demo_mem a = (if a = 0x1039 then 0x20 else 0)"

definition demo_heap :: "u32 \<Rightarrow> XHeap" where
  "demo_heap fl = \<lparr>hdr = demo_hdr fl, mem = demo_mem\<rparr>"

definition demo_entry :: "ptr \<Rightarrow> u64 \<Rightarrow> FXObjectArrayEntry" where
  "demo_entry p b = FXObjectArrayEntry_default\<lparr>EntryObject := p, EntrySerialNumber := 1, StateBits := b\<rparr>"

definition demo_arr :: FXObjectArray where
  "demo_arr = \<lparr>m_entries = (\<lambda>_. FXObjectArrayEntry_default)
       (1 := demo_entry 0x1000 4, 2 := demo_entry 0x2000 0, 3 := demo_entry 0x3000 0),
     m_committedCount = 32768, m_bumpHead = 4, m_numLive = 3, m_freeList = [], m_freeListCapacity = 0\<rparr>"

definition demo_gc :: "u32 \<Rightarrow> GC" where
  "demo_gc fl = \<lparr>heap = demo_heap fl, arr = demo_arr, gray = FXGrayQueue_ctor,
     satb = FXObjectSatbQueue_ctor, slog = FXObjectGlobalSatbLog_ctor, cards = FXObjectGCCardTable_ctor,
     spans = XGCRootSpanRegistry_ctor, candidates = FXSweepCandidateQueue_ctor,
     deferred = FXDeferredDestructionQueue_ctor, m_phase = kIdle, m_cycleCounter = 0,
     m_markedThisCycle = 0, m_lastCycleSaturationFallback = False, m_lastReclaimedCount = 0,
     m_lastGarbageRefsClearedCount = 0, g_CurrentReachabilityIndex = 0,
     g_XGCIsConcurrentMarkActive = False, g_XGCSafePointRequested = False, ticks = 0,
     begin_calls = [], finish_calls = [], freed_cells = []\<rparr>"

lemmas demo_defs = demo_class_def demo_env_def demo_hdr_def demo_heap_def demo_arr_def demo_entry_def
  demo_gc_def FXObjectArrayEntry_default_def

lemma demo_load:
  "load_ptr demo_mem 0x1038 = 0x2000" "load_ptr demo_mem 0x2038 = 0"
  by (simp_all add: load_ptr_bytes demo_mem_def)

lemma demo_entries:
  "(i, p) \<in> set (ForEachObject demo_arr) \<longleftrightarrow>
     (i, p) \<in> {(1, 0x1000), (2, 0x2000), (3, 0x3000)}"
  by (auto simp: ForEachObject_set demo_defs split: if_splits)

lemma demo_array_inv: "ArrayInv demo_arr"
proof -
  have "\<forall>i. 1 \<le> i \<and> i < 4 \<longrightarrow> i = 1 \<or> i = 2 \<or> i = (3 :: int)" by auto
  then have "live_slots demo_arr = {1, 2, 3}" by (auto simp: live_slots_def demo_defs)
  then show ?thesis by (auto simp: ArrayInv_def range_inv_def demo_defs array_consts)
qed

lemma demo_refs:
  "refs demo_env (demo_heap fl) 0x1000 = {0x2000}" "refs demo_env (demo_heap fl) 0x2000 = {}"
  using demo_load
  by (auto simp: refs_ScanRefs ScanRefs_def ObjectSlots_def demo_defs kFXObjectRefSchemaCurrentVersion_def
      VisitObjectSlot_def)

lemma demo_refcount: "GetRefCount demo_arr i = 0"
proof -
  have "(ucast (RefCountOf 4) :: u32) = 0" "(ucast (RefCountOf 0) :: u32) = 0" by code_simp+
  then show ?thesis by (auto simp: GetRefCount_def demo_defs)
qed

lemma demo_pinned: "IsRootPinned demo_arr i \<longleftrightarrow> i = 1"
proof -
  have "(4 :: u64) AND 4 = 4" by code_simp
  then show ?thesis by (auto simp: IsRootPinned_def demo_defs kRootPinnedBit_val)
qed

lemma demo_roots: "root_set demo_env (demo_gc fl) = {0x1000}" "aro_pushed demo_env (demo_gc fl) = {}"
proof -
  have "ForEachValidObjectInSpans b H h a (spans (demo_gc fl)) = []" for b H h a
    by (simp add: ForEachValidObjectInSpans_def demo_gc_def XGCRootSpanRegistry_ctor_def)
  moreover have "lifecycle_fn demo_env h p s = nullptr" for h p s
    by (simp add: lifecycle_fn_def demo_defs Let_def)
  moreover have "(i, p) \<in> set (ForEachRoot demo_arr) \<longleftrightarrow>
      (i, p) \<in> set (ForEachObject demo_arr) \<and> IsRootPinned demo_arr i" for i p
    by (auto simp: ForEachRoot_set ForEachObject_set)
  then have "set (ForEachRoot demo_arr) = {(1, 0x1000)}"
    by (auto simp: demo_entries demo_pinned)
  moreover have "arr (demo_gc fl) = demo_arr" by (simp add: demo_gc_def)
  ultimately show "root_set demo_env (demo_gc fl) = {0x1000}" "aro_pushed demo_env (demo_gc fl) = {}"
    by (simp_all add: root_set_ptrs root_ptrs_def aro_marked_def aro_pushed_def aro_calls_def demo_refcount
        case_prod_beta)
qed

lemma demo_ready:
  "aro_stable demo_env" "tame_begin demo_env" "cycle_ready (demo_gc fl)"
  "sc_entries (candidates (demo_gc fl)) = []" "entries_inj (arr (demo_gc fl))"
  "captured (satb (demo_gc fl)) (slog (demo_gc fl)) = []" "dirty_cards (cards (demo_gc fl)) = {}"
  by (auto simp: aro_stable_def tame_begin_def cycle_ready_def demo_gc_def demo_env_def ctor_card_inv
      gray_inv_def gray_bag_def FXGrayQueue_ctor_def FXSweepCandidateQueue_ctor_def entries_inj_def demo_entries
      captured_def FXObjectSatbQueue_ctor_def FXObjectGlobalSatbLog_ctor_def dirty_cards_def
      FXObjectGCCardTable_ctor_def card_inv_def)

lemma demo_marked: "marked (demo_gc 0) = {}" "marked (demo_gc 1) = {0x1000}"
  by (auto simp: marked_def unmarked_def CurrentCycleReachabilityMask_def demo_defs)

lemma demo_reach: "reach demo_env (demo_heap fl) {0x1000} = {0x1000, 0x2000}"
proof (rule equalityI)
  show "reach demo_env (demo_heap fl) {0x1000} \<subseteq> {0x1000, 0x2000}"
    by (rule reach_closed) (auto simp: demo_refs)
  show "{0x1000, 0x2000} \<subseteq> reach demo_env (demo_heap fl) {0x1000}"
    using reach_refl [of "{0x1000}"] refs_reach [of "0x1000" "{0x1000}" demo_env "demo_heap fl"]
    by (auto simp: demo_refs)
qed

end
