(* ===== verification/DeferredProps.thy ===== *)
theory DeferredProps
  imports DeferredDestruction ObjectArrayProps
begin

text \<open>
  What one pass over the deferred-destruction queue does: it visits a prefix of the entries, in
  order, finalises those whose object is ready or that have waited too long, keeps the others whose
  slot still holds an object, and leaves the unvisited tail.
\<close>

section \<open>Finalising one object\<close>

definition slot_range :: "FXObjectArray \<Rightarrow> FEntry \<Rightarrow> bool" where
  "slot_range a en \<longleftrightarrow> 0 < DQ_InternalIndex en \<and> DQ_InternalIndex en < m_committedCount a"

definition entry_slot :: "FXObjectArray \<Rightarrow> FEntry \<Rightarrow> ptr" where
  "entry_slot a en = EntryObject (m_entries a (DQ_InternalIndex en))"

lemma ReleaseSlot_total:
  "0 < i \<Longrightarrow> i < m_committedCount a \<Longrightarrow> \<exists>a'. ReleaseSlot b False i a = Inr a' \<and> m_committedCount a' = m_committedCount a
     \<and> (\<forall>j. EntryObject (m_entries a' j) = (if j = i then nullptr else EntryObject (m_entries a j)))"
  by (simp add: ReleaseSlot_def xcheck_def in_range_def Let_def)

text \<open>
  An object is ready when its class has no \<open>IsReadyForFinishDestroy\<close> callback (no class, no lifecycle
  table, bit 2 of the capabilities clear, or a null pointer in slot 2) or the callback says so.
\<close>

definition class_ready :: "env \<Rightarrow> XHeap \<Rightarrow> ptr \<Rightarrow> bool" where
  "class_ready E h p \<longleftrightarrow>
     (\<forall>Table. ClassPrivate (hdr h p) \<noteq> nullptr \<and> LifecycleTable (ClassAt E (ClassPrivate (hdr h p))) = Some Table
        \<and> Capabilities Table AND 4 \<noteq> 0 \<and> Slots Table 2 \<noteq> nullptr \<longrightarrow> run_IsReady E (Slots Table 2) p h)"

lemma IsReady_class_ready: "IsReadyToFinalise E h p \<longleftrightarrow> class_ready E h p"
  by (cases "LifecycleTable (ClassAt E (ClassPrivate (hdr h p)))")
    (auto simp: IsReadyToFinalise_def class_ready_def lifecycle_fn_def HasSlot_def GetSlot_def Let_def)

text \<open>
  The heap after the \<open>FinishDestroy\<close> callback of an object and its flag; the callbacks of one object
  are tame when they do not change whether another one is ready.
\<close>

definition finished :: "env \<Rightarrow> ptr \<Rightarrow> XHeap \<Rightarrow> XHeap" where
  "finished E p h =
     (let Fn = lifecycle_fn E h p Slot_FinishDestroy in
      SetFlags p FinishDestroyed (if Fn \<noteq> nullptr then run_FinishDestroy E Fn p h else h))"

definition tame_finish :: "env \<Rightarrow> bool" where
  "tame_finish E \<longleftrightarrow>
     (\<forall>p q h. p \<noteq> q \<longrightarrow> class_ready E (finished E p h) q = class_ready E h q)"

lemma FinaliseEntry_total:
  assumes "0 < i" "i < m_committedCount (arr g)"
  obtains g' where "FinaliseEntry E False i p g = Inr g'" "ticks g' = ticks g"
    "freed_cells g' = freed_cells g @ [p]" "heap g' = finished E p (heap g)"
    "m_committedCount (arr g') = m_committedCount (arr g)"
    "\<forall>j. EntryObject (m_entries (arr g') j) = (if j = i then nullptr else EntryObject (m_entries (arr g) j))"
proof -
  obtain a' where "ReleaseSlot (bld E) False i (arr g) = Inr a'" "m_committedCount a' = m_committedCount (arr g)"
    "\<forall>j. EntryObject (m_entries a' j) = (if j = i then nullptr else EntryObject (m_entries (arr g) j))"
    using ReleaseSlot_total [OF assms, of "bld E"] by blast
  then have "\<exists>g'. FinaliseEntry E False i p g = Inr g' \<and> ticks g' = ticks g
      \<and> freed_cells g' = freed_cells g @ [p] \<and> heap g' = finished E p (heap g)
      \<and> m_committedCount (arr g') = m_committedCount (arr g)
      \<and> (\<forall>j. EntryObject (m_entries (arr g') j) = (if j = i then nullptr else EntryObject (m_entries (arr g) j)))"
    by (simp add: FinaliseEntry_def finished_def Let_def)
  then show ?thesis using that by blast
qed

section \<open>The walk\<close>

text \<open>
  \<open>Obj\<close> and \<open>Ready\<close> are what the slots hold and which objects are ready when the pass starts, \<open>now\<close> the
  clock when an entry is visited.
\<close>

definition overdue :: "(FEntry \<Rightarrow> int) \<Rightarrow> FEntry \<Rightarrow> bool" where
  "overdue now en \<longleftrightarrow> now en - FirstSeen en \<ge> kFXDeferredDestructionTimeout"

definition due :: "(FEntry \<Rightarrow> ptr) \<Rightarrow> (FEntry \<Rightarrow> bool) \<Rightarrow> (FEntry \<Rightarrow> int) \<Rightarrow> FEntry \<Rightarrow> bool" where
  "due Obj Ready now en \<longleftrightarrow> Obj en \<noteq> nullptr \<and> (Ready en \<or> overdue now en)"

definition waits :: "(FEntry \<Rightarrow> ptr) \<Rightarrow> (FEntry \<Rightarrow> bool) \<Rightarrow> (FEntry \<Rightarrow> int) \<Rightarrow> FEntry \<Rightarrow> bool" where
  "waits Obj Ready now en \<longleftrightarrow> Obj en \<noteq> nullptr \<and> \<not> Ready en \<and> \<not> overdue now en"

definition forced :: "(FEntry \<Rightarrow> ptr) \<Rightarrow> (FEntry \<Rightarrow> bool) \<Rightarrow> (FEntry \<Rightarrow> int) \<Rightarrow> FEntry \<Rightarrow> bool" where
  "forced Obj Ready now en \<longleftrightarrow> Obj en \<noteq> nullptr \<and> \<not> Ready en \<and> overdue now en"

definition walk_result ::
  "env \<Rightarrow> int \<Rightarrow> int \<Rightarrow> (FEntry \<Rightarrow> ptr) \<Rightarrow> (FEntry \<Rightarrow> bool) \<Rightarrow> FEntry list \<Rightarrow> GC \<Rightarrow> GC
     \<Rightarrow> FEntry list \<Rightarrow> FEntry list \<Rightarrow> (FEntry \<Rightarrow> int) \<Rightarrow> bool" where
  "walk_result E PS B Obj Ready es g g' visited tail now \<longleftrightarrow>
     es = visited @ tail \<and> (es \<noteq> [] \<longrightarrow> visited \<noteq> []) \<and> ticks g \<le> ticks g'
     \<and> freed_cells g' = freed_cells g @ map Obj (filter (due Obj Ready now) visited)
     \<and> (\<forall>j. EntryObject (m_entries (arr g') j) =
          (if j \<in> DQ_InternalIndex ` set (filter (due Obj Ready now) visited) then nullptr
           else EntryObject (m_entries (arr g) j)))
     \<and> (\<forall>en \<in> set visited. Obj en \<noteq> nullptr \<longrightarrow> (\<exists>t. ticks g \<le> t \<and> t < ticks g' \<and> now en = Clock E t))
     \<and> (tail \<noteq> [] \<longrightarrow> (\<exists>t. ticks g \<le> t \<and> t < ticks g' \<and> B \<le> Clock E t - PS))"

lemma now_elsewhere:
  assumes "en \<notin> set xs"
  shows "filter (due Obj Ready (now(en := t))) xs = filter (due Obj Ready now) xs"
    "filter (waits Obj Ready (now(en := t))) xs = filter (waits Obj Ready now) xs"
    "filter (forced Obj Ready (now(en := t))) xs = filter (forced Obj Ready now) xs"
  using assms by (auto intro!: filter_cong simp: due_def waits_def forced_def overdue_def split: if_splits)

text \<open>An entry that was visited, by whether its object was finalised in that turn.\<close>

lemma walk_result_step:
  assumes w: "walk_result E PS B Obj Ready es g1 g' visited tail now" and out: "en \<notin> set es"
    and t: "ticks g \<le> ticks g1" "Obj en \<noteq> nullptr \<longrightarrow> ticks g < ticks g1"
    and f: "freed_cells g1 = freed_cells g @ (if due Obj Ready (now(en := Clock E (ticks g))) en then [Obj en] else [])"
    and a: "\<forall>j. EntryObject (m_entries (arr g1) j) =
      (if due Obj Ready (now(en := Clock E (ticks g))) en \<and> j = DQ_InternalIndex en then nullptr
       else EntryObject (m_entries (arr g) j))"
  shows "walk_result E PS B Obj Ready (en # es) g g' (en # visited) tail (now(en := Clock E (ticks g)))"
proof -
  have "en \<notin> set visited" using w out by (auto simp: walk_result_def)
  note el = now_elsewhere(1) [OF this]
  have times: "\<exists>t. ticks g \<le> t \<and> t < ticks g' \<and> P t" if "\<exists>t. ticks g1 \<le> t \<and> t < ticks g' \<and> P t" for P
    using that t(1) le_trans by blast
  have mono: "ticks g1 \<le> ticks g'" using w by (simp add: walk_result_def)
  have "\<exists>t. ticks g \<le> t \<and> t < ticks g' \<and> (now(en := Clock E (ticks g))) en' = Clock E t"
    if "en' \<in> set (en # visited)" "Obj en' \<noteq> nullptr" for en'
  proof (cases "en' = en")
    case True
    with that(2) t(2) mono show ?thesis by (intro exI [of _ "ticks g"]) auto
  next
    case False
    with that w times show ?thesis by (auto simp: walk_result_def)
  qed
  moreover have "\<exists>t. ticks g \<le> t \<and> t < ticks g' \<and> B \<le> Clock E t - PS" if "tail \<noteq> []"
    using that w times by (auto simp: walk_result_def)
  ultimately show ?thesis
    using w f a t(1) mono unfolding walk_result_def by (simp add: el)
qed

text \<open>The last turn of a pass that has used up its budget.\<close>

lemma walk_result_stop:
  assumes "ticks g < ticks g'" "ticks g \<le> t" "t < ticks g'" "B \<le> Clock E t - PS"
    "freed_cells g' = freed_cells g @ (if due Obj Ready (\<lambda>_. Clock E (ticks g)) en then [Obj en] else [])"
    "\<forall>j. EntryObject (m_entries (arr g') j) =
      (if due Obj Ready (\<lambda>_. Clock E (ticks g)) en \<and> j = DQ_InternalIndex en then nullptr
       else EntryObject (m_entries (arr g) j))"
  shows "walk_result E PS B Obj Ready (en # es) g g' [en] es (\<lambda>_. Clock E (ticks g))"
  using assms unfolding walk_result_def by auto

definition pass_ready :: "env \<Rightarrow> (FEntry \<Rightarrow> ptr) \<Rightarrow> (FEntry \<Rightarrow> bool) \<Rightarrow> FEntry list \<Rightarrow> GC \<Rightarrow> bool" where
  "pass_ready E Obj Ready es g \<longleftrightarrow>
     (\<forall>en \<in> set es. slot_range (arr g) en \<and> entry_slot (arr g) en = Obj en
        \<and> (Obj en \<noteq> nullptr \<longrightarrow> IsReadyToFinalise E (heap g) (Obj en) = Ready en))"

lemma pass_ready_finalised:
  assumes "pass_ready E Obj Ready (en # es) g" "tame_finish E" "distinct (map DQ_InternalIndex (en # es))"
    "\<forall>x \<in> set es. Obj x \<noteq> nullptr \<longrightarrow> Obj x \<noteq> Obj en" "heap g' = finished E (Obj en) (heap g)"
    "m_committedCount (arr g') = m_committedCount (arr g)"
    "\<forall>j. EntryObject (m_entries (arr g') j) = (if j = DQ_InternalIndex en then nullptr else EntryObject (m_entries (arr g) j))"
  shows "pass_ready E Obj Ready es g'"
  unfolding pass_ready_def
proof (intro ballI conjI impI)
  fix x assume x: "x \<in> set es"
  then have i: "DQ_InternalIndex x \<noteq> DQ_InternalIndex en" using assms(3) by (metis distinct.simps(2) image_eqI list.simps(9) set_map)
  from assms(1) x show "slot_range (arr g') x" "entry_slot (arr g') x = Obj x"
    using assms(6,7) i by (auto simp: pass_ready_def slot_range_def entry_slot_def)
  assume "Obj x \<noteq> nullptr"
  then show "IsReadyToFinalise E (heap g') (Obj x) = Ready x"
    using assms(1,2,4,5) x unfolding pass_ready_def tame_finish_def IsReady_class_ready by (metis list.set_intros(2))
qed

lemma pass_ready_same:
  assumes "pass_ready E Obj Ready (en # es) g" "heap g' = heap g" "arr g' = arr g"
  shows "pass_ready E Obj Ready es g'"
  using assms by (simp add: pass_ready_def)

text \<open>One turn on an entry whose slot holds an object.\<close>

lemma walk_turn:
  fixes E :: env and g :: GC
  assumes pr: "pass_ready E Obj Ready (en # es) g" and obj: "Obj en \<noteq> nullptr"
  defines "c \<equiv> (\<lambda>_ :: FEntry. Clock E (ticks g))"
  obtains g3 where "DrainWalk E False PS B (en # es) Kept F Fo g =
      (if Clock E (ticks g + 1) - PS \<ge> B
       then Inr (Kept @ filter (waits Obj Ready c) [en] @ es, F + length (filter (due Obj Ready c) [en]),
                 Fo + length (filter (forced Obj Ready c) [en]), g3)
       else DrainWalk E False PS B es (Kept @ filter (waits Obj Ready c) [en])
              (F + length (filter (due Obj Ready c) [en])) (Fo + length (filter (forced Obj Ready c) [en])) g3)"
    "ticks g3 = ticks g + 2" "m_committedCount (arr g3) = m_committedCount (arr g)"
    "heap g3 = (if due Obj Ready c en then finished E (Obj en) (heap g) else heap g)"
    "freed_cells g3 = freed_cells g @ (if due Obj Ready c en then [Obj en] else [])"
    "\<forall>j. EntryObject (m_entries (arr g3) j) =
       (if due Obj Ready c en \<and> j = DQ_InternalIndex en then nullptr else EntryObject (m_entries (arr g) j))"
proof -
  let ?i = "DQ_InternalIndex en" and ?p = "Obj en"
  define g1 where "g1 = g\<lparr>ticks := ticks g + 1\<rparr>"
  define TimedOut where "TimedOut \<longleftrightarrow> overdue c en"
  have i: "0 < ?i" "?i < m_committedCount (arr g)" and p: "EntryObject (m_entries (arr g) ?i) = ?p"
    and R: "IsReadyToFinalise E (heap g) ?p = Ready en"
    using pr obj by (auto simp: pass_ready_def slot_range_def entry_slot_def)
  have get: "GetObjectAtIndexUnchecked (bld E) (arr g) ?i = Inr ?p"
    using i p by (simp add: GetObjectAtIndexUnchecked_def xcheck_def in_range_def)
  define Fo' where "Fo' = (if \<not> Ready en \<and> TimedOut then Fo + 1 else Fo)"
  have run: "DrainWalk E False PS B (en # es) Kept F Fo g =
     rbind (if \<not> (Ready en \<or> TimedOut) then Inr (Kept @ [en], F, g1)
            else rbind (FinaliseEntry E False ?i ?p g1) (\<lambda>g2. Inr (Kept, F + 1, g2)))
      (\<lambda>(Kept', F', g2). let (NowAfter, g3) = ReadClock E g2 in
         if NowAfter - PS \<ge> B then Inr (Kept' @ es, F', Fo', g3)
         else DrainWalk E False PS B es Kept' F' Fo' g3)"
    using obj get R unfolding TimedOut_def overdue_def Fo'_def g1_def c_def
    by (simp add: ReadClock_def Let_def del: disj_not1)
  have q: "due Obj Ready c en \<longleftrightarrow> Ready en \<or> TimedOut" "waits Obj Ready c en \<longleftrightarrow> \<not> (Ready en \<or> TimedOut)"
    "forced Obj Ready c en \<longleftrightarrow> \<not> Ready en \<and> TimedOut"
    using obj by (auto simp: due_def waits_def forced_def TimedOut_def)
  show ?thesis
  proof (cases "Ready en \<or> TimedOut")
    case False
    show ?thesis
      by (rule that [of "g\<lparr>ticks := ticks g + 2\<rparr>"])
        (use run False q in \<open>simp_all add: g1_def Fo'_def ReadClock_def Let_def\<close>)
  next
    case True
    have s1: "arr g1 = arr g" "heap g1 = heap g" "freed_cells g1 = freed_cells g" by (simp_all add: g1_def)
    obtain g2 where g2: "FinaliseEntry E False ?i ?p g1 = Inr g2" "ticks g2 = ticks g1"
      "freed_cells g2 = freed_cells g @ [?p]" "heap g2 = finished E ?p (heap g)"
      "m_committedCount (arr g2) = m_committedCount (arr g)"
      "\<forall>j. EntryObject (m_entries (arr g2) j) = (if j = ?i then nullptr else EntryObject (m_entries (arr g) j))"
      using FinaliseEntry_total [of ?i g1 E ?p] i unfolding s1 by metis
    have tk: "ticks g2 = ticks g + 1" using g2(2) by (simp add: g1_def)
    have Fo: "Fo' = Fo + length (filter (forced Obj Ready c) [en])" using q(3) by (simp add: Fo'_def)
    show ?thesis
      by (rule that [of "g2\<lparr>ticks := ticks g2 + 1\<rparr>"])
        (use run True q(1,2) g2 tk Fo in \<open>simp_all add: ReadClock_def Let_def\<close>)
  qed
qed

lemma DrainWalk_spec:
  assumes "pass_ready E Obj Ready es g" "tame_finish E" "distinct (map DQ_InternalIndex es)"
    "\<forall>x \<in> set es. \<forall>y \<in> set es. x \<noteq> y \<longrightarrow> Obj x \<noteq> nullptr \<longrightarrow> Obj x \<noteq> Obj y"
  shows "\<exists>visited tail now g'.
     DrainWalk E False PS B es Kept F Fo g =
       Inr (Kept @ filter (waits Obj Ready now) visited @ tail, F + length (filter (due Obj Ready now) visited),
            Fo + length (filter (forced Obj Ready now) visited), g')
     \<and> walk_result E PS B Obj Ready es g g' visited tail now"
  using assms
proof (induction es arbitrary: Kept F Fo g)
  case Nil
  have "walk_result E PS B Obj Ready [] g g [] [] (\<lambda>_. 0)" by (simp add: walk_result_def)
  then show ?case by (intro exI [of _ "[]"] exI [of _ "\<lambda>_. 0"] exI [of _ g]) simp
next
  case (Cons en es)
  define c where "c = (\<lambda>_ :: FEntry. Clock E (ticks g))"
  let ?now = "\<lambda>now. now(en := Clock E (ticks g))"
  have out: "en \<notin> set es" "distinct (map DQ_InternalIndex es)" using Cons.prems(3) by auto
  have objs: "\<forall>x \<in> set es. Obj x \<noteq> nullptr \<longrightarrow> Obj x \<noteq> Obj en"
    "\<forall>x \<in> set es. \<forall>y \<in> set es. x \<noteq> y \<longrightarrow> Obj x \<noteq> nullptr \<longrightarrow> Obj x \<noteq> Obj y"
    using Cons.prems(4) out by auto
  have e: "filter (P Obj Ready (?now now)) [en] = filter (P Obj Ready c) [en]"
    if "P \<in> {due, waits, forced}" for P now
    using that by (auto simp: c_def waits_def due_def forced_def overdue_def)
  have go: ?case if "DrainWalk E False PS B (en # es) Kept F Fo g =
        DrainWalk E False PS B es (Kept @ filter (waits Obj Ready c) [en])
          (F + length (filter (due Obj Ready c) [en])) (Fo + length (filter (forced Obj Ready c) [en])) g3"
      "pass_ready E Obj Ready es g3"
      "ticks g \<le> ticks g3" "Obj en \<noteq> nullptr \<longrightarrow> ticks g < ticks g3"
      "freed_cells g3 = freed_cells g @ (if due Obj Ready c en then [Obj en] else [])"
      "\<forall>j. EntryObject (m_entries (arr g3) j) =
        (if due Obj Ready c en \<and> j = DQ_InternalIndex en then nullptr else EntryObject (m_entries (arr g) j))" for g3
  proof -
    note turn = that
    obtain visited tail now g' where
      r: "DrainWalk E False PS B (en # es) Kept F Fo g =
           Inr ((Kept @ filter (waits Obj Ready c) [en]) @ filter (waits Obj Ready now) visited @ tail,
                F + length (filter (due Obj Ready c) [en]) + length (filter (due Obj Ready now) visited),
                Fo + length (filter (forced Obj Ready c) [en]) + length (filter (forced Obj Ready now) visited), g')"
         "walk_result E PS B Obj Ready es g3 g' visited tail now"
      using Cons.IH [OF turn(2) Cons.prems(2) out(2) objs(2)] unfolding turn(1) by blast
    have "en \<notin> set visited" using r(2) out(1) by (auto simp: walk_result_def)
    note el = now_elsewhere [OF this, of Obj Ready now "Clock E (ticks g)"]
    have f: "filter P (en # visited) = filter P [en] @ filter P visited" for P by simp
    have d: "due Obj Ready (?now now) en = due Obj Ready c en" by (simp add: due_def overdue_def c_def)
    have "walk_result E PS B Obj Ready (en # es) g g' (en # visited) tail (?now now)"
      by (rule walk_result_step [OF r(2) out(1) turn(3,4)]) (use turn(5,6) d in simp_all)
    moreover have "DrainWalk E False PS B (en # es) Kept F Fo g =
       Inr (Kept @ filter (waits Obj Ready (?now now)) (en # visited) @ tail,
            F + length (filter (due Obj Ready (?now now)) (en # visited)),
            Fo + length (filter (forced Obj Ready (?now now)) (en # visited)), g')"
      unfolding r(1) f el using e by (simp only: insert_iff simp_thms length_append add.assoc append_assoc)
    ultimately show ?thesis by blast
  qed
  show ?case
  proof (cases "Obj en = nullptr")
    case True
    then have "DrainWalk E False PS B (en # es) Kept F Fo g = DrainWalk E False PS B es Kept F Fo g"
      using Cons.prems(1)
      by (auto simp: pass_ready_def slot_range_def entry_slot_def GetObjectAtIndexUnchecked_def xcheck_def in_range_def)
    with True show ?thesis
      by (intro go [of g] pass_ready_same [OF Cons.prems(1)]) (simp_all add: waits_def due_def forced_def)
  next
    case False
    from walk_turn [OF Cons.prems(1) False, of PS B Kept F Fo, folded c_def] obtain g3 where
      s: "DrainWalk E False PS B (en # es) Kept F Fo g =
        (if Clock E (ticks g + 1) - PS \<ge> B
         then Inr (Kept @ filter (waits Obj Ready c) [en] @ es, F + length (filter (due Obj Ready c) [en]),
                   Fo + length (filter (forced Obj Ready c) [en]), g3)
         else DrainWalk E False PS B es (Kept @ filter (waits Obj Ready c) [en])
                (F + length (filter (due Obj Ready c) [en])) (Fo + length (filter (forced Obj Ready c) [en])) g3)"
      "ticks g3 = ticks g + 2" "m_committedCount (arr g3) = m_committedCount (arr g)"
      "heap g3 = (if due Obj Ready c en then finished E (Obj en) (heap g) else heap g)"
      "freed_cells g3 = freed_cells g @ (if due Obj Ready c en then [Obj en] else [])"
      "\<forall>j. EntryObject (m_entries (arr g3) j) =
         (if due Obj Ready c en \<and> j = DQ_InternalIndex en then nullptr else EntryObject (m_entries (arr g) j))"
      by blast
    show ?thesis
    proof (cases "Clock E (ticks g + 1) - PS \<ge> B")
      case True
      have "walk_result E PS B Obj Ready (en # es) g g3 [en] es c"
        unfolding c_def by (rule walk_result_stop [where t = "ticks g + 1"]) (use True s in \<open>simp_all add: c_def\<close>)
      with s(1) [unfolded if_P [OF True]] show ?thesis by blast
    next
      case running: False
      have "pass_ready E Obj Ready es g3"
      proof (cases "due Obj Ready c en")
        case True
        with s show ?thesis by (intro pass_ready_finalised [OF Cons.prems(1-3) objs(1)]) simp_all
      next
        case False
        with s Cons.prems(1) show ?thesis by (auto simp: pass_ready_def slot_range_def entry_slot_def)
      qed
      then show ?thesis by (rule go [rotated]) (use s running in simp_all)
    qed
  qed
qed

section \<open>A pass\<close>

definition pass_result ::
  "env \<Rightarrow> int \<Rightarrow> (FEntry \<Rightarrow> ptr) \<Rightarrow> (FEntry \<Rightarrow> bool) \<Rightarrow> GC \<Rightarrow> GC \<Rightarrow> FEntry list \<Rightarrow> FEntry list \<Rightarrow> (FEntry \<Rightarrow> int) \<Rightarrow> bool" where
  "pass_result E B Obj Ready g g' visited tail now \<longleftrightarrow>
     DrainOnePassWithBudget E False B g = Inr (length (filter (due Obj Ready now) visited), g')
     \<and> dq_entries (deferred g) = visited @ tail
     \<and> dq_entries (deferred g') = filter (waits Obj Ready now) visited @ tail
     \<and> freed_cells g' = freed_cells g @ map Obj (filter (due Obj Ready now) visited)
     \<and> (\<forall>i. EntryObject (m_entries (arr g') i) = (if i \<in> DQ_InternalIndex ` set (filter (due Obj Ready now) visited)
           then nullptr else EntryObject (m_entries (arr g) i)))
     \<and> m_lastPassFinishDestroyCount (deferred g') = length (filter (due Obj Ready now) visited)
     \<and> m_lastPassTimeoutForcedCount (deferred g') = length (filter (\<lambda>en. \<not> Ready en) (filter (due Obj Ready now) visited))
     \<and> (\<forall>en \<in> set visited. Obj en \<noteq> nullptr \<longrightarrow> (\<exists>t. ticks g < t \<and> t < ticks g' \<and> now en = Clock E t))
     \<and> (dq_entries (deferred g) \<noteq> [] \<longrightarrow> visited \<noteq> [])
     \<and> (tail \<noteq> [] \<longrightarrow> (\<exists>t < ticks g'. B \<le> Clock E t - Clock E (ticks g)))"

lemma due_filter:
  "due Obj Ready now = (\<lambda>en. Obj en \<noteq> nullptr \<and> (Ready en \<or> now en - FirstSeen en \<ge> kFXDeferredDestructionTimeout))"
  by (auto simp: due_def overdue_def)

lemma waits_filter:
  "waits Obj Ready now = (\<lambda>en. Obj en \<noteq> nullptr \<and> \<not> Ready en \<and> \<not> now en - FirstSeen en \<ge> kFXDeferredDestructionTimeout)"
  by (auto simp: waits_def overdue_def)

lemma forced_filter: "filter (\<lambda>en. \<not> Ready en) (filter (due Obj Ready now) xs) = filter (forced Obj Ready now) xs"
  by (auto simp: due_def forced_def intro: filter_cong)

lemma DrainOnePass_spec:
  assumes "pass_ready E Obj Ready (dq_entries (deferred g)) g" "tame_finish E"
    "distinct (map DQ_InternalIndex (dq_entries (deferred g)))"
    "\<forall>x \<in> set (dq_entries (deferred g)). \<forall>y \<in> set (dq_entries (deferred g)). x \<noteq> y \<longrightarrow> Obj x \<noteq> nullptr \<longrightarrow> Obj x \<noteq> Obj y"
    and ne: "dq_entries (deferred g) \<noteq> []"
  shows "\<exists>visited tail now g'. pass_result E B Obj Ready g g' visited tail now"
proof -
  let ?es = "dq_entries (deferred g)"
  define g1 where "g1 = g\<lparr>ticks := ticks g + 1, deferred := (deferred g)\<lparr>dq_entries := [], dq_capacity := 0\<rparr>\<rparr>"
  have "pass_ready E Obj Ready ?es g1" using assms(1) by (simp add: pass_ready_def g1_def)
  from DrainWalk_spec [OF this assms(2-4), of "Clock E (ticks g)" B "[]" 0 0] obtain visited tail now g2 where
    w: "DrainWalk E False (Clock E (ticks g)) B ?es [] 0 0 g1 =
       Inr (filter (waits Obj Ready now) visited @ tail, length (filter (due Obj Ready now) visited),
            length (filter (forced Obj Ready now) visited), g2)"
      "walk_result E (Clock E (ticks g)) B Obj Ready ?es g1 g2 visited tail now" by auto
  define g' where "g' = g2\<lparr>ticks := ticks g2 + 1, deferred := \<lparr>dq_entries = filter (waits Obj Ready now) visited @ tail,
     dq_capacity = dq_capacity (deferred g), m_lastPassFinishDestroyCount = length (filter (due Obj Ready now) visited),
     m_lastPassTimeoutForcedCount = length (filter (forced Obj Ready now) visited),
     m_lastPassDurationUs = Clock E (ticks g2) - Clock E (ticks g)\<rparr>\<rparr>"
  have run: "DrainOnePassWithBudget E False B g = Inr (length (filter (due Obj Ready now) visited), g')"
    using ne w(1) by (simp add: DrainOnePassWithBudget_def ReadClock_def Let_def g1_def g'_def)
  have sel: "arr g1 = arr g" "freed_cells g1 = freed_cells g" "arr g' = arr g2" "freed_cells g' = freed_cells g2"
    "dq_entries (deferred g') = filter (waits Obj Ready now) visited @ tail"
    "m_lastPassFinishDestroyCount (deferred g') = length (filter (due Obj Ready now) visited)"
    "m_lastPassTimeoutForcedCount (deferred g') = length (filter (forced Obj Ready now) visited)"
    "ticks g1 = Suc (ticks g)" "ticks g' = Suc (ticks g2)"
    by (simp_all add: g1_def g'_def)
  note wr = w(2) [unfolded walk_result_def sel]
  have "\<forall>en \<in> set visited. Obj en \<noteq> nullptr \<longrightarrow> (\<exists>t. ticks g < t \<and> t < ticks g' \<and> now en = Clock E t)"
    "tail \<noteq> [] \<longrightarrow> (\<exists>t < ticks g'. B \<le> Clock E t - Clock E (ticks g))"
    unfolding sel using wr by (meson Suc_le_eq less_SucI)+
  moreover have "?es = visited @ tail" "?es \<noteq> [] \<longrightarrow> visited \<noteq> []"
    "freed_cells g2 = freed_cells g @ map Obj (filter (due Obj Ready now) visited)"
    "\<forall>i. EntryObject (m_entries (arr g2) i) = (if i \<in> DQ_InternalIndex ` set (filter (due Obj Ready now) visited)
       then nullptr else EntryObject (m_entries (arr g) i))"
    using wr by blast+
  ultimately have "pass_result E B Obj Ready g g' visited tail now"
    unfolding pass_result_def sel(1-7) forced_filter by (intro conjI run) simp_all
  then show ?thesis by blast
qed

end
