(* ===== verification/BarrierProps.thy ===== *)
theory BarrierProps
  imports CollectorProps
begin

text \<open>
  The write barrier: a stored pointer reads back, the value it replaces is captured while
  marking is active, and the card of the slot is dirty afterwards.
\<close>

lemma digits_sum: "(\<Sum>k<n. (x div 256 ^ k) mod 256 * 256 ^ k) = x mod 256 ^ n" for x :: nat
proof (induction n)
  case (Suc n)
  have "x mod 256 ^ Suc n = x mod 256 ^ n + 256 ^ n * (x div 256 ^ n mod 256)"
    by (simp only: power_Suc2 mod_mult2_eq)
  with Suc show ?case by simp
qed simp

lemma load_store_ptr: "load_ptr (store_ptr m a v) a = v"
proof -
  have "unat (store_ptr m a v (a + word_of_nat k)) = (unat v div 256 ^ k) mod 256" if "k < 8" for k
  proof -
    have k: "unat (word_of_nat k :: u64) = k" using that by (simp add: unat_of_nat)
    then have "(word_of_nat k :: u64) < 8" using that by (simp add: word_less_nat_alt)
    then have "store_ptr m a v (a + word_of_nat k) = ucast (drop_bit (8 * k) v)" using k by (simp add: store_ptr_def)
    then have "unat (store_ptr m a v (a + word_of_nat k)) = unat v div 2 ^ (8 * k) mod 2 ^ 8"
      by (simp only: unsigned_ucast_eq take_bit_eq_mod unat_drop_bit_eq len_bit0 len_num1)
        (simp add: drop_bit_eq_div)
    then show ?thesis by (simp add: power_mult)
  qed
  then have "(\<Sum>k<8. unat (store_ptr m a v (a + word_of_nat k)) * 256 ^ k) = (\<Sum>k<8. (unat v div 256 ^ k) mod 256 * 256 ^ k)"
    by (intro sum.cong) auto
  also have "\<dots> = unat v mod 2 ^ 64" by (simp add: digits_sum)
  also have "\<dots> = unat v" using unat_less_2p64 [of v] by simp
  finally show ?thesis by (simp add: load_ptr_def)
qed

lemma store_ptr_outside: "\<not> x - a < 8 \<Longrightarrow> store_ptr m a v x = m x"
  by (simp add: store_ptr_def)

lemma XGCWriteBarrierImpl_spec:
  assumes "satb_inv (satb g) (slog g)" "card_inv (cards g)"
  obtains g' where "XGCWriteBarrierImpl True Slot g = Inr g'" "heap g' = heap g"
    "satb_inv (satb g') (slog g')" "card_inv (cards g')"
    "captured (satb g') (slog g') = captured (satb g) (slog g) @
       (if g_XGCIsConcurrentMarkActive g \<and> load_ptr (mem (heap g)) Slot \<noteq> nullptr
        then [load_ptr (mem (heap g)) Slot] else [])"
    "dirty_cards (cards g') = (if in_heap (cards g) Slot
       then insert (card_index (cards g) Slot) (dirty_cards (cards g)) else dirty_cards (cards g))"
proof -
  let ?old = "load_ptr (mem (heap g)) Slot"
  obtain t where t: "MarkCardDirty Slot (cards g) = Inr t" "card_inv t"
    "dirty_cards t = (if in_heap (cards g) Slot then insert (card_index (cards g) Slot) (dirty_cards (cards g))
       else dirty_cards (cards g))"
    by (rule MarkCardDirty_spec [OF assms(2)])
  show ?thesis
  proof (cases "g_XGCIsConcurrentMarkActive g \<and> ?old \<noteq> nullptr")
    case True
    obtain q l where p: "Satb_Push True ?old (satb g) (slog g) = Inr (q, l)"
      using Satb_Push_returns [of True "satb g" ?old "slog g"] by fast
    from Satb_Push_step [OF assms(1) p] have "satb_inv q l" "captured q l = captured (satb g) (slog g) @ [?old]"
      by auto
    then show ?thesis
      using that [of "g\<lparr>satb := q, slog := l, cards := t\<rparr>"] True t p by (simp add: XGCWriteBarrierImpl_def Let_def)
  next
    case False
    then show ?thesis
      using that [of "g\<lparr>cards := t\<rparr>"] t assms by (auto simp: XGCWriteBarrierImpl_def Let_def)
  qed
qed

end
