(* ===== verification/ComponentTheorems.thy ===== *)
theory ComponentTheorems
  imports Examples DeferredProps BarrierProps
begin

text \<open>
  The correctness theorems of the single components of the object system: the object table and
  its handles, the collector's queues, the card table, the schema walker and the span registry.
  Each states the component's contract over the operations of its model; the theorems that span
  the collector's cycle are in the root theory.
\<close>

section \<open>The object table\<close>

text \<open>
  C6: every run of table operations whose callers bind and free only slots they hold keeps the
  table's invariant, and the walk over the live entries visits each live slot once.
\<close>

theorem array_runs_keep_invariant:
  assumes "ArrayInv a" "run_guarded disciplined (array_step b c) ops a = Inr a'"
  shows "ArrayInv a' \<and> distinct (map fst (ForEachObject a')) \<and> set (map fst (ForEachObject a')) = live_slots a'
     \<and> int (length (ForEachObject a')) = m_numLive a'"
  using run_steps_inv [OF assms] ForEachObject_distinct [of a'] ForEachObject_live [of a'] by blast

theorem array_runs_keep_invariant_witness:
  "\<exists>a'. run_guarded disciplined (array_step Checked (\<lambda>_. True)) [OpRelease 2, OpAllocate 0x4000, OpReserve] demo_arr = Inr a'
     \<and> ArrayInv a' \<and> m_numLive a' = 3"
proof -
  obtain a' where r: "run_guarded disciplined (array_step Checked (\<lambda>_. True))
      [OpRelease 2, OpAllocate 0x4000, OpReserve] demo_arr = Inr a'" "m_numLive a' = 3"
    by (simp add: ReleaseSlot_def AllocateEntry_def ReserveSlot_def Let_def xcheck_def in_range_def rbind_def
        demo_defs PushFree_def GrowFreeListUnderLock_def upd_entry_def allocated_def)
  with array_runs_keep_invariant [OF demo_array_inv r(1)] show ?thesis by blast
qed

text \<open>
  C7: a weak handle never resolves to a later tenant of its slot: once the slot was released, and
  until it was released \<open>2 ^ 32 - 1\<close> times, the handle captured before resolves to null.
\<close>

theorem stale_weak_handle_is_null:
  assumes "ArrayInv a" "1 \<le> i" "i < m_bumpHead a" "run_steps (array_step b c) ops a = Inr a'"
    "0 < length (filter (\<lambda>x. op_releases x i) ops)" "length (filter (\<lambda>x. op_releases x i) ops) < 4294967295"
    "WeakIndex w = i" "WeakSerial w = EntrySerialNumber (m_entries a i)"
  shows "XWeakPtr_Get h a' w = nullptr \<and> \<not> XObjectKey_IsValid a' w"
proof -
  have "range_inv a" "EntrySerialNumber (m_entries a i) \<noteq> 0" using assms(1-3) by (auto simp: ArrayInv_def)
  with slots.stale_handle [OF _ _ _ assms(4-6)] assms(2,3)
  have "GetObjectAtIndex a' i (EntrySerialNumber (m_entries a i)) = nullptr"
    by (simp add: slot_in_use_def)
  with assms(7,8) show ?thesis by (simp add: XWeakPtr_Get_def XObjectKey_IsValid_def XObjectKey_Resolve_def)
qed

theorem stale_weak_handle_is_null_witness:
  "\<exists>a'. run_steps (array_step Checked (\<lambda>_. True)) [OpRelease 2, OpAllocate 0x4000] demo_arr = Inr a'
     \<and> EntryObject (m_entries a' 2) = 0x4000
     \<and> XWeakPtr_Get (demo_heap 0) a' \<lparr>WeakIndex = 2, WeakSerial = 1\<rparr> = nullptr"
proof -
  obtain a' where r: "run_steps (array_step Checked (\<lambda>_. True)) [OpRelease 2, OpAllocate 0x4000] demo_arr = Inr a'"
      "EntryObject (m_entries a' 2) = 0x4000"
    by (simp add: ReleaseSlot_def AllocateEntry_def Let_def xcheck_def in_range_def rbind_def demo_defs
        PushFree_def GrowFreeListUnderLock_def upd_entry_def)
  from stale_weak_handle_is_null [OF demo_array_inv _ _ r(1), of 2 "\<lparr>WeakIndex = 2, WeakSerial = 1\<rparr>" "demo_heap 0"] r
  show ?thesis by (simp add: demo_defs)
qed

text \<open>
  Freeing a slot through \<open>FreeEntry\<close> and through \<open>ReleaseSlot\<close> is not equivalent: both
  invalidate the handles and recycle the slot, but only \<open>ReleaseSlot\<close> clears its state bits, so
  a root pin left on an entry freed by \<open>FreeEntry\<close> is inherited by the slot's next object.
\<close>

theorem FreeEntry_leaks_state_bits:
  assumes "ArrayInv a" "i \<in> allocated a"
    "FreeEntry b False i a = Inr a1" "ReleaseSlot b False i a = Inr a2"
  shows "live_slots a1 = live_slots a2 \<and> allocated a1 = allocated a2
     \<and> EntrySerialNumber (m_entries a1 i) = EntrySerialNumber (m_entries a2 i)
     \<and> StateBits (m_entries a1 i) = StateBits (m_entries a i)
     \<and> StateBits (m_entries a2 i) = StateBits (m_entries a i) AND NOT kEntryStateClearMask
     \<and> (IsRootPinned a i \<longrightarrow> IsRootPinned a1 i \<and> \<not> IsRootPinned a2 i)"
proof -
  note f = FreeEntry_spec [OF assms(1,2,3)] and r = ReleaseSlot_spec [OF assms(1,2,4)]
  have "(StateBits (m_entries a i) AND NOT kEntryStateClearMask) AND kFXObjectArrayRootPinnedBit = 0"
    by (rule bit_eqI) (auto simp: kEntryStateClearMask_def bit_simps)
  moreover have "m_committedCount a1 = m_committedCount a"
    using assms(3) by (auto simp: FreeEntry_def res_eq_Inr hot_reload_gate_eq_Inr Let_def)
  ultimately show ?thesis using f r by (auto simp: IsRootPinned_def)
qed

theorem FreeEntry_leaks_state_bits_witness:
  "\<exists>a1 a2. FreeEntry Checked False 1 demo_arr = Inr a1 \<and> ReleaseSlot Checked False 1 demo_arr = Inr a2
     \<and> IsRootPinned a1 1 \<and> \<not> IsRootPinned a2 1"
proof -
  obtain a1 a2 where r: "FreeEntry Checked False 1 demo_arr = Inr a1" "ReleaseSlot Checked False 1 demo_arr = Inr a2"
    by (simp add: FreeEntry_def ReleaseSlot_def Let_def xcheck_def in_range_def demo_defs)
  have "1 \<in> allocated demo_arr" by (simp add: allocated_def demo_arr_def)
  from FreeEntry_leaks_state_bits [OF demo_array_inv this r] r demo_pinned [of 1] show ?thesis by blast
qed

section \<open>Strong pointers and roots\<close>

text \<open>
  C8: in every run of strong-pointer operations the count of each slot is the number of handles
  that hold its object; the run never trips a check, and stops only when a caller's obligation
  is not met.
\<close>

theorem strong_runs_balanced:
  assumes "strong_balanced n h s" "n < 16777215"
  shows "case run_guarded (strong_ok n h) (strong_step b h) ops s of
      Inl e \<Rightarrow> e = OutOfRange | Inr s' \<Rightarrow> strong_balanced n h s'"
  using assms(1)
proof (induction ops arbitrary: s)
  case (Cons op ops)
  show ?case
  proof (cases "strong_ok n h op s")
    case True
    obtain s' where "strong_step b h op s = Inr s'" "strong_balanced n h s'"
      using strong_step_balanced [OF Cons.prems assms(2) True] by blast
    with True Cons.IH show ?thesis by simp
  qed simp
qed simp

theorem strong_runs_balanced_witness:
  "\<exists>s'. run_guarded (strong_ok 2 (demo_heap 0)) (strong_step Checked (demo_heap 0))
      [SCtor 0 0x2000, SCopyAssign 1 0, SDtor 0] (\<lambda>_. nullptr, demo_arr) = Inr s'
     \<and> strong_balanced 2 (demo_heap 0) s' \<and> fst s' 1 = 0x2000"
proof -
  let ?r = "run_guarded (strong_ok 2 (demo_heap 0)) (strong_step Checked (demo_heap 0))
      [SCtor 0 0x2000, SCopyAssign 1 0, SDtor 0] (\<lambda>_. nullptr, demo_arr)"
  have "RefCountOf 0 = 0" "RefCountOf 4 = 0" by code_simp+
  then have bal: "strong_balanced 2 (demo_heap 0) (\<lambda>_. nullptr, demo_arr)"
    by (auto simp: strong_balanced_def holders_def slot_count_def demo_defs)
  have "case ?r of Inl e \<Rightarrow> False | Inr s' \<Rightarrow> fst s' 1 = 0x2000" by code_simp
  then obtain s' where r: "?r = Inr s'" "fst s' 1 = 0x2000" by (cases ?r) (simp_all del: run_guarded.simps)
  from strong_runs_balanced [OF bal, of Checked "[SCtor 0 0x2000, SCopyAssign 1 0, SDtor 0]"] r
  show ?thesis by (simp del: run_guarded.simps)
qed

lemma slot_count_GetRefCount:
  assumes "0 < i" "i < m_committedCount a"
  shows "unat (GetRefCount a i) = slot_count a i"
proof -
  have "slot_count a i < 2 ^ 32" using RefCountOf_le [of "StateBits (m_entries a i)"] by (simp add: slot_count_def)
  then show ?thesis using assms by (simp add: GetRefCount_def slot_count_def unsigned_ucast_eq take_bit_nat_eq_self)
qed

text \<open>An object that a strong pointer holds is a root of the next cycle, and so is every pinned one.\<close>

theorem held_and_pinned_objects_are_roots:
  assumes "strong_balanced n (heap g) (S, arr g)" "n < 16777215" "bound_object (heap g) (arr g) p"
    "(\<exists>x < n. S x = p) \<or> IsRooted (heap g) (arr g) p"
  shows "p \<in> root_set E g"
proof -
  let ?i = "InternalIndex (hdr (heap g) p)"
  have e: "(?i, p) \<in> set (ForEachObject (arr g))" "p \<noteq> nullptr"
    using assms(3) by (auto simp: bound_object_def ForEachObject_set)
  consider (held) x where "x < n" "S x = p" | (pinned) "IsRooted (heap g) (arr g) p" using assms(4) by blast
  then show ?thesis
  proof cases
    case held
    then have "x \<in> holders n (heap g) S ?i" using e by (simp add: holders_def IndexOf_def)
    then have "card (holders n (heap g) S ?i) \<noteq> 0" by auto
    moreover have "?i \<in> {1 ..< m_committedCount (arr g)}" using assms(3) by (auto simp: bound_object_def)
    ultimately have c: "slot_count (arr g) ?i \<noteq> 0" using assms(1) by (simp add: strong_balanced_def)
    then have "GetRefCount (arr g) ?i \<noteq> 0"
      using slot_count_GetRefCount [of ?i "arr g"] assms(3) by (auto simp: bound_object_def)
    with e show ?thesis unfolding root_set_ptrs root_ptrs_def by force
  next
    case pinned
    then have "(?i, p) \<in> set (ForEachRoot (arr g))"
      using assms(3) e by (auto simp: ForEachRoot_set bound_object_def IsRooted_def)
    with e show ?thesis unfolding root_set_ptrs root_ptrs_def by force
  qed
qed

theorem held_and_pinned_objects_are_roots_witness:
  "0x1000 \<in> root_set demo_env (demo_gc 0)"
proof (rule held_and_pinned_objects_are_roots)
  have "RefCountOf 0 = 0" "RefCountOf 4 = 0" by code_simp+
  then show "strong_balanced 1 (heap (demo_gc 0)) (\<lambda>_. nullptr, arr (demo_gc 0))"
    by (auto simp: strong_balanced_def holders_def slot_count_def demo_defs)
  show "bound_object (heap (demo_gc 0)) (arr (demo_gc 0)) 0x1000"
    by (simp add: bound_object_def demo_defs)
  have "IsRooted (heap (demo_gc 0)) (arr (demo_gc 0)) 0x1000"
    using demo_pinned [of 1] by (simp add: IsRooted_def demo_gc_def demo_heap_def demo_hdr_def)
  then show "(\<exists>x < 1. nullptr = 0x1000) \<or> IsRooted (heap (demo_gc 0)) (arr (demo_gc 0)) 0x1000" ..
qed simp

section \<open>The collector's queues\<close>

text \<open>
  No captured value is lost and the order of capture is kept: after any run of SATB pushes,
  full queues flushed to the global log on the way, a drain of the thread's queue leaves in the log
  what was captured before followed by the values pushed.
\<close>

theorem satb_pushes_all_captured:
  assumes "satb_inv q l"
  shows "\<exists>q' l'. Satb_PushAll True vs q l = Inr (q', l') \<and> captured q' l' = captured q l @ vs
     \<and> log_entries (snd (Satb_DrainToGlobalLog q' l')) = captured q l @ vs
     \<and> Satb_Size (fst (Satb_DrainToGlobalLog q' l')) = 0"
proof -
  obtain q' l' where r: "Satb_PushAll True vs q l = Inr (q', l')" "captured q' l' = captured q l @ vs"
    using Satb_PushAll_captured [OF assms, of vs] by blast
  have "Satb_Size (fst (Satb_DrainToGlobalLog q' l')) = 0"
    "log_entries (snd (Satb_DrainToGlobalLog q' l')) = captured q' l'"
    by (auto simp: Satb_DrainToGlobalLog_def Satb_Size_def captured_def Let_def)
  with r show ?thesis by simp
qed

theorem satb_pushes_all_captured_witness:
  "\<exists>q' l'. Satb_PushAll True (replicate 300 0x1000) FXObjectSatbQueue_ctor FXObjectGlobalSatbLog_ctor = Inr (q', l')
     \<and> captured q' l' = replicate 300 0x1000"
proof -
  have "satb_inv FXObjectSatbQueue_ctor FXObjectGlobalSatbLog_ctor"
    by (simp add: satb_inv_def FXObjectSatbQueue_ctor_def FXObjectGlobalSatbLog_ctor_def)
  from satb_pushes_all_captured [OF this, of "replicate 300 0x1000"]
  show ?thesis by (simp add: captured_def FXObjectSatbQueue_ctor_def FXObjectGlobalSatbLog_ctor_def) blast
qed

text \<open>
  The gray queue with its overflow list is a bag: pushes, spilled or not, add the non-null
  objects, a pop takes one of them out, and it returns null exactly when nothing is left.
\<close>

theorem gray_queue_is_a_bag:
  assumes "gray_inv q"
  shows "gray_inv (fold Gray_Push xs q)
     \<and> gray_bag (fold Gray_Push xs q) = mset (filter (\<lambda>x. x \<noteq> nullptr) xs) + gray_bag q
     \<and> (fst (Gray_Pop q) = nullptr \<longleftrightarrow> gray_bag q = {#})
     \<and> (fst (Gray_Pop q) \<noteq> nullptr \<longrightarrow> gray_bag q = add_mset (fst (Gray_Pop q)) (gray_bag (snd (Gray_Pop q))))
     \<and> gray_inv (snd (Gray_Pop q))"
  using gray.push_list_inv [OF assms] gray.push_list_bag [OF assms] gray.pop_empty [OF assms]
    gray.pop_bag [OF assms] gray.pop_inv [OF assms] by blast

theorem gray_queue_is_a_bag_witness:
  "gray_bag (fold Gray_Push [0x1000, 0, 0x2000] FXGrayQueue_ctor) = {#0x1000, 0x2000#}"
proof -
  have "gray_inv FXGrayQueue_ctor" by (simp add: gray_inv_def gray_bag_def FXGrayQueue_ctor_def)
  from gray_queue_is_a_bag [OF this, of "[0x1000, 0, 0x2000]"]
  show ?thesis by (simp add: gray_bag_def FXGrayQueue_ctor_def del: fold.simps)
qed

section \<open>The card table\<close>

text \<open>
  Marking a byte range dirties exactly the cards that hold a byte of the range inside the
  heap, and keeps the dirty count equal to the number of dirty cards.
\<close>

theorem card_range_exact:
  assumes "card_inv t" "unat a + unat n < 2 ^ 64"
  shows "\<exists>e t'. MarkCardRangeDirty a n t = Inr (e, t') \<and> card_inv t'
     \<and> dirty_cards t' = dirty_cards t \<union> range_cards t a n \<and> unat (m_dirtyCount t') = card (dirty_cards t')"
proof -
  obtain e t' where "MarkCardRangeDirty a n t = Inr (e, t')" "card_inv t'"
    "dirty_cards t' = dirty_cards t \<union> range_cards t a n"
    by (rule MarkCardRangeDirty_spec [OF assms])
  with card_inv_count show ?thesis by blast
qed

theorem card_range_exact_witness:
  "\<exists>t e t'. Card_Initialize Checked 0x10000 0x1000 FXObjectGCCardTable_ctor = Inr t
     \<and> MarkCardRangeDirty 0x10200 512 t = Inr (e, t') \<and> dirty_cards t' = range_cards t 0x10200 512"
proof -
  obtain t where t: "Card_Initialize Checked 0x10000 0x1000 FXObjectGCCardTable_ctor = Inr t" "card_inv t"
      "dirty_cards t = {}"
    by (rule Card_Initialize_inv [OF ctor_card_inv, where HeapBase = "0x10000" and HeapByteSize = "0x1000" and b = Checked]) simp_all
  from card_range_exact [OF t(2), where a = "0x10200" and n = 512] t show ?thesis by auto
qed

lemma MarkCardDirty_base:
  "MarkCardDirty a t = Inr t' \<Longrightarrow> m_heapBaseAddr t' = m_heapBaseAddr t \<and> m_heapByteSize t' = m_heapByteSize t"
  by (auto simp: MarkCardDirty_def Let_def in_range_def split: if_splits option.splits)

lemma fold_MarkCardDirty:
  assumes "card_inv t"
  shows "\<exists>t'. fold_res MarkCardDirty as t = Inr t' \<and> card_inv t'
     \<and> dirty_cards t' = dirty_cards t \<union> card_index t ` {a \<in> set as. in_heap t a}"
  using assms
proof (induction as arbitrary: t)
  case (Cons a as)
  obtain t1 where t1: "MarkCardDirty a t = Inr t1" "card_inv t1"
    "dirty_cards t1 = (if in_heap t a then insert (card_index t a) (dirty_cards t) else dirty_cards t)"
    by (rule MarkCardDirty_spec [OF Cons.prems])
  have "card_index t1 x = card_index t x" "in_heap t1 x = in_heap t x" for x
    using MarkCardDirty_base [OF t1(1)] by (simp_all add: card_index_def in_heap_def)
  moreover have "{x \<in> set (a # as). in_heap t x}
      = (if in_heap t a then insert a {x \<in> set as. in_heap t x} else {x \<in> set as. in_heap t x})" by auto
  ultimately show ?case using Cons.IH [OF t1(2)] t1 by auto
qed simp

text \<open>
  What the write barrier dirties is what the collector's drain visits: after any run of card
  marks, the drain visits in ascending order the cards that were dirty before and the cards of
  the stored slots inside the heap, and leaves every card clean.
\<close>

theorem barrier_cards_are_drained:
  fixes V :: "nat \<Rightarrow> 's \<Rightarrow> 's"
  assumes "card_inv t"
  shows "\<exists>t1 n t2. fold_res MarkCardDirty as t = Inr t1
     \<and> ForEachDirtyCardAndClear V t1 s = (n, t2, fold V
         (sorted_list_of_set (dirty_cards t \<union> card_index t ` {a \<in> set as. in_heap t a})) s)
     \<and> dirty_cards t2 = {} \<and> m_dirtyCount t2 = 0 \<and> card_inv t2"
proof -
  obtain t1 where t1: "fold_res MarkCardDirty as t = Inr t1" "card_inv t1"
    "dirty_cards t1 = dirty_cards t \<union> card_index t ` {a \<in> set as. in_heap t a}"
    using fold_MarkCardDirty [OF assms] by blast
  note d = ForEachDirtyCardAndClear_spec [OF t1(2), of V s]
  show ?thesis
    by (rule exI [of _ t1], rule exI [of _ "fst (ForEachDirtyCardAndClear V t1 s)"],
        rule exI [of _ "fst (snd (ForEachDirtyCardAndClear V t1 s))"])
      (use t1 d in \<open>simp add: prod_eq_iff\<close>)
qed

theorem barrier_cards_are_drained_witness:
  "\<exists>t t1 n t2. Card_Initialize Checked 0x10000 0x1000 FXObjectGCCardTable_ctor = Inr t
     \<and> fold_res MarkCardDirty [0x10400, 0x10008, 0x10410, 0x90000] t = Inr t1
     \<and> ForEachDirtyCardAndClear (\<lambda>i is. is @ [i]) t1 [] = (n, t2, [0, 2])"
proof -
  obtain t where t: "Card_Initialize Checked 0x10000 0x1000 FXObjectGCCardTable_ctor = Inr t" "card_inv t"
      "dirty_cards t = {}" "m_heapBaseAddr t = 0x10000" "m_heapByteSize t = 0x1000"
    by (rule Card_Initialize_inv [OF ctor_card_inv, where HeapBase = "0x10000" and HeapByteSize = "0x1000" and b = Checked]) simp_all
  have "{a \<in> set [0x10400, 0x10008, 0x10410, 0x90000]. in_heap t a} = {0x10400, 0x10008, 0x10410}"
    using t(4,5) by (auto simp: in_heap_def)
  then have "card_index t ` {a \<in> set [0x10400, 0x10008, 0x10410, 0x90000]. in_heap t a} = {2, 0}"
    using t(4) by (simp add: card_index_def insert_commute)
  with barrier_cards_are_drained [OF t(2), of "[0x10400, 0x10008, 0x10410, 0x90000]" "\<lambda>i is. is @ [i]" "[]"] t(1,3)
  show ?thesis by auto
qed

section \<open>The span registry\<close>

text \<open>
  The registry refines a partial map from handles to spans: adding a well-formed span takes
  a handle that was free and maps it, removing a handle unmaps it and nothing else, an ill-formed
  span is refused without effect, and the count is the size of the map.
\<close>

theorem span_registry_refines_map:
  assumes "span_inv r"
  shows "(case AddSpan sp r of (H, r') \<Rightarrow> span_inv r'
       \<and> (if span_ok sp then 0 \<le> H \<and> active_spans r H = None \<and> active_spans r' = (active_spans r)(H \<mapsto> sp)
          else H = kXGCRootSpanInvalidHandle \<and> r' = r))
     \<and> span_inv (RemoveSpan K r) \<and> active_spans (RemoveSpan K r) = (active_spans r)(K := None)
     \<and> GetSpanCount r = card (dom (active_spans r))"
proof (cases "span_ok sp")
  case True
  then obtain H r' where "AddSpan sp r = (H, r')" "0 \<le> H" "active_spans r H = None"
    "active_spans r' = (active_spans r)(H \<mapsto> sp)" "span_inv r'" by (rule AddSpan_spec [OF assms])
  with True RemoveSpan_spec [OF assms] GetSpanCount_active [OF assms] show ?thesis by simp
qed (use assms AddSpan_rejects RemoveSpan_spec [OF assms] GetSpanCount_active [OF assms] in simp)

theorem span_registry_refines_map_witness:
  "case AddSpan \<lparr>BaseAddress = 0x1000, ByteLength = 16, ElementStride = 8, Kind = kObject\<rparr> XGCRootSpanRegistry_ctor of
     (H, r) \<Rightarrow> active_spans r H = Some \<lparr>BaseAddress = 0x1000, ByteLength = 16, ElementStride = 8, Kind = kObject\<rparr>"
  using span_registry_refines_map [OF ctor_span_inv, of "\<lparr>BaseAddress = 0x1000, ByteLength = 16, ElementStride = 8, Kind = kObject\<rparr>" 0]
  by (simp add: span_ok_def split: prod.splits)

text \<open>
  The root walk over the spans visits every non-null word of a typed span, and of a
  conservative span exactly the words that are the address of a live object bound to its slot.
\<close>

theorem span_walk_exact:
  "p \<in> set (ForEachValidObjectInSpans b IsHeap h a r) \<longleftrightarrow>
     p \<noteq> nullptr \<and> (\<exists>H sp. active_spans r H = Some sp \<and> ByteLength sp \<noteq> 0 \<and> BaseAddress sp \<noteq> nullptr
       \<and> p \<in> set (span_words (mem h) sp) \<and> (Kind sp = kObject \<or> IsHeap p \<and> bound_object h a p))"
  by (rule ForEachValid_set)

section \<open>Deferred destruction\<close>







section \<open>The write barrier and the buffers\<close>

text \<open>
  C15: a barriered store writes the new pointer and nothing else, captures the pointer it
  overwrites when marking is active and the pointer is not null, and dirties the slot's card.
\<close>

theorem gc_store_captures_and_stores:
  assumes "satb_inv (satb g) (slog g)" "card_inv (cards g)"
  shows "\<exists>g'. XPACT_GC_STORE True Slot NewValue g = Inr g'
     \<and> load_ptr (mem (heap g')) Slot = NewValue \<and> hdr (heap g') = hdr (heap g)
     \<and> (\<forall>x. x - Slot < 8 \<or> mem (heap g') x = mem (heap g) x)
     \<and> captured (satb g') (slog g') = captured (satb g) (slog g) @
         (if g_XGCIsConcurrentMarkActive g \<and> load_ptr (mem (heap g)) Slot \<noteq> nullptr
          then [load_ptr (mem (heap g)) Slot] else [])
     \<and> dirty_cards (cards g') = (if in_heap (cards g) Slot
         then insert (card_index (cards g) Slot) (dirty_cards (cards g)) else dirty_cards (cards g))"
proof -
  obtain g1 where g1: "XGCWriteBarrierImpl True Slot g = Inr g1" "heap g1 = heap g"
    "captured (satb g1) (slog g1) = captured (satb g) (slog g) @
       (if g_XGCIsConcurrentMarkActive g \<and> load_ptr (mem (heap g)) Slot \<noteq> nullptr
        then [load_ptr (mem (heap g)) Slot] else [])"
    "dirty_cards (cards g1) = (if in_heap (cards g) Slot
       then insert (card_index (cards g) Slot) (dirty_cards (cards g)) else dirty_cards (cards g))"
    by (rule XGCWriteBarrierImpl_spec [OF assms, where Slot = Slot])
  then have "XPACT_GC_STORE True Slot NewValue g
      = Inr (g1\<lparr>heap := (heap g)\<lparr>mem := store_ptr (mem (heap g)) Slot NewValue\<rparr>\<rparr>)"
    by (simp add: XPACT_GC_STORE_def)
  with g1 show ?thesis by (simp add: load_store_ptr) (auto intro: store_ptr_outside)
qed

theorem gc_store_captures_and_stores_witness:
  "\<exists>g'. XPACT_GC_STORE True 0x1038 0x3000 ((demo_gc 0)\<lparr>g_XGCIsConcurrentMarkActive := True\<rparr>) = Inr g'
     \<and> load_ptr (mem (heap g')) 0x1038 = 0x3000 \<and> captured (satb g') (slog g') = [0x2000]"
proof -
  let ?g = "(demo_gc 0)\<lparr>g_XGCIsConcurrentMarkActive := True\<rparr>"
  have inv: "satb_inv (satb ?g) (slog ?g)" "card_inv (cards ?g)"
    by (simp_all add: demo_gc_def ctor_card_inv satb_inv_def FXObjectSatbQueue_ctor_def FXObjectGlobalSatbLog_ctor_def)
  have "mem (heap ?g) = demo_mem" by (simp add: demo_gc_def demo_heap_def)
  with gc_store_captures_and_stores [OF inv, of "0x1038" "0x3000"] demo_load(1) demo_ready(6) [of 0]
  show ?thesis by auto
qed

text \<open>
  The growth of the collector's buffers makes room for every request, never shrinks, and is
  at most twice what is needed unless the buffer or its initial size was larger.
\<close>

theorem buffer_growth_bounds:
  assumes "0 < initial"
  shows "cnt + req \<le> GrowCapacity initial cnt cap req \<and> cap \<le> GrowCapacity initial cnt cap req
     \<and> GrowCapacity initial cnt cap req \<le> max (max initial cap) (2 * (cnt + req))"
  using GrowCapacity_fits [OF assms] GrowCapacity_mono GrowCapacity_bound [OF assms] by blast

theorem buffer_growth_bounds_witness: "300 + 256 \<le> GrowCapacity 256 300 512 256"
  using buffer_growth_bounds [of 256 300 256 512] by simp

end
