(* ===== verification/SchemaLayouts.thy ===== *)
theory SchemaLayouts
  imports SchemaWalker
begin

text \<open>
  What a schema is for: the type of an object says where its references are, the emitter of
  \<open>SchemaVectorEmitter.cs\<close> turns the type into a schema, and the walker has to find the references
  an instance holds.  This theory has the types (\<open>ref_field\<close>), the values an instance holds of them
  (\<open>ref_value\<close>), the schema emitted for a type (\<open>schema_of\<close>) and the bytes of an instance that holds
  given values (\<open>stores\<close>), none of them by way of the walker; the walk of the emitted schema then
  hands the visitor the references of the values, each as often as it is held and in the order of the
  fields.

  The fields are the strong ones: object, interface and class references, arrays of references,
  strided arrays, nested structs and arrays of structs.  Weak, soft, delegate and optional slots are
  visited too, but what the walker reads there is not a reference the object holds; sets and maps are
  left out because the walker reads a set as if it were an array.
\<close>

section \<open>Types, values and schemas\<close>











section \<open>The bytes of an instance\<close>




section \<open>The walk of an emitted schema\<close>









section \<open>An instance\<close>










end
