(* ===== verification/Allocator.thy ===== *)
theory Allocator
  imports Collector
begin

text \<open>
  The object allocator (\<open>FXObjectAllocator\<close>): nine size classes of cells cut out of slabs,
  one pool per class descriptor that owns cells and recycles them through its own free list,
  and single blocks for requests above the largest class.  A free list, linked through the
  first word of its cells, is the list of those cells; an array of pointers that doubles when
  it is full is a list.  The block \<open>FMemory::MallocOrAbort\<close> hands out for a slab or a large
  object is an argument of the operation that requests it.
\<close>

section \<open>The size classes\<close>

definition kFXObjectAllocatorNumSizeClasses :: nat where
  "kFXObjectAllocatorNumSizeClasses = 10"

definition kFXObjectAllocatorNumNormalClasses :: nat where
  "kFXObjectAllocatorNumNormalClasses = 9"

definition kFXObjectAllocatorSizeClasses :: "u64 list" where
  "kFXObjectAllocatorSizeClasses = [64, 96, 128, 192, 256, 384, 512, 768, 1024, 0]"

definition kFXObjectAllocatorSlabBytes :: "u64 list" where
  "kFXObjectAllocatorSlabBytes =
     [65536, 65536, 65536, 65536, 65536, 65536, 131072, 131072, 131072, 0]"

definition SizeToSizeClass :: "u64 \<Rightarrow> nat" where
  "SizeToSizeClass Size =
     (if Size = 0 then 0
      else case find (\<lambda>sc. let Class = kFXObjectAllocatorSizeClasses ! sc in
                        \<not> Class < Size \<and> Size * 4 \<le> Class * 5)
                  [0 ..< kFXObjectAllocatorNumNormalClasses] of
        Some sc \<Rightarrow> sc
      | None \<Rightarrow> kFXObjectAllocatorNumNormalClasses)"

definition SizeClassToWidth :: "int \<Rightarrow> u64" where
  "SizeClassToWidth SizeClassIndex =
     (if SizeClassIndex < 0 \<or> SizeClassIndex \<ge> int kFXObjectAllocatorNumNormalClasses then 0
      else kFXObjectAllocatorSizeClasses ! nat SizeClassIndex)"

text \<open>\<open>(Size + Align - 1) & ~(Align - 1)\<close>, or the size itself when no alignment is asked for.\<close>

definition RoundedSize :: "u64 \<Rightarrow> u64 \<Rightarrow> u64" where
  "RoundedSize Size Align = (if Align = 0 then Size else (Size + Align - 1) AND NOT (Align - 1))"

section \<open>The state\<close>

text \<open>The owner of a cell: nobody, the sentinel of class-less allocations, or a class.\<close>

datatype owner = Unowned | NoClassSentinel | OwnedBy ptr

record FSlab =
  SlabBase :: ptr
  SlabSizeClass :: nat
  NumCells :: nat
  SlabLive :: int
  Unassigned :: "ptr list"
  OwnerClass :: "owner list"

record FClassPool =
  PoolClass :: owner
  PoolSizeClass :: nat
  ClassFree :: "ptr list"
  PoolLive :: int
  PoolOwned :: int

record FSizeClassPool =
  CellWidth :: u64
  SlabBytes :: u64
  Slabs :: "FSlab list"
  TotalCells :: int
  TotalLiveCells :: int

record FLargeSlab =
  LargeBase :: ptr
  LargeSize :: u64
  LargeClass :: ptr

record FState =
  SizeClasses :: "FSizeClassPool list"
  ClassPools :: "FClassPool list"
  NoClassPools :: "FClassPool list"
  LargeSlabs :: "FLargeSlab list"
  ScenarioStack :: "u64 list"

definition FState_initial :: FState where
  "FState_initial =
     \<lparr>SizeClasses = map (\<lambda>sc. \<lparr>CellWidth = kFXObjectAllocatorSizeClasses ! sc,
                              SlabBytes = kFXObjectAllocatorSlabBytes ! sc, Slabs = [],
                              TotalCells = 0, TotalLiveCells = 0\<rparr>)
                       [0 ..< kFXObjectAllocatorNumSizeClasses],
      ClassPools = [],
      NoClassPools = map (\<lambda>sc. \<lparr>PoolClass = NoClassSentinel, PoolSizeClass = sc, ClassFree = [],
                               PoolLive = 0, PoolOwned = 0\<rparr>)
                        [0 ..< kFXObjectAllocatorNumNormalClasses],
      LargeSlabs = [], ScenarioStack = []\<rparr>"

definition EnsureStateInitialised :: "FState option \<Rightarrow> FState" where
  "EnsureStateInitialised m_state = (case m_state of None \<Rightarrow> FState_initial | Some s \<Rightarrow> s)"

definition upd_size :: "nat \<Rightarrow> (FSizeClassPool \<Rightarrow> FSizeClassPool) \<Rightarrow> FState \<Rightarrow> FState" where
  "upd_size sc f s = s\<lparr>SizeClasses := (SizeClasses s)[sc := f (SizeClasses s ! sc)]\<rparr>"

text \<open>A pool is one of the registered ones or the class-less one of a size class.\<close>

datatype pool_ref = ClassPool nat | NoClassPool nat

definition get_pool :: "FState \<Rightarrow> pool_ref \<Rightarrow> FClassPool" where
  "get_pool s r = (case r of ClassPool i \<Rightarrow> ClassPools s ! i | NoClassPool sc \<Rightarrow> NoClassPools s ! sc)"

definition upd_pool :: "pool_ref \<Rightarrow> (FClassPool \<Rightarrow> FClassPool) \<Rightarrow> FState \<Rightarrow> FState" where
  "upd_pool r f s =
     (case r of
        ClassPool i \<Rightarrow> s\<lparr>ClassPools := (ClassPools s)[i := f (ClassPools s ! i)]\<rparr>
      | NoClassPool sc \<Rightarrow> s\<lparr>NoClassPools := (NoClassPools s)[sc := f (NoClassPools s ! sc)]\<rparr>)"

section \<open>Class pools\<close>

definition FindClassPoolUnderLock :: "FState \<Rightarrow> ptr \<Rightarrow> nat option" where
  "FindClassPoolUnderLock s Class =
     find (\<lambda>i. PoolClass (ClassPools s ! i) = OwnedBy Class) [0 ..< length (ClassPools s)]"

definition RegisterClassPoolUnderLock :: "ptr \<Rightarrow> nat \<Rightarrow> FState \<Rightarrow> FState" where
  "RegisterClassPoolUnderLock Class SizeClassIndex s =
     s\<lparr>ClassPools := ClassPools s @
        [\<lparr>PoolClass = OwnedBy Class, PoolSizeClass = SizeClassIndex, ClassFree = [],
          PoolLive = 0, PoolOwned = 0\<rparr>]\<rparr>"

text \<open>The size and alignment of a class are what its \<open>FStruct\<close> says.\<close>

definition ClassToSizeClass :: "(ptr \<Rightarrow> u64 \<times> u64) \<Rightarrow> ptr \<Rightarrow> nat" where
  "ClassToSizeClass ClassLayout Class =
     (let (Size, Align) = ClassLayout Class in SizeToSizeClass (RoundedSize Size Align))"

definition RegisterClassPool ::
  "build \<Rightarrow> (ptr \<Rightarrow> u64 \<times> u64) \<Rightarrow> ptr \<Rightarrow> FState option \<Rightarrow> xerror + FState" where
  "RegisterClassPool b ClassLayout Class m_state =
     xcheck b (Class \<noteq> nullptr)
       (let s = EnsureStateInitialised m_state in
        if FindClassPoolUnderLock s Class \<noteq> None then Inr s
        else Inr (RegisterClassPoolUnderLock Class (ClassToSizeClass ClassLayout Class) s))"

definition RebindClassPool :: "build \<Rightarrow> ptr \<Rightarrow> ptr \<Rightarrow> FState option \<Rightarrow> xerror + FState" where
  "RebindClassPool b OldClass NewClass m_state =
     xcheck b (OldClass \<noteq> nullptr) (xcheck b (NewClass \<noteq> nullptr) (xcheck b (OldClass \<noteq> NewClass) (
     let s = EnsureStateInitialised m_state in
     case FindClassPoolUnderLock s OldClass of
       None \<Rightarrow> Inr s
     | Some o' \<Rightarrow>
         let s1 = (if FindClassPoolUnderLock s NewClass = None
                   then RegisterClassPoolUnderLock NewClass (PoolSizeClass (ClassPools s ! o')) s else s) in
         case FindClassPoolUnderLock s1 NewClass of
           None \<Rightarrow> Inl CheckFailed
         | Some n \<Rightarrow>
             let OldPool = ClassPools s1 ! o' in
             xcheck b (PoolSizeClass (ClassPools s1 ! n) = PoolSizeClass OldPool) (
             let s2 = upd_size (PoolSizeClass OldPool)
                   (\<lambda>P. P\<lparr>Slabs := map (\<lambda>Slab. Slab\<lparr>OwnerClass := map (\<lambda>c. if c = OwnedBy OldClass
                                          then OwnedBy NewClass else c) (OwnerClass Slab)\<rparr>) (Slabs P)\<rparr>) s1;
                 s3 = upd_pool (ClassPool n)
                   (\<lambda>P. P\<lparr>ClassFree := ClassFree OldPool @ ClassFree P,
                          PoolLive := PoolLive P + PoolLive OldPool,
                          PoolOwned := PoolOwned P + PoolOwned OldPool\<rparr>) s2
             in Inr (upd_pool (ClassPool o') (\<lambda>P. P\<lparr>ClassFree := [], PoolLive := 0, PoolOwned := 0\<rparr>) s3)))))"

section \<open>Searching the slabs\<close>

text \<open>The binary search that \<open>IsHeapAddress\<close>, \<open>Deallocate\<close> and \<open>ReleaseClassPool\<close> spell out.\<close>

definition SlabEnd :: "u64 \<Rightarrow> FSlab \<Rightarrow> ptr" where
  "SlabEnd W Slab = SlabBase Slab + word_of_nat (NumCells Slab) * W"

function FindSlab :: "u64 \<Rightarrow> FSlab list \<Rightarrow> ptr \<Rightarrow> int \<Rightarrow> int \<Rightarrow> nat option" where
  "FindSlab W Ss C Lo Hi =
     (if Lo \<le> Hi then
        let Mid = Lo + (Hi - Lo) div 2; Slab = Ss ! nat Mid in
        if C < SlabBase Slab then FindSlab W Ss C Lo (Mid - 1)
        else if C \<ge> SlabEnd W Slab then FindSlab W Ss C (Mid + 1) Hi
        else Some (nat Mid)
      else None)"
  by pat_completeness auto
termination
  by (relation "measure (\<lambda>(W, Ss, C, Lo, Hi). nat (Hi - Lo + 1))") auto

declare FindSlab.simps [simp del]

definition FindInClass :: "FState \<Rightarrow> ptr \<Rightarrow> nat \<Rightarrow> nat option" where
  "FindInClass s C sc =
     (let P = SizeClasses s ! sc in FindSlab (CellWidth P) (Slabs P) C 0 (int (length (Slabs P)) - 1))"

fun FindInClasses :: "FState \<Rightarrow> ptr \<Rightarrow> nat list \<Rightarrow> (nat \<times> nat) option" where
  "FindInClasses s C [] = None"
| "FindInClasses s C (sc # scs) =
     (if Slabs (SizeClasses s ! sc) = [] then FindInClasses s C scs
      else case FindInClass s C sc of
        Some si \<Rightarrow> Some (sc, si)
      | None \<Rightarrow> FindInClasses s C scs)"

definition IsHeapAddress_alloc :: "FState option \<Rightarrow> ptr \<Rightarrow> bool" where
  "IsHeapAddress_alloc m_state Candidate =
     (if Candidate = nullptr then False
      else case m_state of
        None \<Rightarrow> False
      | Some s \<Rightarrow>
          FindInClasses s Candidate [0 ..< kFXObjectAllocatorNumNormalClasses] \<noteq> None
          \<or> list_ex (\<lambda>L. Candidate \<ge> LargeBase L \<and> Candidate < LargeBase L + LargeSize L) (LargeSlabs s))"

section \<open>Allocation\<close>

definition ClassPoolFor :: "ptr \<Rightarrow> nat \<Rightarrow> FState \<Rightarrow> xerror + (pool_ref \<times> FState)" where
  "ClassPoolFor Class SizeClassIndex s =
     (if Class = nullptr then Inr (NoClassPool SizeClassIndex, s)
      else let s1 = (if FindClassPoolUnderLock s Class = None
                     then RegisterClassPoolUnderLock Class SizeClassIndex s else s) in
        case FindClassPoolUnderLock s1 Class of
          None \<Rightarrow> Inl CheckFailed
        | Some i \<Rightarrow> Inr (ClassPool i, s1))"

definition NewSlab :: "ptr \<Rightarrow> nat \<Rightarrow> FSizeClassPool \<Rightarrow> FSlab" where
  "NewSlab Base SizeClassIndex P =
     (let N = unat (SlabBytes P div CellWidth P) in
      \<lparr>SlabBase = Base, SlabSizeClass = SizeClassIndex, NumCells = N, SlabLive = 0,
       Unassigned = map (\<lambda>ci. Base + word_of_nat ci * CellWidth P) [0 ..< N],
       OwnerClass = replicate N Unowned\<rparr>)"

text \<open>The slabs of a size class are kept in ascending order of their bases.\<close>

definition InsertSlab :: "FSlab \<Rightarrow> FSlab list \<Rightarrow> FSlab list" where
  "InsertSlab New Ss =
     takeWhile (\<lambda>S. \<not> SlabBase New < SlabBase S) Ss @ New # dropWhile (\<lambda>S. \<not> SlabBase New < SlabBase S) Ss"

definition FindDonor :: "FSlab list \<Rightarrow> nat option" where
  "FindDonor Ss = find (\<lambda>si. Unassigned (Ss ! si) \<noteq> []) [0 ..< length Ss]"

definition GrowSizeClass :: "ptr \<Rightarrow> nat \<Rightarrow> FState \<Rightarrow> FState" where
  "GrowSizeClass Base SizeClassIndex s =
     upd_size SizeClassIndex (\<lambda>P. let New = NewSlab Base SizeClassIndex P in
       P\<lparr>Slabs := InsertSlab New (Slabs P), TotalCells := TotalCells P + int (NumCells New)\<rparr>) s"

definition TakeUnassigned :: "build \<Rightarrow> ptr \<Rightarrow> nat \<Rightarrow> nat \<Rightarrow> pool_ref \<Rightarrow> FState \<Rightarrow> xerror + (ptr \<times> FState)" where
  "TakeUnassigned b Class SizeClassIndex si r s =
     (let P = SizeClasses s ! SizeClassIndex; Donor = Slabs P ! si in
      case Unassigned Donor of
        [] \<Rightarrow> Inl CheckFailed
      | Cell # rest \<Rightarrow>
          let CellIndex = unat ((Cell - SlabBase Donor) div CellWidth P) in
          xcheck b (CellIndex < NumCells Donor) (
          in_range (CellIndex < length (OwnerClass Donor)) (
          let Tag = (if Class = nullptr then NoClassSentinel else OwnedBy Class);
              Donor' = Donor\<lparr>Unassigned := rest, OwnerClass := (OwnerClass Donor)[CellIndex := Tag],
                             SlabLive := SlabLive Donor + 1\<rparr>;
              s1 = upd_size SizeClassIndex (\<lambda>P. P\<lparr>Slabs := (Slabs P)[si := Donor'],
                                                 TotalLiveCells := TotalLiveCells P + 1\<rparr>) s;
              s2 = upd_pool r (\<lambda>P. P\<lparr>PoolLive := PoolLive P + 1, PoolOwned := PoolOwned P + 1\<rparr>) s1
          in Inr (Cell, s2))))"

definition AllocateRaw ::
  "build \<Rightarrow> ptr \<Rightarrow> u64 \<Rightarrow> u64 \<Rightarrow> ptr \<Rightarrow> FState option \<Rightarrow> xerror + (ptr \<times> FState)" where
  "AllocateRaw b Storage Size0 Align Class m_state =
     (let Size = (if Size0 = 0 then 1 else Size0);
          Rounded = RoundedSize Size Align;
          SizeClassIndex = SizeToSizeClass Rounded;
          s = EnsureStateInitialised m_state in
      if SizeClassIndex \<ge> kFXObjectAllocatorNumNormalClasses then
        Inr (Storage, s\<lparr>LargeSlabs := LargeSlabs s @
                        [\<lparr>LargeBase = Storage, LargeSize = Rounded, LargeClass = Class\<rparr>]\<rparr>)
      else
        rbind (ClassPoolFor Class SizeClassIndex s) (\<lambda>(r, s1).
        case ClassFree (get_pool s1 r) of
          Cell # rest \<Rightarrow>
            Inr (Cell, upd_size SizeClassIndex (\<lambda>P. P\<lparr>TotalLiveCells := TotalLiveCells P + 1\<rparr>)
                        (upd_pool r (\<lambda>P. P\<lparr>ClassFree := rest, PoolLive := PoolLive P + 1\<rparr>) s1))
        | [] \<Rightarrow>
            let s2 = (if FindDonor (Slabs (SizeClasses s1 ! SizeClassIndex)) = None
                      then GrowSizeClass Storage SizeClassIndex s1 else s1) in
            case FindDonor (Slabs (SizeClasses s2 ! SizeClassIndex)) of
              None \<Rightarrow> Inl CheckFailed
            | Some si \<Rightarrow> TakeUnassigned b Class SizeClassIndex si r s2))"

section \<open>Deallocation\<close>

text \<open>A cell goes back to the free list of the class that owns it, a large block to the system.\<close>

definition PushClassFree :: "nat \<Rightarrow> nat \<Rightarrow> ptr \<Rightarrow> pool_ref \<Rightarrow> FState \<Rightarrow> FState" where
  "PushClassFree sc si Storage r s =
     upd_size sc (\<lambda>P. P\<lparr>Slabs := (Slabs P)[si := (Slabs P ! si)\<lparr>SlabLive := SlabLive (Slabs P ! si) - 1\<rparr>],
                        TotalLiveCells := TotalLiveCells P - 1\<rparr>)
       (upd_pool r (\<lambda>P. P\<lparr>ClassFree := Storage # ClassFree P, PoolLive := PoolLive P - 1\<rparr>) s)"

definition Deallocate :: "build \<Rightarrow> ptr \<Rightarrow> FState option \<Rightarrow> xerror + FState option" where
  "Deallocate b Storage m_state =
     (if Storage = nullptr then Inr m_state
      else case m_state of
        None \<Rightarrow> Inr None
      | Some s \<Rightarrow>
          (case FindInClasses s Storage [0 ..< kFXObjectAllocatorNumNormalClasses] of
             Some (sc, si) \<Rightarrow>
               let P = SizeClasses s ! sc; Found = Slabs P ! si; CellOffset = Storage - SlabBase Found in
               xcheck b (CellOffset mod CellWidth P = 0) (
               let CellIndex = unat (CellOffset div CellWidth P) in
               in_range (CellIndex < length (OwnerClass Found)) (
               case OwnerClass Found ! CellIndex of
                 Unowned \<Rightarrow> Inl CheckFailed
               | NoClassSentinel \<Rightarrow> Inr (Some (PushClassFree sc si Storage (NoClassPool sc) s))
               | OwnedBy Class \<Rightarrow>
                   (case FindClassPoolUnderLock s Class of
                      None \<Rightarrow> Inl CheckFailed
                    | Some i \<Rightarrow> Inr (Some (PushClassFree sc si Storage (ClassPool i) s)))))
           | None \<Rightarrow>
               (case find (\<lambda>i. LargeBase (LargeSlabs s ! i) = Storage) [0 ..< length (LargeSlabs s)] of
                  Some i \<Rightarrow> Inr (Some (s\<lparr>LargeSlabs := butlast ((LargeSlabs s)[i := last (LargeSlabs s)])\<rparr>))
                | None \<Rightarrow> Inl Aborted)))"

section \<open>Scenario boundaries\<close>

definition BeginScenarioBoundary :: "FState option \<Rightarrow> FState" where
  "BeginScenarioBoundary m_state =
     (let s = EnsureStateInitialised m_state in s\<lparr>ScenarioStack := ScenarioStack s @ [0]\<rparr>)"

definition EndScenarioBoundary :: "build \<Rightarrow> FState option \<Rightarrow> xerror + FState option" where
  "EndScenarioBoundary b m_state =
     (case m_state of
        None \<Rightarrow> Inr None
      | Some s \<Rightarrow> xcheck b (ScenarioStack s \<noteq> []) (
                    in_range (ScenarioStack s \<noteq> []) (
                    Inr (Some (s\<lparr>ScenarioStack := butlast (ScenarioStack s)\<rparr>)))))"

section \<open>Idle slabs\<close>

text \<open>
  \<open>CoalesceIdleSlabs\<close> releases every slab whose live count is zero; the free lists of its size
  class lose the nodes that lie in it.  The result is the number of bytes released.
\<close>

definition SweepClassPool :: "nat \<Rightarrow> ptr \<Rightarrow> ptr \<Rightarrow> FClassPool \<Rightarrow> FClassPool" where
  "SweepClassPool sc Start End P =
     (if PoolSizeClass P \<noteq> sc then P
      else let inside = (\<lambda>Node. Start \<le> Node \<and> Node < End) in
        P\<lparr>ClassFree := filter (\<lambda>Node. \<not> inside Node) (ClassFree P),
          PoolOwned := PoolOwned P - int (length (filter inside (ClassFree P)))\<rparr>)"

definition SweepPools :: "nat \<Rightarrow> u64 \<Rightarrow> FSlab \<Rightarrow> FState \<Rightarrow> FState" where
  "SweepPools sc W Slab s =
     s\<lparr>ClassPools := map (SweepClassPool sc (SlabBase Slab) (SlabEnd W Slab)) (ClassPools s),
       NoClassPools := (NoClassPools s)[sc := SweepClassPool sc (SlabBase Slab) (SlabEnd W Slab) (NoClassPools s ! sc)]\<rparr>"

definition CoalesceClass :: "nat \<Rightarrow> u64 \<times> FState \<Rightarrow> u64 \<times> FState" where
  "CoalesceClass sc = (\<lambda>(ReleasedBytes, s).
     let P = SizeClasses s ! sc;
         Idle = filter (\<lambda>Slab. SlabLive Slab = 0) (Slabs P);
         s1 = fold (SweepPools sc (CellWidth P)) Idle s
     in (ReleasedBytes + word_of_nat (length Idle) * SlabBytes P,
         upd_size sc (\<lambda>P. P\<lparr>Slabs := filter (\<lambda>Slab. SlabLive Slab \<noteq> 0) (Slabs P),
                            TotalCells := TotalCells P - sum_list (map (\<lambda>Slab. int (NumCells Slab)) Idle)\<rparr>) s1))"

definition CoalesceIdleSlabs :: "FState option \<Rightarrow> u64 \<times> FState option" where
  "CoalesceIdleSlabs m_state =
     (case m_state of
        None \<Rightarrow> (0, None)
      | Some s \<Rightarrow>
          let (n, s') = fold CoalesceClass [0 ..< kFXObjectAllocatorNumNormalClasses] (0, s) in (n, Some s'))"

section \<open>Releasing a class's cells\<close>

datatype FScenarioBoundaryError =
  ReferenceFromOutsideSubpool | ClassNotRegistered | CollectorActive | NullClassDescriptor

record FCellEntry =
  Cell :: ptr
  CellSlab :: nat
  CellIndex :: nat
  bLive :: bool

text \<open>The cells on the class's free list, then the other cells the class owns.\<close>

definition FreeListEntry :: "build \<Rightarrow> ptr \<Rightarrow> nat \<Rightarrow> FState \<Rightarrow> ptr \<Rightarrow> xerror + FCellEntry" where
  "FreeListEntry b Class sc s Cursor =
     (let P = SizeClasses s ! sc in
      case FindInClass s Cursor sc of
        None \<Rightarrow> Inl CheckFailed
      | Some si \<Rightarrow>
          let CellI = unat ((Cursor - SlabBase (Slabs P ! si)) div CellWidth P) in
          in_range (CellI < length (OwnerClass (Slabs P ! si))) (
          xcheck b (OwnerClass (Slabs P ! si) ! CellI = OwnedBy Class) (
          Inr \<lparr>Cell = Cursor, CellSlab = si, CellIndex = CellI, bLive = False\<rparr>)))"

definition LiveEntries :: "ptr \<Rightarrow> FSizeClassPool \<Rightarrow> FCellEntry list \<Rightarrow> FCellEntry list" where
  "LiveEntries Class P FreeEntries =
     concat (map (\<lambda>si. let Slab = Slabs P ! si in
       concat (map (\<lambda>ci. let CellPtr = SlabBase Slab + word_of_nat ci * CellWidth P in
           if OwnerClass Slab ! ci \<noteq> OwnedBy Class then []
           else if list_ex (\<lambda>e. Cell e = CellPtr) FreeEntries then []
           else [\<lparr>Cell = CellPtr, CellSlab = si, CellIndex = ci, bLive = True\<rparr>])
         [0 ..< NumCells Slab])) [0 ..< length (Slabs P)])"

fun InsertByCell :: "FCellEntry \<Rightarrow> FCellEntry list \<Rightarrow> FCellEntry list" where
  "InsertByCell Key [] = [Key]"
| "InsertByCell Key (e # es) = (if Cell e > Cell Key then Key # e # es else e # InsertByCell Key es)"

definition SortCells :: "FCellEntry list \<Rightarrow> FCellEntry list" where
  "SortCells es = fold InsertByCell es []"

function CellSearch :: "FCellEntry list \<Rightarrow> ptr \<Rightarrow> int \<Rightarrow> int \<Rightarrow> bool" where
  "CellSearch Cells P Lo Hi =
     (if Lo \<le> Hi then
        let Mid = Lo + (Hi - Lo) div 2; e = Cells ! nat Mid in
        if Cell e = P then True
        else if Cell e < P then CellSearch Cells P (Mid + 1) Hi
        else CellSearch Cells P Lo (Mid - 1)
      else False)"
  by pat_completeness auto
termination
  by (relation "measure (\<lambda>(Cells, P, Lo, Hi). nat (Hi - Lo + 1))") auto

declare CellSearch.simps [simp del]

definition CellListContains :: "FCellEntry list \<Rightarrow> ptr \<Rightarrow> bool" where
  "CellListContains Cells P =
     (if P = nullptr \<or> Cells = [] then False else CellSearch Cells P 0 (int (length Cells) - 1))"

text \<open>Does an object of another class refer to one of the cells?\<close>

definition EscapeDetected :: "env \<Rightarrow> GC \<Rightarrow> ptr \<Rightarrow> FCellEntry list \<Rightarrow> bool" where
  "EscapeDetected E g Class Cells =
     list_ex (\<lambda>(i, Obj). ClassPrivate (hdr (heap g) Obj) \<noteq> Class
         \<and> list_ex (CellListContains Cells) (map (load_ptr (mem (heap g))) (ObjectSlots E (heap g) Obj)))
       (ForEachObject (arr g))"

definition ReleaseLiveSlot :: "env \<Rightarrow> FCellEntry \<Rightarrow> GC \<Rightarrow> xerror + GC" where
  "ReleaseLiveSlot E e g =
     (if \<not> bLive e then Inr g
      else let Idx = InternalIndex (hdr (heap g) (Cell e)) in
        if Idx > 0 then rbind (ReleaseSlot (bld E) False Idx (arr g)) (\<lambda>a. Inr (g\<lparr>arr := a\<rparr>)) else Inr g)"

definition zero_hdr :: XObject where
  "zero_hdr = \<lparr>ClassPrivate = 0, InternalIndex = 0, SerialNumber = 0, Outer = 0, NamePrivate = 0,
     ObjectFlags = 0, ReachabilityFlag = 0\<rparr>"

definition ZeroCell :: "u64 \<Rightarrow> ptr \<Rightarrow> XHeap \<Rightarrow> XHeap" where
  "ZeroCell W C h = \<lparr>hdr = (hdr h)(C := zero_hdr), mem = (\<lambda>x. if x - C < W then 0 else mem h x)\<rparr>"

definition ReturnCell :: "nat \<Rightarrow> nat \<Rightarrow> FCellEntry \<Rightarrow> FState \<Rightarrow> FState" where
  "ReturnCell sc i e s =
     (let live = (if bLive e then 1 else 0) in
      upd_size sc (\<lambda>P. P\<lparr>Slabs := (Slabs P)[CellSlab e := (Slabs P ! CellSlab e)
             \<lparr>SlabLive := SlabLive (Slabs P ! CellSlab e) - live,
              OwnerClass := (OwnerClass (Slabs P ! CellSlab e))[CellIndex e := Unowned],
              Unassigned := Cell e # Unassigned (Slabs P ! CellSlab e)\<rparr>],
           TotalLiveCells := TotalLiveCells P - live\<rparr>)
        (upd_pool (ClassPool i) (\<lambda>P. P\<lparr>PoolLive := PoolLive P - live, PoolOwned := PoolOwned P - 1\<rparr>) s))"

definition ReleaseClassPool ::
  "env \<Rightarrow> ptr \<Rightarrow> FState option \<Rightarrow> GC \<Rightarrow> xerror + ((FScenarioBoundaryError + unit) \<times> FState option \<times> GC)" where
  "ReleaseClassPool E Class m_state g =
     (if Class = nullptr then Inr (Inl NullClassDescriptor, m_state, g)
      else if IsMarking g then Inr (Inl CollectorActive, m_state, g)
      else let s = EnsureStateInitialised m_state in
        case FindClassPoolUnderLock s Class of
          None \<Rightarrow> Inr (Inl ClassNotRegistered, Some s, g)
        | Some i \<Rightarrow>
            let Pool = ClassPools s ! i; sc = PoolSizeClass Pool; P = SizeClasses s ! sc in
            xcheck (bld E) (sc < kFXObjectAllocatorNumNormalClasses) (
            rbind (fold_res (\<lambda>c es. rbind (FreeListEntry (bld E) Class sc s c) (\<lambda>e. Inr (es @ [e]))) (ClassFree Pool) [])
              (\<lambda>FreeEntries.
            let Cells0 = FreeEntries @ LiveEntries Class P FreeEntries in
            xcheck (bld E) (int (length Cells0) = PoolOwned Pool) (
            let Cells = SortCells Cells0 in
            if EscapeDetected E g Class Cells then Inr (Inl ReferenceFromOutsideSubpool, Some s, g)
            else
              rbind (fold_res (ReleaseLiveSlot E) Cells g) (\<lambda>g1.
              let g2 = g1\<lparr>heap := fold (\<lambda>e. ZeroCell (CellWidth P) (Cell e)) Cells (heap g1)\<rparr>;
                  s1 = fold (ReturnCell sc i) Cells s;
                  s2 = upd_pool (ClassPool i) (\<lambda>P. P\<lparr>ClassFree := []\<rparr>) s1 in
              xcheck (bld E) (PoolOwned (get_pool s2 (ClassPool i)) = 0) (
              xcheck (bld E) (PoolLive (get_pool s2 (ClassPool i)) = 0) (
              Inr (Inr (), Some s2, g2))))))))"

section \<open>Statistics and reset\<close>

record FXObjectAllocatorStats =
  TotalAllocatedBytes :: u64
  TotalSlabBytes :: u64
  TotalLiveObjects :: int
  ActiveSlabs :: nat
  IdleSlabs :: nat
  LargeObjectSlabs :: nat
  PerClassAllocations :: "(owner \<times> int) list"

definition GetStats :: "FState option \<Rightarrow> FXObjectAllocatorStats" where
  "GetStats m_state =
     (case m_state of
        None \<Rightarrow> \<lparr>TotalAllocatedBytes = 0, TotalSlabBytes = 0, TotalLiveObjects = 0, ActiveSlabs = 0,
                IdleSlabs = 0, LargeObjectSlabs = 0, PerClassAllocations = []\<rparr>
      | Some s \<Rightarrow>
          let Ps = take kFXObjectAllocatorNumNormalClasses (SizeClasses s); Ss = concat (map Slabs Ps);
              Ls = LargeSlabs s in
          \<lparr>TotalAllocatedBytes = sum_list (map (\<lambda>P. word_of_int (TotalLiveCells P) * CellWidth P) Ps)
                                 + sum_list (map LargeSize Ls),
           TotalSlabBytes = sum_list (map (\<lambda>P. word_of_nat (length (Slabs P)) * SlabBytes P) Ps)
                            + sum_list (map LargeSize Ls),
           TotalLiveObjects = sum_list (map TotalLiveCells Ps) + int (length Ls),
           ActiveSlabs = length (filter (\<lambda>S. SlabLive S > 0) Ss),
           IdleSlabs = length (filter (\<lambda>S. \<not> SlabLive S > 0) Ss),
           LargeObjectSlabs = length Ls,
           PerClassAllocations = map (\<lambda>P. (PoolClass P, PoolLive P))
              (filter (\<lambda>P. PoolLive P > 0) (ClassPools s))\<rparr>)"

definition Alloc_ResetForTests :: "FState option \<Rightarrow> FState" where
  "Alloc_ResetForTests m_state =
     (let s = EnsureStateInitialised m_state; n = kFXObjectAllocatorNumNormalClasses in
      s\<lparr>SizeClasses := map (\<lambda>P. P\<lparr>Slabs := [], TotalCells := 0, TotalLiveCells := 0\<rparr>) (take n (SizeClasses s))
                        @ drop n (SizeClasses s),
        NoClassPools := map (\<lambda>P. P\<lparr>ClassFree := [], PoolLive := 0, PoolOwned := 0\<rparr>) (NoClassPools s),
        ClassPools := [], LargeSlabs := [], ScenarioStack := []\<rparr>)"

end
