(* ===== verification/AllocatorProps.thy ===== *)
theory AllocatorProps
  imports Allocator
begin

text \<open>
  The invariant of the object allocator and what its operations do to the set of live blocks.
  The free cells of a size class (unassigned, or on the free list of one of its pools) are
  distinct cells of its slabs; the other cells are live.
\<close>

section \<open>Cells and slabs\<close>

definition cell_at :: "u64 \<Rightarrow> FSlab \<Rightarrow> nat \<Rightarrow> ptr" where
  "cell_at W S ci = SlabBase S + word_of_nat ci * W"

definition cells_of :: "u64 \<Rightarrow> FSlab \<Rightarrow> ptr list" where
  "cells_of W S = map (cell_at W S) [0 ..< NumCells S]"

definition slab_ok :: "u64 \<Rightarrow> u64 \<Rightarrow> FSlab \<Rightarrow> bool" where
  "slab_ok W B S \<longleftrightarrow> SlabBase S \<noteq> 0 \<and> unat (SlabBase S) + unat B < 2 ^ 64
     \<and> NumCells S = unat B div unat W \<and> length (OwnerClass S) = NumCells S
     \<and> set (Unassigned S) \<subseteq> set (cells_of W S)"

definition slab_range :: "u64 \<Rightarrow> FSlab \<Rightarrow> nat set" where
  "slab_range B S = {unat (SlabBase S) ..< unat (SlabBase S) + unat B}"

definition slabs_sorted :: "u64 \<Rightarrow> FSlab list \<Rightarrow> bool" where
  "slabs_sorted B = sorted_wrt (\<lambda>S T. unat (SlabBase S) + unat B \<le> unat (SlabBase T))"

lemma cell_unat:
  assumes "slab_ok W B S" "ci < NumCells S"
  shows "unat (cell_at W S ci) = unat (SlabBase S) + ci * unat W"
    and "ci * unat W + unat W \<le> unat B"
proof -
  have "ci < unat B div unat W" using assms by (simp add: slab_ok_def)
  then have "Suc ci * unat W \<le> unat B div unat W * unat W" by (intro mult_le_mono) auto
  also have "\<dots> \<le> unat B" by simp
  finally show b: "ci * unat W + unat W \<le> unat B" by simp
  have W: "0 < unat W" using \<open>ci < unat B div unat W\<close> by (cases "unat W = 0") auto
  have s: "unat (SlabBase S) + ci * unat W < 2 ^ 64" using assms(1) b W by (simp add: slab_ok_def)
  have "ci < 2 ^ 64"
    using s W by (metis add_lessD1 add.commute le_less_trans mult.commute mult_le_mono2 nat_mult_1_right Suc_leI One_nat_def)
  then have c: "unat (word_of_nat ci :: u64) = ci" by (simp add: unat_of_nat)
  have "unat (word_of_nat ci * W) = ci * unat W"
    using s by (subst unat_mult_lem [THEN iffD1]) (simp_all add: c)
  then show "unat (cell_at W S ci) = unat (SlabBase S) + ci * unat W"
    unfolding cell_at_def using s by (subst unat_add_lem [THEN iffD1]) simp_all
qed

lemma SlabEnd_unat:
  assumes "slab_ok W B S"
  shows "unat (SlabEnd W S) = unat (SlabBase S) + NumCells S * unat W" "NumCells S * unat W \<le> unat B"
proof -
  show n: "NumCells S * unat W \<le> unat B" using assms by (simp add: slab_ok_def)
  have "unat (SlabBase S) + unat B < 2 ^ 64" using assms by (simp add: slab_ok_def)
  with n have s: "unat (SlabBase S) + NumCells S * unat W < 2 ^ 64" by linarith
  show "unat (SlabEnd W S) = unat (SlabBase S) + NumCells S * unat W"
  proof (cases "NumCells S = 0")
    case False
    then have W: "0 < unat W" using assms by (cases "unat W = 0") (auto simp: slab_ok_def)
    then have "NumCells S * 1 \<le> NumCells S * unat W" by (intro mult_le_mono) auto
    then have "NumCells S < 2 ^ 64" using s by linarith
    then have c: "unat (word_of_nat (NumCells S) :: u64) = NumCells S" by (simp add: unat_of_nat)
    have "unat (word_of_nat (NumCells S) * W) = NumCells S * unat W"
      using s by (subst unat_mult_lem [THEN iffD1]) (simp_all add: c)
    then show ?thesis
      unfolding SlabEnd_def using s by (subst unat_add_lem [THEN iffD1]) simp_all
  qed (simp add: SlabEnd_def)
qed

definition inside :: "u64 \<Rightarrow> FSlab \<Rightarrow> ptr \<Rightarrow> bool" where
  "inside W S C \<longleftrightarrow> SlabBase S \<le> C \<and> C < SlabEnd W S"

lemma inside_unat:
  "slab_ok W B S \<Longrightarrow> inside W S C \<longleftrightarrow>
     unat (SlabBase S) \<le> unat C \<and> unat C < unat (SlabBase S) + NumCells S * unat W"
  by (simp add: inside_def word_le_nat_alt word_less_nat_alt SlabEnd_unat)

lemma inside_range: "slab_ok W B S \<Longrightarrow> inside W S C \<Longrightarrow> unat C \<in> slab_range B S"
  using SlabEnd_unat(2) by (fastforce simp: inside_unat slab_range_def)

lemma cell_inside: "slab_ok W B S \<Longrightarrow> C \<in> set (cells_of W S) \<Longrightarrow> inside W S C"
proof -
  assume s: "slab_ok W B S" and "C \<in> set (cells_of W S)"
  then obtain ci where ci: "ci < NumCells S" "C = cell_at W S ci" by (auto simp: cells_of_def)
  then have "ci < unat B div unat W" using s by (simp add: slab_ok_def)
  then have "0 < unat W" by (cases "unat W = 0") auto
  with ci show ?thesis by (simp add: inside_unat [OF s] cell_unat(1) [OF s])
qed

lemma cells_distinct: "slab_ok W B S \<Longrightarrow> distinct (cells_of W S)"
proof -
  assume s: "slab_ok W B S"
  have "inj_on (cell_at W S) {0 ..< NumCells S}"
  proof (rule inj_onI)
    fix i j assume ij: "i \<in> {0 ..< NumCells S}" "j \<in> {0 ..< NumCells S}" "cell_at W S i = cell_at W S j"
    then have "i < unat B div unat W" using s by (simp add: slab_ok_def)
    then have "unat W \<noteq> 0" by (cases "unat W = 0") auto
    moreover have "i * unat W = j * unat W" using ij cell_unat(1) [OF s] by (metis add_left_cancel atLeastLessThan_iff)
    ultimately show "i = j" by simp
  qed
  then show ?thesis by (simp add: cells_of_def distinct_map)
qed

text \<open>The index of a cell is recovered from its address.\<close>

lemma cell_index:
  assumes "slab_ok W B S" "ci < NumCells S"
  shows "unat ((cell_at W S ci - SlabBase S) div W) = ci" "(cell_at W S ci - SlabBase S) mod W = 0"
proof -
  have "ci < unat B div unat W" using assms by (simp add: slab_ok_def)
  then have W: "unat W \<noteq> 0" by (cases "unat W = 0") auto
  have "unat (cell_at W S ci - SlabBase S) = ci * unat W"
    using cell_unat(1) [OF assms] by (simp add: unat_sub word_le_nat_alt)
  then have d: "unat ((cell_at W S ci - SlabBase S) div W) = ci" "unat ((cell_at W S ci - SlabBase S) mod W) = 0"
    using W by (simp_all add: unat_div unat_mod)
  then show "unat ((cell_at W S ci - SlabBase S) div W) = ci" "(cell_at W S ci - SlabBase S) mod W = 0"
    by (simp_all add: unsigned_eq_0_iff)
qed

section \<open>The binary search\<close>

lemma FindSlab_sound:
  "FindSlab W Ss C Lo Hi = Some k \<Longrightarrow> 0 \<le> Lo \<Longrightarrow> Hi < int (length Ss) \<Longrightarrow> k < length Ss \<and> inside W (Ss ! k) C"
proof (induction W Ss C Lo Hi rule: FindSlab.induct)
  case (1 W Ss C Lo Hi)
  let ?M = "Lo + (Hi - Lo) div 2"
  have le: "Lo \<le> Hi" using "1.prems"(1) by (subst (asm) FindSlab.simps) (auto split: if_splits)
  have M: "Lo \<le> ?M" "?M \<le> Hi" using le by auto
  show ?case
    using "1.prems" le M "1.IH"(1) [OF le refl refl] "1.IH"(2) [OF le refl refl]
    by (subst (asm) FindSlab.simps) (auto simp: Let_def inside_def not_le not_less split: if_splits)
qed

lemma FindSlab_complete:
  assumes "slabs_sorted B Ss" "\<forall>S \<in> set Ss. slab_ok W B S" "k < length Ss" "inside W (Ss ! k) C"
  shows "Lo \<le> int k \<Longrightarrow> int k \<le> Hi \<Longrightarrow> 0 \<le> Lo \<Longrightarrow> Hi < int (length Ss) \<Longrightarrow> FindSlab W Ss C Lo Hi = Some k"
  using assms
proof (induction W Ss C Lo Hi rule: FindSlab.induct)
  case (1 W Ss C Lo Hi)
  let ?M = "Lo + (Hi - Lo) div 2"
  have le: "Lo \<le> Hi" using "1.prems"(1,2) by simp
  have M: "Lo \<le> ?M" "?M \<le> Hi" using le by auto
  then have m: "nat ?M < length Ss" "0 \<le> ?M" using "1.prems"(3,4) by auto
  have ok: "slab_ok W B (Ss ! nat ?M)" "slab_ok W B (Ss ! k)" using "1.prems"(6,7) m by auto
  have C: "unat (SlabBase (Ss ! k)) \<le> unat C" "unat C < unat (SlabBase (Ss ! k)) + unat B"
    using "1.prems"(8) SlabEnd_unat(2) [OF ok(2)] by (auto simp: inside_unat [OF ok(2)])
  consider (lt) "int k < ?M" | (gt) "?M < int k" | (eq) "nat ?M = k" by linarith
  then show ?case
  proof cases
    case lt
    then have "unat (SlabBase (Ss ! k)) + unat B \<le> unat (SlabBase (Ss ! nat ?M))"
      using "1.prems"(5) m by (auto simp: slabs_sorted_def sorted_wrt_iff_nth_less)
    then have "C < SlabBase (Ss ! nat ?M)" using C by (simp add: word_less_nat_alt)
    then show ?thesis
      using "1.IH"(1) [OF le refl refl] "1.prems" lt le by (subst FindSlab.simps) (simp add: Let_def)
  next
    case gt
    then have "unat (SlabBase (Ss ! nat ?M)) + unat B \<le> unat (SlabBase (Ss ! k))"
      using "1.prems"(5,7) m by (auto simp: slabs_sorted_def sorted_wrt_iff_nth_less)
    then have "\<not> C < SlabBase (Ss ! nat ?M)" "SlabEnd W (Ss ! nat ?M) \<le> C"
      using C SlabEnd_unat [OF ok(1)] by (simp_all add: word_less_nat_alt word_le_nat_alt)
    then show ?thesis
      using "1.IH"(2) [OF le refl refl] "1.prems" gt le by (subst FindSlab.simps) (simp add: Let_def)
  next
    case eq
    then have "\<not> C < SlabBase (Ss ! nat ?M)" "\<not> SlabEnd W (Ss ! nat ?M) \<le> C"
      using "1.prems"(8) by (auto simp: inside_def)
    then show ?thesis using le eq by (subst FindSlab.simps) (simp add: Let_def)
  qed
qed

section \<open>The invariant\<close>

abbreviation nsc :: nat where "nsc \<equiv> kFXObjectAllocatorNumNormalClasses"
abbreviation CW :: "nat \<Rightarrow> u64" where "CW sc \<equiv> kFXObjectAllocatorSizeClasses ! sc"
abbreviation SB :: "nat \<Rightarrow> u64" where "SB sc \<equiv> kFXObjectAllocatorSlabBytes ! sc"
abbreviation slabs_of :: "FState \<Rightarrow> nat \<Rightarrow> FSlab list" where "slabs_of s sc \<equiv> Slabs (SizeClasses s ! sc)"

definition large_range :: "FLargeSlab \<Rightarrow> nat set" where
  "large_range L = {unat (LargeBase L) ..< unat (LargeBase L) + unat (LargeSize L)}"

definition cells :: "nat \<Rightarrow> FState \<Rightarrow> ptr list" where
  "cells sc s = concat (map (cells_of (CW sc)) (slabs_of s sc))"

definition pool_free :: "nat \<Rightarrow> FClassPool \<Rightarrow> ptr multiset" where
  "pool_free sc P = (if PoolSizeClass P = sc then mset (ClassFree P) else {#})"

definition free_mset :: "nat \<Rightarrow> FState \<Rightarrow> ptr multiset" where
  "free_mset sc s = sum_list (map (\<lambda>S. mset (Unassigned S)) (slabs_of s sc))
     + sum_list (map (pool_free sc) (ClassPools s)) + sum_list (map (pool_free sc) (NoClassPools s))"

definition live_cells :: "nat \<Rightarrow> FState \<Rightarrow> ptr set" where
  "live_cells sc s = set (cells sc s) - set_mset (free_mset sc s)"

definition live_ptrs :: "FState \<Rightarrow> ptr set" where
  "live_ptrs s = (\<Union>sc \<in> {..< nsc}. live_cells sc s) \<union> LargeBase ` set (LargeSlabs s)"

definition large_ok :: "FState \<Rightarrow> bool" where
  "large_ok s \<longleftrightarrow> (\<forall>L \<in> set (LargeSlabs s). LargeBase L \<noteq> 0 \<and> 0 < unat (LargeSize L)
       \<and> unat (LargeBase L) + unat (LargeSize L) < 2 ^ 64)
     \<and> distinct (LargeSlabs s)
     \<and> (\<forall>L \<in> set (LargeSlabs s). \<forall>M \<in> set (LargeSlabs s). L \<noteq> M \<longrightarrow> large_range L \<inter> large_range M = {})"

definition apart :: "FState \<Rightarrow> bool" where
  "apart s \<longleftrightarrow>
     (\<forall>sc < nsc. \<forall>sc' < nsc. sc \<noteq> sc' \<longrightarrow> (\<forall>S \<in> set (slabs_of s sc). \<forall>T \<in> set (slabs_of s sc').
        slab_range (SB sc) S \<inter> slab_range (SB sc') T = {}))
     \<and> (\<forall>sc < nsc. \<forall>S \<in> set (slabs_of s sc). \<forall>L \<in> set (LargeSlabs s). slab_range (SB sc) S \<inter> large_range L = {})"

definition slabs_ok :: "FState \<Rightarrow> bool" where
  "slabs_ok s \<longleftrightarrow> length (SizeClasses s) = kFXObjectAllocatorNumSizeClasses \<and> length (NoClassPools s) = nsc
     \<and> (\<forall>sc < nsc. PoolSizeClass (NoClassPools s ! sc) = sc)
     \<and> (\<forall>sc < nsc. CellWidth (SizeClasses s ! sc) = CW sc \<and> SlabBytes (SizeClasses s ! sc) = SB sc
          \<and> slabs_sorted (SB sc) (slabs_of s sc) \<and> (\<forall>S \<in> set (slabs_of s sc). slab_ok (CW sc) (SB sc) S))"

text \<open>A cell nobody owns is unassigned; a cell of a class has the class's pool in its size class.\<close>

definition slab_tags :: "FState \<Rightarrow> nat \<Rightarrow> FSlab \<Rightarrow> bool" where
  "slab_tags s sc S \<longleftrightarrow> (\<forall>ci < NumCells S.
     (OwnerClass S ! ci = Unowned \<longrightarrow> cell_at (CW sc) S ci \<in> set (Unassigned S))
     \<and> (\<forall>c. OwnerClass S ! ci = OwnedBy c \<longrightarrow>
           (\<exists>P \<in> set (ClassPools s). PoolClass P = OwnedBy c \<and> PoolSizeClass P = sc)))"

definition alloc_inv :: "FState \<Rightarrow> bool" where
  "alloc_inv s \<longleftrightarrow> slabs_ok s \<and> apart s \<and> large_ok s
     \<and> (\<forall>sc < nsc. free_mset sc s \<subseteq># mset (cells sc s))
     \<and> (\<forall>sc < nsc. \<forall>S \<in> set (slabs_of s sc). slab_tags s sc S)
     \<and> distinct (map PoolClass (ClassPools s))"

lemma nsc_val [simp]: "kFXObjectAllocatorNumNormalClasses = 9"
  by (simp add: kFXObjectAllocatorNumNormalClasses_def)

lemma sum_list_zero: "(\<And>x. x \<in> set xs \<Longrightarrow> f x = 0) \<Longrightarrow> sum_list (map f xs) = (0 :: 'b :: comm_monoid_add)"
  by (induction xs) auto

lemma initial_inv: "alloc_inv FState_initial"
proof -
  have "pool_free sc (NoClassPools FState_initial ! k) = {#}" if "k < 9" for sc k
    using that by (simp add: FState_initial_def pool_free_def)
  then have "sum_list (map (pool_free sc) (NoClassPools FState_initial)) = {#}" for sc
    by (intro sum_list_zero) (auto simp: in_set_conv_nth FState_initial_def simp del: upt_Suc)
  then show ?thesis
    by (auto simp: alloc_inv_def slabs_ok_def apart_def large_ok_def FState_initial_def free_mset_def cells_def
      slabs_sorted_def kFXObjectAllocatorNumSizeClasses_def simp del: upt_Suc)
qed

lemma sum_list_upd:
  fixes f :: "'a \<Rightarrow> 'b::comm_monoid_add"
  shows "i < length xs \<Longrightarrow> sum_list (map f (xs[i := y])) + f (xs ! i) = sum_list (map f xs) + f y"
proof (induction xs arbitrary: i)
  case (Cons x xs)
  then show ?case by (cases i) (auto simp: ac_simps)
qed simp

text \<open>The cells of a size class are distinct, so a free cell occurs once.\<close>

lemma cells_in_slab: "C \<in> set (cells sc s) \<longleftrightarrow> (\<exists>S \<in> set (slabs_of s sc). C \<in> set (cells_of (CW sc) S))"
  by (auto simp: cells_def)

lemma sorted_slabs_disjoint:
  assumes "slabs_sorted B Ss" "i < length Ss" "j < length Ss" "i \<noteq> j"
  shows "slab_range B (Ss ! i) \<inter> slab_range B (Ss ! j) = {}"
proof -
  have "i < j \<or> j < i" using assms(4) by auto
  then show ?thesis
    using assms(1-3) by (auto simp: slabs_sorted_def sorted_wrt_iff_nth_less slab_range_def; fastforce)
qed

lemma cells_distinct_all:
  assumes "slabs_sorted B Ss" "\<forall>S \<in> set Ss. slab_ok W B S"
  shows "distinct (concat (map (cells_of W) Ss))"
  using assms
proof (induction Ss)
  case (Cons S Ss)
  have "set (cells_of W S) \<inter> set (concat (map (cells_of W) Ss)) = {}"
  proof -
    have "False" if "C \<in> set (cells_of W S)" "T \<in> set Ss" "C \<in> set (cells_of W T)" for C T
    proof -
      have "unat C \<in> slab_range B S" "unat C \<in> slab_range B T"
        using that Cons.prems(2) by (auto intro: inside_range cell_inside)
      moreover have "unat (SlabBase S) + unat B \<le> unat (SlabBase T)"
        using Cons.prems(1) that(2) by (auto simp: slabs_sorted_def)
      ultimately show False by (auto simp: slab_range_def)
    qed
    then show ?thesis by auto
  qed
  with Cons show ?case by (auto simp: slabs_sorted_def cells_distinct)
qed simp

section \<open>How updates change the parts\<close>

definition valid_ref :: "FState \<Rightarrow> pool_ref \<Rightarrow> bool" where
  "valid_ref s r = (case r of ClassPool i \<Rightarrow> i < length (ClassPools s) | NoClassPool k \<Rightarrow> k < length (NoClassPools s))"

lemma upd_size_sel [simp]:
  "ClassPools (upd_size sc f s) = ClassPools s" "NoClassPools (upd_size sc f s) = NoClassPools s"
  "LargeSlabs (upd_size sc f s) = LargeSlabs s" "ScenarioStack (upd_size sc f s) = ScenarioStack s"
  "length (SizeClasses (upd_size sc f s)) = length (SizeClasses s)"
  "sc < length (SizeClasses s) \<Longrightarrow> SizeClasses (upd_size sc f s) ! sc' = (if sc' = sc then f (SizeClasses s ! sc) else SizeClasses s ! sc')"
  by (simp_all add: upd_size_def)

lemma upd_pool_sel [simp]:
  "SizeClasses (upd_pool r f s) = SizeClasses s" "LargeSlabs (upd_pool r f s) = LargeSlabs s"
  "length (ClassPools (upd_pool r f s)) = length (ClassPools s)"
  "length (NoClassPools (upd_pool r f s)) = length (NoClassPools s)"
  by (simp_all add: upd_pool_def split: pool_ref.split)

lemma cells_upd_pool [simp]: "cells sc (upd_pool r f s) = cells sc s"
  by (simp add: cells_def)

lemma free_mset_upd_pool:
  assumes "valid_ref s r"
  shows "free_mset sc (upd_pool r f s) + pool_free sc (get_pool s r) = free_mset sc s + pool_free sc (f (get_pool s r))"
  using assms sum_list_upd [of _ "ClassPools s" "pool_free sc" "f (get_pool s r)"]
    sum_list_upd [of _ "NoClassPools s" "pool_free sc" "f (get_pool s r)"]
  by (cases r) (auto simp: free_mset_def upd_pool_def get_pool_def valid_ref_def ac_simps)

text \<open>An update of a pool's free list or counters.\<close>

lemma inv_upd_pool:
  assumes inv: "alloc_inv s" and r: "valid_ref s r"
    and f: "\<And>P. PoolClass (f P) = PoolClass P" "\<And>P. PoolSizeClass (f P) = PoolSizeClass P"
    and free: "\<forall>sc < nsc. free_mset sc (upd_pool r f s) \<subseteq># mset (cells sc s)"
  shows "alloc_inv (upd_pool r f s)"
proof -
  have cl: "map PoolClass (ClassPools (upd_pool r f s)) = map PoolClass (ClassPools s)"
    using r by (cases r) (auto simp: upd_pool_def valid_ref_def map_update f list_update_same_conv)
  have "(\<exists>P \<in> set (ClassPools s). PoolClass P = c \<and> PoolSizeClass P = k)
      \<longleftrightarrow> (\<exists>P \<in> set (ClassPools (upd_pool r f s)). PoolClass P = c \<and> PoolSizeClass P = k)" for c k
  proof -
    have "map (\<lambda>P. (PoolClass P, PoolSizeClass P)) (ClassPools (upd_pool r f s))
        = map (\<lambda>P. (PoolClass P, PoolSizeClass P)) (ClassPools s)"
      using r by (cases r) (auto simp: upd_pool_def valid_ref_def map_update f list_update_same_conv)
    then have "(c, k) \<in> set (map (\<lambda>P. (PoolClass P, PoolSizeClass P)) (ClassPools (upd_pool r f s)))
        \<longleftrightarrow> (c, k) \<in> set (map (\<lambda>P. (PoolClass P, PoolSizeClass P)) (ClassPools s))" by simp
    then show ?thesis by (auto simp: image_iff)
  qed
  moreover have "\<forall>k < nsc. PoolSizeClass (NoClassPools (upd_pool r f s) ! k) = k"
    using inv r by (cases r) (auto simp: alloc_inv_def slabs_ok_def upd_pool_def valid_ref_def nth_list_update f)
  ultimately show ?thesis
    using inv free unfolding alloc_inv_def slabs_ok_def apart_def large_ok_def slab_tags_def cl by simp
qed

text \<open>An update of a size class that keeps the bases of its slabs.\<close>

lemma inv_upd_size:
  assumes inv: "alloc_inv s" and sc: "sc < nsc"
    and f: "\<And>P. CellWidth (f P) = CellWidth P" "\<And>P. SlabBytes (f P) = SlabBytes P"
    and slabs: "slabs_sorted (SB sc) (Slabs (f (SizeClasses s ! sc)))"
      "\<forall>S \<in> set (Slabs (f (SizeClasses s ! sc))). slab_ok (CW sc) (SB sc) S \<and> slab_tags s sc S"
    and ap: "\<forall>S \<in> set (Slabs (f (SizeClasses s ! sc))).
        (\<forall>sc' < nsc. sc' \<noteq> sc \<longrightarrow> (\<forall>T \<in> set (slabs_of s sc'). slab_range (SB sc) S \<inter> slab_range (SB sc') T = {}))
        \<and> (\<forall>L \<in> set (LargeSlabs s). slab_range (SB sc) S \<inter> large_range L = {})"
    and free: "free_mset sc (upd_size sc f s) \<subseteq># mset (cells sc (upd_size sc f s))"
  shows "alloc_inv (upd_size sc f s)"
proof -
  have len: "sc < length (SizeClasses s)"
    using inv sc by (simp add: alloc_inv_def slabs_ok_def kFXObjectAllocatorNumSizeClasses_def)
  have tg: "slab_tags (upd_size sc f s) k S = slab_tags s k S" for k S by (simp add: slab_tags_def)
  have "slabs_ok (upd_size sc f s)"
    using inv f slabs len unfolding alloc_inv_def slabs_ok_def by auto
  moreover have "apart (upd_size sc f s)"
    using inv ap len unfolding alloc_inv_def apart_def by (auto simp: Int_commute)
  moreover have "large_ok (upd_size sc f s)" using inv by (simp add: alloc_inv_def large_ok_def)
  moreover have "\<forall>k < nsc. free_mset k (upd_size sc f s) \<subseteq># mset (cells k (upd_size sc f s))"
    using inv free len by (auto simp: alloc_inv_def free_mset_def cells_def)
  moreover have "\<forall>k < nsc. \<forall>S \<in> set (slabs_of (upd_size sc f s) k). slab_tags (upd_size sc f s) k S"
    using inv slabs(2) len unfolding tg by (auto simp: alloc_inv_def)
  ultimately show ?thesis using inv by (simp add: alloc_inv_def)
qed

section \<open>Free cells and live cells\<close>

lemma inv_class:
  assumes "alloc_inv s" "sc < nsc"
  shows "slabs_sorted (SB sc) (slabs_of s sc)" "\<forall>S \<in> set (slabs_of s sc). slab_ok (CW sc) (SB sc) S"
    "CellWidth (SizeClasses s ! sc) = CW sc" "SlabBytes (SizeClasses s ! sc) = SB sc"
    "free_mset sc s \<subseteq># mset (cells sc s)" "\<forall>S \<in> set (slabs_of s sc). slab_tags s sc S"
    "sc < length (SizeClasses s)" "sc < length (NoClassPools s)" "PoolSizeClass (NoClassPools s ! sc) = sc"
  using assms by (auto simp: alloc_inv_def slabs_ok_def kFXObjectAllocatorNumSizeClasses_def)

lemma inv_cells_distinct: "alloc_inv s \<Longrightarrow> sc < nsc \<Longrightarrow> distinct (cells sc s)"
  unfolding cells_def by (rule cells_distinct_all) (auto dest: inv_class)

lemma distinct_mset_once: "distinct xs \<Longrightarrow> A \<subseteq># mset xs \<Longrightarrow> x \<in># A \<Longrightarrow> count A x = 1"
proof -
  assume "distinct xs" "A \<subseteq># mset xs" "x \<in># A"
  then have "count A x \<le> count (mset xs) x" by (simp add: subseteq_mset_def)
  have "x \<in> set xs" using \<open>A \<subseteq># mset xs\<close> \<open>x \<in># A\<close> by (metis mset_subset_eqD set_mset_mset)
  have "count (mset xs) x = 1" using \<open>distinct xs\<close> \<open>x \<in> set xs\<close> by (simp add: distinct_count_atmost_1)
  then have "count A x \<le> 1" using \<open>count A x \<le> count (mset xs) x\<close> by simp
  with \<open>x \<in># A\<close> show "count A x = 1" by (simp add: le_antisym Suc_leI)
qed

lemma take_free:
  assumes "distinct xs" "add_mset C A \<subseteq># mset xs"
  shows "A \<subseteq># mset xs" "C \<in> set xs - set_mset A" "set xs - set_mset A = insert C (set xs - set_mset (add_mset C A))"
proof -
  have "count (add_mset C A) C = 1" by (rule distinct_mset_once [OF assms]) simp
  then have "C \<notin># A" by (simp add: not_in_iff)
  moreover have "C \<in> set xs" using assms(2) by (metis mset_subset_eqD set_mset_mset union_single_eq_member)
  ultimately show "C \<in> set xs - set_mset A" "set xs - set_mset A = insert C (set xs - set_mset (add_mset C A))" by auto
  show "A \<subseteq># mset xs" using assms(2) by (metis mset_subset_eq_insertD subset_mset.less_imp_le)
qed

lemma give_free:
  assumes "distinct xs" "A \<subseteq># mset xs" "C \<in> set xs - set_mset A"
  shows "add_mset C A \<subseteq># mset xs" "set xs - set_mset (add_mset C A) = (set xs - set_mset A) - {C}"
proof -
  show "add_mset C A \<subseteq># mset xs"
  proof (rule mset_subset_eqI)
    fix y
    have "count A y \<le> count (mset xs) y" using assms(2) by (simp add: subseteq_mset_def)
    moreover have "count A C = 0" "0 < count (mset xs) C" using assms(3) by (auto simp: not_in_iff count_greater_zero_iff)
    ultimately show "count (add_mset C A) y \<le> count (mset xs) y" by auto
  qed
qed auto

lemma live_in_cells: "C \<in> live_cells sc s \<Longrightarrow> C \<in> set (cells sc s)"
  by (simp add: live_cells_def)

lemma cell_range:
  assumes "alloc_inv s" "sc < nsc" "C \<in> set (cells sc s)"
  obtains S where "S \<in> set (slabs_of s sc)" "slab_ok (CW sc) (SB sc) S" "C \<in> set (cells_of (CW sc) S)" "unat C \<in> slab_range (SB sc) S"
proof -
  obtain S where S: "S \<in> set (slabs_of s sc)" "C \<in> set (cells_of (CW sc) S)" using assms(3) by (auto simp: cells_in_slab)
  with inv_class(2) [OF assms(1,2)] show ?thesis by (intro that) (auto intro: inside_range cell_inside)
qed

text \<open>Cells of different size classes differ, and no cell is the base of a large block.\<close>

lemma cells_disjoint:
  assumes "alloc_inv s" "sc < nsc" "sc' < nsc" "C \<in> set (cells sc s)" "C \<in> set (cells sc' s)"
  shows "sc = sc'"
proof (rule ccontr)
  assume ne: "sc \<noteq> sc'"
  obtain S where S: "S \<in> set (slabs_of s sc)" "unat C \<in> slab_range (SB sc) S" by (rule cell_range [OF assms(1,2,4)])
  obtain T where T: "T \<in> set (slabs_of s sc')" "unat C \<in> slab_range (SB sc') T" by (rule cell_range [OF assms(1,3,5)])
  from assms(1-3) ne S(1) T(1) have "slab_range (SB sc) S \<inter> slab_range (SB sc') T = {}"
    by (auto simp: alloc_inv_def apart_def)
  with S(2) T(2) show False by blast
qed

lemma large_base_range: "large_ok s \<Longrightarrow> L \<in> set (LargeSlabs s) \<Longrightarrow> unat (LargeBase L) \<in> large_range L"
  by (auto simp: large_ok_def large_range_def)

lemma cells_not_large:
  assumes "alloc_inv s" "sc < nsc" "C \<in> set (cells sc s)"
  shows "C \<notin> LargeBase ` set (LargeSlabs s)"
proof
  assume "C \<in> LargeBase ` set (LargeSlabs s)"
  then obtain L where L: "L \<in> set (LargeSlabs s)" "unat C \<in> large_range L"
    using assms(1) large_base_range by (auto simp: alloc_inv_def)
  obtain S where S: "S \<in> set (slabs_of s sc)" "unat C \<in> slab_range (SB sc) S" by (rule cell_range [OF assms])
  from assms(1,2) L(1) S(1) have "slab_range (SB sc) S \<inter> large_range L = {}" by (auto simp: alloc_inv_def apart_def)
  with L(2) S(2) show False by blast
qed

section \<open>Class pools\<close>

lemma FindClassPool_Some:
  "FindClassPoolUnderLock s c = Some i \<Longrightarrow> i < length (ClassPools s) \<and> PoolClass (ClassPools s ! i) = OwnedBy c"
  by (auto simp: FindClassPoolUnderLock_def find_Some_iff)

lemma FindClassPool_None:
  "FindClassPoolUnderLock s c = None \<longleftrightarrow> OwnedBy c \<notin> PoolClass ` set (ClassPools s)"
proof -
  have "OwnedBy c \<in> PoolClass ` set (ClassPools s) \<longleftrightarrow> (\<exists>i < length (ClassPools s). PoolClass (ClassPools s ! i) = OwnedBy c)"
    by (simp add: image_iff Bex_def in_set_conv_nth) metis
  then show ?thesis by (auto simp: FindClassPoolUnderLock_def find_None_iff)
qed

lemma Register_sel [simp]:
  "SizeClasses (RegisterClassPoolUnderLock c k s) = SizeClasses s"
  "LargeSlabs (RegisterClassPoolUnderLock c k s) = LargeSlabs s"
  "NoClassPools (RegisterClassPoolUnderLock c k s) = NoClassPools s"
  "free_mset sc (RegisterClassPoolUnderLock c k s) = free_mset sc s"
  "cells sc (RegisterClassPoolUnderLock c k s) = cells sc s"
  by (simp_all add: RegisterClassPoolUnderLock_def free_mset_def cells_def pool_free_def)

lemma Register_inv:
  "alloc_inv s \<Longrightarrow> FindClassPoolUnderLock s c = None \<Longrightarrow> alloc_inv (RegisterClassPoolUnderLock c k s)"
proof -
  assume a: "alloc_inv s" and n: "FindClassPoolUnderLock s c = None"
  let ?s = "RegisterClassPoolUnderLock c k s"
  have p: "ClassPools ?s = ClassPools s @
      [\<lparr>PoolClass = OwnedBy c, PoolSizeClass = k, ClassFree = [], PoolLive = 0, PoolOwned = 0\<rparr>]"
    by (simp add: RegisterClassPoolUnderLock_def)
  then have "slab_tags s sc S \<Longrightarrow> slab_tags ?s sc S" for sc S by (auto simp: slab_tags_def)
  moreover have "distinct (map PoolClass (ClassPools ?s))"
    using a n unfolding p FindClassPool_None by (auto simp: alloc_inv_def)
  ultimately show "alloc_inv ?s"
    using a unfolding alloc_inv_def slabs_ok_def apart_def large_ok_def by simp
qed

lemma live_ptrs_cong:
  assumes "\<And>sc. sc < nsc \<Longrightarrow> slabs_of s' sc = slabs_of s sc" "\<And>sc. sc < nsc \<Longrightarrow> free_mset sc s' = free_mset sc s"
    "LargeSlabs s' = LargeSlabs s"
  shows "live_ptrs s' = live_ptrs s"
  using assms by (auto simp: live_ptrs_def live_cells_def cells_def)

section \<open>Allocation\<close>

text \<open>The pool an allocation draws from: its class's, in the size class of the request.\<close>

definition class_fits :: "FState \<Rightarrow> ptr \<Rightarrow> nat \<Rightarrow> bool" where
  "class_fits s Class sc \<longleftrightarrow> (\<forall>P \<in> set (ClassPools s). PoolClass P = OwnedBy Class \<longrightarrow> PoolSizeClass P = sc)"

definition pool_for :: "FState \<Rightarrow> ptr \<Rightarrow> nat \<Rightarrow> pool_ref \<Rightarrow> bool" where
  "pool_for s Class sc r \<longleftrightarrow> valid_ref s r \<and> PoolSizeClass (get_pool s r) = sc
     \<and> (Class \<noteq> nullptr \<longrightarrow> (\<exists>P \<in> set (ClassPools s). PoolClass P = OwnedBy Class \<and> PoolSizeClass P = sc))"

lemma ClassPoolFor_spec:
  assumes inv: "alloc_inv s" and sc: "sc < nsc" and fits: "class_fits s Class sc"
  obtains r s1 where "ClassPoolFor Class sc s = Inr (r, s1)" "alloc_inv s1" "pool_for s1 Class sc r"
    "SizeClasses s1 = SizeClasses s" "LargeSlabs s1 = LargeSlabs s" "\<And>k. free_mset k s1 = free_mset k s"
proof (cases "Class = nullptr")
  case True
  with inv_class(8,9) [OF inv sc] that [of "NoClassPool sc" s] inv show ?thesis
    by (simp add: ClassPoolFor_def pool_for_def valid_ref_def get_pool_def)
next
  case False
  define s1 where "s1 = (if FindClassPoolUnderLock s Class = None then RegisterClassPoolUnderLock Class sc s else s)"
  have inv1: "alloc_inv s1" unfolding s1_def using inv Register_inv by simp
  have fits1: "class_fits s1 Class sc"
    using fits by (auto simp: s1_def class_fits_def RegisterClassPoolUnderLock_def)
  have "FindClassPoolUnderLock s1 Class \<noteq> None"
    unfolding FindClassPool_None s1_def by (auto simp: RegisterClassPoolUnderLock_def FindClassPool_None)
  then obtain i where i: "FindClassPoolUnderLock s1 Class = Some i" by auto
  note f = FindClassPool_Some [OF i]
  then have "PoolSizeClass (ClassPools s1 ! i) = sc" "ClassPools s1 ! i \<in> set (ClassPools s1)"
    using fits1 by (auto simp: class_fits_def)
  with f have pf: "pool_for s1 Class sc (ClassPool i)"
    by (auto simp: pool_for_def valid_ref_def get_pool_def)
  have "ClassPoolFor Class sc s = Inr (ClassPool i, s1)"
    using False i by (simp add: ClassPoolFor_def s1_def Let_def)
  then show ?thesis
    using inv1 pf by (rule that) (simp_all add: s1_def)
qed

text \<open>What an allocation of a cell achieves.\<close>

definition takes_cell :: "nat \<Rightarrow> ptr \<Rightarrow> FState \<Rightarrow> FState \<Rightarrow> bool" where
  "takes_cell sc C s s' \<longleftrightarrow> alloc_inv s' \<and> LargeSlabs s' = LargeSlabs s
     \<and> C \<in> live_cells sc s' - live_cells sc s \<and> live_cells sc s' = insert C (live_cells sc s)
     \<and> (\<forall>k < nsc. k \<noteq> sc \<longrightarrow> live_cells k s' = live_cells k s)"

lemma takes_cellI:
  assumes inv: "alloc_inv s'" and sc: "sc < nsc" and L: "LargeSlabs s' = LargeSlabs s"
    and free: "free_mset sc s = add_mset C (free_mset sc s')" "cells sc s' = cells sc s"
    and sub: "free_mset sc s \<subseteq># mset (cells sc s)"
    and other: "\<And>k. k < nsc \<Longrightarrow> k \<noteq> sc \<Longrightarrow> free_mset k s' = free_mset k s \<and> cells k s' = cells k s"
  shows "takes_cell sc C s s'"
proof -
  have d: "distinct (cells sc s)" using inv_cells_distinct [OF inv sc] free(2) by simp
  have sub': "add_mset C (free_mset sc s') \<subseteq># mset (cells sc s)" using sub free(1) by simp
  note t = take_free [OF d sub']
  show ?thesis
    using inv L t(2,3) free other unfolding takes_cell_def live_cells_def by auto
qed

lemma upd_size_same_slabs:
  assumes "alloc_inv s" "sc < nsc" "\<And>P. CellWidth (f P) = CellWidth P" "\<And>P. SlabBytes (f P) = SlabBytes P"
    "\<And>P. Slabs (f P) = Slabs P"
  shows "alloc_inv (upd_size sc f s)" "free_mset k (upd_size sc f s) = free_mset k s"
    "cells k (upd_size sc f s) = cells k s"
proof -
  note c = inv_class [OF assms(1,2)]
  show e: "free_mset k (upd_size sc f s) = free_mset k s" "cells k (upd_size sc f s) = cells k s" for k
    using c(7) assms(5) by (auto simp: free_mset_def cells_def)
  show "alloc_inv (upd_size sc f s)"
    by (rule inv_upd_size [OF assms(1,2,3,4)])
      (use assms(1,2) c in \<open>auto simp: assms(5) e alloc_inv_def apart_def\<close>)
qed

lemma pop_class_free:
  assumes inv: "alloc_inv s" and sc: "sc < nsc" and r: "pool_for s Class sc r"
    and free: "ClassFree (get_pool s r) = C # rest"
  shows "takes_cell sc C s (upd_size sc (\<lambda>P. P\<lparr>TotalLiveCells := TotalLiveCells P + 1\<rparr>)
     (upd_pool r (\<lambda>P. P\<lparr>ClassFree := rest, PoolLive := PoolLive P + 1\<rparr>) s))"
proof -
  let ?f = "\<lambda>P. P\<lparr>ClassFree := rest, PoolLive := PoolLive P + 1\<rparr>"
  let ?s1 = "upd_pool r ?f s"
  have v: "valid_ref s r" "PoolSizeClass (get_pool s r) = sc" using r by (simp_all add: pool_for_def)
  note u = free_mset_upd_pool [OF v(1), of _ ?f]
  have "free_mset sc ?s1 + mset (C # rest) = free_mset sc s + mset rest"
    using u [of sc] v(2) free by (simp add: pool_free_def)
  then have e: "free_mset sc s = add_mset C (free_mset sc ?s1)" by simp
  then have mem: "C \<in># free_mset sc s" by simp
  have pf: "free_mset k ?s1 = (if k = sc then free_mset k s - {#C#} else free_mset k s)" for k
    using e u [of k] v(2) by (auto simp: pool_free_def)
  have inv1: "alloc_inv ?s1"
  proof (rule inv_upd_pool [OF inv v(1)])
    show "\<forall>k < nsc. free_mset k ?s1 \<subseteq># mset (cells k s)"
      using inv unfolding pf by (auto simp: alloc_inv_def intro: subset_mset.order_trans [OF diff_subset_eq_self])
  qed simp_all
  note u = upd_size_same_slabs [OF inv1 sc, of "\<lambda>P. P\<lparr>TotalLiveCells := TotalLiveCells P + 1\<rparr>"]
  show ?thesis
    by (rule takes_cellI [OF u(1) sc]) (use mem inv_class(5) [OF inv sc] in \<open>auto simp: u pf\<close>)
qed

text \<open>A cell taken from a slab's unassigned chain.\<close>

lemma upd_pool_same_free:
  assumes "alloc_inv s" "valid_ref s r" "\<And>P. PoolClass (f P) = PoolClass P" "\<And>P. PoolSizeClass (f P) = PoolSizeClass P"
    "\<And>P. ClassFree (f P) = ClassFree P"
  shows "alloc_inv (upd_pool r f s)" "free_mset k (upd_pool r f s) = free_mset k s"
proof -
  have e: "free_mset k (upd_pool r f s) = free_mset k s" for k
    using free_mset_upd_pool [OF assms(2), of k f] by (auto simp: pool_free_def assms(4,5) split: if_splits)
  then show "free_mset k (upd_pool r f s) = free_mset k s" .
  show "alloc_inv (upd_pool r f s)"
    by (rule inv_upd_pool [OF assms(1-4)]) (use assms(1) in \<open>auto simp: e alloc_inv_def\<close>)
qed

lemma slabs_sorted_update:
  assumes "slabs_sorted B Ss" "si < length Ss" "SlabBase D = SlabBase (Ss ! si)"
  shows "slabs_sorted B (Ss[si := D])"
  using assms by (auto simp: slabs_sorted_def sorted_wrt_iff_nth_less nth_list_update)

lemma slab_ap:
  assumes "alloc_inv s" "sc < nsc" "S \<in> set (slabs_of s sc)"
  shows "(\<forall>sc' < nsc. sc' \<noteq> sc \<longrightarrow> (\<forall>T \<in> set (slabs_of s sc'). slab_range (SB sc) S \<inter> slab_range (SB sc') T = {}))
     \<and> (\<forall>L \<in> set (LargeSlabs s). slab_range (SB sc) S \<inter> large_range L = {})"
  using assms by (auto simp: alloc_inv_def apart_def)

lemma TakeUnassigned_spec:
  assumes inv: "alloc_inv s" and sc: "sc < nsc" and r: "pool_for s Class sc r"
    and donor: "FindDonor (slabs_of s sc) = Some si"
  obtains C s' where "TakeUnassigned b Class sc si r s = Inr (C, s')" "takes_cell sc C s s'"
proof -
  note c = inv_class [OF inv sc]
  define D where "D = slabs_of s sc ! si"
  have si: "si < length (slabs_of s sc)" and "Unassigned D \<noteq> []"
    using donor by (auto simp: FindDonor_def find_Some_iff D_def)
  then obtain C rest where U: "Unassigned D = C # rest" by (cases "Unassigned D") auto
  have D: "D \<in> set (slabs_of s sc)" using si by (simp add: D_def)
  with c have ok: "slab_ok (CW sc) (SB sc) D" and tg: "slab_tags s sc D" by auto
  have "C \<in> set (cells_of (CW sc) D)" using ok U by (auto simp: slab_ok_def)
  then obtain ci where ci: "ci < NumCells D" "C = cell_at (CW sc) D ci" by (auto simp: cells_of_def)
  have idx: "unat ((C - SlabBase D) div CW sc) = ci" using cell_index(1) [OF ok ci(1)] ci(2) by simp
  have len: "length (OwnerClass D) = NumCells D" using ok by (simp add: slab_ok_def)
  define Tag where "Tag = (if Class = nullptr then NoClassSentinel else OwnedBy Class)"
  define D' where "D' = D\<lparr>Unassigned := rest, OwnerClass := (OwnerClass D)[ci := Tag], SlabLive := SlabLive D + 1\<rparr>"
  define f where "f = (\<lambda>P :: FSizeClassPool. P\<lparr>Slabs := (Slabs P)[si := D'], TotalLiveCells := TotalLiveCells P + 1\<rparr>)"
  define s1 where "s1 = upd_size sc f s"
  define s2 where "s2 = upd_pool r (\<lambda>P. P\<lparr>PoolLive := PoolLive P + 1, PoolOwned := PoolOwned P + 1\<rparr>) s1"
  have run: "TakeUnassigned b Class sc si r s = Inr (C, s2)"
    using U idx ci(1) len
    by (simp add: TakeUnassigned_def D_def [symmetric] c(3) Let_def s2_def s1_def f_def D'_def Tag_def xcheck_def in_range_def)
  have cells': "cells_of (CW sc) D' = cells_of (CW sc) D" "SlabBase D' = SlabBase D" "NumCells D' = NumCells D"
    by (simp_all add: cells_of_def cell_at_def [abs_def] D'_def)
  have slabs1: "slabs_of s1 k = (if k = sc then (slabs_of s sc)[si := D'] else slabs_of s k)" for k
    using c(7) by (simp add: s1_def f_def)
  have cells1: "cells k s1 = cells k s" for k
  proof -
    have "map (cells_of (CW sc)) ((slabs_of s sc)[si := D']) = map (cells_of (CW sc)) (slabs_of s sc)"
      using si cells'(1) by (simp add: map_update D_def list_update_same_conv)
    then show ?thesis by (simp add: cells_def slabs1)
  qed
  have mem: "free_mset sc s = add_mset C (free_mset sc s1)"
    using sum_list_upd [OF si, of "\<lambda>S. mset (Unassigned S)" D'] U
    unfolding free_mset_def slabs1 D_def [symmetric] by (simp add: D'_def) (simp add: s1_def)
  have free1: "k \<noteq> sc \<Longrightarrow> free_mset k s1 = free_mset k s" for k
    by (simp add: free_mset_def slabs1) (simp add: s1_def)
  have inj: "cell_at (CW sc) D j = C \<Longrightarrow> j < NumCells D \<Longrightarrow> j = ci" for j
    using cell_index(1) [OF ok] idx by metis
  have pool: "\<exists>P \<in> set (ClassPools s). PoolClass P = OwnedBy c \<and> PoolSizeClass P = sc" if "Tag = OwnedBy c" for c
    using that r by (auto simp: Tag_def pool_for_def split: if_splits)
  have tg': "slab_tags s sc D'"
    unfolding slab_tags_def
  proof (intro allI impI)
    fix j assume j: "j < NumCells D'"
    show "(OwnerClass D' ! j = Unowned \<longrightarrow> cell_at (CW sc) D' j \<in> set (Unassigned D'))
       \<and> (\<forall>c. OwnerClass D' ! j = OwnedBy c \<longrightarrow> (\<exists>P \<in> set (ClassPools s). PoolClass P = OwnedBy c \<and> PoolSizeClass P = sc))"
    proof (cases "j = ci")
      case True
      then have "OwnerClass D' ! j = Tag" using ci(1) len by (simp add: D'_def)
      moreover have "Tag \<noteq> Unowned" by (simp add: Tag_def)
      ultimately show ?thesis using pool by auto
    next
      case False
      then have "OwnerClass D' ! j = OwnerClass D ! j" "cell_at (CW sc) D' j = cell_at (CW sc) D j"
        by (simp_all add: D'_def cell_at_def)
      moreover have "cell_at (CW sc) D j \<noteq> C" using inj False j cells'(3) by auto
      ultimately show ?thesis using tg j cells'(3) U by (auto simp: slab_tags_def D'_def)
    qed
  qed
  have ok': "slab_ok (CW sc) (SB sc) D'"
    using ok U unfolding slab_ok_def cells' by (auto simp: D'_def)
  have set1: "set ((slabs_of s sc)[si := D']) \<subseteq> insert D' (set (slabs_of s sc))" by (rule set_update_subset_insert)
  have rng: "slab_range (SB sc) D' = slab_range (SB sc) D" by (simp add: slab_range_def cells'(2))
  have inv1: "alloc_inv s1"
    unfolding s1_def
  proof (rule inv_upd_size [OF inv sc])
    have fs: "Slabs (f (SizeClasses s ! sc)) = (slabs_of s sc)[si := D']" by (simp add: f_def)
    show "slabs_sorted (SB sc) (Slabs (f (SizeClasses s ! sc)))"
      unfolding fs by (rule slabs_sorted_update [OF c(1) si]) (simp add: cells'(2) D_def)
    show "\<forall>S \<in> set (Slabs (f (SizeClasses s ! sc))). slab_ok (CW sc) (SB sc) S \<and> slab_tags s sc S"
      unfolding fs using set1 c(2,6) ok' tg' by blast
    show "\<forall>S \<in> set (Slabs (f (SizeClasses s ! sc))).
        (\<forall>sc' < nsc. sc' \<noteq> sc \<longrightarrow> (\<forall>T \<in> set (slabs_of s sc'). slab_range (SB sc) S \<inter> slab_range (SB sc') T = {}))
        \<and> (\<forall>L \<in> set (LargeSlabs s). slab_range (SB sc) S \<inter> large_range L = {})"
    proof
      fix S assume "S \<in> set (Slabs (f (SizeClasses s ! sc)))"
      then have "S \<in> insert D' (set (slabs_of s sc))" unfolding fs using set1 by blast
      then obtain T where T: "T \<in> set (slabs_of s sc)" "slab_range (SB sc) S = slab_range (SB sc) T"
        using D rng by blast
      show "(\<forall>sc' < nsc. sc' \<noteq> sc \<longrightarrow> (\<forall>T \<in> set (slabs_of s sc'). slab_range (SB sc) S \<inter> slab_range (SB sc') T = {}))
        \<and> (\<forall>L \<in> set (LargeSlabs s). slab_range (SB sc) S \<inter> large_range L = {})"
        unfolding T(2) by (rule slab_ap [OF inv sc T(1)])
    qed
    have "free_mset sc s1 \<subseteq># free_mset sc s" using mem by simp
    then show "free_mset sc (upd_size sc f s) \<subseteq># mset (cells sc (upd_size sc f s))"
      using c(5) cells1 [of sc] unfolding s1_def by (metis subset_mset.order_trans)
  qed (simp_all add: f_def)
  have v1: "valid_ref s1 r" using r by (auto simp: pool_for_def valid_ref_def s1_def split: pool_ref.splits)
  note u = upd_pool_same_free [OF inv1 v1, of "\<lambda>P. P\<lparr>PoolLive := PoolLive P + 1, PoolOwned := PoolOwned P + 1\<rparr>"]
  have f2: "free_mset k s2 = free_mset k s1" "cells k s2 = cells k s" for k
    unfolding s2_def using u(2) cells1 by simp_all
  have "takes_cell sc C s s2"
  proof (rule takes_cellI [OF _ sc])
    show "alloc_inv s2" unfolding s2_def by (rule u(1)) simp_all
    show "LargeSlabs s2 = LargeSlabs s" by (simp add: s2_def s1_def)
    show "free_mset sc s = add_mset C (free_mset sc s2)" unfolding f2 by (rule mem)
    show "free_mset sc s \<subseteq># mset (cells sc s)" by (rule c(5))
    show "cells sc s2 = cells sc s" by (rule f2)
    fix k assume "k < nsc" "k \<noteq> sc"
    then show "free_mset k s2 = free_mset k s \<and> cells k s2 = cells k s" by (simp add: f2 free1)
  qed
  with run show ?thesis by (rule that)
qed

end
