(* ===== verification/AllocatorOps.thy ===== *)
theory AllocatorOps
  imports AllocatorProps
begin

text \<open>
  The operations of the object allocator on the set of live blocks: \<open>AllocateRaw\<close> adds a block
  that was not live, \<open>Deallocate\<close> removes the block it is given and refuses every other pointer,
  and \<open>IsHeapAddress\<close> is true exactly inside the cells and the large blocks.
\<close>

section \<open>Growing a size class\<close>

text \<open>A block of the system allocator: not null, not wrapping, apart from everything it gave out before.\<close>

definition fresh :: "FState \<Rightarrow> ptr \<Rightarrow> nat \<Rightarrow> bool" where
  "fresh s a n \<longleftrightarrow> a \<noteq> 0 \<and> unat a + n < 2 ^ 64
     \<and> (\<forall>sc < nsc. \<forall>S \<in> set (slabs_of s sc). slab_range (SB sc) S \<inter> {unat a ..< unat a + n} = {})
     \<and> (\<forall>L \<in> set (LargeSlabs s). large_range L \<inter> {unat a ..< unat a + n} = {})"

lemma set_InsertSlab [simp]: "set (InsertSlab N Ss) = insert N (set Ss)"
proof -
  have "set (takeWhile P Ss) \<union> set (dropWhile P Ss) = set Ss" for P
    by (metis set_append takeWhile_dropWhile_id)
  then show ?thesis by (simp add: InsertSlab_def)
qed

lemma mset_InsertSlab: "mset (InsertSlab N Ss) = add_mset N (mset Ss)"
proof -
  have "mset (takeWhile P Ss) + mset (dropWhile P Ss) = mset Ss" for P
    by (metis mset_append takeWhile_dropWhile_id)
  then show ?thesis by (simp add: InsertSlab_def)
qed

lemma sum_list_InsertSlab:
  fixes f :: "FSlab \<Rightarrow> 'b::comm_monoid_add"
  shows "sum_list (map f (InsertSlab N Ss)) = f N + sum_list (map f Ss)"
proof -
  have "sum_mset (image_mset f (mset (InsertSlab N Ss))) = f N + sum_mset (image_mset f (mset Ss))"
    by (simp add: mset_InsertSlab)
  then show ?thesis by (metis mset_map sum_mset_sum_list)
qed

lemma InsertSlab_sorted:
  assumes "slabs_sorted B Ss" "\<forall>S \<in> set Ss. slab_range B S \<inter> slab_range B N = {}" "0 < unat B"
  shows "slabs_sorted B (InsertSlab N Ss)"
  using assms(1,2)
proof (induction Ss)
  case (Cons S Ss)
  have sep: "unat (SlabBase T) + unat B \<le> unat (SlabBase N) \<or> unat (SlabBase N) + unat B \<le> unat (SlabBase T)"
    if "T \<in> set (S # Ss)" for T
  proof -
    from Cons.prems(2) that have d: "slab_range B T \<inter> slab_range B N = {}" by blast
    have "unat (SlabBase T) \<in> slab_range B T" "unat (SlabBase N) \<in> slab_range B N"
      using assms(3) by (simp_all add: slab_range_def)
    with d have "unat (SlabBase T) \<notin> slab_range B N" "unat (SlabBase N) \<notin> slab_range B T" by blast+
    then show ?thesis by (auto simp: slab_range_def)
  qed
  show ?case
  proof (cases "SlabBase N < SlabBase S")
    case True
    then have 1: "unat (SlabBase N) + unat B \<le> unat (SlabBase S)"
      using sep [of S] by (auto simp: word_less_nat_alt)
    have "unat (SlabBase N) + unat B \<le> unat (SlabBase T)" if "T \<in> set Ss" for T
      using Cons.prems(1) that 1 by (fastforce simp: slabs_sorted_def)
    with 1 True Cons.prems(1) show ?thesis by (auto simp: InsertSlab_def slabs_sorted_def)
  next
    case False
    then have "unat (SlabBase S) + unat B \<le> unat (SlabBase N)"
      using sep [of S] assms(3) by (auto simp: word_less_nat_alt)
    moreover have "InsertSlab N (S # Ss) = S # InsertSlab N Ss" using False by (simp add: InsertSlab_def)
    ultimately show ?thesis using Cons by (auto simp: slabs_sorted_def)
  qed
qed (simp add: InsertSlab_def slabs_sorted_def)

lemma sizes:
  assumes "sc < nsc"
  shows "0 < unat (CW sc)" "unat (CW sc) \<le> unat (SB sc)" "0 < unat (SB sc)"
proof -
  have "sc = 0 \<or> sc = 1 \<or> sc = 2 \<or> sc = 3 \<or> sc = 4 \<or> sc = 5 \<or> sc = 6 \<or> sc = 7 \<or> sc = 8"
    using assms by auto
  then have "0 < unat (CW sc) \<and> unat (CW sc) \<le> unat (SB sc)"
    by (elim disjE) (simp_all add: kFXObjectAllocatorSizeClasses_def kFXObjectAllocatorSlabBytes_def)
  then show "0 < unat (CW sc)" "unat (CW sc) \<le> unat (SB sc)" "0 < unat (SB sc)" by linarith+
qed

lemma NewSlab_props:
  assumes "CellWidth P = CW sc" "SlabBytes P = SB sc" "sc < nsc" "a \<noteq> 0" "unat a + unat (SB sc) < 2 ^ 64"
  shows "slab_ok (CW sc) (SB sc) (NewSlab a sc P)" "SlabBase (NewSlab a sc P) = a"
    "Unassigned (NewSlab a sc P) = cells_of (CW sc) (NewSlab a sc P)" "slab_tags s sc (NewSlab a sc P)"
    "Unassigned (NewSlab a sc P) \<noteq> []"
proof -
  let ?N = "NewSlab a sc P"
  have n: "NumCells ?N = unat (SB sc) div unat (CW sc)" using assms by (simp add: NewSlab_def Let_def unat_div)
  show b: "SlabBase ?N = a" by (simp add: NewSlab_def Let_def)
  show u: "Unassigned ?N = cells_of (CW sc) ?N"
    using assms(1) by (simp add: NewSlab_def Let_def cells_of_def cell_at_def)
  show "slab_ok (CW sc) (SB sc) ?N"
    using assms n b u by (simp add: slab_ok_def) (simp add: NewSlab_def Let_def)
  show "slab_tags s sc ?N"
    unfolding slab_tags_def u cells_of_def by (auto simp: NewSlab_def Let_def)
  have "0 < NumCells ?N" unfolding n using sizes [OF assms(3)] by (simp add: div_greater_zero_iff)
  then show "Unassigned ?N \<noteq> []" unfolding u cells_of_def by simp
qed

lemma FindDonor_None: "FindDonor Ss = None \<longleftrightarrow> (\<forall>S \<in> set Ss. Unassigned S = [])"
  by (auto simp: FindDonor_def find_None_iff all_set_conv_all_nth)

lemma Grow_spec:
  assumes inv: "alloc_inv s" and sc: "sc < nsc" and fr: "fresh s a (unat (SB sc))"
  defines "s' \<equiv> GrowSizeClass a sc s"
  shows "alloc_inv s'" "FindDonor (slabs_of s' sc) \<noteq> None" "LargeSlabs s' = LargeSlabs s"
    "\<And>k. k < nsc \<Longrightarrow> live_cells k s' = live_cells k s" "ClassPools s' = ClassPools s" "NoClassPools s' = NoClassPools s"
proof -
  note c = inv_class [OF inv sc]
  define N where "N = NewSlab a sc (SizeClasses s ! sc)"
  define f where "f = (\<lambda>P. let New = NewSlab a sc P in
       P\<lparr>Slabs := InsertSlab New (Slabs P), TotalCells := TotalCells P + int (NumCells New)\<rparr>)"
  have s': "s' = upd_size sc f s" by (simp add: s'_def GrowSizeClass_def f_def)
  have fS: "Slabs (f (SizeClasses s ! sc)) = InsertSlab N (slabs_of s sc)" by (simp add: f_def N_def Let_def)
  have bnd: "a \<noteq> 0" "unat a + unat (SB sc) < 2 ^ 64" using fr by (auto simp: fresh_def)
  note N = NewSlab_props [OF c(3,4) sc bnd, folded N_def]
  have rng: "slab_range (SB sc) N = {unat a ..< unat a + unat (SB sc)}" by (simp add: slab_range_def N(2))
  have sl: "slabs_of s' k = (if k = sc then InsertSlab N (slabs_of s sc) else slabs_of s k)" for k
    using c(7) fS by (simp add: s')
  have free: "free_mset k s' = (if k = sc then mset (cells_of (CW sc) N) + free_mset sc s else free_mset k s)" for k
    by (simp add: free_mset_def sl sum_list_InsertSlab N(3)) (simp add: s')
  have cells: "mset (cells k s') = (if k = sc then mset (cells_of (CW sc) N) + mset (cells sc s) else mset (cells k s))" for k
    by (simp add: cells_def sl mset_concat comp_def sum_list_InsertSlab)
  show inv': "alloc_inv s'"
    unfolding s'
  proof (rule inv_upd_size [OF inv sc])
    show "slabs_sorted (SB sc) (Slabs (f (SizeClasses s ! sc)))"
      unfolding fS
    proof (rule InsertSlab_sorted [OF c(1)])
      show "\<forall>S \<in> set (slabs_of s sc). slab_range (SB sc) S \<inter> slab_range (SB sc) N = {}"
        using fr sc unfolding rng by (auto simp: fresh_def)
    qed (rule sizes(3) [OF sc])
    show "\<forall>S \<in> set (Slabs (f (SizeClasses s ! sc))). slab_ok (CW sc) (SB sc) S \<and> slab_tags s sc S"
      unfolding fS using c(2,6) N(1,4) by simp
    show "\<forall>S \<in> set (Slabs (f (SizeClasses s ! sc))).
        (\<forall>sc' < nsc. sc' \<noteq> sc \<longrightarrow> (\<forall>T \<in> set (slabs_of s sc'). slab_range (SB sc) S \<inter> slab_range (SB sc') T = {}))
        \<and> (\<forall>L \<in> set (LargeSlabs s). slab_range (SB sc) S \<inter> large_range L = {})"
    proof
      fix S assume "S \<in> set (Slabs (f (SizeClasses s ! sc)))"
      then consider "S = N" | "S \<in> set (slabs_of s sc)" unfolding fS by auto
      then show "(\<forall>sc' < nsc. sc' \<noteq> sc \<longrightarrow> (\<forall>T \<in> set (slabs_of s sc'). slab_range (SB sc) S \<inter> slab_range (SB sc') T = {}))
        \<and> (\<forall>L \<in> set (LargeSlabs s). slab_range (SB sc) S \<inter> large_range L = {})"
      proof cases
        case 1
        then show ?thesis unfolding 1 rng using fr by (simp add: fresh_def Int_commute)
      next
        case 2
        then show ?thesis by (rule slab_ap [OF inv sc])
      qed
    qed
    show "free_mset sc (upd_size sc f s) \<subseteq># mset (cells sc (upd_size sc f s))"
      using c(5) unfolding s' [symmetric] free cells by simp
  qed (simp_all add: f_def Let_def)
  show "FindDonor (slabs_of s' sc) \<noteq> None" unfolding FindDonor_None sl using N(5) by auto
  show "LargeSlabs s' = LargeSlabs s" "ClassPools s' = ClassPools s" "NoClassPools s' = NoClassPools s"
    by (simp_all add: s')
  fix k assume k: "k < nsc"
  show "live_cells k s' = live_cells k s"
  proof (cases "k = sc")
    case True
    have "distinct (cells sc s')" by (rule inv_cells_distinct [OF inv' sc])
    then have d: "set (cells_of (CW sc) N) \<inter> set (cells sc s) = {}"
    proof -
      have "distinct (cells_of (CW sc) N @ cells sc s)"
        using \<open>distinct (cells sc s')\<close> by (rule mset_eq_imp_distinct_iff [THEN iffD1, rotated]) (simp add: cells)
      then show ?thesis by simp
    qed
    have "mset (cells sc s') = mset (cells_of (CW sc) N @ cells sc s)" using cells [of sc] by simp
    then have "set (cells sc s') = set (cells_of (CW sc) N @ cells sc s)" by (rule mset_eq_setD)
    then have u: "set (cells sc s') = set (cells_of (CW sc) N) \<union> set (cells sc s)" by simp
    have "A \<inter> B = {} \<Longrightarrow> (A \<union> B) - (A \<union> F) = B - F" for A B F :: "ptr set" by blast
    then show ?thesis unfolding True live_cells_def free u
      by (simp add: d)
  next
    case False
    with cells [of k] have "set (cells k s') = set (cells k s)" by (intro mset_eq_setD) simp
    with False show ?thesis by (simp add: live_cells_def free)
  qed
qed

section \<open>The size class of a request\<close>

lemma find_index:
  "(case find (\<lambda>i. P (xs ! i)) [0 ..< length xs] of Some i \<Rightarrow> i | None \<Rightarrow> length xs)
     = length (takeWhile (\<lambda>x. \<not> P x) xs)"
proof (cases "find (\<lambda>i. P (xs ! i)) [0 ..< length xs]")
  case None
  then have "takeWhile (\<lambda>x. \<not> P x) xs = xs" by (auto simp: find_None_iff takeWhile_eq_all_conv in_set_conv_nth)
  then have "length (takeWhile (\<lambda>x. \<not> P x) xs) = length xs" by (rule arg_cong)
  with None show ?thesis by simp
next
  case (Some i)
  then have i: "i < length xs" "P (xs ! i)" "\<forall>j < i. \<not> P (xs ! j)" by (auto simp: find_Some_iff)
  then have "takeWhile (\<lambda>x. \<not> P x) xs = take i xs" by (intro takeWhile_eq_take_P_nth) auto
  with Some i(1) show ?thesis by simp
qed

text \<open>The fit rule \<open>Size * 4 \<le> Class * 5\<close> never rejects a class that is large enough.\<close>

lemma fit_rule:
  assumes "\<not> Class < Size" "Class \<le> 1024"
  shows "Size * 4 \<le> Class * (5 :: u64)"
proof -
  have u: "unat Size \<le> unat Class" "unat Class \<le> 1024"
    using assms by (simp_all add: word_le_nat_alt word_less_nat_alt not_less)
  have "unat (Size * 4) = unat Size * 4" "unat (Class * 5) = unat Class * 5"
    using u by (subst unat_mult_lem [THEN iffD1]; simp)+
  with u show ?thesis by (simp add: word_le_nat_alt)
qed

lemma SizeToSizeClass_first_fit:
  assumes "Size \<noteq> 0"
  shows "SizeToSizeClass Size = length (takeWhile (\<lambda>W. W < Size) (take nsc kFXObjectAllocatorSizeClasses))"
proof -
  let ?ws = "take nsc kFXObjectAllocatorSizeClasses"
  have len: "length ?ws = nsc" by (simp add: kFXObjectAllocatorSizeClasses_def)
  have le: "\<forall>W \<in> set ?ws. W \<le> 1024" by (simp add: kFXObjectAllocatorSizeClasses_def)
  have "find (\<lambda>sc. let Class = kFXObjectAllocatorSizeClasses ! sc in \<not> Class < Size \<and> Size * 4 \<le> Class * 5) [0 ..< nsc]
      = find (\<lambda>i. \<not> ?ws ! i < Size) [0 ..< length ?ws]"
  proof (rule find_cong)
    fix i assume "i \<in> set [0 ..< length ?ws]"
    then have i: "i < nsc" by (simp add: len)
    then have "kFXObjectAllocatorSizeClasses ! i = ?ws ! i" by simp
    moreover have "?ws ! i \<le> 1024" using le i len by (metis nth_mem)
    ultimately show "(let Class = kFXObjectAllocatorSizeClasses ! i in \<not> Class < Size \<and> Size * 4 \<le> Class * 5)
        = (\<not> ?ws ! i < Size)"
      using fit_rule by (auto simp: Let_def)
  qed (simp only: len)
  moreover have "(case find (\<lambda>i. \<not> ?ws ! i < Size) [0 ..< length ?ws] of None \<Rightarrow> length ?ws | Some i \<Rightarrow> i)
      = length (takeWhile (\<lambda>W. W < Size) ?ws)"
    using find_index [where P = "\<lambda>W. \<not> W < Size" and xs = ?ws] by simp
  ultimately show ?thesis
    unfolding SizeToSizeClass_def len using assms by simp
qed

lemma SizeToSizeClass_bound:
  assumes "Size \<noteq> 0" "SizeToSizeClass Size = sc"
  shows "sc < nsc \<Longrightarrow> Size \<le> CW sc" "k < sc \<Longrightarrow> CW k < Size" "sc \<le> nsc"
proof -
  let ?ws = "take nsc kFXObjectAllocatorSizeClasses"
  have len: "length ?ws = nsc" by (simp add: kFXObjectAllocatorSizeClasses_def)
  have sc: "sc = length (takeWhile (\<lambda>W. W < Size) ?ws)" using SizeToSizeClass_first_fit [OF assms(1)] assms(2) by simp
  show le: "sc \<le> nsc" using sc length_takeWhile_le len by metis
  show "Size \<le> CW sc" if "sc < nsc"
  proof -
    have "sc < length ?ws" using that len by simp
    then have "\<not> ?ws ! sc < Size" unfolding sc by (rule nth_length_takeWhile)
    with that show ?thesis by (simp add: not_less)
  qed
  show "CW k < Size" if "k < sc"
  proof -
    have "takeWhile (\<lambda>W. W < Size) ?ws ! k < Size"
      using that sc by (metis nth_mem set_takeWhileD)
    moreover have "takeWhile (\<lambda>W. W < Size) ?ws ! k = ?ws ! k" using that sc by (intro takeWhile_nth) simp
    ultimately show ?thesis using that le by simp
  qed
qed

section \<open>Live blocks\<close>

text \<open>The abstract state of the allocator: the live blocks with their sizes.\<close>

definition blocks :: "FState \<Rightarrow> (ptr \<times> nat) set" where
  "blocks s = (\<Union>sc \<in> {..< nsc}. (\<lambda>C. (C, unat (CW sc))) ` live_cells sc s)
     \<union> (\<lambda>L. (LargeBase L, unat (LargeSize L))) ` set (LargeSlabs s)"

lemma blocks_ptrs: "fst ` blocks s = live_ptrs s"
  by (auto simp: blocks_def live_ptrs_def image_Un image_UN image_image)

definition extent :: "ptr \<times> nat \<Rightarrow> nat set" where
  "extent B = {unat (fst B) ..< unat (fst B) + snd B}"

lemma cell_extent:
  assumes "slab_ok (CW sc) (SB sc) S" "ci < NumCells S"
  shows "extent (cell_at (CW sc) S ci, unat (CW sc)) \<subseteq> slab_range (SB sc) S"
  using cell_unat [OF assms] by (auto simp: extent_def slab_range_def)

lemma cells_apart:
  assumes ok: "slab_ok (CW sc) (SB sc) S" "ci < NumCells S" "cj < NumCells S" "ci \<noteq> cj"
  shows "extent (cell_at (CW sc) S ci, unat (CW sc)) \<inter> extent (cell_at (CW sc) S cj, unat (CW sc)) = {}"
proof -
  have "Suc ci \<le> cj \<or> Suc cj \<le> ci" using ok(4) by auto
  then have "Suc ci * unat (CW sc) \<le> cj * unat (CW sc) \<or> Suc cj * unat (CW sc) \<le> ci * unat (CW sc)"
    using mult_le_mono1 by blast
  then show ?thesis
    using cell_unat(1) [OF ok(1,2)] cell_unat(1) [OF ok(1,3)] by (auto simp: extent_def)
qed

lemma blocks_cases:
  assumes inv: "alloc_inv s" and B: "B \<in> blocks s"
  obtains (cell) sc S ci where "sc < nsc" "S \<in> set (slabs_of s sc)" "ci < NumCells S" "slab_ok (CW sc) (SB sc) S"
      "B = (cell_at (CW sc) S ci, unat (CW sc))" "extent B \<subseteq> slab_range (SB sc) S"
    | (large) L where "L \<in> set (LargeSlabs s)" "B = (LargeBase L, unat (LargeSize L))" "extent B = large_range L"
proof -
  from B consider (c) sc C where "sc < nsc" "C \<in> live_cells sc s" "B = (C, unat (CW sc))"
    | (l) L where "L \<in> set (LargeSlabs s)" "B = (LargeBase L, unat (LargeSize L))"
    by (auto simp: blocks_def)
  then show ?thesis
  proof cases
    case c
    obtain S where S: "S \<in> set (slabs_of s sc)" "slab_ok (CW sc) (SB sc) S" "C \<in> set (cells_of (CW sc) S)"
      by (rule cell_range [OF inv c(1) live_in_cells [OF c(2)]])
    then obtain ci where ci: "ci < NumCells S" "C = cell_at (CW sc) S ci" by (auto simp: cells_of_def)
    show ?thesis
      by (rule cell [OF c(1) S(1) ci(1) S(2)]) (use c(3) ci(2) cell_extent [OF S(2) ci(1)] in simp_all)
  next
    case l
    then show ?thesis by (intro large) (auto simp: extent_def large_range_def)
  qed
qed

lemma blocks_disjoint:
  assumes inv: "alloc_inv s" and B: "B \<in> blocks s" and D: "D \<in> blocks s" and ne: "fst B \<noteq> fst D"
  shows "extent B \<inter> extent D = {}"
proof -
  have ap: "apart s" "large_ok s" using inv by (auto simp: alloc_inv_def)
  have slab_large: "slab_range (SB sc) S \<inter> large_range L = {}"
    if "sc < nsc" "S \<in> set (slabs_of s sc)" "L \<in> set (LargeSlabs s)" for sc S L
    using ap that by (auto simp: apart_def)
  have large_large: "large_range L \<inter> large_range M = {}"
    if "L \<in> set (LargeSlabs s)" "M \<in> set (LargeSlabs s)" "L \<noteq> M" for L M
    using ap(2) that by (simp add: large_ok_def)
  show ?thesis
    using inv B
  proof (cases rule: blocks_cases)
    case b: (cell sc S ci)
    show ?thesis
      using inv D
    proof (cases rule: blocks_cases)
      case d: (cell sk T cj)
      show ?thesis
      proof (cases "sc = sk")
        case False
        then have "slab_range (SB sc) S \<inter> slab_range (SB sk) T = {}" using ap(1) b d by (auto simp: apart_def)
        with b(6) d(6) show ?thesis by blast
      next
        case True
        obtain i j where ij: "i < length (slabs_of s sc)" "S = slabs_of s sc ! i" "j < length (slabs_of s sc)" "T = slabs_of s sc ! j"
          using b(2) d(2) True by (auto simp: in_set_conv_nth)
        show ?thesis
        proof (cases "i = j")
          case True
          with ij \<open>sc = sk\<close> b(5) d(5) ne have "T = S" "ci \<noteq> cj" by auto
          then show ?thesis unfolding b(5) d(5) using cells_apart [OF b(4,3)] d(3) \<open>sc = sk\<close> by simp
        next
          case False
          then have "slab_range (SB sc) S \<inter> slab_range (SB sc) T = {}"
            using sorted_slabs_disjoint [OF inv_class(1) [OF inv b(1)] ij(1,3)] ij by simp
          with b(6) d(6) True show ?thesis by blast
        qed
      qed
    next
      case d: (large L)
      then show ?thesis using slab_large [OF b(1,2)] b(6) by blast
    qed
  next
    case b: (large L)
    show ?thesis
      using inv D
    proof (cases rule: blocks_cases)
      case d: (cell sc S ci)
      then show ?thesis using slab_large [OF d(1,2)] b(1,3) by blast
    next
      case d: (large M)
      then show ?thesis using large_large [OF b(1) d(1)] b ne by auto
    qed
  qed
qed

section \<open>AllocateRaw\<close>

lemma blocks_takes_cell:
  assumes inv: "alloc_inv s" and sc: "sc < nsc" and t: "takes_cell sc C s s'"
  shows "blocks s' = insert (C, unat (CW sc)) (blocks s)" "C \<notin> live_ptrs s"
proof -
  have t': "alloc_inv s'" "LargeSlabs s' = LargeSlabs s" "C \<in> live_cells sc s'" "C \<notin> live_cells sc s"
    "live_cells sc s' = insert C (live_cells sc s)" "\<And>k. k < nsc \<Longrightarrow> k \<noteq> sc \<Longrightarrow> live_cells k s' = live_cells k s"
    using t by (auto simp: takes_cell_def)
  have live: "live_cells k s' = live_cells k s \<union> {D. k = sc \<and> D = C}" if "k < nsc" for k
    using t'(5,6) that by auto
  have "(\<Union>k \<in> {..< nsc}. (\<lambda>C. (C, unat (CW k))) ` live_cells k s')
      = insert (C, unat (CW sc)) (\<Union>k \<in> {..< nsc}. (\<lambda>C. (C, unat (CW k))) ` live_cells k s)"
    using sc by (auto simp: live)
  then show "blocks s' = insert (C, unat (CW sc)) (blocks s)"
    unfolding blocks_def t'(2) by simp
  have C: "C \<in> set (cells sc s')" by (rule live_in_cells [OF t'(3)])
  have "C \<notin> live_cells k s" if k: "k < nsc" for k
  proof
    assume a: "C \<in> live_cells k s"
    with t'(4) have "k \<noteq> sc" by auto
    with a t'(6) [OF k] have "C \<in> live_cells k s'" by simp
    then have "C \<in> set (cells k s')" by (rule live_in_cells)
    with cells_disjoint [OF t'(1) k sc _ C] \<open>k \<noteq> sc\<close> show False by simp
  qed
  moreover have "C \<notin> LargeBase ` set (LargeSlabs s)"
    using cells_not_large [OF t'(1) sc C] t'(2) by simp
  ultimately show "C \<notin> live_ptrs s" by (auto simp: live_ptrs_def)
qed

lemma takes_cell_trans:
  assumes "takes_cell sc C s1 s2" "LargeSlabs s1 = LargeSlabs s" "\<And>k. k < nsc \<Longrightarrow> live_cells k s1 = live_cells k s" "sc < nsc"
  shows "takes_cell sc C s s2"
  using assms by (simp add: takes_cell_def)

lemma AllocateRaw_cell:
  assumes inv: "alloc_inv s" and sc: "sc < nsc" and fits: "class_fits s Class sc"
    and fr: "fresh s Storage (unat (SB sc))"
    and req: "SizeToSizeClass (RoundedSize (if Size0 = 0 then 1 else Size0) Align) = sc"
  obtains C s' where "AllocateRaw b Storage Size0 Align Class (Some s) = Inr (C, s')" "takes_cell sc C s s'"
proof -
  obtain r s1 where r: "ClassPoolFor Class sc s = Inr (r, s1)" "alloc_inv s1" "pool_for s1 Class sc r"
    "SizeClasses s1 = SizeClasses s" "LargeSlabs s1 = LargeSlabs s" "\<And>k. free_mset k s1 = free_mset k s"
    by (rule ClassPoolFor_spec [OF inv sc fits]) (rule that)
  have live1: "live_cells k s1 = live_cells k s" for k by (simp add: live_cells_def cells_def r(4,6))
  have fr1: "fresh s1 Storage (unat (SB sc))" using fr by (simp add: fresh_def r(4,5))
  note run = req r(1) sc
  show ?thesis
  proof (cases "ClassFree (get_pool s1 r)")
    case (Cons C rest)
    have "takes_cell sc C s (upd_size sc (\<lambda>P. P\<lparr>TotalLiveCells := TotalLiveCells P + 1\<rparr>)
        (upd_pool r (\<lambda>P. P\<lparr>ClassFree := rest, PoolLive := PoolLive P + 1\<rparr>) s1))"
      by (rule takes_cell_trans [OF pop_class_free [OF r(2) sc r(3) Cons] r(5) live1 sc])
    moreover have "AllocateRaw b Storage Size0 Align Class (Some s) = Inr (C, upd_size sc (\<lambda>P. P\<lparr>TotalLiveCells := TotalLiveCells P + 1\<rparr>)
        (upd_pool r (\<lambda>P. P\<lparr>ClassFree := rest, PoolLive := PoolLive P + 1\<rparr>) s1))"
      using run Cons by (simp add: AllocateRaw_def Let_def EnsureStateInitialised_def)
    ultimately show ?thesis by (intro that)
  next
    case Nil
    define s2 where "s2 = (if FindDonor (slabs_of s1 sc) = None then GrowSizeClass Storage sc s1 else s1)"
    note g = Grow_spec [OF r(2) sc fr1]
    have s2: "alloc_inv s2" "LargeSlabs s2 = LargeSlabs s1" "\<And>k. k < nsc \<Longrightarrow> live_cells k s2 = live_cells k s1"
        "ClassPools s2 = ClassPools s1" "NoClassPools s2 = NoClassPools s1" "FindDonor (slabs_of s2 sc) \<noteq> None"
      using g r(2) by (simp_all add: s2_def)
    then obtain si where si: "FindDonor (slabs_of s2 sc) = Some si" by blast
    have "pool_for s2 Class sc r"
      using r(3) s2(4,5) by (cases r) (simp_all add: pool_for_def valid_ref_def get_pool_def)
    from TakeUnassigned_spec [OF s2(1) sc this si]
    obtain C s' where t: "TakeUnassigned b Class sc si r s2 = Inr (C, s')" "takes_cell sc C s2 s'" by blast
    have "takes_cell sc C s s'"
      by (rule takes_cell_trans [OF t(2)]) (use s2 r(5) live1 sc in simp_all)
    moreover have "AllocateRaw b Storage Size0 Align Class (Some s) = Inr (C, s')"
      unfolding AllocateRaw_def Let_def EnsureStateInitialised_def option.case req r(1) rbind_Inr prod.case Nil list.case
        s2_def [symmetric] si t(1) using sc by simp
    ultimately show ?thesis by (intro that)
  qed
qed

lemma add_large:
  fixes c :: ptr
  assumes inv: "alloc_inv s" and n: "0 < unat n" and fr: "fresh s a (unat n)"
  defines "s' \<equiv> s\<lparr>LargeSlabs := LargeSlabs s @ [\<lparr>LargeBase = a, LargeSize = n, LargeClass = c\<rparr>]\<rparr>"
  shows "alloc_inv s'" "blocks s' = insert (a, unat n) (blocks s)" "a \<notin> live_ptrs s"
proof -
  have sel: "SizeClasses s' = SizeClasses s" "ClassPools s' = ClassPools s" "NoClassPools s' = NoClassPools s"
    "LargeSlabs s' = LargeSlabs s @ [\<lparr>LargeBase = a, LargeSize = n, LargeClass = c\<rparr>]"
    by (simp_all add: s'_def)
  have live: "live_cells k s' = live_cells k s" "free_mset k s' = free_mset k s" "cells k s' = cells k s" for k
    by (simp_all add: live_cells_def free_mset_def cells_def sel)
  have a: "unat a \<in> {unat a ..< unat a + unat n}" using n by simp
  have rng: "large_range \<lparr>LargeBase = a, LargeSize = n, LargeClass = c\<rparr> = {unat a ..< unat a + unat n}"
    by (simp add: large_range_def)
  have tg: "slab_tags s' k S = slab_tags s k S" for k S by (simp add: slab_tags_def sel)
  have "apart s'" using inv fr unfolding alloc_inv_def apart_def fresh_def sel by (simp add: ball_Un rng)
  moreover have "large_ok s'"
  proof -
    have new: "large_range L \<inter> {unat a ..< unat a + unat n} = {}" if "L \<in> set (LargeSlabs s)" for L
      using fr that by (simp add: fresh_def)
    then have "\<lparr>LargeBase = a, LargeSize = n, LargeClass = c\<rparr> \<notin> set (LargeSlabs s)" using rng a by blast
    with new inv fr n show ?thesis
      unfolding alloc_inv_def large_ok_def fresh_def sel by (simp add: ball_Un rng Int_commute)
  qed
  ultimately show "alloc_inv s'" using inv unfolding alloc_inv_def slabs_ok_def live tg sel by simp
  show "blocks s' = insert (a, unat n) (blocks s)" unfolding blocks_def live sel by simp
  show "a \<notin> live_ptrs s"
  proof
    assume "a \<in> live_ptrs s"
    then consider (c) k where "k < nsc" "a \<in> live_cells k s" | (l) L where "L \<in> set (LargeSlabs s)" "a = LargeBase L"
      by (auto simp: live_ptrs_def)
    then show False
    proof cases
      case c
      obtain S where "S \<in> set (slabs_of s k)" "unat a \<in> slab_range (SB k) S"
        by (rule cell_range [OF inv c(1) live_in_cells [OF c(2)]])
      moreover from this have "slab_range (SB k) S \<inter> {unat a ..< unat a + unat n} = {}" using fr c(1) by (simp add: fresh_def)
      ultimately show False using a by blast
    next
      case l
      have "unat a \<in> large_range L" using inv l large_base_range by (auto simp: alloc_inv_def)
      moreover have "large_range L \<inter> {unat a ..< unat a + unat n} = {}" using fr l(1) by (simp add: fresh_def)
      ultimately show False using a by blast
    qed
  qed
qed

text \<open>What a request asks the system allocator for, should it need a new block.\<close>

definition block_bytes :: "u64 \<Rightarrow> nat" where
  "block_bytes Req = (let sc = SizeToSizeClass Req in if sc < nsc then unat (SB sc) else unat Req)"

lemma AllocateRaw_spec:
  assumes inv: "alloc_inv s"
    and req: "Req = RoundedSize (if Size0 = 0 then 1 else Size0) Align"
    and fits: "SizeToSizeClass Req < nsc \<Longrightarrow> class_fits s Class (SizeToSizeClass Req)"
    and fr: "fresh s Storage (block_bytes Req)"
  shows "\<exists>C n s'. AllocateRaw b Storage Size0 Align Class (Some s) = Inr (C, s') \<and> alloc_inv s'
    \<and> C \<notin> live_ptrs s \<and> unat Req \<le> n \<and> blocks s' = insert (C, n) (blocks s)"
proof (cases "SizeToSizeClass Req < nsc")
  case True
  then have fr': "fresh s Storage (unat (SB (SizeToSizeClass Req)))" using fr by (simp add: block_bytes_def Let_def)
  obtain C s' where t: "AllocateRaw b Storage Size0 Align Class (Some s) = Inr (C, s')" "takes_cell (SizeToSizeClass Req) C s s'"
    by (rule AllocateRaw_cell [OF inv True fits [OF True] fr' req [THEN arg_cong, symmetric]])
  have "Req \<le> CW (SizeToSizeClass Req)"
    using SizeToSizeClass_bound(1) [OF _ refl, of Req] True by (cases "Req = 0") auto
  then have "unat Req \<le> unat (CW (SizeToSizeClass Req))" by (simp add: word_le_nat_alt)
  with t blocks_takes_cell [OF inv True t(2)] show ?thesis by (auto simp: takes_cell_def)
next
  case False
  then have "Req \<noteq> 0" by (auto simp: SizeToSizeClass_def)
  then have n: "0 < unat Req" by (simp add: unat_gt_0)
  have fr': "fresh s Storage (unat Req)" using fr False by (simp add: block_bytes_def Let_def)
  note l = add_large(1,2) [where c = Class, OF inv n fr'] add_large(3) [OF inv n fr']
  have "AllocateRaw b Storage Size0 Align Class (Some s) =
      Inr (Storage, s\<lparr>LargeSlabs := LargeSlabs s @ [\<lparr>LargeBase = Storage, LargeSize = Req, LargeClass = Class\<rparr>]\<rparr>)"
    using False by (simp add: AllocateRaw_def Let_def EnsureStateInitialised_def req)
  with l show ?thesis by blast
qed

section \<open>Finding the slab of a pointer\<close>

lemma FindInClass_sound:
  assumes "alloc_inv s" "sc < nsc" "FindInClass s C sc = Some si"
  shows "si < length (slabs_of s sc)" "inside (CW sc) (slabs_of s sc ! si) C"
proof -
  have "FindSlab (CW sc) (slabs_of s sc) C 0 (int (length (slabs_of s sc)) - 1) = Some si"
    using assms(3) inv_class(3) [OF assms(1,2)] by (simp add: FindInClass_def Let_def)
  from FindSlab_sound [OF this] show "si < length (slabs_of s sc)" "inside (CW sc) (slabs_of s sc ! si) C" by auto
qed

lemma FindInClass_complete:
  assumes inv: "alloc_inv s" "sc < nsc" and si: "si < length (slabs_of s sc)" "inside (CW sc) (slabs_of s sc ! si) C"
  shows "FindInClass s C sc = Some si"
proof -
  note c = inv_class [OF inv]
  have "FindSlab (CW sc) (slabs_of s sc) C 0 (int (length (slabs_of s sc)) - 1) = Some si"
    by (rule FindSlab_complete [OF c(1,2) si]) (use si in auto)
  then show ?thesis using c(3) by (simp add: FindInClass_def Let_def)
qed

lemma FindInClasses_sound:
  "FindInClasses s C scs = Some (sc, si) \<Longrightarrow> sc \<in> set scs \<and> FindInClass s C sc = Some si"
  by (induction scs) (auto split: if_splits option.splits)

lemma FindInClasses_None:
  "FindInClasses s C scs = None \<longleftrightarrow> (\<forall>sc \<in> set scs. slabs_of s sc = [] \<or> FindInClass s C sc = None)"
  by (induction scs) (auto split: option.split)

lemma in_slab_unique:
  assumes inv: "alloc_inv s" and "sc < nsc" "FindInClass s C sc = Some si" "sk < nsc" "FindInClass s C sk = Some sj"
  shows "sk = sc \<and> sj = si"
proof -
  note a = FindInClass_sound [OF inv assms(2,3)] and b = FindInClass_sound [OF inv assms(4,5)]
  have "slabs_of s sc ! si \<in> set (slabs_of s sc)" "slabs_of s sk ! sj \<in> set (slabs_of s sk)" using a b by auto
  with inv_class(2) [OF inv] assms(2,4)
  have ok: "slab_ok (CW sc) (SB sc) (slabs_of s sc ! si)" "slab_ok (CW sk) (SB sk) (slabs_of s sk ! sj)" by auto
  have r: "unat C \<in> slab_range (SB sc) (slabs_of s sc ! si)" "unat C \<in> slab_range (SB sk) (slabs_of s sk ! sj)"
    using inside_range [OF ok(1) a(2)] inside_range [OF ok(2) b(2)] by auto
  have "sk = sc"
  proof (rule ccontr)
    assume "sk \<noteq> sc"
    then have "slab_range (SB sc) (slabs_of s sc ! si) \<inter> slab_range (SB sk) (slabs_of s sk ! sj) = {}"
      using inv assms(2,4) a(1) b(1) by (simp add: alloc_inv_def apart_def)
    with r show False by blast
  qed
  with assms(3,5) show ?thesis by simp
qed

lemma FindInClasses_exact:
  assumes inv: "alloc_inv s" and sc: "sc < nsc" and si: "FindInClass s C sc = Some si"
  shows "FindInClasses s C [0 ..< nsc] = Some (sc, si)"
proof -
  have ne: "slabs_of s sc \<noteq> []" using FindInClass_sound(1) [OF inv sc si] by auto
  have mem: "sc \<in> set [0 ..< nsc]" using sc by simp
  have "FindInClasses s C [0 ..< nsc] \<noteq> None"
    unfolding FindInClasses_None using ne si mem by (metis option.distinct(1))
  then obtain sk sj where k: "FindInClasses s C [0 ..< nsc] = Some (sk, sj)" by (auto simp del: upt_Suc)
  with FindInClasses_sound [OF k] have "sk < nsc" "FindInClass s C sk = Some sj" by auto
  with in_slab_unique [OF inv sc si] k show ?thesis by simp
qed

section \<open>Deallocate\<close>

lemma gives_cell:
  assumes inv: "alloc_inv s" "alloc_inv s'" and sc: "sc < nsc" and L: "LargeSlabs s' = LargeSlabs s"
    and C: "C \<in> live_cells sc s"
    and free: "free_mset sc s' = add_mset C (free_mset sc s)" "cells sc s' = cells sc s"
    and other: "\<And>k. k < nsc \<Longrightarrow> k \<noteq> sc \<Longrightarrow> free_mset k s' = free_mset k s \<and> cells k s' = cells k s"
  shows "blocks s' = {B \<in> blocks s. fst B \<noteq> C}"
proof -
  have live: "live_cells k s' = live_cells k s - {C}" if k: "k < nsc" for k
  proof (cases "k = sc")
    case True
    then show ?thesis using free by (auto simp: live_cells_def)
  next
    case False
    have "C \<notin> live_cells k s"
      using cells_disjoint [OF inv(1) k sc live_in_cells live_in_cells [OF C]] False by blast
    moreover have "live_cells k s' = live_cells k s" using other [OF k False] by (simp add: live_cells_def)
    ultimately show ?thesis by simp
  qed
  have "C \<notin> LargeBase ` set (LargeSlabs s)" by (rule cells_not_large [OF inv(1) sc live_in_cells [OF C]])
  then show ?thesis unfolding blocks_def L by (auto simp: live)
qed

lemma upd_slab_live:
  assumes inv: "alloc_inv s" and sc: "sc < nsc" and si: "si < length (slabs_of s sc)"
  defines "f \<equiv> \<lambda>P. P\<lparr>Slabs := (Slabs P)[si := (Slabs P ! si)\<lparr>SlabLive := SlabLive (Slabs P ! si) - 1\<rparr>],
                        TotalLiveCells := TotalLiveCells P - 1\<rparr>"
  shows "alloc_inv (upd_size sc f s)" "free_mset k (upd_size sc f s) = free_mset k s"
    "cells k (upd_size sc f s) = cells k s" "length (slabs_of (upd_size sc f s) j) = length (slabs_of s j)"
proof -
  note c = inv_class [OF inv sc]
  define D where "D = slabs_of s sc ! si"
  define D' where "D' = D\<lparr>SlabLive := SlabLive D - 1\<rparr>"
  have fS: "Slabs (f (SizeClasses s ! sc)) = (slabs_of s sc)[si := D']" by (simp add: f_def D_def D'_def)
  have sl: "slabs_of (upd_size sc f s) k = (if k = sc then (slabs_of s sc)[si := D'] else slabs_of s k)" for k
    using c(7) fS by simp
  then show "length (slabs_of (upd_size sc f s) j) = length (slabs_of s j)" by simp
  have D': "SlabBase D' = SlabBase D" "NumCells D' = NumCells D" "Unassigned D' = Unassigned D" "OwnerClass D' = OwnerClass D"
    by (simp_all add: D'_def)
  have mp: "map g ((slabs_of s sc)[si := D']) = map g (slabs_of s sc)" if "g D' = g D" for g :: "FSlab \<Rightarrow> 'c"
    using si that by (simp add: map_update list_update_same_conv D_def)
  have cs: "cells_of W D' = cells_of W D" for W by (simp add: cells_of_def cell_at_def [abs_def] D')
  show cells: "cells k (upd_size sc f s) = cells k s" for k
    by (simp add: cells_def sl mp cs)
  show free: "free_mset k (upd_size sc f s) = free_mset k s" for k
    by (simp add: free_mset_def sl mp D')
  have Dm: "D \<in> set (slabs_of s sc)" using si by (simp add: D_def)
  have ok': "slab_ok (CW sc) (SB sc) D'" "slab_tags s sc D'" "slab_range (SB sc) D' = slab_range (SB sc) D"
    using c(2,6) Dm by (auto simp: slab_ok_def slab_tags_def slab_range_def cs D' cell_at_def)
  have set1: "set ((slabs_of s sc)[si := D']) \<subseteq> insert D' (set (slabs_of s sc))" by (rule set_update_subset_insert)
  show "alloc_inv (upd_size sc f s)"
  proof (rule inv_upd_size [OF inv sc])
    show "slabs_sorted (SB sc) (Slabs (f (SizeClasses s ! sc)))"
      unfolding fS by (rule slabs_sorted_update [OF c(1) si]) (simp add: D'(1) D_def)
    show "\<forall>S \<in> set (Slabs (f (SizeClasses s ! sc))). slab_ok (CW sc) (SB sc) S \<and> slab_tags s sc S"
      unfolding fS using set1 c(2,6) ok' by blast
    show "\<forall>S \<in> set (Slabs (f (SizeClasses s ! sc))).
        (\<forall>sc' < nsc. sc' \<noteq> sc \<longrightarrow> (\<forall>T \<in> set (slabs_of s sc'). slab_range (SB sc) S \<inter> slab_range (SB sc') T = {}))
        \<and> (\<forall>L \<in> set (LargeSlabs s). slab_range (SB sc) S \<inter> large_range L = {})"
    proof
      fix S assume "S \<in> set (Slabs (f (SizeClasses s ! sc)))"
      then have "S \<in> insert D' (set (slabs_of s sc))" unfolding fS using set1 by blast
      then obtain T where T: "T \<in> set (slabs_of s sc)" "slab_range (SB sc) S = slab_range (SB sc) T"
        using Dm ok'(3) by blast
      show "(\<forall>sc' < nsc. sc' \<noteq> sc \<longrightarrow> (\<forall>T \<in> set (slabs_of s sc'). slab_range (SB sc) S \<inter> slab_range (SB sc') T = {}))
        \<and> (\<forall>L \<in> set (LargeSlabs s). slab_range (SB sc) S \<inter> large_range L = {})"
        unfolding T(2) by (rule slab_ap [OF inv sc T(1)])
    qed
    show "free_mset sc (upd_size sc f s) \<subseteq># mset (cells sc (upd_size sc f s))"
      using c(5) unfolding cells free .
  qed (simp_all add: f_def)
qed

lemma owner_pool:
  assumes inv: "alloc_inv s" and P: "P \<in> set (ClassPools s)" "PoolClass P = OwnedBy c" "PoolSizeClass P = sc"
  obtains i where "FindClassPoolUnderLock s c = Some i" "i < length (ClassPools s)" "PoolSizeClass (ClassPools s ! i) = sc"
proof -
  have "FindClassPoolUnderLock s c \<noteq> None" unfolding FindClassPool_None using P(1,2) by force
  then obtain i where i: "FindClassPoolUnderLock s c = Some i" by blast
  note f = FindClassPool_Some [OF i]
  have d: "distinct (map PoolClass (ClassPools s))" using inv by (simp add: alloc_inv_def)
  obtain j where j: "j < length (ClassPools s)" "P = ClassPools s ! j" using P(1) by (auto simp: in_set_conv_nth)
  have "i = j"
    using d f j P(2) by (metis nth_eq_iff_index_eq nth_map length_map)
  with i f j P(3) show ?thesis by (intro that) auto
qed

lemma PushClassFree_spec:
  assumes inv: "alloc_inv s" and sc: "sc < nsc" and si: "si < length (slabs_of s sc)"
    and r: "valid_ref s r" "PoolSizeClass (get_pool s r) = sc" and C: "C \<in> live_cells sc s"
  shows "alloc_inv (PushClassFree sc si C r s)" "blocks (PushClassFree sc si C r s) = {B \<in> blocks s. fst B \<noteq> C}"
proof -
  let ?f = "\<lambda>P. P\<lparr>ClassFree := C # ClassFree P, PoolLive := PoolLive P - 1\<rparr>"
  let ?s1 = "upd_pool r ?f s"
  note u = free_mset_upd_pool [OF r(1), of _ ?f]
  have pf: "free_mset k ?s1 = (if k = sc then add_mset C (free_mset sc s) else free_mset k s)" for k
    using u [of k] r(2) by (auto simp: pool_free_def)
  have C': "C \<in> set (cells sc s) - set_mset (free_mset sc s)" using C by (simp add: live_cells_def)
  have inv1: "alloc_inv ?s1"
  proof (rule inv_upd_pool [OF inv r(1)])
    show "\<forall>k < nsc. free_mset k ?s1 \<subseteq># mset (cells k s)"
      using inv give_free(1) [OF inv_cells_distinct [OF inv sc] inv_class(5) [OF inv sc] C']
      unfolding pf by (simp add: alloc_inv_def)
  qed simp_all
  have si1: "si < length (slabs_of ?s1 sc)" using si by simp
  note v = upd_slab_live [OF inv1 sc si1]
  have e: "PushClassFree sc si C r s = upd_size sc (\<lambda>P. P\<lparr>Slabs := (Slabs P)[si := (Slabs P ! si)\<lparr>SlabLive := SlabLive (Slabs P ! si) - 1\<rparr>],
                        TotalLiveCells := TotalLiveCells P - 1\<rparr>) ?s1"
    by (simp add: PushClassFree_def)
  show "alloc_inv (PushClassFree sc si C r s)" unfolding e by (rule v(1))
  show "blocks (PushClassFree sc si C r s) = {B \<in> blocks s. fst B \<noteq> C}"
    unfolding e
    by (rule gives_cell [OF inv v(1) sc _ C]) (simp_all only: v(2,3) pf upd_size_sel upd_pool_sel cells_upd_pool if_True if_False simp_thms)
qed

lemma Deallocate_cell:
  assumes inv: "alloc_inv s" and sc: "sc < nsc" and C: "C \<in> live_cells sc s" and nz: "C \<noteq> nullptr"
  shows "\<exists>s'. Deallocate b C (Some s) = Inr (Some s') \<and> alloc_inv s' \<and> blocks s' = {B \<in> blocks s. fst B \<noteq> C}"
proof -
  note c = inv_class [OF inv sc]
  obtain S where S: "S \<in> set (slabs_of s sc)" "slab_ok (CW sc) (SB sc) S" "C \<in> set (cells_of (CW sc) S)"
    by (rule cell_range [OF inv sc live_in_cells [OF C]])
  then obtain si where si: "si < length (slabs_of s sc)" "S = slabs_of s sc ! si" by (auto simp: in_set_conv_nth)
  obtain ci where ci: "ci < NumCells S" "C = cell_at (CW sc) S ci" using S(3) by (auto simp: cells_of_def)
  have "FindInClass s C sc = Some si"
    by (rule FindInClass_complete [OF inv sc si(1)]) (use cell_inside [OF S(2,3)] si(2) in simp)
  then have find: "FindInClasses s C [0 ..< nsc] = Some (sc, si)" by (rule FindInClasses_exact [OF inv sc])
  note idx = cell_index [OF S(2) ci(1), folded ci(2)]
  have len: "ci < length (OwnerClass S)" using S(2) ci(1) by (simp add: slab_ok_def)
  have tag: "OwnerClass S ! ci = Unowned \<Longrightarrow> C \<in> set (Unassigned S)"
    "OwnerClass S ! ci = OwnedBy d \<Longrightarrow> \<exists>P \<in> set (ClassPools s). PoolClass P = OwnedBy d \<and> PoolSizeClass P = sc" for d
    using c(6) S(1) ci by (auto simp: slab_tags_def)
  have notfree: "C \<notin> set (Unassigned S)"
  proof
    assume "C \<in> set (Unassigned S)"
    then have "C \<in># sum_list (map (\<lambda>S. mset (Unassigned S)) (slabs_of s sc))"
      using S(1) by (auto simp: set_mset_sum_list)
    then have "C \<in># free_mset sc s" by (simp add: free_mset_def)
    with C show False by (simp add: live_cells_def)
  qed
  define r where "r = (case OwnerClass S ! ci of OwnedBy d \<Rightarrow> ClassPool (the (FindClassPoolUnderLock s d)) | _ \<Rightarrow> NoClassPool sc)"
  have run: "Deallocate b C (Some s) = Inr (Some (PushClassFree sc si C r s)) \<and> valid_ref s r \<and> PoolSizeClass (get_pool s r) = sc"
  proof (cases "OwnerClass S ! ci")
    case Unowned
    with tag(1) notfree show ?thesis by simp
  next
    case NoClassSentinel
    then show ?thesis
      using nz find idx len c(3,8,9) si(2)
      by (simp add: Deallocate_def Let_def xcheck_def in_range_def r_def valid_ref_def get_pool_def del: upt_Suc)
  next
    case (OwnedBy d)
    from tag(2) [OF this] obtain P where P: "P \<in> set (ClassPools s)" "PoolClass P = OwnedBy d" "PoolSizeClass P = sc" by blast
    obtain i where "FindClassPoolUnderLock s d = Some i" "i < length (ClassPools s)" "PoolSizeClass (ClassPools s ! i) = sc"
      by (rule owner_pool [OF inv P])
    with OwnedBy show ?thesis
      using nz find idx len c(3) si(2)
      by (simp add: Deallocate_def Let_def xcheck_def in_range_def r_def valid_ref_def get_pool_def del: upt_Suc)
  qed
  then have r: "valid_ref s r" "PoolSizeClass (get_pool s r) = sc" by auto
  from PushClassFree_spec [OF inv sc si(1) r C] run show ?thesis by blast
qed

text \<open>Removing an element of a list by moving the last one into its place.\<close>

lemma mset_swap_remove:
  assumes "i < length xs"
  shows "mset (butlast (xs[i := last xs])) = mset xs - {#xs ! i#}"
proof (cases xs rule: rev_cases)
  case (snoc ys y)
  show ?thesis
  proof (cases "i < length ys")
    case True
    then have "ys ! i \<in># mset ys" by simp
    with True snoc show ?thesis by (simp add: list_update_append nth_append mset_update)
  next
    case False
    with assms snoc have "i = length ys" by simp
    with snoc show ?thesis by simp
  qed
qed (use assms in simp)

lemma Deallocate_large:
  assumes inv: "alloc_inv s" and L: "L \<in> set (LargeSlabs s)"
  shows "\<exists>s'. Deallocate b (LargeBase L) (Some s) = Inr (Some s') \<and> alloc_inv s' \<and> blocks s' = {B \<in> blocks s. fst B \<noteq> LargeBase L}"
proof -
  let ?C = "LargeBase L"
  have lo: "large_ok s" "apart s" using inv by (auto simp: alloc_inv_def)
  have nz: "?C \<noteq> nullptr" using lo L by (auto simp: large_ok_def)
  have inL: "unat ?C \<in> large_range L" by (rule large_base_range [OF lo(1) L])
  have "FindInClasses s ?C [0 ..< nsc] = None"
  proof (rule ccontr)
    assume "FindInClasses s ?C [0 ..< nsc] \<noteq> None"
    then obtain sc si where "FindInClasses s ?C [0 ..< nsc] = Some (sc, si)" by (auto simp del: upt_Suc)
    with FindInClasses_sound [OF this] have k: "sc < nsc" "FindInClass s ?C sc = Some si" by auto
    note a = FindInClass_sound [OF inv k]
    have m: "slabs_of s sc ! si \<in> set (slabs_of s sc)" using a by simp
    with inv_class(2) [OF inv k(1)] have "unat ?C \<in> slab_range (SB sc) (slabs_of s sc ! si)" using a(2) inside_range by blast
    moreover have "slab_range (SB sc) (slabs_of s sc ! si) \<inter> large_range L = {}" using lo(2) k(1) m L by (simp add: apart_def)
    ultimately show False using inL by blast
  qed
  moreover obtain i where i: "find (\<lambda>i. LargeBase (LargeSlabs s ! i) = ?C) [0 ..< length (LargeSlabs s)] = Some i"
    using L by (cases "find (\<lambda>i. LargeBase (LargeSlabs s ! i) = ?C) [0 ..< length (LargeSlabs s)]")
      (auto simp: find_None_iff in_set_conv_nth)
  ultimately have run: "Deallocate b ?C (Some s) = Inr (Some (s\<lparr>LargeSlabs := butlast ((LargeSlabs s)[i := last (LargeSlabs s)])\<rparr>))"
    using nz by (simp add: Deallocate_def)
  define s' where "s' = s\<lparr>LargeSlabs := butlast ((LargeSlabs s)[i := last (LargeSlabs s)])\<rparr>"
  have i': "i < length (LargeSlabs s)" "LargeBase (LargeSlabs s ! i) = ?C" using i by (auto simp: find_Some_iff)
  have disj: "large_range M \<inter> large_range N = {}"
    if "M \<in> set (LargeSlabs s)" "N \<in> set (LargeSlabs s)" "M \<noteq> N" for M N
    using lo(1) that by (simp add: large_ok_def)
  have m: "mset (LargeSlabs s) = add_mset (LargeSlabs s ! i) (mset (LargeSlabs s'))"
    using i'(1) by (simp add: s'_def mset_swap_remove [OF i'(1)])
  have ii: "LargeSlabs s ! i = L"
  proof (rule ccontr)
    assume "LargeSlabs s ! i \<noteq> L"
    moreover have "LargeSlabs s ! i \<in> set (LargeSlabs s)" using i'(1) by simp
    ultimately have "large_range (LargeSlabs s ! i) \<inter> large_range L = {}" "unat ?C \<in> large_range (LargeSlabs s ! i)"
      using disj L large_base_range [OF lo(1)] i'(2) by metis+
    with inL show False by blast
  qed
  have "distinct (LargeSlabs s)" using lo(1) by (simp add: large_ok_def)
  moreover have perm: "mset (LargeSlabs s) = mset (L # LargeSlabs s')" using m ii by simp
  ultimately have d: "distinct (L # LargeSlabs s')" using mset_eq_imp_distinct_iff [OF perm] by blast
  have d2: "set (LargeSlabs s) = set (L # LargeSlabs s')" by (rule mset_eq_setD [OF perm])
  have base: "LargeBase M \<noteq> ?C" if "M \<in> set (LargeSlabs s')" for M
  proof
    assume e: "LargeBase M = ?C"
    have "M \<noteq> L" "M \<in> set (LargeSlabs s)" using that d d2 by auto
    with disj [OF _ L] large_base_range [OF lo(1)] e inL show False by (metis disjoint_iff)
  qed
  have sel: "SizeClasses s' = SizeClasses s" "ClassPools s' = ClassPools s" "NoClassPools s' = NoClassPools s"
    by (simp_all add: s'_def)
  have live: "live_cells k s' = live_cells k s" "free_mset k s' = free_mset k s" "cells k s' = cells k s" for k
    by (simp_all add: live_cells_def free_mset_def cells_def sel)
  have tg: "slab_tags s' k S = slab_tags s k S" for k S by (simp add: slab_tags_def sel)
  have sub: "set (LargeSlabs s') \<subseteq> set (LargeSlabs s)" using d2 by auto
  have "apart s'" using lo(2) sub unfolding apart_def sel by blast
  moreover have "large_ok s'" using lo(1) sub d unfolding large_ok_def by (simp add: subset_iff)
  ultimately have "alloc_inv s'" using inv unfolding alloc_inv_def slabs_ok_def live tg sel by simp
  moreover have "?C \<notin> live_cells k s" if "k < nsc" for k
    using cells_not_large [OF inv that live_in_cells] L by blast
  then have "blocks s' = {B \<in> blocks s. fst B \<noteq> ?C}"
    unfolding blocks_def live d2 using base by auto
  ultimately show ?thesis using run by (auto simp: s'_def)
qed

text \<open>A pointer into no cell that is not the base of a large block is not the allocator's.\<close>

lemma Deallocate_unknown:
  assumes "alloc_inv s" "p \<noteq> nullptr" "p \<notin> LargeBase ` set (LargeSlabs s)"
    "\<And>sc si. sc < nsc \<Longrightarrow> si < length (slabs_of s sc) \<Longrightarrow> \<not> inside (CW sc) (slabs_of s sc ! si) p"
  shows "Deallocate b p (Some s) = Inl Aborted"
proof -
  have "FindInClass s p sc = None" if "sc < nsc" for sc
  proof (cases "FindInClass s p sc")
    case (Some si)
    from FindInClass_sound [OF assms(1) that Some] assms(4) [OF that, of si] show ?thesis by simp
  qed
  then have "FindInClasses s p [0 ..< nsc] = None" unfolding FindInClasses_None by simp
  moreover have "find (\<lambda>i. LargeBase (LargeSlabs s ! i) = p) [0 ..< length (LargeSlabs s)] = None"
    using assms(3) by (auto simp: find_None_iff)
  ultimately show ?thesis using assms(2) by (simp add: Deallocate_def)
qed

lemma Deallocate_spec:
  assumes inv: "alloc_inv s" and p: "p \<in> live_ptrs s"
  shows "\<exists>s'. Deallocate b p (Some s) = Inr (Some s') \<and> alloc_inv s' \<and> blocks s' = {B \<in> blocks s. fst B \<noteq> p}"
proof -
  from p consider (c) sc where "sc < nsc" "p \<in> live_cells sc s" | (l) L where "L \<in> set (LargeSlabs s)" "p = LargeBase L"
    by (auto simp: live_ptrs_def)
  then show ?thesis
  proof cases
    case c
    obtain S where S: "slab_ok (CW sc) (SB sc) S" "unat p \<in> slab_range (SB sc) S"
      by (rule cell_range [OF inv c(1) live_in_cells [OF c(2)]])
    then have "SlabBase S \<noteq> 0" "unat (SlabBase S) \<le> unat p" by (auto simp: slab_ok_def slab_range_def)
    then have "p \<noteq> nullptr" using unsigned_eq_0_iff by fastforce
    with Deallocate_cell [OF inv c] show ?thesis by blast
  next
    case l
    with Deallocate_large [OF inv] show ?thesis by blast
  qed
qed

section \<open>IsHeapAddress\<close>

lemma IsHeapAddress_spec:
  assumes inv: "alloc_inv s"
  shows "IsHeapAddress_alloc (Some s) p \<longleftrightarrow>
     unat p \<in> (\<Union>sc \<in> {..< nsc}. \<Union>C \<in> set (cells sc s). extent (C, unat (CW sc))) \<union> (\<Union>L \<in> set (LargeSlabs s). large_range L)"
proof -
  have slab: "FindInClasses s p [0 ..< nsc] \<noteq> None \<longleftrightarrow>
      (\<exists>sc < nsc. \<exists>C \<in> set (cells sc s). unat p \<in> extent (C, unat (CW sc)))"
  proof
    assume "FindInClasses s p [0 ..< nsc] \<noteq> None"
    then obtain sc si where "FindInClasses s p [0 ..< nsc] = Some (sc, si)" by (auto simp del: upt_Suc)
    with FindInClasses_sound [OF this] have sc: "sc < nsc" and f: "FindInClass s p sc = Some si" by auto
    let ?S = "slabs_of s sc ! si"
    note a = FindInClass_sound [OF inv sc f]
    have S: "?S \<in> set (slabs_of s sc)" using a by simp
    with inv_class(2) [OF inv sc] have ok: "slab_ok (CW sc) (SB sc) ?S" by blast
    note W = sizes(1) [OF sc]
    define ci where "ci = (unat p - unat (SlabBase ?S)) div unat (CW sc)"
    have p: "unat (SlabBase ?S) \<le> unat p" "unat p - unat (SlabBase ?S) < NumCells ?S * unat (CW sc)"
      using a(2) by (auto simp: inside_unat [OF ok])
    then have ci: "ci < NumCells ?S" unfolding ci_def using W by (simp add: less_mult_imp_div_less)
    have "ci * unat (CW sc) \<le> unat p - unat (SlabBase ?S)" "unat p - unat (SlabBase ?S) < ci * unat (CW sc) + unat (CW sc)"
      unfolding ci_def using W dividend_less_div_times [OF W] by (simp_all add: add.commute)
    then have "unat p \<in> extent (cell_at (CW sc) ?S ci, unat (CW sc))"
      using p(1) cell_unat(1) [OF ok ci] by (auto simp: extent_def)
    moreover have "cell_at (CW sc) ?S ci \<in> set (cells sc s)"
      using ci unfolding cells_in_slab by (intro bexI [OF _ S]) (simp add: cells_of_def)
    ultimately show "\<exists>sc < nsc. \<exists>C \<in> set (cells sc s). unat p \<in> extent (C, unat (CW sc))" using sc by blast
  next
    assume "\<exists>sc < nsc. \<exists>C \<in> set (cells sc s). unat p \<in> extent (C, unat (CW sc))"
    then obtain sc C where sc: "sc < nsc" and C: "C \<in> set (cells sc s)" "unat p \<in> extent (C, unat (CW sc))" by blast
    obtain S where S: "S \<in> set (slabs_of s sc)" "slab_ok (CW sc) (SB sc) S" "C \<in> set (cells_of (CW sc) S)"
      by (rule cell_range [OF inv sc C(1)])
    obtain si where si: "si < length (slabs_of s sc)" "S = slabs_of s sc ! si" using S(1) by (auto simp: in_set_conv_nth)
    obtain ci where ci: "ci < NumCells S" "C = cell_at (CW sc) S ci" using S(3) by (auto simp: cells_of_def)
    have "Suc ci * unat (CW sc) \<le> NumCells S * unat (CW sc)" by (rule mult_le_mono1) (use ci(1) in simp)
    then have "inside (CW sc) S p"
      using C(2) cell_unat(1) [OF S(2) ci(1)] by (auto simp: inside_unat [OF S(2)] extent_def ci(2))
    then have "FindInClass s p sc = Some si" using FindInClass_complete [OF inv sc si(1)] si(2) by simp
    with FindInClasses_exact [OF inv sc] show "FindInClasses s p [0 ..< nsc] \<noteq> None" by simp
  qed
  have large: "p \<ge> LargeBase L \<and> p < LargeBase L + LargeSize L \<longleftrightarrow> unat p \<in> large_range L" if "L \<in> set (LargeSlabs s)" for L
  proof -
    have "unat (LargeBase L) + unat (LargeSize L) < 2 ^ 64" using inv that by (auto simp: alloc_inv_def large_ok_def)
    then have "unat (LargeBase L + LargeSize L) = unat (LargeBase L) + unat (LargeSize L)"
      by (subst unat_add_lem [THEN iffD1]) simp_all
    then show ?thesis by (auto simp: large_range_def word_le_nat_alt word_less_nat_alt)
  qed
  have nz: "p \<noteq> nullptr" if "unat p \<in> (\<Union>sc \<in> {..< nsc}. \<Union>C \<in> set (cells sc s). extent (C, unat (CW sc))) \<union> (\<Union>L \<in> set (LargeSlabs s). large_range L)"
  proof -
    have "0 < unat p"
      using that
    proof (elim UnE UN_E)
      fix sc C assume "sc \<in> {..< nsc}" "C \<in> set (cells sc s)" and p: "unat p \<in> extent (C, unat (CW sc))"
      then obtain S where S: "slab_ok (CW sc) (SB sc) S" "unat C \<in> slab_range (SB sc) S"
        using cell_range [OF inv] by (metis lessThan_iff)
      then show ?thesis using p unat_gt_0 [of "SlabBase S"] by (auto simp: slab_ok_def slab_range_def extent_def)
    next
      fix L assume "L \<in> set (LargeSlabs s)" "unat p \<in> large_range L"
      then show ?thesis using inv unat_gt_0 [of "LargeBase L"] by (auto simp: alloc_inv_def large_ok_def large_range_def)
    qed
    then show ?thesis by auto
  qed
  have "list_ex (\<lambda>L. LargeBase L \<le> p \<and> p < LargeBase L + LargeSize L) (LargeSlabs s)
      \<longleftrightarrow> unat p \<in> (\<Union>L \<in> set (LargeSlabs s). large_range L)"
    using large by (auto simp: list_ex_iff)
  with slab nz show ?thesis
    by (cases "p = nullptr") (simp_all add: IsHeapAddress_alloc_def del: upt_Suc, blast+)
qed

end
