(* ===== verification/AllocatorTheorems.thy ===== *)
theory AllocatorTheorems
  imports AllocatorOps
begin

text \<open>
  What the object allocator promises its callers: requests are served from blocks that no one
  holds, a block that is given back leaves every other block alone, the live blocks of a run never
  overlap, and the one operation that breaks the promise: \<open>CoalesceIdleSlabs\<close> goes by a live count
  that a recycled cell is not part of.  The interface is the locale \<open>block_allocator\<close>, interpreted on the allocator's
  model.
\<close>

section \<open>The interface of a block allocator\<close>

datatype 'r block_op = AllocOp 'r | FreeOp ptr

definition block_step :: "('r \<Rightarrow> 's \<Rightarrow> xerror + (ptr \<times> 's)) \<Rightarrow> (ptr \<Rightarrow> 's \<Rightarrow> xerror + 's) \<Rightarrow> 'r block_op \<Rightarrow> 's \<Rightarrow> xerror + 's" where
  "block_step alloc release op s =
     (case op of AllocOp r \<Rightarrow> rbind (alloc r s) (\<lambda>(C, s'). Inr s') | FreeOp p \<Rightarrow> release p s)"

definition block_ok :: "('s \<Rightarrow> (ptr \<times> nat) set) \<Rightarrow> ('r \<Rightarrow> 's \<Rightarrow> bool) \<Rightarrow> 'r block_op \<Rightarrow> 's \<Rightarrow> bool" where
  "block_ok live may op s = (case op of AllocOp r \<Rightarrow> may r s | FreeOp p \<Rightarrow> p \<in> fst ` live s)"

text \<open>Every operation of the run meets its caller's obligation in the state it is executed in.\<close>

fun obeys :: "('op \<Rightarrow> 's \<Rightarrow> bool) \<Rightarrow> ('op \<Rightarrow> 's \<Rightarrow> xerror + 's) \<Rightarrow> 'op list \<Rightarrow> 's \<Rightarrow> bool" where
  "obeys ok step [] s = True"
| "obeys ok step (x # xs) s = (ok x s \<and> (case step x s of Inl e \<Rightarrow> True | Inr s' \<Rightarrow> obeys ok step xs s'))"

locale block_allocator =
  fixes inv :: "'s \<Rightarrow> bool"
    and live :: "'s \<Rightarrow> (ptr \<times> nat) set"
    and alloc :: "'r \<Rightarrow> 's \<Rightarrow> xerror + (ptr \<times> 's)"
    and release :: "ptr \<Rightarrow> 's \<Rightarrow> xerror + 's"
    and may :: "'r \<Rightarrow> 's \<Rightarrow> bool"
    and bytes :: "'r \<Rightarrow> nat"
  assumes alloc_law: "inv s \<Longrightarrow> may r s \<Longrightarrow>
      \<exists>C n s'. alloc r s = Inr (C, s') \<and> inv s' \<and> C \<notin> fst ` live s \<and> bytes r \<le> n \<and> live s' = insert (C, n) (live s)"
    and release_law: "inv s \<Longrightarrow> p \<in> fst ` live s \<Longrightarrow>
      \<exists>s'. release p s = Inr s' \<and> inv s' \<and> live s' = {B \<in> live s. fst B \<noteq> p}"
    and apart_law: "inv s \<Longrightarrow> B \<in> live s \<Longrightarrow> D \<in> live s \<Longrightarrow> fst B \<noteq> fst D \<Longrightarrow> extent B \<inter> extent D = {}"
begin

lemma step:
  assumes "inv s" "block_ok live may op s"
  shows "\<exists>s'. block_step alloc release op s = Inr s' \<and> inv s'"
proof (cases op)
  case (AllocOp r)
  with assms(2) have "may r s" by (simp add: block_ok_def)
  with alloc_law [OF assms(1)] obtain C s' where "alloc r s = Inr (C, s')" "inv s'" by blast
  with AllocOp show ?thesis by (simp add: block_step_def)
next
  case (FreeOp p)
  with assms(2) have "p \<in> fst ` live s" by (simp add: block_ok_def)
  with release_law [OF assms(1)] FreeOp show ?thesis by (auto simp: block_step_def)
qed

lemma runs:
  "inv s \<Longrightarrow> obeys (block_ok live may) (block_step alloc release) ops s \<Longrightarrow>
     \<exists>s'. run_steps (block_step alloc release) ops s = Inr s' \<and> inv s'"
proof (induction ops arbitrary: s)
  case (Cons op ops)
  then have "block_ok live may op s" by simp
  with step [OF Cons.prems(1)] obtain s1 where s1: "block_step alloc release op s = Inr s1" "inv s1" by blast
  with Cons.prems(2) have "obeys (block_ok live may) (block_step alloc release) ops s1" by simp
  from Cons.IH [OF s1(2) this] s1(1) show ?case by simp
qed simp

end

section \<open>The object allocator as a block allocator\<close>

text \<open>A request: the block the system allocator would supply, the size, the alignment and the class.\<close>

record alloc_request =
  reqStorage :: ptr
  reqSize :: u64
  reqAlign :: u64
  reqClass :: ptr

definition req_rounded :: "alloc_request \<Rightarrow> u64" where
  "req_rounded r = RoundedSize (if reqSize r = 0 then 1 else reqSize r) (reqAlign r)"

text \<open>The system's block must be fresh, and the class must ask for cells of the size class its pool has.\<close>

definition request_ok :: "alloc_request \<Rightarrow> FState \<Rightarrow> bool" where
  "request_ok r s \<longleftrightarrow> fresh s (reqStorage r) (block_bytes (req_rounded r))
     \<and> (SizeToSizeClass (req_rounded r) < nsc \<longrightarrow> class_fits s (reqClass r) (SizeToSizeClass (req_rounded r)))"

definition request_step :: "build \<Rightarrow> alloc_request \<Rightarrow> FState \<Rightarrow> xerror + (ptr \<times> FState)" where
  "request_step b r s = AllocateRaw b (reqStorage r) (reqSize r) (reqAlign r) (reqClass r) (Some s)"

definition release_step :: "build \<Rightarrow> ptr \<Rightarrow> FState \<Rightarrow> xerror + FState" where
  "release_step b p s = rbind (Deallocate b p (Some s)) (\<lambda>m. Inr (EnsureStateInitialised m))"

interpretation xalloc: block_allocator alloc_inv blocks "request_step b" "release_step b" request_ok "\<lambda>r. unat (req_rounded r)" for b
proof
  fix s r assume "alloc_inv s" "request_ok r s"
  then show "\<exists>C n s'. request_step b r s = Inr (C, s') \<and> alloc_inv s' \<and> C \<notin> fst ` blocks s
      \<and> unat (req_rounded r) \<le> n \<and> blocks s' = insert (C, n) (blocks s)"
    unfolding request_step_def blocks_ptrs by (intro AllocateRaw_spec) (auto simp: request_ok_def req_rounded_def)
next
  fix s p assume "alloc_inv s" "p \<in> fst ` blocks s"
  with Deallocate_spec [of s p b] show "\<exists>s'. release_step b p s = Inr s' \<and> alloc_inv s' \<and> blocks s' = {B \<in> blocks s. fst B \<noteq> p}"
    by (auto simp: release_step_def EnsureStateInitialised_def blocks_ptrs)
next
  fix s B D assume "alloc_inv s" "B \<in> blocks s" "D \<in> blocks s" "fst B \<noteq> fst D"
  then show "extent B \<inter> extent D = {}" by (rule blocks_disjoint)
qed

section \<open>What coalescing leaves\<close>

text \<open>
  \<open>CoalesceIdleSlabs\<close> keeps, of every size class, the slabs whose live count is not zero, and all
  large blocks; \<open>holds s k S p\<close> says that slab \<open>S\<close> of size class \<open>k\<close> contains the address \<open>p\<close>.
\<close>

definition holds :: "FState \<Rightarrow> nat \<Rightarrow> FSlab \<Rightarrow> ptr \<Rightarrow> bool" where
  "holds s k S p \<longleftrightarrow> k < nsc \<and> S \<in> set (slabs_of s k) \<and> inside (CW k) S p"

lemma SweepPools_fold:
  "SizeClasses (fold (SweepPools sc W) Ss s) = SizeClasses s" "LargeSlabs (fold (SweepPools sc W) Ss s) = LargeSlabs s"
  by (induction Ss arbitrary: s) (simp_all add: SweepPools_def)

lemma CoalesceClass_sel:
  assumes "sc < length (SizeClasses s)"
  shows "LargeSlabs (snd (CoalesceClass sc (n, s))) = LargeSlabs s"
    "length (SizeClasses (snd (CoalesceClass sc (n, s)))) = length (SizeClasses s)"
    "CellWidth (SizeClasses (snd (CoalesceClass sc (n, s))) ! k) = CellWidth (SizeClasses s ! k)"
    "slabs_of (snd (CoalesceClass sc (n, s))) k = (if k = sc then filter (\<lambda>S. SlabLive S \<noteq> 0) (slabs_of s k) else slabs_of s k)"
  using assms by (simp_all add: CoalesceClass_def Let_def SweepPools_fold)

lemma CoalesceClass_fold:
  assumes "\<forall>k \<in> set ks. k < length (SizeClasses s)" "distinct ks"
  shows "LargeSlabs (snd (fold CoalesceClass ks (n, s))) = LargeSlabs s
    \<and> CellWidth (SizeClasses (snd (fold CoalesceClass ks (n, s))) ! k) = CellWidth (SizeClasses s ! k)
    \<and> slabs_of (snd (fold CoalesceClass ks (n, s))) k =
        (if k \<in> set ks then filter (\<lambda>S. SlabLive S \<noteq> 0) (slabs_of s k) else slabs_of s k)"
  using assms
proof (induction ks arbitrary: n s)
  case (Cons sc ks)
  obtain n' s' where C: "CoalesceClass sc (n, s) = (n', s')" by fastforce
  note sel = CoalesceClass_sel [of sc s n, unfolded C snd_conv]
  have sc: "sc < length (SizeClasses s)" using Cons.prems by simp
  have "\<forall>k \<in> set ks. k < length (SizeClasses s')" "distinct ks" using Cons.prems sel(2) [OF sc] by auto
  from Cons.IH [OF this, of n'] sel [OF sc] Cons.prems(2) show ?case by (auto simp: C)
qed simp

lemma coalesced:
  assumes inv: "alloc_inv s"
  obtains s' where "snd (CoalesceIdleSlabs (Some s)) = Some s'" "LargeSlabs s' = LargeSlabs s"
    "\<And>k. k < nsc \<Longrightarrow> CellWidth (SizeClasses s' ! k) = CW k"
    "\<And>k. k < nsc \<Longrightarrow> slabs_of s' k = filter (\<lambda>S. SlabLive S \<noteq> 0) (slabs_of s k)"
proof -
  let ?s' = "snd (fold CoalesceClass [0 ..< nsc] (0, s))"
  have l: "\<forall>k \<in> set [0 ..< nsc]. k < length (SizeClasses s)" using inv_class(7) [OF inv] by (simp del: upt_Suc)
  note f = CoalesceClass_fold [OF l distinct_upt, of 0]
  show ?thesis
  proof (rule that)
    show "snd (CoalesceIdleSlabs (Some s)) = Some ?s'"
      by (simp add: CoalesceIdleSlabs_def case_prod_beta del: upt_Suc nsc_val)
    show "LargeSlabs ?s' = LargeSlabs s" using f by blast
  qed (use f inv_class(3) [OF inv] in \<open>simp_all del: upt_Suc nsc_val\<close>)
qed

lemma coalesced_heap:
  assumes inv: "alloc_inv s"
  shows "IsHeapAddress_alloc (snd (CoalesceIdleSlabs (Some s))) p \<longleftrightarrow>
     p \<noteq> nullptr \<and> ((\<exists>k S. holds s k S p \<and> SlabLive S \<noteq> 0)
       \<or> (\<exists>L \<in> set (LargeSlabs s). LargeBase L \<le> p \<and> p < LargeBase L + LargeSize L))"
proof -
  obtain s' where s': "snd (CoalesceIdleSlabs (Some s)) = Some s'" "LargeSlabs s' = LargeSlabs s"
    "\<And>k. k < nsc \<Longrightarrow> CellWidth (SizeClasses s' ! k) = CW k"
    "\<And>k. k < nsc \<Longrightarrow> slabs_of s' k = filter (\<lambda>S. SlabLive S \<noteq> 0) (slabs_of s k)"
    by (rule coalesced [OF inv]) (rule that)
  have cls: "slabs_of s' k \<noteq> [] \<and> FindInClass s' p k \<noteq> None \<longleftrightarrow> (\<exists>S. holds s k S p \<and> SlabLive S \<noteq> 0)" if k: "k < nsc" for k
  proof
    let ?Ss = "slabs_of s' k"
    note c = inv_class [OF inv k]
    have e: "FindInClass s' p k = FindSlab (CW k) ?Ss p 0 (int (length ?Ss) - 1)"
      using s'(3) [OF k] by (simp add: FindInClass_def Let_def)
    {
      assume "?Ss \<noteq> [] \<and> FindInClass s' p k \<noteq> None"
      then obtain si where "FindSlab (CW k) ?Ss p 0 (int (length ?Ss) - 1) = Some si" unfolding e by blast
      from FindSlab_sound [OF this] have "si < length ?Ss" "inside (CW k) (?Ss ! si) p" by auto
      moreover from nth_mem [OF this(1)] have "?Ss ! si \<in> set (slabs_of s k)" "SlabLive (?Ss ! si) \<noteq> 0"
        using s'(4) [OF k] by auto
      ultimately show "\<exists>S. holds s k S p \<and> SlabLive S \<noteq> 0" using k unfolding holds_def by blast
    next
      assume "\<exists>S. holds s k S p \<and> SlabLive S \<noteq> 0"
      then obtain S where S: "S \<in> set ?Ss" "inside (CW k) S p" using s'(4) [OF k] by (auto simp: holds_def)
      then obtain si where si: "si < length ?Ss" "?Ss ! si = S" by (auto simp: in_set_conv_nth)
      have "slabs_sorted (SB k) ?Ss" "\<forall>S \<in> set ?Ss. slab_ok (CW k) (SB k) S"
        using c(1,2) unfolding s'(4) [OF k] by (auto simp: slabs_sorted_def sorted_wrt_filter)
      from FindSlab_complete [OF this si(1), of p 0] S(2) si have "FindInClass s' p k = Some si" unfolding e by auto
      with si show "?Ss \<noteq> [] \<and> FindInClass s' p k \<noteq> None" by auto
    }
  qed
  have "FindInClasses s' p [0 ..< nsc] \<noteq> None \<longleftrightarrow> (\<exists>k < nsc. slabs_of s' k \<noteq> [] \<and> FindInClass s' p k \<noteq> None)"
    unfolding FindInClasses_None by (auto simp del: upt_Suc nsc_val)
  also have "\<dots> \<longleftrightarrow> (\<exists>k S. holds s k S p \<and> SlabLive S \<noteq> 0)"
    using cls by (metis holds_def)
  finally show ?thesis
    unfolding s'(1) IsHeapAddress_alloc_def option.case s'(2) by (auto simp: list_ex_iff simp del: upt_Suc nsc_val)
qed

text \<open>An address lies in one slab at most, and then in no large block.\<close>

lemma holds_once:
  assumes inv: "alloc_inv s" and S: "holds s k S p" and T: "holds s l T p"
  shows "S = T"
proof -
  have r: "unat p \<in> slab_range (SB k) S" "unat p \<in> slab_range (SB l) T"
    using S T inv_class(2) [OF inv] by (auto simp: holds_def intro: inside_range)
  have "k = l"
  proof (rule ccontr)
    assume "k \<noteq> l"
    then have "slab_range (SB k) S \<inter> slab_range (SB l) T = {}"
      using inv S T by (simp add: alloc_inv_def apart_def holds_def)
    with r show False by blast
  qed
  moreover from S T this obtain i j where "i < length (slabs_of s k)" "S = slabs_of s k ! i"
      "j < length (slabs_of s k)" "T = slabs_of s k ! j"
    by (auto simp: holds_def in_set_conv_nth)
  moreover have "k < nsc" using S by (simp add: holds_def)
  ultimately show ?thesis
    using sorted_slabs_disjoint [OF inv_class(1) [OF inv], of k i j] r by blast
qed

lemma holds_not_large:
  assumes inv: "alloc_inv s" and S: "holds s k S p" and L: "L \<in> set (LargeSlabs s)"
  shows "\<not> (LargeBase L \<le> p \<and> p < LargeBase L + LargeSize L)"
proof
  assume p: "LargeBase L \<le> p \<and> p < LargeBase L + LargeSize L"
  have "unat (LargeBase L + LargeSize L) = unat (LargeBase L) + unat (LargeSize L)"
    using inv L by (subst unat_add_lem [THEN iffD1]) (auto simp: alloc_inv_def large_ok_def)
  then have "unat p \<in> large_range L" using p by (auto simp: large_range_def word_le_nat_alt word_less_nat_alt)
  moreover have "unat p \<in> slab_range (SB k) S"
    using S inv_class(2) [OF inv] by (auto simp: holds_def intro: inside_range)
  moreover have "slab_range (SB k) S \<inter> large_range L = {}"
    using inv S L by (simp add: alloc_inv_def apart_def holds_def)
  ultimately show False by blast
qed

lemma coalesced_keeps:
  assumes inv: "alloc_inv s" and S: "holds s k S p" and p: "p \<noteq> nullptr"
  shows "IsHeapAddress_alloc (snd (CoalesceIdleSlabs (Some s))) p \<longleftrightarrow> SlabLive S \<noteq> 0"
  using coalesced_heap [OF inv, of p] holds_once [OF inv S] holds_not_large [OF inv S] S p by blast

lemma holds_heap:
  assumes inv: "alloc_inv s" and S: "holds s k S p" and p: "p \<noteq> nullptr"
  shows "IsHeapAddress_alloc (Some s) p"
proof -
  have k: "k < nsc" using S by (simp add: holds_def)
  obtain si where si: "si < length (slabs_of s k)" "inside (CW k) (slabs_of s k ! si) p"
    using S by (auto simp: holds_def in_set_conv_nth)
  from FindInClasses_exact [OF inv k FindInClass_complete [OF inv k si]] p show ?thesis
    by (simp add: IsHeapAddress_alloc_def del: upt_Suc nsc_val)
qed

section \<open>An allocation from a free list\<close>

lemma AllocateRaw_recycles:
  assumes inv: "alloc_inv s" and sc: "sc < nsc" and fits: "class_fits s Class sc"
    and req: "SizeToSizeClass (RoundedSize (if Size = 0 then 1 else Size) Align) = sc"
    and pool: "ClassPoolFor Class sc s = Inr (r, s1)" and free: "ClassFree (get_pool s1 r) = C # rest"
  obtains s' where "AllocateRaw b Storage Size Align Class (Some s) = Inr (C, s')" "takes_cell sc C s s'"
    "\<And>k. k < nsc \<Longrightarrow> slabs_of s' k = slabs_of s k"
proof -
  obtain r' t where r: "ClassPoolFor Class sc s = Inr (r', t)" "alloc_inv t" "pool_for t Class sc r'"
    "SizeClasses t = SizeClasses s" "LargeSlabs t = LargeSlabs s" "\<And>k. free_mset k t = free_mset k s"
    by (rule ClassPoolFor_spec [OF inv sc fits]) (rule that)
  have e: "r' = r" "t = s1" using r(1) pool by auto
  let ?s' = "upd_size sc (\<lambda>P. P\<lparr>TotalLiveCells := TotalLiveCells P + 1\<rparr>)
     (upd_pool r (\<lambda>P. P\<lparr>ClassFree := rest, PoolLive := PoolLive P + 1\<rparr>) s1)"
  have "live_cells k s1 = live_cells k s" for k using r(4,6) by (simp add: live_cells_def cells_def e)
  with pop_class_free [OF r(2) sc r(3), unfolded e, OF free] r(5) sc have takes: "takes_cell sc C s ?s'"
    by (auto intro: takes_cell_trans simp: e simp del: nsc_val)
  have "AllocateRaw b Storage Size Align Class (Some s) = Inr (C, ?s')"
    using req pool free sc by (simp add: AllocateRaw_def Let_def EnsureStateInitialised_def)
  moreover note takes
  moreover have "slabs_of ?s' k = slabs_of s k" if "k < nsc" for k
    using inv_class(7) [OF inv sc] r(4) by (simp add: e)
  ultimately show ?thesis by (rule that)
qed

section \<open>A run that recycles a cell\<close>

definition eighth :: "FSizeClassPool \<Rightarrow> FClassPool list \<Rightarrow> FState" where
  "eighth P pools = FState_initial\<lparr>SizeClasses := (SizeClasses FState_initial)[8 := P], ClassPools := pools\<rparr>"

lemma upt9: "[0 ..< nsc] = [0, 1, 2, 3, 4, 5, 6, 7, 8]" by (simp add: upt_rec)

lemma initial_sizes: "length (SizeClasses FState_initial) = 10" 
  "SizeClasses FState_initial ! 8 = \<lparr>CellWidth = 1024, SlabBytes = 131072, Slabs = [], TotalCells = 0, TotalLiveCells = 0\<rparr>"
  "k < 10 \<Longrightarrow> Slabs (SizeClasses FState_initial ! k) = []" "ClassPools FState_initial = []" "LargeSlabs FState_initial = []"
  by (simp_all add: FState_initial_def kFXObjectAllocatorNumSizeClasses_def kFXObjectAllocatorSizeClasses_def kFXObjectAllocatorSlabBytes_def del: upt_Suc)

lemma eighth_sel [simp]:
  "ClassPools (eighth P ps) = ps" "LargeSlabs (eighth P ps) = []"
  "SizeClasses (eighth P ps) ! 8 = P"
  "k < 10 \<Longrightarrow> k \<noteq> 8 \<Longrightarrow> Slabs (SizeClasses (eighth P ps) ! k) = []"
  "upd_size 8 f (eighth P ps) = eighth (f P) ps"
  "upd_pool (ClassPool 0) g (eighth P [q]) = eighth P [g q]"
  "get_pool (eighth P [q]) (ClassPool 0) = q"
  by (simp_all add: eighth_def initial_sizes nth_list_update upd_size_def upd_pool_def get_pool_def)

lemma eighth_find:
  assumes "Slabs P = [S]" "CellWidth P = 1024" 
  shows "SlabBase S \<le> p \<Longrightarrow> p < SlabBase S + word_of_nat (NumCells S) * 1024 \<Longrightarrow> FindInClasses (eighth P ps) p [0 ..< nsc] = Some (8, 0)"
  unfolding upt9 using assms by (simp add: FindInClass_def Let_def FindSlab.simps SlabEnd_def not_le not_less)

definition pool8 :: "int \<Rightarrow> ptr list \<Rightarrow> FClassPool" where
  "pool8 n fr = \<lparr>PoolClass = OwnedBy 7, PoolSizeClass = 8, ClassFree = fr, PoolLive = n, PoolOwned = 1\<rparr>"

definition class8 :: "int \<Rightarrow> int \<Rightarrow> FSizeClassPool" where
  "class8 n m = \<lparr>CellWidth = 1024, SlabBytes = 131072, Slabs = [\<lparr>SlabBase = 0x10000, SlabSizeClass = 8, NumCells = 128, SlabLive = n,
     Unassigned = map (\<lambda>ci. 0x10000 + word_of_nat ci * 1024) [Suc 0 ..< 128], OwnerClass = OwnedBy 7 # replicate 127 Unowned\<rparr>],
     TotalCells = 128, TotalLiveCells = m\<rparr>"

lemma eighth_class [simp]: "PoolClass q = OwnedBy 7 \<Longrightarrow> FindClassPoolUnderLock (eighth P [q]) 7 = Some 0"
  by (simp add: FindClassPoolUnderLock_def)

lemma SizeToSizeClass_1024: "SizeToSizeClass 1024 = 8"
  unfolding SizeToSizeClass_def upt9 by (simp add: kFXObjectAllocatorSizeClasses_def)

lemma pool8_sel: "ClassFree (pool8 n fr) = fr" "PoolClass (pool8 n fr) = OwnedBy 7"
  by (simp_all add: pool8_def)

lemma first:
  assumes "m = None \<or> m = Some FState_initial"
  shows "AllocateRaw b 0x10000 1024 0 7 m = Inr (0x10000, eighth (class8 1 1) [pool8 1 []])"
proof -
  have m: "EnsureStateInitialised m = FState_initial" using assms by (auto simp: EnsureStateInitialised_def)
  have r: "[0 ..< 128] = 0 # [Suc 0 ..< 128]" "replicate 128 Unowned = Unowned # replicate 127 Unowned"
    by (simp_all add: upt_conv_Cons numeral_eq_Suc del: upt_Suc)
  let ?q = "\<lparr>PoolClass = OwnedBy 7, PoolSizeClass = 8, ClassFree = [], PoolLive = 0, PoolOwned = 0\<rparr>"
  let ?P = "\<lparr>CellWidth = 1024, SlabBytes = 131072, Slabs = [], TotalCells = 0, TotalLiveCells = 0\<rparr>"
  have reg: "RegisterClassPoolUnderLock 7 8 FState_initial = eighth ?P [?q]"
  proof -
    have "(SizeClasses FState_initial)[8 := ?P] = SizeClasses FState_initial"
      using initial_sizes(1,2) by (metis list_update_id)
    then show ?thesis by (simp add: RegisterClassPoolUnderLock_def eighth_def initial_sizes)
  qed
  have cp: "ClassPoolFor 7 8 FState_initial = Inr (ClassPool 0, eighth ?P [?q])"
    by (simp add: ClassPoolFor_def FindClassPoolUnderLock_def initial_sizes reg)
  define R where "R = map (\<lambda>ci. (0x10000 :: u64) + word_of_nat ci * 1024) [Suc 0 ..< 128]"
  define OC where "OC = replicate 127 Unowned"
  have N: "NewSlab 0x10000 8 ?P = \<lparr>SlabBase = 0x10000, SlabSizeClass = 8, NumCells = 128, SlabLive = 0,
      Unassigned = 0x10000 # R, OwnerClass = Unowned # OC\<rparr>"
    by (simp add: NewSlab_def Let_def R_def OC_def r del: upt_Suc)
  have g: "GrowSizeClass 0x10000 8 (eighth ?P [?q]) = eighth (?P\<lparr>Slabs := [\<lparr>SlabBase = 0x10000, SlabSizeClass = 8, NumCells = 128, SlabLive = 0,
      Unassigned = 0x10000 # R, OwnerClass = Unowned # OC\<rparr>], TotalCells := 128\<rparr>) [?q]"
    by (simp add: GrowSizeClass_def N Let_def InsertSlab_def)
  show ?thesis
    unfolding AllocateRaw_def Let_def m RoundedSize_def
    by (simp add: SizeToSizeClass_1024 cp g FindDonor_def TakeUnassigned_def Let_def xcheck_def in_range_def class8_def pool8_def R_def [symmetric] OC_def [symmetric])
qed

lemma second: "Deallocate b 0x10000 (Some (eighth (class8 1 1) [pool8 1 []])) = Inr (Some (eighth (class8 0 0) [pool8 0 [0x10000]]))"
proof -
  have f: "FindInClasses (eighth (class8 1 1) [pool8 1 []]) 0x10000 [0 ..< nsc] = Some (8, 0)"
    by (rule eighth_find, simp add: class8_def, simp_all add: class8_def)
  show ?thesis
    unfolding Deallocate_def option.case f
    by (simp add: PushClassFree_def Let_def xcheck_def in_range_def class8_def pool8_def del: upt_Suc)
qed

section \<open>A first request\<close>

lemma demo_request:
  "RoundedSize 1000 16 = 1008" "block_bytes 1008 = 131072" "SizeToSizeClass 1008 = 8" "block_bytes 1024 = 131072"
  "n < 2 ^ 63 \<Longrightarrow> fresh FState_initial 0x10000 n" "class_fits FState_initial c k" "blocks FState_initial = {}"
proof -
  have none: "k < 10 \<Longrightarrow> slabs_of FState_initial k = []" "LargeSlabs FState_initial = []" for k
    using initial_sizes by auto
  show "RoundedSize 1000 16 = 1008" by (simp add: RoundedSize_def)
  show c: "SizeToSizeClass 1008 = 8"
    unfolding SizeToSizeClass_def upt9 by (simp add: kFXObjectAllocatorSizeClasses_def)
  show "block_bytes 1008 = 131072" "block_bytes 1024 = 131072"
    by (simp_all add: block_bytes_def c SizeToSizeClass_1024 kFXObjectAllocatorSlabBytes_def)
  show "n < 2 ^ 63 \<Longrightarrow> fresh FState_initial 0x10000 n" by (simp add: fresh_def none)
  show "class_fits FState_initial c k" by (simp add: class_fits_def initial_sizes)
  show "blocks FState_initial = {}" by (auto simp: blocks_def live_cells_def cells_def none)
qed

lemma first_blocks:
  "alloc_inv (eighth (class8 1 1) [pool8 1 []]) \<and> (\<exists>n. blocks (eighth (class8 1 1) [pool8 1 []]) = {(0x10000, n)})"
proof -
  obtain C n s' where s': "AllocateRaw Checked 0x10000 1024 0 7 (Some FState_initial) = Inr (C, s')" "alloc_inv s'" "blocks s' = {(C, n)}"
    using AllocateRaw_spec [OF initial_inv, of 1024 1024 0 7 "0x10000" Checked] demo_request(4-7) by (auto simp: RoundedSize_def)
  with first [of "Some FState_initial" Checked] show ?thesis by auto
qed

section \<open>The properties\<close>

text \<open>
  C9: \<open>AllocateRaw\<close> returns a block that was not live, at least as large as the request rounded to its
  alignment, and the live blocks gain exactly it; the allocator's invariant is kept.
\<close>

theorem allocate_adds_fresh_block:
  assumes "alloc_inv s"
    and "Req = RoundedSize (if Size = 0 then 1 else Size) Align"
    and "SizeToSizeClass Req < kFXObjectAllocatorNumNormalClasses \<longrightarrow> class_fits s Class (SizeToSizeClass Req)"
    and "fresh s Storage (block_bytes Req)"
  shows "\<exists>C n s'. AllocateRaw b Storage Size Align Class (Some s) = Inr (C, s') \<and> alloc_inv s'
     \<and> C \<notin> fst ` blocks s \<and> unat Req \<le> n \<and> blocks s' = insert (C, n) (blocks s)"
proof -
  let ?r = "\<lparr>reqStorage = Storage, reqSize = Size, reqAlign = Align, reqClass = Class\<rparr>"
  have q: "req_rounded ?r = Req" unfolding req_rounded_def assms(2) by (simp cong: if_cong)
  have "request_ok ?r s" unfolding request_ok_def q using assms(3,4) by simp
  from xalloc.alloc_law [OF assms(1) this, of b] show ?thesis unfolding request_step_def q by simp
qed

theorem allocate_adds_fresh_block_witness:
  "\<exists>C n s'. AllocateRaw Checked 0x10000 1000 16 7 (Some FState_initial) = Inr (C, s') \<and> alloc_inv s' \<and> 1008 \<le> n \<and> blocks s' = {(C, n)}"
  using allocate_adds_fresh_block [OF initial_inv, of 1008 1000 16 7 "0x10000" Checked] demo_request(1-3,5-7) by simp

text \<open>
  C10: \<open>Deallocate\<close> of a live block removes exactly that block and keeps the invariant; a pointer that
  is neither in a cell of a slab nor the base of a large block makes it abort.
\<close>

theorem deallocate_removes_block:
  assumes "alloc_inv s"
  shows "(p \<in> fst ` blocks s \<longrightarrow>
      (\<exists>s'. Deallocate b p (Some s) = Inr (Some s') \<and> alloc_inv s' \<and> blocks s' = {B \<in> blocks s. fst B \<noteq> p}))
    \<and> (\<not> IsHeapAddress_alloc (Some s) p \<and> p \<noteq> nullptr \<longrightarrow> Deallocate b p (Some s) = Inl Aborted)"
proof (intro conjI impI)
  assume "p \<in> fst ` blocks s"
  then show "\<exists>s'. Deallocate b p (Some s) = Inr (Some s') \<and> alloc_inv s' \<and> blocks s' = {B \<in> blocks s. fst B \<noteq> p}"
    unfolding blocks_ptrs by (rule Deallocate_spec [OF assms])
next
  assume p: "\<not> IsHeapAddress_alloc (Some s) p \<and> p \<noteq> nullptr"
  then have "FindInClasses s p [0 ..< nsc] = None"
    by (cases "FindInClasses s p [0 ..< nsc]") (auto simp: IsHeapAddress_alloc_def simp del: upt_Suc nsc_val)
  moreover have "LargeBase L \<noteq> p" if L: "L \<in> set (LargeSlabs s)" for L
  proof
    assume "LargeBase L = p"
    then have "unat p \<in> large_range L" using large_base_range [OF _ L] assms by (auto simp: alloc_inv_def)
    with L p show False unfolding IsHeapAddress_spec [OF assms] by blast
  qed
  then have "find (\<lambda>i. LargeBase (LargeSlabs s ! i) = p) [0 ..< length (LargeSlabs s)] = None"
    by (auto simp: find_None_iff)
  ultimately show "Deallocate b p (Some s) = Inl Aborted" using p by (simp add: Deallocate_def)
qed

theorem deallocate_removes_block_witness:
  "\<exists>s s'. alloc_inv s \<and> fst ` blocks s = {0x10000} \<and> Deallocate Checked 0x10000 (Some s) = Inr (Some s') \<and> blocks s' = {}"
proof -
  from first_blocks obtain s n where s: "alloc_inv s" "blocks s = {(0x10000, n)}" by blast
  with deallocate_removes_block [OF s(1), of "0x10000" Checked] show ?thesis by auto
qed

text \<open>
  C11: a sequence of requests and releases, each allowed in the state it meets, runs to its end, and
  then no two live blocks overlap.
\<close>

theorem live_blocks_never_overlap:
  assumes "obeys (block_ok blocks request_ok) (block_step (request_step b) (release_step b)) ops FState_initial"
  shows "\<exists>s. run_steps (block_step (request_step b) (release_step b)) ops FState_initial = Inr s
     \<and> (\<forall>B \<in> blocks s. \<forall>D \<in> blocks s. fst B \<noteq> fst D \<longrightarrow> extent B \<inter> extent D = {})"
  using xalloc.runs [OF initial_inv assms] xalloc.apart_law by blast

theorem live_blocks_never_overlap_witness:
  "\<exists>s. run_steps (block_step (request_step Checked) (release_step Checked))
       [AllocOp \<lparr>reqStorage = 0x10000, reqSize = 1024, reqAlign = 0, reqClass = 7\<rparr>, FreeOp 0x10000] FState_initial = Inr s
     \<and> (\<forall>B \<in> blocks s. \<forall>D \<in> blocks s. fst B \<noteq> fst D \<longrightarrow> extent B \<inter> extent D = {})"
proof (rule live_blocks_never_overlap)
  let ?r = "\<lparr>reqStorage = 0x10000, reqSize = 1024, reqAlign = 0, reqClass = 7\<rparr> :: alloc_request"
  have "request_ok ?r FState_initial"
    using demo_request(4-6) by (simp add: request_ok_def req_rounded_def RoundedSize_def)
  moreover have "request_step Checked ?r FState_initial = Inr (0x10000, eighth (class8 1 1) [pool8 1 []])"
    by (simp add: request_step_def first)
  moreover obtain n where "blocks (eighth (class8 1 1) [pool8 1 []]) = {(0x10000, n)}" using first_blocks by blast
  ultimately show "obeys (block_ok blocks request_ok) (block_step (request_step Checked) (release_step Checked))
      [AllocOp ?r, FreeOp 0x10000] FState_initial"
    by (simp add: block_ok_def block_step_def split: sum.split)
qed

text \<open>
  \<open>IsHeapAddress\<close>, by its binary search over the slabs and its scan of the large blocks, holds
  of exactly the addresses inside a cell of a slab or inside a large block.
\<close>

theorem is_heap_address_exact:
  assumes "alloc_inv s"
  shows "IsHeapAddress_alloc (Some s) p \<longleftrightarrow>
     (\<exists>sc < kFXObjectAllocatorNumNormalClasses. \<exists>C \<in> set (cells sc s). unat p \<in> extent (C, unat (kFXObjectAllocatorSizeClasses ! sc)))
     \<or> (\<exists>L \<in> set (LargeSlabs s). unat p \<in> extent (LargeBase L, unat (LargeSize L)))"
  using IsHeapAddress_spec [OF assms, of p] by (simp add: extent_def large_range_def Bex_def)

theorem is_heap_address_exact_witness:
  "\<exists>s. alloc_inv s \<and> fst ` blocks s = {0x10000} \<and> IsHeapAddress_alloc (Some s) 0x10000"
proof -
  from first_blocks obtain s n where s: "alloc_inv s" "blocks s = {(0x10000, n)}" by blast
  have "(0x10000, n) \<in> blocks s" using s(2) by simp
  then consider (c) sc where "sc < nsc" "0x10000 \<in> live_cells sc s"
    | (l) L where "L \<in> set (LargeSlabs s)" "LargeBase L = 0x10000"
    by (auto simp: blocks_def)
  then have "(\<exists>sc < nsc. \<exists>C \<in> set (cells sc s). unat (0x10000 :: ptr) \<in> extent (C, unat (CW sc)))
      \<or> (\<exists>L \<in> set (LargeSlabs s). unat (0x10000 :: ptr) \<in> extent (LargeBase L, unat (LargeSize L)))"
  proof cases
    case c
    have "unat (0x10000 :: ptr) \<in> extent (0x10000, unat (CW sc))" using sizes(1) [OF c(1)] by (simp add: extent_def)
    with c live_in_cells show ?thesis by blast
  next
    case l
    then have "0 < unat (LargeSize L)" using s(1) by (auto simp: alloc_inv_def large_ok_def)
    with l show ?thesis by (intro disjI2 bexI [OF _ l(1)]) (simp add: extent_def)
  qed
  with is_heap_address_exact [OF s(1), of "0x10000"] s show ?thesis by auto
qed

text \<open>
  \<open>SizeToSizeClass\<close> returns the first class whose width is not below the size, the number of
  normal classes when there is none: the fit rule in its loop never rejects a class.
\<close>

theorem size_class_is_first_fit:
  "SizeToSizeClass Size =
     (if Size = 0 then 0
      else length (takeWhile (\<lambda>W. W < Size) (take kFXObjectAllocatorNumNormalClasses kFXObjectAllocatorSizeClasses)))"
  using SizeToSizeClass_first_fit by (simp add: SizeToSizeClass_def)

text \<open>
  C12: an allocation that is served from a class's free list does not count its cell in the slab:
  every slab keeps the live count it had.  \<open>CoalesceIdleSlabs\<close> trusts that count, so the object that
  was just handed out stays on the heap exactly if the count was not zero before the allocation;
  when the other cells of its slab are unassigned or free, its slab is released under it.
\<close>

theorem coalesce_releases_live_object:
  assumes "alloc_inv s" "sc < kFXObjectAllocatorNumNormalClasses" "class_fits s Class sc"
    and "SizeToSizeClass (RoundedSize (if Size = 0 then 1 else Size) Align) = sc"
    and "ClassPoolFor Class sc s = Inr (r, s1)" "ClassFree (get_pool s1 r) = C # rest"
  shows "\<exists>s' S. AllocateRaw b Storage Size Align Class (Some s) = Inr (C, s') \<and> alloc_inv s'
     \<and> C \<in> fst ` blocks s' \<and> IsHeapAddress_alloc (Some s') C
     \<and> (\<forall>k < kFXObjectAllocatorNumNormalClasses. Slabs (SizeClasses s' ! k) = Slabs (SizeClasses s ! k))
     \<and> S \<in> set (Slabs (SizeClasses s ! sc)) \<and> SlabBase S \<le> C \<and> C < SlabEnd (CellWidth (SizeClasses s ! sc)) S
     \<and> (IsHeapAddress_alloc (snd (CoalesceIdleSlabs (Some s'))) C \<longleftrightarrow> SlabLive S \<noteq> 0)"
proof -
  note inv = assms(1) and sc = assms(2)
  obtain s' where s': "AllocateRaw b Storage Size Align Class (Some s) = Inr (C, s')" "takes_cell sc C s s'"
    "\<And>k. k < nsc \<Longrightarrow> slabs_of s' k = slabs_of s k"
    by (rule AllocateRaw_recycles [OF assms]) (rule that)
  have t: "alloc_inv s'" "C \<in> live_cells sc s'" using s'(2) by (auto simp: takes_cell_def)
  obtain S where S: "S \<in> set (slabs_of s' sc)" "slab_ok (CW sc) (SB sc) S" "C \<in> set (cells_of (CW sc) S)"
    "unat C \<in> slab_range (SB sc) S"
    by (rule cell_range [OF t(1) sc live_in_cells [OF t(2)]]) (rule that)
  have h: "holds s' sc S C" using S(1) cell_inside [OF S(2,3)] sc by (simp add: holds_def)
  have "C \<noteq> nullptr" using S(2,4) unat_gt_0 [of "SlabBase S"] by (auto simp: slab_ok_def slab_range_def)
  note k = coalesced_keeps [OF t(1) h this] holds_heap [OF t(1) h this]
  have "C \<in> fst ` blocks s'" using t(2) sc unfolding blocks_ptrs live_ptrs_def by blast
  moreover have "SlabBase S \<le> C" "C < SlabEnd (CellWidth (SizeClasses s ! sc)) S" "S \<in> set (slabs_of s sc)"
    using h inv_class(3) [OF inv sc] s'(3) [OF sc] by (auto simp: holds_def inside_def)
  ultimately show ?thesis using s'(1,3) t(1) k by blast
qed

theorem coalesce_releases_live_object_witness:
  "\<exists>s1 s2 s3. AllocateRaw Checked 0x10000 1024 0 7 None = Inr (0x10000, s1)
     \<and> Deallocate Checked 0x10000 (Some s1) = Inr (Some s2)
     \<and> AllocateRaw Checked 0x90000 1024 0 7 (Some s2) = Inr (0x10000, s3)
     \<and> 0x10000 \<in> fst ` blocks s3 \<and> \<not> IsHeapAddress_alloc (snd (CoalesceIdleSlabs (Some s3))) 0x10000"
proof -
  let ?s1 = "eighth (class8 1 1) [pool8 1 []]" and ?s2 = "eighth (class8 0 0) [pool8 0 [0x10000]]"
  obtain n where f: "alloc_inv ?s1" "blocks ?s1 = {(0x10000, n)}" using first_blocks by blast
  then obtain s where "Deallocate Checked 0x10000 (Some ?s1) = Inr (Some s)" "alloc_inv s"
    using Deallocate_spec [of ?s1 "0x10000" Checked] by (auto simp flip: blocks_ptrs)
  then have inv: "alloc_inv ?s2" by (simp add: second)
  have fits: "class_fits ?s2 7 8" by (simp add: class_fits_def pool8_def)
  have cp: "ClassPoolFor 7 8 ?s2 = Inr (ClassPool 0, ?s2)" by (simp add: ClassPoolFor_def pool8_sel)
  have free: "ClassFree (get_pool ?s2 (ClassPool 0)) = [0x10000]" by (simp add: pool8_sel)
  have "SizeToSizeClass (RoundedSize (if (1024 :: u64) = 0 then 1 else 1024) 0) = 8"
    by (simp add: RoundedSize_def SizeToSizeClass_1024)
  from coalesce_releases_live_object [OF inv _ fits this cp free, of Checked "0x90000"]
  obtain s3 S where s3: "AllocateRaw Checked 0x90000 1024 0 7 (Some ?s2) = Inr (0x10000, s3)" "0x10000 \<in> fst ` blocks s3"
    "S \<in> set (slabs_of ?s2 8)" "IsHeapAddress_alloc (snd (CoalesceIdleSlabs (Some s3))) 0x10000 \<longleftrightarrow> SlabLive S \<noteq> 0"
    by auto
  have "SlabLive S = 0" using s3(3) by (simp add: class8_def)
  with s3 first [of None Checked] second [of Checked] show ?thesis by blast
qed

end
