(* ===== verification/DateTime.thy ===== *)
theory DateTime
  imports XPrelude "HOL-Library.Signed_Division" "HOL-Library.Char_ord"
begin

text \<open>
  Dates: the proleptic Gregorian conversions of \<open>XDateTimeAlgorithms\<close>, its ISO 8601 parser and
  printer, and the classes \<open>FTimespan\<close> and \<open>FDateTime\<close> over a count of microseconds.  Signed
  integers are integers: division is C's, which truncates, casts wrap, and a signed result that
  does not fit is undefined (\<open>None\<close>).  A cursor into the text is the text that is left.
\<close>

section \<open>Casts\<close>

definition to_u32 :: "int \<Rightarrow> int" where "to_u32 x = x mod 2 ^ 32"
definition to_i32 :: "int \<Rightarrow> int" where "to_i32 x = (x + 2 ^ 31) mod 2 ^ 32 - 2 ^ 31"
definition fits_i64 :: "int \<Rightarrow> bool" where "fits_i64 x \<longleftrightarrow> - (2 ^ 63) \<le> x \<and> x < 2 ^ 63"
definition i64 :: "int \<Rightarrow> int option" where "i64 x = (if fits_i64 x then Some x else None)"

section \<open>Days and civil dates\<close>

definition days_from_civil :: "int \<Rightarrow> int \<Rightarrow> int \<Rightarrow> int" where
  "days_from_civil y0 m d =
     (let y = (if m \<le> 2 then y0 - 1 else y0);
          era = (if y \<ge> 0 then y else y - 399) sdiv 400;
          yoe = to_u32 (y - era * 400);
          doy = to_u32 (to_u32 (153 * to_u32 (m + (if m > 2 then - 3 else 9)) + 2) div 5 + to_u32 (d - 1));
          doe = to_u32 (yoe * 365 + yoe div 4 - yoe div 100 + doy)
      in era * 146097 + doe - 719468)"

definition civil_from_days :: "int \<Rightarrow> int \<times> int \<times> int" where
  "civil_from_days z0 =
     (let z = z0 + 719468;
          era = (if z \<ge> 0 then z else z - 146096) sdiv 146097;
          doe = to_u32 (z - era * 146097);
          yoe = to_u32 (doe - doe div 1460 + doe div 36524 - doe div 146096) div 365;
          y = to_i32 yoe + to_i32 (era * 400);
          doy = to_u32 (doe - (365 * yoe + yoe div 4 - yoe div 100));
          mp = to_u32 (5 * doy + 2) div 153;
          OutDay = to_i32 (to_u32 (doy - to_u32 (153 * mp + 2) div 5 + 1));
          OutMonth = to_i32 (if mp < 10 then to_u32 (mp + 3) else to_u32 (mp - 9))
      in (y + (if OutMonth \<le> 2 then 1 else 0), OutMonth, OutDay))"

definition last_day_of_month :: "int \<Rightarrow> int \<Rightarrow> int" where
  "last_day_of_month y m =
     (if m = 2 then (if (y smod 4 = 0 \<and> y smod 100 \<noteq> 0) \<or> y smod 400 = 0 then 29 else 28)
      else if m = 4 \<or> m = 6 \<or> m = 9 \<or> m = 11 then 30 else 31)"

section \<open>Parsing\<close>

record ParsedComponents =
  cYear :: int
  cMonth :: int
  cDay :: int
  cHour :: int
  cMinute :: int
  cSecond :: int
  cMicrosecond :: int
  cUtcOffsetSec :: int

datatype EParseStatus = Ok | Malformed | OverflowComponent

abbreviation code :: "char \<Rightarrow> int" where "code C \<equiv> of_char C"

definition is_digit :: "char \<Rightarrow> bool" where
  "is_digit C \<longleftrightarrow> \<not> (code C < code CHR ''0'' \<or> code C > code CHR ''9'')"

fun ParseDigitsLoop :: "nat \<Rightarrow> int \<Rightarrow> string \<Rightarrow> (int \<times> string) option" where
  "ParseDigitsLoop 0 Acc Cursor = Some (Acc, Cursor)"
| "ParseDigitsLoop (Suc n) Acc [] = None"
| "ParseDigitsLoop (Suc n) Acc (C # Cursor) =
     (if \<not> is_digit C then None else ParseDigitsLoop n (Acc * 10 + (code C - code CHR ''0'')) Cursor)"

definition ParseDigits :: "nat \<Rightarrow> string \<Rightarrow> (int \<times> string) option" where
  "ParseDigits N Cursor = (if length Cursor < N then None else ParseDigitsLoop N 0 Cursor)"

fun ExpectChar :: "char \<Rightarrow> string \<Rightarrow> string option" where
  "ExpectChar Expected [] = None"
| "ExpectChar Expected (C # Cursor) = (if C \<noteq> Expected then None else Some Cursor)"

text \<open>At most six digits count, further ones are skipped.\<close>

fun FracLoop :: "nat \<Rightarrow> nat \<Rightarrow> int \<Rightarrow> string \<Rightarrow> nat \<times> int \<times> string" where
  "FracLoop 0 Count Acc Cursor = (Count, Acc, Cursor)"
| "FracLoop (Suc n) Count Acc [] = (Count, Acc, [])"
| "FracLoop (Suc n) Count Acc (C # Cursor) =
     (if is_digit C then FracLoop n (Suc Count) (Acc * 10 + (code C - code CHR ''0'')) Cursor
      else (Count, Acc, C # Cursor))"

definition ParseFractionalMicros :: "string \<Rightarrow> EParseStatus \<times> int \<times> string" where
  "ParseFractionalMicros Cursor =
     (case Cursor of
        [] \<Rightarrow> (Ok, 0, [])
      | C # rest \<Rightarrow>
          if C \<noteq> CHR ''.'' \<and> C \<noteq> CHR '','' then (Ok, 0, Cursor)
          else let (Count, Acc, s) = FracLoop 6 0 0 rest in
            if Count = 0 then (Malformed, 0, s)
            else (Ok, Acc * 10 ^ (6 - Count), dropWhile is_digit s))"

definition ParseTimezone :: "string \<Rightarrow> EParseStatus \<times> int \<times> string" where
  "ParseTimezone Cursor =
     (case Cursor of
        [] \<Rightarrow> (Malformed, 0, [])
      | C # rest \<Rightarrow>
          if C = CHR ''Z'' then (Ok, 0, rest)
          else if C \<noteq> CHR ''+'' \<and> C \<noteq> CHR ''-'' then (Malformed, 0, Cursor)
          else let Sign = (if C = CHR ''+'' then 1 else - 1) in
            case ParseDigits 2 rest of
              None \<Rightarrow> (Malformed, 0, rest)
            | Some (OffsetHr, s1) \<Rightarrow>
                (case ExpectChar CHR '':'' s1 of
                   None \<Rightarrow> (Malformed, 0, s1)
                 | Some s2 \<Rightarrow>
                     (case ParseDigits 2 s2 of
                        None \<Rightarrow> (Malformed, 0, s2)
                      | Some (OffsetMin, s3) \<Rightarrow>
                          if OffsetHr > 23 \<or> OffsetMin > 59 then (OverflowComponent, 0, s3)
                          else (Ok, Sign * (OffsetHr * 3600 + OffsetMin * 60), s3))))"

text \<open>
  \<open>ParseIso8601Components\<close> is a sequence of steps over the cursor and the components read so far;
  the first step whose status is not \<open>Ok\<close> ends it.
\<close>

type_synonym parse_state = "string \<times> ParsedComponents"

definition DigitsStep :: "nat \<Rightarrow> (int \<Rightarrow> ParsedComponents \<Rightarrow> ParsedComponents) \<Rightarrow> parse_state \<Rightarrow> EParseStatus \<times> parse_state" where
  "DigitsStep N set_field = (\<lambda>(s, Out). case ParseDigits N s of
     None \<Rightarrow> (Malformed, (s, Out)) | Some (v, s') \<Rightarrow> (Ok, (s', set_field v Out)))"

definition CharStep :: "char \<Rightarrow> parse_state \<Rightarrow> EParseStatus \<times> parse_state" where
  "CharStep C = (\<lambda>(s, Out). case ExpectChar C s of None \<Rightarrow> (Malformed, (s, Out)) | Some s' \<Rightarrow> (Ok, (s', Out)))"

definition FracStep :: "parse_state \<Rightarrow> EParseStatus \<times> parse_state" where
  "FracStep = (\<lambda>(s, Out). case ParseFractionalMicros s of (st, v, s') \<Rightarrow> (st, (s', Out\<lparr>cMicrosecond := v\<rparr>)))"

definition ZoneStep :: "parse_state \<Rightarrow> EParseStatus \<times> parse_state" where
  "ZoneStep = (\<lambda>(s, Out). case ParseTimezone s of (st, v, s') \<Rightarrow> (st, (s', Out\<lparr>cUtcOffsetSec := v\<rparr>)))"

definition EndStep :: "parse_state \<Rightarrow> EParseStatus \<times> parse_state" where
  "EndStep = (\<lambda>(s, Out). (if s \<noteq> [] then Malformed else Ok, (s, Out)))"

definition RangeStep :: "parse_state \<Rightarrow> EParseStatus \<times> parse_state" where
  "RangeStep = (\<lambda>(s, Out).
     (if cMonth Out < 1 \<or> cMonth Out > 12 then OverflowComponent
      else let MaxDay = last_day_of_month (cYear Out) (cMonth Out) in
        if cDay Out < 1 \<or> cDay Out > MaxDay then OverflowComponent
        else if cHour Out < 0 \<or> cHour Out > 23 then OverflowComponent
        else if cMinute Out < 0 \<or> cMinute Out > 59 then OverflowComponent
        else if cSecond Out < 0 \<or> cSecond Out > 59 then OverflowComponent
        else if cMicrosecond Out < 0 \<or> cMicrosecond Out > 999999 then OverflowComponent
        else Ok, (s, Out)))"

fun run_parse :: "(parse_state \<Rightarrow> EParseStatus \<times> parse_state) list \<Rightarrow> parse_state \<Rightarrow> EParseStatus \<times> parse_state" where
  "run_parse [] st = (Ok, st)"
| "run_parse (p # ps) st =
     (case p st of (status, st') \<Rightarrow> if status = Ok then run_parse ps st' else (status, st'))"

definition ParsedComponents_zero :: ParsedComponents where
  "ParsedComponents_zero = \<lparr>cYear = 0, cMonth = 0, cDay = 0, cHour = 0, cMinute = 0, cSecond = 0,
     cMicrosecond = 0, cUtcOffsetSec = 0\<rparr>"

definition ParseIso8601Components :: "string \<Rightarrow> EParseStatus \<times> ParsedComponents" where
  "ParseIso8601Components Input =
     (case run_parse
        [DigitsStep 4 (\<lambda>v Out. Out\<lparr>cYear := v\<rparr>), CharStep CHR ''-'',
         DigitsStep 2 (\<lambda>v Out. Out\<lparr>cMonth := v\<rparr>), CharStep CHR ''-'',
         DigitsStep 2 (\<lambda>v Out. Out\<lparr>cDay := v\<rparr>), CharStep CHR ''T'',
         DigitsStep 2 (\<lambda>v Out. Out\<lparr>cHour := v\<rparr>), CharStep CHR '':'',
         DigitsStep 2 (\<lambda>v Out. Out\<lparr>cMinute := v\<rparr>), CharStep CHR '':'',
         DigitsStep 2 (\<lambda>v Out. Out\<lparr>cSecond := v\<rparr>),
         FracStep, ZoneStep, EndStep, RangeStep]
        (Input, ParsedComponents_zero) of (status, (s, Out)) \<Rightarrow> (status, Out))"

section \<open>Printing\<close>

text \<open>The conversion \<open>%0wd\<close> of \<open>snprintf\<close>: the sign counts for the width.\<close>

definition digit_char :: "nat \<Rightarrow> char" where "digit_char n = char_of (48 + n)"

fun dec :: "nat \<Rightarrow> string" where
  "dec n = (if n < 10 then [digit_char n] else dec (n div 10) @ [digit_char (n mod 10)])"

declare dec.simps [simp del]

definition fmt0 :: "nat \<Rightarrow> int \<Rightarrow> string" where
  "fmt0 w x = (let s = dec (nat \<bar>x\<bar>); sign = (if x < 0 then ''-'' else '''') in
     sign @ replicate (w - length sign - length s) CHR ''0'' @ s)"

definition MICROS_PER_SEC :: int where "MICROS_PER_SEC = 1000000"
definition MICROS_PER_MIN :: int where "MICROS_PER_MIN = 60 * MICROS_PER_SEC"
definition MICROS_PER_HOUR :: int where "MICROS_PER_HOUR = 60 * MICROS_PER_MIN"
definition MICROS_PER_DAY :: int where "MICROS_PER_DAY = 24 * MICROS_PER_HOUR"

text \<open>The days since the epoch and the microseconds of the day, both rounded down.\<close>

definition split_day :: "int \<Rightarrow> int \<times> int" where
  "split_day UnixMicros =
     (let Days = UnixMicros sdiv MICROS_PER_DAY; Remain = UnixMicros smod MICROS_PER_DAY in
      if Remain < 0 then (Days - 1, Remain + MICROS_PER_DAY) else (Days, Remain))"

text \<open>The result is the number of characters written, with what \<open>snprintf\<close> leaves in the buffer.\<close>

definition EmitIso8601 :: "int \<Rightarrow> nat \<Rightarrow> nat \<times> string" where
  "EmitIso8601 UnixMicros BufSize =
     (if BufSize < 28 then (0, [])
      else
        let (Days, Remain) = split_day UnixMicros;
            (Year, Month, Day) = civil_from_days Days;
            Hour = to_i32 (Remain sdiv MICROS_PER_HOUR);
            Remain1 = Remain smod MICROS_PER_HOUR;
            Minute = to_i32 (Remain1 sdiv MICROS_PER_MIN);
            Remain2 = Remain1 smod MICROS_PER_MIN;
            Second = to_i32 (Remain2 sdiv MICROS_PER_SEC);
            Micros = to_i32 (Remain2 smod MICROS_PER_SEC);
            text = fmt0 4 Year @ ''-'' @ fmt0 2 Month @ ''-'' @ fmt0 2 Day @ ''T'' @ fmt0 2 Hour @ '':''
                   @ fmt0 2 Minute @ '':'' @ fmt0 2 Second @ ''.'' @ fmt0 6 Micros @ ''Z''
        in (if length text \<ge> BufSize then 0 else length text, take (BufSize - 1) text))"

text \<open>Each assignment to the 64-bit \<open>Micros\<close> may overflow.\<close>

definition ComponentsToUnixMicros :: "ParsedComponents \<Rightarrow> int option" where
  "ComponentsToUnixMicros C =
     (let Days = days_from_civil (cYear C) (cMonth C) (cDay C) in
      Option.bind (i64 (Days * MICROS_PER_DAY)) (\<lambda>Micros.
      Option.bind (i64 (Micros + cHour C * MICROS_PER_HOUR)) (\<lambda>Micros.
      Option.bind (i64 (Micros + cMinute C * MICROS_PER_MIN)) (\<lambda>Micros.
      Option.bind (i64 (Micros + cSecond C * MICROS_PER_SEC)) (\<lambda>Micros.
      Option.bind (i64 (Micros + cMicrosecond C)) (\<lambda>Micros.
      i64 (Micros - cUtcOffsetSec C * MICROS_PER_SEC)))))))"

section \<open>FTimespan and FDateTime\<close>

record FTimespan = m_micros :: int
record FDateTime = m_unixMicros :: int

definition timespan :: "int \<Rightarrow> FTimespan option" where
  "timespan x = map_option (\<lambda>m. \<lparr>m_micros = m\<rparr>) (i64 x)"

definition datetime :: "int \<Rightarrow> FDateTime option" where
  "datetime x = map_option (\<lambda>m. \<lparr>m_unixMicros = m\<rparr>) (i64 x)"

definition FromMilliseconds :: "int \<Rightarrow> FTimespan option" where
  "FromMilliseconds Millis = timespan (Millis * 1000)"
definition FromMicroseconds :: "int \<Rightarrow> FTimespan option" where
  "FromMicroseconds Micros = timespan Micros"
definition FromMinutes :: "int \<Rightarrow> FTimespan option" where
  "FromMinutes Minutes = timespan (Minutes * 60000000)"
definition FromHours :: "int \<Rightarrow> FTimespan option" where
  "FromHours Hours = timespan (Hours * 3600000000)"
definition FromDays :: "int \<Rightarrow> FTimespan option" where
  "FromDays Days = timespan (Days * 86400000000)"

definition timespan_plus :: "FTimespan \<Rightarrow> FTimespan \<Rightarrow> FTimespan option" where
  "timespan_plus t Other = timespan (m_micros t + m_micros Other)"
definition timespan_minus :: "FTimespan \<Rightarrow> FTimespan \<Rightarrow> FTimespan option" where
  "timespan_minus t Other = timespan (m_micros t - m_micros Other)"

definition datetime_plus :: "FDateTime \<Rightarrow> FTimespan \<Rightarrow> FDateTime option" where
  "datetime_plus t Span = datetime (m_unixMicros t + m_micros Span)"
definition datetime_minus :: "FDateTime \<Rightarrow> FTimespan \<Rightarrow> FDateTime option" where
  "datetime_minus t Span = datetime (m_unixMicros t - m_micros Span)"
definition datetime_diff :: "FDateTime \<Rightarrow> FDateTime \<Rightarrow> FTimespan option" where
  "datetime_diff t Other = timespan (m_unixMicros t - m_unixMicros Other)"

definition AddDays :: "FDateTime \<Rightarrow> int \<Rightarrow> FDateTime option" where
  "AddDays t Days = Option.bind (FromDays Days) (datetime_plus t)"
definition AddHours :: "FDateTime \<Rightarrow> int \<Rightarrow> FDateTime option" where
  "AddHours t Hours = Option.bind (FromHours Hours) (datetime_plus t)"
definition AddMinutes :: "FDateTime \<Rightarrow> int \<Rightarrow> FDateTime option" where
  "AddMinutes t Minutes = Option.bind (FromMinutes Minutes) (datetime_plus t)"

datatype FDateRangeError = OverflowYear | UnderflowYear | InvalidUnixTimestamp

definition FromUnixTimestamp :: "int \<Rightarrow> FDateRangeError + FDateTime" where
  "FromUnixTimestamp Seconds =
     (let MAX_SECONDS = (2 ^ 63 - 1) sdiv 1000000 in
      if Seconds > MAX_SECONDS \<or> Seconds < - MAX_SECONDS then Inl InvalidUnixTimestamp
      else Inr \<lparr>m_unixMicros = Seconds * 1000000\<rparr>)"

definition FromUnixMicros :: "int \<Rightarrow> FDateRangeError + FDateTime" where
  "FromUnixMicros Micros = Inr \<lparr>m_unixMicros = Micros\<rparr>"

definition ParseIso8601 :: "string \<Rightarrow> (FDateRangeError + FDateTime) option" where
  "ParseIso8601 Iso8601 =
     (case ParseIso8601Components Iso8601 of
        (Malformed, C) \<Rightarrow> Some (Inl InvalidUnixTimestamp)
      | (OverflowComponent, C) \<Rightarrow>
          if cYear C > 9999 then Some (Inl OverflowYear)
          else if cYear C < 0 then Some (Inl UnderflowYear)
          else Some (Inl InvalidUnixTimestamp)
      | (Ok, C) \<Rightarrow> map_option (\<lambda>m. Inr \<lparr>m_unixMicros = m\<rparr>) (ComponentsToUnixMicros C))"

definition ToIso8601 :: "FDateTime \<Rightarrow> string" where
  "ToIso8601 t = (case EmitIso8601 (m_unixMicros t) 32 of (Written, Buf) \<Rightarrow> take Written Buf)"

definition Year :: "FDateTime \<Rightarrow> int" where
  "Year t = (case civil_from_days (fst (split_day (m_unixMicros t))) of (Y, M, D) \<Rightarrow> Y)"
definition Month :: "FDateTime \<Rightarrow> int" where
  "Month t = (case civil_from_days (fst (split_day (m_unixMicros t))) of (Y, M, D) \<Rightarrow> M)"
definition Day :: "FDateTime \<Rightarrow> int" where
  "Day t = (case civil_from_days (fst (split_day (m_unixMicros t))) of (Y, M, D) \<Rightarrow> D)"
definition Hour :: "FDateTime \<Rightarrow> int" where
  "Hour t = to_i32 (snd (split_day (m_unixMicros t)) sdiv MICROS_PER_HOUR)"
definition Minute :: "FDateTime \<Rightarrow> int" where
  "Minute t = to_i32 ((snd (split_day (m_unixMicros t)) smod MICROS_PER_HOUR) sdiv MICROS_PER_MIN)"
definition Second :: "FDateTime \<Rightarrow> int" where
  "Second t = to_i32 ((snd (split_day (m_unixMicros t)) smod MICROS_PER_MIN) sdiv MICROS_PER_SEC)"
definition Microsecond :: "FDateTime \<Rightarrow> int" where
  "Microsecond t = to_i32 (snd (split_day (m_unixMicros t)) smod MICROS_PER_SEC)"

end
