(* ===== verification/DateTimeProps.thy ===== *)
theory DateTimeProps
  imports DateTime
begin

text \<open>
  The civil-date conversions are inverse to each other: years of an era, months counted from
  March, leap years, and the two directions of the round trip.
\<close>

section \<open>Division and casts\<close>

lemma to_u32_id: "0 \<le> x \<Longrightarrow> x < 2 ^ 32 \<Longrightarrow> to_u32 x = x"
  by (simp add: to_u32_def)

lemma to_i32_id: "- (2 ^ 31) \<le> x \<Longrightarrow> x < 2 ^ 31 \<Longrightarrow> to_i32 x = x"
  by (simp add: to_i32_def)

lemma tdiv_floor:
  assumes "0 < n" "k = n - 1"
  shows "(if y \<ge> 0 then y else y - k) sdiv n = y div (n :: int)"
proof (cases "y \<ge> 0")
  case True
  then show ?thesis using assms by (cases "y = 0") (simp_all add: signed_divide_int_def)
next
  case False
  have "(n - 1 - y) div n = - (y div n)"
  proof (rule int_div_pos_eq)
    show "n - 1 - y = n * - (y div n) + (n - 1 - y mod n)"
      using mult_div_mod_eq [of n y] by (simp add: algebra_simps)
    show "0 \<le> n - 1 - y mod n" "n - 1 - y mod n < n"
      using pos_mod_sign [OF assms(1), of y] pos_mod_bound [OF assms(1), of y] by linarith+
  qed
  then show ?thesis using False assms by (simp add: signed_divide_int_def)
qed

lemma sdiv_pos: "0 \<le> x \<Longrightarrow> 0 < n \<Longrightarrow> x sdiv n = x div (n :: int)"
  by (cases "x = 0") (simp_all add: signed_divide_int_def)

lemma smod_pos: "0 \<le> x \<Longrightarrow> 0 < n \<Longrightarrow> x smod n = x mod (n :: int)"
  by (cases "x = 0") (simp_all add: signed_modulo_int_def)

lemma smod_zero: "0 < n \<Longrightarrow> x smod n = 0 \<longleftrightarrow> x mod (n :: int) = 0"
  by (auto simp: signed_modulo_int_def sgn_if mod_eq_0_iff_dvd)

section \<open>Years of an era\<close>

text \<open>A year of an era starts on the first of March; its last day is the leap day, if there is one.\<close>

definition long_year :: "int \<Rightarrow> bool" where
  "long_year yoe \<longleftrightarrow> yoe mod 4 = 3 \<and> (yoe mod 100 \<noteq> 99 \<or> yoe mod 400 = 399)"

definition year_start :: "int \<Rightarrow> int" where
  "year_start yoe = 365 * yoe + yoe div 4 - yoe div 100"

definition year_of_doe :: "int \<Rightarrow> int" where
  "year_of_doe doe = (doe - doe div 1460 + doe div 36524 - doe div 146096) div 365"

lemma year_parts:
  fixes c q r :: int
  assumes "0 \<le> c" "c \<le> 3" "0 \<le> q" "q \<le> 24" "0 \<le> r" "r \<le> 3"
  shows "(100 * c + 4 * q + r) div 4 = 25 * c + q" "(100 * c + 4 * q + r) div 100 = c"
    "long_year (100 * c + 4 * q + r) \<longleftrightarrow> r = 3 \<and> (q \<noteq> 24 \<or> c = 3)"
proof -
  show 1: "(100 * c + 4 * q + r) div 4 = 25 * c + q" "(100 * c + 4 * q + r) div 100 = c" using assms by linarith+
  have m: "(100 * c + 4 * q + r) mod 4 = r" "(100 * c + 4 * q + r) mod 100 = 4 * q + r"
    "(100 * c + 4 * q + r) mod 400 = 100 * c + 4 * q + r"
    using assms 1 by (simp_all add: minus_mult_div_eq_mod [symmetric])
  show "long_year (100 * c + 4 * q + r) \<longleftrightarrow> r = 3 \<and> (q \<noteq> 24 \<or> c = 3)"
    unfolding long_year_def m using assms by linarith
qed

lemma year_of_doe_parts:
  fixes c q r doy :: int
  assumes "0 \<le> c" "c \<le> 3" "0 \<le> q" "q \<le> 24" "0 \<le> r" "r \<le> 3"
    and doy: "0 \<le> doy" "doy \<le> 364 + (if r = 3 \<and> (q \<noteq> 24 \<or> c = 3) then 1 else 0)"
  shows "year_of_doe (36524 * c + 1461 * q + 365 * r + doy) = 100 * c + 4 * q + r"
proof -
  define doe where "doe = 36524 * c + 1461 * q + 365 * r + doy"
  define l :: int where "l = (if c = 3 \<and> q = 24 \<and> r = 3 \<and> doy = 365 then 1 else 0)"
  define e :: int where "e = (if 24 * c + q + 365 * r + doy \<ge> 1460 then 1 else 0)"
  have d3: "doe div 146096 = l" unfolding doe_def l_def using assms by (auto split: if_splits)
  have d2: "doe div 36524 = c + l" unfolding doe_def l_def using assms by (auto split: if_splits)
  have d1: "doe div 1460 = 25 * c + q + e" unfolding doe_def e_def using assms by (auto split: if_splits)
  have s: "doe - doe div 1460 + doe div 36524 - doe div 146096 = 365 * (100 * c + 4 * q + r) + (doy - e)"
    unfolding d1 d2 d3 by (simp add: doe_def)
  have "0 \<le> doy - e" "doy - e < 365" unfolding e_def using assms by (auto split: if_splits)
  then show ?thesis unfolding year_of_doe_def doe_def [symmetric] s by simp
qed

lemma year_cases:
  assumes "0 \<le> yoe" "yoe < 400"
  obtains c q r :: int where "0 \<le> c" "c \<le> 3" "0 \<le> q" "q \<le> 24" "0 \<le> r" "r \<le> 3" "yoe = 100 * c + 4 * q + r"
proof
  have m: "0 \<le> yoe mod 100" "yoe mod 100 < 100" "0 \<le> yoe mod 4" "yoe mod 4 < 4" by simp_all
  show "0 \<le> yoe div 100" "yoe div 100 \<le> 3" using assms by linarith+
  show "0 \<le> yoe mod 100 div 4" "yoe mod 100 div 4 \<le> 24" using m by linarith+
  show "0 \<le> yoe mod 4" "yoe mod 4 \<le> 3" using m by linarith+
  have "yoe mod 100 mod 4 = yoe mod 4" by (simp add: mod_mod_cancel)
  then show "yoe = 100 * (yoe div 100) + 4 * (yoe mod 100 div 4) + yoe mod 4"
    using mult_div_mod_eq [of 100 yoe] mult_div_mod_eq [of 4 "yoe mod 100"] by linarith
qed

lemma year_of_doe:
  assumes "0 \<le> yoe" "yoe < 400" "0 \<le> doy" "doy \<le> 364 + (if long_year yoe then 1 else 0)"
  shows "year_of_doe (year_start yoe + doy) = yoe"
proof -
  obtain c q r where y: "0 \<le> c" "c \<le> 3" "0 \<le> q" "q \<le> 24" "0 \<le> r" "r \<le> 3" "yoe = 100 * c + 4 * q + r"
    by (rule year_cases [OF assms(1,2)])
  note p = year_parts [OF y(1-6)]
  have "year_start yoe + doy = 36524 * c + 1461 * q + 365 * r + doy"
    unfolding year_start_def y(7) p by simp
  then show ?thesis
    using year_of_doe_parts [OF y(1-6) assms(3)] assms(4) p(3) unfolding y(7) by simp
qed

text \<open>Every day of an era is a day of one of its years.\<close>

lemma doe_cases:
  assumes "0 \<le> doe" "doe < 146097"
  obtains yoe doy where "0 \<le> yoe" "yoe < 400" "0 \<le> doy" "doy \<le> 364 + (if long_year yoe then 1 else 0)"
    "doe = year_start yoe + doy"
proof -
  define c where "c = min 3 (doe div 36524)"
  define a where "a = doe - 36524 * c"
  define q where "q = a div 1461"
  define b where "b = a - 1461 * q"
  define r where "r = min 3 (b div 365)"
  define doy where "doy = b - 365 * r"
  have c: "0 \<le> c" "c \<le> 3" unfolding c_def using assms by auto
  have a: "0 \<le> a" "a \<le> 36524" "c < 3 \<Longrightarrow> a < 36524" unfolding a_def c_def using assms by (auto simp: min_def)
  have q: "0 \<le> q" "q \<le> 24" unfolding q_def using a by linarith+
  have b: "0 \<le> b" "b < 1461" unfolding b_def q_def by linarith+
  have r: "0 \<le> r" "r \<le> 3" unfolding r_def using b by auto
  have d: "0 \<le> doy" "doy \<le> 365" "r < 3 \<Longrightarrow> doy < 365" unfolding doy_def r_def using b by (auto simp: min_def)
  have eq: "doe = 36524 * c + 1461 * q + 365 * r + doy" unfolding doy_def b_def a_def by simp
  have last: "doy \<le> 364 + (if r = 3 \<and> (q \<noteq> 24 \<or> c = 3) then 1 else 0)"
  proof (cases "r = 3 \<and> (q \<noteq> 24 \<or> c = 3)")
    case False
    then consider "r < 3" | "r = 3" "q = 24" "c < 3" using r c by linarith
    then have "doy < 365"
    proof cases
      case 2
      then have "a < 36524" "a = 1461 * 24 + 365 * 3 + doy" using a(3) by (auto simp: b_def doy_def)
      then show ?thesis by linarith
    qed (rule d(3))
    then show ?thesis by simp
  qed (use d in simp)
  note p = year_parts [OF c q r]
  show ?thesis
  proof (rule that)
    show "0 \<le> 100 * c + 4 * q + r" "100 * c + 4 * q + r < 400" using c q r by linarith+
    show "0 \<le> doy" by (rule d)
    show "doy \<le> 364 + (if long_year (100 * c + 4 * q + r) then 1 else 0)" using last p(3) by simp
    show "doe = year_start (100 * c + 4 * q + r) + doy" unfolding year_start_def p eq by simp
  qed
qed

lemma year_start_bounds:
  assumes "0 \<le> yoe" "yoe < 400" "0 \<le> doy" "doy \<le> 364 + (if long_year yoe then 1 else 0)"
  shows "0 \<le> year_start yoe" "year_start yoe + doy < 146097"
proof -
  obtain c q r where y: "0 \<le> c" "c \<le> 3" "0 \<le> q" "q \<le> 24" "0 \<le> r" "r \<le> 3" "yoe = 100 * c + 4 * q + r"
    by (rule year_cases [OF assms(1,2)])
  note p = year_parts [OF y(1-6)]
  have s: "year_start yoe = 36524 * c + 1461 * q + 365 * r" unfolding year_start_def y(7) p by simp
  then show "0 \<le> year_start yoe" using y by linarith
  show "year_start yoe + doy < 146097"
  proof (cases "long_year yoe")
    case False
    then have "doy \<le> 364" using assms(4) by simp
    then show ?thesis using y(1-6) s by linarith
  next
    case True
    then have "doy \<le> 365" using assms(4) by simp
    moreover have "q \<noteq> 24 \<or> c = 3" using True p(3) y(7) by simp
    ultimately show ?thesis using y(1-6) s by (cases "q = 24") linarith+
  qed
qed

section \<open>Months\<close>

text \<open>Months are counted from March; \<open>month_start\<close> is the day of the year one starts on.\<close>

definition month_start :: "int \<Rightarrow> int" where "month_start mp = (153 * mp + 2) div 5"

definition month_length :: "int \<Rightarrow> int" where
  "month_length mp = (if mp = 1 \<or> mp = 3 \<or> mp = 6 \<or> mp = 8 then 30 else if mp = 11 then 29 else 31)"

lemma month_cases:
  fixes mp :: int
  assumes "0 \<le> mp" "mp \<le> 11"
  shows "mp = 0 \<or> mp = 1 \<or> mp = 2 \<or> mp = 3 \<or> mp = 4 \<or> mp = 5 \<or> mp = 6 \<or> mp = 7 \<or> mp = 8 \<or> mp = 9 \<or> mp = 10 \<or> mp = 11"
  using assms by presburger

lemma month_of_doy:
  assumes "0 \<le> mp" "mp \<le> 11" "1 \<le> d" "d \<le> month_length mp"
  shows "(5 * (month_start mp + d - 1) + 2) div 153 = mp"
  using month_cases [OF assms(1,2)] assms(3,4)
  by (elim disjE) (simp_all add: month_start_def month_length_def)

lemma month_split:
  assumes "0 \<le> doy" "doy \<le> 365" "mp = (5 * doy + 2) div 153" "d = doy - month_start mp + 1"
  shows "0 \<le> mp" "mp \<le> 11" "1 \<le> d" "d \<le> month_length mp" "mp = 11 \<Longrightarrow> d = 29 \<longleftrightarrow> doy = 365"
proof -
  show mp: "0 \<le> mp" "mp \<le> 11" using assms(1-3) by linarith+
  have r: "153 * mp \<le> 5 * doy + 2" "5 * doy + 2 < 153 * mp + 153" using assms(3) by linarith+
  have "1 \<le> d \<and> d \<le> month_length mp \<and> (mp = 11 \<longrightarrow> (d = 29 \<longleftrightarrow> doy = 365))"
    using month_cases [OF mp] r assms(2,4)
    by (elim disjE) (simp_all add: month_start_def month_length_def)
  then show "1 \<le> d" "d \<le> month_length mp" "mp = 11 \<Longrightarrow> d = 29 \<longleftrightarrow> doy = 365" by auto
qed

section \<open>Leap years\<close>

lemma pred_mod: "0 < n \<Longrightarrow> (y - 1) mod n = n - 1 \<longleftrightarrow> y mod n = (0 :: int)"
proof -
  assume n: "0 < n"
  have "(y - 1) mod n = (- 1) mod n \<longleftrightarrow> n dvd y" by (simp add: mod_eq_dvd_iff)
  then show ?thesis using n by (simp add: zmod_minus1 dvd_eq_mod_eq_0)
qed

lemma leap_year:
  "(y smod 4 = 0 \<and> y smod 100 \<noteq> 0) \<or> y smod 400 = 0 \<longleftrightarrow> long_year ((y - 1) mod 400)"
proof -
  have m: "(y - 1) mod 400 mod 4 = (y - 1) mod 4" "(y - 1) mod 400 mod 100 = (y - 1) mod 100" "(y - 1) mod 400 mod 400 = (y - 1) mod 400"
    by (simp_all add: mod_mod_cancel)
  have e: "(y - 1) mod 4 = 3 \<longleftrightarrow> y mod 4 = 0" "(y - 1) mod 100 = 99 \<longleftrightarrow> y mod 100 = 0" "(y - 1) mod 400 = 399 \<longleftrightarrow> y mod 400 = 0"
    using pred_mod [of 4 y] pred_mod [of 100 y] pred_mod [of 400 y] by simp_all
  have "y mod 400 = 0 \<Longrightarrow> y mod 4 = 0" using mod_mod_cancel [of 4 400 y] by simp
  then show ?thesis unfolding long_year_def m e by (auto simp: smod_zero)
qed

section \<open>Days and dates\<close>

definition valid_date :: "int \<Rightarrow> int \<Rightarrow> int \<Rightarrow> bool" where
  "valid_date y m d \<longleftrightarrow> 1 \<le> m \<and> m \<le> 12 \<and> 1 \<le> d \<and> d \<le> last_day_of_month y m"

definition year_fits :: "int \<Rightarrow> bool" where "year_fits y \<longleftrightarrow> - 2000000000 \<le> y \<and> y \<le> 2000000000"

text \<open>The parts of a day: its era, year of the era, month from March and day of the month.\<close>

definition day_parts :: "int \<Rightarrow> int \<Rightarrow> int \<Rightarrow> int \<Rightarrow> int \<Rightarrow> bool" where
  "day_parts z era yoe mp d \<longleftrightarrow> 0 \<le> yoe \<and> yoe < 400 \<and> 0 \<le> mp \<and> mp \<le> 11 \<and> 1 \<le> d \<and> d \<le> month_length mp
     \<and> (mp = 11 \<and> d = 29 \<longrightarrow> long_year yoe)
     \<and> z + 719468 = era * 146097 + (year_start yoe + (month_start mp + d - 1))"

lemma doy_range:
  assumes "0 \<le> mp" "mp \<le> 11" "1 \<le> d" "d \<le> month_length mp" "mp = 11 \<and> d = 29 \<longrightarrow> b"
  shows "0 \<le> month_start mp" "month_start mp + d - 1 \<le> 364 + (if b then 1 else 0)" "month_start mp + d - 1 \<le> 365"
proof -
  have "0 \<le> month_start mp \<and> month_start mp + d - 1 \<le> 364 + (if b then 1 else 0) \<and> month_start mp + d - 1 \<le> 365"
    using month_cases [OF assms(1,2)] assms(3-5)
    by (cases b; elim disjE; simp add: month_start_def month_length_def)
  then show "0 \<le> month_start mp" "month_start mp + d - 1 \<le> 364 + (if b then 1 else 0)" "month_start mp + d - 1 \<le> 365" by auto
qed

lemma day_parts_exist:
  obtains era yoe mp d where "day_parts z era yoe mp d"
proof -
  define doe where "doe = (z + 719468) mod 146097"
  have "0 \<le> doe" "doe < 146097" by (simp_all add: doe_def)
  then obtain yoe doy where y: "0 \<le> yoe" "yoe < 400" "0 \<le> doy" "doy \<le> 364 + (if long_year yoe then 1 else 0)"
    "doe = year_start yoe + doy"
    by (rule doe_cases)
  have "doy \<le> 365" using y(4) by (simp split: if_splits)
  note m = month_split [OF y(3) this refl refl]
  have z: "z + 719468 = (z + 719468) div 146097 * 146097 + (year_start yoe + doy)"
    unfolding y(5) [symmetric] doe_def by simp
  have leap: "(5 * doy + 2) div 153 = 11 \<and> doy - month_start ((5 * doy + 2) div 153) + 1 = 29 \<longrightarrow> long_year yoe"
    using m(5) y(4) by (auto split: if_splits)
  show ?thesis
    by (rule that [of "(z + 719468) div 146097" yoe "(5 * doy + 2) div 153" "doy - month_start ((5 * doy + 2) div 153) + 1"])
      (use y m z leap in \<open>simp add: day_parts_def\<close>)
qed

definition civil_year :: "int \<Rightarrow> int \<Rightarrow> int \<Rightarrow> int" where
  "civil_year era yoe mp = yoe + 400 * era + (if mp < 10 then 0 else 1)"

definition civil_month :: "int \<Rightarrow> int" where "civil_month mp = (if mp < 10 then mp + 3 else mp - 9)"

lemma civil_from_days_parts:
  assumes p: "day_parts z era yoe mp d" and fits: "year_fits (civil_year era yoe mp)"
  shows "civil_from_days z = (civil_year era yoe mp, civil_month mp, d)"
proof -
  have r: "0 \<le> yoe" "yoe < 400" "0 \<le> mp" "mp \<le> 11" "1 \<le> d" "d \<le> month_length mp" "mp = 11 \<and> d = 29 \<longrightarrow> long_year yoe"
    and z: "z + 719468 = era * 146097 + (year_start yoe + (month_start mp + d - 1))"
    using p by (auto simp: day_parts_def)
  note dr = doy_range [OF r(3-7)]
  define doy where "doy = month_start mp + d - 1"
  have doy: "0 \<le> doy" "doy \<le> 364 + (if long_year yoe then 1 else 0)" "doy \<le> 365"
    using dr r(5) by (simp_all add: doy_def)
  note yb = year_start_bounds [OF r(1,2) doy(1,2)]
  define doe where "doe = year_start yoe + doy"
  have doe: "0 \<le> doe" "doe < 146097" using yb doy by (simp_all add: doe_def)
  have "(if z + 719468 \<ge> 0 then z + 719468 else z + 719468 - 146096) sdiv 146097 = (z + 719468) div 146097"
    by (rule tdiv_floor) simp_all
  also have "\<dots> = era"
    by (rule int_div_pos_eq [where r = doe]) (use z doe in \<open>simp_all add: doe_def doy_def\<close>)
  finally have e: "(if z + 719468 \<ge> 0 then z + 719468 else z + 719468 - 146096) sdiv 146097 = era" .
  have u1: "to_u32 (z + 719468 - era * 146097) = doe"
    using z doe by (simp add: doe_def doy_def to_u32_id)
  have "0 \<le> doe - doe div 1460 + doe div 36524 - doe div 146096" "doe - doe div 1460 + doe div 36524 - doe div 146096 < 2 ^ 32"
    using doe by simp_all
  then have u2: "to_u32 (doe - doe div 1460 + doe div 36524 - doe div 146096) div 365 = yoe"
    using year_of_doe [OF r(1,2) doy(1,2)] by (simp add: to_u32_id year_of_doe_def doe_def)
  have u3: "to_u32 (doe - (365 * yoe + yoe div 4 - yoe div 100)) = doy"
    using doy by (simp add: doe_def year_start_def to_u32_id)
  have u4: "to_u32 (5 * doy + 2) div 153 = mp"
    using month_of_doy [OF r(3-6)] doy by (simp add: to_u32_id doy_def)
  have ml: "month_length mp \<le> 31" by (simp add: month_length_def)
  have u5: "to_i32 (to_u32 (doy - to_u32 (153 * mp + 2) div 5 + 1)) = d"
    using r ml by (simp add: doy_def month_start_def to_u32_id to_i32_id)
  have u6: "to_i32 (if mp < 10 then to_u32 (mp + 3) else to_u32 (mp - 9)) = civil_month mp"
    using r by (simp add: civil_month_def to_u32_id to_i32_id)
  have u7: "to_i32 yoe + to_i32 (era * 400) = yoe + 400 * era"
  proof -
    have "- 2000000400 \<le> era * 400" "era * 400 \<le> 2000000400"
      using fits r by (simp_all add: year_fits_def civil_year_def split: if_splits)
    then show ?thesis using r by (simp add: to_i32_id)
  qed
  have m2: "civil_month mp \<le> 2 \<longleftrightarrow> \<not> mp < 10" using r by (auto simp: civil_month_def)
  show ?thesis
    unfolding civil_from_days_def Let_def e u1 u2 u3 u4 u5 u6 u7 m2 by (simp add: civil_year_def)
qed

lemma days_from_civil_parts:
  assumes p: "day_parts z era yoe mp d" and fits: "year_fits (civil_year era yoe mp)"
  shows "days_from_civil (civil_year era yoe mp) (civil_month mp) d = z"
proof -
  have r: "0 \<le> yoe" "yoe < 400" "0 \<le> mp" "mp \<le> 11" "1 \<le> d" "d \<le> month_length mp" "mp = 11 \<and> d = 29 \<longrightarrow> long_year yoe"
    and z: "z + 719468 = era * 146097 + (year_start yoe + (month_start mp + d - 1))"
    using p by (auto simp: day_parts_def)
  note dr = doy_range [OF r(3-7)]
  have m2: "civil_month mp \<le> 2 \<longleftrightarrow> \<not> mp < 10" "civil_month mp > 2 \<longleftrightarrow> mp < 10" using r by (auto simp: civil_month_def)
  have y: "(if civil_month mp \<le> 2 then civil_year era yoe mp - 1 else civil_year era yoe mp) = yoe + 400 * era"
    unfolding m2 by (simp add: civil_year_def)
  have "(if yoe + 400 * era \<ge> 0 then yoe + 400 * era else yoe + 400 * era - 399) sdiv 400 = (yoe + 400 * era) div 400"
    by (rule tdiv_floor) simp_all
  also have "\<dots> = era" using r by simp
  finally have e: "(if yoe + 400 * era \<ge> 0 then yoe + 400 * era else yoe + 400 * era - 399) sdiv 400 = era" .
  have u1: "to_u32 (yoe + 400 * era - era * 400) = yoe" using r by (simp add: to_u32_id)
  have u2: "to_u32 (civil_month mp + (if mp < 10 then - 3 else 9)) = mp"
    using r by (simp add: civil_month_def to_u32_id)
  have ml: "month_length mp \<le> 31" by (simp add: month_length_def)
  have "to_u32 (153 * mp + 2) div 5 + to_u32 (d - 1) = month_start mp + d - 1"
    using r ml by (simp add: month_start_def to_u32_id)
  then have u3: "to_u32 (to_u32 (153 * mp + 2) div 5 + to_u32 (d - 1)) = month_start mp + d - 1"
    using dr r(5) by (simp add: to_u32_id)
  have "0 \<le> month_start mp + d - 1" using dr r(5) by linarith
  note yb = year_start_bounds [OF r(1,2) this dr(2)]
  have u4: "to_u32 (yoe * 365 + yoe div 4 - yoe div 100 + (month_start mp + d - 1)) = year_start yoe + (month_start mp + d - 1)"
    using yb dr r by (simp add: to_u32_id year_start_def)
  show ?thesis
    unfolding days_from_civil_def Let_def y e u1 m2(2) u2 u3 u4 using z by simp
qed

lemma valid_date_parts:
  assumes v: "valid_date y m d"
  obtains era yoe mp where "day_parts (era * 146097 + (year_start yoe + (month_start mp + d - 1)) - 719468) era yoe mp d"
    "civil_year era yoe mp = y" "civil_month mp = m"
proof -
  define mp where "mp = (if m > 2 then m - 3 else m + 9)"
  define y' where "y' = (if m > 2 then y else y - 1)"
  have mp: "0 \<le> mp" "mp \<le> 11" "civil_month mp = m" "m > 2 \<longleftrightarrow> mp < 10"
    using v by (auto simp: valid_date_def mp_def civil_month_def)
  have "1 \<le> d \<and> d \<le> month_length mp \<and> (mp = 11 \<and> d = 29 \<longrightarrow> long_year (y' mod 400))"
  proof (cases "m = 2")
    case True
    then have "y' = y - 1" by (simp add: y'_def)
    with True v show ?thesis
      by (auto simp: valid_date_def last_day_of_month_def leap_year mp_def month_length_def split: if_splits)
  next
    case False
    then have "mp \<noteq> 11" "last_day_of_month y m = month_length mp"
      using v by (auto simp: valid_date_def mp_def last_day_of_month_def month_length_def)
    then show ?thesis using v by (simp add: valid_date_def)
  qed
  then have "day_parts (y' div 400 * 146097 + (year_start (y' mod 400) + (month_start mp + d - 1)) - 719468) (y' div 400) (y' mod 400) mp d"
    using mp by (simp add: day_parts_def)
  moreover have "civil_year (y' div 400) (y' mod 400) mp = y"
    using mp(4) by (auto simp: civil_year_def y'_def)
  ultimately show ?thesis using mp(3) by (rule that)
qed

lemma parts_valid:
  assumes "day_parts z era yoe mp d"
  shows "valid_date (civil_year era yoe mp) (civil_month mp) d"
proof -
  have r: "0 \<le> yoe" "yoe < 400" "0 \<le> mp" "mp \<le> 11" "1 \<le> d" "d \<le> month_length mp" "mp = 11 \<and> d = 29 \<longrightarrow> long_year yoe"
    using assms by (auto simp: day_parts_def)
  have l: "last_day_of_month (civil_year era yoe mp) 2 = (if long_year yoe then 29 else 28)" if "mp = 11"
    using that r by (simp add: last_day_of_month_def leap_year civil_year_def)
  show ?thesis
  proof (cases "mp = 11")
    case True
    then have "d \<le> 29" using r(6) by (simp add: month_length_def)
    with True l r show ?thesis by (auto simp: valid_date_def civil_month_def)
  next
    case False
    then have "last_day_of_month (civil_year era yoe mp) (civil_month mp) = month_length mp"
      using r by (auto simp: last_day_of_month_def civil_month_def month_length_def)
    with r show ?thesis by (simp add: valid_date_def civil_month_def)
  qed
qed

lemma parts_year_fits:
  assumes "day_parts z era yoe mp d" "\<bar>z\<bar> \<le> 200000000000"
  shows "year_fits (civil_year era yoe mp)"
proof -
  have r: "0 \<le> yoe" "yoe < 400" "0 \<le> mp" "mp \<le> 11" "1 \<le> d" "d \<le> month_length mp" "mp = 11 \<and> d = 29 \<longrightarrow> long_year yoe"
    and z: "z + 719468 = era * 146097 + (year_start yoe + (month_start mp + d - 1))"
    using assms(1) by (auto simp: day_parts_def)
  note dr = doy_range [OF r(3-7)]
  have "0 \<le> month_start mp + d - 1" using dr r(5) by linarith
  note yb = year_start_bounds [OF r(1,2) this dr(2)]
  have "era \<le> 2000000" "- 2000000 \<le> era" using z yb dr r(5) assms(2) by linarith+
  then show ?thesis using r(1,2) by (simp add: year_fits_def civil_year_def)
qed

lemma civil_then_days:
  assumes "\<bar>z\<bar> \<le> 200000000000"
  obtains y m d where "civil_from_days z = (y, m, d)" "valid_date y m d" "year_fits y" "days_from_civil y m d = z"
proof -
  obtain era yoe mp d where p: "day_parts z era yoe mp d" by (rule day_parts_exist)
  note f = parts_year_fits [OF p assms]
  show ?thesis
    by (rule that [OF civil_from_days_parts [OF p f] parts_valid [OF p] f days_from_civil_parts [OF p f]])
qed

lemma days_then_civil:
  assumes "valid_date y m d" "year_fits y"
  shows "civil_from_days (days_from_civil y m d) = (y, m, d)"
proof -
  obtain era yoe mp where p: "day_parts (era * 146097 + (year_start yoe + (month_start mp + d - 1)) - 719468) era yoe mp d"
    "civil_year era yoe mp = y" "civil_month mp = m"
    by (rule valid_date_parts [OF assms(1)])
  from civil_from_days_parts [OF p(1)] days_from_civil_parts [OF p(1)] p(2,3) assms(2) show ?thesis by simp
qed

end
