(* ===== verification/DateTimeText.thy ===== *)
theory DateTimeText
  imports DateTimeProps
begin

text \<open>
  The text of a date: decimal digits of a fixed width, the parser on printed text, the clock time
  of a count of microseconds, and what \<open>EmitIso8601\<close> writes.
\<close>

section \<open>Decimal digits\<close>

definition val :: "string \<Rightarrow> int" where "val s = foldl (\<lambda>acc C. acc * 10 + (code C - code CHR ''0'')) 0 s"

lemma val_snoc: "val (s @ [C]) = val s * 10 + (code C - code CHR ''0'')"
  by (simp add: val_def)

lemma ParseDigitsLoop_append:
  "list_all is_digit s \<Longrightarrow> ParseDigitsLoop (length s) acc (s @ rest)
     = Some (foldl (\<lambda>acc C. acc * 10 + (code C - code CHR ''0'')) acc s, rest)"
  by (induction s arbitrary: acc) auto

lemma ParseDigits_append:
  "list_all is_digit s \<Longrightarrow> length s = n \<Longrightarrow> ParseDigits n (s @ rest) = Some (val s, rest)"
  using ParseDigitsLoop_append [of s 0 rest] by (auto simp: ParseDigits_def val_def)

lemma code_digit: "n < 10 \<Longrightarrow> code (digit_char n) = 48 + int n"
proof -
  assume "n < 10"
  then have "of_char (digit_char n) = (48 + n :: nat)" by (simp add: digit_char_def of_char_of)
  then have "int (of_char (digit_char n)) = int (48 + n)" by (rule arg_cong)
  then show "code (digit_char n) = 48 + int n" by (simp add: of_nat_of_char)
qed

lemma digit_char: "n < 10 \<Longrightarrow> is_digit (digit_char n)" "n < 10 \<Longrightarrow> code (digit_char n) - code CHR ''0'' = int n"
  by (simp_all add: is_digit_def code_digit)

lemma dec_props: "list_all is_digit (dec n) \<and> val (dec n) = int n \<and> dec n \<noteq> []"
proof (induction n rule: dec.induct)
  case (1 n)
  show ?case
  proof (cases "n < 10")
    case True
    then show ?thesis using digit_char [OF True] by (simp add: dec.simps [of n] val_def)
  next
    case False
    have d: "n mod 10 < 10" by simp
    from 1 [OF False] False show ?thesis
      using digit_char [OF d] by (simp add: dec.simps [of n] val_snoc zdiv_int zmod_int)
  qed
qed

lemma dec_length: "0 < w \<Longrightarrow> length (dec n) \<le> w \<longleftrightarrow> n < 10 ^ w"
proof (induction w arbitrary: n)
  case (Suc w)
  show ?case
  proof (cases "n < 10")
    case True
    have "(1 :: nat) \<le> 10 ^ w" by simp
    with True have "n < 10 * 10 ^ w" by linarith
    with True show ?thesis by (simp add: dec.simps [of n])
  next
    case False
    show ?thesis
    proof (cases w)
      case 0
      with False dec_props [of "n div 10"] show ?thesis by (simp add: dec.simps [of n])
    next
      case (Suc v)
      then have "length (dec (n div 10)) \<le> w \<longleftrightarrow> n div 10 < 10 ^ w" using Suc.IH by simp
      moreover have "n div 10 < 10 ^ w \<longleftrightarrow> n < 10 ^ Suc w" by (simp add: div_less_iff_less_mult mult.commute)
      ultimately show ?thesis using False by (simp add: dec.simps [of n])
    qed
  qed
qed simp

lemma val_pad: "val (replicate k CHR ''0'' @ s) = val s"
  by (induction k) (simp_all add: val_def)

lemma zeros_digit: "list_all is_digit (replicate k CHR ''0'')"
  by (induction k) (simp_all add: is_digit_def)

lemma fmt0_digits:
  assumes "0 \<le> x" "x < 10 ^ w" "0 < w"
  shows "list_all is_digit (fmt0 w x)" "length (fmt0 w x) = w" "val (fmt0 w x) = x"
proof -
  have "nat x < 10 ^ w" using assms(1,2) by (simp add: nat_less_iff)
  then have "length (dec (nat x)) \<le> w" using dec_length [OF assms(3)] by simp
  then show "list_all is_digit (fmt0 w x)" "length (fmt0 w x) = w" "val (fmt0 w x) = x"
    using assms(1) dec_props [of "nat x"] zeros_digit by (simp_all add: fmt0_def Let_def val_pad)
qed

lemma ParseDigits_fmt0:
  "0 \<le> x \<Longrightarrow> x < 10 ^ w \<Longrightarrow> 0 < w \<Longrightarrow> ParseDigits w (fmt0 w x @ rest) = Some (x, rest)"
  using ParseDigits_append [of "fmt0 w x" w rest] fmt0_digits [of x w] by simp

section \<open>Parsing what was printed\<close>

lemma ParseFractional_six:
  assumes "0 \<le> x" "x < 1000000"
  shows "ParseFractionalMicros (CHR ''.'' # fmt0 6 x @ CHR ''Z'' # rest) = (Ok, x, CHR ''Z'' # rest)"
proof -
  have f: "list_all is_digit (fmt0 6 x)" "length (fmt0 6 x) = 6" "val (fmt0 6 x) = x"
    using fmt0_digits [of x 6] assms by simp_all
  have loop: "list_all is_digit s \<Longrightarrow> FracLoop (length s) k acc (s @ rest)
      = (k + length s, foldl (\<lambda>acc C. acc * 10 + (code C - code CHR ''0'')) acc s, rest)" for s k acc rest
    by (induction s arbitrary: k acc) auto
  have "FracLoop 6 0 0 (fmt0 6 x @ CHR ''Z'' # rest) = (6, x, CHR ''Z'' # rest)"
    using loop [OF f(1), of 0 0 "CHR ''Z'' # rest"] f(2,3) by (simp add: val_def)
  moreover have "\<not> is_digit CHR ''Z''" by (simp add: is_digit_def)
  ultimately show ?thesis by (simp add: ParseFractionalMicros_def)
qed

text \<open>The text of a date with a four-digit year.\<close>

definition iso_text :: "int \<Rightarrow> int \<Rightarrow> int \<Rightarrow> int \<Rightarrow> int \<Rightarrow> int \<Rightarrow> int \<Rightarrow> string" where
  "iso_text Y M D h m s u = fmt0 4 Y @ ''-'' @ fmt0 2 M @ ''-'' @ fmt0 2 D @ ''T'' @ fmt0 2 h @ '':''
     @ fmt0 2 m @ '':'' @ fmt0 2 s @ ''.'' @ fmt0 6 u @ ''Z''"

definition time_ok :: "int \<Rightarrow> int \<Rightarrow> int \<Rightarrow> int \<Rightarrow> bool" where
  "time_ok h m s u \<longleftrightarrow> 0 \<le> h \<and> h \<le> 23 \<and> 0 \<le> m \<and> m \<le> 59 \<and> 0 \<le> s \<and> s \<le> 59 \<and> 0 \<le> u \<and> u \<le> 999999"

lemma last_day_le: "last_day_of_month y m \<le> 31"
  by (simp add: last_day_of_month_def)

lemma parse_iso_text:
  assumes "0 \<le> Y" "Y \<le> 9999" "valid_date Y M D" "time_ok h m s u"
  shows "ParseIso8601Components (iso_text Y M D h m s u) =
     (Ok, \<lparr>cYear = Y, cMonth = M, cDay = D, cHour = h, cMinute = m, cSecond = s, cMicrosecond = u, cUtcOffsetSec = 0\<rparr>)"
proof -
  have r: "1 \<le> M" "M \<le> 12" "1 \<le> D" "D \<le> last_day_of_month Y M" "0 \<le> h" "h \<le> 23" "0 \<le> m" "m \<le> 59" "0 \<le> s" "s \<le> 59" "0 \<le> u" "u \<le> 999999"
    using assms(3,4) by (auto simp: valid_date_def time_ok_def)
  have D31: "D \<le> 31" using r(4) last_day_le [of Y M] by linarith
  have d: "ParseDigits 4 (fmt0 4 Y @ t) = Some (Y, t)" "ParseDigits 2 (fmt0 2 M @ t) = Some (M, t)"
    "ParseDigits 2 (fmt0 2 D @ t) = Some (D, t)" "ParseDigits 2 (fmt0 2 h @ t) = Some (h, t)"
    "ParseDigits 2 (fmt0 2 m @ t) = Some (m, t)" "ParseDigits 2 (fmt0 2 s @ t) = Some (s, t)" for t
    using assms(1,2) r D31 by (auto intro!: ParseDigits_fmt0)
  have f: "ParseFractionalMicros (CHR ''.'' # fmt0 6 u @ ''Z'') = (Ok, u, ''Z'')"
    using ParseFractional_six [of u "[]"] r by simp
  show ?thesis
    unfolding ParseIso8601Components_def iso_text_def ParsedComponents_zero_def
    using r by (simp add: DigitsStep_def CharStep_def FracStep_def ZoneStep_def EndStep_def RangeStep_def d f ParseTimezone_def Let_def)
qed

lemma split_day:
  "fst (split_day x) = x div MICROS_PER_DAY" "snd (split_day x) = x mod MICROS_PER_DAY"
proof -
  have D: "MICROS_PER_DAY = 86400000000"
    by (simp add: MICROS_PER_DAY_def MICROS_PER_HOUR_def MICROS_PER_MIN_def MICROS_PER_SEC_def)
  have s: "x = x sdiv MICROS_PER_DAY * MICROS_PER_DAY + x smod MICROS_PER_DAY" by (simp add: sdiv_mult_smod_eq)
  have b: "\<bar>x smod MICROS_PER_DAY\<bar> < MICROS_PER_DAY"
    unfolding D by (auto simp: signed_modulo_int_def abs_mult sgn_if)
  have "x div MICROS_PER_DAY = fst (split_day x) \<and> x mod MICROS_PER_DAY = snd (split_day x)"
  proof (cases "x smod MICROS_PER_DAY < 0")
    case True
    have "x div MICROS_PER_DAY = x sdiv MICROS_PER_DAY - 1"
      by (rule int_div_pos_eq [where r = "x smod MICROS_PER_DAY + MICROS_PER_DAY"])
        (use s b True D in \<open>simp_all add: algebra_simps\<close>)
    moreover have "x mod MICROS_PER_DAY = x smod MICROS_PER_DAY + MICROS_PER_DAY"
      by (rule int_mod_pos_eq [where q = "x sdiv MICROS_PER_DAY - 1"])
        (use s b True D in \<open>simp_all add: algebra_simps\<close>)
    ultimately show ?thesis using True by (simp add: split_day_def Let_def)
  next
    case False
    have "x div MICROS_PER_DAY = x sdiv MICROS_PER_DAY"
      by (rule int_div_pos_eq [where r = "x smod MICROS_PER_DAY"])
        (use s b False D in \<open>simp_all add: algebra_simps\<close>)
    moreover have "x mod MICROS_PER_DAY = x smod MICROS_PER_DAY"
      by (rule int_mod_pos_eq [where q = "x sdiv MICROS_PER_DAY"])
        (use s b False D in \<open>simp_all add: algebra_simps\<close>)
    ultimately show ?thesis using False by (simp add: split_day_def Let_def)
  qed
  then show "fst (split_day x) = x div MICROS_PER_DAY" "snd (split_day x) = x mod MICROS_PER_DAY" by simp_all
qed

section \<open>Printing and the accessors\<close>

lemma micros:
  "MICROS_PER_SEC = 1000000" "MICROS_PER_MIN = 60000000" "MICROS_PER_HOUR = 3600000000" "MICROS_PER_DAY = 86400000000"
  by (simp_all add: MICROS_PER_DAY_def MICROS_PER_HOUR_def MICROS_PER_MIN_def MICROS_PER_SEC_def)

text \<open>The clock time of a remainder.\<close>

definition clock :: "int \<Rightarrow> int \<times> int \<times> int \<times> int" where
  "clock r = (r div 3600000000, r mod 3600000000 div 60000000, r mod 60000000 div 1000000, r mod 1000000)"

lemma clock_props:
  assumes "0 \<le> r" "r < 86400000000" "clock r = (h, m, s, u)"
  shows "time_ok h m s u" "h * 3600000000 + m * 60000000 + s * 1000000 + u = r"
proof -
  have e: "h = r div 3600000000" "m = r mod 3600000000 div 60000000" "s = r mod 60000000 div 1000000" "u = r mod 1000000"
    using assms(3) by (simp_all add: clock_def)
  have c: "r mod 3600000000 mod 60000000 = r mod 60000000" "r mod 60000000 mod 1000000 = r mod 1000000"
    by (simp_all add: mod_mod_cancel)
  define a where "a = r mod 3600000000"
  define b where "b = r mod 60000000"
  have "r = 3600000000 * h + a"
    using mult_div_mod_eq [of 3600000000 r] unfolding a_def e by (rule sym)
  moreover have "a = 60000000 * m + b"
    using mult_div_mod_eq [of 60000000 "r mod 3600000000"] unfolding a_def b_def e c by (rule sym)
  moreover have "b = 1000000 * s + u"
    using mult_div_mod_eq [of 1000000 "r mod 60000000"] unfolding b_def e c by (rule sym)
  ultimately have q: "r = 3600000000 * h + a" "a = 60000000 * m + b" "b = 1000000 * s + u" by blast+
  then show "h * 3600000000 + m * 60000000 + s * 1000000 + u = r" by linarith
  have "0 \<le> a" "a < 3600000000" "0 \<le> b" "b < 60000000" "0 \<le> u" "u < 1000000"
    by (simp_all add: a_def b_def e)
  with q assms(1,2) have "0 \<le> h" "h \<le> 23" "0 \<le> m" "m \<le> 59" "0 \<le> s" "s \<le> 59" "0 \<le> u" "u \<le> 999999" by linarith+
  then show "time_ok h m s u" by (simp add: time_ok_def)
qed

lemma day_bounds:
  assumes "fits_i64 t"
  shows "\<bar>t div MICROS_PER_DAY\<bar> \<le> 200000000000" "0 \<le> t mod MICROS_PER_DAY" "t mod MICROS_PER_DAY < 86400000000"
proof -
  have "t < 9223372036854775808" "- 9223372036854775808 \<le> t" using assms by (simp_all add: fits_i64_def)
  then have "t div 86400000000 \<le> 200000000000" "- 200000000000 \<le> t div 86400000000" by linarith+
  then show "\<bar>t div MICROS_PER_DAY\<bar> \<le> 200000000000" by (simp add: micros)
qed (simp_all add: micros)

lemma accessors:
  assumes "fits_i64 (m_unixMicros t)" "clock (m_unixMicros t mod 86400000000) = (h, m, s, u)"
  shows "Hour t = h" "Minute t = m" "Second t = s" "Microsecond t = u"
proof -
  let ?r = "m_unixMicros t mod 86400000000"
  have r: "0 \<le> ?r" "?r < 86400000000" by simp_all
  note c = clock_props [OF r assms(2)]
  have e: "h = ?r div 3600000000" "m = ?r mod 3600000000 div 60000000" "s = ?r mod 60000000 div 1000000" "u = ?r mod 1000000"
    using assms(2) by (simp_all add: clock_def)
  have cc: "?r mod 3600000000 = m_unixMicros t mod 3600000000" "?r mod 60000000 = m_unixMicros t mod 60000000"
    by (simp_all add: mod_mod_cancel)
  have b: "time_ok h m s u" by (rule c)
  show "Hour t = h" "Minute t = m" "Second t = s" "Microsecond t = u"
    using b unfolding Hour_def Minute_def Second_def Microsecond_def split_day micros
    by (simp_all add: sdiv_pos smod_pos e time_ok_def to_i32_id)
qed

lemma fmt0_length: "0 \<le> x \<Longrightarrow> x < 10 ^ w \<Longrightarrow> 0 < w \<Longrightarrow> length (fmt0 w x) = w"
  by (rule fmt0_digits)

lemma Emit_text:
  assumes "fits_i64 t" "civil_from_days (t div MICROS_PER_DAY) = (Y, M, D)" "clock (t mod MICROS_PER_DAY) = (h, m, s, u)"
  shows "EmitIso8601 t 32 = (let text = iso_text Y M D h m s u in (if length text \<ge> 32 then 0 else length text, take 31 text))"
proof -
  let ?r = "t mod 86400000000"
  have r: "0 \<le> ?r" "?r < 86400000000" by simp_all
  have cl: "clock ?r = (h, m, s, u)" using assms(3) by (simp add: micros)
  note c = clock_props [OF r cl]
  have e: "h = ?r div 3600000000" "m = ?r mod 3600000000 div 60000000" "s = ?r mod 60000000 div 1000000" "u = ?r mod 1000000"
    using cl by (simp_all add: clock_def)
  have cc: "?r mod 3600000000 mod 60000000 = ?r mod 60000000" "?r mod 60000000 mod 1000000 = ?r mod 1000000"
    by (simp_all add: mod_mod_cancel)
  have sd: "split_day t = (t div MICROS_PER_DAY, ?r)"
    using split_day [of t] by (cases "split_day t") (simp add: micros)
  have q: "to_i32 (?r sdiv 3600000000) = h" "to_i32 (?r smod 3600000000 sdiv 60000000) = m"
    "to_i32 (?r smod 3600000000 smod 60000000 sdiv 1000000) = s" "to_i32 (?r smod 3600000000 smod 60000000 smod 1000000) = u"
    using c(1) by (simp_all add: sdiv_pos smod_pos cc e [symmetric] time_ok_def to_i32_id)
  show ?thesis
    unfolding EmitIso8601_def sd Let_def prod.case assms(2) unfolding micros q by (simp add: iso_text_def)
qed

lemma iso_text_length:
  assumes "valid_date Y M D" "time_ok h m s u"
  shows "length (iso_text Y M D h m s u) = length (fmt0 4 Y) + 23"
proof -
  have D31: "D \<le> 31" using assms(1) last_day_le [of Y M] by (simp add: valid_date_def)
  have "length (fmt0 2 M) = 2" "length (fmt0 2 D) = 2" "length (fmt0 2 h) = 2" "length (fmt0 2 m) = 2" "length (fmt0 2 s) = 2" "length (fmt0 6 u) = 6"
    using assms D31 by (auto intro!: fmt0_length simp: valid_date_def time_ok_def)
  then show ?thesis by (simp add: iso_text_def)
qed

end
