(* ===== verification/DateTimeTheorems.thy ===== *)
theory DateTimeTheorems
  imports DateTimeText
begin

text \<open>
  What the date classes promise: days and civil dates are inverse to each other, the accessors of
  a date are the fields of a valid date, and the text of a date parses to the same date exactly
  when its year has four digits.
\<close>

text \<open>
  Composing the fields of a representable count goes through the start of its day, which lies
  below the 64-bit range for the counts of the first, partial day.
\<close>

lemma Components_micros:
  assumes "time_ok h m s u" "days_from_civil Y M D = z"
    "z * 86400000000 + (h * 3600000000 + m * 60000000 + s * 1000000 + u) = t" "fits_i64 t"
  shows "ComponentsToUnixMicros \<lparr>cYear = Y, cMonth = M, cDay = D, cHour = h, cMinute = m, cSecond = s, cMicrosecond = u, cUtcOffsetSec = 0\<rparr>
     = (if t < - 9223372022400000000 then None else Some t)"
proof -
  have r: "0 \<le> h" "0 \<le> m" "0 \<le> s" "0 \<le> u"
    "h * 3600000000 + m * 60000000 + s * 1000000 + u < 86400000000"
    using assms(1) by (auto simp: time_ok_def)
  have t: "- 9223372036854775808 \<le> t" "t < 9223372036854775808" using assms(4) by (simp_all add: fits_i64_def)
  show ?thesis
  proof (cases "t < - 9223372022400000000")
    case True
    then have "z * 86400000000 < - 9223372022400000000" using r assms(3) by linarith
    then have "z \<le> - 106751992" by linarith
    then have "\<not> fits_i64 (z * 86400000000)" by (simp add: fits_i64_def)
    with True show ?thesis by (simp add: ComponentsToUnixMicros_def assms(2) micros i64_def)
  next
    case False
    have z: "- 106751991 \<le> z" using False assms(3) r by linarith
    have "fits_i64 (z * 86400000000)" "fits_i64 (z * 86400000000 + h * 3600000000)"
      "fits_i64 (z * 86400000000 + h * 3600000000 + m * 60000000)"
      "fits_i64 (z * 86400000000 + h * 3600000000 + m * 60000000 + s * 1000000)"
      "z * 86400000000 + h * 3600000000 + m * 60000000 + s * 1000000 + u = t"
      unfolding fits_i64_def using z r t assms(3) by simp_all
    with False assms(4) show ?thesis by (simp add: ComponentsToUnixMicros_def assms(2) micros i64_def)
  qed
qed

lemma ToIso8601_text:
  assumes "fits_i64 (m_unixMicros t)"
  obtains Y M D h m s u where "Year t = Y" "Month t = M" "Day t = D" "Hour t = h" "Minute t = m" "Second t = s" "Microsecond t = u"
    "valid_date Y M D" "time_ok h m s u"
    "ComponentsToUnixMicros \<lparr>cYear = Y, cMonth = M, cDay = D, cHour = h, cMinute = m, cSecond = s, cMicrosecond = u, cUtcOffsetSec = 0\<rparr>
       = (if m_unixMicros t < - 9223372022400000000 then None else Some (m_unixMicros t))"
    "ToIso8601 t = (let text = iso_text Y M D h m s u in if length text \<ge> 32 then [] else text)"
proof -
  let ?t = "m_unixMicros t"
  obtain h m s u where c: "clock (?t mod 86400000000) = (h, m, s, u)" by (cases "clock (?t mod 86400000000)")
  note cp = clock_props [OF _ _ c, simplified] and acc = accessors [OF assms c]
  obtain Y M D where d: "civil_from_days (?t div MICROS_PER_DAY) = (Y, M, D)" "valid_date Y M D" "days_from_civil Y M D = ?t div MICROS_PER_DAY"
    by (rule civil_then_days [OF day_bounds(1) [OF assms]])
  have ymd: "Year t = Y" "Month t = M" "Day t = D" by (simp_all add: Year_def Month_def Day_def split_day d)
  have "?t div MICROS_PER_DAY * 86400000000 + (h * 3600000000 + m * 60000000 + s * 1000000 + u) = ?t"
    unfolding cp(2) micros by simp
  note comp = Components_micros [OF cp(1) d(3) this assms]
  have "ToIso8601 t = (let text = iso_text Y M D h m s u in if length text \<ge> 32 then [] else text)"
    using Emit_text [OF assms d(1) c [folded micros(4)]] by (simp add: ToIso8601_def Let_def)
  then show ?thesis using that [OF ymd acc d(2) cp(1) comp] by simp
qed

lemma first_day_year:
  assumes "fits_i64 (m_unixMicros t)" "m_unixMicros t < - 9223372022400000000"
  shows "Year t = - 290308"
proof -
  have "m_unixMicros t div 86400000000 = - 106751992"
    using assms by (simp add: fits_i64_def)
  moreover have "civil_from_days (- 106751992) = (- 290308, 12, 21)" by code_simp
  ultimately show ?thesis by (simp add: Year_def split_day micros)
qed

lemma Malformed_first:
  "ParseDigits 4 s = None \<Longrightarrow> ParseIso8601 s = Some (Inl InvalidUnixTimestamp)"
  by (simp add: ParseIso8601_def ParseIso8601Components_def DigitsStep_def)

lemma long_year_malformed:
  assumes "Y > 9999"
  shows "ParseIso8601 (fmt0 4 Y @ rest) = Some (Inl InvalidUnixTimestamp)"
proof -
  have "\<not> nat Y < 10 ^ 4" using assms by simp
  then have "\<not> length (dec (nat Y)) \<le> 4" using dec_length [of 4 "nat Y"] by simp
  moreover have "fmt0 4 Y = dec (nat Y)" using assms calculation by (simp add: fmt0_def Let_def)
  ultimately have "Suc (Suc (Suc (Suc (Suc 0)))) \<le> length (fmt0 4 Y)" by simp
  then obtain a b c d e s where s: "fmt0 4 Y = [a, b, c, d] @ e # s" by (auto simp: Suc_le_length_iff)
  have "list_all is_digit ([a, b, c, d] @ e # s)"
    using dec_props [of "nat Y"] \<open>fmt0 4 Y = dec (nat Y)\<close> s by simp
  then have dg: "list_all is_digit [a, b, c, d]" "is_digit e" by simp_all
  have "ParseDigits 4 ([a, b, c, d] @ (e # s @ rest)) = Some (val [a, b, c, d], e # s @ rest)"
    by (rule ParseDigits_append [OF dg(1)]) simp
  moreover have "e \<noteq> CHR ''-''" using dg(2) by (auto simp: is_digit_def)
  ultimately show ?thesis
    by (simp add: s ParseIso8601_def ParseIso8601Components_def DigitsStep_def CharStep_def)
qed

section \<open>The properties\<close>

text \<open>
  C22: on the days a 64-bit count of microseconds can reach, \<open>civil_from_days\<close> gives a valid date and
  \<open>days_from_civil\<close> gives the day back; and every valid date is the date of its day.
\<close>

theorem civil_dates_are_inverse:
  "(\<bar>z\<bar> \<le> 200000000000 \<longrightarrow>
      (case civil_from_days z of (y, m, d) \<Rightarrow> valid_date y m d \<and> days_from_civil y m d = z))
   \<and> (valid_date y m d \<and> \<bar>y\<bar> \<le> 2000000000 \<longrightarrow> civil_from_days (days_from_civil y m d) = (y, m, d))"
proof (intro conjI impI)
  assume "\<bar>z\<bar> \<le> 200000000000"
  then show "case civil_from_days z of (y, m, d) \<Rightarrow> valid_date y m d \<and> days_from_civil y m d = z"
    by (rule civil_then_days) simp
next
  assume "valid_date y m d \<and> \<bar>y\<bar> \<le> 2000000000"
  then show "civil_from_days (days_from_civil y m d) = (y, m, d)"
    by (intro days_then_civil) (auto simp: year_fits_def)
qed

theorem civil_dates_are_inverse_witness:
  "(case civil_from_days 11016 of (y, m, d) \<Rightarrow> valid_date y m d \<and> days_from_civil y m d = 11016)
     \<and> civil_from_days (days_from_civil 2000 2 29) = (2000, 2, 29)"
  using civil_dates_are_inverse [of 11016 2000 2 29]
  by (simp add: valid_date_def last_day_of_month_def signed_modulo_int_def)

text \<open>
  C24: the accessors of a date are in their ranges, the day exists in its month, and composing the
  fields gives the count of microseconds back, except for the counts before the first full day
  of the 64-bit range, for which the composition overflows.
\<close>

theorem date_fields_valid:
  assumes "fits_i64 (m_unixMicros t)"
  shows "1 \<le> Month t \<and> Month t \<le> 12 \<and> 1 \<le> Day t \<and> Day t \<le> last_day_of_month (Year t) (Month t)
     \<and> 0 \<le> Hour t \<and> Hour t \<le> 23 \<and> 0 \<le> Minute t \<and> Minute t \<le> 59 \<and> 0 \<le> Second t \<and> Second t \<le> 59
     \<and> 0 \<le> Microsecond t \<and> Microsecond t \<le> 999999
     \<and> ComponentsToUnixMicros \<lparr>cYear = Year t, cMonth = Month t, cDay = Day t, cHour = Hour t, cMinute = Minute t,
          cSecond = Second t, cMicrosecond = Microsecond t, cUtcOffsetSec = 0\<rparr>
        = (if m_unixMicros t < - 9223372022400000000 then None else Some (m_unixMicros t))"
  by (rule ToIso8601_text [OF assms]) (simp add: valid_date_def time_ok_def)

theorem date_fields_valid_witness:
  "1 \<le> Month \<lparr>m_unixMicros = -1\<rparr> \<and> Hour \<lparr>m_unixMicros = -1\<rparr> \<le> 23
   \<and> (let t = \<lparr>m_unixMicros = - (2 ^ 63)\<rparr> in
        ComponentsToUnixMicros \<lparr>cYear = Year t, cMonth = Month t, cDay = Day t, cHour = Hour t, cMinute = Minute t,
          cSecond = Second t, cMicrosecond = Microsecond t, cUtcOffsetSec = 0\<rparr> = None)"
  using date_fields_valid [of "\<lparr>m_unixMicros = -1\<rparr>"] date_fields_valid [of "\<lparr>m_unixMicros = - (2 ^ 63)\<rparr>"]
  by (simp add: fits_i64_def Let_def)

text \<open>
  C23: \<open>ParseIso8601\<close> of \<open>ToIso8601\<close> is the date itself, without an overflow, exactly when its year
  has four digits; every other representable date prints to a text that does not parse back to it.
\<close>

theorem iso8601_roundtrip:
  assumes "fits_i64 (m_unixMicros t)"
  shows "ParseIso8601 (ToIso8601 t) = Some (Inr t) \<longleftrightarrow> 0 \<le> Year t \<and> Year t \<le> 9999"
proof -
  obtain Y M D h m s u where f: "Year t = Y" "valid_date Y M D" "time_ok h m s u"
    "ComponentsToUnixMicros \<lparr>cYear = Y, cMonth = M, cDay = D, cHour = h, cMinute = m, cSecond = s, cMicrosecond = u, cUtcOffsetSec = 0\<rparr>
       = (if m_unixMicros t < - 9223372022400000000 then None else Some (m_unixMicros t))"
    "ToIso8601 t = (let text = iso_text Y M D h m s u in if length text \<ge> 32 then [] else text)"
    by (rule ToIso8601_text [OF assms])
  show ?thesis
  proof (cases "0 \<le> Y \<and> Y \<le> 9999")
    case True
    then have recent: "\<not> m_unixMicros t < - 9223372022400000000" using first_day_year [OF assms] f(1) by auto
    from True have "length (fmt0 4 Y) = 4" by (intro fmt0_length) simp_all
    then have "ToIso8601 t = iso_text Y M D h m s u" using f(5) iso_text_length [OF f(2,3)] by simp
    then have "ParseIso8601 (ToIso8601 t) = Some (Inr \<lparr>m_unixMicros = m_unixMicros t\<rparr>)"
      using parse_iso_text [OF _ _ f(2,3)] True f(4) recent by (simp add: ParseIso8601_def)
    with True f(1) show ?thesis by simp
  next
    case False
    have "ParseIso8601 [] = Some (Inl InvalidUnixTimestamp)" by (rule Malformed_first) (simp add: ParseDigits_def)
    moreover have "ParseIso8601 (iso_text Y M D h m s u) = Some (Inl InvalidUnixTimestamp)"
    proof (cases "Y < 0")
      case True
      have "\<not> is_digit CHR ''-''" by (simp add: is_digit_def)
      then show ?thesis
        using True by (intro Malformed_first) (simp add: ParseDigits_def iso_text_def fmt0_def Let_def eval_nat_numeral)
    next
      case F: False
      then show ?thesis using False by (simp add: iso_text_def long_year_malformed)
    qed
    ultimately have "ParseIso8601 (ToIso8601 t) = Some (Inl InvalidUnixTimestamp)" using f(5) by (simp add: Let_def)
    with False f(1) show ?thesis by auto
  qed
qed

theorem iso8601_roundtrip_witness:
  "ParseIso8601 (ToIso8601 \<lparr>m_unixMicros = 1700000000123456\<rparr>) = Some (Inr \<lparr>m_unixMicros = 1700000000123456\<rparr>)
     \<and> ParseIso8601 (ToIso8601 \<lparr>m_unixMicros = 253402300800000000\<rparr>) \<noteq> Some (Inr \<lparr>m_unixMicros = 253402300800000000\<rparr>)"
proof -
  have "Year \<lparr>m_unixMicros = 1700000000123456\<rparr> = 2023" "Year \<lparr>m_unixMicros = 253402300800000000\<rparr> = 10000"
    by code_simp+
  then show ?thesis
    using iso8601_roundtrip [of "\<lparr>m_unixMicros = 1700000000123456\<rparr>"] iso8601_roundtrip [of "\<lparr>m_unixMicros = 253402300800000000\<rparr>"]
    by (simp add: fits_i64_def)
qed

end
