(* ===== verification/Utf16.thy ===== *)
theory Utf16
  imports XPrelude
begin

unbundle bit_operations_syntax

text \<open>
  UTF-16 strings (\<open>FUTF16String\<close>) and the two hand-written conversions between UTF-8 and UTF-16.
  An \<open>FString\<close> is its UTF-8 bytes; a wide character is its 16-bit unit (the code writes no larger
  value and truncates what it reads).  A converter is the list of the units it writes in order:
  with a null destination the code counts them, with a buffer it stores those that fit.  Lengths,
  indices and counts are \<open>int32\<close>; one that does not fit is an error.  The converter to UTF-16 writes
  no more units than it reads bytes, so only its look-ahead indices may overflow, which
  \<open>Utf8_lookahead_fits\<close> says; the converter to UTF-8 writes up to three bytes for a unit, so it
  carries its count.
\<close>

type_synonym u8 = "8 word"
type_synonym u16 = "16 word"
type_synonym FString = "u8 list"

section \<open>UTF-8 to UTF-16\<close>

text \<open>\<open>None\<close>: the byte is replaced by U+FFFD and skipped.  Otherwise the code point and its length.\<close>

definition Utf8Sequence :: "u8 \<Rightarrow> u8 list \<Rightarrow> (u32 \<times> nat) option" where
  "Utf8Sequence Lead rest =
     (if Lead < 0x80 then Some (ucast Lead, 1)
      else if Lead AND 0xE0 = 0xC0 then
        (case rest of
           B1 # _ \<Rightarrow>
             if B1 AND 0xC0 \<noteq> 0x80 then None
             else let Cp = push_bit 6 (ucast (Lead AND 0x1F)) OR ucast (B1 AND 0x3F) in
               if Cp < 0x80 then None else Some (Cp, 2)
         | _ \<Rightarrow> None)
      else if Lead AND 0xF0 = 0xE0 then
        (case rest of
           B1 # B2 # _ \<Rightarrow>
             if B1 AND 0xC0 \<noteq> 0x80 \<or> B2 AND 0xC0 \<noteq> 0x80 then None
             else let Cp = push_bit 12 (ucast (Lead AND 0x0F)) OR push_bit 6 (ucast (B1 AND 0x3F)) OR ucast (B2 AND 0x3F) in
               if Cp < 0x800 then None
               else if Cp \<ge> 0xD800 \<and> Cp \<le> 0xDFFF then None
               else Some (Cp, 3)
         | _ \<Rightarrow> None)
      else if Lead AND 0xF8 = 0xF0 then
        (case rest of
           B1 # B2 # B3 # _ \<Rightarrow>
             if B1 AND 0xC0 \<noteq> 0x80 \<or> B2 AND 0xC0 \<noteq> 0x80 \<or> B3 AND 0xC0 \<noteq> 0x80 then None
             else let Cp = push_bit 18 (ucast (Lead AND 0x07)) OR push_bit 12 (ucast (B1 AND 0x3F))
                           OR push_bit 6 (ucast (B2 AND 0x3F)) OR ucast (B3 AND 0x3F) in
               if Cp < 0x10000 then None
               else if Cp > 0x10FFFF then None
               else Some (Cp, 4)
         | _ \<Rightarrow> None)
      else None)"

definition WriteUtf16 :: "u32 \<Rightarrow> u16 list" where
  "WriteUtf16 Cp =
     (if Cp < 0x10000 then [ucast Cp]
      else let Adj = Cp - 0x10000 in [ucast (0xD800 + drop_bit 10 Adj), ucast (0xDC00 + (Adj AND 0x3FF))])"

function ConvertUtf8ToUtf16 :: "u8 list \<Rightarrow> u16 list" where
  "ConvertUtf8ToUtf16 [] = []"
| "ConvertUtf8ToUtf16 (Lead # rest) =
     (case Utf8Sequence Lead rest of
        None \<Rightarrow> 0xFFFD # ConvertUtf8ToUtf16 rest
      | Some (Cp, SeqLen) \<Rightarrow> WriteUtf16 Cp @ ConvertUtf8ToUtf16 (drop (SeqLen - 1) rest))"
  by pat_completeness auto
termination
  by (relation "measure length") auto

text \<open>The index of the last byte the converter asks for, at every position it stops at, is an \<open>int32\<close>.\<close>

definition Utf8_lookahead :: "u8 \<Rightarrow> nat" where
  "Utf8_lookahead Lead =
     (if Lead < 0x80 then 0 else if Lead AND 0xE0 = 0xC0 then 1 else if Lead AND 0xF0 = 0xE0 then 2
      else if Lead AND 0xF8 = 0xF0 then 3 else 0)"

function Utf8_lookahead_fits :: "nat \<Rightarrow> u8 list \<Rightarrow> bool" where
  "Utf8_lookahead_fits I [] = (I < 2 ^ 31)"
| "Utf8_lookahead_fits I (Lead # rest) =
     (I + Utf8_lookahead Lead < 2 ^ 31 \<and>
      (case Utf8Sequence Lead rest of
         None \<Rightarrow> Utf8_lookahead_fits (I + 1) rest
       | Some (Cp, SeqLen) \<Rightarrow> Utf8_lookahead_fits (I + SeqLen) (drop (SeqLen - 1) rest)))"
  by pat_completeness auto
termination
  by (relation "measure (\<lambda>(I, bytes). length bytes)") auto

section \<open>UTF-16 to UTF-8\<close>

definition Utf16Sequence :: "u16 \<Rightarrow> u16 list \<Rightarrow> u32 \<times> nat" where
  "Utf16Sequence Unit rest =
     (if Unit \<ge> 0xD800 \<and> Unit \<le> 0xDBFF then
        (case rest of
           [] \<Rightarrow> (0xFFFD, 1)
         | Low # _ \<Rightarrow>
             if Low \<ge> 0xDC00 \<and> Low \<le> 0xDFFF
             then ((push_bit 10 (ucast Unit - 0xD800) OR (ucast Low - 0xDC00)) + 0x10000, 2)
             else (0xFFFD, 1))
      else if Unit \<ge> 0xDC00 \<and> Unit \<le> 0xDFFF then (0xFFFD, 1)
      else (ucast Unit, 1))"

definition WriteUtf8 :: "u32 \<Rightarrow> u8 list" where
  "WriteUtf8 Cp =
     (if Cp < 0x80 then [ucast Cp]
      else if Cp < 0x800 then [ucast (0xC0 OR drop_bit 6 Cp), ucast (0x80 OR (Cp AND 0x3F))]
      else if Cp < 0x10000 then
        [ucast (0xE0 OR drop_bit 12 Cp), ucast (0x80 OR (drop_bit 6 Cp AND 0x3F)), ucast (0x80 OR (Cp AND 0x3F))]
      else
        [ucast (0xF0 OR drop_bit 18 Cp), ucast (0x80 OR (drop_bit 12 Cp AND 0x3F)),
         ucast (0x80 OR (drop_bit 6 Cp AND 0x3F)), ucast (0x80 OR (Cp AND 0x3F))])"

text \<open>From a count of bytes written so far.\<close>

function ConvertUtf16ToUtf8 :: "nat \<Rightarrow> u16 list \<Rightarrow> xerror + u8 list" where
  "ConvertUtf16ToUtf8 OutCount [] = Inr []"
| "ConvertUtf16ToUtf8 OutCount (Unit # rest) =
     (case Utf16Sequence Unit rest of
        (Cp, n) \<Rightarrow>
          in_range (OutCount + length (WriteUtf8 Cp) < 2 ^ 31) (
          rbind (ConvertUtf16ToUtf8 (OutCount + length (WriteUtf8 Cp)) (drop (n - 1) rest)) (\<lambda>bytes.
          Inr (WriteUtf8 Cp @ bytes))))"
  by pat_completeness auto
termination
  by (relation "measure (\<lambda>(OutCount, us). length us)") auto

section \<open>The string class\<close>

text \<open>
  The buffer is the list of its initialised units, from the start; it has room for
  \<open>m_capacity + 1\<close> units.  \<open>None\<close> is the null pointer of a string that was moved from.
\<close>

record FUTF16String =
  m_data :: "u16 list option"
  m_len :: nat
  m_capacity :: nat

text \<open>The size of the buffer, one more than the length asked for, is computed in \<open>int32\<close>.\<close>

definition Utf16_Allocate :: "nat \<Rightarrow> FUTF16String \<Rightarrow> xerror + FUTF16String" where
  "Utf16_Allocate NewLen s =
     in_range (NewLen + 1 < 2 ^ 31) (Inr (s\<lparr>m_data := Some [0], m_len := 0, m_capacity := NewLen\<rparr>))"

definition Utf16_null :: FUTF16String where
  "Utf16_null = \<lparr>m_data = None, m_len = 0, m_capacity = 0\<rparr>"

definition Utf16_Deallocate :: "FUTF16String \<Rightarrow> FUTF16String" where
  "Utf16_Deallocate s = (if m_data s \<noteq> None then s\<lparr>m_data := None, m_len := 0, m_capacity := 0\<rparr> else s)"

definition FUTF16String_ctor :: "xerror + FUTF16String" where
  "FUTF16String_ctor = Utf16_Allocate 0 Utf16_null"

text \<open>A store of units from the start of the buffer, and of the terminator behind them.\<close>

definition store_units :: "u16 list \<Rightarrow> u16 list \<Rightarrow> u16 list" where
  "store_units us buf = us @ drop (length us) buf"

definition AssignFromUtf16 :: "u16 list option \<Rightarrow> nat \<Rightarrow> FUTF16String \<Rightarrow> xerror + FUTF16String" where
  "AssignFromUtf16 Src SrcLen s =
     rbind (if SrcLen > m_capacity s \<or> m_data s = None
            then Utf16_Allocate SrcLen (Utf16_Deallocate s) else Inr s) (\<lambda>s1.
     let buf = the (m_data s1);
         buf1 = (case Src of Some us \<Rightarrow> if SrcLen > 0 then store_units (take SrcLen us) buf else buf | None \<Rightarrow> buf)
     in Inr (s1\<lparr>m_len := SrcLen, m_data := Some (store_units (take SrcLen buf1 @ [0]) buf1)\<rparr>))"

definition Utf16_copy_ctor :: "FUTF16String \<Rightarrow> xerror + FUTF16String" where
  "Utf16_copy_ctor Other = AssignFromUtf16 (m_data Other) (m_len Other) Utf16_null"

definition Utf16_move_ctor :: "FUTF16String \<Rightarrow> FUTF16String \<times> FUTF16String" where
  "Utf16_move_ctor Other = (Other, Utf16_null)"

text \<open>\<open>same\<close>: the two operands are the same object.\<close>

definition Utf16_copy_assign :: "bool \<Rightarrow> FUTF16String \<Rightarrow> FUTF16String \<Rightarrow> xerror + FUTF16String" where
  "Utf16_copy_assign same s Other = (if same then Inr s else AssignFromUtf16 (m_data Other) (m_len Other) s)"

definition Utf16_move_assign :: "bool \<Rightarrow> FUTF16String \<Rightarrow> FUTF16String \<Rightarrow> FUTF16String \<times> FUTF16String" where
  "Utf16_move_assign same s Other =
     (if same then (s, Other)
      else ((Utf16_Deallocate s)\<lparr>m_data := m_data Other, m_len := m_len Other, m_capacity := m_capacity Other\<rparr>,
            Other\<lparr>m_data := None, m_len := 0, m_capacity := 0\<rparr>))"

definition FromFString :: "FString \<Rightarrow> xerror + FUTF16String" where
  "FromFString Src =
     in_range (Utf8_lookahead_fits 0 Src) (
     let RequiredUtf16 = length (ConvertUtf8ToUtf16 Src) in
     rbind FUTF16String_ctor (\<lambda>Result.
     rbind (if RequiredUtf16 > m_capacity Result
            then Utf16_Allocate RequiredUtf16 (Utf16_Deallocate Result) else Inr Result) (\<lambda>R1.
     let units = ConvertUtf8ToUtf16 Src;
         buf = store_units (take (m_capacity R1) units) (the (m_data R1))
     in Inr (R1\<lparr>m_len := length units, m_data := Some (store_units (take (length units) buf @ [0]) buf)\<rparr>))))"

definition WideUnits :: "FUTF16String \<Rightarrow> u16 list" where
  "WideUnits s = (case m_data s of None \<Rightarrow> [] | Some buf \<Rightarrow> take (m_len s) buf)"

definition ToFString :: "FUTF16String \<Rightarrow> xerror + FString" where
  "ToFString Src =
     rbind (ConvertUtf16ToUtf8 0 (WideUnits Src)) (\<lambda>counted.
     if length counted = 0 then Inr []
     else rbind (ConvertUtf16ToUtf8 0 (WideUnits Src)) (\<lambda>bytes. Inr (take (length counted) bytes)))"

definition Utf16_IsEmpty :: "FUTF16String \<Rightarrow> bool" where
  "Utf16_IsEmpty s \<longleftrightarrow> m_len s = 0"

end
