(* ===== verification/Utf16Props.thy ===== *)
theory Utf16Props
  imports Utf16
begin

text \<open>
  Both converters against code points: the encoders \<open>WriteUtf8\<close> and \<open>WriteUtf16\<close> are decoded by the
  other converter, and whatever the input, the output is the encoding of Unicode scalar values.
\<close>

section \<open>Bits of small words\<close>

lemma high_bits: "x < 2 ^ k \<Longrightarrow> k \<le> n \<Longrightarrow> \<not> bit x n" for x :: "'a::len word"
  by (metis bit_take_bit_iff not_less less_mask_eq take_bit_eq_mask)

lemma word_bits8: "list_all (\<lambda>n. bit a n = bit b n) [0 ..< 8] \<Longrightarrow> a = (b :: u8)"
  by (rule bit_word_eqI) (simp add: list_all_iff)

lemma word_bits32: "list_all (\<lambda>n. bit a n = bit b n) [0 ..< 32] \<Longrightarrow> a = (b :: u32)"
  by (rule bit_word_eqI) (simp add: list_all_iff)

lemma upto8: "[0 ..< 8] = [0, 1, 2, 3, 4, 5, 6, 7]" by (simp add: upt_rec)

lemma upto32: "[0 ..< 32] = [0, 1, 2, 3, 4, 5, 6, 7, 8, 9, 10, 11, 12, 13, 14, 15, 16, 17, 18, 19, 20, 21, 22, 23,
    24, 25, 26, 27, 28, 29, 30, 31]" by (simp add: upt_rec)

lemma tail_byte:
  "(ucast (0x80 OR (c AND 0x3F)) :: u8) AND 0xC0 = 0x80"
  "ucast ((ucast (0x80 OR (c AND 0x3F)) :: u8) AND 0x3F) = c AND 0x3F" for c :: u32
proof -
  show "(ucast (0x80 OR (c AND 0x3F)) :: u8) AND 0xC0 = 0x80"
    by (rule word_bits8) (simp add: upto8 bit_simps)
  show "ucast ((ucast (0x80 OR (c AND 0x3F)) :: u8) AND 0x3F) = c AND 0x3F"
    by (rule word_bits32) (simp add: upto32 bit_simps)
qed

lemma top_bit: "bit x 7 \<Longrightarrow> \<not> x < 0x80" for x :: u8
  using high_bits [of x 7 7] by auto

lemma and_differs: "bit (x AND m) n \<noteq> bit y n \<Longrightarrow> x AND m \<noteq> y" for x :: u8
  by auto

lemma lead2:
  fixes c :: u32
  assumes "c < 0x800"
  defines "L \<equiv> ucast (0xC0 OR drop_bit 6 c) :: u8"
  shows "\<not> L < 0x80" "L AND 0xE0 = 0xC0" "push_bit 6 (ucast (L AND 0x1F)) OR (c AND 0x3F) = c"
proof -
  have hi: "\<not> bit c n" if "n \<ge> 11" for n using high_bits [of c 11 n] assms(1) that by simp
  show "\<not> L < 0x80" by (rule top_bit) (simp add: L_def bit_simps)
  show "L AND 0xE0 = 0xC0" by (rule word_bits8) (simp add: L_def upto8 bit_simps hi)
  show "push_bit 6 (ucast (L AND 0x1F)) OR (c AND 0x3F) = c"
    by (rule word_bits32) (simp add: L_def upto32 bit_simps hi)
qed

lemma lead3:
  fixes c :: u32
  assumes "c < 0x10000"
  defines "L \<equiv> ucast (0xE0 OR drop_bit 12 c) :: u8"
  shows "\<not> L < 0x80" "L AND 0xE0 \<noteq> 0xC0" "L AND 0xF0 = 0xE0"
    "push_bit 12 (ucast (L AND 0x0F)) OR push_bit 6 (drop_bit 6 c AND 0x3F) OR (c AND 0x3F) = c"
proof -
  have hi: "\<not> bit c n" if "n \<ge> 16" for n using high_bits [of c 16 n] assms(1) that by simp
  show "\<not> L < 0x80" by (rule top_bit) (simp add: L_def bit_simps)
  show "L AND 0xE0 \<noteq> 0xC0" by (rule and_differs [where n = 5]) (simp add: L_def bit_simps)
  show "L AND 0xF0 = 0xE0" by (rule word_bits8) (simp add: L_def upto8 bit_simps hi)
  show "push_bit 12 (ucast (L AND 0x0F)) OR push_bit 6 (drop_bit 6 c AND 0x3F) OR (c AND 0x3F) = c"
    by (rule word_bits32) (simp add: L_def upto32 bit_simps hi)
qed

lemma lead4:
  fixes c :: u32
  assumes "c \<le> 0x10FFFF"
  defines "L \<equiv> ucast (0xF0 OR drop_bit 18 c) :: u8"
  shows "\<not> L < 0x80" "L AND 0xE0 \<noteq> 0xC0" "L AND 0xF0 \<noteq> 0xE0" "L AND 0xF8 = 0xF0"
    "push_bit 18 (ucast (L AND 0x07)) OR push_bit 12 (drop_bit 12 c AND 0x3F) OR push_bit 6 (drop_bit 6 c AND 0x3F) OR (c AND 0x3F) = c"
proof -
  have "c < 2 ^ 21" using assms(1) by (simp add: word_less_nat_alt word_le_nat_alt)
  then have hi: "\<not> bit c n" if "n \<ge> 21" for n using high_bits [of c 21 n] that by simp
  show "\<not> L < 0x80" by (rule top_bit) (simp add: L_def bit_simps)
  show "L AND 0xE0 \<noteq> 0xC0" by (rule and_differs [where n = 5]) (simp add: L_def bit_simps)
  show "L AND 0xF0 \<noteq> 0xE0" by (rule and_differs [where n = 4]) (simp add: L_def bit_simps)
  show "L AND 0xF8 = 0xF0" by (rule word_bits8) (simp add: L_def upto8 bit_simps hi)
  show "push_bit 18 (ucast (L AND 0x07)) OR push_bit 12 (drop_bit 12 c AND 0x3F) OR push_bit 6 (drop_bit 6 c AND 0x3F) OR (c AND 0x3F) = c"
    by (rule word_bits32) (simp add: L_def upto32 bit_simps hi)
qed

lemma up8: "unat (ucast x :: u32) = unat x" for x :: u8
  using unsigned_less [of x, where 'a = nat] by (simp add: unsigned_ucast_eq take_bit_nat_eq_self_iff)

lemma up16: "unat (ucast x :: u32) = unat x" for x :: u16
  using unsigned_less [of x, where 'a = nat] by (simp add: unsigned_ucast_eq take_bit_nat_eq_self_iff)

section \<open>UTF-8\<close>

definition scalar :: "u32 \<Rightarrow> bool" where
  "scalar c \<longleftrightarrow> c \<le> 0x10FFFF \<and> \<not> (0xD800 \<le> c \<and> c \<le> 0xDFFF)"

lemma Utf8Sequence_WriteUtf8:
  assumes "scalar c"
  shows "\<exists>Lead tl. WriteUtf8 c = Lead # tl \<and> Utf8Sequence Lead (tl @ rest) = Some (c, length (WriteUtf8 c))"
proof -
  have c: "c \<le> 0x10FFFF" "\<not> (0xD800 \<le> c \<and> c \<le> 0xDFFF)" using assms by (auto simp: scalar_def)
  consider "c < 0x80" | "\<not> c < 0x80" "c < 0x800" | "\<not> c < 0x800" "c < 0x10000" | "\<not> c < 0x10000" by blast
  then show ?thesis
  proof cases
    case 1
    then have uc: "unat c < 128" by (simp add: word_less_nat_alt)
    then have e: "unat (ucast c :: u8) = unat c" by (simp add: unsigned_ucast_eq take_bit_nat_eq_self_iff)
    have lt: "(ucast c :: u8) < 0x80" using uc by (simp add: word_less_nat_alt e)
    have eq: "ucast (ucast c :: u8) = c" by (rule word_unat_eq_iff [THEN iffD2]) (simp only: up8 e)
    show ?thesis
      by (rule exI [of _ "ucast c"], rule exI [of _ "[]"]) (simp add: WriteUtf8_def Utf8Sequence_def 1 lt eq)
  next
    case 2
    note l = lead2 [OF 2(2)]
    show ?thesis using 2 l by (simp add: WriteUtf8_def Utf8Sequence_def tail_byte Let_def)
  next
    case 3
    then have "\<not> c < 0x80" by (simp add: word_less_nat_alt)
    with 3 c(2) lead3 [OF 3(2)] show ?thesis by (simp add: WriteUtf8_def Utf8Sequence_def tail_byte Let_def)
  next
    case 4
    then have "\<not> c < 0x80" "\<not> c < 0x800" by (simp_all add: word_less_nat_alt)
    note s = this 4
    have "\<not> c > 0x10FFFF" using c(1) by simp
    note l = lead4 [OF c(1)] this tail_byte
    let ?L = "ucast (0xF0 OR drop_bit 18 c) :: u8"
    let ?tl = "[ucast (0x80 OR (drop_bit 12 c AND 0x3F)), ucast (0x80 OR (drop_bit 6 c AND 0x3F)), ucast (0x80 OR (c AND 0x3F))] :: u8 list"
    have "WriteUtf8 c = ?L # ?tl" unfolding WriteUtf8_def by (simp only: s if_False)
    moreover have "Utf8Sequence ?L (?tl @ rest) = Some (c, 4)"
      unfolding Utf8Sequence_def append_Cons append_Nil list.case Let_def by (simp only: s l if_False if_True simp_thms)
    ultimately show ?thesis by (intro exI conjI) (assumption, simp)
  qed
qed

lemma or_bound: "unat a < 2 ^ k \<Longrightarrow> unat b < 2 ^ k \<Longrightarrow> unat (a OR b) < 2 ^ k" for a b :: u32
proof -
  assume "unat a < 2 ^ k" "unat b < 2 ^ k"
  then have "take_bit k (unat a) = unat a" "take_bit k (unat b) = unat b" by (simp_all add: take_bit_nat_eq_self_iff)
  then have "unat (a OR b) = take_bit k (unat (a OR b))" by (simp add: unsigned_or_eq)
  then show ?thesis by (metis take_bit_nat_less_exp)
qed

lemma part_bound: "unat (push_bit k (ucast (B AND m) :: u32)) \<le> unat m * 2 ^ k" for B m :: u8
proof -
  have "B AND m \<le> m" by (rule word_and_le1)
  then have "unat (ucast (B AND m) :: u32) \<le> unat m" by (simp add: word_le_nat_alt up8)
  then have "push_bit k (unat (ucast (B AND m) :: u32)) \<le> unat m * 2 ^ k" by (simp add: push_bit_eq_mult)
  then show ?thesis
    unfolding unsigned_push_bit_eq using take_bit_nat_less_eq_self order_trans by blast
qed

lemma Utf8Sequence_scalar:
  assumes "Utf8Sequence Lead rest = Some (c, n)"
  shows "scalar c \<and> 1 \<le> n \<and> n \<le> Suc (length rest)"
proof -
  have t: "unat (ucast (B AND 0x3F) :: u32) < 2 ^ 11" "unat (ucast (B AND 0x3F) :: u32) < 2 ^ 16" for B :: u8
    using part_bound [of 0 B "0x3F"] by simp_all
  have m: "unat (push_bit 6 (ucast (B AND 0x3F)) :: u32) < 2 ^ 16" for B :: u8
    using part_bound [of 6 B "0x3F"] by simp
  have l2: "unat (push_bit 6 (ucast (Lead AND 0x1F)) :: u32) < 2 ^ 11" and l3: "unat (push_bit 12 (ucast (Lead AND 0xF)) :: u32) < 2 ^ 16"
    using part_bound [of 6 Lead "0x1F"] part_bound [of 12 Lead "0xF"] by simp_all
  have two: "scalar (push_bit 6 (ucast (Lead AND 0x1F)) OR ucast (B AND 0x3F))" for B :: u8
    using or_bound [OF l2 t(1) [of B]] by (auto simp: scalar_def word_le_nat_alt)
  have three: "push_bit 12 (ucast (Lead AND 0xF)) OR push_bit 6 (ucast (B1 AND 0x3F)) OR ucast (B2 AND 0x3F) \<le> (0x10FFFF :: u32)" for B1 B2 :: u8
    using or_bound [OF l3 or_bound [OF m [of B1] t(2) [of B2]]] by (simp add: word_le_nat_alt)
  consider (1) "Lead < 0x80" | (2) "\<not> Lead < 0x80" "Lead AND 0xE0 = 0xC0"
    | (3) "\<not> Lead < 0x80" "Lead AND 0xE0 \<noteq> 0xC0" "Lead AND 0xF0 = 0xE0"
    | (4) "\<not> Lead < 0x80" "Lead AND 0xE0 \<noteq> 0xC0" "Lead AND 0xF0 \<noteq> 0xE0" by blast
  then show ?thesis
  proof cases
    case 1
    then have "c = ucast Lead" "n = 1" using assms by (simp_all add: Utf8Sequence_def)
    then have "unat c < 256" using unsigned_less [of Lead, where 'a = nat] by (simp add: up8)
    with \<open>n = 1\<close> show ?thesis by (simp add: scalar_def word_le_nat_alt)
  next
    case 2
    show ?thesis
    proof (cases rest)
      case (Cons B1 tl)
      define x where "x = push_bit 6 (ucast (Lead AND 0x1F)) OR (ucast (B1 AND 0x3F) :: u32)"
      have "c = x \<and> n = 2"
        using assms unfolding Utf8Sequence_def Let_def Cons x_def [symmetric]
        by (simp only: 2 if_False if_True list.case simp_thms split: if_splits) (auto simp: x_def)
      with Cons two [of B1] show ?thesis by (simp add: x_def)
    qed (use assms 2 in \<open>simp add: Utf8Sequence_def\<close>)
  next
    case 3
    show ?thesis
    proof (cases "\<exists>B1 B2 tl. rest = B1 # B2 # tl")
      case True
      then obtain B1 B2 tl where r: "rest = B1 # B2 # tl" by blast
      define x where "x = push_bit 12 (ucast (Lead AND 0x0F)) OR push_bit 6 (ucast (B1 AND 0x3F)) OR (ucast (B2 AND 0x3F) :: u32)"
      have "\<not> (0xD800 \<le> c \<and> c \<le> 0xDFFF) \<and> c = x \<and> n = 3"
        using assms unfolding Utf8Sequence_def Let_def r x_def [symmetric]
        by (simp only: 3 if_False if_True list.case simp_thms split: if_splits) (auto simp: x_def)
      moreover have "x \<le> 0x10FFFF" unfolding x_def by (rule three)
      ultimately show ?thesis using r by (auto simp: scalar_def)
    next
      case False
      then have "Utf8Sequence Lead rest = None" using 3 by (auto simp: Utf8Sequence_def split: list.split)
      with assms show ?thesis by simp
    qed
  next
    case 4
    show ?thesis
    proof (cases "\<exists>B1 B2 B3 tl. rest = B1 # B2 # B3 # tl")
      case True
      then obtain B1 B2 B3 tl where r: "rest = B1 # B2 # B3 # tl" by blast
      define x where "x = push_bit 18 (ucast (Lead AND 0x07)) OR push_bit 12 (ucast (B1 AND 0x3F))
                           OR push_bit 6 (ucast (B2 AND 0x3F)) OR (ucast (B3 AND 0x3F) :: u32)"
      have "\<not> c < 0x10000 \<and> \<not> c > 0x10FFFF \<and> n = 4"
        using assms unfolding Utf8Sequence_def Let_def r x_def [symmetric]
        by (simp only: 4 if_False if_True list.case simp_thms split: if_splits) auto
      with r show ?thesis by (auto simp: scalar_def not_less word_less_nat_alt word_le_nat_alt)
    next
      case False
      then have "Utf8Sequence Lead rest = None" using 4 by (auto simp: Utf8Sequence_def split: list.split)
      with assms show ?thesis by simp
    qed
  qed
qed

section \<open>UTF-16\<close>

lemma surrogates:
  fixes c :: u32
  assumes "\<not> c < 0x10000" "c \<le> 0x10FFFF"
  defines "Hi \<equiv> ucast (0xD800 + drop_bit 10 (c - 0x10000)) :: u16" and "Lo \<equiv> ucast (0xDC00 + ((c - 0x10000) AND 0x3FF)) :: u16"
  shows "0xD800 \<le> Hi" "Hi \<le> 0xDBFF" "0xDC00 \<le> Lo" "Lo \<le> 0xDFFF"
    "(push_bit 10 (ucast Hi - 0xD800) OR (ucast Lo - 0xDC00)) + 0x10000 = c"
proof -
  define a where "a = c - 0x10000"
  have a: "a < 2 ^ 20" using assms(1,2) unfolding a_def by (simp add: word_less_nat_alt word_le_nat_alt unat_sub)
  have ua: "unat a < 1048576" using a by (simp add: word_less_nat_alt)
  have h: "unat (drop_bit 10 a) = unat a div 1024" by (simp add: drop_bit_eq_div unat_div)
  have l: "unat (a AND 0x3FF) = unat a mod 1024"
  proof -
    have "a AND 0x3FF = take_bit 10 a" by (simp add: take_bit_eq_mask mask_eq_exp_minus_1)
    then show ?thesis by (simp add: unsigned_take_bit_eq take_bit_eq_mod unat_mod)
  qed
  have uh: "unat (0xD800 + drop_bit 10 a) = 0xD800 + unat a div 1024" using ua h by (subst unat_add_lem [THEN iffD1]) simp_all
  have ul: "unat (0xDC00 + (a AND 0x3FF)) = 0xDC00 + unat a mod 1024" using l by (subst unat_add_lem [THEN iffD1]) simp_all
  have Hi: "unat Hi = 0xD800 + unat a div 1024"
    using ua unfolding Hi_def a_def [symmetric] unsigned_ucast_eq by (simp add: unsigned_take_bit_eq uh take_bit_nat_eq_self_iff)
  have Lo: "unat Lo = 0xDC00 + unat a mod 1024"
    unfolding Lo_def a_def [symmetric] unsigned_ucast_eq by (simp add: unsigned_take_bit_eq ul take_bit_nat_eq_self_iff)
  show "0xD800 \<le> Hi" "Hi \<le> 0xDBFF" "0xDC00 \<le> Lo" "Lo \<le> 0xDFFF"
    using ua Hi Lo by (simp_all add: word_le_nat_alt)
  have eh: "ucast Hi - 0xD800 = drop_bit 10 a"
    by (rule word_unat_eq_iff [THEN iffD2]) (simp add: unat_sub word_le_nat_alt up16 Hi h)
  have el: "ucast Lo - 0xDC00 = a AND 0x3FF"
    by (rule word_unat_eq_iff [THEN iffD2]) (simp add: unat_sub word_le_nat_alt up16 Lo l)
  have hi: "\<not> bit a n" if "n \<ge> 20" for n using high_bits [OF a] that by blast
  have "push_bit 10 (drop_bit 10 a) OR (a AND 0x3FF) = a"
    by (rule word_bits32) (simp add: upto32 bit_simps hi)
  then show "(push_bit 10 (ucast Hi - 0xD800) OR (ucast Lo - 0xDC00)) + 0x10000 = c"
    unfolding eh el by (simp add: a_def)
qed

lemma Utf16Sequence_WriteUtf16:
  assumes "scalar c"
  shows "\<exists>Unit tl. WriteUtf16 c = Unit # tl \<and> Utf16Sequence Unit (tl @ rest) = (c, length (WriteUtf16 c))"
proof (cases "c < 0x10000")
  case True
  then have "unat c < 65536" by (simp add: word_less_nat_alt)
  then have e: "unat (ucast c :: u16) = unat c" by (simp add: unsigned_ucast_eq take_bit_nat_eq_self_iff)
  have eq: "ucast (ucast c :: u16) = c" by (rule word_unat_eq_iff [THEN iffD2]) (simp only: up16 e)
  have "\<not> (0xD800 \<le> (ucast c :: u16) \<and> (ucast c :: u16) \<le> 0xDBFF)" "\<not> (0xDC00 \<le> (ucast c :: u16) \<and> (ucast c :: u16) \<le> 0xDFFF)"
    using assms by (auto simp: scalar_def word_le_nat_alt e)
  then have "Utf16Sequence (ucast c) rest = (c, 1)" by (simp only: Utf16Sequence_def if_False eq)
  with True show ?thesis by (intro exI [of _ "ucast c"] exI [of _ "[]"]) (simp add: WriteUtf16_def)
next
  case False
  then have "c \<le> 0x10FFFF" using assms by (simp add: scalar_def)
  note s = surrogates [OF False this]
  show ?thesis
    by (rule exI, rule exI, rule conjI, simp only: WriteUtf16_def False if_False Let_def)
      (simp only: Utf16Sequence_def append_Cons append_Nil list.case s simp_thms if_True WriteUtf16_def False if_False Let_def, simp)
qed

lemma Utf16Sequence_scalar:
  assumes "Utf16Sequence Unit rest = (c, n)"
  shows "scalar c \<and> 1 \<le> n \<and> n \<le> Suc (length rest)"
proof -
  have fffd: "scalar 0xFFFD" by (simp add: scalar_def)
  have pair: "scalar ((push_bit 10 (ucast Unit - 0xD800) OR (ucast Low - 0xDC00)) + 0x10000)"
    if "0xD800 \<le> Unit" "Unit \<le> 0xDBFF" "0xDC00 \<le> Low" "Low \<le> 0xDFFF" for Low :: u16
  proof -
    have u: "unat (ucast Unit - 0xD800 :: u32) < 1024" "unat (ucast Low - 0xDC00 :: u32) < 1024"
      using that by (simp_all add: unat_sub word_le_nat_alt up16)
    have "unat (push_bit 10 w) < 2 ^ 20" if "unat w < 1024" for w :: u32
    proof -
      have "unat (push_bit 10 w) \<le> push_bit 10 (unat w)"
        unfolding unsigned_push_bit_eq by (rule take_bit_nat_less_eq_self)
      with that show ?thesis by (simp only: push_bit_eq_mult) simp
    qed
    from this [OF u(1)] have "unat (push_bit 10 (ucast Unit - 0xD800) OR (ucast Low - 0xDC00) :: u32) < 2 ^ 20"
      using u by (intro or_bound) simp_all
    then show ?thesis
      by (auto simp: scalar_def word_le_nat_alt unat_add_lem [THEN iffD1])
  qed
  have one: "scalar (ucast Unit)" if "\<not> (0xD800 \<le> Unit \<and> Unit \<le> 0xDBFF)" "\<not> (0xDC00 \<le> Unit \<and> Unit \<le> 0xDFFF)"
    using that unsigned_less [of Unit, where 'a = nat] by (auto simp: scalar_def word_le_nat_alt up16)
  show ?thesis
  proof (cases "0xD800 \<le> Unit \<and> Unit \<le> 0xDBFF")
    case True
    show ?thesis
    proof (cases rest)
      case Nil
      with True assms fffd show ?thesis by (auto simp: Utf16Sequence_def)
    next
      case (Cons Low tl)
      show ?thesis
      proof (cases "0xDC00 \<le> Low \<and> Low \<le> 0xDFFF")
        case True
        with assms pair [of Low] \<open>0xD800 \<le> Unit \<and> Unit \<le> 0xDBFF\<close> Cons show ?thesis by (auto simp: Utf16Sequence_def)
      next
        case False
        with assms fffd \<open>0xD800 \<le> Unit \<and> Unit \<le> 0xDBFF\<close> Cons show ?thesis by (auto simp: Utf16Sequence_def)
      qed
    qed
  next
    case False
    with assms fffd one show ?thesis by (auto simp: Utf16Sequence_def split: if_splits)
  qed
qed

section \<open>Whole strings\<close>

definition utf8_of :: "u32 list \<Rightarrow> u8 list" where "utf8_of cs = concat (map WriteUtf8 cs)"
definition utf16_of :: "u32 list \<Rightarrow> u16 list" where "utf16_of cs = concat (map WriteUtf16 cs)"

lemma Convert_utf8_of: "list_all scalar cs \<Longrightarrow> ConvertUtf8ToUtf16 (utf8_of cs) = utf16_of cs"
proof (induction cs)
  case (Cons c cs)
  then obtain Lead tl where w: "WriteUtf8 c = Lead # tl"
      "Utf8Sequence Lead (tl @ utf8_of cs) = Some (c, length (WriteUtf8 c))"
    using Utf8Sequence_WriteUtf8 [of c "utf8_of cs"] by auto
  then show ?case using Cons by (simp add: utf8_of_def utf16_of_def)
qed (simp add: utf8_of_def utf16_of_def)

text \<open>
  The bytes of a sequence of units, without the count; the converter gives them as long as there
  are fewer than \<open>2^31\<close>.
\<close>

function utf8_bytes :: "u16 list \<Rightarrow> u8 list" where
  "utf8_bytes [] = []"
| "utf8_bytes (Unit # rest) =
     WriteUtf8 (fst (Utf16Sequence Unit rest)) @ utf8_bytes (drop (snd (Utf16Sequence Unit rest) - 1) rest)"
  by pat_completeness auto
termination
  by (relation "measure length") auto

lemma Convert16_bytes:
  "k < 2 ^ 31 \<Longrightarrow> ConvertUtf16ToUtf8 k us =
     (if k + length (utf8_bytes us) < 2 ^ 31 then Inr (utf8_bytes us) else Inl OutOfRange)"
proof (induction k us rule: ConvertUtf16ToUtf8.induct)
  case (2 k Unit rest)
  obtain c n where p: "Utf16Sequence Unit rest = (c, n)" by fastforce
  show ?case
  proof (cases "k + length (WriteUtf8 c) < 2 ^ 31")
    case True
    with 2(1) [OF p [symmetric]] p show ?thesis by (auto simp: in_range_def)
  next
    case False
    with p show ?thesis by (simp add: in_range_def)
  qed
qed simp

lemma utf8_bytes_of: "list_all scalar cs \<Longrightarrow> utf8_bytes (utf16_of cs) = utf8_of cs"
proof (induction cs)
  case (Cons c cs)
  then obtain Unit tl where w: "WriteUtf16 c = Unit # tl"
      "Utf16Sequence Unit (tl @ utf16_of cs) = (c, length (WriteUtf16 c))"
    using Utf16Sequence_WriteUtf16 [of c "utf16_of cs"] by auto
  then show ?case using Cons by (simp add: utf8_of_def utf16_of_def)
qed (simp add: utf8_of_def utf16_of_def)

text \<open>No look-ahead leaves a well-formed text, and the units are no more than the bytes.\<close>

lemma WriteUtf8_lookahead:
  assumes "scalar c" "WriteUtf8 c = Lead # bs"
  shows "Utf8_lookahead Lead = length bs"
proof -
  consider "c < 0x80" | "\<not> c < 0x80" "c < 0x800" | "\<not> c < 0x800" "c < 0x10000" | "\<not> c < 0x10000" by blast
  then show ?thesis
  proof cases
    case 1
    then have "unat c < 128" by (simp add: word_less_nat_alt)
    then have "take_bit 8 (unat c) = unat c" by (simp add: take_bit_nat_eq_self_iff)
    with \<open>unat c < 128\<close> have "(ucast c :: u8) < 0x80" by (simp add: word_less_nat_alt unsigned_ucast_eq)
    with 1 assms(2) show ?thesis by (auto simp: WriteUtf8_def Utf8_lookahead_def)
  next
    case 2
    with lead2 [OF 2(2)] assms(2) show ?thesis by (auto simp: WriteUtf8_def Utf8_lookahead_def)
  next
    case 3
    then have "\<not> c < 0x80" by (simp add: word_less_nat_alt)
    with 3 lead3 [OF 3(2)] assms(2) show ?thesis by (auto simp: WriteUtf8_def Utf8_lookahead_def)
  next
    case 4
    then have "\<not> c < 0x80" "\<not> c < 0x800" by (simp_all add: word_less_nat_alt)
    moreover have "c \<le> 0x10FFFF" using assms(1) by (simp add: scalar_def)
    ultimately show ?thesis using 4 lead4 [of c] assms(2) by (auto simp: WriteUtf8_def Utf8_lookahead_def)
  qed
qed

lemma lookahead_utf8_of:
  "list_all scalar cs \<Longrightarrow> I + length (utf8_of cs) < 2 ^ 31 \<Longrightarrow> Utf8_lookahead_fits I (utf8_of cs)"
proof (induction cs arbitrary: I)
  case (Cons c cs)
  then obtain Lead tl where w: "WriteUtf8 c = Lead # tl"
      "Utf8Sequence Lead (tl @ utf8_of cs) = Some (c, length (WriteUtf8 c))"
    using Utf8Sequence_WriteUtf8 [of c "utf8_of cs"] by auto
  moreover have "Utf8_lookahead Lead = length tl" using Cons.prems(1) by (intro WriteUtf8_lookahead [OF _ w(1)]) simp
  ultimately show ?case
    using Cons.prems Cons.IH [of "I + length (WriteUtf8 c)"] by (simp add: utf8_of_def)
qed (simp add: utf8_of_def)

lemma WriteUtf16_le: "length (WriteUtf16 c) \<le> length (WriteUtf8 c)"
proof (cases "c < 0x10000")
  case False
  then have "\<not> c < 0x80" "\<not> c < 0x800" by (simp_all add: word_less_nat_alt)
  with False show ?thesis by (simp add: WriteUtf16_def WriteUtf8_def Let_def)
qed (simp add: WriteUtf16_def WriteUtf8_def)

lemma utf16_of_le: "length (utf16_of cs) \<le> length (utf8_of cs)"
  using WriteUtf16_le by (induction cs) (auto simp: utf16_of_def utf8_of_def intro: add_mono)

lemma Convert8_scalars: "\<exists>cs. list_all scalar cs \<and> ConvertUtf8ToUtf16 bs = utf16_of cs"
proof (induction bs rule: ConvertUtf8ToUtf16.induct)
  case (2 Lead rest)
  show ?case
  proof (cases "Utf8Sequence Lead rest")
    case None
    with 2(1) obtain cs where "list_all scalar cs" "ConvertUtf8ToUtf16 rest = utf16_of cs" by blast
    moreover have "scalar 0xFFFD" by (simp add: scalar_def)
    ultimately show ?thesis using None
      by (intro exI [of _ "0xFFFD # cs"]) (simp add: utf16_of_def WriteUtf16_def)
  next
    case (Some p)
    obtain c n where p: "p = (c, n)" by (cases p)
    with 2(2) Some obtain cs where "list_all scalar cs" "ConvertUtf8ToUtf16 (drop (n - 1) rest) = utf16_of cs" by blast
    with Some p Utf8Sequence_scalar [of Lead rest c n] show ?thesis
      by (intro exI [of _ "c # cs"]) (simp add: utf16_of_def)
  qed
qed (simp add: utf16_of_def exI [of _ "[]"])

lemma Convert16_scalars: "\<exists>cs. list_all scalar cs \<and> utf8_bytes us = utf8_of cs"
proof (induction us rule: utf8_bytes.induct)
  case (2 Unit rest)
  obtain c n where p: "Utf16Sequence Unit rest = (c, n)" by (cases "Utf16Sequence Unit rest")
  with 2 obtain cs where "list_all scalar cs" "utf8_bytes (drop (n - 1) rest) = utf8_of cs" by (metis snd_conv)
  with p Utf16Sequence_scalar [OF p] show ?case
    by (intro exI [of _ "c # cs"]) (simp add: utf8_of_def)
qed (simp add: utf8_of_def exI [of _ "[]"])

end
