(* ===== verification/Utf16Theorems.thy ===== *)
theory Utf16Theorems
  imports Utf16Props
begin

text \<open>
  The UTF-16 string class: its buffer invariant, what each constructor and assignment makes of the
  text, and the two conversions.
\<close>

section \<open>The buffer\<close>

definition utf16_ok :: "FUTF16String \<Rightarrow> bool" where
  "utf16_ok s \<longleftrightarrow> (case m_data s of
     None \<Rightarrow> m_len s = 0 \<and> m_capacity s = 0
   | Some buf \<Rightarrow> m_len s \<le> m_capacity s \<and> m_len s < length buf \<and> length buf \<le> Suc (m_capacity s) \<and> buf ! m_len s = 0
       \<and> m_capacity s + 1 < 2 ^ 31)"

lemma ctor_ok: "\<exists>s. FUTF16String_ctor = Inr s \<and> utf16_ok s \<and> WideUnits s = []"
  by (simp add: utf16_ok_def FUTF16String_ctor_def Utf16_Allocate_def WideUnits_def in_range_def)

lemma FromFString_units:
  assumes "Utf8_lookahead_fits 0 Src" "length (ConvertUtf8ToUtf16 Src) + 1 < 2 ^ 31"
  obtains w where "FromFString Src = Inr w" "utf16_ok w" "WideUnits w = ConvertUtf8ToUtf16 Src"
  using assms by (cases "ConvertUtf8ToUtf16 Src")
    (auto simp: FromFString_def Let_def FUTF16String_ctor_def Utf16_Allocate_def Utf16_Deallocate_def
      Utf16_null_def store_units_def utf16_ok_def WideUnits_def nth_append in_range_def)

lemma ToFString_bytes:
  "ToFString s = (if length (utf8_bytes (WideUnits s)) < 2 ^ 31 then Inr (utf8_bytes (WideUnits s)) else Inl OutOfRange)"
  by (simp add: ToFString_def Convert16_bytes)

lemma Assign_units:
  assumes "utf16_ok s" "utf16_ok Other"
  obtains s' where "AssignFromUtf16 (m_data Other) (m_len Other) s = Inr s'" "utf16_ok s'" "WideUnits s' = WideUnits Other"
proof -
  define us where "us = (case m_data Other of None \<Rightarrow> [] | Some buf \<Rightarrow> buf)"
  have us: "take (m_len Other) us = WideUnits Other" "m_len Other \<le> length us"
      "m_data Other = Some us \<or> m_data Other = None \<and> m_len Other = 0" "m_len Other + 1 < 2 ^ 31"
    using assms(2) by (auto simp: us_def utf16_ok_def WideUnits_def split: option.splits)
  obtain s1 buf where s1: "(if m_len Other > m_capacity s \<or> m_data s = None
        then Utf16_Allocate (m_len Other) (Utf16_Deallocate s) else Inr s) = Inr s1"
      "m_data s1 = Some buf" "m_len Other \<le> m_capacity s1" "length buf \<le> Suc (m_capacity s1)" "m_capacity s1 + 1 < 2 ^ 31"
  proof (cases "m_len Other > m_capacity s \<or> m_data s = None")
    case True
    then show ?thesis using us(4)
      by (intro that [of "(Utf16_Deallocate s)\<lparr>m_data := Some [0], m_len := 0, m_capacity := m_len Other\<rparr>" "[0]"])
        (auto simp: Utf16_Allocate_def in_range_def)
  next
    case False
    then show ?thesis using assms(1) that by (auto simp: utf16_ok_def not_less)
  qed
  let ?s' = "s1\<lparr>m_len := m_len Other, m_data := Some (WideUnits Other @ [0] @ drop (Suc (m_len Other)) buf)\<rparr>"
  have a: "AssignFromUtf16 (m_data Other) (m_len Other) s = Inr ?s'"
    using us s1(2) by (auto simp: AssignFromUtf16_def s1(1) Let_def store_units_def WideUnits_def min_def)
  have "length (WideUnits Other) = m_len Other" using us(1,2) by (metis length_take min.absorb2)
  then have "utf16_ok ?s'" "WideUnits ?s' = WideUnits Other"
    using s1(3-5) by (simp_all add: utf16_ok_def WideUnits_def nth_append)
  with a show ?thesis by (rule that)
qed

section \<open>The properties\<close>

text \<open>
  C25: a string of Unicode scalar values survives the conversions.  Encoded in UTF-8 it becomes a
  wide string of its UTF-16 units, and that converts back to the same bytes, as long as the bytes
  and a terminator can be counted in an \<open>int32\<close>.  Any wide string of its UTF-16 units converts to its
  UTF-8 bytes when these can be counted, and back; when they cannot, the count overflows.
\<close>

theorem utf_conversions_roundtrip:
  assumes "list_all scalar cs"
  shows "(length (utf8_of cs) + 1 < 2 ^ 31 \<longrightarrow>
        (\<exists>w. FromFString (utf8_of cs) = Inr w \<and> WideUnits w = utf16_of cs \<and> ToFString w = Inr (utf8_of cs)))
     \<and> (WideUnits s = utf16_of cs \<longrightarrow>
        ToFString s = (if length (utf8_of cs) < 2 ^ 31 then Inr (utf8_of cs) else Inl OutOfRange)
        \<and> (length (utf8_of cs) + 1 < 2 ^ 31 \<longrightarrow>
             (\<exists>w. rbind (ToFString s) FromFString = Inr w \<and> WideUnits w = utf16_of cs)))"
proof -
  note c = Convert_utf8_of [OF assms] utf8_bytes_of [OF assms]
  have there: "\<exists>w. FromFString (utf8_of cs) = Inr w \<and> WideUnits w = utf16_of cs"
    if "length (utf8_of cs) + 1 < 2 ^ 31"
  proof -
    have "Utf8_lookahead_fits 0 (utf8_of cs)" using that by (intro lookahead_utf8_of [OF assms]) simp
    moreover have "length (ConvertUtf8ToUtf16 (utf8_of cs)) + 1 < 2 ^ 31" using that utf16_of_le [of cs] c(1) by simp
    ultimately show ?thesis by (rule FromFString_units) (simp add: c)
  qed
  have to_bytes: "ToFString w = (if length (utf8_of cs) < 2 ^ 31 then Inr (utf8_of cs) else Inl OutOfRange)"
    if "WideUnits w = utf16_of cs" for w using that by (simp add: ToFString_bytes c)
  show ?thesis using there to_bytes by auto
qed

theorem utf_conversions_roundtrip_witness:
  "\<exists>w. FromFString (utf8_of [0x41, 0xE9, 0x20AC, 0x1F600]) = Inr w
     \<and> WideUnits w = utf16_of [0x41, 0xE9, 0x20AC, 0x1F600]
     \<and> ToFString w = Inr (utf8_of [0x41, 0xE9, 0x20AC, 0x1F600])"
proof -
  have "length (utf8_of [0x41, 0xE9, 0x20AC, 0x1F600]) + 1 < 2 ^ 31" by (simp add: utf8_of_def WriteUtf8_def)
  with utf_conversions_roundtrip [of "[0x41, 0xE9, 0x20AC, 0x1F600]"] show ?thesis by (simp add: scalar_def)
qed

text \<open>
  Whatever bytes or units come in, the converters put out well-formed text, the encoding of
  scalar values, and the string \<open>FromFString\<close> builds has a terminated buffer of its capacity.
\<close>

theorem utf_output_well_formed:
  "(Utf8_lookahead_fits 0 bytes \<and> length (ConvertUtf8ToUtf16 bytes) + 1 < 2 ^ 31 \<longrightarrow>
      (\<exists>w cs. FromFString bytes = Inr w \<and> utf16_ok w \<and> list_all scalar cs \<and> WideUnits w = utf16_of cs))
     \<and> (\<exists>cs. list_all scalar cs
          \<and> ToFString s = (if length (utf8_of cs) < 2 ^ 31 then Inr (utf8_of cs) else Inl OutOfRange))"
  using FromFString_units [of bytes] Convert8_scalars [of bytes] Convert16_scalars [of "WideUnits s"]
  unfolding ToFString_bytes by metis

text \<open>
  Copying a string, by construction or assignment, gives an equal text in a well-formed buffer;
  moving it gives the text to the target and leaves the source empty; assigning an object to itself
  changes nothing.
\<close>

theorem utf16_copies_and_moves:
  assumes "utf16_ok s" "utf16_ok Other"
  shows "(\<exists>s'. Utf16_copy_ctor Other = Inr s' \<and> utf16_ok s' \<and> WideUnits s' = WideUnits Other)
     \<and> (\<exists>s'. Utf16_copy_assign False s Other = Inr s' \<and> utf16_ok s' \<and> WideUnits s' = WideUnits Other)
     \<and> (case Utf16_move_assign False s Other of (s', Other') \<Rightarrow>
          utf16_ok s' \<and> WideUnits s' = WideUnits Other \<and> utf16_ok Other' \<and> Utf16_IsEmpty Other')
     \<and> Utf16_copy_assign True s s = Inr s \<and> Utf16_move_assign True s s = (s, s)"
proof (intro conjI)
  have null: "utf16_ok Utf16_null" by (simp add: utf16_ok_def Utf16_null_def)
  show "\<exists>s'. Utf16_copy_ctor Other = Inr s' \<and> utf16_ok s' \<and> WideUnits s' = WideUnits Other"
    unfolding Utf16_copy_ctor_def by (rule Assign_units [OF null assms(2)]) blast
  show "\<exists>s'. Utf16_copy_assign False s Other = Inr s' \<and> utf16_ok s' \<and> WideUnits s' = WideUnits Other"
    unfolding Utf16_copy_assign_def if_False by (rule Assign_units [OF assms]) blast
  show "case Utf16_move_assign False s Other of (s', Other') \<Rightarrow>
      utf16_ok s' \<and> WideUnits s' = WideUnits Other \<and> utf16_ok Other' \<and> Utf16_IsEmpty Other'"
    using assms(2) by (simp add: Utf16_move_assign_def Utf16_IsEmpty_def utf16_ok_def WideUnits_def split: option.splits)
qed (simp_all add: Utf16_copy_assign_def Utf16_move_assign_def)

theorem utf16_copies_and_moves_witness:
  "\<exists>s s'. FromFString [0x41, 0x42] = Inr s \<and> Utf16_copy_ctor s = Inr s' \<and> WideUnits s' = [0x41, 0x42]"
proof -
  have seq: "Utf8Sequence 0x41 rest = Some (0x41, 1)" "Utf8Sequence 0x42 rest = Some (0x42, 1)" for rest
    by (simp_all add: Utf8Sequence_def)
  have u: "ConvertUtf8ToUtf16 [0x41, 0x42] = [0x41, 0x42]" by (simp add: seq WriteUtf16_def)
  have "Utf8_lookahead_fits 0 [0x41, 0x42]" by (simp add: seq Utf8_lookahead_def)
  then obtain w where w: "FromFString [0x41, 0x42] = Inr w" "utf16_ok w" "WideUnits w = [0x41, 0x42]"
    by (rule FromFString_units) (simp_all add: u del: ConvertUtf8ToUtf16.simps)
  with utf16_copies_and_moves [OF w(2,2)] show ?thesis by auto
qed

end
