(* ===== verification/MpscQueue.thy ===== *)
theory MpscQueue
  imports XPrelude
begin

text \<open>
  \<open>TBoundedMpscQueue<T, N>\<close> (\<open>Public/HAL/TBoundedMpscQueue.h\<close>), the bounded ring that carries
  freed blocks from many threads to the one that owns them.  The two operations are not
  functions but programs of atomic actions that other threads interleave with, so the queue
  is a step relation: every producer has a program counter in \<open>TryEnqueueImpl\<close>, the single
  consumer one in \<open>TryDequeue\<close>, and one rule of \<open>mpsc_step\<close> is one access to shared memory.
  Accesses are interleaved sequentially; the C++ memory orders are not modelled.  Positions
  and sequence numbers are 64-bit words, compared the way the source compares them, by the
  difference of their signed readings.
\<close>

section \<open>The ring\<close>

text \<open>\<open>FSlot\<close>; \<open>None\<close> is storage that holds no constructed value.\<close>

record 'a mslot =
  Sequence :: u64
  ValueStorage :: "'a option"

record 'a mpsc =
  mq_slots :: "'a mslot list"
  mq_enqueuePos :: u64
  mq_dequeuePos :: u64

definition mpsc_capacity_ok :: "nat \<Rightarrow> bool" where
  "mpsc_capacity_ok N \<longleftrightarrow> 0 < N \<and> (of_nat N :: u64) AND (of_nat N - 1) = 0"

definition mpsc_ctor :: "nat \<Rightarrow> 'a mpsc" where
  "mpsc_ctor N = \<lparr> mq_slots = replicate N \<lparr> Sequence = 0, ValueStorage = None \<rparr>,
                   mq_enqueuePos = 0, mq_dequeuePos = 0 \<rparr>"

definition mpsc_Initialize :: "'a mpsc \<Rightarrow> 'a mpsc" where
  "mpsc_Initialize q =
     q \<lparr> mq_slots := map (\<lambda>i. (mq_slots q ! i) \<lparr> Sequence := of_nat i \<rparr>) [0..<length (mq_slots q)],
         mq_enqueuePos := 0, mq_dequeuePos := 0 \<rparr>"

text \<open>\<open>Pos & kIndexMask\<close>\<close>

definition SlotIdx :: "'a mpsc \<Rightarrow> u64 \<Rightarrow> nat" where
  "SlotIdx q Pos = unat (Pos AND (of_nat (length (mq_slots q)) - 1))"

definition mpsc_slot :: "'a mpsc \<Rightarrow> u64 \<Rightarrow> 'a mslot" where
  "mpsc_slot q Pos = mq_slots q ! SlotIdx q Pos"

definition set_slot :: "u64 \<Rightarrow> ('a mslot \<Rightarrow> 'a mslot) \<Rightarrow> 'a mpsc \<Rightarrow> 'a mpsc" where
  "set_slot Pos f q = q \<lparr> mq_slots := (mq_slots q) [SlotIdx q Pos := f (mpsc_slot q Pos)] \<rparr>"

text \<open>\<open>static_cast<ptrdiff_t>(Seq) - static_cast<ptrdiff_t>(Pos)\<close>\<close>

definition mpsc_diff :: "u64 \<Rightarrow> u64 \<Rightarrow> int" where
  "mpsc_diff Seq Pos = sint Seq - sint Pos"

definition mpsc_Size :: "'a mpsc \<Rightarrow> u64" where
  "mpsc_Size q = (if mq_dequeuePos q \<le> mq_enqueuePos q
                  then mq_enqueuePos q - mq_dequeuePos q else 0)"

definition mpsc_Capacity :: "'a mpsc \<Rightarrow> nat" where
  "mpsc_Capacity q = length (mq_slots q)"

text \<open>
  The destructor runs over the positions from \<open>dequeuePos\<close> up to \<open>enqueuePos\<close>; to run \<open>~T\<close>
  on storage without a constructed value is undefined behaviour.
\<close>

definition mpsc_dtor :: "'a mpsc \<Rightarrow> xerror + 'a mpsc" where
  "mpsc_dtor q =
     fold_res (\<lambda>i q'. let P = mq_dequeuePos q + of_nat i in
                  (case ValueStorage (mpsc_slot q' P) of
                     None \<Rightarrow> Inl OutOfRange
                   | Some _ \<Rightarrow> Inr (set_slot P (\<lambda>sl. sl \<lparr> ValueStorage := None \<rparr>) q')))
       [0..<unat (mq_enqueuePos q - mq_dequeuePos q)] q"

section \<open>The threads\<close>

text \<open>
  The points of \<open>TryEnqueueImpl\<close> between two accesses: \<open>P_Load\<close> before a load of
  \<open>m_enqueuePos\<close> (on entry and after \<open>Diff > 0\<close>), \<open>P_Loop\<close> at the head of the loop with the
  local \<open>Pos\<close>, \<open>P_Claim\<close> before the compare-exchange, \<open>P_Construct\<close> and \<open>P_Publish\<close> before
  the construction and before the store of the sequence number.
\<close>

datatype 'a producer =
    P_Idle
  | P_Load 'a
  | P_Loop 'a u64
  | P_Claim 'a u64
  | P_Construct 'a u64
  | P_Publish 'a u64

datatype 'a consumer =
    C_Idle
  | C_Check u64
  | C_Take u64
  | C_Free u64 'a
  | C_Advance u64 'a

record 'a msys =
  ring :: "'a mpsc"
  ppc :: "nat \<Rightarrow> 'a producer"
  cpc :: "'a consumer"

text \<open>What a step does that a caller, or the order of claims, can see.\<close>

datatype 'a mevent =
    Silent
  | Called nat 'a
  | Claimed nat 'a
  | Sent nat 'a       \<comment> \<open>\<open>TryEnqueue\<close> returned true\<close>
  | Full nat          \<comment> \<open>\<open>TryEnqueue\<close> returned false\<close>
  | Taken 'a
  | Received 'a       \<comment> \<open>\<open>TryDequeue\<close> returned true with this item\<close>
  | Empty             \<comment> \<open>\<open>TryDequeue\<close> returned false\<close>

abbreviation set_ppc :: "nat \<Rightarrow> 'a producer \<Rightarrow> 'a msys \<Rightarrow> 'a msys" where
  "set_ppc p pc s \<equiv> s \<lparr> ppc := (ppc s) (p := pc) \<rparr>"

text \<open>
  One rule per access.  \<open>compare_exchange_weak\<close> may fail although the values agree, and a
  failure, spurious or not, leaves the current position in \<open>Pos\<close>.
\<close>

inductive mpsc_step :: "'a msys \<Rightarrow> 'a mevent \<Rightarrow> 'a msys \<Rightarrow> bool" where
  Call: "ppc s p = P_Idle \<Longrightarrow> mpsc_step s (Called p x) (set_ppc p (P_Load x) s)"
| LoadPos: "ppc s p = P_Load x \<Longrightarrow>
    mpsc_step s Silent (set_ppc p (P_Loop x (mq_enqueuePos (ring s))) s)"
| SeqReady: "ppc s p = P_Loop x Pos \<Longrightarrow>
    mpsc_diff (Sequence (mpsc_slot (ring s) Pos)) Pos = 0 \<Longrightarrow>
    mpsc_step s Silent (set_ppc p (P_Claim x Pos) s)"
| SeqFull: "ppc s p = P_Loop x Pos \<Longrightarrow>
    mpsc_diff (Sequence (mpsc_slot (ring s) Pos)) Pos < 0 \<Longrightarrow>
    mpsc_step s (Full p) (set_ppc p P_Idle s)"
| SeqAhead: "ppc s p = P_Loop x Pos \<Longrightarrow>
    0 < mpsc_diff (Sequence (mpsc_slot (ring s) Pos)) Pos \<Longrightarrow>
    mpsc_step s Silent (set_ppc p (P_Load x) s)"
| CasFail: "ppc s p = P_Claim x Pos \<Longrightarrow>
    mpsc_step s Silent (set_ppc p (P_Loop x (mq_enqueuePos (ring s))) s)"
| CasWin: "ppc s p = P_Claim x Pos \<Longrightarrow> mq_enqueuePos (ring s) = Pos \<Longrightarrow>
    mpsc_step s (Claimed p x)
      (set_ppc p (P_Construct x Pos) (s \<lparr> ring := (ring s) \<lparr> mq_enqueuePos := Pos + 1 \<rparr> \<rparr>))"
| ConstructValue: "ppc s p = P_Construct x Pos \<Longrightarrow>
    mpsc_step s Silent
      (set_ppc p (P_Publish x Pos)
        (s \<lparr> ring := set_slot Pos (\<lambda>sl. sl \<lparr> ValueStorage := Some x \<rparr>) (ring s) \<rparr>))"
| Publish: "ppc s p = P_Publish x Pos \<Longrightarrow>
    mpsc_step s (Sent p x)
      (set_ppc p P_Idle
        (s \<lparr> ring := set_slot Pos (\<lambda>sl. sl \<lparr> Sequence := Pos + 1 \<rparr>) (ring s) \<rparr>))"
| Dequeue: "cpc s = C_Idle \<Longrightarrow>
    mpsc_step s Silent (s \<lparr> cpc := C_Check (mq_dequeuePos (ring s)) \<rparr>)"
| SeqEmpty: "cpc s = C_Check Pos \<Longrightarrow>
    mpsc_diff (Sequence (mpsc_slot (ring s) Pos)) (Pos + 1) \<noteq> 0 \<Longrightarrow>
    mpsc_step s Empty (s \<lparr> cpc := C_Idle \<rparr>)"
| SeqPublished: "cpc s = C_Check Pos \<Longrightarrow>
    mpsc_diff (Sequence (mpsc_slot (ring s) Pos)) (Pos + 1) = 0 \<Longrightarrow>
    mpsc_step s Silent (s \<lparr> cpc := C_Take Pos \<rparr>)"
| MoveOut: "cpc s = C_Take Pos \<Longrightarrow> ValueStorage (mpsc_slot (ring s) Pos) = Some x \<Longrightarrow>
    mpsc_step s (Taken x)
      (s \<lparr> ring := set_slot Pos (\<lambda>sl. sl \<lparr> ValueStorage := None \<rparr>) (ring s),
           cpc := C_Free Pos x \<rparr>)"
| FreeSlot: "cpc s = C_Free Pos x \<Longrightarrow>
    mpsc_step s Silent
      (s \<lparr> ring := set_slot Pos
              (\<lambda>sl. sl \<lparr> Sequence := Pos + of_nat (length (mq_slots (ring s))) \<rparr>) (ring s),
           cpc := C_Advance Pos x \<rparr>)"
| Advance: "cpc s = C_Advance Pos x \<Longrightarrow>
    mpsc_step s (Received x)
      (s \<lparr> ring := (ring s) \<lparr> mq_dequeuePos := Pos + 1 \<rparr>, cpc := C_Idle \<rparr>)"

definition mpsc_start :: "nat \<Rightarrow> 'a msys" where
  "mpsc_start N = \<lparr> ring = mpsc_Initialize (mpsc_ctor N), ppc = (\<lambda>_. P_Idle), cpc = C_Idle \<rparr>"

text \<open>The runs of the queue from a state, with the events in the order they happen.\<close>

inductive mpsc_exec :: "'a msys \<Rightarrow> 'a mevent list \<Rightarrow> 'a msys \<Rightarrow> bool" for s0 where
  exec_nil: "mpsc_exec s0 [] s0"
| exec_step: "mpsc_exec s0 tr s \<Longrightarrow> mpsc_step s e s' \<Longrightarrow> mpsc_exec s0 (tr @ [e]) s'"

section \<open>What a trace says\<close>

definition claims :: "'a mevent list \<Rightarrow> (nat \<times> 'a) list" where
  "claims tr = List.map_filter (\<lambda>e. case e of Claimed p x \<Rightarrow> Some (p, x) | _ \<Rightarrow> None) tr"

definition takes :: "'a mevent list \<Rightarrow> 'a list" where
  "takes tr = List.map_filter (\<lambda>e. case e of Taken x \<Rightarrow> Some x | _ \<Rightarrow> None) tr"

definition received :: "'a mevent list \<Rightarrow> 'a list" where
  "received tr = List.map_filter (\<lambda>e. case e of Received x \<Rightarrow> Some x | _ \<Rightarrow> None) tr"

definition sent :: "nat \<Rightarrow> 'a mevent list \<Rightarrow> 'a list" where
  "sent p tr = List.map_filter (\<lambda>e. case e of Sent p' x \<Rightarrow> if p' = p then Some x else None | _ \<Rightarrow> None) tr"

definition claims_of :: "nat \<Rightarrow> 'a mevent list \<Rightarrow> 'a list" where
  "claims_of p tr = map snd (filter (\<lambda>(p', x). p' = p) (claims tr))"

lemmas trace_defs = claims_def takes_def received_def sent_def

lemma trace_Nil [simp]: "claims [] = []" "takes [] = []" "received [] = []" "sent p [] = []"
  by (simp_all add: trace_defs List.map_filter_def)

lemma claims_snoc [simp]:
  "claims (tr @ [e]) = claims tr @ (case e of Claimed p x \<Rightarrow> [(p, x)] | _ \<Rightarrow> [])"
  by (cases e) (simp_all add: trace_defs List.map_filter_def)

lemma takes_snoc [simp]:
  "takes (tr @ [e]) = takes tr @ (case e of Taken x \<Rightarrow> [x] | _ \<Rightarrow> [])"
  by (cases e) (simp_all add: trace_defs List.map_filter_def)

lemma received_snoc [simp]:
  "received (tr @ [e]) = received tr @ (case e of Received x \<Rightarrow> [x] | _ \<Rightarrow> [])"
  by (cases e) (simp_all add: trace_defs List.map_filter_def)

lemma sent_snoc [simp]:
  "sent p (tr @ [e]) = sent p tr @ (case e of Sent p' x \<Rightarrow> if p' = p then [x] else [] | _ \<Rightarrow> [])"
  by (cases e) (simp_all add: trace_defs List.map_filter_def)

lemma claims_of_snoc [simp]:
  "claims_of p (tr @ [e]) =
     claims_of p tr @ (case e of Claimed p' x \<Rightarrow> if p' = p then [x] else [] | _ \<Rightarrow> [])"
  by (cases e) (simp_all add: claims_of_def)

lemma claims_of_Nil [simp]: "claims_of p [] = []"
  by (simp add: claims_of_def)

section \<open>Positions as numbers\<close>

lemma SlotIdx_mod:
  assumes "length (mq_slots q) = 2 ^ k" "k < 64"
  shows "SlotIdx q Pos = unat Pos mod length (mq_slots q)"
proof -
  have "(of_nat (2 ^ k) :: u64) - 1 = mask k" by (simp add: mask_eq_exp_minus_1)
  then have "SlotIdx q Pos = unat (take_bit k Pos)"
    by (simp add: SlotIdx_def assms take_bit_eq_mask)
  also have "\<dots> = take_bit k (unat Pos)" by (rule unsigned_take_bit_eq)
  finally show ?thesis by (simp add: take_bit_eq_mod assms)
qed

lemma mpsc_diff_nat:
  assumes "unat a < 2 ^ 63" "unat b < 2 ^ 63"
  shows "mpsc_diff a b = int (unat a) - int (unat b)"
proof -
  have "sint (c :: u64) = int (unat c)" if "unat c < 2 ^ 63" for c
  proof -
    have "uint c < 2 ^ 63"
      using that of_nat_less_iff [of "unat c" "2 ^ 63", where 'a = int] by simp
    then have small: "take_bit 63 (uint c) = uint c"
      by (simp add: take_bit_int_eq_self_iff)
    then have "\<not> bit (uint c) 63"
      using bit_take_bit_iff [of 63 "uint c" 63] by simp
    with small show ?thesis
      by (simp add: sint_uint signed_take_bit_eq_if_positive)
  qed
  with assms show ?thesis by (simp add: mpsc_diff_def)
qed

lemma unat_succ: "unat (a :: u64) + 1 < 2 ^ 64 \<Longrightarrow> unat (a + 1) = unat a + 1"
  by (simp add: unat_add_lem [THEN iffD1])

lemma unat_plus_nat:
  "unat (a :: u64) + n < 2 ^ 64 \<Longrightarrow> unat (a + of_nat n) = unat a + n"
  using unat_add_lem [of a "of_nat n"] by (simp add: unat_of_nat)

lemma window_mod_inj:
  assumes "B \<le> t" "t < B + n" "B \<le> u" "u < B + n" "t mod n = u mod n"
  shows "t = (u::nat)"
proof -
  have "a = b" if "a \<le> b" "b < a + n" "b mod n = a mod n" for a b :: nat
  proof -
    from that(1,3) have "n dvd b - a" by (simp add: mod_eq_dvd_iff_nat)
    with that show ?thesis using dvd_imp_le [of n "b - a"] by linarith
  qed
  from this [of t u] this [of u t] show ?thesis
    using assms by (cases "t \<le> u") simp_all
qed

end
