(* ===== verification/MpscProps.thy ===== *)
theory MpscProps
  imports MpscQueue
begin

text \<open>
  The invariant of the bounded queue and its proof, one lemma per rule of \<open>mpsc_step\<close>.
  The window of \<open>N\<close> tickets that starts at the first slot not yet given back is in
  one-to-one correspondence with the slots of the ring, and each slot is free, owned by
  the producer that claimed its ticket, or published, according to its sequence number.
\<close>

section \<open>The invariant\<close>

definition tslot :: "'a msys \<Rightarrow> nat \<Rightarrow> 'a mslot" where
  "tslot s t = mq_slots (ring s) ! (t mod length (mq_slots (ring s)))"

definition owns :: "'a msys \<Rightarrow> nat \<Rightarrow> nat \<Rightarrow> bool" where
  "owns s p t = (case ppc s p of P_Construct x Pos \<Rightarrow> unat Pos = t
                 | P_Publish x Pos \<Rightarrow> unat Pos = t | _ \<Rightarrow> False)"

text \<open>The consumer has moved the item out but not yet given the slot back.\<close>

definition freeing :: "'a msys \<Rightarrow> bool" where
  "freeing s = (case cpc s of C_Free Pos x \<Rightarrow> True | _ \<Rightarrow> False)"

definition given_back :: "'a msys \<Rightarrow> nat \<Rightarrow> nat" where
  "given_back s T = (if freeing s then T - 1 else T)"

definition producer_ok :: "'a msys \<Rightarrow> (nat \<times> 'a) list \<Rightarrow> nat \<Rightarrow> nat \<Rightarrow> bool" where
  "producer_ok s C B p = (case ppc s p of
       P_Idle \<Rightarrow> True
     | P_Load x \<Rightarrow> True
     | P_Loop x Pos \<Rightarrow> unat Pos \<le> length C
     | P_Claim x Pos \<Rightarrow> unat Pos \<le> length C \<and>
         (unat Pos = length C \<longrightarrow> length C < B + length (mq_slots (ring s)))
     | P_Construct x Pos \<Rightarrow> B \<le> unat Pos \<and> unat Pos < length C \<and> C ! unat Pos = (p, x) \<and>
         unat (Sequence (tslot s (unat Pos))) = unat Pos \<and>
         ValueStorage (tslot s (unat Pos)) = None
     | P_Publish x Pos \<Rightarrow> B \<le> unat Pos \<and> unat Pos < length C \<and> C ! unat Pos = (p, x) \<and>
         unat (Sequence (tslot s (unat Pos))) = unat Pos \<and>
         ValueStorage (tslot s (unat Pos)) = Some x)"

definition published :: "'a msys \<Rightarrow> (nat \<times> 'a) list \<Rightarrow> nat \<Rightarrow> nat \<Rightarrow> bool" where
  "published s C B t \<longleftrightarrow> unat (Sequence (tslot s t)) = t + 1 \<and>
     ValueStorage (tslot s t) = (if freeing s \<and> t = B then None else Some (snd (C ! t)))"

definition slot_ok :: "'a msys \<Rightarrow> (nat \<times> 'a) list \<Rightarrow> nat \<Rightarrow> nat \<Rightarrow> bool" where
  "slot_ok s C B t =
     (if t < length C
      then unat (Sequence (tslot s t)) = t \<and> owns s (fst (C ! t)) t \<or> published s C B t
      else unat (Sequence (tslot s t)) = t \<and> ValueStorage (tslot s t) = None)"

definition consumer_ok :: "'a msys \<Rightarrow> (nat \<times> 'a) list \<Rightarrow> nat \<Rightarrow> bool" where
  "consumer_ok s C T = (case cpc s of
       C_Idle \<Rightarrow> unat (mq_dequeuePos (ring s)) = T
     | C_Check Pos \<Rightarrow> unat (mq_dequeuePos (ring s)) = T \<and> unat Pos = T
     | C_Take Pos \<Rightarrow> unat (mq_dequeuePos (ring s)) = T \<and> unat Pos = T \<and> T < length C \<and>
         unat (Sequence (tslot s T)) = T + 1
     | C_Free Pos x \<Rightarrow> unat (mq_dequeuePos (ring s)) + 1 = T \<and> unat Pos + 1 = T \<and>
         T \<le> length C \<and> unat (Sequence (tslot s (T - 1))) = T \<and> x = snd (C ! (T - 1))
     | C_Advance Pos x \<Rightarrow> unat (mq_dequeuePos (ring s)) + 1 = T \<and> unat Pos + 1 = T \<and>
         T \<le> length C \<and> x = snd (C ! (T - 1)))"

definition mpsc_inv :: "nat \<Rightarrow> 'a msys \<Rightarrow> (nat \<times> 'a) list \<Rightarrow> 'a list \<Rightarrow> bool" where
  "mpsc_inv k s C Tk \<longleftrightarrow>
     length (mq_slots (ring s)) = 2 ^ k \<and> 0 < k \<and> k < 63 \<and>
     unat (mq_enqueuePos (ring s)) = length C \<and>
     Tk = take (length Tk) (map snd C) \<and> length Tk \<le> length C \<and>
     length C \<le> given_back s (length Tk) + 2 ^ k \<and>
     length C + 2 ^ k < 2 ^ 63 \<and>
     consumer_ok s C (length Tk) \<and>
     (\<forall>p. producer_ok s C (given_back s (length Tk)) p) \<and>
     (\<forall>t. given_back s (length Tk) \<le> t \<and> t < given_back s (length Tk) + 2 ^ k \<longrightarrow>
          slot_ok s C (given_back s (length Tk)) t)"

named_theorems mpsc_defs \<open>the parts of the invariant of the bounded queue\<close>

lemmas [mpsc_defs] = tslot_def owns_def freeing_def given_back_def producer_ok_def
  published_def slot_ok_def consumer_ok_def

section \<open>Slots by ticket\<close>

lemma mpsc_slot_tslot:
  assumes "length (mq_slots (ring s)) = 2 ^ k" "k < 64"
  shows "mpsc_slot (ring s) Pos = tslot s (unat Pos)"
  using assms by (simp add: mpsc_slot_def tslot_def SlotIdx_mod [of _ k])

lemma tslot_set_slot:
  assumes "length (mq_slots (ring s)) = 2 ^ k" "k < 64"
    and "B \<le> t" "t < B + 2 ^ k" "B \<le> unat Pos" "unat Pos < B + 2 ^ k"
    and "mq_slots (ring s') = mq_slots (set_slot Pos f (ring s))"
  shows "tslot s' t = (if t = unat Pos then f (tslot s t) else tslot s t)"
proof -
  have idx: "SlotIdx (ring s) Pos = unat Pos mod 2 ^ k" using assms(1,2) SlotIdx_mod by metis
  have len: "length (mq_slots (ring s')) = 2 ^ k" using assms by (simp add: set_slot_def)
  show ?thesis
  proof (cases "t = unat Pos")
    case True
    then show ?thesis
      using assms by (simp add: tslot_def len set_slot_def idx mpsc_slot_def)
  next
    case False
    then have "t mod 2 ^ k \<noteq> unat Pos mod 2 ^ k"
      using window_mod_inj [of B t "2 ^ k" "unat Pos"] assms by blast
    then show ?thesis using assms False by (simp add: tslot_def len set_slot_def idx)
  qed
qed

lemma mpsc_invD:
  assumes "mpsc_inv k s C Tk"
  shows "length (mq_slots (ring s)) = 2 ^ k" "0 < k" "k < 63"
    "unat (mq_enqueuePos (ring s)) = length C"
    "Tk = take (length Tk) (map snd C)" "length Tk \<le> length C"
    "length C \<le> given_back s (length Tk) + 2 ^ k" "length C + 2 ^ k < 2 ^ 63"
    "consumer_ok s C (length Tk)"
    "producer_ok s C (given_back s (length Tk)) p"
    "given_back s (length Tk) \<le> t \<Longrightarrow> t < given_back s (length Tk) + 2 ^ k \<Longrightarrow>
       slot_ok s C (given_back s (length Tk)) t"
  using assms by (simp_all add: mpsc_inv_def)

text \<open>The tickets of the window are apart by less than the capacity.\<close>

lemma window_ticket:
  assumes "0 < n" "q \<le> B + n"
  obtains t where "B \<le> t" "t < B + n" "t mod n = q mod (n::nat)" "q \<le> t \<or> q = t + n"
    "\<exists>j. t = q + j * n \<or> q = B + n \<and> t = B"
proof (cases "B \<le> q")
  case True
  show ?thesis
  proof (cases "q = B + n")
    case True
    then show ?thesis using that [of B] assms by simp
  next
    case False
    then show ?thesis using that [of q] \<open>B \<le> q\<close> assms
      by (auto intro: exI [of _ 0])
  qed
next
  case False
  define j where "j = (B - q + n - 1) div n"
  have *: "j * n + (B - q + n - 1) mod n = B - q + n - 1"
    by (simp add: j_def)
  have "(B - q + n - 1) mod n < n" using assms by simp
  with * False assms have "B \<le> q + j * n" "q + j * n < B + n" by linarith+
  then show ?thesis using that [of "q + j * n"] False by auto
qed


section \<open>Frame rules\<close>

lemma producer_okD:
  assumes "producer_ok s C B p" "owns s p t"
  shows "B \<le> t" "t < length C" "fst (C ! t) = p" "unat (Sequence (tslot s t)) = t"
  using assms by (auto simp: producer_ok_def owns_def split: producer.splits)

lemma owns_unique: "owns s p t \<Longrightarrow> owns s p u \<Longrightarrow> t = u"
  by (auto simp: owns_def split: producer.splits)

lemma producer_ok_frame:
  assumes "producer_ok s C B p" "ppc s' p = ppc s p" "B \<le> B'"
    and "length (mq_slots (ring s')) = length (mq_slots (ring s))"
    and "\<And>t. owns s p t \<Longrightarrow> B' \<le> t \<and> tslot s' t = tslot s t"
  shows "producer_ok s' (C @ ds) B' p"
proof (cases "ppc s p")
  case (P_Construct x Pos)
  then have "owns s p (unat Pos)" by (simp add: owns_def)
  with assms(5) assms(1,2) P_Construct show ?thesis by (simp add: producer_ok_def nth_append)
next
  case (P_Publish x Pos)
  then have "owns s p (unat Pos)" by (simp add: owns_def)
  with assms(5) assms(1,2) P_Publish show ?thesis by (simp add: producer_ok_def nth_append)
next
  case (P_Claim x Pos)
  with assms(1-4) show ?thesis by (cases ds) (auto simp: producer_ok_def)
qed (use assms(1-2) in \<open>simp_all add: producer_ok_def\<close>)

lemma slot_ok_frame:
  assumes "slot_ok s C B t" "tslot s' t = tslot s t"
    and "t < length C \<Longrightarrow> owns s (fst (C ! t)) t \<Longrightarrow> owns s' (fst (C ! t)) t"
    and "freeing s' \<and> t = B' \<longleftrightarrow> freeing s \<and> t = B" "ds = [] \<or> t \<noteq> length C"
    and "length ds \<le> 1"
  shows "slot_ok s' (C @ ds) B' t"
proof (cases "t < length C")
  case True
  with assms(1-4) show ?thesis by (auto simp: slot_ok_def published_def nth_append)
next
  case False
  with assms(5,6) have "\<not> t < length (C @ ds)" by (cases ds) auto
  with False assms(1,2) show ?thesis by (simp add: slot_ok_def)
qed

lemma mpsc_invI:
  assumes "mpsc_inv k s C Tk"
    and "length (mq_slots (ring s')) = length (mq_slots (ring s))"
    and "unat (mq_enqueuePos (ring s')) = length C'"
    and "Tk' = take (length Tk') (map snd C')" "length Tk' \<le> length C'"
    and "length C' \<le> given_back s' (length Tk') + 2 ^ k" "length C' + 2 ^ k < 2 ^ 63"
    and "consumer_ok s' C' (length Tk')"
    and "\<And>p. producer_ok s' C' (given_back s' (length Tk')) p"
    and "\<And>t. given_back s' (length Tk') \<le> t \<Longrightarrow> t < given_back s' (length Tk') + 2 ^ k \<Longrightarrow>
           slot_ok s' C' (given_back s' (length Tk')) t"
  shows "mpsc_inv k s' C' Tk'"
  using assms unfolding mpsc_inv_def by auto

text \<open>A producer moves without touching the ring, from and to points where it owns no slot.\<close>

lemma inv_set_ppc:
  assumes "mpsc_inv k s C Tk" "\<And>t. \<not> owns s p t"
    and "producer_ok (set_ppc p pc s) C (given_back s (length Tk)) p"
  shows "mpsc_inv k (set_ppc p pc s) C Tk"
proof -
  note D = mpsc_invD [OF assms(1)]
  let ?s = "set_ppc p pc s"
  have same [simp]: "tslot ?s = tslot s" "freeing ?s = freeing s" "given_back ?s = given_back s"
    "consumer_ok ?s = consumer_ok s"
    by (simp_all add: fun_eq_iff mpsc_defs split: consumer.splits)
  have own: "owns ?s r t = owns s r t" if "r \<noteq> p" for r t
    using that by (simp add: owns_def)
  show ?thesis
  proof (rule mpsc_invI [OF assms(1)])
    show "producer_ok ?s C (given_back ?s (length Tk)) r" for r
    proof (cases "r = p")
      case False
      then show ?thesis
        using producer_ok_frame [OF D(10) [of r], of ?s "given_back s (length Tk)" "[]"]
          producer_okD(1) [OF D(10) [of r]] by simp
    qed (use assms(3) in simp)
    show "slot_ok ?s C (given_back ?s (length Tk)) t"
      if "given_back ?s (length Tk) \<le> t" "t < given_back ?s (length Tk) + 2 ^ k" for t
      using slot_ok_frame [OF D(11) [of t], of ?s _ "[]"] that assms(2) own by fastforce
  qed (use D in simp_all)
qed

text \<open>The sequence number a producer reads at a position it may have loaded.\<close>

lemma seq_at:
  assumes "mpsc_inv k s C Tk" "q \<le> length C"
  obtains t where "given_back s (length Tk) \<le> t" "t < given_back s (length Tk) + 2 ^ k"
    "tslot s q = tslot s t"
    "unat (Sequence (tslot s t)) = t \<or> unat (Sequence (tslot s t)) = t + 1 \<and> t < length C"
    "q \<le> t \<or> q = given_back s (length Tk) + 2 ^ k \<and> t = given_back s (length Tk)"
proof -
  note D = mpsc_invD [OF assms(1)]
  have "q \<le> given_back s (length Tk) + 2 ^ k" using assms(2) D(7) by simp
  then obtain t where t: "given_back s (length Tk) \<le> t" "t < given_back s (length Tk) + 2 ^ k"
      "t mod 2 ^ k = q mod 2 ^ k"
      "\<exists>j. t = q + j * 2 ^ k \<or> q = given_back s (length Tk) + 2 ^ k \<and> t = given_back s (length Tk)"
    using window_ticket [of "2 ^ k" q "given_back s (length Tk)"] by (metis zero_less_power zero_less_numeral)
  moreover have "tslot s q = tslot s t" using t(3) D(1) by (simp add: tslot_def)
  moreover have "unat (Sequence (tslot s t)) = t \<or>
      unat (Sequence (tslot s t)) = t + 1 \<and> t < length C"
    using D(11) [OF t(1,2)] by (auto simp: slot_ok_def published_def split: if_splits)
  ultimately show ?thesis using that by fastforce
qed

lemma diff_at:
  assumes "mpsc_inv k s C Tk" "unat Pos \<le> length C"
  shows "mpsc_diff (Sequence (mpsc_slot (ring s) Pos)) Pos =
     int (unat (Sequence (tslot s (unat Pos)))) - int (unat Pos)"
    and "mpsc_diff (Sequence (mpsc_slot (ring s) Pos)) (Pos + 1) =
     int (unat (Sequence (tslot s (unat Pos)))) - (int (unat Pos) + 1)"
    and "unat (Pos + 1) = unat Pos + 1"
proof -
  note D = mpsc_invD [OF assms(1)]
  obtain t where t: "t < given_back s (length Tk) + 2 ^ k" "tslot s (unat Pos) = tslot s t"
    "unat (Sequence (tslot s t)) = t \<or> unat (Sequence (tslot s t)) = t + 1 \<and> t < length C"
    by (rule seq_at [OF assms(1,2)])
  have "given_back s (length Tk) \<le> length C" using D(6) by (auto simp: given_back_def)
  then have "unat (Sequence (tslot s t)) < 2 ^ 63" using t D(8) by auto
  moreover have slot: "mpsc_slot (ring s) Pos = tslot s (unat Pos)"
    using mpsc_slot_tslot [OF D(1)] D(3) by simp
  moreover have "unat Pos + 1 < 2 ^ 63"
  proof -
    have "(1::nat) \<le> 2 ^ k" by simp
    with D(8) assms(2) show ?thesis by linarith
  qed
  moreover from this show succ: "unat (Pos + 1) = unat Pos + 1" by (intro unat_succ) simp
  ultimately show
    "mpsc_diff (Sequence (mpsc_slot (ring s) Pos)) Pos =
       int (unat (Sequence (tslot s (unat Pos)))) - int (unat Pos)"
    "mpsc_diff (Sequence (mpsc_slot (ring s) Pos)) (Pos + 1) =
     int (unat (Sequence (tslot s (unat Pos)))) - (int (unat Pos) + 1)"
    using t(2) by (simp_all add: mpsc_diff_nat)
qed


section \<open>The producer's steps\<close>

lemma inv_seq_ready:
  assumes "mpsc_inv k s C Tk" "ppc s p = P_Loop x Pos"
    and "mpsc_diff (Sequence (mpsc_slot (ring s) Pos)) Pos = 0"
  shows "mpsc_inv k (set_ppc p (P_Claim x Pos) s) C Tk"
proof (rule inv_set_ppc [OF assms(1)])
  note D = mpsc_invD [OF assms(1)]
  let ?B = "given_back s (length Tk)"
  from D(10) [of p] assms(2) have q: "unat Pos \<le> length C" by (simp add: producer_ok_def)
  obtain t where t: "?B \<le> t" "t < ?B + 2 ^ k" "tslot s (unat Pos) = tslot s t"
    "unat (Sequence (tslot s t)) = t \<or> unat (Sequence (tslot s t)) = t + 1 \<and> t < length C"
    "unat Pos \<le> t \<or> unat Pos = ?B + 2 ^ k \<and> t = ?B"
    by (rule seq_at [OF assms(1) q])
  have "Sequence (tslot s t) = Pos"
    using assms(3) diff_at(1) [OF assms(1) q] t(3) by (simp add: word_uint_eq_iff)
  then have seq: "unat (Sequence (tslot s t)) = unat Pos" by simp
  have "(2::nat) \<le> 2 ^ k" using D(2) by (cases k) simp_all
  with t(4,5) seq have "unat Pos = t \<or> unat Pos < length C" by auto
  with t(2) q D(1) show "producer_ok (set_ppc p (P_Claim x Pos) s) C ?B p"
    by (auto simp: producer_ok_def)
qed (simp add: owns_def assms(2))

lemma inv_cas_win:
  assumes "mpsc_inv k s C Tk" "ppc s p = P_Claim x Pos" "mq_enqueuePos (ring s) = Pos"
    and "length C + 1 + 2 ^ k < 2 ^ 63"
    and s': "ring s' = (ring s) \<lparr> mq_enqueuePos := Pos + 1 \<rparr>"
      "ppc s' = (ppc s) (p := P_Construct x Pos)" "cpc s' = cpc s"
  shows "mpsc_inv k s' (C @ [(p, x)]) Tk"
proof (rule mpsc_invI [OF assms(1)])
  note D = mpsc_invD [OF assms(1)]
  let ?B = "given_back s (length Tk)"
  have q: "unat Pos = length C" using D(4) assms(3) by simp
  with D(10) [of p] assms(2) D(1) have room: "length C < ?B + 2 ^ k"
    by (simp add: producer_ok_def)
  have low: "?B \<le> length C" using D(6) by (auto simp: given_back_def)
  have same [simp]: "tslot s' = tslot s" "freeing s' = freeing s" "given_back s' = given_back s"
    by (simp_all add: fun_eq_iff mpsc_defs s')
  have own: "owns s' r t \<longleftrightarrow> (if r = p then t = unat Pos else owns s r t)" for r t
    by (auto simp add: owns_def s')
  have free: "unat (Sequence (tslot s (length C))) = length C"
      "ValueStorage (tslot s (length C)) = None"
    using D(11) [OF low room] by (simp_all add: slot_ok_def)
  show "length (C @ [(p, x)]) \<le> given_back s' (length Tk) + 2 ^ k" using room by simp
  show "unat (mq_enqueuePos (ring s')) = length (C @ [(p, x)])"
    using diff_at(3) [OF assms(1), of Pos] q by (simp add: s')
  show "consumer_ok s' (C @ [(p, x)]) (length Tk)"
    using D(9) by (auto simp: consumer_ok_def tslot_def nth_append s' split: consumer.splits)
  show "producer_ok s' (C @ [(p, x)]) (given_back s' (length Tk)) r" for r
  proof (cases "r = p")
    case True
    then show ?thesis using q free low by (simp add: producer_ok_def s')
  next
    case False
    then show ?thesis
      using producer_ok_frame [OF D(10) [of r], of s' ?B] producer_okD(1) [OF D(10) [of r]]
      by (simp add: s')
  qed
  show "slot_ok s' (C @ [(p, x)]) (given_back s' (length Tk)) t"
    if "given_back s' (length Tk) \<le> t" "t < given_back s' (length Tk) + 2 ^ k" for t
  proof (cases "t = length C")
    case True
    then show ?thesis using free q by (simp add: slot_ok_def own nth_append)
  next
    case False
    have "\<not> owns s p t" using assms(2) by (simp add: owns_def s')
    with False show ?thesis
      using slot_ok_frame [OF D(11) [of t], of s' ?B "[(p, x)]"] that own by fastforce
  qed
qed (use mpsc_invD [OF assms(1)] assms(4) in
  \<open>auto simp: given_back_def freeing_def producer_ok_def nth_append s'\<close>)

text \<open>A step that writes the slot of one ticket of the window.\<close>

lemma inv_construct:
  assumes "mpsc_inv k s C Tk" "ppc s p = P_Construct x Pos"
    and s': "ring s' = set_slot Pos (\<lambda>sl. sl \<lparr> ValueStorage := Some x \<rparr>) (ring s)"
      "ppc s' = (ppc s) (p := P_Publish x Pos)" "cpc s' = cpc s"
  shows "mpsc_inv k s' C Tk"
proof (rule mpsc_invI [OF assms(1)])
  note D = mpsc_invD [OF assms(1)]
  let ?B = "given_back s (length Tk)" and ?q = "unat Pos"
  have P: "?B \<le> ?q" "?q < length C" "C ! ?q = (p, x)" "unat (Sequence (tslot s ?q)) = ?q"
    using D(10) [of p] assms(2) by (simp_all add: producer_ok_def)
  have q: "?q < ?B + 2 ^ k" using P(2) D(7) by simp
  have ts: "tslot s' t = (if t = ?q then (tslot s t) \<lparr> ValueStorage := Some x \<rparr> else tslot s t)"
    if "?B \<le> t" "t < ?B + 2 ^ k" for t
    using tslot_set_slot [OF D(1) _ that P(1) q, of s' "\<lambda>sl. sl \<lparr> ValueStorage := Some x \<rparr>"] D(3)
    by (simp add: s')
  have same [simp]: "freeing s' = freeing s" "given_back s' = given_back s"
    by (simp_all add: fun_eq_iff freeing_def given_back_def s')
  have own: "owns s' r t = owns s r t" for r t
    using assms(2) by (simp add: owns_def s')
  have seq: "Sequence (tslot s' t) = Sequence (tslot s t)" if "?B \<le> t" "t < ?B + 2 ^ k" for t
    using ts [OF that] by simp
  show "consumer_ok s' C (length Tk)"
    using D(9) seq [of "length Tk"] seq [of "length Tk - 1"] D(1)
    by (auto simp: consumer_ok_def set_slot_def given_back_def freeing_def s' split: consumer.splits)
  show "producer_ok s' C (given_back s' (length Tk)) r" for r
  proof (cases "r = p")
    case True
    then show ?thesis using P ts [OF P(1) q] by (simp add: producer_ok_def s')
  next
    case False
    have "?B \<le> t \<and> tslot s' t = tslot s t" if "owns s r t" for t
    proof -
      note R = producer_okD [OF D(10) that]
      with False P(3) have "t \<noteq> ?q" by auto
      with ts [of t] R D(7) show ?thesis by auto
    qed
    with False show ?thesis
      using producer_ok_frame [OF D(10) [of r], of s' ?B "[]"] by (simp add: set_slot_def s')
  qed
  show "slot_ok s' C (given_back s' (length Tk)) t"
    if "given_back s' (length Tk) \<le> t" "t < given_back s' (length Tk) + 2 ^ k" for t
  proof (cases "t = ?q")
    case True
    moreover have "owns s' p ?q" using assms(2) by (simp add: owns_def s')
    ultimately show ?thesis using P ts [OF P(1) q] by (simp add: slot_ok_def)
  next
    case False
    with ts [of t] that show ?thesis
      using slot_ok_frame [OF D(11) [of t], of s' ?B "[]"] own by simp
  qed
qed (use mpsc_invD [OF assms(1)] in
  \<open>auto simp: given_back_def freeing_def set_slot_def s'\<close>)

lemma inv_publish:
  assumes "mpsc_inv k s C Tk" "ppc s p = P_Publish x Pos"
    and s': "ring s' = set_slot Pos (\<lambda>sl. sl \<lparr> Sequence := Pos + 1 \<rparr>) (ring s)"
      "ppc s' = (ppc s) (p := P_Idle)" "cpc s' = cpc s"
  shows "mpsc_inv k s' C Tk"
proof (rule mpsc_invI [OF assms(1)])
  note D = mpsc_invD [OF assms(1)]
  let ?B = "given_back s (length Tk)" and ?q = "unat Pos"
  have P: "?B \<le> ?q" "?q < length C" "C ! ?q = (p, x)" "unat (Sequence (tslot s ?q)) = ?q"
    "ValueStorage (tslot s ?q) = Some x"
    using D(10) [of p] assms(2) by (simp_all add: producer_ok_def)
  have q: "?q < ?B + 2 ^ k" using P(2) D(7) by simp
  have succ: "unat (Pos + 1) = ?q + 1" using diff_at(3) [OF assms(1)] P(2) by simp
  have ts: "tslot s' t = (if t = ?q then (tslot s t) \<lparr> Sequence := Pos + 1 \<rparr> else tslot s t)"
    if "?B \<le> t" "t < ?B + 2 ^ k" for t
    using tslot_set_slot [OF D(1) _ that P(1) q, of s' "\<lambda>sl. sl \<lparr> Sequence := Pos + 1 \<rparr>"] D(3)
    by (simp add: s')
  have same [simp]: "freeing s' = freeing s" "given_back s' = given_back s"
    by (simp_all add: fun_eq_iff freeing_def given_back_def s')
  have own: "owns s r t \<Longrightarrow> t \<noteq> ?q \<Longrightarrow> owns s' r t" for r t
    using assms(2) by (auto simp add: owns_def s')
  have notB: "\<not> (freeing s \<and> ?q = ?B)"
  proof
    assume a: "freeing s \<and> ?q = ?B"
    then have "unat (Sequence (tslot s ?q)) = length Tk" "?q + 1 = length Tk"
      using D(9) by (auto simp: consumer_ok_def freeing_def given_back_def split: consumer.splits)
    with P(4) show False by simp
  qed
  have seq: "unat (Sequence (tslot s' t)) = t + 1"
    if "?B \<le> t" "t < ?B + 2 ^ k" "unat (Sequence (tslot s t)) = t + 1" for t
    using ts [OF that(1,2)] that(3) succ by simp
  show "consumer_ok s' C (length Tk)"
  proof (cases "cpc s")
    case (C_Free P y)
    with D(9) have "length Tk = Suc (unat P)" by (simp add: consumer_ok_def)
    with C_Free D(9) seq [of "unat P"] show ?thesis
      by (simp add: consumer_ok_def set_slot_def given_back_def freeing_def s')
  next
    case (C_Take P)
    with D(9) seq [of "length Tk"] show ?thesis
      by (simp add: consumer_ok_def set_slot_def given_back_def freeing_def s')
  qed (use D(9) in \<open>simp_all add: consumer_ok_def set_slot_def s'\<close>)
  show "producer_ok s' C (given_back s' (length Tk)) r" for r
  proof (cases "r = p")
    case True
    then show ?thesis by (simp add: producer_ok_def s')
  next
    case False
    have "?B \<le> t \<and> tslot s' t = tslot s t" if "owns s r t" for t
    proof -
      note R = producer_okD [OF D(10) that]
      with False P(3) have "t \<noteq> ?q" by auto
      with ts [of t] R D(7) show ?thesis by auto
    qed
    with False show ?thesis
      using producer_ok_frame [OF D(10) [of r], of s' ?B "[]"] by (simp add: set_slot_def s')
  qed
  show "slot_ok s' C (given_back s' (length Tk)) t"
    if "given_back s' (length Tk) \<le> t" "t < given_back s' (length Tk) + 2 ^ k" for t
  proof (cases "t = ?q")
    case True
    then show ?thesis using P ts [OF P(1) q] succ notB by (simp add: slot_ok_def published_def)
  next
    case False
    with ts [of t] that show ?thesis
      using slot_ok_frame [OF D(11) [of t], of s' ?B "[]"] own by simp
  qed
qed (use mpsc_invD [OF assms(1)] in
  \<open>auto simp: given_back_def freeing_def set_slot_def s'\<close>)


section \<open>The consumer's steps\<close>

text \<open>The consumer moves without touching the ring, outside the window in which it owns a slot.\<close>

lemma inv_set_cpc:
  assumes "mpsc_inv k s C Tk" "\<not> freeing s"
    and s': "ring s' = ring s" "ppc s' = ppc s" "\<not> freeing s'"
    and "consumer_ok s' C (length Tk)"
  shows "mpsc_inv k s' C Tk"
proof (rule mpsc_invI [OF assms(1)])
  note D = mpsc_invD [OF assms(1)]
  have same [simp]: "tslot s' = tslot s" "given_back s' = given_back s" "owns s' = owns s"
    using assms(2,5) by (simp_all add: fun_eq_iff tslot_def given_back_def owns_def s')
  have "producer_ok s' = producer_ok s"
    by (simp add: fun_eq_iff producer_ok_def s' split: producer.splits)
  with D(10) show "producer_ok s' C (given_back s' (length Tk)) p" for p by simp
  show "slot_ok s' C (given_back s' (length Tk)) t"
    if "given_back s' (length Tk) \<le> t" "t < given_back s' (length Tk) + 2 ^ k" for t
    using D(11) [of t] that assms(2,5) by (auto simp add: slot_ok_def published_def split: if_splits)
qed (use mpsc_invD [OF assms(1)] assms(2,5,6) s' in \<open>simp_all add: given_back_def\<close>)

lemma take_slot:
  assumes "mpsc_inv k s C Tk" "cpc s = C_Take Pos"
  shows "unat Pos = length Tk" "length Tk < length C"
    "published s C (length Tk) (length Tk)"
    "ValueStorage (mpsc_slot (ring s) Pos) = Some (snd (C ! length Tk))"
proof -
  note D = mpsc_invD [OF assms(1)]
  have nf: "\<not> freeing s" using assms(2) by (simp add: freeing_def)
  show T: "unat Pos = length Tk" "length Tk < length C"
    using D(9) assms(2) by (simp_all add: consumer_ok_def)
  have "unat (Sequence (tslot s (length Tk))) = length Tk + 1"
    using D(9) assms(2) by (simp add: consumer_ok_def)
  with D(11) [of "length Tk"] nf T(2) show pub: "published s C (length Tk) (length Tk)"
    by (simp add: slot_ok_def given_back_def)
  show "ValueStorage (mpsc_slot (ring s) Pos) = Some (snd (C ! length Tk))"
    using pub nf T(1) mpsc_slot_tslot [OF D(1)] D(3) by (simp add: published_def)
qed

lemma inv_move_out:
  assumes "mpsc_inv k s C Tk" "cpc s = C_Take Pos" "ValueStorage (mpsc_slot (ring s) Pos) = Some x"
    and s': "ring s' = set_slot Pos (\<lambda>sl. sl \<lparr> ValueStorage := None \<rparr>) (ring s)"
      "ppc s' = ppc s" "cpc s' = C_Free Pos x"
  shows "mpsc_inv k s' C (Tk @ [x])"
proof (rule mpsc_invI [OF assms(1)])
  note D = mpsc_invD [OF assms(1)]
  let ?T = "length Tk"
  have fr: "\<not> freeing s" "freeing s'" by (simp_all add: freeing_def s' assms(2))
  have B [simp]: "given_back s ?T = ?T" "given_back s' (Suc ?T) = ?T"
    using fr by (simp_all add: given_back_def)
  note T = take_slot [OF assms(1,2)]
  have x: "x = snd (C ! ?T)" using T(4) assms(3) by simp
  have q: "?T \<le> unat Pos" "unat Pos < ?T + 2 ^ k" using T(1) by simp_all
  have ts: "tslot s' t = (if t = ?T then (tslot s t) \<lparr> ValueStorage := None \<rparr> else tslot s t)"
    if "?T \<le> t" "t < ?T + 2 ^ k" for t
    using tslot_set_slot [OF D(1) _ that q, of s' "\<lambda>sl. sl \<lparr> ValueStorage := None \<rparr>"] D(3) T(1)
    by (simp add: s')
  have "take (Suc ?T) (map snd C) = Tk @ [x]"
    using D(5) T(2) x by (simp add: take_Suc_conv_app_nth)
  then show "Tk @ [x] = take (length (Tk @ [x])) (map snd C)" by simp
  have seq: "unat (Sequence (tslot s ?T)) = ?T + 1" using T(3) by (simp add: published_def)
  show "consumer_ok s' C (length (Tk @ [x]))"
    using D(9) assms(2) T(2) x ts [of ?T] seq
    by (simp add: consumer_ok_def s' set_slot_def)
  show "producer_ok s' C (given_back s' (length (Tk @ [x]))) p" for p
  proof -
    have "?T \<le> t \<and> tslot s' t = tslot s t" if "owns s p t" for t
    proof -
      note R = producer_okD [OF D(10) that]
      from R(4) seq have "t \<noteq> ?T" by auto
      with R ts [of t] D(7) show ?thesis by auto
    qed
    then show ?thesis
      using producer_ok_frame [OF D(10) [of p], of s' ?T "[]"] by (simp add: s' set_slot_def)
  qed
  show "slot_ok s' C (given_back s' (length (Tk @ [x]))) t"
    if "given_back s' (length (Tk @ [x])) \<le> t" "t < given_back s' (length (Tk @ [x])) + 2 ^ k" for t
  proof (cases "t = ?T")
    case True
    then show ?thesis using ts [of ?T] seq T(2) fr by (simp add: slot_ok_def published_def)
  next
    case False
    then show ?thesis
      using slot_ok_frame [OF D(11) [of t], of s' ?T "[]"] that ts [of t]
      by (simp add: owns_def s')
  qed
qed (use mpsc_invD [OF assms(1)] take_slot [OF assms(1,2)] assms(2) in
  \<open>auto simp: given_back_def freeing_def set_slot_def s'\<close>)

lemma inv_free_slot:
  assumes "mpsc_inv k s C Tk" "cpc s = C_Free Pos x"
    and s': "ring s' = set_slot Pos
        (\<lambda>sl. sl \<lparr> Sequence := Pos + of_nat (length (mq_slots (ring s))) \<rparr>) (ring s)"
      "ppc s' = ppc s" "cpc s' = C_Advance Pos x"
  shows "mpsc_inv k s' C Tk"
proof (rule mpsc_invI [OF assms(1)])
  note D = mpsc_invD [OF assms(1)]
  let ?B = "unat Pos"
  have T1: "length Tk = Suc ?B" using D(9) assms(2) by (simp add: consumer_ok_def)
  then have T: "length Tk = Suc ?B" "length Tk \<le> length C" "unat (Sequence (tslot s ?B)) = ?B + 1"
    using D(9) assms(2) by (simp_all add: consumer_ok_def)
  have fr: "freeing s" "\<not> freeing s'" by (simp_all add: freeing_def s' assms(2))
  have B [simp]: "given_back s (length Tk) = ?B" "given_back s' (length Tk) = Suc ?B"
    using fr T(1) by (simp_all add: given_back_def)
  let ?f = "\<lambda>sl. sl \<lparr> Sequence := Pos + of_nat (length (mq_slots (ring s))) \<rparr>"
  have ts: "tslot s' t = (if t = ?B then ?f (tslot s t) else tslot s t)"
    if "?B \<le> t" "t < ?B + 2 ^ k" for t
    using tslot_set_slot [OF D(1) _ that _ _, of Pos s' ?f] D(3) by (simp add: s')
  have free: "ValueStorage (tslot s ?B) = None"
    using D(11) [of ?B] T fr B(1) [unfolded T1] by (simp add: slot_ok_def published_def)
  have new: "unat (Pos + of_nat (length (mq_slots (ring s)))) = ?B + 2 ^ k"
    using unat_plus_nat [of Pos "2 ^ k"] D(1,8) T(1,2) by simp
  show "consumer_ok s' C (length Tk)"
    using D(9) assms(2) by (simp add: consumer_ok_def s' set_slot_def)
  show "producer_ok s' C (given_back s' (length Tk)) p" for p
  proof -
    have "Suc ?B \<le> t \<and> tslot s' t = tslot s t" if "owns s p t" for t
    proof -
      note R = producer_okD [OF D(10) that]
      from R(4) T(3) have "t \<noteq> ?B" by auto
      with R ts [of t] D(7) show ?thesis by auto
    qed
    then show ?thesis
      using producer_ok_frame [OF D(10) [of p], of s' "Suc ?B" "[]"] by (simp add: s' set_slot_def)
  qed
  show "slot_ok s' C (given_back s' (length Tk)) t"
    if "given_back s' (length Tk) \<le> t" "t < given_back s' (length Tk) + 2 ^ k" for t
  proof (cases "t = ?B + 2 ^ k")
    case True
    have "length (mq_slots (ring s')) = 2 ^ k" using D(1) by (simp add: s' set_slot_def)
    then have "tslot s' t = tslot s' ?B" using True by (simp add: tslot_def)
    then show ?thesis using True ts [of ?B] new free D(7) by (simp add: slot_ok_def)
  next
    case False
    then show ?thesis
      using slot_ok_frame [OF D(11) [of t], of s' "Suc ?B" "[]"] that ts [of t] fr
      by (simp add: owns_def s')
  qed
  show "length C \<le> given_back s' (length Tk) + 2 ^ k" using D(7) by simp
qed (use mpsc_invD [OF assms(1)] in \<open>simp_all add: set_slot_def s'\<close>)

lemma inv_advance:
  assumes "mpsc_inv k s C Tk" "cpc s = C_Advance Pos x"
    and s': "ring s' = (ring s) \<lparr> mq_dequeuePos := Pos + 1 \<rparr>" "ppc s' = ppc s" "cpc s' = C_Idle"
  shows "mpsc_inv k s' C Tk"
proof (rule mpsc_invI [OF assms(1)])
  note D = mpsc_invD [OF assms(1)]
  have fr: "\<not> freeing s" "\<not> freeing s'" by (simp_all add: freeing_def s' assms(2))
  have same [simp]: "tslot s' = tslot s" "given_back s' = given_back s" "owns s' = owns s"
    using fr by (simp_all add: fun_eq_iff tslot_def given_back_def owns_def s')
  have "producer_ok s' = producer_ok s"
    by (simp add: fun_eq_iff producer_ok_def s' split: producer.splits)
  with D(10) show "producer_ok s' C (given_back s' (length Tk)) p" for p by simp
  show "slot_ok s' C (given_back s' (length Tk)) t"
    if "given_back s' (length Tk) \<le> t" "t < given_back s' (length Tk) + 2 ^ k" for t
    using D(11) [of t] that fr by (auto simp add: slot_ok_def published_def split: if_splits)
  have "Suc (unat Pos) = length Tk" using D(9) assms(2) by (simp add: consumer_ok_def)
  then show "consumer_ok s' C (length Tk)"
    using diff_at(3) [OF assms(1), of Pos] D(6) by (simp add: consumer_ok_def s')
qed (use mpsc_invD [OF assms(1)] s' in \<open>simp_all add: given_back_def freeing_def assms(2)\<close>)

section \<open>Every step\<close>

lemma inv_step:
  assumes "mpsc_step s e s'" "mpsc_inv k s (claims tr) (takes tr)"
    and "length (claims (tr @ [e])) + 2 ^ k < 2 ^ 63"
  shows "mpsc_inv k s' (claims (tr @ [e])) (takes (tr @ [e]))"
  using assms
proof (cases rule: mpsc_step.cases)
  case (Call p x)
  then show ?thesis using inv_set_ppc [OF assms(2)] by (simp add: owns_def producer_ok_def)
next
  case (LoadPos p x)
  then show ?thesis using inv_set_ppc [OF assms(2)] mpsc_invD(4) [OF assms(2)]
    by (simp add: owns_def producer_ok_def)
next
  case (SeqReady p x Pos)
  then show ?thesis using inv_seq_ready [OF assms(2)] by simp
next
  case (SeqFull p x Pos)
  then show ?thesis using inv_set_ppc [OF assms(2)] by (simp add: owns_def producer_ok_def)
next
  case (SeqAhead p x Pos)
  then show ?thesis using inv_set_ppc [OF assms(2)] by (simp add: owns_def producer_ok_def)
next
  case (CasFail p x Pos)
  then show ?thesis using inv_set_ppc [OF assms(2)] mpsc_invD(4) [OF assms(2)]
    by (simp add: owns_def producer_ok_def)
next
  case (CasWin p x Pos)
  then show ?thesis using inv_cas_win [OF assms(2)] assms(3) by simp
next
  case (ConstructValue p x Pos)
  then show ?thesis using inv_construct [OF assms(2)] by simp
next
  case (Publish p x Pos)
  then show ?thesis using inv_publish [OF assms(2)] by simp
next
  case Dequeue
  then show ?thesis using inv_set_cpc [OF assms(2), of s'] mpsc_invD(9) [OF assms(2)]
    by (simp add: freeing_def consumer_ok_def)
next
  case (SeqEmpty Pos)
  then show ?thesis using inv_set_cpc [OF assms(2), of s'] mpsc_invD(9) [OF assms(2)]
    by (simp add: freeing_def consumer_ok_def)
next
  case (SeqPublished Pos)
  note D = mpsc_invD [OF assms(2)]
  let ?T = "length (takes tr)"
  have T: "unat Pos = ?T" "unat (mq_dequeuePos (ring s)) = ?T"
    using D(9) SeqPublished by (simp_all add: consumer_ok_def)
  have "mpsc_diff (Sequence (mpsc_slot (ring s) Pos)) (Pos + 1) = 
      int (unat (Sequence (tslot s ?T))) - (int ?T + 1)"
    using diff_at(2) [OF assms(2), of Pos] D(6) T by simp
  then have "int (unat (Sequence (tslot s ?T))) = int (?T + 1)"
    using SeqPublished by linarith
  then have seq: "unat (Sequence (tslot s ?T)) = ?T + 1" by (simp only: of_nat_eq_iff)
  have nf: "\<not> freeing s" "\<not> freeing s'" using SeqPublished by (simp_all add: freeing_def)
  have "?T < length (claims tr)"
    using D(11) [of ?T] seq nf by (auto simp: slot_ok_def given_back_def split: if_splits)
  with SeqPublished T seq nf show ?thesis
    using inv_set_cpc [OF assms(2), of s'] by (simp add: consumer_ok_def tslot_def)
next
  case (MoveOut Pos x)
  then show ?thesis using inv_move_out [OF assms(2)] by simp
next
  case (FreeSlot Pos x)
  then show ?thesis using inv_free_slot [OF assms(2)] by simp
next
  case (Advance Pos x)
  then show ?thesis using inv_advance [OF assms(2)] by simp
qed


lemma inv_start:
  assumes "0 < k" "k < 63"
  shows "mpsc_inv k (mpsc_start (2 ^ k)) [] []"
proof -
  have small: "(2::nat) ^ k < 2 ^ 63" 
    using assms(2) power_strict_increasing [of k 63 "2 :: nat"] by simp
  have "unat (of_nat i :: u64) = i" if "i < 2 ^ k" for i
  proof -
    have "i < 2 ^ 64" using that small by simp
    then show ?thesis by (simp add: unat_of_nat)
  qed
  then show ?thesis using assms small
    by (auto simp: mpsc_inv_def mpsc_start_def mpsc_Initialize_def mpsc_ctor_def mpsc_defs)
qed

lemma inv_exec:
  assumes "mpsc_exec (mpsc_start (2 ^ k)) tr s" "0 < k" "k < 63"
    and "length (claims tr) + 2 ^ k < 2 ^ 63"
  shows "mpsc_inv k s (claims tr) (takes tr)"
  using assms(1,4)
proof (induction rule: mpsc_exec.induct)
  case exec_nil
  then show ?case using inv_start [OF assms(2,3)] by simp
next
  case (exec_step tr s e s')
  then show ?case
    using inv_step [OF exec_step.hyps(2) exec_step.IH] by (auto split: mevent.splits)
qed

section \<open>The trace of each thread\<close>

text \<open>What a producer has claimed but not yet published, and the consumer taken but not returned.\<close>

definition in_flight :: "'a msys \<Rightarrow> nat \<Rightarrow> 'a list" where
  "in_flight s p = (case ppc s p of P_Construct x Pos \<Rightarrow> [x] | P_Publish x Pos \<Rightarrow> [x] | _ \<Rightarrow> [])"

definition in_hand :: "'a msys \<Rightarrow> 'a list" where
  "in_hand s = (case cpc s of C_Free Pos x \<Rightarrow> [x] | C_Advance Pos x \<Rightarrow> [x] | _ \<Rightarrow> [])"

lemma exec_producer_order:
  "mpsc_exec (mpsc_start N) tr s \<Longrightarrow> claims_of p tr = sent p tr @ in_flight s p"
proof (induction rule: mpsc_exec.induct)
  case exec_nil
  then show ?case by (simp add: mpsc_start_def in_flight_def)
next
  case (exec_step tr s e s')
  from exec_step(2,3) show ?case
    by (cases rule: mpsc_step.cases) (auto simp: in_flight_def)
qed

lemma exec_consumer_order:
  "mpsc_exec (mpsc_start N) tr s \<Longrightarrow> takes tr = received tr @ in_hand s"
proof (induction rule: mpsc_exec.induct)
  case exec_nil
  then show ?case by (simp add: mpsc_start_def in_hand_def)
next
  case (exec_step tr s e s')
  from exec_step(2,3) show ?case
    by (cases rule: mpsc_step.cases) (auto simp: in_hand_def)
qed


section \<open>The queue at rest\<close>

definition at_rest :: "'a msys \<Rightarrow> bool" where
  "at_rest s \<longleftrightarrow> (\<forall>p. ppc s p = P_Idle) \<and> cpc s = C_Idle"

lemma rest_slots:
  assumes "mpsc_inv k s C Tk" "at_rest s" "length Tk \<le> t" "t < length C"
  shows "ValueStorage (tslot s t) = Some (snd (C ! t))"
proof -
  note D = mpsc_invD [OF assms(1)]
  have nf: "\<not> freeing s" and no: "\<not> owns s p u" for p u
    using assms(2) by (simp_all add: at_rest_def freeing_def owns_def)
  with D(11) [of t] D(7) assms(3,4) show ?thesis
    by (auto simp: slot_ok_def published_def given_back_def)
qed

lemma rest_positions:
  assumes "mpsc_inv k s C Tk" "at_rest s"
  shows "unat (mq_dequeuePos (ring s)) = length Tk"
    and "mpsc_Size (ring s) = of_nat (length C - length Tk)"
    and "unat (mq_enqueuePos (ring s) - mq_dequeuePos (ring s)) = length C - length Tk"
proof -
  note D = mpsc_invD [OF assms(1)]
  show d: "unat (mq_dequeuePos (ring s)) = length Tk"
    using D(9) assms(2) by (simp add: at_rest_def consumer_ok_def)
  have le: "mq_dequeuePos (ring s) \<le> mq_enqueuePos (ring s)"
    using d D(4,6) by (simp add: word_le_nat_alt)
  then show u: "unat (mq_enqueuePos (ring s) - mq_dequeuePos (ring s)) = length C - length Tk"
    using d D(4) by (simp add: unat_sub)
  show "mpsc_Size (ring s) = of_nat (length C - length Tk)"
    using le u [symmetric] by (simp add: mpsc_Size_def)
qed

lemma dtor_loop:
  assumes "mpsc_inv k s C Tk" "at_rest s" "m \<le> length C - length Tk"
  shows "\<exists>q'. fold_res (\<lambda>i q'. let P = mq_dequeuePos (ring s) + of_nat i in
                  (case ValueStorage (mpsc_slot q' P) of
                     None \<Rightarrow> Inl OutOfRange
                   | Some _ \<Rightarrow> Inr (set_slot P (\<lambda>sl. sl \<lparr> ValueStorage := None \<rparr>) q')))
              [0..<m] (ring s) = Inr q' \<and> length (mq_slots q') = 2 ^ k \<and>
            (\<forall>t. length Tk \<le> t \<and> t < length Tk + 2 ^ k \<longrightarrow>
               ValueStorage (tslot (s \<lparr> ring := q' \<rparr>) t) =
                 (if t < length Tk + m then None else ValueStorage (tslot s t)))"
    (is "\<exists>q'. fold_res ?f _ _ = _ \<and> _")
  using assms(3)
proof (induction m)
  case 0
  then show ?case using mpsc_invD(1) [OF assms(1)] by simp
next
  case (Suc m)
  note D = mpsc_invD [OF assms(1)]
  let ?T = "length Tk" and ?P = "mq_dequeuePos (ring s) + of_nat m"
  from Suc obtain q where q: "fold_res ?f [0..<m] (ring s) = Inr q" "length (mq_slots q) = 2 ^ k"
    "\<And>t. ?T \<le> t \<Longrightarrow> t < ?T + 2 ^ k \<Longrightarrow> ValueStorage (tslot (s \<lparr> ring := q \<rparr>) t) =
       (if t < ?T + m then None else ValueStorage (tslot s t))" by auto
  have P: "unat ?P = ?T + m"
    using unat_plus_nat [of "mq_dequeuePos (ring s)" m] rest_positions(1) [OF assms(1,2)]
      Suc.prems D(8) by simp
  have nf: "given_back s ?T = ?T" using assms(2) by (simp add: at_rest_def given_back_def freeing_def)
  have window: "?T + m < ?T + 2 ^ k" using Suc.prems D(7) nf by simp
  have "ValueStorage (tslot s (?T + m)) = Some (snd (C ! (?T + m)))"
    using rest_slots [OF assms(1,2), of "?T + m"] Suc.prems by simp
  then have occ: "ValueStorage (mpsc_slot q ?P) = Some (snd (C ! (?T + m)))"
    using q(3) [of "?T + m"] window mpsc_slot_tslot [of "s \<lparr> ring := q \<rparr>" k ?P] q(2) D(3) P by simp
  let ?q' = "set_slot ?P (\<lambda>sl. sl \<lparr> ValueStorage := None \<rparr>) q"
  have run: "fold_res ?f [0..<Suc m] (ring s) = Inr ?q'"
    using q(1) occ by (simp add: fold_res_snoc)
  have "ValueStorage (tslot (s \<lparr> ring := ?q' \<rparr>) t) =
        (if t < ?T + Suc m then None else ValueStorage (tslot s t))"
    if t: "?T \<le> t" "t < ?T + 2 ^ k" for t
    using tslot_set_slot [of "s \<lparr> ring := q \<rparr>" k ?T t ?P "s \<lparr> ring := ?q' \<rparr>"
        "\<lambda>sl. sl \<lparr> ValueStorage := None \<rparr>"] q(2) q(3) [of t] t window P D(3)
    by (auto simp: less_Suc_eq)
  with run q(2) show ?case by (intro exI [of _ ?q']) (simp add: set_slot_def)
qed

text \<open>Once every thread is idle, the destructor destroys every item that is left, each once.\<close>

lemma dtor_at_rest:
  assumes "mpsc_inv k s C Tk" "at_rest s"
  obtains q' where "mpsc_dtor (ring s) = Inr q'" "\<forall>sl \<in> set (mq_slots q'). ValueStorage sl = None"
proof -
  note D = mpsc_invD [OF assms(1)]
  let ?T = "length Tk"
  obtain q' where q': "mpsc_dtor (ring s) = Inr q'" "length (mq_slots q') = 2 ^ k"
    "\<And>t. ?T \<le> t \<Longrightarrow> t < ?T + 2 ^ k \<Longrightarrow> ValueStorage (tslot (s \<lparr> ring := q' \<rparr>) t) =
       (if t < ?T + (length C - ?T) then None else ValueStorage (tslot s t))"
    using dtor_loop [OF assms order_refl] by (auto simp: mpsc_dtor_def rest_positions(3) [OF assms])
  have nf: "given_back s ?T = ?T" using assms(2) by (simp add: at_rest_def given_back_def freeing_def)
  have none: "ValueStorage (tslot (s \<lparr> ring := q' \<rparr>) t) = None" if "?T \<le> t" "t < ?T + 2 ^ k" for t
  proof (cases "t < length C")
    case False
    then show ?thesis using q'(3) [OF that] D(11) [of t] nf that D(6) by (simp add: slot_ok_def)
  qed (use q'(3) [OF that] D(6) in simp)
  have "ValueStorage (mq_slots q' ! i) = None" if i: "i < 2 ^ k" for i
  proof -
    have "i \<le> ?T + 2 ^ k" using i by simp
    then obtain t where "?T \<le> t" "t < ?T + 2 ^ k" "t mod 2 ^ k = i mod 2 ^ k"
      using window_ticket [of "2 ^ k" i ?T] by (metis zero_less_power zero_less_numeral)
    with none [of t] i q'(2) show ?thesis by (simp add: tslot_def)
  qed
  then have "\<forall>sl \<in> set (mq_slots q'). ValueStorage sl = None"
    by (auto simp: in_set_conv_nth q'(2))
  with q'(1) show ?thesis by (rule that)
qed

end
