(* ===== verification/MpscTheorems.thy ===== *)
theory MpscTheorems
  imports MpscProps
begin

text \<open>
  The contract of the bounded queue: the operations of a thread that is not disturbed, the
  order in which items come out, what an answer of false means, and the capacity that the
  source's assertions admit although the algorithm does not support it.
\<close>

section \<open>Undisturbed operations\<close>

text \<open>\<open>TryEnqueue\<close> and \<open>TryDequeue\<close> when no other thread moves: the loop body runs once.\<close>

definition TryEnqueue_alone :: "'a \<Rightarrow> 'a mpsc \<Rightarrow> bool \<times> 'a mpsc" where
  "TryEnqueue_alone x q =
     (let Pos = mq_enqueuePos q in
      if mpsc_diff (Sequence (mpsc_slot q Pos)) Pos = 0
      then (True, set_slot Pos (\<lambda>sl. sl \<lparr> Sequence := Pos + 1 \<rparr>)
                    (set_slot Pos (\<lambda>sl. sl \<lparr> ValueStorage := Some x \<rparr>)
                      (q \<lparr> mq_enqueuePos := Pos + 1 \<rparr>)))
      else (False, q))"

definition TryDequeue_alone :: "'a mpsc \<Rightarrow> 'a option \<times> 'a mpsc" where
  "TryDequeue_alone q =
     (let Pos = mq_dequeuePos q in
      if mpsc_diff (Sequence (mpsc_slot q Pos)) (Pos + 1) \<noteq> 0 then (None, q)
      else (ValueStorage (mpsc_slot q Pos),
            (set_slot Pos (\<lambda>sl. sl \<lparr> Sequence := Pos + of_nat (length (mq_slots q)) \<rparr>)
               (set_slot Pos (\<lambda>sl. sl \<lparr> ValueStorage := None \<rparr>) q)) \<lparr> mq_dequeuePos := Pos + 1 \<rparr>))"

lemma exec_step': "mpsc_exec s0 tr s \<Longrightarrow> mpsc_step s e s' \<Longrightarrow> tr' = tr @ [e] \<Longrightarrow> mpsc_exec s0 tr' s'"
  by (simp add: exec_step)

lemma set_slot_simps [simp]:
  "mq_enqueuePos (set_slot Pos f q) = mq_enqueuePos q"
  "mq_dequeuePos (set_slot Pos f q) = mq_dequeuePos q"
  "length (mq_slots (set_slot Pos f q)) = length (mq_slots q)"
  by (simp_all add: set_slot_def)

lemma undisturbed_enqueue:
  assumes "mpsc_exec s0 tr s" "ppc s p = P_Idle" "fst (TryEnqueue_alone x (ring s))"
  shows "mpsc_exec s0 (tr @ [Called p x, Silent, Silent, Claimed p x, Silent, Sent p x])
           (s \<lparr> ring := snd (TryEnqueue_alone x (ring s)) \<rparr>)"
proof -
  define Pos where "Pos = mq_enqueuePos (ring s)"
  have ready: "mpsc_diff (Sequence (mpsc_slot (ring s) Pos)) Pos = 0"
    using assms(3) by (simp add: TryEnqueue_alone_def Pos_def Let_def split: if_splits)
  let ?q1 = "(ring s) \<lparr> mq_enqueuePos := Pos + 1 \<rparr>"
  let ?q2 = "set_slot Pos (\<lambda>sl. sl \<lparr> ValueStorage := Some x \<rparr>) ?q1"
  let ?q3 = "set_slot Pos (\<lambda>sl. sl \<lparr> Sequence := Pos + 1 \<rparr>) ?q2"
  let ?s = "\<lambda>pc q. s \<lparr> ring := q, ppc := (ppc s) (p := pc) \<rparr>"
  have "mpsc_exec s0 (tr @ [Called p x]) (?s (P_Load x) (ring s))"
    using exec_step [OF assms(1) mpsc_step.Call [of s p x]] assms(2) by simp
  from exec_step [OF this LoadPos [of _ p x]]
  have "mpsc_exec s0 (tr @ [Called p x, Silent]) (?s (P_Loop x Pos) (ring s))"
    by (simp add: Pos_def)
  from exec_step [OF this SeqReady [of _ p x Pos]]
  have "mpsc_exec s0 (tr @ [Called p x, Silent, Silent]) (?s (P_Claim x Pos) (ring s))"
    using ready by simp
  from exec_step [OF this CasWin [of _ p x Pos]]
  have "mpsc_exec s0 (tr @ [Called p x, Silent, Silent, Claimed p x]) (?s (P_Construct x Pos) ?q1)"
    by (simp add: Pos_def)
  from exec_step [OF this ConstructValue [of _ p x Pos]]
  have "mpsc_exec s0 (tr @ [Called p x, Silent, Silent, Claimed p x, Silent])
          (?s (P_Publish x Pos) ?q2)"
    by simp
  from exec_step [OF this Publish [of _ p x Pos]]
  have "mpsc_exec s0 (tr @ [Called p x, Silent, Silent, Claimed p x, Silent, Sent p x])
          (?s P_Idle ?q3)"
    by simp
  moreover have "?s P_Idle ?q3 = s \<lparr> ring := snd (TryEnqueue_alone x (ring s)) \<rparr>"
    using assms(2,3) ready fun_upd_triv [of "ppc s" p]
    by (simp add: TryEnqueue_alone_def Pos_def [symmetric] Let_def)
  ultimately show ?thesis by simp
qed

lemma undisturbed_dequeue:
  assumes "mpsc_exec s0 tr s" "cpc s = C_Idle" "TryDequeue_alone (ring s) = (Some x, q')"
  shows "mpsc_exec s0 (tr @ [Silent, Silent, Taken x, Silent, Received x]) (s \<lparr> ring := q' \<rparr>)"
proof -
  define Pos where "Pos = mq_dequeuePos (ring s)"
  have ready: "mpsc_diff (Sequence (mpsc_slot (ring s) Pos)) (Pos + 1) = 0"
    and val: "ValueStorage (mpsc_slot (ring s) Pos) = Some x"
    using assms(3) by (simp_all add: TryDequeue_alone_def Pos_def Let_def split: if_splits)
  let ?q1 = "set_slot Pos (\<lambda>sl. sl \<lparr> ValueStorage := None \<rparr>) (ring s)"
  let ?q2 = "set_slot Pos (\<lambda>sl. sl \<lparr> Sequence := Pos + of_nat (length (mq_slots (ring s))) \<rparr>) ?q1"
  let ?s = "\<lambda>pc q. s \<lparr> ring := q, cpc := pc \<rparr>"
  have "mpsc_exec s0 (tr @ [Silent]) (?s (C_Check Pos) (ring s))"
    using exec_step [OF assms(1) Dequeue [of s]] assms(2) by (simp add: Pos_def)
  from exec_step [OF this SeqPublished [of _ Pos]]
  have "mpsc_exec s0 (tr @ [Silent, Silent]) (?s (C_Take Pos) (ring s))"
    using ready by simp
  from exec_step [OF this MoveOut [of _ Pos x]]
  have "mpsc_exec s0 (tr @ [Silent, Silent, Taken x]) (?s (C_Free Pos x) ?q1)"
    using val by simp
  from exec_step [OF this FreeSlot [of _ Pos x]]
  have "mpsc_exec s0 (tr @ [Silent, Silent, Taken x, Silent]) (?s (C_Advance Pos x) ?q2)"
    by simp
  from exec_step [OF this Advance [of _ Pos x]]
  have "mpsc_exec s0 (tr @ [Silent, Silent, Taken x, Silent, Received x])
          (?s C_Idle (?q2 \<lparr> mq_dequeuePos := Pos + 1 \<rparr>))"
    by simp
  moreover have "?s C_Idle (?q2 \<lparr> mq_dequeuePos := Pos + 1 \<rparr>) = s \<lparr> ring := q' \<rparr>"
    using assms(2,3) ready by (simp add: TryDequeue_alone_def Pos_def [symmetric] Let_def)
  ultimately show ?thesis by simp
qed

lemma undisturbed_empty:
  assumes "mpsc_exec s0 tr s" "cpc s = C_Idle" "fst (TryDequeue_alone (ring s)) = None"
    and "mpsc_diff (Sequence (mpsc_slot (ring s) (mq_dequeuePos (ring s))))
           (mq_dequeuePos (ring s) + 1) \<noteq> 0"
  shows "mpsc_exec s0 (tr @ [Silent, Empty]) s"
proof -
  have "mpsc_exec s0 (tr @ [Silent]) (s \<lparr> cpc := C_Check (mq_dequeuePos (ring s)) \<rparr>)"
    using exec_step [OF assms(1) Dequeue [of s]] assms(2) by simp
  from exec_step [OF this SeqEmpty [of _ "mq_dequeuePos (ring s)"]] assms(4)
  have "mpsc_exec s0 (tr @ [Silent, Empty]) (s \<lparr> cpc := C_Idle \<rparr>)" by simp
  moreover have "s \<lparr> cpc := C_Idle \<rparr> = s" using assms(2) by simp
  ultimately show ?thesis by simp
qed

section \<open>The order of delivery\<close>

lemma take_append_prefix: "xs @ ys = take n zs \<Longrightarrow> xs = take (length xs) zs"
  by (metis append_eq_conv_conj length_append le_add1 min.absorb1 min.cobounded2 take_take length_take min.commute)

text \<open>
  C16: the queue is first in, first out for any number of producers.  In every run from
  \<open>Initialize\<close>, with a capacity that is a power of two from 2 up, the items the consumer has received are, in order, the
  first of the items whose slots were claimed; what a producer has claimed is what its
  calls that returned true sent, in program order, and the item it is still writing; and
  at most the capacity is ever outstanding.
\<close>

theorem mpsc_delivers_in_order:
  assumes "mpsc_exec (mpsc_start (2 ^ k)) tr s" "0 < k" "k < 63"
    and "length (claims tr) + 2 ^ k < 2 ^ 63"
  shows "received tr = take (length (received tr)) (map snd (claims tr)) \<and>
    claims_of p tr = sent p tr @ in_flight s p \<and>
    length (received tr) \<le> length (claims tr) \<and>
    length (claims tr) \<le> length (received tr) + length (in_hand s) + 2 ^ k"
proof -
  note D = mpsc_invD [OF inv_exec [OF assms]]
  have takes: "takes tr = received tr @ in_hand s" using exec_consumer_order [OF assms(1)] .
  have "given_back s (length (takes tr)) \<le> length (takes tr)" by (simp add: given_back_def)
  with D(6,7) takes show ?thesis
    using take_append_prefix [of "received tr" "in_hand s"] D(5) exec_producer_order [OF assms(1)]
    by auto
qed

section \<open>What false means\<close>

text \<open>
  The answers of the queue are exact and no item is destroyed by another.
  \<open>TryEnqueue\<close> returns false only when every slot is claimed and not given back;
  \<open>TryDequeue\<close> returns false only when nothing is claimed beyond what was taken, or the
  producer of the oldest claim has not published it yet; a producer constructs its item
  only in storage that holds none, and the consumer moves out only what was constructed.
\<close>

theorem mpsc_answers_exact:
  assumes "mpsc_exec (mpsc_start (2 ^ k)) tr s" "0 < k" "k < 63"
    and "length (claims tr) + 2 ^ k < 2 ^ 63"
  shows "(mpsc_step s (Full p) s' \<longrightarrow>
            length (claims tr) = given_back s (length (takes tr)) + 2 ^ k) \<and>
         (mpsc_step s Empty s' \<longrightarrow> length (claims tr) = length (takes tr) \<or>
            in_flight s (fst (claims tr ! length (takes tr))) \<noteq> []) \<and>
         (ppc s p = P_Construct x Pos \<longrightarrow> ValueStorage (mpsc_slot (ring s) Pos) = None) \<and>
         (cpc s = C_Take Pos \<longrightarrow>
            ValueStorage (mpsc_slot (ring s) Pos) = Some (snd (claims tr ! length (takes tr))))"
proof (intro conjI impI)
  note inv = inv_exec [OF assms]
  note D = mpsc_invD [OF inv]
  let ?C = "claims tr" and ?T = "length (takes tr)" and ?B = "given_back s (length (takes tr))"
  show "length ?C = ?B + 2 ^ k" if "mpsc_step s (Full p) s'"
    using that
  proof (cases rule: mpsc_step.cases)
    case (SeqFull y Pos)
    have q: "unat Pos \<le> length ?C" using D(10) [of p] SeqFull by (simp add: producer_ok_def)
    obtain t where t: "tslot s (unat Pos) = tslot s t"
      "unat (Sequence (tslot s t)) = t \<or> unat (Sequence (tslot s t)) = t + 1 \<and> t < length ?C"
      "unat Pos \<le> t \<or> unat Pos = ?B + 2 ^ k \<and> t = ?B"
      by (rule seq_at [OF inv q])
    have "Sequence (tslot s t) < Pos"
      using SeqFull(3) diff_at(1) [OF inv q] t(1) by (simp add: word_less_def)
    then have "unat (Sequence (tslot s t)) < unat Pos" by (simp add: word_less_nat_alt)
    with t(2,3) q D(7) show ?thesis by auto
  qed
  show "length ?C = ?T \<or> in_flight s (fst (?C ! ?T)) \<noteq> []" if "mpsc_step s Empty s'"
    using that
  proof (cases rule: mpsc_step.cases)
    case (SeqEmpty Pos)
    have nf: "\<not> freeing s" and P: "unat Pos = ?T"
      using D(9) SeqEmpty by (simp_all add: freeing_def consumer_ok_def)
    have "unat (Sequence (tslot s ?T)) \<noteq> ?T + 1"
    proof
      have "uint (Sequence (tslot s ?T)) = int (unat (Sequence (tslot s ?T)))" by simp
      moreover assume "unat (Sequence (tslot s ?T)) = ?T + 1"
      ultimately have "uint (Sequence (tslot s ?T)) = int ?T + 1" by linarith
      then show False using SeqEmpty(3) diff_at(2) [OF inv, of Pos] D(6) P by simp
    qed
    with D(11) [of ?T] nf have "?T < length ?C \<longrightarrow> owns s (fst (?C ! ?T)) ?T"
      by (auto simp: slot_ok_def published_def given_back_def split: if_splits)
    then show ?thesis using D(6)
      by (fastforce simp: owns_def in_flight_def split: producer.splits)
  qed
  show "ValueStorage (mpsc_slot (ring s) Pos) = None" if "ppc s p = P_Construct x Pos"
    using D(10) [of p] that mpsc_slot_tslot [OF D(1)] D(3) by (simp add: producer_ok_def)
  show "ValueStorage (mpsc_slot (ring s) Pos) = Some (snd (?C ! ?T))" if "cpc s = C_Take Pos"
    using take_slot(4) [OF inv that] .
qed

section \<open>A run of two slots\<close>

definition two_slots :: "nat mpsc" where
  "two_slots = snd (TryEnqueue_alone 8 (snd (TryEnqueue_alone 7 (mpsc_Initialize (mpsc_ctor 2)))))"

lemmas mpsc_eval = TryEnqueue_alone_def TryDequeue_alone_def mpsc_Initialize_def mpsc_ctor_def
  mpsc_slot_def SlotIdx_def set_slot_def mpsc_diff_def Let_def upt_rec

lemma two_slots_eval:
  "two_slots = \<lparr> mq_slots = [\<lparr> Sequence = 1, ValueStorage = Some 7 \<rparr>,
                             \<lparr> Sequence = 2, ValueStorage = Some 8 \<rparr>],
                 mq_enqueuePos = 2, mq_dequeuePos = 0 \<rparr>"
  by (simp add: two_slots_def mpsc_eval)


text \<open>Two sends by one producer, then the receipt of the first item or a third send.\<close>

definition two_sends :: "nat mevent list" where
  "two_sends = [Called 0 7, Silent, Silent, Claimed 0 7, Silent, Sent 0 7,
                Called 0 8, Silent, Silent, Claimed 0 8, Silent, Sent 0 8]"

definition two_slots_state :: "nat msys" where
  "two_slots_state = (mpsc_start 2) \<lparr> ring := two_slots \<rparr>"

lemma two_sends_claims: "claims two_sends = [(0, 7), (0, 8)]" "takes two_sends = []"
  by (simp_all add: two_sends_def trace_defs List.map_filter_def)

lemma two_sends_run: "mpsc_exec (mpsc_start (2 ^ 1)) two_sends two_slots_state"
proof -
  let ?q0 = "mpsc_Initialize (mpsc_ctor 2) :: nat mpsc"
  let ?q1 = "snd (TryEnqueue_alone 7 ?q0)"
  let ?start = "mpsc_start 2 :: nat msys"
  have start: "ring ?start = ?q0" "ppc ?start 0 = P_Idle"
    by (simp_all add: mpsc_start_def)
  have "fst (TryEnqueue_alone 7 ?q0)" "fst (TryEnqueue_alone 8 ?q1)" by (simp_all add: mpsc_eval)
  note ok = this
  have "mpsc_exec ?start ([] @ [Called 0 7, Silent, Silent, Claimed 0 7, Silent, Sent 0 7])
      (?start \<lparr> ring := ?q1 \<rparr>)"
    using undisturbed_enqueue [OF exec_nil [of ?start], of 0 7] start ok(1) by simp
  from undisturbed_enqueue [OF this, of 0 8] start ok(2)
  show ?thesis by (simp add: two_sends_def two_slots_state_def two_slots_def)
qed

theorem mpsc_delivers_in_order_witness:
  "\<exists>tr s. mpsc_exec (mpsc_start (2 ^ 1)) tr (s :: nat msys) \<and> received tr = [7] \<and>
     claims_of 0 tr = [7, 8] \<and> received tr = take (length (received tr)) (map snd (claims tr))"
proof -
  let ?tr = "two_sends @ [Silent, Silent, Taken 7, Silent, Received 7]"
  let ?s = "two_slots_state \<lparr> ring := snd (TryDequeue_alone two_slots) \<rparr>"
  have "TryDequeue_alone two_slots = (Some 7, snd (TryDequeue_alone two_slots))"
    by (simp add: two_slots_eval) (simp add: mpsc_eval)
  then have run: "mpsc_exec (mpsc_start (2 ^ 1)) ?tr ?s"
    using undisturbed_dequeue [OF two_sends_run] by (simp add: two_slots_state_def mpsc_start_def)
  have tr: "claims ?tr = [(0, 7), (0, 8)]" "received ?tr = [7]"
    by (simp_all add: two_sends_def trace_defs List.map_filter_def)
  have "received ?tr = take (length (received ?tr)) (map snd (claims ?tr))"
    using mpsc_delivers_in_order [OF run, of 0] tr(1) by simp
  with run tr show ?thesis by (auto simp: claims_of_def intro!: exI [of _ ?tr] exI [of _ ?s])
qed

theorem mpsc_answers_exact_witness:
  "\<exists>tr s s'. mpsc_exec (mpsc_start (2 ^ 1)) tr (s :: nat msys) \<and> mpsc_step s (Full 1) s' \<and>
     length (claims tr) = given_back s (length (takes tr)) + 2 ^ 1"
proof -
  let ?s = "set_ppc 1 (P_Loop 9 2) two_slots_state"
  let ?tr = "(two_sends @ [Called 1 9]) @ [Silent]"
  have idle: "ppc two_slots_state 1 = P_Idle" "mq_enqueuePos (ring two_slots_state) = 2"
    by (simp_all add: two_slots_state_def mpsc_start_def two_slots_eval)
  have run: "mpsc_exec (mpsc_start (2 ^ 1)) ?tr ?s"
    using exec_step [OF exec_step [OF two_sends_run mpsc_step.Call [OF idle(1), of 9]]
        LoadPos [of _ 1 9]] idle by simp
  have "mpsc_diff (Sequence (mpsc_slot (ring ?s) 2)) 2 < 0"
    by (simp add: two_slots_state_def two_slots_eval mpsc_slot_def SlotIdx_def mpsc_diff_def)
  then have full: "mpsc_step ?s (Full 1) (set_ppc 1 P_Idle ?s)"
    using SeqFull [of ?s 1 9 2] by simp
  have "claims ?tr = [(0, 7), (0, 8)]" by (simp only: claims_snoc two_sends_claims) simp
  then have "length (claims ?tr) = given_back ?s (length (takes ?tr)) + 2 ^ 1"
    by (intro mpsc_answers_exact [OF run, THEN conjunct1, rule_format, OF _ _ _ full]) simp_all
  note both = conjI [OF run conjI [OF full this]]
  show ?thesis by (rule exI [of _ ?tr], rule exI [of _ ?s], rule exI, rule both)
qed

section \<open>A capacity of one\<close>

text \<open>
  \<open>static_assert((N & (N - 1)) == 0)\<close> admits \<open>N = 1\<close>.  There the sequence number that marks
  the slot published at position \<open>P\<close> is the one that marks it free for position \<open>P + 1\<close>:
  the second send succeeds, its item is constructed over the first, and the consumer reads
  a sequence number ahead of its own for ever after.
\<close>

lemma mpsc_single_slot_overwrites:
  "mpsc_capacity_ok 1 \<and>
   (\<exists>tr s. mpsc_exec (mpsc_start 1) tr (s :: nat msys) \<and> sent 0 tr = [7, 8] \<and> takes tr = [] \<and>
      mq_slots (ring s) = [\<lparr> Sequence = 2, ValueStorage = Some 8 \<rparr>] \<and>
      cpc s = C_Idle \<and> mpsc_exec (mpsc_start 1) (tr @ [Silent, Empty]) s)"
proof -
  let ?start = "mpsc_start 1 :: nat msys"
  let ?q0 = "mpsc_Initialize (mpsc_ctor 1) :: nat mpsc"
  let ?q1 = "snd (TryEnqueue_alone 7 ?q0)"
  define q2 where "q2 = snd (TryEnqueue_alone 8 ?q1)"
  let ?s = "?start \<lparr> ring := q2 \<rparr>"
  have start: "ring ?start = ?q0" "ppc ?start 0 = P_Idle" "cpc ?start = C_Idle"
    by (simp_all add: mpsc_start_def)
  have ok: "fst (TryEnqueue_alone 7 ?q0)" "fst (TryEnqueue_alone 8 ?q1)"
    and q2: "q2 = \<lparr> mq_slots = [\<lparr> Sequence = 2, ValueStorage = Some 8 \<rparr>],
                    mq_enqueuePos = 2, mq_dequeuePos = 0 \<rparr>"
    by (simp_all add: q2_def mpsc_eval)
  have "mpsc_exec ?start ([] @ [Called 0 7, Silent, Silent, Claimed 0 7, Silent, Sent 0 7])
      (?start \<lparr> ring := ?q1 \<rparr>)"
    using undisturbed_enqueue [OF exec_nil [of ?start], of 0 7] start ok(1) by simp
  from undisturbed_enqueue [OF this, of 0 8] start ok(2)
  have run: "mpsc_exec ?start two_sends ?s" by (simp add: two_sends_def q2_def)
  have "mpsc_exec ?start (two_sends @ [Silent, Empty]) ?s"
    using undisturbed_empty [OF run] start
    by (simp add: q2 TryDequeue_alone_def mpsc_slot_def SlotIdx_def mpsc_diff_def)
  moreover have "sent 0 two_sends = [7, 8]"
    by (simp add: two_sends_def trace_defs List.map_filter_def)
  ultimately show ?thesis using run start two_sends_claims
    by (auto simp: mpsc_capacity_ok_def q2 intro!: exI [of _ two_sends] exI [of _ ?s])
qed

end
