(* ===== verification/TArrayCore.thy ===== *)
theory TArrayCore
  imports XPrelude "HOL-Library.Signed_Division"
begin

text \<open>
  \<open>TArrayCore<T>\<close> (\<open>Public/Containers/TArrayCore.h\<close>), the growable buffer behind the arrays and
  strings of the engine.  The buffer is a list of cells, and a cell knows whether it holds
  a constructed object, so that placement new, moves and explicit destructor calls are
  modelled with the lifetimes they start and end: to read or destroy an object that does not
  exist, to construct over one that was not destroyed, and to free storage that still holds
  one are errors.  A \<open>const T&\<close> argument may refer to an element of the array itself.
\<close>

section \<open>Cells and types\<close>

datatype 'a cell = Raw | Live 'a | MovedFrom

text \<open>
  What the \<open>if constexpr\<close> tests of the header see of \<open>T\<close>: trivially copyable (hence trivially
  destructible and relocatable), trivially destructible only, or neither.
\<close>

datatype traits = Trivial | TrivialDtor | NonTrivial

datatype array_error =
    CheckFails     \<comment> \<open>\<open>XPACT_CHECK\<close>\<close>
  | Lifetime       \<comment> \<open>an access outside the buffer or outside an object's lifetime\<close>
  | IntOverflow    \<comment> \<open>signed overflow of an \<open>int32\<close>\<close>
  | DanglingRef    \<comment> \<open>an access through a reference into a buffer that was replaced\<close>
  | BadShift       \<comment> \<open>a shift by a negative count or by the width or more\<close>
  | Hangs          \<comment> \<open>a loop that never leaves\<close>

definition acheck :: "build \<Rightarrow> bool \<Rightarrow> array_error + 'a \<Rightarrow> array_error + 'a" where
  "acheck bld c k = (if bld = Checked \<and> \<not> c then Inl CheckFails else k)"

definition i32_ok :: "int \<Rightarrow> bool" where
  "i32_ok x \<longleftrightarrow> - (2 ^ 31) \<le> x \<and> x < 2 ^ 31"

definition INDEX_NONE :: int where "INDEX_NONE = - 1"

type_synonym 'a buffer = "'a cell list"

definition read_cell :: "nat \<Rightarrow> 'a buffer \<Rightarrow> array_error + 'a" where
  "read_cell i b =
     (if i < length b then (case b ! i of Live x \<Rightarrow> Inr x | _ \<Rightarrow> Inl Lifetime) else Inl Lifetime)"

definition construct_cell :: "traits \<Rightarrow> nat \<Rightarrow> 'a \<Rightarrow> 'a buffer \<Rightarrow> array_error + 'a buffer" where
  "construct_cell t i x b =
     (if i < length b \<and> (t = NonTrivial \<longrightarrow> b ! i = Raw) then Inr (b[i := Live x]) else Inl Lifetime)"

definition destroy_cell :: "nat \<Rightarrow> 'a buffer \<Rightarrow> array_error + 'a buffer" where
  "destroy_cell i b = (if i < length b \<and> b ! i \<noteq> Raw then Inr (b[i := Raw]) else Inl Lifetime)"

text \<open>To move from a trivially copyable object is to copy it.\<close>

definition move_cell :: "traits \<Rightarrow> nat \<Rightarrow> 'a buffer \<Rightarrow> array_error + 'a \<times> 'a buffer" where
  "move_cell t i b =
     rbind (read_cell i b) (\<lambda>x. Inr (x, if t = Trivial then b else b[i := MovedFrom]))"

definition assign_cell :: "nat \<Rightarrow> 'a \<Rightarrow> 'a buffer \<Rightarrow> array_error + 'a buffer" where
  "assign_cell i x b = (if i < length b \<and> b ! i \<noteq> Raw then Inr (b[i := Live x]) else Inl Lifetime)"

text \<open>\<open>memmove\<close> of \<open>n\<close> cells from \<open>src\<close> to \<open>dst\<close>\<close>

definition memmove_cells :: "nat \<Rightarrow> nat \<Rightarrow> nat \<Rightarrow> 'a buffer \<Rightarrow> array_error + 'a buffer" where
  "memmove_cells dst src n b =
     (if dst + n \<le> length b \<and> src + n \<le> length b
      then Inr (take dst b @ take n (drop src b) @ drop (dst + n) b) else Inl Lifetime)"

section \<open>The array and its storage\<close>

record 'a tarray =
  m_data :: "'a buffer option"   \<comment> \<open>\<open>None\<close> is \<open>nullptr\<close>\<close>
  m_num :: int
  m_max :: int

definition cells :: "'a tarray \<Rightarrow> 'a buffer" where
  "cells a = (case m_data a of None \<Rightarrow> [] | Some b \<Rightarrow> b)"

definition set_cells :: "'a buffer \<Rightarrow> 'a tarray \<Rightarrow> 'a tarray" where
  "set_cells b a = a \<lparr> m_data := map_option (\<lambda>_. b) (m_data a) \<rparr>"

definition TArray_ctor :: "'a tarray" where
  "TArray_ctor = \<lparr> m_data = None, m_num = 0, m_max = 0 \<rparr>"

definition ComputeGrowCapacity :: "int \<Rightarrow> int \<Rightarrow> int" where
  "ComputeGrowCapacity NewNum CurrentMax =
     (let kFirstGrow = 4; kConstantGrow = 16;
          Grow = (if CurrentMax > 0 \<or> NewNum > kFirstGrow
                  then let GrowSize64 = NewNum + (3 * NewNum) sdiv 8 + kConstantGrow in
                       if GrowSize64 > 2147483647 then 2147483647 else GrowSize64
                  else if NewNum > kFirstGrow then NewNum
                  else kFirstGrow)
      in if Grow < NewNum then NewNum else Grow)"

definition relocate_step ::
  "traits \<Rightarrow> nat \<Rightarrow> 'a buffer \<times> 'a buffer \<Rightarrow> array_error + 'a buffer \<times> 'a buffer" where
  "relocate_step t I = (\<lambda>(new, old).
     rbind (move_cell t I old) (\<lambda>(x, old1).
     rbind (construct_cell t I x new) (\<lambda>new1.
     rbind (destroy_cell I old1) (\<lambda>old2. Inr (new1, old2)))))"

text \<open>
  Storage of a type with a destructor must hold no object when it is given back: the object
  would never be destroyed.
\<close>

definition Deallocate_cells :: "traits \<Rightarrow> 'a buffer \<Rightarrow> array_error + unit" where
  "Deallocate_cells t b = (if t = NonTrivial \<and> (\<exists>c \<in> set b. c \<noteq> Raw) then Inl Lifetime else Inr ())"

definition ReserveAtLeast :: "traits \<Rightarrow> int \<Rightarrow> 'a tarray \<Rightarrow> array_error + 'a tarray" where
  "ReserveAtLeast t NewMax a =
     (if NewMax \<le> m_max a then Inr a
      else rbind
        (if t = Trivial
         then Inr (take (nat NewMax) (cells a) @ replicate (nat NewMax - length (cells a)) Raw)
         else (case m_data a of
             None \<Rightarrow> Inr (replicate (nat NewMax) Raw)
           | Some old \<Rightarrow>
               rbind (fold_res (relocate_step t) [0..<nat (m_num a)] (replicate (nat NewMax) Raw, old))
                 (\<lambda>(new, old1). rbind (Deallocate_cells t old1) (\<lambda>_. Inr new))))
        (\<lambda>new. Inr (a \<lparr> m_data := Some new, m_max := NewMax \<rparr>)))"

definition GrowByOne :: "traits \<Rightarrow> 'a tarray \<Rightarrow> array_error + 'a tarray" where
  "GrowByOne t a =
     (let RequestedNum = m_num a + 1 in
      if \<not> i32_ok RequestedNum then Inl IntOverflow
      else ReserveAtLeast t (ComputeGrowCapacity RequestedNum (m_max a)) a)"

definition DestroyElementsOnly :: "traits \<Rightarrow> 'a tarray \<Rightarrow> array_error + 'a tarray" where
  "DestroyElementsOnly t a =
     (if t = NonTrivial
      then rbind (fold_res destroy_cell [0..<nat (m_num a)] (cells a)) (\<lambda>b. Inr (set_cells b a))
      else Inr a)"

text \<open>\<open>if (m_data != nullptr) { Deallocate; m_data = nullptr; m_max = 0; }\<close>\<close>

definition drop_buffer :: "traits \<Rightarrow> 'a tarray \<Rightarrow> array_error + 'a tarray" where
  "drop_buffer t a = (case m_data a of
       None \<Rightarrow> Inr a
     | Some b \<Rightarrow> rbind (Deallocate_cells t b) (\<lambda>_. Inr (a \<lparr> m_data := None, m_max := 0 \<rparr>)))"

definition DestroyElementsAndFreeBuffer :: "traits \<Rightarrow> 'a tarray \<Rightarrow> array_error + 'a tarray" where
  "DestroyElementsAndFreeBuffer t a =
     rbind (DestroyElementsOnly t a) (\<lambda>a1.
     rbind (drop_buffer t a1) (\<lambda>a2. Inr (a2 \<lparr> m_num := 0, m_max := 0 \<rparr>)))"

definition copy_step ::
  "traits \<Rightarrow> nat \<Rightarrow> 'a buffer \<Rightarrow> nat \<Rightarrow> 'a buffer \<Rightarrow> array_error + 'a buffer" where
  "copy_step t at src I dst =
     rbind (read_cell I src) (\<lambda>x. construct_cell t (at + I) x dst)"

text \<open>
  Source and destination are disjoint at every call, also when an array is appended to
  itself: the source is then the prefix that the copies do not touch.
\<close>

definition CopyConstructRange ::
  "traits \<Rightarrow> nat \<Rightarrow> 'a buffer \<Rightarrow> nat \<Rightarrow> 'a buffer \<Rightarrow> array_error + 'a buffer" where
  "CopyConstructRange t at src Count dst = fold_res (copy_step t at src) [0..<Count] dst"

section \<open>Construction, assignment, destruction\<close>

text \<open>The right-hand side of an operation on two arrays: another array, or this one.\<close>

datatype 'a operand = Self | Other "'a tarray"

definition copy_from :: "traits \<Rightarrow> 'a tarray \<Rightarrow> 'a tarray \<Rightarrow> array_error + 'a tarray" where
  "copy_from t src a =
     (if m_num src > 0 then
        rbind (ReserveAtLeast t (m_num src) a) (\<lambda>a1.
        rbind (CopyConstructRange t 0 (cells src) (nat (m_num src)) (cells a1)) (\<lambda>b.
        Inr ((set_cells b a1) \<lparr> m_num := m_num src \<rparr>)))
      else Inr a)"

definition TArray_copy_ctor :: "traits \<Rightarrow> 'a tarray \<Rightarrow> array_error + 'a tarray" where
  "TArray_copy_ctor t src = copy_from t src TArray_ctor"

definition TArray_copy_assign :: "traits \<Rightarrow> 'a operand \<Rightarrow> 'a tarray \<Rightarrow> array_error + 'a tarray" where
  "TArray_copy_assign t rhs a = (case rhs of
       Self \<Rightarrow> Inr a
     | Other src \<Rightarrow> rbind (DestroyElementsAndFreeBuffer t a) (copy_from t src))"

definition TArray_move_ctor :: "'a tarray \<Rightarrow> 'a tarray \<times> 'a tarray" where
  "TArray_move_ctor src = (src, src \<lparr> m_data := None, m_num := 0, m_max := 0 \<rparr>)"

text \<open>The array and, when it is another one, the array moved from.\<close>

definition TArray_move_assign ::
  "traits \<Rightarrow> 'a operand \<Rightarrow> 'a tarray \<Rightarrow> array_error + 'a tarray \<times> 'a operand" where
  "TArray_move_assign t rhs a = (case rhs of
       Self \<Rightarrow> Inr (a, Self)
     | Other src \<Rightarrow> rbind (DestroyElementsAndFreeBuffer t a) (\<lambda>a1.
         Inr (a1 \<lparr> m_data := m_data src, m_num := m_num src, m_max := m_max src \<rparr>,
              Other (src \<lparr> m_data := None, m_num := 0, m_max := 0 \<rparr>))))"

definition TArray_dtor :: "traits \<Rightarrow> 'a tarray \<Rightarrow> array_error + 'a tarray" where
  "TArray_dtor = DestroyElementsAndFreeBuffer"

section \<open>Capacity and access\<close>

definition TArray_Num :: "'a tarray \<Rightarrow> int" where "TArray_Num a = m_num a"
definition TArray_Max :: "'a tarray \<Rightarrow> int" where "TArray_Max a = m_max a"
definition TArray_IsEmpty :: "'a tarray \<Rightarrow> bool" where "TArray_IsEmpty a \<longleftrightarrow> m_num a = 0"

definition IsValidIndex :: "'a tarray \<Rightarrow> int \<Rightarrow> bool" where
  "IsValidIndex a Index \<longleftrightarrow> 0 \<le> Index \<and> Index < m_num a"

definition Reserve :: "build \<Rightarrow> traits \<Rightarrow> int \<Rightarrow> 'a tarray \<Rightarrow> array_error + 'a tarray" where
  "Reserve bld t NewMax a =
     acheck bld (0 \<le> NewMax) (if NewMax > m_max a then ReserveAtLeast t NewMax a else Inr a)"

definition Reset :: "traits \<Rightarrow> int \<Rightarrow> 'a tarray \<Rightarrow> array_error + 'a tarray" where
  "Reset t NewCapacityHint a =
     rbind (DestroyElementsOnly t a) (\<lambda>a1.
       let a2 = a1 \<lparr> m_num := 0 \<rparr> in
       if NewCapacityHint = 0 then drop_buffer t a2
       else if NewCapacityHint < m_max a2
       then rbind (drop_buffer t a2) (ReserveAtLeast t NewCapacityHint)
       else Inr a2)"

definition Empty_slack :: "build \<Rightarrow> traits \<Rightarrow> int \<Rightarrow> 'a tarray \<Rightarrow> array_error + 'a tarray" where
  "Empty_slack bld t NewSlack a =
     acheck bld (0 \<le> NewSlack)
      (rbind (DestroyElementsOnly t a) (\<lambda>a1.
       let a2 = a1 \<lparr> m_num := 0 \<rparr> in
       if NewSlack = 0 then drop_buffer t a2
       else if NewSlack > m_max a2 then ReserveAtLeast t NewSlack a2
       else if NewSlack < m_max a2 then rbind (drop_buffer t a2) (ReserveAtLeast t NewSlack)
       else Inr a2))"

definition index_op :: "build \<Rightarrow> int \<Rightarrow> 'a tarray \<Rightarrow> array_error + 'a" where
  "index_op bld Index a = acheck bld (IsValidIndex a Index)
     (if Index < 0 then Inl Lifetime else read_cell (nat Index) (cells a))"

datatype FBoundsError = IndexNegative | IndexTooLarge | EmptyContainer

text \<open>The outer result is the model's, the inner one the \<open>Result\<close> the function returns.\<close>

definition At :: "int \<Rightarrow> 'a tarray \<Rightarrow> array_error + (FBoundsError + 'a)" where
  "At Index a =
     (if Index < 0 then Inr (Inl IndexNegative)
      else if m_num a = 0 then Inr (Inl EmptyContainer)
      else if Index \<ge> m_num a then Inr (Inl IndexTooLarge)
      else rbind (read_cell (nat Index) (cells a)) (\<lambda>x. Inr (Inr x)))"

definition Last :: "build \<Rightarrow> int \<Rightarrow> 'a tarray \<Rightarrow> array_error + 'a" where
  "Last bld IndexFromEnd a =
     acheck bld (0 \<le> IndexFromEnd) (acheck bld (IndexFromEnd < m_num a)
       (let I = m_num a - 1 - IndexFromEnd in
        if I < 0 then Inl Lifetime else read_cell (nat I) (cells a)))"

definition Top :: "build \<Rightarrow> 'a tarray \<Rightarrow> array_error + 'a" where
  "Top bld a = Last bld 0 a"

section \<open>Adding and removing elements\<close>

text \<open>
  A \<open>const T&\<close> argument: an object outside the array, or its own element at an index.  The
  reference is read when the new element is constructed; if the buffer was replaced before
  that, it refers to freed storage.
\<close>

datatype 'a vref = Ext 'a | Own nat

definition read_ref :: "bool \<Rightarrow> 'a vref \<Rightarrow> 'a buffer \<Rightarrow> array_error + 'a" where
  "read_ref replaced r b = (case r of
       Ext x \<Rightarrow> Inr x
     | Own j \<Rightarrow> if replaced then Inl DanglingRef else read_cell j b)"

definition Add :: "traits \<Rightarrow> 'a vref \<Rightarrow> 'a tarray \<Rightarrow> array_error + int \<times> 'a tarray" where
  "Add t Value a =
     (let full = (m_num a \<ge> m_max a) in
      rbind (if full then GrowByOne t a else Inr a) (\<lambda>a1.
      rbind (read_ref full Value (cells a1)) (\<lambda>x.
      rbind (construct_cell t (nat (m_num a1)) x (cells a1)) (\<lambda>b.
      Inr (m_num a1, (set_cells b a1) \<lparr> m_num := m_num a1 + 1 \<rparr>)))))"

text \<open>The rvalue overloads take an object of the caller, which they leave moved from.\<close>

definition Emplace :: "traits \<Rightarrow> 'a \<Rightarrow> 'a tarray \<Rightarrow> array_error + int \<times> 'a tarray" where
  "Emplace t Value a =
     rbind (if m_num a \<ge> m_max a then GrowByOne t a else Inr a) (\<lambda>a1.
     rbind (construct_cell t (nat (m_num a1)) Value (cells a1)) (\<lambda>b.
     Inr (m_num a1, (set_cells b a1) \<lparr> m_num := m_num a1 + 1 \<rparr>)))"

definition shift_down_step :: "traits \<Rightarrow> nat \<Rightarrow> 'a buffer \<Rightarrow> array_error + 'a buffer" where
  "shift_down_step t I b =
     rbind (move_cell t (I + 1) b) (\<lambda>(x, b1).
     rbind (construct_cell t I x b1) (\<lambda>b2. destroy_cell (I + 1) b2))"

text \<open>Closing the gap at \<open>Index\<close>: the two branches of \<open>RemoveAt\<close>.\<close>

definition close_gap :: "traits \<Rightarrow> nat \<Rightarrow> nat \<Rightarrow> 'a buffer \<Rightarrow> array_error + 'a buffer" where
  "close_gap t Index num b =
     (let NumToShift = int num - int Index - 1 in
      if NumToShift > 0
      then if t = Trivial then memmove_cells Index (Index + 1) (nat NumToShift) b
           else fold_res (shift_down_step t) [Index..<num - 1] b
      else Inr b)"

definition RemoveAt :: "build \<Rightarrow> traits \<Rightarrow> int \<Rightarrow> 'a tarray \<Rightarrow> array_error + 'a tarray" where
  "RemoveAt bld t Index a =
     acheck bld (IsValidIndex a Index)
      (if Index < 0 then Inl Lifetime else
       rbind (destroy_cell (nat Index) (cells a)) (\<lambda>b.
       rbind (close_gap t (nat Index) (nat (m_num a)) b) (\<lambda>b1.
       Inr ((set_cells b1 a) \<lparr> m_num := m_num a - 1 \<rparr>))))"

definition RemoveAtSwap :: "build \<Rightarrow> traits \<Rightarrow> int \<Rightarrow> 'a tarray \<Rightarrow> array_error + 'a tarray" where
  "RemoveAtSwap bld t Index a =
     acheck bld (IsValidIndex a Index)
      (let LastIndex = m_num a - 1 in
       if Index < 0 \<or> LastIndex < 0 then Inl Lifetime else
       rbind (if Index \<noteq> LastIndex then
           rbind (destroy_cell (nat Index) (cells a)) (\<lambda>b.
           rbind (move_cell t (nat LastIndex) b) (\<lambda>(x, b1).
           rbind (construct_cell t (nat Index) x b1) (\<lambda>b2. destroy_cell (nat LastIndex) b2)))
         else destroy_cell (nat LastIndex) (cells a)) (\<lambda>b.
       Inr ((set_cells b a) \<lparr> m_num := m_num a - 1 \<rparr>)))"

definition Pop :: "build \<Rightarrow> traits \<Rightarrow> 'a tarray \<Rightarrow> array_error + 'a \<times> 'a tarray" where
  "Pop bld t a =
     acheck bld (m_num a > 0)
      (let LastIndex = m_num a - 1 in
       if LastIndex < 0 then Inl Lifetime else
       rbind (move_cell t (nat LastIndex) (cells a)) (\<lambda>(x, b).
       rbind (destroy_cell (nat LastIndex) b) (\<lambda>b1.
       Inr (x, (set_cells b1 a) \<lparr> m_num := m_num a - 1 \<rparr>))))"

definition append_room :: "traits \<Rightarrow> int \<Rightarrow> 'a tarray \<Rightarrow> array_error + 'a tarray" where
  "append_room t Count a =
     (let NewNum = m_num a + Count in
      if \<not> i32_ok NewNum then Inl IntOverflow
      else if NewNum > m_max a then ReserveAtLeast t NewNum a else Inr a)"

definition Append_copy :: "traits \<Rightarrow> 'a operand \<Rightarrow> 'a tarray \<Rightarrow> array_error + int \<times> 'a tarray" where
  "Append_copy t rhs a =
     (let Count = (case rhs of Self \<Rightarrow> m_num a | Other src \<Rightarrow> m_num src) in
      if Count \<le> 0 then Inr (m_num a, a)
      else rbind (append_room t Count a) (\<lambda>a1.
        rbind (CopyConstructRange t (nat (m_num a1))
                 (case rhs of Self \<Rightarrow> cells a1 | Other src \<Rightarrow> cells src) (nat Count) (cells a1)) (\<lambda>b.
        Inr (m_num a, (set_cells b a1) \<lparr> m_num := m_num a + Count \<rparr>))))"

definition append_move_step ::
  "traits \<Rightarrow> nat \<Rightarrow> nat \<Rightarrow> 'a buffer \<times> 'a buffer \<Rightarrow> array_error + 'a buffer \<times> 'a buffer" where
  "append_move_step t at I = (\<lambda>(dst, src).
     rbind (move_cell t I src) (\<lambda>(x, src1).
     rbind (construct_cell t (at + I) x dst) (\<lambda>dst1.
     rbind (destroy_cell I src1) (\<lambda>src2. Inr (dst1, src2)))))"

text \<open>The array that is appended to another one by moving; it is left empty.\<close>

definition Append_move ::
  "traits \<Rightarrow> 'a tarray \<Rightarrow> 'a tarray \<Rightarrow> array_error + int \<times> 'a tarray \<times> 'a tarray" where
  "Append_move t src a =
     (if m_num src \<le> 0 then Inr (m_num a, a, src)
      else rbind (append_room t (m_num src) a) (\<lambda>a1.
        rbind (fold_res (append_move_step t (nat (m_num a1))) [0..<nat (m_num src)]
                 (cells a1, cells src)) (\<lambda>(b, sb).
        Inr (m_num a, (set_cells b a1) \<lparr> m_num := m_num a + m_num src \<rparr>,
             (set_cells sb src) \<lparr> m_num := 0 \<rparr>))))"

text \<open>A range of \<open>Count\<close> objects at \<open>Source\<close>, outside the array; \<open>None\<close> is the null pointer.\<close>

definition Append_range ::
  "build \<Rightarrow> traits \<Rightarrow> 'a buffer option \<Rightarrow> int \<Rightarrow> 'a tarray \<Rightarrow> array_error + int \<times> 'a tarray" where
  "Append_range bld t Source Count a =
     acheck bld (0 \<le> Count)
      (if Count \<le> 0 then Inr (m_num a, a)
       else acheck bld (Source \<noteq> None)
        (rbind (append_room t Count a) (\<lambda>a1.
         rbind (CopyConstructRange t (nat (m_num a1))
                  (case Source of None \<Rightarrow> [] | Some s \<Rightarrow> s) (nat Count) (cells a1)) (\<lambda>b.
         Inr (m_num a, (set_cells b a1) \<lparr> m_num := m_num a + Count \<rparr>)))))"

definition shift_up_step :: "traits \<Rightarrow> nat \<Rightarrow> 'a buffer \<Rightarrow> array_error + 'a buffer" where
  "shift_up_step t I b = rbind (move_cell t (I - 1) b) (\<lambda>(x, b1). assign_cell I x b1)"

text \<open>Opening the gap at \<open>Index\<close>: the two branches of \<open>Insert\<close>.\<close>

definition open_gap :: "traits \<Rightarrow> nat \<Rightarrow> nat \<Rightarrow> 'a buffer \<Rightarrow> array_error + 'a buffer" where
  "open_gap t Index num b =
     (let NumToShift = int num - int Index in
      if NumToShift > 0
      then if t = Trivial then memmove_cells (Index + 1) Index (nat NumToShift) b
           else rbind (move_cell t (num - 1) b) (\<lambda>(x, b1).
                rbind (construct_cell t num x b1) (\<lambda>b2.
                rbind (fold_res (shift_up_step t) (rev [Index + 1..<num]) b2) (destroy_cell Index)))
      else Inr b)"

definition Insert_at ::
  "build \<Rightarrow> traits \<Rightarrow> 'a vref \<Rightarrow> int \<Rightarrow> 'a tarray \<Rightarrow> array_error + int \<times> 'a tarray" where
  "Insert_at bld t Value Index a =
     acheck bld (0 \<le> Index) (acheck bld (Index \<le> m_num a)
      (let full = (m_num a \<ge> m_max a) in
       if Index < 0 \<or> Index > m_num a then Inl Lifetime else
       rbind (if full then GrowByOne t a else Inr a) (\<lambda>a1.
       rbind (open_gap t (nat Index) (nat (m_num a1)) (cells a1)) (\<lambda>b.
       rbind (read_ref full Value b) (\<lambda>x.
       rbind (construct_cell t (nat Index) x b) (\<lambda>b1.
       Inr (Index, (set_cells b1 a1) \<lparr> m_num := m_num a1 + 1 \<rparr>)))))))"

definition Insert_move ::
  "build \<Rightarrow> traits \<Rightarrow> 'a \<Rightarrow> int \<Rightarrow> 'a tarray \<Rightarrow> array_error + int \<times> 'a tarray" where
  "Insert_move bld t Value Index a =
     acheck bld (0 \<le> Index) (acheck bld (Index \<le> m_num a)
      (if Index < 0 \<or> Index > m_num a then Inl Lifetime else
       rbind (if m_num a \<ge> m_max a then GrowByOne t a else Inr a) (\<lambda>a1.
       rbind (open_gap t (nat Index) (nat (m_num a1)) (cells a1)) (\<lambda>b.
       rbind (construct_cell t (nat Index) Value b) (\<lambda>b1.
       Inr (Index, (set_cells b1 a1) \<lparr> m_num := m_num a1 + 1 \<rparr>))))))"

section \<open>Searching\<close>

fun search_cells :: "('a \<Rightarrow> bool) \<Rightarrow> 'a buffer \<Rightarrow> nat list \<Rightarrow> array_error + int" where
  "search_cells Pred b [] = Inr INDEX_NONE"
| "search_cells Pred b (I # Is) =
     rbind (read_cell I b) (\<lambda>x. if Pred x then Inr (int I) else search_cells Pred b Is)"

definition IndexOfByPredicate :: "('a \<Rightarrow> bool) \<Rightarrow> 'a tarray \<Rightarrow> array_error + int" where
  "IndexOfByPredicate Pred a = search_cells Pred (cells a) [0..<nat (m_num a)]"

definition Find :: "'a \<Rightarrow> 'a tarray \<Rightarrow> array_error + int" where
  "Find Value a = search_cells (\<lambda>x. x = Value) (cells a) [0..<nat (m_num a)]"

text \<open>The element \<open>FindByPredicate\<close> returns a pointer to.\<close>

definition FindByPredicate :: "('a \<Rightarrow> bool) \<Rightarrow> 'a tarray \<Rightarrow> array_error + 'a option" where
  "FindByPredicate Pred a =
     rbind (search_cells Pred (cells a) [0..<nat (m_num a)]) (\<lambda>i.
       if i = INDEX_NONE then Inr None else rbind (read_cell (nat i) (cells a)) (\<lambda>x. Inr (Some x)))"

definition TArray_Contains :: "'a \<Rightarrow> 'a tarray \<Rightarrow> array_error + bool" where
  "TArray_Contains Value a = rbind (Find Value a) (\<lambda>i. Inr (i \<noteq> INDEX_NONE))"

definition TArray_Swap :: "build \<Rightarrow> int \<Rightarrow> int \<Rightarrow> 'a tarray \<Rightarrow> array_error + 'a tarray" where
  "TArray_Swap bld IndexA IndexB a =
     acheck bld (IsValidIndex a IndexA) (acheck bld (IsValidIndex a IndexB)
      (if IndexA < 0 \<or> IndexB < 0 then Inl Lifetime
       else if IndexA \<noteq> IndexB then
         rbind (read_cell (nat IndexA) (cells a)) (\<lambda>x.
         rbind (read_cell (nat IndexB) (cells a)) (\<lambda>y.
         Inr (set_cells ((cells a) [nat IndexA := Live y, nat IndexB := Live x]) a)))
       else Inr a))"

section \<open>Removal by predicate or value\<close>

definition remove_step ::
  "traits \<Rightarrow> ('a \<Rightarrow> bool) \<Rightarrow> nat \<Rightarrow> nat \<times> 'a buffer \<Rightarrow> array_error + nat \<times> 'a buffer" where
  "remove_step t Pred ReadIdx = (\<lambda>(WriteIdx, b).
     rbind (read_cell ReadIdx b) (\<lambda>x.
       if Pred x then rbind (destroy_cell ReadIdx b) (\<lambda>b1. Inr (WriteIdx, b1))
       else if WriteIdx \<noteq> ReadIdx then
         rbind (move_cell t ReadIdx b) (\<lambda>(y, b1).
         rbind (construct_cell t WriteIdx y b1) (\<lambda>b2.
         rbind (destroy_cell ReadIdx b2) (\<lambda>b3. Inr (WriteIdx + 1, b3))))
       else Inr (WriteIdx + 1, b)))"

definition RemoveAll :: "traits \<Rightarrow> ('a \<Rightarrow> bool) \<Rightarrow> 'a tarray \<Rightarrow> array_error + int \<times> 'a tarray" where
  "RemoveAll t Pred a =
     rbind (fold_res (remove_step t Pred) [0..<nat (m_num a)] (0, cells a)) (\<lambda>(WriteIdx, b).
       Inr (m_num a - int WriteIdx, (set_cells b a) \<lparr> m_num := int WriteIdx \<rparr>))"

definition RemoveSingle :: "build \<Rightarrow> traits \<Rightarrow> 'a \<Rightarrow> 'a tarray \<Rightarrow> array_error + int \<times> 'a tarray" where
  "RemoveSingle bld t Value a =
     rbind (Find Value a) (\<lambda>Idx.
       if Idx = INDEX_NONE then Inr (0, a)
       else rbind (RemoveAt bld t Idx a) (\<lambda>a1. Inr (1, a1)))"

section \<open>The hooks of the containers built on it\<close>

definition BumpNumUninit :: "build \<Rightarrow> 'a tarray \<Rightarrow> array_error + 'a tarray" where
  "BumpNumUninit bld a = acheck bld (m_num a < m_max a) (Inr (a \<lparr> m_num := m_num a + 1 \<rparr>))"

definition SetDataAtIndexRaw :: "build \<Rightarrow> int \<Rightarrow> 'a \<Rightarrow> 'a tarray \<Rightarrow> array_error + 'a tarray" where
  "SetDataAtIndexRaw bld Index NewValue a =
     acheck bld (IsValidIndex a Index)
      (if Index < 0 then Inl Lifetime
       else rbind (assign_cell (nat Index) NewValue (cells a)) (\<lambda>b. Inr (set_cells b a)))"

end
