(* ===== verification/OpRefinement.thy ===== *)
theory OpRefinement
  imports XPrelude
begin

text \<open>
  The interface of a container: every operation that its caller is allowed to use returns
  and takes a representation of an abstract value to a representation of the value the
  specification says.  What follows for runs of operations is proved once.
\<close>

fun allowed :: "('op \<Rightarrow> 'm \<Rightarrow> bool) \<Rightarrow> ('op \<Rightarrow> 'm \<Rightarrow> 'm) \<Rightarrow> 'op list \<Rightarrow> 'm \<Rightarrow> bool" where
  "allowed ok spec [] m \<longleftrightarrow> True"
| "allowed ok spec (x # xs) m \<longleftrightarrow> ok x m \<and> allowed ok spec xs (spec x m)"

locale op_refinement =
  fixes rep :: "'s \<Rightarrow> 'm \<Rightarrow> bool"
    and ok :: "'op \<Rightarrow> 'm \<Rightarrow> bool"
    and step :: "'op \<Rightarrow> 's \<Rightarrow> 'e + 's"
    and spec :: "'op \<Rightarrow> 'm \<Rightarrow> 'm"
  assumes refines: "rep s m \<Longrightarrow> ok x m \<Longrightarrow> \<exists>s'. step x s = Inr s' \<and> rep s' (spec x m)"
begin

lemma run_refines:
  "rep s m \<Longrightarrow> allowed ok spec xs m \<Longrightarrow>
     \<exists>s'. run_steps step xs s = Inr s' \<and> rep s' (fold spec xs m)"
proof (induction xs arbitrary: s m)
  case Nil
  then show ?case by simp
next
  case (Cons x xs)
  from Cons.prems obtain s1 where "step x s = Inr s1" "rep s1 (spec x m)"
    using refines by fastforce
  with Cons.IH [of s1 "spec x m"] Cons.prems show ?case by simp
qed

end

end
