(* ===== verification/TArrayProps.thy ===== *)
theory TArrayProps
  imports TArrayCore OpRefinement
begin

text \<open>
  \<open>TArrayCore\<close> implements lists: the representation relation, the effect of the cell
  operations on a buffer split at the cell, the loops, and what each operation does to the
  represented list.
\<close>

section \<open>The representation\<close>

definition spare :: "traits \<Rightarrow> 'a buffer \<Rightarrow> bool" where
  "spare t r \<longleftrightarrow> (t = NonTrivial \<longrightarrow> (\<forall>c \<in> set r. c = Raw))"

definition arr_rep :: "traits \<Rightarrow> 'a tarray \<Rightarrow> 'a list \<Rightarrow> bool" where
  "arr_rep t a xs \<longleftrightarrow> m_num a = int (length xs) \<and> 0 \<le> m_max a \<and> m_max a < 2 ^ 31 \<and>
     length (cells a) = nat (m_max a) \<and> (m_data a = None \<longleftrightarrow> m_max a = 0) \<and>
     (\<exists>r. cells a = map Live xs @ r \<and> spare t r)"

lemma spare_simps [simp]:
  "spare t []" "spare t (c # r) \<longleftrightarrow> (t = NonTrivial \<longrightarrow> c = Raw) \<and> spare t r"
  "spare t (r @ r') \<longleftrightarrow> spare t r \<and> spare t r'" "spare t (replicate n Raw)"
  by (auto simp: spare_def)

lemma spare_other: "t \<noteq> NonTrivial \<Longrightarrow> spare t r"
  by (simp add: spare_def)

lemma ctor_rep: "arr_rep t TArray_ctor []"
  by (simp add: arr_rep_def TArray_ctor_def cells_def)

lemma arr_repE:
  assumes "arr_rep t a xs"
  obtains r where "cells a = map Live xs @ r" "spare t r" "m_num a = int (length xs)"
    "length xs + length r = nat (m_max a)" "0 \<le> m_max a" "m_max a < 2 ^ 31"
    "m_data a = None \<longleftrightarrow> m_max a = 0"
proof -
  from assms obtain r where r: "cells a = map Live xs @ r" "spare t r" by (auto simp: arr_rep_def)
  moreover have "length (cells a) = nat (m_max a)" using assms by (simp add: arr_rep_def)
  ultimately have l: "length xs + length r = nat (m_max a)" by simp
  show ?thesis using assms l by (intro that [OF r]) (simp_all add: arr_rep_def)
qed

lemma cells_set_cells: "m_data a \<noteq> None \<Longrightarrow> cells (set_cells b a) = b"
  by (auto simp: cells_def set_cells_def)

lemma set_cells_simps [simp]:
  "m_num (set_cells b a) = m_num a" "m_max (set_cells b a) = m_max a"
  "m_data (set_cells b a) = None \<longleftrightarrow> m_data a = None"
  by (simp_all add: set_cells_def)

lemma cells_num [simp]: "cells (a \<lparr> m_num := n \<rparr>) = cells a"
  by (simp add: cells_def)

text \<open>Writing back a buffer of the same length represents the list it holds.\<close>

lemma arr_rep_write:
  assumes "arr_rep t a xs" "length b = length (cells a)" "b = map Live ys @ r" "spare t r"
  shows "arr_rep t ((set_cells b a) \<lparr> m_num := int (length ys) \<rparr>) ys"
proof (cases "m_data a")
  case None
  with assms have "b = []" by (simp add: cells_def)
  with assms None show ?thesis by (auto simp: arr_rep_def cells_def set_cells_def)
next
  case (Some c)
  with assms show ?thesis by (auto simp: arr_rep_def cells_set_cells)
qed

section \<open>Cells of a split buffer\<close>

lemma read_live: "i < length xs \<Longrightarrow> read_cell i (map Live xs @ r) = Inr (xs ! i)"
  by (simp add: read_cell_def nth_append)

lemma read_split: "read_cell (length p) (p @ Live x # r) = Inr x"
  by (simp add: read_cell_def)

lemma construct_split:
  "t = NonTrivial \<longrightarrow> c = Raw \<Longrightarrow> construct_cell t (length p) x (p @ c # r) = Inr (p @ Live x # r)"
  by (simp add: construct_cell_def)

lemma destroy_split: "c \<noteq> Raw \<Longrightarrow> destroy_cell (length p) (p @ c # r) = Inr (p @ Raw # r)"
  by (simp add: destroy_cell_def)

lemma assign_split: "c \<noteq> Raw \<Longrightarrow> assign_cell (length p) x (p @ c # r) = Inr (p @ Live x # r)"
  by (simp add: assign_cell_def)

definition left_by_move :: "traits \<Rightarrow> 'a \<Rightarrow> 'a cell" where
  "left_by_move t x = (if t = Trivial then Live x else MovedFrom)"

lemma left_by_move_object [simp]: "left_by_move t x \<noteq> Raw"
  by (simp add: left_by_move_def)

lemma move_split:
  "move_cell t (length p) (p @ Live x # r) = Inr (x, p @ left_by_move t x # r)"
  by (simp add: move_cell_def read_split left_by_move_def)

text \<open>The same facts where the index is not syntactically the length of the prefix.\<close>

lemma move_at: "i = length p \<Longrightarrow> move_cell t i (p @ Live x # r) = Inr (x, p @ left_by_move t x # r)"
  by (simp add: move_split)

lemma construct_at:
  "i = length p \<Longrightarrow> (t = NonTrivial \<longrightarrow> c = Raw) \<Longrightarrow>
     construct_cell t i x (p @ c # r) = Inr (p @ Live x # r)"
  by (simp add: construct_split)

lemma destroy_at: "i = length p \<Longrightarrow> c \<noteq> Raw \<Longrightarrow> destroy_cell i (p @ c # r) = Inr (p @ Raw # r)"
  by (simp add: destroy_split)

lemma assign_at: "i = length p \<Longrightarrow> c \<noteq> Raw \<Longrightarrow> assign_cell i x (p @ c # r) = Inr (p @ Live x # r)"
  by (simp add: assign_split)

section \<open>Storage\<close>

lemma upt_length_Cons: "[k..<k + length (x # xs)] = k # [Suc k..<Suc k + length xs]"
  by (simp add: upt_rec)

lemma relocate_loop:
  "length ys = k \<Longrightarrow> length o1 = k \<Longrightarrow>
   fold_res (relocate_step t) [k..<k + length xs]
     (map Live ys @ replicate (length xs + m) Raw, o1 @ map Live xs @ r) =
   Inr (map Live (ys @ xs) @ replicate m Raw, o1 @ replicate (length xs) Raw @ r)"
proof (induction xs arbitrary: k ys o1)
  case Nil
  then show ?case by simp
next
  case (Cons x xs)
  have step: "relocate_step t k
      (map Live ys @ replicate (length (x # xs) + m) Raw, o1 @ map Live (x # xs) @ r) =
      Inr (map Live (ys @ [x]) @ replicate (length xs + m) Raw, (o1 @ [Raw]) @ map Live xs @ r)"
    using Cons.prems
    by (simp add: relocate_step_def move_at construct_at [where p = "map Live ys"] destroy_at)
  note upt = upt_length_Cons [of k x xs]
  have ih: "fold_res (relocate_step t) [Suc k..<Suc k + length xs]
      (map Live (ys @ [x]) @ replicate (length xs + m) Raw, (o1 @ [Raw]) @ map Live xs @ r) =
      Inr (map Live ((ys @ [x]) @ xs) @ replicate m Raw, (o1 @ [Raw]) @ replicate (length xs) Raw @ r)"
    by (rule Cons.IH) (simp_all add: Cons.prems)
  show ?case unfolding upt fold_res.simps step rbind_Inr ih by simp
qed

lemma destroy_loop:
  "length o1 = k \<Longrightarrow> fold_res destroy_cell [k..<k + length xs] (o1 @ map Live xs @ r) =
     Inr (o1 @ replicate (length xs) Raw @ r)"
proof (induction xs arbitrary: k o1)
  case Nil
  then show ?case by simp
next
  case (Cons x xs)
  note upt_length_Cons [of k x xs]
  with Cons.IH [of "o1 @ [Raw]" "Suc k"] Cons.prems show ?case
    by (simp add: destroy_at)
qed

lemma Deallocate_spare: "spare t r \<Longrightarrow> Deallocate_cells t r = Inr ()"
  by (auto simp: Deallocate_cells_def spare_def)

lemma ReserveAtLeast_rep:
  assumes "arr_rep t a xs" "NewMax < 2 ^ 31"
  obtains a' where "ReserveAtLeast t NewMax a = Inr a'" "arr_rep t a' xs" "m_num a' = m_num a"
    "m_max a' = max NewMax (m_max a)"
proof (cases "NewMax \<le> m_max a")
  case True
  then show ?thesis using that [of a] assms by (simp add: ReserveAtLeast_def max_def)
next
  case False
  obtain r where r: "cells a = map Live xs @ r" "spare t r" "m_num a = int (length xs)"
    "length xs + length r = nat (m_max a)" "0 \<le> m_max a" "m_max a < 2 ^ 31"
    "m_data a = None \<longleftrightarrow> m_max a = 0"
    by (rule arr_repE [OF assms(1)])
  define n where "n = nat NewMax"
  have n: "length xs + length r \<le> n" "0 < n" "NewMax = int n" using False r(4,5) by (auto simp: n_def)
  have grown: "ReserveAtLeast t NewMax a = Inr (a \<lparr> m_data := Some (map Live xs @ s), m_max := NewMax \<rparr>)"
    if s: "s = (if t = Trivial then r @ replicate (n - length (cells a)) Raw
                else replicate (n - length xs) Raw)" for s
  proof (cases "t = Trivial")
    case True
    then show ?thesis using False r(1) s n(1) by (simp add: ReserveAtLeast_def n_def [symmetric])
  next
    case nt: False
    show ?thesis
    proof (cases "m_data a")
      case None
      then have "xs = []" using r by simp
      with None nt False s show ?thesis by (simp add: ReserveAtLeast_def n_def [symmetric])
    next
      case (Some old)
      have old: "old = map Live xs @ r" using Some r(1) by (simp add: cells_def)
      have "fold_res (relocate_step t) [0..<length xs] (replicate n Raw, old) =
          Inr (map Live xs @ replicate (n - length xs) Raw, replicate (length xs) Raw @ r)"
        using relocate_loop [of "[]" 0 "[]" t xs "n - length xs" r] n(1) old by simp
      with Some nt False s r(2,3) show ?thesis
        by (simp add: ReserveAtLeast_def n_def [symmetric] Deallocate_spare)
    qed
  qed
  show ?thesis
  proof (rule that [OF grown [OF refl]])
    show "arr_rep t (a \<lparr> m_data := Some (map Live xs @ (if t = Trivial
        then r @ replicate (n - length (cells a)) Raw else replicate (n - length xs) Raw)),
        m_max := NewMax \<rparr>) xs"
      using assms(2) r n by (auto simp: arr_rep_def cells_def spare_other)
  qed (use False in simp_all)
qed

lemma ComputeGrowCapacity_bounds:
  assumes "0 < n" "n < 2 ^ 31"
  shows "n \<le> ComputeGrowCapacity n m" "ComputeGrowCapacity n m < 2 ^ 31"
  using assms by (auto simp: ComputeGrowCapacity_def Let_def)

lemma GrowByOne_rep:
  assumes "arr_rep t a xs" "length xs < 2 ^ 31 - 1"
  obtains a' where "GrowByOne t a = Inr a'" "arr_rep t a' xs" "m_num a' = m_num a"
    "m_num a < m_max a'"
proof -
  let ?n = "m_num a + 1"
  have num: "m_num a = int (length xs)" using assms(1) by (simp add: arr_rep_def)
  have n: "0 < ?n" "?n < 2 ^ 31" using assms(2) num by auto
  note C = ComputeGrowCapacity_bounds [OF n, of "m_max a"]
  obtain a' where "ReserveAtLeast t (ComputeGrowCapacity ?n (m_max a)) a = Inr a'" "arr_rep t a' xs"
    "m_num a' = m_num a" "m_max a' = max (ComputeGrowCapacity ?n (m_max a)) (m_max a)"
    by (rule ReserveAtLeast_rep [OF assms(1) C(2)])
  with C(1) n num that [of a'] show ?thesis by (simp add: GrowByOne_def Let_def i32_ok_def)
qed

text \<open>Room for one more element: \<open>GrowByOne\<close> where the array is full.\<close>

lemma grow_if_full:
  assumes "arr_rep t a xs" "length xs < 2 ^ 31 - 1"
  obtains a' c r where "(if m_num a \<ge> m_max a then GrowByOne t a else Inr a) = Inr a'"
    "arr_rep t a' xs" "m_num a' = int (length xs)" "cells a' = map Live xs @ c # r"
    "spare t (c # r)" "m_data a' \<noteq> None"
proof -
  have num: "m_num a = int (length xs)" using assms(1) by (simp add: arr_rep_def)
  obtain a' where a': "(if m_num a \<ge> m_max a then GrowByOne t a else Inr a) = Inr a'"
    "arr_rep t a' xs" "m_num a' = m_num a" "m_num a < m_max a'"
  proof (cases "m_num a \<ge> m_max a")
    case True
    then show ?thesis using GrowByOne_rep [OF assms] that by auto
  qed (use assms(1) that in auto)
  obtain r where r: "cells a' = map Live xs @ r" "spare t r" "m_num a' = int (length xs)"
    "length xs + length r = nat (m_max a')" "0 \<le> m_max a'" "m_max a' < 2 ^ 31"
    "m_data a' = None \<longleftrightarrow> m_max a' = 0"
    by (rule arr_repE [OF a'(2)])
  have "m_max a' = int (length xs + length r)" using r(4,5) by simp
  with a'(3,4) num have "r \<noteq> []" by auto
  then obtain c r' where "r = c # r'" by (cases r) auto
  with r show ?thesis by (intro that [OF a'(1,2)]) (use a'(3,4) num r(5) in auto)
qed


section \<open>Clearing\<close>

lemma DestroyElementsOnly_rep:
  assumes "arr_rep t a xs"
  obtains a' where "DestroyElementsOnly t a = Inr a'" "arr_rep t (a' \<lparr> m_num := 0 \<rparr>) []"
    "m_max a' = m_max a"
proof -
  obtain r where r: "cells a = map Live xs @ r" "spare t r" "m_num a = int (length xs)"
    "length xs + length r = nat (m_max a)" "0 \<le> m_max a" "m_max a < 2 ^ 31"
    "m_data a = None \<longleftrightarrow> m_max a = 0"
    by (rule arr_repE [OF assms])
  show ?thesis
  proof (cases "t = NonTrivial")
    case True
    let ?b = "replicate (length xs) Raw @ r"
    have "DestroyElementsOnly t a = Inr (set_cells ?b a)"
      using destroy_loop [of "[]" 0 xs r] r(1,3) True by (simp add: DestroyElementsOnly_def)
    moreover have "arr_rep t ((set_cells ?b a) \<lparr> m_num := 0 \<rparr>) []"
      using arr_rep_write [OF assms, of ?b "[]" ?b] r(1,2) by simp
    ultimately show ?thesis by (rule that) simp
  next
    case False
    then have "arr_rep t (a \<lparr> m_num := 0 \<rparr>) []"
      using assms by (auto simp: arr_rep_def spare_other)
    with False that [of a] show ?thesis by (simp add: DestroyElementsOnly_def)
  qed
qed

lemma drop_buffer_rep:
  assumes "arr_rep t a []"
  obtains a' where "drop_buffer t a = Inr a'" "arr_rep t a' []" "m_max a' = 0" "m_data a' = None"
proof (cases "m_data a")
  case None
  then have "m_max a = 0" using assms by (simp add: arr_rep_def)
  with None assms show ?thesis by (intro that [of a]) (simp_all add: drop_buffer_def)
next
  case (Some b)
  with assms have "spare t b" by (auto simp: arr_rep_def cells_def)
  with Some have "drop_buffer t a = Inr (a \<lparr> m_data := None, m_max := 0 \<rparr>)"
    by (simp add: drop_buffer_def Deallocate_spare)
  then show ?thesis by (rule that) (use assms in \<open>simp_all add: arr_rep_def cells_def\<close>)
qed

lemma DestroyElementsAndFreeBuffer_rep:
  assumes "arr_rep t a xs"
  obtains a' where "DestroyElementsAndFreeBuffer t a = Inr a'" "arr_rep t a' []" "m_data a' = None"
proof -
  obtain a1 where a1: "DestroyElementsOnly t a = Inr a1" "arr_rep t (a1 \<lparr> m_num := 0 \<rparr>) []"
    "m_max a1 = m_max a" by (rule DestroyElementsOnly_rep [OF assms])
  have "drop_buffer t a1 = Inr a2 \<longleftrightarrow> drop_buffer t (a1 \<lparr> m_num := 0 \<rparr>) = Inr (a2 \<lparr> m_num := 0 \<rparr>)
      \<and> m_num a2 = m_num a1" for a2
    by (cases a1; cases a2) (auto simp: drop_buffer_def rbind_eq_Inr split: option.splits)
  moreover obtain a3 where a3: "drop_buffer t (a1 \<lparr> m_num := 0 \<rparr>) = Inr a3" "arr_rep t a3 []"
    "m_max a3 = 0" "m_data a3 = None" by (rule drop_buffer_rep [OF a1(2)])
  moreover have "(a3 \<lparr> m_num := m_num a1 \<rparr>) \<lparr> m_num := 0 \<rparr> = a3"
    using a3(2) by (simp add: arr_rep_def)
  ultimately have "drop_buffer t a1 = Inr (a3 \<lparr> m_num := m_num a1 \<rparr>)" by simp
  with a1(1) have "DestroyElementsAndFreeBuffer t a = Inr (a3 \<lparr> m_num := 0, m_max := 0 \<rparr>)"
    by (simp add: DestroyElementsAndFreeBuffer_def)
  moreover have "a3 \<lparr> m_num := 0, m_max := 0 \<rparr> = a3" using a3 by (simp add: arr_rep_def)
  ultimately show ?thesis using that [of a3] a3 by simp
qed

lemma Reset_rep:
  assumes "arr_rep t a xs" "Hint < 2 ^ 31"
  obtains a' where "Reset t Hint a = Inr a'" "arr_rep t a' []"
    "m_max a' = (if Hint < m_max a then max 0 Hint else if Hint = 0 then 0 else m_max a)"
proof -
  obtain a1 where a1: "DestroyElementsOnly t a = Inr a1" "arr_rep t (a1 \<lparr> m_num := 0 \<rparr>) []"
    "m_max a1 = m_max a" by (rule DestroyElementsOnly_rep [OF assms(1)])
  obtain a2 where a2: "drop_buffer t (a1 \<lparr> m_num := 0 \<rparr>) = Inr a2" "arr_rep t a2 []"
    "m_max a2 = 0" "m_data a2 = None" by (rule drop_buffer_rep [OF a1(2)])
  obtain a3 where a3: "ReserveAtLeast t Hint a2 = Inr a3" "arr_rep t a3 []"
    "m_num a3 = m_num a2" "m_max a3 = max Hint (m_max a2)"
    by (rule ReserveAtLeast_rep [OF a2(2) assms(2)])
  have max0: "0 \<le> m_max a" using assms(1) by (simp add: arr_rep_def)
  show ?thesis
  proof (cases "Hint = 0 \<or> \<not> Hint < m_max a")
    case True
    show ?thesis
    proof (cases "Hint = 0")
      case True
      with a1 a2 max0 that [of a2] show ?thesis by (simp add: Reset_def Let_def split: if_splits)
    next
      case False
      with True a1 that [of "a1 \<lparr> m_num := 0 \<rparr>"] show ?thesis by (simp add: Reset_def Let_def)
    qed
  next
    case False
    with a1 a2 a3 that [of a3] show ?thesis by (simp add: Reset_def Let_def max_def)
  qed
qed

lemma Empty_slack_rep:
  assumes "arr_rep t a xs" "0 \<le> Slack" "Slack < 2 ^ 31"
  obtains a' where "Empty_slack bld t Slack a = Inr a'" "arr_rep t a' []" "m_max a' = Slack"
proof -
  obtain a1 where a1: "DestroyElementsOnly t a = Inr a1" "arr_rep t (a1 \<lparr> m_num := 0 \<rparr>) []"
    "m_max a1 = m_max a" by (rule DestroyElementsOnly_rep [OF assms(1)])
  obtain a2 where a2: "drop_buffer t (a1 \<lparr> m_num := 0 \<rparr>) = Inr a2" "arr_rep t a2 []"
    "m_max a2 = 0" "m_data a2 = None" by (rule drop_buffer_rep [OF a1(2)])
  obtain a3 where a3: "ReserveAtLeast t Slack a2 = Inr a3" "arr_rep t a3 []"
    "m_num a3 = m_num a2" "m_max a3 = max Slack (m_max a2)"
    by (rule ReserveAtLeast_rep [OF a2(2) assms(3)])
  obtain a4 where a4: "ReserveAtLeast t Slack (a1 \<lparr> m_num := 0 \<rparr>) = Inr a4" "arr_rep t a4 []"
    "m_num a4 = m_num (a1 \<lparr> m_num := 0 \<rparr>)" "m_max a4 = max Slack (m_max (a1 \<lparr> m_num := 0 \<rparr>))"
    by (rule ReserveAtLeast_rep [OF a1(2) assms(3)])
  consider "Slack = 0" | "Slack \<noteq> 0" "Slack > m_max a" | "Slack \<noteq> 0" "Slack < m_max a"
    | "Slack \<noteq> 0" "Slack = m_max a" by linarith
  then show ?thesis
  proof cases
    case 1
    with a1 a2 that [of a2] show ?thesis by (simp add: Empty_slack_def acheck_def Let_def)
  next
    case 2
    with a1 a4 assms(2) that [of a4] show ?thesis
      by (simp add: Empty_slack_def acheck_def Let_def max_def)
  next
    case 3
    with a1 a2 a3 assms(2) that [of a3] show ?thesis
      by (simp add: Empty_slack_def acheck_def Let_def max_def)
  next
    case 4
    with a1 assms(2) that [of "a1 \<lparr> m_num := 0 \<rparr>"] show ?thesis
      by (simp add: Empty_slack_def acheck_def Let_def)
  qed
qed

section \<open>Adding\<close>

lemma Add_rep:
  assumes "arr_rep t a xs" "length xs < 2 ^ 31 - 1"
    and "case v of Ext y \<Rightarrow> y = x | Own j \<Rightarrow> m_num a < m_max a \<and> j < length xs \<and> x = xs ! j"
  obtains a' where "Add t v a = Inr (int (length xs), a')" "arr_rep t a' (xs @ [x])"
proof -
  obtain a1 c r where a1: "(if m_num a \<ge> m_max a then GrowByOne t a else Inr a) = Inr a1"
    "arr_rep t a1 xs" "m_num a1 = int (length xs)" "cells a1 = map Live xs @ c # r"
    "spare t (c # r)" "m_data a1 \<noteq> None" by (rule grow_if_full [OF assms(1,2)])
  have ref: "read_ref (m_num a \<ge> m_max a) v (cells a1) = Inr x"
    using assms(3) a1(4) by (auto simp: read_ref_def read_live split: vref.splits)
  let ?b = "map Live xs @ Live x # r"
  have con: "construct_cell t (length xs) x (cells a1) = Inr ?b"
    unfolding a1(4) by (rule construct_at) (use a1(5) in simp_all)
  have "Add t v a = Inr (int (length xs), (set_cells ?b a1) \<lparr> m_num := int (length (xs @ [x])) \<rparr>)"
    using a1(3) ref con unfolding Add_def Let_def a1(1) by simp
  moreover have "arr_rep t ((set_cells ?b a1) \<lparr> m_num := int (length (xs @ [x])) \<rparr>) (xs @ [x])"
    by (rule arr_rep_write [OF a1(2), of _ _ r]) (use a1(4,5) in simp_all)
  ultimately show ?thesis by (rule that)
qed

lemma Emplace_is_Add: "Emplace t x a = Add t (Ext x) a"
  by (simp add: Emplace_def Add_def Let_def read_ref_def)

section \<open>Removing\<close>

lemma shift_down_loop:
  "length (p :: 'a cell list) = k \<Longrightarrow> fold_res (shift_down_step t) [k..<k + length q] (p @ Raw # map Live q @ r) =
     Inr (p @ map Live q @ Raw # r)"
proof (induction q arbitrary: k p)
  case Nil
  then show ?case by simp
next
  case (Cons x q)
  have step: "shift_down_step t k (p @ Raw # map Live (x # q) @ r) =
      Inr ((p @ [Live x]) @ Raw # map Live q @ r)"
    using Cons.prems move_at [of "k + 1" "p @ [Raw]" t x "map Live q @ r"]
      construct_at [of k p t Raw x "left_by_move t x # map Live q @ r"]
      destroy_at [of "k + 1" "p @ [Live x]" "left_by_move t x" "map Live q @ r"]
    by (simp add: shift_down_step_def)
  note upt = upt_length_Cons [of k x q]
  have ih: "fold_res (shift_down_step t) [Suc k..<Suc k + length q]
      ((p @ [Live x]) @ Raw # map Live q @ r) = Inr ((p @ [Live x]) @ map Live q @ Raw # r)"
    by (rule Cons.IH) (simp add: Cons.prems)
  show ?case unfolding upt fold_res.simps step rbind_Inr ih by simp
qed

lemma close_gap_list:
  assumes "spare t r"
  obtains s where "close_gap t (length p) (Suc (length p + length q))
      (map Live p @ Raw # map Live q @ r) = Inr (map Live (p @ q) @ s)"
    "length s = Suc (length r)" "spare t s"
proof (cases "t = Trivial \<and> q \<noteq> []")
  case True
  let ?s = "last (map Live q) # r"
  have "drop (length q) (Raw # map Live q @ r) = ?s"
    using True by (cases q rule: rev_cases) (simp_all add: drop_Cons')
  then have "memmove_cells (length p) (length p + 1) (length q) (map Live p @ Raw # map Live q @ r)
      = Inr (map Live (p @ q) @ ?s)" by (simp add: memmove_cells_def)
  with True that [of ?s] show ?thesis by (simp add: close_gap_def spare_other)
next
  case False
  then show ?thesis
    using shift_down_loop [of "map Live p" "length p" t q r] assms that [of "Raw # r"]
    by (auto simp: close_gap_def)
qed

lemma RemoveAt_rep:
  assumes "arr_rep t a (p @ x # q)"
  obtains a' where "RemoveAt bld t (int (length p)) a = Inr a'" "arr_rep t a' (p @ q)"
    "m_max a' = m_max a"
proof -
  obtain r where r: "cells a = map Live (p @ x # q) @ r" "spare t r"
    "m_num a = int (length (p @ x # q))" by (rule arr_repE [OF assms])
  have ds: "destroy_cell (length p) (cells a) = Inr (map Live p @ Raw # map Live q @ r)"
    using r(1) destroy_at [of "length p" "map Live p" "Live x"] by simp
  obtain s where s: "close_gap t (length p) (Suc (length p + length q))
      (map Live p @ Raw # map Live q @ r) = Inr (map Live (p @ q) @ s)"
    "length s = Suc (length r)" "spare t s" by (rule close_gap_list [OF r(2)])
  have "IsValidIndex a (int (length p))" using r(3) by (simp add: IsValidIndex_def)
  moreover have "nat (m_num a) = Suc (length p + length q)" "m_num a - 1 = int (length (p @ q))"
    using r(3) by auto
  ultimately have "RemoveAt bld t (int (length p)) a =
      Inr ((set_cells (map Live (p @ q) @ s) a) \<lparr> m_num := int (length (p @ q)) \<rparr>)"
    using ds s(1) by (simp add: RemoveAt_def acheck_def)
  moreover have "arr_rep t ((set_cells (map Live (p @ q) @ s) a) \<lparr> m_num := int (length (p @ q)) \<rparr>) (p @ q)"
    by (rule arr_rep_write [OF assms]) (use r(1) s(2,3) in simp_all)
  ultimately show ?thesis by (rule that) simp
qed


lemma RemoveAtSwap_rep:
  assumes "arr_rep t a (p @ x # q)"
  obtains a' where "RemoveAtSwap bld t (int (length p)) a = Inr a'"
    "arr_rep t a' (p @ (if q = [] then [] else last q # butlast q))"
proof -
  obtain r where r: "cells a = map Live (p @ x # q) @ r" "spare t r"
    "m_num a = int (length (p @ x # q))" by (rule arr_repE [OF assms])
  have valid: "IsValidIndex a (int (length p))" using r(3) by (simp add: IsValidIndex_def)
  show ?thesis
  proof (cases q rule: rev_cases)
    case Nil
    let ?b = "map Live p @ Raw # r"
    have "destroy_cell (length p) (cells a) = Inr ?b"
      using r(1) Nil destroy_at [of "length p" "map Live p" "Live x" r] by simp
    then have "RemoveAtSwap bld t (int (length p)) a =
        Inr ((set_cells ?b a) \<lparr> m_num := int (length p) \<rparr>)"
      using r(3) valid Nil by (simp add: RemoveAtSwap_def acheck_def Let_def)
    moreover have "arr_rep t ((set_cells ?b a) \<lparr> m_num := int (length p) \<rparr>) p"
      by (rule arr_rep_write [OF assms, of _ p "Raw # r"]) (use r(1,2) Nil in simp_all)
    ultimately show ?thesis using that Nil by simp
  next
    case (snoc s y)
    let ?n = "length p + Suc (length s)" and ?b = "map Live (p @ y # s) @ Raw # r"
    have "destroy_cell (length p) (cells a) = Inr (map Live p @ Raw # map Live s @ Live y # r)"
      using r(1) snoc destroy_at [of "length p" "map Live p" "Live x"] by simp
    moreover have "move_cell t ?n (map Live p @ Raw # map Live s @ Live y # r) =
        Inr (y, map Live p @ Raw # map Live s @ left_by_move t y # r)"
      using move_at [of ?n "map Live p @ Raw # map Live s" t y r] by simp
    moreover have "construct_cell t (length p) y (map Live p @ Raw # map Live s @ left_by_move t y # r) =
        Inr (map Live p @ Live y # map Live s @ left_by_move t y # r)"
      by (rule construct_at) simp_all
    moreover have "destroy_cell ?n (map Live p @ Live y # map Live s @ left_by_move t y # r) = Inr ?b"
      using destroy_at [of ?n "map Live p @ Live y # map Live s" "left_by_move t y" r] by simp
    moreover have "nat (m_num a - 1) = ?n" "m_num a - 1 \<noteq> int (length p)" "\<not> m_num a - 1 < 0"
      "m_num a - 1 = int (length (p @ y # s))" using r(3) snoc by auto
    ultimately have "RemoveAtSwap bld t (int (length p)) a =
        Inr ((set_cells ?b a) \<lparr> m_num := int (length (p @ y # s)) \<rparr>)"
      using valid by (simp add: RemoveAtSwap_def acheck_def Let_def)
    moreover have "arr_rep t ((set_cells ?b a) \<lparr> m_num := int (length (p @ y # s)) \<rparr>) (p @ y # s)"
      by (rule arr_rep_write [OF assms, of _ _ "Raw # r"]) (use r(1,2) snoc in simp_all)
    ultimately show ?thesis using that snoc by simp
  qed
qed

lemma Pop_rep:
  assumes "arr_rep t a (p @ [x])"
  obtains a' where "Pop bld t a = Inr (x, a')" "arr_rep t a' p"
proof -
  obtain r where r: "cells a = map Live (p @ [x]) @ r" "spare t r"
    "m_num a = int (length (p @ [x]))" by (rule arr_repE [OF assms])
  let ?b = "map Live p @ Raw # r"
  have "move_cell t (length p) (cells a) = Inr (x, map Live p @ left_by_move t x # r)"
    using r(1) move_at [of "length p" "map Live p"] by simp
  moreover have "destroy_cell (length p) (map Live p @ left_by_move t x # r) = Inr ?b"
    by (rule destroy_at) simp_all
  ultimately have "Pop bld t a = Inr (x, (set_cells ?b a) \<lparr> m_num := int (length p) \<rparr>)"
    using r(3) by (simp add: Pop_def acheck_def Let_def)
  moreover have "arr_rep t ((set_cells ?b a) \<lparr> m_num := int (length p) \<rparr>) p"
    by (rule arr_rep_write [OF assms, of _ p "Raw # r"]) (use r(1,2) in simp_all)
  ultimately show ?thesis by (rule that)
qed

lemma remove_loop:
  "set junk \<subseteq> {Raw} \<Longrightarrow> k = length kept + length junk \<Longrightarrow>
   \<exists>junk'. fold_res (remove_step t P) [k..<k + length xs]
       (length kept, map Live kept @ junk @ map Live xs @ r) =
     Inr (length kept + length (filter (\<lambda>x. \<not> P x) xs),
          map Live (kept @ filter (\<lambda>x. \<not> P x) xs) @ junk' @ r) \<and> set junk' \<subseteq> {Raw} \<and>
     length kept + length junk + length xs =
       length kept + length (filter (\<lambda>x. \<not> P x) xs) + length junk'"
proof (induction xs arbitrary: k kept junk)
  case Nil
  then show ?case by (intro exI [of _ junk]) simp
next
  case (Cons x xs)
  note upt = upt_length_Cons [of k x xs]
  let ?s = "map Live kept @ junk @ map Live (x # xs) @ r"
  have rd: "read_cell k ?s = Inr x"
    using read_split [of "map Live kept @ junk" x] Cons.prems(2) by simp
  show ?case
  proof (cases "P x")
    case True
    have step: "remove_step t P k (length kept, ?s) =
        Inr (length kept, map Live kept @ (junk @ [Raw]) @ map Live xs @ r)"
      using rd True Cons.prems(2) destroy_at [of k "map Live kept @ junk" "Live x"]
      by (simp add: remove_step_def)
    from Cons.IH [of "junk @ [Raw]" "Suc k" kept] Cons.prems
    obtain junk' where "fold_res (remove_step t P) [Suc k..<Suc k + length xs]
        (length kept, map Live kept @ (junk @ [Raw]) @ map Live xs @ r) =
      Inr (length kept + length (filter (\<lambda>x. \<not> P x) xs),
           map Live (kept @ filter (\<lambda>x. \<not> P x) xs) @ junk' @ r)" "set junk' \<subseteq> {Raw}"
      "length kept + length (junk @ [Raw]) + length xs =
       length kept + length (filter (\<lambda>x. \<not> P x) xs) + length junk'" by auto
    with True show ?thesis unfolding upt fold_res.simps step rbind_Inr
      by (intro exI [of _ junk']) simp
  next
    case False
    obtain junk1 where step: "remove_step t P k (length kept, ?s) =
        Inr (length (kept @ [x]), map Live (kept @ [x]) @ junk1 @ map Live xs @ r)"
      and j1: "set junk1 \<subseteq> {Raw}" "length junk1 = length junk"
    proof (cases junk)
      case Nil
      then have "remove_step t P k (length kept, ?s) =
          Inr (length (kept @ [x]), map Live (kept @ [x]) @ junk @ map Live xs @ r)"
        using rd False Cons.prems(2) by (simp add: remove_step_def)
      then show ?thesis using that Cons.prems(1) by simp
    next
      case (Cons j js)
      have j: "j = Raw" "set js \<subseteq> {Raw}" using Cons.prems(1) Cons by auto
      have mv: "move_cell t k ?s = Inr (x, map Live kept @ junk @ left_by_move t x # map Live xs @ r)"
        using move_at [of k "map Live kept @ junk" t x] Cons.prems(2) by simp
      have cn: "construct_cell t (length kept) x (map Live kept @ junk @ left_by_move t x # map Live xs @ r)
          = Inr (map Live kept @ Live x # js @ left_by_move t x # map Live xs @ r)"
        using Cons construct_at [of "length kept" "map Live kept" t Raw x] j(1) by simp
      have ds: "destroy_cell k (map Live kept @ Live x # js @ left_by_move t x # map Live xs @ r) =
          Inr (map Live kept @ Live x # js @ Raw # map Live xs @ r)"
        using destroy_at [of k "map Live kept @ Live x # js" "left_by_move t x"] Cons.prems(2) Cons by simp
      have "remove_step t P k (length kept, ?s) =
          Inr (length (kept @ [x]), map Live (kept @ [x]) @ (js @ [Raw]) @ map Live xs @ r)"
        using rd False mv cn ds Cons.prems(2) Cons by (simp add: remove_step_def)
      then show ?thesis using that [of "js @ [Raw]"] j Cons by simp
    qed
    from Cons.IH [of junk1 "Suc k" "kept @ [x]"] Cons.prems j1
    obtain junk' where "fold_res (remove_step t P) [Suc k..<Suc k + length xs]
        (length (kept @ [x]), map Live (kept @ [x]) @ junk1 @ map Live xs @ r) =
      Inr (length (kept @ [x]) + length (filter (\<lambda>x. \<not> P x) xs),
           map Live ((kept @ [x]) @ filter (\<lambda>x. \<not> P x) xs) @ junk' @ r)" "set junk' \<subseteq> {Raw}"
      "length (kept @ [x]) + length junk1 + length xs =
       length (kept @ [x]) + length (filter (\<lambda>x. \<not> P x) xs) + length junk'" by auto
    with False j1(2) show ?thesis unfolding upt fold_res.simps step rbind_Inr
      by (intro exI [of _ junk']) simp
  qed
qed

lemma RemoveAll_rep:
  assumes "arr_rep t a xs"
  obtains a' where
    "RemoveAll t P a = Inr (int (length (filter P xs)), a')" "arr_rep t a' (filter (\<lambda>x. \<not> P x) xs)"
proof -
  obtain r where r: "cells a = map Live xs @ r" "spare t r" "m_num a = int (length xs)"
    by (rule arr_repE [OF assms])
  let ?k = "filter (\<lambda>x. \<not> P x) xs"
  obtain junk where junk: "fold_res (remove_step t P) [0..<length xs] (0, cells a) =
      Inr (length ?k, map Live ?k @ junk @ r)" "set junk \<subseteq> {Raw}" "length xs = length ?k + length junk"
    using remove_loop [of "[]" 0 "[]" t P xs r] r(1) by auto
  have "int (length xs) - int (length ?k) = int (length (filter P xs))"
    using sum_length_filter_compl [of P xs] by simp
  then have "RemoveAll t P a = Inr (int (length (filter P xs)),
      (set_cells (map Live ?k @ junk @ r) a) \<lparr> m_num := int (length ?k) \<rparr>)"
    using junk(1) r(3) by (simp add: RemoveAll_def)
  moreover have "arr_rep t ((set_cells (map Live ?k @ junk @ r) a) \<lparr> m_num := int (length ?k) \<rparr>) ?k"
    by (rule arr_rep_write [OF assms, of _ ?k "junk @ r"])
      (use r(1,2) junk(2,3) in \<open>auto simp: spare_def\<close>)
  ultimately show ?thesis by (rule that)
qed


section \<open>Inserting\<close>

lemma shift_up_loop:
  "length (p :: 'a cell list) = k \<Longrightarrow> c \<noteq> Raw \<Longrightarrow>
   \<exists>d. d \<noteq> Raw \<and> fold_res (shift_up_step t) (rev [k + 1..<k + 1 + length q])
     (p @ map Live q @ c # r) = Inr (p @ d # map Live q @ r)"
proof (induction q arbitrary: c r rule: rev_induct)
  case Nil
  then show ?case by simp
next
  case (snoc y q)
  let ?i = "k + 1 + length q"
  have upt: "rev [k + 1..<k + 1 + length (q @ [y])] = ?i # rev [k + 1..<k + 1 + length q]"
    by simp
  have "move_cell t (?i - 1) (p @ map Live q @ Live y # c # r) =
      Inr (y, p @ map Live q @ left_by_move t y # c # r)"
    using move_at [of "?i - 1" "p @ map Live q" t y "c # r"] snoc.prems(1) by simp
  moreover have "assign_cell ?i y (p @ map Live q @ left_by_move t y # c # r) =
      Inr (p @ map Live q @ left_by_move t y # Live y # r)"
    using assign_at [of ?i "p @ map Live q @ [left_by_move t y]" c y r] snoc.prems by simp
  ultimately have step: "shift_up_step t ?i (p @ map Live (q @ [y]) @ c # r) =
      Inr (p @ map Live q @ left_by_move t y # Live y # r)"
    by (simp add: shift_up_step_def)
  from snoc.IH [of "left_by_move t y" "Live y # r"] snoc.prems(1)
  obtain d where "d \<noteq> Raw" "fold_res (shift_up_step t) (rev [k + 1..<k + 1 + length q])
      (p @ map Live q @ left_by_move t y # Live y # r) = Inr (p @ d # map Live q @ Live y # r)"
    by auto
  then show ?case unfolding upt fold_res.simps step rbind_Inr by auto
qed

lemma open_gap_list:
  assumes "spare t (c # r)"
  obtains d where "open_gap t (length p) (length p + length q) (map Live (p @ q) @ c # r) =
      Inr (map Live p @ d # map Live q @ r)" "t = NonTrivial \<longrightarrow> d = Raw"
proof (cases q rule: rev_cases)
  case Nil
  then show ?thesis using that [of c] assms by (simp add: open_gap_def)
next
  case (snoc s y)
  show ?thesis
  proof (cases "t = Trivial")
    case True
    have "memmove_cells (length p + 1) (length p) (length q) (map Live p @ map Live q @ c # r) =
        Inr (map Live p @ hd (map Live q) # map Live q @ r)"
      using snoc by (cases s) (simp_all add: memmove_cells_def numeral_3_eq_3)
    moreover have "q \<noteq> []" using snoc by simp
    ultimately have "open_gap t (length p) (length p + length q) (map Live (p @ q) @ c # r) =
        Inr (map Live p @ hd (map Live q) # map Live q @ r)"
      using True by (simp add: open_gap_def)
    then show ?thesis using that True by blast
  next
    case False
    let ?n = "length p + length q"
    have mv: "move_cell t (?n - 1) (map Live (p @ q) @ c # r) =
        Inr (y, map Live (p @ s) @ left_by_move t y # c # r)"
      using move_at [of "?n - 1" "map Live (p @ s)" t y "c # r"] snoc by simp
    have cn: "construct_cell t ?n y (map Live (p @ s) @ left_by_move t y # c # r) =
        Inr (map Live p @ map Live s @ left_by_move t y # Live y # r)"
      using construct_at [of ?n "map Live (p @ s) @ [left_by_move t y]" t c y r] snoc assms by simp
    obtain d where d: "d \<noteq> Raw" "fold_res (shift_up_step t)
        (rev [length p + 1..<length p + 1 + length s])
        (map Live p @ map Live s @ left_by_move t y # Live y # r) =
      Inr (map Live p @ d # map Live s @ Live y # r)"
      using shift_up_loop [of "map Live p" "length p" "left_by_move t y" t s "Live y # r"] by auto
    have ds: "destroy_cell (length p) (map Live p @ d # map Live s @ Live y # r) =
        Inr (map Live p @ Raw # map Live q @ r)"
      using destroy_at [of "length p" "map Live p" d] d(1) snoc by simp
    have n: "[length p + 1..<?n] = [length p + 1..<length p + 1 + length s]" using snoc by simp
    have "open_gap t (length p) ?n (map Live (p @ q) @ c # r) =
        Inr (map Live p @ Raw # map Live q @ r)"
      using mv cn d(2) ds False snoc unfolding open_gap_def Let_def n by simp
    then show ?thesis using that by blast
  qed
qed

lemma Insert_rep:
  assumes "arr_rep t a (p @ q)" "length (p @ q) < 2 ^ 31 - 1"
  obtains a' where "Insert_at bld t (Ext x) (int (length p)) a = Inr (int (length p), a')"
    "Insert_move bld t x (int (length p)) a = Inr (int (length p), a')" "arr_rep t a' (p @ x # q)"
proof -
  obtain a1 c r where a1: "(if m_num a \<ge> m_max a then GrowByOne t a else Inr a) = Inr a1"
    "arr_rep t a1 (p @ q)" "m_num a1 = int (length (p @ q))" "cells a1 = map Live (p @ q) @ c # r"
    "spare t (c # r)" "m_data a1 \<noteq> None" by (rule grow_if_full [OF assms])
  obtain d where d: "open_gap t (length p) (length p + length q) (map Live (p @ q) @ c # r) =
      Inr (map Live p @ d # map Live q @ r)" "t = NonTrivial \<longrightarrow> d = Raw"
    by (rule open_gap_list [OF a1(5)])
  let ?b = "map Live (p @ x # q) @ r"
  have gap: "open_gap t (length p) (nat (m_num a1)) (cells a1) = Inr (map Live p @ d # map Live q @ r)"
    using d(1) a1(3,4) by (simp add: nat_int_add)
  have con: "construct_cell t (length p) x (map Live p @ d # map Live q @ r) = Inr ?b"
    using construct_at [of "length p" "map Live p" t d x] d(2) by simp
  have num: "m_num a = int (length (p @ q))" using assms(1) by (simp add: arr_rep_def)
  have ins: "Insert_move bld t x (int (length p)) a =
      Inr (int (length p), (set_cells ?b a1) \<lparr> m_num := int (length (p @ x # q)) \<rparr>)"
    using gap con num a1(3) unfolding Insert_move_def a1(1) by (simp add: acheck_def)
  moreover have "Insert_at bld t (Ext x) (int (length p)) a = Insert_move bld t x (int (length p)) a"
    by (simp add: Insert_at_def Insert_move_def Let_def read_ref_def)
  moreover have "arr_rep t ((set_cells ?b a1) \<lparr> m_num := int (length (p @ x # q)) \<rparr>) (p @ x # q)"
    by (rule arr_rep_write [OF a1(2), of _ _ r]) (use a1(4,5) in simp_all)
  ultimately show ?thesis using that by simp
qed

section \<open>Copying and appending\<close>

lemma copy_loop:
  "length (d :: 'a cell list) = at + k \<Longrightarrow> length s0 = k \<Longrightarrow> length xs \<le> length r \<Longrightarrow> spare t r \<Longrightarrow>
   fold_res (copy_step t at (s0 @ map Live xs @ s1)) [k..<k + length xs] (d @ r) =
   Inr (d @ map Live xs @ drop (length xs) r)"
proof (induction xs arbitrary: k d s0 r)
  case Nil
  then show ?case by simp
next
  case (Cons x xs)
  from Cons.prems(3) obtain c r' where r: "r = c # r'" by (cases r) auto
  note upt = upt_length_Cons [of k x xs]
  have "read_cell k (s0 @ map Live (x # xs) @ s1) = Inr x"
    using read_split [of s0 x] Cons.prems(2) by simp
  moreover have "construct_cell t (at + k) x (d @ r) = Inr ((d @ [Live x]) @ r')"
    using construct_at [of "at + k" d t c x r'] r Cons.prems(1,4) by simp
  ultimately have step: "copy_step t at (s0 @ map Live (x # xs) @ s1) k (d @ r) =
      Inr ((d @ [Live x]) @ r')" by (simp add: copy_step_def)
  have "fold_res (copy_step t at ((s0 @ [Live x]) @ map Live xs @ s1)) [Suc k..<Suc k + length xs]
      ((d @ [Live x]) @ r') = Inr ((d @ [Live x]) @ map Live xs @ drop (length xs) r')"
    by (rule Cons.IH) (use Cons.prems r in simp_all)
  then have ih: "fold_res (copy_step t at (s0 @ map Live (x # xs) @ s1)) [Suc k..<Suc k + length xs]
      ((d @ [Live x]) @ r') = Inr (d @ map Live (x # xs) @ drop (length (x # xs)) r)"
    by (simp add: r)
  show ?case unfolding upt fold_res.simps step rbind_Inr ih ..
qed

lemma spare_drop: "spare t r \<Longrightarrow> spare t (drop n r)"
  by (auto simp: spare_def dest: in_set_dropD)

lemma CopyConstructRange_list:
  assumes "length xs \<le> length r" "spare t r"
  shows "CopyConstructRange t (length p) (map Live xs @ s) (length xs) (map Live p @ r) =
    Inr (map Live (p @ xs) @ drop (length xs) r)"
  using copy_loop [of "map Live p" "length p" 0 "[]" xs r t s] assms
  by (simp add: CopyConstructRange_def)

lemma append_room_rep:
  assumes "arr_rep t a xs" "length xs + n < 2 ^ 31"
  obtains a' r where "append_room t (int n) a = Inr a'" "arr_rep t a' xs"
    "m_num a' = int (length xs)" "cells a' = map Live xs @ r" "spare t r" "n \<le> length r"
proof -
  have num: "m_num a = int (length xs)" using assms(1) by (simp add: arr_rep_def)
  have bound: "int (length xs) + int n < 2 ^ 31" using assms(2) by simp
  obtain a' where a': "append_room t (int n) a = Inr a'" "arr_rep t a' xs"
    "m_num a' = m_num a" "int (length xs) + int n \<le> m_max a'"
  proof (cases "int (length xs) + int n > m_max a")
    case True
    from ReserveAtLeast_rep [OF assms(1) bound] obtain a' where
      "ReserveAtLeast t (int (length xs) + int n) a = Inr a'" "arr_rep t a' xs" "m_num a' = m_num a"
      "m_max a' = max (int (length xs) + int n) (m_max a)" by auto
    with True num bound that [of a'] show ?thesis by (simp add: append_room_def Let_def i32_ok_def)
  next
    case False
    with num bound that [of a] assms(1) show ?thesis by (simp add: append_room_def Let_def i32_ok_def)
  qed
  obtain r where r: "cells a' = map Live xs @ r" "spare t r" "m_num a' = int (length xs)"
    "length xs + length r = nat (m_max a')" "0 \<le> m_max a'" "m_max a' < 2 ^ 31"
    "m_data a' = None \<longleftrightarrow> m_max a' = 0"
    by (rule arr_repE [OF a'(2)])
  from a'(4) r(4) have "n \<le> length r" by linarith
  with a' r num show ?thesis by (intro that) simp_all
qed

lemma append_write:
  assumes "arr_rep t a1 xs" "cells a1 = map Live xs @ r" "spare t r" "length ys \<le> length r"
  shows "arr_rep t ((set_cells (map Live (xs @ ys) @ drop (length ys) r) a1)
           \<lparr> m_num := int (length (xs @ ys)) \<rparr>) (xs @ ys)"
  by (rule arr_rep_write [OF assms(1), of _ _ "drop (length ys) r"])
    (use assms in \<open>simp_all add: spare_drop\<close>)

lemma Append_range_rep:
  assumes "arr_rep t a xs" "length xs + length ys < 2 ^ 31"
  obtains a' where "Append_range bld t (Some (map Live ys @ s)) (int (length ys)) a =
      Inr (int (length xs), a')" "arr_rep t a' (xs @ ys)"
proof (cases "ys = []")
  case True
  with assms(1) that [of a] show ?thesis by (simp add: Append_range_def acheck_def arr_rep_def)
next
  case False
  obtain a1 r where a1: "append_room t (int (length ys)) a = Inr a1" "arr_rep t a1 xs"
    "m_num a1 = int (length xs)" "cells a1 = map Live xs @ r" "spare t r" "length ys \<le> length r"
    by (rule append_room_rep [OF assms])
  have num: "m_num a = int (length xs)" using assms(1) by (simp add: arr_rep_def)
  have "Append_range bld t (Some (map Live ys @ s)) (int (length ys)) a = Inr (int (length xs),
      (set_cells (map Live (xs @ ys) @ drop (length ys) r) a1) \<lparr> m_num := int (length (xs @ ys)) \<rparr>)"
    using False a1 num CopyConstructRange_list [OF a1(6,5), of xs s]
    by (simp add: Append_range_def acheck_def)
  then show ?thesis using append_write [OF a1(2,4,5,6)] by (rule that)
qed

lemma Append_copy_rep:
  assumes "arr_rep t a xs"
    and "case rhs of Self \<Rightarrow> ys = xs | Other src \<Rightarrow> arr_rep t src ys"
    and "length xs + length ys < 2 ^ 31"
  obtains a' where "Append_copy t rhs a = Inr (int (length xs), a')" "arr_rep t a' (xs @ ys)"
proof -
  have num: "m_num a = int (length xs)" using assms(1) by (simp add: arr_rep_def)
  have cnt: "(case rhs of Self \<Rightarrow> m_num a | Other src \<Rightarrow> m_num src) = int (length ys)"
    using assms(2) num by (auto simp: arr_rep_def split: operand.splits)
  show ?thesis
  proof (cases "ys = []")
    case True
    with assms(1) num cnt that [of a] show ?thesis by (simp add: Append_copy_def Let_def)
  next
    case False
    obtain a1 r where a1: "append_room t (int (length ys)) a = Inr a1" "arr_rep t a1 xs"
      "m_num a1 = int (length xs)" "cells a1 = map Live xs @ r" "spare t r" "length ys \<le> length r"
      by (rule append_room_rep [OF assms(1,3)])
    obtain s where s: "(case rhs of Self \<Rightarrow> cells a1 | Other src \<Rightarrow> cells src) = map Live ys @ s"
      using assms(2) a1(4) by (cases rhs) (auto simp: arr_rep_def)
    have "CopyConstructRange t (nat (m_num a1)) (map Live ys @ s) (nat (int (length ys))) (cells a1) =
        Inr (map Live (xs @ ys) @ drop (length ys) r)"
      using CopyConstructRange_list [OF a1(6,5), of xs s] a1(3,4) by simp
    then have "Append_copy t rhs a = Inr (int (length xs),
        (set_cells (map Live (xs @ ys) @ drop (length ys) r) a1) \<lparr> m_num := int (length (xs @ ys)) \<rparr>)"
      using False a1(1) num unfolding Append_copy_def Let_def cnt by (simp add: s)
    then show ?thesis using append_write [OF a1(2,4,5,6)] by (rule that)
  qed
qed


lemma append_move_loop:
  "length (d :: 'a cell list) = at + k \<Longrightarrow> length s0 = k \<Longrightarrow> length xs \<le> length r \<Longrightarrow> spare t r \<Longrightarrow>
   fold_res (append_move_step t at) [k..<k + length xs] (d @ r, s0 @ map Live xs @ s1) =
   Inr (d @ map Live xs @ drop (length xs) r, s0 @ replicate (length xs) Raw @ s1)"
proof (induction xs arbitrary: k d s0 r)
  case Nil
  then show ?case by simp
next
  case (Cons x xs)
  from Cons.prems(3) obtain c r' where r: "r = c # r'" by (cases r) auto
  note upt = upt_length_Cons [of k x xs]
  have step: "append_move_step t at k (d @ r, s0 @ map Live (x # xs) @ s1) =
      Inr ((d @ [Live x]) @ r', (s0 @ [Raw]) @ map Live xs @ s1)"
    using move_at [of k s0 t x "map Live xs @ s1"] construct_at [of "at + k" d t c x r']
      destroy_at [of k s0 "left_by_move t x" "map Live xs @ s1"] r Cons.prems(1,2,4)
    by (simp add: append_move_step_def)
  have "fold_res (append_move_step t at) [Suc k..<Suc k + length xs]
      ((d @ [Live x]) @ r', (s0 @ [Raw]) @ map Live xs @ s1) =
      Inr ((d @ [Live x]) @ map Live xs @ drop (length xs) r',
           (s0 @ [Raw]) @ replicate (length xs) Raw @ s1)"
    by (rule Cons.IH) (use Cons.prems r in simp_all)
  then have ih: "fold_res (append_move_step t at) [Suc k..<Suc k + length xs]
      ((d @ [Live x]) @ r', (s0 @ [Raw]) @ map Live xs @ s1) =
      Inr (d @ map Live (x # xs) @ drop (length (x # xs)) r,
           s0 @ replicate (length (x # xs)) Raw @ s1)"
    by (simp add: r)
  show ?case unfolding upt fold_res.simps step rbind_Inr ih ..
qed

lemma Append_move_rep:
  assumes "arr_rep t a xs" "arr_rep t src ys" "length xs + length ys < 2 ^ 31"
  obtains a' src' where "Append_move t src a = Inr (int (length xs), a', src')"
    "arr_rep t a' (xs @ ys)" "arr_rep t src' []"
proof -
  have num: "m_num a = int (length xs)" using assms(1) by (simp add: arr_rep_def)
  obtain s where s: "cells src = map Live ys @ s" "spare t s" "m_num src = int (length ys)"
    by (rule arr_repE [OF assms(2)])
  show ?thesis
  proof (cases "ys = []")
    case True
    with assms(1,2) num s that [of a src] show ?thesis by (simp add: Append_move_def)
  next
    case False
    obtain a1 r where a1: "append_room t (int (length ys)) a = Inr a1" "arr_rep t a1 xs"
      "m_num a1 = int (length xs)" "cells a1 = map Live xs @ r" "spare t r" "length ys \<le> length r"
      by (rule append_room_rep [OF assms(1,3)])
    let ?sb = "replicate (length ys) Raw @ s"
    have "fold_res (append_move_step t (nat (m_num a1))) [0..<nat (m_num src)] (cells a1, cells src) =
        Inr (map Live (xs @ ys) @ drop (length ys) r, ?sb)"
      using append_move_loop [of "map Live xs" "length xs" 0 "[]" ys r t s] a1(3-6) s(1,3) by simp
    then have "Append_move t src a = Inr (int (length xs),
        (set_cells (map Live (xs @ ys) @ drop (length ys) r) a1) \<lparr> m_num := int (length (xs @ ys)) \<rparr>,
        (set_cells ?sb src) \<lparr> m_num := 0 \<rparr>)"
      using False a1(1) num s(3) by (simp add: Append_move_def)
    moreover have "arr_rep t ((set_cells ?sb src) \<lparr> m_num := 0 \<rparr>) []"
      using arr_rep_write [OF assms(2), of ?sb "[]" ?sb] s(1,2) by simp
    ultimately show ?thesis using append_write [OF a1(2,4,5,6)] that by blast
  qed
qed

lemma copy_from_rep:
  fixes a :: "'a tarray"
  assumes "arr_rep t a []" "arr_rep t src ys"
  obtains a' where "copy_from t src a = Inr a'" "arr_rep t a' ys"
proof -
  obtain s where s: "cells src = map Live ys @ s" "spare t s" "m_num src = int (length ys)"
    "length ys + length s = nat (m_max src)" "0 \<le> m_max src" "m_max src < 2 ^ 31"
    "m_data src = None \<longleftrightarrow> m_max src = 0"
    by (rule arr_repE [OF assms(2)])
  have bound: "int (length ys) < 2 ^ 31" using s(4-6) by linarith
  obtain a1 where a1: "ReserveAtLeast t (int (length ys)) a = Inr a1" "arr_rep t a1 []"
    "m_num a1 = m_num a" "m_max a1 = max (int (length ys)) (m_max a)"
    by (rule ReserveAtLeast_rep [OF assms(1) bound])
  obtain r where r: "cells a1 = map Live [] @ r" "spare t r" "m_num a1 = int (length ([] :: 'a list))"
    "length ([] :: 'a list) + length r = nat (m_max a1)" "0 \<le> m_max a1" "m_max a1 < 2 ^ 31"
    "m_data a1 = None \<longleftrightarrow> m_max a1 = 0"
    by (rule arr_repE [OF a1(2)])
  have le: "length ys \<le> length r" using a1(4) r(4) by simp
  show ?thesis
  proof (cases "ys = []")
    case True
    with assms(1) s(3) that [of a] show ?thesis by (simp add: copy_from_def)
  next
    case False
    have "CopyConstructRange t 0 (cells src) (nat (m_num src)) (cells a1) =
        Inr (map Live ys @ drop (length ys) r)"
      using CopyConstructRange_list [OF le r(2), of "[]" s] r(1) s(1,3) by simp
    with a1(1) s(3) False have "copy_from t src a = Inr
        ((set_cells (map Live ([] @ ys) @ drop (length ys) r) a1) \<lparr> m_num := int (length ([] @ ys)) \<rparr>)"
      by (simp add: copy_from_def)
    moreover have "cells a1 = map Live [] @ r" using r(1) by simp
    ultimately show ?thesis using append_write [OF a1(2) _ r(2) le] that by simp
  qed
qed

lemma TArray_copy_ctor_rep:
  assumes "arr_rep t src ys"
  obtains a' where "TArray_copy_ctor t src = Inr a'" "arr_rep t a' ys"
  using copy_from_rep [OF ctor_rep assms] unfolding TArray_copy_ctor_def .

lemma TArray_copy_assign_rep:
  assumes "arr_rep t a xs" "case rhs of Self \<Rightarrow> ys = xs | Other src \<Rightarrow> arr_rep t src ys"
  obtains a' where "TArray_copy_assign t rhs a = Inr a'" "arr_rep t a' ys"
proof (cases rhs)
  case Self
  with assms that [of a] show ?thesis by (simp add: TArray_copy_assign_def)
next
  case (Other src)
  obtain a1 where a1: "DestroyElementsAndFreeBuffer t a = Inr a1" "arr_rep t a1 []" "m_data a1 = None"
    by (rule DestroyElementsAndFreeBuffer_rep [OF assms(1)])
  obtain a2 where "copy_from t src a1 = Inr a2" "arr_rep t a2 ys"
    by (rule copy_from_rep [OF a1(2)]) (use assms(2) Other in auto)
  with a1 Other that [of a2] show ?thesis by (simp add: TArray_copy_assign_def)
qed

lemma TArray_move_assign_rep:
  assumes "arr_rep t a xs" "arr_rep t src ys"
  obtains a' src' where "TArray_move_assign t (Other src) a = Inr (a', Other src')"
    "arr_rep t a' ys" "arr_rep t src' []"
proof -
  obtain a1 where a1: "DestroyElementsAndFreeBuffer t a = Inr a1" "arr_rep t a1 []" "m_data a1 = None"
    by (rule DestroyElementsAndFreeBuffer_rep [OF assms(1)])
  have "arr_rep t (a1 \<lparr> m_data := m_data src, m_num := m_num src, m_max := m_max src \<rparr>) ys"
    using assms(2) by (simp add: arr_rep_def cells_def)
  moreover have "arr_rep t (src \<lparr> m_data := None, m_num := 0, m_max := 0 \<rparr>) []"
    by (simp add: arr_rep_def cells_def)
  ultimately show ?thesis using that a1(1) by (simp add: TArray_move_assign_def)
qed

section \<open>Reading\<close>

lemma search_list:
  "k \<le> length xs \<Longrightarrow> search_cells P (map Live xs @ r) [k..<length xs] =
     Inr (if \<exists>x \<in> set (drop k xs). P x
          then int (k + length (takeWhile (\<lambda>x. \<not> P x) (drop k xs))) else INDEX_NONE)"
proof (induction "length xs - k" arbitrary: k)
  case 0
  then show ?case by simp
next
  case (Suc n)
  then have k: "k < length xs" by simp
  have d: "drop k xs = xs ! k # drop (Suc k) xs" using k by (simp add: Cons_nth_drop_Suc)
  have "[k..<length xs] = k # [Suc k..<length xs]" using k by (simp add: upt_conv_Cons)
  with Suc k d show ?case by (simp add: read_live)
qed

definition first_index :: "('a \<Rightarrow> bool) \<Rightarrow> 'a list \<Rightarrow> int" where
  "first_index P xs = (if \<exists>x \<in> set xs. P x then int (length (takeWhile (\<lambda>x. \<not> P x) xs))
                      else INDEX_NONE)"

lemma first_index_exact:
  "first_index P xs = INDEX_NONE \<longleftrightarrow> \<not> (\<exists>x \<in> set xs. P x)"
  "\<exists>x \<in> set xs. P x \<Longrightarrow> nat (first_index P xs) < length xs \<and> P (xs ! nat (first_index P xs)) \<and>
     (\<forall>j < nat (first_index P xs). \<not> P (xs ! j))"
proof -
  show "first_index P xs = INDEX_NONE \<longleftrightarrow> \<not> (\<exists>x \<in> set xs. P x)"
    by (simp add: first_index_def INDEX_NONE_def)
  assume a: "\<exists>x \<in> set xs. P x"
  let ?w = "takeWhile (\<lambda>x. \<not> P x) xs"
  have lt: "length ?w < length xs"
    using a by (metis length_takeWhile_le nat_less_le takeWhile_eq_all_conv takeWhile_eq_take take_all_iff order_refl)
  moreover have "P (xs ! length ?w)" using nth_length_takeWhile [of "\<lambda>x. \<not> P x" xs] lt by simp
  moreover have "\<not> P (xs ! j)" if "j < length ?w" for j
    using that by (metis nth_mem set_takeWhileD takeWhile_nth)
  ultimately show "nat (first_index P xs) < length xs \<and> P (xs ! nat (first_index P xs)) \<and>
     (\<forall>j < nat (first_index P xs). \<not> P (xs ! j))" using a by (simp add: first_index_def)
qed

lemma IndexOfByPredicate_rep:
  assumes "arr_rep t a xs"
  shows "IndexOfByPredicate P a = Inr (first_index P xs)"
  using assms search_list [of 0 xs P]
  by (auto simp: IndexOfByPredicate_def first_index_def arr_rep_def)

lemma Find_is_search: "Find v a = IndexOfByPredicate (\<lambda>x. x = v) a"
  by (simp add: Find_def IndexOfByPredicate_def)

lemma Contains_rep: "arr_rep t a xs \<Longrightarrow> TArray_Contains v a = Inr (v \<in> set xs)"
  by (simp add: TArray_Contains_def Find_is_search IndexOfByPredicate_rep first_index_exact(1))

lemma FindByPredicate_rep:
  assumes "arr_rep t a xs"
  shows "FindByPredicate P a = Inr (List.find P xs)"
proof (cases "\<exists>x \<in> set xs. P x")
  case True
  let ?i = "nat (first_index P xs)"
  note i = first_index_exact(2) [OF True]
  have "read_cell ?i (cells a) = Inr (xs ! ?i)"
    using assms i by (auto simp: arr_rep_def read_live)
  moreover have "List.find P xs = Some (xs ! ?i)"
    using i by (subst find_Some_iff) blast
  moreover have "search_cells P (cells a) [0..<nat (m_num a)] = Inr (first_index P xs)"
    using IndexOfByPredicate_rep [OF assms] by (simp add: IndexOfByPredicate_def)
  ultimately show ?thesis using True first_index_exact(1) [of P xs]
    by (simp add: FindByPredicate_def)
next
  case False
  moreover have "search_cells P (cells a) [0..<nat (m_num a)] = Inr (first_index P xs)"
    using IndexOfByPredicate_rep [OF assms] by (simp add: IndexOfByPredicate_def)
  moreover have "List.find P xs = None" using False by (simp add: find_None_iff)
  ultimately show ?thesis using first_index_exact(1) [of P xs]
    by (simp add: FindByPredicate_def)
qed

lemma At_rep:
  assumes "arr_rep t a xs"
  shows "At i a = Inr (if i < 0 then Inl IndexNegative else if xs = [] then Inl EmptyContainer
     else if int (length xs) \<le> i then Inl IndexTooLarge else Inr (xs ! nat i))"
  using assms by (auto simp: At_def arr_rep_def read_live)

lemma index_op_rep:
  assumes "arr_rep t a xs" "i < length xs"
  shows "index_op bld (int i) a = Inr (xs ! i)"
  using assms by (auto simp: index_op_def acheck_def IsValidIndex_def arr_rep_def read_live)

lemma Last_rep:
  assumes "arr_rep t a xs" "j < length xs"
  shows "Last bld (int j) a = Inr (xs ! (length xs - 1 - j))"
proof -
  have "nat (int (length xs) - 1 - int j) = length xs - 1 - j" using assms(2) by linarith
  with assms show ?thesis by (auto simp: Last_def acheck_def Let_def arr_rep_def read_live)
qed

lemma Swap_rep:
  assumes "arr_rep t a xs" "i < length xs" "j < length xs"
  obtains a' where "TArray_Swap bld (int i) (int j) a = Inr a'"
    "arr_rep t a' (xs[i := xs ! j, j := xs ! i])"
proof -
  obtain r where r: "cells a = map Live xs @ r" "spare t r" "m_num a = int (length xs)"
    by (rule arr_repE [OF assms(1)])
  let ?ys = "xs[i := xs ! j, j := xs ! i]"
  have valid: "IsValidIndex a (int i)" "IsValidIndex a (int j)"
    using r(3) assms(2,3) by (simp_all add: IsValidIndex_def)
  show ?thesis
  proof (cases "i = j")
    case True
    then show ?thesis using that [of a] assms(1) valid by (simp add: TArray_Swap_def acheck_def)
  next
    case False
    have "(cells a)[i := Live (xs ! j), j := Live (xs ! i)] = map Live ?ys @ r"
      using assms(2,3) r(1) by (simp add: list_update_append map_update)
    moreover have "read_cell i (cells a) = Inr (xs ! i)" "read_cell j (cells a) = Inr (xs ! j)"
      using r(1) assms(2,3) by (simp_all add: read_live)
    ultimately have "TArray_Swap bld (int i) (int j) a = Inr (set_cells (map Live ?ys @ r) a)"
      using valid False by (simp add: TArray_Swap_def acheck_def)
    moreover have "(set_cells (map Live ?ys @ r) a) \<lparr> m_num := int (length ?ys) \<rparr> =
        set_cells (map Live ?ys @ r) a" using r(3) by simp
    moreover have "arr_rep t ((set_cells (map Live ?ys @ r) a) \<lparr> m_num := int (length ?ys) \<rparr>) ?ys"
      by (rule arr_rep_write [OF assms(1), of _ _ r]) (use r in simp_all)
    ultimately show ?thesis using that by simp
  qed
qed

lemma Set_rep:
  assumes "arr_rep t a xs" "i < length xs"
  obtains a' where "SetDataAtIndexRaw bld (int i) x a = Inr a'" "arr_rep t a' (xs[i := x])"
proof -
  obtain r where r: "cells a = map Live xs @ r" "spare t r" "m_num a = int (length xs)"
    by (rule arr_repE [OF assms(1)])
  let ?ys = "xs[i := x]"
  have "assign_cell i x (cells a) = Inr (map Live ?ys @ r)"
    using assms(2) r(1) by (simp add: assign_cell_def nth_append list_update_append map_update)
  then have "SetDataAtIndexRaw bld (int i) x a = Inr (set_cells (map Live ?ys @ r) a)"
    using r(3) assms(2) by (simp add: SetDataAtIndexRaw_def acheck_def IsValidIndex_def)
  moreover have "(set_cells (map Live ?ys @ r) a) \<lparr> m_num := int (length ?ys) \<rparr> =
      set_cells (map Live ?ys @ r) a" using r(3) by simp
  moreover have "arr_rep t ((set_cells (map Live ?ys @ r) a) \<lparr> m_num := int (length ?ys) \<rparr>) ?ys"
    by (rule arr_rep_write [OF assms(1), of _ _ r]) (use r in simp_all)
  ultimately show ?thesis using that by simp
qed

lemma Reserve_rep:
  assumes "arr_rep t a xs" "0 \<le> n" "n < 2 ^ 31"
  obtains a' where "Reserve bld t n a = Inr a'" "arr_rep t a' xs" "m_max a' = max n (m_max a)"
proof (cases "n > m_max a")
  case True
  obtain a' where "ReserveAtLeast t n a = Inr a'" "arr_rep t a' xs" "m_num a' = m_num a"
    "m_max a' = max n (m_max a)" by (rule ReserveAtLeast_rep [OF assms(1,3)])
  with True assms(2) that [of a'] show ?thesis by (simp add: Reserve_def acheck_def)
next
  case False
  with assms that [of a] show ?thesis by (simp add: Reserve_def acheck_def)
qed

end
