(* ===== verification/TArrayTheorems.thy ===== *)
theory TArrayTheorems
  imports TArrayProps
begin

text \<open>
  Runs of array operations refine runs of list operations, for the three kinds of element
  type; the interface \<open>op_refinement\<close> is interpreted on the model.  Then the arguments that
  refer to an element of the array itself.
\<close>

section \<open>Operations and their meaning on lists\<close>

datatype 'a array_op =
    OpAdd 'a | OpEmplace 'a | OpInsert 'a nat | OpInsertMove 'a nat | OpRemoveAt nat
  | OpRemoveAtSwap nat | OpPop | OpRemoveAll "'a \<Rightarrow> bool" | OpRemoveSingle 'a
  | OpAppend "'a list" | OpAppendSelf | OpSwap nat nat | OpSet nat 'a
  | OpReserve int | OpReset int | OpEmpty int

fun array_op_step :: "build \<Rightarrow> traits \<Rightarrow> 'a array_op \<Rightarrow> 'a tarray \<Rightarrow> array_error + 'a tarray" where
  "array_op_step bld t (OpAdd x) a = rbind (Add t (Ext x) a) (\<lambda>(i, a1). Inr a1)"
| "array_op_step bld t (OpEmplace x) a = rbind (Emplace t x a) (\<lambda>(i, a1). Inr a1)"
| "array_op_step bld t (OpInsert x i) a = rbind (Insert_at bld t (Ext x) (int i) a) (\<lambda>(j, a1). Inr a1)"
| "array_op_step bld t (OpInsertMove x i) a = rbind (Insert_move bld t x (int i) a) (\<lambda>(j, a1). Inr a1)"
| "array_op_step bld t (OpRemoveAt i) a = RemoveAt bld t (int i) a"
| "array_op_step bld t (OpRemoveAtSwap i) a = RemoveAtSwap bld t (int i) a"
| "array_op_step bld t OpPop a = rbind (Pop bld t a) (\<lambda>(x, a1). Inr a1)"
| "array_op_step bld t (OpRemoveAll P) a = rbind (RemoveAll t P a) (\<lambda>(n, a1). Inr a1)"
| "array_op_step bld t (OpRemoveSingle x) a = rbind (RemoveSingle bld t x a) (\<lambda>(n, a1). Inr a1)"
| "array_op_step bld t (OpAppend ys) a =
     rbind (Append_range bld t (Some (map Live ys)) (int (length ys)) a) (\<lambda>(i, a1). Inr a1)"
| "array_op_step bld t OpAppendSelf a = rbind (Append_copy t Self a) (\<lambda>(i, a1). Inr a1)"
| "array_op_step bld t (OpSwap i j) a = TArray_Swap bld (int i) (int j) a"
| "array_op_step bld t (OpSet i x) a = SetDataAtIndexRaw bld (int i) x a"
| "array_op_step bld t (OpReserve n) a = Reserve bld t n a"
| "array_op_step bld t (OpReset n) a = Reset t n a"
| "array_op_step bld t (OpEmpty n) a = Empty_slack bld t n a"

fun array_op_spec :: "'a array_op \<Rightarrow> 'a list \<Rightarrow> 'a list" where
  "array_op_spec (OpAdd x) xs = xs @ [x]"
| "array_op_spec (OpEmplace x) xs = xs @ [x]"
| "array_op_spec (OpInsert x i) xs = take i xs @ x # drop i xs"
| "array_op_spec (OpInsertMove x i) xs = take i xs @ x # drop i xs"
| "array_op_spec (OpRemoveAt i) xs = take i xs @ drop (Suc i) xs"
| "array_op_spec (OpRemoveAtSwap i) xs = butlast (xs[i := last xs])"
| "array_op_spec OpPop xs = butlast xs"
| "array_op_spec (OpRemoveAll P) xs = filter (\<lambda>x. \<not> P x) xs"
| "array_op_spec (OpRemoveSingle x) xs = remove1 x xs"
| "array_op_spec (OpAppend ys) xs = xs @ ys"
| "array_op_spec OpAppendSelf xs = xs @ xs"
| "array_op_spec (OpSwap i j) xs = xs[i := xs ! j, j := xs ! i]"
| "array_op_spec (OpSet i x) xs = xs[i := x]"
| "array_op_spec (OpReserve n) xs = xs"
| "array_op_spec (OpReset n) xs = []"
| "array_op_spec (OpEmpty n) xs = []"

text \<open>What the caller owes: indices in range, and sizes that an \<open>int32\<close> holds.\<close>

fun array_op_ok :: "'a array_op \<Rightarrow> 'a list \<Rightarrow> bool" where
  "array_op_ok (OpAdd x) xs \<longleftrightarrow> length xs < 2 ^ 31 - 1"
| "array_op_ok (OpEmplace x) xs \<longleftrightarrow> length xs < 2 ^ 31 - 1"
| "array_op_ok (OpInsert x i) xs \<longleftrightarrow> i \<le> length xs \<and> length xs < 2 ^ 31 - 1"
| "array_op_ok (OpInsertMove x i) xs \<longleftrightarrow> i \<le> length xs \<and> length xs < 2 ^ 31 - 1"
| "array_op_ok (OpRemoveAt i) xs \<longleftrightarrow> i < length xs"
| "array_op_ok (OpRemoveAtSwap i) xs \<longleftrightarrow> i < length xs"
| "array_op_ok OpPop xs \<longleftrightarrow> xs \<noteq> []"
| "array_op_ok (OpRemoveAll P) xs \<longleftrightarrow> True"
| "array_op_ok (OpRemoveSingle x) xs \<longleftrightarrow> True"
| "array_op_ok (OpAppend ys) xs \<longleftrightarrow> length xs + length ys < 2 ^ 31"
| "array_op_ok OpAppendSelf xs \<longleftrightarrow> length xs + length xs < 2 ^ 31"
| "array_op_ok (OpSwap i j) xs \<longleftrightarrow> i < length xs \<and> j < length xs"
| "array_op_ok (OpSet i x) xs \<longleftrightarrow> i < length xs"
| "array_op_ok (OpReserve n) xs \<longleftrightarrow> 0 \<le> n \<and> n < 2 ^ 31"
| "array_op_ok (OpReset n) xs \<longleftrightarrow> n < 2 ^ 31"
| "array_op_ok (OpEmpty n) xs \<longleftrightarrow> 0 \<le> n \<and> n < 2 ^ 31"

section \<open>One operation\<close>

lemma split_at: "i < length xs \<Longrightarrow> xs = take i xs @ xs ! i # drop (Suc i) xs"
  by (simp add: id_take_nth_drop)

lemma swap_out_split:
  "butlast ((p @ x # q)[length p := last (p @ x # q)]) =
     p @ (if q = [] then [] else last q # butlast q)"
  by (simp add: list_update_append butlast_append)

lemma remove_single_rep:
  assumes "arr_rep t a xs"
  shows "\<exists>a'. RemoveSingle bld t x a = Inr (if x \<in> set xs then 1 else 0, a') \<and> arr_rep t a' (remove1 x xs)"
proof (cases "x \<in> set xs")
  case False
  then have "first_index (\<lambda>y. y = x) xs = INDEX_NONE" by (auto simp: first_index_def)
  with False assms show ?thesis
    by (simp add: RemoveSingle_def Find_is_search IndexOfByPredicate_rep [OF assms] remove1_idem)
next
  case True
  let ?w = "takeWhile (\<lambda>y. y \<noteq> x) xs"
  obtain q where q: "xs = ?w @ x # q"
  proof -
    from True obtain p q where pq: "xs = p @ x # q" "x \<notin> set p" by (meson split_list_first)
    then have "?w = p" by (auto simp: takeWhile_append takeWhile_eq_all_conv)
    with pq(1) that [of q] show thesis by simp
  qed
  have idx: "first_index (\<lambda>y. y = x) xs = int (length ?w)" using True by (auto simp: first_index_def)
  have "remove1 x (?w @ x # q) = ?w @ q"
    by (subst remove1_append) (auto dest: set_takeWhileD)
  with q have rem: "remove1 x xs = ?w @ q" by metis
  obtain a' where "RemoveAt bld t (int (length ?w)) a = Inr a'" "arr_rep t a' (?w @ q)"
    "m_max a' = m_max a" using RemoveAt_rep [of t a ?w x q] assms q by metis
  with True rem idx show ?thesis
    by (simp add: RemoveSingle_def Find_is_search IndexOfByPredicate_rep [OF assms] INDEX_NONE_def)
qed

lemma array_op_refines:
  assumes "arr_rep t a xs" "array_op_ok x xs"
  shows "\<exists>a'. array_op_step bld t x a = Inr a' \<and> arr_rep t a' (array_op_spec x xs)"
proof (cases x)
  case (OpAdd y)
  with Add_rep [OF assms(1), where v = "Ext y" and x = y] assms(2) show ?thesis by fastforce
next
  case (OpEmplace y)
  with Add_rep [OF assms(1), where v = "Ext y" and x = y] assms(2) show ?thesis by (fastforce simp: Emplace_is_Add)
next
  case (OpInsert y i)
  with assms Insert_rep [of t a "take i xs" "drop i xs" bld y] show ?thesis by fastforce
next
  case (OpInsertMove y i)
  with assms Insert_rep [of t a "take i xs" "drop i xs" bld y] show ?thesis by fastforce
next
  case (OpRemoveAt i)
  with assms RemoveAt_rep [of t a "take i xs" "xs ! i" "drop (Suc i) xs" bld] split_at [of i xs]
  show ?thesis by fastforce
next
  case (OpRemoveAtSwap i)
  with assms have i: "i < length xs" by simp
  have "butlast (xs[i := last xs]) = take i xs @
      (if drop (Suc i) xs = [] then [] else last (drop (Suc i) xs) # butlast (drop (Suc i) xs))"
    using swap_out_split [of "take i xs" "xs ! i" "drop (Suc i) xs"] split_at [OF i] i by simp
  with OpRemoveAtSwap assms RemoveAtSwap_rep [of t a "take i xs" "xs ! i" "drop (Suc i) xs" bld]
    split_at [OF i] i show ?thesis by fastforce
next
  case OpPop
  with assms Pop_rep [of t a "butlast xs" "last xs" bld] show ?thesis by fastforce
next
  case (OpRemoveAll P)
  with RemoveAll_rep [OF assms(1), of P] show ?thesis by fastforce
next
  case (OpRemoveSingle y)
  with remove_single_rep [OF assms(1), of bld y] show ?thesis by auto
next
  case (OpAppend ys)
  with Append_range_rep [OF assms(1), of ys bld "[]"] assms(2) show ?thesis by fastforce
next
  case OpAppendSelf
  with Append_copy_rep [OF assms(1), where rhs = Self and ys = xs] assms(2) show ?thesis by fastforce
next
  case (OpSwap i j)
  with Swap_rep [OF assms(1), of i j bld] assms(2) show ?thesis by fastforce
next
  case (OpSet i y)
  with Set_rep [OF assms(1), of i bld y] assms(2) show ?thesis by fastforce
next
  case (OpReserve n)
  with Reserve_rep [OF assms(1), of n bld] assms(2) show ?thesis by fastforce
next
  case (OpReset n)
  with Reset_rep [OF assms(1), of n] assms(2) show ?thesis by fastforce
next
  case (OpEmpty n)
  with Empty_slack_rep [OF assms(1), of n bld] assms(2) show ?thesis by fastforce
qed

interpretation tarray: op_refinement "arr_rep t" array_op_ok "array_op_step bld t" array_op_spec
  for t bld
  by unfold_locales (rule array_op_refines)

section \<open>Runs\<close>

text \<open>
  C17: an array implements a list.  For every element type, any sequence of the operations
  whose indices are in range and whose sizes an \<open>int32\<close> holds runs to its end without an
  object being read, destroyed, overwritten or freed outside its lifetime; the array then
  holds exactly the elements of the list the same operations build, and its destructor
  destroys each of them once and frees the buffer.
\<close>

theorem array_runs_refine_lists:
  assumes "allowed array_op_ok array_op_spec ops []"
  shows "\<exists>a'. run_steps (array_op_step bld t) ops TArray_ctor = Inr a' \<and>
     arr_rep t a' (fold array_op_spec ops []) \<and>
     (\<exists>a''. TArray_dtor t a' = Inr a'' \<and> m_data a'' = None)"
proof -
  obtain a' where a': "run_steps (array_op_step bld t) ops TArray_ctor = Inr a'"
    "arr_rep t a' (fold array_op_spec ops [])"
    using tarray.run_refines [OF ctor_rep assms] by blast
  obtain a'' where "DestroyElementsAndFreeBuffer t a' = Inr a''" "arr_rep t a'' []" "m_data a'' = None"
    by (rule DestroyElementsAndFreeBuffer_rep [OF a'(2)])
  with a' show ?thesis by (auto simp: TArray_dtor_def)
qed

definition demo_array_ops :: "int array_op list" where
  "demo_array_ops = [OpAppend [1, 2, 3, 4], OpInsert 9 1, OpRemoveAtSwap 0, OpRemoveAll (\<lambda>x. x = 2),
                     OpAdd 7, OpSwap 0 1, OpPop]"

theorem array_runs_refine_lists_witness:
  "\<exists>a'. run_steps (array_op_step Checked NonTrivial) demo_array_ops TArray_ctor = Inr a' \<and>
     arr_rep NonTrivial a' [9, 4, 3] \<and>
     (\<exists>a''. TArray_dtor NonTrivial a' = Inr a'' \<and> m_data a'' = None)"
proof -
  have ok: "allowed array_op_ok array_op_spec demo_array_ops []"
    by (simp add: demo_array_ops_def)
  have "fold array_op_spec demo_array_ops [] = [9, 4, 3]"
    by (simp add: demo_array_ops_def)
  with array_runs_refine_lists [OF ok, of Checked NonTrivial] show ?thesis by simp
qed

section \<open>Arguments that refer to the array itself\<close>

text \<open>
  C18: a reference to an own element is only safe while nothing moves.  \<open>Add\<close> of an own
  element copies it when there is room, and reads freed storage when the array has to grow;
  \<open>Insert\<close> of an own element behind the insertion point inserts the element before it.
\<close>

theorem own_element_arguments:
  assumes "arr_rep t a xs" "j < length xs" "length xs < 2 ^ 31 - 1"
  shows "(m_num a = m_max a \<longrightarrow> Add t (Own j) a = Inl DanglingRef) \<and>
    (m_num a < m_max a \<longrightarrow>
       (\<exists>a'. Add t (Own j) a = Inr (int (length xs), a') \<and> arr_rep t a' (xs @ [xs ! j]))) \<and>
    (m_num a < m_max a \<and> i < j \<longrightarrow>
       (\<exists>a'. Insert_at bld t (Own j) (int i) a = Inr (int i, a') \<and>
          arr_rep t a' (take i xs @ xs ! (j - 1) # drop i xs)))"
proof (intro conjI impI)
  assume full: "m_num a = m_max a"
  obtain a' where "GrowByOne t a = Inr a'" "arr_rep t a' xs" "m_num a' = m_num a" "m_num a < m_max a'"
    by (rule GrowByOne_rep [OF assms(1,3)])
  with full show "Add t (Own j) a = Inl DanglingRef" by (simp add: Add_def read_ref_def)
next
  assume "m_num a < m_max a"
  with Add_rep [OF assms(1,3), where v = "Own j" and x = "xs ! j"] assms(2)
  show "\<exists>a'. Add t (Own j) a = Inr (int (length xs), a') \<and> arr_rep t a' (xs @ [xs ! j])" by auto
next
  assume asm: "m_num a < m_max a \<and> i < j"
  define p q where "p = take i xs" and "q = drop i xs"
  have xs: "xs = p @ q" "length p = i" using asm assms(2) by (simp_all add: p_def q_def)
  have rep: "arr_rep t a (p @ q)" using assms(1) xs by simp
  obtain a1 where a1: "Insert_at bld t (Ext (xs ! (j - 1))) (int (length p)) a = Inr (int (length p), a1)"
    "Insert_move bld t (xs ! (j - 1)) (int (length p)) a = Inr (int (length p), a1)"
    "arr_rep t a1 (p @ xs ! (j - 1) # q)"
    by (rule Insert_rep [OF rep]) (use assms(3) xs in auto)
  obtain r where r: "cells a = map Live (p @ q) @ r" "spare t r" "m_num a = int (length (p @ q))"
    "length (p @ q) + length r = nat (m_max a)" "0 \<le> m_max a" "m_max a < 2 ^ 31"
    "m_data a = None \<longleftrightarrow> m_max a = 0"
    by (rule arr_repE [OF rep])
  have "r \<noteq> []" using asm r(3,4,5) by auto
  then obtain c r' where cr: "r = c # r'" by (cases r) auto
  obtain d where d: "open_gap t (length p) (length p + length q) (map Live (p @ q) @ c # r') =
      Inr (map Live p @ d # map Live q @ r')"
    using open_gap_list [of t c r' p q] r(2) cr by auto
  obtain m where m: "j = Suc (i + m)" using asm less_imp_Suc_add by blast
  have "(map Live p @ d # map Live q @ r') ! j = Live (xs ! (j - 1))"
    using m assms(2) xs by (simp add: nth_append)
  moreover have "j < length (map Live p @ d # map Live q @ r')" using assms(2) xs by simp
  ultimately have rd: "read_cell j (map Live p @ d # map Live q @ r') = Inr (xs ! (j - 1))"
    by (simp add: read_cell_def)
  have "open_gap t (nat (int (length p))) (nat (m_num a)) (cells a) = Inr (map Live p @ d # map Live q @ r')"
    using d r(1,3) cr by (simp add: nat_int_add)
  then have "Insert_at bld t (Own j) (int (length p)) a = Insert_at bld t (Ext (xs ! (j - 1))) (int (length p)) a"
    using asm rd by (simp add: Insert_at_def Let_def read_ref_def)
  with a1(1,3) xs(2) show "\<exists>a'. Insert_at bld t (Own j) (int i) a = Inr (int i, a') \<and>
      arr_rep t a' (take i xs @ xs ! (j - 1) # drop i xs)"
    by (auto simp: p_def q_def)
qed

definition demo_own :: "int tarray" where
  "demo_own = \<lparr> m_data = Some [Live 5, Live 6, Live 7, Raw], m_num = 3, m_max = 4 \<rparr>"

theorem own_element_arguments_witness:
  "\<exists>a'. Insert_at Checked NonTrivial (Own 2) 0 demo_own = Inr (0, a') \<and>
     arr_rep NonTrivial a' [6, 5, 6, 7]"
proof -
  have rep: "arr_rep NonTrivial demo_own [5, 6, 7]"
    by (simp add: arr_rep_def demo_own_def cells_def)
  show ?thesis
    using own_element_arguments [OF rep, of 2 0 Checked] by (simp add: demo_own_def)
qed

end
