(* ===== verification/TBitArray.thy ===== *)
theory TBitArray
  imports TArrayCore
begin

text \<open>
  \<open>TBitArray\<close> (\<open>Public/Containers/TBitArray.h\<close>, \<open>Private/Containers/TBitArray.cpp\<close>): bits packed
  into the 64-bit words of a \<open>TArrayCore<uint64>\<close>.  Divisions of an index truncate, and a
  shift by the width of the word or more is undefined behaviour, so both are written out.
\<close>

section \<open>Words and bits\<close>

record TBitArray =
  m_words :: "u64 tarray"
  m_numBits :: int

definition BitsPerWord :: int where "BitsPerWord = 64"

definition shl :: "u64 \<Rightarrow> int \<Rightarrow> array_error + u64" where
  "shl w n = (if 0 \<le> n \<and> n < 64 then Inr (push_bit (nat n) w) else Inl BadShift)"

definition shr :: "u64 \<Rightarrow> int \<Rightarrow> array_error + u64" where
  "shr w n = (if 0 \<le> n \<and> n < 64 then Inr (drop_bit (nat n) w) else Inl BadShift)"

text \<open>The compiler intrinsics: trailing zeros of a word that is not zero, and set bits.\<close>

definition CountTrailingZeros64 :: "build \<Rightarrow> u64 \<Rightarrow> array_error + int" where
  "CountTrailingZeros64 bld w = acheck bld (w \<noteq> 0)
     (Inr (int (length (takeWhile (\<lambda>i. \<not> bit w i) [0..<64]))))"

definition PopCount64 :: "u64 \<Rightarrow> int" where
  "PopCount64 w = int (length (filter (bit w) [0..<64]))"

definition LowBitsMask :: "build \<Rightarrow> int \<Rightarrow> array_error + u64" where
  "LowBitsMask bld Bits = acheck bld (0 \<le> Bits \<and> Bits < 64)
     (if Bits = 0 then Inr 0 else rbind (shl 1 Bits) (\<lambda>m. Inr (m - 1)))"

definition BitsToWords :: "int \<Rightarrow> array_error + int" where
  "BitsToWords NumBits =
     (if \<not> i32_ok (NumBits + (BitsPerWord - 1)) then Inl IntOverflow
      else Inr ((NumBits + (BitsPerWord - 1)) sdiv BitsPerWord))"

text \<open>\<open>m_words[i] = f(m_words[i])\<close> through the reference \<open>operator[]\<close> returns.\<close>

definition update_word :: "build \<Rightarrow> int \<Rightarrow> (u64 \<Rightarrow> u64) \<Rightarrow> u64 tarray \<Rightarrow> array_error + u64 tarray" where
  "update_word bld i f a =
     rbind (index_op bld i a) (\<lambda>w.
     rbind (assign_cell (nat i) (f w) (cells a)) (\<lambda>b. Inr (set_cells b a)))"

section \<open>Construction, capacity\<close>

definition TBitArray_ctor :: TBitArray where
  "TBitArray_ctor = \<lparr> m_words = TArray_ctor, m_numBits = 0 \<rparr>"

definition Bits_IsValidIndex :: "TBitArray \<Rightarrow> int \<Rightarrow> bool" where
  "Bits_IsValidIndex a Index \<longleftrightarrow> 0 \<le> Index \<and> Index < m_numBits a"

definition Bits_Num :: "TBitArray \<Rightarrow> int" where "Bits_Num a = m_numBits a"
definition Bits_IsEmpty :: "TBitArray \<Rightarrow> bool" where "Bits_IsEmpty a \<longleftrightarrow> m_numBits a = 0"

definition NormalizeTrailingBits :: "build \<Rightarrow> TBitArray \<Rightarrow> array_error + TBitArray" where
  "NormalizeTrailingBits bld a =
     (if m_numBits a = 0 then Inr a
      else let NumWords = m_num (m_words a) in
        if NumWords = 0 then Inr a
        else let LastWordIdx = NumWords - 1;
                 LiveBitsInLastWord = m_numBits a - LastWordIdx * BitsPerWord in
          if LiveBitsInLastWord < BitsPerWord then
            rbind (LowBitsMask bld LiveBitsInLastWord) (\<lambda>KeepMask.
            rbind (update_word bld LastWordIdx (\<lambda>w. w AND KeepMask) (m_words a)) (\<lambda>ws.
            Inr (a \<lparr> m_words := ws \<rparr>)))
          else Inr a)"

definition Bits_Reserve :: "build \<Rightarrow> int \<Rightarrow> TBitArray \<Rightarrow> array_error + TBitArray" where
  "Bits_Reserve bld NumBits a = acheck bld (0 \<le> NumBits)
     (rbind (BitsToWords NumBits) (\<lambda>NeededWords.
        if NeededWords > m_max (m_words a)
        then rbind (Reserve bld Trivial NeededWords (m_words a)) (\<lambda>ws. Inr (a \<lparr> m_words := ws \<rparr>))
        else Inr a))"

definition Bits_Reset :: "int \<Rightarrow> TBitArray \<Rightarrow> array_error + TBitArray" where
  "Bits_Reset NewCapacityBitsHint a =
     rbind (BitsToWords NewCapacityBitsHint) (\<lambda>Hint.
     rbind (Reset Trivial Hint (m_words a)) (\<lambda>ws. Inr (a \<lparr> m_words := ws, m_numBits := 0 \<rparr>)))"

definition add_word :: "u64 \<Rightarrow> u64 tarray \<Rightarrow> array_error + u64 tarray" where
  "add_word w a = rbind (Add Trivial (Ext w) a) (\<lambda>(i, a1). Inr a1)"

definition Bits_Init :: "build \<Rightarrow> bool \<Rightarrow> int \<Rightarrow> TBitArray \<Rightarrow> array_error + TBitArray" where
  "Bits_Init bld Value NumBits a = acheck bld (0 \<le> NumBits)
     (rbind (Reset Trivial 0 (m_words a)) (\<lambda>ws0.
       if NumBits = 0 then Inr (a \<lparr> m_words := ws0, m_numBits := 0 \<rparr>)
       else rbind (BitsToWords NumBits) (\<lambda>NeededWords.
         rbind (Reserve bld Trivial NeededWords ws0) (\<lambda>ws1.
         let FillWord = (if Value then NOT 0 else 0) in
         rbind (fold_res (\<lambda>_. add_word FillWord) [0..<nat NeededWords] ws1) (\<lambda>ws2.
         NormalizeTrailingBits bld (a \<lparr> m_words := ws2, m_numBits := NumBits \<rparr>))))))"

definition TBitArray_ctor_fill :: "build \<Rightarrow> bool \<Rightarrow> int \<Rightarrow> array_error + TBitArray" where
  "TBitArray_ctor_fill bld Value NumBits = Bits_Init bld Value NumBits TBitArray_ctor"

definition Bits_copy_assign :: "TBitArray option \<Rightarrow> TBitArray \<Rightarrow> array_error + TBitArray" where
  "Bits_copy_assign rhs a = (case rhs of
       None \<Rightarrow> Inr a     \<comment> \<open>self-assignment\<close>
     | Some src \<Rightarrow>
         rbind (TArray_copy_assign Trivial (Other (m_words src)) (m_words a)) (\<lambda>ws.
         Inr (a \<lparr> m_words := ws, m_numBits := m_numBits src \<rparr>)))"

definition Bits_copy_ctor :: "TBitArray \<Rightarrow> array_error + TBitArray" where
  "Bits_copy_ctor src = rbind (TArray_copy_ctor Trivial (m_words src)) (\<lambda>ws.
     Inr \<lparr> m_words = ws, m_numBits = m_numBits src \<rparr>)"

definition Bits_move_ctor :: "TBitArray \<Rightarrow> TBitArray \<times> TBitArray" where
  "Bits_move_ctor src = (let (ws, old) = TArray_move_ctor (m_words src) in
     (\<lparr> m_words = ws, m_numBits = m_numBits src \<rparr>, \<lparr> m_words = old, m_numBits = 0 \<rparr>))"

definition Bits_move_assign ::
  "TBitArray option \<Rightarrow> TBitArray \<Rightarrow> array_error + TBitArray \<times> TBitArray option" where
  "Bits_move_assign rhs a = (case rhs of
       None \<Rightarrow> Inr (a, None)
     | Some src \<Rightarrow>
         rbind (TArray_move_assign Trivial (Other (m_words src)) (m_words a)) (\<lambda>(ws, old).
         Inr (a \<lparr> m_words := ws, m_numBits := m_numBits src \<rparr>,
              case old of Self \<Rightarrow> None | Other o1 \<Rightarrow> Some \<lparr> m_words = o1, m_numBits = 0 \<rparr>)))"

section \<open>Reading and writing bits\<close>

definition Bits_index :: "build \<Rightarrow> int \<Rightarrow> TBitArray \<Rightarrow> array_error + bool" where
  "Bits_index bld Index a = acheck bld (Bits_IsValidIndex a Index)
     (let WordIdx = Index sdiv BitsPerWord; BitIdx = Index smod BitsPerWord in
      rbind (index_op bld WordIdx (m_words a)) (\<lambda>w.
      rbind (shl 1 BitIdx) (\<lambda>m. Inr (w AND m \<noteq> 0))))"

text \<open>The assignment of one bit, shared by \<open>Set\<close> and \<open>Add\<close>.\<close>

definition write_bit :: "build \<Rightarrow> int \<Rightarrow> int \<Rightarrow> bool \<Rightarrow> u64 tarray \<Rightarrow> array_error + u64 tarray" where
  "write_bit bld WordIdx BitIdx Value ws =
     rbind (shl 1 BitIdx) (\<lambda>Mask.
       if Value then update_word bld WordIdx (\<lambda>w. w OR Mask) ws
       else update_word bld WordIdx (\<lambda>w. w AND NOT Mask) ws)"

definition Bits_Set :: "build \<Rightarrow> int \<Rightarrow> bool \<Rightarrow> TBitArray \<Rightarrow> array_error + TBitArray" where
  "Bits_Set bld Index Value a = acheck bld (Bits_IsValidIndex a Index)
     (rbind (write_bit bld (Index sdiv BitsPerWord) (Index smod BitsPerWord) Value (m_words a))
        (\<lambda>ws. Inr (a \<lparr> m_words := ws \<rparr>)))"

definition Bits_Add :: "build \<Rightarrow> bool \<Rightarrow> TBitArray \<Rightarrow> array_error + int \<times> TBitArray" where
  "Bits_Add bld Value a =
     (let WordIdx = m_numBits a sdiv BitsPerWord in
      rbind (if WordIdx \<ge> m_num (m_words a) then add_word 0 (m_words a) else Inr (m_words a)) (\<lambda>ws.
      rbind (write_bit bld WordIdx (m_numBits a smod BitsPerWord) Value ws) (\<lambda>ws1.
      if \<not> i32_ok (m_numBits a + 1) then Inl IntOverflow
      else Inr (m_numBits a, a \<lparr> m_words := ws1, m_numBits := m_numBits a + 1 \<rparr>))))"

text \<open>Step 1 of \<open>RemoveAt\<close>: the bits above \<open>BitIdx\<close> move down within their word.\<close>

definition squeeze_word :: "build \<Rightarrow> int \<Rightarrow> int \<Rightarrow> u64 tarray \<Rightarrow> array_error + u64 tarray" where
  "squeeze_word bld WordIdx BitIdx ws =
     rbind (index_op bld WordIdx ws) (\<lambda>w.
     rbind (LowBitsMask bld BitIdx) (\<lambda>m.
     rbind (shr w (BitIdx + 1)) (\<lambda>h.
     rbind (shl h BitIdx) (\<lambda>ShiftHigh.
     update_word bld WordIdx (\<lambda>_. (w AND m) OR ShiftHigh) ws))))"

text \<open>Step 2: bit 0 of word \<open>W\<close> becomes bit 63 of the word before it.\<close>

definition cascade_step :: "build \<Rightarrow> nat \<Rightarrow> u64 tarray \<Rightarrow> array_error + u64 tarray" where
  "cascade_step bld W ws =
     rbind (index_op bld (int W) ws) (\<lambda>w.
     rbind (update_word bld (int W - 1) (\<lambda>v. v OR push_bit 63 (w AND 1)) ws) (\<lambda>ws1.
     update_word bld (int W) (\<lambda>v. drop_bit 1 v) ws1))"

text \<open>The last word is given up when it holds no live bit, the buffer with the last bit.\<close>

definition shrink_words :: "build \<Rightarrow> int \<Rightarrow> u64 tarray \<Rightarrow> array_error + u64 tarray" where
  "shrink_words bld n ws =
     (if n > 0
      then rbind (BitsToWords n) (\<lambda>need.
        if need < m_num ws then RemoveAt bld Trivial (m_num ws - 1) ws
        else if n = 0 then Reset Trivial 0 ws else Inr ws)
      else if n = 0 then Reset Trivial 0 ws else Inr ws)"

definition Bits_RemoveAt :: "build \<Rightarrow> int \<Rightarrow> TBitArray \<Rightarrow> array_error + TBitArray" where
  "Bits_RemoveAt bld Index a = acheck bld (Bits_IsValidIndex a Index)
     (let WordIdx = Index sdiv BitsPerWord; BitIdx = Index smod BitsPerWord;
          LastWordIdx = (m_numBits a - 1) sdiv BitsPerWord in
      rbind (squeeze_word bld WordIdx BitIdx (m_words a)) (\<lambda>ws.
      rbind (fold_res (cascade_step bld) [nat (WordIdx + 1)..<nat (LastWordIdx + 1)] ws) (\<lambda>ws1.
      let n = m_numBits a - 1 in
      rbind (shrink_words bld n ws1) (\<lambda>ws2.
      NormalizeTrailingBits bld (a \<lparr> m_words := ws2, m_numBits := n \<rparr>)))))"

section \<open>Searching and counting\<close>

text \<open>
  \<open>FindFirstSet\<close> and \<open>FindFirstClear\<close> run the same code, the latter on inverted words; \<open>view\<close>
  is the identity or \<open>NOT\<close>.
\<close>

definition hit :: "build \<Rightarrow> TBitArray \<Rightarrow> int \<Rightarrow> u64 \<Rightarrow> array_error + int" where
  "hit bld a WordIdx Word =
     rbind (CountTrailingZeros64 bld Word) (\<lambda>LocalBit.
       let GlobalBit = WordIdx * BitsPerWord + LocalBit in
       Inr (if GlobalBit < m_numBits a then GlobalBit else INDEX_NONE))"

fun scan_words ::
  "build \<Rightarrow> (u64 \<Rightarrow> u64) \<Rightarrow> TBitArray \<Rightarrow> nat list \<Rightarrow> array_error + int" where
  "scan_words bld view a [] = Inr INDEX_NONE"
| "scan_words bld view a (W # Ws) =
     rbind (index_op bld (int W) (m_words a)) (\<lambda>w.
       if view w \<noteq> 0 then hit bld a (int W) (view w) else scan_words bld view a Ws)"

definition find_first ::
  "build \<Rightarrow> (u64 \<Rightarrow> u64) \<Rightarrow> int \<Rightarrow> TBitArray \<Rightarrow> array_error + int" where
  "find_first bld view StartIndex a =
     (let Start = (if StartIndex < 0 then 0 else StartIndex) in
      if Start \<ge> m_numBits a then Inr INDEX_NONE
      else let NumWords = m_num (m_words a) in
        if NumWords = 0 then Inr INDEX_NONE
        else let WordIdx = Start sdiv BitsPerWord; BitIdx = Start smod BitsPerWord in
          rbind (index_op bld WordIdx (m_words a)) (\<lambda>w.
          rbind (if BitIdx > 0 then rbind (LowBitsMask bld BitIdx) (\<lambda>m. Inr (view w AND NOT m))
                 else Inr (view w)) (\<lambda>Word.
            if Word \<noteq> 0 then hit bld a WordIdx Word
            else scan_words bld view a [nat WordIdx + 1..<nat NumWords])))"

definition FindFirstSet :: "build \<Rightarrow> int \<Rightarrow> TBitArray \<Rightarrow> array_error + int" where
  "FindFirstSet bld StartIndex a = find_first bld (\<lambda>w. w) StartIndex a"

definition FindFirstClear :: "build \<Rightarrow> int \<Rightarrow> TBitArray \<Rightarrow> array_error + int" where
  "FindFirstClear bld StartIndex a = find_first bld NOT StartIndex a"

definition CountSetBits :: "build \<Rightarrow> TBitArray \<Rightarrow> array_error + int" where
  "CountSetBits bld a =
     (let NumWords = m_num (m_words a) in
      if NumWords = 0 \<or> m_numBits a = 0 then Inr 0
      else fold_res (\<lambda>W Total. rbind (index_op bld (int W) (m_words a)) (\<lambda>w. Inr (Total + PopCount64 w)))
             [0..<nat NumWords] 0)"

end
