(* ===== verification/TBitArrayProps.thy ===== *)
theory TBitArrayProps
  imports TBitArray TArrayProps
begin

text \<open>
  \<open>TBitArray\<close> implements lists of booleans: bit \<open>i\<close> of the list is bit \<open>i mod 64\<close> of word
  \<open>i div 64\<close>, and the bits behind the last one are clear.
\<close>

section \<open>The representation\<close>

definition wbit :: "u64 list \<Rightarrow> nat \<Rightarrow> bool" where
  "wbit ws i \<longleftrightarrow> i div 64 < length ws \<and> bit (ws ! (i div 64)) (i mod 64)"

definition words_for :: "nat \<Rightarrow> nat" where
  "words_for n = (n + 63) div 64"

definition bits_rep :: "TBitArray \<Rightarrow> bool list \<Rightarrow> bool" where
  "bits_rep a xs \<longleftrightarrow> m_numBits a = int (length xs) \<and> int (length xs) < 2 ^ 31 - 63 \<and>
     (\<exists>ws. arr_rep Trivial (m_words a) ws \<and> length ws = words_for (length xs) \<and>
       (\<forall>i. wbit ws i \<longleftrightarrow> i < length xs \<and> xs ! i))"

lemma bits_repE:
  assumes "bits_rep a xs"
  obtains ws where "arr_rep Trivial (m_words a) ws" "length ws = words_for (length xs)"
    "\<And>i. wbit ws i \<longleftrightarrow> i < length xs \<and> xs ! i" "m_numBits a = int (length xs)"
    "int (length xs) < 2 ^ 31 - 63"
  using assms by (auto simp: bits_rep_def)

lemma bits_repI:
  assumes "arr_rep Trivial ws' ws" "length ws = words_for (length xs)"
    "\<And>i. wbit ws i \<longleftrightarrow> i < length xs \<and> xs ! i" "n = int (length xs)" "int (length xs) < 2 ^ 31 - 63"
  shows "bits_rep \<lparr> m_words = ws', m_numBits = n \<rparr> xs"
  using assms by (auto simp: bits_rep_def)

lemma word_in_range: "i < length xs \<Longrightarrow> i div 64 < words_for (length xs)"
  unfolding words_for_def by linarith

lemma words_for_simps [simp]: "words_for 0 = 0" "words_for n = 0 \<longleftrightarrow> n = 0"
  by (auto simp: words_for_def)

lemma div64_less: "i < 64 * n \<longleftrightarrow> i div 64 < (n :: nat)"
  by (simp add: div_less_iff_less_mult mult.commute)

lemma sdiv_nat: "int i sdiv 64 = int (i div 64)"
  by (cases "i = 0") (simp_all add: signed_divide_int_def zdiv_int)

lemma smod_nat: "int i smod 64 = int (i mod 64)"
  by (cases "i = 0")
    (simp_all add: signed_modulo_int_def signed_divide_int_def zmod_int minus_div_mult_eq_mod mult.commute)

lemma BitsToWords_nat: "int n < 2 ^ 31 - 63 \<Longrightarrow> BitsToWords (int n) = Inr (int (words_for n))"
proof -
  assume a: "int n < 2 ^ 31 - 63"
  have e: "int n + (BitsPerWord - 1) = int (n + 63)" by (simp add: BitsPerWord_def)
  have "i32_ok (int (n + 63))" using a by (simp add: i32_ok_def)
  then show ?thesis
    unfolding BitsToWords_def e unfolding BitsPerWord_def sdiv_nat words_for_def by simp
qed

lemma shl_nat: "i < 64 \<Longrightarrow> shl w (int i) = Inr (push_bit i w)"
  by (simp add: shl_def)

lemma shr_nat: "i < 64 \<Longrightarrow> shr w (int i) = Inr (drop_bit i w)"
  by (simp add: shr_def)

lemma LowBitsMask_nat: "i < 64 \<Longrightarrow> LowBitsMask bld (int i) = Inr (mask i)"
  by (cases "i = 0") (simp_all add: LowBitsMask_def acheck_def shl_nat mask_eq_exp_minus_1 push_bit_eq_mult)

section \<open>Words of the store\<close>

lemma index_word: "arr_rep Trivial a ws \<Longrightarrow> i < length ws \<Longrightarrow> index_op bld (int i) a = Inr (ws ! i)"
  by (rule index_op_rep)

lemma update_word_rep:
  assumes "arr_rep Trivial a ws" "i < length ws"
  obtains a' where "update_word bld (int i) f a = Inr a'" "arr_rep Trivial a' (ws[i := f (ws ! i)])"
proof -
  obtain a' where "SetDataAtIndexRaw bld (int i) (f (ws ! i)) a = Inr a'"
    "arr_rep Trivial a' (ws[i := f (ws ! i)])" by (rule Set_rep [OF assms])
  moreover have "IsValidIndex a (int i)" using assms by (simp add: IsValidIndex_def arr_rep_def)
  ultimately show ?thesis using that assms
    by (simp add: update_word_def SetDataAtIndexRaw_def index_word acheck_def)
qed

lemma add_word_rep:
  assumes "arr_rep Trivial a ws" "length ws < 2 ^ 31 - 1"
  obtains a' where "add_word w a = Inr a'" "arr_rep Trivial a' (ws @ [w])"
proof -
  obtain a' where "Add Trivial (Ext w) a = Inr (int (length ws), a')" "arr_rep Trivial a' (ws @ [w])"
    using Add_rep [OF assms, where v = "Ext w" and x = w] by auto
  then show ?thesis using that by (simp add: add_word_def)
qed

lemma wbit_update:
  "k < length ws \<Longrightarrow> wbit (ws[k := v]) i = (if i div 64 = k then bit v (i mod 64) else wbit ws i)"
  by (auto simp: wbit_def)

lemma wbit_append: "wbit (ws @ [w]) i =
    (if i div 64 = length ws then bit w (i mod 64) else wbit ws i)"
  by (auto simp: wbit_def nth_append)

lemma wbit_replicate: "wbit (replicate n w) i \<longleftrightarrow> i div 64 < n \<and> bit w (i mod 64)"
  by (auto simp: wbit_def)

lemma nat_split64: "i = j \<longleftrightarrow> i div 64 = j div 64 \<and> i mod 64 = (j::nat) mod 64"
  by (metis mult_div_mod_eq)

lemma write_bit_rep:
  assumes "arr_rep Trivial a ws" "j < 64 * length ws"
  obtains a' ws' where "write_bit bld (int j sdiv 64) (int j smod 64) v a = Inr a'"
    "arr_rep Trivial a' ws'" "length ws' = length ws"
    "\<And>i. wbit ws' i = (if i = j then v else wbit ws i)"
proof -
  let ?k = "j div 64" and ?b = "j mod 64"
  have k: "?k < length ws" using assms(2) by (simp add: div64_less)
  let ?f = "\<lambda>w. if v then w OR push_bit ?b 1 else w AND NOT (push_bit ?b 1) :: u64"
  obtain a' where a': "update_word bld (int ?k) ?f a = Inr a'"
    "arr_rep Trivial a' (ws[?k := ?f (ws ! ?k)])" by (rule update_word_rep [OF assms(1) k])
  have "write_bit bld (int j sdiv 64) (int j smod 64) v a = Inr a'"
    using a'(1) unfolding sdiv_nat smod_nat
    by (cases v) (simp_all add: write_bit_def shl_nat)
  moreover have "wbit (ws[?k := ?f (ws ! ?k)]) i = (if i = j then v else wbit ws i)" for i
  proof (cases "i div 64 = ?k")
    case True
    have "bit (?f (ws ! ?k)) (i mod 64) = (if i mod 64 = ?b then v else bit (ws ! ?k) (i mod 64))"
      by (auto simp: bit_simps)
    then show ?thesis using True k nat_split64 [of i j] by (auto simp: wbit_update wbit_def)
  next
    case False
    then show ?thesis using k by (auto simp: wbit_update)
  qed
  ultimately show ?thesis using a'(2) that by simp
qed


section \<open>Trailing bits\<close>

lemma bit_mask_eq: "bit (w AND mask n) i \<longleftrightarrow> bit (w :: u64) i \<and> i < n"
  by (auto simp: bit_simps dest: bit_imp_le_length)

lemma NormalizeTrailingBits_rep:
  assumes "arr_rep Trivial a ws" "length ws = words_for n" "0 < n"
  obtains a' ws' where "NormalizeTrailingBits bld \<lparr> m_words = a, m_numBits = int n \<rparr> =
      Inr \<lparr> m_words = a', m_numBits = int n \<rparr>"
    "arr_rep Trivial a' ws'" "length ws' = length ws" "\<And>i. wbit ws' i \<longleftrightarrow> wbit ws i \<and> i < n"
proof -
  define k where "k = length ws - 1"
  have len: "length ws = Suc k" using assms(2,3) by (simp add: k_def words_for_def)
  then have last: "k < length ws" by simp
  define b where "b = n - 64 * k"
  have nb: "n = 64 * k + b" "0 < b" "b \<le> 64"
    using len assms(2,3) unfolding b_def words_for_def by linarith+
  have num: "m_num a = int (Suc k)" using assms(1) len by (simp add: arr_rep_def)
  have live: "int n - (m_num a - 1) * BitsPerWord = int b"
    using nb(1) num by (simp add: BitsPerWord_def)
  show ?thesis
  proof (cases "b < 64")
    case True
    obtain a' where a': "update_word bld (int k) (\<lambda>w. w AND mask b) a = Inr a'"
      "arr_rep Trivial a' (ws[k := ws ! k AND mask b])"
      by (rule update_word_rep [OF assms(1) last])
    have "NormalizeTrailingBits bld \<lparr> m_words = a, m_numBits = int n \<rparr> =
        Inr \<lparr> m_words = a', m_numBits = int n \<rparr>"
      using True live num a'(1) assms(3) LowBitsMask_nat [OF True]
      by (simp add: NormalizeTrailingBits_def Let_def BitsPerWord_def)
    moreover have "wbit (ws[k := ws ! k AND mask b]) i \<longleftrightarrow> wbit ws i \<and> i < n" for i
    proof (cases "i div 64 = k")
      case True
      then have "i mod 64 < b \<longleftrightarrow> i < n" using nb(1) div_mult_mod_eq [of i 64] by linarith
      with True len show ?thesis by (simp add: wbit_update bit_mask_eq wbit_def)
    next
      case False
      have "i < n" if "i div 64 < Suc k"
      proof -
        have "i div 64 < k" using that False by simp
        then have "i < 64 * k" by (simp add: div64_less)
        with nb show ?thesis by simp
      qed
      with False len show ?thesis by (auto simp: wbit_update wbit_def)
    qed
    ultimately show ?thesis using a'(2) that by simp
  next
    case False
    then have "NormalizeTrailingBits bld \<lparr> m_words = a, m_numBits = int n \<rparr> =
        Inr \<lparr> m_words = a, m_numBits = int n \<rparr>"
      using live num assms(3) nb(3) by (simp add: NormalizeTrailingBits_def Let_def BitsPerWord_def)
    moreover have "wbit ws i \<longleftrightarrow> wbit ws i \<and> i < n" for i
      using False nb len by (auto simp: wbit_def div64_less)
    ultimately show ?thesis using assms(1) that by blast
  qed
qed

section \<open>Operations\<close>

lemma bits_upd: "a \<lparr> m_words := b, m_numBits := n \<rparr> = \<lparr> m_words = b, m_numBits = n \<rparr>"
  by (cases a) simp

lemma Bits_index_rep:
  assumes "bits_rep a xs" "i < length xs"
  shows "Bits_index bld (int i) a = Inr (xs ! i)"
proof -
  obtain ws where ws: "arr_rep Trivial (m_words a) ws" "length ws = words_for (length xs)"
    "\<And>i. wbit ws i \<longleftrightarrow> i < length xs \<and> xs ! i" "m_numBits a = int (length xs)"
    "int (length xs) < 2 ^ 31 - 63" by (rule bits_repE [OF assms(1)]) blast
  have k: "i div 64 < length ws" using word_in_range [OF assms(2)] ws(2) by simp
  have "ws ! (i div 64) AND push_bit (i mod 64) 1 \<noteq> 0 \<longleftrightarrow> bit (ws ! (i div 64)) (i mod 64)"
    by (simp add: bit_iff_and_push_bit_not_eq_0)
  also have "\<dots> \<longleftrightarrow> xs ! i" using ws(3) [of i] k assms(2) by (simp add: wbit_def)
  finally show ?thesis
    using index_word [OF ws(1) k] assms(2) ws(4)
    by (simp add: Bits_index_def acheck_def Bits_IsValidIndex_def BitsPerWord_def sdiv_nat smod_nat
        shl_nat)
qed

lemma Bits_Set_rep:
  assumes "bits_rep a xs" "i < length xs"
  obtains a' where "Bits_Set bld (int i) v a = Inr a'" "bits_rep a' (xs[i := v])"
proof -
  obtain ws where ws: "arr_rep Trivial (m_words a) ws" "length ws = words_for (length xs)"
    "\<And>i. wbit ws i \<longleftrightarrow> i < length xs \<and> xs ! i" "m_numBits a = int (length xs)"
    "int (length xs) < 2 ^ 31 - 63" by (rule bits_repE [OF assms(1)]) blast
  have i: "i < 64 * length ws" using word_in_range [OF assms(2)] ws(2) by (simp add: div64_less)
  obtain b ws' where b: "write_bit bld (int i sdiv 64) (int i smod 64) v (m_words a) = Inr b"
    "arr_rep Trivial b ws'" "length ws' = length ws" "\<And>j. wbit ws' j = (if j = i then v else wbit ws j)"
    by (rule write_bit_rep [OF ws(1) i]) blast
  have "Bits_Set bld (int i) v a = Inr \<lparr> m_words = b, m_numBits = int (length (xs[i := v])) \<rparr>"
    using b(1) assms(2) ws(4)
    by (cases a) (simp add: Bits_Set_def acheck_def Bits_IsValidIndex_def BitsPerWord_def)
  moreover have "bits_rep \<lparr> m_words = b, m_numBits = int (length (xs[i := v])) \<rparr> (xs[i := v])"
    by (rule bits_repI [OF b(2)]) (use b ws assms(2) in \<open>auto simp: nth_list_update\<close>)
  ultimately show ?thesis by (rule that)
qed

lemma Bits_Add_rep:
  assumes "bits_rep a xs" "int (length xs) < 2 ^ 31 - 64"
  obtains a' where "Bits_Add bld v a = Inr (int (length xs), a')" "bits_rep a' (xs @ [v])"
proof -
  let ?n = "length xs"
  obtain ws where ws: "arr_rep Trivial (m_words a) ws" "length ws = words_for ?n"
    "\<And>i. wbit ws i \<longleftrightarrow> i < ?n \<and> xs ! i" "m_numBits a = int ?n"
    "int ?n < 2 ^ 31 - 63" by (rule bits_repE [OF assms(1)]) blast
  have num: "m_num (m_words a) = int (length ws)" using ws(1) by (simp add: arr_rep_def)
  obtain a1 ws1 where a1: "(if int ?n sdiv 64 \<ge> m_num (m_words a) then add_word 0 (m_words a)
      else Inr (m_words a)) = Inr a1" "arr_rep Trivial a1 ws1" "length ws1 = words_for (Suc ?n)"
    "\<And>i. wbit ws1 i \<longleftrightarrow> wbit ws i"
  proof (cases "length ws \<le> ?n div 64")
    case True
    have "length ws < 2 ^ 31 - 1" using ws(2,5) by (simp add: words_for_def)
    then obtain a1 where "add_word 0 (m_words a) = Inr a1" "arr_rep Trivial a1 (ws @ [0])"
      using add_word_rep [OF ws(1)] by blast
    moreover have "length (ws @ [0]) = words_for (Suc ?n)"
      using True ws(2) unfolding words_for_def by simp
    moreover have "wbit (ws @ [0]) i \<longleftrightarrow> wbit ws i" for i
      by (cases "i div 64 = length ws") (simp_all add: wbit_append, simp add: wbit_def)
    moreover have "int ?n sdiv 64 \<ge> m_num (m_words a)" using True num by (simp add: sdiv_nat)
    ultimately show ?thesis using that by simp
  next
    case False
    moreover have "\<not> int ?n sdiv 64 \<ge> m_num (m_words a)" using False num by (simp add: sdiv_nat)
    moreover have "length ws = words_for (Suc ?n)"
      using False ws(2) unfolding words_for_def by linarith
    ultimately show ?thesis using ws(1) that by simp
  qed
  have i: "?n < 64 * length ws1" using a1(3) unfolding words_for_def by linarith
  obtain b ws' where b: "write_bit bld (int ?n sdiv 64) (int ?n smod 64) v a1 = Inr b"
    "arr_rep Trivial b ws'" "length ws' = length ws1" "\<And>j. wbit ws' j = (if j = ?n then v else wbit ws1 j)"
    by (rule write_bit_rep [OF a1(2) i]) blast
  have "Bits_Add bld v a = Inr (int ?n, \<lparr> m_words = b, m_numBits = int (length (xs @ [v])) \<rparr>)"
    using b(1) assms(2) unfolding Bits_Add_def Let_def BitsPerWord_def ws(4) a1(1)
    by (simp add: i32_ok_def bits_upd)
  moreover have "bits_rep \<lparr> m_words = b, m_numBits = int (length (xs @ [v])) \<rparr> (xs @ [v])"
    by (rule bits_repI [OF b(2)]) (use b a1(3,4) ws(3) assms(2) in \<open>auto simp: nth_append\<close>)
  ultimately show ?thesis by (rule that)
qed


section \<open>Removing a bit\<close>

text \<open>The list without its bit \<open>i\<close>, as a condition on the words.\<close>

definition closed_up :: "u64 list \<Rightarrow> nat \<Rightarrow> nat \<Rightarrow> u64 list \<Rightarrow> bool" where
  "closed_up ws i w ws' \<longleftrightarrow> length ws' = length ws \<and>
     (\<forall>j. wbit ws' j =
        (if j < i then wbit ws j
         else if j < 64 * w + 63 then wbit ws (Suc j)
         else if j = 64 * w + 63 then False
         else wbit ws j))"

lemma squeeze_word_rep:
  assumes "arr_rep Trivial a ws" "i div 64 < length ws" "i mod 64 \<noteq> 63"
  obtains a' ws' where "squeeze_word bld (int (i div 64)) (int (i mod 64)) a = Inr a'"
    "arr_rep Trivial a' ws'" "closed_up ws i (i div 64) ws'"
proof -
  let ?k = "i div 64" and ?b = "i mod 64"
  let ?v = "(ws ! ?k AND mask ?b) OR push_bit ?b (drop_bit (Suc ?b) (ws ! ?k))"
  have b: "?b < 63" using assms(3) mod_less_divisor [of 64 i] by linarith
  obtain a' where a': "update_word bld (int ?k) (\<lambda>_. ?v) a = Inr a'"
    "arr_rep Trivial a' (ws[?k := ?v])" by (rule update_word_rep [OF assms(1,2)])
  have shr1: "shr (ws ! ?k) (int ?b + 1) = Inr (drop_bit (Suc ?b) (ws ! ?k))"
    using shr_nat [of "Suc ?b" "ws ! ?k"] b by (simp add: add.commute)
  have "squeeze_word bld (int ?k) (int ?b) a = Inr a'"
    using a'(1) index_word [OF assms(1,2)] LowBitsMask_nat [of ?b bld] shr1 shl_nat [of ?b] b
    by (simp add: squeeze_word_def)
  moreover have "closed_up ws i ?k (ws[?k := ?v])"
    unfolding closed_up_def
  proof (intro conjI allI)
    fix j :: nat
    have bits: "bit ?v m = (if m < ?b then bit (ws ! ?k) m else m < 63 \<and> bit (ws ! ?k) (Suc m))"
      if "m < 64" for m
      using that bit_imp_le_length [of "ws ! ?k" "Suc m"]
      by (auto simp: bit_simps not_less Suc_diff_le less_Suc_eq)
    have j: "j = 64 * (j div 64) + j mod 64" "j mod 64 < 64" by simp_all
    have i: "i = 64 * ?k + ?b" by simp
    show "wbit (ws[?k := ?v]) j =
        (if j < i then wbit ws j
         else if j < 64 * ?k + 63 then wbit ws (Suc j)
         else if j = 64 * ?k + 63 then False
         else wbit ws j)"
    proof (cases "j div 64 = ?k")
      case True
      then have c: "j < i \<longleftrightarrow> j mod 64 < ?b" "j < 64 * ?k + 63 \<longleftrightarrow> j mod 64 < 63"
        "j = 64 * ?k + 63 \<longleftrightarrow> j mod 64 = 63" using i j by linarith+
      have s: "Suc j div 64 = ?k" "Suc j mod 64 = Suc (j mod 64)" if "j mod 64 < 63"
        using that True j by (simp_all add: div_Suc mod_Suc)
      show ?thesis using True assms(2) c s bits [OF j(2)]
        by (auto simp: wbit_update wbit_def)
    next
      case False
      then consider "j div 64 < ?k" | "j div 64 > ?k" by linarith
      then show ?thesis
      proof cases
        case 1
        then have "j < i" using i j by linarith
        with False assms(2) show ?thesis by (simp add: wbit_update)
      next
        case 2
        then have "\<not> j < i" "\<not> j < 64 * ?k + 63" "j \<noteq> 64 * ?k + 63" using i j b by linarith+
        with False assms(2) show ?thesis by (simp add: wbit_update)
      qed
    qed
  qed simp
  ultimately show ?thesis using a'(2) that by blast
qed

lemma cascade_step_rep:
  assumes "arr_rep Trivial a ws1" "closed_up ws i w ws1" "Suc w < length ws" "i < 64 * Suc w"
  obtains a' ws' where "cascade_step bld (Suc w) a = Inr a'" "arr_rep Trivial a' ws'"
    "closed_up ws i (Suc w) ws'"
proof -
  have len: "length ws1 = length ws" and c: "wbit ws1 j =
        (if j < i then wbit ws j else if j < 64 * w + 63 then wbit ws (Suc j)
         else if j = 64 * w + 63 then False else wbit ws j)" for j
    using assms(2) by (simp_all add: closed_up_def)
  have l: "w < length ws1" "Suc w < length ws1" using assms(3) len by simp_all
  let ?f = "\<lambda>v. v OR push_bit 63 (ws1 ! Suc w AND 1)"
  obtain a1 where a1: "update_word bld (int w) ?f a = Inr a1"
    "arr_rep Trivial a1 (ws1[w := ?f (ws1 ! w)])" by (rule update_word_rep [OF assms(1) l(1)])
  let ?ws2 = "ws1[w := ?f (ws1 ! w)]"
  have l2: "Suc w < length ?ws2" using l by simp
  obtain a2 where a2: "update_word bld (int (Suc w)) (drop_bit 1) a1 = Inr a2"
    "arr_rep Trivial a2 (?ws2[Suc w := drop_bit 1 (?ws2 ! Suc w)])"
    by (rule update_word_rep [OF a1(2) l2])
  let ?ws3 = "ws1[w := ?f (ws1 ! w), Suc w := drop_bit 1 (ws1 ! Suc w)]"
  have run: "cascade_step bld (Suc w) a = Inr a2"
    using index_word [OF assms(1) l(2)] a1(1) a2(1) by (simp add: cascade_step_def)
  have "wbit ?ws3 j = (if j < i then wbit ws j else if j < 64 * Suc w + 63 then wbit ws (Suc j)
         else if j = 64 * Suc w + 63 then False else wbit ws j)" for j
  proof -
    have j: "j = 64 * (j div 64) + j mod 64" "j mod 64 < 64" by simp_all
    consider (low) "j div 64 = w" | (high) "j div 64 = Suc w" | (other) "j div 64 \<noteq> w" "j div 64 \<noteq> Suc w"
      by blast
    then show ?thesis
    proof cases
      case low
      have b: "bit (?f (ws1 ! w)) (j mod 64) =
          (bit (ws1 ! w) (j mod 64) \<or> j mod 64 = 63 \<and> bit (ws1 ! Suc w) 0)"
        using j(2) by (auto simp: bit_simps)
      have n: "wbit ?ws3 j = bit (?f (ws1 ! w)) (j mod 64)"
        using low l by (simp add: wbit_update)
      have o: "wbit ws1 j = bit (ws1 ! w) (j mod 64)" using low l by (simp add: wbit_def)
      have first: "bit (ws1 ! Suc w) 0 = wbit ws (64 * Suc w)"
        using c [of "64 * Suc w"] assms(4) l by (simp add: wbit_def)
      show ?thesis
      proof (cases "j mod 64 = 63")
        case True
        then have "j = 64 * w + 63" using low mult_div_mod_eq [of 64 j] by simp
        then have jj: "j = 64 * w + 63" by simp
        then have "Suc j = 64 * Suc w" "\<not> j < i \<or> j < i" by simp_all
        show ?thesis
        proof (cases "j < i")
          case True
          then show ?thesis using assms(4) jj by simp
        next
          case False
          have "wbit ws1 j = False" using c [of j] jj False by simp
          then show ?thesis using n b o first True False jj \<open>Suc j = 64 * Suc w\<close> by simp
        qed
      next
        case False
        then have "j mod 64 < 63" using False j(2) by (simp add: less_le)
        moreover have "j = 64 * w + j mod 64" using mult_div_mod_eq [of 64 j] low by simp
        ultimately have "j < 64 * w + 63" by linarith
        moreover from this have "j < 64 * Suc w + 63" by simp
        moreover have "wbit ?ws3 j = wbit ws1 j" using False n b o by simp
        ultimately show ?thesis using c [of j] by simp
      qed
    next
      case high
      have n: "wbit ?ws3 j = bit (ws1 ! Suc w) (Suc (j mod 64))"
        using high l by (simp add: wbit_update bit_simps)
      have "j = 64 * Suc w + j mod 64" using mult_div_mod_eq [of 64 j] high by simp
      then have ge: "\<not> j < i" "64 * Suc w \<le> j" using assms(4) by linarith+
      show ?thesis
      proof (cases "j mod 64 = 63")
        case True
        then have "j = 64 * Suc w + 63" using high mult_div_mod_eq [of 64 j] by simp
        then have "j = 64 * Suc w + 63" by simp
        moreover have "\<not> bit (ws1 ! Suc w) 64" using bit_imp_le_length by fastforce
        ultimately show ?thesis using n ge True by simp
      next
        case False
        then have m: "j mod 64 < 63" using j(2) by linarith
        have s: "Suc j div 64 = Suc w" "Suc j mod 64 = Suc (j mod 64)"
          using m high by (simp_all add: div_Suc mod_Suc)
        have "j < 64 * Suc w + 63" using m mult_div_mod_eq [of 64 j] high by simp
        moreover have "wbit ws1 (Suc j) = bit (ws1 ! Suc w) (Suc (j mod 64))"
          using s l by (simp add: wbit_def)
        moreover have "wbit ws1 (Suc j) = wbit ws (Suc j)" using c [of "Suc j"] ge by simp
        ultimately show ?thesis using n ge by simp
      qed
    next
      case other
      then have n: "wbit ?ws3 j = wbit ws1 j" using l by (simp add: wbit_update)
      from other consider "j div 64 < w" | "\<not> j div 64 < Suc (Suc w)" by linarith
      then consider "j < 64 * w + 63" | "j > 64 * Suc w + 63"
        unfolding div64_less [symmetric] by cases auto
      then show ?thesis using n c [of j] assms(4) by cases auto
    qed
  qed
  then have "closed_up ws i (Suc w) ?ws3" using len by (simp add: closed_up_def)
  moreover have "arr_rep Trivial a2 ?ws3" using a2(2) l by simp
  ultimately show ?thesis using run that by blast
qed

lemma cascade_loop:
  "arr_rep Trivial a ws1 \<Longrightarrow> closed_up ws i w ws1 \<Longrightarrow> w + m < length ws \<Longrightarrow> i < 64 * Suc w \<Longrightarrow>
   \<exists>a' ws'. fold_res (cascade_step bld) [Suc w..<Suc w + m] a = Inr a' \<and> arr_rep Trivial a' ws' \<and>
     closed_up ws i (w + m) ws'"
proof (induction m arbitrary: w a ws1)
  case 0
  then show ?case by auto
next
  case (Suc m)
  obtain a1 ws2 where a1: "cascade_step bld (Suc w) a = Inr a1" "arr_rep Trivial a1 ws2"
    "closed_up ws i (Suc w) ws2"
    by (rule cascade_step_rep [OF Suc.prems(1,2) _ Suc.prems(4)]) (use Suc.prems(3) in simp)
  have "[Suc w..<Suc w + Suc m] = Suc w # [Suc (Suc w)..<Suc (Suc w) + m]" by (simp add: upt_rec)
  moreover obtain a' ws' where
    "fold_res (cascade_step bld) [Suc (Suc w)..<Suc (Suc w) + m] a1 = Inr a'" "arr_rep Trivial a' ws'"
    "closed_up ws i (Suc w + m) ws'"
    using Suc.IH [OF a1(2,3)] Suc.prems(3,4) by auto
  ultimately show ?case using a1(1) by auto
qed


lemma shrink_words_rep:
  assumes "arr_rep Trivial a ws" "length ws = words_for (Suc n)" "int n < 2 ^ 31 - 63"
    and "\<And>j. wbit ws j \<Longrightarrow> j < n"
  obtains a' ws' where "shrink_words bld (int n) a = Inr a'"
    "arr_rep Trivial a' ws'" "length ws' = words_for n" "\<And>j. wbit ws' j = wbit ws j"
proof -
  have num: "m_num a = int (length ws)" using assms(1) by (simp add: arr_rep_def)
  note need = BitsToWords_nat [OF assms(3)]
  consider (empty) "n = 0" | (last) "n \<noteq> 0" "words_for n < length ws"
    | (same) "n \<noteq> 0" "\<not> words_for n < length ws" by blast
  then show ?thesis
  proof cases
    case empty
    obtain a' where "Reset Trivial 0 a = Inr a'" "arr_rep Trivial a' []"
      by (rule Reset_rep [OF assms(1), of 0]) auto
    moreover have "wbit [] j = wbit ws j" for j using assms(4) [of j] empty by (auto simp: wbit_def)
    ultimately show ?thesis using that [of a' "[]"] empty by (simp add: shrink_words_def)
  next
    case last
    then have ne: "ws \<noteq> []" by auto
    have "arr_rep Trivial a (butlast ws @ last ws # [])" using assms(1) ne by simp
    then obtain a' where a': "RemoveAt bld Trivial (int (length (butlast ws))) a = Inr a'"
      "arr_rep Trivial a' (butlast ws @ [])" by (rule RemoveAt_rep)
    have len: "length (butlast ws) = words_for n"
      using last assms(2) unfolding words_for_def by simp
    have "wbit (butlast ws) j = wbit ws j" for j
    proof -
      have "j div 64 < length (butlast ws)" if "wbit ws j"
        using assms(4) [OF that] len unfolding words_for_def by linarith
      then show ?thesis by (auto simp: wbit_def nth_butlast)
    qed
    moreover have "m_num a - 1 = int (length (butlast ws))" using num ne by (cases ws) auto
    ultimately show ?thesis using that [of a' "butlast ws"] a' last need num len by (simp add: shrink_words_def)
  next
    case same
    have "length ws = words_for n" using same(2) assms(2) unfolding words_for_def by linarith
    with that [of a ws] assms(1) same need num show ?thesis by (simp add: shrink_words_def)
  qed
qed

lemma Bits_RemoveAt_rep:
  assumes "bits_rep a xs" "i < length xs" "i mod 64 \<noteq> 63"
  obtains a' where "Bits_RemoveAt bld (int i) a = Inr a'" "bits_rep a' (take i xs @ drop (Suc i) xs)"
proof -
  obtain ws where ws: "arr_rep Trivial (m_words a) ws" "length ws = words_for (length xs)"
    "\<And>i. wbit ws i \<longleftrightarrow> i < length xs \<and> xs ! i" "m_numBits a = int (length xs)"
    "int (length xs) < 2 ^ 31 - 63" by (rule bits_repE [OF assms(1)]) blast
  define n where "n = length xs - 1"
  have n: "length xs = Suc n" using assms(2) by (simp add: n_def)
  let ?k = "i div 64" and ?ys = "take i xs @ drop (Suc i) xs"
  have len: "length ?ys = n" using assms(2) n by simp
  have k: "?k < length ws" using word_in_range [OF assms(2)] ws(2) by simp
  obtain a1 ws1 where a1: "squeeze_word bld (int ?k) (int (i mod 64)) (m_words a) = Inr a1"
    "arr_rep Trivial a1 ws1" "closed_up ws i ?k ws1"
    by (rule squeeze_word_rep [OF ws(1) k assms(3)])
  define m where "m = n div 64 - ?k"
  have m: "?k + m = n div 64" "?k + m < length ws"
    using assms(2) n ws(2) unfolding m_def words_for_def by (simp_all add: div_le_mono less_Suc_eq_le)
  have "i < 64 * Suc ?k" using mult_div_mod_eq [of 64 i] mod_less_divisor [of 64 i] by simp
  then obtain a2 ws2 where a2: "fold_res (cascade_step bld) [Suc ?k..<Suc ?k + m] a1 = Inr a2"
    "arr_rep Trivial a2 ws2" "closed_up ws i (?k + m) ws2"
    using cascade_loop [OF a1(2,3) m(2)] by blast
  have bits: "wbit ws2 j \<longleftrightarrow> j < n \<and> ?ys ! j" for j
  proof -
    have c: "wbit ws2 j = (if j < i then wbit ws j else if j < 64 * (n div 64) + 63 then wbit ws (Suc j)
         else if j = 64 * (n div 64) + 63 then False else wbit ws j)"
      using a2(3) m(1) by (simp add: closed_up_def)
    have "n < 64 * (n div 64) + 64" using mult_div_mod_eq [of 64 n] mod_less_divisor [of 64 n] by linarith
    then have far: "n \<le> j" if "\<not> j < 64 * (n div 64) + 63" using that by linarith
    have "?ys ! j = (if j < i then xs ! j else xs ! Suc j)" if "j < n"
      using that assms(2) n by (simp add: nth_append)
    moreover have "wbit ws j \<longleftrightarrow> j < Suc n \<and> xs ! j" "wbit ws (Suc j) \<longleftrightarrow> j < n \<and> xs ! Suc j"
      using ws(3) [of j] ws(3) [of "Suc j"] n by simp_all
    moreover have "i \<le> n" using assms(2) n by simp
    ultimately show ?thesis using c far
      by (cases "j < 64 * (n div 64) + 63"; cases "j < i"; cases "j < n") auto
  qed
  have nb: "int n < 2 ^ 31 - 63" using ws(5) n by simp
  obtain a3 ws3 where a3: "shrink_words bld (int n) a2 = Inr a3"
    "arr_rep Trivial a3 ws3" "length ws3 = words_for n" "\<And>j. wbit ws3 j = wbit ws2 j"
  proof (rule shrink_words_rep [OF a2(2) _ nb])
    show "length ws2 = words_for (Suc n)" using a2(3) ws(2) n by (simp add: closed_up_def)
  qed (use bits in auto)
  obtain a4 ws4 where a4: "NormalizeTrailingBits bld \<lparr> m_words = a3, m_numBits = int n \<rparr> =
      Inr \<lparr> m_words = a4, m_numBits = int n \<rparr>" "arr_rep Trivial a4 ws4" "length ws4 = words_for n"
    "\<And>j. wbit ws4 j \<longleftrightarrow> wbit ws3 j \<and> j < n"
  proof (cases "n = 0")
    case True
    then show ?thesis using that [of a3 ws3] a3 by (simp add: NormalizeTrailingBits_def wbit_def)
  next
    case False
    then have "0 < n" by simp
    from NormalizeTrailingBits_rep [OF a3(2,3) this] a3(3) that show ?thesis by metis
  qed
  have last: "m_numBits a - 1 = int n" using ws(4) n by simp
  then have "(m_numBits a - 1) sdiv 64 = int (?k + m)" by (simp only: sdiv_nat m(1))
  moreover have "nat (int u + 1) = Suc u" for u by simp
  ultimately have idx: "nat (int ?k + 1) = Suc ?k" "nat ((m_numBits a - 1) sdiv 64 + 1) = Suc ?k + m"
    by (simp_all only: add_Suc)
  have "Bits_RemoveAt bld (int i) a = Inr \<lparr> m_words = a4, m_numBits = int n \<rparr>"
    using assms(2) ws(4)
    unfolding Bits_RemoveAt_def Let_def BitsPerWord_def sdiv_nat smod_nat idx a1(1) rbind_Inr a2(1)
    unfolding last a3(1) rbind_Inr bits_upd a4(1)
    by (simp add: acheck_def Bits_IsValidIndex_def)
  moreover have "bits_rep \<lparr> m_words = a4, m_numBits = int n \<rparr> ?ys"
    by (rule bits_repI [OF a4(2)]) (use a4(3,4) a3(4) bits len nb in auto)
  ultimately show ?thesis by (rule that)
qed


section \<open>Filling, clearing and copying\<close>

lemma ctor_bits: "bits_rep TBitArray_ctor []"
  by (simp add: bits_rep_def TBitArray_ctor_def wbit_def ctor_rep exI [of _ "[]"])

lemma Bits_Reset_rep:
  assumes "bits_rep a xs" "int n < 2 ^ 31 - 63"
  obtains a' where "Bits_Reset (int n) a = Inr a'" "bits_rep a' []"
proof -
  obtain ws where ws: "arr_rep Trivial (m_words a) ws" using assms(1) by (auto simp: bits_rep_def)
  have "int (words_for n) < 2 ^ 31" using assms(2) by (simp add: words_for_def)
  then obtain w where "Reset Trivial (int (words_for n)) (m_words a) = Inr w" "arr_rep Trivial w []"
    by (rule Reset_rep [OF ws])
  moreover have "bits_rep \<lparr> m_words = w, m_numBits = 0 \<rparr> []" if "arr_rep Trivial w []" for w
    using bits_repI [OF that, of "[]" 0] by (simp add: wbit_def)
  ultimately show ?thesis using that BitsToWords_nat [OF assms(2)]
    by (simp add: Bits_Reset_def bits_upd)
qed

lemma Bits_Reserve_rep:
  assumes "bits_rep a xs" "int n < 2 ^ 31 - 63"
  obtains a' where "Bits_Reserve bld (int n) a = Inr a'" "bits_rep a' xs"
proof -
  obtain ws where ws: "arr_rep Trivial (m_words a) ws" "length ws = words_for (length xs)"
    "\<And>i. wbit ws i \<longleftrightarrow> i < length xs \<and> xs ! i" "m_numBits a = int (length xs)"
    "int (length xs) < 2 ^ 31 - 63" by (rule bits_repE [OF assms(1)]) blast
  have "0 \<le> int (words_for n)" "int (words_for n) < 2 ^ 31" using assms(2) by (simp_all add: words_for_def)
  then obtain w where w: "Reserve bld Trivial (int (words_for n)) (m_words a) = Inr w" "arr_rep Trivial w ws"
    by (rule Reserve_rep [OF ws(1)])
  show ?thesis
  proof (cases "int (words_for n) > m_max (m_words a)")
    case True
    then have "Bits_Reserve bld (int n) a = Inr \<lparr> m_words = w, m_numBits = m_numBits a \<rparr>"
      using w(1) BitsToWords_nat [OF assms(2)] by (cases a) (simp add: Bits_Reserve_def acheck_def)
    then show ?thesis using bits_repI [OF w(2) ws(2,3,4,5)] by (rule that)
  next
    case False
    then have "Bits_Reserve bld (int n) a = Inr a"
      using BitsToWords_nat [OF assms(2)] by (simp add: Bits_Reserve_def acheck_def)
    then show ?thesis using assms(1) by (rule that)
  qed
qed

lemma fill_loop:
  "arr_rep Trivial a ws \<Longrightarrow> length ws + n < 2 ^ 31 - 1 \<Longrightarrow>
   \<exists>a'. fold_res (\<lambda>_. add_word w) [k..<k + n] a = Inr a' \<and> arr_rep Trivial a' (ws @ replicate n w)"
proof (induction n arbitrary: k a ws)
  case 0
  then show ?case by auto
next
  case (Suc n)
  obtain a1 where a1: "add_word w a = Inr a1" "arr_rep Trivial a1 (ws @ [w])"
    by (rule add_word_rep [OF Suc.prems(1)]) (use Suc.prems(2) in simp)
  have "[k..<k + Suc n] = k # [Suc k..<Suc k + n]" by (simp add: upt_rec)
  with a1 Suc.IH [OF a1(2), of "Suc k"] Suc.prems(2) show ?case by auto
qed

lemma Bits_Init_rep:
  assumes "bits_rep a xs" "int n < 2 ^ 31 - 63"
  obtains a' where "Bits_Init bld v (int n) a = Inr a'" "bits_rep a' (replicate n v)"
proof -
  obtain ws where ws: "arr_rep Trivial (m_words a) ws" using assms(1) by (auto simp: bits_rep_def)
  obtain w0 where w0: "Reset Trivial 0 (m_words a) = Inr w0" "arr_rep Trivial w0 []"
    by (rule Reset_rep [OF ws, of 0]) auto
  show ?thesis
  proof (cases "n = 0")
    case True
    have "bits_rep \<lparr> m_words = w0, m_numBits = 0 \<rparr> []"
      using bits_repI [OF w0(2), of "[]" 0] by (simp add: wbit_def)
    with True w0(1) that show ?thesis by (simp add: Bits_Init_def acheck_def bits_upd)
  next
    case False
    let ?k = "words_for n" and ?fill = "if v then NOT 0 else 0 :: u64"
    have k: "0 \<le> int ?k" "int ?k < 2 ^ 31" using assms(2) by (simp_all add: words_for_def)
    obtain w1 where w1: "Reserve bld Trivial (int ?k) w0 = Inr w1" "arr_rep Trivial w1 []"
      by (rule Reserve_rep [OF w0(2) k])
    have "length ([] :: u64 list) + ?k < 2 ^ 31 - 1" using assms(2) by (simp add: words_for_def)
    from fill_loop [OF w1(2) this, of ?fill 0] obtain w2 where
      w2: "fold_res (\<lambda>_. add_word ?fill) [0..<?k] w1 = Inr w2" "arr_rep Trivial w2 (replicate ?k ?fill)"
      by auto
    obtain w3 ws3 where w3: "NormalizeTrailingBits bld \<lparr> m_words = w2, m_numBits = int n \<rparr> =
        Inr \<lparr> m_words = w3, m_numBits = int n \<rparr>" "arr_rep Trivial w3 ws3"
      "length ws3 = length (replicate ?k ?fill)"
      "\<And>i. wbit ws3 i \<longleftrightarrow> wbit (replicate ?k ?fill) i \<and> i < n"
      by (rule NormalizeTrailingBits_rep [OF w2(2), of n bld]) (use False in auto)
    have run: "Bits_Init bld v (int n) a = Inr \<lparr> m_words = w3, m_numBits = int n \<rparr>"
      using False w0(1) w1(1) w2(1) w3(1) BitsToWords_nat [OF assms(2)]
      by (simp add: Bits_Init_def acheck_def bits_upd Let_def)
    have fill: "wbit ws3 i \<longleftrightarrow> i < n \<and> v" for i
    proof -
      have "i div 64 < ?k" if "i < n" using word_in_range [of i "replicate n v"] that by simp
      then show ?thesis by (auto simp: w3(4) wbit_replicate bit_simps)
    qed
    have "bits_rep \<lparr> m_words = w3, m_numBits = int n \<rparr> (replicate n v)"
      by (rule bits_repI [OF w3(2)]) (use assms(2) in \<open>simp_all add: fill w3(3) cong: conj_cong\<close>)
    with run show ?thesis by (rule that)
  qed
qed

lemma Bits_copy_ctor_rep:
  assumes "bits_rep src ys"
  obtains a' where "Bits_copy_ctor src = Inr a'" "bits_rep a' ys"
proof -
  obtain ws where ws: "arr_rep Trivial (m_words src) ws" "length ws = words_for (length ys)"
    "\<And>i. wbit ws i \<longleftrightarrow> i < length ys \<and> ys ! i" "m_numBits src = int (length ys)"
    "int (length ys) < 2 ^ 31 - 63" by (rule bits_repE [OF assms(1)]) blast
  obtain w where "TArray_copy_ctor Trivial (m_words src) = Inr w" "arr_rep Trivial w ws"
    by (rule TArray_copy_ctor_rep [OF ws(1)])
  with bits_repI [OF _ ws(2,3,4,5)] that show ?thesis by (simp add: Bits_copy_ctor_def)
qed

lemma Bits_copy_assign_rep:
  assumes "bits_rep a xs" "bits_rep src ys"
  obtains a' where "Bits_copy_assign (Some src) a = Inr a'" "bits_rep a' ys"
proof -
  obtain vs where vs: "arr_rep Trivial (m_words a) vs" using assms(1) by (auto simp: bits_rep_def)
  obtain ws where ws: "arr_rep Trivial (m_words src) ws" "length ws = words_for (length ys)"
    "\<And>i. wbit ws i \<longleftrightarrow> i < length ys \<and> ys ! i" "m_numBits src = int (length ys)"
    "int (length ys) < 2 ^ 31 - 63" by (rule bits_repE [OF assms(2)]) blast
  obtain w where "TArray_copy_assign Trivial (Other (m_words src)) (m_words a) = Inr w" "arr_rep Trivial w ws"
    by (rule TArray_copy_assign_rep [OF vs, where rhs = "Other (m_words src)" and ys = ws]) (use ws(1) in auto)
  with bits_repI [OF _ ws(2,3,4,5)] that show ?thesis by (simp add: Bits_copy_assign_def bits_upd)
qed

lemma Bits_move_assign_rep:
  assumes "bits_rep a xs" "bits_rep src ys"
  obtains a' src' where "Bits_move_assign (Some src) a = Inr (a', Some src')"
    "bits_rep a' ys" "bits_rep src' []"
proof -
  obtain vs where vs: "arr_rep Trivial (m_words a) vs" using assms(1) by (auto simp: bits_rep_def)
  obtain ws where ws: "arr_rep Trivial (m_words src) ws" "length ws = words_for (length ys)"
    "\<And>i. wbit ws i \<longleftrightarrow> i < length ys \<and> ys ! i" "m_numBits src = int (length ys)"
    "int (length ys) < 2 ^ 31 - 63" by (rule bits_repE [OF assms(2)]) blast
  obtain w o1 where w: "TArray_move_assign Trivial (Other (m_words src)) (m_words a) = Inr (w, Other o1)"
    "arr_rep Trivial w ws" "arr_rep Trivial o1 []"
    by (rule TArray_move_assign_rep [OF vs ws(1)])
  have "bits_rep \<lparr> m_words = o1, m_numBits = 0 \<rparr> []"
    using bits_repI [OF w(3), of "[]" 0] by (simp add: wbit_def)
  with w(1) bits_repI [OF w(2) ws(2,3,4,5)] that show ?thesis
    by (simp add: Bits_move_assign_def bits_upd)
qed

end
