(* ===== verification/TBitArrayTheorems.thy ===== *)
theory TBitArrayTheorems
  imports TBitArrayProps
begin

text \<open>
  Searching and counting in a \<open>TBitArray\<close>, runs of its operations as runs on lists of
  booleans, and the bit that \<open>RemoveAt\<close> cannot remove.
\<close>

section \<open>Searching\<close>

lemma ctz_first:
  assumes "w \<noteq> (0 :: u64)"
  defines "c \<equiv> length (takeWhile (\<lambda>i. \<not> bit w i) [0..<64])"
  shows "c < 64" "bit w c" "\<And>m. m < c \<Longrightarrow> \<not> bit w m"
proof -
  let ?l = "takeWhile (\<lambda>i. \<not> bit w i) [0..<64]"
  obtain i where i: "bit w i" using assms(1) by (metis bit_eqI bit_0_eq bot_apply bot_bool_def)
  then have "i < 64" using bit_imp_le_length [of w i] by simp
  with i have "?l \<noteq> [0..<64]" by (auto simp: takeWhile_eq_all_conv)
  then show c: "c < 64"
    using length_takeWhile_le [of "\<lambda>i. \<not> bit w i" "[0..<64]"] takeWhile_eq_take [of "\<lambda>i. \<not> bit w i" "[0..<64]"]
    by (metis c_def diff_zero length_upt nat_less_le take_all_iff)
  then show "bit w c" using nth_length_takeWhile [of "\<lambda>i. \<not> bit w i" "[0..<64]"] by (simp add: c_def)
  show "\<not> bit w m" if "m < c" for m
  proof -
    have "?l ! m = m" using that c takeWhile_nth [of m "\<lambda>i. \<not> bit w i" "[0..<64]"] by (simp add: c_def)
    moreover have "?l ! m \<in> set ?l" using that by (simp add: c_def)
    ultimately show ?thesis by (auto dest: set_takeWhileD)
  qed
qed

definition found :: "bool \<Rightarrow> nat \<Rightarrow> bool list \<Rightarrow> int \<Rightarrow> bool" where
  "found v s xs r \<longleftrightarrow>
     (if \<exists>i \<in> {s..<length xs}. xs ! i = v
      then \<exists>i. r = int i \<and> s \<le> i \<and> i < length xs \<and> xs ! i = v \<and> (\<forall>j. s \<le> j \<and> j < i \<longrightarrow> xs ! j \<noteq> v)
      else r = INDEX_NONE)"

lemma found_skip:
  assumes "found v s' xs r" "s \<le> s'" "\<And>j. s \<le> j \<Longrightarrow> j < s' \<Longrightarrow> j < length xs \<Longrightarrow> xs ! j \<noteq> v"
  shows "found v s xs r"
proof -
  have ex: "(\<exists>i \<in> {s..<length xs}. xs ! i = v) \<longleftrightarrow> (\<exists>i \<in> {s'..<length xs}. xs ! i = v)"
    using assms(2,3) by (meson atLeastLessThan_iff le_trans not_le)
  show ?thesis
  proof (cases "\<exists>i \<in> {s'..<length xs}. xs ! i = v")
    case True
    with assms(1) obtain i where i: "r = int i" "s' \<le> i" "i < length xs" "xs ! i = v"
      "\<forall>j. s' \<le> j \<and> j < i \<longrightarrow> xs ! j \<noteq> v" by (auto simp: found_def)
    have "\<forall>j. s \<le> j \<and> j < i \<longrightarrow> xs ! j \<noteq> v" using assms(3) i(3,5) by (metis le_trans less_trans not_le)
    with True ex i assms(2) show ?thesis unfolding found_def by auto
  next
    case False
    with ex assms(1) show ?thesis by (auto simp: found_def)
  qed
qed

lemma found_first:
  assumes "s \<le> g" "\<And>j. s \<le> j \<Longrightarrow> j < g \<Longrightarrow> j < length xs \<Longrightarrow> xs ! j \<noteq> v"
    and "g < length xs \<Longrightarrow> xs ! g = v"
  shows "found v s xs (if int g < int (length xs) then int g else INDEX_NONE)"
proof (cases "g < length xs")
  case True
  note hit = assms(3) [OF True]
  have "xs ! j \<noteq> v" if "s \<le> j \<and> j < g" for j using assms(2) [of j] that True by auto
  with hit True assms(1)
  have "\<exists>i. int g = int i \<and> s \<le> i \<and> i < length xs \<and> xs ! i = v \<and> (\<forall>j. s \<le> j \<and> j < i \<longrightarrow> xs ! j \<noteq> v)"
    by blast
  moreover have "\<exists>i \<in> {s..<length xs}. xs ! i = v"
    by (rule bexI [where x = g]) (use hit True assms(1) in simp_all)
  ultimately show ?thesis using True by (simp add: found_def)
next
  case False
  have "xs ! i \<noteq> v" if "i \<in> {s..<length xs}" for i using assms(2) [of i] that False by auto
  then have "\<not> (\<exists>i \<in> {s..<length xs}. xs ! i = v)" by blast
  with False show ?thesis by (simp add: found_def)
qed

text \<open>The search in one word, from bit \<open>b\<close> on.\<close>

lemma hit_found:
  assumes "m_numBits a = int (length xs)" "Word \<noteq> 0"
    and "\<And>m. m < 64 \<Longrightarrow> bit Word m \<longleftrightarrow> b \<le> m \<and> bit (W :: u64) m"
    and "\<And>m. m < 64 \<Longrightarrow> 64 * k + m < length xs \<Longrightarrow> bit W m \<longleftrightarrow> xs ! (64 * k + m) = v"
  shows "\<exists>r. hit bld a (int k) Word = Inr r \<and> found v (64 * k + b) xs r"
proof -
  define c where "c = length (takeWhile (\<lambda>i. \<not> bit Word i) [0..<64])"
  note c = ctz_first [OF assms(2), folded c_def]
  have "hit bld a (int k) Word =
      Inr (if int (64 * k + c) < int (length xs) then int (64 * k + c) else INDEX_NONE)"
    using assms(1,2)
    by (simp add: hit_def CountTrailingZeros64_def acheck_def BitsPerWord_def c_def mult.commute)
  moreover have "found v (64 * k + b) xs
      (if int (64 * k + c) < int (length xs) then int (64 * k + c) else INDEX_NONE)"
  proof (rule found_first)
    show "64 * k + b \<le> 64 * k + c" using c(1,2) assms(3) [of c] by simp
    show "xs ! j \<noteq> v" if "64 * k + b \<le> j" "j < 64 * k + c" "j < length xs" for j
    proof -
      define m where "m = j - 64 * k"
      have m: "j = 64 * k + m" "m < c" "b \<le> m" using that by (simp_all add: m_def)
      with c(1,3) assms(3) [of m] assms(4) [of m] that(3) show ?thesis by auto
    qed
    show "xs ! (64 * k + c) = v" if "64 * k + c < length xs"
      using c(1,2) assms(3) [of c] assms(4) [of c] that by simp
  qed
  ultimately show ?thesis by blast
qed

lemma no_hit:
  assumes "\<And>m. m < 64 \<Longrightarrow> b \<le> m \<Longrightarrow> \<not> bit (W :: u64) m"
    and "\<And>m. m < 64 \<Longrightarrow> 64 * k + m < length xs \<Longrightarrow> bit W m \<longleftrightarrow> xs ! (64 * k + m) = v"
    and "64 * k + b \<le> j" "j < 64 * Suc k" "j < length xs"
  shows "xs ! j \<noteq> v"
proof -
  define m where "m = j - 64 * k"
  have m: "j = 64 * k + m" "m < 64" "b \<le> m" using assms(3,4) by (simp_all add: m_def)
  with assms(1) [of m] assms(2) [of m] assms(5) show ?thesis by simp
qed

lemma scan_found:
  assumes "arr_rep Trivial (m_words a) ws" "m_numBits a = int (length xs)"
    "length xs \<le> 64 * length ws"
    and "\<And>k m. k < length ws \<Longrightarrow> m < 64 \<Longrightarrow> 64 * k + m < length xs \<Longrightarrow>
           bit (view (ws ! k)) m \<longleftrightarrow> xs ! (64 * k + m) = v"
    and "k \<le> length ws"
  shows "\<exists>r. scan_words bld view a [k..<length ws] = Inr r \<and> found v (64 * k) xs r"
  using assms(5)
proof (induction "length ws - k" arbitrary: k)
  case 0
  with assms(3) show ?case by (auto simp: found_def)
next
  case (Suc n)
  then have k: "k < length ws" by simp
  have upt: "[k..<length ws] = k # [Suc k..<length ws]" using k by (simp add: upt_conv_Cons)
  note word = assms(4) [OF k]
  show ?case
  proof (cases "view (ws ! k) = 0")
    case True
    have "n = length ws - Suc k" "Suc k \<le> length ws" using Suc.hyps(2) k by simp_all
    from Suc.hyps(1) [OF this] obtain r where
      r: "scan_words bld view a [Suc k..<length ws] = Inr r" "found v (64 * Suc k) xs r" by blast
    have "found v (64 * k) xs r"
    proof (rule found_skip [OF r(2)])
      show "xs ! j \<noteq> v" if "64 * k \<le> j" "j < 64 * Suc k" "j < length xs" for j
        using no_hit [of 0 "view (ws ! k)" k xs v j] True word that by simp
    qed simp
    with r(1) True k show ?thesis unfolding upt by (simp add: index_word [OF assms(1)])
  next
    case False
    obtain r where "hit bld a (int k) (view (ws ! k)) = Inr r" "found v (64 * k + 0) xs r"
      using hit_found [OF assms(2) False, of 0 "view (ws ! k)" k v bld] word by auto
    with False k show ?thesis unfolding upt by (simp add: index_word [OF assms(1)])
  qed
qed

lemma find_first_rep:
  assumes "bits_rep a xs" "\<And>w m. m < 64 \<Longrightarrow> bit (view w) m \<longleftrightarrow> bit w m = v"
  shows "\<exists>r. find_first bld view (int s) a = Inr r \<and> found v s xs r"
proof (cases "s < length xs")
  case False
  then have "find_first bld view (int s) a = Inr INDEX_NONE"
    using assms(1) by (simp add: find_first_def bits_rep_def)
  moreover have "found v s xs INDEX_NONE" using False by (simp add: found_def)
  ultimately show ?thesis by blast
next
  case True
  obtain ws where ws: "arr_rep Trivial (m_words a) ws" "length ws = words_for (length xs)"
    "\<And>i. wbit ws i \<longleftrightarrow> i < length xs \<and> xs ! i" "m_numBits a = int (length xs)"
    "int (length xs) < 2 ^ 31 - 63" by (rule bits_repE [OF assms(1)]) blast
  let ?k = "s div 64" and ?b = "s mod 64"
  have k: "?k < length ws" using word_in_range [OF True] ws(2) by simp
  have cover: "length xs \<le> 64 * length ws" unfolding ws(2) words_for_def by linarith
  have num: "m_num (m_words a) = int (length ws)" using ws(1) by (simp add: arr_rep_def)
  have word: "bit (view (ws ! k)) m \<longleftrightarrow> xs ! (64 * k + m) = v"
    if "k < length ws" "m < 64" "64 * k + m < length xs" for k m
  proof -
    have "wbit ws (64 * k + m) = bit (ws ! k) m" using that by (simp add: wbit_def)
    with ws(3) [of "64 * k + m"] that assms(2) [of m "ws ! k"] show ?thesis by auto
  qed
  define Word where "Word = (if ?b = 0 then view (ws ! ?k) else view (ws ! ?k) AND NOT (mask ?b))"
  have start: "s = 64 * ?k + ?b" by simp
  have bits: "bit Word m \<longleftrightarrow> ?b \<le> m \<and> bit (view (ws ! ?k)) m" if "m < 64" for m
    using that by (auto simp: Word_def bit_simps not_less)
  have sel: "(if int ?b > 0 then rbind (LowBitsMask bld (int ?b)) (\<lambda>m. Inr (view (ws ! ?k) AND NOT m))
      else Inr (view (ws ! ?k))) = Inr Word"
    by (simp add: Word_def LowBitsMask_nat)
  have nat1: "nat (int ?k) + 1 = Suc ?k" by simp
  have "\<not> int s < 0" "\<not> int (length xs) \<le> int s" "int (length ws) \<noteq> 0" using True k by auto
  then have run: "find_first bld view (int s) a =
      (if Word \<noteq> 0 then hit bld a (int ?k) Word else scan_words bld view a [Suc ?k..<length ws])"
    unfolding find_first_def Let_def BitsPerWord_def ws(4) num
    by (simp only: if_False sdiv_nat smod_nat index_word [OF ws(1) k] rbind_Inr sel nat1 nat_int Suc_eq_plus1)
  show ?thesis
  proof (cases "Word = 0")
    case True
    obtain r where r: "scan_words bld view a [Suc ?k..<length ws] = Inr r" "found v (64 * Suc ?k) xs r"
      using scan_found [OF ws(1,4) cover word, of "Suc ?k" bld] k by auto
    have "found v s xs r"
    proof (rule found_skip [OF r(2)])
      show "s \<le> 64 * Suc ?k" using start mod_less_divisor [of 64 s] by simp
      have none: "\<not> bit (view (ws ! ?k)) m" if "m < 64" "?b \<le> m" for m
        using bits [OF that(1)] that(2) True by simp
      show "xs ! j \<noteq> v" if "s \<le> j" "j < 64 * Suc ?k" "j < length xs" for j
        using no_hit [of ?b "view (ws ! ?k)" ?k xs v j] none word [OF k] that start by simp
    qed
    with r(1) run True show ?thesis by simp
  next
    case False
    have "\<exists>r. hit bld a (int ?k) Word = Inr r \<and> found v (64 * ?k + ?b) xs r"
      by (rule hit_found [OF ws(4) False bits word [OF k]])
    with run False show ?thesis by simp
  qed
qed

section \<open>Counting\<close>

lemma PopCount64_card: "PopCount64 w = int (card {m. m < 64 \<and> bit w m})"
proof -
  have "length (filter (bit w) [0..<64]) = card (set (filter (bit w) [0..<64]))"
    by (rule distinct_card [symmetric]) simp
  also have "set (filter (bit w) [0..<64]) = {m. m < 64 \<and> bit w m}" by auto
  finally show ?thesis by (simp add: PopCount64_def)
qed

lemma count_loop:
  assumes "arr_rep Trivial (m_words a) ws" "k \<le> length ws"
  shows "fold_res (\<lambda>W Total. rbind (index_op bld (int W) (m_words a)) (\<lambda>w. Inr (Total + PopCount64 w)))
     [0..<k] 0 = Inr (int (card {i. i < 64 * k \<and> wbit ws i}))"
  using assms(2)
proof (induction k)
  case 0
  then show ?case by simp
next
  case (Suc k)
  let ?A = "{i. i < 64 * k \<and> wbit ws i}" and ?B = "(\<lambda>m. 64 * k + m) ` {m. m < 64 \<and> bit (ws ! k) m}"
  have "{i. i < 64 * Suc k \<and> wbit ws i} = ?A \<union> ?B"
  proof (intro equalityI subsetI)
    fix i
    assume i: "i \<in> {i. i < 64 * Suc k \<and> wbit ws i}"
    show "i \<in> ?A \<union> ?B"
    proof (cases "i < 64 * k")
      case False
      then have d: "i div 64 = k" using i by (simp add: div_nat_eqI)
      then have "i = 64 * k + i mod 64" using mult_div_mod_eq [of 64 i] by simp
      with i d show ?thesis by (auto simp: wbit_def)
    qed (use i in simp)
  next
    fix i
    assume "i \<in> ?A \<union> ?B"
    with Suc.prems show "i \<in> {i. i < 64 * Suc k \<and> wbit ws i}" by (auto simp: wbit_def)
  qed
  moreover have "card (?A \<union> ?B) = card ?A + card ?B" by (rule card_Un_disjoint) auto
  moreover have "card ?B = card {m. m < 64 \<and> bit (ws ! k) m}" by (rule card_image) (simp add: inj_on_def)
  ultimately have "int (card {i. i < 64 * Suc k \<and> wbit ws i}) = int (card ?A) + PopCount64 (ws ! k)"
    by (simp add: PopCount64_card)
  moreover have "index_op bld (int k) (m_words a) = Inr (ws ! k)"
    using index_word [OF assms(1)] Suc.prems by simp
  ultimately show ?case using Suc by (simp add: fold_res_snoc)
qed

lemma CountSetBits_rep:
  assumes "bits_rep a xs"
  shows "CountSetBits bld a = Inr (int (length (filter (\<lambda>b. b) xs)))"
proof -
  obtain ws where ws: "arr_rep Trivial (m_words a) ws" "length ws = words_for (length xs)"
    "\<And>i. wbit ws i \<longleftrightarrow> i < length xs \<and> xs ! i" "m_numBits a = int (length xs)"
    "int (length xs) < 2 ^ 31 - 63" by (rule bits_repE [OF assms(1)]) blast
  have num: "m_num (m_words a) = int (length ws)" using ws(1) by (simp add: arr_rep_def)
  have "length xs \<le> 64 * length ws" unfolding ws(2) words_for_def by linarith
  then have "{i. i < 64 * length ws \<and> wbit ws i} = {i. i < length xs \<and> xs ! i}"
    unfolding ws(3) by auto
  then have "int (card {i. i < 64 * length ws \<and> wbit ws i}) = int (length (filter (\<lambda>b. b) xs))"
    by (simp add: length_filter_conv_card)
  note total = trans [OF count_loop [OF ws(1) order_refl, of bld] this [THEN arg_cong, of Inr]]
  show ?thesis
  proof (cases "xs = []")
    case True
    with ws(4) show ?thesis by (simp add: CountSetBits_def Let_def)
  next
    case False
    then have "int (length ws) \<noteq> 0" "int (length xs) \<noteq> 0" using ws(2) by simp_all
    then show ?thesis using total
      by (simp only: CountSetBits_def Let_def num ws(4) simp_thms if_False nat_int)
  qed
qed

section \<open>The bit \<open>RemoveAt\<close> cannot remove\<close>

text \<open>
  For the last bit of a word the code shifts right by \<open>BitIdx + 1 = 64\<close>, which C++ leaves
  undefined.
\<close>

lemma RemoveAt_last_bit:
  assumes "bits_rep a xs" "i < length xs" "i mod 64 = 63"
  shows "Bits_RemoveAt bld (int i) a = Inl BadShift"
proof -
  obtain ws where ws: "arr_rep Trivial (m_words a) ws" "length ws = words_for (length xs)"
    "\<And>i. wbit ws i \<longleftrightarrow> i < length xs \<and> xs ! i" "m_numBits a = int (length xs)"
    "int (length xs) < 2 ^ 31 - 63" by (rule bits_repE [OF assms(1)]) blast
  have k: "i div 64 < length ws" using word_in_range [OF assms(2)] ws(2) by simp
  have "squeeze_word bld (int (i div 64)) (int (i mod 64)) (m_words a) = Inl BadShift"
    using index_word [OF ws(1) k] assms(3) LowBitsMask_nat [of 63 bld]
    by (simp add: squeeze_word_def shr_def)
  moreover have "Bits_IsValidIndex a (int i)" using assms(2) ws(4) by (simp add: Bits_IsValidIndex_def)
  ultimately show ?thesis
    unfolding Bits_RemoveAt_def Let_def BitsPerWord_def sdiv_nat smod_nat by (simp add: acheck_def)
qed

text \<open>
  A processor that takes the count modulo 64 computes, for the word \<open>w\<close> and \<open>BitIdx = 63\<close>,
  the value below: the removed bit is replaced by a copy of bit 0 of its own word.
\<close>

lemma shift_modulo_copies_bit_0:
  "bit ((w AND mask 63) OR push_bit 63 (drop_bit (64 mod 64) (w :: u64))) 63 \<longleftrightarrow> bit w 0"
  by (simp add: bit_simps)

section \<open>Runs\<close>

datatype bits_op = BInit bool nat | BAdd bool | BSet nat bool | BRemoveAt nat | BReset nat | BReserve nat

fun bits_step :: "build \<Rightarrow> bits_op \<Rightarrow> TBitArray \<Rightarrow> array_error + TBitArray" where
  "bits_step bld (BInit v n) a = Bits_Init bld v (int n) a"
| "bits_step bld (BAdd v) a = rbind (Bits_Add bld v a) (\<lambda>(i, a1). Inr a1)"
| "bits_step bld (BSet i v) a = Bits_Set bld (int i) v a"
| "bits_step bld (BRemoveAt i) a = Bits_RemoveAt bld (int i) a"
| "bits_step bld (BReset n) a = Bits_Reset (int n) a"
| "bits_step bld (BReserve n) a = Bits_Reserve bld (int n) a"

fun bits_spec :: "bits_op \<Rightarrow> bool list \<Rightarrow> bool list" where
  "bits_spec (BInit v n) xs = replicate n v"
| "bits_spec (BAdd v) xs = xs @ [v]"
| "bits_spec (BSet i v) xs = xs[i := v]"
| "bits_spec (BRemoveAt i) xs = take i xs @ drop (Suc i) xs"
| "bits_spec (BReset n) xs = []"
| "bits_spec (BReserve n) xs = xs"

fun bits_ok :: "bits_op \<Rightarrow> bool list \<Rightarrow> bool" where
  "bits_ok (BInit v n) xs \<longleftrightarrow> int n < 2 ^ 31 - 63"
| "bits_ok (BAdd v) xs \<longleftrightarrow> int (length xs) < 2 ^ 31 - 64"
| "bits_ok (BSet i v) xs \<longleftrightarrow> i < length xs"
| "bits_ok (BRemoveAt i) xs \<longleftrightarrow> i < length xs \<and> i mod 64 \<noteq> 63"
| "bits_ok (BReset n) xs \<longleftrightarrow> int n < 2 ^ 31 - 63"
| "bits_ok (BReserve n) xs \<longleftrightarrow> int n < 2 ^ 31 - 63"

lemma bits_op_refines:
  assumes "bits_rep a xs" "bits_ok x xs"
  shows "\<exists>a'. bits_step bld x a = Inr a' \<and> bits_rep a' (bits_spec x xs)"
proof (cases x)
  case (BInit v n)
  with Bits_Init_rep [OF assms(1), of n bld v] assms(2) show ?thesis by auto
next
  case (BAdd v)
  obtain a' where "Bits_Add bld v a = Inr (int (length xs), a')" "bits_rep a' (xs @ [v])"
    by (rule Bits_Add_rep [OF assms(1)]) (use BAdd assms(2) in simp)
  with BAdd show ?thesis by simp
next
  case (BSet i v)
  with Bits_Set_rep [OF assms(1), of i bld v] assms(2) show ?thesis by auto
next
  case (BRemoveAt i)
  with Bits_RemoveAt_rep [OF assms(1), of i bld] assms(2) show ?thesis by auto
next
  case (BReset n)
  with Bits_Reset_rep [OF assms(1), of n] assms(2) show ?thesis by auto
next
  case (BReserve n)
  with Bits_Reserve_rep [OF assms(1), of n bld] assms(2) show ?thesis by auto
qed

interpretation tbits: op_refinement bits_rep bits_ok "bits_step bld" bits_spec for bld
  by unfold_locales (rule bits_op_refines)

text \<open>
  C19: a bit array implements a list of booleans.  Any allowed sequence of operations runs to
  its end and leaves the array that represents the list the operations build; every bit reads
  back as the list's, the population count is the number of true ones, the two searches find
  the first true and the first false one from any start, and the only index \<open>RemoveAt\<close>
  cannot serve is the last bit of a word, where its shift is undefined.
\<close>

theorem bit_runs_refine_lists:
  assumes "allowed bits_ok bits_spec ops []" "xs = fold bits_spec ops []"
  shows "\<exists>a'. run_steps (bits_step bld) ops TBitArray_ctor = Inr a' \<and> bits_rep a' xs \<and>
     (\<forall>i < length xs. Bits_index bld (int i) a' = Inr (xs ! i)) \<and>
     CountSetBits bld a' = Inr (int (length (filter (\<lambda>b. b) xs))) \<and>
     (\<forall>s. \<exists>r. FindFirstSet bld (int s) a' = Inr r \<and> found True s xs r) \<and>
     (\<forall>s. \<exists>r. FindFirstClear bld (int s) a' = Inr r \<and> found False s xs r) \<and>
     (\<forall>i < length xs. Bits_RemoveAt bld (int i) a' = Inl BadShift \<longleftrightarrow> i mod 64 = 63)"
proof -
  obtain a' where a': "run_steps (bits_step bld) ops TBitArray_ctor = Inr a'" "bits_rep a' xs"
    using tbits.run_refines [OF ctor_bits assms(1)] assms(2) by blast
  have "Bits_RemoveAt bld (int i) a' = Inl BadShift \<longleftrightarrow> i mod 64 = 63" if "i < length xs" for i
  proof (cases "i mod 64 = 63")
    case True
    then show ?thesis using RemoveAt_last_bit [OF a'(2) that] by simp
  next
    case False
    from False obtain b where "Bits_RemoveAt bld (int i) a' = Inr b"
      using Bits_RemoveAt_rep [OF a'(2) \<open>i < length xs\<close>] by metis
    with False show ?thesis by simp
  qed
  moreover have "\<exists>r. FindFirstSet bld (int s) a' = Inr r \<and> found True s xs r" for s
    using find_first_rep [OF a'(2), of "\<lambda>w. w" True bld s] by (simp add: FindFirstSet_def)
  moreover have "\<exists>r. FindFirstClear bld (int s) a' = Inr r \<and> found False s xs r" for s
    using find_first_rep [OF a'(2), of NOT False bld s] by (simp add: FindFirstClear_def bit_simps)
  ultimately show ?thesis
    using a' Bits_index_rep [OF a'(2)] CountSetBits_rep [OF a'(2)] by auto
qed

theorem bit_runs_refine_lists_witness:
  "\<exists>a'. run_steps (bits_step Checked) [BInit True 70, BSet 3 False] TBitArray_ctor = Inr a' \<and>
     Bits_index Checked (int 3) a' = Inr False \<and> Bits_index Checked (int 69) a' = Inr True \<and>
     Bits_RemoveAt Checked (int 63) a' = Inl BadShift"
proof -
  let ?ops = "[BInit True 70, BSet 3 False]" and ?xs = "(replicate 70 True)[3 := False]"
  have ok: "allowed bits_ok bits_spec ?ops []" by simp
  have xs: "?xs = fold bits_spec ?ops []" by simp
  obtain a' where a': "run_steps (bits_step Checked) ?ops TBitArray_ctor = Inr a'"
    "\<forall>i < length ?xs. Bits_index Checked (int i) a' = Inr (?xs ! i)"
    "\<forall>i < length ?xs. Bits_RemoveAt Checked (int i) a' = Inl BadShift \<longleftrightarrow> i mod 64 = 63"
    using bit_runs_refine_lists [OF ok xs, of Checked] by blast
  have "length ?xs = 70" "?xs ! 3 = False" "?xs ! 69 = True" by simp_all
  with a' show ?thesis by (intro exI [of _ a']) (simp del: of_nat_numeral)
qed

end
