(* ===== verification/SwissTable.thy ===== *)
theory SwissTable
  imports TArrayCore
begin

text \<open>
  The open-addressed table that \<open>TSet<T>\<close> and \<open>TMap<K, V>\<close> share (\<open>Public/Containers/TSet.h\<close>;
  \<open>TMap.h\<close> repeats the code with \<open>PairType\<close> for \<open>T\<close> and the pair's key for the value).  A table
  is modelled for any element type with a projection \<open>key\<close> to what is hashed and compared:
  the identity for a set, the first component for a map.  \<open>GetTypeHash\<close> is a parameter \<open>h\<close> and
  \<open>operator==\<close> is equality of keys.  \<open>MallocOrAbort\<close> returns, so the sizes are natural numbers;
  where the code subtracts, a wrap-around is an error of the model.
\<close>

section \<open>Control bytes and sizes\<close>

definition kCtrlEmpty :: u8 where "kCtrlEmpty = 0x80"
definition kCtrlDeleted :: u8 where "kCtrlDeleted = 0xFE"
definition kCtrlSentinel :: u8 where "kCtrlSentinel = 0xFF"

definition kGroupSize :: nat where "kGroupSize = 16"
definition kMaxLoadFactorDenominator :: nat where "kMaxLoadFactorDenominator = 8"

definition H1 :: "u64 \<Rightarrow> u64" where "H1 Hash = drop_bit 7 Hash"
definition H2 :: "u64 \<Rightarrow> u8" where "H2 Hash = ucast (Hash AND 0x7F)"

definition IsFull :: "u8 \<Rightarrow> bool" where "IsFull C \<longleftrightarrow> C AND 0x80 = 0"
definition IsEmpty :: "u8 \<Rightarrow> bool" where "IsEmpty C \<longleftrightarrow> C = kCtrlEmpty"
definition IsDeleted :: "u8 \<Rightarrow> bool" where "IsDeleted C \<longleftrightarrow> C = kCtrlDeleted"
definition IsEmptyOrDeleted :: "u8 \<Rightarrow> bool" where "IsEmptyOrDeleted C \<longleftrightarrow> C \<ge> kCtrlEmpty"

definition CapacityToGrowAt :: "nat \<Rightarrow> nat" where
  "CapacityToGrowAt Capacity =
     (if Capacity = 0 then 0 else if Capacity = 1 then 1
      else Capacity - Capacity div kMaxLoadFactorDenominator)"

text \<open>\<open>while (Cap < DesiredCap) Cap <<= 1;\<close> is the doubling loop of the other buffers.\<close>

definition NormalizeCapacity :: "nat \<Rightarrow> nat" where
  "NormalizeCapacity DesiredCap =
     (if DesiredCap = 0 then 0 else if DesiredCap < kGroupSize then kGroupSize
      else grow_pow2 1 DesiredCap)"

definition AlignUp :: "u64 \<Rightarrow> u64 \<Rightarrow> u64" where
  "AlignUp V Align = (V + Align - 1) AND NOT (Align - 1)"

definition CtrlArrayBytes :: "nat \<Rightarrow> nat" where
  "CtrlArrayBytes Capacity = Capacity + kGroupSize"

definition SlotOffset :: "u64 \<Rightarrow> nat \<Rightarrow> u64" where
  "SlotOffset TAlign Capacity = AlignUp (of_nat (CtrlArrayBytes Capacity)) TAlign"

definition BackingBytes :: "u64 \<Rightarrow> u64 \<Rightarrow> nat \<Rightarrow> u64" where
  "BackingBytes TAlign TSize Capacity = SlotOffset TAlign Capacity + of_nat Capacity * TSize"

definition kEmptyGroupBytes :: "u8 list" where
  "kEmptyGroupBytes = replicate 16 kCtrlEmpty @ kCtrlSentinel # replicate 15 kCtrlEmpty"

section \<open>The table\<close>

record 'e swiss =
  m_ctrl :: "u8 list"
  m_slots :: "'e buffer"       \<comment> \<open>empty for \<open>nullptr\<close>\<close>
  m_size :: nat
  m_capacity :: nat
  m_growthLeft :: nat

definition Swiss_ctor :: "'e swiss" where
  "Swiss_ctor = \<lparr> m_ctrl = kEmptyGroupBytes, m_slots = [], m_size = 0, m_capacity = 0, m_growthLeft = 0 \<rparr>"

definition read_ctrl :: "nat \<Rightarrow> u8 list \<Rightarrow> array_error + u8" where
  "read_ctrl i c = (if i < length c then Inr (c ! i) else Inl Lifetime)"

definition write_ctrl :: "nat \<Rightarrow> u8 \<Rightarrow> u8 list \<Rightarrow> array_error + u8 list" where
  "write_ctrl i v c = (if i < length c then Inr (c[i := v]) else Inl Lifetime)"

definition WriteMirror :: "nat \<Rightarrow> nat \<Rightarrow> u8 \<Rightarrow> u8 list \<Rightarrow> array_error + u8 list" where
  "WriteMirror Capacity SlotIdx Val c =
     (if SlotIdx + 1 < kGroupSize then write_ctrl (Capacity + 1 + SlotIdx) Val c else Inr c)"

text \<open>\<open>memset\<close> to \<open>kCtrlEmpty\<close> and the sentinel behind the last slot\<close>

definition fresh_ctrl :: "nat \<Rightarrow> u8 list" where
  "fresh_ctrl Capacity = (replicate (Capacity + kGroupSize) kCtrlEmpty)[Capacity := kCtrlSentinel]"

definition unsigned_sub :: "nat \<Rightarrow> nat \<Rightarrow> array_error + nat" where
  "unsigned_sub a b = (if b \<le> a then Inr (a - b) else Inl IntOverflow)"

section \<open>Probing\<close>

text \<open>
  One group of the probe sequence: \<open>SlotIdx = (GroupStart + I) & Mask\<close>, for \<open>I\<close> from 0 to 15.
\<close>

definition group_slots :: "nat \<Rightarrow> nat \<Rightarrow> nat list" where
  "group_slots Mask GroupStart = map (\<lambda>I. (GroupStart + I) AND Mask) [0..<kGroupSize]"

definition first_group :: "u64 \<Rightarrow> nat \<Rightarrow> nat" where
  "first_group Hash Mask = unat (H1 Hash) AND Mask"

datatype find_result = FoundAt nat | NotThere | NextGroup

fun FindInGroup ::
  "('e \<Rightarrow> 'k) \<Rightarrow> 'e swiss \<Rightarrow> 'k \<Rightarrow> u8 \<Rightarrow> nat list \<Rightarrow> array_error + find_result" where
  "FindInGroup key s Value Tag [] = Inr NextGroup"
| "FindInGroup key s Value Tag (SlotIdx # rest) =
     rbind (read_ctrl SlotIdx (m_ctrl s)) (\<lambda>C.
       if C = Tag then
         rbind (read_cell SlotIdx (m_slots s)) (\<lambda>e.
           if key e = Value then Inr (FoundAt SlotIdx) else FindInGroup key s Value Tag rest)
       else if IsEmpty C then Inr NotThere
       else FindInGroup key s Value Tag rest)"

text \<open>
  The loop over \<open>ProbeStep\<close>: its last round is \<open>ProbeStep = m_capacity / kGroupSize\<close>.  \<open>None\<close> is
  the index \<open>-1\<close>.
\<close>

fun FindLoop ::
  "('e \<Rightarrow> 'k) \<Rightarrow> 'e swiss \<Rightarrow> 'k \<Rightarrow> u8 \<Rightarrow> nat list \<Rightarrow> nat \<Rightarrow> nat \<Rightarrow> array_error + nat option" where
  "FindLoop key s Value Tag [] GroupStart ProbeIndex = Inr None"
| "FindLoop key s Value Tag (ProbeStep # steps) GroupStart ProbeIndex =
     rbind (FindInGroup key s Value Tag (group_slots (m_capacity s - 1) GroupStart)) (\<lambda>r. case r of
         FoundAt i \<Rightarrow> Inr (Some i)
       | NotThere \<Rightarrow> Inr None
       | NextGroup \<Rightarrow>
           let ProbeIndex' = ProbeIndex + kGroupSize in
           FindLoop key s Value Tag steps ((GroupStart + ProbeIndex') AND (m_capacity s - 1)) ProbeIndex')"

definition probe_steps :: "nat \<Rightarrow> nat list" where
  "probe_steps Capacity = [0..<Suc (Capacity div kGroupSize)]"

definition FindIndex ::
  "('e \<Rightarrow> 'k) \<Rightarrow> ('k \<Rightarrow> u64) \<Rightarrow> 'k \<Rightarrow> 'e swiss \<Rightarrow> array_error + nat option" where
  "FindIndex key h Value s =
     (if m_capacity s = 0 then Inr None
      else FindLoop key s Value (H2 (h Value)) (probe_steps (m_capacity s))
             (first_group (h Value) (m_capacity s - 1)) 0)"

text \<open>
  The search of \<open>AddImpl\<close> remembers the first tombstone it passes: \<open>ins\<close> is \<open>InsertSlot\<close> with
  \<open>InsertSlotIsDeleted\<close>, \<open>None\<close> for \<open>-1\<close>.
\<close>

datatype add_result = Present nat | InsertAt nat bool | Passed "nat option"

fun AddInGroup ::
  "('e \<Rightarrow> 'k) \<Rightarrow> 'e swiss \<Rightarrow> 'k \<Rightarrow> u8 \<Rightarrow> nat list \<Rightarrow> nat option \<Rightarrow> array_error + add_result" where
  "AddInGroup key s Value Tag [] ins = Inr (Passed ins)"
| "AddInGroup key s Value Tag (SlotIdx # rest) ins =
     rbind (read_ctrl SlotIdx (m_ctrl s)) (\<lambda>C.
       if C = Tag then
         rbind (read_cell SlotIdx (m_slots s)) (\<lambda>e.
           if key e = Value then Inr (Present SlotIdx) else AddInGroup key s Value Tag rest ins)
       else if IsEmpty C then
         Inr (case ins of None \<Rightarrow> InsertAt SlotIdx False | Some j \<Rightarrow> InsertAt j True)
       else if IsDeleted C \<and> ins = None then AddInGroup key s Value Tag rest (Some SlotIdx)
       else AddInGroup key s Value Tag rest ins)"

fun AddLoop ::
  "('e \<Rightarrow> 'k) \<Rightarrow> 'e swiss \<Rightarrow> 'k \<Rightarrow> u8 \<Rightarrow> nat list \<Rightarrow> nat \<Rightarrow> nat \<Rightarrow> nat option \<Rightarrow>
     array_error + add_result" where
  "AddLoop key s Value Tag [] GroupStart ProbeIndex ins = Inr (Passed ins)"
| "AddLoop key s Value Tag (ProbeStep # steps) GroupStart ProbeIndex ins =
     rbind (AddInGroup key s Value Tag (group_slots (m_capacity s - 1) GroupStart) ins) (\<lambda>r. case r of
         Passed ins' \<Rightarrow>
           let ProbeIndex' = ProbeIndex + kGroupSize in
           AddLoop key s Value Tag steps ((GroupStart + ProbeIndex') AND (m_capacity s - 1)) ProbeIndex' ins'
       | _ \<Rightarrow> Inr r)"

definition AddProbe ::
  "('e \<Rightarrow> 'k) \<Rightarrow> ('k \<Rightarrow> u64) \<Rightarrow> 'k \<Rightarrow> 'e swiss \<Rightarrow> array_error + add_result" where
  "AddProbe key h Value s =
     AddLoop key s Value (H2 (h Value)) (probe_steps (m_capacity s))
       (first_group (h Value) (m_capacity s - 1)) 0 None"

text \<open>The insertion at the slot the search found\<close>

definition InsertInto ::
  "('e \<Rightarrow> 'k) \<Rightarrow> ('k \<Rightarrow> u64) \<Rightarrow> 'e \<Rightarrow> nat \<Rightarrow> bool \<Rightarrow> 'e swiss \<Rightarrow> array_error + 'e swiss" where
  "InsertInto key h e InsertSlot InsertSlotIsDeleted s =
     rbind (construct_cell NonTrivial InsertSlot e (m_slots s)) (\<lambda>slots.
     rbind (write_ctrl InsertSlot (H2 (h (key e))) (m_ctrl s)) (\<lambda>c1.
     rbind (WriteMirror (m_capacity s) InsertSlot (H2 (h (key e))) c1) (\<lambda>c2.
     rbind (if InsertSlotIsDeleted then Inr (m_growthLeft s) else unsigned_sub (m_growthLeft s) 1) (\<lambda>g.
     Inr (s \<lparr> m_slots := slots, m_ctrl := c2, m_size := m_size s + 1, m_growthLeft := g \<rparr>)))))"

definition EraseAt :: "nat \<Rightarrow> 'e swiss \<Rightarrow> array_error + 'e swiss" where
  "EraseAt Index s =
     rbind (destroy_cell Index (m_slots s)) (\<lambda>slots.
     rbind (write_ctrl Index kCtrlDeleted (m_ctrl s)) (\<lambda>c1.
     rbind (WriteMirror (m_capacity s) Index kCtrlDeleted c1) (\<lambda>c2.
     rbind (unsigned_sub (m_size s) 1) (\<lambda>n.
     Inr (s \<lparr> m_slots := slots, m_ctrl := c2, m_size := n \<rparr>)))))"

text \<open>\<open>if (IsFull(m_ctrl[I])) ~T()\<close> for every slot\<close>

definition destroy_if_full :: "u8 list \<Rightarrow> nat \<Rightarrow> 'e buffer \<Rightarrow> array_error + 'e buffer" where
  "destroy_if_full c I slots =
     rbind (read_ctrl I c) (\<lambda>C. if IsFull C then destroy_cell I slots else Inr slots)"

definition ClearAndDeallocate :: "'e swiss \<Rightarrow> array_error + 'e swiss" where
  "ClearAndDeallocate s =
     rbind (if m_capacity s > 0
            then rbind (fold_res (destroy_if_full (m_ctrl s)) [0..<m_capacity s] (m_slots s))
                   (Deallocate_cells NonTrivial)
            else Inr ()) (\<lambda>_. Inr Swiss_ctor)"

definition Swiss_Reset :: "'e swiss \<Rightarrow> array_error + 'e swiss" where
  "Swiss_Reset s =
     (if m_capacity s = 0 then Inr s
      else rbind (fold_res (destroy_if_full (m_ctrl s)) [0..<m_capacity s] (m_slots s)) (\<lambda>slots.
        Inr (s \<lparr> m_slots := slots, m_ctrl := fresh_ctrl (m_capacity s), m_size := 0,
                 m_growthLeft := CapacityToGrowAt (m_capacity s) \<rparr>)))"

section \<open>Rehashing\<close>

fun EmptyInGroup :: "u8 list \<Rightarrow> nat list \<Rightarrow> array_error + nat option" where
  "EmptyInGroup c [] = Inr None"
| "EmptyInGroup c (SlotIdx # rest) =
     rbind (read_ctrl SlotIdx c) (\<lambda>C. if IsEmpty C then Inr (Some SlotIdx) else EmptyInGroup c rest)"

text \<open>
  The probe of \<open>Rehash\<close> has no bound on its steps; \<open>None\<close> is a loop that never leaves.
\<close>

partial_function (option) RehashProbe ::
  "u8 list \<Rightarrow> nat \<Rightarrow> nat \<Rightarrow> nat \<Rightarrow> (array_error + nat) option" where
  "RehashProbe NewCtrl NewMask GroupStart ProbeIndex =
     (case EmptyInGroup NewCtrl (group_slots NewMask GroupStart) of
        Inl e \<Rightarrow> Some (Inl e)
      | Inr (Some i) \<Rightarrow> Some (Inr i)
      | Inr None \<Rightarrow>
          RehashProbe NewCtrl NewMask ((GroupStart + (ProbeIndex + kGroupSize)) AND NewMask)
            (ProbeIndex + kGroupSize))"

declare RehashProbe.simps [code]

definition returned :: "(array_error + 'a) option \<Rightarrow> array_error + 'a" where
  "returned r = (case r of None \<Rightarrow> Inl Hangs | Some x \<Rightarrow> x)"

record 'e rehash_state =
  new_ctrl :: "u8 list"
  new_slots :: "'e buffer"
  new_size :: nat
  old_slots :: "'e buffer"

definition rehash_step ::
  "('e \<Rightarrow> 'k) \<Rightarrow> ('k \<Rightarrow> u64) \<Rightarrow> nat \<Rightarrow> u8 list \<Rightarrow> nat \<Rightarrow> 'e rehash_state \<Rightarrow>
     array_error + 'e rehash_state" where
  "rehash_step key h NewCap ctrl OldIdx r =
     rbind (read_ctrl OldIdx ctrl) (\<lambda>C.
       if \<not> IsFull C then Inr r
       else
         rbind (read_cell OldIdx (old_slots r)) (\<lambda>e.
         rbind (returned (RehashProbe (new_ctrl r) (NewCap - 1)
                  (first_group (h (key e)) (NewCap - 1)) 0)) (\<lambda>InsertSlot.
         rbind (move_cell NonTrivial OldIdx (old_slots r)) (\<lambda>(x, old1).
         rbind (construct_cell NonTrivial InsertSlot x (new_slots r)) (\<lambda>slots.
         rbind (destroy_cell OldIdx old1) (\<lambda>old2.
         rbind (write_ctrl InsertSlot (H2 (h (key e))) (new_ctrl r)) (\<lambda>c1.
         rbind (WriteMirror NewCap InsertSlot (H2 (h (key e))) c1) (\<lambda>c2.
         Inr \<lparr> new_ctrl = c2, new_slots = slots, new_size = new_size r + 1, old_slots = old2 \<rparr>))))))))"

definition Rehash :: "('e \<Rightarrow> 'k) \<Rightarrow> ('k \<Rightarrow> u64) \<Rightarrow> nat \<Rightarrow> 'e swiss \<Rightarrow> array_error + 'e swiss" where
  "Rehash key h DesiredCap s =
     (let NewCap = NormalizeCapacity DesiredCap in
      if NewCap = 0 then ClearAndDeallocate s
      else
        rbind (fold_res (rehash_step key h NewCap (m_ctrl s)) [0..<m_capacity s]
                 \<lparr> new_ctrl = fresh_ctrl NewCap, new_slots = replicate NewCap Raw, new_size = 0,
                   old_slots = m_slots s \<rparr>) (\<lambda>r.
        rbind (Deallocate_cells NonTrivial (old_slots r)) (\<lambda>_.
        rbind (unsigned_sub (CapacityToGrowAt NewCap) (new_size r)) (\<lambda>g.
        Inr \<lparr> m_ctrl = new_ctrl r, m_slots = new_slots r, m_size = new_size r, m_capacity = NewCap,
              m_growthLeft = g \<rparr>))))"

text \<open>\<open>static_cast<int32>\<close> of a \<open>SIZE_T\<close>\<close>

definition to_i32 :: "nat \<Rightarrow> int" where
  "to_i32 n = sint (word_of_nat n :: 32 word)"

definition Swiss_Num :: "'e swiss \<Rightarrow> int" where "Swiss_Num s = to_i32 (m_size s)"
definition Swiss_Max :: "'e swiss \<Rightarrow> int" where "Swiss_Max s = to_i32 (m_capacity s)"

definition Swiss_Reserve ::
  "('e \<Rightarrow> 'k) \<Rightarrow> ('k \<Rightarrow> u64) \<Rightarrow> int \<Rightarrow> 'e swiss \<Rightarrow> array_error + 'e swiss" where
  "Swiss_Reserve key h MinCapacity s =
     (if MinCapacity \<le> 0 then Inr s
      else let Needed = nat MinCapacity; MinCap = (Needed * 8 + 6) div 7;
               NewCap = NormalizeCapacity MinCap
           in if NewCap > m_capacity s then Rehash key h NewCap s else Inr s)"

text \<open>The growth at the head of \<open>AddImpl\<close>\<close>

definition grow_for_add ::
  "('e \<Rightarrow> 'k) \<Rightarrow> ('k \<Rightarrow> u64) \<Rightarrow> 'e swiss \<Rightarrow> array_error + 'e swiss" where
  "grow_for_add key h s =
     (if m_growthLeft s = 0
      then Rehash key h (if m_capacity s = 0 then kGroupSize else m_capacity s * 2) s else Inr s)"

section \<open>Iteration\<close>

text \<open>
  An iterator is the index its control pointer stands at; the iterators of a table without
  storage are null.
\<close>

function SkipNonFull :: "'e swiss \<Rightarrow> nat \<Rightarrow> array_error + nat" where
  "SkipNonFull s i =
     (if i < length (m_ctrl s)
      then if m_ctrl s ! i \<noteq> kCtrlSentinel \<and> \<not> IsFull (m_ctrl s ! i) then SkipNonFull s (Suc i) else Inr i
      else Inl Lifetime)"
  by pat_completeness auto
termination by (relation "measure (\<lambda>(s, i). length (m_ctrl s) - i)") auto

declare SkipNonFull.simps [simp del]

definition Iter_begin :: "'e swiss \<Rightarrow> array_error + nat option" where
  "Iter_begin s =
     (if m_capacity s = 0 then Inr None else rbind (SkipNonFull s 0) (\<lambda>i. Inr (Some i)))"

definition Iter_end :: "'e swiss \<Rightarrow> array_error + nat option" where
  "Iter_end s =
     (if m_capacity s = 0 then Inr None else rbind (SkipNonFull s (m_capacity s)) (\<lambda>i. Inr (Some i)))"

definition Iter_next :: "'e swiss \<Rightarrow> nat \<Rightarrow> array_error + nat" where
  "Iter_next s i = SkipNonFull s (Suc i)"

definition Iter_deref :: "'e swiss \<Rightarrow> nat \<Rightarrow> array_error + 'e" where
  "Iter_deref s i = read_cell i (m_slots s)"

lemma SkipNonFull_bounds: "SkipNonFull s i = Inr j \<Longrightarrow> i \<le> j \<and> j < length (m_ctrl s)"
proof (induction s i rule: SkipNonFull.induct)
  case (1 s i)
  then show ?case by (auto simp: SkipNonFull.simps [of s i] split: if_splits)
qed

text \<open>The range-based loop: the elements at the iterators from \<open>begin()\<close> to \<open>end()\<close>\<close>

function walk_from :: "'e swiss \<Rightarrow> nat option \<Rightarrow> nat \<Rightarrow> array_error + 'e list" where
  "walk_from s stop i =
     (if Some i = stop then Inr []
      else rbind (Iter_deref s i) (\<lambda>e. case Iter_next s i of
          Inl err \<Rightarrow> Inl err
        | Inr j \<Rightarrow> rbind (walk_from s stop j) (\<lambda>es. Inr (e # es))))"
  by pat_completeness auto
termination
  by (relation "measure (\<lambda>(s, stop, i). length (m_ctrl s) - i)")
    (auto simp: Iter_next_def dest!: SkipNonFull_bounds)

declare walk_from.simps [simp del]

definition Range_for :: "'e swiss \<Rightarrow> array_error + 'e list" where
  "Range_for s = rbind (Iter_begin s) (\<lambda>first. rbind (Iter_end s) (\<lambda>stop.
     if first = stop then Inr []
     else case first of None \<Rightarrow> Inl Lifetime | Some i \<Rightarrow> walk_from s stop i))"

text \<open>The walk over the full slots by index, in the copies, \<open>Append\<close> and \<open>Array\<close>\<close>

definition visit_full ::
  "(nat \<Rightarrow> 'e \<Rightarrow> 's \<Rightarrow> array_error + 's) \<Rightarrow> 'e swiss \<Rightarrow> nat \<Rightarrow> 's \<Rightarrow> array_error + 's" where
  "visit_full f src I st =
     rbind (read_ctrl I (m_ctrl src)) (\<lambda>C.
       if IsFull C then rbind (read_cell I (m_slots src)) (\<lambda>e. f I e st) else Inr st)"

section \<open>Sorting\<close>

text \<open>
  \<open>SortAndRehash\<close>: \<open>std::sort\<close> with the caller's comparator is a parameter \<open>sorter\<close>; the
  elements are moved to a temporary buffer, sorted, and added again by \<open>add\<close>.
\<close>

definition take_if_full ::
  "u8 list \<Rightarrow> nat \<Rightarrow> 'e list \<times> 'e buffer \<Rightarrow> array_error + 'e list \<times> 'e buffer" where
  "take_if_full c I = (\<lambda>(Temp, slots).
     rbind (read_ctrl I c) (\<lambda>C.
       if IsFull C then
         rbind (move_cell NonTrivial I slots) (\<lambda>(x, slots1).
         rbind (destroy_cell I slots1) (\<lambda>slots2. Inr (Temp @ [x], slots2)))
       else Inr (Temp, slots)))"

definition SortAndRehash ::
  "build \<Rightarrow> ('e \<Rightarrow> 'e swiss \<Rightarrow> array_error + 'e swiss) \<Rightarrow> ('e list \<Rightarrow> 'e list) \<Rightarrow> 'e swiss \<Rightarrow>
     array_error + 'e swiss" where
  "SortAndRehash bld add sorter s =
     (let N = m_size s in
      if N \<le> 1 then Inr s
      else rbind (fold_res (take_if_full (m_ctrl s)) [0..<m_capacity s] ([], m_slots s)) (\<lambda>(Temp, slots).
        acheck bld (length Temp = N)
         (if length Temp \<noteq> N then Inl Lifetime
          else fold_res add (sorter Temp)
            (s \<lparr> m_slots := slots, m_ctrl := fresh_ctrl (m_capacity s), m_size := 0,
                 m_growthLeft := CapacityToGrowAt (m_capacity s) \<rparr>))))"

end
