(* ===== verification/SwissProps.thy ===== *)
theory SwissProps
  imports SwissTable
begin

text \<open>
  Why the table works: the triangular probe sequence reaches every slot, the invariant of the
  table and what the searches answer under it, and how insertion, removal and rehashing keep it.
\<close>

section \<open>Capacities\<close>

definition table_capacity :: "nat \<Rightarrow> bool" where
  "table_capacity cap \<longleftrightarrow> (\<exists>m. cap = 16 * 2 ^ m)"

lemma table_capacity_mask:
  assumes "table_capacity cap"
  shows "x AND (cap - 1) = x mod cap"
proof -
  from assms obtain m where "cap = 2 ^ (m + 4)" by (auto simp: table_capacity_def power_add)
  then show ?thesis by (simp add: take_bit_eq_mod [symmetric] take_bit_eq_mask mask_eq_exp_minus_1)
qed

lemmas table_capacity_mask' = table_capacity_mask [unfolded One_nat_def]

lemma table_capacity_pos: "table_capacity cap \<Longrightarrow> 16 \<le> cap"
  by (auto simp: table_capacity_def)

lemma grow_pow2_power: "\<exists>k. grow_pow2 (2 ^ m) n = 2 ^ k"
proof (induction "2 ^ m :: nat" n arbitrary: m rule: grow_pow2.induct)
  case (1 needed)
  then show ?case
    by (cases "(2::nat) ^ m < needed") (auto simp: grow_pow2.simps [of "2 ^ m" needed] simp flip: power_Suc)
qed

lemma NormalizeCapacity_table:
  assumes "0 < n"
  shows "table_capacity (NormalizeCapacity n)" "n \<le> NormalizeCapacity n"
proof -
  obtain k where k: "grow_pow2 1 n = 2 ^ k" using grow_pow2_power [of 0 n] by auto
  have ge: "n \<le> grow_pow2 1 n" by (rule grow_pow2_ge) simp
  show "n \<le> NormalizeCapacity n" using ge by (auto simp: NormalizeCapacity_def kGroupSize_def)
  have "table_capacity (2 ^ k)" if "16 \<le> (2::nat) ^ k"
  proof -
    have "4 \<le> k"
    proof (rule ccontr)
      assume "\<not> 4 \<le> k"
      then have "(2::nat) ^ k \<le> 2 ^ 3" by (intro power_increasing) auto
      with that show False by simp
    qed
    then have "(2::nat) ^ k = 2 ^ (4 + (k - 4))" by simp
    then have "(2::nat) ^ k = 16 * 2 ^ (k - 4)" by (simp only: power_add) simp
    then show ?thesis by (auto simp: table_capacity_def)
  qed
  with ge k assms show "table_capacity (NormalizeCapacity n)"
    by (auto simp: NormalizeCapacity_def kGroupSize_def table_capacity_def intro: exI [of _ 0])
qed

lemma NormalizeCapacity_id: "table_capacity cap \<Longrightarrow> NormalizeCapacity cap = cap"
proof -
  assume "table_capacity cap"
  then obtain m where m: "cap = 2 ^ (m + 4)" by (auto simp: table_capacity_def power_add)
  have "grow_pow2 (2 ^ (n - k)) (2 ^ n) = 2 ^ n" if "k \<le> n" for k n :: nat
    using that
  proof (induction k)
    case 0
    then show ?case by (simp add: grow_pow2_id)
  next
    case (Suc k)
    then have "(2::nat) ^ (n - Suc k) < 2 ^ n" by simp
    moreover have "2 * (2::nat) ^ (n - Suc k) = 2 ^ (n - k)"
      using Suc.prems by (simp flip: power_Suc add: Suc_diff_Suc)
    ultimately show ?case using Suc by (subst grow_pow2.simps) simp
  qed
  from this [of "m + 4" "m + 4"] m show ?thesis
    by (auto simp: NormalizeCapacity_def kGroupSize_def power_add)
qed

section \<open>The probe sequence\<close>

fun probe_seq :: "nat \<Rightarrow> nat \<Rightarrow> nat \<Rightarrow> nat \<Rightarrow> nat list" where
  "probe_seq Mask GroupStart ProbeIndex 0 = []"
| "probe_seq Mask GroupStart ProbeIndex (Suc n) =
     group_slots Mask GroupStart @
     probe_seq Mask ((GroupStart + (ProbeIndex + kGroupSize)) AND Mask) (ProbeIndex + kGroupSize) n"

definition probes :: "nat \<Rightarrow> u64 \<Rightarrow> nat list" where
  "probes cap Hash = probe_seq (cap - 1) (first_group Hash (cap - 1)) 0 (Suc (cap div kGroupSize))"

definition triangle :: "nat \<Rightarrow> nat" where "triangle k = k * (k + 1) div 2"

lemma triangle_double: "2 * triangle k = k * (k + 1)"
  by (simp add: triangle_def)

lemma triangle_Suc: "triangle (Suc k) = triangle k + Suc k"
  using triangle_double [of k] triangle_double [of "Suc k"] by (simp add: algebra_simps)

lemma odd_factor_power:
  assumes "(2::nat) ^ n dvd a * b" "odd a \<or> odd b"
  shows "2 ^ n dvd a \<or> 2 ^ n dvd b"
  using assms(2)
proof
  assume "odd a"
  then have "coprime (2 ^ n) a" by simp
  then show ?thesis using assms(1) coprime_dvd_mult_right_iff by blast
next
  assume "odd b"
  then have "coprime (2 ^ n) b" by simp
  then show ?thesis using assms(1) coprime_dvd_mult_left_iff by blast
qed

lemma triangle_inj:
  assumes "triangle j mod 2 ^ m = triangle k mod 2 ^ m" "j < 2 ^ m" "k < 2 ^ m"
  shows "j = k"
proof -
  have main: "j = k" if jk: "j \<le> k" "k < 2 ^ m" "triangle j mod 2 ^ m = triangle k mod 2 ^ m" for j k :: nat
  proof (rule ccontr)
    assume "j \<noteq> k"
    with jk(1) have less: "0 < k - j" by simp
    have mono: "triangle j \<le> triangle k" 
      unfolding triangle_def using jk(1) by (intro div_le_mono mult_le_mono) auto
    have "2 ^ m dvd triangle k - triangle j"
      using jk(3) mono by (metis mod_eq_dvd_iff_nat)
    then have "2 ^ Suc m dvd 2 * triangle k - 2 * triangle j"
      by (simp add: right_diff_distrib' [symmetric])
    also have "2 * triangle k - 2 * triangle j = (k - j) * (k + j + 1)"
    proof -
      obtain d where "k = j + d" using jk(1) le_Suc_ex by blast
      then show ?thesis unfolding triangle_double by (simp add: algebra_simps)
    qed
    finally have "2 ^ Suc m dvd (k - j) * (k + j + 1)" .
    moreover have "odd (k - j) \<or> odd (k + j + 1)" using jk(1) by auto
    ultimately have "2 ^ Suc m dvd k - j \<or> 2 ^ Suc m dvd k + j + 1" by (rule odd_factor_power)
    then have "2 ^ Suc m \<le> k - j \<or> 2 ^ Suc m \<le> k + j + 1"
      using less by (auto dest!: dvd_imp_le)
    moreover have "k + j + 1 < 2 * 2 ^ m" using jk \<open>j \<noteq> k\<close> by linarith
    ultimately show False by auto
  qed
  show ?thesis
  proof (cases "j \<le> k")
    case True
    then show ?thesis using main assms by blast
  next
    case False
    then show ?thesis using main [of k j] assms by simp
  qed
qed

lemma triangle_onto:
  assumes "t < 2 ^ m"
  obtains k where "k < 2 ^ m" "triangle k mod 2 ^ m = t"
proof -
  let ?f = "\<lambda>k. triangle k mod 2 ^ m" and ?A = "{..<2 ^ m} :: nat set"
  have "inj_on ?f ?A"
  proof (rule inj_onI)
    fix x y
    assume "x \<in> ?A" "y \<in> ?A" "?f x = ?f y"
    then show "x = y" using triangle_inj [of x m y] by simp
  qed
  moreover have "?f ` ?A \<subseteq> ?A" by auto
  ultimately have "?f ` ?A = ?A"
    by (intro card_subset_eq) (simp_all only: card_image finite_lessThan)
  moreover have "t \<in> ?A" using assms by simp
  ultimately have "t \<in> ?f ` ?A" by simp
  then obtain k where "k \<in> ?A" "t = ?f k" by (rule imageE) simp
  then show thesis using that [of k] by simp
qed

lemma group_slots_mod:
  "table_capacity cap \<Longrightarrow> group_slots (cap - 1) g = map (\<lambda>I. (g + I) mod cap) [0..<16]"
  by (simp add: group_slots_def table_capacity_mask' kGroupSize_def)

lemma probe_seq_groups:
  assumes "table_capacity cap" "g = (g0 + 16 * triangle k) mod cap" "q = 16 * k"
    "I < 16" "j < n"
  shows "(g0 + 16 * triangle (k + j) + I) mod cap \<in> set (probe_seq (cap - 1) g q n)"
  using assms
proof (induction n arbitrary: g q k j)
  case 0
  then show ?case by simp
next
  case (Suc n)
  show ?case
  proof (cases j)
    case 0
    have "(g0 + 16 * triangle k + I) mod cap = (g + I) mod cap" using Suc.prems(2) by (simp add: mod_add_left_eq)
    then have "(g0 + 16 * triangle k + I) mod cap \<in> set (group_slots (cap - 1) g)"
      using Suc.prems(1,4) by (simp only: group_slots_mod) simp
    then show ?thesis using 0 by simp
  next
    case (Suc j')
    have "(g + (q + 16)) mod cap = (g0 + 16 * triangle k + (q + 16)) mod cap"
      using Suc.prems(2) by (simp add: mod_add_left_eq)
    also have "\<dots> = (g0 + 16 * triangle (Suc k)) mod cap"
      using Suc.prems(3) by (simp add: triangle_Suc algebra_simps)
    finally have g': "(g + (q + 16)) mod cap = (g0 + 16 * triangle (Suc k)) mod cap" .
    have "(g0 + 16 * triangle (Suc k + j') + I) mod cap \<in> set (probe_seq (cap - 1) ((g + (q + 16)) mod cap) (q + 16) n)"
      by (rule Suc.IH [OF Suc.prems(1) g' _ Suc.prems(4)]) (use Suc.prems(3,5) Suc in auto)
    then show ?thesis using Suc Suc.prems(1) by (simp add: table_capacity_mask' kGroupSize_def)
  qed
qed

lemma probe_seq_range: "table_capacity cap \<Longrightarrow> x \<in> set (probe_seq (cap - 1) g q n) \<Longrightarrow> x < cap"
proof (induction n arbitrary: g q)
  case (Suc n)
  from Suc.prems(2) consider "x \<in> set (group_slots (cap - 1) g)"
    | "x \<in> set (probe_seq (cap - 1) ((g + (q + kGroupSize)) AND (cap - 1)) (q + kGroupSize) n)" by auto
  then show ?case
  proof cases
    case 1
    then show ?thesis using table_capacity_pos [OF Suc.prems(1)] unfolding group_slots_mod [OF Suc.prems(1)] by auto
  next
    case 2
    then show ?thesis using Suc.IH Suc.prems(1) by blast
  qed
qed simp

lemma probe_seq_covers:
  assumes "table_capacity cap" "x < cap" "g < cap" "cap div 16 \<le> n"
  shows "x \<in> set (probe_seq (cap - 1) g 0 n)"
proof -
  obtain m where m: "cap = 16 * 2 ^ m" using assms(1) by (auto simp: table_capacity_def)
  define d where "d = (x + (cap - g)) mod cap"
  have d: "(g + d) mod cap = x" using assms(2,3) by (simp add: d_def mod_add_right_eq)
  have "d < 16 * 2 ^ m" using assms(2) m by (simp add: d_def)
  then have "d div 16 < 2 ^ m" by (simp add: less_mult_imp_div_less mult.commute)
  then obtain k where k: "k < 2 ^ m" "triangle k mod 2 ^ m = d div 16" by (rule triangle_onto)
  have "16 * triangle k mod cap = 16 * (d div 16)" using k(2) m by (simp add: mult_mod_right)
  then have "((g + d mod 16) + (16 * triangle k) mod cap) mod cap =
      ((g + d mod 16) + 16 * (d div 16)) mod cap"
    by (simp only:)
  then have "(g + 16 * triangle k + d mod 16) mod cap = (g + (16 * (d div 16) + d mod 16)) mod cap"
    unfolding mod_add_right_eq by (simp only: ac_simps)
  also have "\<dots> = x" using d by simp
  finally have x: "(g + 16 * triangle (0 + k) + d mod 16) mod cap = x" by simp
  have "(g + 16 * triangle (0 + k) + d mod 16) mod cap \<in> set (probe_seq (cap - 1) g 0 n)"
    by (rule probe_seq_groups) (use assms k m in \<open>auto simp: triangle_def\<close>)
  then show ?thesis using x by simp
qed

lemma first_group_less: "table_capacity cap \<Longrightarrow> first_group Hash (cap - 1) < cap"
  using table_capacity_pos [of cap] by (simp add: first_group_def table_capacity_mask')

lemma probes_exact: "table_capacity cap \<Longrightarrow> set (probes cap Hash) = {..<cap}"
  unfolding probes_def kGroupSize_def
  using probe_seq_range probe_seq_covers [OF _ _ first_group_less]
  by (metis (no_types, lifting) le_SucI le_refl lessThan_iff subsetI subset_antisym)

end
