(* ===== verification/SwissInv.thy ===== *)
theory SwissInv
  imports SwissProps
begin

text \<open>
  The invariant of the table and what the searches of \<open>FindIndex\<close>, \<open>AddImpl\<close> and \<open>Rehash\<close>
  answer under it.
\<close>

section \<open>Control bytes\<close>

lemma IsFull_H2 [simp]: "IsFull (H2 x)"
proof -
  have eq: "(0x7F :: u64) = mask 7" "(0x80 :: u8) = push_bit 7 1" by (simp_all add: mask_eq_exp_minus_1)
  have "bit (0x7F :: u64) n \<Longrightarrow> n < 7" for n unfolding eq(1) bit_mask_iff by simp
  moreover have "bit (0x80 :: u8) n \<Longrightarrow> n = 7" for n unfolding eq(2) bit_push_bit_iff by (simp add: bit_1_iff)
  ultimately show ?thesis
    unfolding IsFull_def H2_def by (intro bit_word_eqI) (fastforce simp: bit_simps)
qed

lemma special_not_full [simp]:
  "\<not> IsFull kCtrlEmpty" "\<not> IsFull kCtrlDeleted" "\<not> IsFull kCtrlSentinel"
  by (simp_all add: IsFull_def kCtrlEmpty_def kCtrlDeleted_def kCtrlSentinel_def)

lemma H2_special [simp]:
  "H2 x \<noteq> kCtrlEmpty" "H2 x \<noteq> kCtrlDeleted" "H2 x \<noteq> kCtrlSentinel"
  "kCtrlEmpty \<noteq> H2 x" "kCtrlDeleted \<noteq> H2 x" "kCtrlSentinel \<noteq> H2 x"
  by (metis IsFull_H2 special_not_full)+

lemma special_distinct [simp]:
  "kCtrlDeleted \<noteq> kCtrlEmpty" "kCtrlEmpty \<noteq> kCtrlDeleted"
  "kCtrlSentinel \<noteq> kCtrlEmpty" "kCtrlEmpty \<noteq> kCtrlSentinel"
  "kCtrlSentinel \<noteq> kCtrlDeleted" "kCtrlDeleted \<noteq> kCtrlSentinel"
  by (simp_all add: kCtrlEmpty_def kCtrlDeleted_def kCtrlSentinel_def)

section \<open>The invariant\<close>

definition on_path :: "u8 list \<Rightarrow> nat \<Rightarrow> u64 \<Rightarrow> nat set" where
  "on_path c cap Hash = set (takeWhile (\<lambda>i. c ! i \<noteq> kCtrlEmpty) (probes cap Hash))"

definition slot_ok ::
  "('e \<Rightarrow> 'k) \<Rightarrow> ('k \<Rightarrow> u64) \<Rightarrow> nat \<Rightarrow> u8 list \<Rightarrow> 'e buffer \<Rightarrow> nat \<Rightarrow> bool" where
  "slot_ok key h cap c slots i \<longleftrightarrow> (case slots ! i of
       Raw \<Rightarrow> c ! i = kCtrlEmpty \<or> c ! i = kCtrlDeleted
     | Live e \<Rightarrow> c ! i = H2 (h (key e)) \<and> i \<in> on_path c cap (h (key e))
     | MovedFrom \<Rightarrow> False)"

definition layout_ok :: "nat \<Rightarrow> u8 list \<Rightarrow> 'e buffer \<Rightarrow> bool" where
  "layout_ok cap c slots \<longleftrightarrow> table_capacity cap \<and> length c = cap + 16 \<and> length slots = cap \<and>
     c ! cap = kCtrlSentinel \<and> (\<forall>i < 15. c ! (cap + 1 + i) = c ! i)"

definition keys_unique :: "('e \<Rightarrow> 'k) \<Rightarrow> 'e buffer \<Rightarrow> bool" where
  "keys_unique key slots \<longleftrightarrow> (\<forall>i j e e'. i < length slots \<longrightarrow> j < length slots \<longrightarrow>
     slots ! i = Live e \<longrightarrow> slots ! j = Live e' \<longrightarrow> key e = key e' \<longrightarrow> i = j)"

definition table_ok ::
  "('e \<Rightarrow> 'k) \<Rightarrow> ('k \<Rightarrow> u64) \<Rightarrow> nat \<Rightarrow> u8 list \<Rightarrow> 'e buffer \<Rightarrow> bool" where
  "table_ok key h cap c slots \<longleftrightarrow>
     layout_ok cap c slots \<and> (\<forall>i < cap. slot_ok key h cap c slots i) \<and> keys_unique key slots"

definition live_slots :: "'e buffer \<Rightarrow> nat set" where
  "live_slots slots = {i. i < length slots \<and> slots ! i \<noteq> Raw}"

definition empty_slots :: "nat \<Rightarrow> u8 list \<Rightarrow> nat set" where
  "empty_slots cap c = {i. i < cap \<and> c ! i = kCtrlEmpty}"

definition live_elems :: "'e buffer \<Rightarrow> 'e set" where
  "live_elems slots = {e. Live e \<in> set slots}"

definition swiss_inv :: "('e \<Rightarrow> 'k) \<Rightarrow> ('k \<Rightarrow> u64) \<Rightarrow> 'e swiss \<Rightarrow> bool" where
  "swiss_inv key h s \<longleftrightarrow> s = Swiss_ctor \<or>
     (table_ok key h (m_capacity s) (m_ctrl s) (m_slots s) \<and>
      m_size s = card (live_slots (m_slots s)) \<and>
      m_growthLeft s + m_capacity s div 8 = card (empty_slots (m_capacity s) (m_ctrl s)))"

lemma Swiss_ctor_inv [simp]: "swiss_inv key h Swiss_ctor"
  by (simp add: swiss_inv_def)

lemma Swiss_ctor_sel [simp]:
  "m_capacity Swiss_ctor = 0" "m_slots Swiss_ctor = []" "m_size Swiss_ctor = 0" "m_growthLeft Swiss_ctor = 0"
  by (simp_all add: Swiss_ctor_def)

lemma swiss_inv_cases:
  assumes "swiss_inv key h s"
  obtains (no_storage) "s = Swiss_ctor" "m_capacity s = 0"
    | (storage) "table_ok key h (m_capacity s) (m_ctrl s) (m_slots s)" "0 < m_capacity s"
        "m_size s = card (live_slots (m_slots s))"
        "m_growthLeft s + m_capacity s div 8 = card (empty_slots (m_capacity s) (m_ctrl s))"
  using assms table_capacity_pos unfolding swiss_inv_def table_ok_def layout_ok_def by fastforce

lemma slot_okD:
  assumes "table_ok key h cap c slots" "i < cap"
  shows "slots ! i = Live e \<Longrightarrow> c ! i = H2 (h (key e))"
    and "slots ! i = Live e \<Longrightarrow> i \<in> on_path c cap (h (key e))"
    and "slots ! i = Raw \<Longrightarrow> c ! i = kCtrlEmpty \<or> c ! i = kCtrlDeleted"
    and "slots ! i \<noteq> MovedFrom"
  using assms by (auto simp: table_ok_def slot_ok_def split: cell.splits)

lemma full_is_live:
  assumes "table_ok key h cap c slots" "i < cap"
  shows "IsFull (c ! i) \<longleftrightarrow> (\<exists>e. slots ! i = Live e)"
proof (cases "slots ! i")
  case Raw
  then show ?thesis using slot_okD(3) [OF assms Raw] by auto
next
  case (Live e)
  then show ?thesis using slot_okD(1) [OF assms Live] by auto
next
  case MovedFrom
  then show ?thesis using slot_okD(4) [OF assms] by simp
qed

lemma uniqueD:
  "table_ok key h cap c slots \<Longrightarrow> i < cap \<Longrightarrow> j < cap \<Longrightarrow> slots ! i = Live e \<Longrightarrow> slots ! j = Live e' \<Longrightarrow>
   key e = key e' \<Longrightarrow> i = j"
  by (auto simp: table_ok_def keys_unique_def layout_ok_def)

lemma table_ok_lengths:
  assumes "table_ok key h cap c slots"
  shows "table_capacity cap" "length c = cap + 16" "length slots = cap" "16 \<le> cap" "0 < cap"
  using assms table_capacity_pos [of cap] by (auto simp: table_ok_def layout_ok_def)

lemma live_elems_iff:
  "e \<in> live_elems slots \<longleftrightarrow> (\<exists>i < length slots. slots ! i = Live e)"
  by (auto simp: live_elems_def in_set_conv_nth)

section \<open>Searching\<close>

lemma FindInGroup_append:
  "FindInGroup key s v tag (xs @ ys) =
     rbind (FindInGroup key s v tag xs) (\<lambda>r. case r of
         NextGroup \<Rightarrow> FindInGroup key s v tag ys | _ \<Rightarrow> Inr r)"
  by (induction xs) (auto simp: rbind_def split: sum.splits)

lemma FindLoop_scan:
  "FindLoop key s v tag steps g q =
     rbind (FindInGroup key s v tag (probe_seq (m_capacity s - 1) g q (length steps))) (\<lambda>r. case r of
         FoundAt i \<Rightarrow> Inr (Some i) | _ \<Rightarrow> Inr None)"
proof (induction steps arbitrary: g q)
  case Nil
  then show ?case by simp
next
  case (Cons a steps)
  show ?case
    unfolding FindLoop.simps list.size(4) add_Suc_right add_0_right probe_seq.simps FindInGroup_append Cons.IH Let_def
    by (auto simp: rbind_def split: sum.splits find_result.splits)
qed

lemma FindIndex_scan:
  "m_capacity s \<noteq> 0 \<Longrightarrow> FindIndex key h v s =
     rbind (FindInGroup key s v (H2 (h v)) (probes (m_capacity s) (h v))) (\<lambda>r. case r of
         FoundAt i \<Rightarrow> Inr (Some i) | _ \<Rightarrow> Inr None)"
  by (simp add: FindIndex_def FindLoop_scan probes_def probe_steps_def del: upt_Suc)

lemma AddInGroup_append:
  "AddInGroup key s v tag (xs @ ys) ins =
     rbind (AddInGroup key s v tag xs ins) (\<lambda>r. case r of
         Passed ins' \<Rightarrow> AddInGroup key s v tag ys ins' | _ \<Rightarrow> Inr r)"
  by (induction xs arbitrary: ins) (auto simp: rbind_def split: sum.splits option.splits)

lemma AddLoop_scan:
  "AddLoop key s v tag steps g q ins =
     AddInGroup key s v tag (probe_seq (m_capacity s - 1) g q (length steps)) ins"
proof (induction steps arbitrary: g q ins)
  case Nil
  then show ?case by simp
next
  case (Cons a steps)
  show ?case
    unfolding AddLoop.simps list.size(4) add_Suc_right add_0_right probe_seq.simps AddInGroup_append Cons.IH Let_def
    by (rule refl)
qed

lemma AddProbe_scan:
  "AddProbe key h v s = AddInGroup key s v (H2 (h v)) (probes (m_capacity s) (h v)) None"
  by (simp add: AddProbe_def AddLoop_scan probes_def probe_steps_def del: upt_Suc)

lemma read_ctrl_in: "table_ok key h cap c slots \<Longrightarrow> x < cap \<Longrightarrow> read_ctrl x c = Inr (c ! x)"
  by (simp add: read_ctrl_def table_ok_lengths)

lemma read_live_slot: "i < length slots \<Longrightarrow> slots ! i = Live e \<Longrightarrow> read_cell i slots = Inr e"
  by (simp add: read_cell_def)

lemma scan_hit:
  assumes "table_ok key h (m_capacity s) (m_ctrl s) (m_slots s)" "set P \<subseteq> {..<m_capacity s}"
    and "i \<in> set (takeWhile (\<lambda>i. m_ctrl s ! i \<noteq> kCtrlEmpty) P)" "m_slots s ! i = Live e"
  shows "FindInGroup key s (key e) (H2 (h (key e))) P = Inr (FoundAt i)"
    and "AddInGroup key s (key e) (H2 (h (key e))) P ins = Inr (Present i)"
proof -
  have i: "i < m_capacity s" using assms(2,3) set_takeWhileD by fastforce
  have both: "FindInGroup key s (key e) (H2 (h (key e))) P = Inr (FoundAt i) \<and>
    AddInGroup key s (key e) (H2 (h (key e))) P ins = Inr (Present i)"
    using assms(2,3)
  proof (induction P arbitrary: ins)
    case Nil
    then show ?case by simp
  next
    case (Cons x P)
    then have x: "x < m_capacity s" and ne: "m_ctrl s ! x \<noteq> kCtrlEmpty" by (auto split: if_splits)
    note rc = read_ctrl_in [OF assms(1) x]
    show ?case
    proof (cases "x = i")
      case True
      then show ?thesis
        using rc slot_okD(1) [OF assms(1) i assms(4)] read_live_slot [OF _ assms(4)] i table_ok_lengths(3) [OF assms(1)] by simp
    next
      case False
      with Cons.prems ne have in': "i \<in> set (takeWhile (\<lambda>i. m_ctrl s ! i \<noteq> kCtrlEmpty) P)" by simp
      note IH = Cons.IH [OF _ in']
      show ?thesis
      proof (cases "m_ctrl s ! x = H2 (h (key e))")
        case True
        then obtain e' where e': "m_slots s ! x = Live e'" using full_is_live [OF assms(1) x] by auto
        then have "key e' \<noteq> key e" using uniqueD [OF assms(1) x i e' assms(4)] False by auto
        then show ?thesis
          using True rc read_live_slot [OF _ e'] x table_ok_lengths(3) [OF assms(1)] IH Cons.prems(1) by simp
      next
        case f: False
        then show ?thesis using rc ne IH Cons.prems(1) by (simp add: IsEmpty_def)
      qed
    qed
  qed
  then show "FindInGroup key s (key e) (H2 (h (key e))) P = Inr (FoundAt i)"
    "AddInGroup key s (key e) (H2 (h (key e))) P ins = Inr (Present i)" by auto
qed

definition absent :: "('e \<Rightarrow> 'k) \<Rightarrow> 'k \<Rightarrow> 'e buffer \<Rightarrow> bool" where
  "absent key v slots \<longleftrightarrow> (\<forall>e \<in> live_elems slots. key e \<noteq> v)"

lemma absentD: "absent key v slots \<Longrightarrow> i < length slots \<Longrightarrow> slots ! i = Live e \<Longrightarrow> key e \<noteq> v"
  by (auto simp: absent_def live_elems_iff)

lemma find_miss:
  assumes "table_ok key h (m_capacity s) (m_ctrl s) (m_slots s)" "absent key v (m_slots s)"
    and "set P \<subseteq> {..<m_capacity s}"
  shows "FindInGroup key s v (H2 (h v)) P =
     Inr (if \<exists>x \<in> set P. m_ctrl s ! x = kCtrlEmpty then NotThere else NextGroup)"
  using assms(3)
proof (induction P)
  case Nil
  then show ?case by simp
next
  case (Cons x P)
  then have x: "x < m_capacity s" by simp
  note rc = read_ctrl_in [OF assms(1) x] and len = table_ok_lengths(3) [OF assms(1)]
  show ?case
  proof (cases "m_ctrl s ! x = H2 (h v)")
    case True
    then obtain e where e: "m_slots s ! x = Live e" using full_is_live [OF assms(1) x] by auto
    then have "key e \<noteq> v" using absentD [OF assms(2)] x len by auto
    then show ?thesis using True rc read_live_slot [OF _ e] x len Cons by simp
  next
    case False
    then show ?thesis using rc Cons by (simp add: IsEmpty_def)
  qed
qed

text \<open>
  Where \<open>AddImpl\<close> puts a new element: at the first tombstone of the probe sequence, if it comes
  before the first empty slot, and at that empty slot otherwise.
\<close>

lemma add_miss:
  assumes "table_ok key h (m_capacity s) (m_ctrl s) (m_slots s)" "absent key v (m_slots s)"
    and "set P \<subseteq> {..<m_capacity s}" "\<exists>x \<in> set P. m_ctrl s ! x = kCtrlEmpty"
  shows "AddInGroup key s v (H2 (h v)) P ins = Inr (
     case ins of Some j \<Rightarrow> InsertAt j True
     | None \<Rightarrow>
        (case List.find (\<lambda>i. m_ctrl s ! i = kCtrlDeleted) (takeWhile (\<lambda>i. m_ctrl s ! i \<noteq> kCtrlEmpty) P) of
          Some j \<Rightarrow> InsertAt j True
        | None \<Rightarrow> InsertAt (hd (dropWhile (\<lambda>i. m_ctrl s ! i \<noteq> kCtrlEmpty) P)) False))"
  using assms(3,4)
proof (induction P arbitrary: ins)
  case Nil
  then show ?case by simp
next
  case (Cons x P)
  then have x: "x < m_capacity s" by simp
  note rc = read_ctrl_in [OF assms(1) x] and len = table_ok_lengths(3) [OF assms(1)]
  show ?case
  proof (cases "m_ctrl s ! x = H2 (h v)")
    case True
    then obtain e where e: "m_slots s ! x = Live e" using full_is_live [OF assms(1) x] by auto
    then have "key e \<noteq> v" using absentD [OF assms(2)] x len by auto
    moreover have "m_ctrl s ! x \<noteq> kCtrlEmpty" "m_ctrl s ! x \<noteq> kCtrlDeleted" using True by simp_all
    ultimately show ?thesis using True rc read_live_slot [OF _ e] x len Cons
      by (cases ins) (simp_all split: option.split)
  next
    case False
    then show ?thesis using rc Cons
      by (cases "m_ctrl s ! x = kCtrlEmpty"; cases "m_ctrl s ! x = kCtrlDeleted")
        (auto simp: IsEmpty_def IsDeleted_def split: option.splits)
  qed
qed

end
