(* ===== verification/SwissOps.thy ===== *)
theory SwissOps
  imports SwissInv
begin

text \<open>
  The operations of the table under its invariant: writing a control byte with its mirror,
  filling and emptying a slot, searching, rehashing, clearing, and adding an element.
\<close>

section \<open>Writing a control byte\<close>

definition put_ctrl :: "nat \<Rightarrow> nat \<Rightarrow> u8 \<Rightarrow> u8 list \<Rightarrow> u8 list" where
  "put_ctrl cap j v c = (if j < 15 then c[j := v, cap + 1 + j := v] else c[j := v])"

lemma put_ctrl_run:
  assumes "length c = cap + 16" "j < cap"
  shows "write_ctrl j v c = Inr (c[j := v])" "WriteMirror cap j v (c[j := v]) = Inr (put_ctrl cap j v c)"
  using assms by (auto simp: write_ctrl_def WriteMirror_def put_ctrl_def kGroupSize_def)

lemma put_ctrl_nth:
  "length c = cap + 16 \<Longrightarrow> j < cap \<Longrightarrow> i < cap \<Longrightarrow> put_ctrl cap j v c ! i = (if i = j then v else c ! i)"
  by (auto simp: put_ctrl_def nth_list_update)

lemma put_ctrl_layout:
  assumes "layout_ok cap c slots" "j < cap" "length slots' = cap"
  shows "layout_ok cap (put_ctrl cap j v c) slots'"
proof -
  have c: "table_capacity cap" "length c = cap + 16" "c ! cap = kCtrlSentinel"
    "\<And>i. i < 15 \<Longrightarrow> c ! (cap + 1 + i) = c ! i" using assms(1) by (auto simp: layout_ok_def)
  note cap = table_capacity_pos [OF c(1)]
  have "put_ctrl cap j v c ! (cap + 1 + i) = put_ctrl cap j v c ! i" if "i < 15" for i
    using that c(2) c(4) [OF that] cap assms(2) by (auto simp: put_ctrl_def nth_list_update)
  moreover have "put_ctrl cap j v c ! cap = kCtrlSentinel" "length (put_ctrl cap j v c) = cap + 16"
    using c cap assms(2) by (auto simp: put_ctrl_def nth_list_update)
  ultimately show ?thesis using c(1) assms(3) by (simp add: layout_ok_def)
qed

lemma set_takeWhile_mono:
  "(\<And>x. x \<in> set xs \<Longrightarrow> P x \<Longrightarrow> Q x) \<Longrightarrow> set (takeWhile P xs) \<subseteq> set (takeWhile Q xs)"
  by (induction xs) auto

lemma on_path_put:
  assumes "table_capacity cap" "length c = cap + 16" "j < cap" "v \<noteq> kCtrlEmpty"
  shows "on_path c cap H \<subseteq> on_path (put_ctrl cap j v c) cap H"
  unfolding on_path_def
  by (rule set_takeWhile_mono) (use assms probes_exact [OF assms(1), of H] in \<open>auto simp: put_ctrl_nth\<close>)

lemma first_empty:
  assumes "table_capacity cap" "length c = cap + 16" "\<exists>x < cap. c ! x = kCtrlEmpty"
    and "i = hd (dropWhile (\<lambda>i. c ! i \<noteq> kCtrlEmpty) (probes cap H))" "v \<noteq> kCtrlEmpty"
  shows "i < cap" "c ! i = kCtrlEmpty" "i \<in> on_path (put_ctrl cap i v c) cap H"
proof -
  let ?P = "\<lambda>i. c ! i \<noteq> kCtrlEmpty" and ?xs = "probes cap H"
  have set: "set ?xs = {..<cap}" by (rule probes_exact [OF assms(1)])
  have "dropWhile ?P ?xs \<noteq> []" using assms(3) set by (auto simp: dropWhile_eq_Nil_conv)
  then obtain rest where d: "dropWhile ?P ?xs = i # rest" using assms(4) by (cases "dropWhile ?P ?xs") auto
  then have xs: "?xs = takeWhile ?P ?xs @ i # rest" by (metis takeWhile_dropWhile_id)
  show i: "i < cap" using xs set by (metis in_set_conv_decomp lessThan_iff)
  show "c ! i = kCtrlEmpty" using d hd_dropWhile [of ?P ?xs] by auto
  have "takeWhile (\<lambda>k. put_ctrl cap i v c ! k \<noteq> kCtrlEmpty) (takeWhile ?P ?xs @ i # rest) =
      takeWhile ?P ?xs @ takeWhile (\<lambda>k. put_ctrl cap i v c ! k \<noteq> kCtrlEmpty) (i # rest)"
  proof (rule takeWhile_append2)
    fix k
    assume "k \<in> set (takeWhile ?P ?xs)"
    then have "?P k" "k \<in> set ?xs" by (auto dest: set_takeWhileD)
    then show "put_ctrl cap i v c ! k \<noteq> kCtrlEmpty"
      using put_ctrl_nth [OF assms(2) i, of k v] set assms(5) by auto
  qed
  then show "i \<in> on_path (put_ctrl cap i v c) cap H"
    unfolding on_path_def using xs put_ctrl_nth [OF assms(2) i i, of v] assms(5) by simp
qed

section \<open>Filling and emptying a slot\<close>

lemma live_elems_fill:
  "j < length slots \<Longrightarrow> slots ! j = Raw \<Longrightarrow> live_elems (slots[j := Live e]) = insert e (live_elems slots)"
  unfolding live_elems_iff set_eq_iff insert_iff
  by (metis cell.distinct(1) cell.inject length_list_update nth_list_update_eq nth_list_update_neq)

lemma cleared_nth: "i < length slots \<Longrightarrow> slots[j := Raw] ! i = Live x \<longleftrightarrow> i \<noteq> j \<and> slots ! i = Live x"
  by (cases "i = j") auto

lemma live_slots_fill: "j < length slots \<Longrightarrow> live_slots (slots[j := Live e]) = insert j (live_slots slots)"
  by (auto simp: live_slots_def nth_list_update split: if_splits)

lemma live_slots_clear: "j < length slots \<Longrightarrow> live_slots (slots[j := Raw]) = live_slots slots - {j}"
  by (auto simp: live_slots_def nth_list_update split: if_splits)

lemma empty_slots_put:
  "length c = cap + 16 \<Longrightarrow> j < cap \<Longrightarrow> v \<noteq> kCtrlEmpty \<Longrightarrow>
     empty_slots cap (put_ctrl cap j v c) = empty_slots cap c - {j}"
  by (auto simp: empty_slots_def put_ctrl_nth split: if_splits)

lemma finite_slots [simp]: "finite (live_slots slots)" "finite (empty_slots cap c)"
  by (simp_all add: live_slots_def empty_slots_def)

lemma fill_table:
  assumes "table_ok key h cap c slots" "j < cap" "slots ! j = Raw" "absent key (key e) slots"
    and "j \<in> on_path (put_ctrl cap j (H2 (h (key e))) c) cap (h (key e))"
  shows "table_ok key h cap (put_ctrl cap j (H2 (h (key e))) c) (slots[j := Live e])"
proof -
  let ?c = "put_ctrl cap j (H2 (h (key e))) c" and ?s = "slots[j := Live e]"
  note len = table_ok_lengths [OF assms(1)]
  have layout: "layout_ok cap c slots" using assms(1) by (simp add: table_ok_def)
  have "slot_ok key h cap ?c ?s i" if i: "i < cap" for i
  proof (cases "i = j")
    case True
    then show ?thesis using assms(2,5) len put_ctrl_nth [OF len(2) assms(2,2)] by (simp add: slot_ok_def)
  next
    case False
    then have "?s ! i = slots ! i" "?c ! i = c ! i" using put_ctrl_nth [OF len(2) assms(2) i] by simp_all
    moreover have "slot_ok key h cap c slots i" using assms(1) i by (simp add: table_ok_def)
    ultimately show ?thesis using on_path_put [OF len(1,2) assms(2), of "H2 (h (key e))"]
      by (auto simp: slot_ok_def split: cell.splits)
  qed
  moreover have "keys_unique key ?s"
    unfolding keys_unique_def
  proof (intro allI impI)
    fix i k a b
    assume "i < length ?s" "k < length ?s" "?s ! i = Live a" "?s ! k = Live b" "key a = key b"
    then show "i = k"
      using len(3) assms(2) absentD [OF assms(4)] uniqueD [OF assms(1), of i k a b]
      by (cases "i = j"; cases "k = j") auto
  qed
  moreover have "layout_ok cap ?c ?s" by (rule put_ctrl_layout [OF layout assms(2)]) (simp add: len)
  ultimately show ?thesis by (simp add: table_ok_def)
qed

lemma clear_table:
  assumes "table_ok key h cap c slots" "j < cap"
  shows "table_ok key h cap (put_ctrl cap j kCtrlDeleted c) (slots[j := Raw])"
proof -
  let ?c = "put_ctrl cap j kCtrlDeleted c" and ?s = "slots[j := Raw]"
  note len = table_ok_lengths [OF assms(1)]
  have layout: "layout_ok cap c slots" using assms(1) by (simp add: table_ok_def)
  have "slot_ok key h cap ?c ?s i" if i: "i < cap" for i
  proof (cases "i = j")
    case True
    then show ?thesis using assms(2) len put_ctrl_nth [OF len(2) assms(2,2)] by (simp add: slot_ok_def)
  next
    case False
    then have "?s ! i = slots ! i" "?c ! i = c ! i" using put_ctrl_nth [OF len(2) assms(2) i] by simp_all
    moreover have "slot_ok key h cap c slots i" using assms(1) i by (simp add: table_ok_def)
    ultimately show ?thesis using on_path_put [OF len(1,2) assms(2), of kCtrlDeleted]
      by (auto simp: slot_ok_def split: cell.splits)
  qed
  moreover have "keys_unique key ?s"
    unfolding keys_unique_def using len(3) uniqueD [OF assms(1)] by (simp add: cleared_nth)
  moreover have "layout_ok cap ?c ?s" by (rule put_ctrl_layout [OF layout assms(2)]) (simp add: len)
  ultimately show ?thesis by (simp add: table_ok_def)
qed

lemma live_elems_clear:
  assumes "table_ok key h cap c slots" "j < cap" "slots ! j = Live e"
  shows "live_elems (slots[j := Raw]) = live_elems slots - {e}"
proof -
  note len = table_ok_lengths(3) [OF assms(1)]
  have once: "i = j" if "slots ! i = Live e" "i < cap" for i
    using uniqueD [OF assms(1) _ assms(2) _ assms(3)] that by auto
  have "x \<in> live_elems (slots[j := Raw]) \<longleftrightarrow> (\<exists>i < cap. i \<noteq> j \<and> slots ! i = Live x)" for x
    using len by (auto simp: live_elems_iff cleared_nth)
  also have "(\<exists>i < cap. i \<noteq> j \<and> slots ! i = Live x) \<longleftrightarrow> x \<in> live_elems slots \<and> x \<noteq> e" for x
    using once len assms(3) by (metis cell.inject live_elems_iff)
  finally show ?thesis by blast
qed

section \<open>Empty tables\<close>

lemma fresh_ctrl_nth:
  "length (fresh_ctrl cap) = cap + 16" "i < cap \<Longrightarrow> fresh_ctrl cap ! i = kCtrlEmpty"
  by (simp_all add: fresh_ctrl_def kGroupSize_def nth_list_update)

lemma fresh_table:
  assumes "table_capacity cap"
  shows "table_ok key h cap (fresh_ctrl cap) (replicate cap Raw)"
    and "empty_slots cap (fresh_ctrl cap) = {..<cap}" "live_slots (replicate cap Raw :: 'e buffer) = {}"
    and "live_elems (replicate cap Raw :: 'e buffer) = {}"
  using assms fresh_ctrl_nth [where cap = cap] table_capacity_pos [OF assms]
  by (auto simp: table_ok_def layout_ok_def slot_ok_def keys_unique_def fresh_ctrl_def kGroupSize_def
      empty_slots_def live_slots_def live_elems_iff nth_list_update)

lemma CapacityToGrowAt_table:
  "table_capacity cap \<Longrightarrow> CapacityToGrowAt cap + cap div 8 = cap"
  using table_capacity_pos [of cap] by (simp add: CapacityToGrowAt_def kMaxLoadFactorDenominator_def)

lemma fresh_inv:
  assumes "table_capacity cap"
  shows "swiss_inv key h \<lparr> m_ctrl = fresh_ctrl cap, m_slots = replicate cap Raw, m_size = 0,
    m_capacity = cap, m_growthLeft = CapacityToGrowAt cap \<rparr>"
proof -
  note fresh = fresh_table(1) [OF assms, of key h] fresh_table(2) [OF assms] fresh_table(3) [where cap = cap, OF assms]
  show ?thesis unfolding swiss_inv_def
    by (rule disjI2) (simp add: fresh CapacityToGrowAt_table [OF assms])
qed

text \<open>Destroying what the full slots hold leaves raw storage.\<close>

lemma replicate_Suc_append: "replicate (Suc k) x @ ys = replicate k x @ x # ys"
  by (simp add: replicate_app_Cons_same)

lemma destroy_full_loop:
  assumes "table_ok key h cap c slots" "k \<le> cap"
  shows "fold_res (destroy_if_full c) [0..<k] slots = Inr (replicate k Raw @ drop k slots)"
  using assms(2)
proof (induction k)
  case 0
  then show ?case by simp
next
  case (Suc k)
  then have k: "k < cap" by simp
  note len = table_ok_lengths [OF assms(1)]
  have d: "drop k slots = slots ! k # drop (Suc k) slots" using k len by (simp add: Cons_nth_drop_Suc)
  have step: "destroy_if_full c k (replicate k Raw @ drop k slots) = Inr (replicate (Suc k) Raw @ drop (Suc k) slots)"
  proof (cases "slots ! k")
    case Raw
    then have "\<not> IsFull (c ! k)" using full_is_live [OF assms(1) k] by simp
    then show ?thesis using Raw d read_ctrl_in [OF assms(1) k]
      by (simp only: destroy_if_full_def replicate_Suc_append) simp
  next
    case (Live e)
    then have "IsFull (c ! k)" using full_is_live [OF assms(1) k] by simp
    then have "destroy_if_full c k (replicate k Raw @ Live e # drop (Suc k) slots) =
        Inr (replicate k Raw @ Raw # drop (Suc k) slots)"
      using read_ctrl_in [OF assms(1) k] by (simp add: destroy_if_full_def destroy_cell_def nth_append list_update_append)
    then show ?thesis using Live d by (simp only: replicate_Suc_append)
  next
    case MovedFrom
    then show ?thesis using slot_okD(4) [OF assms(1) k] by simp
  qed
  show ?case using Suc.IH k step by (simp add: upt_Suc_append fold_res_append)
qed

lemma destroy_all:
  assumes "table_ok key h cap c slots"
  shows "fold_res (destroy_if_full c) [0..<cap] slots = Inr (replicate cap Raw)"
  using destroy_full_loop [OF assms order_refl] table_ok_lengths(3) [OF assms] by simp

lemma ClearAndDeallocate_rep:
  assumes "swiss_inv key h s"
  shows "ClearAndDeallocate s = Inr Swiss_ctor"
  using assms
  by (cases rule: swiss_inv_cases) (auto simp: ClearAndDeallocate_def destroy_all Deallocate_cells_def)

lemma Swiss_Reset_rep:
  assumes "swiss_inv key h s"
  obtains s' where "Swiss_Reset s = Inr s'" "swiss_inv key h s'" "live_elems (m_slots s') = {}"
    "m_capacity s' = m_capacity s"
  using assms
proof (cases rule: swiss_inv_cases)
  case no_storage
  then show ?thesis using that [of s] by (simp add: Swiss_Reset_def live_elems_def)
next
  case storage
  note cap = table_ok_lengths(1) [OF storage(1)]
  show ?thesis
    by (rule that [of "s \<lparr> m_slots := replicate (m_capacity s) Raw, m_ctrl := fresh_ctrl (m_capacity s),
          m_size := 0, m_growthLeft := CapacityToGrowAt (m_capacity s) \<rparr>"])
      (use storage destroy_all [OF storage(1)] fresh_table [OF cap] CapacityToGrowAt_table [OF cap]
        in \<open>auto simp: Swiss_Reset_def swiss_inv_def\<close>)
qed

end
