(* ===== verification/SwissRehash.thy ===== *)
theory SwissRehash
  imports SwissOps
begin

text \<open>
  \<open>Rehash\<close> returns, moves every element once into the new storage and leaves the old storage
  raw; \<open>Reserve\<close> and the growth of \<open>AddImpl\<close> follow.
\<close>

section \<open>The unbounded probe returns\<close>

lemma EmptyInGroup_find:
  "(\<And>x. x \<in> set L \<Longrightarrow> x < length c) \<Longrightarrow>
     EmptyInGroup c L = Inr (List.find (\<lambda>i. c ! i = kCtrlEmpty) L)"
  by (induction L) (auto simp: read_ctrl_def IsEmpty_def)

lemma find_append:
  "List.find P (xs @ ys) = (case List.find P xs of None \<Rightarrow> List.find P ys | Some x \<Rightarrow> Some x)"
  by (induction xs) auto

lemma RehashProbe_find:
  assumes "table_capacity cap" "length c = cap + 16"
  shows "List.find (\<lambda>i. c ! i = kCtrlEmpty) (probe_seq (cap - 1) g q n) = Some i \<Longrightarrow>
     RehashProbe c (cap - 1) g q = Some (Inr i)"
proof (induction n arbitrary: g q)
  case 0
  then show ?case by simp
next
  case (Suc n)
  have "x < cap" if "x \<in> set (group_slots (cap - 1) g)" for x
    using that table_capacity_pos [OF assms(1)] unfolding group_slots_mod [OF assms(1)] by auto
  then have e: "EmptyInGroup c (group_slots (cap - 1) g) =
      Inr (List.find (\<lambda>i. c ! i = kCtrlEmpty) (group_slots (cap - 1) g))"
    by (intro EmptyInGroup_find) (use assms(2) in fastforce)
  show ?case
  proof (cases "List.find (\<lambda>i. c ! i = kCtrlEmpty) (group_slots (cap - 1) g)")
    case None
    then have "List.find (\<lambda>i. c ! i = kCtrlEmpty)
        (probe_seq (cap - 1) ((g + (q + kGroupSize)) AND (cap - 1)) (q + kGroupSize) n) = Some i"
      using Suc.prems by (simp add: find_append)
    from Suc.IH [OF this] e None show ?thesis by (subst RehashProbe.simps) simp
  next
    case (Some j)
    then have "i = j" using Suc.prems by (simp add: find_append)
    with e Some show ?thesis by (subst RehashProbe.simps) simp
  qed
qed

lemma find_hd_dropWhile:
  "\<exists>x \<in> set xs. \<not> P x \<Longrightarrow> List.find (\<lambda>x. \<not> P x) xs = Some (hd (dropWhile P xs))"
  by (induction xs) auto

lemma RehashProbe_first:
  assumes "table_capacity cap" "length c = cap + 16" "\<exists>x < cap. c ! x = kCtrlEmpty"
  shows "RehashProbe c (cap - 1) (first_group H (cap - 1)) 0 =
     Some (Inr (hd (dropWhile (\<lambda>i. c ! i \<noteq> kCtrlEmpty) (probes cap H))))"
proof -
  have "\<exists>x \<in> set (probes cap H). \<not> c ! x \<noteq> kCtrlEmpty" using assms(3) probes_exact [OF assms(1)] by auto
  then have "List.find (\<lambda>i. \<not> c ! i \<noteq> kCtrlEmpty) (probes cap H) =
      Some (hd (dropWhile (\<lambda>i. c ! i \<noteq> kCtrlEmpty) (probes cap H)))" by (rule find_hd_dropWhile)
  then have "List.find (\<lambda>i. c ! i = kCtrlEmpty)
      (probe_seq (cap - 1) (first_group H (cap - 1)) 0 (Suc (cap div kGroupSize))) =
      Some (hd (dropWhile (\<lambda>i. c ! i \<noteq> kCtrlEmpty) (probes cap H)))"
    unfolding probes_def not_not .
  then show ?thesis by (rule RehashProbe_find [OF assms(1,2)])
qed

section \<open>One element\<close>

lemma fill_first_empty:
  assumes "table_ok key h cap c slots" "empty_slots cap c \<noteq> {}" "absent key (key e) slots"
    and "i = hd (dropWhile (\<lambda>i. c ! i \<noteq> kCtrlEmpty) (probes cap (h (key e))))"
  defines "c' \<equiv> put_ctrl cap i (H2 (h (key e))) c" and "slots' \<equiv> slots[i := Live e]"
  shows "i < cap" "slots ! i = Raw" "table_ok key h cap c' slots'" "live_elems slots' = insert e (live_elems slots)"
    "card (live_slots slots') = Suc (card (live_slots slots))"
    "Suc (card (empty_slots cap c')) = card (empty_slots cap c)"
proof -
  note len = table_ok_lengths [OF assms(1)]
  have ex: "\<exists>x < cap. c ! x = kCtrlEmpty" using assms(2) by (auto simp: empty_slots_def)
  note f = first_empty [OF len(1,2) ex assms(4), of "H2 (h (key e))"]
  show i: "i < cap" using f(1) by simp
  have "c ! i = kCtrlEmpty" using f(2) by simp
  then have "\<not> IsFull (c ! i)" by simp
  then show raw: "slots ! i = Raw"
    using full_is_live [OF assms(1) i] slot_okD(4) [OF assms(1) i] by (cases "slots ! i") auto
  show "table_ok key h cap c' slots'"
    unfolding c'_def slots'_def using fill_table [OF assms(1) i raw assms(3)] f(3) by simp
  show "live_elems slots' = insert e (live_elems slots)"
    unfolding slots'_def using live_elems_fill [of i slots e] raw i len by simp
  have "i \<notin> live_slots slots" using raw by (simp add: live_slots_def)
  then show "card (live_slots slots') = Suc (card (live_slots slots))"
    unfolding slots'_def using live_slots_fill [of i slots e] i len by simp
  have "i \<in> empty_slots cap c" using f(2) i by (simp add: empty_slots_def)
  from card_Suc_Diff1 [OF finite_slots(2) this]
  show "Suc (card (empty_slots cap c')) = card (empty_slots cap c)"
    unfolding c'_def empty_slots_put [OF len(2) i H2_special(1)] .
qed

section \<open>The loop\<close>

definition rehash_ok ::
  "('e \<Rightarrow> 'k) \<Rightarrow> ('k \<Rightarrow> u64) \<Rightarrow> nat \<Rightarrow> 'e buffer \<Rightarrow> nat \<Rightarrow> 'e rehash_state \<Rightarrow> bool" where
  "rehash_ok key h NewCap slots k r \<longleftrightarrow>
     table_ok key h NewCap (new_ctrl r) (new_slots r) \<and>
     new_size r = card (live_slots (new_slots r)) \<and>
     new_size r = card (live_slots (take k slots)) \<and>
     card (empty_slots NewCap (new_ctrl r)) + new_size r = NewCap \<and>
     live_elems (new_slots r) = live_elems (take k slots) \<and>
     old_slots r = replicate k Raw @ drop k slots"

lemma live_slots_take_Suc:
  assumes "k < length slots"
  shows "card (live_slots (take (Suc k) slots)) =
     (if slots ! k = Raw then card (live_slots (take k slots)) else Suc (card (live_slots (take k slots))))"
proof -
  have "live_slots (take (Suc k) slots) =
      (if slots ! k = Raw then live_slots (take k slots) else insert k (live_slots (take k slots)))"
    using assms by (auto simp: live_slots_def less_Suc_eq)
  moreover have "k \<notin> live_slots (take k slots)" by (simp add: live_slots_def)
  ultimately show ?thesis by simp
qed

lemma live_elems_take_Suc:
  "k < length slots \<Longrightarrow> live_elems (take (Suc k) slots) =
     (case slots ! k of Live e \<Rightarrow> insert e (live_elems (take k slots)) | _ \<Rightarrow> live_elems (take k slots))"
  by (auto simp: live_elems_def take_Suc_conv_app_nth split: cell.splits)

lemma live_slots_take_le: "card (live_slots (take k slots)) \<le> card (live_slots slots)"
  by (rule card_mono) (auto simp: live_slots_def)

lemma rehash_step_ok:
  assumes old: "table_ok key h cap c slots" and r: "rehash_ok key h NewCap slots k r"
    and k: "k < cap" and room: "card (live_slots slots) < NewCap"
  obtains r' where "rehash_step key h NewCap c k r = Inr r'" "rehash_ok key h NewCap slots (Suc k) r'"
proof -
  note len = table_ok_lengths [OF old]
  have new: "table_ok key h NewCap (new_ctrl r) (new_slots r)"
    and size: "new_size r = card (live_slots (new_slots r))" "new_size r = card (live_slots (take k slots))"
      "card (empty_slots NewCap (new_ctrl r)) + new_size r = NewCap"
    and elems: "live_elems (new_slots r) = live_elems (take k slots)"
    and old_r: "old_slots r = replicate k Raw @ drop k slots"
    using r by (auto simp: rehash_ok_def)
  note nlen = table_ok_lengths [OF new]
  have d: "drop k slots = slots ! k # drop (Suc k) slots" using k len by (simp add: Cons_nth_drop_Suc)
  have ks: "k < length slots" using k len by simp
  note rc = read_ctrl_in [OF old k]
  show thesis
  proof (cases "slots ! k")
    case Raw
    then have "\<not> IsFull (c ! k)" using full_is_live [OF old k] by simp
    then have "rehash_step key h NewCap c k r = Inr r" using rc by (simp add: rehash_step_def)
    moreover have "rehash_ok key h NewCap slots (Suc k) r"
      using new size elems old_r d Raw live_slots_take_Suc [OF ks] live_elems_take_Suc [OF ks]
      unfolding rehash_ok_def replicate_Suc_append by simp
    ultimately show thesis by (rule that)
  next
    case MovedFrom
    then show thesis using slot_okD(4) [OF old k] by simp
  next
    case (Live e)
    then have full: "IsFull (c ! k)" using full_is_live [OF old k] by simp
    have "new_size r < card (live_slots slots)"
      using live_slots_take_Suc [OF ks] live_slots_take_le [of "Suc k" slots] Live size(2) by simp
    then have "card (empty_slots NewCap (new_ctrl r)) \<noteq> 0" using size(3) room by linarith
    then have ne: "empty_slots NewCap (new_ctrl r) \<noteq> {}" by auto
    have ab: "absent key (key e) (new_slots r)"
      unfolding absent_def elems
    proof
      fix x
      assume "x \<in> live_elems (take k slots)"
      then obtain j where "j < k" "slots ! j = Live x" using ks by (auto simp: live_elems_iff)
      then show "key x \<noteq> key e" using uniqueD [OF old _ k _ Live, of j x] k by auto
    qed
    define i where "i = hd (dropWhile (\<lambda>i. new_ctrl r ! i \<noteq> kCtrlEmpty) (probes NewCap (h (key e))))"
    note fill = fill_first_empty [OF new ne ab i_def]
    have probe: "RehashProbe (new_ctrl r) (NewCap - 1) (first_group (h (key e)) (NewCap - 1)) 0 = Some (Inr i)"
      unfolding i_def using ne by (intro RehashProbe_first [OF nlen(1,2)]) (auto simp: empty_slots_def)
    have kb: "k < length (old_slots r)" "old_slots r ! k = Live e"
      using old_r d Live ks by (simp_all add: nth_append)
    have oldk: "(old_slots r)[k := Raw] = replicate (Suc k) Raw @ drop (Suc k) slots"
      unfolding old_r d replicate_Suc_append by (simp add: list_update_append)
    let ?r = "\<lparr> new_ctrl = put_ctrl NewCap i (H2 (h (key e))) (new_ctrl r), new_slots = (new_slots r)[i := Live e],
       new_size = new_size r + 1, old_slots = (old_slots r)[k := Raw] \<rparr>"
    have run: "rehash_step key h NewCap c k r = Inr ?r"
      unfolding rehash_step_def rc rbind_Inr read_live_slot [OF kb] probe
      using full fill(1,2) nlen put_ctrl_run [OF nlen(2) fill(1)] kb
      by (simp add: returned_def move_cell_def read_live_slot construct_cell_def destroy_cell_def)
    have "rehash_ok key h NewCap slots (Suc k) ?r"
      using fill(3-6) size elems oldk Live live_slots_take_Suc [OF ks] live_elems_take_Suc [OF ks]
      unfolding rehash_ok_def by simp
    with run show thesis by (rule that)
  qed
qed

lemma rehash_loop:
  assumes "table_ok key h cap c slots" "table_capacity NewCap" "card (live_slots slots) < NewCap" "k \<le> cap"
  shows "\<exists>r. fold_res (rehash_step key h NewCap c) [0..<k]
       \<lparr> new_ctrl = fresh_ctrl NewCap, new_slots = replicate NewCap Raw, new_size = 0, old_slots = slots \<rparr> = Inr r \<and>
     rehash_ok key h NewCap slots k r"
  using assms(4)
proof (induction k)
  case 0
  have "rehash_ok key h NewCap slots 0
       \<lparr> new_ctrl = fresh_ctrl NewCap, new_slots = replicate NewCap Raw, new_size = 0, old_slots = slots \<rparr>"
    using fresh_table [OF assms(2)] by (simp add: rehash_ok_def live_slots_def live_elems_def)
  then show ?case by simp
next
  case (Suc k)
  then obtain r where r: "fold_res (rehash_step key h NewCap c) [0..<k]
       \<lparr> new_ctrl = fresh_ctrl NewCap, new_slots = replicate NewCap Raw, new_size = 0, old_slots = slots \<rparr> = Inr r"
    "rehash_ok key h NewCap slots k r" by auto
  obtain r' where "rehash_step key h NewCap c k r = Inr r'" "rehash_ok key h NewCap slots (Suc k) r'"
    by (rule rehash_step_ok [OF assms(1) r(2) _ assms(3)]) (use Suc.prems in simp)
  with r(1) Suc.prems show ?case by (simp add: upt_Suc_append fold_res_snoc)
qed

lemma CapacityToGrowAt_less: "table_capacity cap \<Longrightarrow> CapacityToGrowAt cap < cap"
  using CapacityToGrowAt_table [of cap] table_capacity_pos [of cap] by linarith

lemma Rehash_rep:
  assumes "swiss_inv key h s" "0 < n" "m_size s \<le> CapacityToGrowAt (NormalizeCapacity n)"
  obtains s' where "Rehash key h n s = Inr s'" "swiss_inv key h s'" "m_capacity s' = NormalizeCapacity n"
    "live_elems (m_slots s') = live_elems (m_slots s)" "m_size s' = m_size s"
    "m_growthLeft s' + m_size s = CapacityToGrowAt (NormalizeCapacity n)"
proof -
  let ?N = "NormalizeCapacity n"
  note N = NormalizeCapacity_table [OF assms(2)]
  have N0: "?N \<noteq> 0" using table_capacity_pos [OF N(1)] by simp
  obtain r where loop: "fold_res (rehash_step key h ?N (m_ctrl s)) [0..<m_capacity s]
       \<lparr> new_ctrl = fresh_ctrl ?N, new_slots = replicate ?N Raw, new_size = 0, old_slots = m_slots s \<rparr> = Inr r"
    and new: "table_ok key h ?N (new_ctrl r) (new_slots r)"
    and size: "new_size r = card (live_slots (new_slots r))" "new_size r = m_size s"
      "card (empty_slots ?N (new_ctrl r)) + new_size r = ?N"
    and elems: "live_elems (new_slots r) = live_elems (m_slots s)"
    and raw: "\<forall>c \<in> set (old_slots r). c = Raw"
    using assms(1)
  proof (cases rule: swiss_inv_cases)
    case no_storage
    then show ?thesis
      by (intro that [of "\<lparr> new_ctrl = fresh_ctrl ?N, new_slots = replicate ?N Raw, new_size = 0, old_slots = m_slots s \<rparr>"])
        (use fresh_table [OF N(1)] in \<open>auto simp: live_elems_def\<close>)
  next
    case storage
    have "card (live_slots (m_slots s)) < ?N"
      using assms(3) storage(3) CapacityToGrowAt_less [OF N(1)] by linarith
    then obtain r where "fold_res (rehash_step key h ?N (m_ctrl s)) [0..<m_capacity s]
       \<lparr> new_ctrl = fresh_ctrl ?N, new_slots = replicate ?N Raw, new_size = 0, old_slots = m_slots s \<rparr> = Inr r"
      "rehash_ok key h ?N (m_slots s) (m_capacity s) r"
      using rehash_loop [OF storage(1) N(1) _ order_refl] by blast
    then show ?thesis
      using that [of r] storage(3) table_ok_lengths(3) [OF storage(1)] by (simp add: rehash_ok_def)
  qed
  let ?s = "\<lparr> m_ctrl = new_ctrl r, m_slots = new_slots r, m_size = new_size r, m_capacity = ?N,
     m_growthLeft = CapacityToGrowAt ?N - new_size r \<rparr>"
  have run: "Rehash key h n s = Inr ?s"
    using N0 loop raw size(2) assms(3)
    by (auto simp: Rehash_def Let_def Deallocate_cells_def unsigned_sub_def)
  have "swiss_inv key h ?s"
    unfolding swiss_inv_def
    by (rule disjI2) (use new size assms(3) CapacityToGrowAt_table [OF N(1)] in auto)
  from that [OF run this] show thesis using elems size(2) assms(3) by simp
qed

end
