(* ===== verification/SwissAdd.thy ===== *)
theory SwissAdd
  imports SwissRehash "HOL-Library.Multiset"
begin

text \<open>
  What the two containers build on: growth, the search and insertion of \<open>AddImpl\<close>, lookup,
  removal, \<open>Reserve\<close>, the walks over the full slots and the collection of \<open>SortAndRehash\<close>.
\<close>

section \<open>Lookup and removal\<close>

lemma empty_somewhere:
  assumes "table_ok key h cap c slots" "g + cap div 8 = card (empty_slots cap c)"
  shows "empty_slots cap c \<noteq> {}" "\<exists>x \<in> set (probes cap H). c ! x = kCtrlEmpty"
proof -
  have "2 \<le> cap div 8" using table_ok_lengths(4) [OF assms(1)] by linarith
  then have "card (empty_slots cap c) \<noteq> 0" using assms(2) by linarith
  then show ne: "empty_slots cap c \<noteq> {}" by auto
  then show "\<exists>x \<in> set (probes cap H). c ! x = kCtrlEmpty"
    using probes_exact [OF table_ok_lengths(1) [OF assms(1)], of H] by (auto simp: empty_slots_def)
qed

lemma FindIndex_hit:
  assumes "swiss_inv key h s" "e \<in> live_elems (m_slots s)"
  obtains i where "FindIndex key h (key e) s = Inr (Some i)" "i < m_capacity s" "m_slots s ! i = Live e"
  using assms(1)
proof (cases rule: swiss_inv_cases)
  case no_storage
  then show ?thesis using assms(2) by (simp add: live_elems_def)
next
  case storage
  note len = table_ok_lengths [OF storage(1)]
  obtain i where i: "i < m_capacity s" "m_slots s ! i = Live e" using assms(2) len by (auto simp: live_elems_iff)
  have P: "set (probes (m_capacity s) (h (key e))) \<subseteq> {..<m_capacity s}" using probes_exact [OF len(1)] by simp
  have "i \<in> on_path (m_ctrl s) (m_capacity s) (h (key e))" by (rule slot_okD(2) [OF storage(1) i])
  from scan_hit(1) [OF storage(1) P this [unfolded on_path_def] i(2)]
  have "FindIndex key h (key e) s = Inr (Some i)" using storage(2) by (simp add: FindIndex_scan)
  with i that show ?thesis by blast
qed

lemma FindIndex_miss:
  assumes "swiss_inv key h s" "absent key v (m_slots s)"
  shows "FindIndex key h v s = Inr None"
  using assms(1)
proof (cases rule: swiss_inv_cases)
  case no_storage
  then show ?thesis by (simp add: FindIndex_def)
next
  case storage
  have P: "set (probes (m_capacity s) (h v)) \<subseteq> {..<m_capacity s}"
    using probes_exact [OF table_ok_lengths(1) [OF storage(1)]] by simp
  from find_miss [OF storage(1) assms(2) P] storage(2) show ?thesis by (simp add: FindIndex_scan)
qed

lemma elem_capacity:
  assumes "swiss_inv key h s" "i < m_capacity s"
  shows "table_ok key h (m_capacity s) (m_ctrl s) (m_slots s)"
    "m_size s = card (live_slots (m_slots s))"
    "m_growthLeft s + m_capacity s div 8 = card (empty_slots (m_capacity s) (m_ctrl s))"
  using assms by (auto elim: swiss_inv_cases)

lemma EraseAt_rep:
  assumes "swiss_inv key h s" "i < m_capacity s" "m_slots s ! i = Live e"
  obtains s' where "EraseAt i s = Inr s'" "swiss_inv key h s'"
    "live_elems (m_slots s') = live_elems (m_slots s) - {e}" "Suc (m_size s') = m_size s"
    "m_growthLeft s' = m_growthLeft s" "m_capacity s' = m_capacity s"
proof -
  note ok = elem_capacity [OF assms(1,2)] and len = table_ok_lengths [OF elem_capacity(1) [OF assms(1,2)]]
  let ?s = "s \<lparr> m_slots := (m_slots s)[i := Raw], m_ctrl := put_ctrl (m_capacity s) i kCtrlDeleted (m_ctrl s),
     m_size := m_size s - 1 \<rparr>"
  have full: "IsFull (m_ctrl s ! i)" using full_is_live [OF ok(1) assms(2)] assms(3) by simp
  then have "i \<notin> empty_slots (m_capacity s) (m_ctrl s)" by (auto simp: empty_slots_def)
  then have empties: "empty_slots (m_capacity s) (put_ctrl (m_capacity s) i kCtrlDeleted (m_ctrl s)) =
      empty_slots (m_capacity s) (m_ctrl s)"
    using empty_slots_put [OF len(2) assms(2), of kCtrlDeleted] by simp
  have il: "i < length (m_slots s)" using assms(2) len(3) by simp
  have "i \<in> live_slots (m_slots s)" using il assms(3) by (simp add: live_slots_def)
  from card_Suc_Diff1 [OF finite_slots(1) this]
  have live: "Suc (card (live_slots ((m_slots s)[i := Raw]))) = m_size s"
    unfolding live_slots_clear [OF il] ok(2) .
  then have run: "EraseAt i s = Inr ?s"
    using put_ctrl_run [OF len(2) assms(2)] il assms(3)
    by (simp add: EraseAt_def destroy_cell_def unsigned_sub_def)
  have "swiss_inv key h ?s"
    unfolding swiss_inv_def
    by (rule disjI2) (use clear_table [OF ok(1) assms(2)] live empties ok(3) in auto)
  from that [OF run this] show thesis
    using live_elems_clear [OF ok(1) assms(2,3)] live by simp
qed

section \<open>Growth and reservation\<close>

lemma size_fits:
  assumes "swiss_inv key h s"
  shows "m_size s + m_growthLeft s \<le> CapacityToGrowAt (m_capacity s)"
  using assms
proof (cases rule: swiss_inv_cases)
  case no_storage
  then show ?thesis by (simp add: CapacityToGrowAt_def)
next
  case storage
  let ?L = "live_slots (m_slots s)" and ?E = "empty_slots (m_capacity s) (m_ctrl s)"
  note len = table_ok_lengths [OF storage(1)]
  have "?L \<inter> ?E = {}"
    using slot_okD(1,4) [OF storage(1)] len(3)
    by (auto simp: live_slots_def empty_slots_def) (metis H2_special(1) cell.exhaust)
  then have "card ?L + card ?E = card (?L \<union> ?E)" by (simp add: card_Un_disjoint)
  also have "\<dots> \<le> card {..<m_capacity s}"
    by (rule card_mono) (use len(3) in \<open>auto simp: live_slots_def empty_slots_def\<close>)
  finally show ?thesis using storage(3,4) CapacityToGrowAt_table [OF len(1)] by simp
qed

lemma CapacityToGrowAt_mono:
  assumes "table_capacity a" "table_capacity b" "a \<le> b"
  shows "CapacityToGrowAt a \<le> CapacityToGrowAt b"
proof -
  obtain m n where m: "a = 8 * (2 * 2 ^ m)" "b = 8 * (2 * 2 ^ n)"
    using assms(1,2) by (auto simp: table_capacity_def)
  then have "(2::nat) ^ m \<le> 2 ^ n" using assms(3) by simp
  then show ?thesis
    using CapacityToGrowAt_table [OF assms(1)] CapacityToGrowAt_table [OF assms(2)] m by simp
qed

lemma Swiss_Reserve_rep:
  assumes "swiss_inv key h s"
  obtains s' where "Swiss_Reserve key h n s = Inr s'" "swiss_inv key h s'"
    "live_elems (m_slots s') = live_elems (m_slots s)" "m_capacity s \<le> m_capacity s'"
    "n \<le> int (CapacityToGrowAt (m_capacity s'))"
proof (cases "n \<le> 0")
  case True
  then show ?thesis using that [of s] assms by (simp add: Swiss_Reserve_def)
next
  case False
  let ?want = "(nat n * 8 + 6) div 7"
  have want: "0 < ?want" using False by (simp add: div_greater_zero_iff)
  note N = NormalizeCapacity_table [OF want]
  have holds: "nat n \<le> CapacityToGrowAt cap" if tc: "table_capacity cap" "?want \<le> cap" for cap
  proof -
    obtain m where "cap = 16 * 2 ^ m" using tc(1) by (auto simp: table_capacity_def)
    then have "8 * (cap div 8) = cap" by simp
    then show ?thesis using CapacityToGrowAt_table [OF tc(1)] tc(2) by linarith
  qed
  show ?thesis
  proof (cases "NormalizeCapacity ?want > m_capacity s")
    case True
    have "m_size s \<le> CapacityToGrowAt (m_capacity s)" using size_fits [OF assms] by linarith
    also have "\<dots> \<le> CapacityToGrowAt (NormalizeCapacity ?want)"
      using assms
    proof (cases rule: swiss_inv_cases)
      case no_storage
      then show ?thesis by (simp add: CapacityToGrowAt_def)
    next
      case storage
      then show ?thesis using CapacityToGrowAt_mono [OF table_ok_lengths(1) [OF storage(1)] N(1)] True by simp
    qed
    finally have fits: "m_size s \<le> CapacityToGrowAt (NormalizeCapacity (NormalizeCapacity ?want))"
      by (simp add: NormalizeCapacity_id [OF N(1)])
    obtain s' where s': "Rehash key h (NormalizeCapacity ?want) s = Inr s'" "swiss_inv key h s'"
      "m_capacity s' = NormalizeCapacity ?want" "live_elems (m_slots s') = live_elems (m_slots s)"
      by (rule Rehash_rep [OF assms _ fits]) (use table_capacity_pos [OF N(1)] NormalizeCapacity_id [OF N(1)] in auto)
    show ?thesis
      by (rule that [of s'])
        (use s' False True holds [OF N] in \<open>auto simp: Swiss_Reserve_def Let_def\<close>)
  next
    case enough: False
    have "table_capacity (m_capacity s)"
      using assms
    proof (cases rule: swiss_inv_cases)
      case no_storage
      then show ?thesis using enough table_capacity_pos [OF N(1)] by simp
    next
      case storage
      then show ?thesis using table_ok_lengths(1) by blast
    qed
    moreover have "?want \<le> m_capacity s" using enough N(2) by linarith
    ultimately have "nat n \<le> CapacityToGrowAt (m_capacity s)" by (rule holds)
    then show ?thesis using that [of s] assms False enough by (simp add: Swiss_Reserve_def Let_def)
  qed
qed

lemma grow_for_add_rep:
  assumes "swiss_inv key h s"
  obtains s' where "grow_for_add key h s = Inr s'" "swiss_inv key h s'"
    "live_elems (m_slots s') = live_elems (m_slots s)" "0 < m_growthLeft s'" "0 < m_capacity s'"
    "m_growthLeft s \<noteq> 0 \<Longrightarrow> s' = s"
    "m_growthLeft s = 0 \<Longrightarrow> m_capacity s' = max 16 (2 * m_capacity s)"
proof (cases "m_growthLeft s = 0")
  case False
  with assms have "0 < m_capacity s" by (cases rule: swiss_inv_cases) auto
  with False that [of s] assms show ?thesis by (simp add: grow_for_add_def)
next
  case True
  let ?n = "if m_capacity s = 0 then kGroupSize else m_capacity s * 2"
  have cap3: "table_capacity ?n \<and> ?n = max 16 (2 * m_capacity s) \<and> m_size s < CapacityToGrowAt ?n"
    using assms
  proof (cases rule: swiss_inv_cases)
    case no_storage
    then show ?thesis
      by (auto simp: table_capacity_def kGroupSize_def CapacityToGrowAt_def kMaxLoadFactorDenominator_def
          intro: exI [of _ 0])
  next
    case storage
    note len = table_ok_lengths [OF storage(1)]
    obtain m where m: "m_capacity s = 16 * 2 ^ m" using len(1) by (auto simp: table_capacity_def)
    then have tc: "table_capacity (m_capacity s * 2)"
      by (auto simp: table_capacity_def intro!: exI [of _ "Suc m"])
    have "m_size s \<le> CapacityToGrowAt (m_capacity s)" using size_fits [OF assms] by linarith
    also have "\<dots> < CapacityToGrowAt (m_capacity s * 2)"
      using CapacityToGrowAt_table [OF len(1)] CapacityToGrowAt_table [OF tc] m by simp
    finally show ?thesis using storage(2) tc len(4) by simp
  qed
  note cap = cap3 [THEN conjunct1] cap3 [THEN conjunct2, THEN conjunct1] cap3 [THEN conjunct2, THEN conjunct2]
  note id = NormalizeCapacity_id [OF cap(1)]
  obtain s' where s': "Rehash key h ?n s = Inr s'" "swiss_inv key h s'" "m_capacity s' = ?n"
    "live_elems (m_slots s') = live_elems (m_slots s)" "m_growthLeft s' + m_size s = CapacityToGrowAt ?n"
    by (rule Rehash_rep [OF assms, of ?n]) (use id cap(3) table_capacity_pos [OF cap(1)] in auto)
  have run: "grow_for_add key h s = Inr s'" using True s'(1) by (simp add: grow_for_add_def)
  have "0 < m_growthLeft s'" using s'(5) cap(3) by linarith
  moreover have "0 < m_capacity s'" using s'(3) table_capacity_pos [OF cap(1)] by linarith
  ultimately show ?thesis using that [OF run s'(2,4)] True s'(3) cap(2) by simp
qed

section \<open>The search and insertion of \<open>AddImpl\<close>\<close>

lemma AddProbe_hit:
  assumes "swiss_inv key h s" "e \<in> live_elems (m_slots s)"
  obtains i where "AddProbe key h (key e) s = Inr (Present i)" "i < m_capacity s" "m_slots s ! i = Live e"
  using assms(1)
proof (cases rule: swiss_inv_cases)
  case no_storage
  then show ?thesis using assms(2) by (simp add: live_elems_def)
next
  case storage
  note len = table_ok_lengths [OF storage(1)]
  obtain i where i: "i < m_capacity s" "m_slots s ! i = Live e" using assms(2) len by (auto simp: live_elems_iff)
  have P: "set (probes (m_capacity s) (h (key e))) \<subseteq> {..<m_capacity s}" using probes_exact [OF len(1)] by simp
  have "i \<in> on_path (m_ctrl s) (m_capacity s) (h (key e))" by (rule slot_okD(2) [OF storage(1) i])
  from scan_hit(2) [OF storage(1) P this [unfolded on_path_def] i(2)]
  have "AddProbe key h (key e) s = Inr (Present i)" by (simp add: AddProbe_scan)
  with i that show ?thesis by blast
qed

lemma AddProbe_miss:
  assumes "swiss_inv key h s" "absent key (key e) (m_slots s)" "0 < m_capacity s" "0 < m_growthLeft s"
  obtains j d s' where "AddProbe key h (key e) s = Inr (InsertAt j d)" "InsertInto key h e j d s = Inr s'"
    "swiss_inv key h s'" "live_elems (m_slots s') = insert e (live_elems (m_slots s))"
    "m_size s' = Suc (m_size s)" "m_capacity s' = m_capacity s" "j < m_capacity s" "m_slots s' ! j = Live e"
proof -
  let ?cap = "m_capacity s" and ?c = "m_ctrl s" and ?H = "h (key e)"
  note ok = elem_capacity [OF assms(1,3)]
  note len = table_ok_lengths [OF ok(1)] and some = empty_somewhere [OF ok(1,3)]
  have P: "set (probes ?cap ?H) \<subseteq> {..<?cap}" using probes_exact [OF len(1)] by simp
  note probe = add_miss [OF ok(1) assms(2) P some(2), where ins = None, unfolded AddProbe_scan [symmetric] option.case]
  note result = that
  have finish: thesis
    if run: "AddProbe key h (key e) s = Inr (InsertAt j d)" and j: "j < ?cap" "m_slots s ! j = Raw"
      and on_path: "j \<in> on_path (put_ctrl ?cap j (H2 ?H) ?c) ?cap ?H"
      and d: "d \<longleftrightarrow> ?c ! j \<noteq> kCtrlEmpty" for j d
  proof -
    let ?c' = "put_ctrl ?cap j (H2 ?H) ?c" and ?sl = "(m_slots s)[j := Live e]"
    let ?s = "s \<lparr> m_slots := ?sl, m_ctrl := ?c', m_size := m_size s + 1,
       m_growthLeft := (if d then m_growthLeft s else m_growthLeft s - 1) \<rparr>"
    have jl: "j < length (m_slots s)" using j(1) len(3) by simp
    have ins: "InsertInto key h e j d s = Inr ?s"
      using put_ctrl_run [OF len(2) j(1)] jl j(2) assms(4)
      by (simp add: InsertInto_def construct_cell_def unsigned_sub_def)
    have inv: "swiss_inv key h ?s"
    proof -
      have "j \<notin> live_slots (m_slots s)" using j(2) by (simp add: live_slots_def)
      then have "card (live_slots ?sl) = Suc (m_size s)"
        using live_slots_fill [OF jl, of e] ok(2) by simp
      moreover have "m_growthLeft ?s + ?cap div 8 = card (empty_slots ?cap ?c')"
      proof (cases d)
        case True
        then have "j \<notin> empty_slots ?cap ?c" using d by (simp add: empty_slots_def)
        then show ?thesis using True ok(3) empty_slots_put [OF len(2) j(1), of "H2 ?H"] by simp
      next
        case False
        then have "j \<in> empty_slots ?cap ?c" using d j(1) by (simp add: empty_slots_def)
        from card_Suc_Diff1 [OF finite_slots(2) this]
        have "Suc (card (empty_slots ?cap ?c')) = card (empty_slots ?cap ?c)"
          unfolding empty_slots_put [OF len(2) j(1) H2_special(1)] .
        then show ?thesis using False ok(3) assms(4) by simp
      qed
      ultimately show ?thesis
        unfolding swiss_inv_def
        by (intro disjI2) (use fill_table [OF ok(1) j assms(2) on_path] in simp)
    qed
    show thesis
      by (rule result [OF run ins inv]) (use j live_elems_fill [OF jl j(2), of e] jl in simp_all)
  qed
  let ?Q = "takeWhile (\<lambda>i. ?c ! i \<noteq> kCtrlEmpty) (probes ?cap ?H)"
  show thesis
  proof (cases "List.find (\<lambda>i. ?c ! i = kCtrlDeleted) ?Q")
    case None
    define j where "j = hd (dropWhile (\<lambda>i. ?c ! i \<noteq> kCtrlEmpty) (probes ?cap ?H))"
    have ex: "\<exists>x < ?cap. ?c ! x = kCtrlEmpty" using some(1) by (auto simp: empty_slots_def)
    note f = first_empty [OF len(1,2) ex j_def, of "H2 ?H"]
    have "m_slots s ! j = Raw" by (rule fill_first_empty(2) [OF ok(1) some(1) assms(2) j_def])
    then show thesis using finish [of j False] probe None f by (simp add: j_def)
  next
    case (Some j)
    then have j: "?c ! j = kCtrlDeleted" "j \<in> set ?Q" by (auto simp: find_Some_iff in_set_conv_nth)
    then have jc: "j < ?cap" using P set_takeWhileD by fastforce
    have "j \<in> on_path ?c ?cap ?H" using j(2) by (simp add: on_path_def)
    then have on_path: "j \<in> on_path (put_ctrl ?cap j (H2 ?H) ?c) ?cap ?H"
      using on_path_put [OF len(1,2) jc, of "H2 ?H"] by auto
    have "\<not> IsFull (?c ! j)" using j(1) by simp
    then have "m_slots s ! j = Raw"
      using full_is_live [OF ok(1) jc] slot_okD(4) [OF ok(1) jc] by (cases "m_slots s ! j") auto
    then show thesis using finish [of j True] probe Some jc on_path j(1) by simp
  qed
qed

section \<open>Walks over the full slots\<close>

definition live_list :: "'e buffer \<Rightarrow> 'e list" where
  "live_list slots = List.map_filter (\<lambda>c. case c of Live e \<Rightarrow> Some e | _ \<Rightarrow> None) slots"

lemma live_list_simps [simp]:
  "live_list [] = []"
  "live_list (Live e # cs) = e # live_list cs"
  "live_list (Raw # cs) = live_list cs"
  "live_list (MovedFrom # cs) = live_list cs"
  by (simp_all add: live_list_def List.map_filter_def)

lemma live_list_append: "live_list (xs @ ys) = live_list xs @ live_list ys"
  by (simp add: live_list_def List.map_filter_def)

lemma set_live_list: "set (live_list slots) = live_elems slots"
proof (induction slots)
  case Nil
  then show ?case by (simp add: live_elems_def)
next
  case (Cons c slots)
  then show ?case by (cases c) (auto simp: live_elems_def)
qed

lemma length_live_list:
  assumes "MovedFrom \<notin> set slots"
  shows "length (live_list slots) = card (live_slots slots)"
  using assms
proof (induction slots rule: rev_induct)
  case Nil
  then show ?case by (simp add: live_slots_def)
next
  case (snoc c slots)
  have eq: "take (Suc (length slots)) (slots @ [c]) = slots @ [c]" "take (length slots) (slots @ [c]) = slots" by simp_all
  have "card (live_slots (slots @ [c])) =
      (if c = Raw then card (live_slots slots) else Suc (card (live_slots slots)))"
    using live_slots_take_Suc [of "length slots" "slots @ [c]"] unfolding eq by simp
  with snoc show ?case by (cases c) (simp_all add: live_list_append)
qed

lemma table_no_moved: "table_ok key h cap c slots \<Longrightarrow> MovedFrom \<notin> set slots"
  using slot_okD(4) table_ok_lengths(3) by (fastforce simp: in_set_conv_nth)

lemma distinct_live_list:
  assumes "table_ok key h cap c slots"
  shows "distinct (map key (live_list slots))"
proof -
  have "distinct (map key (live_list (take k slots)))" if "k \<le> cap" for k
    using that
  proof (induction k)
    case 0
    then show ?case by simp
  next
    case (Suc k)
    then have k: "k < cap" "k < length slots" using table_ok_lengths(3) [OF assms] by simp_all
    show ?case
    proof (cases "slots ! k")
      case (Live e)
      have "key x \<noteq> key e" if x: "x \<in> live_elems (take k slots)" for x
      proof -
        obtain j where "j < k" "slots ! j = Live x" using x k by (auto simp: live_elems_iff)
        then show ?thesis using uniqueD [OF assms _ k(1) _ Live, of j x] k by auto
      qed
      then show ?thesis
        using Suc k Live by (fastforce simp: take_Suc_conv_app_nth live_list_append set_live_list)
    qed (use Suc k in \<open>simp_all add: take_Suc_conv_app_nth live_list_append\<close>)
  qed
  from this [of cap] show ?thesis using table_ok_lengths(3) [OF assms] by simp
qed

lemma fold_res_single: "fold_res f [x] s = f x s"
  by (simp add: rbind_def split: sum.splits)

lemma fold_res_single': "fold_res f [x] = f x"
  by (rule ext) (rule fold_res_single)

lemma visit_full_loop:
  assumes "table_ok key h (m_capacity s) (m_ctrl s) (m_slots s)" "k \<le> m_capacity s"
  shows "fold_res (visit_full (\<lambda>I. f) s) [0..<k] st = fold_res f (live_list (take k (m_slots s))) st"
  using assms(2)
proof (induction k)
  case 0
  then show ?case by simp
next
  case (Suc k)
  then have k: "k < m_capacity s" "k < length (m_slots s)" using table_ok_lengths(3) [OF assms(1)] by simp_all
  have "visit_full (\<lambda>I. f) s k = fold_res f (live_list [m_slots s ! k])"
    using read_ctrl_in [OF assms(1) k(1)] full_is_live [OF assms(1) k(1)] slot_okD(4) [OF assms(1) k(1)] k(2)
    by (cases "m_slots s ! k") (auto simp: visit_full_def read_cell_def fold_res_single fun_eq_iff
        simp del: fold_res.simps(2))
  then show ?case using Suc k
    by (simp add: upt_Suc_append fold_res_append fold_res_single' take_Suc_conv_app_nth live_list_append
        del: fold_res.simps(2))
qed

lemma visit_full_all:
  assumes "swiss_inv key h s"
  shows "fold_res (visit_full (\<lambda>I. f) s) [0..<m_capacity s] st = fold_res f (live_list (m_slots s)) st"
  using assms
proof (cases rule: swiss_inv_cases)
  case storage
  from visit_full_loop [OF storage(1) order_refl] show ?thesis using table_ok_lengths(3) [OF storage(1)] by simp
qed simp

section \<open>Iteration\<close>

lemma SkipNonFull_next:
  assumes "table_ok key h (m_capacity s) (m_ctrl s) (m_slots s)" "i \<le> m_capacity s"
  obtains j where "SkipNonFull s i = Inr j" "i \<le> j" "j \<le> m_capacity s"
    "live_list (drop i (m_slots s)) = live_list (drop j (m_slots s))"
    "j < m_capacity s \<Longrightarrow> \<exists>e. m_slots s ! j = Live e"
proof -
  note len = table_ok_lengths [OF assms(1)]
  have last: "m_ctrl s ! m_capacity s = kCtrlSentinel" using assms(1) by (simp add: table_ok_def layout_ok_def)
  have "\<exists>j. SkipNonFull s (m_capacity s - n) = Inr j \<and> m_capacity s - n \<le> j \<and> j \<le> m_capacity s \<and>
      live_list (drop (m_capacity s - n) (m_slots s)) = live_list (drop j (m_slots s)) \<and>
      (j < m_capacity s \<longrightarrow> (\<exists>e. m_slots s ! j = Live e))" if "n \<le> m_capacity s" for n
    using that
  proof (induction n)
    case 0
    have "SkipNonFull s (m_capacity s) = Inr (m_capacity s)"
      using last len by (subst SkipNonFull.simps) simp
    then show ?case by simp
  next
    case (Suc n)
    define i where "i = m_capacity s - Suc n"
    have i: "i < m_capacity s" "Suc i = m_capacity s - n" using Suc.prems by (simp_all add: i_def)
    have d: "drop i (m_slots s) = m_slots s ! i # drop (Suc i) (m_slots s)"
      using i(1) len by (simp add: Cons_nth_drop_Suc)
    have step: "SkipNonFull s i =
        (if m_ctrl s ! i \<noteq> kCtrlSentinel \<and> \<not> IsFull (m_ctrl s ! i) then SkipNonFull s (Suc i) else Inr i)"
      using i(1) len by (subst SkipNonFull.simps) simp
    show ?case
    proof (cases "m_slots s ! i")
      case Raw
      then have "SkipNonFull s i = SkipNonFull s (Suc i)"
        using step slot_okD(3) [OF assms(1) i(1) Raw] by auto
      then show ?thesis using Suc Raw d i by (auto simp flip: i_def)
    next
      case (Live e)
      then have "SkipNonFull s i = Inr i" using step full_is_live [OF assms(1) i(1)] by simp
      then show ?thesis using Live i by (auto simp flip: i_def)
    next
      case MovedFrom
      then show ?thesis using slot_okD(4) [OF assms(1) i(1)] by simp
    qed
  qed
  from this [of "m_capacity s - i"] assms(2) that show thesis by auto
qed

lemma walk_from_live:
  assumes "table_ok key h (m_capacity s) (m_ctrl s) (m_slots s)" "i \<le> m_capacity s"
    and "i < m_capacity s \<Longrightarrow> \<exists>e. m_slots s ! i = Live e"
  shows "walk_from s (Some (m_capacity s)) i = Inr (live_list (drop i (m_slots s)))"
  using assms(2,3)
proof (induction "m_capacity s - i" arbitrary: i rule: less_induct)
  case less
  note len = table_ok_lengths [OF assms(1)]
  show ?case
  proof (cases "i = m_capacity s")
    case True
    then show ?thesis using len by (subst walk_from.simps) simp
  next
    case False
    then have i: "i < m_capacity s" using less.prems by simp
    then obtain e where e: "m_slots s ! i = Live e" using less.prems by auto
    obtain j where j: "SkipNonFull s (Suc i) = Inr j" "Suc i \<le> j" "j \<le> m_capacity s"
      "live_list (drop (Suc i) (m_slots s)) = live_list (drop j (m_slots s))"
      "j < m_capacity s \<Longrightarrow> \<exists>e. m_slots s ! j = Live e"
      by (rule SkipNonFull_next [OF assms(1), of "Suc i"]) (use i in auto)
    have "walk_from s (Some (m_capacity s)) j = Inr (live_list (drop j (m_slots s)))"
      by (rule less.hyps) (use i j in auto)
    moreover have "drop i (m_slots s) = Live e # drop (Suc i) (m_slots s)"
      using i len e by (metis Cons_nth_drop_Suc)
    ultimately show ?thesis
      using False e i j(1,4) len by (subst walk_from.simps) (simp add: Iter_deref_def Iter_next_def read_live_slot)
  qed
qed

lemma Range_for_exact:
  assumes "swiss_inv key h s"
  shows "Range_for s = Inr (live_list (m_slots s))"
  using assms
proof (cases rule: swiss_inv_cases)
  case no_storage
  then show ?thesis by (simp add: Range_for_def Iter_begin_def Iter_end_def)
next
  case storage
  note len = table_ok_lengths [OF storage(1)]
  obtain j where j: "SkipNonFull s 0 = Inr j" "j \<le> m_capacity s"
    "live_list (drop 0 (m_slots s)) = live_list (drop j (m_slots s))"
    "j < m_capacity s \<Longrightarrow> \<exists>e. m_slots s ! j = Live e"
    by (rule SkipNonFull_next [OF storage(1), of 0]) auto
  obtain k where "SkipNonFull s (m_capacity s) = Inr k" "m_capacity s \<le> k" "k \<le> m_capacity s"
    by (rule SkipNonFull_next [OF storage(1), of "m_capacity s"]) auto
  then have last: "SkipNonFull s (m_capacity s) = Inr (m_capacity s)" by simp
  show ?thesis
    using storage(2) j(1,3) last walk_from_live [OF storage(1) j(2,4)] len
    by (auto simp: Range_for_def Iter_begin_def Iter_end_def)
qed

section \<open>The collection of \<open>SortAndRehash\<close>\<close>

lemma take_full_loop:
  assumes "table_ok key h cap c slots" "k \<le> cap"
  shows "fold_res (take_if_full c) [0..<k] ([], slots) =
     Inr (live_list (take k slots), replicate k Raw @ drop k slots)"
  using assms(2)
proof (induction k)
  case 0
  then show ?case by simp
next
  case (Suc k)
  then have k: "k < cap" "k < length slots" using table_ok_lengths(3) [OF assms(1)] by simp_all
  have d: "drop k slots = slots ! k # drop (Suc k) slots" using k by (simp add: Cons_nth_drop_Suc)
  have "take_if_full c k (Temp, replicate k Raw @ slots ! k # drop (Suc k) slots) =
      Inr (Temp @ live_list [slots ! k], replicate k Raw @ Raw # drop (Suc k) slots)" for Temp
    using read_ctrl_in [OF assms(1) k(1)] full_is_live [OF assms(1) k(1)] slot_okD(4) [OF assms(1) k(1)]
    by (cases "slots ! k") (auto simp: take_if_full_def move_cell_def read_cell_def destroy_cell_def
        nth_append list_update_append)
  then show ?case using Suc k d
    by (simp add: upt_Suc_append fold_res_append take_Suc_conv_app_nth live_list_append
        replicate_Suc_append del: replicate.simps)
qed

text \<open>
  \<open>SortAndRehash\<close> is the addition, to an empty table of the same capacity, of the elements in
  the order the comparator gives.
\<close>

lemma SortAndRehash_unfold:
  assumes "swiss_inv key h s" "1 < m_size s" "mset (sorter (live_list (m_slots s))) = mset (live_list (m_slots s))"
  obtains s0 where "SortAndRehash bld add sorter s = fold_res add (sorter (live_list (m_slots s))) s0"
    "swiss_inv key h s0" "live_elems (m_slots s0) = {}" "m_capacity s0 = m_capacity s"
    "s0 = \<lparr> m_ctrl = fresh_ctrl (m_capacity s), m_slots = replicate (m_capacity s) Raw, m_size = 0,
       m_capacity = m_capacity s, m_growthLeft = CapacityToGrowAt (m_capacity s) \<rparr>"
proof -
  let ?s0 = "\<lparr> m_ctrl = fresh_ctrl (m_capacity s), m_slots = replicate (m_capacity s) Raw, m_size = 0,
       m_capacity = m_capacity s, m_growthLeft = CapacityToGrowAt (m_capacity s) \<rparr>"
  from assms(1) have storage: "table_ok key h (m_capacity s) (m_ctrl s) (m_slots s)" "0 < m_capacity s"
    "m_size s = card (live_slots (m_slots s))"
    using assms(2) by (cases rule: swiss_inv_cases; simp)+
  note len = table_ok_lengths [OF storage(1)]
  have loop: "fold_res (take_if_full (m_ctrl s)) [0..<m_capacity s] ([], m_slots s) =
      Inr (live_list (m_slots s), replicate (m_capacity s) Raw)"
    using take_full_loop [OF storage(1) order_refl] len(3) by simp
  have "length (live_list (m_slots s)) = m_size s"
    using length_live_list [OF table_no_moved [OF storage(1)]] storage(3) by simp
  then have "SortAndRehash bld add sorter s = fold_res add (sorter (live_list (m_slots s)))
      (s \<lparr> m_slots := replicate (m_capacity s) Raw, m_ctrl := fresh_ctrl (m_capacity s), m_size := 0,
          m_growthLeft := CapacityToGrowAt (m_capacity s) \<rparr>)"
    using loop assms(2) by (simp add: SortAndRehash_def acheck_def)
  also have "s \<lparr> m_slots := replicate (m_capacity s) Raw, m_ctrl := fresh_ctrl (m_capacity s), m_size := 0,
      m_growthLeft := CapacityToGrowAt (m_capacity s) \<rparr> = ?s0" by simp
  finally have "SortAndRehash bld add sorter s = fold_res add (sorter (live_list (m_slots s))) ?s0" .
  from that [OF this fresh_inv [OF len(1)]] show thesis using fresh_table(4) [OF len(1)] by simp
qed

end
