(* ===== verification/TSetModel.thy ===== *)
theory TSetModel
  imports SwissAdd
begin

text \<open>
  \<open>TSet<T>\<close> (\<open>Public/Containers/TSet.h\<close>) on the shared table: the key of an element is the
  element.  Where an operation takes a \<open>const T&\<close> that may be an element of the set itself, the
  argument is a \<open>vref\<close>, as for the arrays; \<open>Ext\<close> also stands for an rvalue.
\<close>

section \<open>Adding\<close>

definition arg_value :: "bool \<Rightarrow> 'a vref \<Rightarrow> 'a swiss \<Rightarrow> array_error + 'a" where
  "arg_value replaced v s = read_ref replaced v (m_slots s)"

text \<open>
  \<open>AddImpl\<close> calls itself after a rehash when its probe runs out; \<open>None\<close> is a call that does not
  return.  A reference to an own element does not survive a rehash.
\<close>

partial_function (option) Set_AddImpl ::
  "('a \<Rightarrow> u64) \<Rightarrow> 'a vref \<Rightarrow> 'a swiss \<Rightarrow> (array_error + bool \<times> 'a swiss) option" where
  "Set_AddImpl h v s =
     (case grow_for_add id h s of
        Inl e \<Rightarrow> Some (Inl e)
      | Inr s1 \<Rightarrow>
         (case arg_value (m_growthLeft s = 0) v s1 of
            Inl e \<Rightarrow> Some (Inl e)
          | Inr x \<Rightarrow>
             (case AddProbe id h x s1 of
                Inl e \<Rightarrow> Some (Inl e)
              | Inr (Present i) \<Rightarrow> Some (Inr (False, s1))
              | Inr (InsertAt j d) \<Rightarrow> Some (rbind (InsertInto id h x j d s1) (\<lambda>s2. Inr (True, s2)))
              | Inr (Passed ins) \<Rightarrow>
                 (case Rehash id h (m_capacity s1 * 2) s1 of
                    Inl e \<Rightarrow> Some (Inl e)
                  | Inr s2 \<Rightarrow>
                     (case v of Own j \<Rightarrow> Some (Inl DanglingRef) | Ext y \<Rightarrow> Set_AddImpl h v s2)))))"

declare Set_AddImpl.simps [code]

definition Set_Add :: "('a \<Rightarrow> u64) \<Rightarrow> 'a vref \<Rightarrow> 'a swiss \<Rightarrow> array_error + bool \<times> 'a swiss" where
  "Set_Add h v s = returned (Set_AddImpl h v s)"

definition add_quiet :: "('a \<Rightarrow> u64) \<Rightarrow> 'a \<Rightarrow> 'a swiss \<Rightarrow> array_error + 'a swiss" where
  "add_quiet h x s = rbind (Set_Add h (Ext x) s) (\<lambda>(b, s'). Inr s')"

section \<open>Construction, assignment, destruction\<close>

datatype 'e table_rhs = ThisTable | OtherTable "'e swiss"

definition Set_copy_from :: "('a \<Rightarrow> u64) \<Rightarrow> 'a swiss \<Rightarrow> 'a swiss \<Rightarrow> array_error + 'a swiss" where
  "Set_copy_from h src s =
     (if m_size src > 0
      then rbind (Swiss_Reserve id h (to_i32 (m_size src)) s)
             (fold_res (visit_full (\<lambda>I. add_quiet h) src) [0..<m_capacity src])
      else Inr s)"

definition Set_copy_ctor :: "('a \<Rightarrow> u64) \<Rightarrow> 'a swiss \<Rightarrow> array_error + 'a swiss" where
  "Set_copy_ctor h src = Set_copy_from h src Swiss_ctor"

definition Set_copy_assign :: "('a \<Rightarrow> u64) \<Rightarrow> 'a table_rhs \<Rightarrow> 'a swiss \<Rightarrow> array_error + 'a swiss" where
  "Set_copy_assign h rhs s = (case rhs of
       ThisTable \<Rightarrow> Inr s
     | OtherTable src \<Rightarrow> rbind (ClearAndDeallocate s) (Set_copy_from h src))"

text \<open>The new table and what is left of the old one\<close>

definition Swiss_move_ctor :: "'e swiss \<Rightarrow> 'e swiss \<times> 'e swiss" where
  "Swiss_move_ctor src =
     (src, src \<lparr> m_ctrl := kEmptyGroupBytes, m_slots := [], m_size := 0, m_capacity := 0, m_growthLeft := 0 \<rparr>)"

definition Swiss_move_assign :: "'e table_rhs \<Rightarrow> 'e swiss \<Rightarrow> array_error + 'e swiss \<times> 'e table_rhs" where
  "Swiss_move_assign rhs s = (case rhs of
       ThisTable \<Rightarrow> Inr (s, ThisTable)
     | OtherTable src \<Rightarrow> rbind (ClearAndDeallocate s) (\<lambda>s1.
         Inr (s1 \<lparr> m_ctrl := m_ctrl src, m_slots := m_slots src, m_size := m_size src,
                    m_capacity := m_capacity src, m_growthLeft := m_growthLeft src \<rparr>,
              OtherTable (src \<lparr> m_ctrl := kEmptyGroupBytes, m_slots := [], m_size := 0, m_capacity := 0,
                                m_growthLeft := 0 \<rparr>))))"

definition Set_dtor :: "'e swiss \<Rightarrow> array_error + 'e swiss" where
  "Set_dtor = ClearAndDeallocate"

section \<open>Queries and removal\<close>

definition Set_Contains :: "('a \<Rightarrow> u64) \<Rightarrow> 'a \<Rightarrow> 'a swiss \<Rightarrow> array_error + bool" where
  "Set_Contains h Value s = rbind (FindIndex id h Value s) (\<lambda>i. Inr (i \<noteq> None))"

definition Set_Remove :: "('a \<Rightarrow> u64) \<Rightarrow> 'a \<Rightarrow> 'a swiss \<Rightarrow> array_error + bool \<times> 'a swiss" where
  "Set_Remove h Value s = rbind (FindIndex id h Value s) (\<lambda>Idx. case Idx of
       None \<Rightarrow> Inr (False, s)
     | Some i \<Rightarrow> rbind (EraseAt i s) (\<lambda>s'. Inr (True, s')))"

section \<open>Bulk operations\<close>

definition Set_Append_copy :: "('a \<Rightarrow> u64) \<Rightarrow> 'a table_rhs \<Rightarrow> 'a swiss \<Rightarrow> array_error + 'a swiss" where
  "Set_Append_copy h rhs s = (case rhs of
       ThisTable \<Rightarrow> Inr s
     | OtherTable src \<Rightarrow> fold_res (visit_full (\<lambda>I. add_quiet h) src) [0..<m_capacity src] s)"

text \<open>An element of the other set is moved from when \<open>AddImpl\<close> constructs from it.\<close>

definition append_move_step ::
  "('a \<Rightarrow> u64) \<Rightarrow> nat \<Rightarrow> 'a swiss \<times> 'a swiss \<Rightarrow> array_error + 'a swiss \<times> 'a swiss" where
  "append_move_step h I = (\<lambda>(src, s).
     rbind (read_ctrl I (m_ctrl src)) (\<lambda>C.
       if IsFull C then
         rbind (read_cell I (m_slots src)) (\<lambda>e.
         rbind (Set_Add h (Ext e) s) (\<lambda>(b, s').
         Inr (if b then src \<lparr> m_slots := (m_slots src)[I := MovedFrom] \<rparr> else src, s')))
       else Inr (src, s)))"

definition Set_Append_move ::
  "('a \<Rightarrow> u64) \<Rightarrow> 'a table_rhs \<Rightarrow> 'a swiss \<Rightarrow> array_error + 'a swiss \<times> 'a table_rhs" where
  "Set_Append_move h rhs s = (case rhs of
       ThisTable \<Rightarrow> Inr (s, ThisTable)
     | OtherTable src \<Rightarrow>
         rbind (fold_res (append_move_step h) [0..<m_capacity src] (src, s)) (\<lambda>(src1, s1).
         rbind (ClearAndDeallocate src1) (\<lambda>src2. Inr (s1, OtherTable src2))))"

definition Set_Sort ::
  "build \<Rightarrow> ('a \<Rightarrow> u64) \<Rightarrow> ('a list \<Rightarrow> 'a list) \<Rightarrow> 'a swiss \<Rightarrow> array_error + 'a swiss" where
  "Set_Sort bld h sorter s = (if m_size s \<le> 1 then Inr s else SortAndRehash bld (add_quiet h) sorter s)"

definition Set_Array :: "build \<Rightarrow> traits \<Rightarrow> 'a swiss \<Rightarrow> array_error + 'a tarray" where
  "Set_Array bld t s =
     rbind (Reserve bld t (to_i32 (m_size s)) TArray_ctor)
       (fold_res (visit_full (\<lambda>I e a. rbind (Add t (Ext e) a) (\<lambda>(i, a'). Inr a')) s) [0..<m_capacity s])"

end
