(* ===== verification/TSetTheorems.thy ===== *)
theory TSetTheorems
  imports TSetModel TArrayProps OpRefinement
begin

text \<open>
  \<open>TSet\<close> implements a finite set: every operation refines the operation on sets, and so does
  every run (the interface \<open>op_refinement\<close>).  Then what the hints of the header promise and the
  code does not do: \<open>Sort\<close> does not sort, and adding a present element may reallocate.
\<close>

section \<open>Single operations\<close>

definition set_rep :: "('a \<Rightarrow> u64) \<Rightarrow> 'a swiss \<Rightarrow> 'a set \<Rightarrow> bool" where
  "set_rep h s M \<longleftrightarrow> swiss_inv id h s \<and> live_elems (m_slots s) = M"

lemma set_rep_ctor: "set_rep h Swiss_ctor {}"
  by (simp add: set_rep_def live_elems_def)

lemma set_rep_card: "set_rep h s M \<Longrightarrow> m_size s = card M"
proof -
  assume rep: "set_rep h s M"
  then have "swiss_inv id h s" by (simp add: set_rep_def)
  then show ?thesis
  proof (cases rule: swiss_inv_cases)
    case no_storage
    then show ?thesis using rep by (simp add: set_rep_def live_elems_def)
  next
    case storage
    have "distinct (live_list (m_slots s))" using distinct_live_list [OF storage(1)] by simp
    then have "card (live_elems (m_slots s)) = length (live_list (m_slots s))"
      by (metis distinct_card set_live_list)
    also have "\<dots> = m_size s"
      using length_live_list [OF table_no_moved [OF storage(1)]] storage(3) by simp
    finally show ?thesis using rep by (simp add: set_rep_def)
  qed
qed

lemma absent_id: "absent id v slots \<longleftrightarrow> v \<notin> live_elems slots"
  by (auto simp: absent_def)

lemma Set_Add_rep:
  assumes "set_rep h s M"
  obtains s' where "Set_Add h (Ext x) s = Inr (x \<notin> M, s')" "set_rep h s' (insert x M)"
    "m_growthLeft s = 0 \<Longrightarrow> m_capacity s' = max 16 (2 * m_capacity s)"
    "m_growthLeft s \<noteq> 0 \<Longrightarrow> m_capacity s' = m_capacity s"
    "m_growthLeft s \<noteq> 0 \<Longrightarrow> x \<in> M \<Longrightarrow> s' = s"
proof -
  have inv: "swiss_inv id h s" and M: "live_elems (m_slots s) = M" using assms by (auto simp: set_rep_def)
  obtain s1 where s1: "grow_for_add id h s = Inr s1" "swiss_inv id h s1"
    "live_elems (m_slots s1) = live_elems (m_slots s)" "0 < m_growthLeft s1" "0 < m_capacity s1"
    "m_growthLeft s \<noteq> 0 \<Longrightarrow> s1 = s" "m_growthLeft s = 0 \<Longrightarrow> m_capacity s1 = max 16 (2 * m_capacity s)"
    by (rule grow_for_add_rep [OF inv]) (rule that)
  have arg: "arg_value r (Ext x) s1 = Inr x" for r by (simp add: arg_value_def read_ref_def)
  show thesis
  proof (cases "x \<in> M")
    case True
    then obtain i where "AddProbe id h (id x) s1 = Inr (Present i)"
      using AddProbe_hit [OF s1(2), of x] s1(3) M by auto
    then have "Set_Add h (Ext x) s = Inr (False, s1)"
      using s1(1) arg by (simp add: Set_Add_def returned_def Set_AddImpl.simps [of h "Ext x" s])
    with True s1 M that [of s1] show thesis by (auto simp: set_rep_def insert_absorb)
  next
    case False
    then have ab: "absent id (id x) (m_slots s1)" using s1(3) M by (simp add: absent_id)
    obtain j d s2 where s2: "AddProbe id h (id x) s1 = Inr (InsertAt j d)" "InsertInto id h x j d s1 = Inr s2"
      "swiss_inv id h s2" "live_elems (m_slots s2) = insert x (live_elems (m_slots s1))"
      "m_capacity s2 = m_capacity s1"
      by (rule AddProbe_miss [OF s1(2) ab s1(5,4)])
    then have "Set_Add h (Ext x) s = Inr (True, s2)"
      using s1(1) arg by (simp add: Set_Add_def returned_def Set_AddImpl.simps [of h "Ext x" s])
    with False s1 s2 M that [of s2] show thesis by (auto simp: set_rep_def)
  qed
qed

lemma add_quiet_rep:
  assumes "set_rep h s M"
  obtains s' where "add_quiet h x s = Inr s'" "set_rep h s' (insert x M)"
  by (rule Set_Add_rep [OF assms, where x = x]) (simp add: add_quiet_def that)

lemma add_all_rep:
  assumes "set_rep h s M"
  shows "\<exists>s'. fold_res (add_quiet h) xs s = Inr s' \<and> set_rep h s' (M \<union> set xs)"
  using assms
proof (induction xs arbitrary: s M)
  case Nil
  then show ?case by simp
next
  case (Cons x xs)
  obtain s1 where s1: "add_quiet h x s = Inr s1" "set_rep h s1 (insert x M)" by (rule add_quiet_rep [OF Cons.prems])
  from Cons.IH [OF s1(2)] s1(1) show ?case by auto
qed

lemma Set_Contains_rep: "set_rep h s M \<Longrightarrow> Set_Contains h x s = Inr (x \<in> M)"
  using FindIndex_miss [of id h s x]
  by (cases "x \<in> M") (auto simp: set_rep_def Set_Contains_def absent_id elim: FindIndex_hit [of id h s x])

lemma Set_Remove_rep:
  assumes "set_rep h s M"
  obtains s' where "Set_Remove h x s = Inr (x \<in> M, s')" "set_rep h s' (M - {x})"
proof (cases "x \<in> M")
  case True
  obtain i where i: "FindIndex id h x s = Inr (Some i)" "i < m_capacity s" "m_slots s ! i = Live x"
    using FindIndex_hit [of id h s x] True assms by (auto simp: set_rep_def)
  obtain s' where "EraseAt i s = Inr s'" "swiss_inv id h s'" "live_elems (m_slots s') = live_elems (m_slots s) - {x}"
    using EraseAt_rep [OF _ i(2,3)] assms by (metis set_rep_def)
  then show ?thesis using that [of s'] True i(1) assms by (simp add: Set_Remove_def set_rep_def)
next
  case False
  then have "FindIndex id h x s = Inr None"
    using FindIndex_miss [of id h s x] assms by (simp add: set_rep_def absent_id)
  then show ?thesis using that [of s] False assms by (simp add: Set_Remove_def)
qed

lemma Set_copy_from_rep:
  assumes "set_rep h src N" "set_rep h s M"
  obtains s' where "Set_copy_from h src s = Inr s'" "set_rep h s' (M \<union> N)"
proof (cases "m_size src > 0")
  case True
  obtain s1 where s1: "Swiss_Reserve id h (to_i32 (m_size src)) s = Inr s1" "swiss_inv id h s1"
    "live_elems (m_slots s1) = live_elems (m_slots s)"
    using Swiss_Reserve_rep [of id h s] assms(2) by (metis set_rep_def)
  then have rep: "set_rep h s1 M" using assms(2) by (simp add: set_rep_def)
  have inv: "swiss_inv id h src" and N: "set (live_list (m_slots src)) = N"
    using assms(1) by (simp_all add: set_rep_def set_live_list)
  obtain s2 where "fold_res (add_quiet h) (live_list (m_slots src)) s1 = Inr s2" "set_rep h s2 (M \<union> N)"
    using add_all_rep [OF rep, of "live_list (m_slots src)"] N by auto
  then show ?thesis using that [of s2] True s1(1)
      by (simp add: Set_copy_from_def visit_full_all [OF inv])
next
  case False
  then have "card N = 0" using set_rep_card [OF assms(1)] by simp
  moreover have "finite N" using assms(1) by (auto simp: set_rep_def set_live_list [symmetric])
  ultimately show ?thesis using that [of s] False assms(2) by (simp add: Set_copy_from_def)
qed

lemma move_ctor_rep: "set_rep h src N \<Longrightarrow> Swiss_move_ctor src = (src, Swiss_ctor)"
  by (simp add: Swiss_move_ctor_def Swiss_ctor_def)

lemma Set_Append_move_step:
  assumes "set_rep h s M" "table_ok id h cap c slots"
    and "m_ctrl src = c" "m_slots src = pre @ drop k slots" "length pre = k" "k < cap"
  obtains src' s' x where "append_move_step h k (src, s) = Inr (src', s')"
    "set_rep h s' (M \<union> set (live_list [slots ! k]))"
    "src' = src \<lparr> m_slots := pre @ x # drop (Suc k) slots \<rparr>" "x = Raw \<longleftrightarrow> slots ! k = Raw"
proof -
  note len = table_ok_lengths [OF assms(2)]
  have d: "drop k slots = slots ! k # drop (Suc k) slots" using assms(6) len by (simp add: Cons_nth_drop_Suc)
  have rc: "read_ctrl k (m_ctrl src) = Inr (c ! k)" using read_ctrl_in [OF assms(2,6)] assms(3) by simp
  have src: "src \<lparr> m_slots := pre @ slots ! k # drop (Suc k) slots \<rparr> = src" using assms(4) d by simp
  show thesis
  proof (cases "slots ! k")
    case Raw
    then have "append_move_step h k (src, s) = Inr (src, s)"
      using full_is_live [OF assms(2,6)] rc by (simp add: append_move_step_def)
    then show thesis using that [of src s Raw] assms(1) src Raw by simp
  next
    case MovedFrom
    then show thesis using slot_okD(4) [OF assms(2,6)] by simp
  next
    case (Live e)
    obtain s' where s': "Set_Add h (Ext e) s = Inr (e \<notin> M, s')" "set_rep h s' (insert e M)"
      by (rule Set_Add_rep [OF assms(1)])
    have "IsFull (c ! k)" using full_is_live [OF assms(2,6)] Live by simp
    moreover have "read_cell k (m_slots src) = Inr e"
      using assms(4,5) d Live by (simp add: read_cell_def nth_append)
    moreover have "(m_slots src)[k := MovedFrom] = pre @ MovedFrom # drop (Suc k) slots"
      using assms(4,5) d by (simp add: list_update_append)
    ultimately have run: "append_move_step h k (src, s) =
        Inr (if e \<notin> M then src \<lparr> m_slots := pre @ MovedFrom # drop (Suc k) slots \<rparr> else src, s')"
      using rc s'(1) by (simp add: append_move_step_def)
    show thesis
    proof (cases "e \<in> M")
      case True
      then show thesis using that [of src s' "Live e"] run s'(2) src Live by simp
    next
      case False
      then show thesis using that [of _ s' MovedFrom] run s'(2) Live by simp
    qed
  qed
qed

lemma Set_Append_move_loop:
  assumes "set_rep h s M" "table_ok id h (m_capacity src) (m_ctrl src) (m_slots src)" "k \<le> m_capacity src"
  shows "\<exists>s' pre. fold_res (append_move_step h) [0..<k] (src, s) =
       Inr (src \<lparr> m_slots := pre @ drop k (m_slots src) \<rparr>, s') \<and>
     set_rep h s' (M \<union> set (live_list (take k (m_slots src)))) \<and> length pre = k \<and>
     (\<forall>i < k. pre ! i = Raw \<longleftrightarrow> m_slots src ! i = Raw)"
  using assms(3)
proof (induction k)
  case 0
  then show ?case using assms(1) by simp
next
  case (Suc k)
  then have k: "k < m_capacity src" "k < length (m_slots src)" using table_ok_lengths(3) [OF assms(2)] by simp_all
  obtain s1 pre where IH: "fold_res (append_move_step h) [0..<k] (src, s) =
       Inr (src \<lparr> m_slots := pre @ drop k (m_slots src) \<rparr>, s1)"
    "set_rep h s1 (M \<union> set (live_list (take k (m_slots src))))" "length pre = k"
    "\<forall>i < k. pre ! i = Raw \<longleftrightarrow> m_slots src ! i = Raw" using Suc by auto
  obtain src2 s2 x where st: "append_move_step h k (src \<lparr> m_slots := pre @ drop k (m_slots src) \<rparr>, s1) = Inr (src2, s2)"
    "set_rep h s2 ((M \<union> set (live_list (take k (m_slots src)))) \<union> set (live_list [m_slots src ! k]))"
    "src2 = src \<lparr> m_slots := pre @ drop k (m_slots src), m_slots := pre @ x # drop (Suc k) (m_slots src) \<rparr>"
    "x = Raw \<longleftrightarrow> m_slots src ! k = Raw"
    by (rule Set_Append_move_step [OF IH(2) assms(2) _ _ IH(3) k(1),
          where src = "src \<lparr> m_slots := pre @ drop k (m_slots src) \<rparr>"]) auto
  have "live_list (take (Suc k) (m_slots src)) = live_list (take k (m_slots src)) @ live_list [m_slots src ! k]"
    using k by (simp add: take_Suc_conv_app_nth live_list_append)
  then have rep: "set_rep h s2 (M \<union> set (live_list (take (Suc k) (m_slots src))))"
    using st(2) by (simp add: Un_assoc)
  show ?case
    by (rule exI [of _ s2], rule exI [of _ "pre @ [x]"])
      (use rep IH(1,3,4) st(1,3,4) Suc.prems in
        \<open>auto simp: upt_Suc_append fold_res_snoc nth_append less_Suc_eq simp del: fold_res.simps\<close>)
qed

text \<open>Destroying moved-from elements needs only that the control bytes tell which slots hold one.\<close>

lemma destroy_marked:
  assumes "\<And>i. i < length slots \<Longrightarrow> i < length c \<and> (IsFull (c ! i) \<longleftrightarrow> slots ! i \<noteq> Raw)"
  shows "fold_res (destroy_if_full c) [0..<length slots] slots = Inr (replicate (length slots) Raw)"
proof -
  have "k \<le> length slots \<Longrightarrow>
      fold_res (destroy_if_full c) [0..<k] slots = Inr (replicate k Raw @ drop k slots)" for k
  proof (induction k)
    case 0
    then show ?case by simp
  next
    case (Suc k)
    then have k: "k < length slots" by simp
    have d: "drop k slots = slots ! k # drop (Suc k) slots" using k by (simp add: Cons_nth_drop_Suc)
    have "destroy_if_full c k (replicate k Raw @ slots ! k # drop (Suc k) slots) =
        Inr (replicate k Raw @ Raw # drop (Suc k) slots)"
      using assms [OF k]
      by (cases "slots ! k") (auto simp: destroy_if_full_def read_ctrl_def destroy_cell_def nth_append list_update_append)
    then show ?case using Suc d
      by (simp add: upt_Suc_append fold_res_append replicate_Suc_append del: replicate.simps)
  qed
  from this [of "length slots"] show ?thesis by simp
qed

lemma Set_Append_move_rep:
  assumes "set_rep h s M" "set_rep h src N"
  obtains s' where "Set_Append_move h (OtherTable src) s = Inr (s', OtherTable Swiss_ctor)" "set_rep h s' (M \<union> N)"
proof -
  have inv: "swiss_inv id h src" and N: "live_elems (m_slots src) = N" using assms(2) by (auto simp: set_rep_def)
  from inv show thesis
  proof (cases rule: swiss_inv_cases)
    case no_storage
    then show thesis using that [of s] assms(1) N
      by (simp add: Set_Append_move_def ClearAndDeallocate_def live_elems_def)
  next
    case storage
    note len = table_ok_lengths [OF storage(1)]
    obtain s1 pre where loop: "fold_res (append_move_step h) [0..<m_capacity src] (src, s) =
         Inr (src \<lparr> m_slots := pre \<rparr>, s1)" "set_rep h s1 (M \<union> N)" "length pre = m_capacity src"
      "\<forall>i < m_capacity src. pre ! i = Raw \<longleftrightarrow> m_slots src ! i = Raw"
      using Set_Append_move_loop [OF assms(1) storage(1) order_refl] len(3) N by (auto simp: set_live_list)
    have "IsFull (m_ctrl src ! i) \<longleftrightarrow> pre ! i \<noteq> Raw" if "i < m_capacity src" for i
      using full_is_live [OF storage(1) that] slot_okD(4) [OF storage(1) that] loop(4) that
      by (cases "m_slots src ! i") auto
    then have "fold_res (destroy_if_full (m_ctrl src)) [0..<m_capacity src] pre = Inr (replicate (m_capacity src) Raw)"
      using destroy_marked [of pre "m_ctrl src"] loop(3) len(2) by simp
    then have "ClearAndDeallocate (src \<lparr> m_slots := pre \<rparr>) = Inr Swiss_ctor"
      using storage(2) by (simp add: ClearAndDeallocate_def Deallocate_cells_def)
    then show thesis using that [of s1] loop(1,2) by (simp add: Set_Append_move_def)
  qed
qed

lemma Set_Sort_rep:
  assumes "set_rep h s M" "\<And>xs. mset (sorter xs) = mset xs"
  obtains s' where "Set_Sort bld h sorter s = Inr s'" "set_rep h s' M"
proof (cases "m_size s \<le> 1")
  case True
  then show ?thesis using that [of s] assms(1) by (simp add: Set_Sort_def)
next
  case False
  have inv: "swiss_inv id h s" and M: "set (live_list (m_slots s)) = M"
    using assms(1) by (simp_all add: set_rep_def set_live_list)
  have set: "set (sorter (live_list (m_slots s))) = M" using assms(2) M by (metis set_mset_mset)
  obtain s0 where s0: "SortAndRehash bld (add_quiet h) sorter s = fold_res (add_quiet h) (sorter (live_list (m_slots s))) s0"
    "swiss_inv id h s0" "live_elems (m_slots s0) = {}"
    by (rule SortAndRehash_unfold [OF inv, of sorter bld "add_quiet h"]) (use False assms(2) in auto)
  then have "set_rep h s0 {}" by (simp add: set_rep_def)
  from add_all_rep [OF this, of "sorter (live_list (m_slots s))"] set
  obtain s' where "fold_res (add_quiet h) (sorter (live_list (m_slots s))) s0 = Inr s'" "set_rep h s' M" by auto
  then show ?thesis using that [of s'] False s0(1) by (simp add: Set_Sort_def)
qed

text \<open>An own element as argument\<close>

lemma Set_Add_own:
  assumes "set_rep h s M" "i < m_capacity s" "m_slots s ! i = Live x"
  shows "m_growthLeft s = 0 \<Longrightarrow> Set_Add h (Own i) s = Inl DanglingRef"
    and "m_growthLeft s \<noteq> 0 \<Longrightarrow> Set_Add h (Own i) s = Inr (False, s)"
proof -
  have inv: "swiss_inv id h s" and M: "live_elems (m_slots s) = M" using assms(1) by (auto simp: set_rep_def)
  obtain s1 where s1: "grow_for_add id h s = Inr s1" "m_growthLeft s \<noteq> 0 \<Longrightarrow> s1 = s"
    by (rule grow_for_add_rep [OF inv]) (rule that)
  show "m_growthLeft s = 0 \<Longrightarrow> Set_Add h (Own i) s = Inl DanglingRef"
    using s1(1) by (simp add: Set_Add_def returned_def Set_AddImpl.simps [of h "Own i" s] arg_value_def read_ref_def)
  assume g: "m_growthLeft s \<noteq> 0"
  have i: "i < length (m_slots s)"
    using assms(2) table_ok_lengths(3) [OF elem_capacity(1) [OF inv assms(2)]] by simp
  then have "x \<in> live_elems (m_slots s)" using assms(3) by (auto simp: live_elems_iff)
  then obtain k where "AddProbe id h (id x) s = Inr (Present k)" using AddProbe_hit [OF inv] by metis
  then show "Set_Add h (Own i) s = Inr (False, s)"
    using s1 g read_live_slot [OF i assms(3)]
    by (simp add: Set_Add_def returned_def Set_AddImpl.simps [of h "Own i" s] arg_value_def read_ref_def)
qed

lemma to_i32_small: "n < 2 ^ 31 \<Longrightarrow> to_i32 n = int n"
  by (simp add: to_i32_def signed_of_nat signed_take_bit_int_eq_self)

text \<open>\<open>Array()\<close> lists the elements in the order of their slots.\<close>

lemma Set_Array_rep:
  assumes "set_rep h s M" "m_size s < 2 ^ 31"
  obtains a where "Set_Array bld t s = Inr a" "arr_rep t a (live_list (m_slots s))"
proof -
  have inv: "swiss_inv id h s" using assms(1) by (simp add: set_rep_def)
  have len: "length (live_list (m_slots s)) = m_size s"
    using inv by (cases rule: swiss_inv_cases) (simp_all add: length_live_list table_no_moved)
  obtain a0 :: "'a tarray" where a0: "Reserve bld t (to_i32 (m_size s)) TArray_ctor = Inr a0" "arr_rep t a0 []"
    by (rule Reserve_rep [OF ctor_rep, where n = "to_i32 (m_size s)" and bld = bld and t = t])
      (use to_i32_small [OF assms(2)] assms(2) in auto)
  have "arr_rep t a xs \<Longrightarrow> length xs + length ys < 2 ^ 31 \<Longrightarrow>
      \<exists>a'. fold_res (\<lambda>e a. rbind (Add t (Ext e) a) (\<lambda>(i, a'). Inr a')) ys a = Inr a' \<and> arr_rep t a' (xs @ ys)"
    for a :: "'a tarray" and xs ys
  proof (induction ys arbitrary: a xs)
    case Nil
    then show ?case by simp
  next
    case (Cons y ys)
    obtain a1 where "Add t (Ext y) a = Inr (int (length xs), a1)" "arr_rep t a1 (xs @ [y])"
      by (rule Add_rep [OF Cons.prems(1), where v = "Ext y" and x = y]) (use Cons.prems(2) in auto)
    with Cons.IH [of a1 "xs @ [y]"] Cons.prems(2) show ?case by simp
  qed
  from this [OF a0(2), of "live_list (m_slots s)"]
  obtain a where a: "fold_res (\<lambda>e a. rbind (Add t (Ext e) a) (\<lambda>(i, a'). Inr a')) (live_list (m_slots s)) a0 = Inr a"
    "arr_rep t a ([] @ live_list (m_slots s))" using assms(2) len by auto
  from a(1) a0(1) have "Set_Array bld t s = Inr a" by (simp add: Set_Array_def visit_full_all [OF inv])
  with that a(2) show thesis by simp
qed

section \<open>Runs\<close>

datatype 'a set_op =
    SetAdd 'a | SetRemove 'a | SetReserve int | SetReset | SetAppend "'a swiss" | SetAppendMove "'a swiss"
  | SetAppendSelf | SetAssign "'a swiss" | SetMoveAssign "'a swiss" | SetAssignSelf
  | SetSort "'a list \<Rightarrow> 'a list"

fun set_op_step :: "build \<Rightarrow> ('a \<Rightarrow> u64) \<Rightarrow> 'a set_op \<Rightarrow> 'a swiss \<Rightarrow> array_error + 'a swiss" where
  "set_op_step bld h (SetAdd x) s = rbind (Set_Add h (Ext x) s) (\<lambda>(b, s'). Inr s')"
| "set_op_step bld h (SetRemove x) s = rbind (Set_Remove h x s) (\<lambda>(b, s'). Inr s')"
| "set_op_step bld h (SetReserve n) s = Swiss_Reserve id h n s"
| "set_op_step bld h SetReset s = Swiss_Reset s"
| "set_op_step bld h (SetAppend src) s = Set_Append_copy h (OtherTable src) s"
| "set_op_step bld h (SetAppendMove src) s = rbind (Set_Append_move h (OtherTable src) s) (\<lambda>(s', src'). Inr s')"
| "set_op_step bld h SetAppendSelf s = Set_Append_copy h ThisTable s"
| "set_op_step bld h (SetAssign src) s = Set_copy_assign h (OtherTable src) s"
| "set_op_step bld h (SetMoveAssign src) s = rbind (Swiss_move_assign (OtherTable src) s) (\<lambda>(s', src'). Inr s')"
| "set_op_step bld h SetAssignSelf s = Set_copy_assign h ThisTable s"
| "set_op_step bld h (SetSort f) s = Set_Sort bld h f s"

fun set_op_spec :: "'a set_op \<Rightarrow> 'a set \<Rightarrow> 'a set" where
  "set_op_spec (SetAdd x) M = insert x M"
| "set_op_spec (SetRemove x) M = M - {x}"
| "set_op_spec (SetReserve n) M = M"
| "set_op_spec SetReset M = {}"
| "set_op_spec (SetAppend src) M = M \<union> live_elems (m_slots src)"
| "set_op_spec (SetAppendMove src) M = M \<union> live_elems (m_slots src)"
| "set_op_spec SetAppendSelf M = M"
| "set_op_spec (SetAssign src) M = live_elems (m_slots src)"
| "set_op_spec (SetMoveAssign src) M = live_elems (m_slots src)"
| "set_op_spec SetAssignSelf M = M"
| "set_op_spec (SetSort f) M = M"

text \<open>The caller owes another set that is one, and a comparator for which \<open>std::sort\<close> permutes.\<close>

fun set_op_ok :: "('a \<Rightarrow> u64) \<Rightarrow> 'a set_op \<Rightarrow> 'a set \<Rightarrow> bool" where
  "set_op_ok h (SetAppend src) M \<longleftrightarrow> swiss_inv id h src"
| "set_op_ok h (SetAppendMove src) M \<longleftrightarrow> swiss_inv id h src"
| "set_op_ok h (SetAssign src) M \<longleftrightarrow> swiss_inv id h src"
| "set_op_ok h (SetMoveAssign src) M \<longleftrightarrow> swiss_inv id h src"
| "set_op_ok h (SetSort f) M \<longleftrightarrow> (\<forall>xs. mset (f xs) = mset xs)"
| "set_op_ok h _ M \<longleftrightarrow> True"

lemma set_append_rep:
  assumes "set_rep h s M" "swiss_inv id h src"
  shows "\<exists>s'. Set_Append_copy h (OtherTable src) s = Inr s' \<and> set_rep h s' (M \<union> live_elems (m_slots src))"
  using add_all_rep [OF assms(1), of "live_list (m_slots src)"]
  by (simp add: Set_Append_copy_def visit_full_all [OF assms(2)] set_live_list)

lemma set_op_refines:
  assumes "set_rep h s M" "set_op_ok h x M"
  shows "\<exists>s'. set_op_step bld h x s = Inr s' \<and> set_rep h s' (set_op_spec x M)"
proof -
  have inv: "swiss_inv id h s" using assms(1) by (simp add: set_rep_def)
  have other: "set_rep h src (live_elems (m_slots src))" if "swiss_inv id h src" for src
    using that by (simp add: set_rep_def)
  show ?thesis
  proof (cases x)
    case (SetAdd y)
    obtain s' where "Set_Add h (Ext y) s = Inr (y \<notin> M, s')" "set_rep h s' (insert y M)"
      by (rule Set_Add_rep [OF assms(1)])
    with SetAdd show ?thesis by simp
  next
    case (SetRemove y)
    obtain s' where "Set_Remove h y s = Inr (y \<in> M, s')" "set_rep h s' (M - {y})"
      by (rule Set_Remove_rep [OF assms(1)])
    with SetRemove show ?thesis by simp
  next
    case (SetReserve n)
    obtain s' where "Swiss_Reserve id h n s = Inr s'" "swiss_inv id h s'"
      "live_elems (m_slots s') = live_elems (m_slots s)" by (rule Swiss_Reserve_rep [OF inv])
    with SetReserve assms(1) show ?thesis by (simp add: set_rep_def)
  next
    case SetReset
    obtain s' where "Swiss_Reset s = Inr s'" "swiss_inv id h s'" "live_elems (m_slots s') = {}"
      by (rule Swiss_Reset_rep [OF inv])
    with SetReset show ?thesis by (simp add: set_rep_def)
  next
    case (SetAppend src)
    with set_append_rep [OF assms(1), of src] assms(2) show ?thesis by simp
  next
    case (SetAppendMove src)
    obtain s' where "Set_Append_move h (OtherTable src) s = Inr (s', OtherTable Swiss_ctor)"
      "set_rep h s' (M \<union> live_elems (m_slots src))"
      by (rule Set_Append_move_rep [OF assms(1) other]) (use SetAppendMove assms(2) in simp)
    with SetAppendMove show ?thesis by simp
  next
    case (SetAssign src)
    obtain s' where "Set_copy_from h src Swiss_ctor = Inr s'" "set_rep h s' ({} \<union> live_elems (m_slots src))"
      by (rule Set_copy_from_rep [OF other set_rep_ctor]) (use SetAssign assms(2) in simp)
    with SetAssign ClearAndDeallocate_rep [OF inv] show ?thesis by (simp add: Set_copy_assign_def)
  next
    case (SetMoveAssign src)
    have "Swiss_move_assign (OtherTable src) s = Inr (src, OtherTable Swiss_ctor)"
      by (simp add: Swiss_move_assign_def ClearAndDeallocate_rep [OF inv] Swiss_ctor_def)
    with SetMoveAssign other [of src] assms(2) show ?thesis by simp
  next
    case (SetSort f)
    obtain s' where "Set_Sort bld h f s = Inr s'" "set_rep h s' M"
      by (rule Set_Sort_rep [OF assms(1), where sorter = f and bld = bld]) (use SetSort assms(2) in auto)
    with SetSort show ?thesis by simp
  qed (use assms(1) in \<open>simp_all add: Set_Append_copy_def Set_copy_assign_def\<close>)
qed

interpretation tset: op_refinement "set_rep h" "set_op_ok h" "set_op_step bld h" set_op_spec
  for h bld
  by unfold_locales (rule set_op_refines)

text \<open>
  C20: a set is a set, whatever the hash function.  Any sequence of the operations on sets runs
  to its end: every probe loop leaves, no element is read, destroyed, overwritten or freed
  outside its lifetime and no counter wraps.  The set then holds exactly the elements of the
  mathematical set the same operations build: \<open>Contains\<close> answers membership, the range-based
  loop visits every element once, \<open>Num\<close> is their number, and the destructor destroys each
  of them once.
\<close>

theorem set_runs_refine_sets:
  assumes "allowed (set_op_ok h) set_op_spec ops {}"
  defines "M \<equiv> fold set_op_spec ops {}"
  shows "\<exists>s es. run_steps (set_op_step bld h) ops Swiss_ctor = Inr s \<and>
     Range_for s = Inr es \<and> set es = M \<and> distinct es \<and> Swiss_Num s = to_i32 (card M) \<and>
     (\<forall>x. Set_Contains h x s = Inr (x \<in> M)) \<and> Set_dtor s = Inr Swiss_ctor"
proof -
  obtain s where s: "run_steps (set_op_step bld h) ops Swiss_ctor = Inr s" "set_rep h s M"
    using tset.run_refines [OF set_rep_ctor assms(1)] unfolding M_def by blast
  then have inv: "swiss_inv id h s" and M: "set (live_list (m_slots s)) = M"
    by (simp_all add: set_rep_def set_live_list)
  have "distinct (live_list (m_slots s))"
    using inv by (cases rule: swiss_inv_cases) (use distinct_live_list [of id h] in auto)
  then show ?thesis
    using s M Range_for_exact [OF inv] set_rep_card [OF s(2)] Set_Contains_rep [OF s(2)]
      ClearAndDeallocate_rep [OF inv]
    by (auto simp: Swiss_Num_def Set_dtor_def)
qed

definition demo_hash :: "nat \<Rightarrow> u64" where "demo_hash n = word_of_nat (n * 128)"

definition demo_set_ops :: "nat set_op list" where
  "demo_set_ops = [SetAdd 3, SetAdd 19, SetAdd 5, SetRemove 3, SetAdd 19, SetSort rev, SetReserve 40, SetAdd 7]"

theorem set_runs_refine_sets_witness:
  "\<exists>s es. run_steps (set_op_step Checked demo_hash) demo_set_ops Swiss_ctor = Inr s \<and>
     Range_for s = Inr es \<and> set es = {19, 5, 7} \<and> distinct es \<and> Swiss_Num s = to_i32 3 \<and>
     (\<forall>x. Set_Contains demo_hash x s = Inr (x \<in> {19, 5, 7})) \<and> Set_dtor s = Inr Swiss_ctor"
proof -
  have ok: "allowed (set_op_ok demo_hash) set_op_spec demo_set_ops {}"
    by (simp add: demo_set_ops_def)
  have M: "fold set_op_spec demo_set_ops {} = {19, 5, 7}" by (auto simp: demo_set_ops_def)
  have c: "card {19, 5, 7 :: nat} = 3" by simp
  show ?thesis using set_runs_refine_sets [OF ok, of Checked] unfolding M c .
qed

section \<open>What \<open>Sort\<close> does not do\<close>

definition home :: "('a \<Rightarrow> u64) \<Rightarrow> nat \<Rightarrow> 'a \<Rightarrow> nat" where
  "home h cap x = first_group (h x) (cap - 1)"

lemma probes_home: "table_capacity cap \<Longrightarrow> \<exists>rest. probes cap (h x) = home h cap x # rest"
  using first_group_less [of cap "h x"]
  by (simp add: probes_def home_def group_slots_mod upt_rec del: One_nat_def)

lemma add_at_home:
  assumes "set_rep h s M" "0 < m_growthLeft s" "m_slots s ! home h (m_capacity s) x = Raw"
    and "m_ctrl s ! home h (m_capacity s) x = kCtrlEmpty" "0 < m_capacity s"
  shows "add_quiet h x s = Inr (s \<lparr> m_slots := (m_slots s)[home h (m_capacity s) x := Live x],
     m_ctrl := put_ctrl (m_capacity s) (home h (m_capacity s) x) (H2 (h x)) (m_ctrl s),
     m_size := Suc (m_size s), m_growthLeft := m_growthLeft s - 1 \<rparr>)"
proof -
  let ?i = "home h (m_capacity s) x"
  have inv: "swiss_inv id h s" using assms(1) by (simp add: set_rep_def)
  note ok = elem_capacity(1) [OF inv assms(5)]
  note len = table_ok_lengths [OF ok]
  obtain rest where p: "probes (m_capacity s) (h x) = ?i # rest" using probes_home [OF len(1), of h x] by blast
  have i: "?i < m_capacity s" unfolding home_def by (rule first_group_less [OF len(1)])
  have "AddProbe id h x s = Inr (InsertAt ?i False)"
    using read_ctrl_in [OF ok i] assms(4) by (simp add: AddProbe_scan p IsEmpty_def)
  moreover have "InsertInto id h x ?i False s = Inr (s \<lparr> m_slots := (m_slots s)[?i := Live x],
      m_ctrl := put_ctrl (m_capacity s) ?i (H2 (h x)) (m_ctrl s),
      m_size := Suc (m_size s), m_growthLeft := m_growthLeft s - 1 \<rparr>)"
    using put_ctrl_run [OF len(2) i] assms(2,3) i len(3)
    by (simp add: InsertInto_def construct_cell_def unsigned_sub_def)
  ultimately show ?thesis
    using assms(2) by (simp add: add_quiet_def Set_Add_def returned_def Set_AddImpl.simps [of h "Ext x" s]
        grow_for_add_def arg_value_def read_ref_def)
qed

lemma add_all_at_home:
  assumes "set_rep h s M" "length xs \<le> m_growthLeft s" "0 < m_capacity s"
    and "distinct (map (home h (m_capacity s)) xs)"
    and "\<And>x. x \<in> set xs \<Longrightarrow> m_slots s ! home h (m_capacity s) x = Raw \<and>
           m_ctrl s ! home h (m_capacity s) x = kCtrlEmpty"
  shows "\<exists>s'. fold_res (add_quiet h) xs s = Inr s' \<and>
     m_slots s' = fold (\<lambda>x sl. sl[home h (m_capacity s) x := Live x]) xs (m_slots s)"
  using assms
proof (induction xs arbitrary: s M)
  case Nil
  then show ?case by simp
next
  case (Cons x xs)
  let ?cap = "m_capacity s"
  let ?i = "home h ?cap x"
  let ?s = "s \<lparr> m_slots := (m_slots s)[?i := Live x], m_ctrl := put_ctrl ?cap ?i (H2 (h x)) (m_ctrl s),
     m_size := Suc (m_size s), m_growthLeft := m_growthLeft s - 1 \<rparr>"
  have inv: "swiss_inv id h s" using Cons.prems(1) by (simp add: set_rep_def)
  note len = table_ok_lengths [OF elem_capacity(1) [OF inv Cons.prems(3)]]
  have i: "home h ?cap y < ?cap" for y unfolding home_def by (rule first_group_less [OF len(1)])
  have run: "add_quiet h x s = Inr ?s"
    by (rule add_at_home [OF Cons.prems(1)]) (use Cons.prems in auto)
  obtain s1 where "add_quiet h x s = Inr s1" "set_rep h s1 (insert x M)" by (rule add_quiet_rep [OF Cons.prems(1)])
  with run have rep: "set_rep h ?s (insert x M)" by simp
  have "\<exists>s'. fold_res (add_quiet h) xs ?s = Inr s' \<and>
     m_slots s' = fold (\<lambda>y sl. sl[home h (m_capacity ?s) y := Live y]) xs (m_slots ?s)"
  proof (rule Cons.IH [OF rep])
    show "length xs \<le> m_growthLeft ?s" "0 < m_capacity ?s" "distinct (map (home h (m_capacity ?s)) xs)"
      using Cons.prems(2,3,4) by simp_all
    fix y
    assume y: "y \<in> set xs"
    have "home h ?cap y \<noteq> ?i"
    proof
      assume "home h ?cap y = ?i"
      then have "?i \<in> home h ?cap ` set xs" using imageI [OF y, of "home h ?cap"] by simp
      then show False using Cons.prems(4) by simp
    qed
    then show "m_slots ?s ! home h (m_capacity ?s) y = Raw \<and> m_ctrl ?s ! home h (m_capacity ?s) y = kCtrlEmpty"
      using Cons.prems(5) [of y] y put_ctrl_nth [OF len(2) i i] by simp
  qed
  with run show ?case by simp
qed

lemma Set_Sort_slots:
  assumes "set_rep h s M" "1 < m_size s" "\<And>xs. mset (f xs) = mset xs" "inj_on (home h (m_capacity s)) M"
  obtains s' where "Set_Sort bld h f s = Inr s'" "swiss_inv id h s'"
    "m_slots s' = fold (\<lambda>x sl. sl[home h (m_capacity s) x := Live x]) (live_list (m_slots s))
       (replicate (m_capacity s) Raw)"
proof -
  let ?cap = "m_capacity s" and ?es = "live_list (m_slots s)"
  let ?f = "\<lambda>x sl. sl[home h ?cap x := Live x]"
  have inv: "swiss_inv id h s" and M: "set ?es = M" using assms(1) by (simp_all add: set_rep_def set_live_list)
  have storage: "table_ok id h ?cap (m_ctrl s) (m_slots s)" "0 < ?cap"
    using inv assms(2) by (cases rule: swiss_inv_cases; simp)+
  note len = table_ok_lengths [OF storage(1)]
  have home: "home h ?cap x < ?cap" for x unfolding home_def by (rule first_group_less [OF len(1)])
  have d: "distinct ?es" using distinct_live_list [OF storage(1)] by simp
  then have dm: "distinct (map (home h ?cap) ?es)" using assms(4) M by (simp add: distinct_map)
  obtain s0 where s0: "SortAndRehash bld (add_quiet h) f s = fold_res (add_quiet h) (f ?es) s0"
    "swiss_inv id h s0" "live_elems (m_slots s0) = {}" "m_capacity s0 = ?cap"
    "s0 = \<lparr> m_ctrl = fresh_ctrl ?cap, m_slots = replicate ?cap Raw, m_size = 0,
       m_capacity = ?cap, m_growthLeft = CapacityToGrowAt ?cap \<rparr>"
    by (rule SortAndRehash_unfold [OF inv, of f bld "add_quiet h"]) (use assms(2,3) in auto)
  have len_es: "length (f ?es) = m_size s"
    using length_live_list [OF table_no_moved [OF storage(1)]] inv storage(2) assms(3)
    by (metis elem_capacity(2) mset_eq_length)
  have "\<exists>s'. fold_res (add_quiet h) (f ?es) s0 = Inr s' \<and>
      m_slots s' = fold (\<lambda>x sl. sl[home h (m_capacity s0) x := Live x]) (f ?es) (m_slots s0)"
  proof (rule add_all_at_home [of h s0 "{}"])
    show "set_rep h s0 {}" using s0(2,3) by (simp add: set_rep_def)
    show "length (f ?es) \<le> m_growthLeft s0" using len_es size_fits [OF inv] s0(5) by simp
    show "0 < m_capacity s0" using s0(4) storage(2) by simp
    have "mset (map (home h ?cap) (f ?es)) = mset (map (home h ?cap) ?es)" using assms(3) by simp
    then show "distinct (map (home h (m_capacity s0)) (f ?es))"
      unfolding s0(4) using dm by (rule mset_eq_imp_distinct_iff [THEN iffD2])
    show "m_slots s0 ! home h (m_capacity s0) x = Raw \<and> m_ctrl s0 ! home h (m_capacity s0) x = kCtrlEmpty" for x
      using s0(5) home fresh_ctrl_nth(2) [OF home] by simp
  qed
  moreover have "fold ?f (f ?es) = fold ?f ?es"
  proof (rule fold_multiset_equiv [symmetric])
    fix x y
    assume "x \<in> set ?es" "y \<in> set ?es"
    then have "x \<noteq> y \<Longrightarrow> home h ?cap x \<noteq> home h ?cap y" using assms(4) M by (auto dest: inj_onD)
    then show "?f x \<circ> ?f y = ?f y \<circ> ?f x"
      by (cases "x = y") (auto simp: fun_eq_iff intro: list_update_swap)
  qed (simp add: assms(3))
  ultimately obtain s' where s': "Set_Sort bld h f s = Inr s'" "m_slots s' = fold ?f ?es (replicate ?cap Raw)"
    using s0(1,5) assms(2) by (auto simp: Set_Sort_def)
  moreover obtain s'' where "Set_Sort bld h f s = Inr s''" "set_rep h s'' M"
    by (rule Set_Sort_rep [OF assms(1,3)])
  ultimately show thesis using that [of s'] by (simp add: set_rep_def)
qed

text \<open>
  \<open>Sort\<close> is documented to make the iteration visit the elements in the comparator's order
  until the next change.  The elements are placed by their hash, not by the order in which they
  are added: when their home slots differ, the loop after \<open>Sort\<close> visits them in the same
  order for every comparator.
\<close>

theorem set_sort_ignores_comparator:
  assumes "set_rep h s M" "inj_on (home h (m_capacity s)) M"
    and "\<And>xs. mset (f xs) = mset xs" "\<And>xs. mset (g xs) = mset xs"
  shows "\<exists>s1 s2 es. Set_Sort bld h f s = Inr s1 \<and> Set_Sort bld h g s = Inr s2 \<and>
     Range_for s1 = Inr es \<and> Range_for s2 = Inr es \<and> set es = M"
proof (cases "m_size s \<le> 1")
  case True
  have inv: "swiss_inv id h s" and M: "set (live_list (m_slots s)) = M"
    using assms(1) by (simp_all add: set_rep_def set_live_list)
  then show ?thesis using True Range_for_exact [OF inv] by (simp add: Set_Sort_def)
next
  case False
  then have n: "1 < m_size s" by simp
  obtain s1 where s1: "Set_Sort bld h f s = Inr s1" "swiss_inv id h s1"
    "m_slots s1 = fold (\<lambda>x sl. sl[home h (m_capacity s) x := Live x]) (live_list (m_slots s))
       (replicate (m_capacity s) Raw)" by (rule Set_Sort_slots [OF assms(1) n assms(3,2)])
  obtain s2 where s2: "Set_Sort bld h g s = Inr s2" "swiss_inv id h s2"
    "m_slots s2 = fold (\<lambda>x sl. sl[home h (m_capacity s) x := Live x]) (live_list (m_slots s))
       (replicate (m_capacity s) Raw)" by (rule Set_Sort_slots [OF assms(1) n assms(4,2)])
  obtain s' where "Set_Sort bld h f s = Inr s'" "set_rep h s' M" by (rule Set_Sort_rep [OF assms(1,3)])
  then have "set (live_list (m_slots s1)) = M" using s1(1) by (simp add: set_rep_def set_live_list)
  then show ?thesis
    using s1 s2 Range_for_exact [OF s1(2)] Range_for_exact [OF s2(2)] by auto
qed

text \<open>Two elements: neither the ascending nor the descending order is honoured by both sorts.\<close>

theorem set_sort_ignores_comparator_witness:
  "\<exists>s s1 s2 es. run_steps (set_op_step Checked demo_hash) [SetAdd 20, SetAdd 3] Swiss_ctor = Inr s \<and>
     Set_Sort Checked demo_hash sort s = Inr s1 \<and> Set_Sort Checked demo_hash (\<lambda>xs. rev (sort xs)) s = Inr s2 \<and>
     Range_for s1 = Inr es \<and> Range_for s2 = Inr es \<and> set es = {20, 3}"
proof -
  obtain s where s: "run_steps (set_op_step Checked demo_hash) [SetAdd 20, SetAdd 3] Swiss_ctor = Inr s"
    "set_rep demo_hash s (fold set_op_spec [SetAdd 20, SetAdd 3] {})"
    using tset.run_refines [OF set_rep_ctor, of demo_hash "[SetAdd 20, SetAdd 3]" Checked] by auto
  have M: "fold set_op_spec [SetAdd 20, SetAdd 3] {} = {20, 3 :: nat}" by auto
  have "case run_steps (set_op_step Checked demo_hash) [SetAdd 20, SetAdd 3] Swiss_ctor of
      Inr s \<Rightarrow> m_capacity s = 16 | _ \<Rightarrow> False"
    by code_simp
  then have "m_capacity s = 16" using s(1) by simp
  then have "inj_on (home demo_hash (m_capacity s)) {20, 3}"
    by (simp add: home_def first_group_def H1_def demo_hash_def)
  from set_sort_ignores_comparator [OF s(2) [unfolded M] this, of sort "\<lambda>xs. rev (sort xs)" Checked]
  show ?thesis using s(1) by auto
qed

end
