(* ===== verification/TMapModel.thy ===== *)
theory TMapModel
  imports TSetModel
begin

text \<open>
  \<open>TMap<K, V>\<close> (\<open>Public/Containers/TMap.h\<close>): the same table with \<open>TPair<K, V>\<close> elements, whose
  first component is what is hashed and compared.  The header repeats the table code of
  \<open>TSet.h\<close> with \<open>PairType\<close> in place of \<open>T\<close>; its operations are the ones of the table at
  \<open>key = fst\<close>.  A reference to a value is modelled by the index of its slot.
\<close>

type_synonym ('k, 'v) tmap = "('k \<times> 'v) swiss"

section \<open>The table operations of the header\<close>

definition Map_ctor :: "('k, 'v) tmap" where "Map_ctor = Swiss_ctor"

definition Map_FindIndex :: "('k \<Rightarrow> u64) \<Rightarrow> 'k \<Rightarrow> ('k, 'v) tmap \<Rightarrow> array_error + nat option" where
  "Map_FindIndex h Key s = FindIndex fst h Key s"

definition Map_EraseAt :: "nat \<Rightarrow> ('k, 'v) tmap \<Rightarrow> array_error + ('k, 'v) tmap" where
  "Map_EraseAt Index s = EraseAt Index s"

definition Map_Rehash :: "('k \<Rightarrow> u64) \<Rightarrow> nat \<Rightarrow> ('k, 'v) tmap \<Rightarrow> array_error + ('k, 'v) tmap" where
  "Map_Rehash h NewCap s = Rehash fst h NewCap s"

definition Map_ClearAndDeallocate :: "('k, 'v) tmap \<Rightarrow> array_error + ('k, 'v) tmap" where
  "Map_ClearAndDeallocate s = ClearAndDeallocate s"

definition Map_dtor :: "('k, 'v) tmap \<Rightarrow> array_error + ('k, 'v) tmap" where
  "Map_dtor s = Map_ClearAndDeallocate s"

definition Map_Num :: "('k, 'v) tmap \<Rightarrow> int" where "Map_Num s = to_i32 (m_size s)"
definition Map_Max :: "('k, 'v) tmap \<Rightarrow> int" where "Map_Max s = to_i32 (m_capacity s)"

definition Map_Reserve :: "('k \<Rightarrow> u64) \<Rightarrow> int \<Rightarrow> ('k, 'v) tmap \<Rightarrow> array_error + ('k, 'v) tmap" where
  "Map_Reserve h MinCapacity s = Swiss_Reserve fst h MinCapacity s"

definition Map_Reset :: "('k, 'v) tmap \<Rightarrow> array_error + ('k, 'v) tmap" where
  "Map_Reset s = Swiss_Reset s"

definition Map_Range_for :: "('k, 'v) tmap \<Rightarrow> array_error + ('k \<times> 'v) list" where
  "Map_Range_for s = Range_for s"

section \<open>Adding\<close>

definition key_arg :: "bool \<Rightarrow> 'k vref \<Rightarrow> ('k, 'v) tmap \<Rightarrow> array_error + 'k" where
  "key_arg replaced r s = (case r of
       Ext x \<Rightarrow> Inr x
     | Own j \<Rightarrow> if replaced then Inl DanglingRef else rbind (read_cell j (m_slots s)) (\<lambda>p. Inr (fst p)))"

definition value_arg :: "bool \<Rightarrow> 'v vref \<Rightarrow> ('k, 'v) tmap \<Rightarrow> array_error + 'v" where
  "value_arg replaced r s = (case r of
       Ext x \<Rightarrow> Inr x
     | Own j \<Rightarrow> if replaced then Inl DanglingRef else rbind (read_cell j (m_slots s)) (\<lambda>p. Inr (snd p)))"

definition is_own :: "'a vref \<Rightarrow> bool" where
  "is_own r = (case r of Own j \<Rightarrow> True | Ext x \<Rightarrow> False)"

text \<open>\<open>P->Value = InValue\<close> for a key that is present\<close>

definition assign_value :: "nat \<Rightarrow> 'v \<Rightarrow> ('k, 'v) tmap \<Rightarrow> array_error + ('k, 'v) tmap" where
  "assign_value i v s =
     rbind (read_cell i (m_slots s)) (\<lambda>p.
     rbind (assign_cell i (fst p, v) (m_slots s)) (\<lambda>slots. Inr (s \<lparr> m_slots := slots \<rparr>)))"

partial_function (option) Map_AddImpl ::
  "('k \<Rightarrow> u64) \<Rightarrow> 'k vref \<Rightarrow> 'v vref \<Rightarrow> ('k, 'v) tmap \<Rightarrow> (array_error + nat \<times> ('k, 'v) tmap) option" where
  "Map_AddImpl h InKey InValue s =
     (case grow_for_add fst h s of
        Inl e \<Rightarrow> Some (Inl e)
      | Inr s1 \<Rightarrow>
         (case key_arg (m_growthLeft s = 0) InKey s1 of
            Inl e \<Rightarrow> Some (Inl e)
          | Inr k \<Rightarrow>
             (case AddProbe fst h k s1 of
                Inl e \<Rightarrow> Some (Inl e)
              | Inr (Present i) \<Rightarrow>
                  Some (rbind (value_arg (m_growthLeft s = 0) InValue s1) (\<lambda>v.
                        rbind (assign_value i v s1) (\<lambda>s2. Inr (i, s2))))
              | Inr (InsertAt j d) \<Rightarrow>
                  Some (rbind (value_arg (m_growthLeft s = 0) InValue s1) (\<lambda>v.
                        rbind (InsertInto fst h (k, v) j d s1) (\<lambda>s2. Inr (j, s2))))
              | Inr (Passed ins) \<Rightarrow>
                 (case Map_Rehash h (m_capacity s1 * 2) s1 of
                    Inl e \<Rightarrow> Some (Inl e)
                  | Inr s2 \<Rightarrow>
                      if is_own InKey \<or> is_own InValue then Some (Inl DanglingRef)
                      else Map_AddImpl h InKey InValue s2))))"

declare Map_AddImpl.simps [code]

definition Map_Add ::
  "('k \<Rightarrow> u64) \<Rightarrow> 'k vref \<Rightarrow> 'v vref \<Rightarrow> ('k, 'v) tmap \<Rightarrow> array_error + nat \<times> ('k, 'v) tmap" where
  "Map_Add h Key Value s = returned (Map_AddImpl h Key Value s)"

definition map_add_quiet :: "('k \<Rightarrow> u64) \<Rightarrow> 'k \<times> 'v \<Rightarrow> ('k, 'v) tmap \<Rightarrow> array_error + ('k, 'v) tmap" where
  "map_add_quiet h p s = rbind (Map_Add h (Ext (fst p)) (Ext (snd p)) s) (\<lambda>(i, s'). Inr s')"

section \<open>Lookup\<close>

definition Map_Contains :: "('k \<Rightarrow> u64) \<Rightarrow> 'k \<Rightarrow> ('k, 'v) tmap \<Rightarrow> array_error + bool" where
  "Map_Contains h Key s = rbind (Map_FindIndex h Key s) (\<lambda>i. Inr (i \<noteq> None))"

definition Map_Find :: "('k \<Rightarrow> u64) \<Rightarrow> 'k \<Rightarrow> ('k, 'v) tmap \<Rightarrow> array_error + nat option" where
  "Map_Find h Key s = Map_FindIndex h Key s"

definition Map_FindRef :: "('k \<Rightarrow> u64) \<Rightarrow> 'v \<Rightarrow> 'k \<Rightarrow> ('k, 'v) tmap \<Rightarrow> array_error + 'v" where
  "Map_FindRef h dflt Key s = rbind (Map_Find h Key s) (\<lambda>Existing. case Existing of
       Some i \<Rightarrow> rbind (read_cell i (m_slots s)) (\<lambda>p. Inr (snd p))
     | None \<Rightarrow> Inr dflt)"

text \<open>\<open>operator[]\<close> and \<open>FindOrAdd\<close>; \<open>dflt\<close> is \<open>V{}\<close>.\<close>

definition Map_index :: "('k \<Rightarrow> u64) \<Rightarrow> 'v \<Rightarrow> 'k vref \<Rightarrow> ('k, 'v) tmap \<Rightarrow> array_error + nat \<times> ('k, 'v) tmap" where
  "Map_index h dflt Key s =
     rbind (key_arg False Key s) (\<lambda>k. rbind (Map_Find h k s) (\<lambda>Existing. case Existing of
       Some i \<Rightarrow> Inr (i, s)
     | None \<Rightarrow> Map_Add h Key (Ext dflt) s))"

definition Map_FindOrAdd ::
  "('k \<Rightarrow> u64) \<Rightarrow> 'v \<Rightarrow> 'k vref \<Rightarrow> ('k, 'v) tmap \<Rightarrow> array_error + nat \<times> ('k, 'v) tmap" where
  "Map_FindOrAdd h dflt Key s =
     rbind (key_arg False Key s) (\<lambda>k. rbind (Map_Find h k s) (\<lambda>Existing. case Existing of
       Some i \<Rightarrow> Inr (i, s)
     | None \<Rightarrow> Map_Add h Key (Ext dflt) s))"

section \<open>Removal\<close>

definition Map_Remove :: "('k \<Rightarrow> u64) \<Rightarrow> 'k \<Rightarrow> ('k, 'v) tmap \<Rightarrow> array_error + bool \<times> ('k, 'v) tmap" where
  "Map_Remove h Key s = rbind (Map_FindIndex h Key s) (\<lambda>Idx. case Idx of
       None \<Rightarrow> Inr (False, s)
     | Some i \<Rightarrow> rbind (Map_EraseAt i s) (\<lambda>s'. Inr (True, s')))"

definition Map_FindAndRemoveChecked ::
  "build \<Rightarrow> ('k \<Rightarrow> u64) \<Rightarrow> 'k \<Rightarrow> ('k, 'v) tmap \<Rightarrow> array_error + 'v \<times> ('k, 'v) tmap" where
  "Map_FindAndRemoveChecked bld h Key s = rbind (Map_FindIndex h Key s) (\<lambda>Idx.
     acheck bld (Idx \<noteq> None) (case Idx of
       None \<Rightarrow> Inl Lifetime
     | Some i \<Rightarrow> rbind (read_cell i (m_slots s)) (\<lambda>p.
         rbind (Map_EraseAt i s) (\<lambda>s'. Inr (snd p, s')))))"

text \<open>The value copied out, when the key is present\<close>

definition Map_RemoveAndCopyValue ::
  "('k \<Rightarrow> u64) \<Rightarrow> 'k \<Rightarrow> ('k, 'v) tmap \<Rightarrow> array_error + 'v option \<times> ('k, 'v) tmap" where
  "Map_RemoveAndCopyValue h Key s = rbind (Map_FindIndex h Key s) (\<lambda>Idx. case Idx of
       None \<Rightarrow> Inr (None, s)
     | Some i \<Rightarrow> rbind (read_cell i (m_slots s)) (\<lambda>p.
         rbind (Map_EraseAt i s) (\<lambda>s'. Inr (Some (snd p), s'))))"

section \<open>Construction, assignment, bulk operations\<close>

definition Map_copy_from :: "('k \<Rightarrow> u64) \<Rightarrow> ('k, 'v) tmap \<Rightarrow> ('k, 'v) tmap \<Rightarrow> array_error + ('k, 'v) tmap" where
  "Map_copy_from h src s =
     (if m_size src > 0
      then rbind (Map_Reserve h (to_i32 (m_size src)) s)
             (fold_res (visit_full (\<lambda>I. map_add_quiet h) src) [0..<m_capacity src])
      else Inr s)"

definition Map_copy_ctor :: "('k \<Rightarrow> u64) \<Rightarrow> ('k, 'v) tmap \<Rightarrow> array_error + ('k, 'v) tmap" where
  "Map_copy_ctor h src = Map_copy_from h src Map_ctor"

definition Map_copy_assign ::
  "('k \<Rightarrow> u64) \<Rightarrow> ('k \<times> 'v) table_rhs \<Rightarrow> ('k, 'v) tmap \<Rightarrow> array_error + ('k, 'v) tmap" where
  "Map_copy_assign h rhs s = (case rhs of
       ThisTable \<Rightarrow> Inr s
     | OtherTable src \<Rightarrow> rbind (Map_ClearAndDeallocate s) (Map_copy_from h src))"

definition Map_move_ctor :: "('k, 'v) tmap \<Rightarrow> ('k, 'v) tmap \<times> ('k, 'v) tmap" where
  "Map_move_ctor src = Swiss_move_ctor src"

definition Map_move_assign ::
  "('k \<times> 'v) table_rhs \<Rightarrow> ('k, 'v) tmap \<Rightarrow> array_error + ('k, 'v) tmap \<times> ('k \<times> 'v) table_rhs" where
  "Map_move_assign rhs s = Swiss_move_assign rhs s"

definition Map_Append_copy ::
  "('k \<Rightarrow> u64) \<Rightarrow> ('k \<times> 'v) table_rhs \<Rightarrow> ('k, 'v) tmap \<Rightarrow> array_error + ('k, 'v) tmap" where
  "Map_Append_copy h rhs s = (case rhs of
       ThisTable \<Rightarrow> Inr s
     | OtherTable src \<Rightarrow> fold_res (visit_full (\<lambda>I. map_add_quiet h) src) [0..<m_capacity src] s)"

text \<open>The value is always moved out; the pair is not read again before it is destroyed.\<close>

definition map_append_move_step ::
  "('k \<Rightarrow> u64) \<Rightarrow> nat \<Rightarrow> ('k, 'v) tmap \<times> ('k, 'v) tmap \<Rightarrow> array_error + ('k, 'v) tmap \<times> ('k, 'v) tmap" where
  "map_append_move_step h I = (\<lambda>(src, s).
     rbind (read_ctrl I (m_ctrl src)) (\<lambda>C.
       if IsFull C then
         rbind (read_cell I (m_slots src)) (\<lambda>p.
         rbind (map_add_quiet h p s) (\<lambda>s'.
         Inr (src \<lparr> m_slots := (m_slots src)[I := MovedFrom] \<rparr>, s')))
       else Inr (src, s)))"

definition Map_Append_move ::
  "('k \<Rightarrow> u64) \<Rightarrow> ('k \<times> 'v) table_rhs \<Rightarrow> ('k, 'v) tmap \<Rightarrow>
     array_error + ('k, 'v) tmap \<times> ('k \<times> 'v) table_rhs" where
  "Map_Append_move h rhs s = (case rhs of
       ThisTable \<Rightarrow> Inr (s, ThisTable)
     | OtherTable src \<Rightarrow>
         rbind (fold_res (map_append_move_step h) [0..<m_capacity src] (src, s)) (\<lambda>(src1, s1).
         rbind (Map_ClearAndDeallocate src1) (\<lambda>src2. Inr (s1, OtherTable src2))))"

definition Map_SortAndRehash ::
  "build \<Rightarrow> ('k \<Rightarrow> u64) \<Rightarrow> (('k \<times> 'v) list \<Rightarrow> ('k \<times> 'v) list) \<Rightarrow> ('k, 'v) tmap \<Rightarrow>
     array_error + ('k, 'v) tmap" where
  "Map_SortAndRehash bld h sorter s = SortAndRehash bld (map_add_quiet h) sorter s"

text \<open>
  \<open>std::sort\<close> is a parameter that takes the comparison to a permutation: by the key for \<open>KeySort\<close>,
  by the value for \<open>ValueSort\<close>.
\<close>

type_synonym 'e std_sort = "('e \<Rightarrow> 'e \<Rightarrow> bool) \<Rightarrow> 'e list \<Rightarrow> 'e list"

definition Map_KeySort ::
  "build \<Rightarrow> ('k \<Rightarrow> u64) \<Rightarrow> ('k \<times> 'v) std_sort \<Rightarrow> ('k \<Rightarrow> 'k \<Rightarrow> bool) \<Rightarrow> ('k, 'v) tmap \<Rightarrow>
     array_error + ('k, 'v) tmap" where
  "Map_KeySort bld h sortf Predicate s =
     (if m_size s \<le> 1 then Inr s
      else Map_SortAndRehash bld h (sortf (\<lambda>A B. Predicate (fst A) (fst B))) s)"

definition Map_ValueSort ::
  "build \<Rightarrow> ('k \<Rightarrow> u64) \<Rightarrow> ('k \<times> 'v) std_sort \<Rightarrow> ('v \<Rightarrow> 'v \<Rightarrow> bool) \<Rightarrow> ('k, 'v) tmap \<Rightarrow>
     array_error + ('k, 'v) tmap" where
  "Map_ValueSort bld h sortf Predicate s =
     (if m_size s \<le> 1 then Inr s
      else Map_SortAndRehash bld h (sortf (\<lambda>A B. Predicate (snd A) (snd B))) s)"

text \<open>\<open>GenerateKeyArray\<close> and \<open>GenerateValueArray\<close> append to the caller's array.\<close>

definition GenerateKeyArray ::
  "build \<Rightarrow> traits \<Rightarrow> ('k, 'v) tmap \<Rightarrow> 'k tarray \<Rightarrow> array_error + 'k tarray" where
  "GenerateKeyArray bld t s Out =
     (let n = TArray_Num Out + to_i32 (m_size s) in
      if \<not> i32_ok n then Inl IntOverflow
      else rbind (Reserve bld t n Out)
        (fold_res (visit_full (\<lambda>I p a. rbind (Add t (Ext (fst p)) a) (\<lambda>(i, a'). Inr a')) s) [0..<m_capacity s]))"

definition GenerateValueArray ::
  "build \<Rightarrow> traits \<Rightarrow> ('k, 'v) tmap \<Rightarrow> 'v tarray \<Rightarrow> array_error + 'v tarray" where
  "GenerateValueArray bld t s Out =
     (let n = TArray_Num Out + to_i32 (m_size s) in
      if \<not> i32_ok n then Inl IntOverflow
      else rbind (Reserve bld t n Out)
        (fold_res (visit_full (\<lambda>I p a. rbind (Add t (Ext (snd p)) a) (\<lambda>(i, a'). Inr a')) s) [0..<m_capacity s]))"

end
