(* ===== verification/TMapTheorems.thy ===== *)
theory TMapTheorems
  imports TMapModel TSetTheorems
begin

text \<open>
  \<open>TMap\<close> implements a partial map: every operation refines the operation on maps, and so does
  every run (the interface \<open>op_refinement\<close>).
\<close>

section \<open>Single operations\<close>

definition map_rep :: "('k \<Rightarrow> u64) \<Rightarrow> ('k, 'v) tmap \<Rightarrow> ('k \<rightharpoonup> 'v) \<Rightarrow> bool" where
  "map_rep h s M \<longleftrightarrow> swiss_inv fst h s \<and> (\<forall>k v. M k = Some v \<longleftrightarrow> (k, v) \<in> live_elems (m_slots s))"

lemma live_list_distinct_keys:
  "swiss_inv key h s \<Longrightarrow> distinct (map key (live_list (m_slots s)))"
  by (cases rule: swiss_inv_cases) (auto intro: distinct_live_list)

lemma map_rep_iff: "map_rep h s M \<longleftrightarrow> swiss_inv fst h s \<and> map_of (live_list (m_slots s)) = M"
proof -
  have "map_of (live_list (m_slots s)) k = Some v \<longleftrightarrow> (k, v) \<in> live_elems (m_slots s)"
    if "swiss_inv fst h s" for k v
    using live_list_distinct_keys [OF that] by (simp add: map_of_eq_Some_iff set_live_list)
  then show ?thesis by (auto simp: map_rep_def fun_eq_iff) (metis option.exhaust)+
qed

lemma map_rep_ctor: "map_rep h Swiss_ctor Map.empty"
  by (simp add: map_rep_def live_elems_def)

lemma absent_fst: "absent fst k slots \<longleftrightarrow> (\<forall>v. (k, v) \<notin> live_elems slots)"
  by (auto simp: absent_def)

lemma map_rep_absent: "map_rep h s M \<Longrightarrow> absent fst k (m_slots s) \<longleftrightarrow> M k = None"
  unfolding map_rep_def absent_fst by (metis option.collapse option.distinct(1))

text \<open>Replacing the value of a present key\<close>

lemma assign_inv:
  assumes "swiss_inv key h s" "i < m_capacity s" "m_slots s ! i = Live e" "key e' = key e"
  shows "swiss_inv key h (s \<lparr> m_slots := (m_slots s)[i := Live e'] \<rparr>)"
    and "live_elems ((m_slots s)[i := Live e']) = insert e' (live_elems (m_slots s) - {e})"
proof -
  let ?sl = "(m_slots s)[i := Live e']"
  note ok = elem_capacity [OF assms(1,2)] and len = table_ok_lengths [OF elem_capacity(1) [OF assms(1,2)]]
  have il: "i < length (m_slots s)" using assms(2) len(3) by simp
  have nth: "?sl ! j = Live x \<longleftrightarrow> (if j = i then x = e' else m_slots s ! j = Live x)"
    if "j < length (m_slots s)" for j x
    using that il by auto
  have "slot_ok key h (m_capacity s) (m_ctrl s) ?sl j" if j: "j < m_capacity s" for j
  proof (cases "j = i")
    case True
    then show ?thesis using slot_okD(1,2) [OF ok(1) assms(2,3)] il assms(4) by (simp add: slot_ok_def)
  next
    case False
    then show ?thesis using ok(1) j by (simp add: slot_ok_def table_ok_def)
  qed
  moreover have "keys_unique key ?sl"
    unfolding keys_unique_def
  proof (intro allI impI)
    fix j k a b
    assume "j < length ?sl" "k < length ?sl" "?sl ! j = Live a" "?sl ! k = Live b" "key a = key b"
    then show "j = k"
      using uniqueD [OF ok(1)] assms len(3) nth by (cases "j = i"; cases "k = i") auto
  qed
  moreover have "layout_ok (m_capacity s) (m_ctrl s) ?sl"
    using ok(1) by (simp add: table_ok_def layout_ok_def)
  moreover have "i \<in> live_slots (m_slots s)" using il assms(3) by (simp add: live_slots_def)
  then have "live_slots ?sl = live_slots (m_slots s)"
    unfolding live_slots_fill [OF il, of e'] by (rule insert_absorb)
  ultimately show "swiss_inv key h (s \<lparr> m_slots := ?sl \<rparr>)"
    unfolding swiss_inv_def by (intro disjI2) (use ok in \<open>simp add: table_ok_def\<close>)
  have once: "j = i" if "m_slots s ! j = Live e" "j < length (m_slots s)" for j
    using uniqueD [OF ok(1) _ assms(2) _ assms(3)] that len(3) by auto
  have "x \<in> live_elems ?sl \<longleftrightarrow> x = e' \<or> (\<exists>j < length (m_slots s). j \<noteq> i \<and> m_slots s ! j = Live x)" for x
    using il by (auto simp: live_elems_iff nth split: if_splits)
  moreover have "(\<exists>j < length (m_slots s). j \<noteq> i \<and> m_slots s ! j = Live x) \<longleftrightarrow>
      x \<in> live_elems (m_slots s) \<and> x \<noteq> e" for x
    using once assms(3) by (metis cell.inject live_elems_iff)
  ultimately show "live_elems ?sl = insert e' (live_elems (m_slots s) - {e})" by blast
qed

lemma Map_Add_rep:
  assumes "map_rep h s M"
  obtains i s' where "Map_Add h (Ext k) (Ext v) s = Inr (i, s')" "map_rep h s' (M(k \<mapsto> v))"
    "read_cell i (m_slots s') = Inr (k, v)"
proof -
  have inv: "swiss_inv fst h s" using assms by (simp add: map_rep_def)
  obtain s1 where s1: "grow_for_add fst h s = Inr s1" "swiss_inv fst h s1"
    "live_elems (m_slots s1) = live_elems (m_slots s)" "0 < m_growthLeft s1" "0 < m_capacity s1"
    by (rule grow_for_add_rep [OF inv]) (rule that)
  have rep1: "map_rep h s1 M" using s1(2,3) assms by (simp add: map_rep_def)
  have args: "key_arg r (Ext k) s1 = Inr k" "value_arg r (Ext v) s1 = Inr v" for r
    by (simp_all add: key_arg_def value_arg_def)
  note run = Map_AddImpl.simps [of h "Ext k" "Ext v" s]
  show thesis
  proof (cases "M k")
    case (Some w)
    then have "(k, w) \<in> live_elems (m_slots s1)" using rep1 by (simp add: map_rep_def)
    then obtain i where i: "AddProbe fst h (fst (k, w)) s1 = Inr (Present i)" "i < m_capacity s1"
      "m_slots s1 ! i = Live (k, w)" using AddProbe_hit [OF s1(2)] by metis
    have il: "i < length (m_slots s1)" using i(2) table_ok_lengths(3) [OF elem_capacity(1) [OF s1(2) i(2)]] by simp
    let ?s = "s1 \<lparr> m_slots := (m_slots s1)[i := Live (k, v)] \<rparr>"
    have "assign_value i v s1 = Inr ?s"
      using read_live_slot [OF il i(3)] il i(3) by (simp add: assign_value_def assign_cell_def)
    then have "Map_Add h (Ext k) (Ext v) s = Inr (i, ?s)"
      using s1(1) args i(1) by (simp add: Map_Add_def returned_def run)
    moreover have "map_rep h ?s (M(k \<mapsto> v))"
    proof -
      have "(k, x) \<in> live_elems (m_slots s1) \<longleftrightarrow> x = w" for x
        using rep1 Some by (metis map_rep_def option.inject)
      then show ?thesis
        using assign_inv [OF s1(2) i(2,3), of "(k, v)"] rep1 by (auto simp: map_rep_def)
    qed
    ultimately show thesis using that il by (simp add: read_cell_def)
  next
    case None
    then have ab: "absent fst (fst (k, v)) (m_slots s1)" using map_rep_absent [OF rep1] by simp
    obtain j d s2 where s2: "AddProbe fst h (fst (k, v)) s1 = Inr (InsertAt j d)"
      "InsertInto fst h (k, v) j d s1 = Inr s2" "swiss_inv fst h s2"
      "live_elems (m_slots s2) = insert (k, v) (live_elems (m_slots s1))"
      "m_capacity s2 = m_capacity s1" "j < m_capacity s1" "m_slots s2 ! j = Live (k, v)"
      by (rule AddProbe_miss [OF s1(2) ab s1(5,4)])
    have "Map_Add h (Ext k) (Ext v) s = Inr (j, s2)"
      using s1(1) args s2(1,2) by (simp add: Map_Add_def returned_def run)
    moreover have "(k, x) \<notin> live_elems (m_slots s1)" for x
      using rep1 None by (metis map_rep_def option.distinct(1))
    then have "map_rep h s2 (M(k \<mapsto> v))" using s2(3,4) rep1 by (auto simp: map_rep_def)
    moreover have "j < length (m_slots s2)"
      using s2(5,6) table_ok_lengths(3) [OF elem_capacity(1) [OF s2(3)], of j] by simp
    ultimately show thesis using that s2(7) by (simp add: read_cell_def)
  qed
qed

lemma map_add_quiet_rep:
  assumes "map_rep h s M"
  obtains s' where "map_add_quiet h p s = Inr s'" "map_rep h s' (M(fst p \<mapsto> snd p))"
  by (rule Map_Add_rep [OF assms, where k = "fst p" and v = "snd p"]) (simp add: map_add_quiet_def that)

definition put_all :: "('k \<times> 'v) list \<Rightarrow> ('k \<rightharpoonup> 'v) \<Rightarrow> ('k \<rightharpoonup> 'v)" where
  "put_all ps M = fold (\<lambda>p M. M(fst p \<mapsto> snd p)) ps M"

lemma put_all_map_of:
  assumes "distinct (map fst ps)"
  shows "put_all ps M = M ++ map_of ps"
  using assms
proof (induction ps arbitrary: M)
  case Nil
  then show ?case by (simp add: put_all_def)
next
  case (Cons p ps)
  then have "fst p \<notin> dom (map_of ps)" by (simp add: dom_map_of_conv_image_fst)
  moreover have "put_all (p # ps) M = put_all ps (M(fst p \<mapsto> snd p))" by (simp add: put_all_def)
  ultimately show ?case using Cons by (auto simp: map_add_def fun_eq_iff domIff split: option.split)
qed

lemma map_add_all_rep:
  assumes "map_rep h s M"
  shows "\<exists>s'. fold_res (map_add_quiet h) ps s = Inr s' \<and> map_rep h s' (put_all ps M)"
  using assms
proof (induction ps arbitrary: s M)
  case Nil
  then show ?case by (simp add: put_all_def)
next
  case (Cons p ps)
  obtain s1 where "map_add_quiet h p s = Inr s1" "map_rep h s1 (M(fst p \<mapsto> snd p))"
    by (rule map_add_quiet_rep [OF Cons.prems])
  with Cons.IH [of s1] show ?case by (auto simp: put_all_def)
qed

lemma map_put_live:
  "swiss_inv fst h src \<Longrightarrow> put_all (live_list (m_slots src)) M = M ++ map_of (live_list (m_slots src))"
  by (rule put_all_map_of [OF live_list_distinct_keys])

lemma Map_FindIndex_rep:
  assumes "map_rep h s M"
  shows "case M k of
      None \<Rightarrow> Map_FindIndex h k s = Inr None
    | Some v \<Rightarrow> \<exists>i. Map_FindIndex h k s = Inr (Some i) \<and> i < m_capacity s \<and> m_slots s ! i = Live (k, v) \<and>
        read_cell i (m_slots s) = Inr (k, v)"
proof (cases "M k")
  case None
  then show ?thesis
    using FindIndex_miss [of fst h s k] map_rep_absent [OF assms, of k] assms
    by (simp add: Map_FindIndex_def map_rep_def)
next
  case (Some v)
  have inv: "swiss_inv fst h s" and "(k, v) \<in> live_elems (m_slots s)" using assms Some by (auto simp: map_rep_def)
  then obtain i where "FindIndex fst h (fst (k, v)) s = Inr (Some i)" "i < m_capacity s" "m_slots s ! i = Live (k, v)"
    using FindIndex_hit by metis
  then show ?thesis
    using Some table_ok_lengths(3) [OF elem_capacity(1) [OF inv, of i]]
    by (auto simp: Map_FindIndex_def read_cell_def)
qed

lemma Map_Contains_rep: "map_rep h s M \<Longrightarrow> Map_Contains h k s = Inr (k \<in> dom M)"
  using Map_FindIndex_rep [of h s M k] by (auto simp: Map_Contains_def split: option.splits)

lemma Map_FindRef_rep:
  "map_rep h s M \<Longrightarrow> Map_FindRef h dflt k s = Inr (case M k of None \<Rightarrow> dflt | Some v \<Rightarrow> v)"
  using Map_FindIndex_rep [of h s M k] by (auto simp: Map_FindRef_def Map_Find_def split: option.splits)

lemma map_erase:
  assumes "map_rep h s M" "i < m_capacity s" "m_slots s ! i = Live (k, v)"
  obtains s' where "Map_EraseAt i s = Inr s'" "map_rep h s' (M(k := None))"
proof -
  have inv: "swiss_inv fst h s" using assms(1) by (simp add: map_rep_def)
  obtain s' where "EraseAt i s = Inr s'" "swiss_inv fst h s'"
    "live_elems (m_slots s') = live_elems (m_slots s) - {(k, v)}" by (rule EraseAt_rep [OF inv assms(2,3)])
  moreover have "M k = Some v"
    using assms table_ok_lengths(3) [OF elem_capacity(1) [OF inv assms(2)]] by (auto simp: map_rep_def live_elems_iff)
  then have "(k, x) \<in> live_elems (m_slots s) \<longleftrightarrow> x = v" for x
    using assms(1) by (metis map_rep_def option.inject)
  ultimately show thesis using that [of s'] assms(1) by (auto simp: Map_EraseAt_def map_rep_def)
qed

lemma Map_Remove_rep:
  assumes "map_rep h s M"
  obtains s' where "Map_Remove h k s = Inr (k \<in> dom M, s')" "map_rep h s' (M(k := None))"
proof (cases "M k")
  case None
  then have "M(k := None) = M" by auto
  then show ?thesis using that [of s] None Map_FindIndex_rep [OF assms, of k] assms
    by (simp add: Map_Remove_def domIff)
next
  case (Some v)
  then obtain i where i: "Map_FindIndex h k s = Inr (Some i)" "i < m_capacity s" "m_slots s ! i = Live (k, v)"
    using Map_FindIndex_rep [OF assms, of k] by auto
  obtain s' where "Map_EraseAt i s = Inr s'" "map_rep h s' (M(k := None))" by (rule map_erase [OF assms i(2,3)])
  then show ?thesis using that [of s'] Some i(1) by (simp add: Map_Remove_def domIff)
qed

lemma Map_RemoveAndCopyValue_rep:
  assumes "map_rep h s M"
  obtains s' where "Map_RemoveAndCopyValue h k s = Inr (M k, s')" "map_rep h s' (M(k := None))"
proof (cases "M k")
  case None
  then have "M(k := None) = M" by auto
  then show ?thesis using that [of s] None Map_FindIndex_rep [OF assms, of k] assms
    by (simp add: Map_RemoveAndCopyValue_def)
next
  case (Some v)
  then obtain i where i: "Map_FindIndex h k s = Inr (Some i)" "i < m_capacity s" "m_slots s ! i = Live (k, v)"
    "read_cell i (m_slots s) = Inr (k, v)"
    using Map_FindIndex_rep [OF assms, of k] by auto
  obtain s' where "Map_EraseAt i s = Inr s'" "map_rep h s' (M(k := None))" by (rule map_erase [OF assms i(2,3)])
  then show ?thesis using that [of s'] Some i(1,4) by (simp add: Map_RemoveAndCopyValue_def)
qed

text \<open>\<open>FindAndRemoveChecked\<close> aborts on an absent key when checks are compiled in.\<close>

lemma Map_FindAndRemoveChecked_rep:
  assumes "map_rep h s M"
  shows "M k = None \<Longrightarrow> Map_FindAndRemoveChecked bld h k s =
       Inl (if bld = Checked then CheckFails else Lifetime)"
    and "M k = Some v \<Longrightarrow> \<exists>s'. Map_FindAndRemoveChecked bld h k s = Inr (v, s') \<and> map_rep h s' (M(k := None))"
proof -
  show "M k = None \<Longrightarrow> Map_FindAndRemoveChecked bld h k s = Inl (if bld = Checked then CheckFails else Lifetime)"
    using Map_FindIndex_rep [OF assms, of k] by (simp add: Map_FindAndRemoveChecked_def acheck_def)
  assume "M k = Some v"
  then obtain i where i: "Map_FindIndex h k s = Inr (Some i)" "i < m_capacity s" "m_slots s ! i = Live (k, v)"
    "read_cell i (m_slots s) = Inr (k, v)"
    using Map_FindIndex_rep [OF assms, of k] by auto
  obtain s' where "Map_EraseAt i s = Inr s'" "map_rep h s' (M(k := None))" by (rule map_erase [OF assms i(2,3)])
  with i(1,4) show "\<exists>s'. Map_FindAndRemoveChecked bld h k s = Inr (v, s') \<and> map_rep h s' (M(k := None))"
    by (simp add: Map_FindAndRemoveChecked_def acheck_def)
qed

lemma Map_FindOrAdd_rep:
  assumes "map_rep h s M"
  obtains i s' v where "Map_FindOrAdd h dflt (Ext k) s = Inr (i, s')" "Map_index h dflt (Ext k) s = Inr (i, s')"
    "v = (case M k of None \<Rightarrow> dflt | Some v \<Rightarrow> v)" "map_rep h s' (M(k \<mapsto> v))"
    "read_cell i (m_slots s') = Inr (k, v)"
proof (cases "M k")
  case None
  obtain i s' where "Map_Add h (Ext k) (Ext dflt) s = Inr (i, s')" "map_rep h s' (M(k \<mapsto> dflt))"
    "read_cell i (m_slots s') = Inr (k, dflt)" by (rule Map_Add_rep [OF assms])
  then show ?thesis using that [of i s' dflt] None Map_FindIndex_rep [OF assms, of k]
    by (simp add: Map_FindOrAdd_def Map_index_def Map_Find_def key_arg_def)
next
  case (Some v)
  then have "M(k \<mapsto> v) = M" by auto
  moreover obtain i where "Map_FindIndex h k s = Inr (Some i)" "read_cell i (m_slots s) = Inr (k, v)"
    using Map_FindIndex_rep [OF assms, of k] Some by auto
  ultimately show ?thesis using that [of i s v] Some assms
    by (simp add: Map_FindOrAdd_def Map_index_def Map_Find_def key_arg_def)
qed

lemma Map_copy_from_rep:
  assumes "swiss_inv fst h src" "map_rep h s M"
  obtains s' where "Map_copy_from h src s = Inr s'" "map_rep h s' (M ++ map_of (live_list (m_slots src)))"
proof (cases "m_size src > 0")
  case True
  have inv: "swiss_inv fst h s" using assms(2) by (simp add: map_rep_def)
  obtain s1 where s1: "Swiss_Reserve fst h (to_i32 (m_size src)) s = Inr s1" "swiss_inv fst h s1"
    "live_elems (m_slots s1) = live_elems (m_slots s)" by (rule Swiss_Reserve_rep [OF inv])
  then have rep: "map_rep h s1 M" using assms(2) by (simp add: map_rep_def)
  obtain s2 where "fold_res (map_add_quiet h) (live_list (m_slots src)) s1 = Inr s2"
    "map_rep h s2 (M ++ map_of (live_list (m_slots src)))"
    using map_add_all_rep [OF rep, of "live_list (m_slots src)"] map_put_live [OF assms(1)] by auto
  then show ?thesis using that [of s2] True s1(1)
    by (simp add: Map_copy_from_def Map_Reserve_def visit_full_all [OF assms(1)])
next
  case False
  have "live_list (m_slots src) = []"
    using assms(1) by (cases rule: swiss_inv_cases)
      (use False length_live_list [of "m_slots src"] table_no_moved [of fst h] in auto)
  then show ?thesis using that [of s] False assms(2) by (simp add: Map_copy_from_def)
qed

lemma map_append_move_loop:
  assumes "map_rep h s M" "table_ok fst h (m_capacity src) (m_ctrl src) (m_slots src)" "k \<le> m_capacity src"
  shows "\<exists>s'. fold_res (map_append_move_step h) [0..<k] (src, s) =
       Inr (src \<lparr> m_slots := map (\<lambda>c. if c = Raw then Raw else MovedFrom) (take k (m_slots src)) @
                   drop k (m_slots src) \<rparr>, s') \<and>
     map_rep h s' (put_all (live_list (take k (m_slots src))) M)"
  using assms(3)
proof (induction k)
  case 0
  then show ?case using assms(1) by (simp add: put_all_def)
next
  case (Suc k)
  let ?m = "\<lambda>c :: ('a \<times> 'b) cell. if c = Raw then Raw else MovedFrom"
  let ?sl = "m_slots src"
  have k: "k < m_capacity src" "k < length ?sl" using Suc.prems table_ok_lengths(3) [OF assms(2)] by simp_all
  have d: "drop k ?sl = ?sl ! k # drop (Suc k) ?sl" using k by (simp add: Cons_nth_drop_Suc)
  obtain s1 where IH: "fold_res (map_append_move_step h) [0..<k] (src, s) =
       Inr (src \<lparr> m_slots := map ?m (take k ?sl) @ drop k ?sl \<rparr>, s1)"
    "map_rep h s1 (put_all (live_list (take k ?sl)) M)" using Suc by auto
  have "\<exists>s2. map_append_move_step h k (src \<lparr> m_slots := map ?m (take k ?sl) @ drop k ?sl \<rparr>, s1) =
       Inr (src \<lparr> m_slots := map ?m (take k ?sl) @ ?m (?sl ! k) # drop (Suc k) ?sl \<rparr>, s2) \<and>
     map_rep h s2 (put_all (live_list [?sl ! k]) (put_all (live_list (take k ?sl)) M))"
  proof (cases "?sl ! k")
    case Raw
    then show ?thesis
      using full_is_live [OF assms(2) k(1)] read_ctrl_in [OF assms(2) k(1)] d IH(2)
      by (simp add: map_append_move_step_def put_all_def)
  next
    case MovedFrom
    then show ?thesis using slot_okD(4) [OF assms(2) k(1)] by simp
  next
    case (Live p)
    obtain s2 where s2: "map_add_quiet h p s1 = Inr s2"
      "map_rep h s2 ((put_all (live_list (take k ?sl)) M)(fst p \<mapsto> snd p))"
      by (rule map_add_quiet_rep [OF IH(2)])
    have "read_cell k (map ?m (take k ?sl) @ Live p # drop (Suc k) ?sl) = Inr p"
      using k by (simp add: read_cell_def nth_append)
    moreover have "(map ?m (take k ?sl) @ Live p # drop (Suc k) ?sl)[k := MovedFrom] =
        map ?m (take k ?sl) @ MovedFrom # drop (Suc k) ?sl"
      using k by (simp add: list_update_append)
    ultimately show ?thesis
      using full_is_live [OF assms(2) k(1)] read_ctrl_in [OF assms(2) k(1)] d Live s2
      by (simp add: map_append_move_step_def put_all_def)
  qed
  then show ?case
    using IH(1) k by (auto simp: upt_Suc_append fold_res_snoc take_Suc_conv_app_nth live_list_append put_all_def
        simp del: fold_res.simps)
qed

lemma Map_Append_move_rep:
  fixes s src :: "('k, 'v) tmap"
  assumes "map_rep h s M" "swiss_inv fst h src"
  obtains s' where "Map_Append_move h (OtherTable src) s = Inr (s', OtherTable Swiss_ctor)"
    "map_rep h s' (M ++ map_of (live_list (m_slots src)))"
  using assms(2)
proof (cases rule: swiss_inv_cases)
  case no_storage
  then show ?thesis using that [of s] assms(1)
    by (simp add: Map_Append_move_def Map_ClearAndDeallocate_def ClearAndDeallocate_def)
next
  case storage
  let ?pre = "map (\<lambda>c. if c = Raw then Raw else MovedFrom) (m_slots src) :: ('k \<times> 'v) buffer"
  note len = table_ok_lengths [OF storage(1)]
  obtain s1 where loop: "fold_res (map_append_move_step h) [0..<m_capacity src] (src, s) =
       Inr (src \<lparr> m_slots := ?pre \<rparr>, s1)" "map_rep h s1 (put_all (live_list (m_slots src)) M)"
    using map_append_move_loop [OF assms(1) storage(1) order_refl] len(3) by auto
  have "IsFull (m_ctrl src ! i) \<longleftrightarrow> ?pre ! i \<noteq> Raw" if "i < m_capacity src" for i
    using full_is_live [OF storage(1) that] slot_okD(4) [OF storage(1) that] that len(3)
    by (cases "m_slots src ! i") auto
  then have "fold_res (destroy_if_full (m_ctrl src)) [0..<m_capacity src] ?pre = Inr (replicate (m_capacity src) Raw)"
    using destroy_marked [of ?pre "m_ctrl src"] len(2,3) by simp
  then have "ClearAndDeallocate (src \<lparr> m_slots := ?pre \<rparr>) = Inr Swiss_ctor"
    using storage(2) by (simp add: ClearAndDeallocate_def Deallocate_cells_def)
  then show ?thesis using that [of s1] loop map_put_live [OF assms(2)]
    by (simp add: Map_Append_move_def Map_ClearAndDeallocate_def)
qed

lemma map_of_mset:
  assumes "distinct (map fst ps)" "mset ps = mset qs"
  shows "map_of ps = map_of qs"
proof -
  have "mset (map fst ps) = mset (map fst qs)" using assms(2) by simp
  then have "distinct (map fst qs)" using assms(1) mset_eq_imp_distinct_iff by blast
  moreover have "set ps = set qs" using assms(2) by (rule mset_eq_setD)
  ultimately show ?thesis using assms(1) map_of_inject_set by blast
qed

lemma Map_SortAndRehash_rep:
  assumes "map_rep h s M" "1 < m_size s" "\<And>ps. mset (sorter ps) = mset ps"
  obtains s' where "Map_SortAndRehash bld h sorter s = Inr s'" "map_rep h s' M"
proof -
  have inv: "swiss_inv fst h s" and M: "map_of (live_list (m_slots s)) = M"
    using assms(1) by (simp_all add: map_rep_iff)
  note d = live_list_distinct_keys [OF inv]
  obtain s0 where s0: "SortAndRehash bld (map_add_quiet h) sorter s =
      fold_res (map_add_quiet h) (sorter (live_list (m_slots s))) s0"
    "swiss_inv fst h s0" "live_elems (m_slots s0) = {}"
    by (rule SortAndRehash_unfold [OF inv, of sorter bld "map_add_quiet h"]) (use assms(2,3) in auto)
  have rep: "map_rep h s0 Map.empty" using s0(2,3) by (simp add: map_rep_def)
  have "mset (map fst (sorter (live_list (m_slots s)))) = mset (map fst (live_list (m_slots s)))"
    using assms(3) by simp
  then have ds: "distinct (map fst (sorter (live_list (m_slots s))))" using d mset_eq_imp_distinct_iff by blast
  have "map_of (sorter (live_list (m_slots s))) = M"
    using map_of_mset [OF ds assms(3)] M by simp
  then have "put_all (sorter (live_list (m_slots s))) Map.empty = M" using put_all_map_of [OF ds] by simp
  with map_add_all_rep [OF rep, of "sorter (live_list (m_slots s))"] s0(1) that show thesis
    by (auto simp: Map_SortAndRehash_def)
qed

text \<open>The key and value arrays are appended in the order of the slots.\<close>

lemma add_all_arr:
  fixes a :: "'a tarray"
  shows "arr_rep t a xs \<Longrightarrow> length xs + length ys < 2 ^ 31 \<Longrightarrow>
     \<exists>a'. fold_res (\<lambda>p a. rbind (Add t (Ext (f p)) a) (\<lambda>(i, a'). Inr a')) ys a = Inr a' \<and>
       arr_rep t a' (xs @ map f ys)"
proof (induction ys arbitrary: a xs)
  case Nil
  then show ?case by simp
next
  case (Cons y ys)
  obtain a1 where "Add t (Ext (f y)) a = Inr (int (length xs), a1)" "arr_rep t a1 (xs @ [f y])"
    by (rule Add_rep [OF Cons.prems(1), where v = "Ext (f y)" and x = "f y"]) (use Cons.prems(2) in auto)
  with Cons.IH [of a1 "xs @ [f y]"] Cons.prems(2) show ?case by simp
qed

lemma generate_rep:
  fixes Out :: "'a tarray"
  assumes "swiss_inv key h s" "arr_rep t Out xs" "length xs + m_size s < 2 ^ 31"
  shows "\<exists>a. rbind (Reserve bld t (TArray_Num Out + to_i32 (m_size s)) Out)
      (fold_res (visit_full (\<lambda>I p a. rbind (Add t (Ext (f p)) a) (\<lambda>(i, a'). Inr a')) s) [0..<m_capacity s]) = Inr a \<and>
    arr_rep t a (xs @ map f (live_list (m_slots s)))"
    and "i32_ok (TArray_Num Out + to_i32 (m_size s))"
proof -
  have num: "TArray_Num Out = int (length xs)" using assms(2) by (simp add: TArray_Num_def arr_rep_def)
  have sz: "to_i32 (m_size s) = int (m_size s)" using assms(3) by (simp add: to_i32_small)
  show "i32_ok (TArray_Num Out + to_i32 (m_size s))" using assms(3) by (simp add: i32_ok_def num sz)
  have len: "length (live_list (m_slots s)) = m_size s"
    using assms(1) by (cases rule: swiss_inv_cases) (simp_all add: length_live_list table_no_moved)
  obtain a0 :: "'a tarray" where a0: "Reserve bld t (TArray_Num Out + to_i32 (m_size s)) Out = Inr a0" "arr_rep t a0 xs"
    by (rule Reserve_rep [OF assms(2), where n = "TArray_Num Out + to_i32 (m_size s)" and bld = bld])
      (use num sz assms(3) in auto)
  obtain a where "fold_res (\<lambda>p a. rbind (Add t (Ext (f p)) a) (\<lambda>(i, a'). Inr a')) (live_list (m_slots s)) a0 = Inr a"
    "arr_rep t a (xs @ map f (live_list (m_slots s)))"
    using add_all_arr [OF a0(2), of "live_list (m_slots s)" f] len assms(3) by auto
  then show "\<exists>a. rbind (Reserve bld t (TArray_Num Out + to_i32 (m_size s)) Out)
      (fold_res (visit_full (\<lambda>I p a. rbind (Add t (Ext (f p)) a) (\<lambda>(i, a'). Inr a')) s) [0..<m_capacity s]) = Inr a \<and>
    arr_rep t a (xs @ map f (live_list (m_slots s)))"
    using a0(1) by (simp add: visit_full_all [OF assms(1)])
qed

lemma GenerateKeyArray_rep:
  assumes "swiss_inv fst h s" "arr_rep t Out xs" "length xs + m_size s < 2 ^ 31"
  shows "\<exists>a. GenerateKeyArray bld t s Out = Inr a \<and> arr_rep t a (xs @ map fst (live_list (m_slots s)))"
  using generate_rep(1) [OF assms, where f = fst] generate_rep(2) [OF assms] by (simp add: GenerateKeyArray_def Let_def)

lemma GenerateValueArray_rep:
  assumes "swiss_inv fst h s" "arr_rep t Out xs" "length xs + m_size s < 2 ^ 31"
  shows "\<exists>a. GenerateValueArray bld t s Out = Inr a \<and> arr_rep t a (xs @ map snd (live_list (m_slots s)))"
  using generate_rep(1) [OF assms, where f = snd] generate_rep(2) [OF assms] by (simp add: GenerateValueArray_def Let_def)

section \<open>Runs\<close>

datatype ('k, 'v) map_op =
    MapAdd 'k 'v | MapIndex 'k | MapFindOrAdd 'k | MapRemove 'k | MapRemoveCopy 'k | MapRemoveChecked 'k
  | MapReserve int | MapReset | MapAppend "('k, 'v) tmap" | MapAppendMove "('k, 'v) tmap"
  | MapAssign "('k, 'v) tmap" | MapMoveAssign "('k, 'v) tmap"
  | MapKeySort "('k \<times> 'v) std_sort" "'k \<Rightarrow> 'k \<Rightarrow> bool" | MapValueSort "('k \<times> 'v) std_sort" "'v \<Rightarrow> 'v \<Rightarrow> bool"

fun map_op_step ::
  "build \<Rightarrow> ('k \<Rightarrow> u64) \<Rightarrow> 'v \<Rightarrow> ('k, 'v) map_op \<Rightarrow> ('k, 'v) tmap \<Rightarrow> array_error + ('k, 'v) tmap" where
  "map_op_step bld h dflt (MapAdd k v) s = rbind (Map_Add h (Ext k) (Ext v) s) (\<lambda>(i, s'). Inr s')"
| "map_op_step bld h dflt (MapIndex k) s = rbind (Map_index h dflt (Ext k) s) (\<lambda>(i, s'). Inr s')"
| "map_op_step bld h dflt (MapFindOrAdd k) s = rbind (Map_FindOrAdd h dflt (Ext k) s) (\<lambda>(i, s'). Inr s')"
| "map_op_step bld h dflt (MapRemove k) s = rbind (Map_Remove h k s) (\<lambda>(b, s'). Inr s')"
| "map_op_step bld h dflt (MapRemoveCopy k) s = rbind (Map_RemoveAndCopyValue h k s) (\<lambda>(v, s'). Inr s')"
| "map_op_step bld h dflt (MapRemoveChecked k) s = rbind (Map_FindAndRemoveChecked bld h k s) (\<lambda>(v, s'). Inr s')"
| "map_op_step bld h dflt (MapReserve n) s = Map_Reserve h n s"
| "map_op_step bld h dflt MapReset s = Map_Reset s"
| "map_op_step bld h dflt (MapAppend src) s = Map_Append_copy h (OtherTable src) s"
| "map_op_step bld h dflt (MapAppendMove src) s =
     rbind (Map_Append_move h (OtherTable src) s) (\<lambda>(s', src'). Inr s')"
| "map_op_step bld h dflt (MapAssign src) s = Map_copy_assign h (OtherTable src) s"
| "map_op_step bld h dflt (MapMoveAssign src) s =
     rbind (Map_move_assign (OtherTable src) s) (\<lambda>(s', src'). Inr s')"
| "map_op_step bld h dflt (MapKeySort sortf P) s = Map_KeySort bld h sortf P s"
| "map_op_step bld h dflt (MapValueSort sortf P) s = Map_ValueSort bld h sortf P s"

abbreviation entries :: "('k, 'v) tmap \<Rightarrow> ('k \<rightharpoonup> 'v)" where
  "entries src \<equiv> map_of (live_list (m_slots src))"

fun map_op_spec :: "'v \<Rightarrow> ('k, 'v) map_op \<Rightarrow> ('k \<rightharpoonup> 'v) \<Rightarrow> ('k \<rightharpoonup> 'v)" where
  "map_op_spec dflt (MapAdd k v) M = M(k \<mapsto> v)"
| "map_op_spec dflt (MapIndex k) M = (if k \<in> dom M then M else M(k \<mapsto> dflt))"
| "map_op_spec dflt (MapFindOrAdd k) M = (if k \<in> dom M then M else M(k \<mapsto> dflt))"
| "map_op_spec dflt (MapRemove k) M = M(k := None)"
| "map_op_spec dflt (MapRemoveCopy k) M = M(k := None)"
| "map_op_spec dflt (MapRemoveChecked k) M = M(k := None)"
| "map_op_spec dflt (MapReserve n) M = M"
| "map_op_spec dflt MapReset M = Map.empty"
| "map_op_spec dflt (MapAppend src) M = M ++ entries src"
| "map_op_spec dflt (MapAppendMove src) M = M ++ entries src"
| "map_op_spec dflt (MapAssign src) M = entries src"
| "map_op_spec dflt (MapMoveAssign src) M = entries src"
| "map_op_spec dflt (MapKeySort sortf P) M = M"
| "map_op_spec dflt (MapValueSort sortf P) M = M"

fun map_op_ok :: "('k \<Rightarrow> u64) \<Rightarrow> ('k, 'v) map_op \<Rightarrow> ('k \<rightharpoonup> 'v) \<Rightarrow> bool" where
  "map_op_ok h (MapRemoveChecked k) M \<longleftrightarrow> k \<in> dom M"
| "map_op_ok h (MapAppend src) M \<longleftrightarrow> swiss_inv fst h src"
| "map_op_ok h (MapAppendMove src) M \<longleftrightarrow> swiss_inv fst h src"
| "map_op_ok h (MapAssign src) M \<longleftrightarrow> swiss_inv fst h src"
| "map_op_ok h (MapMoveAssign src) M \<longleftrightarrow> swiss_inv fst h src"
| "map_op_ok h (MapKeySort sortf P) M \<longleftrightarrow> (\<forall>Q ps. mset (sortf Q ps) = mset ps)"
| "map_op_ok h (MapValueSort sortf P) M \<longleftrightarrow> (\<forall>Q ps. mset (sortf Q ps) = mset ps)"
| "map_op_ok h _ M \<longleftrightarrow> True"

lemma map_op_refines:
  assumes "map_rep h s M" "map_op_ok h x M"
  shows "\<exists>s'. map_op_step bld h dflt x s = Inr s' \<and> map_rep h s' (map_op_spec dflt x M)"
proof -
  have inv: "swiss_inv fst h s" using assms(1) by (simp add: map_rep_def)
  have default: "M(k \<mapsto> case M k of None \<Rightarrow> dflt | Some v \<Rightarrow> v) = (if k \<in> dom M then M else M(k \<mapsto> dflt))" for k
    by (cases "M k") (auto simp: domIff)
  show ?thesis
  proof (cases x)
    case (MapAdd k v)
    obtain i s' where "Map_Add h (Ext k) (Ext v) s = Inr (i, s')" "map_rep h s' (M(k \<mapsto> v))"
      by (rule Map_Add_rep [OF assms(1)])
    with MapAdd show ?thesis by simp
  next
    case (MapIndex k)
    obtain i s' v where "Map_index h dflt (Ext k) s = Inr (i, s')" "map_rep h s' (M(k \<mapsto> v))"
      "v = (case M k of None \<Rightarrow> dflt | Some v \<Rightarrow> v)" by (rule Map_FindOrAdd_rep [OF assms(1)])
    with MapIndex default [of k] show ?thesis by simp
  next
    case (MapFindOrAdd k)
    obtain i s' v where "Map_FindOrAdd h dflt (Ext k) s = Inr (i, s')" "map_rep h s' (M(k \<mapsto> v))"
      "v = (case M k of None \<Rightarrow> dflt | Some v \<Rightarrow> v)" by (rule Map_FindOrAdd_rep [OF assms(1)])
    with MapFindOrAdd default [of k] show ?thesis by simp
  next
    case (MapRemove k)
    obtain s' where "Map_Remove h k s = Inr (k \<in> dom M, s')" "map_rep h s' (M(k := None))"
      by (rule Map_Remove_rep [OF assms(1)])
    with MapRemove show ?thesis by simp
  next
    case (MapRemoveCopy k)
    obtain s' where "Map_RemoveAndCopyValue h k s = Inr (M k, s')" "map_rep h s' (M(k := None))"
      by (rule Map_RemoveAndCopyValue_rep [OF assms(1)])
    with MapRemoveCopy show ?thesis by simp
  next
    case (MapRemoveChecked k)
    then obtain v where "M k = Some v" using assms(2) by auto
    from Map_FindAndRemoveChecked_rep(2) [OF assms(1) this, of bld] MapRemoveChecked show ?thesis by auto
  next
    case (MapReserve n)
    obtain s' where "Swiss_Reserve fst h n s = Inr s'" "swiss_inv fst h s'"
      "live_elems (m_slots s') = live_elems (m_slots s)" by (rule Swiss_Reserve_rep [OF inv])
    with MapReserve assms(1) show ?thesis by (simp add: map_rep_def Map_Reserve_def)
  next
    case MapReset
    obtain s' where "Swiss_Reset s = Inr s'" "swiss_inv fst h s'" "live_elems (m_slots s') = {}"
      by (rule Swiss_Reset_rep [OF inv])
    with MapReset show ?thesis by (simp add: map_rep_def Map_Reset_def)
  next
    case (MapAppend src)
    with assms(2) have src: "swiss_inv fst h src" by simp
    from MapAppend map_add_all_rep [OF assms(1), of "live_list (m_slots src)"] map_put_live [OF src] show ?thesis
      by (simp add: Map_Append_copy_def visit_full_all [OF src])
  next
    case (MapAppendMove src)
    obtain s' where "Map_Append_move h (OtherTable src) s = Inr (s', OtherTable Swiss_ctor)"
      "map_rep h s' (M ++ entries src)"
      by (rule Map_Append_move_rep [OF assms(1)]) (use MapAppendMove assms(2) in simp)
    with MapAppendMove show ?thesis by simp
  next
    case (MapAssign src)
    obtain s' where "Map_copy_from h src Swiss_ctor = Inr s'" "map_rep h s' (Map.empty ++ entries src)"
      by (rule Map_copy_from_rep [OF _ map_rep_ctor]) (use MapAssign assms(2) in simp)
    with MapAssign ClearAndDeallocate_rep [OF inv] show ?thesis
      by (simp add: Map_copy_assign_def Map_ClearAndDeallocate_def)
  next
    case (MapMoveAssign src)
    have "Swiss_move_assign (OtherTable src) s = Inr (src, OtherTable Swiss_ctor)"
      by (simp add: Swiss_move_assign_def ClearAndDeallocate_rep [OF inv] Swiss_ctor_def)
    with MapMoveAssign assms(2) show ?thesis by (simp add: Map_move_assign_def map_rep_iff)
  next
    case (MapKeySort sortf P)
    show ?thesis
    proof (cases "m_size s \<le> 1")
      case True
      with MapKeySort assms(1) show ?thesis by (simp add: Map_KeySort_def)
    next
      case False
      obtain s' where "Map_SortAndRehash bld h (sortf (\<lambda>A B. P (fst A) (fst B))) s = Inr s'" "map_rep h s' M"
        by (rule Map_SortAndRehash_rep [OF assms(1), of "sortf (\<lambda>A B. P (fst A) (fst B))" bld])
          (use False MapKeySort assms(2) in auto)
      with False MapKeySort show ?thesis by (simp add: Map_KeySort_def)
    qed
  next
    case (MapValueSort sortf P)
    show ?thesis
    proof (cases "m_size s \<le> 1")
      case True
      with MapValueSort assms(1) show ?thesis by (simp add: Map_ValueSort_def)
    next
      case False
      obtain s' where "Map_SortAndRehash bld h (sortf (\<lambda>A B. P (snd A) (snd B))) s = Inr s'" "map_rep h s' M"
        by (rule Map_SortAndRehash_rep [OF assms(1), of "sortf (\<lambda>A B. P (snd A) (snd B))" bld])
          (use False MapValueSort assms(2) in auto)
      with False MapValueSort show ?thesis by (simp add: Map_ValueSort_def)
    qed
  qed
qed

interpretation tmap: op_refinement "map_rep h" "map_op_ok h" "map_op_step bld h dflt" "map_op_spec dflt"
  for h bld dflt
  by unfold_locales (rule map_op_refines)

text \<open>
  C21: a map is a map, whatever the hash function.  Any sequence of the operations on maps (a
  checked removal only of a present key) runs to its end without a probe loop that hangs, an
  access outside an object's lifetime or a counter that wraps.  The map then holds exactly the
  bindings the same operations build: \<open>FindRef\<close> and \<open>Contains\<close> answer from them, the
  range-based loop visits every key once with its value, \<open>Num\<close> is the number of keys, and the
  destructor destroys each pair once.
\<close>

theorem map_runs_refine_maps:
  assumes "allowed (map_op_ok h) (map_op_spec dflt) ops Map.empty"
  defines "M \<equiv> fold (map_op_spec dflt) ops Map.empty"
  shows "\<exists>s ps. run_steps (map_op_step bld h dflt) ops Map_ctor = Inr s \<and>
     (\<forall>k d. Map_FindRef h d k s = Inr (case M k of None \<Rightarrow> d | Some v \<Rightarrow> v)) \<and>
     (\<forall>k. Map_Contains h k s = Inr (k \<in> dom M)) \<and>
     Map_Range_for s = Inr ps \<and> map_of ps = M \<and> distinct (map fst ps) \<and>
     Map_Num s = to_i32 (card (dom M)) \<and> Map_dtor s = Inr Map_ctor"
proof -
  obtain s where s: "run_steps (map_op_step bld h dflt) ops Map_ctor = Inr s" "map_rep h s M"
    using tmap.run_refines [OF map_rep_ctor assms(1)] unfolding M_def Map_ctor_def by blast
  then have inv: "swiss_inv fst h s" and M: "map_of (live_list (m_slots s)) = M" by (simp_all add: map_rep_iff)
  note d = live_list_distinct_keys [OF inv]
  have "length (live_list (m_slots s)) = m_size s"
    using inv by (cases rule: swiss_inv_cases) (simp_all add: length_live_list table_no_moved)
  moreover have "dom M = set (map fst (live_list (m_slots s)))"
    unfolding M [symmetric] by (simp add: dom_map_of_conv_image_fst)
  ultimately have "card (dom M) = m_size s" using distinct_card [OF d] by simp
  then show ?thesis
    using s(1) Map_FindRef_rep [OF s(2)] Map_Contains_rep [OF s(2)] Range_for_exact [OF inv] M d
      ClearAndDeallocate_rep [OF inv]
    by (simp add: Map_Range_for_def Map_Num_def Map_dtor_def Map_ClearAndDeallocate_def Map_ctor_def)
qed

definition demo_map_ops :: "(nat, int) map_op list" where
  "demo_map_ops = [MapAdd 3 30, MapAdd 19 190, MapIndex 5, MapAdd 3 31, MapRemove 19,
                   MapKeySort (\<lambda>P. rev) (<), MapRemoveChecked 3, MapFindOrAdd 8]"

theorem map_runs_refine_maps_witness:
  "\<exists>s ps. run_steps (map_op_step Checked demo_hash 0) demo_map_ops Map_ctor = Inr s \<and>
     (\<forall>k d. Map_FindRef demo_hash d k s = Inr (case [5 \<mapsto> 0, 8 \<mapsto> 0] k of None \<Rightarrow> d | Some v \<Rightarrow> v)) \<and>
     (\<forall>k. Map_Contains demo_hash k s = Inr (k \<in> {5, 8})) \<and>
     Map_Range_for s = Inr ps \<and> map_of ps = [5 \<mapsto> 0, 8 \<mapsto> 0] \<and> distinct (map fst ps) \<and>
     Map_Num s = to_i32 2 \<and> Map_dtor s = Inr Map_ctor"
proof -
  have ok: "allowed (map_op_ok demo_hash) (map_op_spec 0) demo_map_ops Map.empty"
    by (simp add: demo_map_ops_def)
  have M: "fold (map_op_spec 0) demo_map_ops Map.empty = [5 \<mapsto> 0, 8 \<mapsto> 0]"
    by (rule ext) (simp add: demo_map_ops_def)
  have d: "dom [5 \<mapsto> 0, 8 \<mapsto> 0 :: int] = {5, 8 :: nat}" and c: "card {5, 8 :: nat} = 2" by auto
  show ?thesis using map_runs_refine_maps [OF ok, of Checked] unfolding M d c .
qed

end
