(* ===== verification/Xxh3.thy ===== *)
theory Xxh3
  imports XPrelude
begin

text \<open>
  The XXH3 64-bit hash (\<open>FXxh3\<close>, \<open>Private/Hash/FXxh3.cpp\<close>), the hash of the name table and of
  the containers' integer and string keys.  A pointer to bytes is the function that reads the
  byte at an offset from it, so \<open>Ptr + k\<close> is a shifted function; lengths are natural numbers
  below \<open>2 ^ 64\<close> and everything that is mixed is a 64-bit word.
\<close>

type_synonym bytes = "nat \<Rightarrow> u8"

definition adv :: "bytes \<Rightarrow> nat \<Rightarrow> bytes" where
  "adv Ptr k = (\<lambda>i. Ptr (k + i))"

lemma adv_apply: "adv p k i = p (k + i)"
  by (simp add: adv_def)

lemma adv_adv [simp]: "adv (adv p k) j = adv p (k + j)"
  by (simp add: adv_def add.assoc)

section \<open>Constants\<close>

definition kXxh3Secret_bytes :: "u8 list" where
  "kXxh3Secret_bytes =
     [0xb8, 0xfe, 0x6c, 0x39, 0x23, 0xa4, 0x4b, 0xbe, 0x7c, 0x01, 0x81, 0x2c, 0xf7, 0x21, 0xad, 0x1c,
      0xde, 0xd4, 0x6d, 0xe9, 0x83, 0x90, 0x97, 0xdb, 0x72, 0x40, 0xa4, 0xa4, 0xb7, 0xb3, 0x67, 0x1f,
      0xcb, 0x79, 0xe6, 0x4e, 0xcc, 0xc0, 0xe5, 0x78, 0x82, 0x5a, 0xd0, 0x7d, 0xcc, 0xff, 0x72, 0x21,
      0xb8, 0x08, 0x46, 0x74, 0xf7, 0x43, 0x24, 0x8e, 0xe0, 0x35, 0x90, 0xe6, 0x81, 0x3a, 0x26, 0x4c,
      0x3c, 0x28, 0x52, 0xbb, 0x91, 0xc3, 0x00, 0xcb, 0x88, 0xd0, 0x65, 0x8b, 0x1b, 0x53, 0x2e, 0xa3,
      0x71, 0x64, 0x48, 0x97, 0xa2, 0x0d, 0xf9, 0x4e, 0x38, 0x19, 0xef, 0x46, 0xa9, 0xde, 0xac, 0xd8,
      0xa8, 0xfa, 0x76, 0x3f, 0xe3, 0x9c, 0x34, 0x3f, 0xf9, 0xdc, 0xbb, 0xc7, 0xc7, 0x0b, 0x4f, 0x1d,
      0x8a, 0x51, 0xe0, 0x4b, 0xcd, 0xb4, 0x59, 0x31, 0xc8, 0x9f, 0x7e, 0xc9, 0xd9, 0x78, 0x73, 0x64,
      0xea, 0xc5, 0xac, 0x83, 0x34, 0xd3, 0xeb, 0xc3, 0xc5, 0x81, 0xa0, 0xff, 0xfa, 0x13, 0x63, 0xeb,
      0x17, 0x0d, 0xdd, 0x51, 0xb7, 0xf0, 0xda, 0x49, 0xd3, 0x16, 0x55, 0x26, 0x29, 0xd4, 0x68, 0x9e,
      0x2b, 0x16, 0xbe, 0x58, 0x7d, 0x47, 0xa1, 0xfc, 0x8f, 0xf8, 0xb8, 0xd1, 0x7a, 0xd0, 0x31, 0xce,
      0x45, 0xcb, 0x3a, 0x8f, 0x95, 0x16, 0x04, 0x28, 0xaf, 0xd7, 0xfb, 0xca, 0xbb, 0x4b, 0x40, 0x7e]"

definition kXxh3Secret :: bytes where
  "kXxh3Secret i = kXxh3Secret_bytes ! i"

definition kPrime32_1 :: u64 where "kPrime32_1 = 0x9E3779B1"
definition kPrime32_2 :: u64 where "kPrime32_2 = 0x85EBCA77"
definition kPrime32_3 :: u64 where "kPrime32_3 = 0xC2B2AE3D"
definition kPrime64_1 :: u64 where "kPrime64_1 = 0x9E3779B185EBCA87"
definition kPrime64_2 :: u64 where "kPrime64_2 = 0xC2B2AE3D27D4EB4F"
definition kPrime64_3 :: u64 where "kPrime64_3 = 0x165667B19E3779F9"
definition kPrime64_4 :: u64 where "kPrime64_4 = 0x85EBCA77C2B2AE63"
definition kPrime64_5 :: u64 where "kPrime64_5 = 0x27D4EB2F165667C5"

definition kStripeLen :: nat where "kStripeLen = 64"
definition kSecretSizeMin :: nat where "kSecretSizeMin = 136"
definition kSecretDefaultSize :: nat where "kSecretDefaultSize = 192"
definition kSecretLastAccStart :: nat where "kSecretLastAccStart = 7"
definition kAccNb :: nat where "kAccNb = 8"

section \<open>Reading and word arithmetic\<close>

definition ReadLe32 :: "bytes \<Rightarrow> u32" where
  "ReadLe32 Ptr = ucast (Ptr 0) OR push_bit 8 (ucast (Ptr 1)) OR push_bit 16 (ucast (Ptr 2))
     OR push_bit 24 (ucast (Ptr 3))"

definition ReadLe64 :: "bytes \<Rightarrow> u64" where
  "ReadLe64 Ptr = ucast (ReadLe32 Ptr) OR push_bit 32 (ucast (ReadLe32 (adv Ptr 4)))"

definition BSwap64 :: "u64 \<Rightarrow> u64" where
  "BSwap64 V =
     push_bit 56 (V AND 0xFF) OR push_bit 40 (V AND 0xFF00) OR push_bit 24 (V AND 0xFF0000)
     OR push_bit 8 (V AND 0xFF000000) OR drop_bit 8 (V AND 0xFF00000000)
     OR drop_bit 24 (V AND 0xFF0000000000) OR drop_bit 40 (V AND 0xFF000000000000)
     OR drop_bit 56 (V AND 0xFF00000000000000)"

definition Rotl64 :: "u64 \<Rightarrow> nat \<Rightarrow> u64" where
  "Rotl64 V Bits = push_bit Bits V OR drop_bit (64 - Bits) V"

record FUint128 =
  Low :: u64
  High :: u64

definition Mult64To128 :: "u64 \<Rightarrow> u64 \<Rightarrow> FUint128" where
  "Mult64To128 Lhs Rhs =
     (let LhsLo = Lhs AND 0xFFFFFFFF; LhsHi = drop_bit 32 Lhs;
          RhsLo = Rhs AND 0xFFFFFFFF; RhsHi = drop_bit 32 Rhs;
          Lo_Lo = LhsLo * RhsLo; Hi_Lo = LhsHi * RhsLo; Lo_Hi = LhsLo * RhsHi; Hi_Hi = LhsHi * RhsHi;
          Cross = drop_bit 32 Lo_Lo + (Hi_Lo AND 0xFFFFFFFF) + Lo_Hi;
          Upper = drop_bit 32 Hi_Lo + drop_bit 32 Cross + Hi_Hi;
          Lower = push_bit 32 Cross OR (Lo_Lo AND 0xFFFFFFFF)
      in \<lparr> Low = Lower, High = Upper \<rparr>)"

definition Mul128Fold64 :: "u64 \<Rightarrow> u64 \<Rightarrow> u64" where
  "Mul128Fold64 Lhs Rhs = (let P = Mult64To128 Lhs Rhs in Low P XOR High P)"

definition Xxh64Avalanche :: "u64 \<Rightarrow> u64" where
  "Xxh64Avalanche H64 =
     (let H = H64 XOR drop_bit 33 H64; H = H * kPrime64_2; H = H XOR drop_bit 29 H;
          H = H * kPrime64_3
      in H XOR drop_bit 32 H)"

definition Xxh3Avalanche :: "u64 \<Rightarrow> u64" where
  "Xxh3Avalanche H64 =
     (let H = H64 XOR drop_bit 37 H64; H = H * 0x165667919E3779F9 in H XOR drop_bit 32 H)"

definition Xxh3RrmxmxAvalanche :: "u64 \<Rightarrow> u64 \<Rightarrow> u64" where
  "Xxh3RrmxmxAvalanche H64 Len =
     (let H = H64 XOR (Rotl64 H64 49 XOR Rotl64 H64 24); H = H * 0x9FB21C651E98DF25;
          H = H XOR (drop_bit 35 H + Len); H = H * 0x9FB21C651E98DF25
      in H XOR drop_bit 28 H)"

section \<open>Inputs of at most 16 bytes\<close>

definition Len1To3_64b :: "bytes \<Rightarrow> nat \<Rightarrow> bytes \<Rightarrow> u64 \<Rightarrow> u64" where
  "Len1To3_64b Data Len Secret Seed =
     (let C1 = Data 0; C2 = Data (Len div 2); C3 = Data (Len - 1);
          Combined = push_bit 16 (ucast C1) OR push_bit 24 (ucast C2) OR ucast C3
                     OR push_bit 8 (word_of_nat Len) :: u32;
          Bitflip = (ucast (ReadLe32 Secret) XOR ucast (ReadLe32 (adv Secret 4))) + Seed;
          Keyed = ucast Combined XOR Bitflip
      in Xxh64Avalanche Keyed)"

definition Len4To8_64b :: "bytes \<Rightarrow> nat \<Rightarrow> bytes \<Rightarrow> u64 \<Rightarrow> u64" where
  "Len4To8_64b Data Len Secret Seed0 =
     (let Seed = Seed0 XOR push_bit 32 (BSwap64 (Seed0 AND 0xFFFFFFFF));
          Input1 = ReadLe32 Data; Input2 = ReadLe32 (adv Data (Len - 4));
          Bitflip = (ReadLe64 (adv Secret 8) XOR ReadLe64 (adv Secret 16)) - Seed;
          Input64 = ucast Input2 + push_bit 32 (ucast Input1);
          Keyed = Input64 XOR Bitflip
      in Xxh3RrmxmxAvalanche Keyed (word_of_nat Len))"

definition Len9To16_64b :: "bytes \<Rightarrow> nat \<Rightarrow> bytes \<Rightarrow> u64 \<Rightarrow> u64" where
  "Len9To16_64b Data Len Secret Seed =
     (let BitflipLo = (ReadLe64 (adv Secret 24) XOR ReadLe64 (adv Secret 32)) + Seed;
          BitflipHi = (ReadLe64 (adv Secret 40) XOR ReadLe64 (adv Secret 48)) - Seed;
          InputLo = ReadLe64 Data XOR BitflipLo;
          InputHi = ReadLe64 (adv Data (Len - 8)) XOR BitflipHi;
          Acc = word_of_nat Len + BSwap64 InputLo + InputHi + Mul128Fold64 InputLo InputHi
      in Xxh3Avalanche Acc)"

definition Len0To16_64b :: "bytes \<Rightarrow> nat \<Rightarrow> bytes \<Rightarrow> u64 \<Rightarrow> u64" where
  "Len0To16_64b Data Len Secret Seed =
     (if Len > 8 then Len9To16_64b Data Len Secret Seed
      else if Len \<ge> 4 then Len4To8_64b Data Len Secret Seed
      else if Len > 0 then Len1To3_64b Data Len Secret Seed
      else Xxh64Avalanche (Seed XOR (ReadLe64 (adv Secret 56) XOR ReadLe64 (adv Secret 64))))"

section \<open>Inputs of 17 to 240 bytes\<close>

definition Mix16B :: "bytes \<Rightarrow> bytes \<Rightarrow> u64 \<Rightarrow> u64" where
  "Mix16B Data Secret Seed =
     (let InputLo = ReadLe64 Data; InputHi = ReadLe64 (adv Data 8);
          BitflipLo = ReadLe64 Secret + Seed; BitflipHi = ReadLe64 (adv Secret 8) - Seed
      in Mul128Fold64 (InputLo XOR BitflipLo) (InputHi XOR BitflipHi))"

definition Len17To128_64b :: "bytes \<Rightarrow> nat \<Rightarrow> bytes \<Rightarrow> u64 \<Rightarrow> u64" where
  "Len17To128_64b Data Len Secret Seed =
     (let mix2 = (\<lambda>d s e t Acc. Acc + Mix16B (adv Data d) (adv Secret s) Seed
                                    + Mix16B (adv Data (Len - e)) (adv Secret t) Seed);
          Acc = word_of_nat Len * kPrime64_1;
          Acc = (if Len > 96 then mix2 48 96 64 112 Acc else Acc);
          Acc = (if Len > 64 then mix2 32 64 48 80 Acc else Acc);
          Acc = (if Len > 32 then mix2 16 32 32 48 Acc else Acc);
          Acc = mix2 0 0 16 16 Acc
      in Xxh3Avalanche Acc)"

definition kMidsizeStartOffset :: nat where "kMidsizeStartOffset = 3"
definition kMidsizeLastOffset :: nat where "kMidsizeLastOffset = 17"

definition Len129To240_64b :: "bytes \<Rightarrow> nat \<Rightarrow> bytes \<Rightarrow> u64 \<Rightarrow> u64" where
  "Len129To240_64b Data Len Secret Seed =
     (let NbRounds = Len div 16;
          Acc = word_of_nat Len * kPrime64_1;
          Acc = fold (\<lambda>I Acc. Acc + Mix16B (adv Data (16 * I)) (adv Secret (16 * I)) Seed) [0 ..< 8] Acc;
          Acc = Xxh3Avalanche Acc;
          Acc = fold (\<lambda>I Acc. Acc + Mix16B (adv Data (16 * I))
                        (adv Secret (16 * (I - 8) + kMidsizeStartOffset)) Seed) [8 ..< NbRounds] Acc;
          Acc = Acc + Mix16B (adv Data (Len - 16)) (adv Secret (kSecretSizeMin - kMidsizeLastOffset)) Seed
      in Xxh3Avalanche Acc)"

section \<open>Longer inputs\<close>

definition Accumulate512 :: "bytes \<Rightarrow> bytes \<Rightarrow> u64 list \<Rightarrow> u64 list" where
  "Accumulate512 Data Secret Acc0 =
     fold (\<lambda>I Acc.
         let DataVal = ReadLe64 (adv Data (8 * I));
             DataKey = DataVal XOR ReadLe64 (adv Secret (8 * I));
             Acc = Acc[I XOR 1 := Acc ! (I XOR 1) + DataVal]
         in Acc[I := Acc ! I + (DataKey AND 0xFFFFFFFF) * drop_bit 32 DataKey])
       [0 ..< kAccNb] Acc0"

definition ScrambleAcc :: "bytes \<Rightarrow> u64 list \<Rightarrow> u64 list" where
  "ScrambleAcc Secret Acc0 =
     fold (\<lambda>I Acc.
         let Key64 = ReadLe64 (adv Secret (8 * I)); AccVal = Acc ! I;
             AccVal = AccVal XOR drop_bit 47 AccVal; AccVal = AccVal XOR Key64;
             AccVal = AccVal * kPrime32_1
         in Acc[I := AccVal])
       [0 ..< kAccNb] Acc0"

definition Accumulate :: "bytes \<Rightarrow> bytes \<Rightarrow> nat \<Rightarrow> u64 list \<Rightarrow> u64 list" where
  "Accumulate Data Secret NbStripes =
     fold (\<lambda>N. Accumulate512 (adv Data (N * kStripeLen)) (adv Secret (N * 8))) [0 ..< NbStripes]"

definition Mix2Accs :: "u64 list \<Rightarrow> nat \<Rightarrow> bytes \<Rightarrow> u64" where
  "Mix2Accs Acc k Secret =
     Mul128Fold64 (Acc ! k XOR ReadLe64 Secret) (Acc ! (k + 1) XOR ReadLe64 (adv Secret 8))"

definition MergeAccs :: "u64 list \<Rightarrow> bytes \<Rightarrow> u64 \<Rightarrow> u64" where
  "MergeAccs Acc Secret Start =
     Xxh3Avalanche (Start + Mix2Accs Acc 0 Secret + Mix2Accs Acc 2 (adv Secret 16)
        + Mix2Accs Acc 4 (adv Secret 32) + Mix2Accs Acc 6 (adv Secret 48))"

definition AccInit :: "u64 list" where
  "AccInit = [kPrime32_3, kPrime64_1, kPrime64_2, kPrime64_3, kPrime64_4, kPrime32_2, kPrime64_5, kPrime32_1]"

definition HashLong_64b :: "bytes \<Rightarrow> nat \<Rightarrow> bytes \<Rightarrow> nat \<Rightarrow> u64" where
  "HashLong_64b Data Len Secret SecretSize =
     (let NbStripesPerBlock = (SecretSize - kStripeLen) div 8;
          BlockLen = kStripeLen * NbStripesPerBlock;
          NbBlocks = (Len - 1) div BlockLen;
          Acc = fold (\<lambda>N Acc. ScrambleAcc (adv Secret (SecretSize - kStripeLen))
                    (Accumulate (adv Data (N * BlockLen)) Secret NbStripesPerBlock Acc)) [0 ..< NbBlocks] AccInit;
          NbStripes = ((Len - 1) - BlockLen * NbBlocks) div kStripeLen;
          Acc = Accumulate (adv Data (NbBlocks * BlockLen)) Secret NbStripes Acc;
          Acc = Accumulate512 (adv Data (Len - kStripeLen))
                  (adv Secret (SecretSize - kStripeLen - kSecretLastAccStart)) Acc
      in MergeAccs Acc (adv Secret 11) (word_of_nat Len * kPrime64_1))"

text \<open>The bytes of the secret a seed gives: words of the default one, shifted up and down by it.\<close>

definition InitCustomSecret :: "u64 \<Rightarrow> bytes" where
  "InitCustomSecret Seed k =
     (let I = k div 16; J = k mod 16;
          Lo = ReadLe64 (adv kXxh3Secret (16 * I)) + Seed; Hi = ReadLe64 (adv kXxh3Secret (16 * I + 8)) - Seed
      in if J < 8 then ucast (drop_bit (8 * J) Lo AND 0xFF) else ucast (drop_bit (8 * (J - 8)) Hi AND 0xFF))"

definition Hash64 :: "bytes \<Rightarrow> nat \<Rightarrow> u64 \<Rightarrow> u64" where
  "Hash64 Data Len Seed =
     (if Len = 0 then Len0To16_64b Data 0 kXxh3Secret Seed
      else if Len \<le> 16 then Len0To16_64b Data Len kXxh3Secret Seed
      else if Len \<le> 128 then Len17To128_64b Data Len kXxh3Secret Seed
      else if Len \<le> 240 then Len129To240_64b Data Len kXxh3Secret Seed
      else if Seed = 0 then HashLong_64b Data Len kXxh3Secret kSecretDefaultSize
      else HashLong_64b Data Len (InitCustomSecret Seed) kSecretDefaultSize)"

text \<open>The hash of a list of bytes.\<close>

definition Hash64_list :: "u8 list \<Rightarrow> u64" where
  "Hash64_list xs = Hash64 (\<lambda>i. xs ! i) (length xs) 0"

end
