(* ===== verification/Xxh3Props.thy ===== *)
theory Xxh3Props
  imports Xxh3
begin

text \<open>
  What the hash's building blocks compute, which bytes it reads, and the flat form of the
  block loop for long inputs.
\<close>

section \<open>The 128-bit product\<close>

lemma lo32_mask: "(0xFFFFFFFF :: u64) = mask 32"
  by (simp add: mask_eq_exp_minus_1)

lemma unat_and_lo32: "unat ((x :: u64) AND 0xFFFFFFFF) = unat x mod 2 ^ 32"
  unfolding lo32_mask take_bit_eq_mask [symmetric] unsigned_take_bit_eq by (rule take_bit_eq_mod)

lemma unat_drop32: "unat (drop_bit 32 (x :: u64)) = unat x div 2 ^ 32"
  unfolding unat_drop_bit_eq by (rule drop_bit_eq_div)

lemma unat_add_small: "unat a + unat b < 2 ^ 64 \<Longrightarrow> unat (a + b) = unat a + unat (b :: u64)"
  by (subst unat_add_lem [THEN iffD1]) simp_all

lemma unat_mult_small: "unat a * unat b < 2 ^ 64 \<Longrightarrow> unat (a * b) = unat a * unat (b :: u64)"
  by (subst unat_mult_lem [THEN iffD1]) simp_all

lemma half_product: "a < 2 ^ 32 \<Longrightarrow> b < 2 ^ 32 \<Longrightarrow> a * b \<le> (2 ^ 32 - 1) * (2 ^ 32 - 1)" for a b :: nat
  by (intro mult_le_mono) simp_all

lemma join_halves:
  "unat (push_bit 32 (c :: u64) OR (m AND 0xFFFFFFFF)) = (unat c mod 2 ^ 32) * 2 ^ 32 + unat m mod 2 ^ 32"
proof -
  have "push_bit 32 c AND (m AND 0xFFFFFFFF) = 0"
    unfolding lo32_mask take_bit_eq_mask [symmetric] by (rule bit_eqI) (auto simp: bit_simps)
  then have "push_bit 32 c OR (m AND 0xFFFFFFFF) = push_bit 32 c + (m AND 0xFFFFFFFF)"
    by (simp add: disjunctive_add_eq_or)
  moreover have "unat (push_bit 32 c) = (unat c mod 2 ^ 32) * 2 ^ 32"
  proof -
    have "unat (push_bit 32 c) = (unat c * 2 ^ 32) mod (2 ^ 32 * 2 ^ 32)"
      by (simp add: push_bit_eq_mult unat_word_ariths(2))
    also have "\<dots> = (unat c mod 2 ^ 32) * 2 ^ 32" by (rule mult_mod_left [symmetric])
    finally show ?thesis .
  qed
  moreover have "(unat c mod 2 ^ 32) * 2 ^ 32 + unat m mod 2 ^ 32 < 2 ^ 64"
  proof -
    have "unat c mod 2 ^ 32 \<le> 2 ^ 32 - 1" "unat m mod 2 ^ 32 < 2 ^ 32" by (simp_all add: Suc_leI less_Suc_eq_le flip: less_Suc_eq_le)
    then have "(unat c mod 2 ^ 32) * 2 ^ 32 \<le> (2 ^ 32 - 1) * 2 ^ 32" by (intro mult_le_mono1)
    with \<open>unat m mod 2 ^ 32 < 2 ^ 32\<close> show ?thesis by simp
  qed
  ultimately show ?thesis by (simp add: unat_add_small unat_and_lo32)
qed

lemma carry_sum:
  fixes hl K cr hh ll lh :: nat
  assumes "cr = ll div K + hl mod K + lh"
  shows "(hl div K + cr div K + hh) * (K * K) + (cr mod K * K + ll mod K) = hh * (K * K) + hl * K + lh * K + ll"
proof -
  have split: "(hq + cq + hh) * (K * K) + (cm * K + lm) = hh * (K * K) + hq * (K * K) + (cq * K + cm) * K + lm"
    for hq cq cm lm by (simp add: distrib_right)
  have join: "hh * (K * K) + hq * (K * K) + (lq + hm + lh) * K + lm
      = hh * (K * K) + (hq * K + hm) * K + lh * K + (lq * K + lm)" for hq lq hm lm
    by (simp add: distrib_right)
  have "(hl div K + cr div K + hh) * (K * K) + (cr mod K * K + ll mod K)
      = hh * (K * K) + hl div K * (K * K) + cr * K + ll mod K"
    unfolding split div_mult_mod_eq ..
  also have "\<dots> = hh * (K * K) + hl * K + lh * K + ll"
    unfolding assms join div_mult_mod_eq ..
  finally show ?thesis .
qed

lemma Mult64To128_exact:
  "unat (High (Mult64To128 a b)) * 2 ^ 64 + unat (Low (Mult64To128 a b)) = unat a * unat b"
proof -
  define al ah bl bh where "al = unat a mod 2 ^ 32" and "ah = unat a div 2 ^ 32"
    and "bl = unat b mod 2 ^ 32" and "bh = unat b div 2 ^ 32"
  have lt: "al < 2 ^ 32" "bl < 2 ^ 32" by (simp_all add: al_def bl_def)
  have "unat a < 2 ^ 64" "unat b < 2 ^ 64" using unsigned_less [of a] unsigned_less [of b] by simp_all
  then have hi: "ah < 2 ^ 32" "bh < 2 ^ 32" by (simp_all add: ah_def bh_def less_mult_imp_div_less)
  have a: "unat a = ah * 2 ^ 32 + al" "unat b = bh * 2 ^ 32 + bl"
    by (simp_all add: al_def ah_def bl_def bh_def)
  note hp = half_product [OF lt(1,2)] half_product [OF hi(1) lt(2)] half_product [OF lt(1) hi(2)] half_product [OF hi]
  define ll hl lh hh where "ll = al * bl" and "hl = ah * bl" and "lh = al * bh" and "hh = ah * bh"
  note bnd = hp [folded ll_def hl_def lh_def hh_def]
  define cr where "cr = ll div 2 ^ 32 + hl mod 2 ^ 32 + lh"
  have d: "ll div 2 ^ 32 \<le> 2 ^ 32 - 1" "hl div 2 ^ 32 \<le> 2 ^ 32 - 1" "hl mod 2 ^ 32 \<le> 2 ^ 32 - 1"
    using bnd(1,2) by (simp_all add: less_mult_imp_div_less Suc_leI flip: less_Suc_eq_le)
  have cr: "cr < 2 ^ 64" using d bnd(3) by (simp add: cr_def)
  have up: "hl div 2 ^ 32 + cr div 2 ^ 32 + hh < 2 ^ 64"
  proof -
    have "cr div 2 ^ 32 \<le> 2 ^ 32 - 1" using cr by (simp add: less_mult_imp_div_less flip: less_Suc_eq_le)
    with d bnd(4) show ?thesis by simp
  qed
  let ?LL = "(a AND 0xFFFFFFFF) * (b AND 0xFFFFFFFF)"
  let ?HL = "drop_bit 32 a * (b AND 0xFFFFFFFF)"
  let ?LH = "(a AND 0xFFFFFFFF) * drop_bit 32 b"
  let ?HH = "drop_bit 32 a * drop_bit 32 b"
  have p: "unat ?LL = ll" "unat ?HL = hl" "unat ?LH = lh" "unat ?HH = hh"
    using bnd by (simp_all add: unat_mult_small unat_and_lo32 unat_drop32 ll_def hl_def lh_def hh_def al_def ah_def bl_def bh_def)
  let ?C = "drop_bit 32 ?LL + (?HL AND 0xFFFFFFFF) + ?LH"
  have C: "unat ?C = cr"
    using cr p by (simp add: unat_add_small unat_and_lo32 unat_drop32 cr_def)
  have U: "unat (High (Mult64To128 a b)) = hl div 2 ^ 32 + cr div 2 ^ 32 + hh"
    using up p C by (simp add: Mult64To128_def Let_def unat_add_small unat_drop32)
  have L: "unat (Low (Mult64To128 a b)) = (cr mod 2 ^ 32) * 2 ^ 32 + ll mod 2 ^ 32"
    using p C by (simp add: Mult64To128_def Let_def join_halves)
  have "(hl div 2 ^ 32 + cr div 2 ^ 32 + hh) * 2 ^ 64 + ((cr mod 2 ^ 32) * 2 ^ 32 + ll mod 2 ^ 32)
      = hh * 2 ^ 64 + hl * 2 ^ 32 + lh * 2 ^ 32 + ll"
    using carry_sum [OF cr_def, of hh] by simp
  also have "\<dots> = unat a * unat b"
    unfolding a ll_def hl_def lh_def hh_def by (simp add: algebra_simps)
  finally show ?thesis by (simp add: U L)
qed

section \<open>Byte swap and rotation\<close>

text \<open>
  The seed of the 4 to 8 byte bracket is to be mixed with the byte-swapped low half of itself,
  moved to the high half.  \<open>BSwap64\<close> has moved it there already, so the further shift by 32 bits
  moves it out of the word.
\<close>

lemma swapped_low_half_vanishes: "push_bit 32 (BSwap64 (Seed AND 0xFFFFFFFF)) = 0"
proof -
  have z: "(1204203453131759529492480 :: u64) = 0" "(4703919738795935662080 :: u64) = 0"
    by (simp_all add: word_eq_iff_unsigned)
  show ?thesis by (simp add: BSwap64_def and.assoc push_bit_or push_bit_and z)
qed

section \<open>The bytes that are read\<close>

definition same_bytes :: "nat \<Rightarrow> bytes \<Rightarrow> bytes \<Rightarrow> bool" where
  "same_bytes n p q \<longleftrightarrow> (\<forall>i < n. p i = q i)"

lemma same_adv: "same_bytes n p q \<Longrightarrow> k + m \<le> n \<Longrightarrow> same_bytes m (adv p k) (adv q k)"
  by (simp add: same_bytes_def adv_apply)

lemma ReadLe32_cong: "same_bytes 4 p q \<Longrightarrow> ReadLe32 p = ReadLe32 q"
  by (simp add: same_bytes_def ReadLe32_def)

lemma ReadLe64_cong: "same_bytes 8 p q \<Longrightarrow> ReadLe64 p = ReadLe64 q"
  by (simp add: same_bytes_def ReadLe64_def ReadLe32_def adv_apply)

lemma ReadLe64_at: "same_bytes n p q \<Longrightarrow> k + 8 \<le> n \<Longrightarrow> ReadLe64 (adv p k) = ReadLe64 (adv q k)"
  by (rule ReadLe64_cong) (rule same_adv)

lemma ReadLe32_at: "same_bytes n p q \<Longrightarrow> k + 4 \<le> n \<Longrightarrow> ReadLe32 (adv p k) = ReadLe32 (adv q k)"
  by (rule ReadLe32_cong) (rule same_adv)

lemma adv_0 [simp]: "adv p 0 = p"
  by (simp add: adv_def)

lemma Mix16B_at:
  assumes "same_bytes n p q" "k + 16 \<le> n" "same_bytes m S T" "j + 16 \<le> m"
  shows "Mix16B (adv p k) (adv S j) Seed = Mix16B (adv q k) (adv T j) Seed"
  using assms by (simp add: Mix16B_def ReadLe64_at [OF assms(1)] ReadLe64_at [OF assms(3)])

lemma Len0To16_cong:
  assumes d: "same_bytes n p q" and s: "same_bytes 192 S T" and n: "n \<le> 16"
  shows "Len0To16_64b p n S Seed = Len0To16_64b q n T Seed"
proof -
  have S: "ReadLe32 S = ReadLe32 T" "\<And>k. k \<le> 184 \<Longrightarrow> ReadLe64 (adv S k) = ReadLe64 (adv T k)"
    "\<And>k. k \<le> 184 \<Longrightarrow> ReadLe32 (adv S k) = ReadLe32 (adv T k)"
    using ReadLe32_at [OF s, of 0] by (auto intro: ReadLe64_at [OF s] ReadLe32_at [OF s])
  consider (a) "n > 8" | (b) "4 \<le> n" "n \<le> 8" | (c) "0 < n" "n < 4" | (z) "n = 0" by linarith
  then show ?thesis
  proof cases
    case a
    then have "ReadLe64 p = ReadLe64 q" "ReadLe64 (adv p (n - 8)) = ReadLe64 (adv q (n - 8))"
      using ReadLe64_at [OF d, of 0] ReadLe64_at [OF d, of "n - 8"] by auto
    with a S show ?thesis by (simp add: Len0To16_64b_def Len9To16_64b_def)
  next
    case b
    then have "ReadLe32 p = ReadLe32 q" "ReadLe32 (adv p (n - 4)) = ReadLe32 (adv q (n - 4))"
      using ReadLe32_at [OF d, of 0] ReadLe32_at [OF d, of "n - 4"] by auto
    with b S show ?thesis by (simp add: Len0To16_64b_def Len4To8_64b_def)
  next
    case c
    then have "p 0 = q 0" "p (n div 2) = q (n div 2)" "p (n - 1) = q (n - 1)"
      using d by (auto simp: same_bytes_def)
    with c S show ?thesis by (simp add: Len0To16_64b_def Len1To3_64b_def)
  next
    case z
    with S show ?thesis by (simp add: Len0To16_64b_def)
  qed
qed

lemma Len17To128_cong:
  assumes d: "same_bytes n p q" and s: "same_bytes 192 S T" and n: "16 < n" "n \<le> 128"
  shows "Len17To128_64b p n S Seed = Len17To128_64b q n T Seed"
  using n Mix16B_at [OF d _ s] Mix16B_at [OF d _ s, of 0 0] by (simp add: Len17To128_64b_def Let_def)

lemma fold_cong_on: "(\<And>x a. x \<in> set xs \<Longrightarrow> f x a = g x a) \<Longrightarrow> fold f xs a = fold g xs a"
  by (induction xs arbitrary: a) auto

lemma Len129To240_cong:
  assumes d: "same_bytes n p q" and s: "same_bytes 192 S T" and n: "128 < n" "n \<le> 240"
  shows "Len129To240_64b p n S Seed = Len129To240_64b q n T Seed"
proof -
  note m = Mix16B_at [OF d _ s]
  have r: "16 * I + 16 \<le> n" if "I < n div 16" for I using that by linarith
  have f1: "fold (\<lambda>I Acc. Acc + Mix16B (adv p (16 * I)) (adv S (16 * I)) Seed) [0 ..< 8] a
      = fold (\<lambda>I Acc. Acc + Mix16B (adv q (16 * I)) (adv T (16 * I)) Seed) [0 ..< 8] a" for a
    by (rule fold_cong_on) (use n in \<open>auto simp: m\<close>)
  have f2: "fold (\<lambda>I Acc. Acc + Mix16B (adv p (16 * I)) (adv S (16 * (I - 8) + 3)) Seed) [8 ..< n div 16] a
      = fold (\<lambda>I Acc. Acc + Mix16B (adv q (16 * I)) (adv T (16 * (I - 8) + 3)) Seed) [8 ..< n div 16] a" for a
  proof (rule fold_cong_on)
    fix I a assume "I \<in> set [8 ..< n div 16]"
    then have I: "I < n div 16" by simp
    with n have "16 * (I - 8) + 3 + 16 \<le> 192" by linarith
    then show "a + Mix16B (adv p (16 * I)) (adv S (16 * (I - 8) + 3)) Seed
        = a + Mix16B (adv q (16 * I)) (adv T (16 * (I - 8) + 3)) Seed"
      using m [OF r [OF I]] by simp
  qed
  have f3: "Mix16B (adv p (n - 16)) (adv S 119) Seed = Mix16B (adv q (n - 16)) (adv T 119) Seed"
    using n by (intro m) auto
  show ?thesis
    unfolding Len129To240_64b_def Let_def kMidsizeStartOffset_def kMidsizeLastOffset_def kSecretSizeMin_def
    using f3 by (simp only: f1 f2) simp
qed

lemma Accumulate512_cong:
  assumes "same_bytes 64 p q" "same_bytes 64 S T"
  shows "Accumulate512 p S a = Accumulate512 q T a"
  unfolding Accumulate512_def
  by (rule fold_cong_on) (auto simp: kAccNb_def Let_def ReadLe64_at [OF assms(1)] ReadLe64_at [OF assms(2)])

lemma ScrambleAcc_cong:
  assumes "same_bytes 64 S T"
  shows "ScrambleAcc S a = ScrambleAcc T a"
  unfolding ScrambleAcc_def
  by (rule fold_cong_on) (auto simp: kAccNb_def Let_def ReadLe64_at [OF assms])

lemma Accumulate_cong:
  assumes "same_bytes (64 * m) p q" "same_bytes 192 S T" "m \<le> 16"
  shows "Accumulate p S m a = Accumulate q T m a"
  unfolding Accumulate_def
proof (rule fold_cong_on)
  fix N a assume "N \<in> set [0 ..< m]"
  then have "N < m" by simp
  then have "N * 64 + 64 \<le> 64 * m" "N * 8 + 64 \<le> 192" using assms(3) by linarith+
  then show "Accumulate512 (adv p (N * kStripeLen)) (adv S (N * 8)) a = Accumulate512 (adv q (N * kStripeLen)) (adv T (N * 8)) a"
    unfolding kStripeLen_def
    by (intro Accumulate512_cong same_adv [OF assms(1)] same_adv [OF assms(2)])
qed

lemma MergeAccs_cong:
  assumes "same_bytes 64 S T"
  shows "MergeAccs a S r = MergeAccs a T r"
  using ReadLe64_cong [of S T] assms same_bytes_def
  by (simp add: MergeAccs_def Mix2Accs_def ReadLe64_at [OF assms])

lemma HashLong_192:
  "HashLong_64b Data n Secret 192 =
     MergeAccs (Accumulate512 (adv Data (n - 64)) (adv Secret 121)
        (Accumulate (adv Data ((n - 1) div 1024 * 1024)) Secret ((n - 1 - 1024 * ((n - 1) div 1024)) div 64)
          (fold (\<lambda>N Acc. ScrambleAcc (adv Secret 128) (Accumulate (adv Data (N * 1024)) Secret 16 Acc))
             [0 ..< (n - 1) div 1024] AccInit)))
       (adv Secret 11) (word_of_nat n * kPrime64_1)"
  by (simp add: HashLong_64b_def Let_def kStripeLen_def kSecretLastAccStart_def)

lemma HashLong_cong:
  assumes d: "same_bytes n p q" and s: "same_bytes 192 S T" and n: "240 < n"
  shows "HashLong_64b p n S 192 = HashLong_64b q n T 192"
proof -
  let ?B = "(n - 1) div 1024"
  have block: "N * 1024 + 1024 \<le> n" if "N < ?B" for N using that by linarith
  have f: "fold (\<lambda>N Acc. ScrambleAcc (adv S 128) (Accumulate (adv p (N * 1024)) S 16 Acc)) [0 ..< ?B] a
      = fold (\<lambda>N Acc. ScrambleAcc (adv T 128) (Accumulate (adv q (N * 1024)) T 16 Acc)) [0 ..< ?B] a" for a
  proof (rule fold_cong_on)
    fix N a assume "N \<in> set [0 ..< ?B]"
    then have "same_bytes (64 * 16) (adv p (N * 1024)) (adv q (N * 1024))"
      using block [of N] by (intro same_adv [OF d]) auto
    then show "ScrambleAcc (adv S 128) (Accumulate (adv p (N * 1024)) S 16 a)
        = ScrambleAcc (adv T 128) (Accumulate (adv q (N * 1024)) T 16 a)"
      using Accumulate_cong [OF _ s] ScrambleAcc_cong [OF same_adv [OF s]] by simp
  qed
  let ?m = "(n - 1 - 1024 * ?B) div 64"
  have "?m \<le> 16" "?B * 1024 + 64 * ?m \<le> n" by linarith+
  then have t: "Accumulate (adv p (?B * 1024)) S ?m a = Accumulate (adv q (?B * 1024)) T ?m a" for a
    by (intro Accumulate_cong same_adv [OF d] s)
  have l: "Accumulate512 (adv p (n - 64)) (adv S 121) a = Accumulate512 (adv q (n - 64)) (adv T 121) a" for a
    using n by (intro Accumulate512_cong same_adv [OF d] same_adv [OF s]) auto
  have m: "MergeAccs a (adv S 11) r = MergeAccs a (adv T 11) r" for a r
    by (intro MergeAccs_cong same_adv [OF s]) simp
  show ?thesis
    unfolding HashLong_192 f t l m ..
qed

section \<open>Long inputs as one sequence of stripes\<close>

text \<open>Every sixteenth stripe is followed by a scramble; the last, partial stripe is read from the end.\<close>

definition stripe_step :: "bytes \<Rightarrow> bytes \<Rightarrow> nat \<Rightarrow> u64 list \<Rightarrow> u64 list" where
  "stripe_step Data Secret k Acc =
     (let Acc = Accumulate512 (adv Data (64 * k)) (adv Secret (8 * (k mod 16))) Acc
      in if k mod 16 = 15 then ScrambleAcc (adv Secret 128) Acc else Acc)"

definition hash_stripes :: "bytes \<Rightarrow> nat \<Rightarrow> bytes \<Rightarrow> u64" where
  "hash_stripes Data n Secret =
     MergeAccs (Accumulate512 (adv Data (n - 64)) (adv Secret 121)
         (fold (stripe_step Data Secret) [0 ..< (n - 1) div 64] AccInit))
       (adv Secret 11) (word_of_nat n * kPrime64_1)"

lemma stripe_step_at:
  assumes "k < 16"
  shows "stripe_step Data Secret (16 * B + k) Acc =
     (let Acc = Accumulate512 (adv Data (1024 * B + k * 64)) (adv Secret (k * 8)) Acc
      in if k = 15 then ScrambleAcc (adv Secret 128) Acc else Acc)"
proof -
  have "(16 * B + k) mod 16 = k" "64 * (16 * B + k) = 1024 * B + k * 64" "8 * k = k * 8" using assms by simp_all
  then show ?thesis by (simp only: stripe_step_def)
qed

lemma Accumulate_Suc:
  "Accumulate Data Secret (Suc m) a = Accumulate512 (adv Data (m * 64)) (adv Secret (m * 8)) (Accumulate Data Secret m a)"
  by (simp add: Accumulate_def kStripeLen_def)

lemma upt_snoc: "[i ..< i + Suc m] = [i ..< i + m] @ [i + m]"
  by simp

lemma stripes_of_partial_block:
  "m \<le> 15 \<Longrightarrow> fold (stripe_step Data Secret) [16 * B ..< 16 * B + m] a = Accumulate (adv Data (1024 * B)) Secret m a"
proof (induction m)
  case (Suc m)
  then have "m < 16" "m \<noteq> 15" by simp_all
  then show ?case
    using Suc unfolding upt_snoc Accumulate_Suc by (simp add: stripe_step_at [OF \<open>m < 16\<close>])
qed (simp add: Accumulate_def)

lemma stripes_of_block:
  "fold (stripe_step Data Secret) [16 * B ..< 16 * B + 16] a
     = ScrambleAcc (adv Secret 128) (Accumulate (adv Data (1024 * B)) Secret 16 a)"
proof -
  have s: "(16 :: nat) = Suc 15" by simp
  have "fold (stripe_step Data Secret) [16 * B ..< 16 * B + 16] a
      = stripe_step Data Secret (16 * B + 15) (fold (stripe_step Data Secret) [16 * B ..< 16 * B + 15] a)"
    unfolding s upt_snoc by simp
  also have "\<dots> = ScrambleAcc (adv Secret 128)
      (Accumulate512 (adv (adv Data (1024 * B)) (15 * 64)) (adv Secret (15 * 8)) (Accumulate (adv Data (1024 * B)) Secret 15 a))"
    by (simp only: stripes_of_partial_block stripe_step_at Let_def adv_adv) simp
  also have "\<dots> = ScrambleAcc (adv Secret 128) (Accumulate (adv Data (1024 * B)) Secret 16 a)"
    unfolding s Accumulate_Suc ..
  finally show ?thesis .
qed

lemma stripes_of_blocks:
  "fold (stripe_step Data Secret) [0 ..< 16 * B] a
     = fold (\<lambda>N Acc. ScrambleAcc (adv Secret 128) (Accumulate (adv Data (N * 1024)) Secret 16 Acc)) [0 ..< B] a"
proof (induction B)
  case (Suc B)
  have "[0 ..< 16 * B + 16] = [0 ..< 16 * B] @ [16 * B ..< 16 * B + 16]"
    by (rule upt_add_eq_append) simp
  moreover have "16 * Suc B = 16 * B + 16" by simp
  ultimately show ?case using Suc by (simp only: fold_append comp_apply stripes_of_block upt.simps) (simp add: mult.commute)
qed simp

lemma HashLong_stripes:
  assumes "0 < n"
  shows "HashLong_64b Data n Secret 192 = hash_stripes Data n Secret"
proof -
  let ?B = "(n - 1) div 1024"
  let ?m = "(n - 1 - 1024 * ?B) div 64"
  have m: "?m \<le> 15" "(n - 1) div 64 = 16 * ?B + ?m" by linarith+
  have "[0 ..< (n - 1) div 64] = [0 ..< 16 * ?B] @ [16 * ?B ..< 16 * ?B + ?m]"
    unfolding m(2) by (rule upt_add_eq_append) simp
  then have "fold (stripe_step Data Secret) [0 ..< (n - 1) div 64] a
      = Accumulate (adv Data (1024 * ?B)) Secret ?m
          (fold (\<lambda>N Acc. ScrambleAcc (adv Secret 128) (Accumulate (adv Data (N * 1024)) Secret 16 Acc)) [0 ..< ?B] a)" for a
    by (simp only: fold_append comp_apply stripes_of_blocks stripes_of_partial_block [OF m(1)])
  then show ?thesis
    unfolding HashLong_192 hash_stripes_def by (simp only: mult.commute)
qed

end
