(* ===== verification/Xxh3Short.thy ===== *)
theory Xxh3Short
  imports Xxh3Props
begin

text \<open>
  The hash of at most eight bytes has no collisions among inputs of one length: every step of
  its mixing is injective.
\<close>

unbundle bit_operations_syntax

section \<open>Injective steps\<close>

lemma xor_drop_inj:
  assumes "x XOR drop_bit k x = y XOR drop_bit k (y :: u64)" "0 < k"
  shows "x = y"
proof (rule bit_word_eqI)
  have "\<forall>n. 64 \<le> n + m \<longrightarrow> bit x n = bit y n" for m
  proof (induction m)
    case 0
    then show ?case using bit_imp_le_length [of x] bit_imp_le_length [of y] by fastforce
  next
    case (Suc m)
    show ?case
    proof (intro allI impI)
      fix n assume n: "64 \<le> n + Suc m"
      then have "bit x (n + k) = bit y (n + k)" using Suc.IH [rule_format, of "n + k"] assms(2) by linarith
      moreover have "bit (x XOR drop_bit k x) n = bit (y XOR drop_bit k y) n" using assms(1) by simp
      ultimately show "bit x n = bit y n" by (auto simp: bit_xor_iff bit_drop_bit_eq add.commute)
    qed
  qed
  then show "bit x n = bit y n" for n using le_add2 [of 64 n] by blast
qed

lemma mult_inj:
  assumes "x * p = y * (p :: u64)" "p * q = 1"
  shows "x = y"
proof -
  have "x * (p * q) = y * (p * q)" unfolding mult.assoc [symmetric] using assms(1) by simp
  with assms(2) show ?thesis by simp
qed

lemma xor_key_inj: "x XOR k = y XOR k \<Longrightarrow> x = (y :: 'a::len word)"
proof -
  assume "x XOR k = y XOR k"
  then have "(x XOR k) XOR k = (y XOR k) XOR k" by simp
  then show "x = y" by (simp only: xor.assoc xor_self_eq xor.right_neutral)
qed

lemma xor_drop_add_inj:
  assumes eq: "x XOR (drop_bit 35 x + c) = y XOR (drop_bit 35 y + (c :: u64))" and c: "unat c \<le> 8"
  shows "x = y"
proof -
  have lt: "unat (drop_bit 35 z + c) < 2 ^ 30" for z :: u64
  proof -
    have "unat (drop_bit 35 z) = unat z div 2 ^ 35" unfolding unat_drop_bit_eq by (rule drop_bit_eq_div)
    moreover have "unat z < 2 ^ 64" using unsigned_less [of z] by simp
    ultimately have "unat (drop_bit 35 z) < 2 ^ 29" by (simp add: less_mult_imp_div_less)
    with c show ?thesis using unat_add_small [of "drop_bit 35 z" c] by simp
  qed
  have high: "\<not> bit (drop_bit 35 z + c) n" if "30 \<le> n" for z :: u64 and n
  proof -
    have "unat (drop_bit 35 z + c) < 2 ^ n" using lt [of z] that by (meson less_le_trans one_le_numeral power_increasing)
    then have "\<not> bit (unat (drop_bit 35 z + c)) n" by (simp add: bit_nat_def)
    then show ?thesis by (simp add: bit_unsigned_iff bit_imp_le_length)
  qed
  have "drop_bit 35 x = drop_bit 35 y"
  proof (rule bit_word_eqI)
    fix n
    have "bit (x XOR (drop_bit 35 x + c)) (35 + n) = bit (y XOR (drop_bit 35 y + c)) (35 + n)" using eq by simp
    then show "bit (drop_bit 35 x) n = bit (drop_bit 35 y) n"
      using high [of "35 + n" x] high [of "35 + n" y] by (simp add: bit_xor_iff bit_drop_bit_eq)
  qed
  with eq have "x XOR (drop_bit 35 x + c) = y XOR (drop_bit 35 x + c)" by simp
  then show ?thesis by (rule xor_key_inj)
qed

text \<open>The sum of a word and two rotations of it, applied 64 times, is the word.\<close>

definition rot3 :: "nat \<Rightarrow> nat \<Rightarrow> u64 \<Rightarrow> u64" where
  "rot3 i j x = x XOR (word_rotr i x XOR word_rotr j x)"

lemma bit_rot3:
  "bit (rot3 i j x) n \<longleftrightarrow> n < 64 \<and> (bit x n \<noteq> (bit x ((n + i) mod 64) \<noteq> bit x ((n + j) mod 64)))"
  by (auto simp: rot3_def bit_xor_iff bit_word_rotr_iff dest: bit_imp_le_length)

lemma rot3_twice: "rot3 i j (rot3 i j x) = rot3 (2 * i) (2 * j) x"
proof (rule bit_word_eqI)
  fix n assume "n < LENGTH(64)"
  have m: "((n + a) mod 64 + b) mod 64 = (n + a + b) mod 64" for a b by (simp add: mod_add_left_eq)
  have c: "n + j + i = n + i + j" "n + 2 * i = n + i + i" "n + 2 * j = n + j + j" by simp_all
  show "bit (rot3 i j (rot3 i j x)) n = bit (rot3 (2 * i) (2 * j) x) n"
    unfolding bit_rot3 m c by auto
qed

lemma rot3_64: "rot3 (64 * i) (64 * j) x = x"
proof (rule bit_word_eqI)
  show "bit (rot3 (64 * i) (64 * j) x) n = bit x n" if "n < LENGTH(64)" for n
    using that unfolding bit_rot3 by simp
qed

lemma rot3_inj: "rot3 i j x = rot3 i j y \<Longrightarrow> x = y"
proof -
  assume "rot3 i j x = rot3 i j y"
  then have "rot3 (2 * i) (2 * j) x = rot3 (2 * i) (2 * j) y" by (metis rot3_twice)
  then have "rot3 (2 * (2 * i)) (2 * (2 * j)) x = rot3 (2 * (2 * i)) (2 * (2 * j)) y" by (metis rot3_twice)
  then have "rot3 (2 * (2 * (2 * i))) (2 * (2 * (2 * j))) x = rot3 (2 * (2 * (2 * i))) (2 * (2 * (2 * j))) y" by (metis rot3_twice)
  then have "rot3 (16 * i) (16 * j) x = rot3 (16 * i) (16 * j) y"
    using rot3_twice [of "2 * (2 * (2 * i))" "2 * (2 * (2 * j))"] by (simp add: mult.assoc [symmetric]) metis
  then have "rot3 (32 * i) (32 * j) x = rot3 (32 * i) (32 * j) y"
    using rot3_twice [of "16 * i" "16 * j"] by simp metis
  then have "rot3 (64 * i) (64 * j) x = rot3 (64 * i) (64 * j) y"
    using rot3_twice [of "32 * i" "32 * j"] by simp metis
  then show "x = y" by (simp add: rot3_64)
qed

lemma Rotl64_rotr: "0 < k \<Longrightarrow> k < 64 \<Longrightarrow> Rotl64 x k = word_rotr (64 - k) x"
proof (rule bit_word_eqI)
  fix n assume k: "0 < k" "k < 64" and n: "n < LENGTH(64)"
  show "bit (Rotl64 x k) n = bit (word_rotr (64 - k) x) n"
  proof (cases "k \<le> n")
    case True
    have "(n + (64 - k)) mod 64 = n - k" using True k n by (simp add: mod_if)
    moreover have "\<not> bit x (n + (64 - k))" using True k bit_imp_le_length [of x "n + (64 - k)"] by auto
    ultimately show ?thesis using True n
      by (simp add: Rotl64_def bit_or_iff bit_push_bit_iff bit_drop_bit_eq bit_word_rotr_iff add.commute)
  next
    case False
    have "(n + (64 - k)) mod 64 = n + (64 - k)" using False k by simp
    with False n show ?thesis
      by (simp add: Rotl64_def bit_or_iff bit_push_bit_iff bit_drop_bit_eq bit_word_rotr_iff add.commute)
  qed
qed

section \<open>The mixing functions\<close>

lemma Xxh64Avalanche_inj: "Xxh64Avalanche x = Xxh64Avalanche y \<Longrightarrow> x = y"
proof -
  assume eq: "Xxh64Avalanche x = Xxh64Avalanche y"
  have p: "kPrime64_2 * 0x0BA79078168D4BAF = 1" "kPrime64_3 * 0xE9E9F4C41D6DF849 = 1"
    by (simp_all add: kPrime64_2_def kPrime64_3_def word_eq_iff_unsigned)
  let ?a = "\<lambda>z. z XOR drop_bit 33 (z :: u64)"
  let ?b = "\<lambda>z. (?a z * kPrime64_2) XOR drop_bit 29 (?a z * kPrime64_2)"
  from eq have "?b x * kPrime64_3 = ?b y * kPrime64_3"
    unfolding Xxh64Avalanche_def Let_def by (rule xor_drop_inj) simp
  then have "?b x = ?b y" by (rule mult_inj [OF _ p(2)])
  then have "?a x * kPrime64_2 = ?a y * kPrime64_2" by (rule xor_drop_inj) simp
  then have "?a x = ?a y" by (rule mult_inj [OF _ p(1)])
  then show "x = y" by (rule xor_drop_inj) simp
qed

lemma Rrmxmx_inj:
  assumes "Xxh3RrmxmxAvalanche x c = Xxh3RrmxmxAvalanche y c" "unat c \<le> 8"
  shows "x = y"
proof -
  define p :: u64 where "p = 0x9FB21C651E98DF25"
  have p: "p * 0x02AB9C720D1024AD = 1" by (simp add: p_def word_eq_iff_unsigned)
  let ?a = "\<lambda>z. rot3 15 40 z * p"
  let ?b = "\<lambda>z. ?a z XOR (drop_bit 35 (?a z) + c)"
  have r: "z XOR (Rotl64 z 49 XOR Rotl64 z 24) = rot3 15 40 z" for z
    by (simp add: rot3_def Rotl64_rotr)
  have "?b x * p = ?b y * p"
    using assms(1) unfolding Xxh3RrmxmxAvalanche_def Let_def r p_def [symmetric] by (rule xor_drop_inj) simp
  then have "?b x = ?b y" by (rule mult_inj [OF _ p])
  then have "?a x = ?a y" by (rule xor_drop_add_inj [OF _ assms(2)])
  then have "rot3 15 40 x = rot3 15 40 y" by (rule mult_inj [OF _ p])
  then show "x = y" by (rule rot3_inj)
qed

section \<open>The inputs\<close>

lemma bit_ReadLe32:
  "bit (ReadLe32 p) n \<longleftrightarrow> n < 32 \<and> bit (p (n div 8)) (n mod 8)"
proof -
  consider "n < 8" | "8 \<le> n" "n < 16" | "16 \<le> n" "n < 24" | "24 \<le> n" "n < 32" | "32 \<le> n" by linarith
  then show ?thesis
  proof cases
    case 1
    then show ?thesis by (auto simp: ReadLe32_def bit_simps dest: bit_imp_le_length)
  next
    case 2
    then have "n div 8 = 1" "n mod 8 = n - 8" by (simp_all add: div_nat_eqI mod_nat_eqI le_mod_geq)
    with 2 show ?thesis by (auto simp: ReadLe32_def bit_simps dest: bit_imp_le_length)
  next
    case 3
    then have "n div 8 = 2" "n mod 8 = n - 16" by (simp_all add: div_nat_eqI mod_nat_eqI le_mod_geq)
    with 3 show ?thesis by (auto simp: ReadLe32_def bit_simps dest: bit_imp_le_length)
  next
    case 4
    then have "n div 8 = 3" "n mod 8 = n - 24" by (simp_all add: div_nat_eqI mod_nat_eqI le_mod_geq)
    with 4 show ?thesis by (auto simp: ReadLe32_def bit_simps dest: bit_imp_le_length)
  next
    case 5
    then show ?thesis by (auto dest: bit_imp_le_length)
  qed
qed

lemma ReadLe32_byte: "i < 4 \<Longrightarrow> ReadLe32 p = ReadLe32 q \<Longrightarrow> p i = q i"
proof (rule bit_word_eqI)
  fix n assume i: "i < 4" "ReadLe32 p = ReadLe32 q" and n: "n < LENGTH(8)"
  have "bit (ReadLe32 p) (8 * i + n) = bit (ReadLe32 q) (8 * i + n)" using i(2) by simp
  with i(1) n show "bit (p i) n = bit (q i) n" by (simp add: bit_ReadLe32)
qed

lemma two_words_inj:
  assumes "ucast (b :: u32) + push_bit 32 (ucast (a :: u32)) = ucast b' + push_bit 32 (ucast a' :: u64)"
  shows "a = a'" "b = b'"
proof -
  have or: "ucast b + push_bit 32 (ucast a :: u64) = push_bit 32 (ucast a) OR ucast b" for a b :: u32
    by (subst add.commute, rule disjunctive_add_eq_or, rule bit_word_eqI)
       (auto simp: bit_simps dest: bit_imp_le_length)
  have e: "bit (push_bit 32 (ucast a :: u64) OR ucast b) n = bit (push_bit 32 (ucast a') OR ucast b' :: u64) n" for n
    using assms unfolding or by simp
  show "a = a'"
  proof (rule bit_word_eqI)
    fix n assume "n < LENGTH(32)"
    then show "bit a n = bit a' n" using e [of "32 + n"] by (auto simp: bit_simps dest: bit_imp_le_length)
  qed
  show "b = b'"
  proof (rule bit_word_eqI)
    fix n assume "n < LENGTH(32)"
    then show "bit b n = bit b' n" using e [of n] by (auto simp: bit_simps)
  qed
qed

lemma Len4To8_inj:
  assumes eq: "Len4To8_64b p n S Seed = Len4To8_64b q n S Seed" and n: "4 \<le> n" "n \<le> 8"
  shows "same_bytes n p q"
proof -
  have "unat (word_of_nat n :: u64) \<le> 8" using n(2) by (simp add: unsigned_of_nat take_bit_nat_eq_self)
  note r = Rrmxmx_inj [OF _ this]
  define K where "K = (ReadLe64 (adv S 8) XOR ReadLe64 (adv S 16)) - (Seed XOR push_bit 32 (BSwap64 (Seed AND 0xFFFFFFFF)))"
  define I where "I = (\<lambda>p. ucast (ReadLe32 (adv p (n - 4))) + push_bit 32 (ucast (ReadLe32 p)) :: u64)"
  have "Len4To8_64b p n S Seed = Xxh3RrmxmxAvalanche (I p XOR K) (word_of_nat n)" for p
    unfolding Len4To8_64b_def Let_def I_def K_def by (rule refl)
  with eq have "Xxh3RrmxmxAvalanche (I p XOR K) (word_of_nat n) = Xxh3RrmxmxAvalanche (I q XOR K) (word_of_nat n)" by simp
  then have "I p = I q" by (rule r [THEN xor_key_inj])
  note w = two_words_inj [OF this [unfolded I_def]]
  have "p i = q i" if "i < n" for i
  proof (cases "i < 4")
    case True
    then show ?thesis by (rule ReadLe32_byte [OF _ w(1)])
  next
    case False
    then have "i - (n - 4) < 4" "n - 4 + (i - (n - 4)) = i" using that n by auto
    with ReadLe32_byte [OF _ w(2), of "i - (n - 4)"] show ?thesis by (simp add: adv_apply)
  qed
  then show ?thesis by (simp add: same_bytes_def)
qed

lemma Len1To3_inj:
  assumes eq: "Len1To3_64b p n S Seed = Len1To3_64b q n S Seed" and n: "0 < n" "n \<le> 3"
  shows "same_bytes n p q"
proof -
  define c :: "bytes \<Rightarrow> u32" where "c p = push_bit 16 (ucast (p 0)) OR push_bit 24 (ucast (p (n div 2)))
      OR ucast (p (n - 1)) OR push_bit 8 (word_of_nat n)" for p
  define K where "K = (ucast (ReadLe32 S) XOR ucast (ReadLe32 (adv S 4))) + Seed"
  have "Len1To3_64b p n S Seed = Xxh64Avalanche (ucast (c p) XOR K)" for p
    unfolding Len1To3_64b_def Let_def c_def K_def by (rule refl)
  with eq have "Xxh64Avalanche (ucast (c p) XOR K) = Xxh64Avalanche (ucast (c q) XOR K)" by simp
  then have u: "ucast (c p) = (ucast (c q) :: u64)"
    by (rule Xxh64Avalanche_inj [THEN xor_key_inj])
  have e: "c p = c q"
  proof (rule bit_word_eqI)
    fix k assume "k < LENGTH(32)"
    moreover have "bit (ucast (c p) :: u64) k = bit (ucast (c q) :: u64) k" using u by simp
    ultimately show "bit (c p) k = bit (c q) k" by (simp add: bit_simps)
  qed
  have small: "\<not> bit (word_of_nat n :: u32) (8 + k)" for k
  proof -
    have "n < 2 ^ 8" using n by simp
    then have "n < 2 ^ (8 + k)" by (rule less_le_trans) (rule power_increasing, simp_all)
    then have "n div 2 ^ (8 + k) = 0" by (rule div_less)
    then show ?thesis by (simp only: bit_of_nat_iff bit_nat_def) simp
  qed
  have b: "bit (c p) (16 + k) = bit (p 0) k" "bit (c p) (24 + k) = bit (p (n div 2)) k" "bit (c p) k = bit (p (n - 1)) k"
    if "k < 8" for p k
    using that small [of k] small [of "8 + k"] small [of "16 + k"]
    by (auto simp: c_def bit_simps dest: bit_imp_le_length)
  have "p 0 = q 0" "p (n div 2) = q (n div 2)" "p (n - 1) = q (n - 1)"
    using e b [of _ p] b [of _ q] by (auto intro!: bit_word_eqI)
  moreover have "i = 0 \<or> i = n div 2 \<or> i = n - 1" if "i < n" for i using that n by (auto simp: less_Suc_eq numeral_3_eq_3 le_Suc_eq)
  ultimately have "p i = q i" if "i < n" for i using that by metis
  then show ?thesis by (simp add: same_bytes_def)
qed

lemma Hash64_short_inj:
  assumes "n \<le> 8" "Hash64 p n Seed = Hash64 q n Seed"
  shows "same_bytes n p q"
proof (cases "n = 0")
  case False
  then show ?thesis
    using assms Len4To8_inj [of p n kXxh3Secret Seed q] Len1To3_inj [of p n kXxh3Secret Seed q]
    by (cases "4 \<le> n") (simp_all add: Hash64_def Len0To16_64b_def)
qed (simp add: same_bytes_def)

end
