(* ===== verification/Xxh3Theorems.thy ===== *)
theory Xxh3Theorems
  imports Xxh3Short
begin

text \<open>
  The hash reads the bytes it is given and no others, keeps every input of at most eight bytes
  apart from the others of its length, and treats a long input as one sequence of stripes.
\<close>

text \<open>The shift of the swapped low half of the seed loses every bit of it.\<close>

lemma Len4To8_seed:
  "Len4To8_64b Data Len Secret Seed =
     Xxh3RrmxmxAvalanche
       ((ucast (ReadLe32 (adv Data (Len - 4))) + push_bit 32 (ucast (ReadLe32 Data)))
          XOR ((ReadLe64 (adv Secret 8) XOR ReadLe64 (adv Secret 16)) - Seed)) (word_of_nat Len)"
  unfolding Len4To8_64b_def Let_def swapped_low_half_vanishes xor.right_neutral ..

lemma same_bytes_all: "same_bytes n p p"
  by (simp add: same_bytes_def)

lemma Hash64_cong:
  assumes "same_bytes n p q"
  shows "Hash64 p n Seed = Hash64 q n Seed"
proof -
  note s = same_bytes_all [of 192]
  consider "n \<le> 16" | "16 < n" "n \<le> 128" | "128 < n" "n \<le> 240" | "240 < n" by linarith
  then show ?thesis
  proof cases
    case 1
    then show ?thesis using Len0To16_cong [OF assms s 1, of kXxh3Secret Seed] by (cases "n = 0") (simp_all add: Hash64_def)
  next
    case 2
    then show ?thesis using Len17To128_cong [OF assms s 2] by (simp add: Hash64_def)
  next
    case 3
    then show ?thesis using Len129To240_cong [OF assms s 3] by (simp add: Hash64_def)
  next
    case 4
    then show ?thesis using HashLong_cong [OF assms s 4] by (simp add: Hash64_def kSecretDefaultSize_def)
  qed
qed

text \<open>
  C30: An input of at most eight bytes has, with any seed, the hash of another input of its length
  exactly when the two hold the same bytes; the bytes past the length do not matter.
\<close>

theorem short_hashes_never_collide:
  assumes "n \<le> 8"
  shows "Hash64 p n Seed = Hash64 q n Seed \<longleftrightarrow> (\<forall>i < n. p i = q i)"
  using Hash64_short_inj [OF assms, of p Seed q] Hash64_cong [of n p q Seed] by (auto simp: same_bytes_def)

theorem short_hashes_never_collide_witness:
  "Hash64 (\<lambda>i. [65, 66, 67, 68, 69] ! i) 5 7 \<noteq> Hash64 (\<lambda>i. [65, 66, 67, 69, 68] ! i) 5 7"
proof -
  have "\<not> (\<forall>i < 5. [65, 66, 67, 68, 69 :: u8] ! i = [65, 66, 67, 69, 68] ! i)" by (simp, intro exI [of _ 3]) simp
  then show ?thesis using short_hashes_never_collide [of 5 "\<lambda>i. [65, 66, 67, 68, 69] ! i" 7 "\<lambda>i. [65, 66, 67, 69, 68] ! i"] by simp
qed

text \<open>
  The hash of more than 240 bytes, computed block by block of sixteen stripes with a scramble
  after each and a remainder, is the plain fold over the stripes of the input, and depends on no
  byte past the input's length.
\<close>

theorem long_hash_folds_stripes:
  assumes "240 < n" "\<forall>i < n. p i = q i"
  shows "Hash64 p n Seed = hash_stripes q n (if Seed = 0 then kXxh3Secret else InitCustomSecret Seed)"
proof -
  have "Hash64 p n Seed = Hash64 q n Seed" using assms(2) by (intro Hash64_cong) (simp add: same_bytes_def)
  then show ?thesis using assms(1) HashLong_stripes [of n q] by (simp add: Hash64_def kSecretDefaultSize_def)
qed

theorem long_hash_folds_stripes_witness:
  "Hash64 (\<lambda>i. if i < 2000 then word_of_nat i else 1) 2000 3 = hash_stripes (\<lambda>i. word_of_nat i) 2000 (InitCustomSecret 3)"
  using long_hash_folds_stripes [of 2000 "\<lambda>i. if i < 2000 then word_of_nat i else 1" "\<lambda>i. word_of_nat i" 3] by simp

end
