(* ===== verification/NamePool.thy ===== *)
theory NamePool
  imports Xxh3
begin

text \<open>
  The intern table of names (\<open>FNamePool\<close>, \<open>Private/Reflection/FNamePool.h\<close> and \<open>.cpp\<close>, with the
  entry layout of \<open>Public/Reflection/FNameEntry.h\<close>): 256 shards, each an open-addressed table
  from byte hashes to entry numbers, a table of entry pointers and a chain of 64 KB blocks the
  entries are laid out in, byte by byte.  An entry pointer is the number of its block in the
  shard's chain and its offset in the block's arena; a null table is an empty list, so a table's
  capacity is its length.  What \<open>MallocOrAbort\<close> leaves in a new block is the argument \<open>fresh\<close>.
  The regions under a shard's lock are the functions below; \<open>NameThreads\<close> interleaves them.
\<close>

section \<open>Entries\<close>

definition kFNameMaxLength :: nat where "kFNameMaxLength = 1024"

text \<open>\<open>sizeof(FNameEntryHeader)\<close>\<close>

definition kEntryHeaderSize :: nat where "kEntryHeaderSize = 6"

definition ComputeFNameEntryAllocSize :: "nat \<Rightarrow> nat" where
  "ComputeFNameEntryAllocSize Len =
     (let RawSize = word_of_nat (kEntryHeaderSize + Len + 1) :: u64 in unat ((RawSize + 7) AND NOT 7))"

definition le_bytes :: "nat \<Rightarrow> 'a::len word \<Rightarrow> u8 list" where
  "le_bytes n w = map (\<lambda>k. ucast (drop_bit (8 * k) w)) [0 ..< n]"

definition write_bytes :: "bytes \<Rightarrow> nat \<Rightarrow> u8 list \<Rightarrow> bytes" where
  "write_bytes a off xs = (\<lambda>i. if off \<le> i \<and> i < off + length xs then xs ! (i - off) else a i)"

definition read_bytes :: "bytes \<Rightarrow> nat \<Rightarrow> nat \<Rightarrow> u8 list" where
  "read_bytes a off n = map (\<lambda>k. a (off + k)) [0 ..< n]"

text \<open>The header, the text and its terminator, as they are written at the cursor.\<close>

definition entry_image :: "u32 \<Rightarrow> u8 list \<Rightarrow> u8 list" where
  "entry_image EntryId Utf8 =
     le_bytes 4 EntryId @ le_bytes 2 (word_of_nat (length Utf8) :: 16 word) @ Utf8 @ [0]"

section \<open>Shards\<close>

definition kShardCount :: nat where "kShardCount = 256"
definition kShardIdShift :: nat where "kShardIdShift = 24"
definition kShardLocalIdMask :: u32 where "kShardLocalIdMask = push_bit kShardIdShift 1 - 1"
definition kMaxShardLocalEntries :: int where "kMaxShardLocalEntries = 16777216"
definition kShardSaturationWarnThreshold :: int where
  "kShardSaturationWarnThreshold = kMaxShardLocalEntries * 4 div 5"
definition kBlockSize :: int where "kBlockSize = 65536"
definition kBlockHeaderSize :: int where "kBlockHeaderSize = 24"
definition kInitialSlotCapacity :: nat where "kInitialSlotCapacity = 256"
definition kSlotLoadNumerator :: nat where "kSlotLoadNumerator = 3"
definition kSlotLoadDenominator :: nat where "kSlotLoadDenominator = 4"
definition kNoneIndex :: u32 where "kNoneIndex = 0"
definition kEmptySlot :: u32 where "kEmptySlot = 0xFFFFFFFF"

definition ArenaCapacity :: int where
  "ArenaCapacity = kBlockSize - kBlockHeaderSize"

record FNamePoolBlock =
  BlockUsed :: nat
  Arena :: bytes

record FNamePoolSlot =
  ByteHash :: u64
  ShardLocalId :: u32

type_synonym entry_ptr = "nat \<times> nat"

record FNamePoolShard =
  PoolSlots :: "FNamePoolSlot list"
  SlotCount :: nat
  EntryPointers :: "entry_ptr option list"
  NextShardLocalId :: nat
  PoolBlocks :: "FNamePoolBlock list"
  SaturationWarned :: bool

definition Shard_ctor :: FNamePoolShard where
  "Shard_ctor = \<lparr> PoolSlots = [], SlotCount = 0, EntryPointers = [], NextShardLocalId = 0,
     PoolBlocks = [], SaturationWarned = False \<rparr>"

record FNamePool =
  m_shards :: "FNamePoolShard list"
  m_isInitialised :: bool
  m_noneEntry :: "entry_ptr option"

definition FNamePool_ctor :: FNamePool where
  "FNamePool_ctor = \<lparr> m_shards = replicate kShardCount Shard_ctor, m_isInitialised = False, m_noneEntry = None \<rparr>"

definition GetShardIdFromHash :: "u64 \<Rightarrow> u8" where
  "GetShardIdFromHash Hash = ucast (drop_bit 56 Hash)"

definition GetShardIdFromIndex :: "u32 \<Rightarrow> u8" where
  "GetShardIdFromIndex Index = ucast (drop_bit kShardIdShift Index)"

definition GetShardLocalIdFromIndex :: "u32 \<Rightarrow> u32" where
  "GetShardLocalIdFromIndex Index = Index AND kShardLocalIdMask"

definition MakeIndex :: "u8 \<Rightarrow> u32 \<Rightarrow> u32" where
  "MakeIndex ShardId LocalId = push_bit kShardIdShift (ucast ShardId) OR (LocalId AND kShardLocalIdMask)"

section \<open>Reading an entry\<close>

definition arena_of :: "FNamePoolShard \<Rightarrow> entry_ptr \<Rightarrow> bytes" where
  "arena_of S p = Arena (PoolBlocks S ! fst p)"

definition GetEntryId :: "FNamePoolShard \<Rightarrow> entry_ptr \<Rightarrow> u32" where
  "GetEntryId S p = ReadLe32 (adv (arena_of S p) (snd p))"

definition GetLength :: "FNamePoolShard \<Rightarrow> entry_ptr \<Rightarrow> 16 word" where
  "GetLength S p = ucast (arena_of S p (snd p + 4)) OR push_bit 8 (ucast (arena_of S p (snd p + 5)))"

definition GetBytes :: "FNamePoolShard \<Rightarrow> entry_ptr \<Rightarrow> nat \<Rightarrow> u8 list" where
  "GetBytes S p n = read_bytes (arena_of S p) (snd p + kEntryHeaderSize) n"

section \<open>Probing\<close>

definition probe_start :: "u64 \<Rightarrow> nat \<Rightarrow> nat" where
  "probe_start Hash Cap = unat (Hash AND word_of_nat (Cap - 1))"

definition probe_next :: "nat \<Rightarrow> nat \<Rightarrow> nat" where
  "probe_next SlotIdx Cap = (SlotIdx + 1) AND (Cap - 1)"

fun ProbeFind :: "FNamePoolShard \<Rightarrow> u64 \<Rightarrow> u8 list \<Rightarrow> nat \<Rightarrow> nat \<Rightarrow> xerror + u32" where
  "ProbeFind S Hash Utf8 0 SlotIdx = Inr kEmptySlot"
| "ProbeFind S Hash Utf8 (Suc Probes) SlotIdx =
     (let Slot = PoolSlots S ! SlotIdx;
          next = ProbeFind S Hash Utf8 Probes (probe_next SlotIdx (length (PoolSlots S))) in
      if ShardLocalId Slot = kEmptySlot then Inr kEmptySlot
      else if ByteHash Slot = Hash then
        in_range (unat (ShardLocalId Slot) < length (EntryPointers S)) (
        case EntryPointers S ! unat (ShardLocalId Slot) of
          None \<Rightarrow> next
        | Some Entry \<Rightarrow>
            if GetLength S Entry = word_of_nat (length Utf8) \<and> GetBytes S Entry (length Utf8) = Utf8
            then Inr (ShardLocalId Slot) else next)
      else next)"

definition TryFindEntry :: "FNamePoolShard \<Rightarrow> u64 \<Rightarrow> u8 list \<Rightarrow> xerror + u32" where
  "TryFindEntry S Hash Utf8 =
     (if length (PoolSlots S) = 0 then Inr kEmptySlot
      else ProbeFind S Hash Utf8 (length (PoolSlots S)) (probe_start Hash (length (PoolSlots S))))"

text \<open>
  \<open>while (Slots[SlotIdx].ShardLocalId != kEmptySlot) SlotIdx = (SlotIdx + 1) & Mask\<close>: the probe
  positions repeat after as many steps as there are slots, so it ends within them or never.
\<close>

fun FindFree :: "FNamePoolSlot list \<Rightarrow> nat \<Rightarrow> nat \<Rightarrow> nat option" where
  "FindFree T 0 SlotIdx = None"
| "FindFree T (Suc n) SlotIdx =
     (if ShardLocalId (T ! SlotIdx) \<noteq> kEmptySlot then FindFree T n (probe_next SlotIdx (length T))
      else Some SlotIdx)"

definition PutSlot :: "u64 \<Rightarrow> u32 \<Rightarrow> FNamePoolSlot list \<Rightarrow> xerror + FNamePoolSlot list" where
  "PutSlot Hash SlotId T =
     (case FindFree T (length T) (probe_start Hash (length T)) of
        None \<Rightarrow> Inl NeverReturns
      | Some SlotIdx \<Rightarrow> Inr (T[SlotIdx := \<lparr> ByteHash = Hash, ShardLocalId = SlotId \<rparr>]))"

section \<open>Buffers allocated ahead of the lock\<close>

record FInsertPreAlloc =
  PreBlock :: "FNamePoolBlock option"
  SlotTableBuf :: "FNamePoolSlot list option"
  EntryPointerBuf :: "entry_ptr option list option"

definition no_prealloc :: FInsertPreAlloc where
  "no_prealloc = \<lparr> PreBlock = None, SlotTableBuf = None, EntryPointerBuf = None \<rparr>"

definition NewBlock :: "bytes \<Rightarrow> FNamePoolBlock" where
  "NewBlock fresh = \<lparr> BlockUsed = 0, Arena = fresh \<rparr>"

definition NewSlotTable :: "nat \<Rightarrow> FNamePoolSlot list" where
  "NewSlotTable n = replicate n \<lparr> ByteHash = 0, ShardLocalId = kEmptySlot \<rparr>"

definition TailIsFull :: "FNamePoolShard \<Rightarrow> nat \<Rightarrow> bool" where
  "TailIsFull S EntrySize \<longleftrightarrow> PoolBlocks S = [] \<or> int (BlockUsed (last (PoolBlocks S)) + EntrySize) > ArenaCapacity"

definition LoadTooHigh :: "FNamePoolShard \<Rightarrow> bool" where
  "LoadTooHigh S \<longleftrightarrow> (SlotCount S + 1) * kSlotLoadDenominator \<ge> length (PoolSlots S) * kSlotLoadNumerator"

definition PredictInsertPreAlloc :: "bytes \<Rightarrow> nat \<Rightarrow> FNamePoolShard \<Rightarrow> FInsertPreAlloc" where
  "PredictInsertPreAlloc fresh ByteLen S =
     \<lparr> PreBlock = (if TailIsFull S (ComputeFNameEntryAllocSize ByteLen) then Some (NewBlock fresh) else None),
       SlotTableBuf =
         (if length (PoolSlots S) = 0 then Some (NewSlotTable kInitialSlotCapacity)
          else if LoadTooHigh S then Some (NewSlotTable (length (PoolSlots S) * 2)) else None),
       EntryPointerBuf =
         (if length (EntryPointers S) = 0 then Some (replicate 16 None)
          else if NextShardLocalId S \<ge> length (EntryPointers S)
          then Some (replicate (length (EntryPointers S) * 2) None) else None) \<rparr>"

section \<open>Inserting\<close>

text \<open>Link a new block when the last one has no room, then place the entry at the cursor.\<close>

definition LinkBlock :: "bytes \<Rightarrow> nat \<Rightarrow> FInsertPreAlloc \<Rightarrow> FNamePoolShard \<Rightarrow> FNamePoolShard \<times> FInsertPreAlloc" where
  "LinkBlock fresh EntrySize Pre S =
     (if TailIsFull S EntrySize then
        (case PreBlock Pre of
           Some B \<Rightarrow> (S\<lparr>PoolBlocks := PoolBlocks S @ [B]\<rparr>, Pre\<lparr>PreBlock := None\<rparr>)
         | None \<Rightarrow> (S\<lparr>PoolBlocks := PoolBlocks S @ [NewBlock fresh]\<rparr>, Pre))
      else (S, Pre))"

definition PlaceEntry :: "u32 \<Rightarrow> u8 list \<Rightarrow> nat \<Rightarrow> FNamePoolShard \<Rightarrow> entry_ptr \<times> FNamePoolShard" where
  "PlaceEntry EntryId Utf8 EntrySize S =
     (let k = length (PoolBlocks S) - 1; Block = PoolBlocks S ! k; Cursor = BlockUsed Block;
          Block' = \<lparr> BlockUsed = Cursor + EntrySize, Arena = write_bytes (Arena Block) Cursor (entry_image EntryId Utf8) \<rparr>
      in ((k, Cursor), S\<lparr>PoolBlocks := (PoolBlocks S)[k := Block']\<rparr>))"

definition AllocateEntryInPool ::
  "build \<Rightarrow> bytes \<Rightarrow> u32 \<Rightarrow> u8 list \<Rightarrow> FInsertPreAlloc \<Rightarrow> FNamePoolShard
     \<Rightarrow> xerror + (entry_ptr \<times> FNamePoolShard \<times> FInsertPreAlloc)" where
  "AllocateEntryInPool b fresh EntryId Utf8 Pre S =
     (let EntrySize = ComputeFNameEntryAllocSize (length Utf8) in
      xcheck b (int EntrySize \<le> ArenaCapacity) (
      let (S1, Pre1) = LinkBlock fresh EntrySize Pre S;
          Cursor = BlockUsed (last (PoolBlocks S1)) in
      in_range (int (Cursor + length (entry_image EntryId Utf8)) \<le> ArenaCapacity) (
      let (p, S2) = PlaceEntry EntryId Utf8 EntrySize S1 in Inr (p, S2, Pre1))))"

definition RehashSlot :: "FNamePoolSlot \<Rightarrow> FNamePoolSlot list \<Rightarrow> xerror + FNamePoolSlot list" where
  "RehashSlot Old T =
     (if ShardLocalId Old = kEmptySlot then Inr T else PutSlot (ByteHash Old) (ShardLocalId Old) T)"

definition GrowSlotTable ::
  "build \<Rightarrow> FInsertPreAlloc \<Rightarrow> FNamePoolShard \<Rightarrow> xerror + (FNamePoolShard \<times> FInsertPreAlloc)" where
  "GrowSlotTable b Pre S =
     (let OldCapacity = length (PoolSlots S);
          NewCapacity = (if OldCapacity = 0 then kInitialSlotCapacity else OldCapacity * 2) in
      xcheck b (NewCapacity AND (NewCapacity - 1) = 0) (
      let (NewSlots, Pre1) =
            (case SlotTableBuf Pre of
               Some T \<Rightarrow> if length T = NewCapacity then (T, Pre\<lparr>SlotTableBuf := None\<rparr>)
                         else (NewSlotTable NewCapacity, Pre)
             | None \<Rightarrow> (NewSlotTable NewCapacity, Pre)) in
      rbind (fold_res RehashSlot (PoolSlots S) NewSlots) (\<lambda>T. Inr (S\<lparr>PoolSlots := T\<rparr>, Pre1))))"

definition GrowEntryPointers :: "FInsertPreAlloc \<Rightarrow> FNamePoolShard \<Rightarrow> FNamePoolShard \<times> FInsertPreAlloc" where
  "GrowEntryPointers Pre S =
     (let OldCapacity = length (EntryPointers S);
          NewCapacity = (if OldCapacity = 0 then 16 else OldCapacity * 2);
          (NewPtrs, Pre1) =
            (case EntryPointerBuf Pre of
               Some T \<Rightarrow> if length T = NewCapacity then (T, Pre\<lparr>EntryPointerBuf := None\<rparr>)
                         else (replicate NewCapacity None, Pre)
             | None \<Rightarrow> (replicate NewCapacity None, Pre))
      in (S\<lparr>EntryPointers := EntryPointers S @ drop OldCapacity NewPtrs\<rparr>, Pre1))"

definition FirstSlotTable :: "FInsertPreAlloc \<Rightarrow> FNamePoolShard \<Rightarrow> FNamePoolShard \<times> FInsertPreAlloc" where
  "FirstSlotTable Pre S =
     (if length (PoolSlots S) = 0 then
        (case SlotTableBuf Pre of
           Some T \<Rightarrow> if length T = kInitialSlotCapacity
                     then (S\<lparr>PoolSlots := T, SlotCount := 0\<rparr>, Pre\<lparr>SlotTableBuf := None\<rparr>)
                     else (S\<lparr>PoolSlots := NewSlotTable kInitialSlotCapacity, SlotCount := 0\<rparr>, Pre)
         | None \<Rightarrow> (S\<lparr>PoolSlots := NewSlotTable kInitialSlotCapacity, SlotCount := 0\<rparr>, Pre))
      else (S, Pre))"

text \<open>The saturation warning is compiled in the Debug and Development configurations.\<close>

definition WarnSaturation :: "build \<Rightarrow> FNamePoolShard \<Rightarrow> FNamePoolShard" where
  "WarnSaturation b S =
     (if b = Checked \<and> \<not> SaturationWarned S \<and> int (NextShardLocalId S) \<ge> kShardSaturationWarnThreshold
      then S\<lparr>SaturationWarned := True\<rparr> else S)"

definition StoreEntry :: "nat \<Rightarrow> entry_ptr \<Rightarrow> FInsertPreAlloc \<Rightarrow> FNamePoolShard \<Rightarrow> xerror + (FNamePoolShard \<times> FInsertPreAlloc)" where
  "StoreEntry NewId p Pre S =
     (let (S1, Pre1) = (if NewId \<ge> length (EntryPointers S) then GrowEntryPointers Pre S else (S, Pre)) in
      in_range (NewId < length (EntryPointers S1)) (
      Inr (S1\<lparr>EntryPointers := (EntryPointers S1)[NewId := Some p]\<rparr>, Pre1)))"

definition InsertEntry ::
  "build \<Rightarrow> bytes \<Rightarrow> u64 \<Rightarrow> u8 list \<Rightarrow> FInsertPreAlloc \<Rightarrow> FNamePoolShard
     \<Rightarrow> xerror + (u32 \<times> FNamePoolShard \<times> FInsertPreAlloc)" where
  "InsertEntry b fresh Hash Utf8 Pre S =
     (let (S1, Pre1) = FirstSlotTable Pre S in
      rbind (if LoadTooHigh S1 then GrowSlotTable b Pre1 S1 else Inr (S1, Pre1)) (\<lambda>(S2, Pre2).
      let S3 = WarnSaturation b S2 in
      if int (NextShardLocalId S3) \<ge> kMaxShardLocalEntries then Inl CheckFailed
      else let NewId = NextShardLocalId S3; S4 = S3\<lparr>NextShardLocalId := NewId + 1\<rparr> in
      rbind (AllocateEntryInPool b fresh (word_of_nat NewId) Utf8 Pre2 S4) (\<lambda>(p, S5, Pre3).
      rbind (StoreEntry NewId p Pre3 S5) (\<lambda>(S6, Pre4).
      rbind (PutSlot Hash (word_of_nat NewId) (PoolSlots S6)) (\<lambda>T.
      Inr (word_of_nat NewId, S6\<lparr>PoolSlots := T, SlotCount := SlotCount S6 + 1\<rparr>, Pre4))))))"

section \<open>The pool\<close>

definition get_shard :: "FNamePool \<Rightarrow> u8 \<Rightarrow> FNamePoolShard" where
  "get_shard P ShardId = m_shards P ! unat ShardId"

definition set_shard :: "u8 \<Rightarrow> FNamePoolShard \<Rightarrow> FNamePool \<Rightarrow> FNamePool" where
  "set_shard ShardId S P = P\<lparr>m_shards := (m_shards P)[unat ShardId := S]\<rparr>"

definition NoneStr :: "u8 list" where
  "NoneStr = [78, 111, 110, 101]"

text \<open>
  \<open>Init\<close> tests the flag, runs the region under the lock of shard 0, which tests it again, and
  publishes the flag after it has released the lock.
\<close>

definition InitLocked :: "build \<Rightarrow> bytes \<Rightarrow> FNamePool \<Rightarrow> xerror + FNamePool" where
  "InitLocked b fresh P =
     (if m_isInitialised P then Inr P
      else rbind (AllocateEntryInPool b fresh 0 NoneStr no_prealloc (get_shard P 0)) (\<lambda>(p, S1, Pre).
        let S2 = (if length (PoolSlots S1) = 0
                  then S1\<lparr>PoolSlots := NewSlotTable kInitialSlotCapacity, SlotCount := 0\<rparr> else S1) in
        rbind (PutSlot (Hash64_list NoneStr) 0 (PoolSlots S2)) (\<lambda>T.
        let S3 = S2\<lparr>PoolSlots := T, SlotCount := SlotCount S2 + 1\<rparr>;
            S4 = (if length (EntryPointers S3) = 0 then S3\<lparr>EntryPointers := replicate 16 None\<rparr> else S3) in
        in_range (0 < length (EntryPointers S4)) (
        let S5 = S4\<lparr>EntryPointers := (EntryPointers S4)[0 := Some p], NextShardLocalId := 1\<rparr>
        in Inr (set_shard 0 S5 (P\<lparr>m_noneEntry := Some p\<rparr>))))))"

definition PublishInit :: "FNamePool \<Rightarrow> FNamePool" where
  "PublishInit P = P\<lparr>m_isInitialised := True\<rparr>"

text \<open>A caller that finds the work done inside the lock returns without the last store.\<close>

definition Init :: "build \<Rightarrow> bytes \<Rightarrow> FNamePool \<Rightarrow> xerror + FNamePool" where
  "Init b fresh P =
     (if m_isInitialised P then Inr P else rbind (InitLocked b fresh P) (\<lambda>P'. Inr (PublishInit P')))"

definition ShutdownShard :: "FNamePoolShard \<Rightarrow> FNamePoolShard" where
  "ShutdownShard S =
     (let S1 = S\<lparr>PoolBlocks := []\<rparr>;
          S2 = (if PoolSlots S1 \<noteq> [] then S1\<lparr>PoolSlots := [], SlotCount := 0\<rparr> else S1)
      in if EntryPointers S2 \<noteq> [] then S2\<lparr>EntryPointers := [], NextShardLocalId := 0\<rparr> else S2)"

definition Shutdown :: "FNamePool \<Rightarrow> FNamePool" where
  "Shutdown P =
     (if \<not> m_isInitialised P then P
      else P\<lparr>m_shards := map ShutdownShard (m_shards P), m_noneEntry := None, m_isInitialised := False\<rparr>)"

text \<open>The region of \<open>Intern\<close> under the exclusive lock: probe again, then insert.\<close>

definition InternWrite ::
  "build \<Rightarrow> bytes \<Rightarrow> u64 \<Rightarrow> u8 list \<Rightarrow> FInsertPreAlloc \<Rightarrow> FNamePoolShard \<Rightarrow> xerror + (u32 \<times> FNamePoolShard)" where
  "InternWrite b fresh Hash Utf8 Pre S =
     rbind (TryFindEntry S Hash Utf8) (\<lambda>RaceCheckId.
     if RaceCheckId \<noteq> kEmptySlot then Inr (RaceCheckId, S)
     else rbind (InsertEntry b fresh Hash Utf8 Pre S) (\<lambda>(NewId, S', Unused). Inr (NewId, S')))"

definition Intern :: "build \<Rightarrow> bytes \<Rightarrow> u8 list option \<Rightarrow> int \<Rightarrow> FNamePool \<Rightarrow> xerror + (u32 \<times> FNamePool)" where
  "Intern b fresh Utf8 ByteLen P0 =
     rbind (if \<not> m_isInitialised P0 then Init b fresh P0 else Inr P0) (\<lambda>P.
     case Utf8 of
       None \<Rightarrow> Inr (kNoneIndex, P)
     | Some Bytes \<Rightarrow>
         if ByteLen \<le> 0 then Inr (kNoneIndex, P)
         else xcheck b (nat ByteLen \<le> kFNameMaxLength) (
           in_range (nat ByteLen \<le> length Bytes) (
           let Name = take (nat ByteLen) Bytes; Hash = Hash64_list Name;
               ShardId = GetShardIdFromHash Hash; S = get_shard P ShardId in
           rbind (TryFindEntry S Hash Name) (\<lambda>ExistingId.
           if ExistingId \<noteq> kEmptySlot then Inr (MakeIndex ShardId ExistingId, P)
           else let Pre = PredictInsertPreAlloc fresh (length Name) S in
             rbind (InternWrite b fresh Hash Name Pre S) (\<lambda>(ResultId, S').
             Inr (MakeIndex ShardId ResultId, set_shard ShardId S' P))))))"

text \<open>\<open>None\<close> stands for the null entry.\<close>

definition FindEntry :: "build \<Rightarrow> bytes \<Rightarrow> u32 \<Rightarrow> FNamePool \<Rightarrow> xerror + ((u8 \<times> entry_ptr) option \<times> FNamePool)" where
  "FindEntry b fresh Index P0 =
     rbind (if \<not> m_isInitialised P0 then Init b fresh P0 else Inr P0) (\<lambda>P.
     if Index = kNoneIndex then Inr (map_option (Pair 0) (m_noneEntry P), P)
     else let ShardId = GetShardIdFromIndex Index; LocalId = unat (GetShardLocalIdFromIndex Index);
              S = get_shard P ShardId in
       if LocalId < NextShardLocalId S \<and> EntryPointers S \<noteq> []
       then in_range (LocalId < length (EntryPointers S)) (
              Inr (map_option (Pair ShardId) (EntryPointers S ! LocalId), P))
       else Inr (None, P))"

definition IsValidIndex :: "build \<Rightarrow> bytes \<Rightarrow> u32 \<Rightarrow> FNamePool \<Rightarrow> xerror + (bool \<times> FNamePool)" where
  "IsValidIndex b fresh Index P =
     (if Index = kNoneIndex then Inr (True, P)
      else rbind (FindEntry b fresh Index P) (\<lambda>(Entry, P'). Inr (Entry \<noteq> None, P')))"

definition GetShardOccupancy :: "build \<Rightarrow> bytes \<Rightarrow> u8 \<Rightarrow> FNamePool \<Rightarrow> xerror + (nat \<times> FNamePool)" where
  "GetShardOccupancy b fresh ShardId P0 =
     rbind (if \<not> m_isInitialised P0 then Init b fresh P0 else Inr P0) (\<lambda>P.
     Inr (NextShardLocalId (get_shard P ShardId), P))"

text \<open>The text and the length of an entry.\<close>

definition entry_name :: "FNamePool \<Rightarrow> u8 \<times> entry_ptr \<Rightarrow> u8 list" where
  "entry_name P e = (let S = get_shard P (fst e) in GetBytes S (snd e) (unat (GetLength S (snd e))))"

end
