(* ===== verification/NamePoolProps.thy ===== *)
theory NamePoolProps
  imports NamePool
begin

text \<open>
  The invariant of a shard of the intern table, what a probe finds in it and what an insertion
  does: the linear-probe table, the entry blocks, then the shard as a whole.
\<close>

section \<open>Probe positions\<close>

definition cap_ok :: "nat \<Rightarrow> bool" where
  "cap_ok c \<longleftrightarrow> (\<exists>k \<le> 62. c = 2 ^ k)"

definition pos :: "u64 \<Rightarrow> nat \<Rightarrow> nat \<Rightarrow> nat" where
  "pos h c d = (unat h + d) mod c"

lemma cap_pos: "cap_ok c \<Longrightarrow> 0 < c"
  by (auto simp: cap_ok_def)

lemma pos_less: "cap_ok c \<Longrightarrow> pos h c d < c"
  by (simp add: pos_def cap_pos)

lemma probe_start_pos:
  assumes "cap_ok c"
  shows "probe_start h c = pos h c 0"
proof -
  obtain k where k: "k \<le> 62" "c = 2 ^ k" using assms by (auto simp: cap_ok_def)
  have m: "word_of_nat (c - 1) = (mask k :: u64)"
    by (simp add: k(2) mask_eq_exp_minus_1 of_nat_diff)
  show ?thesis
    unfolding probe_start_def pos_def m take_bit_eq_mask [symmetric] unsigned_take_bit_eq
    by (simp add: k(2) take_bit_eq_mod)
qed

lemma probe_next_pos:
  assumes "cap_ok c"
  shows "probe_next (pos h c d) c = pos h c (Suc d)"
proof -
  obtain k where k: "c = 2 ^ k" using assms by (auto simp: cap_ok_def)
  have m: "c - 1 = (mask k :: nat)" by (simp add: k mask_eq_exp_minus_1)
  show ?thesis
    unfolding probe_next_def m take_bit_eq_mask [symmetric] take_bit_eq_mod k [symmetric]
    by (simp add: pos_def mod_simps)
qed

lemma pos_onto:
  assumes "cap_ok c" "i < c"
  obtains d where "d < c" "pos h c d = i"
proof -
  define d where "d = (i + c - unat h mod c) mod c"
  have c: "0 < c" using cap_pos [OF assms(1)] .
  have "(unat h + d) mod c = (unat h mod c + (i + c - unat h mod c)) mod c"
    unfolding d_def by (simp add: mod_simps)
  also have "\<dots> = (i + c) mod c" using mod_less_divisor [OF c, of "unat h"] by (simp add: less_imp_le)
  finally have "pos h c d = i" using assms(2) by (simp add: pos_def)
  moreover have "d < c" using c by (simp add: d_def)
  ultimately show ?thesis using that by blast
qed

section \<open>The slot table\<close>

definition occ :: "FNamePoolSlot \<Rightarrow> bool" where
  "occ s \<longleftrightarrow> ShardLocalId s \<noteq> kEmptySlot"

definition located :: "FNamePoolSlot list \<Rightarrow> FNamePoolSlot \<Rightarrow> bool" where
  "located T s \<longleftrightarrow> (\<exists>j. T ! pos (ByteHash s) (length T) j = s
     \<and> j < length T \<and> (\<forall>m < j. occ (T ! pos (ByteHash s) (length T) m)))"

definition stored :: "FNamePoolSlot list \<Rightarrow> FNamePoolSlot set" where
  "stored T = {s \<in> set T. occ s}"

definition load :: "FNamePoolSlot list \<Rightarrow> nat" where
  "load T = length (filter occ T)"

definition probed :: "FNamePoolSlot list \<Rightarrow> bool" where
  "probed T \<longleftrightarrow> (\<forall>s \<in> stored T. located T s)"

lemma NewSlotTable_props [simp]:
  "length (NewSlotTable n) = n" "stored (NewSlotTable n) = {}" "load (NewSlotTable n) = 0" "probed (NewSlotTable n)"
  by (auto simp: NewSlotTable_def stored_def load_def probed_def occ_def)

lemma FindFree_Some:
  assumes "FindFree T n (pos h (length T) d) = Some i" "cap_ok (length T)"
  obtains j where "d \<le> j" "j < d + n" "i = pos h (length T) j" "\<not> occ (T ! i)"
    "\<And>m. d \<le> m \<Longrightarrow> m < j \<Longrightarrow> occ (T ! pos h (length T) m)"
proof -
  have "\<exists>j. d \<le> j \<and> j < d + n \<and> i = pos h (length T) j \<and> \<not> occ (T ! i)
      \<and> (\<forall>m. d \<le> m \<longrightarrow> m < j \<longrightarrow> occ (T ! pos h (length T) m))"
    using assms(1)
  proof (induction n arbitrary: d)
    case (Suc n)
    show ?case
    proof (cases "occ (T ! pos h (length T) d)")
      case True
      then have "FindFree T n (pos h (length T) (Suc d)) = Some i"
        using Suc.prems by (simp add: occ_def probe_next_pos [OF assms(2)])
      from Suc.IH [OF this] obtain j where j: "Suc d \<le> j" "j < Suc d + n" "i = pos h (length T) j" "\<not> occ (T ! i)"
        "\<forall>m. Suc d \<le> m \<longrightarrow> m < j \<longrightarrow> occ (T ! pos h (length T) m)" by blast
      then show ?thesis using True by (intro exI [of _ j]) (metis Suc_leI le_neq_implies_less add_Suc add_Suc_right Suc_leD)
    next
      case False
      with Suc.prems show ?thesis by (intro exI [of _ d]) (simp add: occ_def)
    qed
  qed simp
  with that show ?thesis by blast
qed

lemma FindFree_None:
  "FindFree T n (pos h (length T) d) = None \<Longrightarrow> cap_ok (length T) \<Longrightarrow> d \<le> m \<Longrightarrow> m < d + n \<Longrightarrow> occ (T ! pos h (length T) m)"
proof (induction n arbitrary: d)
  case (Suc n)
  then have "occ (T ! pos h (length T) d)" "FindFree T n (pos h (length T) (Suc d)) = None"
    by (auto simp: occ_def probe_next_pos split: if_splits)
  with Suc.IH [of "Suc d"] Suc.prems show ?case by (cases "m = d") auto
qed simp

lemma load_full: "(\<And>i. i < length T \<Longrightarrow> occ (T ! i)) \<Longrightarrow> load T = length T"
  by (simp add: load_def filter_id_conv all_set_conv_all_nth)

lemma load_put:
  assumes "i < length T" "\<not> occ (T ! i)" "occ s"
  shows "load (T[i := s]) = load T + 1"
proof -
  have "T = take i T @ T ! i # drop (Suc i) T" using assms(1) by (rule id_take_nth_drop)
  then have "load T = load (take i T) + load (drop (Suc i) T)"
    using assms(2) by (metis filter.simps(2) filter_append length_append load_def)
  moreover have "load (T[i := s]) = load (take i T) + Suc (load (drop (Suc i) T))"
    using assms(1,3) by (simp add: upd_conv_take_nth_drop load_def)
  ultimately show ?thesis by simp
qed

lemma PutSlot_spec:
  assumes c: "cap_ok (length T)" and pr: "probed T" and l: "load T < length T" and n: "n \<noteq> kEmptySlot"
  obtains T' where "PutSlot h n T = Inr T'" "length T' = length T" "probed T'" "load T' = load T + 1"
    "stored T' = insert \<lparr> ByteHash = h, ShardLocalId = n \<rparr> (stored T)"
proof -
  let ?s = "\<lparr> ByteHash = h, ShardLocalId = n \<rparr>"
  have "FindFree T (length T) (pos h (length T) 0) \<noteq> None"
  proof
    assume a: "FindFree T (length T) (pos h (length T) 0) = None"
    have "occ (T ! i)" if "i < length T" for i
      using FindFree_None [OF a c] pos_onto [OF c that, of h] by (metis add_0 le0)
    then show False using load_full [of T] l by simp
  qed
  then obtain i where i: "FindFree T (length T) (pos h (length T) 0) = Some i" by auto
  obtain j where j: "j < length T" "i = pos h (length T) j" "\<not> occ (T ! i)"
      "\<And>m. m < j \<Longrightarrow> occ (T ! pos h (length T) m)"
    by (rule FindFree_Some [OF i c]) auto
  have il: "i < length T" using j(2) pos_less [OF c] by simp
  let ?T = "T[i := ?s]"
  have s: "occ ?s" using n by (simp add: occ_def)
  have keep: "occ (?T ! m)" if "occ (T ! m)" for m using that s il by (cases "m = i") auto
  have sub: "stored ?T = insert ?s (stored T)"
  proof -
    have "stored ?T \<subseteq> insert ?s (stored T)" using set_update_subset_insert [of T i ?s] by (auto simp: stored_def)
    moreover have "?s \<in> stored ?T" using s il by (simp add: stored_def set_update_memI)
    moreover have "x \<in> set ?T" if "x \<in> stored T" for x
    proof -
      obtain m where m: "m < length T" "T ! m = x" "occ x" using \<open>x \<in> stored T\<close> by (auto simp: stored_def in_set_conv_nth)
      with j(3) have "m \<noteq> i" by auto
      with m show ?thesis by (metis length_list_update nth_list_update_neq nth_mem)
    qed
    ultimately show ?thesis by (auto simp: stored_def)
  qed
  have "located ?T x" if x: "x \<in> stored T" for x
  proof -
    obtain m where m: "T ! pos (ByteHash x) (length T) m = x" "m < length T"
        "\<forall>k < m. occ (T ! pos (ByteHash x) (length T) k)"
      using pr x by (auto simp: probed_def located_def)
    moreover have "pos (ByteHash x) (length T) m \<noteq> i" using m(1) j(3) x by (auto simp: stored_def)
    ultimately show ?thesis using keep unfolding located_def by (intro exI [of _ m]) auto
  qed
  moreover have "located ?T ?s"
    unfolding located_def by (rule exI [of _ j]) (use j il keep in auto)
  ultimately have "probed ?T" by (simp add: probed_def sub)
  with i show ?thesis
    by (intro that [of ?T]) (simp_all add: PutSlot_def probe_start_pos [OF c] load_put [OF il j(3) s] sub)
qed

lemma rehash_spec:
  assumes "cap_ok (length T)" "probed T" "load T + load Old < length T"
  obtains T' where "fold_res RehashSlot Old T = Inr T'" "length T' = length T" "probed T'"
    "load T' = load T + load Old" "stored T' = stored T \<union> stored Old"
proof -
  have "\<exists>T'. fold_res RehashSlot Old T = Inr T' \<and> length T' = length T \<and> probed T'
      \<and> load T' = load T + load Old \<and> stored T' = stored T \<union> stored Old"
    using assms
  proof (induction Old arbitrary: T)
    case (Cons s Old)
    show ?case
    proof (cases "occ s")
      case True
      have s: "\<lparr> ByteHash = ByteHash s, ShardLocalId = ShardLocalId s \<rparr> = s" by (cases s) simp
      from True have l: "load (s # Old) = Suc (load Old)" "stored (s # Old) = insert s (stored Old)"
        by (auto simp: load_def stored_def)
      obtain T1 where T1: "PutSlot (ByteHash s) (ShardLocalId s) T = Inr T1" "length T1 = length T" "probed T1"
          "load T1 = load T + 1" "stored T1 = insert s (stored T)"
        using PutSlot_spec [OF Cons.prems(1,2), of "ShardLocalId s" "ByteHash s"] Cons.prems(3) True l
        unfolding s by (auto simp: occ_def)
      obtain T' where "fold_res RehashSlot Old T1 = Inr T'" "length T' = length T1" "probed T'"
          "load T' = load T1 + load Old" "stored T' = stored T1 \<union> stored Old"
        using Cons.IH [of T1] Cons.prems T1 l by auto
      moreover have "RehashSlot s T = Inr T1" using T1(1) True by (simp add: RehashSlot_def occ_def)
      ultimately show ?thesis using T1 l by auto
    next
      case False
      then have "load (s # Old) = load Old" "stored (s # Old) = stored Old" by (auto simp: load_def stored_def)
      with Cons False show ?thesis by (auto simp: RehashSlot_def occ_def)
    qed
  qed (simp add: load_def stored_def)
  with that show ?thesis by blast
qed

section \<open>Entries in the blocks\<close>

lemma and_not_7: "unat ((w :: u64) AND NOT 7) = unat w div 8 * 8"
proof -
  have unat_less: "unat w < 2 ^ 64" using unsigned_less [of w] by simp
  have "w AND NOT 7 = push_bit 3 (drop_bit 3 w)"
  proof -
    have "(7 :: u64) = mask 3" by (simp add: mask_eq_exp_minus_1)
    show ?thesis unfolding \<open>7 = mask 3\<close> by (rule bit_eqI) (auto simp: bit_simps)
  qed
  then have "w AND NOT 7 = drop_bit 3 w * 8" by (simp add: push_bit_eq_mult)
  moreover have "unat (drop_bit 3 w) = unat w div 2 ^ 3" unfolding unat_drop_bit_eq by (rule drop_bit_eq_div)
  moreover have "unat w div 8 * 8 < 2 ^ 64"
    using unat_less div_times_less_eq_dividend [of "unat w" 8] by linarith
  ultimately show ?thesis by (simp add: unat_word_ariths(2))
qed

lemma AllocSize:
  assumes "n \<le> 1024"
  shows "n + 7 \<le> ComputeFNameEntryAllocSize n" "ComputeFNameEntryAllocSize n \<le> 1040"
    "ComputeFNameEntryAllocSize n mod 8 = 0"
proof -
  have u: "unat (word_of_nat (n + 7) + 7 :: u64) = n + 14"
    using assms by (simp add: unat_of_nat unat_word_ariths(1))
  have e: "ComputeFNameEntryAllocSize n = (n + 14) div 8 * 8"
    using and_not_7 [of "word_of_nat (n + 7) + 7"] u
    by (simp add: ComputeFNameEntryAllocSize_def kEntryHeaderSize_def add.commute)
  show "n + 7 \<le> ComputeFNameEntryAllocSize n" "ComputeFNameEntryAllocSize n \<le> 1040"
    using assms unfolding e by linarith+
  show "ComputeFNameEntryAllocSize n mod 8 = 0" unfolding e by simp
qed

lemma le_bytes_simps [simp]:
  "length (le_bytes n w) = n" "k < n \<Longrightarrow> le_bytes n w ! k = ucast (drop_bit (8 * k) w)"
  by (simp_all add: le_bytes_def)

lemma length_entry_image [simp]: "length (entry_image i u) = length u + 7"
  by (simp add: entry_image_def)

lemma write_bytes_at: "k < length xs \<Longrightarrow> write_bytes a off xs (off + k) = xs ! k"
  by (simp add: write_bytes_def)

lemma write_bytes_other: "i < off \<Longrightarrow> write_bytes a off xs i = a i"
  by (simp add: write_bytes_def)

lemma image_nth:
  "k < 4 \<Longrightarrow> entry_image i u ! k = ucast (drop_bit (8 * k) i)"
  "entry_image i u ! 4 = ucast (word_of_nat (length u) :: 16 word)"
  "entry_image i u ! 5 = ucast (drop_bit 8 (word_of_nat (length u) :: 16 word))"
  "k < length u \<Longrightarrow> entry_image i u ! (6 + k) = u ! k"
  "entry_image i u ! (6 + length u) = 0"
  by (simp_all add: entry_image_def nth_append)

lemma glue16: "ucast (ucast (w :: 16 word) :: u8) OR push_bit 8 (ucast (ucast (drop_bit 8 w) :: u8)) = w"
  by (rule bit_eqI) (auto simp: bit_simps)

lemma glue32:
  "ucast (ucast (w :: u32) :: u8) OR push_bit 8 (ucast (ucast (drop_bit 8 w) :: u8))
     OR push_bit 16 (ucast (ucast (drop_bit 16 w) :: u8)) OR push_bit 24 (ucast (ucast (drop_bit 24 w) :: u8)) = (w :: u32)"
proof (rule bit_word_eqI)
  fix n assume "n < LENGTH(32)"
  then consider "n < 8" | "8 \<le> n" "n < 16" | "16 \<le> n" "n < 24" | "24 \<le> n" "n < 32" by fastforce
  then show "bit (ucast (ucast w :: u8) OR push_bit 8 (ucast (ucast (drop_bit 8 w) :: u8))
     OR push_bit 16 (ucast (ucast (drop_bit 16 w) :: u8)) OR push_bit 24 (ucast (ucast (drop_bit 24 w) :: u8)) :: u32) n = bit w n"
    by cases (auto simp: bit_simps)
qed

text \<open>An entry laid out completely in the used part of its block.\<close>

definition entry_at :: "FNamePoolShard \<Rightarrow> entry_ptr \<Rightarrow> u32 \<Rightarrow> u8 list \<Rightarrow> bool" where
  "entry_at S p i u \<longleftrightarrow> fst p < length (PoolBlocks S) \<and> snd p mod 8 = 0
     \<and> snd p + length u + 7 \<le> BlockUsed (PoolBlocks S ! fst p)
     \<and> (\<forall>k < length u + 7. arena_of S p (snd p + k) = entry_image i u ! k)"

lemma entry_at_reads:
  assumes "entry_at S p i u"
  shows "GetEntryId S p = i" "GetLength S p = word_of_nat (length u)" "GetBytes S p (length u) = u"
    "arena_of S p (snd p + 6 + length u) = 0"
proof -
  have r: "k < length u + 7 \<Longrightarrow> arena_of S p (snd p + k) = entry_image i u ! k" for k
    using assms by (simp add: entry_at_def)
  show "GetEntryId S p = i"
    using r [of 0] r [of 1] r [of 2] r [of 3] glue32 [of i]
    by (simp add: GetEntryId_def ReadLe32_def adv_apply image_nth)
  show "GetLength S p = word_of_nat (length u)"
    using r [of 4] r [of 5] glue16 by (simp add: GetLength_def image_nth)
  show "GetBytes S p (length u) = u"
    by (rule nth_equalityI) (use r in \<open>simp_all add: GetBytes_def read_bytes_def kEntryHeaderSize_def add.assoc image_nth\<close>)
  show "arena_of S p (snd p + 6 + length u) = 0"
    using r [of "6 + length u"] by (simp add: image_nth add.assoc)
qed

definition pname :: "FNamePoolShard \<Rightarrow> entry_ptr \<Rightarrow> u8 list" where
  "pname S p = GetBytes S p (unat (GetLength S p))"

lemma pname_entry: "entry_at S p i u \<Longrightarrow> length u \<le> kFNameMaxLength \<Longrightarrow> pname S p = u"
  by (simp add: pname_def entry_at_reads unat_of_nat kFNameMaxLength_def)

definition blocks_ok :: "FNamePoolShard \<Rightarrow> bool" where
  "blocks_ok S \<longleftrightarrow> (\<forall>B \<in> set (PoolBlocks S). int (BlockUsed B) \<le> ArenaCapacity \<and> BlockUsed B mod 8 = 0)"

definition pre_ok :: "FInsertPreAlloc \<Rightarrow> bool" where
  "pre_ok Pre \<longleftrightarrow> (\<forall>B. PreBlock Pre = Some B \<longrightarrow> BlockUsed B = 0)
     \<and> (\<forall>T. SlotTableBuf Pre = Some T \<longrightarrow> T = NewSlotTable (length T))
     \<and> (\<forall>T. EntryPointerBuf Pre = Some T \<longrightarrow> T = replicate (length T) None)"

text \<open>Two entries share no byte.\<close>

definition disjoint_entries :: "entry_ptr \<Rightarrow> nat \<Rightarrow> entry_ptr \<Rightarrow> nat \<Rightarrow> bool" where
  "disjoint_entries p m q n \<longleftrightarrow> fst p \<noteq> fst q \<or> snd p + m + 7 \<le> snd q \<or> snd q + n + 7 \<le> snd p"

lemma ArenaCapacity_val: "ArenaCapacity = 65512"
  by (simp add: ArenaCapacity_def kBlockSize_def kBlockHeaderSize_def)

lemma PlaceEntry_spec:
  fixes i :: u32
  assumes b: "blocks_ok S" "PoolBlocks S \<noteq> []" and room: "\<not> TailIsFull S (ComputeFNameEntryAllocSize (length u))"
    and u: "length u \<le> kFNameMaxLength"
  obtains p Bs where "PlaceEntry i u (ComputeFNameEntryAllocSize (length u)) S = (p, S\<lparr>PoolBlocks := Bs\<rparr>)"
    "entry_at (S\<lparr>PoolBlocks := Bs\<rparr>) p i u" "blocks_ok (S\<lparr>PoolBlocks := Bs\<rparr>)"
    "\<And>q n v. entry_at S q n v \<Longrightarrow> entry_at (S\<lparr>PoolBlocks := Bs\<rparr>) q n v \<and> disjoint_entries q (length v) p (length u)"
proof -
  let ?sz = "ComputeFNameEntryAllocSize (length u)"
  note sz = AllocSize [OF u [unfolded kFNameMaxLength_def]]
  define k where "k = length (PoolBlocks S) - 1"
  define B where "B = PoolBlocks S ! k"
  define Bs where "Bs = (PoolBlocks S)[k := \<lparr> BlockUsed = BlockUsed B + ?sz,
      Arena = write_bytes (Arena B) (BlockUsed B) (entry_image i u) \<rparr>]"
  have k: "k < length (PoolBlocks S)" "last (PoolBlocks S) = B"
    using b(2) by (simp_all add: k_def B_def last_conv_nth)
  then have m: "B \<in> set (PoolBlocks S)" using b(2) by (metis last_in_set)
  have u8: "BlockUsed B mod 8 = 0" "int (BlockUsed B + ?sz) \<le> ArenaCapacity"
    using b m room k(2) by (auto simp: blocks_ok_def TailIsFull_def)
  have e: "entry_at (S\<lparr>PoolBlocks := Bs\<rparr>) (k, BlockUsed B) i u"
    using k(1) sz(1) u8(1) by (simp add: entry_at_def arena_of_def Bs_def write_bytes_at)
  have ok: "blocks_ok (S\<lparr>PoolBlocks := Bs\<rparr>)"
    using b(1) u8 sz(3) unfolding blocks_ok_def Bs_def
    by (auto dest!: set_update_subset_insert [THEN subsetD] simp: mod_add_eq [symmetric])
  have keep: "entry_at (S\<lparr>PoolBlocks := Bs\<rparr>) q n v \<and> disjoint_entries q (length v) (k, BlockUsed B) (length u)"
    if "entry_at S q n v" for q n v
  proof (cases "fst q = k")
    case True
    then have "snd q + length v + 7 \<le> BlockUsed B" using that by (simp add: entry_at_def B_def)
    then show ?thesis using that True k(1)
      by (auto simp: entry_at_def arena_of_def Bs_def B_def [symmetric] disjoint_entries_def write_bytes_other)
  next
    case False
    then show ?thesis using that by (auto simp: entry_at_def arena_of_def Bs_def disjoint_entries_def)
  qed
  have "PlaceEntry i u ?sz S = ((k, BlockUsed B), S\<lparr>PoolBlocks := Bs\<rparr>)"
    by (simp add: PlaceEntry_def Let_def Bs_def B_def k_def)
  from that [OF this e ok keep] show ?thesis .
qed

lemma AllocateEntryInPool_spec:
  fixes i :: u32
  assumes b: "blocks_ok S" and u: "length u \<le> kFNameMaxLength" and pre: "pre_ok Pre"
  obtains p Bs Pre' where "AllocateEntryInPool bd fresh i u Pre S = Inr (p, S\<lparr>PoolBlocks := Bs\<rparr>, Pre')" "pre_ok Pre'"
    "entry_at (S\<lparr>PoolBlocks := Bs\<rparr>) p i u" "blocks_ok (S\<lparr>PoolBlocks := Bs\<rparr>)"
    "\<And>q n v. entry_at S q n v \<Longrightarrow> entry_at (S\<lparr>PoolBlocks := Bs\<rparr>) q n v \<and> disjoint_entries q (length v) p (length u)"
proof -
  let ?sz = "ComputeFNameEntryAllocSize (length u)"
  note sz = AllocSize [OF u [unfolded kFNameMaxLength_def]]
  obtain S1 Pre1 where l: "LinkBlock fresh ?sz Pre S = (S1, Pre1)" by fastforce
  have s1: "\<exists>Bs. S1 = S\<lparr>PoolBlocks := PoolBlocks S @ Bs\<rparr>" "pre_ok Pre1" "blocks_ok S1" "PoolBlocks S1 \<noteq> []"
    "\<not> TailIsFull S1 ?sz"
  proof -
    have new: "blocks_ok (S\<lparr>PoolBlocks := PoolBlocks S @ [B]\<rparr>)" "\<not> TailIsFull (S\<lparr>PoolBlocks := PoolBlocks S @ [B]\<rparr>) ?sz"
      if "BlockUsed B = 0" for B
      using b sz(2) that by (auto simp: blocks_ok_def TailIsFull_def ArenaCapacity_val)
    consider (full_pre) B where "TailIsFull S ?sz" "PreBlock Pre = Some B" "S1 = S\<lparr>PoolBlocks := PoolBlocks S @ [B]\<rparr>"
        "Pre1 = Pre\<lparr>PreBlock := None\<rparr>" "BlockUsed B = 0"
      | (full_new) "TailIsFull S ?sz" "S1 = S\<lparr>PoolBlocks := PoolBlocks S @ [NewBlock fresh]\<rparr>" "Pre1 = Pre"
      | (room) "\<not> TailIsFull S ?sz" "S1 = S" "Pre1 = Pre"
      using l pre by (auto simp: LinkBlock_def pre_ok_def split: if_splits option.splits)
    then have "(\<exists>Bs. S1 = S\<lparr>PoolBlocks := PoolBlocks S @ Bs\<rparr>) \<and> pre_ok Pre1 \<and> blocks_ok S1 \<and> PoolBlocks S1 \<noteq> []
      \<and> \<not> TailIsFull S1 ?sz"
    proof cases
      case full_pre
      then show ?thesis using new [OF full_pre(5)] pre by (auto simp: pre_ok_def)
    next
      case full_new
      then show ?thesis using new [of "NewBlock fresh"] pre by (auto simp: NewBlock_def)
    next
      case room
      then show ?thesis using b pre by (auto simp: TailIsFull_def intro!: exI [of _ "[]"])
    qed
    then show "\<exists>Bs. S1 = S\<lparr>PoolBlocks := PoolBlocks S @ Bs\<rparr>" "pre_ok Pre1" "blocks_ok S1" "PoolBlocks S1 \<noteq> []"
      "\<not> TailIsFull S1 ?sz" by blast+
  qed
  obtain p Bs where p: "PlaceEntry i u ?sz S1 = (p, S1\<lparr>PoolBlocks := Bs\<rparr>)"
    "entry_at (S1\<lparr>PoolBlocks := Bs\<rparr>) p i u" "blocks_ok (S1\<lparr>PoolBlocks := Bs\<rparr>)"
    "\<And>q n v. entry_at S1 q n v \<Longrightarrow> entry_at (S1\<lparr>PoolBlocks := Bs\<rparr>) q n v \<and> disjoint_entries q (length v) p (length u)"
    by (rule PlaceEntry_spec [OF s1(3-5) u, of i thesis]) (rule that)
  have eq: "S1\<lparr>PoolBlocks := Bs\<rparr> = S\<lparr>PoolBlocks := Bs\<rparr>" using s1(1) by auto
  have old: "entry_at S q n v \<Longrightarrow> entry_at S1 q n v" for q n v
    using s1(1) by (auto simp: entry_at_def arena_of_def nth_append)
  have "int (BlockUsed (last (PoolBlocks S1)) + length (entry_image i u)) \<le> ArenaCapacity"
    using s1(4,5) sz(1) by (auto simp: TailIsFull_def)
  moreover have "int ?sz \<le> ArenaCapacity" using sz(2) by (simp add: ArenaCapacity_val)
  ultimately have "AllocateEntryInPool bd fresh i u Pre S = Inr (p, S\<lparr>PoolBlocks := Bs\<rparr>, Pre1)"
    using l p(1) by (simp add: AllocateEntryInPool_def Let_def eq)
  from that [OF this s1(2) p(2,3) [unfolded eq] p(4) [unfolded eq, OF old]] show ?thesis .
qed

end
