(* ===== verification/NameShard.thy ===== *)
theory NameShard
  imports NamePoolProps
begin

text \<open>
  A shard as a partial injective map between entry numbers and names: its invariant, the exact
  answer of a lookup, and what an insertion adds.
\<close>

section \<open>The invariant of a shard\<close>

text \<open>The name of an entry number.\<close>

definition ename :: "FNamePoolShard \<Rightarrow> nat \<Rightarrow> u8 list" where
  "ename S i = (case EntryPointers S ! i of None \<Rightarrow> [] | Some p \<Rightarrow> pname S p)"

definition name_slot :: "FNamePoolShard \<Rightarrow> nat \<Rightarrow> FNamePoolSlot" where
  "name_slot S i = \<lparr> ByteHash = Hash64_list (ename S i), ShardLocalId = word_of_nat i \<rparr>"

definition eptr :: "FNamePoolShard \<Rightarrow> nat \<Rightarrow> entry_ptr" where
  "eptr S i = the (EntryPointers S ! i)"

text \<open>The slot table: empty before the first insertion; later it always has free slots.\<close>

definition table_inv :: "FNamePoolShard \<Rightarrow> bool" where
  "table_inv S \<longleftrightarrow> (PoolSlots S = [] \<and> NextShardLocalId S = 0
        \<or> cap_ok (length (PoolSlots S)) \<and> 256 \<le> length (PoolSlots S) \<and> 4 * SlotCount S < 3 * length (PoolSlots S))
     \<and> probed (PoolSlots S) \<and> load (PoolSlots S) = SlotCount S"

text \<open>Each entry number has a slot, and the slots hold nothing else (a number may have several).\<close>

definition slots_inv :: "FNamePoolShard \<Rightarrow> bool" where
  "slots_inv S \<longleftrightarrow> stored (PoolSlots S) = name_slot S ` {..< NextShardLocalId S}
     \<and> SlotCount S \<le> NextShardLocalId S + 190 \<and> NextShardLocalId S \<le> 16777216"

definition entries_inv :: "FNamePoolShard \<Rightarrow> bool" where
  "entries_inv S \<longleftrightarrow> blocks_ok S \<and> NextShardLocalId S \<le> length (EntryPointers S)
     \<and> (\<forall>i < NextShardLocalId S. EntryPointers S ! i \<noteq> None \<and> entry_at S (eptr S i) (word_of_nat i) (ename S i)
          \<and> length (ename S i) \<le> kFNameMaxLength)
     \<and> inj_on (ename S) {..< NextShardLocalId S}
     \<and> (\<forall>i < NextShardLocalId S. \<forall>j < NextShardLocalId S. i \<noteq> j \<longrightarrow>
          disjoint_entries (eptr S i) (length (ename S i)) (eptr S j) (length (ename S j)))"

text \<open>Names live in the shard their hash selects; only the entry of \<open>NAME_None\<close> was put into shard 0.\<close>

definition home_inv :: "u8 \<Rightarrow> FNamePoolShard \<Rightarrow> bool" where
  "home_inv sid S \<longleftrightarrow> (\<forall>i < NextShardLocalId S.
     if sid = 0 \<and> i = 0 then ename S i = NoneStr
     else GetShardIdFromHash (Hash64_list (ename S i)) = sid \<and> ename S i \<noteq> [])"

definition shard_inv :: "u8 \<Rightarrow> FNamePoolShard \<Rightarrow> bool" where
  "shard_inv sid S \<longleftrightarrow> table_inv S \<and> slots_inv S \<and> entries_inv S \<and> home_inv sid S"

lemma shard_ctor_inv: "shard_inv sid Shard_ctor"
  by (simp add: shard_inv_def table_inv_def slots_inv_def entries_inv_def home_inv_def Shard_ctor_def
      blocks_ok_def probed_def stored_def load_def)

lemma entry_name_known:
  assumes "entries_inv S" "i < NextShardLocalId S"
  shows "EntryPointers S ! i = Some (eptr S i)" "pname S (eptr S i) = ename S i"
    "entry_at S (eptr S i) (word_of_nat i) (ename S i)" "length (ename S i) \<le> kFNameMaxLength"
    "i < length (EntryPointers S)"
  using assms by (auto simp: entries_inv_def eptr_def ename_def split: option.splits)

section \<open>Lookup\<close>

text \<open>The comparison of a probe step decides equality of the names.\<close>

lemma entry_match:
  assumes "entry_at S p i v" "length v \<le> kFNameMaxLength" "length u \<le> kFNameMaxLength"
  shows "GetLength S p = word_of_nat (length u) \<and> GetBytes S p (length u) = u \<longleftrightarrow> v = u"
proof
  assume m: "GetLength S p = word_of_nat (length u) \<and> GetBytes S p (length u) = u"
  then have "(word_of_nat (length v) :: 16 word) = word_of_nat (length u)" using entry_at_reads(2) [OF assms(1)] by simp
  then have "unat (word_of_nat (length v) :: 16 word) = unat (word_of_nat (length u) :: 16 word)" by simp
  then have "length v = length u" using assms(2,3) by (simp add: unat_of_nat kFNameMaxLength_def)
  with m entry_at_reads(3) [OF assms(1)] show "v = u" by simp
next
  assume "v = u"
  with entry_at_reads(2,3) [OF assms(1)] show "GetLength S p = word_of_nat (length u) \<and> GetBytes S p (length u) = u" by simp
qed

definition lookup :: "FNamePoolShard \<Rightarrow> u8 list \<Rightarrow> nat option" where
  "lookup S u = (if \<exists>i < NextShardLocalId S. ename S i = u
     then Some (THE i. i < NextShardLocalId S \<and> ename S i = u) else None)"

lemma lookup_Some:
  assumes "entries_inv S"
  shows "lookup S u = Some i \<longleftrightarrow> i < NextShardLocalId S \<and> ename S i = u"
proof -
  have "(THE i. i < NextShardLocalId S \<and> ename S i = u) = k" if "k < NextShardLocalId S" "ename S k = u" for k
    by (rule the_equality) (use that assms in \<open>auto simp: entries_inv_def inj_on_def\<close>)
  then show ?thesis by (auto simp: lookup_def)
qed

lemma lookup_None: "lookup S u = None \<longleftrightarrow> (\<forall>i < NextShardLocalId S. ename S i \<noteq> u)"
  by (auto simp: lookup_def)

text \<open>One probe step at a slot of the table.\<close>

lemma probe_step:
  assumes inv: "slots_inv S" "entries_inv S" and u: "length u \<le> kFNameMaxLength"
    and s: "PoolSlots S ! k \<in> stored (PoolSlots S)"
  obtains i where "i < NextShardLocalId S" "PoolSlots S ! k = name_slot S i"
    "ProbeFind S (Hash64_list u) u (Suc n) k =
       (if ename S i = u then Inr (word_of_nat i)
        else ProbeFind S (Hash64_list u) u n (probe_next k (length (PoolSlots S))))"
proof -
  obtain i where i: "i < NextShardLocalId S" "PoolSlots S ! k = name_slot S i"
    using inv(1) s by (auto simp: slots_inv_def)
  have "unat (word_of_nat i :: u32) = i" using i(1) inv(1) by (simp add: slots_inv_def unat_of_nat)
  moreover have "ShardLocalId (PoolSlots S ! k) \<noteq> kEmptySlot" using s by (simp add: stored_def occ_def)
  moreover note entry_name_known [OF inv(2) i(1)]
  moreover note entry_match [OF entry_name_known(3,4) [OF inv(2) i(1)] u]
  ultimately have "ProbeFind S (Hash64_list u) u (Suc n) k =
       (if ename S i = u then Inr (word_of_nat i)
        else ProbeFind S (Hash64_list u) u n (probe_next k (length (PoolSlots S))))"
    using i(2) by (auto simp: Let_def name_slot_def in_range_def)
  with i show ?thesis by (rule that)
qed

lemma probe_step_empty:
  "\<not> occ (PoolSlots S ! k) \<Longrightarrow> ProbeFind S h u (Suc n) k = Inr kEmptySlot"
  by (simp add: Let_def occ_def)

lemma probe_absent:
  assumes inv: "slots_inv S" "entries_inv S" and u: "length u \<le> kFNameMaxLength" and c: "cap_ok (length (PoolSlots S))"
    and none: "\<forall>i < NextShardLocalId S. ename S i \<noteq> u"
  shows "ProbeFind S (Hash64_list u) u n (pos h (length (PoolSlots S)) d) = Inr kEmptySlot"
proof (induction n arbitrary: d)
  case (Suc n)
  let ?k = "pos h (length (PoolSlots S)) d"
  show ?case
  proof (cases "occ (PoolSlots S ! ?k)")
    case True
    then have "PoolSlots S ! ?k \<in> stored (PoolSlots S)" using pos_less [OF c] by (simp add: stored_def)
    from probe_step [OF inv u this] none obtain i where
      "ProbeFind S (Hash64_list u) u (Suc n) ?k = ProbeFind S (Hash64_list u) u n (probe_next ?k (length (PoolSlots S)))"
      by metis
    then show ?thesis by (simp only: probe_next_pos [OF c] Suc.IH)
  qed (rule probe_step_empty)
qed simp

lemma probe_present:
  assumes inv: "slots_inv S" "entries_inv S" and u: "length u \<le> kFNameMaxLength" and c: "cap_ok (length (PoolSlots S))"
    and i: "i < NextShardLocalId S" "ename S i = u"
    and at: "PoolSlots S ! pos h (length (PoolSlots S)) j = name_slot S i" "j < d + n" "d \<le> j"
    and full: "\<forall>m < j. occ (PoolSlots S ! pos h (length (PoolSlots S)) m)" and o: "occ (name_slot S i)"
  shows "ProbeFind S (Hash64_list u) u n (pos h (length (PoolSlots S)) d) = Inr (word_of_nat i)"
  using at(2,3)
proof (induction n arbitrary: d)
  case (Suc n)
  let ?k = "pos h (length (PoolSlots S)) d"
  have "occ (PoolSlots S ! ?k)" using full at(1) o Suc.prems by (cases "d = j") auto
  then have "PoolSlots S ! ?k \<in> stored (PoolSlots S)" using pos_less [OF c] by (simp add: stored_def)
  from probe_step [OF inv u this] obtain k where k: "k < NextShardLocalId S" "PoolSlots S ! ?k = name_slot S k"
    "ProbeFind S (Hash64_list u) u (Suc n) ?k =
       (if ename S k = u then Inr (word_of_nat k) else ProbeFind S (Hash64_list u) u n (probe_next ?k (length (PoolSlots S))))"
    by metis
  show ?case
  proof (cases "ename S k = u")
    case True
    then have "k = i" using inv(2) i k(1) by (auto simp: entries_inv_def inj_on_def)
    with k(3) True show ?thesis by simp
  next
    case False
    have "d \<noteq> j"
    proof
      assume "d = j"
      then have "name_slot S k = name_slot S i" using at(1) k(2) by simp
      moreover have "unat (word_of_nat k :: u32) = k" "unat (word_of_nat i :: u32) = i"
        using i(1) k(1) inv(1) by (simp_all add: slots_inv_def unat_of_nat)
      ultimately have "k = i" by (metis FNamePoolSlot.select_convs(2) name_slot_def)
      with False i(2) show False by simp
    qed
    with Suc.prems have "Suc d \<le> j" "j < Suc d + n" by auto
    with Suc.IH k(3) False show ?thesis by (simp only: probe_next_pos [OF c] if_False)
  qed
qed simp

lemma TryFindEntry_spec:
  assumes t: "table_inv S" and inv: "slots_inv S" "entries_inv S" and u: "length u \<le> kFNameMaxLength"
  shows "TryFindEntry S (Hash64_list u) u = Inr (case lookup S u of None \<Rightarrow> kEmptySlot | Some i \<Rightarrow> word_of_nat i)"
proof (cases "PoolSlots S = []")
  case True
  then have "lookup S u = None" using t by (simp add: lookup_None table_inv_def cap_ok_def)
  with True show ?thesis by (simp add: TryFindEntry_def)
next
  case False
  then have c: "cap_ok (length (PoolSlots S))" using t by (simp add: table_inv_def)
  show ?thesis
  proof (cases "lookup S u")
    case None
    then have "\<forall>i < NextShardLocalId S. ename S i \<noteq> u" by (simp add: lookup_None)
    with None False show ?thesis
      by (simp add: TryFindEntry_def probe_start_pos [OF c] probe_absent [OF inv u c])
  next
    case (Some i)
    then have i: "i < NextShardLocalId S" "ename S i = u" using lookup_Some [OF inv(2)] by auto
    then have s: "name_slot S i \<in> stored (PoolSlots S)" using inv(1) by (simp add: slots_inv_def)
    then have "located (PoolSlots S) (name_slot S i)" using t by (simp add: table_inv_def probed_def)
    moreover have "ByteHash (name_slot S i) = Hash64_list u" by (simp add: name_slot_def i(2))
    ultimately obtain j where "PoolSlots S ! pos (Hash64_list u) (length (PoolSlots S)) j = name_slot S i"
      "j < length (PoolSlots S)" "\<forall>m < j. occ (PoolSlots S ! pos (Hash64_list u) (length (PoolSlots S)) m)"
      by (auto simp: located_def)
    then have "ProbeFind S (Hash64_list u) u (length (PoolSlots S)) (pos (Hash64_list u) (length (PoolSlots S)) 0) = Inr (word_of_nat i)"
      using s by (intro probe_present [OF inv u c i]) (auto simp: stored_def)
    with Some False show ?thesis by (simp add: TryFindEntry_def probe_start_pos [OF c])
  qed
qed

section \<open>Insertion\<close>

text \<open>Before the slot is taken the table has been created or doubled if need be.\<close>

lemma FirstSlotTable_spec:
  assumes t: "table_inv S" and pre: "pre_ok Pre"
  obtains T Pre' where "FirstSlotTable Pre S = (S\<lparr>PoolSlots := T\<rparr>, Pre')" "pre_ok Pre'"
    "cap_ok (length T)" "256 \<le> length T" "4 * SlotCount S < 3 * length T" "probed T" "load T = SlotCount S"
    "stored T = stored (PoolSlots S)"
proof (cases "PoolSlots S = []")
  case True
  then have z: "SlotCount S = 0" "stored (PoolSlots S) = {}" using t by (simp_all add: table_inv_def load_def stored_def)
  have c: "cap_ok 256" unfolding cap_ok_def by (rule exI [of _ 8]) simp
  obtain Pre' where "FirstSlotTable Pre S = (S\<lparr>PoolSlots := NewSlotTable 256\<rparr>, Pre')" "pre_ok Pre'"
  proof (cases "SlotTableBuf Pre")
    case None
    with True z pre show ?thesis by (intro that [of Pre]) (simp_all add: FirstSlotTable_def kInitialSlotCapacity_def)
  next
    case (Some T)
    then have T: "T = NewSlotTable (length T)" using pre by (simp add: pre_ok_def)
    show ?thesis
    proof (cases "length T = 256")
      case True
      with T Some \<open>PoolSlots S = []\<close> z pre show ?thesis
        by (intro that [of "Pre\<lparr>SlotTableBuf := None\<rparr>"]) (auto simp: FirstSlotTable_def kInitialSlotCapacity_def pre_ok_def)
    next
      case False
      with Some \<open>PoolSlots S = []\<close> z pre show ?thesis
        by (intro that [of Pre]) (auto simp: FirstSlotTable_def kInitialSlotCapacity_def)
    qed
  qed
  with c z show ?thesis by (intro that [of "NewSlotTable 256" Pre']) simp_all
next
  case False
  have "S = S\<lparr>PoolSlots := PoolSlots S\<rparr>" by simp
  with False t pre show ?thesis by (intro that [of "PoolSlots S" Pre]) (auto simp: FirstSlotTable_def table_inv_def)
qed

lemma cap_double:
  assumes "cap_ok c" "c \<le> 2 ^ 61"
  shows "cap_ok (c * 2)" "c * 2 AND (c * 2 - 1) = 0"
proof -
  obtain k where k: "k \<le> 62" "c = 2 ^ k" using assms(1) by (auto simp: cap_ok_def)
  have "(2 :: nat) ^ k \<le> 2 ^ 61" using assms(2) k(2) by simp
  then have "k \<le> 61" by (rule power_le_imp_le_exp [rotated]) simp
  then show "cap_ok (c * 2)" using k(2) unfolding cap_ok_def by (intro exI [of _ "Suc k"]) simp
  have "c * 2 = 2 ^ Suc k" using k(2) by simp
  moreover have "(2 :: nat) ^ Suc k - 1 = mask (Suc k)" by (simp only: mask_eq_exp_minus_1)
  ultimately show "c * 2 AND (c * 2 - 1) = 0"
    by (metis take_bit_eq_mask take_bit_eq_mod mod_self)
qed

lemma GrowSlotTable_spec:
  assumes c: "cap_ok (length (PoolSlots S))" "256 \<le> length (PoolSlots S)" "4 * SlotCount S < 3 * length (PoolSlots S)"
    and p: "probed (PoolSlots S)" "load (PoolSlots S) = SlotCount S" and pre: "pre_ok Pre" and n: "SlotCount S \<le> 2 ^ 30"
    and high: "LoadTooHigh S"
  obtains T Pre' where "GrowSlotTable b Pre S = Inr (S\<lparr>PoolSlots := T\<rparr>, Pre')" "pre_ok Pre'"
    "cap_ok (length T)" "256 \<le> length T" "4 * (SlotCount S + 1) < 3 * length T" "probed T" "load T = SlotCount S"
    "stored T = stored (PoolSlots S)"
proof -
  let ?n = "length (PoolSlots S) * 2"
  have "length (PoolSlots S) \<le> 2 ^ 61"
    using high n by (simp add: LoadTooHigh_def kSlotLoadDenominator_def kSlotLoadNumerator_def)
  note d = cap_double [OF c(1) this]
  have ne: "length (PoolSlots S) \<noteq> 0" using c(2) by linarith
  define buf where "buf = (case SlotTableBuf Pre of
               Some T \<Rightarrow> if length T = ?n then (T, Pre\<lparr>SlotTableBuf := None\<rparr>) else (NewSlotTable ?n, Pre)
             | None \<Rightarrow> (NewSlotTable ?n, Pre))"
  have buf: "fst buf = NewSlotTable ?n" "pre_ok (snd buf)"
    using pre by (auto simp: buf_def pre_ok_def split: option.splits)
  have l: "load (NewSlotTable ?n) + load (PoolSlots S) < length (NewSlotTable ?n)" using c(2,3) p(2) by simp
  have cn: "cap_ok (length (NewSlotTable ?n))" using d(1) by simp
  obtain T where T: "fold_res RehashSlot (PoolSlots S) (NewSlotTable ?n) = Inr T" "length T = length (NewSlotTable ?n)"
    "probed T" "load T = load (NewSlotTable ?n) + load (PoolSlots S)" "stored T = stored (NewSlotTable ?n) \<union> stored (PoolSlots S)"
    by (rule rehash_spec [OF cn _ l]) (simp, rule that)
  have "GrowSlotTable b Pre S = Inr (S\<lparr>PoolSlots := T\<rparr>, snd buf)"
    using ne d(2) T(1) buf(1) by (simp add: GrowSlotTable_def Let_def buf_def [symmetric] split_beta)
  with buf(2) d(1) c T(2-5) p(2) show ?thesis by (intro that [of T "snd buf"]) simp_all
qed

lemma StoreEntry_spec:
  assumes n: "NewId \<le> length (EntryPointers S)" and pre: "pre_ok Pre"
  obtains Ps Pre' where "StoreEntry NewId p Pre S = Inr (S\<lparr>EntryPointers := Ps\<rparr>, Pre')" "pre_ok Pre'"
    "NewId < length Ps" "Ps ! NewId = Some p" "\<And>i. i < NewId \<Longrightarrow> Ps ! i = EntryPointers S ! i"
proof (cases "NewId \<ge> length (EntryPointers S)")
  case False
  with pre show ?thesis
    by (intro that [of "(EntryPointers S)[NewId := Some p]" Pre]) (auto simp: StoreEntry_def)
next
  case True
  let ?n = "length (EntryPointers S)"
  obtain Qs Pre' where g: "GrowEntryPointers Pre S = (S\<lparr>EntryPointers := EntryPointers S @ Qs\<rparr>, Pre')" "pre_ok Pre'" "Qs \<noteq> []"
  proof -
    define m where "m = (if ?n = 0 then 16 else ?n * 2)"
    have m: "?n < m" by (simp add: m_def)
    define buf where "buf = (case EntryPointerBuf Pre of
               Some T \<Rightarrow> if length T = m then (T, Pre\<lparr>EntryPointerBuf := None\<rparr>) else (replicate m None, Pre)
             | None \<Rightarrow> (replicate m None, Pre))"
    have "length (fst buf) = m" "pre_ok (snd buf)"
      using pre by (auto simp: buf_def pre_ok_def split: option.splits)
    moreover have "GrowEntryPointers Pre S = (S\<lparr>EntryPointers := EntryPointers S @ drop ?n (fst buf)\<rparr>, snd buf)"
      unfolding GrowEntryPointers_def Let_def m_def [symmetric] buf_def [symmetric] split_beta ..
    ultimately show ?thesis using m by (intro that) auto
  qed
  have "NewId = ?n" using True n by simp
  with g True show ?thesis
    by (intro that [of "(EntryPointers S @ Qs)[NewId := Some p]" Pre'])
      (auto simp: StoreEntry_def nth_list_update nth_append)
qed

text \<open>What a shard becomes when one more name gets an entry.\<close>

definition extends :: "FNamePoolShard \<Rightarrow> FNamePoolShard \<Rightarrow> bool" where
  "extends S S' \<longleftrightarrow> NextShardLocalId S \<le> NextShardLocalId S'
     \<and> (\<forall>i < NextShardLocalId S. eptr S' i = eptr S i \<and> ename S' i = ename S i)"

lemma extends_refl [simp]: "extends S S"
  by (simp add: extends_def)

lemma extends_trans: "extends S S' \<Longrightarrow> extends S' S'' \<Longrightarrow> extends S S''"
  by (auto simp: extends_def)

lemma InsertEntry_run:
  assumes inv: "shard_inv sid S" and pre: "pre_ok Pre" and u: "length u \<le> kFNameMaxLength"
    and room: "NextShardLocalId S < 16777216"
  obtains T Ps Bs w p Pre' where
    "InsertEntry b fresh h u Pre S = Inr (word_of_nat (NextShardLocalId S),
       S\<lparr>PoolSlots := T, SlotCount := SlotCount S + 1, EntryPointers := Ps,
         NextShardLocalId := NextShardLocalId S + 1, PoolBlocks := Bs, SaturationWarned := w\<rparr>, Pre')"
    "cap_ok (length T)" "256 \<le> length T" "4 * (SlotCount S + 1) < 3 * length T" "probed T" "load T = SlotCount S + 1"
    "stored T = insert \<lparr> ByteHash = h, ShardLocalId = word_of_nat (NextShardLocalId S) \<rparr> (stored (PoolSlots S))"
    "NextShardLocalId S < length Ps" "Ps ! NextShardLocalId S = Some p"
    "\<And>i. i < NextShardLocalId S \<Longrightarrow> Ps ! i = EntryPointers S ! i"
    "entry_at (S\<lparr>PoolBlocks := Bs\<rparr>) p (word_of_nat (NextShardLocalId S)) u" "blocks_ok (S\<lparr>PoolBlocks := Bs\<rparr>)"
    "\<And>q n v. entry_at S q n v \<Longrightarrow> entry_at (S\<lparr>PoolBlocks := Bs\<rparr>) q n v \<and> disjoint_entries q (length v) p (length u)"
proof -
  have t: "table_inv S" and e: "entries_inv S" and s: "SlotCount S \<le> 2 ^ 30"
    using inv by (simp_all add: shard_inv_def slots_inv_def)
  obtain T1 Pre1 where 1: "FirstSlotTable Pre S = (S\<lparr>PoolSlots := T1\<rparr>, Pre1)" "pre_ok Pre1"
    "cap_ok (length T1)" "256 \<le> length T1" "4 * SlotCount S < 3 * length T1" "probed T1" "load T1 = SlotCount S"
    "stored T1 = stored (PoolSlots S)"
    by (rule FirstSlotTable_spec [OF t pre]) (rule that)
  obtain T2 Pre2 where 2: "(if LoadTooHigh (S\<lparr>PoolSlots := T1\<rparr>) then GrowSlotTable b Pre1 (S\<lparr>PoolSlots := T1\<rparr>)
      else Inr (S\<lparr>PoolSlots := T1\<rparr>, Pre1)) = Inr (S\<lparr>PoolSlots := T2\<rparr>, Pre2)" "pre_ok Pre2"
    "cap_ok (length T2)" "256 \<le> length T2" "4 * (SlotCount S + 1) < 3 * length T2" "probed T2" "load T2 = SlotCount S"
    "stored T2 = stored (PoolSlots S)"
  proof (cases "LoadTooHigh (S\<lparr>PoolSlots := T1\<rparr>)")
    case True
    obtain T Pre' where "GrowSlotTable b Pre1 (S\<lparr>PoolSlots := T1\<rparr>) = Inr (S\<lparr>PoolSlots := T1, PoolSlots := T\<rparr>, Pre')" "pre_ok Pre'"
      "cap_ok (length T)" "256 \<le> length T" "4 * (SlotCount (S\<lparr>PoolSlots := T1\<rparr>) + 1) < 3 * length T" "probed T"
      "load T = SlotCount (S\<lparr>PoolSlots := T1\<rparr>)" "stored T = stored (PoolSlots (S\<lparr>PoolSlots := T1\<rparr>))"
      by (rule GrowSlotTable_spec [of "S\<lparr>PoolSlots := T1\<rparr>" Pre1 b]) (use 1 s True in \<open>simp_all add: that\<close>)
    with True 1(8) show ?thesis by (intro that [of T Pre']) simp_all
  next
    case False
    with 1 show ?thesis
      by (intro that [of T1 Pre1]) (simp_all add: LoadTooHigh_def kSlotLoadDenominator_def kSlotLoadNumerator_def)
  qed
  obtain w where w: "WarnSaturation b (S\<lparr>PoolSlots := T2\<rparr>) = S\<lparr>PoolSlots := T2, SaturationWarned := w\<rparr>"
  proof (cases "WarnSaturation b (S\<lparr>PoolSlots := T2\<rparr>) = S\<lparr>PoolSlots := T2\<rparr>")
    case True
    then show ?thesis by (intro that [of "SaturationWarned S"]) simp
  next
    case False
    then show ?thesis by (intro that [of True]) (simp add: WarnSaturation_def split: if_splits)
  qed
  let ?N = "NextShardLocalId S"
  let ?S4 = "S\<lparr>PoolSlots := T2, SaturationWarned := w, NextShardLocalId := ?N + 1\<rparr>"
  have ea: "entry_at (S\<lparr>PoolSlots := T2, SaturationWarned := w, NextShardLocalId := ?N + 1, PoolBlocks := Bs\<rparr>) q n v
      = entry_at (S\<lparr>PoolBlocks := Bs\<rparr>) q n v" for Bs q n v
    by (simp add: entry_at_def arena_of_def)
  have ea0: "entry_at ?S4 q n v = entry_at S q n v" for q n v by (simp add: entry_at_def arena_of_def)
  have "blocks_ok ?S4" using e by (simp add: entries_inv_def blocks_ok_def)
  then obtain p Bs Pre3 where 3: "AllocateEntryInPool b fresh (word_of_nat ?N) u Pre2 ?S4 = Inr (p, ?S4\<lparr>PoolBlocks := Bs\<rparr>, Pre3)" "pre_ok Pre3"
    "entry_at (?S4\<lparr>PoolBlocks := Bs\<rparr>) p (word_of_nat ?N) u" "blocks_ok (?S4\<lparr>PoolBlocks := Bs\<rparr>)"
    "\<And>q n v. entry_at ?S4 q n v \<Longrightarrow> entry_at (?S4\<lparr>PoolBlocks := Bs\<rparr>) q n v \<and> disjoint_entries q (length v) p (length u)"
    by (rule AllocateEntryInPool_spec [OF _ u 2(2), of ?S4]) (rule that)
  let ?S5 = "?S4\<lparr>PoolBlocks := Bs\<rparr>"
  have "?N \<le> length (EntryPointers ?S5)" using e by (simp add: entries_inv_def)
  then obtain Ps Pre4 where 4: "StoreEntry ?N p Pre3 ?S5 = Inr (?S5\<lparr>EntryPointers := Ps\<rparr>, Pre4)" "pre_ok Pre4"
    "?N < length Ps" "Ps ! ?N = Some p" "\<And>i. i < ?N \<Longrightarrow> Ps ! i = EntryPointers ?S5 ! i"
    by (rule StoreEntry_spec [OF _ 3(2)]) (rule that)
  have id: "(word_of_nat ?N :: u32) \<noteq> kEmptySlot"
  proof
    assume "(word_of_nat ?N :: u32) = kEmptySlot"
    then have "unat (word_of_nat ?N :: u32) = unat kEmptySlot" by simp
    then show False using room by (simp add: unat_of_nat kEmptySlot_def)
  qed
  obtain T where T: "PutSlot h (word_of_nat ?N) T2 = Inr T" "length T = length T2" "probed T" "load T = load T2 + 1"
    "stored T = insert \<lparr> ByteHash = h, ShardLocalId = word_of_nat ?N \<rparr> (stored T2)"
    using PutSlot_spec [OF 2(3,6) _ id, of h thesis] 2(5,7) by auto
  have "InsertEntry b fresh h u Pre S = Inr (word_of_nat ?N,
       S\<lparr>PoolSlots := T, SlotCount := SlotCount S + 1, EntryPointers := Ps,
         NextShardLocalId := ?N + 1, PoolBlocks := Bs, SaturationWarned := w\<rparr>, Pre4)"
    using room by (simp add: InsertEntry_def 1(1) 2(1) w 3(1) [simplified] 4(1) [simplified] T(1) kMaxShardLocalEntries_def Let_def)
  moreover have "entry_at S q n v \<Longrightarrow> entry_at (S\<lparr>PoolBlocks := Bs\<rparr>) q n v \<and> disjoint_entries q (length v) p (length u)" for q n v
    using 3(5) [of q n v] unfolding ea ea0 .
  moreover have "entry_at (S\<lparr>PoolBlocks := Bs\<rparr>) p (word_of_nat ?N) u" using 3(3) unfolding ea .
  moreover have "blocks_ok (S\<lparr>PoolBlocks := Bs\<rparr>)" using 3(4) by (simp add: blocks_ok_def)
  ultimately show ?thesis
    by (intro that [where T = T and Ps = Ps and Bs = Bs and w = w and Pre' = Pre4 and p = p]) (use 2 4 T in simp_all)
qed

lemma disjoint_sym: "disjoint_entries p m q n \<longleftrightarrow> disjoint_entries q n p m"
  by (auto simp: disjoint_entries_def)

lemma entry_at_blocks: "PoolBlocks S' = PoolBlocks S \<Longrightarrow> entry_at S' p i u = entry_at S p i u"
  by (simp add: entry_at_def arena_of_def)

text \<open>The shard's invariant after an entry for a new name has been added at the next number.\<close>

lemma insert_inv:
  assumes inv: "shard_inv sid S" and u: "length u \<le> kFNameMaxLength" "u \<noteq> []" and new: "lookup S u = None"
    and home: "GetShardIdFromHash (Hash64_list u) = sid" "sid = 0 \<Longrightarrow> 0 < NextShardLocalId S"
    and room: "NextShardLocalId S < 16777216" and pre: "pre_ok Pre"
  obtains S' Pre' where "InsertEntry b fresh (Hash64_list u) u Pre S = Inr (word_of_nat (NextShardLocalId S), S', Pre')"
    "shard_inv sid S'" "extends S S'" "NextShardLocalId S' = NextShardLocalId S + 1" "ename S' (NextShardLocalId S) = u"
    "SlotCount S' = SlotCount S + 1"
proof -
  let ?N = "NextShardLocalId S"
  from InsertEntry_run [OF inv pre u(1) room] obtain T Ps Bs w p Pre' where r:
    "InsertEntry b fresh (Hash64_list u) u Pre S = Inr (word_of_nat ?N,
       S\<lparr>PoolSlots := T, SlotCount := SlotCount S + 1, EntryPointers := Ps,
         NextShardLocalId := ?N + 1, PoolBlocks := Bs, SaturationWarned := w\<rparr>, Pre')"
    "cap_ok (length T)" "256 \<le> length T" "4 * (SlotCount S + 1) < 3 * length T" "probed T" "load T = SlotCount S + 1"
    "stored T = insert \<lparr> ByteHash = Hash64_list u, ShardLocalId = word_of_nat ?N \<rparr> (stored (PoolSlots S))"
    "?N < length Ps" "Ps ! ?N = Some p" "\<And>i. i < ?N \<Longrightarrow> Ps ! i = EntryPointers S ! i"
    "entry_at (S\<lparr>PoolBlocks := Bs\<rparr>) p (word_of_nat ?N) u" "blocks_ok (S\<lparr>PoolBlocks := Bs\<rparr>)"
    "\<And>q n v. entry_at S q n v \<Longrightarrow> entry_at (S\<lparr>PoolBlocks := Bs\<rparr>) q n v \<and> disjoint_entries q (length v) p (length u)"
    by metis
  define S' where "S' = S\<lparr>PoolSlots := T, SlotCount := SlotCount S + 1, EntryPointers := Ps,
         NextShardLocalId := ?N + 1, PoolBlocks := Bs, SaturationWarned := w\<rparr>"
  note parts = inv [unfolded shard_inv_def]
  have e: "entries_inv S" using parts by blast
  have ea: "entry_at S' q n v = entry_at (S\<lparr>PoolBlocks := Bs\<rparr>) q n v" for q n v
    by (rule entry_at_blocks) (simp add: S'_def)
  have new_ptr: "eptr S' ?N = p" and new_name: "ename S' ?N = u"
  proof -
    have "pname S' p = u" using r(11) u(1) by (intro pname_entry) (simp_all only: ea)
    moreover have "EntryPointers S' ! ?N = Some p" using r(9) by (simp add: S'_def)
    ultimately show "eptr S' ?N = p" "ename S' ?N = u" by (simp_all add: eptr_def ename_def)
  qed
  have old: "eptr S' i = eptr S i" "ename S' i = ename S i" "EntryPointers S' ! i = EntryPointers S ! i"
    "entry_at S' (eptr S i) (word_of_nat i) (ename S i)" "disjoint_entries (eptr S i) (length (ename S i)) p (length u)"
    if "i < ?N" for i
  proof -
    note k = entry_name_known [OF e that]
    show "EntryPointers S' ! i = EntryPointers S ! i" using r(10) [OF that] by (simp add: S'_def)
    then show "eptr S' i = eptr S i" by (simp add: eptr_def)
    show at: "entry_at S' (eptr S i) (word_of_nat i) (ename S i)" "disjoint_entries (eptr S i) (length (ename S i)) p (length u)"
      using r(13) [OF k(3)] by (simp_all add: ea)
    show "ename S' i = ename S i"
      using pname_entry [OF at(1) k(4)] k(1) \<open>EntryPointers S' ! i = EntryPointers S ! i\<close> by (simp add: ename_def)
  qed
  have N': "NextShardLocalId S' = ?N + 1" by (simp add: S'_def)
  have names: "ename S' i = (if i = ?N then u else ename S i)" "eptr S' i = (if i = ?N then p else eptr S i)"
    if "i < ?N + 1" for i using that old new_name new_ptr by (auto simp: less_Suc_eq)
  have "table_inv S'" using r(2-6) by (simp add: table_inv_def S'_def)
  moreover have "slots_inv S'"
  proof -
    have "name_slot S' ` {..< ?N} = name_slot S ` {..< ?N}" by (rule image_cong) (auto simp: name_slot_def old)
    moreover have "name_slot S' ?N = \<lparr> ByteHash = Hash64_list u, ShardLocalId = word_of_nat ?N \<rparr>"
      by (simp add: name_slot_def new_name)
    ultimately have "stored T = name_slot S' ` {..< ?N + 1}"
      using parts r(7) by (simp add: slots_inv_def lessThan_Suc)
    then show ?thesis using parts room by (simp add: slots_inv_def S'_def)
  qed
  moreover have "entries_inv S'"
  proof -
    have "inj_on (ename S') {..< ?N + 1}"
    proof -
      have "inj_on (ename S') {..< ?N}" using e old(2) by (auto simp: entries_inv_def inj_on_def)
      then show ?thesis using new old(2) new_name by (auto simp: lessThan_Suc lookup_None inj_on_def)
    qed
    moreover have "blocks_ok S'" using r(12) by (simp add: blocks_ok_def S'_def)
    moreover have "?N + 1 \<le> length (EntryPointers S')" using r(8) by (simp add: S'_def)
    moreover have "EntryPointers S' ! i \<noteq> None \<and> entry_at S' (eptr S' i) (word_of_nat i) (ename S' i)
        \<and> length (ename S' i) \<le> kFNameMaxLength" if "i < ?N + 1" for i
    proof (cases "i = ?N")
      case True
      then show ?thesis using r(9,11) u(1) new_name new_ptr by (simp add: ea) (simp add: S'_def)
    next
      case False
      then have "i < ?N" using that by simp
      then show ?thesis using old entry_name_known [OF e \<open>i < ?N\<close>] by simp
    qed
    moreover have "disjoint_entries (eptr S' i) (length (ename S' i)) (eptr S' j) (length (ename S' j))"
      if "i < ?N + 1" "j < ?N + 1" "i \<noteq> j" for i j
      using that old(5) e unfolding names [OF that(1)] names [OF that(2)]
      by (auto simp: entries_inv_def less_Suc_eq disjoint_sym [of p])
    ultimately show ?thesis unfolding entries_inv_def N' by blast
  qed
  moreover have "home_inv sid S'"
    unfolding home_inv_def N'
  proof (intro allI impI)
    fix i assume i: "i < ?N + 1"
    show "if sid = 0 \<and> i = 0 then ename S' i = NoneStr
      else GetShardIdFromHash (Hash64_list (ename S' i)) = sid \<and> ename S' i \<noteq> []"
    proof (cases "i = ?N")
      case True
      then show ?thesis using home u(2) new_name by auto
    next
      case False
      then have "i < ?N" using i by simp
      then show ?thesis using parts old(2) by (simp add: home_inv_def)
    qed
  qed
  ultimately have "shard_inv sid S'" by (simp add: shard_inv_def)
  moreover have "extends S S'" using old N' by (simp add: extends_def)
  ultimately show ?thesis
    using r(1) N' new_name by (intro that [of S' Pre']) (simp_all add: S'_def)
qed

lemma Predict_pre_ok: "pre_ok (PredictInsertPreAlloc fresh n S)"
  by (auto simp: pre_ok_def PredictInsertPreAlloc_def NewBlock_def)

lemma no_prealloc_ok [simp]: "pre_ok no_prealloc"
  by (simp add: pre_ok_def no_prealloc_def)

text \<open>The exclusive region of \<open>Intern\<close>, with whatever was predicted for it.\<close>

lemma InternWrite_spec:
  assumes inv: "shard_inv sid S" and u: "length u \<le> kFNameMaxLength" "u \<noteq> []"
    and home: "GetShardIdFromHash (Hash64_list u) = sid" "sid = 0 \<Longrightarrow> 0 < NextShardLocalId S"
    and room: "NextShardLocalId S < 16777216" and pre: "pre_ok Pre"
  obtains i S' where "InternWrite b fresh (Hash64_list u) u Pre S = Inr (word_of_nat i, S')" "shard_inv sid S'" "extends S S'"
    "i < NextShardLocalId S'" "ename S' i = u" "NextShardLocalId S' \<le> NextShardLocalId S + 1"
proof -
  note parts = inv [unfolded shard_inv_def]
  have f: "TryFindEntry S (Hash64_list u) u = Inr (case lookup S u of None \<Rightarrow> kEmptySlot | Some i \<Rightarrow> word_of_nat i)"
    using parts u(1) by (simp add: TryFindEntry_spec)
  show ?thesis
  proof (cases "lookup S u")
    case None
    obtain S' Pre' where I: "InsertEntry b fresh (Hash64_list u) u Pre S = Inr (word_of_nat (NextShardLocalId S), S', Pre')"
      "shard_inv sid S'" "extends S S'" "NextShardLocalId S' = NextShardLocalId S + 1" "ename S' (NextShardLocalId S) = u"
      by (rule insert_inv [OF inv u None home room pre, of b fresh]) (simp, rule that)
    then show ?thesis using f None by (intro that [of "NextShardLocalId S" S']) (simp_all add: InternWrite_def)
  next
    case (Some i)
    then have i: "i < NextShardLocalId S" "ename S i = u" using lookup_Some parts by auto
    have "(word_of_nat i :: u32) \<noteq> kEmptySlot"
    proof
      assume "(word_of_nat i :: u32) = kEmptySlot"
      then have "unat (word_of_nat i :: u32) = unat kEmptySlot" by simp
      then show False using i(1) room by (simp add: unat_of_nat kEmptySlot_def)
    qed
    with f Some i inv show ?thesis by (intro that [of i S]) (simp_all add: InternWrite_def)
  qed
qed

end
