(* ===== verification/NamePoolInv.thy ===== *)
theory NamePoolInv
  imports NameShard
begin

text \<open>
  The intern table as a whole: the invariant of the pool, \<open>Intern\<close> by one caller, and any number
  of threads that intern names at once.  A step of a thread is one region under a shard's lock
  (or one access to the flag \<open>m_isInitialised\<close>); a schedule is the list of the threads that take
  the next step.
\<close>

section \<open>Indices\<close>

lemma MakeIndex_decode:
  assumes "i < 16777216"
  shows "GetShardIdFromIndex (MakeIndex sid (word_of_nat i)) = sid"
    "unat (GetShardLocalIdFromIndex (MakeIndex sid (word_of_nat i))) = i"
    "MakeIndex sid (word_of_nat i) = kNoneIndex \<longleftrightarrow> sid = 0 \<and> i = 0"
proof -
  have m: "kShardLocalIdMask = mask 24" by (simp add: kShardLocalIdMask_def kShardIdShift_def mask_eq_exp_minus_1 push_bit_eq_mult)
  let ?x = "MakeIndex sid (word_of_nat i)"
  have x: "?x = push_bit 24 (ucast sid) OR take_bit 24 (word_of_nat i)"
    by (simp add: MakeIndex_def m kShardIdShift_def take_bit_eq_mask)
  show s: "GetShardIdFromIndex ?x = sid"
    unfolding GetShardIdFromIndex_def x kShardIdShift_def by (rule bit_word_eqI) (auto simp: bit_simps)
  have "GetShardLocalIdFromIndex ?x = take_bit 24 (word_of_nat i)"
    unfolding GetShardLocalIdFromIndex_def x m take_bit_eq_mask [symmetric] by (rule bit_word_eqI) (auto simp: bit_simps)
  also have "\<dots> = (word_of_nat i :: u32)"
  proof -
    have "unat (take_bit 24 (word_of_nat i :: u32)) = unat (word_of_nat i :: u32)"
      unfolding unsigned_take_bit_eq by (rule take_bit_nat_eq_self) (use assms in \<open>simp add: unat_of_nat\<close>)
    then show ?thesis by (simp only: word_unat_eq_iff)
  qed
  finally have l: "GetShardLocalIdFromIndex ?x = word_of_nat i" .
  then show u: "unat (GetShardLocalIdFromIndex ?x) = i" using assms by (simp add: unat_of_nat)
  show "?x = kNoneIndex \<longleftrightarrow> sid = 0 \<and> i = 0"
  proof
    assume "?x = kNoneIndex"
    with s u show "sid = 0 \<and> i = 0"
      by (auto simp: kNoneIndex_def GetShardIdFromIndex_def GetShardLocalIdFromIndex_def)
  qed (simp add: MakeIndex_def kNoneIndex_def)
qed

lemma Hash_None: "Hash64_list NoneStr = 0x715EA0DEB6F6F5F9"
  by code_simp

lemma shard_of_None: "GetShardIdFromHash (Hash64_list NoneStr) = 0x71"
  unfolding Hash_None by code_simp

section \<open>The invariant of the pool\<close>

definition pool_inv :: "FNamePool \<Rightarrow> bool" where
  "pool_inv P \<longleftrightarrow> length (m_shards P) = kShardCount \<and> (\<forall>sid. shard_inv sid (get_shard P sid))
     \<and> (m_isInitialised P \<longrightarrow> 0 < NextShardLocalId (get_shard P 0))
     \<and> (0 < NextShardLocalId (get_shard P 0) \<longrightarrow> m_noneEntry P = Some (eptr (get_shard P 0) 0))"

definition untouched :: "FNamePool \<Rightarrow> bool" where
  "untouched P \<longleftrightarrow> \<not> m_isInitialised P \<and> NextShardLocalId (get_shard P 0) \<le> 1
     \<and> (\<forall>sid. sid \<noteq> 0 \<longrightarrow> get_shard P sid = Shard_ctor)"

lemma unat_u8: "unat (sid :: u8) < 256"
  using unsigned_less [of sid] by simp

lemma get_set_shard:
  assumes "length (m_shards P) = kShardCount"
  shows "get_shard (set_shard sid S P) sid' = (if sid' = sid then S else get_shard P sid')"
  using assms unat_u8 [of sid]
  by (auto simp: get_shard_def set_shard_def kShardCount_def nth_list_update word_unat_eq_iff)

lemma set_shard_sel [simp]:
  "length (m_shards (set_shard sid S P)) = length (m_shards P)"
  "m_isInitialised (set_shard sid S P) = m_isInitialised P"
  "m_noneEntry (set_shard sid S P) = m_noneEntry P"
  by (simp_all add: set_shard_def)

lemma pool_ctor_shard: "get_shard FNamePool_ctor sid = Shard_ctor"
  using unat_u8 [of sid] by (simp add: get_shard_def FNamePool_ctor_def kShardCount_def)

lemma pool_ctor_inv: "pool_inv FNamePool_ctor" "untouched FNamePool_ctor"
proof -
  have "length (m_shards FNamePool_ctor) = kShardCount" "\<not> m_isInitialised FNamePool_ctor"
    by (simp_all add: FNamePool_ctor_def)
  moreover have "NextShardLocalId Shard_ctor = 0" by (simp add: Shard_ctor_def)
  ultimately show "pool_inv FNamePool_ctor" "untouched FNamePool_ctor"
    by (simp_all add: pool_inv_def untouched_def pool_ctor_shard shard_ctor_inv)
qed

text \<open>An index resolves to a name: the entry exists, in the shard the name's hash selects.\<close>

definition resolves :: "FNamePool \<Rightarrow> u32 \<Rightarrow> u8 list \<Rightarrow> bool" where
  "resolves P Index u \<longleftrightarrow> u \<noteq> [] \<and> (\<exists>i. Index = MakeIndex (GetShardIdFromHash (Hash64_list u)) (word_of_nat i)
     \<and> i < NextShardLocalId (get_shard P (GetShardIdFromHash (Hash64_list u)))
     \<and> ename (get_shard P (GetShardIdFromHash (Hash64_list u))) i = u)"

definition pool_extends :: "FNamePool \<Rightarrow> FNamePool \<Rightarrow> bool" where
  "pool_extends P P' \<longleftrightarrow> (m_isInitialised P \<longrightarrow> m_isInitialised P')
     \<and> (\<forall>sid. extends (get_shard P sid) (get_shard P' sid)) \<and> (m_isInitialised P \<longrightarrow> m_noneEntry P' = m_noneEntry P)"

lemma pool_extends_refl [simp]: "pool_extends P P"
  by (simp add: pool_extends_def)

lemma pool_extends_trans: "pool_extends P P' \<Longrightarrow> pool_extends P' P'' \<Longrightarrow> pool_extends P P''"
  unfolding pool_extends_def by (auto intro: extends_trans)

lemma resolves_extends: "resolves P n u \<Longrightarrow> pool_extends P P' \<Longrightarrow> resolves P' n u"
proof -
  assume r: "resolves P n u" and e: "pool_extends P P'"
  let ?s = "GetShardIdFromHash (Hash64_list u)"
  obtain i where "u \<noteq> []" "n = MakeIndex ?s (word_of_nat i)" "i < NextShardLocalId (get_shard P ?s)" "ename (get_shard P ?s) i = u"
    using r by (auto simp: resolves_def)
  moreover have "extends (get_shard P ?s) (get_shard P' ?s)" using e by (simp add: pool_extends_def)
  ultimately show ?thesis unfolding resolves_def extends_def by (intro conjI exI [of _ i]) auto
qed

lemma resolves_bound: "pool_inv P \<Longrightarrow> i < NextShardLocalId (get_shard P sid) \<Longrightarrow> i < 16777216"
  by (auto simp: pool_inv_def shard_inv_def slots_inv_def dest!: spec [of _ sid])

text \<open>Equal indices are equal names.\<close>

lemma resolves_inj:
  assumes inv: "pool_inv P" and r: "resolves P n u" "resolves P m v"
  shows "n = m \<longleftrightarrow> u = v"
proof -
  obtain i where i: "n = MakeIndex (GetShardIdFromHash (Hash64_list u)) (word_of_nat i)"
    "i < NextShardLocalId (get_shard P (GetShardIdFromHash (Hash64_list u)))"
    "ename (get_shard P (GetShardIdFromHash (Hash64_list u))) i = u"
    using r(1) by (auto simp: resolves_def)
  obtain j where j: "m = MakeIndex (GetShardIdFromHash (Hash64_list v)) (word_of_nat j)"
    "j < NextShardLocalId (get_shard P (GetShardIdFromHash (Hash64_list v)))"
    "ename (get_shard P (GetShardIdFromHash (Hash64_list v))) j = v"
    using r(2) by (auto simp: resolves_def)
  note di = MakeIndex_decode(1,2) [OF resolves_bound [OF inv i(2)]]
  note dj = MakeIndex_decode(1,2) [OF resolves_bound [OF inv j(2)]]
  show ?thesis
  proof
    assume "n = m"
    with i(1) j(1) di dj have "GetShardIdFromHash (Hash64_list u) = GetShardIdFromHash (Hash64_list v)" "i = j"
      by metis+
    with i(3) j(3) show "u = v" by metis
  next
    assume e: "u = v"
    have "inj_on (ename (get_shard P (GetShardIdFromHash (Hash64_list u)))) {..< NextShardLocalId (get_shard P (GetShardIdFromHash (Hash64_list u)))}"
      using inv by (simp add: pool_inv_def shard_inv_def entries_inv_def)
    then have "i = j" using e i(2,3) j(2,3) by (simp add: inj_on_def)
    with e i(1) j(1) show "n = m" by simp
  qed
qed

text \<open>No name gets the index of \<open>NAME_None\<close>: the name \<open>None\<close> hashes to shard 113.\<close>

lemma resolves_not_none:
  assumes inv: "pool_inv P" and r: "resolves P n u"
  shows "n \<noteq> kNoneIndex"
proof
  assume z: "n = kNoneIndex"
  obtain i where i: "n = MakeIndex (GetShardIdFromHash (Hash64_list u)) (word_of_nat i)"
    "i < NextShardLocalId (get_shard P (GetShardIdFromHash (Hash64_list u)))"
    "ename (get_shard P (GetShardIdFromHash (Hash64_list u))) i = u"
    using r by (auto simp: resolves_def)
  have s: "GetShardIdFromHash (Hash64_list u) = 0 \<and> i = 0"
    using MakeIndex_decode(3) [OF resolves_bound [OF inv i(2)]] i(1) z by metis
  have "home_inv 0 (get_shard P 0)" using inv by (simp add: pool_inv_def shard_inv_def)
  then have "ename (get_shard P 0) 0 = NoneStr" using i(2) s by (simp add: home_inv_def)
  then have "u = NoneStr" using i(3) s by simp
  then show False using s shard_of_None by simp
qed

text \<open>What \<open>FindEntry\<close> answers.\<close>

lemma FindEntry_index:
  assumes inv: "pool_inv P" "m_isInitialised P" and i: "i < NextShardLocalId (get_shard P sid)"
  shows "FindEntry b fresh (MakeIndex sid (word_of_nat i)) P = Inr (Some (sid, eptr (get_shard P sid) i), P)"
    "entry_name P (sid, eptr (get_shard P sid) i) = ename (get_shard P sid) i"
proof -
  note d = MakeIndex_decode [OF resolves_bound [OF inv(1) i]]
  have "entries_inv (get_shard P sid)" using inv(1) by (simp add: pool_inv_def shard_inv_def)
  note k = entry_name_known [OF this i]
  have ne: "EntryPointers (get_shard P sid) \<noteq> []" using k(5) by auto
  show "FindEntry b fresh (MakeIndex sid (word_of_nat i)) P = Inr (Some (sid, eptr (get_shard P sid) i), P)"
  proof (cases "sid = 0 \<and> i = 0")
    case True
    then have "MakeIndex sid (word_of_nat i) = kNoneIndex" using d(3) by blast
    moreover have "m_noneEntry P = Some (eptr (get_shard P 0) 0)" using inv by (simp add: pool_inv_def)
    ultimately show ?thesis using True inv(2) by (simp add: FindEntry_def)
  next
    case False
    with d inv(2) i k ne show ?thesis by (auto simp: FindEntry_def)
  qed
  show "entry_name P (sid, eptr (get_shard P sid) i) = ename (get_shard P sid) i"
    using k(2) by (simp add: entry_name_def pname_def Let_def)
qed

lemma none_name: "pool_inv P \<Longrightarrow> m_isInitialised P \<Longrightarrow> ename (get_shard P 0) 0 = NoneStr"
  by (auto simp: pool_inv_def shard_inv_def home_inv_def)

section \<open>Initialisation\<close>

text \<open>
  The region of \<open>Init\<close> under the lock of shard 0.  Until the flag is published it can run again,
  and then takes one more slot for the same entry number.
\<close>

lemma InitLocked_spec:
  assumes inv: "pool_inv P" "untouched P" and n: "SlotCount (get_shard P 0) \<le> 190"
  obtains P' where "InitLocked b fresh P = Inr P'" "pool_inv P'" "untouched P'"
    "NextShardLocalId (get_shard P' 0) = 1" "SlotCount (get_shard P' 0) = SlotCount (get_shard P 0) + 1"
    "\<And>sid. extends (get_shard P sid) (get_shard P' sid) \<or> sid = 0"
proof -
  let ?S = "get_shard P 0"
  have len: "length (m_shards P) = kShardCount" using inv(1) by (simp add: pool_inv_def)
  note g = get_set_shard [OF len]
  have s: "shard_inv 0 ?S" "NextShardLocalId ?S \<le> 1" using inv by (simp_all add: pool_inv_def untouched_def)
  then have parts: "table_inv ?S" "slots_inv ?S" "entries_inv ?S" "home_inv 0 ?S" by (simp_all add: shard_inv_def)
  have lNone: "length NoneStr \<le> kFNameMaxLength" by (simp add: NoneStr_def kFNameMaxLength_def)
  have b: "blocks_ok ?S" using parts(3) by (simp add: entries_inv_def)
  obtain p Bs Pre where a: "AllocateEntryInPool b fresh 0 NoneStr no_prealloc ?S = Inr (p, ?S\<lparr>PoolBlocks := Bs\<rparr>, Pre)"
    "entry_at (?S\<lparr>PoolBlocks := Bs\<rparr>) p 0 NoneStr" "blocks_ok (?S\<lparr>PoolBlocks := Bs\<rparr>)"
    by (rule AllocateEntryInPool_spec [OF b lNone no_prealloc_ok, of b fresh 0]) (rule that)
  define T0 where "T0 = (if PoolSlots ?S = [] then NewSlotTable 256 else PoolSlots ?S)"
  have T0: "cap_ok (length T0)" "256 \<le> length T0" "probed T0" "load T0 = SlotCount ?S" "load T0 < length T0"
    "stored T0 = stored (PoolSlots ?S)" "4 * (SlotCount ?S + 1) < 3 * length T0"
  proof -
    have c: "cap_ok 256" unfolding cap_ok_def by (rule exI [of _ 8]) simp
    have z: "SlotCount ?S = 0 \<and> stored (PoolSlots ?S) = {}" if "PoolSlots ?S = []"
      using that parts(1) by (auto simp: table_inv_def load_def stored_def)
    show "cap_ok (length T0)" "256 \<le> length T0" "probed T0" "load T0 = SlotCount ?S"
      "stored T0 = stored (PoolSlots ?S)"
      using c z parts(1) by (auto simp: T0_def table_inv_def)
    then show "load T0 < length T0" "4 * (SlotCount ?S + 1) < 3 * length T0" using n by simp_all
  qed
  have zero: "(0 :: u32) \<noteq> kEmptySlot" by (simp add: kEmptySlot_def)
  obtain T where T: "PutSlot (Hash64_list NoneStr) 0 T0 = Inr T" "length T = length T0" "probed T" "load T = load T0 + 1"
    "stored T = insert \<lparr> ByteHash = Hash64_list NoneStr, ShardLocalId = 0 \<rparr> (stored T0)"
    by (rule PutSlot_spec [OF T0(1,3,5) zero, of "Hash64_list NoneStr"]) (rule that)
  define Ps where "Ps = (if EntryPointers ?S = [] then replicate 16 None else EntryPointers ?S)"
  define S' where "S' = ?S\<lparr>PoolBlocks := Bs, PoolSlots := T, SlotCount := SlotCount ?S + 1,
      EntryPointers := Ps[0 := Some p], NextShardLocalId := 1\<rparr>"
  have Ps: "Ps \<noteq> []" by (simp add: Ps_def)
  define P' where "P' = set_shard 0 S' (P\<lparr>m_noneEntry := Some p\<rparr>)"
  have run: "InitLocked b fresh P = Inr P'"
  proof -
    have 1: "(if length (PoolSlots (?S\<lparr>PoolBlocks := Bs\<rparr>)) = 0
          then ?S\<lparr>PoolBlocks := Bs, PoolSlots := NewSlotTable kInitialSlotCapacity, SlotCount := 0\<rparr>
          else ?S\<lparr>PoolBlocks := Bs\<rparr>) = ?S\<lparr>PoolBlocks := Bs, PoolSlots := T0\<rparr>"
      using parts(1) by (auto simp: T0_def kInitialSlotCapacity_def table_inv_def load_def)
    show ?thesis
      using inv(2) a(1) T(1) Ps
      by (simp add: InitLocked_def untouched_def 1 [simplified] Let_def P'_def S'_def in_range_def Ps_def)
  qed
  have gs: "get_shard P' sid = (if sid = 0 then S' else get_shard P sid)" for sid
    using g [of 0 S' sid] by (simp add: P'_def get_shard_def set_shard_def)
  have ea: "entry_at S' q i u = entry_at (?S\<lparr>PoolBlocks := Bs\<rparr>) q i u" for q i u
    by (rule entry_at_blocks) (simp add: S'_def)
  have nm: "eptr S' 0 = p" "ename S' 0 = NoneStr" "EntryPointers S' ! 0 = Some p"
  proof -
    show e: "EntryPointers S' ! 0 = Some p" using Ps by (simp add: S'_def)
    have "pname S' p = NoneStr" using a(2) lNone by (intro pname_entry) (simp_all only: ea)
    with e show "eptr S' 0 = p" "ename S' 0 = NoneStr" by (simp_all add: eptr_def ename_def)
  qed
  have N1: "NextShardLocalId S' = 1" by (simp add: S'_def)
  have ti: "table_inv S'" using T T0 by (simp add: table_inv_def S'_def)
  have si: "slots_inv S'"
  proof -
    have "stored T0 \<subseteq> {\<lparr> ByteHash = Hash64_list NoneStr, ShardLocalId = 0 \<rparr>}"
    proof
      fix x assume "x \<in> stored T0"
      then obtain i where i: "i < NextShardLocalId ?S" "x = name_slot ?S i" using parts(2) T0(6) by (auto simp: slots_inv_def)
      then have "i = 0" using s(2) by simp
      with i parts(4) show "x \<in> {\<lparr> ByteHash = Hash64_list NoneStr, ShardLocalId = 0 \<rparr>}"
        by (auto simp: home_inv_def name_slot_def)
    qed
    then have "stored T = name_slot S' ` {..< 1}" using T(5) nm by (auto simp: name_slot_def)
    then show ?thesis using n N1 unfolding slots_inv_def by (simp add: S'_def)
  qed
  have ei: "entries_inv S'"
  proof -
    have "blocks_ok S'" using a(3) by (simp add: blocks_ok_def S'_def)
    moreover have "1 \<le> length (EntryPointers S')" using Ps by (simp add: S'_def Suc_le_eq)
    moreover have "entry_at S' p 0 NoneStr" using a(2) by (simp only: ea)
    ultimately show ?thesis using nm lNone unfolding entries_inv_def N1 by (simp add: inj_on_def)
  qed
  have hi: "home_inv 0 S'" using nm by (simp add: home_inv_def N1)
  have "pool_inv P'"
    using inv(1) ti si ei hi nm(1) N1
    by (auto simp: pool_inv_def gs shard_inv_def) (simp_all add: P'_def)
  moreover have "untouched P'" using inv(2) N1 unfolding untouched_def gs by (auto simp: P'_def)
  ultimately show ?thesis
    using run N1 by (intro that [of P']) (auto simp: gs S'_def)
qed

lemma PublishInit_spec:
  assumes "pool_inv P" "0 < NextShardLocalId (get_shard P 0)"
  shows "pool_inv (PublishInit P)" "m_isInitialised (PublishInit P)" "get_shard (PublishInit P) sid = get_shard P sid"
  using assms by (simp_all add: PublishInit_def pool_inv_def get_shard_def)

lemma Init_spec:
  assumes inv: "pool_inv P" "m_isInitialised P \<or> untouched P \<and> SlotCount (get_shard P 0) \<le> 190"
  obtains P' where "Init b fresh P = Inr P'" "pool_inv P'" "m_isInitialised P'"
    "m_isInitialised P \<Longrightarrow> P' = P" "\<not> m_isInitialised P \<Longrightarrow> NextShardLocalId (get_shard P' 0) = 1 \<and> (\<forall>sid. sid \<noteq> 0 \<longrightarrow> get_shard P' sid = Shard_ctor)"
proof (cases "m_isInitialised P")
  case True
  with inv show ?thesis by (intro that [of P]) (simp_all add: Init_def)
next
  case False
  then obtain P1 where P1: "InitLocked b fresh P = Inr P1" "pool_inv P1" "untouched P1" "NextShardLocalId (get_shard P1 0) = 1"
    using InitLocked_spec [OF inv(1)] inv(2) by metis
  note pub = PublishInit_spec [OF P1(2)]
  show ?thesis
    using False P1 pub by (intro that [of "PublishInit P1"]) (simp_all add: Init_def untouched_def)
qed

end
