(* ===== verification/NameThreads.thy ===== *)
theory NameThreads
  imports NamePoolInv
begin

text \<open>
  \<open>Intern\<close> by one caller, and any number of threads that intern names at once.  A step of a
  thread is one region under a shard's lock or one access to the flag \<open>m_isInitialised\<close>; a
  schedule is the list of the threads that take the next step.
\<close>

section \<open>One caller\<close>

lemma set_shard_inv:
  assumes inv: "pool_inv P" and S: "shard_inv sid S'" "extends (get_shard P sid) S'" and i: "m_isInitialised P"
  shows "pool_inv (set_shard sid S' P)" "pool_extends P (set_shard sid S' P)"
proof -
  have len: "length (m_shards P) = kShardCount" using inv by (simp add: pool_inv_def)
  note g = get_set_shard [OF len]
  have z: "0 < NextShardLocalId (get_shard P 0)" "m_noneEntry P = Some (eptr (get_shard P 0) 0)"
    using inv i by (simp_all add: pool_inv_def)
  then have "sid = 0 \<Longrightarrow> 0 < NextShardLocalId S' \<and> eptr S' 0 = eptr (get_shard P 0) 0"
    using S(2) by (auto simp: extends_def)
  then show "pool_inv (set_shard sid S' P)" using inv S(1) z by (auto simp: pool_inv_def g)
  show "pool_extends P (set_shard sid S' P)" using S(2) by (simp add: pool_extends_def g)
qed

lemma write_spec:
  assumes inv: "pool_inv P" "m_isInitialised P" and u: "length u \<le> kFNameMaxLength" "u \<noteq> []" and pre: "pre_ok Pre"
    and room: "NextShardLocalId (get_shard P (GetShardIdFromHash (Hash64_list u))) < 16777216"
  obtains i S' where
    "InternWrite b fresh (Hash64_list u) u Pre (get_shard P (GetShardIdFromHash (Hash64_list u))) = Inr (i, S')"
    "pool_inv (set_shard (GetShardIdFromHash (Hash64_list u)) S' P)"
    "pool_extends P (set_shard (GetShardIdFromHash (Hash64_list u)) S' P)"
    "resolves (set_shard (GetShardIdFromHash (Hash64_list u)) S' P) (MakeIndex (GetShardIdFromHash (Hash64_list u)) i) u"
    "\<And>sid. NextShardLocalId (get_shard (set_shard (GetShardIdFromHash (Hash64_list u)) S' P) sid)
        \<le> NextShardLocalId (get_shard P sid) + 1"
proof -
  define sid where "sid = GetShardIdFromHash (Hash64_list u)"
  have s: "shard_inv sid (get_shard P sid)" and z: "sid = 0 \<Longrightarrow> 0 < NextShardLocalId (get_shard P sid)"
    using inv by (auto simp: pool_inv_def)
  obtain i S' where w: "InternWrite b fresh (Hash64_list u) u Pre (get_shard P sid) = Inr (word_of_nat i, S')"
    "shard_inv sid S'" "extends (get_shard P sid) S'" "i < NextShardLocalId S'" "ename S' i = u"
    "NextShardLocalId S' \<le> NextShardLocalId (get_shard P sid) + 1"
    by (rule InternWrite_spec [OF s u sid_def [symmetric] z room [folded sid_def] pre, of b fresh]) (simp, rule that)
  note p = set_shard_inv [OF inv(1) w(2,3) inv(2)]
  have g: "get_shard (set_shard sid S' P) sid' = (if sid' = sid then S' else get_shard P sid')" for sid'
    using get_set_shard inv(1) by (simp add: pool_inv_def)
  have "resolves (set_shard sid S' P) (MakeIndex sid (word_of_nat i)) u"
    unfolding resolves_def sid_def [symmetric] using u(2) w(4,5) by (auto simp: g)
  with w(1,6) p show ?thesis by (intro that [of "word_of_nat i" S']) (simp_all add: sid_def [symmetric] g)
qed

text \<open>A probe under the shared lock.\<close>

lemma find_spec:
  assumes inv: "pool_inv P" and u: "length u \<le> kFNameMaxLength" "u \<noteq> []"
  obtains r where "TryFindEntry (get_shard P (GetShardIdFromHash (Hash64_list u))) (Hash64_list u) u = Inr r"
    "r \<noteq> kEmptySlot \<Longrightarrow> resolves P (MakeIndex (GetShardIdFromHash (Hash64_list u)) r) u"
proof -
  define sid where "sid = GetShardIdFromHash (Hash64_list u)"
  have s: "table_inv (get_shard P sid)" "slots_inv (get_shard P sid)" "entries_inv (get_shard P sid)"
    using inv by (simp_all add: pool_inv_def shard_inv_def)
  have f: "TryFindEntry (get_shard P sid) (Hash64_list u) u =
      Inr (case lookup (get_shard P sid) u of None \<Rightarrow> kEmptySlot | Some i \<Rightarrow> word_of_nat i)"
    by (rule TryFindEntry_spec [OF s u(1)])
  show ?thesis
  proof (cases "lookup (get_shard P sid) u")
    case None
    with f show ?thesis by (intro that [of kEmptySlot]) (simp_all add: sid_def)
  next
    case (Some i)
    then have "resolves P (MakeIndex sid (word_of_nat i)) u"
      using lookup_Some [OF s(3)] u(2) unfolding resolves_def sid_def [symmetric] by auto
    with f Some show ?thesis by (intro that [of "word_of_nat i"]) (simp_all add: sid_def)
  qed
qed

text \<open>The pools \<open>Intern\<close> may be called in: constructed, or with the flag set.\<close>

definition callable :: "FNamePool \<Rightarrow> bool" where
  "callable P \<longleftrightarrow> pool_inv P \<and> (m_isInitialised P \<or> untouched P \<and> NextShardLocalId (get_shard P 0) = 0)"

lemma callable_ctor: "callable FNamePool_ctor"
  using pool_ctor_inv pool_ctor_shard by (simp add: callable_def Shard_ctor_def)

lemma callable_slots: "callable P \<Longrightarrow> \<not> m_isInitialised P \<Longrightarrow> SlotCount (get_shard P 0) \<le> 190"
proof -
  assume c: "callable P" and "\<not> m_isInitialised P"
  then have "slots_inv (get_shard P 0)" "NextShardLocalId (get_shard P 0) = 0"
    by (auto simp: callable_def pool_inv_def shard_inv_def)
  then show ?thesis by (simp add: slots_inv_def)
qed

definition name_arg :: "u8 list \<Rightarrow> int \<Rightarrow> u8 list" where
  "name_arg Bytes ByteLen = take (nat ByteLen) Bytes"

lemma Intern_spec:
  assumes P: "callable P" and len: "\<And>Bytes. Utf8 = Some Bytes \<Longrightarrow> 0 < ByteLen \<Longrightarrow> nat ByteLen \<le> kFNameMaxLength \<and> nat ByteLen \<le> length Bytes"
    and room: "\<And>sid. NextShardLocalId (get_shard P sid) < 16777215"
  obtains n P' where "Intern b fresh Utf8 ByteLen P = Inr (n, P')" "callable P'" "m_isInitialised P'"
    "m_isInitialised P \<Longrightarrow> pool_extends P P'"
    "\<And>sid. NextShardLocalId (get_shard P' sid) \<le> NextShardLocalId (get_shard P sid) + 2"
    "Utf8 = None \<or> ByteLen \<le> 0 \<Longrightarrow> n = kNoneIndex"
    "\<And>Bytes. Utf8 = Some Bytes \<Longrightarrow> 0 < ByteLen \<Longrightarrow> resolves P' n (name_arg Bytes ByteLen)"
proof -
  have a: "pool_inv P" "m_isInitialised P \<or> untouched P \<and> SlotCount (get_shard P 0) \<le> 190"
    using P callable_slots by (auto simp: callable_def)
  obtain P1 where P1: "Init b fresh P = Inr P1" "pool_inv P1" "m_isInitialised P1" "m_isInitialised P \<Longrightarrow> P1 = P"
    "\<not> m_isInitialised P \<Longrightarrow> NextShardLocalId (get_shard P1 0) = 1 \<and> (\<forall>sid. sid \<noteq> 0 \<longrightarrow> get_shard P1 sid = Shard_ctor)"
    by (rule Init_spec [OF a, of b fresh]) (rule that)
  have first: "(if \<not> m_isInitialised P then Init b fresh P else Inr P) = Inr P1" using P1 by auto
  have n1: "NextShardLocalId (get_shard P1 sid) \<le> NextShardLocalId (get_shard P sid) + 1" for sid
    using P1(4,5) by (cases "m_isInitialised P"; cases "sid = 0") (auto simp: Shard_ctor_def)
  show ?thesis
  proof (cases "Utf8 = None \<or> ByteLen \<le> 0")
    case True
    then have "Intern b fresh Utf8 ByteLen P = Inr (kNoneIndex, P1)"
      using first by (cases Utf8) (simp_all add: Intern_def)
    with True P1 n1 show ?thesis
      by (intro that [of kNoneIndex P1]) (auto simp: callable_def intro: le_trans [OF n1])
  next
    case False
    then obtain Bytes where B: "Utf8 = Some Bytes" "0 < ByteLen" by auto
    let ?u = "name_arg Bytes ByteLen"
    let ?sid = "GetShardIdFromHash (Hash64_list ?u)"
    have u: "length ?u \<le> kFNameMaxLength" "?u \<noteq> []" using len [OF B] B(2) by (auto simp: name_arg_def)
    have ok: "nat ByteLen \<le> kFNameMaxLength" "nat ByteLen \<le> length Bytes" using len [OF B] by auto
    obtain r where f: "TryFindEntry (get_shard P1 ?sid) (Hash64_list ?u) ?u = Inr r" "r \<noteq> kEmptySlot \<Longrightarrow> resolves P1 (MakeIndex ?sid r) ?u"
      by (rule find_spec [OF P1(2) u]) (rule that)
    show ?thesis
    proof (cases "r = kEmptySlot")
      case False
      then have "Intern b fresh Utf8 ByteLen P = Inr (MakeIndex ?sid r, P1)"
        using first B f(1) ok by (simp add: Intern_def name_arg_def [symmetric] Let_def)
      with False P1 f(2) n1 B show ?thesis
        by (intro that [of "MakeIndex ?sid r" P1]) (auto simp: callable_def intro: le_trans [OF n1])
    next
      case True
      have rm: "NextShardLocalId (get_shard P1 ?sid) < 16777216" using n1 [of ?sid] room [of ?sid] by linarith
      obtain i S' where w:
        "InternWrite b fresh (Hash64_list ?u) ?u (PredictInsertPreAlloc fresh (length ?u) (get_shard P1 ?sid)) (get_shard P1 ?sid) = Inr (i, S')"
        "pool_inv (set_shard ?sid S' P1)" "pool_extends P1 (set_shard ?sid S' P1)" "resolves (set_shard ?sid S' P1) (MakeIndex ?sid i) ?u"
        "\<And>sid. NextShardLocalId (get_shard (set_shard ?sid S' P1) sid) \<le> NextShardLocalId (get_shard P1 sid) + 1"
        by (rule write_spec [OF P1(2,3) u Predict_pre_ok rm]) (rule that)
      have "Intern b fresh Utf8 ByteLen P = Inr (MakeIndex ?sid i, set_shard ?sid S' P1)"
        using first B f(1) ok True w(1) by (simp add: Intern_def name_arg_def [symmetric] Let_def)
      moreover have "NextShardLocalId (get_shard (set_shard ?sid S' P1) sid) \<le> NextShardLocalId (get_shard P sid) + 2" for sid
        using w(5) [of sid] n1 [of sid] by linarith
      ultimately show ?thesis
        using w P1 B by (intro that [of "MakeIndex ?sid i" "set_shard ?sid S' P1"]) (auto simp: callable_def)
    qed
  qed
qed

section \<open>Threads\<close>

text \<open>Where a thread stands in \<open>Intern\<close>; \<open>AtWrite\<close> carries the buffers allocated ahead of the lock.\<close>

datatype intern_pc = AtStart | AtInit | AtPublish | AtFind | AtPredict | AtWrite FInsertPreAlloc

text \<open>A thread interns the names of a list in turn and collects the indices it is given.\<close>

record name_thread =
  todo :: "u8 list list"
  pc :: intern_pc
  results :: "(u8 list \<times> u32) list"

definition thread_start :: "u8 list list \<Rightarrow> name_thread" where
  "thread_start names = \<lparr> todo = names, pc = AtStart, results = [] \<rparr>"

definition intern_return :: "u32 \<Rightarrow> name_thread \<Rightarrow> name_thread" where
  "intern_return n t = \<lparr> todo = tl (todo t), pc = AtStart, results = results t @ [(hd (todo t), n)] \<rparr>"

text \<open>Past the initialisation, \<open>Intern\<close> tests for the empty name before it takes a lock.\<close>

definition after_init :: "build \<Rightarrow> name_thread \<Rightarrow> xerror + name_thread" where
  "after_init b t =
     (if hd (todo t) = [] then Inr (intern_return kNoneIndex t)
      else xcheck b (length (hd (todo t)) \<le> kFNameMaxLength) (Inr (t\<lparr>pc := AtFind\<rparr>)))"

definition intern_step :: "build \<Rightarrow> bytes \<Rightarrow> name_thread \<Rightarrow> FNamePool \<Rightarrow> xerror + (name_thread \<times> FNamePool)" where
  "intern_step b fresh t P =
     (if todo t = [] then Inr (t, P)
      else let Name = hd (todo t); Hash = Hash64_list Name; ShardId = GetShardIdFromHash Hash; S = get_shard P ShardId in
      case pc t of
        AtStart \<Rightarrow>
          if m_isInitialised P then rbind (after_init b t) (\<lambda>t'. Inr (t', P)) else Inr (t\<lparr>pc := AtInit\<rparr>, P)
      | AtInit \<Rightarrow>
          if m_isInitialised P then rbind (after_init b t) (\<lambda>t'. Inr (t', P))
          else rbind (InitLocked b fresh P) (\<lambda>P'. Inr (t\<lparr>pc := AtPublish\<rparr>, P'))
      | AtPublish \<Rightarrow> rbind (after_init b t) (\<lambda>t'. Inr (t', PublishInit P))
      | AtFind \<Rightarrow>
          rbind (TryFindEntry S Hash Name) (\<lambda>ExistingId.
          Inr (if ExistingId \<noteq> kEmptySlot then intern_return (MakeIndex ShardId ExistingId) t
               else t\<lparr>pc := AtPredict\<rparr>, P))
      | AtPredict \<Rightarrow> Inr (t\<lparr>pc := AtWrite (PredictInsertPreAlloc fresh (length Name) S)\<rparr>, P)
      | AtWrite Pre \<Rightarrow>
          rbind (InternWrite b fresh Hash Name Pre S) (\<lambda>(ResultId, S').
          Inr (intern_return (MakeIndex ShardId ResultId) t, set_shard ShardId S' P)))"

record name_system =
  sys_pool :: FNamePool
  sys_threads :: "name_thread list"

definition system_start :: "u8 list list list \<Rightarrow> name_system" where
  "system_start programs = \<lparr> sys_pool = FNamePool_ctor, sys_threads = map thread_start programs \<rparr>"

definition system_step :: "build \<Rightarrow> bytes \<Rightarrow> nat \<Rightarrow> name_system \<Rightarrow> xerror + name_system" where
  "system_step b fresh tid s =
     (if tid < length (sys_threads s) then
        rbind (intern_step b fresh (sys_threads s ! tid) (sys_pool s)) (\<lambda>(t, P).
        Inr \<lparr> sys_pool = P, sys_threads = (sys_threads s)[tid := t] \<rparr>)
      else Inr s)"

section \<open>The invariant of every interleaving\<close>

definition pending :: "name_system \<Rightarrow> nat" where
  "pending s = sum_list (map (\<lambda>t. length (todo t)) (sys_threads s))"

definition publishers :: "name_system \<Rightarrow> nat" where
  "publishers s = length (filter (\<lambda>t. pc t = AtPublish) (sys_threads s))"

definition thread_ok :: "FNamePool \<Rightarrow> name_thread \<Rightarrow> bool" where
  "thread_ok P t \<longleftrightarrow> (\<forall>u \<in> set (todo t). length u \<le> kFNameMaxLength)
     \<and> (pc t \<notin> {AtStart, AtInit, AtPublish} \<longrightarrow> m_isInitialised P \<and> (todo t \<noteq> [] \<longrightarrow> hd (todo t) \<noteq> []))
     \<and> (\<forall>Pre. pc t = AtWrite Pre \<longrightarrow> pre_ok Pre)
     \<and> (pc t = AtPublish \<longrightarrow> todo t \<noteq> [] \<and> 0 < NextShardLocalId (get_shard P 0))
     \<and> (results t \<noteq> [] \<longrightarrow> m_isInitialised P)
     \<and> (\<forall>(u, n) \<in> set (results t). if u = [] then n = kNoneIndex else resolves P n u)"

definition system_inv :: "nat \<Rightarrow> name_system \<Rightarrow> bool" where
  "system_inv R s \<longleftrightarrow> pool_inv (sys_pool s) \<and> pending s \<le> R
     \<and> (\<forall>sid. NextShardLocalId (get_shard (sys_pool s) sid) + pending s \<le> R + 1)
     \<and> (\<not> m_isInitialised (sys_pool s) \<longrightarrow> untouched (sys_pool s) \<and> SlotCount (get_shard (sys_pool s) 0) = publishers s)
     \<and> (\<forall>t \<in> set (sys_threads s). thread_ok (sys_pool s) t)"

lemma start_inv:
  assumes "\<forall>names \<in> set programs. \<forall>u \<in> set names. length u \<le> kFNameMaxLength" "sum_list (map length programs) \<le> R"
  shows "system_inv R (system_start programs)"
proof -
  have "pending (system_start programs) = sum_list (map length programs)"
    by (simp add: pending_def system_start_def thread_start_def comp_def)
  moreover have "publishers (system_start programs) = 0"
    by (simp add: publishers_def system_start_def thread_start_def filter_empty_conv)
  ultimately show ?thesis
    using assms pool_ctor_inv pool_ctor_shard
    by (auto simp: system_inv_def system_start_def thread_ok_def thread_start_def Shard_ctor_def)
qed

lemma sum_list_upd_nat:
  "i < length xs \<Longrightarrow> sum_list (map f (xs[i := y])) + f (xs ! i) = sum_list (map f xs) + (f y :: nat)"
proof (induction xs arbitrary: i)
  case (Cons x xs)
  then show ?case by (cases i) (auto simp: add.assoc)
qed simp

lemma filter_length_sum: "length (filter Q xs) = sum_list (map (\<lambda>x. if Q x then 1 else 0) xs)"
  by (induction xs) auto

lemma thread_ok_extends:
  assumes "thread_ok P t" "pool_extends P P'"
  shows "thread_ok P' t"
proof -
  have i: "m_isInitialised P \<Longrightarrow> m_isInitialised P'" using assms(2) by (simp add: pool_extends_def)
  have "extends (get_shard P 0) (get_shard P' 0)" using assms(2) by (simp add: pool_extends_def)
  then have n: "0 < NextShardLocalId (get_shard P 0) \<Longrightarrow> 0 < NextShardLocalId (get_shard P' 0)"
    by (simp add: extends_def)
  have "\<forall>(u, n) \<in> set (results t). if u = [] then n = kNoneIndex else resolves P n u"
    using assms(1) by (simp add: thread_ok_def)
  then have r: "\<forall>(u, n) \<in> set (results t). if u = [] then n = kNoneIndex else resolves P' n u"
    using resolves_extends [OF _ assms(2)] by (auto split: if_splits)
  show ?thesis
    using assms(1) i n r unfolding thread_ok_def by blast
qed

lemma after_init_spec:
  assumes t: "thread_ok P t" "todo t \<noteq> []" and i: "pool_inv P" "m_isInitialised P"
  obtains t' where "after_init b t = Inr t'" "thread_ok P t'" "length (todo t') \<le> length (todo t)"
    "pc t' \<noteq> AtPublish" "results t' = results t \<or> (\<exists>r. results t' = results t @ [r])"
proof (cases "hd (todo t) = []")
  case True
  have "thread_ok P (intern_return kNoneIndex t)"
    using t i(2) True by (auto simp: thread_ok_def intern_return_def dest: list.set_sel(2))
  with True show ?thesis by (intro that [of "intern_return kNoneIndex t"]) (simp_all add: after_init_def intern_return_def)
next
  case False
  have "length (hd (todo t)) \<le> kFNameMaxLength" using t by (simp add: thread_ok_def)
  moreover have "thread_ok P (t\<lparr>pc := AtFind\<rparr>)" using t i(2) False by (simp add: thread_ok_def)
  ultimately show ?thesis using False by (intro that [of "t\<lparr>pc := AtFind\<rparr>"]) (simp_all add: after_init_def)
qed

lemma return_ok:
  assumes t: "thread_ok P t" "todo t \<noteq> []" and i: "m_isInitialised P" and r: "resolves P n (hd (todo t))"
  shows "thread_ok P (intern_return n t)"
  using t i r by (auto simp: thread_ok_def intern_return_def resolves_def dest: list.set_sel(2))

text \<open>What one step does to the pool.\<close>

definition step_effect :: "FNamePool \<Rightarrow> name_thread \<Rightarrow> FNamePool \<Rightarrow> name_thread \<Rightarrow> bool" where
  "step_effect P t P' t' \<longleftrightarrow> pool_inv P' \<and> thread_ok P' t'
     \<and> (\<forall>u. thread_ok P u \<longrightarrow> thread_ok P' u)
     \<and> length (todo t') \<le> length (todo t)
     \<and> ((\<forall>sid. NextShardLocalId (get_shard P' sid) + length (todo t') \<le> NextShardLocalId (get_shard P sid) + length (todo t))
        \<or> (\<forall>sid. NextShardLocalId (get_shard P' sid) \<le> 1))
     \<and> (\<not> m_isInitialised P' \<longrightarrow> untouched P' \<and> \<not> m_isInitialised P \<and> pc t \<noteq> AtPublish
          \<and> SlotCount (get_shard P' 0) = SlotCount (get_shard P 0) + (if pc t' = AtPublish then 1 else 0))
     \<and> (m_isInitialised P \<longrightarrow> pool_extends P P')
     \<and> (results t' = results t \<or> (\<exists>r. results t' = results t @ [r]))"

lemma same_pool_effect:
  assumes "pool_inv P" "thread_ok P t'" "length (todo t') \<le> length (todo t)"
    "\<not> m_isInitialised P \<Longrightarrow> untouched P \<and> pc t \<noteq> AtPublish \<and> pc t' \<noteq> AtPublish"
    "results t' = results t \<or> (\<exists>r. results t' = results t @ [r])"
  shows "step_effect P t P t'"
  using assms by (auto simp: step_effect_def)

lemma extending_effect:
  assumes "pool_inv P'" "m_isInitialised P'" "pool_extends P P'" "thread_ok P' t'" "length (todo t') \<le> length (todo t)"
    "\<And>sid. NextShardLocalId (get_shard P' sid) + length (todo t') \<le> NextShardLocalId (get_shard P sid) + length (todo t)"
    "results t' = results t \<or> (\<exists>r. results t' = results t @ [r])"
  shows "step_effect P t P' t'"
  using assms thread_ok_extends [OF _ assms(3)] unfolding step_effect_def by blast

lemma intern_step_spec:
  assumes inv: "pool_inv P" "thread_ok P t" and un': "\<not> m_isInitialised P \<longrightarrow> untouched P"
    and slots': "\<not> m_isInitialised P \<longrightarrow> pc t \<noteq> AtPublish \<longrightarrow> SlotCount (get_shard P 0) \<le> 190"
    and room': "todo t \<noteq> [] \<longrightarrow> (\<forall>sid. NextShardLocalId (get_shard P sid) < 16777216)"
  obtains t' P' where "intern_step b fresh t P = Inr (t', P')" "step_effect P t P' t'"
proof -
  note un = un' [rule_format] and slots = slots' [rule_format] and room = room' [rule_format]
  show ?thesis
  proof (cases "todo t = []")
  case True
  then have "pc t \<noteq> AtPublish" using inv(2) by (auto simp: thread_ok_def)
  with True inv un show ?thesis
    by (intro that [of t P]) (auto simp: intern_step_def thread_ok_def intro!: same_pool_effect)
next
  case False
  note ne = False
  let ?u = "hd (todo t)"
  let ?sid = "GetShardIdFromHash (Hash64_list ?u)"
  have u: "length ?u \<le> kFNameMaxLength" using inv(2) ne by (simp add: thread_ok_def)
  show ?thesis
  proof (cases "pc t")
    case AtStart
    show ?thesis
    proof (cases "m_isInitialised P")
      case True
      obtain t' where t': "after_init b t = Inr t'" "thread_ok P t'" "length (todo t') \<le> length (todo t)" "pc t' \<noteq> AtPublish"
        "results t' = results t \<or> (\<exists>r. results t' = results t @ [r])"
        by (rule after_init_spec [OF inv(2) ne inv(1) True, of b]) (rule that)
      with AtStart True ne inv(1) show ?thesis
        by (intro that [of t' P]) (auto simp: intern_step_def Let_def intro!: same_pool_effect)
    next
      case False
      then have "thread_ok P (t\<lparr>pc := AtInit\<rparr>)" using inv(2) AtStart by (auto simp: thread_ok_def)
      with AtStart False ne inv(1) un show ?thesis
        by (intro that [of "t\<lparr>pc := AtInit\<rparr>" P]) (auto simp: intern_step_def Let_def intro!: same_pool_effect)
    qed
  next
    case AtInit
    show ?thesis
    proof (cases "m_isInitialised P")
      case True
      obtain t' where t': "after_init b t = Inr t'" "thread_ok P t'" "length (todo t') \<le> length (todo t)" "pc t' \<noteq> AtPublish"
        "results t' = results t \<or> (\<exists>r. results t' = results t @ [r])"
        by (rule after_init_spec [OF inv(2) ne inv(1) True, of b]) (rule that)
      with AtInit True ne inv(1) show ?thesis
        by (intro that [of t' P]) (auto simp: intern_step_def Let_def intro!: same_pool_effect)
    next
      case False
      then have sl: "SlotCount (get_shard P 0) \<le> 190" using slots AtInit by simp
      obtain P' where P': "InitLocked b fresh P = Inr P'" "pool_inv P'" "untouched P'"
        "NextShardLocalId (get_shard P' 0) = 1" "SlotCount (get_shard P' 0) = SlotCount (get_shard P 0) + 1"
        by (rule InitLocked_spec [OF inv(1) un [OF False] sl, of b fresh]) (rule that)
      have others: "thread_ok P' v" if "thread_ok P v" for v
        using that False P'(4) unfolding thread_ok_def by auto
      have "thread_ok P' (t\<lparr>pc := AtPublish\<rparr>)"
        using others [OF inv(2)] ne P'(4) by (simp add: thread_ok_def)
      moreover have "NextShardLocalId (get_shard P' sid) \<le> 1" for sid
        using P'(3) by (cases "sid = 0") (auto simp: untouched_def Shard_ctor_def)
      ultimately have "step_effect P t P' (t\<lparr>pc := AtPublish\<rparr>)"
        using P' others False AtInit by (auto simp: step_effect_def)
      moreover have "intern_step b fresh t P = Inr (t\<lparr>pc := AtPublish\<rparr>, P')"
        using AtInit False ne P'(1) by (simp add: intern_step_def Let_def)
      ultimately show ?thesis by (intro that)
    qed
  next
    case AtPublish
    then have z: "0 < NextShardLocalId (get_shard P 0)" using inv(2) by (simp add: thread_ok_def)
    note pub = PublishInit_spec [OF inv(1) z]
    have ext: "pool_extends P (PublishInit P)" using pub by (simp add: pool_extends_def PublishInit_def)
    have ok: "thread_ok (PublishInit P) t" by (rule thread_ok_extends [OF inv(2) ext])
    obtain t' where t': "after_init b t = Inr t'" "thread_ok (PublishInit P) t'" "length (todo t') \<le> length (todo t)"
      "pc t' \<noteq> AtPublish" "results t' = results t \<or> (\<exists>r. results t' = results t @ [r])"
      by (rule after_init_spec [OF ok ne pub(1,2), of b]) (rule that)
    have "step_effect P t (PublishInit P) t'"
      using pub t'(2,3,5) ext thread_ok_extends [OF _ ext] by (auto simp: step_effect_def)
    with AtPublish ne t'(1) show ?thesis
      by (intro that [of t' "PublishInit P"]) (simp_all add: intern_step_def Let_def)
  next
    case AtFind
    then have i: "m_isInitialised P" "?u \<noteq> []" using inv(2) ne by (auto simp: thread_ok_def)
    obtain r where r: "TryFindEntry (get_shard P ?sid) (Hash64_list ?u) ?u = Inr r" "r \<noteq> kEmptySlot \<Longrightarrow> resolves P (MakeIndex ?sid r) ?u"
      by (rule find_spec [OF inv(1) u i(2)]) (rule that)
    define t' where "t' = (if r \<noteq> kEmptySlot then intern_return (MakeIndex ?sid r) t else t\<lparr>pc := AtPredict\<rparr>)"
    have "thread_ok P t'"
      using return_ok [OF inv(2) ne i(1) r(2)] inv(2) i by (auto simp: t'_def thread_ok_def)
    then have "step_effect P t P t'"
      using inv(1) i(1) by (intro same_pool_effect) (auto simp: t'_def intern_return_def)
    with AtFind ne r(1) show ?thesis
      by (intro that [of t' P]) (simp_all add: intern_step_def Let_def t'_def)
  next
    case AtPredict
    let ?t = "t\<lparr>pc := AtWrite (PredictInsertPreAlloc fresh (length ?u) (get_shard P ?sid))\<rparr>"
    have i: "m_isInitialised P" using inv(2) AtPredict by (simp add: thread_ok_def)
    have "thread_ok P ?t" using inv(2) AtPredict by (auto simp: thread_ok_def Predict_pre_ok)
    then have "step_effect P t P ?t" using inv(1) i by (intro same_pool_effect) auto
    with AtPredict ne show ?thesis by (intro that [of ?t P]) (simp_all add: intern_step_def Let_def)
  next
    case (AtWrite Pre)
    then have i: "m_isInitialised P" "?u \<noteq> []" "pre_ok Pre" using inv(2) ne by (auto simp: thread_ok_def)
    obtain n S' where w: "InternWrite b fresh (Hash64_list ?u) ?u Pre (get_shard P ?sid) = Inr (n, S')"
      "pool_inv (set_shard ?sid S' P)" "pool_extends P (set_shard ?sid S' P)" "resolves (set_shard ?sid S' P) (MakeIndex ?sid n) ?u"
      "\<And>sid. NextShardLocalId (get_shard (set_shard ?sid S' P) sid) \<le> NextShardLocalId (get_shard P sid) + 1"
      by (rule write_spec [OF inv(1) i(1) u i(2,3) room [OF ne], of b fresh]) (rule that)
    let ?P = "set_shard ?sid S' P"
    let ?t = "intern_return (MakeIndex ?sid n) t"
    have init: "m_isInitialised ?P" using i(1) by simp
    have ok: "thread_ok ?P ?t"
      by (rule return_ok [OF thread_ok_extends [OF inv(2) w(3)] ne init w(4)])
    have lt: "length (todo t) = length (todo ?t) + 1" using ne by (simp add: intern_return_def)
    have grow: "NextShardLocalId (get_shard ?P sid) + length (todo ?t) \<le> NextShardLocalId (get_shard P sid) + length (todo t)" for sid
      using w(5) [of sid] lt by linarith
    have "step_effect P t ?P ?t"
      by (rule extending_effect [OF w(2) init w(3) ok _ grow]) (use lt in \<open>auto simp: intern_return_def\<close>)
    with AtWrite ne w(1) show ?thesis by (intro that [of ?t ?P]) (simp_all add: intern_step_def Let_def)
  qed
  qed
qed

section \<open>Steps of the whole system\<close>

definition answers :: "name_system \<Rightarrow> (u8 list \<times> u32) list" where
  "answers s = concat (map results (sys_threads s))"

definition later :: "name_system \<Rightarrow> name_system \<Rightarrow> bool" where
  "later s s' \<longleftrightarrow> length (sys_threads s') = length (sys_threads s) \<and> set (answers s) \<subseteq> set (answers s')
     \<and> (m_isInitialised (sys_pool s) \<longrightarrow> pool_extends (sys_pool s) (sys_pool s'))"

lemma later_refl: "later s s"
  by (simp add: later_def)

lemma later_trans: "later s s' \<Longrightarrow> later s' s'' \<Longrightarrow> later s s''"
  unfolding later_def using pool_extends_trans by (auto simp: pool_extends_def)

lemma publishers_bound:
  assumes "tid < length (sys_threads s)" "pc (sys_threads s ! tid) \<noteq> AtPublish"
  shows "publishers s < length (sys_threads s)"
  unfolding publishers_def using assms by (intro length_filter_less [of "sys_threads s ! tid"]) auto

lemma system_step_inv:
  assumes inv: "system_inv R s" and R: "R < 16777216" and n: "length (sys_threads s) \<le> 191"
  obtains s' where "system_step b fresh tid s = Inr s'" "system_inv R s'" "later s s'"
proof (cases "tid < length (sys_threads s)")
  case False
  with inv later_refl show ?thesis by (intro that [of s]) (simp_all add: system_step_def)
next
  case True
  let ?t = "sys_threads s ! tid" and ?P = "sys_pool s"
  have t: "thread_ok ?P ?t" and P: "pool_inv ?P" and un: "\<not> m_isInitialised ?P \<longrightarrow> untouched ?P"
    using inv True by (auto simp: system_inv_def)
  have slots: "SlotCount (get_shard ?P 0) \<le> 190" if "\<not> m_isInitialised ?P" "pc ?t \<noteq> AtPublish"
    using publishers_bound [OF True that(2)] inv that(1) n by (auto simp: system_inv_def)
  have room: "NextShardLocalId (get_shard ?P sid) < 16777216" if "todo ?t \<noteq> []" for sid
  proof -
    have "length (todo ?t) \<le> pending s"
      unfolding pending_def by (rule member_le_sum_list) (use True in auto)
    then have "0 < pending s" using that by (metis length_greater_0_conv less_le_trans)
    moreover have "NextShardLocalId (get_shard ?P sid) + pending s \<le> R + 1" using inv by (simp add: system_inv_def)
    ultimately show ?thesis using R by linarith
  qed
  have slots': "\<not> m_isInitialised ?P \<longrightarrow> pc ?t \<noteq> AtPublish \<longrightarrow> SlotCount (get_shard ?P 0) \<le> 190"
    and room': "todo ?t \<noteq> [] \<longrightarrow> (\<forall>sid. NextShardLocalId (get_shard ?P sid) < 16777216)"
    using slots room by blast+
  obtain t' P' where st: "intern_step b fresh ?t ?P = Inr (t', P')" and e: "step_effect ?P ?t P' t'"
    by (rule intern_step_spec [OF P t un slots' room', of b fresh]) (rule that)
  define s' where "s' = \<lparr> sys_pool = P', sys_threads = (sys_threads s)[tid := t'] \<rparr>"
  note e' = e [unfolded step_effect_def]
  have pend: "pending s' + length (todo ?t) = pending s + length (todo t')"
    using sum_list_upd_nat [OF True, of "\<lambda>t. length (todo t)" t'] by (simp add: pending_def s'_def)
  have pub: "publishers s' + (if pc ?t = AtPublish then 1 else 0) = publishers s + (if pc t' = AtPublish then 1 else 0)"
    using sum_list_upd_nat [OF True, of "\<lambda>t. if pc t = AtPublish then 1 else 0" t']
    by (simp add: publishers_def filter_length_sum s'_def)
  have todo_le: "length (todo t') \<le> length (todo ?t)" using e' by blast
  have next_le: "NextShardLocalId (get_shard P' sid) + pending s' \<le> R + 1" for sid
  proof -
    have old: "NextShardLocalId (get_shard ?P sid) + pending s \<le> R + 1" "pending s \<le> R" using inv by (simp_all add: system_inv_def)
    from e' consider "NextShardLocalId (get_shard P' sid) + length (todo t') \<le> NextShardLocalId (get_shard ?P sid) + length (todo ?t)"
      | "NextShardLocalId (get_shard P' sid) \<le> 1" by blast
    then show ?thesis using old pend todo_le by cases linarith+
  qed
  have threads: "thread_ok P' v" if "v \<in> set (sys_threads s')" for v
  proof -
    have "v = t' \<or> v \<in> set (sys_threads s)" using that set_update_subset_insert [of "sys_threads s" tid t'] by (auto simp: s'_def)
    then show ?thesis using e' inv by (auto simp: system_inv_def)
  qed
  have fresh_pool: "untouched P' \<and> SlotCount (get_shard P' 0) = publishers s'" if "\<not> m_isInitialised P'"
  proof -
    have "untouched P'" "\<not> m_isInitialised ?P" "pc ?t \<noteq> AtPublish"
      "SlotCount (get_shard P' 0) = SlotCount (get_shard ?P 0) + (if pc t' = AtPublish then 1 else 0)"
      using e' that by blast+
    then show ?thesis using pub inv by (simp add: system_inv_def)
  qed
  have "pending s' \<le> R" using pend todo_le inv unfolding system_inv_def by linarith
  moreover have "pool_inv P'" using e' by blast
  ultimately have "system_inv R s'"
    unfolding system_inv_def using next_le threads fresh_pool by (simp add: s'_def)
  moreover have "set (answers s) \<subseteq> set (answers s')"
  proof
    fix x assume "x \<in> set (answers s)"
    then obtain v where "v \<in> set (sys_threads s)" "x \<in> set (results v)" by (auto simp: answers_def)
    then obtain k where k: "k < length (sys_threads s)" "x \<in> set (results (sys_threads s ! k))"
      by (metis in_set_conv_nth)
    have "x \<in> set (results (sys_threads s' ! k))"
      using k e' True by (cases "k = tid") (auto simp: s'_def)
    moreover have "sys_threads s' ! k \<in> set (sys_threads s')" using k(1) by (simp add: s'_def)
    ultimately show "x \<in> set (answers s')" by (auto simp: answers_def)
  qed
  moreover have "m_isInitialised ?P \<longrightarrow> pool_extends ?P P'" using e' by blast
  ultimately show ?thesis
    using st True by (intro that [of s']) (simp_all add: system_step_def later_def, simp_all add: s'_def)
qed

lemma system_run_inv:
  assumes "system_inv R s" "R < 16777216" "length (sys_threads s) \<le> 191"
  obtains s' where "run_steps (system_step b fresh) sched s = Inr s'" "system_inv R s'" "later s s'"
proof -
  have "\<exists>s'. run_steps (system_step b fresh) sched s = Inr s' \<and> system_inv R s' \<and> later s s'"
    using assms
  proof (induction sched arbitrary: s)
    case (Cons tid sched)
    obtain s1 where s1: "system_step b fresh tid s = Inr s1" "system_inv R s1" "later s s1"
      by (rule system_step_inv [OF Cons.prems, of b fresh tid]) (rule that)
    moreover have "length (sys_threads s1) \<le> 191" using s1(3) Cons.prems(3) by (simp add: later_def)
    ultimately show ?case using Cons.IH [OF s1(2) Cons.prems(2)] later_trans by fastforce
  qed (simp add: later_refl)
  with that show ?thesis by blast
qed

section \<open>Every request is answered\<close>

fun pc_rank :: "intern_pc \<Rightarrow> nat" where
  "pc_rank AtStart = 6" | "pc_rank AtInit = 5" | "pc_rank AtPublish = 4"
| "pc_rank AtFind = 3" | "pc_rank AtPredict = 2" | "pc_rank (AtWrite Pre) = 1"

definition work_left :: "name_thread \<Rightarrow> nat" where
  "work_left t = (if todo t = [] then 0 else 6 * (length (todo t) - 1) + pc_rank (pc t))"

definition served :: "name_thread \<Rightarrow> u8 list list" where
  "served t = map fst (results t) @ todo t"

lemma return_served: "todo t \<noteq> [] \<Longrightarrow> served (intern_return n t) = served t \<and> work_left (intern_return n t) \<le> 6 * (length (todo t) - 1)"
  by (cases "todo t" rule: remdups_adj.cases) (auto simp: served_def intern_return_def work_left_def)

lemma intern_step_work:
  assumes "intern_step b fresh t P = Inr (t', P')"
  shows "served t' = served t" "todo t \<noteq> [] \<Longrightarrow> work_left t' < work_left t"
proof -
  have "served t' = served t \<and> (todo t \<noteq> [] \<longrightarrow> work_left t' < work_left t)"
  proof (cases "todo t = []")
    case True
    with assms show ?thesis by (simp add: intern_step_def)
  next
    case False
    note r = return_served [OF False]
    have lt: "work_left (intern_return n t) < work_left t" for n
      using r [of n] False by (cases "pc t") (auto simp: work_left_def)
    have ai: "served u = served t \<and> work_left u \<le> 6 * (length (todo t) - 1) + 3" if "after_init b t = Inr u" for u
    proof (cases "hd (todo t) = []")
      case True
      then have "u = intern_return kNoneIndex t" using that by (simp add: after_init_def)
      with r [of kNoneIndex] show ?thesis by simp
    next
      case False
      then have "u = t\<lparr>pc := AtFind\<rparr>" using that by (simp add: after_init_def xcheck_eq_Inr)
      then show ?thesis using \<open>todo t \<noteq> []\<close> by (simp add: served_def work_left_def)
    qed
    have set_pc: "served (t\<lparr>pc := x\<rparr>) = served t" "work_left (t\<lparr>pc := x\<rparr>) = 6 * (length (todo t) - 1) + pc_rank x" for x
      using False by (simp_all add: served_def work_left_def)
    have here: "work_left t = 6 * (length (todo t) - 1) + pc_rank (pc t)" using False by (simp add: work_left_def)
    have ret: "served (intern_return n t) = served t \<and> work_left (intern_return n t) < work_left t" for n using r lt by blast
    have init: "served u = served t \<and> work_left u < work_left t" if "after_init b t = Inr u" "3 < pc_rank (pc t)" for u
      using ai [OF that(1)] that(2) here by simp
    show ?thesis
    proof (cases "pc t")
      case AtStart
      with assms False init here show ?thesis
        by (auto simp: intern_step_def Let_def rbind_eq_Inr set_pc split: if_splits)
    next
      case AtInit
      with assms False init here show ?thesis
        by (auto simp: intern_step_def Let_def rbind_eq_Inr set_pc split: if_splits)
    next
      case AtPublish
      with assms False init show ?thesis by (auto simp: intern_step_def Let_def rbind_eq_Inr)
    next
      case AtFind
      with assms False ret here show ?thesis
        by (auto simp: intern_step_def Let_def rbind_eq_Inr set_pc split: if_splits)
    next
      case AtPredict
      with assms False here show ?thesis by (auto simp: intern_step_def Let_def set_pc)
    next
      case (AtWrite Pre)
      with assms False ret show ?thesis by (auto simp: intern_step_def Let_def rbind_eq_Inr)
    qed
  qed
  then show "served t' = served t" "todo t \<noteq> [] \<Longrightarrow> work_left t' < work_left t" by blast+
qed

lemma system_step_thread:
  assumes "system_step b fresh tid s = Inr s'" "k < length (sys_threads s)"
  shows "length (sys_threads s') = length (sys_threads s)" "served (sys_threads s' ! k) = served (sys_threads s ! k)"
    "work_left (sys_threads s' ! k) \<le> work_left (sys_threads s ! k) - (if tid = k then 1 else 0)"
proof -
  have "length (sys_threads s') = length (sys_threads s) \<and> served (sys_threads s' ! k) = served (sys_threads s ! k)
      \<and> work_left (sys_threads s' ! k) \<le> work_left (sys_threads s ! k) - (if tid = k then 1 else 0)"
  proof (cases "tid < length (sys_threads s)")
    case True
    then obtain t P where t: "intern_step b fresh (sys_threads s ! tid) (sys_pool s) = Inr (t, P)"
      "s' = \<lparr> sys_pool = P, sys_threads = (sys_threads s)[tid := t] \<rparr>"
      using assms(1) by (auto simp: system_step_def rbind_eq_Inr)
    note w = intern_step_work [OF t(1)]
    have "work_left t \<le> work_left (sys_threads s ! tid) - 1"
    proof (cases "todo (sys_threads s ! tid) = []")
      case True
      then show ?thesis using t(1) by (simp add: intern_step_def work_left_def)
    next
      case False
      with w(2) show ?thesis by simp
    qed
    with t w(1) True assms(2) show ?thesis by (cases "tid = k") simp_all
  qed (use assms in \<open>auto simp: system_step_def\<close>)
  then show "length (sys_threads s') = length (sys_threads s)" "served (sys_threads s' ! k) = served (sys_threads s ! k)"
    "work_left (sys_threads s' ! k) \<le> work_left (sys_threads s ! k) - (if tid = k then 1 else 0)" by blast+
qed

lemma system_run_thread:
  assumes "run_steps (system_step b fresh) sched s = Inr s'" "k < length (sys_threads s)"
  shows "served (sys_threads s' ! k) = served (sys_threads s ! k)
     \<and> work_left (sys_threads s' ! k) \<le> work_left (sys_threads s ! k) - count_list sched k"
  using assms
proof (induction sched arbitrary: s)
  case (Cons tid sched)
  then obtain s1 where s1: "system_step b fresh tid s = Inr s1" "run_steps (system_step b fresh) sched s1 = Inr s'"
    by (auto simp: rbind_eq_Inr)
  note st = system_step_thread [OF s1(1) Cons.prems(2)]
  have "served (sys_threads s' ! k) = served (sys_threads s1 ! k)
      \<and> work_left (sys_threads s' ! k) \<le> work_left (sys_threads s1 ! k) - count_list sched k"
    using Cons.IH [OF s1(2)] Cons.prems(2) st(1) by simp
  with st(2,3) show ?case by (auto split: if_splits)
qed simp

lemma start_thread:
  assumes "k < length programs"
  shows "served (sys_threads (system_start programs) ! k) = programs ! k"
    "work_left (sys_threads (system_start programs) ! k) \<le> 6 * length (programs ! k)"
  using assms by (cases "programs ! k"; simp add: system_start_def thread_start_def served_def work_left_def)+

end
