(* ===== verification/NameTheorems.thy ===== *)
theory NameTheorems
  imports NameThreads
begin

text \<open>
  The properties of the intern table over every interleaving of the threads that use it, and
  what racing initialisers do to it.
\<close>

text \<open>What a run from the start gives, for the two properties below.\<close>

definition allowed_programs :: "u8 list list list \<Rightarrow> bool" where
  "allowed_programs programs \<longleftrightarrow> length programs \<le> 191
     \<and> (\<forall>names \<in> set programs. \<forall>u \<in> set names. length u \<le> kFNameMaxLength)
     \<and> sum_list (map length programs) < 16777216"

lemma run_from_start:
  assumes "allowed_programs programs"
  obtains s where "run_steps (system_step b fresh) sched (system_start programs) = Inr s"
    "system_inv (sum_list (map length programs)) s" "length (sys_threads s) = length programs"
proof -
  have i: "system_inv (sum_list (map length programs)) (system_start programs)"
    using assms by (intro start_inv) (simp_all add: allowed_programs_def)
  have n: "length (sys_threads (system_start programs)) \<le> 191" "sum_list (map length programs) < 16777216"
    using assms by (simp_all add: allowed_programs_def system_start_def)
  obtain s where "run_steps (system_step b fresh) sched (system_start programs) = Inr s"
    "system_inv (sum_list (map length programs)) s" "later (system_start programs) s"
    by (rule system_run_inv [OF i n(2,1), of b fresh sched]) (rule that)
  moreover from this(3) have "length (sys_threads s) = length programs" by (simp add: later_def system_start_def)
  ultimately show ?thesis by (intro that)
qed

lemma answer_known:
  assumes inv: "system_inv R s" and a: "(u, n) \<in> set (answers s)"
  shows "pool_inv (sys_pool s)" "m_isInitialised (sys_pool s)" "u = [] \<Longrightarrow> n = kNoneIndex"
    "u \<noteq> [] \<Longrightarrow> resolves (sys_pool s) n u"
proof -
  show "pool_inv (sys_pool s)" using inv by (simp add: system_inv_def)
  obtain t where "t \<in> set (sys_threads s)" "(u, n) \<in> set (results t)" using a by (auto simp: answers_def)
  moreover have "thread_ok (sys_pool s) t" using inv calculation(1) by (simp add: system_inv_def)
  ultimately show "m_isInitialised (sys_pool s)" "u = [] \<Longrightarrow> n = kNoneIndex" "u \<noteq> [] \<Longrightarrow> resolves (sys_pool s) n u"
    by (auto simp: thread_ok_def split: if_splits)
qed

lemma answer_entry:
  assumes inv: "system_inv R s" and a: "(u, n) \<in> set (answers s)"
  obtains sid i where "n = MakeIndex sid (word_of_nat i)" "i < NextShardLocalId (get_shard (sys_pool s) sid)"
    "ename (get_shard (sys_pool s) sid) i = (if u = [] then NoneStr else u)"
proof (cases "u = []")
  case True
  note k = answer_known [OF assms]
  have "0 < NextShardLocalId (get_shard (sys_pool s) 0)" using k(1,2) by (simp add: pool_inv_def)
  moreover have "n = MakeIndex 0 (word_of_nat 0)" using k(3) [OF True] by (simp add: MakeIndex_def kNoneIndex_def)
  ultimately show ?thesis using True none_name [OF k(1,2)] by (intro that [of 0 0]) simp_all
next
  case False
  with answer_known(4) [OF assms False] show ?thesis by (auto simp: resolves_def intro: that)
qed

lemma requests_answered:
  assumes "run_steps (system_step b fresh) sched (system_start programs) = Inr s" "k < length programs"
    and "6 * length (programs ! k) \<le> count_list sched k"
  shows "map fst (results (sys_threads s ! k)) = programs ! k"
proof -
  have "k < length (sys_threads (system_start programs))" using assms(2) by (simp add: system_start_def)
  from system_run_thread [OF assms(1) this] start_thread [OF assms(2)] assms(3)
  have "served (sys_threads s ! k) = programs ! k" "work_left (sys_threads s ! k) = 0" by auto
  moreover have "work_left (sys_threads s ! k) = 0 \<Longrightarrow> todo (sys_threads s ! k) = []"
    by (cases "pc (sys_threads s ! k)") (auto simp: work_left_def split: if_splits)
  ultimately show ?thesis by (simp add: served_def)
qed

text \<open>
  C26: For up to 191 threads, in every interleaving of their calls of \<open>Intern\<close> no call fails, a
  thread that is given six steps for each of its names has all of them answered, the answer to
  the empty name is the index of \<open>NAME_None\<close> and to no other name, every index resolves to an
  entry with the text it was given for, and two indices are equal exactly when the names are.
\<close>

theorem names_are_interned_once:
  assumes "allowed_programs programs"
  shows "\<exists>s. run_steps (system_step b fresh) sched (system_start programs) = Inr s
     \<and> (\<forall>k < length programs. 6 * length (programs ! k) \<le> count_list sched k \<longrightarrow>
          map fst (results (sys_threads s ! k)) = programs ! k)
     \<and> (\<forall>(u, n) \<in> set (answers s). (n = kNoneIndex \<longleftrightarrow> u = [])
          \<and> (\<exists>e. FindEntry b fresh n (sys_pool s) = Inr (Some e, sys_pool s)
               \<and> entry_name (sys_pool s) e = (if u = [] then NoneStr else u)))
     \<and> (\<forall>(u, n) \<in> set (answers s). \<forall>(v, m) \<in> set (answers s). n = m \<longleftrightarrow> u = v)"
proof -
  obtain s where s: "run_steps (system_step b fresh) sched (system_start programs) = Inr s"
    "system_inv (sum_list (map length programs)) s" "length (sys_threads s) = length programs"
    by (rule run_from_start [OF assms, of b fresh sched]) (rule that)
  note done' = requests_answered [OF s(1)]
  have none: "n = kNoneIndex \<longleftrightarrow> u = []" if "(u, n) \<in> set (answers s)" for u n
    using answer_known [OF s(2) that] resolves_not_none by (cases "u = []") auto
  have same: "n = m \<longleftrightarrow> u = v" if "(u, n) \<in> set (answers s)" "(v, m) \<in> set (answers s)" for u n v m
  proof (cases "u = [] \<or> v = []")
    case True
    with none [OF that(1)] none [OF that(2)] show ?thesis by auto
  next
    case False
    then show ?thesis
      using resolves_inj answer_known [OF s(2) that(1)] answer_known [OF s(2) that(2)] by blast
  qed
  have "\<exists>e. FindEntry b fresh n (sys_pool s) = Inr (Some e, sys_pool s)
      \<and> entry_name (sys_pool s) e = (if u = [] then NoneStr else u)" if a: "(u, n) \<in> set (answers s)" for u n
    using answer_entry [OF s(2) a] FindEntry_index [OF answer_known(1,2) [OF s(2) a]] by metis
  with s(1) done' none same show ?thesis by (intro exI [of _ s]) blast
qed

theorem names_are_interned_once_witness:
  "\<exists>s. run_steps (system_step Checked (\<lambda>_. 0)) (replicate 6 0 @ replicate 6 1) (system_start [[[65]], [[65]]]) = Inr s
     \<and> map fst (results (sys_threads s ! 1)) = [[65]]"
proof -
  have "allowed_programs [[[65]], [[65]]]" by (simp add: allowed_programs_def kFNameMaxLength_def)
  from names_are_interned_once [OF this, of Checked "\<lambda>_. 0" "replicate 6 0 @ replicate 6 1"] show ?thesis
    by (force simp: eval_nat_numeral)
qed

text \<open>
  C27: An entry never moves and never changes: the entry an index resolves to at some point of a
  run is the one it resolves to, with the same text, at every later point, and the entries of
  different indices share no byte.
\<close>

theorem interned_entries_stay_put:
  assumes "allowed_programs programs"
    and "run_steps (system_step b fresh) sched (system_start programs) = Inr s"
    and "run_steps (system_step b fresh) sched' s = Inr s'" and "(u, n) \<in> set (answers s)"
  shows "\<exists>e. FindEntry b fresh n (sys_pool s) = Inr (Some e, sys_pool s)
     \<and> FindEntry b fresh n (sys_pool s') = Inr (Some e, sys_pool s')
     \<and> entry_name (sys_pool s') e = entry_name (sys_pool s) e
     \<and> (\<forall>(v, m) \<in> set (answers s'). m \<noteq> n \<longrightarrow>
          (\<exists>e'. FindEntry b fresh m (sys_pool s') = Inr (Some e', sys_pool s')
             \<and> (fst e' = fst e \<longrightarrow> disjoint_entries (snd e) (length (entry_name (sys_pool s') e))
                  (snd e') (length (entry_name (sys_pool s') e')))))"
proof -
  let ?P = "sys_pool s" and ?P' = "sys_pool s'"
  obtain s1 where "run_steps (system_step b fresh) sched (system_start programs) = Inr s1"
    "system_inv (sum_list (map length programs)) s1" "length (sys_threads s1) = length programs"
    by (rule run_from_start [OF assms(1), of b fresh sched]) (rule that)
  with assms(2) have inv: "system_inv (sum_list (map length programs)) s" "length (sys_threads s) \<le> 191"
    using assms(1) by (auto simp: allowed_programs_def)
  have R: "sum_list (map length programs) < 16777216" using assms(1) by (simp add: allowed_programs_def)
  obtain s2 where "run_steps (system_step b fresh) sched' s = Inr s2" "system_inv (sum_list (map length programs)) s2" "later s s2"
    by (rule system_run_inv [OF inv(1) R inv(2), of b fresh sched']) (rule that)
  with assms(3) have inv': "system_inv (sum_list (map length programs)) s'" and l: "later s s'" by auto
  note k = answer_known(1,2) [OF inv(1) assms(4)]
  have ext: "pool_extends ?P ?P'" using l k(2) by (simp add: later_def)
  obtain sid i where i: "n = MakeIndex sid (word_of_nat i)" "i < NextShardLocalId (get_shard ?P sid)"
    by (rule answer_entry [OF inv(1) assms(4)]) (rule that)
  have e: "extends (get_shard ?P sid) (get_shard ?P' sid)" using ext by (simp add: pool_extends_def)
  then have i': "i < NextShardLocalId (get_shard ?P' sid)" "eptr (get_shard ?P' sid) i = eptr (get_shard ?P sid) i"
    "ename (get_shard ?P' sid) i = ename (get_shard ?P sid) i"
    using i(2) by (auto simp: extends_def)
  have k': "pool_inv ?P'" "m_isInitialised ?P'" using inv' ext k(2) by (auto simp: system_inv_def pool_extends_def)
  note f = FindEntry_index [OF k i(2)] and f' = FindEntry_index [OF k' i'(1)]
  have other: "\<exists>e'. FindEntry b fresh m ?P' = Inr (Some e', ?P')
      \<and> (fst e' = sid \<longrightarrow> disjoint_entries (eptr (get_shard ?P sid) i) (length (ename (get_shard ?P sid) i))
           (snd e') (length (entry_name ?P' e')))" if m: "(v, m) \<in> set (answers s')" "m \<noteq> n" for v m
  proof -
    obtain sid2 j where j: "m = MakeIndex sid2 (word_of_nat j)" "j < NextShardLocalId (get_shard ?P' sid2)"
      by (rule answer_entry [OF inv' m(1)]) (rule that)
    note g = FindEntry_index [OF k' j(2)]
    have "disjoint_entries (eptr (get_shard ?P' sid) i) (length (ename (get_shard ?P' sid) i))
        (eptr (get_shard ?P' sid) j) (length (ename (get_shard ?P' sid) j))" if "sid2 = sid"
    proof -
      have "i \<noteq> j" using m(2) i(1) j(1) that by auto
      moreover have "entries_inv (get_shard ?P' sid)" using k'(1) by (simp add: pool_inv_def shard_inv_def)
      ultimately show ?thesis using i'(1) j(2) that by (simp add: entries_inv_def)
    qed
    with g j(1) i' show ?thesis by (intro exI [of _ "(sid2, eptr (get_shard ?P' sid2) j)"]) auto
  qed
  show ?thesis
    by (rule exI [of _ "(sid, eptr (get_shard ?P sid) i)"]) (use f f' i(1) i' other in auto)
qed

theorem interned_entries_stay_put_witness:
  "\<exists>s s' n e. run_steps (system_step Checked (\<lambda>_. 0)) (replicate 6 0) (system_start [[[65]], [[66]]]) = Inr s
     \<and> run_steps (system_step Checked (\<lambda>_. 0)) (replicate 6 1) s = Inr s'
     \<and> FindEntry Checked (\<lambda>_. 0) n (sys_pool s) = Inr (Some e, sys_pool s)
     \<and> FindEntry Checked (\<lambda>_. 0) n (sys_pool s') = Inr (Some e, sys_pool s')"
proof -
  let ?ps = "[[[65]], [[66]]] :: u8 list list list"
  have a: "allowed_programs ?ps" by (simp add: allowed_programs_def kFNameMaxLength_def)
  obtain s where s: "run_steps (system_step Checked (\<lambda>_. 0)) (replicate 6 0) (system_start ?ps) = Inr s"
    "system_inv (sum_list (map length ?ps)) s" "length (sys_threads s) = length ?ps"
    by (rule run_from_start [OF a, of Checked "\<lambda>_. 0" "replicate 6 0"]) (rule that)
  obtain s' where s': "run_steps (system_step Checked (\<lambda>_. 0)) (replicate 6 1) s = Inr s'"
    by (rule system_run_inv [OF s(2), of Checked "\<lambda>_. 0" "replicate 6 1"]) (use s(3) in \<open>simp_all add: that\<close>)
  have "map fst (results (sys_threads s ! 0)) = ?ps ! 0"
    by (rule requests_answered [OF s(1)]) (simp_all add: eval_nat_numeral)
  then have "[65] \<in> set (map fst (results (sys_threads s ! 0)))" by simp
  then obtain n where "([65], n) \<in> set (results (sys_threads s ! 0))" by auto
  moreover have "sys_threads s ! 0 \<in> set (sys_threads s)" using s(3) by simp
  ultimately have "([65], n) \<in> set (answers s)" by (auto simp: answers_def)
  from interned_entries_stay_put [OF a s(1) s' this] s(1) s' show ?thesis by blast
qed

section \<open>Racing initialisers\<close>

lemma run_steps_append: "run_steps st (xs @ ys) s = rbind (run_steps st xs s) (run_steps st ys)"
proof (induction xs arbitrary: s)
  case (Cons x xs)
  then show ?case by (cases "st x s") simp_all
qed simp

text \<open>Threads that stand at one point, the first \<open>j\<close> of them at the next.\<close>

definition racing :: "intern_pc \<Rightarrow> intern_pc \<Rightarrow> nat \<Rightarrow> nat \<Rightarrow> name_system \<Rightarrow> bool" where
  "racing p q k j s \<longleftrightarrow> \<not> m_isInitialised (sys_pool s) \<and> length (sys_threads s) = k
     \<and> (\<forall>i < k. todo (sys_threads s ! i) \<noteq> [] \<and> pc (sys_threads s ! i) = (if i < j then q else p))"

lemma race:
  assumes inv: "system_inv R s" and R: "R < 16777216" and k: "k \<le> 191"
    and r: "racing p q k 0 s" and pq: "(p, q) = (AtStart, AtInit) \<or> (p, q) = (AtInit, AtPublish)" and j: "j \<le> k"
  obtains s' where "run_steps (system_step b fresh) [0 ..< j] s = Inr s'" "system_inv R s'" "racing p q k j s'"
proof -
  have "\<exists>s'. run_steps (system_step b fresh) [0 ..< j] s = Inr s' \<and> system_inv R s' \<and> racing p q k j s'"
    using j
  proof (induction j)
    case (Suc j)
    then obtain s1 where s1: "run_steps (system_step b fresh) [0 ..< j] s = Inr s1" "system_inv R s1" "racing p q k j s1" by auto
    have n: "length (sys_threads s1) \<le> 191" using s1(3) k by (simp add: racing_def)
    obtain s2 where s2: "system_step b fresh j s1 = Inr s2" "system_inv R s2"
      by (rule system_step_inv [OF s1(2) R n, of b fresh j]) (rule that)
    have here: "todo (sys_threads s1 ! j) \<noteq> []" "pc (sys_threads s1 ! j) = p" "j < length (sys_threads s1)"
      "\<not> m_isInitialised (sys_pool s1)" using s1(3) Suc.prems by (auto simp: racing_def)
    obtain P where P: "s2 = \<lparr> sys_pool = P, sys_threads = (sys_threads s1)[j := (sys_threads s1 ! j)\<lparr>pc := q\<rparr>] \<rparr>"
      "\<not> m_isInitialised P"
    proof (cases "p = AtStart")
      case True
      with pq here s2(1) show ?thesis
        by (intro that [of "sys_pool s1"]) (auto simp: system_step_def intern_step_def Let_def)
    next
      case False
      with pq have q: "p = AtInit" "q = AtPublish" by auto
      with here s2(1) obtain P where "InitLocked b fresh (sys_pool s1) = Inr P"
        "s2 = \<lparr> sys_pool = P, sys_threads = (sys_threads s1)[j := (sys_threads s1 ! j)\<lparr>pc := q\<rparr>] \<rparr>"
        by (auto simp: system_step_def intern_step_def Let_def rbind_eq_Inr)
      moreover from this(1) here(4) have "\<not> m_isInitialised P"
        by (auto simp: InitLocked_def rbind_eq_Inr in_range_eq_Inr Let_def)
      ultimately show ?thesis by (intro that)
    qed
    have "racing p q k (Suc j) s2"
      using s1(3) P Suc.prems by (auto simp: racing_def nth_list_update less_Suc_eq)
    moreover have "run_steps (system_step b fresh) [0 ..< Suc j] s = Inr s2"
      using s1(1) s2(1) by (simp add: run_steps_append)
    ultimately show ?case using s2(2) by blast
  qed (use inv r in simp)
  with that show ?thesis by blast
qed

text \<open>
  C32: The double check of \<open>Init\<close> does not keep its body from running again: the flag is only
  stored after the lock is released, so when \<open>k\<close> threads each get to the lock before the first of
  them stores it, every one of them registers a sentinel in shard 0, whose slot count is then \<open>k\<close>
  although its table holds the one sentinel of the last thread.
\<close>

theorem init_body_runs_once_per_racer:
  assumes "k \<le> 191" "allowed_programs programs" "length programs = k" "\<forall>names \<in> set programs. names \<noteq> []"
  shows "\<exists>s. run_steps (system_step b fresh) ([0 ..< k] @ [0 ..< k]) (system_start programs) = Inr s
     \<and> \<not> m_isInitialised (sys_pool s) \<and> (\<forall>i < k. pc (sys_threads s ! i) = AtPublish)
     \<and> SlotCount (get_shard (sys_pool s) 0) = k
     \<and> (0 < k \<longrightarrow> NextShardLocalId (get_shard (sys_pool s) 0) = 1)"
proof -
  let ?R = "sum_list (map length programs)"
  have R: "?R < 16777216" using assms(2) by (simp add: allowed_programs_def)
  have i0: "system_inv ?R (system_start programs)"
    using assms(2) by (intro start_inv) (simp_all add: allowed_programs_def)
  have r0: "racing AtStart AtInit k 0 (system_start programs)"
    using assms(3,4) pool_ctor_shard by (auto simp: racing_def system_start_def thread_start_def FNamePool_ctor_def)
  obtain s1 where s1: "run_steps (system_step b fresh) [0 ..< k] (system_start programs) = Inr s1" "system_inv ?R s1"
    "racing AtStart AtInit k k s1"
    by (rule race [OF i0 R assms(1) r0, of k b fresh]) (simp_all add: that)
  have r1: "racing AtInit AtPublish k 0 s1" using s1(3) by (simp add: racing_def)
  obtain s2 where s2: "run_steps (system_step b fresh) [0 ..< k] s1 = Inr s2" "system_inv ?R s2" "racing AtInit AtPublish k k s2"
    by (rule race [OF s1(2) R assms(1) r1, of k b fresh]) (simp_all add: that)
  have "filter (\<lambda>t. pc t = AtPublish) (sys_threads s2) = sys_threads s2"
    using s2(3) by (auto simp: filter_id_conv racing_def in_set_conv_nth)
  then have "SlotCount (get_shard (sys_pool s2) 0) = k"
    using s2(2,3) by (simp add: system_inv_def publishers_def racing_def)
  moreover have "NextShardLocalId (get_shard (sys_pool s2) 0) = 1" if "0 < k"
  proof -
    have "pc (sys_threads s2 ! 0) = AtPublish" "sys_threads s2 ! 0 \<in> set (sys_threads s2)"
      using that s2(3) by (simp_all add: racing_def)
    with s2(2) have "0 < NextShardLocalId (get_shard (sys_pool s2) 0)" by (simp add: system_inv_def thread_ok_def)
    then show ?thesis using s2(2,3) by (simp add: system_inv_def racing_def untouched_def)
  qed
  ultimately show ?thesis
    using s1(1) s2(1,3) by (intro exI [of _ s2]) (simp add: run_steps_append racing_def)
qed

theorem init_body_runs_once_per_racer_witness:
  "\<exists>s. run_steps (system_step Checked (\<lambda>_. 0)) [0, 1, 0, 1] (system_start [[[65]], [[66]]]) = Inr s
     \<and> SlotCount (get_shard (sys_pool s) 0) = 2"
proof -
  have "allowed_programs [[[65]], [[66]]]" by (simp add: allowed_programs_def kFNameMaxLength_def)
  from init_body_runs_once_per_racer [OF _ this, of 2 Checked "\<lambda>_. 0"] show ?thesis
    by (force simp: upt_rec)
qed

end
