(* ===== verification/FNameModel.thy ===== *)
theory FNameModel
  imports NameThreads Xxh3Short
begin

text \<open>
  The handle of an interned name (\<open>FName\<close>, \<open>Public/Reflection/FName.h\<close> and
  \<open>Private/Reflection/FName.cpp\<close>): the index of its base text and a number that stands for a
  trailing \<open>_N\<close>.  The pool is passed along since every constructor from text, and every reader of
  the text, may be the first to touch it; the text of an \<open>FString\<close> is the list of its bytes.
\<close>

datatype FName = FName (Index: u32) (NameSerialNumber: u32)

section \<open>Comparison\<close>

text \<open>The handle as the 64 bits \<open>std::bit_cast\<close> reads, the index in the low half.\<close>

definition handle_bits :: "FName \<Rightarrow> u64" where
  "handle_bits N = ucast (Index N) OR push_bit 32 (ucast (NameSerialNumber N))"

definition FName_eq :: "FName \<Rightarrow> FName \<Rightarrow> bool" where
  "FName_eq N Other \<longleftrightarrow> handle_bits N = handle_bits Other"

definition FName_ne :: "FName \<Rightarrow> FName \<Rightarrow> bool" where
  "FName_ne N Other \<longleftrightarrow> handle_bits N \<noteq> handle_bits Other"

definition sort_key :: "FName \<Rightarrow> u64" where
  "sort_key N = push_bit 32 (ucast (Index N)) OR ucast (NameSerialNumber N)"

definition FName_less :: "FName \<Rightarrow> FName \<Rightarrow> bool" where
  "FName_less N Other \<longleftrightarrow> sort_key N < sort_key Other"

definition FName_le :: "FName \<Rightarrow> FName \<Rightarrow> bool" where
  "FName_le N Other \<longleftrightarrow> \<not> FName_less Other N"

definition FName_greater :: "FName \<Rightarrow> FName \<Rightarrow> bool" where
  "FName_greater N Other \<longleftrightarrow> FName_less Other N"

definition FName_ge :: "FName \<Rightarrow> FName \<Rightarrow> bool" where
  "FName_ge N Other \<longleftrightarrow> \<not> FName_less N Other"

section \<open>Trivial constructors and tests\<close>

definition NAME_None :: FName where "NAME_None = FName kNoneIndex 0"

text \<open>\<open>FName(int32, int32)\<close>; the constructor from two unsigned words is the constructor itself.\<close>

definition FName_of_ints :: "build \<Rightarrow> u32 \<Rightarrow> u32 \<Rightarrow> xerror + FName" where
  "FName_of_ints b InIndex InSerialNumber =
     xcheck b (0 \<le> sint InIndex) (xcheck b (0 \<le> sint InSerialNumber) (Inr (FName InIndex InSerialNumber)))"

definition WithNumber :: "FName \<Rightarrow> u32 \<Rightarrow> FName" where
  "WithNumber BaseName Suffix = FName (Index BaseName) Suffix"

definition IsNone :: "FName \<Rightarrow> bool" where
  "IsNone N \<longleftrightarrow> Index N = kNoneIndex \<and> NameSerialNumber N = 0"

definition IsNumbered :: "FName \<Rightarrow> bool" where
  "IsNumbered N \<longleftrightarrow> NameSerialNumber N \<noteq> 0"

section \<open>The trailing number\<close>

definition is_digit :: "u8 \<Rightarrow> bool" where
  "is_digit Ch \<longleftrightarrow> 48 \<le> Ch \<and> Ch \<le> 57"

text \<open>The walk back over the digits; \<open>DigitStart\<close> stays between 1 and the length.\<close>

fun walk_digits :: "u8 list \<Rightarrow> nat \<Rightarrow> nat \<Rightarrow> nat" where
  "walk_digits Utf8 ByteLen 0 = 0"
| "walk_digits Utf8 ByteLen (Suc d) =
     (if 1 < Suc d \<and> int (Suc d) > int ByteLen - 11 \<and> is_digit (Utf8 ! d)
      then walk_digits Utf8 ByteLen d else Suc d)"

definition digits_value :: "u8 list \<Rightarrow> u64" where
  "digits_value Digits = fold (\<lambda>Ch Value. Value * 10 + ucast (Ch - 48)) Digits 0"

text \<open>The length of the base and the number.\<close>

definition ParseNumberedSuffix :: "u8 list option \<Rightarrow> int \<Rightarrow> int \<times> u32" where
  "ParseNumberedSuffix Utf8 ByteLen =
     (case Utf8 of None \<Rightarrow> (ByteLen, 0) | Some Bytes \<Rightarrow>
      if ByteLen < 3 then (ByteLen, 0)
      else let n = nat ByteLen; DigitStart = walk_digits Bytes n n; DigitCount = n - DigitStart in
        if n \<le> DigitStart then (ByteLen, 0)
        else if DigitStart < 1 \<or> Bytes ! (DigitStart - 1) \<noteq> 95 then (ByteLen, 0)
        else if DigitCount = 0 \<or> 10 < DigitCount then (ByteLen, 0)
        else if 1 < DigitCount \<and> Bytes ! DigitStart = 48 then (ByteLen, 0)
        else if DigitCount = 1 \<and> Bytes ! DigitStart = 48 then (ByteLen, 0)
        else let Value = digits_value (take DigitCount (drop DigitStart Bytes)) in
          if 0xFFFFFFFF < Value then (ByteLen, 0)
          else (int DigitStart - 1, ucast Value))"

section \<open>Construction from text\<close>

definition strlen :: "u8 list \<Rightarrow> nat" where
  "strlen Utf8 = length (takeWhile (\<lambda>Ch. Ch \<noteq> 0) Utf8)"

text \<open>\<open>FName(const char*)\<close>: the list holds the bytes before a terminator.\<close>

definition FName_of_cstr :: "build \<Rightarrow> bytes \<Rightarrow> u8 list option \<Rightarrow> FNamePool \<Rightarrow> xerror + (FName \<times> FNamePool)" where
  "FName_of_cstr b fresh Utf8 P =
     (case Utf8 of None \<Rightarrow> Inr (FName kNoneIndex 0, P) | Some Bytes \<Rightarrow>
      let Len = strlen Bytes in
      xcheck b (Len \<le> kFNameMaxLength) (
        let (BaseLen, ParsedSuffix) = ParseNumberedSuffix Utf8 (sint (word_of_nat Len :: u32)) in
        rbind (Intern b fresh Utf8 BaseLen P) (\<lambda>(I, P'). Inr (FName I ParsedSuffix, P'))))"

text \<open>\<open>FName(const char*, int32)\<close>\<close>

definition FName_of_range :: "build \<Rightarrow> bytes \<Rightarrow> u8 list option \<Rightarrow> int \<Rightarrow> FNamePool \<Rightarrow> xerror + (FName \<times> FNamePool)" where
  "FName_of_range b fresh Utf8 ByteLen P =
     (case Utf8 of None \<Rightarrow> Inr (FName kNoneIndex 0, P) | Some Bytes \<Rightarrow>
      if ByteLen \<le> 0 then Inr (FName kNoneIndex 0, P)
      else xcheck b (nat ByteLen \<le> kFNameMaxLength) (
        in_range (nat ByteLen \<le> length Bytes) (
        let (BaseLen, ParsedSuffix) = ParseNumberedSuffix Utf8 ByteLen in
        rbind (Intern b fresh Utf8 BaseLen P) (\<lambda>(I, P'). Inr (FName I ParsedSuffix, P')))))"

text \<open>\<open>FName(const FString&)\<close>\<close>

definition FName_of_string :: "build \<Rightarrow> bytes \<Rightarrow> u8 list \<Rightarrow> FNamePool \<Rightarrow> xerror + (FName \<times> FNamePool)" where
  "FName_of_string b fresh Source P = FName_of_range b fresh (Some Source) (int (length Source)) P"

text \<open>\<open>FName(const char*, int32, uint32)\<close>\<close>

definition FName_of_parts ::
  "build \<Rightarrow> bytes \<Rightarrow> u8 list option \<Rightarrow> int \<Rightarrow> u32 \<Rightarrow> FNamePool \<Rightarrow> xerror + (FName \<times> FNamePool)" where
  "FName_of_parts b fresh Utf8 ByteLen Suffix P =
     (if Utf8 = None \<or> ByteLen \<le> 0 then Inr (FName kNoneIndex Suffix, P)
      else xcheck b (nat ByteLen \<le> kFNameMaxLength) (
        rbind (Intern b fresh Utf8 ByteLen P) (\<lambda>(I, P'). Inr (FName I Suffix, P'))))"

section \<open>Reading the text\<close>

text \<open>The bytes of the base: \<open>None\<close> is the literal, otherwise the entry they lie in.\<close>

definition GetBaseBytes :: "build \<Rightarrow> bytes \<Rightarrow> FName \<Rightarrow> FNamePool \<Rightarrow> xerror + ((u8 \<times> entry_ptr) option \<times> FNamePool)" where
  "GetBaseBytes b fresh N P =
     (if Index N = kNoneIndex then Inr (None, P) else FindEntry b fresh (Index N) P)"

definition GetBaseLength :: "build \<Rightarrow> bytes \<Rightarrow> FName \<Rightarrow> FNamePool \<Rightarrow> xerror + (nat \<times> FNamePool)" where
  "GetBaseLength b fresh N P =
     (if Index N = kNoneIndex then Inr (length NoneStr, P)
      else rbind (FindEntry b fresh (Index N) P) (\<lambda>(Entry, P').
        case Entry of None \<Rightarrow> Inr (length NoneStr, P')
        | Some e \<Rightarrow> Inr (unat (GetLength (get_shard P' (fst e)) (snd e)), P')))"

text \<open>The bytes from \<open>GetBaseBytes\<close>, up to a length.\<close>

definition base_bytes :: "FNamePool \<Rightarrow> (u8 \<times> entry_ptr) option \<Rightarrow> nat \<Rightarrow> u8 list" where
  "base_bytes P Bytes n =
     (case Bytes of None \<Rightarrow> take n NoneStr | Some e \<Rightarrow> GetBytes (get_shard P (fst e)) (snd e) n)"

definition IsValid :: "build \<Rightarrow> bytes \<Rightarrow> FName \<Rightarrow> FNamePool \<Rightarrow> xerror + (bool \<times> FNamePool)" where
  "IsValid b fresh N P = IsValidIndex b fresh (Index N) P"

text \<open>The digits of a number, the lowest first.\<close>

function digits_lo :: "u32 \<Rightarrow> u8 list" where
  "digits_lo Tmp = (48 + ucast (Tmp mod 10)) # (if Tmp div 10 = 0 then [] else digits_lo (Tmp div 10))"
  by pat_completeness simp
termination
proof (relation "measure unat")
  fix Tmp :: u32 assume "Tmp div 10 \<noteq> 0"
  then have "0 < unat Tmp" by (metis div_0 unat_gt_0)
  then show "(Tmp div 10, Tmp) \<in> measure unat" by (simp add: unat_div)
qed simp

declare digits_lo.simps [simp del]

definition suffix_text :: "u32 \<Rightarrow> u8 list" where
  "suffix_text N = 95 # rev (digits_lo N)"

definition AppendString :: "build \<Rightarrow> bytes \<Rightarrow> FName \<Rightarrow> u8 list \<Rightarrow> FNamePool \<Rightarrow> xerror + (u8 list \<times> FNamePool)" where
  "AppendString b fresh N Out P =
     rbind (GetBaseBytes b fresh N P) (\<lambda>(BaseBytes, P1).
     rbind (GetBaseLength b fresh N P1) (\<lambda>(BaseLen, P2).
     let Out1 = Out @ base_bytes P2 BaseBytes BaseLen
     in Inr (if NameSerialNumber N \<noteq> 0 then Out1 @ suffix_text (NameSerialNumber N) else Out1, P2)))"

definition ToString :: "build \<Rightarrow> bytes \<Rightarrow> FName \<Rightarrow> FNamePool \<Rightarrow> xerror + (u8 list \<times> FNamePool)" where
  "ToString b fresh N P = AppendString b fresh N [] P"

definition ToFString :: "build \<Rightarrow> bytes \<Rightarrow> FName \<Rightarrow> FNamePool \<Rightarrow> xerror + (u8 list \<times> FNamePool)" where
  "ToFString b fresh N P = ToString b fresh N P"

section \<open>The hash\<close>

text \<open>The eight bytes of the handle in memory.\<close>

definition handle_bytes :: "FName \<Rightarrow> u8 list" where
  "handle_bytes N = le_bytes 4 (Index N) @ le_bytes 4 (NameSerialNumber N)"

definition GetTypeHash :: "FName \<Rightarrow> u64" where
  "GetTypeHash N = Hash64_list (handle_bytes N)"

section \<open>The order\<close>

lemma sort_key_unat: "unat (sort_key N) = unat (Index N) * 2 ^ 32 + unat (NameSerialNumber N)"
proof -
  have "push_bit 32 (ucast (Index N) :: u64) AND ucast (NameSerialNumber N) = 0"
    by (rule bit_word_eqI) (auto simp: bit_simps dest: bit_imp_le_length)
  then have "sort_key N = push_bit 32 (ucast (Index N)) + ucast (NameSerialNumber N)"
    by (simp add: sort_key_def disjunctive_add_eq_or)
  moreover have i: "unat (ucast (Index N) :: u64) = unat (Index N)" "unat (ucast (NameSerialNumber N) :: u64) = unat (NameSerialNumber N)"
    by (simp_all add: unsigned_ucast_eq take_bit_nat_eq_self unsigned_less [THEN less_le_trans])
  moreover have "unat (Index N) < 2 ^ 32" "unat (NameSerialNumber N) < 2 ^ 32"
    using unsigned_less [of "Index N"] unsigned_less [of "NameSerialNumber N"] by simp_all
  moreover from this(1) have "unat (push_bit 32 (ucast (Index N) :: u64)) = unat (Index N) * 2 ^ 32"
    unfolding unsigned_push_bit_eq i(1) by (simp add: take_bit_nat_eq_self push_bit_eq_mult)
  ultimately show ?thesis by (simp add: unat_add_small)
qed

lemma split_pair:
  fixes a b c d :: nat
  assumes "a * 2 ^ 32 + b = c * 2 ^ 32 + d" "b < 2 ^ 32" "d < 2 ^ 32"
  shows "a = c \<and> b = d"
proof -
  have "(a * 2 ^ 32 + b) div 2 ^ 32 = a" "(c * 2 ^ 32 + d) div 2 ^ 32 = c" using assms(2,3) by simp_all
  with assms(1) have "a = c" by metis
  with assms(1) show ?thesis by simp
qed

lemma sort_key_inj: "sort_key N = sort_key M \<Longrightarrow> N = M"
proof -
  assume "sort_key N = sort_key M"
  then have eq: "unat (Index N) * 2 ^ 32 + unat (NameSerialNumber N) = unat (Index M) * 2 ^ 32 + unat (NameSerialNumber M)"
    using sort_key_unat by metis
  have "unat (NameSerialNumber N) < 2 ^ 32" "unat (NameSerialNumber M) < 2 ^ 32"
    using unsigned_less [of "NameSerialNumber N"] unsigned_less [of "NameSerialNumber M"] by simp_all
  with eq have "unat (Index N) = unat (Index M)" "unat (NameSerialNumber N) = unat (NameSerialNumber M)"
    using split_pair by blast+
  then show "N = M" by (cases N; cases M) (simp add: word_unat_eq_iff)
qed

instantiation FName :: linorder
begin

definition less_eq_FName :: "FName \<Rightarrow> FName \<Rightarrow> bool" where "less_eq_FName = FName_le"

definition less_FName :: "FName \<Rightarrow> FName \<Rightarrow> bool" where "less_FName = FName_less"

instance
  by standard
    (auto simp: less_eq_FName_def less_FName_def FName_le_def FName_less_def intro: sort_key_inj)

end

end
