(* ===== verification/FNameProps.thy ===== *)
theory FNameProps
  imports FNameModel
begin

text \<open>
  The number at the end of a name and the digits that print it are inverse to each other, and an
  interface for tables that hand out one value per argument, with the intern table and the
  constructor of names as its instances.
\<close>

section \<open>Digits\<close>

definition dval :: "u8 list \<Rightarrow> nat" where
  "dval ds = fold (\<lambda>c v. v * 10 + (unat c - 48)) ds 0"

lemma dval_simps [simp]: "dval [] = 0" "dval (ds @ [c]) = dval ds * 10 + (unat c - 48)"
  by (simp_all add: dval_def)

lemma dval_one [simp]: "dval [c] = unat c - 48"
  using dval_simps(2) [of "[]"] by simp

lemma digit_unat: "is_digit c \<Longrightarrow> 48 \<le> unat c \<and> unat c \<le> 57 \<and> unat (c - 48) = unat c - 48"
  by (auto simp: is_digit_def word_le_nat_alt unat_sub)

lemma dval_bound: "list_all is_digit ds \<Longrightarrow> dval ds < 10 ^ length ds"
proof (induction ds rule: rev_induct)
  case (snoc c ds)
  then have "dval ds + 1 \<le> 10 ^ length ds" "unat c \<le> 57" using digit_unat [of c] by simp_all
  then show ?case by simp
qed simp

lemma digits_value_dval:
  assumes "list_all is_digit ds" "length ds \<le> 10"
  shows "unat (digits_value ds) = dval ds"
  using assms
proof (induction ds rule: rev_induct)
  case (snoc c ds)
  note d = digit_unat [of c]
  have ih: "unat (digits_value ds) = dval ds" using snoc by simp
  have "dval ds < 10 ^ length ds" using snoc.prems by (intro dval_bound) simp
  also have "(10 :: nat) ^ length ds \<le> 10 ^ 9" by (rule power_increasing) (use snoc.prems in simp_all)
  finally have small: "dval ds < 1000000000" by simp
  have m: "unat (digits_value ds * 10) = dval ds * 10"
    using ih small unat_mult_small [of "digits_value ds" 10] by simp
  have u: "unat (ucast (c - 48) :: u64) = unat c - 48"
  proof -
    have "unat (c - 48) < 2 ^ 64" by (rule less_le_trans [OF unsigned_less]) simp
    then show ?thesis using d snoc.prems by (simp add: unsigned_ucast_eq take_bit_nat_eq_self)
  qed
  have "unat (digits_value ds * 10 + ucast (c - 48)) = dval ds * 10 + (unat c - 48)"
  proof -
    have "unat c - 48 < 10" using d snoc.prems by auto
    with m u small have "unat (digits_value ds * 10) + unat (ucast (c - 48) :: u64) < 2 ^ 64" by simp
    from unat_add_small [OF this] show ?thesis by (simp only: m u)
  qed
  then show ?case by (simp add: digits_value_def)
qed (simp add: digits_value_def)

lemma unat_div_10: "unat ((n :: u32) div 10) = unat n div 10"
  by (simp add: unat_div)

lemma digits_lo_rev:
  "rev (digits_lo n) = (if n div 10 = 0 then [] else rev (digits_lo (n div 10))) @ [48 + ucast (n mod 10)]"
  by (subst digits_lo.simps) simp

lemma last_digit:
  fixes n :: u32
  shows "is_digit (48 + ucast (n mod 10))" "unat (48 + ucast (n mod 10) :: u8) = 48 + unat n mod 10"
proof -
  have m: "unat (n mod 10) = unat n mod 10" by (simp add: unat_mod)
  then have "unat (ucast (n mod 10) :: u8) = unat n mod 10"
    by (simp add: unsigned_ucast_eq take_bit_nat_eq_self)
  then show u: "unat (48 + ucast (n mod 10) :: u8) = 48 + unat n mod 10"
    by (subst unat_add_lem [THEN iffD1]) simp_all
  then show "is_digit (48 + ucast (n mod 10))" by (simp add: is_digit_def word_le_nat_alt)
qed

lemma digits_lo_digits: "list_all is_digit (rev (digits_lo n))" "digits_lo n \<noteq> []"
proof -
  show "list_all is_digit (rev (digits_lo n))"
  proof (induction n rule: digits_lo.induct)
    case (1 n)
    then show ?case unfolding digits_lo_rev [of n] by (auto simp: last_digit)
  qed
  show "digits_lo n \<noteq> []" by (subst digits_lo.simps) simp
qed

lemma dval_digits_lo: "dval (rev (digits_lo n)) = unat n"
proof (induction n rule: digits_lo.induct)
  case (1 n)
  show ?case
  proof (cases "n div 10 = 0")
    case True
    then have "unat n div 10 = 0" by (metis unat_0 unat_div_10)
    with True show ?thesis unfolding digits_lo_rev [of n] by (simp add: last_digit)
  next
    case False
    with 1 show ?thesis unfolding digits_lo_rev [of n] by (simp add: last_digit unat_div)
  qed
qed

lemma dval_pos: "list_all is_digit ds \<Longrightarrow> ds \<noteq> [] \<Longrightarrow> hd ds \<noteq> 48 \<Longrightarrow> 0 < dval ds"
proof (induction ds rule: rev_induct)
  case (snoc c ds)
  show ?case
  proof (cases ds)
    case Nil
    with snoc.prems digit_unat [of c] have "unat c \<noteq> 48" by (auto simp: word_unat_eq_iff)
    with Nil snoc.prems digit_unat [of c] show ?thesis by simp
  next
    case (Cons a list)
    then have "0 < dval ds" using snoc by simp
    then show ?thesis by simp
  qed
qed simp

text \<open>Digits without a leading zero are the digits of their value.\<close>

lemma digits_lo_unique:
  assumes "list_all is_digit ds" "ds \<noteq> []" "hd ds \<noteq> 48" "dval ds = unat n"
  shows "rev (digits_lo n) = ds"
  using assms
proof (induction ds arbitrary: n rule: rev_induct)
  case (snoc c ds)
  note c = digit_unat [of c]
  have q: "unat (n div 10) = dval ds" "unat n mod 10 = unat c - 48"
  proof -
    have e: "unat n = dval ds * 10 + (unat c - 48)" "unat c - 48 < 10" using snoc.prems c by auto
    show "unat (n div 10) = dval ds" "unat n mod 10 = unat c - 48" unfolding unat_div_10 e(1) using e(2) by simp_all
  qed
  have last: "48 + ucast (n mod 10) = c"
    using last_digit(2) [of n] q(2) c snoc.prems(1) by (simp add: word_unat_eq_iff)
  show ?case
  proof (cases "ds = []")
    case True
    then have "n div 10 = 0" using q(1) by (simp add: word_unat_eq_iff)
    with True last show ?thesis unfolding digits_lo_rev [of n] by simp
  next
    case False
    then have h: "hd ds \<noteq> 48" "list_all is_digit ds" using snoc.prems by simp_all
    have "0 < dval ds" by (rule dval_pos [OF h(2) False h(1)])
    then have "n div 10 \<noteq> 0" using q(1) by auto
    with last snoc.IH [OF h(2) False h(1)] q(1) show ?thesis unfolding digits_lo_rev [of n] by simp
  qed
qed simp

section \<open>Parsing\<close>

lemma walk_digits_spec:
  assumes "walk_digits s n d = r"
  shows "r \<le> d" "1 \<le> d \<Longrightarrow> 1 \<le> r" "\<forall>i. r \<le> i \<longrightarrow> i < d \<longrightarrow> is_digit (s ! i)"
proof -
  have "r \<le> d \<and> (1 \<le> d \<longrightarrow> 1 \<le> r) \<and> (\<forall>i. r \<le> i \<longrightarrow> i < d \<longrightarrow> is_digit (s ! i))"
    using assms
  proof (induction d)
    case (Suc d)
    then show ?case by (auto simp: less_Suc_eq le_Suc_eq split: if_splits)
  qed simp
  then show "r \<le> d" "1 \<le> d \<Longrightarrow> 1 \<le> r" "\<forall>i. r \<le> i \<longrightarrow> i < d \<longrightarrow> is_digit (s ! i)" by blast+
qed

lemma parse_spec:
  assumes "n \<le> length s" "ParseNumberedSuffix (Some s) (int n) = (BaseLen, k)"
  obtains (plain) "k = 0" "BaseLen = int n"
    | (numbered) m where "k \<noteq> 0" "BaseLen = int m" "m \<le> n" "take n s = take m s @ suffix_text k"
proof -
  define d where "d = walk_digits s n n"
  define ds where "ds = take (n - d) (drop d s)"
  note w = walk_digits_spec [OF d_def [symmetric]]
  show ?thesis
  proof (cases "k = 0 \<and> BaseLen = int n")
    case True
    then show ?thesis by (intro plain) simp_all
  next
    case False
    with assms(2) have p: "3 \<le> n" "d < n" "1 \<le> d" "s ! (d - 1) = 95" "n - d \<le> 10" "s ! d \<noteq> 48"
      "\<not> 0xFFFFFFFF < digits_value ds" "BaseLen = int d - 1" "k = ucast (digits_value ds)"
      by (auto simp: ParseNumberedSuffix_def Let_def d_def [symmetric] ds_def [symmetric] split: if_splits)
    have len: "length ds = n - d" using assms(1) p(2) by (simp add: ds_def)
    have dig: "list_all is_digit ds"
      using w(3) len assms(1) by (auto simp: list_all_length ds_def)
    have ne: "ds \<noteq> []" "hd ds \<noteq> 48" using len p(2,6) assms(1) by (auto simp: ds_def hd_drop_conv_nth hd_conv_nth)
    have v: "unat (digits_value ds) = dval ds" using digits_value_dval [OF dig] len p(5) by simp
    have "unat (digits_value ds) \<le> 0xFFFFFFFF" using p(7) by (simp add: word_less_nat_alt)
    then have uk: "unat k = dval ds" using v p(9) by (simp add: unsigned_ucast_eq take_bit_nat_eq_self)
    then have k0: "k \<noteq> 0" using dval_pos [OF dig ne] by auto
    have "rev (digits_lo k) = ds" by (rule digits_lo_unique [OF dig ne uk [symmetric]])
    then have "take (d - 1) s @ suffix_text k = take (d - 1) s @ s ! (d - 1) # ds" using p(4) by (simp add: suffix_text_def)
    also have "\<dots> = take d s @ ds"
      using take_Suc_conv_app_nth [of "d - 1" s] p(2,3) assms(1) by simp
    also have "\<dots> = take n s"
      using take_add [of d "n - d" s] p(2) by (simp add: ds_def)
    finally have "take n s = take (d - 1) s @ suffix_text k" by simp
    with k0 p show ?thesis by (intro numbered [of "d - 1"]) simp_all
  qed
qed

text \<open>The other way: the text of a number of two digits or more, on its own, is parsed as that number.\<close>

lemma digits_lo_length: "unat n < 10 ^ Suc w \<Longrightarrow> length (digits_lo n) \<le> Suc w"
proof (induction w arbitrary: n)
  case 0
  then have "n div 10 = 0" using unat_div_10 [of n] by (simp add: word_unat_eq_iff)
  then show ?case by (subst digits_lo.simps) simp
next
  case (Suc w)
  then have "unat (n div 10) < 10 ^ Suc w" unfolding unat_div_10 by (simp add: div_less_iff_less_mult mult.commute)
  from Suc.IH [OF this] show ?case by (subst digits_lo.simps) simp
qed

lemma forty_eight: "unat (48 :: u8) = 48"
  by simp

lemma digits_lo_hd: "n \<noteq> 0 \<Longrightarrow> hd (rev (digits_lo n)) \<noteq> 48"
proof (induction n rule: digits_lo.induct)
  case (1 n)
  show ?case
  proof (cases "n div 10 = 0")
    case True
    then have "unat n div 10 = 0" by (metis unat_0 unat_div_10)
    moreover have "unat n \<noteq> 0" using 1(2) by (simp add: unat_eq_0)
    ultimately have "unat (48 + ucast (n mod 10) :: u8) \<noteq> 48" unfolding last_digit(2) by simp
    then have "(48 + ucast (n mod 10) :: u8) \<noteq> 48" by (metis forty_eight)
    with True show ?thesis unfolding digits_lo_rev [of n] by simp
  next
    case False
    with 1(1) digits_lo_digits(2) [of "n div 10"] show ?thesis unfolding digits_lo_rev [of n] by (simp add: hd_append)
  qed
qed

lemma walk_digits_all:
  "n \<le> 11 \<Longrightarrow> 1 \<le> d \<Longrightarrow> \<forall>i. 1 \<le> i \<longrightarrow> i < d \<longrightarrow> is_digit (s ! i) \<Longrightarrow> walk_digits s n d = 1"
proof (induction d)
  case (Suc d)
  then show ?case by (cases "d = 0") auto
qed simp

lemma parse_suffix_text:
  assumes "10 \<le> k"
  shows "ParseNumberedSuffix (Some (suffix_text k)) (int (length (suffix_text k))) = (0, k)"
proof -
  define ds where "ds = rev (digits_lo k)"
  have s: "suffix_text k = 95 # ds" by (simp add: suffix_text_def ds_def)
  have k: "10 \<le> unat k" "k \<noteq> 0" using assms by (auto simp: word_le_nat_alt)
  have dig: "list_all is_digit ds" and v: "dval ds = unat k" and hd: "hd ds \<noteq> 48" "ds \<noteq> []"
    using digits_lo_digits dval_digits_lo digits_lo_hd [OF k(2)] by (simp_all add: ds_def)
  have u: "unat k < 2 ^ 32" using unsigned_less [of k] by simp
  have len: "length ds \<le> 10" using digits_lo_length [of k 9] u by (simp add: ds_def)
  have "dval ds < 10 ^ length ds" by (rule dval_bound [OF dig])
  then have "length ds \<noteq> 1" "length ds \<noteq> 0" using v k(1) hd(2) by (auto intro!: notI)
  then have two: "2 \<le> length ds" by linarith
  have w: "walk_digits (95 # ds) (Suc (length ds)) (Suc (length ds)) = 1"
    by (rule walk_digits_all) (use len dig in \<open>auto simp: list_all_length nth_Cons'\<close>)
  have dv: "unat (digits_value ds) = unat k" using digits_value_dval [OF dig] len v by simp
  then have "\<not> 0xFFFFFFFF < digits_value ds" using u by (simp add: word_less_nat_alt)
  moreover have "ucast (digits_value ds) = k"
    using dv u by (simp add: word_unat_eq_iff unsigned_ucast_eq take_bit_nat_eq_self)
  moreover have "ds ! 0 \<noteq> 48" using hd by (simp add: hd_conv_nth)
  moreover have n: "int (length (95 # ds)) = int (Suc (length ds))" "nat (int (Suc (length ds))) = Suc (length ds)"
    by simp_all
  ultimately show ?thesis
    unfolding s ParseNumberedSuffix_def option.case n Let_def w using two len hd(2) by simp
qed

lemma parse_bare:
  "fst (ParseNumberedSuffix (Some s) (int (length s))) \<le> 0 \<longleftrightarrow> s = [] \<or> (\<exists>k \<ge> 10. s = suffix_text k)"
proof
  obtain l k where p: "ParseNumberedSuffix (Some s) (int (length s)) = (l, k)" by fastforce
  assume "fst (ParseNumberedSuffix (Some s) (int (length s))) \<le> 0"
  then have l: "l \<le> 0" using p by simp
  show "s = [] \<or> (\<exists>k \<ge> 10. s = suffix_text k)"
  proof (cases rule: parse_spec [OF le_refl p])
    case 1
    with l show ?thesis by simp
  next
    case (2 m)
    with l have s: "s = suffix_text k" by simp
    have "10 \<le> k"
    proof (rule ccontr)
      assume "\<not> 10 \<le> k"
      then have "k div 10 = 0" by (simp add: word_unat_eq_iff unat_div_10 word_le_nat_alt)
      then have "length s = 2" unfolding s suffix_text_def by (subst digits_lo.simps) simp
      with p have "k = 0" by (simp add: ParseNumberedSuffix_def)
      with 2(1) show False ..
    qed
    with s show ?thesis by blast
  qed
next
  assume "s = [] \<or> (\<exists>k \<ge> 10. s = suffix_text k)"
  then show "fst (ParseNumberedSuffix (Some s) (int (length s))) \<le> 0"
  proof
    assume "s = []"
    then show ?thesis by (simp add: ParseNumberedSuffix_def)
  next
    assume "\<exists>k \<ge> 10. s = suffix_text k"
    then show ?thesis using parse_suffix_text by auto
  qed
qed

section \<open>Tables that hand out values\<close>

fun map_state :: "('a \<Rightarrow> 's \<Rightarrow> 'e + ('b \<times> 's)) \<Rightarrow> 'a list \<Rightarrow> 's \<Rightarrow> 'e + ('b list \<times> 's)" where
  "map_state f [] s = Inr ([], s)"
| "map_state f (x # xs) s =
     rbind (f x s) (\<lambda>(y, s'). rbind (map_state f xs s') (\<lambda>(ys, s''). Inr (y # ys, s'')))"

text \<open>
  The interface: while it has room, \<open>make\<close> answers an argument with a value that stands for it from
  then on, and two values are equal exactly when they stand for the same argument.
\<close>

locale interning =
  fixes make :: "'a \<Rightarrow> 's \<Rightarrow> 'e + ('n \<times> 's)"
    and room :: "nat \<Rightarrow> 's \<Rightarrow> bool"
    and arg_ok :: "'a \<Rightarrow> bool"
    and stands_for :: "'s \<Rightarrow> 'n \<Rightarrow> 'a \<Rightarrow> bool"
    and grows :: "'s \<Rightarrow> 's \<Rightarrow> bool"
  assumes make_ok: "room (Suc k) s \<Longrightarrow> arg_ok a \<Longrightarrow>
      \<exists>n s'. make a s = Inr (n, s') \<and> room k s' \<and> grows s s' \<and> stands_for s' n a"
    and stands_grows: "room k s \<Longrightarrow> grows s s' \<Longrightarrow> stands_for s n a \<Longrightarrow> stands_for s' n a"
    and stands_inj: "room k s \<Longrightarrow> arg_ok a \<Longrightarrow> arg_ok a' \<Longrightarrow> stands_for s n a \<Longrightarrow> stands_for s n' a' \<Longrightarrow> n = n' \<longleftrightarrow> a = a'"
    and grows_refl: "grows s s"
    and grows_trans: "grows s s' \<Longrightarrow> grows s' s'' \<Longrightarrow> grows s s''"
begin

lemma make_all:
  assumes "room (length as + k) s" "\<forall>a \<in> set as. arg_ok a"
  shows "\<exists>ns s'. map_state make as s = Inr (ns, s') \<and> room k s' \<and> grows s s' \<and> list_all2 (stands_for s') ns as"
  using assms
proof (induction as arbitrary: s)
  case (Cons a as)
  obtain n s1 where s1: "make a s = Inr (n, s1)" "room (length as + k) s1" "grows s s1" "stands_for s1 n a"
    using make_ok [of "length as + k" s a] Cons.prems by auto
  obtain ns s2 where s2: "map_state make as s1 = Inr (ns, s2)" "room k s2" "grows s1 s2" "list_all2 (stands_for s2) ns as"
    using Cons.IH [OF s1(2)] Cons.prems(2) by auto
  have "stands_for s2 n a" by (rule stands_grows [OF s1(2) s2(3) s1(4)])
  with s1(1) s2 grows_trans [OF s1(3) s2(3)] show ?case by (intro exI [of _ "n # ns"] exI [of _ s2]) simp
qed (simp add: grows_refl)

lemma equal_values:
  assumes "room k s" "\<forall>a \<in> set as. arg_ok a" "list_all2 (stands_for s) ns as" "i < length as" "j < length as"
  shows "ns ! i = ns ! j \<longleftrightarrow> as ! i = as ! j"
  using assms by (intro stands_inj [OF assms(1)]) (auto simp: list_all2_conv_all_nth)

end

section \<open>The intern table and the names as instances\<close>

definition pool_room :: "nat \<Rightarrow> FNamePool \<Rightarrow> bool" where
  "pool_room k P \<longleftrightarrow> callable P \<and> (\<forall>sid. NextShardLocalId (get_shard P sid) + 2 * k \<le> 16777216)"

lemma pool_room_less: "pool_room (Suc k) P \<Longrightarrow> pool_room k P"
proof -
  have less: "x + 2 * k \<le> (16777216 :: nat)" if "x + 2 * Suc k \<le> 16777216" for x using that by simp
  show "pool_room (Suc k) P \<Longrightarrow> pool_room k P" unfolding pool_room_def using less by blast
qed

definition pool_grows :: "FNamePool \<Rightarrow> FNamePool \<Rightarrow> bool" where
  "pool_grows P P' \<longleftrightarrow> (m_isInitialised P \<longrightarrow> pool_extends P P')"

definition index_stands :: "FNamePool \<Rightarrow> u32 \<Rightarrow> u8 list \<Rightarrow> bool" where
  "index_stands P n u \<longleftrightarrow> (if u = [] then n = kNoneIndex else resolves P n u)"

definition name_ok :: "u8 list \<Rightarrow> bool" where
  "name_ok u \<longleftrightarrow> length u \<le> kFNameMaxLength"

lemma Intern_room:
  assumes P: "pool_room (Suc k) P" and u: "name_ok (take (nat l) s)" "nat l \<le> length s"
  obtains n P' where "Intern b fresh (Some s) l P = Inr (n, P')" "pool_room k P'" "m_isInitialised P'"
    "pool_grows P P'" "index_stands P' n (take (nat l) s)"
proof -
  have c: "callable P" and r: "NextShardLocalId (get_shard P sid) + 2 * Suc k \<le> 16777216" for sid
    using P by (simp_all add: pool_room_def)
  have r': "NextShardLocalId (get_shard P sid) < 16777215" for sid using r [of sid] by simp
  obtain n P' where n: "Intern b fresh (Some s) l P = Inr (n, P')" "callable P'" "m_isInitialised P'"
    "m_isInitialised P \<Longrightarrow> pool_extends P P'" "\<And>sid. NextShardLocalId (get_shard P' sid) \<le> NextShardLocalId (get_shard P sid) + 2"
    "l \<le> 0 \<Longrightarrow> n = kNoneIndex" "0 < l \<Longrightarrow> resolves P' n (name_arg s l)"
    by (rule Intern_spec [OF c _ r', of "Some s" l b fresh]) (use u in \<open>auto simp: name_ok_def intro: that\<close>)
  have "NextShardLocalId (get_shard P' sid) + 2 * k \<le> 16777216" for sid using n(5) [of sid] r [of sid] by simp
  then have "pool_room k P'" using n(2) by (simp add: pool_room_def)
  moreover have "index_stands P' n (take (nat l) s)"
    using n(6,7) u(2) by (cases "0 < l") (auto simp: index_stands_def name_arg_def resolves_def)
  ultimately show ?thesis using n by (intro that [of n P']) (simp_all add: pool_grows_def)
qed

lemma index_stands_grows:
  assumes "pool_room k P" "pool_grows P P'" "index_stands P n u"
  shows "index_stands P' n u"
proof (cases "m_isInitialised P")
  case True
  with assms(2,3) resolves_extends show ?thesis by (auto simp: pool_grows_def index_stands_def split: if_splits)
next
  case False
  with assms(1) have "NextShardLocalId (get_shard P sid) = 0" for sid
    by (cases "sid = 0") (auto simp: pool_room_def callable_def untouched_def Shard_ctor_def)
  with assms(3) show ?thesis by (auto simp: index_stands_def resolves_def split: if_splits)
qed

lemma index_stands_inj:
  assumes "pool_room k P" "index_stands P n u" "index_stands P m v"
  shows "n = m \<longleftrightarrow> u = v"
proof -
  have "pool_inv P" using assms(1) by (simp add: pool_room_def callable_def)
  then show ?thesis
    using assms(2,3) resolves_not_none resolves_inj by (auto simp: index_stands_def split: if_splits)
qed

lemma pool_grows_refl: "pool_grows P P"
  by (simp add: pool_grows_def)

lemma pool_grows_trans: "pool_grows P P' \<Longrightarrow> pool_grows P' P'' \<Longrightarrow> pool_grows P P''"
  using pool_extends_trans by (auto simp: pool_grows_def pool_extends_def)

interpretation indices: interning "\<lambda>u. Intern b fresh (Some u) (int (length u))" pool_room name_ok index_stands pool_grows
  for b fresh
proof unfold_locales
  fix k P u assume P: "pool_room (Suc k) P" and u: "name_ok u"
  have t: "take (nat (int (length u))) u = u" "nat (int (length u)) \<le> length u" by simp_all
  show "\<exists>n P'. Intern b fresh (Some u) (int (length u)) P = Inr (n, P') \<and> pool_room k P' \<and> pool_grows P P' \<and> index_stands P' n u"
    using Intern_room [OF P _ t(2), of b fresh] u t(1) by metis
qed (blast intro: index_stands_grows index_stands_inj [THEN iffD1] index_stands_inj [THEN iffD2] pool_grows_refl pool_grows_trans)+

text \<open>A name stands for a text: its number is the parsed one, its index stands for the rest.\<close>

definition name_stands :: "FNamePool \<Rightarrow> FName \<Rightarrow> u8 list \<Rightarrow> bool" where
  "name_stands P N s \<longleftrightarrow> (case ParseNumberedSuffix (Some s) (int (length s)) of (BaseLen, k) \<Rightarrow>
     NameSerialNumber N = k \<and> index_stands P (Index N) (take (nat BaseLen) s))"

lemma parse_bounds:
  assumes "ParseNumberedSuffix (Some s) (int (length s)) = (BaseLen, k)"
  shows "0 \<le> BaseLen" "nat BaseLen \<le> length s"
  by (cases rule: parse_spec [OF le_refl assms]; simp)+

lemma FName_of_range_spec:
  assumes P: "pool_room (Suc k) P" and s: "name_ok s"
  shows "\<exists>N P'. FName_of_range b fresh (Some s) (int (length s)) P = Inr (N, P') \<and> pool_room k P' \<and> pool_grows P P' \<and> name_stands P' N s"
proof (cases "s = []")
  case True
  have "pool_room k P" by (rule pool_room_less [OF P])
  then show ?thesis using True pool_grows_refl
    by (auto simp: FName_of_range_def name_stands_def index_stands_def ParseNumberedSuffix_def)
next
  case False
  obtain BaseLen n where p: "ParseNumberedSuffix (Some s) (int (length s)) = (BaseLen, n)" by fastforce
  note q = parse_bounds [OF p]
  have "name_ok (take (nat BaseLen) s)" using s by (simp add: name_ok_def)
  then obtain I P' where I: "Intern b fresh (Some s) BaseLen P = Inr (I, P')" "pool_room k P'" "pool_grows P P'"
    "index_stands P' I (take (nat BaseLen) s)"
    by (rule Intern_room [OF P _ q(2), of b fresh]) (rule that)
  with False s p show ?thesis
    by (intro exI [of _ "FName I n"] exI [of _ P']) (simp add: FName_of_range_def name_ok_def name_stands_def)
qed

lemma name_stands_grows: "pool_room k P \<Longrightarrow> pool_grows P P' \<Longrightarrow> name_stands P N s \<Longrightarrow> name_stands P' N s"
  using index_stands_grows by (auto simp: name_stands_def split: prod.splits)

lemma name_stands_inj:
  assumes "pool_room k P" "name_stands P N s" "name_stands P M t"
  shows "N = M \<longleftrightarrow> s = t"
proof -
  obtain l n where p: "ParseNumberedSuffix (Some s) (int (length s)) = (l, n)" by fastforce
  obtain l' m where p': "ParseNumberedSuffix (Some t) (int (length t)) = (l', m)" by fastforce
  have st: "NameSerialNumber N = n" "index_stands P (Index N) (take (nat l) s)"
    "NameSerialNumber M = m" "index_stands P (Index M) (take (nat l') t)"
    using assms(2,3) p p' by (simp_all add: name_stands_def)
  note i = index_stands_inj [OF assms(1) st(2,4)]
  have whole: "s = (if n = 0 then take (nat l) s else take (nat l) s @ suffix_text n)"
    using parse_spec [OF le_refl p] by cases auto
  have whole': "t = (if m = 0 then take (nat l') t else take (nat l') t @ suffix_text m)"
    using parse_spec [OF le_refl p'] by cases auto
  show ?thesis
  proof
    assume "N = M"
    with st i have "n = m" "take (nat l) s = take (nat l') t" by simp_all
    with whole whole' show "s = t" by metis
  next
    assume "s = t"
    with p p' have "n = m" "l = l'" by simp_all
    with st i \<open>s = t\<close> show "N = M" by (simp add: FName.expand)
  qed
qed

interpretation names: interning "\<lambda>s. FName_of_range b fresh (Some s) (int (length s))" pool_room name_ok name_stands pool_grows
  for b fresh
proof unfold_locales
  show "\<exists>N P'. FName_of_range b fresh (Some s) (int (length s)) P = Inr (N, P') \<and> pool_room k P' \<and> pool_grows P P' \<and> name_stands P' N s"
    if "pool_room (Suc k) P" "name_ok s" for k P s by (rule FName_of_range_spec [OF that])
qed (blast intro: name_stands_grows name_stands_inj [THEN iffD1] name_stands_inj [THEN iffD2] pool_grows_refl pool_grows_trans)+

section \<open>Reading a name back\<close>

definition base_text :: "u8 list \<Rightarrow> u8 list" where
  "base_text u = (if u = [] then NoneStr else u)"

definition number_text :: "u32 \<Rightarrow> u8 list" where
  "number_text k = (if k = 0 then [] else suffix_text k)"

lemma AppendString_spec:
  assumes P: "callable P" and st: "index_stands P (Index N) u"
  shows "AppendString b fresh N Out P = Inr (Out @ base_text u @ number_text (NameSerialNumber N), P)"
proof (cases "u = []")
  case True
  with st show ?thesis
    by (simp add: AppendString_def GetBaseBytes_def GetBaseLength_def index_stands_def base_text_def number_text_def base_bytes_def)
next
  case False
  let ?sid = "GetShardIdFromHash (Hash64_list u)"
  have r: "resolves P (Index N) u" and inv: "pool_inv P" using st False P by (simp_all add: index_stands_def callable_def)
  then obtain i where i: "Index N = MakeIndex ?sid (word_of_nat i)" "i < NextShardLocalId (get_shard P ?sid)"
    "ename (get_shard P ?sid) i = u" by (auto simp: resolves_def)
  have init: "m_isInitialised P"
  proof (rule ccontr)
    assume "\<not> m_isInitialised P"
    then have "NextShardLocalId (get_shard P sid) = 0" for sid
      using P by (cases "sid = 0") (auto simp: callable_def untouched_def Shard_ctor_def)
    with i(2) show False by simp
  qed
  note f = FindEntry_index [OF inv init i(2), folded i(1)]
  have "GetBytes (get_shard P ?sid) (eptr (get_shard P ?sid) i) (unat (GetLength (get_shard P ?sid) (eptr (get_shard P ?sid) i))) = u"
    using f(2) i(3) by (simp add: entry_name_def Let_def)
  then show ?thesis
    using f(1) [of b fresh] resolves_not_none [OF inv r] False
    by (simp add: AppendString_def GetBaseBytes_def GetBaseLength_def base_bytes_def base_text_def number_text_def)
qed

text \<open>The text of a name made of \<open>s\<close>.\<close>

definition printed :: "u8 list \<Rightarrow> u8 list" where
  "printed s = (if s = [] \<or> (\<exists>k \<ge> 10. s = suffix_text k) then NoneStr @ s else s)"

lemma printed_parse:
  "printed s = (if fst (ParseNumberedSuffix (Some s) (int (length s))) \<le> 0 then NoneStr @ s else s)"
  by (simp add: printed_def parse_bare)

lemma ToString_name:
  assumes P: "callable P" and st: "name_stands P N s"
  shows "ToString b fresh N P = Inr (printed s, P)"
proof -
  obtain l k where p: "ParseNumberedSuffix (Some s) (int (length s)) = (l, k)" by fastforce
  have n: "NameSerialNumber N = k" "index_stands P (Index N) (take (nat l) s)" using st p by (simp_all add: name_stands_def)
  have "base_text (take (nat l) s) @ number_text k = printed s"
  proof (cases rule: parse_spec [OF le_refl p])
    case 1
    then show ?thesis using p by (auto simp: base_text_def number_text_def printed_parse)
  next
    case (2 m)
    then show ?thesis using p by (cases "m = 0") (auto simp: base_text_def number_text_def printed_parse)
  qed
  then show ?thesis using AppendString_spec [OF P n(2), of b fresh "[]"] n(1) by (simp add: ToString_def)
qed

end
