(* ===== verification/FNameTheorems.thy ===== *)
theory FNameTheorems
  imports FNameProps
begin

text \<open>
  What names promise: they print what they were made of, they are equal when they were made of
  the same text, and no two of them share a hash; and where equal text does not make equal names.
\<close>

lemma ctor_room: "2 * k \<le> 16777216 \<Longrightarrow> pool_room k FNamePool_ctor"
  using callable_ctor by (simp add: pool_room_def pool_ctor_shard Shard_ctor_def)

lemma le_bytes_inj:
  fixes v w :: u32
  assumes "le_bytes 4 v = le_bytes 4 w"
  shows "v = w"
proof (rule bit_word_eqI)
  fix n assume n: "n < LENGTH(32)"
  then have i: "n div 8 < 4" by (simp add: less_mult_imp_div_less)
  have "le_bytes 4 v ! (n div 8) = le_bytes 4 w ! (n div 8)" using assms by simp
  then have "ucast (drop_bit (8 * (n div 8)) v) = (ucast (drop_bit (8 * (n div 8)) w) :: u8)"
    using i by (simp add: le_bytes_def)
  then have "bit (ucast (drop_bit (8 * (n div 8)) v) :: u8) (n mod 8) = bit (ucast (drop_bit (8 * (n div 8)) w) :: u8) (n mod 8)"
    by simp
  moreover have "n mod 8 < 8" by simp
  ultimately show "bit v n = bit w n" by (simp add: bit_ucast_iff bit_drop_bit_eq mult_div_mod_eq add.commute)
qed

lemma handle_bits_key: "handle_bits N = sort_key (FName (NameSerialNumber N) (Index N))"
  by (simp add: handle_bits_def sort_key_def or.commute)

lemma FName_eq_iff: "FName_eq N M \<longleftrightarrow> N = M"
  using sort_key_inj unfolding FName_eq_def handle_bits_key by (metis FName.expand FName.sel)

text \<open>
  C28: Made one after the other, from the constructed pool on, a name prints the text it was made of,
  however many are made after it, except that the empty text and the texts that are only an
  underscore and a number from 10 on print with \<open>None\<close> in front; and two names are equal exactly when
  their texts are.
\<close>

theorem names_print_their_text:
  assumes "length texts \<le> 8388608" "\<forall>s \<in> set texts. length s \<le> kFNameMaxLength"
  shows "\<exists>Ns P. map_state (\<lambda>s. FName_of_range b fresh (Some s) (int (length s))) texts FNamePool_ctor = Inr (Ns, P)
     \<and> length Ns = length texts
     \<and> (\<forall>i < length texts. ToString b fresh (Ns ! i) P
          = Inr (if texts ! i = [] \<or> (\<exists>k \<ge> 10. texts ! i = suffix_text k) then NoneStr @ texts ! i
                 else texts ! i, P))
     \<and> (\<forall>i < length texts. \<forall>j < length texts.
          (FName_eq (Ns ! i) (Ns ! j) \<longleftrightarrow> texts ! i = texts ! j) \<and> (Ns ! i = Ns ! j \<longleftrightarrow> texts ! i = texts ! j))"
proof -
  have room: "pool_room (length texts + 0) FNamePool_ctor" using assms(1) by (intro ctor_room) simp
  have ok: "\<forall>s \<in> set texts. name_ok s" using assms(2) by (simp add: name_ok_def)
  obtain Ns P where Ns: "map_state (\<lambda>s. FName_of_range b fresh (Some s) (int (length s))) texts FNamePool_ctor = Inr (Ns, P)"
    "pool_room 0 P" "list_all2 (name_stands P) Ns texts"
    using names.make_all [OF room ok, of b fresh] by blast
  have "callable P" using Ns(2) by (simp add: pool_room_def)
  then have "ToString b fresh (Ns ! i) P = Inr (printed (texts ! i), P)" if "i < length texts" for i
    using ToString_name list_all2_nthD2 [OF Ns(3) that] by blast
  moreover have "Ns ! i = Ns ! j \<longleftrightarrow> texts ! i = texts ! j" if "i < length texts" "j < length texts" for i j
    by (rule names.equal_values [OF Ns(2) ok Ns(3) that])
  ultimately show ?thesis
    using Ns(1) list_all2_lengthD [OF Ns(3)] by (simp add: FName_eq_iff printed_def)
qed

theorem names_print_their_text_witness:
  "\<exists>N1 N2 P. map_state (\<lambda>s. FName_of_range Checked (\<lambda>_. 0) (Some s) (int (length s))) [[65, 95, 49, 50], [95, 55, 55]] FNamePool_ctor
       = Inr ([N1, N2], P)
     \<and> ToString Checked (\<lambda>_. 0) N1 P = Inr ([65, 95, 49, 50], P)
     \<and> ToString Checked (\<lambda>_. 0) N2 P = Inr ([78, 111, 110, 101, 95, 55, 55], P)
     \<and> \<not> FName_eq N1 N2"
proof -
  have ok: "\<forall>s \<in> set [[65, 95, 49, 50], [95, 55, 55]]. length (s :: u8 list) \<le> kFNameMaxLength"
    by (simp add: kFNameMaxLength_def)
  have pr: "printed [65, 95, 49, 50] = [65, 95, 49, 50]" "printed [95, 55, 55] = [78, 111, 110, 101, 95, 55, 55]"
    unfolding printed_parse by code_simp+
  from names_print_their_text [OF _ ok, of Checked "\<lambda>_. 0", folded printed_def]
  obtain Ns P where Ns: "map_state (\<lambda>s. FName_of_range Checked (\<lambda>_. 0) (Some s) (int (length s))) [[65, 95, 49, 50], [95, 55, 55]] FNamePool_ctor = Inr (Ns, P)"
    and len: "length Ns = 2" and each: "\<forall>i < 2. ToString Checked (\<lambda>_. 0) (Ns ! i) P = Inr (printed ([[65, 95, 49, 50], [95, 55, 55]] ! i), P)"
    and eq: "\<forall>i < 2. \<forall>j < 2. FName_eq (Ns ! i) (Ns ! j) \<longleftrightarrow> [[65, 95, 49, 50], [95, 55, 55 :: u8]] ! i = [[65, 95, 49, 50], [95, 55, 55]] ! j"
    by auto
  obtain N1 N2 where N: "Ns = [N1, N2]" using len by (auto simp: length_Suc_conv eval_nat_numeral)
  have "ToString Checked (\<lambda>_. 0) N1 P = Inr (printed [65, 95, 49, 50], P)"
    "ToString Checked (\<lambda>_. 0) N2 P = Inr (printed [95, 55, 55], P)" "\<not> FName_eq N1 N2"
    using each [rule_format, of 0] each [rule_format, of 1] eq [rule_format, of 0 1] by (simp_all add: N)
  with Ns N show ?thesis unfolding pr by blast
qed

text \<open>
  C29: The hash of a name, the byte-wise hash of its handle, is the same for two names exactly
  when the names are equal: no two names collide in a table keyed by names.
\<close>

theorem name_hashes_never_collide:
  "(GetTypeHash N = GetTypeHash M \<longleftrightarrow> FName_eq N M) \<and> (FName_eq N M \<longleftrightarrow> N = M)"
proof -
  have len: "length (handle_bytes N) = 8" for N by (simp add: handle_bytes_def le_bytes_def)
  have "N = M" if "GetTypeHash N = GetTypeHash M"
  proof -
    have "same_bytes 8 (\<lambda>i. handle_bytes N ! i) (\<lambda>i. handle_bytes M ! i)"
      using that by (intro Hash64_short_inj [of 8 _ 0]) (simp_all add: GetTypeHash_def Hash64_list_def len)
    then have "handle_bytes N = handle_bytes M" by (intro nth_equalityI) (simp_all add: len same_bytes_def)
    then have "le_bytes 4 (Index N) = le_bytes 4 (Index M)" "le_bytes 4 (NameSerialNumber N) = le_bytes 4 (NameSerialNumber M)"
      by (simp_all add: handle_bytes_def le_bytes_def)
    then show ?thesis by (intro FName.expand) (simp add: le_bytes_inj)
  qed
  then show ?thesis by (auto simp: FName_eq_iff)
qed

text \<open>
  C31: Equal text does not make names equal.  The name made of the word \<open>None\<close> is not \<open>NAME_None\<close>
  though both print it; and a base whose own end reads as a number gives, kept whole by the
  constructor from parts, a second name that prints like the parsed one.
\<close>

theorem same_text_different_names:
  assumes "pool_room 2 P" "length s \<le> kFNameMaxLength" "snd (ParseNumberedSuffix (Some s) (int (length s))) \<noteq> 0"
    and "0 < fst (ParseNumberedSuffix (Some s) (int (length s)))"
  shows "(\<exists>N P1. FName_of_range b fresh (Some NoneStr) (int (length NoneStr)) P = Inr (N, P1)
       \<and> \<not> IsNone N \<and> \<not> FName_eq N NAME_None
       \<and> ToString b fresh N P1 = Inr (NoneStr, P1) \<and> ToString b fresh NAME_None P1 = Inr (NoneStr, P1))
     \<and> (\<exists>N M P1 P2. FName_of_range b fresh (Some s) (int (length s)) P = Inr (N, P1)
       \<and> FName_of_parts b fresh (Some s) (int (length s)) 0 P1 = Inr (M, P2)
       \<and> \<not> FName_eq N M \<and> ToString b fresh N P2 = Inr (s, P2) \<and> ToString b fresh M P2 = Inr (s, P2))"
proof
  have "callable P" using assms(1) by (simp add: pool_room_def)
  note room = pool_room_less [of 1 P] assms(1)
  have parse: "ParseNumberedSuffix (Some NoneStr) (int (length NoneStr)) = (4, 0)" by code_simp
  have "name_ok NoneStr" by (simp add: name_ok_def NoneStr_def kFNameMaxLength_def)
  from FName_of_range_spec [OF _ this, of 1 P b fresh]
  obtain N P1 where N: "FName_of_range b fresh (Some NoneStr) (int (length NoneStr)) P = Inr (N, P1)"
    "pool_room 1 P1" "name_stands P1 N NoneStr"
    using assms(1) by (auto simp: numeral_2_eq_2)
  have c: "callable P1" using N(2) by (simp add: pool_room_def)
  have "index_stands P1 (Index N) NoneStr" using N(3) parse by (simp add: name_stands_def NoneStr_def)
  then have "Index N \<noteq> kNoneIndex"
    using resolves_not_none c by (auto simp: index_stands_def NoneStr_def callable_def)
  then have "\<not> IsNone N" "\<not> FName_eq N NAME_None" by (auto simp: IsNone_def FName_eq_iff NAME_None_def)
  moreover have "ToString b fresh N P1 = Inr (NoneStr, P1)"
    using ToString_name [OF c N(3)] parse by (simp add: printed_parse)
  moreover have "ToString b fresh NAME_None P1 = Inr (NoneStr, P1)"
    using AppendString_spec [OF c, of NAME_None "[]" b fresh "[]"]
    by (simp add: ToString_def NAME_None_def index_stands_def base_text_def number_text_def)
  ultimately show "\<exists>N P1. FName_of_range b fresh (Some NoneStr) (int (length NoneStr)) P = Inr (N, P1)
       \<and> \<not> IsNone N \<and> \<not> FName_eq N NAME_None
       \<and> ToString b fresh N P1 = Inr (NoneStr, P1) \<and> ToString b fresh NAME_None P1 = Inr (NoneStr, P1)"
    using N(1) by blast
next
  have s: "name_ok s" "s \<noteq> []" using assms(2,4) by (auto simp: name_ok_def ParseNumberedSuffix_def)
  from FName_of_range_spec [OF _ s(1), of 1 P b fresh]
  obtain N P1 where N: "FName_of_range b fresh (Some s) (int (length s)) P = Inr (N, P1)"
    "pool_room (Suc 0) P1" "name_stands P1 N s"
    using assms(1) by (auto simp: numeral_2_eq_2)
  obtain I P2 where I: "Intern b fresh (Some s) (int (length s)) P1 = Inr (I, P2)" "pool_room 0 P2"
    "pool_grows P1 P2" "index_stands P2 I s"
    using indices.make_ok [OF N(2) s(1), of b fresh] by blast
  have c: "callable P2" using I(2) by (simp add: pool_room_def)
  have n: "name_stands P2 N s" by (rule name_stands_grows [OF N(2) I(3) N(3)])
  have "NameSerialNumber N \<noteq> 0" using N(3) assms(3) by (auto simp: name_stands_def)
  then have "\<not> FName_eq N (FName I 0)" by (auto simp: FName_eq_iff)
  moreover have "ToString b fresh N P2 = Inr (s, P2)"
    using ToString_name [OF c n] assms(4) by (simp add: printed_parse)
  moreover have "ToString b fresh (FName I 0) P2 = Inr (s, P2)"
    using AppendString_spec [OF c, of "FName I 0" s b fresh "[]"] I(4) s(2)
    by (simp add: ToString_def base_text_def number_text_def)
  moreover have "FName_of_parts b fresh (Some s) (int (length s)) 0 P1 = Inr (FName I 0, P2)"
    using I(1) s by (simp add: FName_of_parts_def name_ok_def)
  ultimately show "\<exists>N M P1 P2. FName_of_range b fresh (Some s) (int (length s)) P = Inr (N, P1)
       \<and> FName_of_parts b fresh (Some s) (int (length s)) 0 P1 = Inr (M, P2)
       \<and> \<not> FName_eq N M \<and> ToString b fresh N P2 = Inr (s, P2) \<and> ToString b fresh M P2 = Inr (s, P2)"
    using N(1) by blast
qed

theorem same_text_different_names_witness:
  "\<exists>N M P1 P2. FName_of_range Checked (\<lambda>_. 0) (Some [65, 95, 49]) 3 FNamePool_ctor = Inr (N, P1)
     \<and> FName_of_parts Checked (\<lambda>_. 0) (Some [65, 95, 49]) 3 0 P1 = Inr (M, P2) \<and> \<not> FName_eq N M"
proof -
  have p: "ParseNumberedSuffix (Some [65, 95, 49]) (int (length [65, 95, 49 :: u8])) = (1, 1)" by code_simp
  have r: "pool_room 2 FNamePool_ctor" by (rule ctor_room) simp
  from same_text_different_names [OF r, of "[65, 95, 49]" Checked "\<lambda>_. 0", unfolded p] show ?thesis
    by (force simp: kFNameMaxLength_def)
qed

end
