(* ===== verification/FStringModel.thy ===== *)
theory FStringModel
  imports NamePool
begin

text \<open>
  The representation of strings (\<open>FString\<close>, \<open>Public/Containers/FString.h\<close> and
  \<open>Private/Containers/FString.cpp\<close>): 64 bytes of storage that hold a text of up to 47 bytes
  themselves or, told apart by the last byte, the address, length and capacity of a block.  The
  heap maps addresses to blocks; the addresses the allocator will hand out next, what it leaves in
  new storage and whether it can extend a block where it lies are fields of it.  A pointer to text
  says what it points into, so that an operation reads its argument in the state it has reached.
\<close>

section \<open>The heap\<close>

record string_heap =
  blocks :: "u64 \<Rightarrow> u8 list option"
  free_addrs :: "u64 list"
  junk :: "nat \<Rightarrow> u8"
  extends_in_place :: "u64 \<Rightarrow> nat \<Rightarrow> bool"

definition MallocOrAbort :: "nat \<Rightarrow> string_heap \<Rightarrow> xerror + (u64 \<times> string_heap)" where
  "MallocOrAbort Size h =
     (case free_addrs h of [] \<Rightarrow> Inl Aborted
      | p # ps \<Rightarrow> Inr (p, h\<lparr>blocks := (blocks h)(p \<mapsto> map (junk h) [0 ..< Size]), free_addrs := ps\<rparr>))"

definition Free :: "u64 \<Rightarrow> string_heap \<Rightarrow> xerror + string_heap" where
  "Free p h = in_range (blocks h p \<noteq> None) (
     Inr (h\<lparr>blocks := (blocks h)(p := None), free_addrs := free_addrs h @ [p]\<rparr>))"

text \<open>A block that cannot grow in place is moved.\<close>

definition ReallocOrAbort :: "u64 \<Rightarrow> nat \<Rightarrow> string_heap \<Rightarrow> xerror + (u64 \<times> string_heap)" where
  "ReallocOrAbort p Size h =
     (case blocks h p of None \<Rightarrow> Inl OutOfRange
      | Some old \<Rightarrow>
          let new = take Size old @ map (junk h) [length old ..< Size] in
          if extends_in_place h p Size then Inr (p, h\<lparr>blocks := (blocks h)(p \<mapsto> new)\<rparr>)
          else case free_addrs h of [] \<Rightarrow> Inl Aborted
          | q # qs \<Rightarrow> Inr (q, h\<lparr>blocks := (blocks h)(p := None, q \<mapsto> new), free_addrs := qs @ [p]\<rparr>))"

section \<open>The object\<close>

record FString_object =
  m_storage :: "u8 list"

definition kStorageSize :: nat where "kStorageSize = 64"
definition kSsoMaxBytes :: int where "kSsoMaxBytes = 47"
definition kDiscriminatorByte :: nat where "kDiscriminatorByte = 63"
definition kSsoFlagBit :: u8 where "kSsoFlagBit = 0x80"
definition kSsoLenMask :: u8 where "kSsoLenMask = 0x7F"

text \<open>Bytes written over storage from an offset on.\<close>

definition put_bytes :: "nat \<Rightarrow> u8 list \<Rightarrow> u8 list \<Rightarrow> u8 list" where
  "put_bytes off xs bs = take off bs @ xs @ drop (off + length xs) bs"

definition Discriminator :: "FString_object \<Rightarrow> u8" where
  "Discriminator s = m_storage s ! kDiscriminatorByte"

definition set_Discriminator :: "u8 \<Rightarrow> FString_object \<Rightarrow> FString_object" where
  "set_Discriminator v s = s\<lparr>m_storage := (m_storage s)[kDiscriminatorByte := v]\<rparr>"

definition IsInSso :: "FString_object \<Rightarrow> bool" where
  "IsInSso s \<longleftrightarrow> Discriminator s AND kSsoFlagBit \<noteq> 0"

definition GetSsoLen :: "FString_object \<Rightarrow> u8" where
  "GetSsoLen s = Discriminator s AND kSsoLenMask"

definition SetSsoLen :: "u8 \<Rightarrow> FString_object \<Rightarrow> FString_object" where
  "SetSsoLen LenBytes s = set_Discriminator (kSsoFlagBit OR (LenBytes AND kSsoLenMask)) s"

text \<open>The three fields of \<open>FHeapRep\<close>, as they lie in the first 24 bytes.\<close>

definition m_data :: "FString_object \<Rightarrow> u64" where
  "m_data s = ReadLe64 (\<lambda>i. m_storage s ! i)"

definition m_byteLen :: "FString_object \<Rightarrow> int" where
  "m_byteLen s = sint (ReadLe64 (\<lambda>i. m_storage s ! (8 + i)))"

definition m_byteCap :: "FString_object \<Rightarrow> int" where
  "m_byteCap s = sint (ReadLe64 (\<lambda>i. m_storage s ! (16 + i)))"

definition set_field :: "nat \<Rightarrow> u64 \<Rightarrow> FString_object \<Rightarrow> FString_object" where
  "set_field off v s = s\<lparr>m_storage := put_bytes off (le_bytes 8 v) (m_storage s)\<rparr>"

definition set_m_data :: "u64 \<Rightarrow> FString_object \<Rightarrow> FString_object" where
  "set_m_data p = set_field 0 p"

definition set_m_byteLen :: "int \<Rightarrow> FString_object \<Rightarrow> FString_object" where
  "set_m_byteLen n = set_field 8 (word_of_int n)"

definition set_m_byteCap :: "int \<Rightarrow> FString_object \<Rightarrow> FString_object" where
  "set_m_byteCap n = set_field 16 (word_of_int n)"

definition LenBytes :: "FString_object \<Rightarrow> int" where
  "LenBytes s = (if IsInSso s then uint (GetSsoLen s) else sint (word_of_int (m_byteLen s) :: u32))"

definition InitEmpty :: FString_object where
  "InitEmpty = set_Discriminator kSsoFlagBit \<lparr> m_storage = replicate kStorageSize 0 \<rparr>"

section \<open>Pointers to text\<close>

text \<open>
  The null pointer, text outside of every string, an offset into a block, or an offset into the
  storage of the string the operation is called on.
\<close>

datatype text_ptr = NullText | Outside "u8 list" | InBlock u64 nat | OwnStorage nat

definition read_text :: "text_ptr \<Rightarrow> nat \<Rightarrow> FString_object \<Rightarrow> string_heap \<Rightarrow> xerror + u8 list" where
  "read_text src n s h =
     (case src of
        NullText \<Rightarrow> in_range (n = 0) (Inr [])
      | Outside xs \<Rightarrow> in_range (n \<le> length xs) (Inr (take n xs))
      | InBlock p off \<Rightarrow>
          (case blocks h p of None \<Rightarrow> Inl OutOfRange
           | Some bs \<Rightarrow> in_range (off + n \<le> length bs) (Inr (take n (drop off bs))))
      | OwnStorage off \<Rightarrow> in_range (off + n \<le> length (m_storage s)) (Inr (take n (drop off (m_storage s)))))"

definition write_block :: "u64 \<Rightarrow> nat \<Rightarrow> u8 list \<Rightarrow> string_heap \<Rightarrow> xerror + string_heap" where
  "write_block p off xs h =
     (case blocks h p of None \<Rightarrow> Inl OutOfRange
      | Some bs \<Rightarrow> in_range (off + length xs \<le> length bs) (
          Inr (h\<lparr>blocks := (blocks h)(p \<mapsto> put_bytes off xs bs)\<rparr>)))"

text \<open>\<open>Data()\<close> of the string itself, and of another string.\<close>

definition Data :: "FString_object \<Rightarrow> text_ptr" where
  "Data s = (if IsInSso s then OwnStorage 0 else InBlock (m_data s) 0)"

definition Data_of_other :: "FString_object \<Rightarrow> text_ptr" where
  "Data_of_other s = (if IsInSso s then Outside (m_storage s) else InBlock (m_data s) 0)"

section \<open>Storage management\<close>

definition InitHeap :: "build \<Rightarrow> int \<Rightarrow> int \<Rightarrow> FString_object \<Rightarrow> string_heap \<Rightarrow> xerror + (FString_object \<times> string_heap)" where
  "InitHeap b NewLen NewCap s h =
     xcheck b (0 \<le> NewLen) (xcheck b (NewLen \<le> NewCap) (
       rbind (MallocOrAbort (nat NewCap) h) (\<lambda>(Ptr, h1).
       Inr (set_m_byteCap NewCap (set_m_byteLen NewLen (set_m_data Ptr (set_Discriminator 0 s))), h1))))"

definition FreeHeap :: "FString_object \<Rightarrow> string_heap \<Rightarrow> xerror + string_heap" where
  "FreeHeap s h = (if \<not> IsInSso s \<and> m_data s \<noteq> nullptr then Free (m_data s) h else Inr h)"

definition FString_dtor :: "FString_object \<Rightarrow> string_heap \<Rightarrow> xerror + (FString_object \<times> string_heap)" where
  "FString_dtor s h =
     rbind (FreeHeap s h) (\<lambda>h1.
     Inr (if \<not> IsInSso s \<and> m_data s \<noteq> nullptr then set_m_data nullptr s else s, h1))"

definition AssignFromBuffer ::
  "build \<Rightarrow> text_ptr \<Rightarrow> int \<Rightarrow> FString_object \<Rightarrow> string_heap \<Rightarrow> xerror + (FString_object \<times> string_heap)" where
  "AssignFromBuffer b Src SrcLen s h =
     xcheck b (0 \<le> SrcLen) (xcheck b (Src \<noteq> NullText \<or> SrcLen = 0) (
       if SrcLen \<le> kSsoMaxBytes then
         rbind (FreeHeap s h) (\<lambda>h1.
         let s1 = InitEmpty in
         rbind (if 0 < SrcLen
                then rbind (read_text Src (nat SrcLen) s1 h1) (\<lambda>xs. Inr (s1\<lparr>m_storage := put_bytes 0 xs (m_storage s1)\<rparr>))
                else Inr s1) (\<lambda>s2.
         Inr (SetSsoLen (word_of_int SrcLen) s2, h1)))
       else
         rbind (FreeHeap s h) (\<lambda>h1.
         rbind (InitHeap b SrcLen SrcLen InitEmpty h1) (\<lambda>(s2, h2).
         rbind (read_text Src (nat SrcLen) s2 h2) (\<lambda>xs.
         rbind (write_block (m_data s2) 0 xs h2) (\<lambda>h3.
         Inr (s2, h3)))))))"

text \<open>The growth loop of the capacity.\<close>

function grow_capacity :: "int \<Rightarrow> int \<Rightarrow> int" where
  "grow_capacity RequiredLen NewCap =
     (if 0 \<le> NewCap \<and> NewCap < RequiredLen then grow_capacity RequiredLen (NewCap + NewCap div 2 + 16) else NewCap)"
  by pat_completeness simp
termination
  by (relation "measure (\<lambda>(RequiredLen, NewCap). nat (RequiredLen - NewCap))") auto

declare grow_capacity.simps [simp del]

definition EnsureCapacity :: "build \<Rightarrow> int \<Rightarrow> FString_object \<Rightarrow> string_heap \<Rightarrow> xerror + (FString_object \<times> string_heap)" where
  "EnsureCapacity b RequiredLen s h =
     xcheck b (0 \<le> RequiredLen) (
     if IsInSso s then
       if RequiredLen \<le> kSsoMaxBytes then Inr (s, h)
       else
         let OldLen = uint (GetSsoLen s); Saved = take (nat OldLen) (m_storage s);
             NewCap = (if RequiredLen < 64 then 64 else RequiredLen) in
         rbind (InitHeap b OldLen NewCap \<lparr> m_storage = replicate kStorageSize 0 \<rparr> h) (\<lambda>(s1, h1).
         rbind (if 0 < OldLen then write_block (m_data s1) 0 Saved h1 else Inr h1) (\<lambda>h2.
         Inr (s1, h2)))
     else if RequiredLen \<le> m_byteCap s then Inr (s, h)
     else
       let NewCap = grow_capacity RequiredLen (if 0 < m_byteCap s then m_byteCap s else 64) in
       rbind (ReallocOrAbort (m_data s) (nat NewCap) h) (\<lambda>(NewPtr, h1).
       Inr (set_m_byteCap NewCap (set_m_data NewPtr s), h1)))"

section \<open>Operations\<close>

text \<open>\<open>FString(const char*, int32)\<close>, and from a text that ends at its first null byte.\<close>

definition FString_of_range ::
  "build \<Rightarrow> text_ptr \<Rightarrow> int \<Rightarrow> string_heap \<Rightarrow> xerror + (FString_object \<times> string_heap)" where
  "FString_of_range b Utf8 ByteLen h =
     xcheck b (0 \<le> ByteLen) (
       if Utf8 \<noteq> NullText \<and> 0 < ByteLen then AssignFromBuffer b Utf8 ByteLen InitEmpty h
       else Inr (InitEmpty, h))"

definition c_length :: "u8 list \<Rightarrow> nat" where
  "c_length Utf8 = length (takeWhile (\<lambda>Ch. Ch \<noteq> 0) Utf8)"

definition FString_of_cstr :: "build \<Rightarrow> u8 list option \<Rightarrow> string_heap \<Rightarrow> xerror + (FString_object \<times> string_heap)" where
  "FString_of_cstr b Utf8 h =
     (case Utf8 of None \<Rightarrow> Inr (InitEmpty, h)
      | Some xs \<Rightarrow> AssignFromBuffer b (Outside xs) (sint (word_of_nat (c_length xs) :: u32)) InitEmpty h)"

definition FString_copy_ctor :: "build \<Rightarrow> FString_object \<Rightarrow> string_heap \<Rightarrow> xerror + (FString_object \<times> string_heap)" where
  "FString_copy_ctor b Other h =
     (if 0 < LenBytes Other then AssignFromBuffer b (Data_of_other Other) (LenBytes Other) InitEmpty h
      else Inr (InitEmpty, h))"

text \<open>The new string and the one that was moved from.\<close>

definition FString_move_ctor :: "FString_object \<Rightarrow> FString_object \<times> FString_object" where
  "FString_move_ctor Other = (Other, InitEmpty)"

definition FString_copy_assign ::
  "build \<Rightarrow> bool \<Rightarrow> FString_object \<Rightarrow> FString_object \<Rightarrow> string_heap \<Rightarrow> xerror + (FString_object \<times> string_heap)" where
  "FString_copy_assign b same s Other h =
     (if same then Inr (s, h)
      else rbind (FString_dtor s h) (\<lambda>(s1, h1). FString_copy_ctor b Other h1))"

definition FString_move_assign ::
  "bool \<Rightarrow> FString_object \<Rightarrow> FString_object \<Rightarrow> string_heap \<Rightarrow> xerror + (FString_object \<times> FString_object \<times> string_heap)" where
  "FString_move_assign same s Other h =
     (if same then Inr (s, s, h)
      else rbind (FString_dtor s h) (\<lambda>(s1, h1). Inr (Other, InitEmpty, h1)))"

definition FString_assign_cstr ::
  "build \<Rightarrow> u8 list option \<Rightarrow> FString_object \<Rightarrow> string_heap \<Rightarrow> xerror + (FString_object \<times> string_heap)" where
  "FString_assign_cstr b Utf8 s h =
     rbind (FString_dtor s h) (\<lambda>(s1, h1). FString_of_cstr b Utf8 h1)"

definition Str_Append ::
  "build \<Rightarrow> text_ptr \<Rightarrow> int \<Rightarrow> FString_object \<Rightarrow> string_heap \<Rightarrow> xerror + (FString_object \<times> string_heap)" where
  "Str_Append b Utf8 ByteLen s h =
     xcheck b (0 \<le> ByteLen) (
     if ByteLen = 0 \<or> Utf8 = NullText then Inr (s, h)
     else let OldLen = LenBytes s; NewLen = OldLen + ByteLen in
       in_range (NewLen < 2 ^ 31) (
       rbind (EnsureCapacity b NewLen s h) (\<lambda>(s1, h1).
       rbind (read_text Utf8 (nat ByteLen) s1 h1) (\<lambda>xs.
       if IsInSso s1 then
         in_range (nat OldLen + length xs \<le> length (m_storage s1)) (
         Inr (SetSsoLen (word_of_int NewLen) (s1\<lparr>m_storage := put_bytes (nat OldLen) xs (m_storage s1)\<rparr>), h1))
       else
         rbind (write_block (m_data s1) (nat OldLen) xs h1) (\<lambda>h2.
         Inr (set_m_byteLen NewLen s1, h2))))))"

text \<open>\<open>Append(const FString&)\<close> of another string and of the string itself.\<close>

definition Str_Append_other ::
  "build \<Rightarrow> FString_object \<Rightarrow> FString_object \<Rightarrow> string_heap \<Rightarrow> xerror + (FString_object \<times> string_heap)" where
  "Str_Append_other b Other s h = Str_Append b (Data_of_other Other) (LenBytes Other) s h"

definition Str_Append_self :: "build \<Rightarrow> FString_object \<Rightarrow> string_heap \<Rightarrow> xerror + (FString_object \<times> string_heap)" where
  "Str_Append_self b s h = Str_Append b (Data s) (LenBytes s) s h"

definition Str_Append_cstr ::
  "build \<Rightarrow> u8 list option \<Rightarrow> FString_object \<Rightarrow> string_heap \<Rightarrow> xerror + (FString_object \<times> string_heap)" where
  "Str_Append_cstr b Utf8 s h =
     (case Utf8 of None \<Rightarrow> Inr (s, h)
      | Some xs \<Rightarrow> Str_Append b (Outside xs) (sint (word_of_nat (c_length xs) :: u32)) s h)"

text \<open>\<open>operator+\<close>; the operands may be the same string.\<close>

definition Str_plus ::
  "build \<Rightarrow> FString_object \<Rightarrow> FString_object \<Rightarrow> string_heap \<Rightarrow> xerror + (FString_object \<times> string_heap)" where
  "Str_plus b s Other h =
     rbind (FString_copy_ctor b s h) (\<lambda>(Result, h1). Str_Append_other b Other Result h1)"

text \<open>
  \<open>ToUtf8Cstr\<close> terminates the text where it lies, or makes room for the terminator; the sum of the
  length and one is an \<open>int32\<close>.
\<close>

definition ToUtf8Cstr :: "build \<Rightarrow> FString_object \<Rightarrow> string_heap \<Rightarrow> xerror + (text_ptr \<times> FString_object \<times> string_heap)" where
  "ToUtf8Cstr b s h =
     (let N = LenBytes s in
      if IsInSso s \<and> N \<le> kSsoMaxBytes then
        in_range (nat N < length (m_storage s)) (
        Inr (OwnStorage 0, s\<lparr>m_storage := (m_storage s)[nat N := 0]\<rparr>, h))
      else
        in_range (N + 1 < 2 ^ 31) (
        rbind (EnsureCapacity b (N + 1) s h) (\<lambda>(s1, h1).
        rbind (write_block (m_data s1) (nat N) [0] h1) (\<lambda>h2.
        Inr (InBlock (m_data s1) 0, s1, h2)))))"

definition ByteAt :: "build \<Rightarrow> int \<Rightarrow> FString_object \<Rightarrow> string_heap \<Rightarrow> xerror + u8" where
  "ByteAt b ByteIdx s h =
     xcheck b (0 \<le> ByteIdx \<and> ByteIdx < LenBytes s) (
     in_range (0 \<le> ByteIdx) (
     rbind (read_text (Data s) (nat ByteIdx + 1) s h) (\<lambda>xs. Inr (last xs))))"

end
