(* ===== verification/FStringProps.thy ===== *)
theory FStringProps
  imports FStringModel Xxh3Short
begin

text \<open>
  The fields of the representation, the invariant of a string and its block, and what the storage
  operations do to the text and to the rest of the heap.
\<close>

section \<open>Fields\<close>

lemma length_put_bytes [simp]: "off + length xs \<le> length bs \<Longrightarrow> length (put_bytes off xs bs) = length bs"
  by (simp add: put_bytes_def)

lemma nth_put_bytes:
  "off + length xs \<le> length bs \<Longrightarrow> i < length bs \<Longrightarrow>
     put_bytes off xs bs ! i = (if off \<le> i \<and> i < off + length xs then xs ! (i - off) else bs ! i)"
  by (auto simp: put_bytes_def nth_append min_def)

lemma take_put_bytes: "off + length xs \<le> length bs \<Longrightarrow> take (off + length xs) (put_bytes off xs bs) = take off bs @ xs"
  by (simp add: put_bytes_def)

lemma length_le_bytes [simp]: "length (le_bytes n w) = n"
  by (simp add: le_bytes_def)

lemma bit_ReadLe64: "bit (ReadLe64 p) n \<longleftrightarrow> n < 64 \<and> bit (p (n div 8)) (n mod 8)"
proof (cases "n < 32")
  case True
  then show ?thesis by (auto simp: ReadLe64_def bit_simps bit_ReadLe32)
next
  case False
  then obtain m where m: "n = 32 + m" using le_Suc_ex not_less by blast
  have "(32 + m) div 8 = 4 + m div 8" "(32 + m) mod 8 = m mod 8" by (simp_all add: div_add1_eq mod_add_left_eq [symmetric])
  then show ?thesis
    unfolding m by (auto simp: ReadLe64_def bit_simps bit_ReadLe32 adv_apply)
qed

lemma ReadLe64_eqI: "(\<And>i. i < 8 \<Longrightarrow> p i = q i) \<Longrightarrow> ReadLe64 p = ReadLe64 q"
  by (rule ReadLe64_cong) (simp add: same_bytes_def)

lemma ReadLe64_le_bytes: "ReadLe64 (\<lambda>i. le_bytes 8 w ! i) = w"
proof (rule bit_word_eqI)
  fix n assume "n < LENGTH(64)"
  then have n: "n < 64" by simp
  then have "n div 8 < 8" by (simp add: less_mult_imp_div_less)
  moreover have "n mod 8 < LENGTH(8)" using mod_less_divisor [of 8 n] by (simp only: len_bit0 len_num1)
  ultimately show "bit (ReadLe64 (\<lambda>i. le_bytes 8 w ! i)) n = bit w n"
    using n by (simp add: bit_ReadLe64 le_bytes_def bit_ucast_iff bit_drop_bit_eq mult_div_mod_eq add.commute)
qed

definition field :: "nat \<Rightarrow> FString_object \<Rightarrow> u64" where
  "field k s = ReadLe64 (\<lambda>i. m_storage s ! (k + i))"

lemma heap_fields: "m_data s = field 0 s" "m_byteLen s = sint (field 8 s)" "m_byteCap s = sint (field 16 s)"
  by (simp_all add: field_def m_data_def m_byteLen_def m_byteCap_def)

lemma length_set_field: "length (m_storage s) = 64 \<Longrightarrow> k \<le> 56 \<Longrightarrow> length (m_storage (set_field k v s)) = 64"
  by (simp add: set_field_def)

lemma field_same: "length (m_storage s) = 64 \<Longrightarrow> k \<le> 56 \<Longrightarrow> field k (set_field k v s) = v"
  unfolding field_def set_field_def
  by (subst ReadLe64_le_bytes [of v, symmetric], rule ReadLe64_eqI) (simp add: nth_put_bytes)

lemma field_other:
  "length (m_storage s) = 64 \<Longrightarrow> j \<le> 56 \<Longrightarrow> k \<le> 56 \<Longrightarrow> k + 8 \<le> j \<or> j + 8 \<le> k \<Longrightarrow> field k (set_field j v s) = field k s"
  unfolding field_def set_field_def by (rule ReadLe64_eqI) (auto simp: nth_put_bytes)

lemma disc_set_field: "length (m_storage s) = 64 \<Longrightarrow> k \<le> 48 \<Longrightarrow> Discriminator (set_field k v s) = Discriminator s"
  by (simp add: Discriminator_def set_field_def kDiscriminatorByte_def nth_put_bytes)

lemma length_set_disc [simp]: "length (m_storage (set_Discriminator v s)) = length (m_storage s)"
  by (simp add: set_Discriminator_def)

lemma disc_set_disc: "length (m_storage s) = 64 \<Longrightarrow> Discriminator (set_Discriminator v s) = v"
  by (simp add: Discriminator_def set_Discriminator_def kDiscriminatorByte_def)

lemma take_set_disc: "n \<le> 63 \<Longrightarrow> take n (m_storage (set_Discriminator v s)) = take n (m_storage s)"
  by (simp add: set_Discriminator_def kDiscriminatorByte_def)

lemma empty_facts [simp]: "length (m_storage InitEmpty) = 64" "IsInSso InitEmpty" "uint (GetSsoLen InitEmpty) = 0"
  by (simp_all add: InitEmpty_def set_Discriminator_def IsInSso_def GetSsoLen_def Discriminator_def
      kStorageSize_def kDiscriminatorByte_def kSsoFlagBit_def kSsoLenMask_def)

lemma SsoLen_set:
  assumes "length (m_storage s) = 64" "0 \<le> n" "n \<le> 47"
  shows "IsInSso (SetSsoLen (word_of_int n) s)" "uint (GetSsoLen (SetSsoLen (word_of_int n) s)) = n"
proof -
  have d: "Discriminator (SetSsoLen (word_of_int n) s) = 0x80 OR (word_of_int n AND 0x7F)"
    using assms(1) by (simp add: SetSsoLen_def disc_set_disc kSsoFlagBit_def kSsoLenMask_def)
  have m: "(0x7F :: u8) = mask 7" "(0x80 :: u8) = push_bit 7 1" by (simp_all add: mask_eq_exp_minus_1)
  have "bit ((0x80 OR (word_of_int n AND 0x7F)) AND 0x80 :: u8) 7" unfolding m by (simp add: bit_simps)
  then show "IsInSso (SetSsoLen (word_of_int n) s)" unfolding IsInSso_def d kSsoFlagBit_def by force
  have "(0x80 OR (word_of_int n AND 0x7F)) AND 0x7F = (word_of_int n AND 0x7F :: u8)"
    by (simp add: bit.conj_disj_distrib2 and.assoc)
  then have "GetSsoLen (SetSsoLen (word_of_int n) s) = word_of_int n AND mask 7"
    unfolding GetSsoLen_def d kSsoLenMask_def by (simp add: m(1))
  also have "\<dots> = take_bit 7 (word_of_int n)" by (simp add: take_bit_eq_mask)
  finally show "uint (GetSsoLen (SetSsoLen (word_of_int n) s)) = n"
    using assms(2,3) by (simp add: unsigned_take_bit_eq uint_word_of_int take_bit_int_eq_self)
qed

section \<open>Strings and the heap\<close>

definition heap_ok :: "string_heap \<Rightarrow> bool" where
  "heap_ok h \<longleftrightarrow> distinct (free_addrs h) \<and> nullptr \<notin> set (free_addrs h) \<and> (\<forall>p \<in> set (free_addrs h). blocks h p = None)"

text \<open>The block a string owns.\<close>

definition own :: "FString_object \<Rightarrow> u64 set" where
  "own s = (if IsInSso s then {} else {m_data s})"

definition str_ok :: "FString_object \<Rightarrow> string_heap \<Rightarrow> bool" where
  "str_ok s h \<longleftrightarrow> length (m_storage s) = 64
     \<and> (if IsInSso s then uint (GetSsoLen s) \<le> 47
        else m_data s \<noteq> nullptr \<and> 0 \<le> m_byteLen s \<and> m_byteLen s < 2 ^ 31 \<and> m_byteLen s \<le> m_byteCap s \<and> m_byteCap s < 2 ^ 40
          \<and> (\<exists>bs. blocks h (m_data s) = Some bs \<and> m_byteCap s = int (length bs)))"

definition str_text :: "FString_object \<Rightarrow> string_heap \<Rightarrow> u8 list" where
  "str_text s h = (if IsInSso s then take (nat (uint (GetSsoLen s))) (m_storage s)
                   else take (nat (m_byteLen s)) (the (blocks h (m_data s))))"

text \<open>
  From one owner of a block to the next: the other blocks keep their contents, the set of blocks
  changes by what the two own, and so does the number of free addresses.
\<close>

definition frame :: "u64 set \<Rightarrow> string_heap \<Rightarrow> u64 set \<Rightarrow> string_heap \<Rightarrow> bool" where
  "frame A h B h' \<longleftrightarrow> heap_ok h'
     \<and> (\<forall>q. q \<notin> A \<longrightarrow> blocks h q \<noteq> None \<longrightarrow> q \<notin> B \<and> blocks h' q = blocks h q)
     \<and> dom (blocks h') = dom (blocks h) - A \<union> B
     \<and> length (free_addrs h') + card B = length (free_addrs h) + card A"

lemma frame_refl: "heap_ok h \<Longrightarrow> A \<subseteq> dom (blocks h) \<Longrightarrow> frame A h A h"
  by (auto simp: frame_def)

lemma frame_trans:
  assumes "frame A h B h'" "frame B h' C h''"
  shows "frame A h C h''"
proof -
  have "q \<notin> C \<and> blocks h'' q = blocks h q" if "q \<notin> A" "blocks h q \<noteq> None" for q
  proof -
    have "q \<notin> B" "blocks h' q = blocks h q" using assms(1) that by (simp_all add: frame_def)
    with assms(2) that(2) show ?thesis by (simp add: frame_def)
  qed
  moreover have "dom (blocks h'') = dom (blocks h) - A \<union> C"
    using assms by (auto simp: frame_def)
  ultimately show ?thesis using assms by (simp add: frame_def)
qed

lemma own_card: "card (own s) \<le> 1" "card (own s) = (if IsInSso s then 0 else 1)"
  by (simp_all add: own_def)

lemma own_empty [simp]: "own InitEmpty = {}"
  by (simp add: own_def)

lemma str_ok_own: "str_ok s h \<Longrightarrow> own s \<subseteq> dom (blocks h)"
  by (auto simp: str_ok_def own_def)

lemma empty_ok: "str_ok InitEmpty h" "str_text InitEmpty h = []"
  by (simp_all add: str_ok_def str_text_def)

lemma int32_id: "0 \<le> n \<Longrightarrow> n < 2 ^ 31 \<Longrightarrow> sint (word_of_int n :: u32) = n"
  by (simp add: sint_word_ariths(1) signed_of_int signed_take_bit_int_eq_self)

lemma int64_id: "0 \<le> n \<Longrightarrow> n < 2 ^ 63 \<Longrightarrow> sint (word_of_int n :: u64) = n"
  by (simp add: signed_of_int signed_take_bit_int_eq_self)

lemma LenBytes_text:
  assumes "str_ok s h"
  shows "LenBytes s = int (length (str_text s h)) \<and> 0 \<le> LenBytes s \<and> LenBytes s < 2 ^ 31"
proof (cases "IsInSso s")
  case True
  define n where "n = unat (GetSsoLen s)"
  have n: "uint (GetSsoLen s) = int n" by (simp add: n_def)
  then have "n \<le> 47" "length (m_storage s) = 64" using assms True by (simp_all add: str_ok_def)
  with True n show ?thesis by (simp add: str_text_def LenBytes_def)
next
  case False
  with assms int32_id [of "m_byteLen s"] show ?thesis by (auto simp: str_ok_def str_text_def LenBytes_def)
qed

section \<open>Storage operations\<close>

lemma Malloc_spec:
  assumes "heap_ok h" "free_addrs h \<noteq> []"
  obtains p h' where "MallocOrAbort n h = Inr (p, h')" "frame {} h {p} h'" "p \<noteq> nullptr"
    "blocks h' p = Some (map (junk h) [0 ..< n])"
proof -
  obtain p ps where f: "free_addrs h = p # ps" using assms(2) by (cases "free_addrs h") auto
  let ?h = "h\<lparr>blocks := (blocks h)(p \<mapsto> map (junk h) [0 ..< n]), free_addrs := ps\<rparr>"
  have "blocks h p = None" "p \<noteq> nullptr" "p \<notin> set ps" using assms(1) f by (simp_all add: heap_ok_def)
  moreover have "heap_ok ?h" using assms(1) f by (auto simp: heap_ok_def)
  ultimately show ?thesis
    using f by (intro that [of p ?h]) (auto simp: MallocOrAbort_def frame_def)
qed

lemma Free_spec:
  assumes "heap_ok h" "blocks h p \<noteq> None" "p \<noteq> nullptr"
  obtains h' where "Free p h = Inr h'" "frame {p} h {} h'" "free_addrs h' \<noteq> []"
proof -
  have "p \<notin> set (free_addrs h)" using assms(1,2) by (auto simp: heap_ok_def)
  then show ?thesis
    using assms by (intro that [of "h\<lparr>blocks := (blocks h)(p := None), free_addrs := free_addrs h @ [p]\<rparr>"])
      (auto simp: Free_def frame_def heap_ok_def)
qed

lemma Realloc_spec:
  assumes "heap_ok h" "blocks h p = Some bs" "p \<noteq> nullptr" "length bs \<le> n" "free_addrs h \<noteq> []"
  obtains q h' xs where "ReallocOrAbort p n h = Inr (q, h')" "frame {p} h {q} h'" "q \<noteq> nullptr"
    "blocks h' q = Some (bs @ xs)" "length (bs @ xs) = n"
proof -
  let ?new = "bs @ map (junk h) [length bs ..< n]"
  have new: "take n bs @ map (junk h) [length bs ..< n] = ?new" "length ?new = n" using assms(4) by simp_all
  show ?thesis
  proof (cases "extends_in_place h p n")
    case True
    have "heap_ok (h\<lparr>blocks := (blocks h)(p \<mapsto> ?new)\<rparr>)" using assms(1,2) by (auto simp: heap_ok_def)
    with True assms new show ?thesis
      by (intro that [of p "h\<lparr>blocks := (blocks h)(p \<mapsto> ?new)\<rparr>" "map (junk h) [length bs ..< n]"])
        (auto simp: ReallocOrAbort_def frame_def)
  next
    case False
    obtain q qs where f: "free_addrs h = q # qs" using assms(5) by (cases "free_addrs h") auto
    let ?h = "h\<lparr>blocks := (blocks h)(p := None, q \<mapsto> ?new), free_addrs := qs @ [p]\<rparr>"
    have q: "blocks h q = None" "q \<noteq> nullptr" "q \<notin> set qs" "p \<notin> set (free_addrs h)" "p \<noteq> q"
      using assms(1,2) f by (auto simp: heap_ok_def)
    have "heap_ok ?h" using assms(1,3) f q by (auto simp: heap_ok_def)
    with False assms new f q show ?thesis
      by (intro that [of q ?h "map (junk h) [length bs ..< n]"]) (auto simp: ReallocOrAbort_def frame_def)
  qed
qed

lemma write_block_spec:
  assumes "heap_ok h" "blocks h p = Some bs" "off + length xs \<le> length bs"
  obtains h' where "write_block p off xs h = Inr h'" "frame {p} h {p} h'" "blocks h' p = Some (put_bytes off xs bs)"
    "free_addrs h' = free_addrs h"
proof -
  let ?h = "h\<lparr>blocks := (blocks h)(p \<mapsto> put_bytes off xs bs)\<rparr>"
  have "heap_ok ?h" using assms(1,2) by (auto simp: heap_ok_def)
  with assms show ?thesis by (intro that [of ?h]) (auto simp: write_block_def frame_def)
qed

lemma FreeHeap_spec:
  assumes "heap_ok h" "str_ok s h" "\<not> IsInSso s \<or> free_addrs h \<noteq> []"
  obtains h' where "FreeHeap s h = Inr h'" "frame (own s) h {} h'" "free_addrs h' \<noteq> []"
proof (cases "IsInSso s")
  case True
  with assms frame_refl [of h "{}"] show ?thesis by (intro that [of h]) (simp_all add: FreeHeap_def own_def)
next
  case False
  with assms(2) have "blocks h (m_data s) \<noteq> None" "m_data s \<noteq> nullptr" by (auto simp: str_ok_def)
  then obtain h' where "Free (m_data s) h = Inr h'" "frame {m_data s} h {} h'" "free_addrs h' \<noteq> []"
    by (rule Free_spec [OF assms(1)]) (rule that)
  with False \<open>m_data s \<noteq> nullptr\<close> show ?thesis by (intro that [of h']) (simp_all add: FreeHeap_def own_def)
qed

text \<open>The representation \<open>InitHeap\<close> builds.\<close>

lemma heap_rep:
  fixes p :: u64
  assumes "length (m_storage s) = 64" "0 \<le> n" "n < 2 ^ 63" "0 \<le> c" "c < 2 ^ 63"
  defines "s' \<equiv> set_m_byteCap c (set_m_byteLen n (set_m_data p (set_Discriminator 0 s)))"
  shows "length (m_storage s') = 64" "\<not> IsInSso s'" "m_data s' = p" "m_byteLen s' = n" "m_byteCap s' = c"
proof -
  let ?a = "set_Discriminator 0 s" and ?b = "set_field 0 p (set_Discriminator 0 s)"
  let ?c = "set_field 8 (word_of_int n) ?b"
  have l: "length (m_storage ?a) = 64" "length (m_storage ?b) = 64" "length (m_storage ?c) = 64"
    using assms(1) by (simp_all add: length_set_field)
  have s': "s' = set_field 16 (word_of_int c) ?c"
    by (simp add: s'_def set_m_byteCap_def set_m_byteLen_def set_m_data_def)
  show "length (m_storage s') = 64" using l by (simp add: s' length_set_field)
  show "\<not> IsInSso s'" using l assms(1) by (simp add: s' IsInSso_def disc_set_field disc_set_disc)
  show "m_data s' = p" using l by (simp add: s' heap_fields field_other field_same)
  show "m_byteLen s' = n" using l int64_id assms(2,3) by (simp add: s' heap_fields field_other field_same)
  show "m_byteCap s' = c" using l int64_id assms(4,5) by (simp add: s' heap_fields field_same)
qed

lemma heap_update:
  assumes "length (m_storage s) = 64" "\<not> IsInSso s"
  shows "length (m_storage (set_m_data p s)) = 64" "\<not> IsInSso (set_m_data p s)" "m_data (set_m_data p s) = p"
    "m_byteLen (set_m_data p s) = m_byteLen s" "m_byteCap (set_m_data p s) = m_byteCap s"
    "length (m_storage (set_m_byteLen n s)) = 64" "\<not> IsInSso (set_m_byteLen n s)" "m_data (set_m_byteLen n s) = m_data s"
    "0 \<le> n \<Longrightarrow> n < 2 ^ 63 \<Longrightarrow> m_byteLen (set_m_byteLen n s) = n" "m_byteCap (set_m_byteLen n s) = m_byteCap s"
    "length (m_storage (set_m_byteCap n s)) = 64" "\<not> IsInSso (set_m_byteCap n s)" "m_data (set_m_byteCap n s) = m_data s"
    "m_byteLen (set_m_byteCap n s) = m_byteLen s" "0 \<le> n \<Longrightarrow> n < 2 ^ 63 \<Longrightarrow> m_byteCap (set_m_byteCap n s) = n"
  using assms int64_id
  by (simp_all add: heap_fields set_m_data_def set_m_byteLen_def set_m_byteCap_def length_set_field field_same field_other
      IsInSso_def disc_set_field)

lemma InitHeap_spec:
  assumes "heap_ok h" "free_addrs h \<noteq> []" "length (m_storage s) = 64" "0 \<le> n" "n \<le> c" "c < 2 ^ 40" "n < 2 ^ 31"
  obtains s' h' bs where "InitHeap b n c s h = Inr (s', h')" "frame {} h (own s') h'" "str_ok s' h'" "\<not> IsInSso s'"
    "m_byteLen s' = n" "blocks h' (m_data s') = Some bs" "length bs = nat c" "m_byteCap s' = c"
proof -
  obtain p h1 where m: "MallocOrAbort (nat c) h = Inr (p, h1)" "frame {} h {p} h1" "p \<noteq> nullptr"
    "blocks h1 p = Some (map (junk h) [0 ..< nat c])"
    by (rule Malloc_spec [OF assms(1,2), of "nat c"]) (rule that)
  define s' where "s' = set_m_byteCap c (set_m_byteLen n (set_m_data p (set_Discriminator 0 s)))"
  have r: "length (m_storage s') = 64" "\<not> IsInSso s'" "m_data s' = p" "m_byteLen s' = n" "m_byteCap s' = c"
    unfolding s'_def using assms by (intro heap_rep; simp)+
  have "own s' = {p}" using r by (simp add: own_def)
  moreover have "str_ok s' h1" using r m assms by (simp add: str_ok_def)
  ultimately show ?thesis
    using m r assms by (intro that [of s' h1 "map (junk h) [0 ..< nat c]"]) (simp_all add: InitHeap_def s'_def)
qed

section \<open>Text outside of a string\<close>

definition external :: "text_ptr \<Rightarrow> nat \<Rightarrow> u64 set \<Rightarrow> string_heap \<Rightarrow> u8 list \<Rightarrow> bool" where
  "external src n A h xs \<longleftrightarrow> (case src of
       NullText \<Rightarrow> False
     | Outside ys \<Rightarrow> n \<le> length ys \<and> xs = take n ys
     | InBlock p off \<Rightarrow> p \<notin> A \<and> (\<exists>bs. blocks h p = Some bs \<and> off + n \<le> length bs \<and> xs = take n (drop off bs))
     | OwnStorage off \<Rightarrow> False)"

lemma external_frame: "external src n A h xs \<Longrightarrow> frame A h B h' \<Longrightarrow> external src n B h' xs"
  by (cases src) (auto simp: external_def frame_def)

lemma external_read: "external src n A h xs \<Longrightarrow> read_text src n s h = Inr xs \<and> length xs = n \<and> src \<noteq> NullText"
  by (cases src) (auto simp: external_def read_text_def)

lemma external_other:
  assumes "str_ok s h" "own s \<inter> A = {}"
  shows "external (Data_of_other s) (length (str_text s h)) A h (str_text s h)"
  using assms by (auto simp: external_def Data_of_other_def str_ok_def str_text_def own_def min_def)

section \<open>What the operations make\<close>

definition makes :: "FString_object \<Rightarrow> string_heap \<Rightarrow> FString_object \<Rightarrow> string_heap \<Rightarrow> u8 list \<Rightarrow> bool" where
  "makes s h s' h' xs \<longleftrightarrow> frame (own s) h (own s') h' \<and> str_ok s' h' \<and> str_text s' h' = xs"

lemma sso_make:
  assumes "length (m_storage s) = 64" "0 \<le> n" "n \<le> 47"
  shows "str_ok (SetSsoLen (word_of_int n) s) h" "own (SetSsoLen (word_of_int n) s) = {}"
    "str_text (SetSsoLen (word_of_int n) s) h = take (nat n) (m_storage s)"
  using assms SsoLen_set [OF assms]
  by (simp_all add: str_ok_def own_def str_text_def) (simp_all add: SetSsoLen_def take_set_disc)

lemma AssignFromBuffer_spec:
  assumes h: "heap_ok h" "str_ok s h" "\<not> IsInSso s \<or> free_addrs h \<noteq> []"
    and src: "external src (nat n) (own s) h xs" "0 \<le> n" "n < 2 ^ 31"
  obtains s' h' where "AssignFromBuffer b src n s h = Inr (s', h')" "makes s h s' h' xs"
proof -
  obtain h1 where f: "FreeHeap s h = Inr h1" "frame (own s) h {} h1" "free_addrs h1 \<noteq> []"
    by (rule FreeHeap_spec [OF h]) (rule that)
  note e1 = external_frame [OF src(1) f(2)]
  note r1 = external_read [OF e1]
  show ?thesis
  proof (cases "n \<le> 47")
    case True
    define s2 where "s2 = (if 0 < n then InitEmpty\<lparr>m_storage := put_bytes 0 xs (m_storage InitEmpty)\<rparr> else InitEmpty)"
    have l: "length xs = nat n" using r1 by simp
    have s2: "length (m_storage s2) = 64" "take (nat n) (m_storage s2) = xs"
      using True l src(2) take_put_bytes [of 0 xs "m_storage InitEmpty"] by (auto simp: s2_def)
    note k = sso_make [OF s2(1) src(2) True]
    have "AssignFromBuffer b src n s h = Inr (SetSsoLen (word_of_int n) s2, h1)"
      using True f(1) r1 src(2) by (simp add: AssignFromBuffer_def kSsoMaxBytes_def s2_def Let_def)
    moreover have "makes s h (SetSsoLen (word_of_int n) s2) h1 xs"
      unfolding makes_def k(2,3) s2(2) using k(1) f(2) by blast
    ultimately show ?thesis by (rule that)
  next
    case False
    have h1: "heap_ok h1" using f(2) by (simp add: frame_def)
    have pre: "length (m_storage InitEmpty) = 64" "0 \<le> n" "n \<le> n" "n < 2 ^ 40" "n < 2 ^ 31" using src(2,3) by simp_all
    obtain s2 h2 bs where i: "InitHeap b n n InitEmpty h1 = Inr (s2, h2)" "frame {} h1 (own s2) h2" "str_ok s2 h2" "\<not> IsInSso s2"
      "m_byteLen s2 = n" "blocks h2 (m_data s2) = Some bs" "length bs = nat n"
      by (rule InitHeap_spec [OF h1 f(3) pre, of b]) (rule that)
    have e2: "external src (nat n) (own s2) h2 xs" by (rule external_frame [OF e1 i(2)])
    have h2: "heap_ok h2" using i(2) by (simp add: frame_def)
    have len: "0 + length xs \<le> length bs" using r1 i(7) by simp
    obtain h3 where w: "write_block (m_data s2) 0 xs h2 = Inr h3" "frame {m_data s2} h2 {m_data s2} h3"
      "blocks h3 (m_data s2) = Some (put_bytes 0 xs bs)"
      by (rule write_block_spec [OF h2 i(6) len]) (rule that)
    have o: "own s2 = {m_data s2}" using i(4) by (simp add: own_def)
    have "put_bytes 0 xs bs = xs" using r1 i(7) by (simp add: put_bytes_def)
    then have "str_ok s2 h3" "str_text s2 h3 = xs"
      using i(3-7) w(3) r1 src(2) by (auto simp: str_ok_def str_text_def)
    moreover have "frame (own s) h (own s2) h3"
      using frame_trans [OF f(2) frame_trans [OF i(2) w(2) [folded o]]] .
    moreover have "AssignFromBuffer b src n s h = Inr (s2, h3)"
      using False f(1) i(1) w(1) external_read [OF e2] src(2) by (simp add: AssignFromBuffer_def kSsoMaxBytes_def)
    ultimately show ?thesis by (intro that) (simp_all add: makes_def)
  qed
qed

lemma grow_capacity_spec:
  "0 \<le> c \<Longrightarrow> RequiredLen \<le> grow_capacity RequiredLen c \<and> c \<le> grow_capacity RequiredLen c
     \<and> grow_capacity RequiredLen c \<le> max c (2 * RequiredLen + 16)"
proof (induction RequiredLen c rule: grow_capacity.induct)
  case (1 RequiredLen c)
  show ?case
  proof (cases "c < RequiredLen")
    case True
    have "0 \<le> c + c div 2 + 16" "c \<le> c + c div 2 + 16" "c + c div 2 + 16 \<le> 2 * RequiredLen + 16"
      using 1(2) True by linarith+
    with 1 True show ?thesis by (subst (1 2 3) grow_capacity.simps) auto
  qed (use 1(2) in \<open>simp add: grow_capacity.simps\<close>)
qed

lemma EnsureCapacity_spec:
  assumes h: "heap_ok h" "str_ok s h" "free_addrs h \<noteq> []" and n: "0 \<le> n" "n < 2 ^ 32"
    and len: "int (length (str_text s h)) \<le> n"
  obtains s' h' where "EnsureCapacity b n s h = Inr (s', h')" "makes s h s' h' (str_text s h)"
    "IsInSso s' \<Longrightarrow> n \<le> 47" "\<not> IsInSso s' \<Longrightarrow> n \<le> m_byteCap s'"
proof (cases "IsInSso s")
  case True
  note sso = True
  have s64: "length (m_storage s) = 64" and L: "uint (GetSsoLen s) \<le> 47" using h(2) True by (simp_all add: str_ok_def)
  define l where "l = uint (GetSsoLen s)"
  have l0: "0 \<le> l" "l \<le> 47" using L by (simp_all add: l_def)
  have tx: "str_text s h = take (nat l) (m_storage s)" using True by (simp add: str_text_def l_def)
  show ?thesis
  proof (cases "n \<le> 47")
    case True
    have "makes s h s h (str_text s h)" using h frame_refl str_ok_own by (simp add: makes_def)
    with True sso n show ?thesis by (intro that [of s h]) (simp_all add: EnsureCapacity_def kSsoMaxBytes_def)
  next
    case False
    define c where "c = (if n < 64 then 64 else n)"
    have c: "l \<le> c" "c < 2 ^ 40" "n \<le> c" "l < 2 ^ 31" using n l0 False by (auto simp: c_def)
    obtain s1 h1 bs where i: "InitHeap b l c \<lparr> m_storage = replicate kStorageSize 0 \<rparr> h = Inr (s1, h1)" "frame {} h (own s1) h1"
      "str_ok s1 h1" "\<not> IsInSso s1" "m_byteLen s1 = l" "blocks h1 (m_data s1) = Some bs" "length bs = nat c" "m_byteCap s1 = c"
      by (rule InitHeap_spec [OF h(1,3) _ l0(1) c(1,2,4), of "\<lparr> m_storage = replicate kStorageSize 0 \<rparr>" b])
        (simp add: kStorageSize_def, rule that)
    have h1: "heap_ok h1" using i(2) by (simp add: frame_def)
    have o: "own s1 = {m_data s1}" "own s = {}" using i(4) sso by (simp_all add: own_def)
    have room: "0 + length (str_text s h) \<le> length bs" using i(7) c(1) by (simp add: tx)
    obtain h2 where w: "(if 0 < l then write_block (m_data s1) 0 (str_text s h) h1 else Inr h1) = Inr h2"
      "frame {m_data s1} h1 {m_data s1} h2" "take (nat l) (the (blocks h2 (m_data s1))) = str_text s h"
      "\<exists>bs. blocks h2 (m_data s1) = Some bs \<and> length bs = nat c"
    proof (cases "0 < l")
      case True
      obtain h2 where w: "write_block (m_data s1) 0 (str_text s h) h1 = Inr h2" "frame {m_data s1} h1 {m_data s1} h2"
        "blocks h2 (m_data s1) = Some (put_bytes 0 (str_text s h) bs)"
        by (rule write_block_spec [OF h1 i(6) room]) (rule that)
      have "length (str_text s h) = nat l" using l0 s64 by (simp add: tx)
      then have "take (nat l) (put_bytes 0 (str_text s h) bs) = str_text s h" by (simp add: put_bytes_def)
      with w True i(7) room show ?thesis by (intro that [of h2]) simp_all
    next
      case False
      then have "l = 0" using l0 by simp
      with i(6,7) h1 frame_refl [of h1 "{m_data s1}"] show ?thesis by (intro that [of h1]) (auto simp: tx)
    qed
    have "str_ok s1 h2" "str_text s1 h2 = str_text s h"
      using i(3,4,5,8) w(3,4) c l0 by (auto simp: str_ok_def str_text_def)
    moreover have "frame (own s) h (own s1) h2" using frame_trans [OF i(2) w(2) [folded o(1)]] o(2) by simp
    moreover have "EnsureCapacity b n s h = Inr (s1, h2)"
      using sso False n i(1) w(1) [unfolded tx]
      by (simp add: EnsureCapacity_def kSsoMaxBytes_def Let_def c_def flip: l_def split: if_splits)
    ultimately show ?thesis using i(4,8) c(3) by (intro that [of s1 h2]) (simp_all add: makes_def)
  qed
next
  case False
  note heap = False
  obtain bs where k: "length (m_storage s) = 64" "m_data s \<noteq> nullptr" "0 \<le> m_byteLen s" "m_byteLen s < 2 ^ 31" "m_byteLen s \<le> m_byteCap s"
    "m_byteCap s < 2 ^ 40" "blocks h (m_data s) = Some bs" "m_byteCap s = int (length bs)"
    using h(2) False by (auto simp: str_ok_def)
  show ?thesis
  proof (cases "n \<le> m_byteCap s")
    case True
    have "makes s h s h (str_text s h)" using h frame_refl str_ok_own by (simp add: makes_def)
    with True heap n show ?thesis by (intro that [of s h]) (simp_all add: EnsureCapacity_def)
  next
    case False
    define c where "c = grow_capacity n (if 0 < m_byteCap s then m_byteCap s else 64)"
    have c0: "0 \<le> (if 0 < m_byteCap s then m_byteCap s else 64)" by simp
    have c: "n \<le> c" "m_byteCap s \<le> c" "c < 2 ^ 40" "0 \<le> c"
      using grow_capacity_spec [OF c0, of n] n k(6) by (auto simp: c_def split: if_splits)
    have "length bs \<le> nat c" using c k(8) by linarith
    then obtain q h1 xs where r: "ReallocOrAbort (m_data s) (nat c) h = Inr (q, h1)" "frame {m_data s} h {q} h1" "q \<noteq> nullptr"
      "blocks h1 q = Some (bs @ xs)" "length (bs @ xs) = nat c"
      by (rule Realloc_spec [OF h(1) k(7,2) _ h(3)]) (rule that)
    define s1 where "s1 = set_m_byteCap c (set_m_data q s)"
    note u = heap_update(1-5) [OF k(1) heap, of q]
    note v = heap_update(11-15) [OF u(1,2)]
    have s1: "length (m_storage s1) = 64" "\<not> IsInSso s1" "m_data s1 = q" "m_byteLen s1 = m_byteLen s" "m_byteCap s1 = c"
      using u v c by (simp_all add: s1_def)
    have "m_byteLen s \<le> c" using k(5) c(2) by linarith
    moreover have "int (length (bs @ xs)) = c" unfolding r(5) using c(4) by simp
    ultimately have "str_ok s1 h1" using s1 r(3,4) k c by (auto simp: str_ok_def)
    moreover have "nat (m_byteLen s) \<le> length bs" using k(5,8) by linarith
    then have "str_text s1 h1 = str_text s h" using s1 r(4) k(7) heap by (simp add: str_text_def)
    moreover have "frame (own s) h (own s1) h1" using r(2) s1 heap by (simp add: own_def)
    moreover have "EnsureCapacity b n s h = Inr (s1, h1)"
      using heap False n r(1) by (simp add: EnsureCapacity_def c_def s1_def Let_def)
    ultimately show ?thesis using s1 c by (intro that [of s1 h1]) (simp_all add: makes_def)
  qed
qed

section \<open>Operations\<close>

lemma makes_heap: "makes s h s' h' xs \<Longrightarrow> heap_ok h' \<and> str_ok s' h' \<and> str_text s' h' = xs \<and> frame (own s) h (own s') h'"
  by (simp add: makes_def frame_def)

lemma sso_text_length: "str_ok s h \<Longrightarrow> IsInSso s \<Longrightarrow> length (str_text s h) = nat (uint (GetSsoLen s)) \<and> length (str_text s h) \<le> 47
     \<and> str_text s h = take (length (str_text s h)) (m_storage s)"
  using LenBytes_text [of s h] by (auto simp: str_text_def str_ok_def LenBytes_def)

lemma Append_spec:
  assumes h: "heap_ok h" "str_ok s h" "free_addrs h \<noteq> []"
    and src: "external src (nat n) (own s) h xs" "0 \<le> n" "int (length (str_text s h)) + n < 2 ^ 31"
  obtains s' h' where "Str_Append b src n s h = Inr (s', h')" "makes s h s' h' (str_text s h @ xs)"
proof (cases "n = 0")
  case True
  with external_read [OF src(1)] have "xs = []" by simp
  moreover have "makes s h s h (str_text s h)" using h frame_refl str_ok_own by (simp add: makes_def)
  ultimately show ?thesis using True by (intro that [of s h]) (simp_all add: Str_Append_def)
next
  case False
  define t where "t = str_text s h"
  define m where "m = int (length t) + n"
  have L: "LenBytes s = int (length t)" using LenBytes_text [OF h(2)] by (simp add: t_def)
  have m: "0 \<le> m" "m < 2 ^ 32" "int (length (str_text s h)) \<le> m" "m < 2 ^ 31" using src(2,3) by (simp_all add: m_def t_def)
  obtain s1 h1 where e: "EnsureCapacity b m s h = Inr (s1, h1)" "makes s h s1 h1 (str_text s h)"
    "IsInSso s1 \<Longrightarrow> m \<le> 47" "\<not> IsInSso s1 \<Longrightarrow> m \<le> m_byteCap s1"
    by (rule EnsureCapacity_spec [OF h m(1-3), of b]) (rule that)
  have k: "heap_ok h1" "str_ok s1 h1" "str_text s1 h1 = t" "frame (own s) h (own s1) h1"
    using makes_heap [OF e(2)] by (simp_all add: t_def)
  note rd = external_read [OF external_frame [OF src(1) k(4)]]
  have lx: "length xs = nat n" using rd by simp
  have pre: "Str_Append b src n s h = rbind (read_text src (nat n) s1 h1) (\<lambda>xs.
       if IsInSso s1 then
         in_range (length t + length xs \<le> length (m_storage s1)) (
         Inr (SetSsoLen (word_of_int m) (s1\<lparr>m_storage := put_bytes (length t) xs (m_storage s1)\<rparr>), h1))
       else rbind (write_block (m_data s1) (length t) xs h1) (\<lambda>h2. Inr (set_m_byteLen m s1, h2)))"
    using False src(2) m(4) rd e(1) by (simp add: Str_Append_def L m_def Let_def)
  show ?thesis
  proof (cases "IsInSso s1")
    case True
    have "length (m_storage s1) = 64" using k(2) by (simp add: str_ok_def)
    moreover have "t = take (length t) (m_storage s1)" using sso_text_length [OF k(2) True] k(3) by metis
    ultimately have s1: "length (m_storage s1) = 64" "t = take (length t) (m_storage s1)" by blast+
    have m47: "m \<le> 47" using e(3) True by simp
    then have room: "length t + length xs \<le> length (m_storage s1)" using s1(1) lx src(2) by (simp add: m_def)
    define s2 where "s2 = s1\<lparr>m_storage := put_bytes (length t) xs (m_storage s1)\<rparr>"
    have s2: "length (m_storage s2) = 64" using room s1(1) by (simp add: s2_def)
    have "nat m = length t + length xs" using lx src(2) by (simp add: m_def)
    then have "take (nat m) (m_storage s2) = t @ xs" using take_put_bytes [OF room] s1(2) by (simp add: s2_def)
    note z = sso_make [OF s2 m(1) m47] this
    have "makes s h (SetSsoLen (word_of_int m) s2) h1 (t @ xs)"
    proof -
      have "own s1 = {}" using True by (simp add: own_def)
      then show ?thesis unfolding makes_def z(2,3,4) using z(1) k(4) by simp
    qed
    with True room rd pre show ?thesis by (intro that) (simp_all add: s2_def t_def)
  next
    case False
    obtain bs where bs: "length (m_storage s1) = 64" "blocks h1 (m_data s1) = Some bs" "m_byteCap s1 = int (length bs)" "m_byteCap s1 < 2 ^ 40"
      "m_data s1 \<noteq> nullptr" "m_byteLen s1 = int (length t)" "length t \<le> length bs"
    proof -
      obtain bs where bs: "blocks h1 (m_data s1) = Some bs" "m_byteCap s1 = int (length bs)" "0 \<le> m_byteLen s1"
        "m_byteLen s1 \<le> m_byteCap s1" "length (m_storage s1) = 64" "m_byteCap s1 < 2 ^ 40" "m_data s1 \<noteq> nullptr"
        using k(2) False by (auto simp: str_ok_def)
      moreover have "t = take (nat (m_byteLen s1)) bs" using k(3) False bs(1) by (simp add: str_text_def)
      ultimately show ?thesis by (intro that [of bs]) simp_all
    qed
    have cap: "m \<le> m_byteCap s1" using e(4) False by simp
    then have room: "length t + length xs \<le> length bs" using lx src(2) bs(3) by (simp add: m_def)
    obtain h2 where w: "write_block (m_data s1) (length t) xs h1 = Inr h2" "frame {m_data s1} h1 {m_data s1} h2"
      "blocks h2 (m_data s1) = Some (put_bytes (length t) xs bs)"
      by (rule write_block_spec [OF k(1) bs(2) room]) (rule that)
    define s2 where "s2 = set_m_byteLen m s1"
    have "m < 2 ^ 63" using m(2) by simp
    note u = heap_update(6-10) [OF bs(1) False]
    have s2: "length (m_storage s2) = 64" "\<not> IsInSso s2" "m_data s2 = m_data s1" "m_byteLen s2 = m" "m_byteCap s2 = m_byteCap s1"
      using u m(1) \<open>m < 2 ^ 63\<close> by (simp_all add: s2_def)
    have nm: "nat m = length t + length xs" using lx src(2) by (simp add: m_def)
    have "t = take (length t) bs" using k(3) False bs(2,6) by (simp add: str_text_def)
    then have "str_text s2 h2 = t @ xs" using s2 w(3) take_put_bytes [OF room] nm by (simp add: str_text_def)
    moreover have "str_ok s2 h2" using s2 w(3) bs cap m room by (simp add: str_ok_def)
    moreover have "frame (own s) h (own s2) h2"
      using frame_trans [OF k(4)] w(2) s2 False by (simp add: own_def)
    ultimately have "makes s h s2 h2 (t @ xs)" by (simp add: makes_def)
    with False rd w(1) pre show ?thesis by (intro that) (simp_all add: s2_def t_def)
  qed
qed

lemma dtor_spec:
  assumes "heap_ok h" "str_ok s h" "\<not> IsInSso s \<or> free_addrs h \<noteq> []"
  obtains s' h' where "FString_dtor s h = Inr (s', h')" "frame (own s) h {} h'" "free_addrs h' \<noteq> []"
proof -
  obtain h' where "FreeHeap s h = Inr h'" "frame (own s) h {} h'" "free_addrs h' \<noteq> []"
    by (rule FreeHeap_spec [OF assms]) (rule that)
  then show ?thesis by (intro that [of _ h']) (simp_all add: FString_dtor_def)
qed

lemma assign_empty_spec:
  assumes "heap_ok h" "free_addrs h \<noteq> []" "external src (nat n) {} h xs" "0 \<le> n" "n < 2 ^ 31"
  obtains s' h' where "AssignFromBuffer b src n InitEmpty h = Inr (s', h')" "frame {} h (own s') h'" "str_ok s' h'" "str_text s' h' = xs"
proof -
  have e: "str_ok InitEmpty h" "\<not> IsInSso InitEmpty \<or> free_addrs h \<noteq> []" "external src (nat n) (own InitEmpty) h xs"
    using empty_ok assms(2,3) by simp_all
  obtain s' h' where "AssignFromBuffer b src n InitEmpty h = Inr (s', h')" "makes InitEmpty h s' h' xs"
    by (rule AssignFromBuffer_spec [OF assms(1) e(1,2,3) assms(4,5), of b]) (rule that)
  then show ?thesis by (intro that [of s' h']) (simp_all add: makes_def)
qed

lemma of_range_spec:
  assumes "heap_ok h" "free_addrs h \<noteq> []" "external src (nat n) {} h xs" "0 \<le> n" "n < 2 ^ 31"
  obtains s' h' where "FString_of_range b src n h = Inr (s', h')" "frame {} h (own s') h'" "str_ok s' h'" "str_text s' h' = xs"
proof (cases "0 < n")
  case True
  obtain s' h' where a: "AssignFromBuffer b src n InitEmpty h = Inr (s', h')" "frame {} h (own s') h'" "str_ok s' h'" "str_text s' h' = xs"
    by (rule assign_empty_spec [OF assms, of b]) (rule that)
  have "src \<noteq> NullText" using external_read [OF assms(3)] by blast
  with a True show ?thesis by (intro that [of s' h']) (simp_all add: FString_of_range_def)
next
  case False
  then have "xs = []" using external_read [OF assms(3)] assms(4) by simp
  with False assms(1,4) empty_ok frame_refl [of h "{}"] show ?thesis
    by (intro that [of InitEmpty h]) (simp_all add: FString_of_range_def)
qed

lemma copy_ctor_spec:
  assumes "heap_ok h" "free_addrs h \<noteq> []" "str_ok t h"
  obtains s' h' where "FString_copy_ctor b t h = Inr (s', h')" "frame {} h (own s') h'" "str_ok s' h'" "str_text s' h' = str_text t h"
proof (cases "0 < LenBytes t")
  case True
  note L = LenBytes_text [OF assms(3)]
  have e: "external (Data_of_other t) (nat (LenBytes t)) {} h (str_text t h)"
    using external_other [OF assms(3), of "{}"] L by simp
  obtain s' h' where "AssignFromBuffer b (Data_of_other t) (LenBytes t) InitEmpty h = Inr (s', h')" "frame {} h (own s') h'" "str_ok s' h'"
    "str_text s' h' = str_text t h"
    by (rule assign_empty_spec [OF assms(1,2) e _ _, of b]) (use L in \<open>simp_all add: that\<close>)
  with True show ?thesis by (intro that [of s' h']) (simp_all add: FString_copy_ctor_def)
next
  case False
  then have "str_text t h = []" using LenBytes_text [OF assms(3)] by simp
  with False assms(1) empty_ok frame_refl [of h "{}"] show ?thesis
    by (intro that [of InitEmpty h]) (simp_all add: FString_copy_ctor_def)
qed

lemma str_frame:
  assumes "frame A h B h'" "str_ok t h" "own t \<inter> A = {}"
  shows "str_ok t h'" "str_text t h' = str_text t h"
proof -
  have "blocks h' (m_data t) = blocks h (m_data t)" if "\<not> IsInSso t"
    using assms that by (auto simp: frame_def own_def str_ok_def)
  then show "str_ok t h'" "str_text t h' = str_text t h" using assms(2) by (auto simp: str_ok_def str_text_def)
qed

lemma copy_assign_spec:
  assumes "heap_ok h" "str_ok s h" "\<not> IsInSso s \<or> free_addrs h \<noteq> []" "str_ok t h" "own t \<inter> own s = {}"
  obtains s' h' where "FString_copy_assign b False s t h = Inr (s', h')" "makes s h s' h' (str_text t h)"
proof -
  obtain s1 h1 where d: "FString_dtor s h = Inr (s1, h1)" "frame (own s) h {} h1" "free_addrs h1 \<noteq> []"
    by (rule dtor_spec [OF assms(1-3)]) (rule that)
  note t = str_frame [OF d(2) assms(4,5)]
  have h1: "heap_ok h1" using d(2) by (simp add: frame_def)
  obtain s' h' where c: "FString_copy_ctor b t h1 = Inr (s', h')" "frame {} h1 (own s') h'" "str_ok s' h'" "str_text s' h' = str_text t h1"
    by (rule copy_ctor_spec [OF h1 d(3) t(1), of b]) (rule that)
  then show ?thesis
    using d(1) t(2) frame_trans [OF d(2) c(2)] by (intro that [of s' h']) (simp_all add: FString_copy_assign_def makes_def)
qed

lemma ToUtf8Cstr_spec:
  assumes h: "heap_ok h" "str_ok s h" "free_addrs h \<noteq> []" and short: "length (str_text s h) + 1 < 2 ^ 31"
  obtains p s' h' where "ToUtf8Cstr b s h = Inr (p, s', h')" "makes s h s' h' (str_text s h)"
    "read_text p (length (str_text s h) + 1) s' h' = Inr (str_text s h @ [0])"
proof (cases "IsInSso s")
  case True
  define t where "t = str_text s h"
  note q = sso_text_length [OF h(2) True, folded t_def]
  have L: "LenBytes s = int (length t)" using LenBytes_text [OF h(2)] by (simp add: t_def)
  have s64: "length (m_storage s) = 64" "uint (GetSsoLen s) \<le> 47" using h(2) True by (simp_all add: str_ok_def)
  define s' where "s' = s\<lparr>m_storage := (m_storage s)[length t := 0]\<rparr>"
  have d: "Discriminator s' = Discriminator s" using q by (simp add: s'_def Discriminator_def kDiscriminatorByte_def)
  then have sso: "IsInSso s'" "GetSsoLen s' = GetSsoLen s" using True by (simp_all add: IsInSso_def GetSsoLen_def)
  have tk: "take (length t) (m_storage s') = t" using q by (simp add: s'_def) metis
  have "str_ok s' h" using sso s64 by (simp add: str_ok_def) (simp add: s'_def)
  moreover have "str_text s' h = t" using sso q tk by (simp add: str_text_def)
  moreover have "own s' = own s" using sso True by (simp add: own_def)
  ultimately have "makes s h s' h t" using h frame_refl str_ok_own by (simp add: makes_def)
  moreover have "ToUtf8Cstr b s h = Inr (OwnStorage 0, s', h)"
    using True L q s64 by (simp add: ToUtf8Cstr_def Let_def kSsoMaxBytes_def s'_def)
  moreover have "take (length t + 1) (m_storage s') = t @ [0]"
    using tk q s64 by (simp add: take_Suc_conv_app_nth s'_def)
  ultimately show ?thesis using q s64 by (intro that [of "OwnStorage 0" s' h]) (simp_all add: t_def read_text_def, simp_all add: s'_def)
next
  case False
  define t where "t = str_text s h"
  have L: "LenBytes s = int (length t)" "LenBytes s < 2 ^ 31" using LenBytes_text [OF h(2)] by (simp_all add: t_def)
  have n: "0 \<le> LenBytes s + 1" "LenBytes s + 1 < 2 ^ 32" "int (length (str_text s h)) \<le> LenBytes s + 1"
    using L by (simp_all add: t_def)
  obtain s1 h1 where e: "EnsureCapacity b (LenBytes s + 1) s h = Inr (s1, h1)" "makes s h s1 h1 t" "\<not> IsInSso s"
    "\<not> IsInSso s1 \<Longrightarrow> LenBytes s + 1 \<le> m_byteCap s1"
    by (rule EnsureCapacity_spec [OF h n, of b]) (use False in \<open>simp add: t_def that\<close>)
  have "\<not> IsInSso s1"
    using e(1) False heap_update(2,12) h(2) heap_update(1)
    by (auto simp: EnsureCapacity_def Let_def xcheck_eq_Inr rbind_eq_Inr str_ok_def split: if_splits)
  with e have s1: "\<not> IsInSso s1" "LenBytes s + 1 \<le> m_byteCap s1" by blast+
  have k: "heap_ok h1" "str_ok s1 h1" "str_text s1 h1 = t" "frame (own s) h (own s1) h1" using makes_heap [OF e(2)] by simp_all
  obtain bs where bs: "blocks h1 (m_data s1) = Some bs" "m_byteCap s1 = int (length bs)" "t = take (nat (m_byteLen s1)) bs"
    "0 \<le> m_byteLen s1" "m_byteLen s1 \<le> int (length bs)"
    using k(2,3) s1(1) by (auto simp: str_ok_def str_text_def)
  have len: "nat (m_byteLen s1) = length t" using bs by simp
  have room: "length t + length [0 :: u8] \<le> length bs" using s1(2) L(1) bs(2) by simp
  obtain h2 where w: "write_block (m_data s1) (length t) [0] h1 = Inr h2" "frame {m_data s1} h1 {m_data s1} h2"
    "blocks h2 (m_data s1) = Some (put_bytes (length t) [0] bs)"
    by (rule write_block_spec [OF k(1) bs(1) room]) (rule that)
  note tp = take_put_bytes [OF room]
  have t': "take (length t) bs = t" using bs(3) len by metis
  have "take (length t) (put_bytes (length t) [0] bs) = t" using t' by (simp add: put_bytes_def)
  then have "str_text s1 h2 = t" using s1(1) w(3) len by (simp add: str_text_def)
  moreover have "str_ok s1 h2" using k(2) s1(1) w(3) bs room by (auto simp: str_ok_def)
  moreover have "frame (own s) h (own s1) h2" using frame_trans [OF k(4)] w(2) s1(1) by (simp add: own_def)
  ultimately have "makes s h s1 h2 t" by (simp add: makes_def)
  moreover have "ToUtf8Cstr b s h = Inr (InBlock (m_data s1) 0, s1, h2)"
    using False e(1) w(1) L(1) short by (simp add: ToUtf8Cstr_def Let_def t_def)
  moreover have "read_text (InBlock (m_data s1) 0) (length t + 1) s1 h2 = Inr (t @ [0])"
    using w(3) tp t' room by (simp add: read_text_def)
  ultimately show ?thesis by (intro that [of "InBlock (m_data s1) 0" s1 h2]) (simp_all add: t_def)
qed

end
