(* ===== verification/FStringTheorems.thy ===== *)
theory FStringTheorems
  imports FStringProps OpRefinement
begin

text \<open>
  Runs of operations on any number of strings that share a heap, and the one operation that reads
  what it has just moved: appending a string to itself.
\<close>

section \<open>Operations on many strings\<close>

datatype str_op =
    NewText "u8 list"
  | NewCstr "u8 list"
  | CopyNew nat
  | MoveNew nat
  | AssignCopy nat nat
  | AssignMove nat nat
  | AssignCstr nat "u8 list"
  | AppendText nat "u8 list"
  | AppendOther nat nat
  | PlusNew nat nat
  | TerminateText nat
  | DestroyLast

type_synonym strings = "FString_object list \<times> string_heap"

definition add_string :: "strings \<Rightarrow> FString_object \<times> string_heap \<Rightarrow> strings" where
  "add_string S = (\<lambda>(s, h). (fst S @ [s], h))"

definition put_string :: "nat \<Rightarrow> strings \<Rightarrow> FString_object \<times> string_heap \<Rightarrow> strings" where
  "put_string i S = (\<lambda>(s, h). ((fst S)[i := s], h))"

fun str_step :: "build \<Rightarrow> str_op \<Rightarrow> strings \<Rightarrow> xerror + strings" where
  "str_step b (NewText xs) (ss, h) =
     rbind (FString_of_range b (Outside xs) (int (length xs)) h) (\<lambda>r. Inr (add_string (ss, h) r))"
| "str_step b (NewCstr xs) (ss, h) = rbind (FString_of_cstr b (Some xs) h) (\<lambda>r. Inr (add_string (ss, h) r))"
| "str_step b (CopyNew i) (ss, h) = rbind (FString_copy_ctor b (ss ! i) h) (\<lambda>r. Inr (add_string (ss, h) r))"
| "str_step b (MoveNew i) (ss, h) =
     (let (s, old) = FString_move_ctor (ss ! i) in Inr (ss[i := old] @ [s], h))"
| "str_step b (AssignCopy i j) (ss, h) =
     rbind (FString_copy_assign b (i = j) (ss ! i) (ss ! j) h) (\<lambda>r. Inr (put_string i (ss, h) r))"
| "str_step b (AssignMove i j) (ss, h) =
     rbind (FString_move_assign (i = j) (ss ! i) (ss ! j) h) (\<lambda>(s, old, h'). Inr (ss[j := old, i := s], h'))"
| "str_step b (AssignCstr i xs) (ss, h) =
     rbind (FString_assign_cstr b (Some xs) (ss ! i) h) (\<lambda>r. Inr (put_string i (ss, h) r))"
| "str_step b (AppendText i xs) (ss, h) =
     rbind (Str_Append b (Outside xs) (int (length xs)) (ss ! i) h) (\<lambda>r. Inr (put_string i (ss, h) r))"
| "str_step b (AppendOther i j) (ss, h) =
     rbind (Str_Append_other b (ss ! j) (ss ! i) h) (\<lambda>r. Inr (put_string i (ss, h) r))"
| "str_step b (PlusNew i j) (ss, h) = rbind (Str_plus b (ss ! i) (ss ! j) h) (\<lambda>r. Inr (add_string (ss, h) r))"
| "str_step b (TerminateText i) (ss, h) = rbind (ToUtf8Cstr b (ss ! i) h) (\<lambda>(p, r). Inr (put_string i (ss, h) r))"
| "str_step b DestroyLast (ss, h) = rbind (FString_dtor (last ss) h) (\<lambda>(s, h'). Inr (butlast ss, h'))"

definition c_text :: "u8 list \<Rightarrow> u8 list" where
  "c_text xs = takeWhile (\<lambda>Ch. Ch \<noteq> 0) xs"

fun str_spec :: "str_op \<Rightarrow> u8 list list \<Rightarrow> u8 list list" where
  "str_spec (NewText xs) m = m @ [xs]"
| "str_spec (NewCstr xs) m = m @ [c_text xs]"
| "str_spec (CopyNew i) m = m @ [m ! i]"
| "str_spec (MoveNew i) m = m[i := []] @ [m ! i]"
| "str_spec (AssignCopy i j) m = m[i := m ! j]"
| "str_spec (AssignMove i j) m = (if i = j then m else m[j := [], i := m ! j])"
| "str_spec (AssignCstr i xs) m = m[i := c_text xs]"
| "str_spec (AppendText i xs) m = m[i := m ! i @ xs]"
| "str_spec (AppendOther i j) m = m[i := m ! i @ m ! j]"
| "str_spec (PlusNew i j) m = m @ [m ! i @ m ! j]"
| "str_spec (TerminateText i) m = m"
| "str_spec DestroyLast m = butlast m"

text \<open>\<open>K\<close> is the number of blocks the allocator has; a string takes one, an operation up to two more.\<close>

definition str_op_ok :: "nat \<Rightarrow> str_op \<Rightarrow> u8 list list \<Rightarrow> bool" where
  "str_op_ok K x m \<longleftrightarrow> length m + 2 \<le> K \<and> (case x of
       NewText xs \<Rightarrow> length xs < 2 ^ 31
     | NewCstr xs \<Rightarrow> length (c_text xs) < 2 ^ 31
     | CopyNew i \<Rightarrow> i < length m
     | MoveNew i \<Rightarrow> i < length m
     | AssignCopy i j \<Rightarrow> i < length m \<and> j < length m
     | AssignMove i j \<Rightarrow> i < length m \<and> j < length m
     | AssignCstr i xs \<Rightarrow> i < length m \<and> length (c_text xs) < 2 ^ 31
     | AppendText i xs \<Rightarrow> i < length m \<and> length (m ! i) + length xs < 2 ^ 31
     | AppendOther i j \<Rightarrow> i \<noteq> j \<and> i < length m \<and> j < length m \<and> length (m ! i) + length (m ! j) < 2 ^ 31
     | PlusNew i j \<Rightarrow> i < length m \<and> j < length m \<and> length (m ! i) + length (m ! j) < 2 ^ 31
     | TerminateText i \<Rightarrow> i < length m \<and> length (m ! i) + 1 < 2 ^ 31
     | DestroyLast \<Rightarrow> m \<noteq> [])"

text \<open>The texts are those of the strings, no block is shared and none belongs to nobody.\<close>

definition strings_rep :: "nat \<Rightarrow> strings \<Rightarrow> u8 list list \<Rightarrow> bool" where
  "strings_rep K S m \<longleftrightarrow> (case S of (ss, h) \<Rightarrow> heap_ok h \<and> length ss = length m
     \<and> (\<forall>i < length m. str_ok (ss ! i) h \<and> str_text (ss ! i) h = m ! i)
     \<and> (\<forall>i < length m. \<forall>j < length m. i \<noteq> j \<longrightarrow> own (ss ! i) \<inter> own (ss ! j) = {})
     \<and> dom (blocks h) = (\<Union>i < length m. own (ss ! i))
     \<and> length (free_addrs h) + card (dom (blocks h)) = K)"

lemma rep_parts:
  assumes "strings_rep K (ss, h) m"
  shows "heap_ok h" "length ss = length m" "i < length m \<Longrightarrow> str_ok (ss ! i) h" "i < length m \<Longrightarrow> str_text (ss ! i) h = m ! i"
    "i < length m \<Longrightarrow> j < length m \<Longrightarrow> i \<noteq> j \<Longrightarrow> own (ss ! i) \<inter> own (ss ! j) = {}"
    "dom (blocks h) = (\<Union>i < length m. own (ss ! i))" "length (free_addrs h) + card (dom (blocks h)) = K"
  using assms unfolding strings_rep_def prod.case by blast+

lemma rep_room: "strings_rep K (ss, h) m \<Longrightarrow> K \<le> length (free_addrs h) + length m"
proof -
  assume r: "strings_rep K (ss, h) m"
  have "card (dom (blocks h)) \<le> (\<Sum>i < length m. card (own (ss ! i)))"
    unfolding rep_parts(6) [OF r] by (rule card_UN_le) simp
  also have "\<dots> \<le> (\<Sum>i < length m. 1)" by (rule sum_mono) (rule own_card(1))
  finally have "card (dom (blocks h)) \<le> length m" by simp
  with rep_parts(7) [OF r] show ?thesis by linarith
qed

lemma frame_count:
  assumes "frame A h B h'" "A \<subseteq> dom (blocks h)"
  shows "length (free_addrs h') + card (dom (blocks h')) = length (free_addrs h) + card (dom (blocks h))"
proof -
  have d: "dom (blocks h') = dom (blocks h) - A \<union> B" "(dom (blocks h) - A) \<inter> B = {}"
    using assms(1) by (auto simp: frame_def)
  have f: "finite S" for S :: "u64 set" by (rule finite)
  have "card (dom (blocks h')) = card (dom (blocks h) - A) + card B" using d f by (simp add: card_Un_disjoint)
  moreover have "card (dom (blocks h) - A) + card A = card (dom (blocks h))"
    using assms(2) f card_mono [of "dom (blocks h)" A] by (simp add: card_Diff_subset)
  moreover have "length (free_addrs h') + card B = length (free_addrs h) + card A" using assms(1) by (simp add: frame_def)
  ultimately show ?thesis by linarith
qed

lemma rep_put:
  assumes r: "strings_rep K (ss, h) m" and i: "i < length m" and k: "makes (ss ! i) h s' h' xs"
  shows "strings_rep K (ss[i := s'], h') (m[i := xs])"
proof -
  note p = rep_parts [OF r]
  have f: "frame (own (ss ! i)) h (own s') h'" "str_ok s' h'" "str_text s' h' = xs" using k by (simp_all add: makes_def)
  have keep: "str_ok (ss ! j) h'" "str_text (ss ! j) h' = m ! j" "own (ss ! j) \<inter> own s' = {}" if "j < length m" "j \<noteq> i" for j
  proof -
    note d = p(5) [OF that(1) i that(2)]
    note t = str_frame [OF f(1) p(3) [OF that(1)] d]
    show "str_ok (ss ! j) h'" "str_text (ss ! j) h' = m ! j" using t p(4) [OF that(1)] by simp_all
    have "own (ss ! j) \<subseteq> dom (blocks h)" by (rule str_ok_own [OF p(3) [OF that(1)]])
    with d f(1) show "own (ss ! j) \<inter> own s' = {}" unfolding frame_def by blast
  qed
  have sub: "own (ss ! i) \<subseteq> dom (blocks h)" by (rule str_ok_own [OF p(3) [OF i]])
  have "dom (blocks h') = dom (blocks h) - own (ss ! i) \<union> own s'" using f(1) by (simp add: frame_def)
  also have "\<dots> = (\<Union>j < length m. own (ss[i := s'] ! j))"
  proof -
    have "dom (blocks h) - own (ss ! i) = (\<Union>j \<in> {..< length m} - {i}. own (ss ! j))"
      unfolding p(6) using p(5) i by blast
    also have "\<dots> = (\<Union>j \<in> {..< length m} - {i}. own (ss[i := s'] ! j))" by auto
    finally have "dom (blocks h) - own (ss ! i) \<union> own s' = (\<Union>j \<in> {..< length m} - {i}. own (ss[i := s'] ! j)) \<union> own (ss[i := s'] ! i)"
      using i p(2) by simp
    then show ?thesis using i by blast
  qed
  finally have dm: "dom (blocks h') = (\<Union>j < length m. own (ss[i := s'] ! j))" .
  have disj: "own (ss[i := s'] ! a) \<inter> own (ss[i := s'] ! c) = {}" if "a < length m" "c < length m" "a \<noteq> c" for a c
    using keep(3) [of a] keep(3) [of c] p(2) p(5) [of a c] that by (cases "a = i"; cases "c = i") (simp_all add: Int_commute)
  show ?thesis
    unfolding strings_rep_def prod.case
    using f keep i p(2,7) dm disj frame_count [OF f(1) sub] by (auto simp: nth_list_update frame_def)
qed

lemma rep_add:
  assumes r: "strings_rep K (ss, h) m" and f: "frame {} h (own s') h'" "str_ok s' h'" "str_text s' h' = xs"
  shows "strings_rep K (ss @ [s'], h') (m @ [xs])"
proof -
  note p = rep_parts [OF r]
  have keep: "str_ok (ss ! j) h'" "str_text (ss ! j) h' = m ! j" "own (ss ! j) \<inter> own s' = {}" if "j < length m" for j
  proof -
    note t = str_frame [OF f(1) p(3) [OF that]]
    show "str_ok (ss ! j) h'" "str_text (ss ! j) h' = m ! j" using t p(4) [OF that] by simp_all
    have "own (ss ! j) \<subseteq> dom (blocks h)" by (rule str_ok_own [OF p(3) [OF that]])
    with f(1) show "own (ss ! j) \<inter> own s' = {}" unfolding frame_def by blast
  qed
  have "dom (blocks h') = dom (blocks h) \<union> own s'" using f(1) by (simp add: frame_def)
  then have dm: "dom (blocks h') = (\<Union>j < Suc (length m). own ((ss @ [s']) ! j))"
    unfolding p(6) lessThan_Suc using p(2) by (auto simp: nth_append)
  have disj: "own ((ss @ [s']) ! a) \<inter> own ((ss @ [s']) ! c) = {}" if "a < Suc (length m)" "c < Suc (length m)" "a \<noteq> c" for a c
    using keep(3) [of a] keep(3) [of c] p(2,5) that by (auto simp: nth_append less_Suc_eq)
  show ?thesis
    unfolding strings_rep_def prod.case
    using f keep p(2,7) dm disj frame_count [OF f(1)] by (auto simp: nth_append less_Suc_eq frame_def)
qed

lemma rep_drop:
  assumes r: "strings_rep K (ss @ [InitEmpty], h) (m @ [xs])"
  shows "strings_rep K (ss, h) m"
proof -
  note p = rep_parts [OF r]
  have n: "length ss = length m" using p(2) by simp
  have nth: "(ss @ [InitEmpty]) ! i = ss ! i" "(m @ [xs]) ! i = m ! i" if "i < length m" for i using that n by (simp_all add: nth_append)
  have "(\<Union>i < Suc (length m). own ((ss @ [InitEmpty]) ! i)) = (\<Union>i < length m. own (ss ! i))"
    unfolding lessThan_Suc using n by (auto simp: nth_append)
  then show ?thesis
    unfolding strings_rep_def prod.case using p n nth by (metis length_append_singleton less_Suc_eq)
qed

lemma rep_swap:
  assumes r: "strings_rep K (ss, h) m" and i: "i < length m" "j < length m"
  shows "strings_rep K (ss[i := ss ! j, j := ss ! i], h) (m[i := m ! j, j := m ! i])"
proof -
  note p = rep_parts [OF r]
  define f where "f k = (if k = i then j else if k = j then i else k)" for k
  have f: "f k < length m" if "k < length m" for k using that i by (simp add: f_def)
  have inj: "f a \<noteq> f c" if "a \<noteq> c" for a c using that by (auto simp: f_def)
  have nth: "ss[i := ss ! j, j := ss ! i] ! k = ss ! f k" "m[i := m ! j, j := m ! i] ! k = m ! f k" if "k < length m" for k
    using that p(2) i by (auto simp: f_def nth_list_update)
  have "f (f k) = k" for k by (auto simp: f_def)
  then have "(\<Union>k < length m. own (ss ! f k)) = (\<Union>k < length m. own (ss ! k))" using f by auto (metis lessThan_iff UN_iff)+
  then show ?thesis
    unfolding strings_rep_def prod.case using p f inj nth by simp
qed

lemma c_length_c_text: "c_length xs = length (c_text xs)" "take (length (c_text xs)) xs = c_text xs" "length (c_text xs) \<le> length xs"
  by (simp_all add: c_length_def c_text_def length_takeWhile_le) (metis takeWhile_eq_take)

lemma outside_external: "n \<le> length xs \<Longrightarrow> external (Outside xs) n A h (take n xs)"
  by (simp add: external_def)

lemma cstr_int: "length (c_text xs) < 2 ^ 31 \<Longrightarrow> sint (word_of_nat (c_length xs) :: u32) = int (length (c_text xs))"
  using int32_id [of "int (length (c_text xs))"] by (simp add: c_length_c_text)

lemma of_cstr_spec:
  assumes "heap_ok h" "free_addrs h \<noteq> []" "length (c_text xs) < 2 ^ 31"
  obtains s' h' where "FString_of_cstr b (Some xs) h = Inr (s', h')" "frame {} h (own s') h'" "str_ok s' h'" "str_text s' h' = c_text xs"
proof -
  let ?n = "int (length (c_text xs))"
  have e: "external (Outside xs) (nat ?n) {} h (c_text xs)" "0 \<le> ?n" "?n < 2 ^ 31"
    using outside_external [of "length (c_text xs)" xs "{}" h] assms(3) by (simp_all add: c_length_c_text)
  obtain s' h' where "AssignFromBuffer b (Outside xs) ?n InitEmpty h = Inr (s', h')" "frame {} h (own s') h'" "str_ok s' h'" "str_text s' h' = c_text xs"
    by (rule assign_empty_spec [OF assms(1,2) e, of b]) (rule that)
  then show ?thesis by (intro that [of s' h']) (simp_all add: FString_of_cstr_def cstr_int [OF assms(3)])
qed

lemma str_op_refines:
  assumes r: "strings_rep K S m" and ok: "str_op_ok K x m"
  shows "\<exists>S'. str_step b x S = Inr S' \<and> strings_rep K S' (str_spec x m)"
proof -
  obtain ss h where S: "S = (ss, h)" by (cases S)
  note r = r [unfolded S]
  note p = rep_parts [OF r]
  have free: "free_addrs h \<noteq> []" "2 \<le> length (free_addrs h)" using rep_room [OF r] ok by (auto simp: str_op_ok_def)
  note put = rep_put [OF r] and add = rep_add [OF r]
  have big: "int (length xs) < 2 ^ 31" if "length xs < 2 ^ 31" for xs :: "u8 list" using that by simp
  show ?thesis
  proof (cases x)
    case (NewText xs)
    have e: "external (Outside xs) (nat (int (length xs))) {} h xs" by (simp add: external_def)
    obtain s' h' where "FString_of_range b (Outside xs) (int (length xs)) h = Inr (s', h')" "frame {} h (own s') h'" "str_ok s' h'" "str_text s' h' = xs"
      by (rule of_range_spec [OF p(1) free(1) e, of b]) (use ok NewText in \<open>simp_all add: str_op_ok_def that\<close>)
    with add NewText S show ?thesis by (simp add: add_string_def)
  next
    case (NewCstr xs)
    then have "length (c_text xs) < 2 ^ 31" using ok by (simp add: str_op_ok_def)
    then obtain s' h' where "FString_of_cstr b (Some xs) h = Inr (s', h')" "frame {} h (own s') h'" "str_ok s' h'" "str_text s' h' = c_text xs"
      by (rule of_cstr_spec [OF p(1) free(1), of xs b]) (rule that)
    with add NewCstr S show ?thesis by (simp add: add_string_def)
  next
    case (CopyNew i)
    then have i: "i < length m" using ok by (simp add: str_op_ok_def)
    obtain s' h' where "FString_copy_ctor b (ss ! i) h = Inr (s', h')" "frame {} h (own s') h'" "str_ok s' h'" "str_text s' h' = str_text (ss ! i) h"
      by (rule copy_ctor_spec [OF p(1) free(1) p(3) [OF i], of b]) (rule that)
    with add CopyNew S p(4) [OF i] show ?thesis by (simp add: add_string_def)
  next
    case (AssignCopy i j)
    then have i: "i < length m" "j < length m" using ok by (simp_all add: str_op_ok_def)
    show ?thesis
    proof (cases "i = j")
      case True
      then have "ss[i := ss ! i] = ss" "m[i := m ! j] = m" by simp_all
      with True AssignCopy S r show ?thesis by (simp add: FString_copy_assign_def put_string_def)
    next
      case False
      have d: "own (ss ! j) \<inter> own (ss ! i) = {}" using p(5) [OF i(2,1)] False by simp
      obtain s' h' where "FString_copy_assign b False (ss ! i) (ss ! j) h = Inr (s', h')" "makes (ss ! i) h s' h' (str_text (ss ! j) h)"
        by (rule copy_assign_spec [OF p(1) p(3) [OF i(1)] _ p(3) [OF i(2)] d, of b]) (use free in \<open>simp_all add: that\<close>)
      with put [OF i(1)] False AssignCopy S p(4) [OF i(2)] show ?thesis by (simp add: put_string_def)
    qed
  next
    case (AssignCstr i xs)
    then have i: "i < length m" "length (c_text xs) < 2 ^ 31" using ok by (simp_all add: str_op_ok_def)
    obtain s1 h1 where d: "FString_dtor (ss ! i) h = Inr (s1, h1)" "frame (own (ss ! i)) h {} h1" "free_addrs h1 \<noteq> []"
      by (rule dtor_spec [OF p(1) p(3) [OF i(1)]]) (use free in \<open>simp_all add: that\<close>)
    have h1: "heap_ok h1" using d(2) by (simp add: frame_def)
    obtain s' h' where c: "FString_of_cstr b (Some xs) h1 = Inr (s', h')" "frame {} h1 (own s') h'" "str_ok s' h'" "str_text s' h' = c_text xs"
      by (rule of_cstr_spec [OF h1 d(3) i(2), of b]) (rule that)
    then have "makes (ss ! i) h s' h' (c_text xs)" using frame_trans [OF d(2) c(2)] by (simp add: makes_def)
    with put [OF i(1)] AssignCstr S d(1) c(1) show ?thesis by (simp add: FString_assign_cstr_def put_string_def)
  next
    case (AppendText i xs)
    then have i: "i < length m" "length (m ! i) + length xs < 2 ^ 31" using ok by (simp_all add: str_op_ok_def)
    have e: "external (Outside xs) (nat (int (length xs))) (own (ss ! i)) h xs" by (simp add: external_def)
    obtain s' h' where "Str_Append b (Outside xs) (int (length xs)) (ss ! i) h = Inr (s', h')" "makes (ss ! i) h s' h' (str_text (ss ! i) h @ xs)"
      by (rule Append_spec [OF p(1) p(3) [OF i(1)] free(1) e, of b]) (use i p(4) [OF i(1)] in \<open>simp_all add: that\<close>)
    with put [OF i(1)] AppendText S p(4) [OF i(1)] show ?thesis by (simp add: put_string_def)
  next
    case (AppendOther i j)
    then have i: "i < length m" "j < length m" "i \<noteq> j" "length (m ! i) + length (m ! j) < 2 ^ 31" using ok by (simp_all add: str_op_ok_def)
    note L = LenBytes_text [OF p(3) [OF i(2)]]
    have d: "own (ss ! j) \<inter> own (ss ! i) = {}" using p(5) [OF i(2,1)] i(3) by simp
    have e: "external (Data_of_other (ss ! j)) (nat (LenBytes (ss ! j))) (own (ss ! i)) h (str_text (ss ! j) h)"
      using external_other [OF p(3) [OF i(2)] d] L by simp
    obtain s' h' where "Str_Append b (Data_of_other (ss ! j)) (LenBytes (ss ! j)) (ss ! i) h = Inr (s', h')"
      "makes (ss ! i) h s' h' (str_text (ss ! i) h @ str_text (ss ! j) h)"
      by (rule Append_spec [OF p(1) p(3) [OF i(1)] free(1) e, of b]) (use i L p(4) in \<open>simp_all add: that\<close>)
    with put [OF i(1)] AppendOther S p(4) i show ?thesis by (simp add: put_string_def Str_Append_other_def)
  next
    case (TerminateText i)
    then have i: "i < length m" and short: "length (m ! i) + 1 < 2 ^ 31" using ok by (simp_all add: str_op_ok_def)
    obtain q s' h' where "ToUtf8Cstr b (ss ! i) h = Inr (q, s', h')" "makes (ss ! i) h s' h' (str_text (ss ! i) h)"
      by (rule ToUtf8Cstr_spec [OF p(1) p(3) [OF i] free(1), of b]) (use short p(4) [OF i] that in simp_all)
    with put [OF i, of s' h' "m ! i"] TerminateText S p(4) [OF i] show ?thesis by (simp add: put_string_def)
  next
    case (MoveNew i)
    then have i: "i < length m" using ok by (simp add: str_op_ok_def)
    have a: "strings_rep K (ss @ [InitEmpty], h) (m @ [[]])"
      using p(1) by (intro rep_add [OF r]) (simp_all add: frame_refl empty_ok)
    have "(ss @ [InitEmpty])[i := (ss @ [InitEmpty]) ! length m, length m := (ss @ [InitEmpty]) ! i] = ss[i := InitEmpty] @ [ss ! i]"
      "(m @ [[]])[i := (m @ [[]]) ! length m, length m := (m @ [[]]) ! i] = m[i := []] @ [m ! i]"
      using i p(2) by (simp_all add: list_update_append nth_append)
    with rep_swap [OF a, of i "length m"] i have "strings_rep K (ss[i := InitEmpty] @ [ss ! i], h) (m[i := []] @ [m ! i])" by simp
    with MoveNew S show ?thesis by (simp add: FString_move_ctor_def)
  next
    case (AssignMove i j)
    then have i: "i < length m" "j < length m" using ok by (simp_all add: str_op_ok_def)
    show ?thesis
    proof (cases "i = j")
      case True
      then have "ss[j := ss ! j] = ss" "m[j := m ! j] = m" by simp_all
      with True AssignMove S r show ?thesis by (simp add: FString_move_assign_def)
    next
      case False
      obtain s1 h1 where d: "FString_dtor (ss ! i) h = Inr (s1, h1)" "frame (own (ss ! i)) h {} h1" "free_addrs h1 \<noteq> []"
        by (rule dtor_spec [OF p(1) p(3) [OF i(1)]]) (use free in \<open>simp_all add: that\<close>)
      have a: "strings_rep K (ss[i := InitEmpty], h1) (m[i := []])"
        by (rule put [OF i(1)]) (use d(2) in \<open>simp add: makes_def empty_ok\<close>)
      have "ss[i := InitEmpty, i := ss[i := InitEmpty] ! j, j := ss[i := InitEmpty] ! i] = ss[j := InitEmpty, i := ss ! j]"
        "m[i := [], i := m[i := []] ! j, j := m[i := []] ! i] = m[j := [], i := m ! j]"
        using i p(2) False by (simp_all add: list_update_swap)
      with rep_swap [OF a, of i j] i have "strings_rep K (ss[j := InitEmpty, i := ss ! j], h1) (m[j := [], i := m ! j])" by simp
      with False AssignMove S d(1) show ?thesis by (simp add: FString_move_assign_def)
    qed
  next
    case (PlusNew i j)
    then have i: "i < length m" "j < length m" "length (m ! i) + length (m ! j) < 2 ^ 31" using ok by (simp_all add: str_op_ok_def)
    obtain s1 h1 where c: "FString_copy_ctor b (ss ! i) h = Inr (s1, h1)" "frame {} h (own s1) h1" "str_ok s1 h1" "str_text s1 h1 = m ! i"
      by (rule copy_ctor_spec [OF p(1) free(1) p(3) [OF i(1)], of b]) (use p(4) [OF i(1)] in \<open>simp add: that\<close>)
    have a: "strings_rep K (ss @ [s1], h1) (m @ [m ! i])" by (rule add [OF c(2-4)])
    note p1 = rep_parts [OF a]
    have f1: "free_addrs h1 \<noteq> []" using rep_room [OF a] ok by (auto simp: str_op_ok_def)
    have nj: "(ss @ [s1]) ! j = ss ! j" "(ss @ [s1]) ! length m = s1" using i p(2) by (simp_all add: nth_append)
    have tj: "str_ok (ss ! j) h1" "str_text (ss ! j) h1 = m ! j" "own (ss ! j) \<inter> own s1 = {}"
      using p1(3,4) [of j] p1(5) [of j "length m"] i nj by (simp_all add: nth_append)
    note L = LenBytes_text [OF tj(1)]
    have e: "external (Data_of_other (ss ! j)) (nat (LenBytes (ss ! j))) (own s1) h1 (m ! j)"
      using external_other [OF tj(1,3)] L tj(2) by simp
    obtain s' h' where w: "Str_Append b (Data_of_other (ss ! j)) (LenBytes (ss ! j)) s1 h1 = Inr (s', h')"
      "makes s1 h1 s' h' (m ! i @ m ! j)"
      by (rule Append_spec [OF p1(1) c(3) f1 e, of b]) (use i L c(4) tj(2) in \<open>simp_all add: that\<close>)
    have "strings_rep K ((ss @ [s1])[length m := s'], h') ((m @ [m ! i])[length m := m ! i @ m ! j])"
      by (rule rep_put [OF a]) (simp_all add: nj w(2))
    then have "strings_rep K (ss @ [s'], h') (m @ [m ! i @ m ! j])" using p(2) by (simp add: list_update_append)
    with PlusNew S c(1) w(1) show ?thesis by (simp add: add_string_def Str_plus_def Str_Append_other_def)
  next
    case DestroyLast
    then have ne: "m \<noteq> []" using ok by (simp add: str_op_ok_def)
    define n where "n = length m - 1"
    have "ss \<noteq> []" using ne p(2) by auto
    then have n: "n < length m" "ss \<noteq> []" "last ss = ss ! n" "length ss = Suc n" "length m = Suc n"
      using ne p(2) by (auto simp: n_def last_conv_nth)
    obtain s1 h1 where d: "FString_dtor (ss ! n) h = Inr (s1, h1)" "frame (own (ss ! n)) h {} h1" "free_addrs h1 \<noteq> []"
      by (rule dtor_spec [OF p(1) p(3) [OF n(1)]]) (use free in \<open>simp_all add: that\<close>)
    have a: "strings_rep K (ss[n := InitEmpty], h1) (m[n := []])"
      by (rule put [OF n(1)]) (use d(2) in \<open>simp add: makes_def empty_ok\<close>)
    have "ss[n := InitEmpty] = butlast ss @ [InitEmpty]" "m[n := []] = butlast m @ [[]]"
      using n ne by (auto simp: list_eq_iff_nth_eq nth_append nth_butlast nth_list_update)
    with a have "strings_rep K (butlast ss, h1) (butlast m)" using rep_drop by metis
    with DestroyLast S d(1) n(3) show ?thesis by simp
  qed
qed

interpretation strings: op_refinement "strings_rep K" "str_op_ok K" "str_step b" str_spec for K b
  by unfold_locales (rule str_op_refines)

text \<open>
  C33: Any allowed sequence of constructions, copies, moves, assignments, appends, terminations and
  destructions of strings on one heap runs to its end without a failed check, a freed block read or
  freed again; every string holds the text the operations build on lists, no two strings share a
  block, and every block in use belongs to a string.  An operation is allowed when the lengths it
  computes fit an \<open>int32\<close>: every text is shorter than \<open>2^31\<close> bytes, and a text to be terminated
  shorter by one more.
\<close>

theorem string_runs_refine_lists:
  assumes "allowed (str_op_ok (length (free_addrs h))) str_spec xs []" "heap_ok h" "blocks h = (\<lambda>_. None)"
  shows "\<exists>ss h'. run_steps (str_step b) xs ([], h) = Inr (ss, h')
     \<and> map (\<lambda>s. str_text s h') ss = fold str_spec xs []
     \<and> (\<forall>i < length ss. \<forall>j < length ss. i \<noteq> j \<longrightarrow> own (ss ! i) \<inter> own (ss ! j) = {})
     \<and> dom (blocks h') = (\<Union>s \<in> set ss. own s)"
proof -
  have r: "strings_rep (length (free_addrs h)) ([], h) []" using assms(2,3) by (simp add: strings_rep_def)
  obtain ss h' where run: "run_steps (str_step b) xs ([], h) = Inr (ss, h')"
    "strings_rep (length (free_addrs h)) (ss, h') (fold str_spec xs [])"
    using strings.run_refines [OF r assms(1), of b] by auto
  note p = rep_parts [OF run(2)]
  have "map (\<lambda>s. str_text s h') ss = fold str_spec xs []" using p(2,4) by (simp add: list_eq_iff_nth_eq)
  moreover have "dom (blocks h') = (\<Union>s \<in> set ss. own s)" unfolding p(6) p(2) [symmetric] by (auto simp: set_conv_nth)
  ultimately show ?thesis using run(1) p(2,5) by auto
qed

definition three_blocks :: string_heap where
  "three_blocks = \<lparr> blocks = (\<lambda>_. None), free_addrs = [0x1000, 0x2000, 0x3000, 0x4000], junk = (\<lambda>_. 0xCD), extends_in_place = (\<lambda>_ _. False) \<rparr>"

theorem string_runs_refine_lists_witness:
  "\<exists>ss h'. run_steps (str_step Checked) [NewText (replicate 40 65), AppendText 0 (replicate 40 66)] ([], three_blocks) = Inr (ss, h')
     \<and> map (\<lambda>s. str_text s h') ss = [replicate 40 65 @ replicate 40 66]"
proof -
  have "heap_ok three_blocks" "blocks three_blocks = (\<lambda>_. None)" "length (free_addrs three_blocks) = 4"
    by (simp_all add: heap_ok_def three_blocks_def)
  moreover have "allowed (str_op_ok 4) str_spec [NewText (replicate 40 65), AppendText 0 (replicate 40 66)] []"
    by (simp add: str_op_ok_def)
  ultimately show ?thesis
    using string_runs_refine_lists [of three_blocks "[NewText (replicate 40 65), AppendText 0 (replicate 40 66)]" Checked] by fastforce
qed

section \<open>Appending a string to itself\<close>

lemma put_prefix: "length a = n \<Longrightarrow> length b = length c \<Longrightarrow> put_bytes n b (a @ c @ d) = a @ b @ d"
  by (simp add: put_bytes_def)

lemma fresh_rep:
  "m_storage (set_m_byteCap c (set_m_byteLen n (set_m_data p (set_Discriminator 0 \<lparr> m_storage = replicate kStorageSize 0 \<rparr>))))
     = le_bytes 8 p @ le_bytes 8 (word_of_int n :: u64) @ le_bytes 8 (word_of_int c :: u64) @ replicate 40 0"
proof -
  have z: "(replicate kStorageSize 0)[kDiscriminatorByte := 0] = [] @ replicate 8 0 @ replicate 8 0 @ replicate 8 0 @ replicate 40 (0 :: u8)"
    by (simp add: kStorageSize_def kDiscriminatorByte_def replicate_add [symmetric] list_update_same_conv)
  have 1: "put_bytes 0 (le_bytes 8 p) ([] @ replicate 8 0 @ replicate 8 0 @ replicate 8 0 @ replicate 40 0)
      = le_bytes 8 p @ replicate 8 0 @ replicate 8 0 @ replicate 40 0"
    by (subst put_prefix) simp_all
  have 2: "put_bytes 8 (le_bytes 8 (word_of_int n :: u64)) (le_bytes 8 p @ replicate 8 0 @ replicate 8 0 @ replicate 40 0)
      = le_bytes 8 p @ le_bytes 8 (word_of_int n :: u64) @ replicate 8 0 @ replicate 40 0"
    by (subst put_prefix) simp_all
  have 3: "put_bytes 16 (le_bytes 8 (word_of_int c :: u64)) ((le_bytes 8 p @ le_bytes 8 (word_of_int n :: u64)) @ replicate 8 0 @ replicate 40 0)
      = (le_bytes 8 p @ le_bytes 8 (word_of_int n :: u64)) @ le_bytes 8 (word_of_int c :: u64) @ replicate 40 0"
    by (subst put_prefix) simp_all
  show ?thesis
    using 1 2 3 by (simp add: set_m_byteCap_def set_m_byteLen_def set_m_data_def set_field_def set_Discriminator_def z)
qed

lemma self_append_inline:
  assumes h: "heap_ok h" "str_ok s h" "free_addrs h \<noteq> []" and t: "str_text s h = t" and sso: "IsInSso s" and L: "24 \<le> length t"
  shows "\<exists>s' h'. Str_Append_self b s h = Inr (s', h')
     \<and> str_text s' h' = t @ le_bytes 8 (m_data s') @ le_bytes 8 (word_of_nat (length t) :: u64)
         @ le_bytes 8 (word_of_int (max 64 (2 * int (length t))) :: u64) @ replicate (length t - 24) 0"
proof -
  define n where "n = int (length t)"
  define c where "c = max 64 (2 * n)"
  note q = sso_text_length [OF h(2) sso, unfolded t]
  have "length t \<le> 47" using q by blast
  then have n: "24 \<le> n" "n \<le> 47" "nat n = length t" "0 < n" using L unfolding n_def by linarith+
  have c: "(if 2 * n < 64 then 64 else 2 * n) = c" "2 * n \<le> c" "64 \<le> c" "c \<le> 94" using n by (simp_all add: c_def)
  have len: "LenBytes s = n" "uint (GetSsoLen s) = n" using LenBytes_text [OF h(2)] sso t by (simp_all add: n_def LenBytes_def)
  obtain p ps where f: "free_addrs h = p # ps" using h(3) by (cases "free_addrs h") auto
  define J where "J = map (junk h) [0 ..< nat c]"
  define s1 where "s1 = set_m_byteCap c (set_m_byteLen n (set_m_data p (set_Discriminator 0 \<lparr> m_storage = replicate kStorageSize 0 \<rparr>)))"
  have s1: "length (m_storage s1) = 64" "\<not> IsInSso s1" "m_data s1 = p" "m_byteLen s1 = n" "m_byteCap s1 = c"
    unfolding s1_def using n c by (intro heap_rep; simp add: kStorageSize_def)+
  define h1 where "h1 = h\<lparr>blocks := (blocks h)(p \<mapsto> J), free_addrs := ps\<rparr>"
  define h2 where "h2 = h1\<lparr>blocks := (blocks h1)(p \<mapsto> put_bytes 0 t J)\<rparr>"
  define xs where "xs = le_bytes 8 p @ le_bytes 8 (word_of_int n :: u64) @ le_bytes 8 (word_of_int c :: u64) @ replicate (length t - 24) 0"
  define h3 where "h3 = h2\<lparr>blocks := (blocks h2)(p \<mapsto> put_bytes (length t) xs (put_bytes 0 t J))\<rparr>"
  have J: "length J = nat c" "length t + length xs \<le> nat c" "length xs = length t" using n c by (simp_all add: J_def xs_def n_def)
  have i: "InitHeap b n c \<lparr> m_storage = replicate kStorageSize 0 \<rparr> h = Inr (s1, h1)"
    using n c f by (simp add: InitHeap_def MallocOrAbort_def s1_def h1_def J_def)
  have w: "write_block p 0 t h1 = Inr h2" using J by (simp add: write_block_def h1_def h2_def)
  have tt: "take (nat n) (m_storage s) = t" using q n(3) by metis
  have e: "EnsureCapacity b (2 * n) s h = Inr (s1, h2)"
    using sso n len i w tt c(1) s1(3) by (simp add: EnsureCapacity_def kSsoMaxBytes_def Let_def)
  have "take (length t) (m_storage s1) = xs"
    unfolding s1_def fresh_rep using n L by (simp add: xs_def)
  then have r: "read_text (OwnStorage 0) (length t) s1 h2 = Inr xs" using s1(1) n by (simp add: read_text_def n_def)
  have w2: "write_block p (length t) xs h2 = Inr h3" using J by (simp add: write_block_def h2_def h3_def)
  have run: "Str_Append_self b s h = Inr (set_m_byteLen (2 * n) s1, h3)"
    using sso n len e r w2 s1(2,3) by (simp add: Str_Append_self_def Str_Append_def Data_def Let_def)
  note u = heap_update(6-9) [OF s1(1,2), of "2 * n"]
  have room: "length t + length xs \<le> length (put_bytes 0 t J)" using J by simp
  have "str_text (set_m_byteLen (2 * n) s1) h3 = take (nat (2 * n)) (put_bytes (length t) xs (put_bytes 0 t J))"
    using u s1(3) n by (simp add: str_text_def h3_def)
  also have "nat (2 * n) = length t + length xs" using n J(3) by simp
  also have "take (length t + length xs) (put_bytes (length t) xs (put_bytes 0 t J)) = t @ xs"
    unfolding take_put_bytes [OF room] by (simp add: put_bytes_def)
  finally show ?thesis using run u s1(3) by (auto simp: xs_def n_def c_def)
qed

text \<open>
  C34: Appending a string to itself reads the argument after the text has moved.  A text of 24 to 47
  bytes is followed not by itself but by the address, length and capacity of its new block and
  zeros; a block that has to move is read after it was freed.
\<close>

theorem self_append_reads_moved_text:
  assumes "heap_ok h" "str_ok s h" "free_addrs h \<noteq> []" "str_text s h = t" "2 * length t < 2 ^ 31"
  shows "(IsInSso s \<longrightarrow> 24 \<le> length t \<longrightarrow> (\<exists>s' h'. Str_Append_self b s h = Inr (s', h')
            \<and> str_text s' h' = t @ le_bytes 8 (m_data s') @ le_bytes 8 (word_of_nat (length t) :: u64)
                @ le_bytes 8 (word_of_int (max 64 (2 * int (length t))) :: u64) @ replicate (length t - 24) 0))
     \<and> (\<not> IsInSso s \<longrightarrow> t \<noteq> [] \<longrightarrow> m_byteCap s < 2 * int (length t) \<longrightarrow> (\<forall>n. \<not> extends_in_place h (m_data s) n) \<longrightarrow>
          Str_Append_self b s h = Inl OutOfRange)"
proof -
  have "Str_Append_self b s h = Inl OutOfRange"
    if heap: "\<not> IsInSso s" "t \<noteq> []" "m_byteCap s < 2 * int (length t)" "\<forall>n. \<not> extends_in_place h (m_data s) n"
  proof -
    define n where "n = int (length t)"
    have n: "LenBytes s = n" "0 < n" "2 * n < 2 ^ 31" "n + n = 2 * n" using LenBytes_text [OF assms(2)] heap(2) assms(4,5) by (simp_all add: n_def)
    have k: "length (m_storage s) = 64" "m_data s \<noteq> nullptr" "blocks h (m_data s) \<noteq> None" using assms(2) heap(1) by (auto simp: str_ok_def)
    obtain q qs where f: "free_addrs h = q # qs" using assms(3) by (cases "free_addrs h") auto
    have qp: "q \<noteq> m_data s" using assms(1) f k(3) by (auto simp: heap_ok_def)
    define c where "c = grow_capacity (2 * n) (if 0 < m_byteCap s then m_byteCap s else 64)"
    obtain h1 where r: "ReallocOrAbort (m_data s) (nat c) h = Inr (q, h1)" "blocks h1 (m_data s) = None"
      using k(3) f heap(4) qp by (auto simp: ReallocOrAbort_def Let_def)
    have e: "EnsureCapacity b (2 * n) s h = Inr (set_m_byteCap c (set_m_data q s), h1)"
      using heap(1,3) n r(1) by (simp add: EnsureCapacity_def Let_def c_def n_def)
    have rd: "read_text (InBlock (m_data s) 0) m s1 h1 = Inl OutOfRange" for m s1 using r(2) by (simp add: read_text_def)
    show ?thesis using heap(1) n e rd by (simp add: Str_Append_self_def Str_Append_def Data_def Let_def)
  qed
  with self_append_inline [OF assms(1-4)] show ?thesis by blast
qed

theorem self_append_reads_moved_text_witness:
  "\<exists>s h s' h'. str_text s h = replicate 30 65 \<and> Str_Append_self Checked s h = Inr (s', h') \<and> str_text s' h' \<noteq> replicate 60 65"
proof -
  let ?t = "replicate 30 65 :: u8 list"
  have h: "heap_ok three_blocks" "free_addrs three_blocks \<noteq> []" by (simp_all add: heap_ok_def three_blocks_def)
  have e: "external (Outside ?t) (nat 30) {} three_blocks ?t" by (simp add: external_def)
  obtain s h' where s: "AssignFromBuffer Checked (Outside ?t) 30 InitEmpty three_blocks = Inr (s, h')"
    "frame {} three_blocks (own s) h'" "str_ok s h'" "str_text s h' = ?t"
    by (rule assign_empty_spec [OF h e, of Checked]) (simp_all add: that)
  have sso: "IsInSso s" "h' = three_blocks"
    using s(1) SsoLen_set(1) [of _ 30] by (auto simp: AssignFromBuffer_def kSsoMaxBytes_def FreeHeap_def Let_def read_text_def)
  from self_append_reads_moved_text [OF h(1) s(3) [unfolded sso(2)] h(2) s(4) [unfolded sso(2)], of Checked] sso(1)
  obtain s' h2 where a: "Str_Append_self Checked s three_blocks = Inr (s', h2)"
    "str_text s' h2 = ?t @ le_bytes 8 (m_data s') @ le_bytes 8 (word_of_nat 30 :: u64) @ le_bytes 8 (word_of_int 64 :: u64) @ replicate 6 0"
    by auto
  have "str_text s' h2 ! 59 = 0" unfolding a(2) by (simp add: nth_append)
  then have "str_text s' h2 \<noteq> replicate 60 65" by auto
  with a(1) s(4) sso(2) show ?thesis by blast
qed

end
