(* ===== verification/FStringText.thy ===== *)
theory FStringText
  imports Utf16Props
begin

text \<open>
  What the constant members of \<open>FString\<close> (\<open>Private/Containers/FString.cpp\<close>) compute from the bytes
  \<open>Data()[0 .. LenBytes())\<close>: the walk over code points, the affixes
  and the searches.  A string that a member builds through the constructors and \<open>Append\<close> of
  \<open>FStringModel\<close> is the text they give it.  Lengths are below \<open>2 ^ 31 - 4\<close>, so that no offset
  overflows.
\<close>

section \<open>Code points\<close>

text \<open>The loop over the continuation bytes.\<close>

fun continuation :: "u32 \<Rightarrow> u8 list \<Rightarrow> u32 option" where
  "continuation CodePoint [] = Some CodePoint"
| "continuation CodePoint (Cont # cs) =
     (if Cont AND 0xC0 \<noteq> 0x80 then None
      else continuation (push_bit 6 CodePoint OR ucast (Cont AND 0x3F)) cs)"

definition kReplacementChar :: u32 where "kReplacementChar = 0xFFFD"

text \<open>The code point and \<open>AdvanceBytes\<close>.\<close>

definition DecodeCodepoint :: "u8 list \<Rightarrow> nat \<Rightarrow> nat \<Rightarrow> u32 \<times> nat" where
  "DecodeCodepoint Data ByteOffset ByteEnd =
     (if ByteEnd \<le> ByteOffset then (kReplacementChar, 0)
      else let Lead = Data ! ByteOffset in
        if Lead < 0x80 then (ucast Lead, 1)
        else if Lead AND 0xC0 = 0x80 then (kReplacementChar, 1)
        else
          let (SeqLen, First) =
            (if Lead AND 0xE0 = 0xC0 then (2, ucast (Lead AND 0x1F))
             else if Lead AND 0xF0 = 0xE0 then (3, ucast (Lead AND 0x0F))
             else if Lead AND 0xF8 = 0xF0 then (4, ucast (Lead AND 0x07))
             else (0, 0 :: u32)) in
          if SeqLen = 0 then (kReplacementChar, 1)
          else if ByteOffset + SeqLen > ByteEnd then (kReplacementChar, 1)
          else case continuation First (take (SeqLen - 1) (drop (ByteOffset + 1) Data)) of
            None \<Rightarrow> (kReplacementChar, 1)
          | Some CodePoint \<Rightarrow>
              let Valid = \<not> (SeqLen = 2 \<and> CodePoint < 0x80) \<and> \<not> (SeqLen = 3 \<and> CodePoint < 0x800)
                        \<and> \<not> (SeqLen = 4 \<and> CodePoint < 0x10000)
                        \<and> \<not> (0xD800 \<le> CodePoint \<and> CodePoint \<le> 0xDFFF) \<and> \<not> 0x10FFFF < CodePoint
              in if \<not> Valid then (kReplacementChar, 1) else (CodePoint, SeqLen))"

lemma decode_advances: "ByteOffset < ByteEnd \<Longrightarrow> 0 < snd (DecodeCodepoint Data ByteOffset ByteEnd)"
  by (auto simp: DecodeCodepoint_def Let_def split: if_splits option.splits)

function count_loop :: "u8 list \<Rightarrow> nat \<Rightarrow> nat \<Rightarrow> nat \<Rightarrow> nat" where
  "count_loop Data ByteLen Offset Count =
     (if Offset < ByteLen then
        let Adv = snd (DecodeCodepoint Data Offset ByteLen) in
        if Adv = 0 then Count else count_loop Data ByteLen (Offset + Adv) (Count + 1)
      else Count)"
  by pat_completeness simp
termination
  by (relation "measure (\<lambda>(Data, ByteLen, Offset, Count). ByteLen - Offset)") auto

definition CountCodepoints :: "u8 list \<Rightarrow> nat \<Rightarrow> nat" where
  "CountCodepoints Data ByteLen = count_loop Data ByteLen 0 0"

definition LenCodepoints :: "u8 list \<Rightarrow> nat" where
  "LenCodepoints D = CountCodepoints D (length D)"

function offset_loop :: "u8 list \<Rightarrow> nat \<Rightarrow> nat \<Rightarrow> nat \<Rightarrow> nat \<Rightarrow> int" where
  "offset_loop Data ByteLen CpIdx Offset Count =
     (if Offset < ByteLen then
        if Count = CpIdx then int Offset
        else let Adv = snd (DecodeCodepoint Data Offset ByteLen) in
          if Adv = 0 then (if Count = CpIdx then int Offset else -1)
          else offset_loop Data ByteLen CpIdx (Offset + Adv) (Count + 1)
      else if Count = CpIdx then int Offset else -1)"
  by pat_completeness simp
termination
  by (relation "measure (\<lambda>(Data, ByteLen, CpIdx, Offset, Count). ByteLen - Offset)") auto

definition CodepointToByteOffset :: "u8 list \<Rightarrow> nat \<Rightarrow> int \<Rightarrow> int" where
  "CodepointToByteOffset Data ByteLen CpIdx =
     (if CpIdx < 0 then -1 else offset_loop Data ByteLen (nat CpIdx) 0 0)"

datatype FStringError = InvalidUtf8 | IndexOutOfRange | EmptyString

definition IsRealReplacement :: "u8 list \<Rightarrow> nat \<Rightarrow> nat \<Rightarrow> bool" where
  "IsRealReplacement D Offset Adv \<longleftrightarrow>
     Adv = 3 \<and> Offset + 2 < length D \<and> D ! Offset = 0xEF \<and> D ! (Offset + 1) = 0xBF \<and> D ! (Offset + 2) = 0xBD"

function at_loop :: "u8 list \<Rightarrow> nat \<Rightarrow> nat \<Rightarrow> nat \<Rightarrow> FStringError + u32" where
  "at_loop D CpIdx Offset Count =
     (if Offset < length D then
        let (Cp, Adv) = DecodeCodepoint D Offset (length D) in
        if Cp = 0xFFFD \<and> \<not> IsRealReplacement D Offset Adv then Inl InvalidUtf8
        else if Count = CpIdx then Inr Cp
        else at_loop D CpIdx (Offset + Adv) (Count + 1)
      else Inl IndexOutOfRange)"
  by pat_completeness simp
termination
proof (relation "measure (\<lambda>(D, CpIdx, Offset, Count). length D - Offset)")
  fix D :: "u8 list" and CpIdx Offset Count :: nat and x Cp Adv
  assume a: "Offset < length D" "x = DecodeCodepoint D Offset (length D)" "(Cp, Adv) = x"
  have "0 < Adv" using decode_advances [OF a(1), of D] unfolding a(2) [symmetric] a(3) [symmetric] by simp
  with a(1) show "((D, CpIdx, Offset + Adv, Count + 1), D, CpIdx, Offset, Count)
      \<in> measure (\<lambda>(D, CpIdx, Offset, Count). length D - Offset)" by simp
qed simp

definition CodepointAt :: "u8 list \<Rightarrow> int \<Rightarrow> FStringError + u32" where
  "CodepointAt D CpIdx =
     (if CpIdx < 0 then Inl IndexOutOfRange
      else if length D = 0 then Inl EmptyString
      else at_loop D (nat CpIdx) 0 0)"

text \<open>\<open>FCodepointIter\<close> over the bytes: the byte offset it stands at and the end.\<close>

definition iter_begin :: "u8 list \<Rightarrow> nat \<times> nat" where
  "iter_begin D = (0, length D)"

definition iter_deref :: "u8 list \<Rightarrow> nat \<times> nat \<Rightarrow> u32" where
  "iter_deref D it = fst (DecodeCodepoint D (fst it) (snd it))"

definition iter_next :: "u8 list \<Rightarrow> nat \<times> nat \<Rightarrow> nat \<times> nat" where
  "iter_next D it =
     (let Adv = snd (DecodeCodepoint D (fst it) (snd it));
          Adv = (if Adv \<le> 0 then 1 else Adv); Offset = fst it + Adv
      in (if Offset > snd it then snd it else Offset, snd it))"

function end_loop :: "u8 list \<Rightarrow> int \<Rightarrow> nat \<Rightarrow> nat \<Rightarrow> nat" where
  "end_loop D LenCp EndByteOffset Walked =
     (if EndByteOffset < length D \<and> int Walked < LenCp then
        let Adv = snd (DecodeCodepoint D EndByteOffset (length D)) in
        end_loop D LenCp (EndByteOffset + (if Adv \<le> 0 then 1 else Adv)) (Walked + 1)
      else if EndByteOffset > length D then length D else EndByteOffset)"
  by pat_completeness simp
termination
  by (relation "measure (\<lambda>(D, LenCp, EndByteOffset, Walked). length D - EndByteOffset)") auto

definition Substr :: "u8 list \<Rightarrow> int \<Rightarrow> int \<Rightarrow> u8 list" where
  "Substr D StartCp LenCp =
     (if LenCp \<le> 0 \<or> StartCp < 0 then []
      else let StartByteOffset = CodepointToByteOffset D (length D) StartCp in
        if StartByteOffset < 0 \<or> int (length D) \<le> StartByteOffset then []
        else let Start = nat StartByteOffset; EndByteOffset = end_loop D LenCp Start 0 in
          take (EndByteOffset - Start) (drop Start D))"

section \<open>Affixes and equality\<close>

definition StartsWith :: "u8 list \<Rightarrow> u8 list \<Rightarrow> bool" where
  "StartsWith D Needle =
     (if length Needle = 0 then True else if length Needle > length D then False
      else take (length Needle) D = Needle)"

definition EndsWith :: "u8 list \<Rightarrow> u8 list \<Rightarrow> bool" where
  "EndsWith D Needle =
     (if length Needle = 0 then True else if length Needle > length D then False
      else drop (length D - length Needle) D = Needle)"

definition Equals :: "u8 list \<Rightarrow> u8 list \<Rightarrow> bool" where
  "Equals D Other =
     (if length D \<noteq> length Other then False else if length D = 0 then True else take (length D) Other = D)"

definition RemoveFromStart :: "u8 list \<Rightarrow> u8 list \<Rightarrow> u8 list" where
  "RemoveFromStart D Prefix = (if \<not> StartsWith D Prefix then D else drop (length Prefix) D)"

definition RemoveFromEnd :: "u8 list \<Rightarrow> u8 list \<Rightarrow> u8 list" where
  "RemoveFromEnd D Suffix = (if \<not> EndsWith D Suffix then D else take (length D - length Suffix) D)"

section \<open>Searches\<close>

text \<open>\<open>memcmp\<close> of the needle at an offset.\<close>

definition same_at :: "u8 list \<Rightarrow> u8 list \<Rightarrow> nat \<Rightarrow> bool" where
  "same_at H N I \<longleftrightarrow> take (length N) (drop I H) = N"

function byte_loop :: "u8 list \<Rightarrow> u8 \<Rightarrow> nat \<Rightarrow> int" where
  "byte_loop D Needle I =
     (if I < length D then if D ! I = Needle then int I else byte_loop D Needle (I + 1) else -1)"
  by pat_completeness simp
termination
  by (relation "measure (\<lambda>(D, Needle, I). length D - I)") auto

definition IndexOfByte :: "u8 list \<Rightarrow> u8 \<Rightarrow> int \<Rightarrow> int" where
  "IndexOfByte D Needle StartByteIdx = (if StartByteIdx < 0 then -1 else byte_loop D Needle (nat StartByteIdx))"

fun last_byte_loop :: "u8 list \<Rightarrow> u8 \<Rightarrow> nat \<Rightarrow> int" where
  "last_byte_loop D Needle 0 = -1"
| "last_byte_loop D Needle (Suc I) = (if D ! I = Needle then int I else last_byte_loop D Needle I)"

definition LastIndexOfByte :: "u8 list \<Rightarrow> u8 \<Rightarrow> int" where
  "LastIndexOfByte D Needle = last_byte_loop D Needle (length D)"

text \<open>The walk of \<open>IndexOfCodepoint\<close> and \<open>LastIndexOfCodepoint\<close>.\<close>

function cp_loop :: "u8 list \<Rightarrow> u32 \<Rightarrow> nat \<Rightarrow> nat \<Rightarrow> int" where
  "cp_loop D Needle Offset CpIdx =
     (if Offset < length D then
        let (Cp, Adv) = DecodeCodepoint D Offset (length D) in
        if Cp = Needle then int CpIdx
        else cp_loop D Needle (Offset + (if Adv \<le> 0 then 1 else Adv)) (CpIdx + 1)
      else -1)"
  by pat_completeness simp
termination
  by (relation "measure (\<lambda>(D, Needle, Offset, CpIdx). length D - Offset)") auto

definition IndexOfCodepoint :: "u8 list \<Rightarrow> u32 \<Rightarrow> int" where
  "IndexOfCodepoint D Needle = cp_loop D Needle 0 0"

function last_cp_loop :: "u8 list \<Rightarrow> u32 \<Rightarrow> nat \<Rightarrow> nat \<Rightarrow> int \<Rightarrow> int" where
  "last_cp_loop D Needle Offset CpIdx LastMatch =
     (if Offset < length D then
        let (Cp, Adv) = DecodeCodepoint D Offset (length D) in
        last_cp_loop D Needle (Offset + (if Adv \<le> 0 then 1 else Adv)) (CpIdx + 1)
          (if Cp = Needle then int CpIdx else LastMatch)
      else LastMatch)"
  by pat_completeness simp
termination
  by (relation "measure (\<lambda>(D, Needle, Offset, CpIdx, LastMatch). length D - Offset)") auto

definition LastIndexOfCodepoint :: "u8 list \<Rightarrow> u32 \<Rightarrow> int" where
  "LastIndexOfCodepoint D Needle = last_cp_loop D Needle 0 0 (-1)"

text \<open>The Horspool search; the table maps a byte to its distance from the needle's end.\<close>

definition forward_skip :: "u8 list \<Rightarrow> u8 \<Rightarrow> nat" where
  "forward_skip N =
     fold (\<lambda>I Skip. Skip(N ! I := length N - 1 - I)) [0 ..< length N - 1] (\<lambda>Byte. length N)"

lemma skip_fold_pos:
  "\<lbrakk>\<forall>I \<in> set xs. I < length N - 1; \<forall>c. 0 < f c\<rbrakk>
   \<Longrightarrow> 0 < fold (\<lambda>I Skip. Skip(N ! I := length N - 1 - I)) xs f c"
proof (induction xs arbitrary: f)
  case (Cons a xs)
  have "\<forall>c. 0 < (f(N ! a := length N - 1 - a)) c" using Cons.prems by (simp add: Suc_lessI less_diff_conv)
  from Cons.IH [OF _ this] show ?case using Cons.prems by simp
qed simp

lemma forward_skip_pos:
  assumes "N \<noteq> []"
  shows "0 < forward_skip N c"
  using skip_fold_pos [of "[0 ..< length N - 1]" N "\<lambda>Byte. length N" c] assms
  by (simp add: forward_skip_def)

function index_loop :: "u8 list \<Rightarrow> u8 list \<Rightarrow> nat \<Rightarrow> int" where
  "index_loop H N I =
     (if N \<noteq> [] \<and> I + length N \<le> length H then
        let Last = length N - 1 in
        if H ! (I + Last) = N ! Last \<and> same_at H N I then int I
        else index_loop H N (I + forward_skip N (H ! (I + Last)))
      else -1)"
  by pat_completeness simp
termination
proof (relation "measure (\<lambda>(H, N, I). length H - I)", goal_cases)
  case (2 H N I Last)
  with forward_skip_pos [of N "H ! (I + Last)"] show ?case by (cases N) auto
qed simp

definition IndexOf :: "u8 list \<Rightarrow> u8 list \<Rightarrow> int" where
  "IndexOf H N = (if length N = 0 then 0 else if length H < length N then -1 else index_loop H N 0)"

text \<open>The reverse search keeps its table in bytes.\<close>

definition backward_skip :: "u8 list \<Rightarrow> u8 \<Rightarrow> u8" where
  "backward_skip N =
     fold (\<lambda>I Skip. if Skip (N ! I) = word_of_nat (length N) then Skip(N ! I := word_of_nat I) else Skip)
       (rev [1 ..< length N]) (\<lambda>Byte. word_of_nat (length N))"

function last_index_loop :: "u8 list \<Rightarrow> u8 list \<Rightarrow> int \<Rightarrow> int" where
  "last_index_loop H N I =
     (if 0 \<le> I then
        if H ! nat I = N ! 0 \<and> same_at H N (nat I) then I
        else let Step = uint (backward_skip N (H ! nat I)) in
          last_index_loop H N (I - (if 0 < Step then Step else 1))
      else -1)"
  by pat_completeness simp
termination
  by (relation "measure (\<lambda>(H, N, I). nat (I + 1))") (auto simp: Let_def)

definition LastIndexOfByte_string :: "u8 list \<Rightarrow> u8 list \<Rightarrow> int" where
  "LastIndexOfByte_string H N =
     (if length N = 0 then int (length H)
      else if length H < length N then -1
      else if length N = 1 then LastIndexOfByte H (N ! 0)
      else last_index_loop H N (int (length H) - int (length N)))"

text \<open>The loops unfold only where a proof asks for it.\<close>

declare count_loop.simps [simp del] offset_loop.simps [simp del] at_loop.simps [simp del]
  end_loop.simps [simp del] byte_loop.simps [simp del] cp_loop.simps [simp del]
  last_cp_loop.simps [simp del] index_loop.simps [simp del] last_index_loop.simps [simp del]

end
