(* ===== verification/FStringBuild.thy ===== *)
theory FStringBuild
  imports FStringText
begin

text \<open>
  The members of \<open>FString\<close> that build a new string from the text of \<open>this\<close>: replacement, splitting and
  joining, trimming, case, padding, reversal, and the conversions of integers through
  \<open>std::to_chars\<close> and \<open>std::from_chars\<close>.
\<close>

section \<open>Replacing, splitting and joining\<close>

text \<open>
  An \<open>Append\<close> to the string that is built; the sum of the lengths is an \<open>int32\<close>.
\<close>

definition append_text :: "u8 list \<Rightarrow> u8 list \<Rightarrow> xerror + u8 list" where
  "append_text Utf8 Out =
     (if length Utf8 = 0 then Inr Out
      else in_range (length Out + length Utf8 < 2 ^ 31) (Inr (Out @ Utf8)))"

text \<open>\<open>Emitted\<close> and \<open>SegmentStart\<close> mark the end of what was copied; the last argument is the result.\<close>

function replace_loop :: "u8 list \<Rightarrow> u8 list \<Rightarrow> u8 list \<Rightarrow> nat \<Rightarrow> nat \<Rightarrow> u8 list \<Rightarrow> xerror + u8 list" where
  "replace_loop D Needle Replacement Emitted I Out =
     (if Needle \<noteq> [] \<and> I + length Needle \<le> length D then
        if same_at D Needle I then
          rbind (if I > Emitted then append_text (take (I - Emitted) (drop Emitted D)) Out else Inr Out) (\<lambda>Out1.
          rbind (if length Replacement > 0 then append_text Replacement Out1 else Inr Out1) (\<lambda>Out2.
          replace_loop D Needle Replacement (I + length Needle) (I + length Needle) Out2))
        else replace_loop D Needle Replacement Emitted (I + 1) Out
      else if Emitted < length D then append_text (take (length D - Emitted) (drop Emitted D)) Out else Inr Out)"
  by pat_completeness simp
termination
  by (relation "measure (\<lambda>(D, Needle, Replacement, Emitted, I, Out). length D - I)")
     (auto simp flip: length_greater_0_conv)

definition Replace :: "u8 list \<Rightarrow> u8 list \<Rightarrow> u8 list \<Rightarrow> xerror + u8 list" where
  "Replace D Needle Replacement =
     (if length Needle = 0 then Inr D else replace_loop D Needle Replacement 0 0 [])"

function split_loop :: "u8 list \<Rightarrow> u8 list \<Rightarrow> nat \<Rightarrow> nat \<Rightarrow> u8 list list \<Rightarrow> u8 list list" where
  "split_loop D Delimiter SegmentStart I Out =
     (if Delimiter \<noteq> [] \<and> I + length Delimiter \<le> length D then
        if same_at D Delimiter I then
          split_loop D Delimiter (I + length Delimiter) (I + length Delimiter)
            (Out @ [take (I - SegmentStart) (drop SegmentStart D)])
        else split_loop D Delimiter SegmentStart (I + 1) Out
      else Out @ [take (length D - SegmentStart) (drop SegmentStart D)])"
  by pat_completeness simp
termination
  by (relation "measure (\<lambda>(D, Delimiter, SegmentStart, I, Out). length D - I)")
     (auto simp flip: length_greater_0_conv)

definition Split :: "u8 list \<Rightarrow> u8 list \<Rightarrow> u8 list list" where
  "Split D Delimiter = (if length Delimiter = 0 then [D] else split_loop D Delimiter 0 0 [])"

declare replace_loop.simps [simp del] split_loop.simps [simp del]

text \<open>The sum of the lengths, \<open>Total\<close>, is taken first, in \<open>int32\<close>.\<close>

fun total_loop :: "u8 list list \<Rightarrow> u8 list \<Rightarrow> nat \<Rightarrow> xerror + nat" where
  "total_loop [] Separator Total0 = Inr Total0"
| "total_loop (Part # Parts) Separator Total0 =
     in_range (Total0 + length Part < 2 ^ 31) (
     if Parts \<noteq> [] then
       in_range (Total0 + length Part + length Separator < 2 ^ 31) (
       total_loop Parts Separator (Total0 + length Part + length Separator))
     else total_loop Parts Separator (Total0 + length Part))"

fun join_loop :: "u8 list list \<Rightarrow> u8 list \<Rightarrow> nat \<Rightarrow> u8 list \<Rightarrow> xerror + u8 list" where
  "join_loop [] Separator I Out = Inr Out"
| "join_loop (Part # Parts) Separator I Out =
     rbind (if I > 0 then append_text Separator Out else Inr Out) (\<lambda>Out1.
     rbind (append_text Part Out1) (\<lambda>Out2.
     join_loop Parts Separator (I + 1) Out2))"

text \<open>The check is that of \<open>EnsureCapacity\<close>.\<close>

definition JoinBy :: "build \<Rightarrow> u8 list list \<Rightarrow> u8 list \<Rightarrow> xerror + u8 list" where
  "JoinBy b Parts Separator =
     (if length Parts = 0 then Inr [] else if length Parts = 1 then Inr (Parts ! 0)
      else rbind (total_loop Parts Separator 0) (\<lambda>Total0.
           xcheck b (0 \<le> int Total0) (join_loop Parts Separator 0 [])))"

section \<open>Trimming, case, padding\<close>

definition IsAsciiWhitespace :: "u8 \<Rightarrow> bool" where
  "IsAsciiWhitespace C \<longleftrightarrow> C = 0x20 \<or> C = 0x09 \<or> C = 0x0D \<or> C = 0x0A"

function trim_start :: "u8 list \<Rightarrow> nat \<Rightarrow> nat" where
  "trim_start D Start =
     (if Start < length D \<and> IsAsciiWhitespace (D ! Start) then trim_start D (Start + 1) else Start)"
  by pat_completeness simp
termination
  by (relation "measure (\<lambda>(D, Start). length D - Start)") auto

declare trim_start.simps [simp del]

text \<open>The backward loop stops at \<open>Start\<close>.\<close>

fun trim_end :: "u8 list \<Rightarrow> nat \<Rightarrow> nat \<Rightarrow> nat" where
  "trim_end D Start 0 = 0"
| "trim_end D Start (Suc End) =
     (if Suc End > Start \<and> IsAsciiWhitespace (D ! End) then trim_end D Start End else Suc End)"

definition TrimStart :: "u8 list \<Rightarrow> u8 list" where
  "TrimStart D = (let Start = trim_start D 0 in if Start = 0 then D else take (length D - Start) (drop Start D))"

definition TrimEnd :: "u8 list \<Rightarrow> u8 list" where
  "TrimEnd D = (let End = trim_end D 0 (length D) in if End = length D then D else take End D)"

definition Trim :: "u8 list \<Rightarrow> u8 list" where
  "Trim D =
     (let Start = trim_start D 0; End = trim_end D Start (length D) in
      if Start = 0 \<and> End = length D then D else take (End - Start) (drop Start D))"

definition ToUpper :: "u8 list \<Rightarrow> u8 list" where
  "ToUpper D = map (\<lambda>B. if B \<ge> 0x61 \<and> B \<le> 0x7A then B - 32 else B) D"

definition ToLower :: "u8 list \<Rightarrow> u8 list" where
  "ToLower D = map (\<lambda>B. if B \<ge> 0x41 \<and> B \<le> 0x5A then B + 32 else B) D"

text \<open>\<open>PadCount\<close> appends of the one byte.\<close>

fun append_times :: "nat \<Rightarrow> u8 \<Rightarrow> u8 list \<Rightarrow> u8 list" where
  "append_times 0 PadChar Out = Out"
| "append_times (Suc I) PadChar Out = append_times I PadChar (Out @ [PadChar])"

definition LeftPad :: "build \<Rightarrow> u8 list \<Rightarrow> int \<Rightarrow> u8 \<Rightarrow> xerror + u8 list" where
  "LeftPad b D TargetLength PadChar =
     (if int (length D) \<ge> TargetLength \<or> TargetLength \<le> 0 then Inr D
      else xcheck b (PadChar AND 0x80 = 0) (
        let PadCount = TargetLength - int (length D) in
        Inr (append_times (nat PadCount) PadChar [] @ D)))"

definition RightPad :: "build \<Rightarrow> u8 list \<Rightarrow> int \<Rightarrow> u8 \<Rightarrow> xerror + u8 list" where
  "RightPad b D TargetLength PadChar =
     (if int (length D) \<ge> TargetLength \<or> TargetLength \<le> 0 then Inr D
      else xcheck b (PadChar AND 0x80 = 0) (
        let PadCount = TargetLength - int (length D) in
        Inr (append_times (nat PadCount) PadChar D)))"

text \<open>\<open>reverse_loop D (I + 1)\<close> continues at the byte \<open>I\<close>.\<close>

fun reverse_loop :: "u8 list \<Rightarrow> nat \<Rightarrow> u8 list \<Rightarrow> u8 list" where
  "reverse_loop D 0 Out = Out"
| "reverse_loop D (Suc I) Out = reverse_loop D I (Out @ [D ! I])"

definition Reverse :: "u8 list \<Rightarrow> u8 list" where
  "Reverse D = (if length D \<le> 1 then D else reverse_loop D (length D) [])"

section \<open>Integers\<close>

datatype errc = errc_ok | invalid_argument | result_out_of_range | value_too_large

definition decimal_digit :: "u8 \<Rightarrow> bool" where
  "decimal_digit C \<longleftrightarrow> 0x30 \<le> C \<and> C \<le> 0x39"

text \<open>
  \<open>std::from_chars\<close> of a signed type of \<open>w\<close> bits, base 10: a minus sign or none, then the longest run
  of digits.  The value, the bytes from \<open>ptr\<close> on, and the error.
\<close>

definition decimal_value :: "u8 list \<Rightarrow> nat" where
  "decimal_value ds = fold (\<lambda>C v. 10 * v + (unat C - 0x30)) ds 0"

definition from_chars :: "nat \<Rightarrow> u8 list \<Rightarrow> int \<times> u8 list \<times> errc" where
  "from_chars w Text =
     (let Minus = (Text \<noteq> [] \<and> hd Text = 0x2D); Body = (if Minus then tl Text else Text);
          ds = takeWhile decimal_digit Body; v = int (decimal_value ds);
          Value = (if Minus then - v else v)
      in if ds = [] then (0, Text, invalid_argument)
         else if Value < - (2 ^ (w - 1)) \<or> 2 ^ (w - 1) \<le> Value then (0, dropWhile decimal_digit Body, result_out_of_range)
         else (Value, dropWhile decimal_digit Body, errc_ok))"

text \<open>\<open>std::to_chars\<close> into a buffer of \<open>room\<close> bytes: the bytes before \<open>ptr\<close>.\<close>

fun decimal :: "nat \<Rightarrow> u8 list" where
  "decimal n = (if n < 10 then [] else decimal (n div 10)) @ [word_of_nat (0x30 + n mod 10)]"

declare decimal.simps [simp del]

definition to_chars :: "nat \<Rightarrow> int \<Rightarrow> u8 list \<times> errc" where
  "to_chars room Value =
     (let Text = (if Value < 0 then 0x2D # decimal (nat (- Value)) else decimal (nat Value)) in
      if length Text \<le> room then (Text, errc_ok) else ([], value_too_large))"

datatype FParseError = Empty | Malformed | Overflow | Underflow

definition ToInt32 :: "u8 list \<Rightarrow> FParseError + 32 word" where
  "ToInt32 D =
     (if length D = 0 then Inl Empty
      else case from_chars 32 D of (Value, ptr, ec) \<Rightarrow>
        if ec = invalid_argument then Inl Malformed
        else if ec = result_out_of_range then Inl Overflow
        else if ptr \<noteq> [] then Inl Malformed
        else Inr (word_of_int Value))"

definition ToInt64 :: "u8 list \<Rightarrow> FParseError + 64 word" where
  "ToInt64 D =
     (if length D = 0 then Inl Empty
      else case from_chars 64 D of (Value, ptr, ec) \<Rightarrow>
        if ec = invalid_argument then Inl Malformed
        else if ec = result_out_of_range then Inl Overflow
        else if ptr \<noteq> [] then Inl Malformed
        else Inr (word_of_int Value))"

definition ToCharsImpl :: "int \<Rightarrow> u8 list" where
  "ToCharsImpl Value = (case to_chars 64 Value of (Buf, ec) \<Rightarrow> if ec \<noteq> errc_ok then [] else Buf)"

definition FromInt32 :: "32 word \<Rightarrow> u8 list" where
  "FromInt32 Value = ToCharsImpl (sint Value)"

definition FromInt64 :: "64 word \<Rightarrow> u8 list" where
  "FromInt64 Value = ToCharsImpl (sint Value)"

end
