(* ===== verification/FStringTextProps.thy ===== *)
theory FStringTextProps
  imports FStringBuild
begin

text \<open>
  The lemmas on the text of a string: one step of the decoder against the reference decoding of a byte
  list, the shifts of the two searches, the pieces of a split, and the decimal digits of an integer.
\<close>

section \<open>Decoding\<close>

text \<open>The reference: a byte that starts no well-formed sequence is U+FFFD.\<close>

function code_points :: "u8 list \<Rightarrow> u32 list" where
  "code_points [] = []"
| "code_points (Lead # rest) =
     (case Utf8Sequence Lead rest of
        None \<Rightarrow> 0xFFFD # code_points rest
      | Some (Cp, SeqLen) \<Rightarrow> Cp # code_points (drop (SeqLen - 1) rest))"
  by pat_completeness auto
termination
  by (relation "measure length") auto

lemma Convert_code_points: "ConvertUtf8ToUtf16 D = utf16_of (code_points D)"
proof (induction D rule: ConvertUtf8ToUtf16.induct)
  case (2 Lead rest)
  have "WriteUtf16 0xFFFD = [0xFFFD]" by (simp add: WriteUtf16_def)
  with 2 show ?case by (auto simp: utf16_of_def split: option.split)
qed (simp add: utf16_of_def)

lemma code_points_utf8_of:
  "list_all scalar cs \<Longrightarrow> code_points (utf8_of cs @ D) = cs @ code_points D"
proof (induction cs)
  case (Cons c cs)
  then obtain Lead tl where w: "WriteUtf8 c = Lead # tl"
      "Utf8Sequence Lead (tl @ utf8_of cs @ D) = Some (c, length (WriteUtf8 c))"
    using Utf8Sequence_WriteUtf8 [of c "utf8_of cs @ D"] by auto
  then show ?case using Cons by (simp add: utf8_of_def)
qed (simp add: utf8_of_def)

lemma lead_masks:
  assumes "Lead AND 0xC0 = (0x80 :: u8)"
  shows "Lead AND 0xE0 \<noteq> 0xC0" "Lead AND 0xF0 \<noteq> 0xE0" "Lead AND 0xF8 \<noteq> 0xF0"
proof -
  have "\<not> bit (Lead AND 0xC0) 6" by (simp add: assms)
  then have b: "\<not> bit Lead 6" by (simp add: bit_and_iff)
  show "Lead AND 0xE0 \<noteq> 0xC0" "Lead AND 0xF0 \<noteq> 0xE0" "Lead AND 0xF8 \<noteq> 0xF0"
    by (rule and_differs [where n = 6]; simp add: bit_and_iff b)+
qed

lemma scalar_word: "scalar c \<Longrightarrow> \<not> (0xD800 \<le> c \<and> c \<le> 0xDFFF) \<and> \<not> 0x10FFFF < c"
  by (simp add: scalar_def not_less)

lemma Decode_sequence:
  assumes "Offset < ByteEnd" "ByteEnd \<le> length D"
  defines "rest \<equiv> take (ByteEnd - Offset - 1) (drop (Offset + 1) D)"
  shows "DecodeCodepoint D Offset ByteEnd =
    (case Utf8Sequence (D ! Offset) rest of None \<Rightarrow> (0xFFFD, 1) | Some r \<Rightarrow> r)"
proof -
  define L where "L = D ! Offset"
  have lr: "length rest = ByteEnd - Offset - 1" using assms(2) by (simp add: rest_def)
  have tk: "take k (drop (Offset + 1) D) = take k rest" if "k \<le> length rest" for k
    using that unfolding lr rest_def by simp
  have no: "\<not> ByteEnd \<le> Offset" using assms(1) by simp
  consider "L < 0x80" | "\<not> L < 0x80" "L AND 0xC0 = 0x80"
    | "\<not> L < 0x80" "L AND 0xC0 \<noteq> 0x80" by blast
  then show ?thesis
  proof cases
    case 1
    then show ?thesis by (simp add: DecodeCodepoint_def Utf8Sequence_def no Let_def flip: L_def)
  next
    case 2
    then show ?thesis using lead_masks [OF 2(2)]
      by (simp add: DecodeCodepoint_def Utf8Sequence_def no Let_def kReplacementChar_def flip: L_def)
  next
    case 3
    consider (two) "L AND 0xE0 = 0xC0" | (three) "L AND 0xE0 \<noteq> 0xC0" "L AND 0xF0 = 0xE0"
      | (four) "L AND 0xE0 \<noteq> 0xC0" "L AND 0xF0 \<noteq> 0xE0" "L AND 0xF8 = 0xF0"
      | (none) "L AND 0xE0 \<noteq> 0xC0" "L AND 0xF0 \<noteq> 0xE0" "L AND 0xF8 \<noteq> 0xF0" by blast
    then show ?thesis
    proof cases
      case two
      show ?thesis
      proof (cases rest)
        case Nil
        with lr no have "\<not> Offset + 2 \<le> ByteEnd" by simp
        with 3 two Nil no show ?thesis
          by (simp add: DecodeCodepoint_def Utf8Sequence_def Let_def kReplacementChar_def flip: L_def)
      next
        case (Cons B1 r)
        with lr have le: "Offset + 2 \<le> ByteEnd" by simp
        have tk1: "take (2 - 1) (drop (Offset + 1) D) = [B1]" using tk [of 1] Cons by simp
        define c :: u32 where "c = push_bit 6 (ucast (L AND 0x1F)) OR ucast (B1 AND 0x3F)"
        have u: "Utf8Sequence L rest = (if B1 AND 0xC0 \<noteq> 0x80 then None else if c < 0x80 then None else Some (c, 2))"
          using 3(1) two Cons by (simp add: Utf8Sequence_def c_def Let_def)
        show ?thesis
        proof (cases "B1 AND 0xC0 = 0x80 \<and> \<not> c < 0x80")
          case True
          then have "Utf8Sequence L rest = Some (c, 2)" using u by simp
          from scalar_word [OF Utf8Sequence_scalar [OF this, THEN conjunct1]] this True 3 two no le tk1
          show ?thesis by (auto simp: DecodeCodepoint_def Let_def simp flip: L_def c_def)
        next
          case False
          then have "Utf8Sequence L rest = None" using u by simp
          with False 3 two no le tk1 show ?thesis
            by (auto simp: DecodeCodepoint_def Let_def kReplacementChar_def simp flip: L_def c_def)
        qed
      qed
    next
      case three
      show ?thesis
      proof (cases "length rest < 2")
        case True
        with lr no have le: "\<not> Offset + 3 \<le> ByteEnd" by simp
        have "Utf8Sequence L rest = None" using 3(1) three True by (auto simp: Utf8Sequence_def split: list.split)
        with 3 three no le show ?thesis
          by (simp add: DecodeCodepoint_def Let_def kReplacementChar_def flip: L_def)
      next
        case False
        then obtain B1 B2 r where r: "rest = B1 # B2 # r" by (cases rest; cases "tl rest") auto
        with lr have le: "Offset + 3 \<le> ByteEnd" by simp
        have tk2: "take (3 - 1) (drop (Offset + 1) D) = [B1, B2]" using tk [of 2] r by simp
        define c :: u32 where
          "c = push_bit 12 (ucast (L AND 0x0F)) OR push_bit 6 (ucast (B1 AND 0x3F)) OR ucast (B2 AND 0x3F)"
        have u: "Utf8Sequence L rest = (if B1 AND 0xC0 \<noteq> 0x80 \<or> B2 AND 0xC0 \<noteq> 0x80 then None
            else if c < 0x800 then None else if 0xD800 \<le> c \<and> c \<le> 0xDFFF then None else Some (c, 3))"
          using 3(1) three r by (simp add: Utf8Sequence_def c_def Let_def)
        have cont: "continuation (ucast (L AND 0x0F)) [B1, B2]
            = (if B1 AND 0xC0 \<noteq> 0x80 \<or> B2 AND 0xC0 \<noteq> 0x80 then None else Some c)"
          unfolding c_def by (simp add: push_bit_or or.assoc)
        have d: "DecodeCodepoint D Offset ByteEnd = (if B1 AND 0xC0 \<noteq> 0x80 \<or> B2 AND 0xC0 \<noteq> 0x80 then (0xFFFD, 1)
            else if c < 0x800 \<or> (0xD800 \<le> c \<and> c \<le> 0xDFFF) \<or> 0x10FFFF < c then (0xFFFD, 1) else (c, 3))"
          using 3 three no le tk2 cont
          by (simp add: DecodeCodepoint_def Let_def kReplacementChar_def del: continuation.simps flip: L_def)
        show ?thesis
        proof (cases "Utf8Sequence L rest")
          case None
          with d u show ?thesis by (auto simp flip: L_def split: if_splits)
        next
          case (Some p)
          then have "p = (c, 3)" using u by (auto split: if_splits)
          with Some scalar_word [OF Utf8Sequence_scalar [of L rest c 3, THEN conjunct1]] d u show ?thesis
            by (auto simp flip: L_def split: if_splits)
        qed
      qed
    next
      case four
      show ?thesis
      proof (cases "length rest < 3")
        case True
        with lr no have le: "\<not> Offset + 4 \<le> ByteEnd" by simp
        have "Utf8Sequence L rest = None" using 3(1) four True by (auto simp: Utf8Sequence_def split: list.split)
        with 3 four no le show ?thesis
          by (simp add: DecodeCodepoint_def Let_def kReplacementChar_def flip: L_def)
      next
        case False
        then obtain B1 B2 B3 r where r: "rest = B1 # B2 # B3 # r"
          by (cases rest; cases "tl rest"; cases "tl (tl rest)") auto
        with lr have le: "Offset + 4 \<le> ByteEnd" by simp
        have tk3: "take (4 - 1) (drop (Offset + 1) D) = [B1, B2, B3]" using tk [of 3] r by simp
        define c :: u32 where
          "c = push_bit 18 (ucast (L AND 0x07)) OR push_bit 12 (ucast (B1 AND 0x3F))
             OR push_bit 6 (ucast (B2 AND 0x3F)) OR ucast (B3 AND 0x3F)"
        define ok where "ok \<longleftrightarrow> \<not> (B1 AND 0xC0 \<noteq> 0x80 \<or> B2 AND 0xC0 \<noteq> 0x80 \<or> B3 AND 0xC0 \<noteq> 0x80)"
        have u: "Utf8Sequence L rest = (if \<not> ok then None
            else if c < 0x10000 then None else if c > 0x10FFFF then None else Some (c, 4))"
          using 3(1) four r by (simp add: Utf8Sequence_def c_def ok_def Let_def)
        have cont: "continuation (ucast (L AND 0x07)) [B1, B2, B3] = (if ok then Some c else None)"
          unfolding c_def by (simp add: push_bit_or or.assoc ok_def)
        have d: "DecodeCodepoint D Offset ByteEnd = (if \<not> ok then (0xFFFD, 1)
            else if c < 0x10000 \<or> (0xD800 \<le> c \<and> c \<le> 0xDFFF) \<or> 0x10FFFF < c then (0xFFFD, 1) else (c, 4))"
          using 3 four no le tk3 cont
          by (simp add: DecodeCodepoint_def Let_def kReplacementChar_def del: continuation.simps flip: L_def)
        show ?thesis
        proof (cases "Utf8Sequence L rest")
          case None
          with d u show ?thesis by (auto simp flip: L_def split: if_splits)
        next
          case (Some p)
          then have "p = (c, 4)" using u by (auto split: if_splits)
          with Some scalar_word [OF Utf8Sequence_scalar [of L rest c 4, THEN conjunct1]] d u show ?thesis
            by (auto simp flip: L_def split: if_splits)
        qed
      qed
    next
      case none
      with 3 no show ?thesis
        by (simp add: DecodeCodepoint_def Utf8Sequence_def Let_def kReplacementChar_def flip: L_def)
    qed
  qed
qed

text \<open>One step at an offset of the whole text.\<close>

lemma Decode_step:
  assumes "Offset < length D"
  shows "DecodeCodepoint D Offset (length D) =
    (case Utf8Sequence (D ! Offset) (drop (Offset + 1) D) of None \<Rightarrow> (0xFFFD, 1) | Some r \<Rightarrow> r)"
  using Decode_sequence [OF assms order_refl] by simp

lemma decode_cons:
  assumes "Offset < length D" "DecodeCodepoint D Offset (length D) = (Cp, Adv)"
  shows "code_points (drop Offset D) = Cp # code_points (drop (Offset + Adv) D) \<and> 0 < Adv \<and> Offset + Adv \<le> length D"
proof -
  have d: "drop Offset D = D ! Offset # drop (Suc Offset) D" by (rule Cons_nth_drop_Suc [OF assms(1), symmetric])
  show ?thesis
  proof (cases "Utf8Sequence (D ! Offset) (drop (Suc Offset) D)")
    case None
    with Decode_step [OF assms(1)] assms show ?thesis by (simp add: d)
  next
    case (Some p)
    with Decode_step [OF assms(1)] assms have p: "p = (Cp, Adv)" by simp
    from Utf8Sequence_scalar [OF Some [unfolded p]] assms(1) have "1 \<le> Adv" "Adv - 1 + Suc Offset = Offset + Adv"
        "Offset + Adv \<le> length D" by auto
    with Some p show ?thesis by (simp add: d add.commute)
  qed
qed

lemma count_loop_eq:
  "count_loop D (length D) Offset Count = Count + length (code_points (drop Offset D))"
proof (induction D "length D" Offset Count rule: count_loop.induct)
  case (1 D Offset Count)
  obtain Cp Adv where p: "DecodeCodepoint D Offset (length D) = (Cp, Adv)" by fastforce
  show ?case
  proof (cases "Offset < length D")
    case True
    from decode_cons [OF True p] 1 [OF True _ _] p True show ?thesis
      by (subst count_loop.simps) simp
  qed (subst count_loop.simps, simp)
qed

lemma LenCodepoints_eq: "LenCodepoints D = length (code_points D)"
  by (simp add: LenCodepoints_def CountCodepoints_def count_loop_eq)

text \<open>The walk by the iterator, with enough steps.\<close>

fun iterate :: "nat \<Rightarrow> u8 list \<Rightarrow> nat \<times> nat \<Rightarrow> u32 list" where
  "iterate 0 D it = []"
| "iterate (Suc n) D it = (if fst it = snd it then [] else iter_deref D it # iterate n D (iter_next D it))"

lemma iterate_eq:
  "\<lbrakk>Offset \<le> length D; length D - Offset \<le> n\<rbrakk> \<Longrightarrow> iterate n D (Offset, length D) = code_points (drop Offset D)"
proof (induction n arbitrary: Offset)
  case (Suc n)
  show ?case
  proof (cases "Offset = length D")
    case False
    with Suc.prems have lt: "Offset < length D" by simp
    obtain Cp Adv where p: "DecodeCodepoint D Offset (length D) = (Cp, Adv)" by fastforce
    note d = decode_cons [OF lt p]
    have "iter_next D (Offset, length D) = (Offset + Adv, length D)" using d p by (simp add: iter_next_def Let_def)
    moreover have "length D - (Offset + Adv) \<le> n" using d Suc.prems(2) lt by auto
    ultimately show ?thesis using d p lt Suc.IH [of "Offset + Adv"] by (simp add: iter_deref_def)
  qed simp
qed simp

lemma cp_loop_eq:
  "cp_loop D Needle Offset CpIdx =
     (let cs = code_points (drop Offset D) in
      if Needle \<in> set cs then int (CpIdx + length (takeWhile (\<lambda>c. c \<noteq> Needle) cs)) else -1)"
proof (induction D Needle Offset CpIdx rule: cp_loop.induct)
  case (1 D Needle Offset CpIdx)
  obtain Cp Adv where p: "DecodeCodepoint D Offset (length D) = (Cp, Adv)" by fastforce
  show ?case
  proof (cases "Offset < length D")
    case True
    from decode_cons [OF True p] 1 [OF True p [symmetric] refl] p True show ?thesis
      by (subst cp_loop.simps) (simp add: Let_def)
  qed (subst cp_loop.simps, simp)
qed

lemma takeWhile_shorter: "x \<in> set xs \<Longrightarrow> \<not> P x \<Longrightarrow> length (takeWhile P xs) < length xs"
  by (induction xs) auto

lemma last_cp_loop_eq:
  "last_cp_loop D Needle Offset CpIdx LastMatch =
     (let cs = code_points (drop Offset D) in
      if Needle \<in> set cs then int (CpIdx + (length cs - 1 - length (takeWhile (\<lambda>c. c \<noteq> Needle) (rev cs))))
      else LastMatch)"
proof (induction D Needle Offset CpIdx LastMatch rule: last_cp_loop.induct)
  case (1 D Needle Offset CpIdx LastMatch)
  obtain Cp Adv where p: "DecodeCodepoint D Offset (length D) = (Cp, Adv)" by fastforce
  show ?case
  proof (cases "Offset < length D")
    case True
    define cs where "cs = code_points (drop (Offset + Adv) D)"
    have tw: "length (takeWhile (\<lambda>c. c \<noteq> Needle) (rev cs)) < length cs" if "Needle \<in> set cs"
      using takeWhile_shorter [of Needle "rev cs"] that by simp
    have all: "takeWhile (\<lambda>c. c \<noteq> Needle) (rev cs @ [Cp]) = rev cs @ takeWhile (\<lambda>c. c \<noteq> Needle) [Cp]" if "Needle \<notin> set cs"
      using that by (intro takeWhile_append2) auto
    have some: "takeWhile (\<lambda>c. c \<noteq> Needle) (rev cs @ [Cp]) = takeWhile (\<lambda>c. c \<noteq> Needle) (rev cs)" if "Needle \<in> set cs"
      using that by (intro takeWhile_append1 [of Needle]) auto
    from decode_cons [OF True p] 1 [OF True p [symmetric] refl] p True tw all some show ?thesis
      by (subst last_cp_loop.simps) (auto simp: Let_def simp flip: cs_def)
  qed (subst last_cp_loop.simps, simp)
qed

section \<open>Slices of code points\<close>

lemma Utf8Sequence_take_None: "Utf8Sequence Lead rest = None \<Longrightarrow> Utf8Sequence Lead (take m rest) = None"
  by (cases rest; cases "tl rest"; cases "tl (tl rest)"; cases m; cases "m - 1"; cases "m - 2")
    (auto simp: Utf8Sequence_def Let_def split: if_splits)

lemma Utf8Sequence_take_Some:
  "\<lbrakk>Utf8Sequence Lead rest = Some (c, n); n - 1 \<le> m\<rbrakk> \<Longrightarrow> Utf8Sequence Lead (take m rest) = Some (c, n)"
  by (cases rest; cases "tl rest"; cases "tl (tl rest)"; cases m; cases "m - 1"; cases "m - 2")
    (auto simp: Utf8Sequence_def Let_def split: if_splits)

lemma decode_take:
  assumes "Offset < length D" "DecodeCodepoint D Offset (length D) = (Cp, Adv)"
    and e: "Offset + Adv \<le> e" "e \<le> length D"
  shows "code_points (take (e - Offset) (drop Offset D)) = Cp # code_points (take (e - (Offset + Adv)) (drop (Offset + Adv) D))"
proof -
  have d: "drop Offset D = D ! Offset # drop (Suc Offset) D" by (rule Cons_nth_drop_Suc [OF assms(1), symmetric])
  have pos: "0 < Adv" using decode_cons [OF assms(1,2)] by simp
  have s: "e - Offset = Suc (e - Suc Offset)" using e pos by simp
  show ?thesis
  proof (cases "Utf8Sequence (D ! Offset) (drop (Suc Offset) D)")
    case None
    with Decode_step [OF assms(1)] assms(2) have "Cp = 0xFFFD" "Adv = 1" by simp_all
    with Utf8Sequence_take_None [OF None, of "e - Suc Offset"] show ?thesis by (simp add: d s)
  next
    case (Some p)
    with Decode_step [OF assms(1)] assms have p: "p = (Cp, Adv)" by simp
    have "Adv - 1 \<le> e - Suc Offset" using e pos by simp
    from Utf8Sequence_take_Some [OF Some [unfolded p] this] pos
    show ?thesis by (simp add: d s drop_take add.commute)
  qed
qed

lemma offset_loop_eq:
  assumes "Count \<le> CpIdx" "Offset \<le> length D"
  shows "if CpIdx - Count \<le> length (code_points (drop Offset D))
    then \<exists>e \<ge> Offset. offset_loop D (length D) CpIdx Offset Count = int e \<and> e \<le> length D
      \<and> code_points (drop e D) = drop (CpIdx - Count) (code_points (drop Offset D))
    else offset_loop D (length D) CpIdx Offset Count = -1"
  using assms
proof (induction D "length D" CpIdx Offset Count rule: offset_loop.induct)
  case (1 D CpIdx Offset Count)
  obtain Cp Adv where p: "DecodeCodepoint D Offset (length D) = (Cp, Adv)" by fastforce
  show ?case
  proof (cases "Offset < length D \<and> Count \<noteq> CpIdx")
    case True
    then have lt: "Offset < length D" and ne: "Count \<noteq> CpIdx" by simp_all
    note d = decode_cons [OF lt p]
    obtain k where k: "CpIdx - Count = Suc k" "CpIdx - (Count + 1) = k" using ne 1(2) by (cases "CpIdx - Count") auto
    have u: "offset_loop D (length D) CpIdx Offset Count = offset_loop D (length D) CpIdx (Offset + Adv) (Count + 1)"
      using lt ne d p by (subst offset_loop.simps) simp
    have ps: "snd (DecodeCodepoint D Offset (length D)) = Adv" using p by simp
    have "if k \<le> length (code_points (drop (Offset + Adv) D))
      then \<exists>e \<ge> Offset + Adv. offset_loop D (length D) CpIdx (Offset + Adv) (Count + 1) = int e \<and> e \<le> length D
        \<and> code_points (drop e D) = drop k (code_points (drop (Offset + Adv) D))
      else offset_loop D (length D) CpIdx (Offset + Adv) (Count + 1) = -1"
      by (rule 1(1) [OF lt ne refl, unfolded ps k(2)]) (use d 1(2) ne in auto)
    with d k u show ?thesis by (auto split: if_splits)
  next
    case False
    then show ?thesis using 1(2,3) by (subst (1 2) offset_loop.simps) auto
  qed
qed

lemma end_loop_eq:
  assumes "Offset \<le> length D"
  shows "\<exists>e \<ge> Offset. end_loop D LenCp Offset Walked = e \<and> e \<le> length D
    \<and> code_points (take (e - Offset) (drop Offset D)) = take (nat (LenCp - int Walked)) (code_points (drop Offset D))"
  using assms
proof (induction D LenCp Offset Walked rule: end_loop.induct)
  case (1 D LenCp Offset Walked)
  obtain Cp Adv where p: "DecodeCodepoint D Offset (length D) = (Cp, Adv)" by fastforce
  show ?case
  proof (cases "Offset < length D \<and> int Walked < LenCp")
    case True
    then have lt: "Offset < length D" by simp
    note d = decode_cons [OF lt p]
    have u: "end_loop D LenCp Offset Walked = end_loop D LenCp (Offset + Adv) (Walked + 1)"
      using True d p by (subst end_loop.simps) (simp add: Let_def)
    have n: "nat (LenCp - int Walked) = Suc (nat (LenCp - int (Walked + 1)))" using True by linarith
    obtain e where e: "Offset + Adv \<le> e" "end_loop D LenCp (Offset + Adv) (Walked + 1) = e" "e \<le> length D"
        "code_points (take (e - (Offset + Adv)) (drop (Offset + Adv) D))
          = take (nat (LenCp - int (Walked + 1))) (code_points (drop (Offset + Adv) D))"
      using 1(1) [OF True refl] p d by (auto simp: Let_def)
    with decode_take [OF lt p e(1,3)] d n u show ?thesis by (intro exI [of _ e]) simp
  next
    case False
    then show ?thesis using 1(2) by (subst end_loop.simps) auto
  qed
qed

lemma Substr_code_points:
  "code_points (Substr D StartCp LenCp) =
     (if StartCp < 0 then [] else take (nat LenCp) (drop (nat StartCp) (code_points D)))"
proof (cases "LenCp \<le> 0 \<or> StartCp < 0")
  case True
  then show ?thesis by (auto simp: Substr_def)
next
  case False
  show ?thesis
  proof (cases "nat StartCp \<le> length (code_points D)")
    case True
    with offset_loop_eq [of 0 "nat StartCp" 0 D] obtain e where
      e: "offset_loop D (length D) (nat StartCp) 0 0 = int e" "e \<le> length D"
         "code_points (drop e D) = drop (nat StartCp) (code_points D)" by auto
    obtain e2 where e2: "end_loop D LenCp e 0 = e2"
        "code_points (take (e2 - e) (drop e D)) = take (nat LenCp) (code_points (drop e D))"
      using end_loop_eq [OF e(2), of LenCp 0] by auto
    show ?thesis
    proof (cases "e = length D")
      case True
      with e False show ?thesis by (auto simp: Substr_def CodepointToByteOffset_def Let_def)
    next
      case f: False
      with e e2 False show ?thesis by (simp add: Substr_def CodepointToByteOffset_def Let_def)
    qed
  next
    case n: False
    with offset_loop_eq [of 0 "nat StartCp" 0 D] have "offset_loop D (length D) (nat StartCp) 0 0 = -1" by simp
    with False n show ?thesis by (simp add: Substr_def CodepointToByteOffset_def Let_def)
  qed
qed

section \<open>One code point\<close>

lemma replacement_bytes: "WriteUtf8 0xFFFD = [0xEF, 0xBF, 0xBD]"
  by (simp add: WriteUtf8_def)

lemma at_loop_eq:
  assumes "list_all scalar cs" "drop Offset D = utf8_of cs @ bad" "Count \<le> CpIdx" "Offset \<le> length D"
    and "\<forall>b r. bad = b # r \<longrightarrow> Utf8Sequence b r = None"
  shows "at_loop D CpIdx Offset Count =
    (if CpIdx - Count < length cs then Inr (cs ! (CpIdx - Count))
     else if bad = [] then Inl IndexOutOfRange else Inl InvalidUtf8)"
  using assms(1-4)
proof (induction cs arbitrary: Offset Count)
  case Nil
  show ?case
  proof (cases bad)
    case Nil
    then show ?thesis using Nil.prems(2) by (subst at_loop.simps) (simp add: utf8_of_def)
  next
    case (Cons b r)
    then have dr: "drop Offset D = b # r" using Nil.prems(2) by (simp add: utf8_of_def)
    then have lt: "Offset < length D" by (metis drop_eq_Nil list.distinct(1) not_less)
    have "D ! Offset = b" "drop (Suc Offset) D = r" using dr Cons_nth_drop_Suc [OF lt] by simp_all
    then have "DecodeCodepoint D Offset (length D) = (0xFFFD, 1)"
      using Decode_step [OF lt] assms(5) Cons by simp
    with lt Cons show ?thesis by (subst at_loop.simps) (simp add: IsRealReplacement_def)
  qed
next
  case (Cons a cs)
  obtain Lead tl where w: "WriteUtf8 a = Lead # tl"
      "Utf8Sequence Lead (tl @ utf8_of cs @ bad) = Some (a, length (WriteUtf8 a))"
    using Utf8Sequence_WriteUtf8 [of a "utf8_of cs @ bad"] Cons.prems(1) by auto
  have dr: "drop Offset D = Lead # tl @ utf8_of cs @ bad" using Cons.prems(2) w(1) by (simp add: utf8_of_def)
  then have lt: "Offset < length D" by (metis drop_eq_Nil list.distinct(1) not_less)
  have "D ! Offset = Lead" "drop (Suc Offset) D = tl @ utf8_of cs @ bad" using dr Cons_nth_drop_Suc [OF lt] by simp_all
  then have p: "DecodeCodepoint D Offset (length D) = (a, length (WriteUtf8 a))"
    using Decode_step [OF lt] w(2) by simp
  have real: "IsRealReplacement D Offset (length (WriteUtf8 a))" if "a = 0xFFFD"
  proof -
    have x: "drop Offset D = 0xEF # 0xBF # 0xBD # utf8_of cs @ bad" using dr w(1) that by (simp add: replacement_bytes)
    then have "length (drop Offset D) = 3 + length (utf8_of cs @ bad)" by simp
    then have "Offset + 2 < length D" by simp
    moreover have "D ! Offset = 0xEF" "D ! (Offset + 1) = 0xBF" "D ! (Offset + 2) = 0xBD"
      using x lt nth_drop [of Offset D 0] nth_drop [of Offset D 1] nth_drop [of Offset D 2] by simp_all
    ultimately show ?thesis using that by (simp add: IsRealReplacement_def replacement_bytes)
  qed
  note d = decode_cons [OF lt p]
  have dr': "drop (Offset + length (WriteUtf8 a)) D = utf8_of cs @ bad"
    
  proof -
    have "drop (Offset + length (WriteUtf8 a)) D = drop (length (Lead # tl)) (drop Offset D)"
      using w(1) by (simp add: add.commute)
    then show ?thesis using dr by simp
  qed
  show ?case
  proof (cases "Count = CpIdx")
    case True
    with lt p real show ?thesis by (subst at_loop.simps) auto
  next
    case False
    with Cons.IH [OF _ dr', of "Count + 1"] Cons.prems d lt p real show ?thesis
      by (subst at_loop.simps) (auto simp: nth_Cons' Suc_diff_le)
  qed
qed

end
