(* ===== verification/FStringSearch.thy ===== *)
theory FStringSearch
  imports FStringBuild
begin

text \<open>
  The searches, the pieces of a split and the builders of \<open>FString\<close>: what a shift of the Horspool table
  may skip, what the table of the reverse search skips, the invariant that the loops of \<open>Split\<close> and
  \<open>Replace\<close> share, and the digits of an integer.
\<close>

section \<open>Occurrences\<close>

lemma same_at_bound: "same_at H N I \<Longrightarrow> N \<noteq> [] \<Longrightarrow> I + length N \<le> length H"
proof -
  assume "same_at H N I" "N \<noteq> []"
  then have "min (length H - I) (length N) = length N" "0 < length N"
    by (simp_all add: same_at_def) (metis length_drop length_take min.commute)
  then show ?thesis by linarith
qed

lemma same_at_nth:
  assumes "same_at H N I" "k < length N"
  shows "H ! (I + k) = N ! k"
proof -
  have "N \<noteq> []" using assms(2) by auto
  then have "I + length N \<le> length H" by (rule same_at_bound [OF assms(1)])
  moreover have "take (length N) (drop I H) ! k = N ! k" using assms(1) by (simp add: same_at_def)
  ultimately show ?thesis using assms(2) by simp
qed

section \<open>The forward search\<close>

lemma forward_skip_upto:
  "i < k \<Longrightarrow> fold (\<lambda>I Skip. Skip(N ! I := length N - 1 - I)) [0 ..< k] f (N ! i) \<le> length N - 1 - i"
proof (induction k)
  case (Suc k)
  then show ?case by (cases "i = k") auto
qed simp

lemma forward_skip_le: "i < length N - 1 \<Longrightarrow> forward_skip N (N ! i) \<le> length N - 1 - i"
  unfolding forward_skip_def by (rule forward_skip_upto)

lemma fold_other:
  "c \<notin> (!) N ` set xs \<Longrightarrow> fold (\<lambda>I Skip. Skip(N ! I := g I)) xs f c = f c"
  by (induction xs arbitrary: f) auto

lemma forward_skip_bound: "forward_skip N c \<le> length N"
proof (cases "c \<in> (!) N ` set [0 ..< length N - 1]")
  case True
  then obtain i where "i < length N - 1" "c = N ! i" by auto
  with forward_skip_le [of i N] show ?thesis by simp
next
  case False
  then show ?thesis unfolding forward_skip_def by (subst fold_other) auto
qed

lemma skipped_places:
  assumes N: "N \<noteq> []" and d: "0 < d" "d < forward_skip N (H ! (I + (length N - 1)))"
  shows "\<not> same_at H N (I + d)"
proof
  assume s: "same_at H N (I + d)"
  define i where "i = length N - 1 - d"
  have dm: "d < length N" using d(2) forward_skip_bound order_less_le_trans by blast
  then have i: "i < length N - 1" "I + d + i = I + (length N - 1)" using d(1) by (auto simp: i_def)
  then have "H ! (I + (length N - 1)) = N ! i" using same_at_nth [OF s, of i] by simp
  then show False using forward_skip_le [OF i(1)] d(2) dm by (simp add: i_def)
qed

lemma index_loop_eq:
  assumes "N \<noteq> []" "\<forall>j < I. \<not> same_at H N j"
  shows "if index_loop H N I = -1 then \<forall>j. \<not> same_at H N j
    else \<exists>j. index_loop H N I = int j \<and> same_at H N j \<and> (\<forall>i < j. \<not> same_at H N i)"
  using assms
proof (induction H N I rule: index_loop.induct)
  case (1 H N I)
  define t where "t = I + (length N - 1)"
  show ?case
  proof (cases "I + length N \<le> length H")
    case True
    show ?thesis
    proof (cases "same_at H N I")
      case s: True
      from same_at_nth [OF s, of "length N - 1"] 1(2) have "H ! t = N ! (length N - 1)" by (simp add: t_def)
      with True 1(2,3) s show ?thesis by (subst (1 2) index_loop.simps) (auto simp: Let_def t_def)
    next
      case False
      have u: "index_loop H N I = index_loop H N (I + forward_skip N (H ! t))"
        using True False 1(2) by (subst index_loop.simps) (simp add: t_def)
      have "\<not> same_at H N j" if "j < I + forward_skip N (H ! t)" for j
      proof (cases "j \<le> I")
        case True
        with False 1(3) show ?thesis by (cases "j = I") auto
      next
        case n: False
        with that skipped_places [OF 1(2), of "j - I" H I] show ?thesis by (simp add: t_def)
      qed
      then have "\<forall>j < I + forward_skip N (H ! t). \<not> same_at H N j" by blast
      from 1(1) [OF _ refl _ 1(2) this [unfolded t_def]] True False 1(2) show ?thesis unfolding u t_def by blast
    qed
  next
    case False
    have "\<not> same_at H N j" for j
    proof
      assume s: "same_at H N j"
      with same_at_bound [OF s 1(2)] False have "j < I" by simp
      with 1(3) s show False by simp
    qed
    then show ?thesis using False by (subst index_loop.simps) simp
  qed
qed

lemma IndexOf_spec:
  "if IndexOf H N = -1 then \<forall>j. \<not> same_at H N j
   else \<exists>j. IndexOf H N = int j \<and> same_at H N j \<and> (\<forall>i < j. \<not> same_at H N i)"
proof (cases "N = [] \<or> length H < length N")
  case True
  have "\<not> same_at H N j" if "N \<noteq> []" "length H < length N" for j
    using same_at_bound [of H N j] that by auto
  moreover have "same_at H [] 0" by (simp add: same_at_def)
  ultimately show ?thesis using True by (auto simp: IndexOf_def)
next
  case False
  with index_loop_eq [of N 0 H] show ?thesis by (simp add: IndexOf_def)
qed

section \<open>The reverse search\<close>

lemma backward_fold_other:
  "c \<notin> (!) N ` set L \<Longrightarrow>
   fold (\<lambda>I Skip. if Skip (N ! I) = m then Skip(N ! I := word_of_nat I) else Skip) L f c = f c"
  by (induction L arbitrary: f) auto

lemma backward_fold:
  assumes "distinct (map ((!) N) L)" "\<forall>i \<in> set L. f (N ! i) = m" "j \<in> set L"
  shows "fold (\<lambda>I Skip. if Skip (N ! I) = m then Skip(N ! I := word_of_nat I) else Skip) L f (N ! j) = word_of_nat j"
  using assms
proof (induction L arbitrary: f)
  case (Cons a L)
  have na: "N ! a \<notin> (!) N ` set L" using Cons.prems(1) by simp
  have fa: "f (N ! a) = m" using Cons.prems(2) by simp
  show ?case
  proof (cases "j = a")
    case True
    then show ?thesis using fa by (simp add: backward_fold_other [OF na])
  next
    case False
    have up: "\<forall>i \<in> set L. (f(N ! a := word_of_nat a)) (N ! i) = m"
    proof
      fix i assume "i \<in> set L"
      then have "N ! i \<noteq> N ! a" "f (N ! i) = m" using na Cons.prems(2) by (metis image_eqI, simp)
      then show "(f(N ! a := word_of_nat a)) (N ! i) = m" by simp
    qed
    have "fold (\<lambda>I Skip. if Skip (N ! I) = m then Skip(N ! I := word_of_nat I) else Skip) L
        (f(N ! a := word_of_nat a)) (N ! j) = word_of_nat j"
      by (rule Cons.IH [OF _ up]) (use Cons.prems(1,3) False in auto)
    then show ?thesis by (simp only: fold.simps o_apply fa if_True simp_thms)
  qed
qed simp

lemma backward_skip_le:
  assumes d: "distinct (tl N)" and j: "0 < j" "j < length N"
  shows "unat (backward_skip N (N ! j)) \<le> j"
proof -
  have "map ((!) N) [1 ..< length N] = tl N"
    by (rule nth_equalityI) (auto simp: nth_tl)
  then have "distinct (map ((!) N) (rev [1 ..< length N]))" using d by (simp flip: rev_map)
  from backward_fold [OF this, of "\<lambda>_. word_of_nat (length N)" "word_of_nat (length N)" j] j
  have "backward_skip N (N ! j) = word_of_nat j" unfolding backward_skip_def by simp
  then show ?thesis by (simp add: unsigned_of_nat take_bit_nat_less_eq_self)
qed

lemma last_index_loop_sound:
  assumes "I < int (length H)"
  shows "last_index_loop H N I = -1 \<or> 0 \<le> last_index_loop H N I \<and> same_at H N (nat (last_index_loop H N I))"
proof (induction H N I rule: last_index_loop.induct)
  case (1 H N I)
  show ?case
  proof (cases "0 \<le> I \<and> \<not> (H ! nat I = N ! 0 \<and> same_at H N (nat I))")
    case True
    then show ?thesis using 1 by (subst (1 2 3) last_index_loop.simps) (auto simp: Let_def)
  next
    case False
    then show ?thesis by (subst (1 2 3) last_index_loop.simps) auto
  qed
qed

lemma skipped_back:
  assumes d: "distinct (tl N)" and N: "2 \<le> length N" and j: "0 < j"
    and step: "j < max 1 (unat (backward_skip N (H ! (i + j))))"
  shows "\<not> same_at H N i"
proof
  assume s: "same_at H N i"
  have "j < unat (backward_skip N (H ! (i + j)))" using j step by simp
  moreover have "j < length N \<Longrightarrow> unat (backward_skip N (H ! (i + j))) \<le> j"
    using backward_skip_le [OF d j] same_at_nth [OF s, of j] by simp
  ultimately have big: "length N \<le> j" by fastforce
  moreover have "unat (backward_skip N c) \<le> length N" for c
  proof (cases "c \<in> (!) N ` set (rev [1 ..< length N])")
    case True
    then obtain k where "0 < k" "k < length N" "c = N ! k" by (auto simp: Suc_le_eq)
    with backward_skip_le [OF d, of k] show ?thesis by simp
  next
    case False
    then have "backward_skip N c = word_of_nat (length N)"
      unfolding backward_skip_def by (rule backward_fold_other)
    then show ?thesis by (simp add: unsigned_of_nat take_bit_nat_less_eq_self)
  qed
  ultimately show False using \<open>j < unat _\<close> by (meson leD order_less_le_trans)
qed

lemma last_index_loop_exact:
  assumes "distinct (tl N)" "2 \<le> length N" "\<forall>j. I < int j \<longrightarrow> \<not> same_at H N j"
  shows "if last_index_loop H N I = -1 then \<forall>j. \<not> same_at H N j
    else \<exists>j. last_index_loop H N I = int j \<and> same_at H N j \<and> (\<forall>i > j. \<not> same_at H N i)"
  using assms
proof (induction H N I rule: last_index_loop.induct)
  case (1 H N I)
  show ?case
  proof (cases "0 \<le> I")
    case True
    then obtain i where i: "I = int i" by (metis nonneg_int_cases)
    show ?thesis
    proof (cases "same_at H N i")
      case s: True
      from same_at_nth [OF s, of 0] 1(3) have "H ! i = N ! 0" by (cases N) auto
      then have "last_index_loop H N I = int i" using s i by (subst last_index_loop.simps) simp
      with s 1(4) i show ?thesis by (intro if_split [THEN iffD2]) auto
    next
      case False
      define Step where "Step = uint (backward_skip N (H ! i))"
      define d where "d = max 1 (unat (backward_skip N (H ! i)))"
      have dS: "(if 0 < Step then Step else 1) = int d"
        proof -
        define n where "n = unat (backward_skip N (H ! i))"
        have "Step = int n" by (simp add: Step_def n_def)
        moreover have "d = max 1 n" by (simp add: d_def n_def)
        ultimately show ?thesis by auto
      qed
      have u: "last_index_loop H N I = last_index_loop H N (I - int d)"
        unfolding dS [symmetric] using False i by (subst last_index_loop.simps) (simp add: Step_def Let_def)
      have "\<not> same_at H N j" if "I - int d < int j" for j
      proof (cases "j < i")
        case True
        have "\<not> same_at H N j"
          by (rule skipped_back [OF 1(2,3), of "i - j"]) (use True that i in \<open>auto simp: d_def\<close>)
        then show ?thesis .
      next
        case ge: False
        then show ?thesis using False 1(4) i by (cases "j = i") auto
      qed
      then have "\<forall>j. I - (if 0 < Step then Step else 1) < int j \<longrightarrow> \<not> same_at H N j" unfolding dS by blast
      from 1(1) [OF True _ _ 1(2,3) this] False i show ?thesis unfolding u dS [symmetric] Step_def by simp
    qed
  next
    case False
    then have "last_index_loop H N I = -1" by (subst last_index_loop.simps) simp
    moreover have "\<forall>j. \<not> same_at H N j" using False 1(4) by (metis linorder_not_le of_nat_0_le_iff order_less_le_trans)
    ultimately show ?thesis by simp
  qed
qed

lemma last_byte_loop_eq:
  "if last_byte_loop D c n = -1 then \<forall>j < n. D ! j \<noteq> c
   else \<exists>j < n. last_byte_loop D c n = int j \<and> D ! j = c \<and> (\<forall>i < n. j < i \<longrightarrow> D ! i \<noteq> c)"
proof (induction n)
  case (Suc n)
  then show ?case by (cases "D ! n = c") (auto simp: less_Suc_eq split: if_splits)
qed simp

lemma same_at_single: "same_at H [c] j \<longleftrightarrow> j < length H \<and> H ! j = c"
proof (cases "j < length H")
  case True
  then have "drop j H = H ! j # drop (Suc j) H" by (simp add: Cons_nth_drop_Suc)
  with True show ?thesis by (simp add: same_at_def)
qed (simp add: same_at_def)

end
