(* ===== verification/FStringPieces.thy ===== *)
theory FStringPieces
  imports FStringSearch
begin

text \<open>
  The members of \<open>FString\<close> that build a string: the loops of \<open>Split\<close> and \<open>Replace\<close> cut the text at the
  same places, the trims drop a prefix and a suffix of white space, and the digits that
  \<open>std::to_chars\<close> writes are those that \<open>std::from_chars\<close> reads.
\<close>

section \<open>Pieces\<close>

definition joined :: "u8 list list \<Rightarrow> u8 list \<Rightarrow> u8 list" where
  "joined ps sep = (case ps of [] \<Rightarrow> [] | p # qs \<Rightarrow> p @ concat (map (\<lambda>q. sep @ q) qs))"

lemma joined_Cons: "ps \<noteq> [] \<Longrightarrow> joined (p # ps) sep = p @ sep @ joined ps sep"
  by (cases ps) (simp_all add: joined_def)

lemma joined_single: "joined [p] sep = p"
  by (simp add: joined_def)

lemma append_text_Nil [simp]: "append_text [] Out = Inr Out"
  by (simp add: append_text_def)

lemma append_text_append: "rbind (append_text xs Out) (append_text ys) = append_text (xs @ ys) Out"
  by (auto simp: append_text_def in_range_def)

lemma append_text_if: "xs = [] \<or> P \<Longrightarrow> (if P then append_text xs Out else Inr Out) = append_text xs Out"
  by auto

lemma join_loop_eq: "join_loop ps sep (Suc i) Out = append_text (concat (map (\<lambda>q. sep @ q) ps)) Out"
proof (induction ps arbitrary: i Out)
  case (Cons p ps)
  have "join_loop ps sep (Suc (Suc i)) = append_text (concat (map (\<lambda>q. sep @ q) ps))"
    by (rule ext) (rule Cons.IH)
  then show ?case by (simp add: append_text_append)
qed simp

lemma total_loop_eq:
  "k < 2 ^ 31 \<Longrightarrow> total_loop ps sep k =
     (if k + length (joined ps sep) < 2 ^ 31 then Inr (k + length (joined ps sep)) else Inl OutOfRange)"
proof (induction ps arbitrary: k)
  case (Cons p ps)
  show ?case
  proof (cases "ps = []")
    case False
    then show ?thesis
      using Cons.IH [of "k + length p + length sep"] by (auto simp: in_range_def joined_Cons)
  qed (simp add: in_range_def joined_single)
qed (simp add: joined_def)

text \<open>One piece is returned as it is; two or more have to fit.\<close>

lemma JoinBy_joined:
  "JoinBy b ps sep =
     (if length ps = 1 \<or> length (joined ps sep) < 2 ^ 31 then Inr (joined ps sep) else Inl OutOfRange)"
proof (cases "\<exists>p q qs. ps = p # q # qs")
  case True
  then obtain p q qs where ps: "ps = p # q # qs" by blast
  have "join_loop ps sep 0 [] = rbind (append_text p []) (append_text (concat (map (\<lambda>q. sep @ q) (q # qs))))"
  proof -
    have "join_loop (q # qs) sep (Suc 0) = append_text (concat (map (\<lambda>q. sep @ q) (q # qs)))"
      by (rule ext) (rule join_loop_eq)
    then show ?thesis unfolding ps join_loop.simps(2) [of p] by (simp del: join_loop.simps)
  qed
  also have "\<dots> = append_text (joined ps sep) []" by (simp only: append_text_append) (simp add: ps joined_def)
  finally have "join_loop ps sep 0 [] = append_text (joined ps sep) []" .
  then show ?thesis
    using total_loop_eq [of 0 ps sep] by (auto simp: JoinBy_def ps append_text_def in_range_def simp del: join_loop.simps total_loop.simps)
next
  case False
  then have "ps = [] \<or> (\<exists>p. ps = [p])" by (metis list.exhaust)
  then show ?thesis by (auto simp: JoinBy_def joined_def)
qed

lemma piece_end:
  assumes "\<forall>j. S \<le> j \<and> j < I \<longrightarrow> \<not> same_at D d j" "d \<noteq> []" "S \<le> length D" "e + S < I + length d"
  shows "\<not> same_at (take e (drop S D)) d j"
proof
  assume s: "same_at (take e (drop S D)) d j"
  from same_at_bound [OF s assms(2)] have b: "j + length d \<le> e" by auto
  with assms(4) have "S + j < I" by simp
  moreover have "same_at D d (S + j)"
  proof -
    have "take (length d) (drop j (take e (drop S D))) = take (length d) (drop (S + j) D)"
      using b by (simp add: drop_take min_def add.commute)
    with s show ?thesis by (simp add: same_at_def)
  qed
  ultimately show False using assms(1) by simp
qed

lemma pieces:
  assumes "d \<noteq> []" "S \<le> I" "S \<le> length D" "\<forall>j. S \<le> j \<and> j < I \<longrightarrow> \<not> same_at D d j"
  shows "\<exists>ps. ps \<noteq> [] \<and> (\<forall>Out. split_loop D d S I Out = Out @ ps) \<and> joined ps d = drop S D
    \<and> (\<forall>p \<in> set ps. \<forall>j. \<not> same_at p d j) \<and> (\<forall>Out. replace_loop D d R S I Out = append_text (joined ps R) Out)"
  using assms
proof (induction "length D - I" arbitrary: S I rule: less_induct)
  case less
  show ?case
  proof (cases "I + length d \<le> length D")
    case fits: True
    have dl: "0 < length d" using less.prems(1) by simp
    show ?thesis
    proof (cases "same_at D d I")
      case s: True
      let ?p = "take (I - S) (drop S D)"
      have "length D - (I + length d) < length D - I" using fits dl by linarith
      moreover have "\<forall>j. I + length d \<le> j \<and> j < I + length d \<longrightarrow> \<not> same_at D d j" by auto
      ultimately obtain ps where ps: "ps \<noteq> []"
          "\<And>Out. split_loop D d (I + length d) (I + length d) Out = Out @ ps"
          "joined ps d = drop (I + length d) D" "\<forall>p \<in> set ps. \<forall>j. \<not> same_at p d j"
          "\<And>Out. replace_loop D d R (I + length d) (I + length d) Out = append_text (joined ps R) Out"
        using less.hyps [OF _ less.prems(1) order_refl fits] by blast
      have sp: "split_loop D d S I Out = Out @ (?p # ps)" for Out
        using fits s less.prems(1) ps(2) by (subst split_loop.simps) simp
      have f: "replace_loop D d R (I + length d) (I + length d) = append_text (joined ps R)"
        using ps(5) by (rule ext)
      have rp: "replace_loop D d R S I Out = append_text (joined (?p # ps) R) Out" for Out
      proof -
        have "replace_loop D d R S I Out =
            rbind (append_text ?p Out) (\<lambda>Out1. rbind (append_text R Out1) (append_text (joined ps R)))"
          using fits s less.prems(1,2) f append_text_if [of ?p "I > S"] append_text_if [of R "R \<noteq> []"]
          by (subst replace_loop.simps) simp
        then show ?thesis using ps(1) by (simp add: append_text_append joined_Cons)
      qed
      have "drop S D = ?p @ drop I D" using less.prems(2) by (metis append_take_drop_id drop_drop le_add_diff_inverse2)
      also have "drop I D = d @ drop (I + length d) D"
        using s by (metis add.commute append_take_drop_id drop_drop same_at_def)
      finally have "joined (?p # ps) d = drop S D" using ps(1,3) by (simp add: joined_Cons)
      moreover have "\<not> same_at ?p d j" for j
        using piece_end [OF less.prems(4,1,3), of "I - S"] less.prems(2) dl by simp
      ultimately show ?thesis using sp rp ps(4) by (intro exI [of _ "?p # ps"]) auto
    next
      case False
      have "length D - (I + 1) < length D - I" using fits dl by linarith
      moreover have "\<forall>j. S \<le> j \<and> j < I + 1 \<longrightarrow> \<not> same_at D d j" using less.prems(4) False by (auto simp: less_Suc_eq)
      ultimately obtain ps where ps: "ps \<noteq> []" "\<And>Out. split_loop D d S (I + 1) Out = Out @ ps"
          "joined ps d = drop S D" "\<forall>p \<in> set ps. \<forall>j. \<not> same_at p d j"
          "\<And>Out. replace_loop D d R S (I + 1) Out = append_text (joined ps R) Out"
        using less.hyps [of "I + 1" S] less.prems(1-3) by auto
      have "split_loop D d S I Out = split_loop D d S (I + 1) Out" for Out
        using fits False less.prems(1) by (subst split_loop.simps) simp
      moreover have "replace_loop D d R S I Out = replace_loop D d R S (I + 1) Out" for Out
        using fits False less.prems(1) by (subst replace_loop.simps) simp
      ultimately show ?thesis using ps by (intro exI [of _ ps]) simp
    qed
  next
    case False
    have "split_loop D d S I Out = Out @ [drop S D]" for Out using False by (subst split_loop.simps) simp
    moreover have "replace_loop D d R S I Out = append_text (joined [drop S D] R) Out" for Out
      using False less.prems(3) by (subst replace_loop.simps) (simp add: joined_single)
    moreover have "\<not> same_at (drop S D) d j" for j
      using piece_end [OF less.prems(4,1,3), of "length D - S"] less.prems(3) False by simp
    ultimately show ?thesis by (intro exI [of _ "[drop S D]"]) (simp add: joined_single)
  qed
qed

lemma split_pieces:
  assumes "d \<noteq> []" "length D < 2 ^ 31"
  shows "JoinBy b (Split D d) d = Inr D" "Replace D d R = JoinBy b (Split D d) R"
    "\<forall>p \<in> set (Split D d). \<forall>j. \<not> same_at p d j" "Split D d \<noteq> []"
proof -
  from pieces [OF assms(1) order_refl, of 0 D R] obtain ps where ps: "ps \<noteq> []"
      "split_loop D d 0 0 [] = ps" "joined ps d = D" "\<forall>p \<in> set ps. \<forall>j. \<not> same_at p d j"
      "replace_loop D d R 0 0 [] = append_text (joined ps R) []" by auto
  from ps assms show "JoinBy b (Split D d) d = Inr D"
      "\<forall>p \<in> set (Split D d). \<forall>j. \<not> same_at p d j" "Split D d \<noteq> []"
    by (simp_all add: Split_def JoinBy_joined)
  have "length (joined ps R) < 2 ^ 31" if "length ps = 1"
    using that ps(3) assms(2) by (auto simp: length_Suc_conv joined_single)
  then show "Replace D d R = JoinBy b (Split D d) R"
    using ps(2,5) assms(1) by (auto simp: Split_def Replace_def JoinBy_joined append_text_def in_range_def)
qed

section \<open>Trimming, case and order\<close>

lemma trim_start_eq:
  "Start \<le> length D \<Longrightarrow> drop (trim_start D Start) D = dropWhile IsAsciiWhitespace (drop Start D)
     \<and> Start \<le> trim_start D Start \<and> trim_start D Start \<le> length D"
proof (induction D Start rule: trim_start.induct)
  case (1 D Start)
  show ?case
  proof (cases "Start < length D")
    case True
    then have "drop Start D = D ! Start # drop (Suc Start) D" by (simp add: Cons_nth_drop_Suc)
    with 1 True show ?thesis by (subst (1 2 3) trim_start.simps) auto
  qed (use 1(2) in \<open>subst (1 2 3) trim_start.simps, simp\<close>)
qed

lemma trim_end_eq:
  "\<lbrakk>Start \<le> End; End \<le> length D\<rbrakk> \<Longrightarrow>
   take (trim_end D Start End - Start) (drop Start D)
     = rev (dropWhile IsAsciiWhitespace (rev (take (End - Start) (drop Start D))))
   \<and> Start \<le> trim_end D Start End \<and> trim_end D Start End \<le> End"
proof (induction End)
  case (Suc End)
  show ?case
  proof (cases "Suc End > Start")
    case True
    then have "take (Suc End - Start) (drop Start D) = take (End - Start) (drop Start D) @ [D ! End]"
      using Suc.prems(2) by (simp add: Suc_diff_le take_Suc_conv_app_nth)
    with Suc True show ?thesis by auto
  next
    case False
    with Suc.prems show ?thesis by simp
  qed
qed simp

lemma TrimStart_eq: "TrimStart D = dropWhile IsAsciiWhitespace D"
proof -
  from trim_start_eq [of 0 D] have "drop (trim_start D 0) D = dropWhile IsAsciiWhitespace D" by simp
  moreover have "TrimStart D = drop (trim_start D 0) D" by (simp add: TrimStart_def Let_def)
  ultimately show ?thesis by simp
qed

lemma TrimEnd_eq: "TrimEnd D = rev (dropWhile IsAsciiWhitespace (rev D))"
  using trim_end_eq [of 0 "length D" D] by (auto simp: TrimEnd_def Let_def)

lemma Trim_eq: "Trim D = TrimEnd (TrimStart D)"
proof -
  define S where "S = trim_start D 0"
  define e where "e = trim_end D S (length D)"
  from trim_start_eq [of 0 D] have s: "drop S D = TrimStart D" "S \<le> length D" by (simp_all add: S_def TrimStart_eq)
  from trim_end_eq [OF s(2) order_refl] have "take (e - S) (drop S D) = TrimEnd (TrimStart D)"
    by (simp add: e_def TrimEnd_eq flip: s(1))
  moreover have "Trim D = take (e - S) (drop S D)" by (auto simp: Trim_def Let_def e_def S_def)
  ultimately show ?thesis by simp
qed

lemma append_times_eq: "append_times n c Out = Out @ replicate n c"
  by (induction n arbitrary: Out) (simp_all flip: replicate_append_same)

lemma reverse_loop_eq: "n \<le> length D \<Longrightarrow> reverse_loop D n Out = Out @ rev (take n D)"
  by (induction n arbitrary: Out) (simp_all add: take_Suc_conv_app_nth)

lemma Reverse_eq: "Reverse D = rev D"
proof (cases "length D \<le> 1")
  case True
  then show ?thesis by (cases D) (simp_all add: Reverse_def)
qed (simp add: Reverse_def reverse_loop_eq)

section \<open>Digits\<close>

lemma decimal_value_snoc: "decimal_value (ds @ [c]) = 10 * decimal_value ds + (unat c - 0x30)"
  by (simp add: decimal_value_def)

lemma decimal_props: "list_all decimal_digit (decimal n) \<and> decimal_value (decimal n) = n \<and> decimal n \<noteq> []"
proof (induction n rule: less_induct)
  case (less n)
  have u: "unat (word_of_nat (48 + n mod 10) :: u8) = 48 + n mod 10" by (simp add: unsigned_of_nat take_bit_nat_eq_self_iff del: of_nat_add)
  then have d: "decimal_digit (word_of_nat (48 + n mod 10))"
    by (simp add: decimal_digit_def word_le_nat_alt del: of_nat_add)
  show ?case
  proof (cases "n < 10")
    case True
    then show ?thesis using d u by (subst (1 2 3) decimal.simps) (simp add: decimal_value_def del: of_nat_add)
  next
    case False
    with less [of "n div 10"] d u show ?thesis
      by (subst (1 2 3) decimal.simps) (simp add: decimal_value_snoc del: of_nat_add)
  qed
qed

lemma decimal_length: "n < 10 ^ k \<Longrightarrow> 0 < k \<Longrightarrow> length (decimal n) \<le> k"
proof (induction n arbitrary: k rule: less_induct)
  case (less n)
  show ?case
  proof (cases "n < 10")
    case False
    then obtain j where j: "k = Suc j" "0 < j" using less.prems by (cases k; cases "k - 1") auto
    then have "n div 10 < 10 ^ j" using less.prems(1) by (simp add: less_mult_imp_div_less mult.commute)
    with less.IH [of "n div 10" j] False j show ?thesis by (subst decimal.simps) simp
  qed (use less.prems in \<open>subst decimal.simps, simp\<close>)
qed

lemma from_to_chars:
  assumes "v = (if neg then - int n else int n)" "0 < w"
  shows "from_chars w ((if neg then [0x2D] else []) @ decimal n) =
    (if v < - (2 ^ (w - 1)) \<or> 2 ^ (w - 1) \<le> v then (0, [], result_out_of_range) else (v, [], errc_ok))"
proof -
  have p: "list_all decimal_digit (decimal n)" "decimal_value (decimal n) = n" "decimal n \<noteq> []"
    using decimal_props by blast+
  then have tw: "takeWhile decimal_digit (decimal n) = decimal n" "dropWhile decimal_digit (decimal n) = []"
    by (simp_all add: list_all_iff)
  have hd: "hd (decimal n) \<noteq> 0x2D"
  proof
    assume "hd (decimal n) = 0x2D"
    with p(1,3) have "decimal_digit 0x2D" by (metis hd_in_set list_all_iff)
    then show False by (simp add: decimal_digit_def)
  qed
  show ?thesis using assms by (cases neg) (simp_all add: from_chars_def Let_def tw hd p(2,3))
qed

lemma ToCharsImpl_eq:
  assumes "- (2 ^ 63) \<le> v" "v < 2 ^ 63"
  shows "ToCharsImpl v = (if v < 0 then [0x2D] else []) @ decimal (nat \<bar>v\<bar>)"
proof -
  have "nat \<bar>v\<bar> < 10 ^ 20" using assms by auto
  then have "length (decimal (nat \<bar>v\<bar>)) \<le> 20" by (rule decimal_length) simp
  then show ?thesis by (cases "v < 0") (simp_all add: ToCharsImpl_def to_chars_def)
qed

lemma from_ToCharsImpl:
  assumes "- (2 ^ 63) \<le> v" "v < 2 ^ 63" "0 < w"
  shows "from_chars w (ToCharsImpl v) =
    (if v < - (2 ^ (w - 1)) \<or> 2 ^ (w - 1) \<le> v then (0, [], result_out_of_range) else (v, [], errc_ok))"
  unfolding ToCharsImpl_eq [OF assms(1,2)]
  using from_to_chars [of v "v < 0" "nat \<bar>v\<bar>" w] assms(3) by simp

lemma ToCharsImpl_nonempty:
  assumes "- (2 ^ 63) \<le> v" "v < 2 ^ 63"
  shows "ToCharsImpl v \<noteq> []"
  using ToCharsImpl_eq [OF assms] decimal_props by simp

end
