(* ===== verification/FStringTextTheorems.thy ===== *)
theory FStringTextTheorems
  imports FStringTextProps FStringPieces
begin

text \<open>
  The properties of the text members of \<open>FString\<close>: code points, searches, pieces and integers.
\<close>

section \<open>Code points\<close>

text \<open>
  C35: the decoder of \<open>FString\<close> agrees with the separate hand-written one of \<open>FUTF16String\<close> on every
  byte sequence, well-formed or not: the code points that the iterator visits from \<open>begin()\<close> to
  \<open>end()\<close>, encoded in UTF-16, are the converted string; \<open>LenCodepoints\<close> is their number, and
  \<open>Substr(Start, Len)\<close> holds exactly those from \<open>Start\<close> on, at most \<open>Len\<close> of them.
\<close>

theorem decoders_agree:
  "ConvertUtf8ToUtf16 D = concat (map WriteUtf16 (iterate (length D) D (iter_begin D)))
   \<and> LenCodepoints D = length (iterate (length D) D (iter_begin D))
   \<and> iterate (length (Substr D Start Len)) (Substr D Start Len) (iter_begin (Substr D Start Len))
       = (if Start < 0 then [] else take (nat Len) (drop (nat Start) (iterate (length D) D (iter_begin D))))"
proof -
  have i: "iterate (length X) X (iter_begin X) = code_points X" for X
    using iterate_eq [of 0 X "length X"] by (simp add: iter_begin_def)
  show ?thesis
    unfolding i by (simp only: Convert_code_points utf16_of_def LenCodepoints_eq Substr_code_points simp_thms)
qed

text \<open>
  C36: \<open>CodepointAt\<close> on a text of Unicode scalar values followed by nothing or by a byte that starts no
  well-formed sequence: inside the text it returns the code point (a real U+FFFD included), behind it
  \<open>IndexOutOfRange\<close> at the end of the string and \<open>InvalidUtf8\<close> at the bad byte; a negative index is out
  of range and an empty string is reported as such.
\<close>

theorem codepoint_at_reports_bad_text:
  assumes "list_all scalar cs" and "case bad of [] \<Rightarrow> True | b # r \<Rightarrow> Utf8Sequence b r = None"
  shows "CodepointAt (utf8_of cs @ bad) k =
    (if k < 0 then Inl IndexOutOfRange
     else if cs = [] \<and> bad = [] then Inl EmptyString
     else if k < int (length cs) then Inr (cs ! nat k)
     else if bad = [] then Inl IndexOutOfRange else Inl InvalidUtf8)"
proof -
  have "utf8_of cs = [] \<longleftrightarrow> cs = []" by (cases cs) (auto simp: utf8_of_def WriteUtf8_def)
  moreover have "at_loop (utf8_of cs @ bad) (nat k) 0 0 = (if nat k < length cs then Inr (cs ! nat k)
      else if bad = [] then Inl IndexOutOfRange else Inl InvalidUtf8)" if "0 \<le> k"
    using at_loop_eq [OF assms(1), of 0 "utf8_of cs @ bad" bad 0 "nat k"] assms(2) by (auto split: list.splits)
  ultimately show ?thesis by (auto simp: CodepointAt_def nat_less_iff)
qed

theorem codepoint_at_reports_bad_text_witness:
  "CodepointAt (utf8_of [0x41, 0xFFFD] @ [0xC3]) 1 = Inr 0xFFFD
   \<and> CodepointAt (utf8_of [0x41, 0xFFFD] @ [0xC3]) 2 = Inl InvalidUtf8"
proof -
  have "list_all scalar [0x41, 0xFFFD]" by (simp add: scalar_def)
  moreover have "case [0xC3] of [] \<Rightarrow> True | b # r \<Rightarrow> Utf8Sequence b r = None" by (simp add: Utf8Sequence_def)
  ultimately show ?thesis
    using codepoint_at_reports_bad_text [of "[0x41, 0xFFFD]" "[0xC3]" 1]
      codepoint_at_reports_bad_text [of "[0x41, 0xFFFD]" "[0xC3]" 2] by simp
qed

section \<open>Searches\<close>

text \<open>
  C37: the Horspool search \<open>IndexOf\<close> answers the offset of the first occurrence of the needle, and -1
  exactly when it does not occur: no shift of its table skips one.
\<close>

theorem index_of_finds_first:
  "(IndexOf H N = -1 \<longleftrightarrow> \<not> (\<exists>i. same_at H N i))
   \<and> (IndexOf H N = int j \<longleftrightarrow> same_at H N j \<and> \<not> (\<exists>i. i < j \<and> same_at H N i))"
  using IndexOf_spec [of H N] by (auto split: if_splits) (metis linorder_neqE_nat)+

text \<open>
  C38: the reverse search \<open>LastIndexOfByte(const FString&)\<close> answers the offset of the last occurrence,
  or -1 when there is none, for a needle whose bytes after the first are distinct.  For other needles it
  can miss the only occurrence, because its table keeps the rightmost distance of a byte instead of the
  leftmost: whatever the bytes, it does not find \<open>abb\<close> in \<open>abbc\<close>.
\<close>

theorem reverse_search_skips_too_far:
  assumes "distinct (tl N)" and "a \<noteq> (b :: u8)"
  shows "(LastIndexOfByte_string H N = -1 \<longleftrightarrow> \<not> (\<exists>i. same_at H N i))
    \<and> (N \<noteq> [] \<and> LastIndexOfByte_string H N = int j \<longleftrightarrow>
        N \<noteq> [] \<and> same_at H N j \<and> \<not> (\<exists>i. j < i \<and> same_at H N i))
    \<and> same_at [a, b, b, c] [a, b, b] 0 \<and> LastIndexOfByte_string [a, b, b, c] [a, b, b] = -1"
proof -
  have spec: "if LastIndexOfByte_string H N = -1 then \<forall>j. \<not> same_at H N j
    else N = [] \<or> (\<exists>j. LastIndexOfByte_string H N = int j \<and> same_at H N j \<and> (\<forall>i > j. \<not> same_at H N i))"
  proof -
    consider "N = []" | "N \<noteq> []" "length H < length N" | k where "N = [k]" "H \<noteq> []"
      | "2 \<le> length N" "length N \<le> length H"
    proof (cases "length N \<le> 1")
      case True
      then show ?thesis using that by (cases N; cases H) auto
    qed (use that in fastforce)
    then show ?thesis
    proof cases
      case 2
      then show ?thesis using same_at_bound [of H N] by (fastforce simp: LastIndexOfByte_string_def)
    next
      case 3
      then have "LastIndexOfByte_string H N = last_byte_loop H k (length H)"
        by (auto simp: LastIndexOfByte_string_def LastIndexOfByte_def not_less Suc_le_eq)
      with last_byte_loop_eq [of H k "length H"] 3 show ?thesis by (auto simp: same_at_single split: if_splits)
    next
      case 4
      have "\<forall>j. int (length H) - int (length N) < int j \<longrightarrow> \<not> same_at H N j"
        using same_at_bound [of H N] 4 by fastforce
      from last_index_loop_exact [OF assms(1) 4(1) this] 4 show ?thesis
        by (auto simp: LastIndexOfByte_string_def split: if_splits)
    qed (simp add: LastIndexOfByte_string_def)
  qed
  have "same_at H [] 0" by (simp add: same_at_def)
  with spec have one: "(LastIndexOfByte_string H N = -1 \<longleftrightarrow> \<not> (\<exists>i. same_at H N i))"
    by (cases "N = []") (auto simp: LastIndexOfByte_string_def split: if_splits)
  from spec have two: "(N \<noteq> [] \<and> LastIndexOfByte_string H N = int j \<longleftrightarrow>
        N \<noteq> [] \<and> same_at H N j \<and> \<not> (\<exists>i. j < i \<and> same_at H N i))"
    by (auto split: if_splits) (metis linorder_neqE_nat)+
  have b: "backward_skip [a, b, b] b = 2" using assms(2) by (simp add: backward_skip_def upt_rec)
  have "LastIndexOfByte_string [a, b, b, c] [a, b, b] = -1"
    using assms(2) b by (simp add: LastIndexOfByte_string_def last_index_loop.simps)
  with one two show ?thesis by (simp add: same_at_def)
qed

theorem reverse_search_skips_too_far_witness:
  "LastIndexOfByte_string [1, 2, 1, 2, 3] [1, 2] = 2 \<and> LastIndexOfByte_string [1, 2, 2, 9] [1, 2, 2] = -1"
proof -
  have "distinct (tl [1, 2 :: u8])" "(1 :: u8) \<noteq> 2" by simp_all
  moreover have "\<not> (\<exists>i. 2 < i \<and> same_at [1, 2, 1, 2, 3] [1, 2] i)"
    by (auto simp: same_at_def Cons_eq_append_conv drop_Cons' split: if_splits)
  ultimately show ?thesis
    using reverse_search_skips_too_far [of "[1, 2]" 1 2 "[1, 2, 1, 2, 3]" 2 9] by (simp add: same_at_def)
qed

section \<open>Pieces\<close>

text \<open>
  C39: \<open>JoinBy\<close> is the inverse of \<open>Split\<close> on every text a string can hold, no piece holds the delimiter
  any more (\<open>IndexOf\<close> does not find it), and \<open>Replace\<close> is \<open>JoinBy\<close> of the pieces with the replacement,
  also where the lengths of the result overflow.
\<close>

theorem join_inverts_split:
  assumes "length D < 2 ^ 31"
  shows "JoinBy b (Split D d) d = Inr D
   \<and> Replace D d R = JoinBy b (Split D d) R
   \<and> Split D d \<noteq> []
   \<and> (d = [] \<or> list_all (\<lambda>p. IndexOf p d = -1) (Split D d))"
proof (cases "d = []")
  case True
  then show ?thesis by (simp add: Split_def JoinBy_def Replace_def)
next
  case False
  have "IndexOf p d = -1" if "\<forall>j. \<not> same_at p d j" for p
    using IndexOf_spec [of p d] that by (auto split: if_splits)
  with split_pieces [OF False assms] show ?thesis by (simp add: list_all_iff)
qed

theorem join_inverts_split_witness:
  "JoinBy Checked (Split [97, 44, 98, 44, 99] [44]) [44] = Inr [97, 44, 98, 44, 99]
     \<and> Replace [97, 44, 98, 44, 99] [44] [59, 59] = Inr [97, 59, 59, 98, 59, 59, 99]"
proof -
  have "JoinBy Checked (Split [97, 44, 98, 44, 99] [44]) [59, 59] = Inr [97, 59, 59, 98, 59, 59, 99]"
    by (simp add: Split_def split_loop.simps same_at_def JoinBy_def append_text_def in_range_def)
  with join_inverts_split [of "[97, 44, 98, 44, 99]" Checked "[44]" "[59, 59]"] show ?thesis by simp
qed

text \<open>
  \<open>Trim\<close> is \<open>TrimEnd\<close> of \<open>TrimStart\<close>, the two mirror each other under \<open>Reverse\<close>, and what is left
  neither starts nor ends with white space; padding to the target length keeps the text at its end or
  its start.
\<close>

theorem trims_mirror:
  "Trim D = TrimEnd (TrimStart D)
   \<and> TrimEnd D = Reverse (TrimStart (Reverse D))
   \<and> (Trim D = [] \<or> \<not> IsAsciiWhitespace (hd (Trim D)) \<and> \<not> IsAsciiWhitespace (last (Trim D)))
   \<and> (case LeftPad b D n c of Inl _ \<Rightarrow> c AND 0x80 \<noteq> 0 \<and> int (length D) < n
      | Inr E \<Rightarrow> int (length E) = max n (int (length D)) \<and> EndsWith E D)
   \<and> (case RightPad b D n c of Inl _ \<Rightarrow> c AND 0x80 \<noteq> 0 \<and> int (length D) < n
      | Inr E \<Rightarrow> int (length E) = max n (int (length D)) \<and> StartsWith E D)"
proof (intro conjI)
  show "TrimEnd D = Reverse (TrimStart (Reverse D))" by (simp add: TrimEnd_eq TrimStart_eq Reverse_eq)
  define t where "t = rev (TrimStart D)"
  have "Trim D = rev (dropWhile IsAsciiWhitespace t)" by (simp add: Trim_eq TrimEnd_eq t_def)
  moreover have "t = [] \<or> \<not> IsAsciiWhitespace (last t)"
    unfolding t_def TrimStart_eq by (metis hd_dropWhile last_rev rev_is_Nil_conv)
  moreover have "last (dropWhile IsAsciiWhitespace t) = last t" if "dropWhile IsAsciiWhitespace t \<noteq> []"
    by (metis last_appendR takeWhile_dropWhile_id that)
  ultimately show "Trim D = [] \<or> \<not> IsAsciiWhitespace (hd (Trim D)) \<and> \<not> IsAsciiWhitespace (last (Trim D))"
    by (cases "dropWhile IsAsciiWhitespace t = []") (auto simp: hd_rev last_rev hd_dropWhile)
  show "Trim D = TrimEnd (TrimStart D)" by (rule Trim_eq)
  show "case LeftPad b D n c of Inl _ \<Rightarrow> c AND 0x80 \<noteq> 0 \<and> int (length D) < n
      | Inr E \<Rightarrow> int (length E) = max n (int (length D)) \<and> EndsWith E D"
    by (auto simp: LeftPad_def EndsWith_def append_times_eq xcheck_def Let_def split: sum.split)
  show "case RightPad b D n c of Inl _ \<Rightarrow> c AND 0x80 \<noteq> 0 \<and> int (length D) < n
      | Inr E \<Rightarrow> int (length E) = max n (int (length D)) \<and> StartsWith E D"
    by (auto simp: RightPad_def StartsWith_def append_times_eq xcheck_def Let_def split: sum.split)
qed

section \<open>Integers\<close>

text \<open>
  C40: \<open>ToInt32\<close> reads back what \<open>FromInt32\<close> writes and \<open>ToInt64\<close> what \<open>FromInt64\<close> writes; the text of
  a 64-bit value outside the range of 32 bits, below it as well as above, is an \<open>Overflow\<close> of \<open>ToInt32\<close>,
  and no text is ever an \<open>Underflow\<close>.
\<close>

theorem integers_read_back:
  "ToInt32 (FromInt32 v) = Inr v \<and> ToInt64 (FromInt64 x) = Inr x
   \<and> ToInt32 (FromInt64 x) = (if - (2 ^ 31) \<le> sint x \<and> sint x < 2 ^ 31 then Inr (word_of_int (sint x)) else Inl Overflow)
   \<and> ToInt32 D \<noteq> Inl Underflow \<and> ToInt64 D \<noteq> Inl Underflow"
proof (intro conjI)
  have v: "- (2 ^ 31) \<le> sint v" "sint v < 2 ^ 31" using sint_range_size [of v] by (simp_all add: word_size)
  have x: "- (2 ^ 63) \<le> sint x" "sint x < 2 ^ 63" using sint_range_size [of x] by (simp_all add: word_size)
  have v63: "- (2 ^ 63) \<le> sint v" "sint v < 2 ^ 63" using v by simp_all
  show "ToInt32 (FromInt32 v) = Inr v"
    using ToCharsImpl_nonempty [OF v63] from_ToCharsImpl [OF v63, of 32] v by (simp add: ToInt32_def FromInt32_def)
  show "ToInt64 (FromInt64 x) = Inr x"
    using ToCharsImpl_nonempty [OF x] from_ToCharsImpl [OF x, of 64] x by (simp add: ToInt64_def FromInt64_def)
  show "ToInt32 (FromInt64 x) = (if - (2 ^ 31) \<le> sint x \<and> sint x < 2 ^ 31 then Inr (word_of_int (sint x)) else Inl Overflow)"
    using ToCharsImpl_nonempty [OF x] from_ToCharsImpl [OF x, of 32] by (simp add: ToInt32_def FromInt64_def)
  show "ToInt32 D \<noteq> Inl Underflow" "ToInt64 D \<noteq> Inl Underflow"
    by (simp_all add: ToInt32_def ToInt64_def split: prod.split)
qed

end
