(* ===== verification/Spec2Isabelle.thy ===== *)
theory Spec2Isabelle
  imports ComponentTheorems SchemaLayouts AllocatorTheorems DateTimeTheorems Utf16Theorems MpscTheorems
    TArrayTheorems TBitArrayTheorems TSetTheorems TMapTheorems
    Xxh3Theorems NameTheorems FNameTheorems FStringTheorems FStringTextTheorems
begin

text \<open>
  A verification development of XCore, the runtime layer of the XPact engine
  (\<open>src/Engine/Source/Runtime/XCore\<close>).  Its core is the object system: a table of objects, the
  handles that name them, an allocator, and a mostly concurrent mark and sweep collector that finds
  the unreachable ones and destroys them in stages.  Around it stand value classes of the layer.

  The parts and how they interact.

  \<^item> \<open>ObjectArray\<close> (\<open>FXObjectArray.cpp\<close>): the global table.  A slot is reserved, bound to an object
    and freed; a serial number grows at every release, so a handle (index, serial) of an old tenant
    can be told from the new one.  Entries carry a reference count, a root pin and state bits.
    \<open>ObjectArrayProps\<close> has the table's invariant and the locale \<open>generational_slots\<close>.
  \<^item> \<open>XObjectModel\<close> (\<open>XObject.h\<close>, \<open>XObject.cpp\<close>): object headers, flags, names, the heap of headers and
    pointer words.  \<open>Handles\<close> (\<open>XWeakPtr.h\<close>, \<open>XStrongPtr.h\<close>, \<open>XGCRoot.cpp\<close>): weak and strong pointers over
    the table, root pins.
  \<^item> \<open>GCQueues\<close>: the gray queue with its overflow list (the locale \<open>worklist\<close>), the SATB queues and
    log, the sweep candidates.  \<open>CardTable\<close>: dirty cards.  \<open>SchemaWalker\<close>: the interpreter of a class's
    reference schema; \<open>SchemaLayouts\<close>: the types, the schema emitted for one and the instances, with the
    theorem that the walk finds the references an instance holds.  \<open>RootSpans\<close>: typed and conservative
    root spans.
  \<^item> \<open>GCState\<close>, \<open>DeferredDestruction\<close>, \<open>Collector\<close> (\<open>FXObjectCollector.cpp\<close>): the collector's state, a cycle
    from root enumeration through marking, the final drain and the sweep, the elimination of
    references to garbage, deferred destruction and the write barrier.  \<open>CollectorProps\<close>, \<open>MarkCycle\<close>,
    \<open>CycleProps\<close>, \<open>SweepProps\<close> show what marking, the final drain, the mark phase and the sweep do, against
    the graph \<open>refs\<close> of objects (outers, and the slots \<open>ref_slot\<close> says a schema describes);
    \<open>Examples\<close> holds a small heap on which the theorems are applied.  \<open>DeferredProps\<close> and
    \<open>BarrierProps\<close> are about the deferred queue and the barrier.
  \<^item> \<open>Allocator\<close> (\<open>FXObjectAllocator.cpp\<close>): size classes, slabs, class pools and large blocks.
    \<open>AllocatorProps\<close> has its invariant, \<open>AllocatorOps\<close> what the operations do to the set of live
    blocks, \<open>AllocatorTheorems\<close> the locale \<open>block_allocator\<close> and its interpretation.
  \<^item> \<open>DateTime\<close>, \<open>DateTimeProps\<close>, \<open>DateTimeText\<close>, \<open>DateTimeTheorems\<close> (\<open>XDateTimeAlgorithms\<close>, \<open>FDateTime\<close>,
    \<open>FTimespan\<close>): civil dates, ISO 8601 text.  \<open>Utf16\<close>, \<open>Utf16Props\<close>, \<open>Utf16Theorems\<close>
    (\<open>FUTF16String.cpp\<close>): conversions between UTF-8 and UTF-16.
  \<^item> \<open>MpscQueue\<close>, \<open>MpscProps\<close>, \<open>MpscTheorems\<close> (\<open>TBoundedMpscQueue.h\<close>): the lock-free ring that carries
    freed blocks between threads, as a step relation over the accesses to shared memory.
  \<^item> \<open>TArrayCore\<close>, \<open>TArrayProps\<close>, \<open>TArrayTheorems\<close> (\<open>TArrayCore.h\<close>): the growable array with the lifetimes
    of its elements; \<open>TBitArray\<close>, \<open>TBitArrayProps\<close>, \<open>TBitArrayTheorems\<close> (\<open>TBitArray.cpp\<close>): bits packed into
    an array of words.
  \<^item> \<open>SwissTable\<close> (\<open>TSet.h\<close>, repeated in \<open>TMap.h\<close>): the open-addressed table of the sets and maps, for any
    element type with a key.  \<open>SwissProps\<close> shows that the triangular probe sequence reaches every slot,
    \<open>SwissInv\<close> has the invariant and what the searches answer, \<open>SwissOps\<close>, \<open>SwissRehash\<close> and \<open>SwissAdd\<close> what
    the operations do.  \<open>TSetModel\<close>, \<open>TSetTheorems\<close> and \<open>TMapModel\<close>, \<open>TMapTheorems\<close> are the two containers.
  \<^item> \<open>Xxh3\<close> (\<open>FXxh3.cpp\<close>): the XXH3 hash of a byte range.  \<open>Xxh3Props\<close>: it reads only its bytes, and
    the blocks of a long input are one sequence of stripes; \<open>Xxh3Short\<close>: every step on at most eight
    bytes is injective; \<open>Xxh3Theorems\<close>.
  \<^item> \<open>NamePool\<close> (\<open>FNamePool.cpp\<close>): the intern table, 256 shards with a table of slots, a table of entry
    pointers and a chain of blocks the entries lie in.  \<open>NamePoolProps\<close> has probing and the memory of
    entries, \<open>NameShard\<close> and \<open>NamePoolInv\<close> the invariants of a shard and of the pool and what each
    operation does; \<open>NameThreads\<close> interleaves threads, a step being a region under a shard's lock or an
    access to the initialisation flag; \<open>NameTheorems\<close>.
  \<^item> \<open>FNameModel\<close> (\<open>FName.h\<close>, \<open>FName.cpp\<close>): the handle of a name, its parsing and printing.  \<open>FNameProps\<close>
    has the locale \<open>interning\<close>, interpreted on the intern table and on the constructor of names, and the
    round trip of the number at a name's end; \<open>FNameTheorems\<close>.
  \<^item> \<open>FStringModel\<close> (\<open>FString.h\<close>, \<open>FString.cpp\<close>): the storage of a string, 64 bytes that hold a short text or
    the header of a block, with every constructor, assignment and \<open>Append\<close> on an explicit heap.
    \<open>FStringProps\<close> specifies each; \<open>FStringTheorems\<close> interprets \<open>op_refinement\<close> on any number of strings that
    share a heap.  \<open>FStringText\<close> and \<open>FStringBuild\<close> are the members that read a text and build a new one:
    \<open>FStringTextProps\<close> relates the walk over code points to a reference decoding, \<open>FStringSearch\<close> shows
    what the shift tables of the two searches may skip, \<open>FStringPieces\<close> the loops of \<open>Split\<close> and
    \<open>Replace\<close>, the trims and the digits; \<open>FStringTextTheorems\<close>.
  \<^item> \<open>OpRefinement\<close> has the locale that the containers interpret: operations that refine operations on
    lists, sets and maps.
  \<^item> \<open>XPrelude\<close>: machine words, the outcome type (an error or a value) with its combinators, runs of
    step functions, growth of buffers.  \<open>ComponentTheorems\<close>: the contracts of the components of the
    object system.  This theory: the properties of whole collection cycles.

  How states correspond.  A C++ object is a record with the members' names; shared memory is a map
  from addresses to headers and words; an atomic operation, or an operation under a lock, is one
  step.  In the bounded queue every access to shared memory is a step and threads interleave
  freely, in a sequentially consistent order.  An array's buffer is a list of cells, each raw,
  holding an object, or moved from.  A failed \<open>XPACT_CHECK\<close>, an abort and an access out of bounds are errors, and \<open>build\<close> says
  whether checks are compiled in.  Callbacks of user classes, the clock, the system allocator, hash
  functions and \<open>std::sort\<close> are arguments.

  Bounds and fuel.  Loops are structural recursions or have a measure; the final drain of the
  collector, which may run again while mutators keep dirtying, the unbounded probe of \<open>Rehash\<close> and
  the retry of \<open>AddImpl\<close> are \<open>partial_function\<close>s; \<open>run_cycle_returns\<close> proves that a cycle returns, and the
  theorems on runs of sets and maps that these loops do.  Machine integers are words where the code relies
  on their width (serial numbers, the cycle counter, addresses, code units, queue positions, the words
  of a bit array); dates and the \<open>int32\<close> sizes of containers and texts are integers with the casts
  written out, and a signed sum or product that leaves its type is an error (the date of a broken-down time, the
  counts of the UTF-16 conversions, the lengths of appended, joined and replaced texts, the terminator's byte).  The queue theorems hold as long as fewer than \<open>2^63\<close> positions less the capacity
  have been claimed, far beyond what a run can reach.  The theorems on interning threads hold for at most
  191 threads, the number of sentinels racing initialisers can register before shard 0's first slot table
  is three quarters full, and fewer than \<open>2^24\<close> names, a shard's hard cap; six steps answer a request.
  The offsets of the string searches and of the iterator are naturals: there a string is shorter than \<open>2^31 - 4\<close> bytes.  The iterator of a string is
  run for as many steps as it has bytes, each step passing at least one.

  Not modelled, because they are no logic of their own: telemetry, memory tags, thread primitives
  and the platform layer; floating-point code (vectors, percentages, the conversions of strings to and from floats), which has no
  model among the theories used here; the formatting through \<open>std::vformat\<close>; the C# build and header tools; vendored code; the tests.  Not yet modelled:
  the binned allocator, reflection, console variables, localisation.
\<close>

text \<open>
  The marks a cycle starts with decide what it may be trusted with: an object that carries the
  cycle's mark bit already counts as visited, and what it refers to is not looked at again.  The
  next three theorems therefore say what they need of those marks.  The bit is one of three and is
  not cleared between cycles, so no object carries it in the first three cycles of a heap;
  later cycles are the subject of the fifth theorem.  The roots (\<open>root_set\<close>) are the pinned and the counted objects
  of the table, what the root spans hold and what the callbacks mark.  Of the callbacks they need that
  \<open>AddReferencedObjects\<close> does not look at mark bits and that \<open>BeginDestroy\<close> leaves object
  headers alone.
\<close>

lemma closed_marks:
  "(\<forall>q r. IsMarked g q \<and> r \<in> refs E (heap g) q \<longrightarrow> IsMarked g r) \<longleftrightarrow> marks_closed E g"
  unfolding marks_closed_def marked_IsMarked [symmetric] by blast



text \<open>
  C2: a cycle starts the destruction of every object in the table that does not carry the cycle's
  mark bit when it starts, is not being destroyed already, and is reached by no root, captured
  value, object a callback pushes or rescanned dirty card.  An object that carries the bit
  from an earlier cycle is kept, as is one that is pending destruction.
\<close>

theorem cycle_reclaims_garbage:
  assumes "aro_stable E" "tame_begin E" "cycle_ready g" "sc_entries (candidates g) = []" "entries_inj (arr g)"
    "(i, p) \<in> set (ForEachObject (arr g))" "\<not> IsMarked g p"
    "p \<notin> reach E (heap g) (root_set E g \<union> captured_set g \<union> aro_scanned E g \<union> dirty_scanned E Opts g)"
    "\<not> IsPendingDestroyUnchecked (arr g) i" "\<not> HasAnyFlags (heap g) p BeginDestroyed"
  shows "\<exists>g'. RunCycle E Opts g = Some (Inr g') \<and> HasAnyFlags (heap g') p BeginDestroyed
     \<and> IsPendingDestroyUnchecked (arr g') i \<and> (\<exists>new. dq_indices g' = dq_indices g @ new \<and> i \<in> set new)"
proof -
  let ?new = "\<lambda>g1. filter (\<lambda>i. \<not> destroyed (heap g) (entry_obj (arr g) i)) (sweepable g1)"
  obtain g1 g' where r: "MarkPhase E Opts g = Some g1" "mark_frame g g1" "RunCycle E Opts g = Some (Inr g')"
    "\<forall>q. destroyed (heap g') q \<longleftrightarrow> destroyed (heap g) q \<or> q \<in> entry_obj (arr g) ` set (sweepable g1)"
    "dq_indices g' = dq_indices g @ ?new g1" "\<forall>i \<in> set (?new g1). IsPendingDestroyUnchecked (arr g') i"
    by (rule RunCycle_phases [OF assms(1-5), of Opts]) blast
  have a1: "arr g1 = arr g" using r(2) by (simp add: mark_frame_def)
  have live: "entry_obj (arr g) i = p" "p \<noteq> nullptr" using assms(6) by (simp_all add: ForEachObject_set)
  have "p \<notin> root_set E g" using assms(8) reach_refl [of "root_set E g" E "heap g"] by (auto simp: reach_Un)
  then have "\<not> IsRootPinnedUnchecked (arr g) i" "GetRefCount (arr g) i = 0"
    using not_rooted [OF assms(6)] by blast+
  moreover have "p \<notin> marked g1"
    using MarkPhase_reach(2) [OF assms(1,3) r(1)] assms(7,8) by (auto simp: marked_IsMarked)
  ultimately have "i \<in> set (sweepable g1)"
    using assms(6,9) live by (auto simp: sweepable_set sweep_test_def a1 marked_def)
  then have "i \<in> set (?new g1)" "p \<in> entry_obj (arr g) ` set (sweepable g1)" using live assms(10) by auto
  with r show ?thesis by blast
qed

text \<open>In the state of the examples nothing is captured, pushed or dirty.\<close>

lemma demo_seeds:
  "captured_set (demo_gc fl) = {}" "aro_scanned demo_env (demo_gc fl) = {}"
  "dirty_scanned demo_env Opts (demo_gc fl) = {}"
  by (simp_all add: captured_set_def aro_scanned_def demo_ready demo_roots)

theorem cycle_reclaims_garbage_witness:
  "\<exists>g'. RunCycle demo_env kDefault (demo_gc 0) = Some (Inr g') \<and> HasAnyFlags (heap g') 0x3000 BeginDestroyed
     \<and> IsPendingDestroyUnchecked (arr g') 3 \<and> (\<exists>new. dq_indices g' = dq_indices (demo_gc 0) @ new \<and> 3 \<in> set new)"
proof (rule cycle_reclaims_garbage [OF demo_ready(1-5)])
  show "(3, 0x3000) \<in> set (ForEachObject (arr (demo_gc 0)))" by (simp add: demo_gc_def demo_entries)
  show "\<not> IsMarked (demo_gc 0) 0x3000" using demo_marked(1) by (simp add: marked_IsMarked [symmetric])
  have h: "heap (demo_gc 0) = demo_heap 0" by (simp add: demo_gc_def)
  show "0x3000 \<notin> reach demo_env (heap (demo_gc 0)) (root_set demo_env (demo_gc 0) \<union> captured_set (demo_gc 0)
      \<union> aro_scanned demo_env (demo_gc 0) \<union> dirty_scanned demo_env kDefault (demo_gc 0))"
    unfolding demo_roots demo_seeds h by (simp add: demo_reach)
  show "\<not> IsPendingDestroyUnchecked (arr (demo_gc 0)) 3" by (simp add: IsPendingDestroyUnchecked_def demo_defs)
  show "\<not> HasAnyFlags (heap (demo_gc 0)) 0x3000 BeginDestroyed"
    by (simp add: HasAnyFlags_def HasAnyObjectFlags_def GetObjectFlags_def demo_defs)
qed

text \<open>
  C3: from closed marks, the mark phase marks exactly what was marked before and what the roots,
  the captured values, what the objects callbacks push refer to, and (unless a full scan drops
  them) what the objects on dirty cards refer to reach along outers and schema slots.
\<close>

theorem mark_phase_exact:
  assumes "aro_stable E" "cycle_ready g" "\<forall>q r. IsMarked g q \<and> r \<in> refs E (heap g) q \<longrightarrow> IsMarked g r"
  shows "\<exists>g'. MarkPhase E Opts g = Some g' \<and> {p. IsMarked g' p} = {p. IsMarked g p} \<union>
     reach E (heap g) (root_set E g \<union> captured_set g \<union> aro_scanned E g \<union> dirty_scanned E Opts g)"
proof -
  obtain g' where m: "MarkPhase E Opts g = Some g'" by (rule MarkPhase_spec [OF assms(1,2), of Opts]) blast
  have "marked g' = marked g \<union> reach E (heap g) (mark_seeds E Opts g)"
    using MarkPhase_reach [OF assms(1,2) m] assms(3) unfolding closed_marks by blast
  with m show ?thesis by (auto simp: marked_IsMarked [symmetric])
qed

theorem mark_phase_exact_witness:
  "\<exists>g'. MarkPhase demo_env kDefault (demo_gc 0) = Some g' \<and> {p. IsMarked g' p} = {0x1000, 0x2000}"
proof -
  have h: "heap (demo_gc 0) = demo_heap 0" by (simp add: demo_gc_def)
  have none: "{p. IsMarked (demo_gc 0) p} = {}" using demo_marked(1) by (auto simp: marked_IsMarked [symmetric])
  have "\<forall>q r. IsMarked (demo_gc 0) q \<and> r \<in> refs demo_env (heap (demo_gc 0)) q \<longrightarrow> IsMarked (demo_gc 0) r"
    unfolding closed_marks by (simp add: demo_marked)
  from mark_phase_exact [OF demo_ready(1,3) this, of kDefault]
  show ?thesis unfolding none demo_seeds demo_roots h by (simp add: demo_reach)
qed

text \<open>
  C4: a cycle returns, whatever was marked, captured or dirty when it started; it leaves the
  queues empty, the phase idle and the counter and mark index advanced, ready for the next.
\<close>

theorem run_cycle_returns:
  assumes "aro_stable E" "tame_begin E" "cycle_ready g" "sc_entries (candidates g) = []" "entries_inj (arr g)"
  shows "\<exists>g'. RunCycle E Opts g = Some (Inr g') \<and> cycle_ready g' \<and> sc_entries (candidates g') = []
     \<and> entries_inj (arr g') \<and> captured (satb g') (slog g') = [] \<and> dirty_cards (cards g') = {}
     \<and> m_phase g' = kIdle \<and> \<not> g_XGCIsConcurrentMarkActive g' \<and> m_cycleCounter g' = m_cycleCounter g + 1
     \<and> g_CurrentReachabilityIndex g' = ucast (m_cycleCounter g' mod 3)"
proof -
  obtain g' where r: "RunCycle E Opts g = Some (Inr g')" "cycle_ready g'" "captured (satb g') (slog g') = []"
    "dirty_cards (cards g') = {}" "sc_entries (candidates g') = []" "m_phase g' = kIdle"
    "\<not> g_XGCIsConcurrentMarkActive g'" "m_cycleCounter g' = m_cycleCounter g + 1"
    "g_CurrentReachabilityIndex g' = ucast ((m_cycleCounter g + 1) mod 3)"
    "\<forall>i. entry_obj (arr g') i = entry_obj (arr g) i" "m_committedCount (arr g') = m_committedCount (arr g)"
    by (rule RunCycle_phases [OF assms, of Opts]) blast
  have "entries_inj (arr g')" using assms(5) r(10,11) by (simp add: entries_inj_def ForEachObject_set)
  with r show ?thesis by auto
qed

theorem run_cycle_returns_witness:
  "\<exists>g'. RunCycle demo_env kForceFullScan (demo_gc 1) = Some (Inr g') \<and> m_cycleCounter g' = 1"
  using run_cycle_returns [OF demo_ready(1-5), of kForceFullScan 1] by (auto simp: demo_gc_def)

text \<open>
  C5: the mark bit of an earlier cycle is never cleared.  When every root still carries the
  current cycle's bit, nothing is traced: an object that a root refers to, but that does not
  carry the bit itself, is destroyed.
\<close>

theorem stale_marks_destroy_reachable:
  assumes "aro_stable E" "tame_begin E" "cycle_ready g" "sc_entries (candidates g) = []" "entries_inj (arr g)"
    "captured_set g = {}" "dirty_cards (cards g) = {}" "aro_pushed E g = {}"
    "root_set E g \<subseteq> marked g" "(i, p) \<in> set (ForEachObject (arr g))" "\<not> IsMarked g p"
    "\<not> IsPendingDestroyUnchecked (arr g) i"
    "r \<in> root_set E g" "p \<in> refs E (heap g) r"
  shows "p \<in> reach E (heap g) (root_set E g)
     \<and> (\<exists>g'. RunCycle E Opts g = Some (Inr g') \<and> HasAnyFlags (heap g') p BeginDestroyed)"
proof -
  obtain g1 g' where r: "MarkPhase E Opts g = Some g1" "mark_frame g g1" "RunCycle E Opts g = Some (Inr g')"
    "\<forall>q. destroyed (heap g') q \<longleftrightarrow> destroyed (heap g) q \<or> q \<in> entry_obj (arr g) ` set (sweepable g1)"
    by (rule RunCycle_phases [OF assms(1-5), of Opts]) blast
  obtain g1' where m: "MarkPhase E Opts g = Some g1'" "marked g1' \<subseteq> marked g \<union> reach E (heap g)
       ((root_set E g - marked g) \<union> aro_scanned E g \<union> captured_set g \<union> dirty_scanned E Opts g)"
    by (rule MarkPhase_spec [OF assms(1,3), of Opts]) blast
  have "(root_set E g - marked g) \<union> aro_scanned E g \<union> captured_set g \<union> dirty_scanned E Opts g = {}"
    using assms(6,8,9) dirty_scanned_none [OF assms(7)] by (auto simp: aro_scanned_def)
  with m r(1) have "marked g1 \<subseteq> marked g" by (simp add: reach_def)
  with assms(11) have un: "p \<notin> marked g1" by (auto simp: marked_IsMarked)
  have a1: "arr g1 = arr g" using r(2) by (simp add: mark_frame_def)
  have live: "entry_obj (arr g) i = p" "p \<noteq> nullptr" using assms(10) by (simp_all add: ForEachObject_set)
  have "p \<notin> root_set E g" using assms(9,11) by (auto simp: marked_IsMarked)
  then have "\<not> IsRootPinnedUnchecked (arr g) i" "GetRefCount (arr g) i = 0"
    using not_rooted [OF assms(10)] by blast+
  then have "i \<in> set (sweepable g1)"
    using assms(10,12) live un by (auto simp: sweepable_set sweep_test_def a1 marked_def)
  with r live have "RunCycle E Opts g = Some (Inr g') \<and> destroyed (heap g') p" by auto
  moreover have "p \<in> reach E (heap g) (root_set E g)" using refs_reach [OF assms(13)] assms(14) by blast
  ultimately show ?thesis by blast
qed

theorem stale_marks_destroy_reachable_witness:
  "0x2000 \<in> reach demo_env (heap (demo_gc 1)) (root_set demo_env (demo_gc 1))
     \<and> (\<exists>g'. RunCycle demo_env kDefault (demo_gc 1) = Some (Inr g') \<and> HasAnyFlags (heap g') 0x2000 BeginDestroyed)"
proof (rule stale_marks_destroy_reachable [OF demo_ready(1-5) _ demo_ready(7) demo_roots(2)])
  show "captured_set (demo_gc 1) = {}" by (simp add: captured_set_def demo_ready)
  show "root_set demo_env (demo_gc 1) \<subseteq> marked (demo_gc 1)" by (simp add: demo_roots demo_marked)
  show "(2, 0x2000) \<in> set (ForEachObject (arr (demo_gc 1)))" by (simp add: demo_gc_def demo_entries)
  show "\<not> IsMarked (demo_gc 1) 0x2000" using demo_marked(2) by (simp add: marked_IsMarked [symmetric])
  show "\<not> IsPendingDestroyUnchecked (arr (demo_gc 1)) 2" by (simp add: IsPendingDestroyUnchecked_def demo_defs)
  show "0x1000 \<in> root_set demo_env (demo_gc 1)" by (simp add: demo_roots)
  have "heap (demo_gc 1) = demo_heap 1" by (simp add: demo_gc_def)
  then show "0x2000 \<in> refs demo_env (heap (demo_gc 1)) 0x1000" by (simp add: demo_refs)
qed

section \<open>Sequences of cycles\<close>

fun RunCycles :: "env \<Rightarrow> EXGCOptions list \<Rightarrow> GC \<Rightarrow> (xerror + GC) option" where
  "RunCycles E [] g = Some (Inr g)"
| "RunCycles E (Opts # os) g =
     (case RunCycle E Opts g of
        None \<Rightarrow> None
      | Some (Inl e) \<Rightarrow> Some (Inl e)
      | Some (Inr g') \<Rightarrow> RunCycles E os g')"

lemma map_snd_begin_calls:
  "map snd (concat (map (\<lambda>i. begin_call E h (entry_obj a i)) is))
     = map (entry_obj a) (filter (\<lambda>i. begin_call E h (entry_obj a i) \<noteq> []) is)"
  by (induction "is") (auto simp: begin_call_def Let_def)

lemma RunCycle_begin_calls:
  assumes "aro_stable E" "tame_begin E" "cycle_ready g" "sc_entries (candidates g) = []" "entries_inj (arr g)"
  shows "\<exists>g' new. RunCycle E Opts g = Some (Inr g') \<and> begin_calls g' = begin_calls g @ new
     \<and> distinct (map snd new) \<and> (\<forall>p \<in> snd ` set new. \<not> destroyed (heap g) p \<and> destroyed (heap g') p)
     \<and> (\<forall>p. destroyed (heap g) p \<longrightarrow> destroyed (heap g') p)
     \<and> cycle_ready g' \<and> sc_entries (candidates g') = [] \<and> entries_inj (arr g')"
proof -
  obtain g1 g' where r: "mark_frame g g1" "RunCycle E Opts g = Some (Inr g')"
    "\<forall>q. destroyed (heap g') q \<longleftrightarrow> destroyed (heap g) q \<or> q \<in> entry_obj (arr g) ` set (sweepable g1)"
    "begin_calls g' = begin_calls g @ concat (map (\<lambda>i. begin_call E (heap g) (entry_obj (arr g) i))
       (filter (\<lambda>i. \<not> destroyed (heap g) (entry_obj (arr g) i)) (sweepable g1)))"
    "cycle_ready g'" "sc_entries (candidates g') = []" "\<forall>i. entry_obj (arr g') i = entry_obj (arr g) i"
    "m_committedCount (arr g') = m_committedCount (arr g)"
    by (rule RunCycle_phases [OF assms, of Opts]) blast
  let ?sw = "filter (\<lambda>i. \<not> destroyed (heap g) (entry_obj (arr g) i)) (sweepable g1)"
  let ?new = "concat (map (\<lambda>i. begin_call E (heap g) (entry_obj (arr g) i)) ?sw)"
  have a1: "arr g1 = arr g" using r(1) by (simp add: mark_frame_def)
  have live: "\<exists>p. (i, p) \<in> set (ForEachObject (arr g))" if "i \<in> set (sweepable g1)" for i
    using that by (auto simp: sweepable_set a1)
  have "distinct (sweepable g1)"
    unfolding sweepable_def by (rule distinct_map_filter [OF ForEachObject_distinct])
  moreover have "inj_on (entry_obj (arr g)) (set (sweepable g1))"
    using assms(5) live unfolding inj_on_def entries_inj_def ForEachObject_set by metis
  ultimately have "distinct (map (entry_obj (arr g)) (filter (\<lambda>i. begin_call E (heap g) (entry_obj (arr g) i) \<noteq> []) ?sw))"
    by (auto simp: distinct_map inj_on_def)
  then have d: "distinct (map snd ?new)" by (simp only: map_snd_begin_calls)
  have "snd ` set ?new \<subseteq> entry_obj (arr g) ` set ?sw"
    by (auto simp: begin_call_def Let_def split: if_splits)
  moreover have "\<forall>p \<in> entry_obj (arr g) ` set ?sw. \<not> destroyed (heap g) p \<and> destroyed (heap g') p"
    using r(3) by auto
  ultimately have n: "\<forall>p \<in> snd ` set ?new. \<not> destroyed (heap g) p \<and> destroyed (heap g') p" by blast
  have "entries_inj (arr g')" using assms(5) r(7,8) by (simp add: entries_inj_def ForEachObject_set)
  with r d n show ?thesis by blast
qed

text \<open>
  Over any sequence of cycles \<open>BeginDestroy\<close> runs at most once per object, never on an object
  that was already being destroyed, and every object it ran on carries \<open>BeginDestroyed\<close> afterwards.
\<close>

theorem begin_destroy_at_most_once:
  assumes "aro_stable E" "tame_begin E" "cycle_ready g" "sc_entries (candidates g) = []" "entries_inj (arr g)"
  shows "\<exists>g' new. RunCycles E os g = Some (Inr g') \<and> begin_calls g' = begin_calls g @ new
     \<and> distinct (map snd new)
     \<and> (\<forall>p \<in> snd ` set new. \<not> HasAnyFlags (heap g) p BeginDestroyed \<and> HasAnyFlags (heap g') p BeginDestroyed)
     \<and> (\<forall>p. HasAnyFlags (heap g) p BeginDestroyed \<longrightarrow> HasAnyFlags (heap g') p BeginDestroyed)"
  using assms(3-5)
proof (induction os arbitrary: g)
  case (Cons Opts os)
  obtain g1 new1 where r: "RunCycle E Opts g = Some (Inr g1)" "begin_calls g1 = begin_calls g @ new1"
    "distinct (map snd new1)" "\<forall>p \<in> snd ` set new1. \<not> destroyed (heap g) p \<and> destroyed (heap g1) p"
    "\<forall>p. destroyed (heap g) p \<longrightarrow> destroyed (heap g1) p"
    "cycle_ready g1" "sc_entries (candidates g1) = []" "entries_inj (arr g1)"
    using RunCycle_begin_calls [OF assms(1,2) Cons.prems] by blast
  obtain g' new2 where s: "RunCycles E os g1 = Some (Inr g')" "begin_calls g' = begin_calls g1 @ new2"
    "distinct (map snd new2)" "\<forall>p \<in> snd ` set new2. \<not> destroyed (heap g1) p \<and> destroyed (heap g') p"
    "\<forall>p. destroyed (heap g1) p \<longrightarrow> destroyed (heap g') p"
    using Cons.IH [OF r(6-8)] by blast
  have "distinct (map snd (new1 @ new2))" using r(3,4) s(3,4) by (fastforce simp: image_iff)
  moreover have "\<forall>p \<in> snd ` set (new1 @ new2). \<not> destroyed (heap g) p \<and> destroyed (heap g') p"
    using r(4,5) s(4,5) by (auto simp: image_Un)
  ultimately show ?case
    using r(1,2,5) s(1,2,5) by (intro exI [of _ g'] exI [of _ "new1 @ new2"]) simp
qed auto

theorem begin_destroy_at_most_once_witness:
  "\<exists>g' new. RunCycles demo_env [kDefault, kForceFullScan] (demo_gc 0) = Some (Inr g')
     \<and> begin_calls g' = begin_calls (demo_gc 0) @ new \<and> distinct (map snd new)"
  using begin_destroy_at_most_once [OF demo_ready(1-5), of "[kDefault, kForceFullScan]" 0] by blast

end
